(* ===== verification/Prelude.thy ===== *)
theory Prelude
  imports Main "HOL-Library.Word"
begin

unbundle bit_operations_syntax

text \<open>
  Shared vocabulary of the development: the C integer types as words, byte
  strings, \<open>size_t\<close> arithmetic with its wrap-around written out, big-endian
  coding of numbers, and the generic lemmas on lists and words that the
  component theories use.  Facts that unfold small C-level helpers are collected
  in \<open>c_simps\<close>, facts about big-endian coding in \<open>be_simps\<close>.
\<close>

named_theorems c_simps
named_theorems be_simps

section \<open>C types\<close>

type_synonym u8 = "8 word"
type_synonym u16 = "16 word"
type_synonym u32 = "32 word"
type_synonym u64 = "64 word"
type_synonym bytes = "u8 list"

text \<open>
  \<open>size_t\<close> is 64 bits wide.  Sizes are natural numbers, and the operations that
  the C code relies on to wrap around (an addition followed by an overflow test,
  an unsigned subtraction) reduce modulo \<open>2 ^ 64\<close> explicitly.
\<close>

definition SIZE_MAX :: nat where
  "SIZE_MAX = 2 ^ 64 - 1"

definition size_add :: "nat \<Rightarrow> nat \<Rightarrow> nat" where
  "size_add a b = (a + b) mod 2 ^ 64"

definition size_sub :: "nat \<Rightarrow> nat \<Rightarrow> nat" where
  "size_sub a b = (a + (2 ^ 64 - b)) mod 2 ^ 64"

lemma size_add_exact [simp]: "a + b \<le> SIZE_MAX \<Longrightarrow> size_add a b = a + b"
  by (simp add: size_add_def SIZE_MAX_def)

lemma size_add_overflow: "a \<le> SIZE_MAX \<Longrightarrow> b \<le> SIZE_MAX \<Longrightarrow>
    size_add a b < a \<longleftrightarrow> SIZE_MAX < a + b"
  by (auto simp: size_add_def SIZE_MAX_def mod_if)

lemma size_sub_exact [simp]: "b \<le> a \<Longrightarrow> a \<le> SIZE_MAX \<Longrightarrow> size_sub a b = a - b"
  by (simp add: size_sub_def SIZE_MAX_def mod_if)

section \<open>Lists\<close>

text \<open>\<open>memcpy\<close>/\<open>memmove\<close> of \<open>src\<close> into \<open>dst\<close> at an offset: the bytes around it stay.\<close>

definition write_at :: "'a list \<Rightarrow> nat \<Rightarrow> 'a list \<Rightarrow> 'a list" where
  "write_at dst off src = take off dst @ src @ drop (off + length src) dst"

lemma length_write_at [simp]:
  "off + length src \<le> length dst \<Longrightarrow> length (write_at dst off src) = length dst"
  by (simp add: write_at_def)

lemma take_write_at [simp]:
  "off \<le> length dst \<Longrightarrow> n \<le> off \<Longrightarrow> take n (write_at dst off src) = take n dst"
  by (simp add: write_at_def)

lemma take_write_at_end:
  "off \<le> length dst \<Longrightarrow> take (off + length src) (write_at dst off src) = take off dst @ src"
  by (simp add: write_at_def)

lemma write_at_Nil [simp]: "write_at dst off [] = dst"
  by (simp add: write_at_def)

lemma take_add_drop: "take (m + n) xs = take m xs @ take n (drop m xs)"
  by (rule take_add)

lemma take_eq_imp_take: "take n xs = take n ys \<Longrightarrow> m \<le> n \<Longrightarrow> take m xs = take m ys"
  by (metis min.absorb2 min.commute take_take)

lemma nth_eq_of_take: "take n xs = take n ys \<Longrightarrow> i < n \<Longrightarrow> i < length xs \<Longrightarrow> xs ! i = ys ! i"
  by (metis nth_take)

section \<open>Words and big-endian coding\<close>

text \<open>The number a big-endian byte string denotes, and the \<open>n\<close>-byte coding of a number.\<close>

definition be_val :: "bytes \<Rightarrow> nat" where
  "be_val bs = foldl (\<lambda>a b. a * 256 + unat b) 0 bs"

primrec be_bytes :: "nat \<Rightarrow> nat \<Rightarrow> bytes" where
  "be_bytes 0 v = []"
| "be_bytes (Suc n) v = be_bytes n (v div 256) @ [of_nat (v mod 256)]"

lemma be_val_Nil [simp]: "be_val [] = 0"
  by (simp add: be_val_def)

lemma be_val_snoc [simp]: "be_val (bs @ [b]) = be_val bs * 256 + unat b"
  by (simp add: be_val_def)

lemma unat_u8_lt: "unat (b :: u8) < 256"
  using unsigned_less [where w = b and 'a = nat] by simp

lemma unat_ucast_u8_u32 [simp]: "unat (ucast (b :: u8) :: u32) = unat b"
  using unat_u8_lt [of b] by (simp add: unsigned_ucast_eq take_bit_eq_mod)

lemma ucast_u8_u32_inj [simp]: "(ucast (a :: u8) :: u32) = ucast b \<longleftrightarrow> a = b"
  by (metis unat_ucast_u8_u32 word_unat_eq_iff)

lemma be_val_single [simp]: "be_val [b] = unat b"
  by (simp add: be_val_def)

lemma be_val_append: "be_val (xs @ ys) = be_val xs * 256 ^ length ys + be_val ys"
proof (induction ys rule: rev_induct)
  case Nil
  then show ?case by simp
next
  case (snoc y ys)
  have "be_val (xs @ ys @ [y]) = be_val (xs @ ys) * 256 + unat y"
    by (metis append.assoc be_val_snoc)
  with snoc show ?case by (simp add: algebra_simps)
qed

lemma be_val_Cons: "be_val (x # xs) = unat x * 256 ^ length xs + be_val xs"
  using be_val_append [of "[x]" xs] by simp

lemma be_val_lt: "be_val bs < 256 ^ length bs"
proof (induction bs rule: rev_induct)
  case Nil
  then show ?case by simp
next
  case (snoc b bs)
  have "be_val bs * 256 + unat b < (be_val bs + 1) * 256"
    using unat_u8_lt [of b] by simp
  also have "\<dots> \<le> 256 ^ length bs * 256"
    using snoc by (intro mult_le_mono1) simp
  finally show ?case by simp
qed

lemma length_be_bytes [simp]: "length (be_bytes n v) = n"
  by (induction n arbitrary: v) auto

lemma be_val_be_bytes [be_simps]: "be_val (be_bytes n v) = v mod 256 ^ n"
proof (induction n arbitrary: v)
  case 0
  then show ?case by simp
next
  case (Suc n)
  have "unat (of_nat (v mod 256) :: u8) = v mod 256"
    by (simp add: unat_of_nat)
  with Suc show ?case
    by (simp add: mod_mult2_eq mult.commute)
qed

lemma be_val_be_bytes_exact: "v < 256 ^ n \<Longrightarrow> be_val (be_bytes n v) = v"
  by (simp add: be_val_be_bytes)

lemma be_bytes_be_val [be_simps]: "be_bytes (length bs) (be_val bs) = bs"
proof (induction bs rule: rev_induct)
  case Nil
  then show ?case by simp
next
  case (snoc b bs)
  have "(be_val bs * 256 + unat b) div 256 = be_val bs" "(be_val bs * 256 + unat b) mod 256 = unat b"
    using unat_u8_lt [of b] by auto
  with snoc show ?case by simp
qed

lemma be_bytes_mod: "be_bytes n (v mod 256 ^ n) = be_bytes n v"
  by (metis be_bytes_be_val be_val_be_bytes length_be_bytes)

text \<open>The shift-and-or loop with which the C code assembles a number from bytes.\<close>

definition shift_in :: "'a::len word \<Rightarrow> u8 \<Rightarrow> 'a word" where
  "shift_in r b = push_bit 8 r OR ucast b"

lemma shift_in_add: "8 \<le> LENGTH('a) \<Longrightarrow> shift_in r b = (r * 256 + ucast b :: 'a::len word)"
proof -
  assume le: "8 \<le> LENGTH('a)"
  have "push_bit 8 r AND (ucast b :: 'a word) = 0"
    by (rule bit_word_eqI) (auto simp: bit_simps dest: bit_imp_le_length)
  then have "push_bit 8 r OR ucast b = push_bit 8 r + (ucast b :: 'a word)"
    by (rule disjunctive_add_eq_or [symmetric])
  then show ?thesis
    by (simp add: shift_in_def push_bit_eq_mult)
qed

lemma unat_shift_in:
  assumes "unat r * 256 + unat b < 2 ^ LENGTH('a)" and "8 \<le> LENGTH('a)"
  shows "unat (shift_in r b :: 'a::len word) = unat r * 256 + unat b"
proof -
  have "(shift_in r b :: 'a word) = of_nat (unat r * 256 + unat b)"
    using assms(2) by (simp add: shift_in_add)
  with assms(1) show ?thesis
    by (simp add: unat_of_nat del: of_nat_add of_nat_mult)
qed

lemma unat_foldl_shift_in [be_simps]:
  assumes "8 \<le> LENGTH('a)" and "256 ^ length bs \<le> (2::nat) ^ LENGTH('a)"
  shows "unat (foldl shift_in (0 :: 'a::len word) bs) = be_val bs"
  using assms(2)
proof (induction bs rule: rev_induct)
  case Nil
  then show ?case by simp
next
  case (snoc b bs)
  have "(256::nat) ^ length bs \<le> 256 ^ length (bs @ [b])" by simp
  with snoc have IH: "unat (foldl shift_in (0 :: 'a word) bs) = be_val bs"
    by (meson le_trans)
  have "be_val (bs @ [b]) < 2 ^ LENGTH('a)"
    using be_val_lt [of "bs @ [b]"] snoc.prems by linarith
  with IH assms(1) show ?case
    by (simp add: unat_shift_in)
qed

lemma foldl_shift_in_eq:
  assumes "8 \<le> LENGTH('a)" and "256 ^ length bs \<le> (2::nat) ^ LENGTH('a)"
  shows "foldl shift_in (0 :: 'a::len word) bs = of_nat (be_val bs)"
  using unat_foldl_shift_in [OF assms] by (metis of_nat_unat ucast_id)

text \<open>Writing a number byte by byte, last byte first: store the low byte, shift right by 8.\<close>

primrec put_be :: "nat \<Rightarrow> 'a::len word \<Rightarrow> bytes" where
  "put_be 0 v = []"
| "put_be (Suc n) v = put_be n (drop_bit 8 v) @ [ucast v]"

lemma put_be_eq [be_simps]: "put_be n v = be_bytes n (unat v)"
proof (induction n arbitrary: v)
  case 0
  then show ?case by simp
next
  case (Suc n)
  have "ucast v = (of_nat (unat v mod 256) :: u8)"
    by (simp add: word_unat_eq_iff unat_of_nat unsigned_ucast_eq take_bit_eq_mod)
  moreover have "unat (drop_bit 8 v) = unat v div 256"
    by (simp add: unat_drop_bit_eq drop_bit_eq_div [where a = "unat v"])
  ultimately show ?case using Suc by simp
qed

end
