(* ===== verification/Libc_String.thy ===== *)
theory Libc_String
  imports Prelude
begin

text \<open>
  The memory and string primitives of libc that the TLS code leans on
  (src/lib/libc/string): \<open>memchr\<close>, \<open>memcmp\<close>, the two constant-time comparisons,
  \<open>strlen\<close>, \<open>strnlen\<close>, \<open>strndup\<close>, \<open>strlcpy\<close> and \<open>strlcat\<close>.

  A pointer argument is the list of bytes from the pointer to the end of the
  object it points into; advancing a pointer is \<^const>\<open>tl\<close>, or an index where the
  code keeps the start of the object.  A returned pointer is an offset.  An
  \<open>int\<close> is an \<^typ>\<open>int\<close>: every value that occurs lies between -255 and 255.
\<close>

section \<open>Comparison and search\<close>

fun memchr :: "bytes \<Rightarrow> int \<Rightarrow> nat \<Rightarrow> nat option" where
  "memchr p c 0 = None"
| "memchr p c (Suc n) =
     (if hd p = of_int c then Some 0 else map_option Suc (memchr (tl p) c n))"

fun memcmp :: "bytes \<Rightarrow> bytes \<Rightarrow> nat \<Rightarrow> int" where
  "memcmp p1 p2 0 = 0"
| "memcmp p1 p2 (Suc n) =
     (if hd p1 \<noteq> hd p2 then uint (hd p1) - uint (hd p2)
      else memcmp (tl p1) (tl p2) n)"

text \<open>
  \<open>>>\<close> on a negative \<open>int\<close> is the arithmetic shift, which is \<^const>\<open>drop_bit\<close> on
  \<^typ>\<open>int\<close>; \<open>CHAR_BIT\<close> is 8.
\<close>

fun timingsafe_memcmp_loop :: "bytes \<Rightarrow> bytes \<Rightarrow> nat \<Rightarrow> int \<Rightarrow> int \<Rightarrow> int" where
  "timingsafe_memcmp_loop p1 p2 0 res done = res"
| "timingsafe_memcmp_loop p1 p2 (Suc n) res done =
     (let lt = drop_bit 8 (uint (hd p1) - uint (hd p2));
          gt = drop_bit 8 (uint (hd p2) - uint (hd p1));
          cmp = lt - gt;
          res = res OR (cmp AND NOT done);
          done = done OR (lt OR gt)
      in timingsafe_memcmp_loop (tl p1) (tl p2) n res done)"

definition timingsafe_memcmp :: "bytes \<Rightarrow> bytes \<Rightarrow> nat \<Rightarrow> int" where
  "timingsafe_memcmp b1 b2 len = timingsafe_memcmp_loop b1 b2 len 0 0"

fun timingsafe_bcmp_loop :: "bytes \<Rightarrow> bytes \<Rightarrow> nat \<Rightarrow> u32 \<Rightarrow> u32" where
  "timingsafe_bcmp_loop p1 p2 0 ret = ret"
| "timingsafe_bcmp_loop p1 p2 (Suc n) ret =
     timingsafe_bcmp_loop (tl p1) (tl p2) n (ret OR ucast (hd p1 XOR hd p2))"

definition timingsafe_bcmp :: "bytes \<Rightarrow> bytes \<Rightarrow> nat \<Rightarrow> bool" where
  "timingsafe_bcmp b1 b2 n \<longleftrightarrow> timingsafe_bcmp_loop b1 b2 n 0 \<noteq> 0"

section \<open>C strings\<close>

fun strlen :: "bytes \<Rightarrow> nat" where
  "strlen [] = 0"
| "strlen (b # bs) = (if b = 0 then 0 else Suc (strlen bs))"

fun strnlen :: "bytes \<Rightarrow> nat \<Rightarrow> nat" where
  "strnlen s 0 = 0"
| "strnlen s (Suc n) = (if hd s = 0 then 0 else Suc (strnlen (tl s) n))"

text \<open>\<open>malloc\<close> is a parameter: which request sizes the allocator can satisfy.\<close>

definition strndup :: "(nat \<Rightarrow> bool) \<Rightarrow> bytes \<Rightarrow> nat \<Rightarrow> bytes option" where
  "strndup malloc str maxlen =
     (let len = strnlen str maxlen
      in if malloc (len + 1) then Some (take len str @ [0]) else None)"

text \<open>
  \<open>strlcpy\<close>: the copying loop runs on the indices of \<open>dst\<close> and \<open>src\<close> and the
  space left; it returns the destination, both indices and \<open>nleft\<close>.
\<close>

function strlcpy_loop :: "bytes \<Rightarrow> nat \<Rightarrow> bytes \<Rightarrow> nat \<Rightarrow> nat \<Rightarrow> bytes \<times> nat \<times> nat \<times> nat" where
  "strlcpy_loop dst d src s nleft =
     (let nleft = nleft - 1
      in if nleft = 0 then (dst, d, s, nleft)
         else let dst = dst[d := src ! s]
              in if src ! s = 0 then (dst, Suc d, Suc s, nleft)
                 else strlcpy_loop dst (Suc d) src (Suc s) nleft)"
  by pat_completeness auto
termination
  by (relation "measure (\<lambda>(dst, d, src, s, nleft). nleft)") auto

definition strlcpy :: "bytes \<Rightarrow> bytes \<Rightarrow> nat \<Rightarrow> bytes \<times> nat" where
  "strlcpy dst src dsize =
     (let (dst, d, s, nleft) =
            (if dsize \<noteq> 0 then strlcpy_loop dst 0 src 0 dsize else (dst, 0, 0, dsize));
          (dst, s) =
            (if nleft = 0
             then (if dsize \<noteq> 0 then dst[d := 0] else dst, s + strlen (drop s src) + 1)
             else (dst, s))
      in (dst, s - 1))"

fun strlcat_loop :: "bytes \<Rightarrow> nat \<Rightarrow> bytes \<Rightarrow> nat \<Rightarrow> nat \<Rightarrow> bytes \<times> nat \<times> nat" where
  "strlcat_loop dst d [] s n = (dst, d, s)"
| "strlcat_loop dst d (c # src) s n =
     (if c = 0 then (dst, d, s)
      else if n \<noteq> 0 then strlcat_loop (dst[d := c]) (Suc d) src (Suc s) (n - 1)
      else strlcat_loop dst d src (Suc s) n)"

definition strlcat :: "bytes \<Rightarrow> bytes \<Rightarrow> nat \<Rightarrow> bytes \<times> nat" where
  "strlcat dst src dsize =
     (let dlen = strnlen dst dsize;
          n = dsize - dlen
      in if n = 0 then (dst, dlen + strlen src)
         else let (dst, d, s) = strlcat_loop dst dlen src 0 (n - 1)
              in (dst[d := 0], dlen + s))"

section \<open>Lemmas\<close>

lemma memchr_None_iff:
  "n \<le> length p \<Longrightarrow> memchr p c n = None \<longleftrightarrow> of_int c \<notin> set (take n p)"
proof (induction p c n rule: memchr.induct)
  case (2 p c n)
  then show ?case by (cases p) auto
qed simp

lemma memcmp_zero_iff:
  "n \<le> length p1 \<Longrightarrow> n \<le> length p2 \<Longrightarrow> memcmp p1 p2 n = 0 \<longleftrightarrow> take n p1 = take n p2"
proof (induction p1 p2 n rule: memcmp.induct)
  case (2 p1 p2 n)
  then show ?case by (cases p1; cases p2) (auto simp: word_uint_eq_iff)
qed simp

lemma drop_bit_byte_diff:
  "drop_bit 8 (uint (a :: u8) - uint b) = (if a < b then -1 else 0)"
proof -
  let ?d = "uint a - uint b"
  have "uint a < 256" "uint b < 256"
    using uint_lt2p [of a] uint_lt2p [of b] by simp_all
  with uint_ge_0 [of a] uint_ge_0 [of b] have range: "-256 < ?d" "?d < 256"
    by linarith+
  have "a < b \<longleftrightarrow> ?d < 0" by (simp add: word_less_def)
  moreover have "drop_bit 8 ?d = ?d div 256" by (simp add: drop_bit_eq_div)
  moreover have "?d < 0 \<Longrightarrow> ?d div 256 = -1"
    using range by linarith
  moreover have "\<not> ?d < 0 \<Longrightarrow> ?d div 256 = 0"
    using range by linarith
  ultimately show ?thesis by auto
qed

lemma timingsafe_memcmp_loop_done:
  "timingsafe_memcmp_loop p1 p2 n res (-1) = res"
  by (induction n arbitrary: p1 p2) (simp_all add: Let_def)

lemma timingsafe_memcmp_loop_sgn:
  "timingsafe_memcmp_loop p1 p2 n 0 0 = sgn (memcmp p1 p2 n)"
proof (induction n arbitrary: p1 p2)
  case 0
  then show ?case by simp
next
  case (Suc n)
  consider "hd p1 < hd p2" | "hd p1 = hd p2" | "hd p2 < hd p1" by (rule linorder_cases)
  then show ?case
  proof cases
    case 1
    then show ?thesis
      by (auto simp: drop_bit_byte_diff timingsafe_memcmp_loop_done word_less_def Let_def)
  next
    case 2
    then show ?thesis by (simp add: drop_bit_byte_diff Suc.IH Let_def)
  next
    case 3
    then show ?thesis
      by (auto simp: drop_bit_byte_diff timingsafe_memcmp_loop_done word_less_def Let_def)
  qed
qed

lemma timingsafe_memcmp_sgn: "timingsafe_memcmp b1 b2 n = sgn (memcmp b1 b2 n)"
  by (simp add: timingsafe_memcmp_def timingsafe_memcmp_loop_sgn)

lemma ucast_xor_eq_0: "(ucast (a XOR b :: u8) :: u32) = 0 \<longleftrightarrow> a = b"
proof
  assume "(ucast (a XOR b :: u8) :: u32) = 0"
  then have "\<not> bit (ucast (a XOR b) :: u32) n" for n by simp
  then show "a = b"
    by (intro bit_word_eqI) (auto simp: bit_simps)
qed simp

lemma or_eq_0_iff_u32: "(a OR b :: u32) = 0 \<longleftrightarrow> a = 0 \<and> b = 0"
  by (rule or_eq_0_iff)

lemma timingsafe_bcmp_loop_zero:
  "timingsafe_bcmp_loop p1 p2 n ret = 0 \<longleftrightarrow> ret = 0 \<and> memcmp p1 p2 n = 0"
proof (induction p1 p2 n ret rule: timingsafe_bcmp_loop.induct)
  case (2 p1 p2 n ret)
  have "ret OR ucast (hd p1 XOR hd p2) = 0 \<longleftrightarrow> ret = 0 \<and> hd p1 = hd p2"
    by (auto simp: or_eq_0_iff_u32 ucast_xor_eq_0)
  with 2 show ?case by (auto simp: word_uint_eq_iff)
qed simp

text \<open>A byte list that holds a C string: it has a NUL.\<close>

definition is_cstr :: "bytes \<Rightarrow> bool" where
  "is_cstr s \<longleftrightarrow> 0 \<in> set s"

lemma strlen_less: "is_cstr s \<Longrightarrow> strlen s < length s"
  by (induction s) (auto simp: is_cstr_def)

lemma strlen_nth: "is_cstr s \<Longrightarrow> s ! strlen s = 0"
  by (induction s) (auto simp: is_cstr_def)

lemma nth_before_strlen: "i < strlen s \<Longrightarrow> s ! i \<noteq> 0"
  by (induction s arbitrary: i) (auto simp: nth_Cons split: nat.splits if_splits)

lemma strlen_drop: "n \<le> strlen s \<Longrightarrow> strlen (drop n s) = strlen s - n"
  by (induction s arbitrary: n) (auto simp: drop_Cons split: nat.splits if_splits)

lemma take_update_step:
  "d < length dst \<Longrightarrow> take d dst @ x # ys = take (Suc d) (dst[d := x]) @ ys"
  by (simp add: take_Suc_conv_app_nth)

text \<open>
  What the copying loop of \<open>strlcpy\<close> does, started at equal indices: it copies
  the string and its NUL when they fit, and \<open>nleft - 1\<close> bytes otherwise.
\<close>

lemma strlcpy_loop_eq:
  assumes "is_cstr src" and "s \<le> strlen src" and "0 < nleft" and "s + nleft \<le> length dst"
    and "take s dst = take s src"
  shows "strlcpy_loop dst s src s nleft =
     (if strlen src < s + nleft - 1
      then (write_at dst 0 (take (Suc (strlen src)) src), Suc (strlen src), Suc (strlen src),
            s + nleft - 1 - strlen src)
      else (write_at dst 0 (take (s + nleft - 1) src), s + nleft - 1, s + nleft - 1, 0))"
  using assms
proof (induction nleft arbitrary: dst s)
  case 0
  then show ?case by simp
next
  case (Suc nleft)
  note lt = strlen_less [OF Suc.prems(1)]
  let ?dst = "dst[s := src ! s]"
  have s: "s < length dst" "s < length src" using Suc.prems lt by simp_all
  have pre: "take (Suc s) ?dst = take (Suc s) src"
    using s Suc.prems by (simp add: take_Suc_conv_app_nth)
  have wr: "write_at ?dst 0 (take n src) = write_at dst 0 (take n src)" if "s < n" "n \<le> length src" for n
    using that by (simp add: write_at_def)
  have id: "write_at xs 0 (take n src) = xs" if "take n xs = take n src" "n \<le> length src" for xs n
    using that by (metis append_take_drop_id length_take min.absorb2 write_at_def add_0 take0 append_Nil)
  show ?case
  proof (cases "nleft = 0")
    case True
    with Suc.prems id [of s dst] lt show ?thesis by (subst strlcpy_loop.simps) simp
  next
    case False
    show ?thesis
    proof (cases "s = strlen src")
      case True
      have "src ! s = 0" using True strlen_nth [OF Suc.prems(1)] by simp
      moreover have "write_at dst 0 (take (Suc s) src) = ?dst"
        using id [OF pre] wr [of "Suc s"] s by simp
      ultimately show ?thesis using True False
        by (subst strlcpy_loop.simps) simp
    next
      case neq: False
      with Suc.prems have "src ! s \<noteq> 0" by (simp add: nth_before_strlen)
      moreover have "strlcpy_loop ?dst (Suc s) src (Suc s) nleft =
         (if strlen src < Suc s + nleft - 1
          then (write_at ?dst 0 (take (Suc (strlen src)) src), Suc (strlen src), Suc (strlen src),
                Suc s + nleft - 1 - strlen src)
          else (write_at ?dst 0 (take (Suc s + nleft - 1) src), Suc s + nleft - 1, Suc s + nleft - 1, 0))"
        using Suc.prems neq False pre by (intro Suc.IH) auto
      ultimately show ?thesis
        using False neq Suc.prems lt wr [of "Suc (strlen src)"] wr [of "s + nleft"]
        by (subst strlcpy_loop.simps) (auto simp: Let_def)
    qed
  qed
qed

lemma write_at_update_end:
  "n < length dst \<Longrightarrow> n = length xs \<Longrightarrow> (write_at dst 0 xs)[n := x] = write_at dst 0 (xs @ [x])"
  by (simp add: write_at_def list_update_append Cons_nth_drop_Suc [symmetric])

text \<open>
  What the appending loop of \<open>strlcat\<close> does: it stores as much of the string as
  fits in \<open>n\<close> bytes and counts all of it.
\<close>

lemma strlcat_loop_eq:
  assumes "is_cstr src" and "d + n < length dst"
  shows "strlcat_loop dst d src s n =
     (write_at dst d (take (min n (strlen src)) src), d + min n (strlen src), s + strlen src)"
  using assms
proof (induction dst d src s n rule: strlcat_loop.induct)
  case (1 dst d s n)
  then show ?case by (simp add: is_cstr_def)
next
  case (2 dst d c src s n)
  show ?case
  proof (cases "c = 0")
    case True
    then show ?thesis by simp
  next
    case False
    with "2.prems" have cs: "is_cstr src" by (auto simp: is_cstr_def)
    show ?thesis
    proof (cases n)
      case 0
      with False "2.IH"(2) "2.prems" cs show ?thesis by simp
    next
      case (Suc m)
      have "write_at (dst[d := c]) (Suc d) (take (min m (strlen src)) src) =
            write_at dst d (c # take (min m (strlen src)) src)"
        using "2.prems" Suc by (simp add: write_at_def take_Suc_conv_app_nth)
      with Suc False "2.IH"(1) "2.prems" cs show ?thesis by simp
    qed
  qed
qed

lemma strnlen_le: "strnlen s n \<le> n"
  by (induction s n rule: strnlen.induct) auto

section \<open>Properties\<close>

text \<open>
  C19.  The constant-time comparison \<open>timingsafe_memcmp\<close>, which never branches on
  the data, computes exactly the sign of \<open>memcmp\<close>, on all inputs and lengths.
\<close>

theorem timingsafe_memcmp_is_sgn_memcmp:
  "timingsafe_memcmp b1 b2 len = sgn (memcmp b1 b2 len)"
  by (rule timingsafe_memcmp_sgn)

text \<open>
  C17.  \<open>strlcpy\<close> into an object of at least \<open>dsize\<close> bytes returns the length of
  the source, stores the longest prefix that fits followed by a NUL at the start
  of the destination, and leaves every other byte (in particular everything at or
  beyond \<open>dsize\<close>) as it was; with \<open>dsize = 0\<close> it writes nothing.
\<close>

theorem strlcpy_correct:
  assumes "is_cstr src" and "dsize \<le> length dst"
  shows "strlcpy dst src dsize =
    (if dsize = 0 then dst else write_at dst 0 (take (min (strlen src) (dsize - 1)) src @ [0]),
     strlen src)"
proof (cases "dsize = 0")
  case True
  then show ?thesis by (simp add: strlcpy_def)
next
  case False
  note lt = strlen_less [OF assms(1)]
  have loop: "strlcpy_loop dst 0 src 0 dsize =
     (if strlen src < dsize - 1
      then (write_at dst 0 (take (Suc (strlen src)) src), Suc (strlen src), Suc (strlen src),
            dsize - 1 - strlen src)
      else (write_at dst 0 (take (dsize - 1) src), dsize - 1, dsize - 1, 0))"
    using strlcpy_loop_eq [of src 0 dsize dst] assms False by simp
  have "take (Suc (strlen src)) src = take (strlen src) src @ [0]"
    using lt strlen_nth [OF assms(1)] by (simp add: take_Suc_conv_app_nth)
  moreover have "(write_at dst 0 (take (dsize - 1) src))[dsize - 1 := 0] =
      write_at dst 0 (take (dsize - 1) src @ [0])" if "dsize - 1 \<le> strlen src"
    using that lt assms(2) False by (intro write_at_update_end) auto
  ultimately show ?thesis
    using False loop lt by (auto simp: strlcpy_def strlen_drop min_def)
qed

theorem strlcpy_correct_witness:
  "strlcpy [1, 2, 3, 4, 5] [104, 105, 106, 0] 3 = ([104, 105, 0, 4, 5], 3)"
  using strlcpy_correct [of "[104, 105, 106, 0]" 3 "[1, 2, 3, 4, 5]"]
  by (simp add: is_cstr_def write_at_def)

text \<open>
  C18.  \<open>strlcat\<close> returns \<open>min dsize (strlen dst) + strlen src\<close>; when the
  destination string ends before \<open>dsize\<close> it appends the longest prefix of the
  source that leaves room for the NUL, and otherwise it writes nothing.
\<close>

theorem strlcat_correct:
  assumes "is_cstr src" and "dsize \<le> length dst"
  shows "strlcat dst src dsize =
    (let dlen = strnlen dst dsize
     in (if dlen = dsize then dst
         else write_at dst dlen (take (min (dsize - dlen - 1) (strlen src)) src @ [0]),
         dlen + strlen src))"
proof -
  let ?dlen = "strnlen dst dsize"
  let ?k = "min (dsize - ?dlen - 1) (strlen src)"
  show ?thesis
  proof (cases "?dlen = dsize")
    case True
    then show ?thesis by (simp add: strlcat_def)
  next
    case False
    with strnlen_le [of dst dsize] have lt: "?dlen < dsize" by simp
    have "(write_at dst ?dlen (take ?k src))[?dlen + ?k := 0] =
          write_at dst ?dlen (take ?k src @ [0])"
      using lt assms strlen_less [OF assms(1)]
      by (simp add: write_at_def list_update_append Cons_nth_drop_Suc [symmetric] min_def)
    with lt assms show ?thesis
      by (simp add: strlcat_def strlcat_loop_eq)
  qed
qed

theorem strlcat_correct_witness:
  "strlcat [104, 105, 0, 9, 9] [106, 107, 108, 0] 4 = ([104, 105, 106, 0, 9], 5)"
proof -
  have "strnlen [104, 105, 0, 9, 9] 4 = 2" by code_simp
  then show ?thesis
    using strlcat_correct [of "[106, 107, 108, 0]" 4 "[104, 105, 0, 9, 9]"]
    by (simp add: is_cstr_def write_at_def)
qed

end
