(* ===== verification/CBS.thy ===== *)
theory CBS
  imports Libc_String
begin

text \<open>
  The byte-string reader of src/lib/libcrypto/bytestring/bs_cbs.c.

  A \<open>CBS\<close> is a pointer and two lengths.  The pointer is modelled by the bytes
  from it to the end of the object it points into, so that \<open>cbs_len\<close> may be
  smaller than the object: bytes beyond \<open>cbs_len\<close> exist, and reading them would be
  an out-of-bounds read.  An operation that takes \<open>CBS *\<close> returns the reader it
  leaves behind, on failure too, since several operations fail after they have
  advanced it.  The first component is the value delivered through the out
  parameters: \<^const>\<open>None\<close> is the return value 0.
\<close>

section \<open>The reader\<close>

record CBS =
  cbs_data :: bytes
  cbs_initial_len :: nat
  cbs_len :: nat

type_synonym 'a cbs_res = "'a option \<times> CBS"

definition CBS_init :: "bytes \<Rightarrow> nat \<Rightarrow> CBS" where
  "CBS_init data len = \<lparr>cbs_data = data, cbs_initial_len = len, cbs_len = len\<rparr>"

definition CBS_data :: "CBS \<Rightarrow> bytes" where
  "CBS_data c = cbs_data c"

definition CBS_len :: "CBS \<Rightarrow> nat" where
  "CBS_len c = cbs_len c"

definition CBS_dup :: "CBS \<Rightarrow> CBS" where
  "CBS_dup c = (CBS_init (CBS_data c) (CBS_len c))\<lparr>cbs_initial_len := cbs_initial_len c\<rparr>"

definition cbs_get :: "CBS \<Rightarrow> nat \<Rightarrow> bytes cbs_res" where
  "cbs_get c n =
     (if cbs_len c < n then (None, c)
      else (Some (cbs_data c),
            c\<lparr>cbs_data := drop n (cbs_data c), cbs_len := cbs_len c - n\<rparr>))"

definition cbs_peek :: "CBS \<Rightarrow> nat \<Rightarrow> bytes option" where
  "cbs_peek c n = (if cbs_len c < n then None else Some (cbs_data c))"

definition CBS_offset :: "CBS \<Rightarrow> nat" where
  "CBS_offset c = size_sub (cbs_initial_len c) (cbs_len c)"

definition CBS_skip :: "CBS \<Rightarrow> nat \<Rightarrow> unit cbs_res" where
  "CBS_skip c n = (case cbs_get c n of (None, c) \<Rightarrow> (None, c) | (Some _, c) \<Rightarrow> (Some (), c))"

text \<open>
  \<open>CBS_stow\<close> and \<open>CBS_strdup\<close> allocate; \<open>malloc\<close> tells which sizes can be had.
  The result is the return value and what \<open>*out_ptr\<close> (and \<open>*out_len\<close>) hold then.
\<close>

definition CBS_stow :: "(nat \<Rightarrow> bool) \<Rightarrow> CBS \<Rightarrow> bool \<times> bytes option \<times> nat" where
  "CBS_stow malloc c =
     (if cbs_len c = 0 then (True, None, 0)
      else if \<not> malloc (cbs_len c) then (False, None, 0)
      else (True, Some (take (cbs_len c) (cbs_data c)), cbs_len c))"

definition CBS_contains_zero_byte :: "CBS \<Rightarrow> bool" where
  "CBS_contains_zero_byte c \<longleftrightarrow> memchr (cbs_data c) 0 (cbs_len c) \<noteq> None"

definition CBS_strdup :: "(nat \<Rightarrow> bool) \<Rightarrow> CBS \<Rightarrow> bool \<times> bytes option" where
  "CBS_strdup malloc c =
     (if CBS_contains_zero_byte c then (False, None)
      else let out_ptr = strndup malloc (cbs_data c) (cbs_len c)
           in (out_ptr \<noteq> None, out_ptr))"

definition CBS_write_bytes :: "CBS \<Rightarrow> bytes \<Rightarrow> nat \<Rightarrow> (bytes \<times> nat) option" where
  "CBS_write_bytes c dst dst_len =
     (if dst_len < cbs_len c then None
      else Some (write_at dst 0 (take (cbs_len c) (cbs_data c)), cbs_len c))"

definition CBS_mem_equal :: "CBS \<Rightarrow> bytes \<Rightarrow> nat \<Rightarrow> bool" where
  "CBS_mem_equal c data len \<longleftrightarrow>
     (if len \<noteq> cbs_len c then False else timingsafe_memcmp (cbs_data c) data len = 0)"

section \<open>Fixed-width integers\<close>

definition cbs_get_u :: "CBS \<Rightarrow> nat \<Rightarrow> u32 cbs_res" where
  "cbs_get_u c len =
     (if len < 1 \<or> len > 4 then (None, c)
      else case cbs_get c len of
          (None, c) \<Rightarrow> (None, c)
        | (Some data, c) \<Rightarrow> (Some (foldl shift_in 0 (take len data)), c))"

definition CBS_get_u8 :: "CBS \<Rightarrow> u8 cbs_res" where
  "CBS_get_u8 c =
     (case cbs_get c 1 of (None, c) \<Rightarrow> (None, c) | (Some v, c) \<Rightarrow> (Some (hd v), c))"

definition CBS_get_u16 :: "CBS \<Rightarrow> u16 cbs_res" where
  "CBS_get_u16 c =
     (case cbs_get_u c 2 of (None, c) \<Rightarrow> (None, c) | (Some v, c) \<Rightarrow> (Some (ucast v), c))"

definition CBS_get_u24 :: "CBS \<Rightarrow> u32 cbs_res" where
  "CBS_get_u24 c = cbs_get_u c 3"

definition CBS_get_u32 :: "CBS \<Rightarrow> u32 cbs_res" where
  "CBS_get_u32 c = cbs_get_u c 4"

definition CBS_get_u64 :: "CBS \<Rightarrow> u64 cbs_res" where
  "CBS_get_u64 c =
     (if cbs_len c < 8 then (None, c)
      else case CBS_get_u32 c of
          (None, c) \<Rightarrow> (None, c)
        | (Some a, c) \<Rightarrow>
           (case CBS_get_u32 c of
              (None, c) \<Rightarrow> (None, c)
            | (Some b, c) \<Rightarrow> (Some (push_bit 32 (ucast a) OR ucast b), c)))"

definition CBS_get_last_u8 :: "CBS \<Rightarrow> u8 cbs_res" where
  "CBS_get_last_u8 c =
     (if cbs_len c = 0 then (None, c)
      else (Some (cbs_data c ! (cbs_len c - 1)), c\<lparr>cbs_len := cbs_len c - 1\<rparr>))"

definition CBS_get_bytes :: "CBS \<Rightarrow> nat \<Rightarrow> CBS cbs_res" where
  "CBS_get_bytes c len =
     (case cbs_get c len of (None, c) \<Rightarrow> (None, c) | (Some v, c) \<Rightarrow> (Some (CBS_init v len), c))"

definition cbs_get_length_prefixed :: "CBS \<Rightarrow> nat \<Rightarrow> CBS cbs_res" where
  "cbs_get_length_prefixed c len_len =
     (case cbs_get_u c len_len of
        (None, c) \<Rightarrow> (None, c)
      | (Some len, c) \<Rightarrow> CBS_get_bytes c (unat len))"

definition CBS_get_u8_length_prefixed :: "CBS \<Rightarrow> CBS cbs_res" where
  "CBS_get_u8_length_prefixed c = cbs_get_length_prefixed c 1"

definition CBS_get_u16_length_prefixed :: "CBS \<Rightarrow> CBS cbs_res" where
  "CBS_get_u16_length_prefixed c = cbs_get_length_prefixed c 2"

definition CBS_get_u24_length_prefixed :: "CBS \<Rightarrow> CBS cbs_res" where
  "CBS_get_u24_length_prefixed c = cbs_get_length_prefixed c 3"

text \<open>The peeking operations read the same bytes and leave the reader alone.\<close>

definition cbs_peek_u :: "CBS \<Rightarrow> nat \<Rightarrow> u32 option" where
  "cbs_peek_u c len =
     (if len < 1 \<or> len > 4 then None
      else case cbs_peek c len of
          None \<Rightarrow> None
        | Some data \<Rightarrow> Some (foldl shift_in 0 (take len data)))"

definition CBS_peek_u8 :: "CBS \<Rightarrow> u8 option" where
  "CBS_peek_u8 c = (case cbs_peek c 1 of None \<Rightarrow> None | Some v \<Rightarrow> Some (hd v))"

definition CBS_peek_u16 :: "CBS \<Rightarrow> u16 option" where
  "CBS_peek_u16 c = (case cbs_peek_u c 2 of None \<Rightarrow> None | Some v \<Rightarrow> Some (ucast v))"

definition CBS_peek_u24 :: "CBS \<Rightarrow> u32 option" where
  "CBS_peek_u24 c = cbs_peek_u c 3"

definition CBS_peek_u32 :: "CBS \<Rightarrow> u32 option" where
  "CBS_peek_u32 c = cbs_peek_u c 4"

definition CBS_peek_last_u8 :: "CBS \<Rightarrow> u8 option" where
  "CBS_peek_last_u8 c = (if cbs_len c = 0 then None else Some (cbs_data c ! (cbs_len c - 1)))"

section \<open>ASN.1\<close>

text \<open>Tags, from bytestring.h.  An \<open>unsigned int\<close> is a 32-bit word.\<close>

definition CBS_ASN1_CONSTRUCTED :: u32 where "CBS_ASN1_CONSTRUCTED = 0x20"
definition CBS_ASN1_BOOLEAN :: u32 where "CBS_ASN1_BOOLEAN = 0x1"
definition CBS_ASN1_INTEGER :: u32 where "CBS_ASN1_INTEGER = 0x2"
definition CBS_ASN1_OCTETSTRING :: u32 where "CBS_ASN1_OCTETSTRING = 0x4"
definition CBS_ASN1_SEQUENCE :: u32 where "CBS_ASN1_SEQUENCE = 0x30"
definition CBS_ASN1_SET :: u32 where "CBS_ASN1_SET = 0x31"

lemmas asn1_tags [c_simps] =
  CBS_ASN1_CONSTRUCTED_def CBS_ASN1_BOOLEAN_def CBS_ASN1_INTEGER_def
  CBS_ASN1_OCTETSTRING_def CBS_ASN1_SEQUENCE_def CBS_ASN1_SET_def

text \<open>
  The element parser: on success the element (header included), its tag and its
  header length.  It works on a copy \<open>header\<close> of the reader and moves the reader
  itself only in the final \<open>CBS_get_bytes\<close>.
\<close>

definition cbs_get_any_asn1_element_internal ::
  "CBS \<Rightarrow> bool \<Rightarrow> (CBS \<times> u32 \<times> nat) cbs_res" where
  "cbs_get_any_asn1_element_internal c strict =
     (case CBS_get_u8 c of
        (None, _) \<Rightarrow> (None, c)
      | (Some tag, header) \<Rightarrow>
     (case CBS_get_u8 header of
        (None, _) \<Rightarrow> (None, c)
      | (Some length_byte, header) \<Rightarrow>
      if tag AND 0x1f = 0x1f then (None, c)
      else if length_byte AND 0x80 = 0 then
        (case CBS_get_bytes c (unat length_byte + 2) of
           (None, c) \<Rightarrow> (None, c)
         | (Some out, c) \<Rightarrow> (Some (out, ucast tag, 2), c))
      else
        (let num_bytes = unat (length_byte AND 0x7f)
         in if num_bytes = 0x7f then (None, c)
            else if num_bytes = 0 then
              (if strict then (None, c)
               else if ucast tag AND CBS_ASN1_CONSTRUCTED = 0 then (None, c)
               else case CBS_get_bytes c 2 of
                   (None, c) \<Rightarrow> (None, c)
                 | (Some out, c) \<Rightarrow> (Some (out, ucast tag, 2), c))
            else if num_bytes > 4 then (None, c)
            else case cbs_get_u header num_bytes of
                (None, _) \<Rightarrow> (None, c)
              | (Some len32, _) \<Rightarrow>
                 (if len32 < 128 then (None, c)
                  else if drop_bit ((num_bytes - 1) * 8) len32 = 0 then (None, c)
                  else let len = unat len32
                       in if size_add len (2 + num_bytes) < len then (None, c)
                          else case CBS_get_bytes c (size_add len (2 + num_bytes)) of
                              (None, c) \<Rightarrow> (None, c)
                            | (Some out, c) \<Rightarrow> (Some (out, ucast tag, 2 + num_bytes), c)))))"

definition CBS_get_any_asn1_element :: "CBS \<Rightarrow> (CBS \<times> u32 \<times> nat) cbs_res" where
  "CBS_get_any_asn1_element c = cbs_get_any_asn1_element_internal c True"

definition cbs_get_asn1 :: "CBS \<Rightarrow> u32 \<Rightarrow> bool \<Rightarrow> CBS cbs_res" where
  "cbs_get_asn1 c tag_value skip_header =
     (case CBS_get_any_asn1_element c of
        (None, c) \<Rightarrow> (None, c)
      | (Some (out, tag, header_len), c) \<Rightarrow>
         (if tag \<noteq> tag_value then (None, c)
          else if skip_header then
            (case CBS_skip out header_len of (None, _) \<Rightarrow> (None, c) | (Some _, out) \<Rightarrow> (Some out, c))
          else (Some out, c)))"

definition CBS_get_asn1 :: "CBS \<Rightarrow> u32 \<Rightarrow> CBS cbs_res" where
  "CBS_get_asn1 c tag_value = cbs_get_asn1 c tag_value True"

definition CBS_get_asn1_element :: "CBS \<Rightarrow> u32 \<Rightarrow> CBS cbs_res" where
  "CBS_get_asn1_element c tag_value = cbs_get_asn1 c tag_value False"

definition CBS_peek_asn1_tag :: "CBS \<Rightarrow> u32 \<Rightarrow> bool" where
  "CBS_peek_asn1_tag c tag_value \<longleftrightarrow>
     (if CBS_len c < 1 then False
      else if tag_value AND 0x1f = 0x1f then False
      else ucast (CBS_data c ! 0) = tag_value)"

text \<open>The value loop of \<open>CBS_get_asn1_uint64\<close>: it gives up before a byte would be shifted out.\<close>

fun asn1_uint64_loop :: "bytes \<Rightarrow> u64 \<Rightarrow> u64 option" where
  "asn1_uint64_loop [] out = Some out"
| "asn1_uint64_loop (b # bs) out =
     (if drop_bit 56 out \<noteq> 0 then None else asn1_uint64_loop bs (shift_in out b))"

definition CBS_get_asn1_uint64 :: "CBS \<Rightarrow> u64 cbs_res" where
  "CBS_get_asn1_uint64 c =
     (case CBS_get_asn1 c CBS_ASN1_INTEGER of
        (None, c) \<Rightarrow> (None, c)
      | (Some bytes, c) \<Rightarrow>
         (let data = CBS_data bytes; len = CBS_len bytes
          in if len = 0 then (None, c)
             else if data ! 0 AND 0x80 \<noteq> 0 then (None, c)
             else if data ! 0 = 0 \<and> len > 1 \<and> data ! 1 AND 0x80 = 0 then (None, c)
             else (asn1_uint64_loop (take len data) 0, c)))"

definition CBS_get_optional_asn1 :: "CBS \<Rightarrow> u32 \<Rightarrow> CBS option cbs_res" where
  "CBS_get_optional_asn1 c tag =
     (if CBS_peek_asn1_tag c tag then
        (case CBS_get_asn1 c tag of (None, c) \<Rightarrow> (None, c) | (Some out, c) \<Rightarrow> (Some (Some out), c))
      else (Some None, c))"

definition CBS_get_optional_asn1_octet_string :: "CBS \<Rightarrow> u32 \<Rightarrow> (CBS \<times> bool) cbs_res" where
  "CBS_get_optional_asn1_octet_string c tag =
     (case CBS_get_optional_asn1 c tag of
        (None, c) \<Rightarrow> (None, c)
      | (Some None, c) \<Rightarrow> (Some (CBS_init [] 0, False), c)
      | (Some (Some child), c) \<Rightarrow>
         (case CBS_get_asn1 child CBS_ASN1_OCTETSTRING of
            (None, _) \<Rightarrow> (None, c)
          | (Some out, child) \<Rightarrow>
             (if CBS_len child \<noteq> 0 then (None, c) else (Some (out, True), c))))"

definition CBS_get_optional_asn1_uint64 :: "CBS \<Rightarrow> u32 \<Rightarrow> u64 \<Rightarrow> u64 cbs_res" where
  "CBS_get_optional_asn1_uint64 c tag default_value =
     (case CBS_get_optional_asn1 c tag of
        (None, c) \<Rightarrow> (None, c)
      | (Some None, c) \<Rightarrow> (Some default_value, c)
      | (Some (Some child), c) \<Rightarrow>
         (case CBS_get_asn1_uint64 child of
            (None, _) \<Rightarrow> (None, c)
          | (Some out, child) \<Rightarrow> (if CBS_len child \<noteq> 0 then (None, c) else (Some out, c))))"

definition CBS_get_optional_asn1_bool :: "CBS \<Rightarrow> u32 \<Rightarrow> int \<Rightarrow> int cbs_res" where
  "CBS_get_optional_asn1_bool c tag default_value =
     (case CBS_get_optional_asn1 c tag of
        (None, c) \<Rightarrow> (None, c)
      | (Some None, c) \<Rightarrow> (Some default_value, c)
      | (Some (Some child), c) \<Rightarrow>
         (case CBS_get_asn1 child CBS_ASN1_BOOLEAN of
            (None, _) \<Rightarrow> (None, c)
          | (Some child2, child) \<Rightarrow>
             (if CBS_len child2 \<noteq> 1 \<or> CBS_len child \<noteq> 0 then (None, c)
              else let boolean = CBS_data child2 ! 0
                   in if boolean = 0 then (Some 0, c)
                      else if boolean = 0xff then (Some 1, c)
                      else (None, c))))"

section \<open>Invariant, contents and advancing\<close>

definition cbs_ok :: "CBS \<Rightarrow> bool" where
  "cbs_ok c \<longleftrightarrow> cbs_len c \<le> length (cbs_data c) \<and> cbs_len c \<le> cbs_initial_len c
     \<and> cbs_initial_len c \<le> SIZE_MAX"

definition cbs_bytes :: "CBS \<Rightarrow> bytes" where
  "cbs_bytes c = take (cbs_len c) (cbs_data c)"

definition cbs_drop :: "nat \<Rightarrow> CBS \<Rightarrow> CBS" where
  "cbs_drop n c = c\<lparr>cbs_data := drop n (cbs_data c), cbs_len := cbs_len c - n\<rparr>"

definition cbs_trim :: "CBS \<Rightarrow> CBS" where
  "cbs_trim c = c\<lparr>cbs_data := cbs_bytes c\<rparr>"

lemma cbs_drop_sel [simp]:
  "cbs_data (cbs_drop n c) = drop n (cbs_data c)"
  "cbs_len (cbs_drop n c) = cbs_len c - n"
  "cbs_initial_len (cbs_drop n c) = cbs_initial_len c"
  by (simp_all add: cbs_drop_def)

lemma cbs_trim_sel [simp]:
  "cbs_data (cbs_trim c) = take (cbs_len c) (cbs_data c)"
  "cbs_len (cbs_trim c) = cbs_len c"
  "cbs_initial_len (cbs_trim c) = cbs_initial_len c"
  by (simp_all add: cbs_trim_def cbs_bytes_def)

lemma cbs_drop_drop [simp]: "cbs_drop m (cbs_drop n c) = cbs_drop (n + m) c"
  by (simp add: cbs_drop_def add.commute)

lemma cbs_drop_0 [simp]: "cbs_drop 0 c = c"
  by (simp add: cbs_drop_def)

lemma cbs_bytes_drop [simp]: "cbs_bytes (cbs_drop n c) = drop n (cbs_bytes c)"
  by (simp add: cbs_bytes_def drop_take)

lemma cbs_trim_drop: "n \<le> cbs_len c \<Longrightarrow> cbs_drop n (cbs_trim c) = cbs_trim (cbs_drop n c)"
  by (simp add: cbs_drop_def cbs_trim_def cbs_bytes_def drop_take)

lemma cbs_trim_trim [simp]: "cbs_trim (cbs_trim c) = cbs_trim c"
  by (simp add: cbs_trim_def cbs_bytes_def)

lemma length_cbs_bytes [simp]: "cbs_ok c \<Longrightarrow> length (cbs_bytes c) = cbs_len c"
  by (simp add: cbs_bytes_def cbs_ok_def)

lemma cbs_ok_drop [intro]: "cbs_ok c \<Longrightarrow> cbs_ok (cbs_drop n c)"
  by (auto simp: cbs_ok_def)

lemma cbs_ok_trim [simp]: "cbs_ok c \<Longrightarrow> cbs_ok (cbs_trim c)"
  by (auto simp: cbs_ok_def)

lemma CBS_init_sel [simp]:
  "cbs_data (CBS_init d n) = d" "cbs_len (CBS_init d n) = n" "cbs_initial_len (CBS_init d n) = n"
  by (simp_all add: CBS_init_def)

lemma cbs_ok_init [intro]: "n \<le> length d \<Longrightarrow> n \<le> SIZE_MAX \<Longrightarrow> cbs_ok (CBS_init d n)"
  by (simp add: cbs_ok_def)

lemma cbs_bytes_init [simp]: "cbs_bytes (CBS_init d n) = take n d"
  by (simp add: cbs_bytes_def)

lemma cbs_ok_le: "cbs_ok c \<Longrightarrow> cbs_len c \<le> SIZE_MAX"
  by (auto simp: cbs_ok_def)

text \<open>Equations that give every primitive in terms of \<^const>\<open>cbs_drop\<close>.\<close>

lemma cbs_get_eq: "cbs_get c n = (if n \<le> cbs_len c then (Some (cbs_data c), cbs_drop n c) else (None, c))"
  by (simp add: cbs_get_def cbs_drop_def)

lemma CBS_skip_eq: "CBS_skip c n = (if n \<le> cbs_len c then (Some (), cbs_drop n c) else (None, c))"
  by (simp add: CBS_skip_def cbs_get_eq)

lemma CBS_get_u8_eq:
  "CBS_get_u8 c = (if cbs_len c = 0 then (None, c) else (Some (hd (cbs_data c)), cbs_drop 1 c))"
  by (simp add: CBS_get_u8_def cbs_get_eq)

lemma CBS_get_bytes_eq:
  "CBS_get_bytes c n =
     (if n \<le> cbs_len c then (Some (CBS_init (cbs_data c) n), cbs_drop n c) else (None, c))"
  by (simp add: CBS_get_bytes_def cbs_get_eq)

lemma cbs_get_u_eq:
  "cbs_get_u c n =
     (if 1 \<le> n \<and> n \<le> 4 \<and> n \<le> cbs_len c
      then (Some (foldl shift_in 0 (take n (cbs_data c))), cbs_drop n c) else (None, c))"
  by (auto simp: cbs_get_u_def cbs_get_eq)

lemmas cbs_eqs = cbs_get_eq CBS_skip_eq CBS_get_u8_eq CBS_get_bytes_eq cbs_get_u_eq
  CBS_data_def CBS_len_def

lemma unat_cbs_u:
  assumes "n \<le> 4" and "n \<le> length d"
  shows "unat (foldl shift_in 0 (take n d) :: u32) = be_val (take n d)"
proof -
  have "(256::nat) ^ n \<le> 256 ^ 4" using assms(1) by (rule power_increasing) simp
  then show ?thesis using assms by (intro unat_foldl_shift_in) auto
qed

section \<open>The contract every reading operation keeps\<close>

text \<open>
  An operation that reads from a \<open>CBS\<close> only ever moves it forward, within its
  length, and its result depends on nothing beyond that length: reading from the
  trimmed reader (whose object ends where the reader ends) gives the same result
  up to the bytes behind the result's own end, which \<open>trim\<close> cuts off.
\<close>

locale cbs_reader =
  fixes rd :: "CBS \<Rightarrow> 'a cbs_res" and trim :: "'a \<Rightarrow> 'a"
  assumes advances: "cbs_ok c \<Longrightarrow> \<exists>n\<le>cbs_len c. snd (rd c) = cbs_drop n c"
    and in_bounds: "cbs_ok c \<Longrightarrow>
      map_option trim (fst (rd (cbs_trim c))) = map_option trim (fst (rd c))
      \<and> snd (rd (cbs_trim c)) = cbs_trim (snd (rd c))"
begin

lemma keeps_ok: "cbs_ok c \<Longrightarrow> cbs_ok (snd (rd c))"
  using advances [of c] by auto

lemma len_decreases: "cbs_ok c \<Longrightarrow> cbs_len (snd (rd c)) \<le> cbs_len c"
  using advances [of c] by auto

lemma bytes_suffix: "cbs_ok c \<Longrightarrow> \<exists>n\<le>cbs_len c. cbs_bytes (snd (rd c)) = drop n (cbs_bytes c)"
  using advances [of c] by auto

lemma offset_grows: "cbs_ok c \<Longrightarrow> CBS_offset c \<le> CBS_offset (snd (rd c))"
  using advances [of c] by (auto simp: CBS_offset_def cbs_ok_def)

text \<open>Two readers over objects that agree up to the reader's length give the same result.\<close>

lemma depends_on_bytes:
  assumes "cbs_ok c" and "cbs_ok d" and "cbs_trim c = cbs_trim d"
  shows "map_option trim (fst (rd c)) = map_option trim (fst (rd d))
    \<and> cbs_trim (snd (rd c)) = cbs_trim (snd (rd d))"
  using in_bounds [OF assms(1)] in_bounds [OF assms(2)] assms(3) by metis

end

text \<open>An operation that leaves the reader where it was when it fails.\<close>

locale cbs_atomic_reader = cbs_reader +
  assumes atomic: "cbs_ok c \<Longrightarrow> fst (rd c) = None \<Longrightarrow> snd (rd c) = c"
begin

lemma failure_is_repeatable: "cbs_ok c \<Longrightarrow> fst (rd c) = None \<Longrightarrow> rd (snd (rd c)) = rd c"
  by (simp add: atomic)

end

lemma take_trim [simp]: "n \<le> cbs_len c \<Longrightarrow> take n (cbs_data (cbs_trim c)) = take n (cbs_data c)"
  by simp

lemma trim_init_eq: "n \<le> cbs_len c \<Longrightarrow>
    cbs_trim (CBS_init (take (cbs_len c) (cbs_data c)) n) = cbs_trim (CBS_init (cbs_data c) n)"
  by (simp add: cbs_trim_def cbs_bytes_def CBS_init_def)

lemma hd_drop_trim: "cbs_ok c \<Longrightarrow> n < cbs_len c \<Longrightarrow>
    hd (drop n (take (cbs_len c) (cbs_data c))) = hd (drop n (cbs_data c))"
  by (simp add: hd_drop_conv_nth cbs_ok_def)

interpretation rd_get_u: cbs_atomic_reader "\<lambda>c. cbs_get_u c n" "\<lambda>x. x"
  by unfold_locales (auto simp: cbs_get_u_eq cbs_trim_drop intro: exI [of _ 0])

interpretation rd_u8: cbs_atomic_reader CBS_get_u8 "\<lambda>x. x"
  by unfold_locales
    (auto simp: CBS_get_u8_eq cbs_trim_drop hd_take intro: exI [of _ 0] exI [of _ 1])

interpretation rd_bytes: cbs_atomic_reader "\<lambda>c. CBS_get_bytes c n" cbs_trim
  by unfold_locales
    (auto simp: CBS_get_bytes_eq cbs_trim_drop trim_init_eq intro: exI [of _ 0])

text \<open>
  The element parser decides on the first bytes only; in closed form, with the
  header read at once:
\<close>

definition asn1_elem_len :: "bytes \<Rightarrow> bool \<Rightarrow> (nat \<times> nat) option" where
  "asn1_elem_len bs strict =
     (if length bs < 2 \<or> bs ! 0 AND 0x1f = 0x1f then None
      else if bs ! 1 AND 0x80 = 0 then Some (2, unat (bs ! 1) + 2)
      else let k = unat (bs ! 1 AND 0x7f); n = be_val (take k (drop 2 bs))
           in if k = 0 then
                if strict \<or> ucast (bs ! 0) AND CBS_ASN1_CONSTRUCTED = 0 then None else Some (2, 2)
              else if k > 4 \<or> length bs < 2 + k \<or> n < 128 \<or> n < 256 ^ (k - 1) then None
              else Some (2 + k, 2 + k + n))"

lemma u32_lt_128: "(w :: u32) < 128 \<longleftrightarrow> unat w < 128"
  by (simp add: word_less_nat_alt)

lemma u32_drop_bit_zero: "drop_bit n (w :: u32) = 0 \<longleftrightarrow> unat w < 2 ^ n"
proof -
  have "drop_bit n w = 0 \<longleftrightarrow> unat (drop_bit n w) = 0" by (simp add: unat_eq_0)
  also have "unat (drop_bit n w) = unat w div 2 ^ n"
    by (simp add: unat_drop_bit_eq drop_bit_eq_div [where a = "unat w"])
  finally show ?thesis by (simp add: div_eq_0_iff)
qed

lemma pow8_256: "(2::nat) ^ (k * 8) = 256 ^ k"
  using power_mult [of "2::nat" 8 k] by (simp add: mult.commute [of k])

lemma asn1_element_eq:
  assumes ok: "cbs_ok c"
  shows "cbs_get_any_asn1_element_internal c strict =
    (case asn1_elem_len (cbs_bytes c) strict of
       None \<Rightarrow> (None, c)
     | Some (h, n) \<Rightarrow>
        (if n \<le> cbs_len c
         then (Some (CBS_init (cbs_data c) n, ucast (cbs_data c ! 0), h), cbs_drop n c)
         else (None, c)))"
proof (cases "cbs_len c < 2")
  case True
  then show ?thesis using ok
    by (auto simp: cbs_get_any_asn1_element_internal_def cbs_eqs asn1_elem_len_def)
next
  case False
  then have "2 \<le> length (cbs_data c)" using ok by (simp add: cbs_ok_def)
  then obtain t l d where d: "cbs_data c = t # l # d"
    by (cases "cbs_data c"; cases "tl (cbs_data c)") auto
  define k where "k = unat (l AND 0x7f)"
  define n where "n = be_val (take k d)"
  have bs: "cbs_bytes c ! 0 = t" "cbs_bytes c ! 1 = l"
    using False ok by (simp_all add: cbs_bytes_def d)
  have dl: "cbs_len c - 2 \<le> length d" using ok unfolding cbs_ok_def d by auto
  have tk: "take k (drop 2 (cbs_bytes c)) = take k d" if "k + 2 \<le> cbs_len c"
    using that by (simp add: cbs_bytes_def d drop_take)
  have u: "unat (foldl shift_in 0 (take k d) :: u32) = n" if "k + 2 \<le> cbs_len c" "k \<le> 4"
    unfolding n_def using that dl by (intro unat_cbs_u) auto
  have n_lt: "n < 256 ^ 4" if "k \<le> 4"
  proof -
    have "n < 256 ^ length (take k d)" unfolding n_def by (rule be_val_lt)
    also have "\<dots> \<le> 256 ^ 4" using that by (intro power_increasing) auto
    finally show ?thesis .
  qed
  have sz: "size_add n (2 + k) = n + 2 + k" if "k \<le> 4"
    using n_lt [OF that] that by (simp add: SIZE_MAX_def)
  let ?p = "cbs_get_any_asn1_element_internal c strict"
  note def = cbs_get_any_asn1_element_internal_def cbs_eqs asn1_elem_len_def d Let_def
    k_def [symmetric]
  consider (tag) "t AND 0x1f = 0x1f"
    | (short) "t AND 0x1f \<noteq> 0x1f" "l AND 0x80 = 0"
    | (indef) "t AND 0x1f \<noteq> 0x1f" "l AND 0x80 \<noteq> 0" "k = 0"
    | (long) "t AND 0x1f \<noteq> 0x1f" "l AND 0x80 \<noteq> 0" "0 < k" "k \<le> 4" "k + 2 \<le> cbs_len c"
    | (bad) "t AND 0x1f \<noteq> 0x1f" "l AND 0x80 \<noteq> 0" "0 < k" "4 < k \<or> cbs_len c < k + 2"
    by linarith
  then show ?thesis
  proof cases
    case tag
    then show ?thesis using False ok bs by (simp add: def)
  next
    case short
    then show ?thesis using False ok bs by (simp add: def)
  next
    case indef
    then show ?thesis using False ok bs by (simp add: def)
  next
    case long
    then show ?thesis using False ok bs tk u sz n_def
      by (auto simp: def u32_lt_128 u32_drop_bit_zero pow8_256 add.commute)
  next
    case bad
    then show ?thesis using False ok bs by (auto simp: def)
  qed
qed

lemma asn1_elem_len_bounds:
  "asn1_elem_len bs strict = Some (h, n) \<Longrightarrow> 2 \<le> h \<and> h \<le> n \<and> h \<le> 6"
  by (auto simp: asn1_elem_len_def Let_def split: if_splits)

interpretation rd_element:
  cbs_atomic_reader "\<lambda>c. cbs_get_any_asn1_element_internal c strict" "map_prod cbs_trim id"
proof
  fix c
  assume ok: "cbs_ok c"
  then show "\<exists>n\<le>cbs_len c. snd (cbs_get_any_asn1_element_internal c strict) = cbs_drop n c"
    by (auto simp: asn1_element_eq intro: exI [of _ 0] split: option.splits)
  from ok show "snd (cbs_get_any_asn1_element_internal c strict) = c"
    if "fst (cbs_get_any_asn1_element_internal c strict) = None"
    using that by (auto simp: asn1_element_eq split: option.splits if_splits)
  have bytes: "cbs_bytes (cbs_trim c) = cbs_bytes c"
    by (simp add: cbs_bytes_def)
  have nth0: "take (cbs_len c) (cbs_data c) ! 0 = cbs_data c ! 0" if "asn1_elem_len (cbs_bytes c) strict = Some (h, n)" "n \<le> cbs_len c" for h n
    using asn1_elem_len_bounds [OF that(1)] that(2) by (intro nth_take) linarith
  show "map_option (map_prod cbs_trim id) (fst (cbs_get_any_asn1_element_internal (cbs_trim c) strict)) =
        map_option (map_prod cbs_trim id) (fst (cbs_get_any_asn1_element_internal c strict)) \<and>
        snd (cbs_get_any_asn1_element_internal (cbs_trim c) strict) =
        cbs_trim (snd (cbs_get_any_asn1_element_internal c strict))"
    using ok by (auto simp: asn1_element_eq bytes trim_init_eq cbs_trim_drop nth0 split: option.splits)
qed

lemma cbs_get_asn1_eq:
  assumes "cbs_ok c"
  shows "cbs_get_asn1 c tag skip =
    (case asn1_elem_len (cbs_bytes c) True of
       None \<Rightarrow> (None, c)
     | Some (h, n) \<Rightarrow>
        (if n \<le> cbs_len c
         then (if ucast (cbs_data c ! 0) = tag
               then Some (if skip then cbs_drop h (CBS_init (cbs_data c) n) else CBS_init (cbs_data c) n)
               else None, cbs_drop n c)
         else (None, c)))"
  using assms
  by (auto simp: cbs_get_asn1_def CBS_get_any_asn1_element_def asn1_element_eq CBS_skip_eq
      dest: asn1_elem_len_bounds split: option.splits)

lemma cbs_bytes_trim [simp]: "cbs_bytes (cbs_trim c) = cbs_bytes c"
  by (simp add: cbs_bytes_def)

lemma trim_drop_init_eq: "n \<le> cbs_len c \<Longrightarrow> h \<le> n \<Longrightarrow>
    cbs_trim (cbs_drop h (CBS_init (take (cbs_len c) (cbs_data c)) n)) =
    cbs_trim (cbs_drop h (CBS_init (cbs_data c) n))"
  by (simp add: cbs_trim_def cbs_bytes_def CBS_init_def cbs_drop_def take_drop)

lemma cbs_nth0_trim:
  "asn1_elem_len (cbs_bytes c) strict = Some (h, n) \<Longrightarrow> n \<le> cbs_len c \<Longrightarrow>
   take (cbs_len c) (cbs_data c) ! 0 = cbs_data c ! 0"
  by (rule nth_take) (use asn1_elem_len_bounds in fastforce)

interpretation rd_asn1: cbs_reader "\<lambda>c. cbs_get_asn1 c tag skip" cbs_trim
proof
  fix c
  assume ok: "cbs_ok c"
  then show "\<exists>n\<le>cbs_len c. snd (cbs_get_asn1 c tag skip) = cbs_drop n c"
    by (auto simp: cbs_get_asn1_eq intro: exI [of _ 0] split: option.splits)
  from ok show "map_option cbs_trim (fst (cbs_get_asn1 (cbs_trim c) tag skip)) =
        map_option cbs_trim (fst (cbs_get_asn1 c tag skip)) \<and>
        snd (cbs_get_asn1 (cbs_trim c) tag skip) = cbs_trim (snd (cbs_get_asn1 c tag skip))"
    by (auto simp: cbs_get_asn1_eq trim_init_eq trim_drop_init_eq cbs_trim_drop cbs_nth0_trim
        dest: asn1_elem_len_bounds split: option.splits)
qed

section \<open>DER: the reference encoding\<close>

text \<open>
  The definite-length encoding of X.690: one identifier octet, the length in the
  fewest octets possible, the contents.
\<close>

definition len_octets :: "nat \<Rightarrow> nat" where
  "len_octets n = (if n \<le> 0xff then 1 else if n \<le> 0xffff then 2 else if n \<le> 0xffffff then 3 else 4)"

definition der_len :: "nat \<Rightarrow> bytes" where
  "der_len n = (if n \<le> 0x7f then [of_nat n] else of_nat (0x80 + len_octets n) # be_bytes (len_octets n) n)"

definition der_element :: "u8 \<Rightarrow> bytes \<Rightarrow> bytes" where
  "der_element tag content = tag # der_len (length content) @ content"

lemma u8_hi_bit: "(b :: u8) AND 0x80 = 0 \<longleftrightarrow> unat b < 128"
proof -
  have "b AND 0x80 = 0 \<longleftrightarrow> \<not> bit b 7"
    using and_exp_eq_0_iff_not_bit [of b 7] by simp
  also have "\<dots> \<longleftrightarrow> even (unat b div 128)"
    using bit_unsigned_iff [where 'a = nat, of b 7] by (auto simp: bit_iff_odd [of "unat b"])
  also have "\<dots> \<longleftrightarrow> unat b < 128"
  proof -
    have "unat b div 128 < 2"
      using unat_u8_lt [of b] by (intro less_mult_imp_div_less) simp
    then have "even (unat b div 128) \<longleftrightarrow> unat b div 128 = 0" by (auto simp: less_2_cases_iff)
    then show ?thesis by (simp add: div_eq_0_iff)
  qed
  finally show ?thesis .
qed

lemma u8_low_bits: "unat ((b :: u8) AND 0x7f) = unat b mod 128"
proof -
  have "b AND 0x7f = take_bit 7 b"
    by (simp add: take_bit_eq_mask mask_eq_exp_minus_1)
  then show ?thesis
    by (simp add: take_bit_eq_mod unat_mod_distrib)
qed

lemma unat_of_nat_u8 [simp]: "n < 256 \<Longrightarrow> unat (of_nat n :: u8) = n"
  by (simp add: unat_of_nat)

lemma len_octets_cases:
  "0x7f < n \<Longrightarrow> n < 256 ^ 4 \<Longrightarrow>
    1 \<le> len_octets n \<and> len_octets n \<le> 4 \<and> n < 256 ^ len_octets n \<and> 256 ^ (len_octets n - 1) \<le> n"
  by (auto simp: len_octets_def)

lemma len_octets_unique:
  assumes "1 \<le> k" "k \<le> 4" "n < 256 ^ k" "256 ^ (k - 1) \<le> n"
  shows "len_octets n = k"
proof -
  from assms(1,2) consider "k = 1" | "k = 2" | "k = 3" | "k = 4" by linarith
  then show ?thesis using assms(3,4) by cases (auto simp: len_octets_def)
qed

lemma length_der_len: "length (der_len n) = (if n \<le> 0x7f then 1 else 1 + len_octets n)"
  by (simp add: der_len_def)

lemma der_len_parse:
  assumes "n < 256 ^ 4" and "t AND 0x1f \<noteq> 0x1f"
  shows "asn1_elem_len (t # der_len n @ rest) True = Some (1 + length (der_len n), 1 + length (der_len n) + n)"
proof (cases "n \<le> 0x7f")
  case True
  then show ?thesis using assms(2)
    by (simp add: asn1_elem_len_def der_len_def u8_hi_bit)
next
  case False
  let ?k = "len_octets n"
  note oct = len_octets_cases [of n]
  have k: "1 \<le> ?k" "?k \<le> 4" "n < 256 ^ ?k" "256 ^ (?k - 1) \<le> n"
    using oct False assms(1) by auto
  have "be_val (be_bytes ?k n) = n" using k(3) by (rule be_val_be_bytes_exact)
  moreover have "unat (of_nat (0x80 + ?k) :: u8) = 0x80 + ?k"
    using k(2) by (intro unat_of_nat_u8) simp
  ultimately show ?thesis using assms(2) False k
    by (simp add: asn1_elem_len_def der_len_def u8_hi_bit u8_low_bits Let_def nth_Cons'
        del: of_nat_add of_nat_numeral)
qed

lemma der_len_complete:
  assumes "asn1_elem_len bs True = Some (h, n)" and "n \<le> length bs"
  shows "\<exists>content rest. bs = der_element (bs ! 0) content @ rest \<and> bs ! 0 AND 0x1f \<noteq> 0x1f
    \<and> length content < 256 ^ 4 \<and> h = 1 + length (der_len (length content)) \<and> n = h + length content"
proof -
  from assms(1) have 2: "2 \<le> length bs" and t: "bs ! 0 AND 0x1f \<noteq> 0x1f"
    by (auto simp: asn1_elem_len_def split: if_splits)
  then obtain t l d where d: "bs = t # l # d"
    by (cases bs; cases "tl bs") auto
  define content where "content = take (n - h) (drop h bs)"
  have hn: "h \<le> n" using asn1_elem_len_bounds [OF assms(1)] by simp
  have lc: "length content = n - h" using assms(2) hn by (simp add: content_def)
  have split: "bs = take h bs @ content @ drop n bs"
    using hn by (simp add: content_def) (metis append_assoc append_take_drop_id le_add_diff_inverse take_add)
  have "take h bs = t # der_len (n - h) \<and> n - h < 256 ^ 4"
  proof (cases "l AND 0x80 = 0")
    case True
    then have "h = 2" "n = unat l + 2" "unat l < 128"
      using assms(1) t by (auto simp: asn1_elem_len_def d u8_hi_bit)
    then show ?thesis by (simp add: d der_len_def)
  next
    case False
    define k where "k = unat (l AND 0x7f)"
    define m where "m = be_val (take k d)"
    have k: "1 \<le> k" "k \<le> 4" "2 + k \<le> length bs" "128 \<le> m" "256 ^ (k - 1) \<le> m" "h = 2 + k" "n = 2 + k + m"
      using assms(1) False by (auto simp: asn1_elem_len_def d Let_def k_def m_def split: if_splits)
    have "length (take k d) = k" using k(3) by (simp add: d)
    then have mlt: "m < 256 ^ k" and dk: "take k d = be_bytes k m"
      using be_val_lt [of "take k d"] be_bytes_be_val [of "take k d"] by (simp_all add: m_def)
    have kk: "len_octets m = k" using k mlt by (intro len_octets_unique) auto
    have "(256::nat) ^ k \<le> 256 ^ 4" using k(2) by (intro power_increasing) auto
    with mlt have m4: "m < 256 ^ 4" by linarith
    have "unat l = 0x80 + k"
      using False unat_u8_lt [of l] by (auto simp: u8_hi_bit k_def u8_low_bits mod_if)
    then have "l = of_nat (0x80 + k)" by (metis of_nat_unat ucast_id)
    with k kk dk m4 show ?thesis by (simp add: d der_len_def)
  qed
  then have "take h bs = t # der_len (length content)" and "length content < 256 ^ 4"
    using lc by simp_all
  then have "bs = der_element t content @ drop n bs"
    and "h = 1 + length (der_len (length content))"
    using split assms(2) hn by (simp_all add: der_element_def) (metis length_Cons length_take min.absorb2 le_trans Suc_eq_plus1_left)
  then show ?thesis using t lc hn \<open>length content < 256 ^ 4\<close> by (auto simp: d)
qed

section \<open>Unsigned integers in DER\<close>

lemma u64_drop_bit_56: "drop_bit 56 (w :: u64) = 0 \<longleftrightarrow> unat w < 2 ^ 56"
proof -
  have "drop_bit 56 w = 0 \<longleftrightarrow> unat (drop_bit 56 w) = 0" by (simp add: unat_eq_0)
  also have "unat (drop_bit 56 w) = unat w div 2 ^ 56"
    by (simp add: unat_drop_bit_eq drop_bit_eq_div [where a = "unat w"])
  finally show ?thesis by (simp add: div_eq_0_iff)
qed

text \<open>The value loop returns the number the bytes denote, exactly when it fits in 64 bits.\<close>

lemma asn1_uint64_loop_eq:
  "asn1_uint64_loop bs out =
     (if unat out * 256 ^ length bs + be_val bs < 2 ^ 64
      then Some (of_nat (unat out * 256 ^ length bs + be_val bs)) else None)"
proof (induction bs arbitrary: out)
  case Nil
  then show ?case using unsigned_less [of out, where 'a = nat] by simp
next
  case (Cons b bs)
  let ?v = "unat out * 256 + unat b"
  have eq: "?v * 256 ^ length bs + be_val bs = unat out * 256 ^ length (b # bs) + be_val (b # bs)"
    by (simp add: be_val_Cons algebra_simps)
  show ?case
  proof (cases "unat out < 2 ^ 56")
    case True
    then have "unat (shift_in out b) = ?v"
      using unat_u8_lt [of b] by (intro unat_shift_in) auto
    with True show ?thesis using Cons.IH [of "shift_in out b"] eq
      by (simp add: u64_drop_bit_56)
  next
    case False
    have "(2::nat) ^ 64 \<le> unat out * 256 * 1" using False by simp
    also have "\<dots> \<le> unat out * 256 * 256 ^ length bs" by (intro mult_le_mono) auto
    finally have "\<not> unat out * 256 ^ length (b # bs) + be_val (b # bs) < 2 ^ 64"
      by (simp add: mult.assoc)
    with False show ?thesis by (simp add: u64_drop_bit_56)
  qed
qed

text \<open>The shortest contents octets of a non-negative INTEGER: no redundant leading zero.\<close>

definition der_uint_ok :: "bytes \<Rightarrow> bool" where
  "der_uint_ok bs \<longleftrightarrow> bs \<noteq> [] \<and> unat (bs ! 0) < 128 \<and>
     (1 < length bs \<longrightarrow> bs ! 0 = 0 \<longrightarrow> 128 \<le> unat (bs ! 1))"

lemma CBS_get_asn1_uint64_eq:
  assumes ok: "cbs_ok c"
  shows "CBS_get_asn1_uint64 c =
    (case CBS_get_asn1 c CBS_ASN1_INTEGER of
       (None, c) \<Rightarrow> (None, c)
     | (Some out, c) \<Rightarrow>
        (if der_uint_ok (cbs_bytes out) \<and> be_val (cbs_bytes out) < 2 ^ 64
         then Some (of_nat (be_val (cbs_bytes out))) else None, c))"
proof (cases "CBS_get_asn1 c CBS_ASN1_INTEGER")
  case (Pair r c')
  show ?thesis
  proof (cases r)
    case None
    with Pair show ?thesis by (simp add: CBS_get_asn1_uint64_def)
  next
    case (Some out)
    have "cbs_len out \<le> length (cbs_data out)"
      using Pair Some ok
      by (auto simp: CBS_get_asn1_def cbs_get_asn1_eq cbs_ok_def split: option.splits if_splits)
    then show ?thesis using Pair Some
      by (auto simp: CBS_get_asn1_uint64_def der_uint_ok_def cbs_bytes_def asn1_uint64_loop_eq
          CBS_data_def CBS_len_def u8_hi_bit Let_def)
  qed
qed

text \<open>The strict element parser in terms of the reference encoding.\<close>

lemma asn1_elem_len_iff_der:
  "asn1_elem_len bs True = Some (h, n) \<and> n \<le> length bs \<longleftrightarrow>
   (\<exists>t content rest. bs = der_element t content @ rest \<and> t AND 0x1f \<noteq> 0x1f
      \<and> length content < 256 ^ 4 \<and> h = 1 + length (der_len (length content))
      \<and> n = length (der_element t content))"
  (is "?l \<longleftrightarrow> ?r")
proof
  assume ?l
  then obtain content rest where "bs = der_element (bs ! 0) content @ rest"
    "bs ! 0 AND 0x1f \<noteq> 0x1f" "length content < 256 ^ 4"
    "h = 1 + length (der_len (length content))" "n = h + length content"
    using der_len_complete by blast
  then show ?r
    by (intro exI [of _ "bs ! 0"] exI [of _ content] exI [of _ rest]) (simp add: der_element_def)
next
  assume ?r
  then show ?l by (auto simp: der_element_def der_len_parse)
qed

lemma element_strict_iff_der:
  assumes ok: "cbs_ok c"
  shows "CBS_get_any_asn1_element c = (Some (out, tag, h), c') \<longleftrightarrow>
    (\<exists>t content rest. cbs_bytes c = der_element t content @ rest \<and> t AND 0x1f \<noteq> 0x1f
       \<and> length content < 256 ^ 4 \<and> h = 1 + length (der_len (length content)) \<and> tag = ucast t
       \<and> out = CBS_init (cbs_data c) (length (der_element t content))
       \<and> c' = cbs_drop (length (der_element t content)) c)"
  (is "?l \<longleftrightarrow> ?r")
proof -
  have hd: "cbs_data c ! 0 = t" if "cbs_bytes c = der_element t content @ rest" for t content rest
  proof -
    have "cbs_bytes c ! 0 = t" "0 < length (cbs_bytes c)" using that by (simp_all add: der_element_def)
    then show ?thesis by (simp add: cbs_bytes_def)
  qed
  have "?l \<longleftrightarrow> (\<exists>n. (asn1_elem_len (cbs_bytes c) True = Some (h, n) \<and> n \<le> length (cbs_bytes c))
      \<and> out = CBS_init (cbs_data c) n \<and> tag = ucast (cbs_data c ! 0) \<and> c' = cbs_drop n c)"
    using ok by (auto simp: CBS_get_any_asn1_element_def asn1_element_eq split: option.splits)
  also have "\<dots> \<longleftrightarrow> ?r"
    unfolding asn1_elem_len_iff_der using hd by blast
  finally show ?thesis .
qed

lemma CBS_get_asn1_iff_der:
  assumes ok: "cbs_ok c"
  shows "fst (CBS_get_asn1 c (ucast t)) = Some out \<longleftrightarrow>
    (\<exists>content rest. cbs_bytes c = der_element t content @ rest \<and> t AND 0x1f \<noteq> 0x1f
       \<and> length content < 256 ^ 4
       \<and> out = cbs_drop (1 + length (der_len (length content)))
                 (CBS_init (cbs_data c) (length (der_element t content))))"
  (is "?l \<longleftrightarrow> ?r")
proof -
  have "?l \<longleftrightarrow> (\<exists>e h c'. CBS_get_any_asn1_element c = (Some (e, ucast t, h), c') \<and> out = cbs_drop h e)"
    using ok by (auto simp: CBS_get_asn1_def cbs_get_asn1_eq CBS_get_any_asn1_element_def
        asn1_element_eq split: option.splits)
  also have "\<dots> \<longleftrightarrow> ?r"
    unfolding element_strict_iff_der [OF ok] ucast_u8_u32_inj by blast
  finally show ?thesis .
qed

lemma der_content_bytes:
  assumes "cbs_bytes c = der_element t content @ rest"
  shows "cbs_bytes (cbs_drop (1 + length (der_len (length content)))
           (CBS_init (cbs_data c) (length (der_element t content)))) = content"
proof -
  have "take (length (der_element t content)) (cbs_data c) =
        take (length (der_element t content)) (cbs_bytes c)"
    using assms by (metis cbs_bytes_def length_append length_take le_add1 min.bounded_iff take_take min.absorb1)
  also have "\<dots> = der_element t content" using assms by simp
  finally show ?thesis by (simp add: der_element_def)
qed

lemma CBS_get_asn1_content:
  assumes ok: "cbs_ok c"
  shows "(\<exists>out. fst (CBS_get_asn1 c (ucast t)) = Some out \<and> P (cbs_bytes out)) \<longleftrightarrow>
    (\<exists>content rest. cbs_bytes c = der_element t content @ rest \<and> t AND 0x1f \<noteq> 0x1f
       \<and> length content < 256 ^ 4 \<and> P content)"
  (is "?l \<longleftrightarrow> ?r")
proof
  assume ?l
  then obtain out content rest where 1: "cbs_bytes c = der_element t content @ rest"
    "t AND 0x1f \<noteq> 0x1f" "length content < 256 ^ 4"
    and out: "out = cbs_drop (1 + length (der_len (length content)))
                 (CBS_init (cbs_data c) (length (der_element t content)))" and P: "P (cbs_bytes out)"
    unfolding CBS_get_asn1_iff_der [OF ok] by blast
  from P have "P content" unfolding out der_content_bytes [OF 1(1)] .
  with 1 show ?r by blast
next
  assume ?r
  then obtain content rest where 1: "cbs_bytes c = der_element t content @ rest"
    "t AND 0x1f \<noteq> 0x1f" "length content < 256 ^ 4" and P: "P content" by blast
  from P have "P (cbs_bytes (cbs_drop (1 + length (der_len (length content)))
                 (CBS_init (cbs_data c) (length (der_element t content)))))"
    unfolding der_content_bytes [OF 1(1)] .
  with 1 show ?l unfolding CBS_get_asn1_iff_der [OF ok] by blast
qed

lemma asn1_uint64_iff_der:
  assumes ok: "cbs_ok c"
  shows "fst (CBS_get_asn1_uint64 c) = Some v \<longleftrightarrow>
    (\<exists>content rest. cbs_bytes c = der_element 2 content @ rest \<and> length content < 256 ^ 4
       \<and> der_uint_ok content \<and> be_val content = unat v)"
proof -
  have t: "CBS_ASN1_INTEGER = ucast (2 :: u8)" by (simp add: CBS_ASN1_INTEGER_def)
  have v: "v = of_nat n \<and> n < 2 ^ 64 \<longleftrightarrow> n = unat v" for n
    using unsigned_less [of v, where 'a = nat] by (auto simp: unat_of_nat)
  have "fst (CBS_get_asn1_uint64 c) = Some v \<longleftrightarrow>
     (\<exists>out. fst (CBS_get_asn1 c CBS_ASN1_INTEGER) = Some out
        \<and> der_uint_ok (cbs_bytes out) \<and> be_val (cbs_bytes out) = unat v)"
  proof (cases "CBS_get_asn1 c CBS_ASN1_INTEGER")
    case (Pair r c')
    then show ?thesis
    proof (cases r)
      case (Some out)
      then show ?thesis using Pair v [of "be_val (cbs_bytes out)"]
        by (simp add: CBS_get_asn1_uint64_eq [OF ok]) blast
    qed (simp add: CBS_get_asn1_uint64_eq [OF ok])
  qed
  also have "\<dots> \<longleftrightarrow> (\<exists>content rest. cbs_bytes c = der_element 2 content @ rest
       \<and> (2 :: u8) AND 0x1f \<noteq> 0x1f \<and> length content < 256 ^ 4
       \<and> der_uint_ok content \<and> be_val content = unat v)"
    unfolding t by (rule CBS_get_asn1_content [OF ok])
  finally show ?thesis by simp
qed

section \<open>Properties\<close>

text \<open>
  C13.  The ASN.1 element parser, strict or not, stays within its input.  It succeeds exactly
  if the header announces an element (\<open>asn1_elem_len\<close>, by the rules for tags and
  minimal lengths) that ends within the input.  Then the input is the element
  followed by what the reader has left, the element has the announced length and
  contains its whole header, and the tag is its first byte; otherwise the reader has not moved.
  And nothing behind the end is looked at: a reader that sees the same bytes and has an object that
  holds something else behind them gives the same result.
\<close>

theorem element_parser_in_bounds:
  assumes "cbs_ok c"
  shows "(case cbs_get_any_asn1_element_internal c strict of
      (Some (out, tag, h), c') \<Rightarrow>
        cbs_bytes c = cbs_bytes out @ cbs_bytes c' \<and> cbs_ok out \<and> cbs_ok c' \<and>
        asn1_elem_len (cbs_bytes c) strict = Some (h, length (cbs_bytes out)) \<and>
        2 \<le> h \<and> h \<le> length (cbs_bytes out) \<and> tag = ucast (cbs_bytes out ! 0)
    | (None, c') \<Rightarrow> c' = c \<and>
        (case asn1_elem_len (cbs_bytes c) strict of None \<Rightarrow> True | Some (h, n) \<Rightarrow> length (cbs_bytes c) < n))
    \<and> (cbs_ok d \<and> cbs_trim c = cbs_trim d \<longrightarrow>
        map_option (map_prod cbs_trim id) (fst (cbs_get_any_asn1_element_internal c strict)) =
          map_option (map_prod cbs_trim id) (fst (cbs_get_any_asn1_element_internal d strict))
        \<and> cbs_trim (snd (cbs_get_any_asn1_element_internal c strict)) =
          cbs_trim (snd (cbs_get_any_asn1_element_internal d strict)))"
proof (rule conjI)
  note e = asn1_element_eq [OF assms, of strict] and l = length_cbs_bytes [OF assms]
  show "case cbs_get_any_asn1_element_internal c strict of
      (Some (out, tag, h), c') \<Rightarrow>
        cbs_bytes c = cbs_bytes out @ cbs_bytes c' \<and> cbs_ok out \<and> cbs_ok c' \<and>
        asn1_elem_len (cbs_bytes c) strict = Some (h, length (cbs_bytes out)) \<and>
        2 \<le> h \<and> h \<le> length (cbs_bytes out) \<and> tag = ucast (cbs_bytes out ! 0)
    | (None, c') \<Rightarrow> c' = c \<and>
        (case asn1_elem_len (cbs_bytes c) strict of None \<Rightarrow> True | Some (h, n) \<Rightarrow> length (cbs_bytes c) < n)"
  proof (cases "asn1_elem_len (cbs_bytes c) strict")
    case None
    then show ?thesis using e by simp
  next
    case (Some hn)
    obtain h n where hn: "hn = (h, n)" by fastforce
    show ?thesis
    proof (cases "n \<le> cbs_len c")
      case True
      have h: "2 \<le> h" "h \<le> n" using asn1_elem_len_bounds [of "cbs_bytes c" strict h n] Some hn by simp_all
      have "cbs_len c \<le> length (cbs_data c)" "cbs_len c \<le> cbs_initial_len c" "cbs_initial_len c \<le> SIZE_MAX"
        using assms by (simp_all add: cbs_ok_def)
      moreover have "cbs_bytes c = take n (cbs_data c) @ take (cbs_len c - n) (drop n (cbs_data c))"
        using True by (simp add: cbs_bytes_def flip: take_add)
      ultimately show ?thesis using e Some hn True h l by (simp add: cbs_bytes_def cbs_ok_def le_diff_conv)
    next
      case False
      then show ?thesis using e Some hn l by simp
    qed
  qed
  show "cbs_ok d \<and> cbs_trim c = cbs_trim d \<longrightarrow>
      map_option (map_prod cbs_trim id) (fst (cbs_get_any_asn1_element_internal c strict)) =
        map_option (map_prod cbs_trim id) (fst (cbs_get_any_asn1_element_internal d strict))
      \<and> cbs_trim (snd (cbs_get_any_asn1_element_internal c strict)) =
        cbs_trim (snd (cbs_get_any_asn1_element_internal d strict))"
    using rd_element.depends_on_bytes [OF assms] by blast
qed

theorem element_parser_in_bounds_witness:
  "(\<exists>out tag c'. cbs_get_any_asn1_element_internal (CBS_init [4, 1, 7, 9, 99] 4) True = (Some (out, tag, 2), c') \<and>
      cbs_bytes out = [4, 1, 7] \<and> cbs_bytes c' = [9] \<and> tag = 4) \<and>
   cbs_trim (snd (cbs_get_any_asn1_element_internal (CBS_init [4, 1, 7, 9, 99] 4) True)) =
   cbs_trim (snd (cbs_get_any_asn1_element_internal (CBS_init [4, 1, 7, 9, 5, 5] 4) True))"
proof -
  let ?c = "CBS_init [4, 1, 7, 9, 99] 4" and ?d = "CBS_init [4, 1, 7, 9, 5, 5] 4"
  have ok: "cbs_ok ?c" "cbs_ok ?d" "cbs_trim ?c = cbs_trim ?d" "cbs_bytes ?c = [4, 1, 7, 9]"
    by (simp_all add: cbs_ok_def cbs_trim_def cbs_bytes_def CBS_init_def SIZE_MAX_def)
  have len: "asn1_elem_len [4, 1, 7, 9] True = Some (2, 3)" by (simp add: asn1_elem_len_def)
  note t = element_parser_in_bounds [OF ok(1), of True ?d, unfolded ok(4) len]
  obtain res c' where r: "cbs_get_any_asn1_element_internal ?c True = (res, c')" by fastforce
  then obtain out tag h where s: "res = Some (out, tag, h)" using t by (cases res) auto
  have o: "[4, 1, 7, 9] = cbs_bytes out @ cbs_bytes c'" "length (cbs_bytes out) = 3" "h = 2" "tag = ucast (cbs_bytes out ! 0)"
    using t unfolding r s by auto
  have "cbs_bytes out = take 3 [4, 1, 7, 9]" "cbs_bytes c' = drop 3 [4, 1, 7, 9]" using o(2) unfolding o(1) by simp_all
  then have "cbs_get_any_asn1_element_internal ?c True = (Some (out, tag, 2), c') \<and>
      cbs_bytes out = [4, 1, 7] \<and> cbs_bytes c' = [9] \<and> tag = 4" using r s o(3,4) by simp
  moreover have "cbs_trim (snd (cbs_get_any_asn1_element_internal ?c True)) = cbs_trim (snd (cbs_get_any_asn1_element_internal ?d True))"
    using t [THEN conjunct2] ok(2,3) by blast
  ultimately show ?thesis by blast
qed

text \<open>
  C10.  The strict element parser accepts exactly DER: it succeeds if and only if
  the contents start with the canonical (shortest-length) encoding of an element
  with a low tag number and fewer than \<open>2^32\<close> content octets, and then it returns
  that element, its tag and its header length and advances past exactly it.
\<close>

theorem CBS_get_any_asn1_element_accepts_der:
  assumes "cbs_ok c"
  shows "CBS_get_any_asn1_element c = (Some (out, tag, h), c') \<longleftrightarrow>
    (\<exists>t content rest. cbs_bytes c = der_element t content @ rest \<and> t AND 0x1f \<noteq> 0x1f
       \<and> length content < 256 ^ 4 \<and> h = 1 + length (der_len (length content)) \<and> tag = ucast t
       \<and> out = CBS_init (cbs_data c) (length (der_element t content))
       \<and> c' = cbs_drop (length (der_element t content)) c)"
  using assms by (rule element_strict_iff_der)

theorem CBS_get_any_asn1_element_accepts_der_witness:
  "CBS_get_any_asn1_element (CBS_init [4, 1, 7, 9] 4) =
     (Some (CBS_init [4, 1, 7, 9] 3, 4, 2), cbs_drop 3 (CBS_init [4, 1, 7, 9] 4))"
proof -
  let ?c = "CBS_init [4, 1, 7, 9] 4"
  have ok: "cbs_ok ?c" by (simp add: cbs_ok_def SIZE_MAX_def)
  have enc: "cbs_bytes ?c = der_element 4 [7] @ [9]" "length (der_element 4 [7]) = 3"
    by (simp_all add: der_element_def der_len_def)
  show ?thesis
    by (subst CBS_get_any_asn1_element_accepts_der [OF ok])
      (intro exI [of _ 4] exI [of _ "[7]"] exI [of _ "[9]"], use enc in \<open>simp add: der_len_def\<close>)
qed

text \<open>
  C11.  \<open>CBS_get_asn1_uint64\<close> delivers \<open>v\<close> if and only if the contents start with a
  DER INTEGER whose content octets are the shortest coding of a non-negative
  number below \<open>2^64\<close>, and then \<open>v\<close> is that number.
\<close>

theorem CBS_get_asn1_uint64_correct:
  assumes ok: "cbs_ok c"
  shows "fst (CBS_get_asn1_uint64 c) = Some v \<longleftrightarrow>
    (\<exists>content rest. cbs_bytes c = der_element 2 content @ rest \<and> length content < 256 ^ 4
       \<and> der_uint_ok content \<and> be_val content = unat v)"
  using assms by (rule asn1_uint64_iff_der)

theorem CBS_get_asn1_uint64_correct_witness:
  "fst (CBS_get_asn1_uint64 (CBS_init [2, 2, 0, 200] 4)) = Some 200"
proof -
  let ?c = "CBS_init [2, 2, 0, 200] 4"
  have ok: "cbs_ok ?c" by (simp add: cbs_ok_def SIZE_MAX_def)
  have "cbs_bytes ?c = der_element 2 [0, 200] @ []"
    by (simp add: der_element_def der_len_def)
  moreover have "length [0, 200 :: u8] < 256 ^ 4" by simp
  moreover have "der_uint_ok [0, 200]" by (simp add: der_uint_ok_def)
  moreover have "be_val [0, 200] = unat (200 :: u64)" by (simp add: be_val_def)
  ultimately show ?thesis
    unfolding CBS_get_asn1_uint64_correct [OF ok] by blast
qed

end
