(* ===== verification/Libc_Alloc.thy ===== *)
theory Libc_Alloc
  imports Prelude
begin

text \<open>
  The array allocators of libc, \<open>reallocarray\<close> (libc/stdlib/reallocarray.c) and
  \<open>recallocarray\<close> (libc/stdlib/recallocarray.c).  \<open>malloc\<close>, \<open>calloc\<close> and
  \<open>realloc\<close> are represented by \<open>alloc\<close>, which tells for which sizes they
  succeed.  A block is the list of its elements; the null pointer is the empty
  block.
\<close>

definition MUL_NO_OVERFLOW :: nat where "MUL_NO_OVERFLOW = 2 ^ 32"

text \<open>The page size of amd64.\<close>

definition getpagesize :: nat where "getpagesize = 4096"

text \<open>
  The test, shared by both functions, that the product does not fit a \<open>size_t\<close>;
  the products formed after it do not wrap around.
\<close>

definition mul_overflows :: "nat \<Rightarrow> nat \<Rightarrow> bool" where
  "mul_overflows nmemb sz \<longleftrightarrow>
     (nmemb \<ge> MUL_NO_OVERFLOW \<or> sz \<ge> MUL_NO_OVERFLOW) \<and> nmemb > 0 \<and> SIZE_MAX div nmemb < sz"

text \<open>\<open>garbage\<close> stands for the indeterminate contents of the elements \<open>realloc\<close> adds.\<close>

definition reallocarray :: "(nat \<Rightarrow> bool) \<Rightarrow> 'a \<Rightarrow> 'a list \<Rightarrow> nat \<Rightarrow> nat \<Rightarrow> 'a list option" where
  "reallocarray alloc garbage optr nmemb sz =
     (if mul_overflows nmemb sz then None
      else if \<not> alloc (sz * nmemb) then None
      else Some (take nmemb optr @ replicate (nmemb - length optr) garbage))"

text \<open>
  \<open>recallocarray\<close> on a block of elements of size \<open>sz\<close> each; the new elements are
  zero, and the result has the first \<open>newnmemb\<close> elements (after the shrinking in
  place the block itself is longer).  For the null pointer, which here comes with
  \<open>oldnmemb = 0\<close>, \<open>calloc\<close> yields the same block.
\<close>

definition recallocarray :: "(nat \<Rightarrow> bool) \<Rightarrow> 'a::zero list \<Rightarrow> nat \<Rightarrow> nat \<Rightarrow> nat \<Rightarrow> 'a list option" where
  "recallocarray alloc ptr oldnmemb newnmemb sz =
     (if mul_overflows newnmemb sz then None
      else let newsize = newnmemb * sz
       in if mul_overflows oldnmemb sz then None
          else let oldsize = oldnmemb * sz; d = oldsize - newsize
           in if newsize \<le> oldsize \<and> d < oldsize div 2 \<and> d < getpagesize then Some (take newnmemb ptr)
              else if \<not> alloc newsize then None
              else if newsize > oldsize
                   then Some (take oldnmemb ptr @ replicate (newnmemb - oldnmemb) 0)
                   else Some (take newnmemb ptr))"

section \<open>Lemmas\<close>

text \<open>The cheap pre-test with \<open>MUL_NO_OVERFLOW\<close> never hides an overflow.\<close>

lemma mul_overflows_iff:
  assumes "sz \<le> SIZE_MAX"
  shows "mul_overflows nmemb sz \<longleftrightarrow> SIZE_MAX < nmemb * sz"
proof -
  have small: "nmemb * sz \<le> SIZE_MAX" if "nmemb < MUL_NO_OVERFLOW" "sz < MUL_NO_OVERFLOW"
  proof -
    have "nmemb * sz \<le> (2 ^ 32 - 1) * (2 ^ 32 - 1)"
      using that by (intro mult_le_mono) (simp_all add: MUL_NO_OVERFLOW_def)
    then show ?thesis by (simp add: SIZE_MAX_def)
  qed
  have div: "SIZE_MAX div nmemb < sz \<longleftrightarrow> SIZE_MAX < nmemb * sz" if "nmemb > 0"
    using that by (simp add: div_less_iff_less_mult mult.commute)
  show ?thesis
  proof (cases "nmemb = 0")
    case True
    then show ?thesis by (simp add: mul_overflows_def)
  next
    case False
    with div small show ?thesis
      by (fastforce simp: mul_overflows_def not_less)
  qed
qed

lemma reallocarray_eq:
  assumes "sz \<le> SIZE_MAX" and "nmemb * sz \<le> SIZE_MAX"
  shows "reallocarray alloc g optr nmemb sz =
    (if alloc (nmemb * sz) then Some (take nmemb optr @ replicate (nmemb - length optr) g) else None)"
  using assms by (simp add: reallocarray_def mul_overflows_iff mult.commute)

text \<open>On bytes the product does not overflow.\<close>

lemma recallocarray_Some:
  assumes "recallocarray alloc ptr oldnmemb newnmemb (Suc 0) = Some p"
  shows "p = take newnmemb (take oldnmemb ptr) @ replicate (newnmemb - oldnmemb) 0" "newnmemb \<le> SIZE_MAX"
  using assms by (auto simp: recallocarray_def Let_def mul_overflows_iff SIZE_MAX_def min_def split: if_splits)

lemma recallocarray_1:
  assumes "alloc newnmemb" and "newnmemb \<le> SIZE_MAX" and "oldnmemb \<le> SIZE_MAX"
  shows "recallocarray alloc ptr oldnmemb newnmemb (Suc 0) =
    Some (take newnmemb (take oldnmemb ptr) @ replicate (newnmemb - oldnmemb) 0)"
  using assms by (simp add: recallocarray_def mul_overflows_iff Let_def SIZE_MAX_def min_def)

text \<open>Growing an array of larger elements.\<close>

lemma recallocarray_grow:
  assumes "oldnmemb < newnmemb" and "newnmemb * sz \<le> SIZE_MAX" and "0 < sz"
  shows "recallocarray alloc ptr oldnmemb newnmemb sz =
    (if alloc (newnmemb * sz) then Some (take oldnmemb ptr @ replicate (newnmemb - oldnmemb) 0) else None)"
proof -
  have lt: "sz \<le> newnmemb * sz" "oldnmemb * sz < newnmemb * sz" using assms by auto
  have "sz \<le> SIZE_MAX" "oldnmemb * sz \<le> SIZE_MAX" using lt assms(2) by linarith+
  then have "\<not> mul_overflows newnmemb sz" "\<not> mul_overflows oldnmemb sz"
    using assms(2) by (simp_all add: mul_overflows_iff not_less)
  with lt show ?thesis by (simp add: recallocarray_def Let_def)
qed

lemma recallocarray_fails:
  assumes "\<not> alloc newnmemb" and "oldnmemb < newnmemb"
  shows "recallocarray alloc ptr oldnmemb newnmemb (Suc 0) = None"
  using assms by (simp add: recallocarray_def Let_def)

end
