(* ===== verification/CBB.thy ===== *)
theory CBB
  imports CBS "HOL-Library.Monad_Syntax" Libc_Alloc
begin

text \<open>
  The byte-string builder of src/lib/libcrypto/bytestring/bs_cbb.c.

  A builder is a hierarchy of \<open>CBB\<close> structures that share one growing buffer:
  adding a length-prefixed child reserves the prefix, and the prefix is written
  when the parent is flushed.  Children are separate structures that the client
  owns and passes by address, and \<open>CBB_flush\<close> follows the child pointers and
  detaches the structures it visits.  So the model has an explicit store: the
  structures by address (a number), the one buffer \<open>base\<close> points to, and which
  requests the allocator can satisfy.  \<open>cbb_base\<close> tells whether a structure's
  \<open>base\<close> pointer is set.

  \<open>CBB_flush\<close> recurses along child pointers; nothing in the code keeps a client
  from making them cyclic, so it is a \<^theory_text>\<open>partial_function (option)\<close>, in which
  \<^const>\<open>None\<close> means that the recursion does not end.  The operations that flush
  first return the same kind of result; \<open>(False, m)\<close> is the return value 0 and
  the store it leaves.
\<close>

section \<open>The store\<close>

record cbb_buffer_st =
  bst_buf :: bytes
  bst_len :: nat
  bst_cap :: nat
  bst_can_resize :: bool

record CBB =
  cbb_base :: bool
  cbb_offset :: nat
  cbb_child :: "nat option"
  cbb_pending_len_len :: nat
  cbb_pending_is_asn1 :: bool
  cbb_is_top_level :: bool

record cbb_mem =
  mem_base :: cbb_buffer_st
  mem_cbb :: "nat \<Rightarrow> CBB"
  mem_alloc :: "nat \<Rightarrow> bool"

type_synonym cbb_res = "(bool \<times> cbb_mem) option"

definition cbb_zero :: CBB where
  "cbb_zero = \<lparr>cbb_base = False, cbb_offset = 0, cbb_child = None, cbb_pending_len_len = 0,
     cbb_pending_is_asn1 = False, cbb_is_top_level = False\<rparr>"

abbreviation set_cbb :: "nat \<Rightarrow> CBB \<Rightarrow> cbb_mem \<Rightarrow> cbb_mem" where
  "set_cbb a c m \<equiv> m\<lparr>mem_cbb := (mem_cbb m)(a := c)\<rparr>"

abbreviation set_buf :: "bytes \<Rightarrow> cbb_mem \<Rightarrow> cbb_mem" where
  "set_buf b m \<equiv> m\<lparr>mem_base := (mem_base m)\<lparr>bst_buf := b\<rparr>\<rparr>"

text \<open>\<open>sizeof (struct cbb_buffer_st)\<close> is 32 with 64-bit pointers.\<close>

definition sizeof_cbb_buffer_st :: nat where "sizeof_cbb_buffer_st = 32"

definition CBB_INITIAL_SIZE :: nat where "CBB_INITIAL_SIZE = 64"

section \<open>Initialisation and clean-up\<close>

definition cbb_init :: "cbb_mem \<Rightarrow> nat \<Rightarrow> bytes \<Rightarrow> nat \<Rightarrow> bool \<times> cbb_mem" where
  "cbb_init m a buf cap =
     (if \<not> mem_alloc m sizeof_cbb_buffer_st then (False, m)
      else (True,
        set_cbb a ((mem_cbb m a)\<lparr>cbb_base := True, cbb_is_top_level := True\<rparr>)
          (m\<lparr>mem_base := \<lparr>bst_buf = buf, bst_len = 0, bst_cap = cap, bst_can_resize = True\<rparr>\<rparr>)))"

definition CBB_init :: "cbb_mem \<Rightarrow> nat \<Rightarrow> nat \<Rightarrow> bool \<times> cbb_mem" where
  "CBB_init m a initial_capacity =
     (let m = set_cbb a cbb_zero m;
          initial_capacity = (if initial_capacity = 0 then CBB_INITIAL_SIZE else initial_capacity)
      in if \<not> mem_alloc m initial_capacity then (False, m)
         else cbb_init m a (replicate initial_capacity 0) initial_capacity)"

definition CBB_init_fixed :: "cbb_mem \<Rightarrow> nat \<Rightarrow> bytes \<Rightarrow> nat \<Rightarrow> bool \<times> cbb_mem" where
  "CBB_init_fixed m a buf len =
     (case cbb_init (set_cbb a cbb_zero m) a buf len of
        (False, m) \<Rightarrow> (False, m)
      | (True, m) \<Rightarrow> (True, m\<lparr>mem_base := (mem_base m)\<lparr>bst_can_resize := False\<rparr>\<rparr>))"

text \<open>Clean-up frees the buffer structure, and the bytes when the builder owns them.\<close>

definition CBB_cleanup :: "cbb_mem \<Rightarrow> nat \<Rightarrow> cbb_mem" where
  "CBB_cleanup m a =
     (let m = (if cbb_base (mem_cbb m a)
               then m\<lparr>mem_base := \<lparr>bst_buf = (if bst_can_resize (mem_base m) then [] else bst_buf (mem_base m)),
                        bst_len = 0, bst_cap = 0, bst_can_resize = False\<rparr>\<rparr>
               else m)
      in set_cbb a ((mem_cbb m a)\<lparr>cbb_base := False, cbb_child := None\<rparr>) m)"

section \<open>The buffer\<close>

text \<open>
  \<open>base\<close> tells whether the pointer passed is non-NULL; the result is the offset
  of the new space (\<^const>\<open>None\<close> for the return value 0).
\<close>

definition cbb_buffer_add :: "cbb_mem \<Rightarrow> bool \<Rightarrow> nat \<Rightarrow> nat option \<times> cbb_mem" where
  "cbb_buffer_add m base len =
     (if \<not> base then (None, m)
      else let b = mem_base m; newlen = size_add (bst_len b) len
       in if newlen < bst_len b then (None, m)
          else if newlen > bst_cap b then
            (if \<not> bst_can_resize b then (None, m)
             else let newcap = (bst_cap b * 2) mod 2 ^ 64;
                      newcap = (if newcap < bst_cap b \<or> newcap < newlen then newlen else newcap)
                  in case recallocarray (mem_alloc m) (bst_buf b) (bst_cap b) newcap 1 of
                       None \<Rightarrow> (None, m)
                     | Some newbuf \<Rightarrow>
                        (Some (bst_len b),
                         m\<lparr>mem_base := b\<lparr>bst_buf := newbuf, bst_cap := newcap, bst_len := newlen\<rparr>\<rparr>))
          else (Some (bst_len b), m\<lparr>mem_base := b\<lparr>bst_len := newlen\<rparr>\<rparr>))"

section \<open>Flushing\<close>

text \<open>
  The ASN.1 part of \<open>CBB_flush\<close>: the length octet was assumed to be one byte;
  for the long form the contents are moved to make room.  On success it returns
  what is left to write as big-endian length.
\<close>

definition asn1_len_len :: "nat \<Rightarrow> nat" where
  "asn1_len_len len =
     (if len > 0xffffff then 5 else if len > 0xffff then 4 else if len > 0xff then 3
      else if len > 0x7f then 2 else 1)"

definition cbb_flush_asn1 :: "cbb_mem \<Rightarrow> nat \<Rightarrow> nat \<Rightarrow> nat \<Rightarrow> nat option \<times> cbb_mem" where
  "cbb_flush_asn1 m a child_start len =
     (if cbb_pending_len_len (mem_cbb m a) \<noteq> 1 then (None, m)
      else if len > 0xfffffffe then (None, m)
      else let len_len = asn1_len_len len;
               store_byte = (\<lambda>m b. set_cbb a
                  ((mem_cbb m a)\<lparr>cbb_offset := cbb_offset (mem_cbb m a) + 1,
                     cbb_pending_len_len := len_len - 1\<rparr>)
                  (set_buf ((bst_buf (mem_base m))[cbb_offset (mem_cbb m a) := b]) m))
           in if len_len = 1 then (Some 0, store_byte m (of_nat len))
              else let initial_length_byte = 0x80 OR of_nat (len_len - 1);
                       extra_bytes = len_len - 1
                   in case cbb_buffer_add m (cbb_base (mem_cbb m a)) extra_bytes of
                        (None, m) \<Rightarrow> (None, m)
                      | (Some _, m) \<Rightarrow>
                         (let buf = bst_buf (mem_base m);
                              m = set_buf (write_at buf (child_start + extra_bytes)
                                             (take len (drop child_start buf))) m
                          in (Some len, store_byte m initial_length_byte)))"

text \<open>The tail of \<open>CBB_flush\<close>: write the length into the prefix, and detach the child.\<close>

definition cbb_flush_prefix :: "cbb_mem \<Rightarrow> nat \<Rightarrow> nat \<Rightarrow> nat \<Rightarrow> bool \<times> cbb_mem" where
  "cbb_flush_prefix m a ch len =
     (let c = mem_cbb m a;
          n = cbb_pending_len_len c;
          m = set_buf (write_at (bst_buf (mem_base m)) (cbb_offset c) (be_bytes n len)) m
      in if len div 256 ^ n \<noteq> 0 then (False, m)
         else let m = set_cbb ch ((mem_cbb m ch)\<lparr>cbb_base := False\<rparr>) m
              in (True, set_cbb a ((mem_cbb m a)\<lparr>cbb_child := None, cbb_pending_len_len := 0,
                    cbb_pending_is_asn1 := False, cbb_offset := 0\<rparr>) m))"

definition cbb_flush_pending :: "cbb_mem \<Rightarrow> nat \<Rightarrow> nat \<Rightarrow> nat \<Rightarrow> bool \<times> cbb_mem" where
  "cbb_flush_pending m a ch child_start =
     (if child_start < cbb_offset (mem_cbb m a) \<or> bst_len (mem_base m) < child_start then (False, m)
      else let len = bst_len (mem_base m) - child_start
       in case (if cbb_pending_is_asn1 (mem_cbb m a) then cbb_flush_asn1 m a child_start len
                else (Some len, m)) of
            (None, m) \<Rightarrow> (False, m)
          | (Some len, m) \<Rightarrow> cbb_flush_prefix m a ch len)"

partial_function (option) CBB_flush :: "cbb_mem \<Rightarrow> nat \<Rightarrow> cbb_res" where
  "CBB_flush m a =
     (let c = mem_cbb m a
      in if \<not> cbb_base c then Some (False, m)
         else case cbb_child c of
             None \<Rightarrow> Some (True, m)
           | Some ch \<Rightarrow>
              (if cbb_pending_len_len c = 0 then Some (True, m)
               else let child_start = size_add (cbb_offset c) (cbb_pending_len_len c)
                    in Option.bind (CBB_flush m ch)
                         (\<lambda>(ok, m). if \<not> ok then Some (False, m)
                                    else Some (cbb_flush_pending m a ch child_start))))"

definition CBB_discard_child :: "cbb_mem \<Rightarrow> nat \<Rightarrow> cbb_mem" where
  "CBB_discard_child m a =
     (case cbb_child (mem_cbb m a) of
        None \<Rightarrow> m
      | Some ch \<Rightarrow>
         (let m = m\<lparr>mem_base := (mem_base m)\<lparr>bst_len := cbb_offset (mem_cbb m a)\<rparr>\<rparr>;
              m = set_cbb ch ((mem_cbb m ch)\<lparr>cbb_base := False\<rparr>) m
          in set_cbb a ((mem_cbb m a)\<lparr>cbb_child := None, cbb_pending_len_len := 0,
                cbb_pending_is_asn1 := False, cbb_offset := 0\<rparr>) m))"

text \<open>
  \<open>CBB_finish\<close>: the flags tell whether \<open>out_data\<close> and \<open>out_len\<close> are given and
  whether \<open>*out_data\<close> is already set; the result has the bytes handed over
  (the buffer, of which the first \<open>out_len\<close> bytes are valid) and their number.
\<close>

definition CBB_finish ::
  "cbb_mem \<Rightarrow> nat \<Rightarrow> bool \<Rightarrow> bool \<Rightarrow> bool \<Rightarrow> ((bytes \<times> nat) option \<times> cbb_mem) option" where
  "CBB_finish m a has_out_data has_out_len out_data_set =
     (if \<not> cbb_is_top_level (mem_cbb m a) then Some (None, m)
      else do {
        (ok, m) \<leftarrow> CBB_flush m a;
        if \<not> ok then Some (None, m)
        else if bst_can_resize (mem_base m) \<and> (\<not> has_out_data \<or> \<not> has_out_len) then Some (None, m)
        else if has_out_data \<and> out_data_set then Some (None, m)
        else let out = (bst_buf (mem_base m), bst_len (mem_base m))
             in Some (Some out, CBB_cleanup (set_buf [] m) a)
      })"

section \<open>Adding data\<close>

definition cbb_add_u :: "cbb_mem \<Rightarrow> nat \<Rightarrow> u32 \<Rightarrow> nat \<Rightarrow> cbb_res" where
  "cbb_add_u m a v len_len =
     (if len_len = 0 then Some (True, m)
      else if len_len > 4 then Some (False, m)
      else do {
        (ok, m) \<leftarrow> CBB_flush m a;
        if \<not> ok then Some (False, m)
        else case cbb_buffer_add m (cbb_base (mem_cbb m a)) len_len of
            (None, m) \<Rightarrow> Some (False, m)
          | (Some off, m) \<Rightarrow>
             Some (True, set_buf (write_at (bst_buf (mem_base m)) off (put_be len_len v)) m)
      })"

definition CBB_add_u8 :: "cbb_mem \<Rightarrow> nat \<Rightarrow> nat \<Rightarrow> cbb_res" where
  "CBB_add_u8 m a value =
     (if value > 0xff then Some (False, m) else cbb_add_u m a (of_nat value) 1)"

definition CBB_add_u16 :: "cbb_mem \<Rightarrow> nat \<Rightarrow> nat \<Rightarrow> cbb_res" where
  "CBB_add_u16 m a value =
     (if value > 0xffff then Some (False, m) else cbb_add_u m a (of_nat value) 2)"

definition CBB_add_u24 :: "cbb_mem \<Rightarrow> nat \<Rightarrow> nat \<Rightarrow> cbb_res" where
  "CBB_add_u24 m a value =
     (if value > 0xffffff then Some (False, m) else cbb_add_u m a (of_nat value) 3)"

definition CBB_add_u32 :: "cbb_mem \<Rightarrow> nat \<Rightarrow> nat \<Rightarrow> cbb_res" where
  "CBB_add_u32 m a value =
     (if value > 0xffffffff then Some (False, m) else cbb_add_u m a (of_nat value) 4)"

definition CBB_add_u64 :: "cbb_mem \<Rightarrow> nat \<Rightarrow> u64 \<Rightarrow> cbb_res" where
  "CBB_add_u64 m a value =
     (let hi = unat (drop_bit 32 value); lo = unat (value AND 0xffffffff)
      in do {
        (ok, m) \<leftarrow> CBB_add_u32 m a hi;
        if \<not> ok then Some (False, m) else CBB_add_u32 m a lo
      })"

definition cbb_add_length_prefixed :: "cbb_mem \<Rightarrow> nat \<Rightarrow> nat \<Rightarrow> nat \<Rightarrow> cbb_res" where
  "cbb_add_length_prefixed m a ch len_len =
     do {
       (ok, m) \<leftarrow> CBB_flush m a;
       if \<not> ok then Some (False, m)
       else let m = set_cbb a ((mem_cbb m a)\<lparr>cbb_offset := bst_len (mem_base m)\<rparr>) m
            in case cbb_buffer_add m (cbb_base (mem_cbb m a)) len_len of
                 (None, m) \<Rightarrow> Some (False, m)
               | (Some off, m) \<Rightarrow>
                  (let m = set_buf (write_at (bst_buf (mem_base m)) off (replicate len_len 0)) m;
                       m = set_cbb ch (cbb_zero\<lparr>cbb_base := cbb_base (mem_cbb m a)\<rparr>) m
                   in Some (True, set_cbb a ((mem_cbb m a)\<lparr>cbb_child := Some ch,
                        cbb_pending_len_len := len_len, cbb_pending_is_asn1 := False\<rparr>) m))
     }"

definition CBB_add_u8_length_prefixed :: "cbb_mem \<Rightarrow> nat \<Rightarrow> nat \<Rightarrow> cbb_res" where
  "CBB_add_u8_length_prefixed m a ch = cbb_add_length_prefixed m a ch 1"

definition CBB_add_u16_length_prefixed :: "cbb_mem \<Rightarrow> nat \<Rightarrow> nat \<Rightarrow> cbb_res" where
  "CBB_add_u16_length_prefixed m a ch = cbb_add_length_prefixed m a ch 2"

definition CBB_add_u24_length_prefixed :: "cbb_mem \<Rightarrow> nat \<Rightarrow> nat \<Rightarrow> cbb_res" where
  "CBB_add_u24_length_prefixed m a ch = cbb_add_length_prefixed m a ch 3"

definition CBB_add_u32_length_prefixed :: "cbb_mem \<Rightarrow> nat \<Rightarrow> nat \<Rightarrow> cbb_res" where
  "CBB_add_u32_length_prefixed m a ch = cbb_add_length_prefixed m a ch 4"

definition CBB_add_asn1 :: "cbb_mem \<Rightarrow> nat \<Rightarrow> nat \<Rightarrow> u32 \<Rightarrow> cbb_res" where
  "CBB_add_asn1 m a ch tag =
     (if tag > 0xff then Some (False, m)
      else if tag AND 0x1f = 0x1f then Some (False, m)
      else do {
        (ok, m) \<leftarrow> CBB_flush m a;
        if \<not> ok then Some (False, m)
        else do {
          (ok, m) \<leftarrow> CBB_add_u8 m a (unat tag);
          if \<not> ok then Some (False, m)
          else do {
            let m = set_cbb a ((mem_cbb m a)\<lparr>cbb_offset := bst_len (mem_base m)\<rparr>) m;
            (ok, m) \<leftarrow> CBB_add_u8 m a 0;
            if \<not> ok then Some (False, m)
            else let m = set_cbb ch (cbb_zero\<lparr>cbb_base := cbb_base (mem_cbb m a)\<rparr>) m
                 in Some (True, set_cbb a ((mem_cbb m a)\<lparr>cbb_child := Some ch,
                      cbb_pending_len_len := 1, cbb_pending_is_asn1 := True\<rparr>) m)
          }
        }
      })"

definition CBB_add_bytes :: "cbb_mem \<Rightarrow> nat \<Rightarrow> bytes \<Rightarrow> nat \<Rightarrow> cbb_res" where
  "CBB_add_bytes m a data len =
     do {
       (ok, m) \<leftarrow> CBB_flush m a;
       if \<not> ok then Some (False, m)
       else case cbb_buffer_add m (cbb_base (mem_cbb m a)) len of
           (None, m) \<Rightarrow> Some (False, m)
         | (Some off, m) \<Rightarrow>
            Some (True, set_buf (write_at (bst_buf (mem_base m)) off (take len data)) m)
     }"

text \<open>\<open>CBB_add_space\<close> also delivers where the space starts.\<close>

definition CBB_add_space :: "cbb_mem \<Rightarrow> nat \<Rightarrow> nat \<Rightarrow> (nat option \<times> cbb_mem) option" where
  "CBB_add_space m a len =
     do {
       (ok, m) \<leftarrow> CBB_flush m a;
       if \<not> ok then Some (None, m)
       else case cbb_buffer_add m (cbb_base (mem_cbb m a)) len of
           (None, m) \<Rightarrow> Some (None, m)
         | (Some off, m) \<Rightarrow>
            Some (Some off, set_buf (write_at (bst_buf (mem_base m)) off (replicate len 0)) m)
     }"

text \<open>
  The byte loop of \<open>CBB_add_asn1_uint64\<close>: \<open>bs\<close> are the eight bytes of the value,
  most significant first.  Its result also tells whether a byte was written.
\<close>

fun asn1_uint64_bytes_loop :: "cbb_mem \<Rightarrow> nat \<Rightarrow> bytes \<Rightarrow> bool \<Rightarrow> (bool \<times> bool \<times> cbb_mem) option" where
  "asn1_uint64_bytes_loop m child [] started = Some (True, started, m)"
| "asn1_uint64_bytes_loop m child (byte # bs) started =
     (if \<not> started \<and> byte = 0 then asn1_uint64_bytes_loop m child bs started
      else do {
        (ok, m) \<leftarrow> (if \<not> started \<and> byte AND 0x80 \<noteq> 0 then CBB_add_u8 m child 0 else Some (True, m));
        if \<not> ok then Some (False, started, m)
        else do {
          (ok, m) \<leftarrow> CBB_add_u8 m child (unat byte);
          if \<not> ok then Some (False, True, m) else asn1_uint64_bytes_loop m child bs True
        }
      })"

definition u64_bytes :: "u64 \<Rightarrow> bytes" where
  "u64_bytes value = map (\<lambda>i. ucast (drop_bit (8 * (7 - i)) value AND 0xff)) [0..<8]"

definition CBB_add_asn1_uint64 :: "cbb_mem \<Rightarrow> nat \<Rightarrow> nat \<Rightarrow> u64 \<Rightarrow> cbb_res" where
  "CBB_add_asn1_uint64 m a child value =
     do {
       (ok, m) \<leftarrow> CBB_add_asn1 m a child CBS_ASN1_INTEGER;
       if \<not> ok then Some (False, m)
       else do {
         (ok, started, m) \<leftarrow> asn1_uint64_bytes_loop m child (u64_bytes value) False;
         if \<not> ok then Some (False, m)
         else do {
           (ok, m) \<leftarrow> (if \<not> started then CBB_add_u8 m child 0 else Some (True, m));
           if \<not> ok then Some (False, m) else CBB_flush m a
         }
       }
     }"

end
