(* ===== verification/CBB_Refine.thy ===== *)
theory CBB_Refine
  imports CBB
begin

text \<open>
  What the builder of bs_cbb.c promises, and that the code keeps it.

  The abstract state of a builder is a path of nested levels: the innermost
  level collects bytes, and each level above it holds the bytes it had when its
  child was opened and the kind of the length prefix it owes (\<open>level\<close>).  Closing
  a level puts the prefix, now that the length is known, in front of the child's
  bytes (\<open>collapse\<close>).  \<open>builds\<close> relates a store to such a path; the lemmas of
  this theory show that every operation of bs_cbb.c does to the store what the
  abstract operation does to the path, and that flushing ends.
\<close>

section \<open>The abstract builder\<close>

datatype prefix = Fixed nat | Asn1

datatype level =
    Leaf (addr: nat) bytes
  | Node (addr: nat) bytes prefix level

primrec plen :: "prefix \<Rightarrow> nat" where
  "plen (Fixed n) = n"
| "plen Asn1 = 1"

primrec prefix_bytes :: "prefix \<Rightarrow> nat \<Rightarrow> bytes" where
  "prefix_bytes (Fixed n) l = be_bytes n l"
| "prefix_bytes Asn1 l = der_len l"

primrec prefix_fits :: "prefix \<Rightarrow> nat \<Rightarrow> bool" where
  "prefix_fits (Fixed n) l \<longleftrightarrow> l < 256 ^ n"
| "prefix_fits Asn1 l \<longleftrightarrow> l \<le> 0xfffffffe"

primrec addrs :: "level \<Rightarrow> nat set" where
  "addrs (Leaf a B) = {a}"
| "addrs (Node a B p L) = insert a (addrs L)"

text \<open>The bytes of the closed path, and whether all its lengths fit their prefixes.\<close>

primrec collapse :: "level \<Rightarrow> bytes" where
  "collapse (Leaf a B) = B"
| "collapse (Node a B p L) = B @ prefix_bytes p (length (collapse L)) @ collapse L"

primrec level_fits :: "level \<Rightarrow> bool" where
  "level_fits (Leaf a B) \<longleftrightarrow> True"
| "level_fits (Node a B p L) \<longleftrightarrow> level_fits L \<and> prefix_fits p (length (collapse L))"

text \<open>The bytes in the buffer while the path is open: the reserved prefixes are zero.\<close>

primrec layout :: "level \<Rightarrow> bytes" where
  "layout (Leaf a B) = B"
| "layout (Node a B p L) = B @ replicate (plen p) 0 @ layout L"

text \<open>The abstract operations: close everything below \<open>a\<close>, append to the innermost level, open a child.\<close>

primrec close_at :: "nat \<Rightarrow> level \<Rightarrow> level" where
  "close_at a (Leaf b B) = Leaf b B"
| "close_at a (Node b B p L) =
     (if a = b then Leaf b (collapse (Node b B p L)) else Node b B p (close_at a L))"

primrec leaf_append :: "bytes \<Rightarrow> level \<Rightarrow> level" where
  "leaf_append bs (Leaf b B) = Leaf b (B @ bs)"
| "leaf_append bs (Node b B p L) = Node b B p (leaf_append bs L)"

primrec leaf_open :: "nat \<Rightarrow> prefix \<Rightarrow> level \<Rightarrow> level" where
  "leaf_open ch p (Leaf b B) = Node b B p (Leaf ch [])"
| "leaf_open ch p (Node b B q L) = Node b B q (leaf_open ch p L)"

text \<open>Dropping the child of \<open>a\<close> and all it wrote.\<close>

primrec drop_child :: "nat \<Rightarrow> level \<Rightarrow> level" where
  "drop_child a (Leaf b B) = Leaf b B"
| "drop_child a (Node b B p L) = (if a = b then Leaf b B else Node b B p (drop_child a L))"

section \<open>The buffer\<close>

definition cbb_contents :: "cbb_mem \<Rightarrow> bytes" where
  "cbb_contents m = take (bst_len (mem_base m)) (bst_buf (mem_base m))"

definition buf_ok :: "cbb_mem \<Rightarrow> bool" where
  "buf_ok m \<longleftrightarrow> length (bst_buf (mem_base m)) = bst_cap (mem_base m)
     \<and> bst_len (mem_base m) \<le> bst_cap (mem_base m) \<and> bst_cap (mem_base m) \<le> SIZE_MAX"

text \<open>There is room for \<open>n\<close> bytes: they fit as it is, or the buffer may grow and the allocator delivers.\<close>

definition mem_room :: "cbb_mem \<Rightarrow> nat \<Rightarrow> bool" where
  "mem_room m n \<longleftrightarrow> n \<le> SIZE_MAX \<and>
     (n \<le> bst_cap (mem_base m) \<or> bst_can_resize (mem_base m) \<and> (\<forall>k\<le>SIZE_MAX. mem_alloc m k))"

text \<open>Growing keeps the environment; a buffer of the caller keeps its size.\<close>

definition same_env :: "cbb_mem \<Rightarrow> cbb_mem \<Rightarrow> bool" where
  "same_env m m' \<longleftrightarrow> mem_alloc m' = mem_alloc m
     \<and> bst_can_resize (mem_base m') = bst_can_resize (mem_base m)
     \<and> bst_cap (mem_base m) \<le> bst_cap (mem_base m')
     \<and> (\<not> bst_can_resize (mem_base m) \<longrightarrow> bst_cap (mem_base m') = bst_cap (mem_base m))"

lemma same_env_refl [simp]: "same_env m m"
  by (simp add: same_env_def)

lemma same_env_trans [trans]: "same_env m m' \<Longrightarrow> same_env m' m'' \<Longrightarrow> same_env m m''"
  by (simp add: same_env_def)

lemma mem_room_env: "same_env m m' \<Longrightarrow> mem_room m n \<Longrightarrow> mem_room m' n"
  by (auto simp: same_env_def mem_room_def)

lemma mem_room_mono: "mem_room m n \<Longrightarrow> k \<le> n \<Longrightarrow> mem_room m k"
  by (auto simp: mem_room_def)

lemma length_contents: "buf_ok m \<Longrightarrow> length (cbb_contents m) = bst_len (mem_base m)"
  by (simp add: buf_ok_def cbb_contents_def)

lemma newcap_le: "cap \<le> SIZE_MAX \<Longrightarrow> n \<le> SIZE_MAX \<Longrightarrow>
    (if (cap * 2) mod 2 ^ 64 < cap \<or> (cap * 2) mod 2 ^ 64 < n then n else (cap * 2) mod 2 ^ 64) \<le> SIZE_MAX"
  using mod_less_divisor [of "2 ^ 64" "cap * 2"] by (auto simp: SIZE_MAX_def)

lemma buffer_add_ok:
  assumes "buf_ok m" "mem_room m (bst_len (mem_base m) + n)"
  obtains m' where "cbb_buffer_add m True n = (Some (bst_len (mem_base m)), m')"
    "mem_cbb m' = mem_cbb m" "same_env m m'" "buf_ok m'"
    "bst_len (mem_base m') = bst_len (mem_base m) + n"
    "take (bst_len (mem_base m)) (bst_buf (mem_base m')) = cbb_contents m"
proof -
  let ?b = "mem_base m" let ?l = "bst_len ?b + n"
  have le: "?l \<le> SIZE_MAX" using assms(2) by (simp add: mem_room_def)
  show thesis
  proof (cases "?l \<le> bst_cap ?b")
    case True
    show thesis
    proof (rule that)
      show "cbb_buffer_add m True n = (Some (bst_len ?b), m\<lparr>mem_base := ?b\<lparr>bst_len := ?l\<rparr>\<rparr>)"
        using le True by (simp add: cbb_buffer_add_def Let_def)
    qed (use True assms in \<open>auto simp: same_env_def buf_ok_def cbb_contents_def\<close>)
  next
    case False
    define nc where "nc = (if (bst_cap ?b * 2) mod 2 ^ 64 < bst_cap ?b \<or> (bst_cap ?b * 2) mod 2 ^ 64 < ?l
       then ?l else (bst_cap ?b * 2) mod 2 ^ 64)"
    have nc: "?l \<le> nc" "bst_cap ?b \<le> nc" using False by (auto simp: nc_def)
    have ncm: "nc \<le> SIZE_MAX"
      unfolding nc_def by (rule newcap_le) (use le assms(1) in \<open>auto simp: buf_ok_def\<close>)
    have al: "bst_can_resize ?b" "mem_alloc m nc"
      using False assms(2) ncm by (auto simp: mem_room_def)
    let ?nb = "bst_buf ?b @ replicate (nc - bst_cap ?b) 0"
    have len: "length (bst_buf ?b) = bst_cap ?b" using assms(1) by (simp add: buf_ok_def)
    show thesis
    proof (rule that)
      show "cbb_buffer_add m True n = (Some (bst_len ?b),
          m\<lparr>mem_base := ?b\<lparr>bst_buf := ?nb, bst_cap := nc, bst_len := ?l\<rparr>\<rparr>)"
        unfolding cbb_buffer_add_def Let_def size_add_exact [OF le] nc_def [symmetric]
        using False al len nc ncm assms(1) by (simp add: recallocarray_1 buf_ok_def)
    qed (use nc ncm len al(1) assms in \<open>auto simp: same_env_def buf_ok_def cbb_contents_def\<close>)
  qed
qed

text \<open>Reserving space and filling it appends to the contents.\<close>

lemma append_ok:
  assumes "buf_ok m" "mem_room m (bst_len (mem_base m) + length bs)"
  obtains m' where "cbb_buffer_add m True (length bs) = (Some (bst_len (mem_base m)), m')"
    "mem_cbb m' = mem_cbb m" "same_env m (set_buf (write_at (bst_buf (mem_base m')) (bst_len (mem_base m)) bs) m')"
    "buf_ok (set_buf (write_at (bst_buf (mem_base m')) (bst_len (mem_base m)) bs) m')"
    "cbb_contents (set_buf (write_at (bst_buf (mem_base m')) (bst_len (mem_base m)) bs) m') = cbb_contents m @ bs"
proof -
  obtain m' where *: "cbb_buffer_add m True (length bs) = (Some (bst_len (mem_base m)), m')"
    "mem_cbb m' = mem_cbb m" "same_env m m'" "buf_ok m'"
    "bst_len (mem_base m') = bst_len (mem_base m) + length bs"
    "take (bst_len (mem_base m)) (bst_buf (mem_base m')) = cbb_contents m"
    by (rule buffer_add_ok [OF assms])
  show thesis
  proof (rule that [OF *(1,2)])
    show "cbb_contents (set_buf (write_at (bst_buf (mem_base m')) (bst_len (mem_base m)) bs) m') = cbb_contents m @ bs"
      using *(4-6) by (simp add: cbb_contents_def [of "set_buf _ _"] take_write_at_end buf_ok_def)
  qed (use *(3-5) in \<open>auto simp: same_env_def buf_ok_def\<close>)
qed

lemma contents_write:
  assumes "buf_ok m" "off + length bs \<le> bst_len (mem_base m)"
  shows "cbb_contents (set_buf (write_at (bst_buf (mem_base m)) off bs) m) = write_at (cbb_contents m) off bs"
proof -
  let ?b = "bst_buf (mem_base m)" and ?l = "bst_len (mem_base m)"
  have "take ?l (write_at ?b off bs) = take off ?b @ bs @ take (?l - (off + length bs)) (drop (off + length bs) ?b)"
    using assms by (simp add: write_at_def buf_ok_def)
  also have "\<dots> = write_at (take ?l ?b) off bs"
    using assms by (simp add: write_at_def drop_take min_def)
  finally show ?thesis by (simp add: cbb_contents_def)
qed

lemma buf_ok_write:
  "buf_ok m \<Longrightarrow> off + length bs \<le> bst_len (mem_base m) \<Longrightarrow>
    buf_ok (set_buf (write_at (bst_buf (mem_base m)) off bs) m)"
  by (simp add: buf_ok_def)

lemma list_update_write: "i < length xs \<Longrightarrow> xs[i := b] = write_at xs i [b]"
  by (simp add: write_at_def upd_conv_take_nth_drop)

lemma write_at_mid: "length X = length Y \<Longrightarrow> write_at (P @ X @ C) (length P) Y = P @ Y @ C"
  by (simp add: write_at_def)

lemma contents_simps [simp]:
  "cbb_contents (m\<lparr>mem_cbb := f\<rparr>) = cbb_contents m" "buf_ok (m\<lparr>mem_cbb := f\<rparr>) = buf_ok m"
  "same_env m' (m\<lparr>mem_cbb := f\<rparr>) = same_env m' m"
  by (simp_all add: cbb_contents_def buf_ok_def same_env_def)

section \<open>Writing a pending prefix\<close>

text \<open>What a structure looks like once its child is closed.\<close>

definition closed_cbb :: "CBB \<Rightarrow> CBB" where
  "closed_cbb c = c\<lparr>cbb_child := None, cbb_pending_len_len := 0, cbb_pending_is_asn1 := False, cbb_offset := 0\<rparr>"

lemma flush_prefix_ok:
  assumes ok: "buf_ok m" and c: "cbb_contents m = P @ Z @ C" "length Z = n"
    and a: "cbb_offset (mem_cbb m a) = length P" "cbb_pending_len_len (mem_cbb m a) = n" and ne: "a \<noteq> ch"
    and v: "v < 256 ^ n"
  shows "\<exists>m'. cbb_flush_prefix m a ch v = (True, m')
    \<and> cbb_contents m' = P @ be_bytes n v @ C \<and> buf_ok m' \<and> same_env m m'
    \<and> mem_cbb m' = (mem_cbb m)(ch := (mem_cbb m ch)\<lparr>cbb_base := False\<rparr>, a := closed_cbb (mem_cbb m a))"
proof -
  have len: "length P + n \<le> bst_len (mem_base m)"
    using length_contents [OF ok] c by simp
  have "cbb_contents (set_buf (write_at (bst_buf (mem_base m)) (length P) (be_bytes n v)) m) = P @ be_bytes n v @ C"
    using contents_write [OF ok, of "length P" "be_bytes n v"] len c by (simp add: write_at_mid)
  moreover have "buf_ok (set_buf (write_at (bst_buf (mem_base m)) (length P) (be_bytes n v)) m)"
    using buf_ok_write [OF ok, of "length P" "be_bytes n v"] len by simp
  ultimately show ?thesis
    using a ne v by (simp add: cbb_flush_prefix_def closed_cbb_def same_env_def cbb_contents_def buf_ok_def)
qed

lemma flush_pending_fixed:
  assumes ok: "buf_ok m" and c: "cbb_contents m = P @ Z @ C" "length Z = n"
    and a: "cbb_offset (mem_cbb m a) = length P" "cbb_pending_len_len (mem_cbb m a) = n"
      "\<not> cbb_pending_is_asn1 (mem_cbb m a)" and ne: "a \<noteq> ch"
    and v: "length C < 256 ^ n"
  shows "\<exists>m'. cbb_flush_pending m a ch (length P + n) = (True, m')
    \<and> cbb_contents m' = P @ be_bytes n (length C) @ C \<and> buf_ok m' \<and> same_env m m'
    \<and> mem_cbb m' = (mem_cbb m)(ch := (mem_cbb m ch)\<lparr>cbb_base := False\<rparr>, a := closed_cbb (mem_cbb m a))"
proof -
  have "bst_len (mem_base m) = length P + n + length C"
    using length_contents [OF ok] c by simp
  with flush_prefix_ok [OF ok c a(1,2) ne v] a show ?thesis
    by (simp add: cbb_flush_pending_def)
qed

lemma asn1_len_len_eq: "n \<le> 0xfffffffe \<Longrightarrow> asn1_len_len n = (if n \<le> 0x7f then 1 else 1 + len_octets n)"
  by (auto simp: asn1_len_len_def len_octets_def)

lemma initial_length_byte: "n \<le> 4 \<Longrightarrow> (0x80 :: u8) OR of_nat n = of_nat (0x80 + n)"
proof -
  assume "n \<le> 4"
  then consider "n = 0" | "n = 1" | "n = 2" | "n = 3" | "n = 4" by linarith
  then show ?thesis by cases simp_all
qed

text \<open>Moving the contents of a long-form element along makes room for its length octets.\<close>

lemma memmove_contents:
  assumes ok: "buf_ok m" and c: "cbb_contents m = P @ Z # C @ Y"
  shows "\<exists>X. length X = length Y \<and>
    cbb_contents (set_buf (write_at (bst_buf (mem_base m)) (length P + 1 + length Y)
      (take (length C) (drop (length P + 1) (bst_buf (mem_base m))))) m) = P @ Z # X @ C"
proof -
  let ?b = "bst_buf (mem_base m)"
  have len: "bst_len (mem_base m) = length P + 1 + length C + length Y"
    using length_contents [OF ok] c by simp
  have "take (length C) (drop (length P + 1) ?b) = take (length C) (drop (length P + 1) (cbb_contents m))"
    by (simp add: cbb_contents_def len drop_take)
  also have "\<dots> = C" by (simp add: c)
  finally have t: "take (length C) (drop (length P + 1) ?b) = C" .
  have "cbb_contents (set_buf (write_at ?b (length P + 1 + length Y) C) m)
      = write_at (cbb_contents m) (length P + 1 + length Y) C"
    by (rule contents_write [OF ok]) (simp add: len)
  also have "\<dots> = P @ Z # take (length Y) (C @ Y) @ C"
    by (simp add: c write_at_def)
  finally show ?thesis
    unfolding t by (intro exI [of _ "take (length Y) (C @ Y)"]) simp
qed

lemma flush_pending_asn1_short:
  assumes ok: "buf_ok m" and c: "cbb_contents m = P @ Z # C"
    and a: "cbb_offset (mem_cbb m a) = length P" "cbb_pending_len_len (mem_cbb m a) = 1"
      "cbb_pending_is_asn1 (mem_cbb m a)" "cbb_base (mem_cbb m a)" and ne: "a \<noteq> ch"
    and True: "length C \<le> 0x7f"
  shows "\<exists>m'. cbb_flush_pending m a ch (length P + 1) = (True, m')
    \<and> cbb_contents m' = P @ der_len (length C) @ C \<and> buf_ok m' \<and> same_env m m'
    \<and> (\<exists>c. closed_cbb c = closed_cbb (mem_cbb m a) \<and>
         mem_cbb m' = (mem_cbb m)(ch := (mem_cbb m ch)\<lparr>cbb_base := False\<rparr>, a := closed_cbb c))"
proof -
  let ?n = "length C"
  have len: "bst_len (mem_base m) = length P + 1 + ?n"
    using length_contents [OF ok] c by simp
  define c1 where "c1 = (mem_cbb m a)\<lparr>cbb_offset := length P + 1, cbb_pending_len_len := 0\<rparr>"
  define m1 where "m1 = set_cbb a c1 (set_buf ((bst_buf (mem_base m))[length P := of_nat ?n]) m)"
  have "length P < length (bst_buf (mem_base m))" using ok len by (simp add: buf_ok_def)
  then have m1: "m1 = set_cbb a c1 (set_buf (write_at (bst_buf (mem_base m)) (length P) [of_nat ?n]) m)"
    by (simp add: m1_def list_update_write)
  have "cbb_contents m1 = (P @ [of_nat ?n]) @ [] @ C"
    using contents_write [OF ok, of "length P" "[of_nat ?n]"] len c write_at_mid [of "[Z]" "[of_nat ?n]" P C]
    by (simp add: m1)
  moreover have "buf_ok m1"
    using buf_ok_write [OF ok, of "length P" "[of_nat ?n]"] len by (simp add: m1)
  ultimately have "\<exists>m'. cbb_flush_prefix m1 a ch 0 = (True, m')
      \<and> cbb_contents m' = (P @ [of_nat ?n]) @ be_bytes 0 0 @ C \<and> buf_ok m' \<and> same_env m1 m'
      \<and> mem_cbb m' = (mem_cbb m1)(ch := (mem_cbb m1 ch)\<lparr>cbb_base := False\<rparr>, a := closed_cbb (mem_cbb m1 a))"
    by (intro flush_prefix_ok) (use ne in \<open>auto simp: m1 c1_def\<close>)
  moreover have "cbb_flush_pending m a ch (length P + 1) = cbb_flush_prefix m1 a ch 0"
    using len a True by (simp add: cbb_flush_pending_def cbb_flush_asn1_def asn1_len_len_eq Let_def m1_def c1_def)
  moreover have "closed_cbb c1 = closed_cbb (mem_cbb m a)" by (simp add: c1_def closed_cbb_def)
  ultimately show ?thesis
    using True ne by (auto simp: der_len_def m1_def same_env_def intro!: exI [of _ c1])
qed

lemma flush_pending_asn1_long:
  assumes ok: "buf_ok m" and c: "cbb_contents m = P @ Z # C"
    and a: "cbb_offset (mem_cbb m a) = length P" "cbb_pending_len_len (mem_cbb m a) = 1"
      "cbb_pending_is_asn1 (mem_cbb m a)" "cbb_base (mem_cbb m a)" and ne: "a \<noteq> ch"
    and v: "length C \<le> 0xfffffffe" and room: "mem_room m (length P + length (der_len (length C)) + length C)"
    and False: "\<not> length C \<le> 0x7f"
  shows "\<exists>m'. cbb_flush_pending m a ch (length P + 1) = (True, m')
    \<and> cbb_contents m' = P @ der_len (length C) @ C \<and> buf_ok m' \<and> same_env m m'
    \<and> (\<exists>c. closed_cbb c = closed_cbb (mem_cbb m a) \<and>
         mem_cbb m' = (mem_cbb m)(ch := (mem_cbb m ch)\<lparr>cbb_base := False\<rparr>, a := closed_cbb c))"
proof -
  let ?n = "length C"
  have len: "bst_len (mem_base m) = length P + 1 + ?n"
    using length_contents [OF ok] c by simp
  let ?k = "len_octets ?n"
  have k: "1 \<le> ?k" "?k \<le> 4" "?n < 256 ^ ?k" using False v len_octets_cases [of ?n] by auto
  have dl: "der_len ?n = of_nat (0x80 + ?k) # be_bytes ?k ?n" using False by (simp add: der_len_def)
  have "mem_room m (bst_len (mem_base m) + ?k)" using room len dl by (simp add: add.commute add.left_commute)
  then obtain m1 where add: "cbb_buffer_add m True ?k = (Some (bst_len (mem_base m)), m1)"
    "mem_cbb m1 = mem_cbb m" "same_env m m1" "buf_ok m1"
    "bst_len (mem_base m1) = bst_len (mem_base m) + ?k"
    "take (bst_len (mem_base m)) (bst_buf (mem_base m1)) = cbb_contents m"
    by (rule buffer_add_ok [OF ok])
  define m2 where "m2 = set_buf (write_at (bst_buf (mem_base m1)) (length P + 1 + ?k)
    (take ?n (drop (length P + 1) (bst_buf (mem_base m1))))) m1"
  define c1 where "c1 = (mem_cbb m a)\<lparr>cbb_offset := length P + 1, cbb_pending_len_len := ?k\<rparr>"
  define m3 where "m3 = set_cbb a c1 (set_buf ((bst_buf (mem_base m2))[length P := of_nat (0x80 + ?k)]) m2)"
  obtain Y where Y: "cbb_contents m1 = P @ Z # C @ Y" "length Y = ?k"
  proof (rule that)
    show "cbb_contents m1 = P @ Z # C @ drop (bst_len (mem_base m)) (cbb_contents m1)"
      using append_take_drop_id [of "bst_len (mem_base m)" "cbb_contents m1"] add(5,6) c
      by (simp add: cbb_contents_def [of m1] min_def)
  qed (use length_contents [OF add(4)] add(5) in simp)
  obtain X where X: "length X = ?k" "cbb_contents m2 = P @ Z # X @ C"
    using memmove_contents [OF add(4) Y(1)] Y(2) by (auto simp: m2_def)
  have ok2: "buf_ok m2"
    unfolding m2_def by (rule buf_ok_write [OF add(4)]) (simp add: add(5) len)
  have m3: "m3 = set_cbb a c1 (set_buf (write_at (bst_buf (mem_base m2)) (length P) [of_nat (0x80 + ?k)]) m2)"
    using ok2 add(5) len by (simp add: m3_def list_update_write buf_ok_def m2_def)
  have len2: "bst_len (mem_base m2) = length P + 1 + ?n + ?k" using add(5) len by (simp add: m2_def)
  have c3: "cbb_contents m3 = (P @ [of_nat (0x80 + ?k)]) @ X @ C"
    using contents_write [OF ok2, of "length P" "[of_nat (0x80 + ?k)]"] len2 X
      write_at_mid [of "[Z]" "[of_nat (0x80 + ?k)]" P "X @ C"] by (simp add: m3)
  have ok3: "buf_ok m3"
    using buf_ok_write [OF ok2, of "length P" "[of_nat (0x80 + ?k)]"] len2 by (simp add: m3)
  have "\<exists>m'. cbb_flush_prefix m3 a ch ?n = (True, m')
      \<and> cbb_contents m' = (P @ [of_nat (0x80 + ?k)]) @ be_bytes ?k ?n @ C \<and> buf_ok m' \<and> same_env m3 m'
      \<and> mem_cbb m' = (mem_cbb m3)(ch := (mem_cbb m3 ch)\<lparr>cbb_base := False\<rparr>, a := closed_cbb (mem_cbb m3 a))"
    by (intro flush_prefix_ok [OF ok3 c3 X(1)]) (use ne k in \<open>auto simp: m3_def c1_def\<close>)
  moreover have "cbb_flush_pending m a ch (length P + 1) = cbb_flush_prefix m3 a ch ?n"
    using len a v False add k
    by (simp add: cbb_flush_pending_def cbb_flush_asn1_def asn1_len_len_eq Let_def m3_def m2_def c1_def
        initial_length_byte del: of_nat_add)
  moreover have "closed_cbb c1 = closed_cbb (mem_cbb m a)" by (simp add: c1_def closed_cbb_def)
  moreover have "same_env m m3" "mem_cbb m3 = (mem_cbb m)(a := c1)"
    using add by (simp_all add: m3_def m2_def same_env_def)
  ultimately show ?thesis
    using ne dl by (auto intro!: exI [of _ c1] intro: same_env_trans)
qed

section \<open>Flushing\<close>

text \<open>
  The structures of a path: each level is live, the innermost one has no child,
  and the others point to the next one and remember where its prefix starts.
\<close>

primrec chain :: "cbb_mem \<Rightarrow> nat \<Rightarrow> level \<Rightarrow> bool" where
  "chain m pos (Leaf a B) \<longleftrightarrow> cbb_base (mem_cbb m a) \<and> cbb_child (mem_cbb m a) = None"
| "chain m pos (Node a B p L) \<longleftrightarrow>
     cbb_base (mem_cbb m a) \<and> cbb_child (mem_cbb m a) = Some (addr L)
     \<and> cbb_offset (mem_cbb m a) = pos + length B \<and> cbb_pending_len_len (mem_cbb m a) = plen p
     \<and> (cbb_pending_is_asn1 (mem_cbb m a) \<longleftrightarrow> p = Asn1) \<and> 0 < plen p \<and> a \<notin> addrs L
     \<and> chain m (pos + length B + plen p) L"

lemma addr_in_addrs [simp]: "addr L \<in> addrs L"
  by (cases L) auto

lemma plen_le_prefix_bytes: "plen p \<le> length (prefix_bytes p l)"
  by (cases p) (auto simp: length_der_len)

lemma chain_cong:
  "chain m pos L \<Longrightarrow> (\<And>x. x \<in> addrs L \<Longrightarrow> mem_cbb m' x = mem_cbb m x) \<Longrightarrow> chain m' pos L"
  by (induction L arbitrary: pos) auto

lemma closed_cbb_simps [simp]:
  "cbb_base (closed_cbb c) = cbb_base c" "cbb_child (closed_cbb c) = None"
  "cbb_is_top_level (closed_cbb c) = cbb_is_top_level c"
  by (simp_all add: closed_cbb_def)

lemma flush_pending_ok:
  assumes ok: "buf_ok m" and c: "cbb_contents m = P @ replicate (plen p) 0 @ C"
    and a: "cbb_offset (mem_cbb m a) = length P" "cbb_pending_len_len (mem_cbb m a) = plen p"
      "cbb_pending_is_asn1 (mem_cbb m a) \<longleftrightarrow> p = Asn1" "cbb_base (mem_cbb m a)" and ne: "a \<noteq> ch"
    and v: "prefix_fits p (length C)"
    and room: "mem_room m (length P + length (prefix_bytes p (length C)) + length C)"
  shows "\<exists>m'. cbb_flush_pending m a ch (length P + plen p) = (True, m')
    \<and> cbb_contents m' = P @ prefix_bytes p (length C) @ C \<and> buf_ok m' \<and> same_env m m'
    \<and> (\<exists>c. closed_cbb c = closed_cbb (mem_cbb m a) \<and>
         mem_cbb m' = (mem_cbb m)(ch := (mem_cbb m ch)\<lparr>cbb_base := False\<rparr>, a := closed_cbb c))"
proof (cases p)
  case (Fixed n)
  with flush_pending_fixed [of m P "replicate n 0" C n a ch] assms show ?thesis by auto
next
  case Asn1
  with assms show ?thesis
    using flush_pending_asn1_short [of m P 0 C a ch] flush_pending_asn1_long [of m P 0 C a ch]
    by (cases "length C \<le> 0x7f") auto
qed

lemma flush_level:
  assumes "chain m (length P) L" "buf_ok m" "cbb_contents m = P @ layout L" "level_fits L"
    "mem_room m (length P + length (collapse L))"
  shows "\<exists>m'. CBB_flush m (addr L) = Some (True, m') \<and> cbb_contents m' = P @ collapse L
    \<and> buf_ok m' \<and> same_env m m'
    \<and> cbb_base (mem_cbb m' (addr L)) \<and> cbb_child (mem_cbb m' (addr L)) = None
    \<and> cbb_is_top_level (mem_cbb m' (addr L)) = cbb_is_top_level (mem_cbb m (addr L))
    \<and> (\<forall>x. x \<notin> addrs L \<longrightarrow> mem_cbb m' x = mem_cbb m x)"
  using assms
proof (induction L arbitrary: m P)
  case (Leaf a B)
  then show ?case by (simp add: CBB_flush.simps [of m a])
next
  case (Node a B p L)
  let ?P = "P @ B @ replicate (plen p) 0"
  note pl = plen_le_prefix_bytes [of p "length (collapse L)"]
  have room1: "mem_room m (length ?P + length (collapse L))"
    using Node.prems(5) by (rule mem_room_mono) (use pl in auto)
  obtain m1 where m1: "CBB_flush m (addr L) = Some (True, m1)" "cbb_contents m1 = ?P @ collapse L"
    "buf_ok m1" "same_env m m1" "\<forall>x. x \<notin> addrs L \<longrightarrow> mem_cbb m1 x = mem_cbb m x"
    using Node.IH [of m ?P] Node.prems room1 by (auto simp: add.assoc)
  have a1: "mem_cbb m1 a = mem_cbb m a" and ne: "a \<noteq> addr L" using Node.prems(1) m1(5) by auto
  have "size_add (length P + length B) (plen p) = length (P @ B) + plen p"
    using room1 by (simp add: mem_room_def)
  moreover have "\<exists>m'. cbb_flush_pending m1 a (addr L) (length (P @ B) + plen p) = (True, m')
    \<and> cbb_contents m' = (P @ B) @ prefix_bytes p (length (collapse L)) @ collapse L \<and> buf_ok m' \<and> same_env m1 m'
    \<and> (\<exists>c. closed_cbb c = closed_cbb (mem_cbb m1 a) \<and>
         mem_cbb m' = (mem_cbb m1)(addr L := (mem_cbb m1 (addr L))\<lparr>cbb_base := False\<rparr>, a := closed_cbb c))"
    by (rule flush_pending_ok)
      (use Node.prems m1 a1 ne mem_room_env [OF m1(4) Node.prems(5)] in \<open>auto simp: add.assoc\<close>)
  ultimately obtain m' c where m': "CBB_flush m a = Some (True, m')"
    "cbb_contents m' = P @ collapse (Node a B p L)" "buf_ok m'" "same_env m1 m'"
    "closed_cbb c = closed_cbb (mem_cbb m a)"
    "mem_cbb m' = (mem_cbb m1)(addr L := (mem_cbb m1 (addr L))\<lparr>cbb_base := False\<rparr>, a := closed_cbb c)"
    using Node.prems(1) m1(1) a1 by (auto simp: CBB_flush.simps [of m a])
  then show ?case
    using Node.prems(1) m1 same_env_trans [OF m1(4) m'(4)] by auto
qed

section \<open>The refinement relation\<close>

definition builds :: "cbb_mem \<Rightarrow> level \<Rightarrow> bool" where
  "builds m L \<longleftrightarrow> chain m 0 L \<and> buf_ok m \<and> cbb_contents m = layout L
     \<and> cbb_is_top_level (mem_cbb m (addr L))"

primrec leaf_addr :: "level \<Rightarrow> nat" where
  "leaf_addr (Leaf a B) = a"
| "leaf_addr (Node a B p L) = leaf_addr L"

primrec fits_at :: "nat \<Rightarrow> level \<Rightarrow> bool" where
  "fits_at a (Leaf b B) \<longleftrightarrow> True"
| "fits_at a (Node b B p L) \<longleftrightarrow> (if a = b then level_fits (Node b B p L) else fits_at a L)"

lemma addr_ops [simp]:
  "addr (close_at a L) = addr L" "addr (leaf_append bs L) = addr L" "addr (leaf_open ch p L) = addr L"
  "addr (drop_child a L) = addr L"
  by (cases L; simp)+

lemma addrs_ops [simp]:
  "addrs (leaf_append bs L) = addrs L" "addrs (leaf_open ch p L) = insert ch (addrs L)"
  by (induction L) auto

lemma addrs_close_at: "addrs (close_at a L) \<subseteq> addrs L"
  by (induction L) auto

lemma addrs_drop_child: "addrs (drop_child a L) \<subseteq> addrs L"
  by (induction L) auto

lemma leaf_addr_close_at: "chain m pos L \<Longrightarrow> a \<in> addrs L \<Longrightarrow> leaf_addr (close_at a L) = a"
  by (induction L arbitrary: pos) auto

lemma leaf_addr_in: "leaf_addr L \<in> addrs L"
  by (induction L) auto

lemma layout_ops [simp]:
  "layout (leaf_append bs L) = layout L @ bs"
  "layout (leaf_open ch p L) = layout L @ replicate (plen p) 0"
  by (induction L) auto

lemma flush_at:
  assumes "chain m (length P) L" "buf_ok m" "cbb_contents m = P @ layout L" "a \<in> addrs L" "fits_at a L"
    "mem_room m (length P + length (layout (close_at a L)))"
  shows "\<exists>m'. CBB_flush m a = Some (True, m') \<and> chain m' (length P) (close_at a L)
    \<and> cbb_contents m' = P @ layout (close_at a L) \<and> buf_ok m' \<and> same_env m m'
    \<and> cbb_is_top_level (mem_cbb m' (addr L)) = cbb_is_top_level (mem_cbb m (addr L))
    \<and> (\<forall>x. x \<notin> addrs L \<longrightarrow> mem_cbb m' x = mem_cbb m x)"
  using assms
proof (induction L arbitrary: P)
  case (Leaf b B)
  then show ?case by (simp add: CBB_flush.simps [of m b])
next
  case (Node b B p L)
  show ?case
  proof (cases "a = b")
    case True
    with Node.prems flush_level [of m P "Node b B p L"] show ?thesis by fastforce
  next
    case False
    let ?P = "P @ B @ replicate (plen p) 0"
    obtain m' where m': "CBB_flush m a = Some (True, m')" "chain m' (length ?P) (close_at a L)"
      "cbb_contents m' = ?P @ layout (close_at a L)" "buf_ok m'" "same_env m m'"
      "\<forall>x. x \<notin> addrs L \<longrightarrow> mem_cbb m' x = mem_cbb m x"
      using Node.IH [of ?P] Node.prems False by (auto simp: add.assoc)
    moreover have "mem_cbb m' b = mem_cbb m b" "b \<notin> addrs (close_at a L)"
      using Node.prems(1) m'(6) addrs_close_at [of a L] by auto
    ultimately show ?thesis using Node.prems(1) False by (auto simp: add.assoc)
  qed
qed

lemma builds_flush:
  assumes "builds m L" "a \<in> addrs L" "fits_at a L" "mem_room m (length (layout (close_at a L)))"
  obtains m' where "CBB_flush m a = Some (True, m')" "builds m' (close_at a L)" "same_env m m'"
    "\<And>x. x \<notin> addrs L \<Longrightarrow> mem_cbb m' x = mem_cbb m x" "cbb_base (mem_cbb m' a)" "leaf_addr (close_at a L) = a"
proof -
  have base: "chain m' pos L' \<Longrightarrow> cbb_base (mem_cbb m' (leaf_addr L'))" for m' pos L'
    by (induction L' arbitrary: pos) auto
  have la: "leaf_addr (close_at a L) = a"
    using assms(1,2) leaf_addr_close_at by (auto simp: builds_def)
  show thesis
    using flush_at [of m "[]" L a] assms that base [of _ 0 "close_at a L"] la by (auto simp: builds_def)
qed

lemma chain_leaf_open:
  assumes "chain m pos L" "ch \<notin> addrs L" "0 < plen p"
    and "mem_cbb m' (leaf_addr L) = (mem_cbb m (leaf_addr L))\<lparr>cbb_offset := pos + length (layout L),
        cbb_child := Some ch, cbb_pending_len_len := plen p, cbb_pending_is_asn1 := (p = Asn1)\<rparr>"
    and "mem_cbb m' ch = cbb_zero\<lparr>cbb_base := True\<rparr>"
    and "\<And>x. x \<noteq> leaf_addr L \<Longrightarrow> x \<noteq> ch \<Longrightarrow> mem_cbb m' x = mem_cbb m x"
  shows "chain m' pos (leaf_open ch p L)"
  using assms
proof (induction L arbitrary: pos)
  case (Leaf a B)
  then show ?case by (auto simp: cbb_zero_def)
next
  case (Node a B q L)
  have "a \<noteq> leaf_addr L" "a \<noteq> ch" using Node.prems(1,2) leaf_addr_in [of L] by auto
  with Node show ?case by (auto simp: add.assoc)
qed

lemma chain_leaf_append: "chain m pos L \<Longrightarrow> chain m pos (leaf_append bs L)"
  by (induction L arbitrary: pos) auto

lemma builds_append:
  assumes "builds m L" "mem_cbb m' = mem_cbb m" "cbb_contents m' = cbb_contents m @ bs" "buf_ok m'"
  shows "builds m' (leaf_append bs L)"
  using assms chain_cong [of m 0 "leaf_append bs L" m'] by (auto simp: builds_def intro: chain_leaf_append)

lemma builds_open:
  assumes "builds m L" "ch \<notin> addrs L" "0 < plen p" "cbb_contents m' = cbb_contents m @ replicate (plen p) 0" "buf_ok m'"
    and "mem_cbb m' (leaf_addr L) = (mem_cbb m (leaf_addr L))\<lparr>cbb_offset := length (cbb_contents m),
        cbb_child := Some ch, cbb_pending_len_len := plen p, cbb_pending_is_asn1 := (p = Asn1)\<rparr>"
    and "mem_cbb m' ch = cbb_zero\<lparr>cbb_base := True\<rparr>"
    and "\<And>x. x \<noteq> leaf_addr L \<Longrightarrow> x \<noteq> ch \<Longrightarrow> mem_cbb m' x = mem_cbb m x"
  shows "builds m' (leaf_open ch p L)"
proof -
  have "cbb_is_top_level (mem_cbb m' (addr L)) = cbb_is_top_level (mem_cbb m (addr L))"
    using assms(2,6,8) addr_in_addrs [of L] by (cases "addr L = leaf_addr L") (simp, metis)
  then show ?thesis
    using assms chain_leaf_open [of m 0 L ch p m'] by (simp add: builds_def)
qed

lemma chain_close_leaf: "chain m pos L \<Longrightarrow> close_at (leaf_addr L) L = L \<and> fits_at (leaf_addr L) L"
  using leaf_addr_in by (induction L arbitrary: pos) auto

lemma leaf_addr_append [simp]: "leaf_addr (leaf_append bs L) = leaf_addr L"
  by (induction L) auto

lemma leaf_addr_open [simp]: "leaf_addr (leaf_open ch p L) = ch"
  by (induction L) auto

lemma leaf_append_append [simp]: "leaf_append ys (leaf_append xs L) = leaf_append (xs @ ys) L"
  by (induction L) auto

lemma leaf_append_Nil [simp]: "leaf_append [] L = L"
  by (induction L) auto

lemma builds_close_leaf: "builds m L \<Longrightarrow> leaf_addr L = a \<Longrightarrow> close_at a L = L \<and> fits_at a L \<and> a \<in> addrs L"
  using chain_close_leaf [of m 0 L] leaf_addr_in [of L] by (auto simp: builds_def)

lemma builds_len: "builds m L \<Longrightarrow> bst_len (mem_base m) = length (layout L)"
  by (metis builds_def length_contents)

section \<open>Operations that append\<close>

text \<open>
  The contract that the appending operations share: called on any open level,
  they close the levels below it and append \<open>out\<close>, provided the owed prefixes
  fit and there is room.
\<close>

locale cbb_appender =
  fixes add :: "cbb_mem \<Rightarrow> nat \<Rightarrow> cbb_res" and out :: bytes
  assumes adds: "builds m L \<Longrightarrow> a \<in> addrs L \<Longrightarrow> fits_at a L
    \<Longrightarrow> mem_room m (length (layout (close_at a L)) + length out)
    \<Longrightarrow> \<exists>m'. add m a = Some (True, m') \<and> builds m' (leaf_append out (close_at a L)) \<and> same_env m m'"
begin

lemma adds_leaf:
  assumes "builds m L" "leaf_addr L = a" "mem_room m (length (layout L) + length out)"
  obtains m' where "add m a = Some (True, m')" "builds m' (leaf_append out L)" "same_env m m'"
  using adds [of m L a] builds_close_leaf [OF assms(1,2)] assms by auto

end

text \<open>Two appending operations in sequence, as \<open>CBB_add_u64\<close> has them, append both outputs.\<close>

definition add_seq ::
  "(cbb_mem \<Rightarrow> nat \<Rightarrow> cbb_res) \<Rightarrow> (cbb_mem \<Rightarrow> nat \<Rightarrow> cbb_res) \<Rightarrow> cbb_mem \<Rightarrow> nat \<Rightarrow> cbb_res" where
  "add_seq f g m a = do { (ok, m) \<leftarrow> f m a; if \<not> ok then Some (False, m) else g m a }"

locale cbb_appender2 = fst: cbb_appender add1 out1 + snd: cbb_appender add2 out2 for add1 out1 add2 out2

sublocale cbb_appender2 \<subseteq> seq: cbb_appender "add_seq add1 add2" "out1 @ out2"
proof
  fix m L a
  assume b: "builds m L" "a \<in> addrs L" "fits_at a L"
    and room: "mem_room m (length (layout (close_at a L)) + length (out1 @ out2))"
  obtain m1 where m1: "add1 m a = Some (True, m1)" "builds m1 (leaf_append out1 (close_at a L))" "same_env m m1"
    using fst.adds [OF b] mem_room_mono [OF room] by auto
  have "leaf_addr (leaf_append out1 (close_at a L)) = a"
    using b leaf_addr_close_at by (auto simp: builds_def)
  then obtain m2 where m2: "add2 m1 a = Some (True, m2)"
      "builds m2 (leaf_append out2 (leaf_append out1 (close_at a L)))" "same_env m1 m2"
    by (rule snd.adds_leaf [OF m1(2)]) (use mem_room_env [OF m1(3) room] in \<open>simp add: add.assoc\<close>)
  then show "\<exists>m'. add_seq add1 add2 m a = Some (True, m')
      \<and> builds m' (leaf_append (out1 @ out2) (close_at a L)) \<and> same_env m m'"
    using m1 same_env_trans [OF m1(3) m2(3)] by (auto simp: add_seq_def)
qed

text \<open>The common core of \<open>cbb_add_u\<close>, \<open>CBB_add_bytes\<close> and \<open>CBB_add_space\<close>.\<close>

lemma flush_then_append:
  assumes "builds m L" "a \<in> addrs L" "fits_at a L" "mem_room m (length (layout (close_at a L)) + length bs)"
  obtains m1 m2 where "CBB_flush m a = Some (True, m1)" "cbb_base (mem_cbb m1 a)"
    "cbb_buffer_add m1 True (length bs) = (Some (length (layout (close_at a L))), m2)"
    "builds (set_buf (write_at (bst_buf (mem_base m2)) (length (layout (close_at a L))) bs) m2)
       (leaf_append bs (close_at a L))"
    "same_env m (set_buf (write_at (bst_buf (mem_base m2)) (length (layout (close_at a L))) bs) m2)"
proof -
  obtain m1 where m1: "CBB_flush m a = Some (True, m1)" "builds m1 (close_at a L)" "same_env m m1"
    "cbb_base (mem_cbb m1 a)"
    by (rule builds_flush [OF assms(1-3)]) (use mem_room_mono [OF assms(4)] in auto)
  have ok: "buf_ok m1" using m1(2) by (simp add: builds_def)
  have "mem_room m1 (bst_len (mem_base m1) + length bs)"
    using mem_room_env [OF m1(3) assms(4)] builds_len [OF m1(2)] by simp
  then obtain m2 where m2:
    "cbb_buffer_add m1 True (length bs) = (Some (bst_len (mem_base m1)), m2)" "mem_cbb m2 = mem_cbb m1"
    "same_env m1 (set_buf (write_at (bst_buf (mem_base m2)) (bst_len (mem_base m1)) bs) m2)"
    "buf_ok (set_buf (write_at (bst_buf (mem_base m2)) (bst_len (mem_base m1)) bs) m2)"
    "cbb_contents (set_buf (write_at (bst_buf (mem_base m2)) (bst_len (mem_base m1)) bs) m2) = cbb_contents m1 @ bs"
    by (rule append_ok [OF ok])
  show thesis
    by (rule that [OF m1(1,4)])
      (use m2 builds_len [OF m1(2)] builds_append [OF m1(2)] same_env_trans [OF m1(3)] in auto)
qed

interpretation ap_bytes: cbb_appender "\<lambda>m a. CBB_add_bytes m a data (length data)" data for data
proof
  fix m L a
  assume "builds m L" "a \<in> addrs L" "fits_at a L" "mem_room m (length (layout (close_at a L)) + length data)"
  then show "\<exists>m'. CBB_add_bytes m a data (length data) = Some (True, m')
      \<and> builds m' (leaf_append data (close_at a L)) \<and> same_env m m'"
    by (rule flush_then_append) (auto simp: CBB_add_bytes_def)
qed

lemma cbb_add_u_adds:
  assumes "0 < n" "n \<le> 4" "builds m L" "a \<in> addrs L" "fits_at a L"
    "mem_room m (length (layout (close_at a L)) + length (be_bytes n (unat v)))"
  shows "\<exists>m'. cbb_add_u m a v n = Some (True, m')
      \<and> builds m' (leaf_append (be_bytes n (unat v)) (close_at a L)) \<and> same_env m m'"
  using assms(3-6) by (rule flush_then_append) (use assms(1,2) in \<open>auto simp: cbb_add_u_def put_be_eq\<close>)

lemma unat_of_nat_u32: "v \<le> 0xffffffff \<Longrightarrow> unat (of_nat v :: u32) = v"
  by (simp add: unat_of_nat)

lemma CBB_add_u_adds:
  assumes "builds m L" "a \<in> addrs L" "fits_at a L"
  shows "v \<le> 0xff \<Longrightarrow> mem_room m (length (layout (close_at a L)) + length (be_bytes 1 v)) \<Longrightarrow>
      \<exists>m'. CBB_add_u8 m a v = Some (True, m') \<and> builds m' (leaf_append (be_bytes 1 v) (close_at a L)) \<and> same_env m m'"
    and "v \<le> 0xffff \<Longrightarrow> mem_room m (length (layout (close_at a L)) + length (be_bytes 2 v)) \<Longrightarrow>
      \<exists>m'. CBB_add_u16 m a v = Some (True, m') \<and> builds m' (leaf_append (be_bytes 2 v) (close_at a L)) \<and> same_env m m'"
    and "v \<le> 0xffffff \<Longrightarrow> mem_room m (length (layout (close_at a L)) + length (be_bytes 3 v)) \<Longrightarrow>
      \<exists>m'. CBB_add_u24 m a v = Some (True, m') \<and> builds m' (leaf_append (be_bytes 3 v) (close_at a L)) \<and> same_env m m'"
    and "v \<le> 0xffffffff \<Longrightarrow> mem_room m (length (layout (close_at a L)) + length (be_bytes 4 v)) \<Longrightarrow>
      \<exists>m'. CBB_add_u32 m a v = Some (True, m') \<and> builds m' (leaf_append (be_bytes 4 v) (close_at a L)) \<and> same_env m m'"
  using cbb_add_u_adds [of 1 m L a "of_nat v"] cbb_add_u_adds [of 2 m L a "of_nat v"]
    cbb_add_u_adds [of 3 m L a "of_nat v"] cbb_add_u_adds [of 4 m L a "of_nat v"] assms
  by (simp_all add: CBB_add_u8_def CBB_add_u16_def CBB_add_u24_def CBB_add_u32_def unat_of_nat_u32 del: be_bytes.simps)

text \<open>The fixed-width operations at the values of their width.\<close>

interpretation ap_u8: cbb_appender "\<lambda>m a. CBB_add_u8 m a (unat v)" "be_bytes 1 (unat v)" for v :: u8
  by unfold_locales (rule CBB_add_u_adds(1); use unat_u8_lt [of v] in simp)

interpretation ap_u16: cbb_appender "\<lambda>m a. CBB_add_u16 m a (unat v)" "be_bytes 2 (unat v)" for v :: u16
  by unfold_locales (rule CBB_add_u_adds(2); use unsigned_less [of v, where 'a = nat] in simp)

interpretation ap_u24: cbb_appender "\<lambda>m a. CBB_add_u24 m a (unat v)" "be_bytes 3 (unat v)" for v :: "24 word"
  by unfold_locales (rule CBB_add_u_adds(3); use unsigned_less [of v, where 'a = nat] in simp)

interpretation ap_u32: cbb_appender "\<lambda>m a. CBB_add_u32 m a (unat v)" "be_bytes 4 (unat v)" for v :: u32
  by unfold_locales (rule CBB_add_u_adds(4); use unsigned_less [of v, where 'a = nat] in simp)

interpretation ap_u64: cbb_appender2
    "\<lambda>m a. CBB_add_u32 m a (unat (ucast (drop_bit 32 v) :: u32))" "be_bytes 4 (unat (ucast (drop_bit 32 v) :: u32))"
    "\<lambda>m a. CBB_add_u32 m a (unat (ucast v :: u32))" "be_bytes 4 (unat (ucast v :: u32))" for v :: u64
  by unfold_locales

lemma be_bytes_add: "be_bytes (k + n) v = be_bytes k (v div 256 ^ n) @ be_bytes n v"
  by (induction n arbitrary: v) (auto simp: div_mult2_eq)

lemma unat_u64_hi: "unat (ucast (drop_bit 32 (v :: u64)) :: u32) = unat v div 256 ^ 4"
  using unsigned_less [of v, where 'a = nat]
  by (simp add: unsigned_ucast_eq unat_drop_bit_eq take_bit_eq_mod drop_bit_eq_div [where a = "unat v"])

lemma unat_u64_lo: "unat (ucast (v :: u64) :: u32) = unat v mod 256 ^ 4"
  by (simp add: unsigned_ucast_eq take_bit_eq_mod)

lemma CBB_add_u64_seq:
  "CBB_add_u64 m a v = add_seq (\<lambda>m a. CBB_add_u32 m a (unat (ucast (drop_bit 32 v) :: u32)))
     (\<lambda>m a. CBB_add_u32 m a (unat (ucast v :: u32))) m a"
proof -
  have "unat (drop_bit 32 v) = unat (ucast (drop_bit 32 v) :: u32)"
    by (simp add: unat_u64_hi unat_drop_bit_eq drop_bit_eq_div [where a = "unat v"])
  moreover have "v AND 0xffffffff = take_bit 32 v"
    by (simp add: take_bit_eq_mask mask_eq_exp_minus_1)
  then have "unat (v AND 0xffffffff) = unat (ucast v :: u32)"
    by (simp add: unat_u64_lo take_bit_eq_mod unat_mod_distrib)
  ultimately show ?thesis by (simp add: CBB_add_u64_def add_seq_def)
qed

interpretation ap_u64_op: cbb_appender "\<lambda>m a. CBB_add_u64 m a v" "be_bytes 8 (unat v)" for v :: u64
proof -
  have "be_bytes 8 (unat v)
      = be_bytes 4 (unat (ucast (drop_bit 32 v) :: u32)) @ be_bytes 4 (unat (ucast v :: u32))"
    using be_bytes_add [of 4 4 "unat v"] be_bytes_mod [of 4 "unat v"] by (simp only: unat_u64_hi unat_u64_lo [of v]) simp
  then show "cbb_appender (\<lambda>m a. CBB_add_u64 m a v) (be_bytes 8 (unat v))"
    using ap_u64.seq.cbb_appender_axioms [of v] by (simp add: CBB_add_u64_seq)
qed

text \<open>\<open>CBB_add_space\<close> appends zeros and says where they are.\<close>

lemma CBB_add_space_adds:
  assumes "builds m L" "a \<in> addrs L" "fits_at a L" "mem_room m (length (layout (close_at a L)) + n)"
  shows "\<exists>m'. CBB_add_space m a n = Some (Some (length (layout (close_at a L))), m')
    \<and> builds m' (leaf_append (replicate n 0) (close_at a L)) \<and> same_env m m'"
proof -
  have "mem_room m (length (layout (close_at a L)) + length (replicate n (0::u8)))" using assms(4) by simp
  with assms(1-3) show ?thesis
    by (rule flush_then_append) (auto simp: CBB_add_space_def)
qed

section \<open>Operations that open a child\<close>

lemma add_length_prefixed_ok:
  assumes "builds m L" "a \<in> addrs L" "fits_at a L" "ch \<notin> addrs L" "0 < n"
    "mem_room m (length (layout (close_at a L)) + n)"
  shows "\<exists>m'. cbb_add_length_prefixed m a ch n = Some (True, m')
    \<and> builds m' (leaf_open ch (Fixed n) (close_at a L)) \<and> same_env m m'"
proof -
  obtain m1 where m1: "CBB_flush m a = Some (True, m1)" "builds m1 (close_at a L)" "same_env m m1"
    "cbb_base (mem_cbb m1 a)" "leaf_addr (close_at a L) = a"
    by (rule builds_flush [OF assms(1-3)]) (use mem_room_mono [OF assms(6)] in auto)
  define m2 where "m2 = set_cbb a ((mem_cbb m1 a)\<lparr>cbb_offset := bst_len (mem_base m1)\<rparr>) m1"
  have ok: "buf_ok m2" using m1(2) by (simp add: builds_def m2_def)
  let ?z = "replicate n (0::u8)"
  have c2: "cbb_contents m2 = cbb_contents m1" "bst_len (mem_base m2) = length (cbb_contents m1)" "same_env m1 m2"
    using m1(2) builds_len [OF m1(2)] by (simp_all add: m2_def builds_def)
  have "mem_room m2 (bst_len (mem_base m2) + length ?z)"
    using mem_room_env [OF same_env_trans [OF m1(3) c2(3)] assms(6)] c2 m1(2) by (simp add: builds_def)
  then obtain m3 where m3: "cbb_buffer_add m2 True (length ?z) = (Some (bst_len (mem_base m2)), m3)"
    "mem_cbb m3 = mem_cbb m2"
    "same_env m2 (set_buf (write_at (bst_buf (mem_base m3)) (bst_len (mem_base m2)) ?z) m3)"
    "buf_ok (set_buf (write_at (bst_buf (mem_base m3)) (bst_len (mem_base m2)) ?z) m3)"
    "cbb_contents (set_buf (write_at (bst_buf (mem_base m3)) (bst_len (mem_base m2)) ?z) m3) = cbb_contents m2 @ ?z"
    by (rule append_ok [OF ok])
  define m4 where "m4 = set_buf (write_at (bst_buf (mem_base m3)) (bst_len (mem_base m2)) ?z) m3"
  have ach: "a \<noteq> ch" "ch \<notin> addrs (close_at a L)" using assms(2,4) addrs_close_at [of a L] by auto
  define m5 where "m5 = set_cbb a ((mem_cbb m4 a)\<lparr>cbb_child := Some ch, cbb_pending_len_len := n,
      cbb_pending_is_asn1 := False\<rparr>) (set_cbb ch (cbb_zero\<lparr>cbb_base := True\<rparr>) m4)"
  have "cbb_add_length_prefixed m a ch n = Some (True, m5)"
    using m1(1,4) m3(1,2) ach
    by (simp add: cbb_add_length_prefixed_def m2_def [symmetric] m4_def m5_def Let_def) (simp add: m2_def fun_upd_twist)
  moreover have "builds m5 (leaf_open ch (Fixed n) (close_at a L))"
    by (rule builds_open [OF m1(2)])
      (use assms(5) ach m1(5) m3(2,4,5) c2 in \<open>simp_all add: m5_def m4_def [symmetric], simp_all add: m4_def m2_def\<close>)
  moreover have "same_env m m5"
    using same_env_trans [OF same_env_trans [OF m1(3) c2(3)] m3(3)] by (simp add: m5_def m4_def)
  ultimately show ?thesis by blast
qed

lemma chain_leaf: "chain m pos L \<Longrightarrow> cbb_base (mem_cbb m (leaf_addr L)) \<and> cbb_child (mem_cbb m (leaf_addr L)) = None"
  by (induction L arbitrary: pos) auto

lemma flush_leaf: "builds m L \<Longrightarrow> leaf_addr L = a \<Longrightarrow> CBB_flush m a = Some (True, m)"
  using chain_leaf [of m 0 L] by (simp add: builds_def CBB_flush.simps [of m a])

text \<open>On the innermost level there is nothing to flush, and no structure changes.\<close>

lemma add_u8_leaf:
  assumes "builds m L" "leaf_addr L = a" "mem_room m (length (layout L) + 1)" "v \<le> 0xff"
  obtains m' where "CBB_add_u8 m a v = Some (True, m')" "builds m' (leaf_append [of_nat v] L)" "same_env m m'"
    "mem_cbb m' = mem_cbb m" "cbb_contents m' = cbb_contents m @ [of_nat v]" "buf_ok m'"
proof -
  have ok: "buf_ok m" and base: "cbb_base (mem_cbb m a)"
    using assms(1,2) chain_leaf [of m 0 L] by (auto simp: builds_def)
  have "mem_room m (bst_len (mem_base m) + length [of_nat v :: u8])"
    using assms(3) builds_len [OF assms(1)] by simp
  from append_ok [OF ok this] obtain m' where m':
    "cbb_buffer_add m True (length [of_nat v :: u8]) = (Some (bst_len (mem_base m)), m')" "mem_cbb m' = mem_cbb m"
    "same_env m (set_buf (write_at (bst_buf (mem_base m')) (bst_len (mem_base m)) [of_nat v]) m')"
    "buf_ok (set_buf (write_at (bst_buf (mem_base m')) (bst_len (mem_base m)) [of_nat v]) m')"
    "cbb_contents (set_buf (write_at (bst_buf (mem_base m')) (bst_len (mem_base m)) [of_nat v]) m') = cbb_contents m @ [of_nat v]"
    by blast
  have "put_be 1 (of_nat v :: u32) = [of_nat v]"
    using assms(4) by (simp add: put_be_eq unat_of_nat_u32)
  then have "CBB_add_u8 m a v = Some (True, set_buf (write_at (bst_buf (mem_base m')) (bst_len (mem_base m)) [of_nat v]) m')"
    using flush_leaf [OF assms(1,2)] base m'(1) assms(4) by (simp add: CBB_add_u8_def cbb_add_u_def)
  then show thesis
    by (rule that) (use m' builds_append [OF assms(1)] in auto)
qed

text \<open>The offset of the innermost level has no meaning while it has no child.\<close>

lemma chain_leaf_offset:
  "chain m pos L \<Longrightarrow> chain (set_cbb (leaf_addr L) ((mem_cbb m (leaf_addr L))\<lparr>cbb_offset := off\<rparr>) m) pos L"
proof (induction L arbitrary: pos)
  case (Node b B p L)
  moreover from Node have "b \<noteq> leaf_addr L" using leaf_addr_in [of L] by auto
  ultimately show ?case by simp
qed simp

lemma builds_leaf_offset:
  "builds m L \<Longrightarrow> leaf_addr L = a \<Longrightarrow> builds (set_cbb a ((mem_cbb m a)\<lparr>cbb_offset := off\<rparr>) m) L"
  using chain_leaf_offset [of m 0 L off] by (auto simp: builds_def)

lemma CBB_add_asn1_ok:
  assumes "builds m L" "a \<in> addrs L" "fits_at a L" "ch \<notin> addrs L"
    and tag: "unat tag \<le> 0xff" "tag AND 0x1f \<noteq> 0x1f"
    and room: "mem_room m (length (layout (close_at a L)) + 2)"
  shows "\<exists>m'. CBB_add_asn1 m a ch tag = Some (True, m')
    \<and> builds m' (leaf_open ch Asn1 (leaf_append [ucast tag] (close_at a L))) \<and> same_env m m'"
proof -
  let ?L = "close_at a L"
  obtain m1 where m1: "CBB_flush m a = Some (True, m1)" "builds m1 ?L" "same_env m m1"
    "cbb_base (mem_cbb m1 a)" "leaf_addr ?L = a"
    by (rule builds_flush [OF assms(1-3)]) (use mem_room_mono [OF room] in auto)
  note room1 = mem_room_env [OF m1(3) room]
  obtain m2 where m2: "CBB_add_u8 m1 a (unat tag) = Some (True, m2)"
    "builds m2 (leaf_append [of_nat (unat tag)] ?L)" "same_env m1 m2" "mem_cbb m2 = mem_cbb m1"
    by (rule add_u8_leaf [OF m1(2,5) _ tag(1)]) (use mem_room_mono [OF room1] in auto)
  define m3 where "m3 = set_cbb a ((mem_cbb m2 a)\<lparr>cbb_offset := bst_len (mem_base m2)\<rparr>) m2"
  let ?L2 = "leaf_append [of_nat (unat tag)] ?L"
  have ach: "a \<noteq> ch" "ch \<notin> addrs ?L" using assms(2,4) addrs_close_at [of a L] by auto
  have b3: "builds m3 ?L2" "same_env m2 m3" "cbb_contents m3 = cbb_contents m2"
    using builds_leaf_offset [OF m2(2)] m1(5) by (simp_all add: m3_def)
  obtain m4 where m4: "CBB_add_u8 m3 a 0 = Some (True, m4)" "builds m4 (leaf_append [of_nat 0] ?L2)"
    "same_env m3 m4" "mem_cbb m4 = mem_cbb m3" "cbb_contents m4 = cbb_contents m3 @ [of_nat 0]" "buf_ok m4"
    by (rule add_u8_leaf [OF b3(1), of a 0])
      (use m1(5) mem_room_env [OF same_env_trans [OF m2(3) b3(2)] room1] in \<open>auto simp: add.assoc\<close>)
  define m5 where "m5 = set_cbb a ((mem_cbb m4 a)\<lparr>cbb_child := Some ch, cbb_pending_len_len := 1,
      cbb_pending_is_asn1 := True\<rparr>) (set_cbb ch (cbb_zero\<lparr>cbb_base := True\<rparr>) m4)"
  have "CBB_add_asn1 m a ch tag = Some (True, m5)"
    using m1(1,4) m2(1,4) m4(1,4) ach tag
    by (simp add: CBB_add_asn1_def word_less_nat_alt not_less m3_def [symmetric] Let_def m5_def)
      (simp add: m3_def fun_upd_twist)
  moreover have "builds m5 (leaf_open ch Asn1 ?L2)"
    by (rule builds_open [OF b3(1)])
      (use ach m1(5) m4(4-6) builds_len [OF m2(2)] m2(2) b3(3) in \<open>simp_all add: m5_def builds_def\<close>,
       simp_all add: m3_def)
  moreover have "same_env m m5"
    using same_env_trans [OF same_env_trans [OF same_env_trans [OF m1(3) m2(3)] b3(2)] m4(3)] by (simp add: m5_def)
  ultimately show ?thesis by (auto simp: of_nat_unat)
qed

section \<open>Closing and discarding a child\<close>

text \<open>The structures on a path are different from each other.\<close>

primrec distinct_path :: "level \<Rightarrow> bool" where
  "distinct_path (Leaf a B) \<longleftrightarrow> True"
| "distinct_path (Node a B p L) \<longleftrightarrow> a \<notin> addrs L \<and> distinct_path L"

lemma chain_distinct: "chain m pos L \<Longrightarrow> distinct_path L"
  by (induction L arbitrary: pos) auto

lemma distinct_path_ops: "distinct_path L \<Longrightarrow> distinct_path (close_at a L)" "distinct_path L \<Longrightarrow> distinct_path (leaf_append bs L)"
  using addrs_close_at by (induction L) auto

lemma close_opened:
  assumes "distinct_path L" "leaf_addr L = a" "ch \<notin> addrs L"
  shows "close_at a (leaf_append C (leaf_open ch p L)) = leaf_append (prefix_bytes p (length C) @ C) L
    \<and> (fits_at a (leaf_append C (leaf_open ch p L)) \<longleftrightarrow> prefix_fits p (length C))
    \<and> a \<in> addrs (leaf_append C (leaf_open ch p L))"
  using assms
proof (induction L)
  case (Node b B q L)
  then have "a \<noteq> b" using leaf_addr_in [of L] by auto
  with Node show ?case by auto
qed auto

lemma drop_child_at:
  assumes "chain m (length P) L" "buf_ok m" "cbb_contents m = P @ layout L" "a \<in> addrs L"
  shows "chain (CBB_discard_child m a) (length P) (drop_child a L)
    \<and> cbb_contents (CBB_discard_child m a) = P @ layout (drop_child a L) \<and> buf_ok (CBB_discard_child m a)
    \<and> same_env m (CBB_discard_child m a)
    \<and> cbb_is_top_level (mem_cbb (CBB_discard_child m a) (addr L)) = cbb_is_top_level (mem_cbb m (addr L))
    \<and> (\<forall>x. x \<notin> addrs L \<longrightarrow> mem_cbb (CBB_discard_child m a) x = mem_cbb m x)"
  using assms
proof (induction L arbitrary: P)
  case (Leaf b B)
  then show ?case by (simp add: CBB_discard_child_def)
next
  case (Node b B p L)
  show ?case
  proof (cases "a = b")
    case True
    have ne: "b \<noteq> addr L" using Node.prems(1) by auto
    have len: "length P + length B \<le> bst_len (mem_base m)"
      using length_contents [OF Node.prems(2)] Node.prems(3) by simp
    have "take (length P + length B) (bst_buf (mem_base m)) = take (length P + length B) (cbb_contents m)"
      using len by (simp add: cbb_contents_def min_def)
    then show ?thesis
      using True ne Node.prems len
      by (auto simp: CBB_discard_child_def cbb_contents_def [of "m\<lparr>mem_base := _\<rparr>"] buf_ok_def same_env_def Let_def)
  next
    case False
    let ?P = "P @ B @ replicate (plen p) 0" and ?m = "CBB_discard_child m a"
    have IH: "chain ?m (length ?P) (drop_child a L) \<and> cbb_contents ?m = ?P @ layout (drop_child a L) \<and> buf_ok ?m
       \<and> same_env m ?m \<and> (\<forall>x. x \<notin> addrs L \<longrightarrow> mem_cbb ?m x = mem_cbb m x)"
      using Node.IH [of ?P] Node.prems False by (auto simp: add.assoc)
    moreover have "mem_cbb ?m b = mem_cbb m b" "b \<notin> addrs (drop_child a L)"
      using Node.prems(1) IH addrs_drop_child [of a L] by auto
    ultimately show ?thesis using Node.prems(1) False by (auto simp: add.assoc)
  qed
qed

section \<open>Unsigned integers\<close>

text \<open>The contents octets of an unsigned INTEGER: no superfluous zero, but a zero before a set top bit.\<close>

definition uint_content :: "bytes \<Rightarrow> bytes" where
  "uint_content bs =
     (let ds = dropWhile (\<lambda>b. b = 0) bs
      in if ds = [] then [0] else if hd ds AND 0x80 \<noteq> 0 then 0 # ds else ds)"

lemma uint64_loop_started:
  assumes "builds m L" "leaf_addr L = ch" "mem_room m (length (layout L) + length bs)"
  shows "\<exists>m'. asn1_uint64_bytes_loop m ch bs True = Some (True, True, m')
    \<and> builds m' (leaf_append bs L) \<and> same_env m m'"
  using assms
proof (induction bs arbitrary: m L)
  case (Cons b bs)
  obtain m1 where m1: "CBB_add_u8 m ch (unat b) = Some (True, m1)"
    "builds m1 (leaf_append [of_nat (unat b)] L)" "same_env m m1"
    by (rule add_u8_leaf [OF Cons.prems(1,2), of "unat b"])
      (use mem_room_mono [OF Cons.prems(3)] unat_u8_lt [of b] in auto)
  then show ?case
    using Cons.IH [OF m1(2)] Cons.prems(2) mem_room_env [OF m1(3) Cons.prems(3)]
    by (auto intro: same_env_trans)
qed auto

lemma uint64_loop_ok:
  assumes "builds m L" "leaf_addr L = ch" "mem_room m (length (layout L) + length (uint_content bs))"
  shows "\<exists>m' st. asn1_uint64_bytes_loop m ch bs False = Some (True, st, m') \<and> same_env m m'
    \<and> (if \<forall>b\<in>set bs. b = 0 then \<not> st \<and> m' = m else st \<and> builds m' (leaf_append (uint_content bs) L))"
  using assms(3)
proof (induction bs)
  case (Cons b bs)
  show ?case
  proof (cases "b = 0")
    case True
    have "uint_content (b # bs) = uint_content bs" using True by (simp add: uint_content_def)
    then show ?thesis using Cons.IH Cons.prems True by (auto split: if_splits)
  next
    case False
    let ?z = "if b AND 0x80 \<noteq> 0 then [0] else []"
    have len: "length (uint_content (b # bs)) = length ?z + Suc (length bs)" using False by (simp add: uint_content_def)
    obtain m1 where m1: "(if b AND 0x80 \<noteq> 0 then CBB_add_u8 m ch 0 else Some (True, m)) = Some (True, m1)"
      "builds m1 (leaf_append ?z L)" "same_env m m1"
    proof (cases "b AND 0x80 \<noteq> 0")
      case True
      show thesis
        by (rule add_u8_leaf [OF assms(1,2), of 0]) (use that True len mem_room_mono [OF Cons.prems] in auto)
    qed (use that assms(1) in auto)
    have "\<exists>m'. asn1_uint64_bytes_loop m1 ch (b # bs) True = Some (True, True, m')
        \<and> builds m' (leaf_append (b # bs) (leaf_append ?z L)) \<and> same_env m1 m'"
      by (rule uint64_loop_started [OF m1(2)])
        (use assms(2) len mem_room_mono [OF mem_room_env [OF m1(3) Cons.prems]] in auto)
    then show ?thesis
      using False m1 by (auto simp: uint_content_def intro: same_env_trans split: if_splits)
  qed
qed auto

lemma u64_byte: "ucast (drop_bit k (v :: u64) AND 0xff) = (of_nat (unat v div 2 ^ k mod 256) :: u8)"
proof -
  have "(mask 8 :: int) = 0xff" by (simp add: mask_eq_exp_minus_1)
  then have mb: "bit (0xff :: int) n" if "n < 8" for n
    using bit_mask_iff [where 'a = int, of 8 n] that by simp
  have "(ucast (drop_bit k v AND 0xff) :: u8) = ucast (drop_bit k v)"
    by (rule bit_word_eqI) (simp add: bit_simps mb)
  moreover have "unat (drop_bit k v) = unat v div 2 ^ k"
    by (simp add: unat_drop_bit_eq drop_bit_eq_div [where a = "unat v"])
  ultimately show ?thesis
    by (simp add: word_unat_eq_iff unat_of_nat unsigned_ucast_eq take_bit_eq_mod)
qed

lemma be_bytes_map: "be_bytes n v = map (\<lambda>i. of_nat (v div 2 ^ (8 * (n - 1 - i)) mod 256)) [0..<n]"
proof (induction n arbitrary: v)
  case (Suc n)
  have "v div 256 div 2 ^ (8 * (n - 1 - i)) = v div 2 ^ (8 * (Suc n - 1 - i))" if "i < n" for i
  proof -
    have "8 * (Suc n - 1 - i) = 8 + 8 * (n - 1 - i)" using that by simp
    then show ?thesis by (simp only: power_add div_mult2_eq) simp
  qed
  then show ?case by (simp add: Suc.IH)
qed simp

lemma u64_bytes_eq: "u64_bytes v = be_bytes 8 (unat v)"
  by (simp only: u64_bytes_def u64_byte be_bytes_map) simp

lemma length_uint_content: "1 \<le> length (uint_content bs)" "length (uint_content bs) \<le> Suc (length bs)"
  using length_dropWhile_le [of "\<lambda>b. b = 0" bs] by (auto simp: uint_content_def Let_def Suc_le_eq)

lemma length_asn1_uint64: "length (der_element 2 (uint_content (be_bytes 8 (unat v)))) \<le> 11"
  using length_uint_content(2) [of "be_bytes 8 (unat v)"] by (simp add: der_element_def length_der_len)

text \<open>\<open>CBB_add_asn1_uint64\<close> closes what is open below and appends the DER INTEGER.\<close>

lemma CBB_add_asn1_uint64_adds:
  assumes "builds m L" "a \<in> addrs L" "fits_at a L" "ch \<notin> addrs L"
    "mem_room m (length (layout (close_at a L)) + length (der_element 2 (uint_content (be_bytes 8 (unat v)))))"
  shows "\<exists>m'. CBB_add_asn1_uint64 m a ch v = Some (True, m')
    \<and> builds m' (leaf_append (der_element 2 (uint_content (be_bytes 8 (unat v)))) (close_at a L)) \<and> same_env m m'"
proof -
  let ?L = "leaf_append [2] (close_at a L)" and ?c = "uint_content (be_bytes 8 (unat v))"
  have clen: "1 \<le> length ?c" "length (der_element 2 ?c) = 2 + length ?c"
    using length_uint_content [of "be_bytes 8 (unat v)"] by (simp_all add: der_element_def length_der_len)
  obtain m1 where m1: "CBB_add_asn1 m a ch CBS_ASN1_INTEGER = Some (True, m1)"
    "builds m1 (leaf_open ch Asn1 ?L)" "same_env m m1"
    using CBB_add_asn1_ok [OF assms(1-4), of CBS_ASN1_INTEGER] mem_room_mono [OF assms(5)] clen
    by (auto simp: CBS_ASN1_INTEGER_def)
  obtain m0 where m0: "builds m0 (close_at a L)" "leaf_addr (close_at a L) = a"
    by (rule builds_flush [OF assms(1-3)]) (use mem_room_mono [OF assms(5)] in auto)
  note room1 = mem_room_env [OF m1(3) assms(5)]
  obtain m2 st where m2: "asn1_uint64_bytes_loop m1 ch (be_bytes 8 (unat v)) False = Some (True, st, m2)"
    "same_env m1 m2" "if \<forall>b\<in>set (be_bytes 8 (unat v)). b = 0 then \<not> st \<and> m2 = m1
       else st \<and> builds m2 (leaf_append ?c (leaf_open ch Asn1 ?L))"
    using uint64_loop_ok [OF m1(2), of ch "be_bytes 8 (unat v)"] room1 clen(2) by (auto simp: add_ac)
  obtain m3 where m3: "(if \<not> st then CBB_add_u8 m2 ch 0 else Some (True, m2)) = Some (True, m3)"
    "builds m3 (leaf_append ?c (leaf_open ch Asn1 ?L))" "same_env m2 m3"
  proof (cases st)
    case False
    then have "m2 = m1" "?c = [0]" using m2(3) by (auto simp: uint_content_def split: if_splits)
    then show thesis
      using add_u8_leaf [OF m1(2), of ch 0] mem_room_mono [OF room1] clen that False by auto
  qed (use m2(3) that in \<open>auto split: if_splits\<close>)
  have "ch \<notin> addrs ?L" using assms(4) addrs_close_at [of a L] by auto
  then have cl: "close_at a (leaf_append ?c (leaf_open ch Asn1 ?L)) = leaf_append (der_element 2 ?c) (close_at a L)"
      "fits_at a (leaf_append ?c (leaf_open ch Asn1 ?L))" "a \<in> addrs (leaf_append ?c (leaf_open ch Asn1 ?L))"
    using close_opened [of ?L a ch ?c Asn1] m0 length_uint_content(2) [of "be_bytes 8 (unat v)"]
    by (auto simp: builds_def der_element_def intro: distinct_path_ops(2) chain_distinct)
  have env: "same_env m m3" using m1(3) m2(2) m3(3) by (blast intro: same_env_trans)
  have "mem_room m3 (length (layout (close_at a (leaf_append ?c (leaf_open ch Asn1 ?L)))))"
    using mem_room_mono [OF mem_room_env [OF env assms(5)]] by (simp add: cl)
  from builds_flush [OF m3(2) cl(3,2) this] obtain m4 where
    "CBB_flush m3 a = Some (True, m4)" "builds m4 (leaf_append (der_element 2 ?c) (close_at a L))" "same_env m3 m4"
    by (metis cl(1))
  then show ?thesis
    using m1(1) m2(1) m3(1) same_env_trans [OF env] by (auto simp: CBB_add_asn1_uint64_def u64_bytes_eq)
qed

section \<open>Starting and finishing\<close>

lemma CBB_init_builds:
  assumes "\<forall>k\<le>SIZE_MAX. mem_alloc m k" "cap \<le> SIZE_MAX"
  obtains m' where "CBB_init m a cap = (True, m')" "builds m' (Leaf a [])"
    "bst_can_resize (mem_base m')" "mem_alloc m' = mem_alloc m"
proof -
  have "mem_alloc m (if cap = 0 then CBB_INITIAL_SIZE else cap)" "mem_alloc m sizeof_cbb_buffer_st"
    using assms by (auto simp: CBB_INITIAL_SIZE_def sizeof_cbb_buffer_st_def SIZE_MAX_def)
  then show thesis
    using assms(2) that
    by (simp add: CBB_init_def cbb_init_def cbb_zero_def builds_def buf_ok_def cbb_contents_def CBB_INITIAL_SIZE_def
        SIZE_MAX_def Let_def split: if_splits)
qed

lemma close_at_top: "close_at (addr L) L = Leaf (addr L) (collapse L)"
  by (cases L) auto

lemma fits_at_top: "fits_at (addr L) L = level_fits L"
  by (cases L) auto

lemma CBB_finish_ok:
  assumes "builds m L" "level_fits L" "mem_room m (length (collapse L))"
    "bst_can_resize (mem_base m) \<Longrightarrow> od \<and> ol"
  obtains buf m' where "CBB_finish m (addr L) od ol False = Some (Some (buf, length (collapse L)), m')"
    "take (length (collapse L)) buf = collapse L" "\<not> cbb_base (mem_cbb m' (addr L))"
proof -
  obtain m1 where m1: "CBB_flush m (addr L) = Some (True, m1)" "builds m1 (Leaf (addr L) (collapse L))" "same_env m m1"
    by (rule builds_flush [OF assms(1), of "addr L"]) (use assms in \<open>auto simp: close_at_top fits_at_top\<close>)
  have "take (length (collapse L)) (bst_buf (mem_base m1)) = collapse L"
    using m1(2) builds_len [OF m1(2)] by (simp add: builds_def cbb_contents_def)
  then show thesis
    using that m1 assms builds_len [OF m1(2)] by (simp add: CBB_finish_def builds_def same_env_def CBB_cleanup_def Let_def)
qed

section \<open>Sessions\<close>

text \<open>
  The calls a client makes, with the address of the structure it calls them on
  and, where a child is opened, the address of the child.
\<close>

datatype call =
    Add_u8 nat nat | Add_u16 nat nat | Add_u24 nat nat | Add_u32 nat nat | Add_u64 nat u64
  | Add_bytes nat bytes | Add_space nat nat | Add_asn1_uint64 nat nat u64
  | Open_u8 nat nat | Open_u16 nat nat | Open_u24 nat nat | Open_u32 nat nat | Open_asn1 nat nat u32
  | Flush nat | Discard nat

fun run_call :: "call \<Rightarrow> cbb_mem \<Rightarrow> cbb_res" where
  "run_call (Add_u8 a v) m = CBB_add_u8 m a v"
| "run_call (Add_u16 a v) m = CBB_add_u16 m a v"
| "run_call (Add_u24 a v) m = CBB_add_u24 m a v"
| "run_call (Add_u32 a v) m = CBB_add_u32 m a v"
| "run_call (Add_u64 a v) m = CBB_add_u64 m a v"
| "run_call (Add_bytes a bs) m = CBB_add_bytes m a bs (length bs)"
| "run_call (Add_space a n) m = map_option (\<lambda>(r, m). (r \<noteq> None, m)) (CBB_add_space m a n)"
| "run_call (Add_asn1_uint64 a ch v) m = CBB_add_asn1_uint64 m a ch v"
| "run_call (Open_u8 a ch) m = CBB_add_u8_length_prefixed m a ch"
| "run_call (Open_u16 a ch) m = CBB_add_u16_length_prefixed m a ch"
| "run_call (Open_u24 a ch) m = CBB_add_u24_length_prefixed m a ch"
| "run_call (Open_u32 a ch) m = CBB_add_u32_length_prefixed m a ch"
| "run_call (Open_asn1 a ch tag) m = CBB_add_asn1 m a ch tag"
| "run_call (Flush a) m = CBB_flush m a"
| "run_call (Discard a) m = Some (True, CBB_discard_child m a)"

fun spec_call :: "call \<Rightarrow> level \<Rightarrow> level" where
  "spec_call (Add_u8 a v) L = leaf_append (be_bytes 1 v) (close_at a L)"
| "spec_call (Add_u16 a v) L = leaf_append (be_bytes 2 v) (close_at a L)"
| "spec_call (Add_u24 a v) L = leaf_append (be_bytes 3 v) (close_at a L)"
| "spec_call (Add_u32 a v) L = leaf_append (be_bytes 4 v) (close_at a L)"
| "spec_call (Add_u64 a v) L = leaf_append (be_bytes 8 (unat v)) (close_at a L)"
| "spec_call (Add_bytes a bs) L = leaf_append bs (close_at a L)"
| "spec_call (Add_space a n) L = leaf_append (replicate n 0) (close_at a L)"
| "spec_call (Add_asn1_uint64 a ch v) L =
     leaf_append (der_element 2 (uint_content (be_bytes 8 (unat v)))) (close_at a L)"
| "spec_call (Open_u8 a ch) L = leaf_open ch (Fixed 1) (close_at a L)"
| "spec_call (Open_u16 a ch) L = leaf_open ch (Fixed 2) (close_at a L)"
| "spec_call (Open_u24 a ch) L = leaf_open ch (Fixed 3) (close_at a L)"
| "spec_call (Open_u32 a ch) L = leaf_open ch (Fixed 4) (close_at a L)"
| "spec_call (Open_asn1 a ch tag) L = leaf_open ch Asn1 (leaf_append [ucast tag] (close_at a L))"
| "spec_call (Flush a) L = close_at a L"
| "spec_call (Discard a) L = drop_child a L"

text \<open>The structure a call is made on, the child it opens, and a bound on the bytes it appends.\<close>

fun call_on :: "call \<Rightarrow> nat" where
  "call_on (Add_u8 a v) = a" | "call_on (Add_u16 a v) = a" | "call_on (Add_u24 a v) = a"
| "call_on (Add_u32 a v) = a" | "call_on (Add_u64 a w) = a" | "call_on (Add_bytes a bs) = a"
| "call_on (Add_space a n) = a" | "call_on (Add_asn1_uint64 a ch w) = a" | "call_on (Open_u8 a ch) = a"
| "call_on (Open_u16 a ch) = a" | "call_on (Open_u24 a ch) = a" | "call_on (Open_u32 a ch) = a"
| "call_on (Open_asn1 a ch tag) = a" | "call_on (Flush a) = a" | "call_on (Discard a) = a"

fun call_opens :: "call \<Rightarrow> nat option" where
  "call_opens (Add_asn1_uint64 a ch w) = Some ch" | "call_opens (Open_u8 a ch) = Some ch"
| "call_opens (Open_u16 a ch) = Some ch" | "call_opens (Open_u24 a ch) = Some ch"
| "call_opens (Open_u32 a ch) = Some ch" | "call_opens (Open_asn1 a ch tag) = Some ch"
| "call_opens _ = None"

fun call_size :: "call \<Rightarrow> nat" where
  "call_size (Add_u8 a v) = 1" | "call_size (Add_u16 a v) = 2" | "call_size (Add_u24 a v) = 3"
| "call_size (Add_u32 a v) = 4" | "call_size (Add_u64 a w) = 8" | "call_size (Add_bytes a bs) = length bs"
| "call_size (Add_space a n) = n" | "call_size (Add_asn1_uint64 a ch w) = 11" | "call_size (Open_u8 a ch) = 1"
| "call_size (Open_u16 a ch) = 2" | "call_size (Open_u24 a ch) = 3" | "call_size (Open_u32 a ch) = 4"
| "call_size (Open_asn1 a ch tag) = 2" | "call_size (Flush a) = 0" | "call_size (Discard a) = 0"

fun call_value_ok :: "call \<Rightarrow> bool" where
  "call_value_ok (Add_u8 a v) \<longleftrightarrow> v \<le> 0xff" | "call_value_ok (Add_u16 a v) \<longleftrightarrow> v \<le> 0xffff"
| "call_value_ok (Add_u24 a v) \<longleftrightarrow> v \<le> 0xffffff" | "call_value_ok (Add_u32 a v) \<longleftrightarrow> v \<le> 0xffffffff"
| "call_value_ok (Open_asn1 a ch tag) \<longleftrightarrow> unat tag \<le> 0xff \<and> tag AND 0x1f \<noteq> 0x1f"
| "call_value_ok _ \<longleftrightarrow> True"

text \<open>A call is legal when its structure is open, the prefixes it closes fit, and \<open>N\<close> bytes suffice.\<close>

definition legal_call :: "nat \<Rightarrow> call \<Rightarrow> level \<Rightarrow> bool" where
  "legal_call N c L \<longleftrightarrow> call_on c \<in> addrs L \<and> fits_at (call_on c) L \<and> call_value_ok c
     \<and> (case call_opens c of None \<Rightarrow> True | Some ch \<Rightarrow> ch \<notin> addrs L)
     \<and> length (layout (close_at (call_on c) L)) + call_size c \<le> N"

text \<open>A session: the calls in order, stopping at the first that fails.\<close>

fun run_calls :: "call list \<Rightarrow> cbb_mem \<Rightarrow> cbb_res" where
  "run_calls [] m = Some (True, m)"
| "run_calls (c # cs) m = do { (ok, m) \<leftarrow> run_call c m; if \<not> ok then Some (False, m) else run_calls cs m }"

fun legal_calls :: "nat \<Rightarrow> call list \<Rightarrow> level \<Rightarrow> bool" where
  "legal_calls N [] L \<longleftrightarrow> level_fits L \<and> length (collapse L) \<le> N"
| "legal_calls N (c # cs) L \<longleftrightarrow> legal_call N c L \<and> legal_calls N cs (spec_call c L)"

text \<open>A call succeeds if there is room for what it builds; discarding needs none.\<close>

lemma length_layout_spec_call:
  "call_on c \<in> addrs L \<Longrightarrow> length (layout (spec_call c L)) \<le> length (layout (close_at (call_on c) L)) + call_size c \<or> (\<exists>a. c = Discard a)"
  using length_asn1_uint64 by (cases c) auto

lemma run_call_room:
  assumes "builds m L" "legal_call SIZE_MAX c L" "(\<exists>a. c = Discard a) \<or> mem_room m (length (layout (spec_call c L)))"
  shows "\<exists>m'. run_call c m = Some (True, m') \<and> builds m' (spec_call c L) \<and> same_env m m'"
proof -
  have l: "call_on c \<in> addrs L" "fits_at (call_on c) L" "call_value_ok c"
    "\<And>ch. call_opens c = Some ch \<Longrightarrow> ch \<notin> addrs L"
    using assms(2) by (auto simp: legal_call_def)
  note f = assms(1) l(1,2) and room = assms(3)
  show ?thesis
  proof (cases c)
    case (Add_u8 a v) then show ?thesis using CBB_add_u_adds(1) [OF f, of v] l room by simp
  next
    case (Add_u16 a v) then show ?thesis using CBB_add_u_adds(2) [OF f, of v] l room by simp
  next
    case (Add_u24 a v) then show ?thesis using CBB_add_u_adds(3) [OF f, of v] l room by simp
  next
    case (Add_u32 a v) then show ?thesis using CBB_add_u_adds(4) [OF f, of v] l room by simp
  next
    case (Add_u64 a v) then show ?thesis using ap_u64_op.adds [OF f] room by simp
  next
    case (Add_bytes a bs) then show ?thesis using ap_bytes.adds [OF f] room by simp
  next
    case (Add_space a n) then show ?thesis using CBB_add_space_adds [OF f, of n] room by auto
  next
    case (Add_asn1_uint64 a ch v) then show ?thesis using CBB_add_asn1_uint64_adds [OF f, of ch v] l room by simp
  next
    case (Open_u8 a ch) then show ?thesis
      using add_length_prefixed_ok [OF f, of ch 1] l room by (simp add: CBB_add_u8_length_prefixed_def)
  next
    case (Open_u16 a ch) then show ?thesis
      using add_length_prefixed_ok [OF f, of ch 2] l room by (simp add: CBB_add_u16_length_prefixed_def)
  next
    case (Open_u24 a ch) then show ?thesis
      using add_length_prefixed_ok [OF f, of ch 3] l room by (simp add: CBB_add_u24_length_prefixed_def)
  next
    case (Open_u32 a ch) then show ?thesis
      using add_length_prefixed_ok [OF f, of ch 4] l room by (simp add: CBB_add_u32_length_prefixed_def)
  next
    case (Open_asn1 a ch tag) then show ?thesis using CBB_add_asn1_ok [OF f, of ch tag] l room by simp
  next
    case (Flush a)
    with room have "mem_room m (length (layout (close_at (call_on c) L)))" by simp
    from builds_flush [OF f this] Flush show ?thesis by auto
  next
    case (Discard a) then show ?thesis using drop_child_at [of m "[]" L a] f by (simp add: builds_def)
  qed
qed

lemma run_call_refines:
  assumes "builds m L" "legal_call N c L" "mem_room m N"
  shows "\<exists>m'. run_call c m = Some (True, m') \<and> builds m' (spec_call c L) \<and> same_env m m'"
proof (rule run_call_room [OF assms(1)])
  have "N \<le> SIZE_MAX" using assms(3) by (simp add: mem_room_def)
  then show "legal_call SIZE_MAX c L" using assms(2) by (auto simp: legal_call_def)
  have "call_on c \<in> addrs L" "length (layout (close_at (call_on c) L)) + call_size c \<le> N"
    using assms(2) by (simp_all add: legal_call_def)
  then show "(\<exists>a. c = Discard a) \<or> mem_room m (length (layout (spec_call c L)))"
    using length_layout_spec_call [of c L] mem_room_mono [OF assms(3)] by force
qed

lemma addr_spec_call [simp]: "addr (spec_call c L) = addr L"
  by (cases c) simp_all

lemma addr_fold_spec_call [simp]: "addr (fold spec_call cs L) = addr L"
  by (induction cs arbitrary: L) simp_all

lemma run_calls_refines:
  assumes "builds m L" "legal_calls N cs L" "mem_room m N"
  shows "\<exists>m'. run_calls cs m = Some (True, m') \<and> builds m' (fold spec_call cs L) \<and> same_env m m'
    \<and> level_fits (fold spec_call cs L) \<and> length (collapse (fold spec_call cs L)) \<le> N"
  using assms
proof (induction cs arbitrary: m L)
  case (Cons c cs)
  then obtain m1 where m1: "run_call c m = Some (True, m1)" "builds m1 (spec_call c L)" "same_env m m1"
    using run_call_refines [of m L N c] by auto
  with Cons.IH [OF m1(2)] Cons.prems mem_room_env [OF m1(3)] show ?case
    by (auto intro: same_env_trans)
qed auto

lemma session_finishes:
  assumes "builds m (Leaf a [])" "legal_calls N cs (Leaf a [])" "mem_room m N"
    "bst_can_resize (mem_base m) \<Longrightarrow> od \<and> ol"
  shows "\<exists>m2 m3 buf out. out = collapse (fold spec_call cs (Leaf a [])) \<and> run_calls cs m = Some (True, m2)
    \<and> CBB_finish m2 a od ol False = Some (Some (buf, length out), m3)
    \<and> take (length out) buf = out"
proof -
  let ?L = "fold spec_call cs (Leaf a [])"
  obtain m2 where m2: "run_calls cs m = Some (True, m2)" "builds m2 ?L" "same_env m m2" "level_fits ?L"
    "length (collapse ?L) \<le> N"
    using run_calls_refines [OF assms(1-3)] by auto
  have "mem_room m2 (length (collapse ?L))"
    using mem_room_mono [OF mem_room_env [OF m2(3) assms(3)] m2(5)] .
  moreover have "bst_can_resize (mem_base m2) \<Longrightarrow> od \<and> ol" using m2(3) assms(4) by (simp add: same_env_def)
  ultimately obtain buf m3 where
    "CBB_finish m2 (addr ?L) od ol False = Some (Some (buf, length (collapse ?L)), m3)"
    "take (length (collapse ?L)) buf = collapse ?L"
    by (rule CBB_finish_ok [OF m2(2,4)])
  then show ?thesis using m2(1) by simp
qed

section \<open>Integers written and read back\<close>

lemma be_val_dropWhile_zero: "be_val (dropWhile (\<lambda>b. b = 0) bs) = be_val bs"
  by (induction bs) (simp_all add: be_val_Cons)

lemma be_val_uint_content: "be_val (uint_content bs) = be_val bs"
proof -
  define ds where "ds = dropWhile (\<lambda>b. b = 0) bs"
  have "uint_content bs = (if ds = [] then [0] else if hd ds AND 0x80 \<noteq> 0 then 0 # ds else ds)"
    unfolding uint_content_def ds_def [symmetric] by simp
  moreover have "be_val ds = be_val bs" unfolding ds_def by (rule be_val_dropWhile_zero)
  ultimately show ?thesis by (cases "ds = []") (auto simp: be_val_Cons)
qed

lemma der_uint_ok_uint_content: "der_uint_ok (uint_content bs)"
proof -
  define ds where "ds = dropWhile (\<lambda>b. b = 0) bs"
  have u: "uint_content bs = (if ds = [] then [0] else if hd ds AND 0x80 \<noteq> 0 then 0 # ds else ds)"
    unfolding uint_content_def ds_def [symmetric] by simp
  have ne: "hd ds \<noteq> 0" if "ds \<noteq> []"
    using hd_dropWhile [of "\<lambda>b. b = 0" bs, folded ds_def] that by blast
  show ?thesis
  proof (cases ds)
    case (Cons d ds')
    have "d \<noteq> 0" using ne Cons by simp
    then show ?thesis using Cons u u8_hi_bit [of d] by (auto simp: der_uint_ok_def not_less)
  qed (simp add: u der_uint_ok_def)
qed

section \<open>Properties\<close>

text \<open>
  C3.  Any session of builder calls on nested structures - fixed-width integers,
  bytes, zeroed space, DER integers, opening length-prefixed or ASN.1 children on
  any open structure (which implicitly closes what is open below it), flushing and
  discarding - ends with \<open>CBB_finish\<close> handing over exactly the bytes that the
  abstract builder describes, provided the calls are legal (the structure is
  open, a child is a fresh structure, values and lengths fit their fields) and
  the allocator delivers.  In particular every flush ends.
\<close>

theorem CBB_session_refines:
  assumes "\<forall>k\<le>SIZE_MAX. mem_alloc m k" "cap \<le> SIZE_MAX" "legal_calls SIZE_MAX cs (Leaf a [])"
  shows "\<exists>m1 m2 m3 buf out. out = collapse (fold spec_call cs (Leaf a [])) \<and> CBB_init m a cap = (True, m1)
    \<and> run_calls cs m1 = Some (True, m2)
    \<and> CBB_finish m2 a True True False = Some (Some (buf, length out), m3) \<and> take (length out) buf = out"
proof -
  obtain m1 where m1: "CBB_init m a cap = (True, m1)" "builds m1 (Leaf a [])"
    "bst_can_resize (mem_base m1)" "mem_alloc m1 = mem_alloc m"
    by (rule CBB_init_builds [OF assms(1,2)])
  have "mem_room m1 SIZE_MAX" using m1(3,4) assms(1) by (simp add: mem_room_def)
  with session_finishes [OF m1(2) assms(3), of True True] m1(1) show ?thesis by blast
qed

definition example_calls :: "call list" where
  "example_calls = [Open_asn1 0 1 0x30, Add_asn1_uint64 1 2 200, Open_u16 1 3, Add_bytes 3 [7, 8], Add_u8 1 9,
     Open_u8 1 4, Add_u24 4 0x010203, Discard 1, Add_space 0 1]"

lemma be_bytes_numeral: "be_bytes (numeral k) v = be_bytes (pred_numeral k) (v div 256) @ [of_nat (v mod 256)]"
  using be_bytes.simps(2) [of "pred_numeral k" v] by (simp only: numeral_eq_Suc [symmetric])

lemmas session_simps = example_calls_def legal_call_def SIZE_MAX_def be_bytes_numeral uint_content_def
  der_element_def der_len_def

lemma example_calls_legal: "legal_calls SIZE_MAX example_calls (Leaf 0 [])"
  by (simp add: session_simps)

lemma example_calls_out:
  "collapse (fold spec_call example_calls (Leaf 0 [])) = [0x30, 9, 2, 2, 0, 200, 0, 2, 7, 8, 9, 0]"
  by (simp add: session_simps)

definition empty_mem :: cbb_mem where
  "empty_mem = \<lparr>mem_base = \<lparr>bst_buf = [], bst_len = 0, bst_cap = 0, bst_can_resize = False\<rparr>,
     mem_cbb = (\<lambda>_. cbb_zero), mem_alloc = (\<lambda>_. True)\<rparr>"

theorem CBB_session_refines_witness:
  "\<exists>m1 m2 m3 buf out. out = [0x30, 9, 2, 2, 0, 200, 0, 2, 7, 8, 9, 0] \<and> CBB_init empty_mem 0 4 = (True, m1)
     \<and> run_calls example_calls m1 = Some (True, m2)
     \<and> CBB_finish m2 0 True True False = Some (Some (buf, length out), m3) \<and> take (length out) buf = out"
  using CBB_session_refines [of empty_mem 4 example_calls 0] example_calls_legal
  unfolding example_calls_out by (simp add: empty_mem_def SIZE_MAX_def)

text \<open>
  C12.  Round trip of DER integers: what \<open>CBB_add_asn1_uint64\<close> builds and
  \<open>CBB_finish\<close> hands over, \<open>CBS_get_asn1_uint64\<close> reads back as the same number.
\<close>

theorem asn1_uint64_roundtrip:
  assumes "\<forall>k\<le>SIZE_MAX. mem_alloc m k" "a \<noteq> ch"
  shows "\<exists>m1 m2 m3 buf n. CBB_init m a 0 = (True, m1) \<and> CBB_add_asn1_uint64 m1 a ch v = Some (True, m2)
    \<and> CBB_finish m2 a True True False = Some (Some (buf, n), m3)
    \<and> fst (CBS_get_asn1_uint64 (CBS_init buf n)) = Some v"
proof -
  let ?c = "uint_content (be_bytes 8 (unat v))"
  have l9: "length ?c \<le> 9" using length_uint_content(2) [of "be_bytes 8 (unat v)"] by simp
  then have l11: "length (der_element 2 ?c) \<le> 11" by (simp add: der_element_def length_der_len)
  obtain m1 where m1: "CBB_init m a 0 = (True, m1)" "builds m1 (Leaf a [])"
    "bst_can_resize (mem_base m1)" "mem_alloc m1 = mem_alloc m"
    by (rule CBB_init_builds [OF assms(1)]) auto
  have room: "mem_room m1 SIZE_MAX" using m1(3,4) assms(1) by (simp add: mem_room_def)
  have "legal_calls SIZE_MAX [Add_asn1_uint64 a ch v] (Leaf a [])"
    using assms(2) l11 by (simp add: legal_call_def SIZE_MAX_def)
  from session_finishes [OF m1(2) this room, of True True] obtain m2 m3 buf where
    m2: "CBB_add_asn1_uint64 m1 a ch v = Some (True, m2)"
    "CBB_finish m2 a True True False = Some (Some (buf, length (der_element 2 ?c)), m3)"
    "take (length (der_element 2 ?c)) buf = der_element 2 ?c"
    by (auto split: bind_splits if_splits)
  let ?r = "CBS_init buf (length (der_element 2 ?c))"
  have "cbs_ok ?r"
    using arg_cong [OF m2(3), of length] l11 by (simp add: cbs_ok_def CBS_init_def SIZE_MAX_def)
  moreover have "cbs_bytes ?r = der_element 2 ?c @ []" using m2(3) by (simp add: cbs_bytes_def CBS_init_def)
  moreover have "be_val ?c = unat v"
    using unsigned_less [of v, where 'a = nat] by (simp add: be_val_uint_content be_val_be_bytes)
  ultimately have "fst (CBS_get_asn1_uint64 ?r) = Some v"
    unfolding asn1_uint64_iff_der [OF \<open>cbs_ok ?r\<close>]
    by (intro exI [of _ ?c] exI [of _ "[]"] conjI)
      (use l9 in \<open>auto simp: der_uint_ok_uint_content\<close>)
  with m1(1) m2 show ?thesis by blast
qed

theorem asn1_uint64_roundtrip_witness:
  "\<exists>m1 m2 m3 buf n. CBB_init empty_mem 0 0 = (True, m1) \<and> CBB_add_asn1_uint64 m1 0 1 128 = Some (True, m2)
    \<and> CBB_finish m2 0 True True False = Some (Some (buf, n), m3)
    \<and> fst (CBS_get_asn1_uint64 (CBS_init buf n)) = Some 128"
  by (rule asn1_uint64_roundtrip) (simp_all add: empty_mem_def)

end
