(* ===== verification/CBB_Fixed.thy ===== *)
theory CBB_Fixed
  imports CBB_Refine
begin

text \<open>
  The builder of bs_cbb.c over a buffer of the caller (\<open>CBB_init_fixed\<close>), which it may
  not replace by a larger one.  The operations succeed as \<open>CBB_Refine\<close> shows, as long
  as there is room; here it is shown that without room they fail, that they leave
  the buffer at its size, so that nothing is written behind it, and that a whole
  session succeeds exactly if every state on its way fits.
\<close>

section \<open>Attempts\<close>

text \<open>A call that returns, keeps the buffer, and on success has built \<open>L\<close>.\<close>

definition tries :: "cbb_mem \<Rightarrow> cbb_res \<Rightarrow> level \<Rightarrow> bool" where
  "tries m res L \<longleftrightarrow> (\<exists>ok m'. res = Some (ok, m') \<and> same_env m m' \<and> buf_ok m' \<and> (ok \<longrightarrow> builds m' L))"

definition fails :: "cbb_mem \<Rightarrow> cbb_res \<Rightarrow> bool" where
  "fails m res \<longleftrightarrow> (\<exists>m'. res = Some (False, m') \<and> same_env m m' \<and> buf_ok m')"

abbreviation fixed :: "cbb_mem \<Rightarrow> bool" where
  "fixed m \<equiv> \<not> bst_can_resize (mem_base m)"

lemma tries_success: "\<exists>m'. res = Some (True, m') \<and> builds m' L \<and> same_env m m' \<Longrightarrow> tries m res L"
  by (auto simp: tries_def builds_def)

lemma tries_failure: "fails m res \<Longrightarrow> tries m res L"
  by (auto simp: tries_def fails_def)

lemma fixed_env: "same_env m m' \<Longrightarrow> fixed m \<Longrightarrow> fixed m'"
  by (simp add: same_env_def)

lemma fixed_room: "fixed m \<Longrightarrow> mem_room m n \<longleftrightarrow> n \<le> SIZE_MAX \<and> n \<le> bst_cap (mem_base m)"
  by (auto simp: mem_room_def)

lemma room_env_iff: "same_env m m' \<Longrightarrow> fixed m \<Longrightarrow> mem_room m' n \<longleftrightarrow> mem_room m n"
  by (auto simp: same_env_def mem_room_def)

lemma tries_bind:
  assumes "tries m res L" "\<And>m'. builds m' L \<Longrightarrow> same_env m m' \<Longrightarrow> tries m' (f m') L'"
  shows "tries m (Option.bind res (\<lambda>(ok, m). if \<not> ok then Some (False, m) else f m)) L'"
proof -
  obtain ok m' where r: "res = Some (ok, m')" "same_env m m'" "buf_ok m'" "ok \<longrightarrow> builds m' L"
    using assms(1) by (auto simp: tries_def)
  show ?thesis
  proof (cases ok)
    case True
    then show ?thesis using assms(2) [of m'] r by (auto simp: tries_def intro: same_env_trans)
  next
    case False
    then show ?thesis using r by (auto simp: tries_def)
  qed
qed

lemma buffer_add_fails:
  assumes "fixed m" "buf_ok m" "\<not> mem_room m (bst_len (mem_base m) + n)" "bst_len (mem_base m) + n \<le> SIZE_MAX"
  shows "cbb_buffer_add m True n = (None, m)"
  using assms by (auto simp: cbb_buffer_add_def fixed_room Let_def)

section \<open>Flushing\<close>

lemma flush_pending_fails:
  assumes "fixed m" and ok: "buf_ok m" and c: "cbb_contents m = P @ replicate (plen p) 0 @ C"
    and a: "cbb_offset (mem_cbb m a) = length P" "cbb_pending_len_len (mem_cbb m a) = plen p"
      "cbb_pending_is_asn1 (mem_cbb m a) \<longleftrightarrow> p = Asn1" "cbb_base (mem_cbb m a)"
    and v: "prefix_fits p (length C)"
    and room: "\<not> mem_room m (length P + length (prefix_bytes p (length C)) + length C)"
      "length P + length (prefix_bytes p (length C)) + length C \<le> SIZE_MAX"
  shows "cbb_flush_pending m a ch (length P + plen p) = (False, m)"
proof -
  let ?n = "length C"
  have len: "bst_len (mem_base m) = length P + plen p + ?n" using length_contents [OF ok] c by simp
  have fit: "length P + plen p + ?n \<le> bst_cap (mem_base m)" using ok len by (simp add: buf_ok_def)
  have more: "bst_cap (mem_base m) < length P + length (prefix_bytes p ?n) + ?n"
    using room assms(1) by (auto simp: fixed_room)
  have p: "p = Asn1" using fit more by (cases p) auto
  have long: "\<not> ?n \<le> 0x7f" using fit more p by (auto simp: der_len_def)
  have v': "?n \<le> 0xfffffffe" using v p by simp
  have dl: "length (der_len ?n) = 1 + len_octets ?n" using long by (simp add: der_len_def)
  have "cbb_buffer_add m True (len_octets ?n) = (None, m)"
    by (rule buffer_add_fails) (use assms(1) ok room len dl p in \<open>auto simp: add_ac\<close>)
  moreover have "len_octets ?n \<noteq> 0" using len_octets_cases [of ?n] v' long by auto
  ultimately show ?thesis
    using len a p v' long by (simp add: cbb_flush_pending_def cbb_flush_asn1_def asn1_len_len_eq Let_def)
qed

lemma flush_level_fails:
  assumes "fixed m" "chain m (length P) L" "buf_ok m" "cbb_contents m = P @ layout L" "level_fits L"
    "\<not> mem_room m (length P + length (collapse L))" "length P + length (collapse L) \<le> SIZE_MAX"
  shows "fails m (CBB_flush m (addr L))"
  using assms
proof (induction L arbitrary: P)
  case (Leaf a B)
  then have "length P + length B \<le> bst_cap (mem_base m)" using length_contents [of m] by (simp add: buf_ok_def)
  then show ?case using Leaf.prems(1,6,7) by (simp add: fixed_room)
next
  case (Node a B p L)
  let ?P = "P @ B @ replicate (plen p) 0"
  note pl = plen_le_prefix_bytes [of p "length (collapse L)"]
  have size: "length ?P + length (collapse L) \<le> SIZE_MAX" using Node.prems(7) pl by simp
  have add: "size_add (length P + length B) (plen p) = length (P @ B) + plen p" using size by simp
  show ?case
  proof (cases "mem_room m (length ?P + length (collapse L))")
    case False
    have "fails m (CBB_flush m (addr L))"
      by (rule Node.IH [of ?P]) (use Node.prems False size in \<open>auto simp: add.assoc\<close>)
    then show ?thesis using Node.prems(2) by (auto simp: fails_def CBB_flush.simps [of m a])
  next
    case True
    obtain m1 where m1: "CBB_flush m (addr L) = Some (True, m1)" "cbb_contents m1 = ?P @ collapse L"
      "buf_ok m1" "same_env m m1" "\<forall>x. x \<notin> addrs L \<longrightarrow> mem_cbb m1 x = mem_cbb m x"
      using flush_level [of m ?P L] Node.prems True by (auto simp: add.assoc)
    have a1: "mem_cbb m1 a = mem_cbb m a" using Node.prems(2) m1(5) by auto
    have "cbb_flush_pending m1 a (addr L) (length (P @ B) + plen p) = (False, m1)"
      by (rule flush_pending_fails [of m1 "P @ B" p "collapse L"])
        (use Node.prems m1 a1 fixed_env [OF m1(4)] room_env_iff [OF m1(4)] in \<open>auto simp: add.assoc\<close>)
    then show ?thesis
      using Node.prems(2) m1 add by (auto simp: fails_def CBB_flush.simps [of m a])
  qed
qed

lemma flush_at_fails:
  assumes "fixed m" "chain m (length P) L" "buf_ok m" "cbb_contents m = P @ layout L" "a \<in> addrs L" "fits_at a L"
    "\<not> mem_room m (length P + length (layout (close_at a L)))" "length P + length (layout (close_at a L)) \<le> SIZE_MAX"
  shows "fails m (CBB_flush m a)"
  using assms
proof (induction L arbitrary: P)
  case (Leaf b B)
  then show ?case using flush_level_fails [of m P "Leaf b B"] by auto
next
  case (Node b B p L)
  show ?case
  proof (cases "a = b")
    case True
    with Node.prems flush_level_fails [of m P "Node b B p L"] show ?thesis by simp
  next
    case False
    then show ?thesis
      by (intro Node.IH [of "P @ B @ replicate (plen p) 0"]) (use Node.prems in \<open>auto simp: add.assoc\<close>)
  qed
qed

lemma flush_fails:
  assumes "builds m L" "fixed m" "a \<in> addrs L" "fits_at a L"
    "\<not> mem_room m (length (layout (close_at a L)))" "length (layout (close_at a L)) \<le> SIZE_MAX"
  shows "fails m (CBB_flush m a)"
  using flush_at_fails [of m "[]" L a] assms by (simp add: builds_def)

lemma flush_tries:
  assumes "builds m L" "fixed m" "a \<in> addrs L" "fits_at a L" "length (layout (close_at a L)) \<le> SIZE_MAX"
  shows "tries m (CBB_flush m a) (close_at a L)"
proof (cases "mem_room m (length (layout (close_at a L)))")
  case True
  show ?thesis by (rule builds_flush [OF assms(1,3,4) True]) (auto intro: tries_success)
next
  case False
  then show ?thesis using flush_fails assms by (intro tries_failure) auto
qed

section \<open>Appending\<close>

text \<open>Without room either the flush fails, or it succeeds and the buffer refuses the bytes.\<close>

lemma flush_then_refuse:
  assumes "builds m L" "fixed m" "a \<in> addrs L" "fits_at a L"
    "\<not> mem_room m (length (layout (close_at a L)) + n)" "length (layout (close_at a L)) + n \<le> SIZE_MAX"
  obtains m1 where "CBB_flush m a = Some (False, m1)" "same_env m m1" "buf_ok m1"
    | m1 where "CBB_flush m a = Some (True, m1)" "builds m1 (close_at a L)" "same_env m m1" "cbb_base (mem_cbb m1 a)"
        "leaf_addr (close_at a L) = a" "cbb_buffer_add m1 True n = (None, m1)"
proof (cases "mem_room m (length (layout (close_at a L)))")
  case True
  obtain m1 where m1: "CBB_flush m a = Some (True, m1)" "builds m1 (close_at a L)" "same_env m m1"
    "cbb_base (mem_cbb m1 a)" "leaf_addr (close_at a L) = a"
    by (rule builds_flush [OF assms(1,3,4) True]) blast
  have "cbb_buffer_add m1 True n = (None, m1)"
    by (rule buffer_add_fails)
      (use m1(2) builds_len [OF m1(2)] fixed_env [OF m1(3)] room_env_iff [OF m1(3)] assms in \<open>auto simp: builds_def\<close>)
  then show thesis using that(2) m1 by blast
next
  case False
  then show thesis using flush_fails [OF assms(1-4) False] assms(6) that(1) by (auto simp: fails_def)
qed

lemma append_fails:
  assumes "builds m L" "fixed m" "a \<in> addrs L" "fits_at a L"
  shows "\<not> mem_room m (length (layout (close_at a L)) + length bs) \<Longrightarrow> length (layout (close_at a L)) + length bs \<le> SIZE_MAX
      \<Longrightarrow> fails m (CBB_add_bytes m a bs (length bs))"
    and "\<not> mem_room m (length (layout (close_at a L)) + k) \<Longrightarrow> length (layout (close_at a L)) + k \<le> SIZE_MAX
      \<Longrightarrow> 0 < k \<Longrightarrow> k \<le> 4 \<Longrightarrow> fails m (cbb_add_u m a v k)"
    and "\<not> mem_room m (length (layout (close_at a L)) + k) \<Longrightarrow> length (layout (close_at a L)) + k \<le> SIZE_MAX
      \<Longrightarrow> fails m (map_option (\<lambda>(r, m). (r \<noteq> None, m)) (CBB_add_space m a k))"
    and "\<not> mem_room m (length (layout (close_at a L)) + k) \<Longrightarrow> length (layout (close_at a L)) + k \<le> SIZE_MAX
      \<Longrightarrow> fails m (cbb_add_length_prefixed m a ch k)"
proof -
  note refuse = flush_then_refuse [OF assms]
  show "fails m (CBB_add_bytes m a bs (length bs))"
    if "\<not> mem_room m (length (layout (close_at a L)) + length bs)" "length (layout (close_at a L)) + length bs \<le> SIZE_MAX"
    by (rule refuse [OF that]) (auto simp: fails_def CBB_add_bytes_def builds_def)
  show "fails m (cbb_add_u m a v k)"
    if "\<not> mem_room m (length (layout (close_at a L)) + k)" "length (layout (close_at a L)) + k \<le> SIZE_MAX" "0 < k" "k \<le> 4"
    by (rule refuse [OF that(1,2)]) (use that in \<open>auto simp: fails_def cbb_add_u_def builds_def\<close>)
  show "fails m (map_option (\<lambda>(r, m). (r \<noteq> None, m)) (CBB_add_space m a k))"
    if "\<not> mem_room m (length (layout (close_at a L)) + k)" "length (layout (close_at a L)) + k \<le> SIZE_MAX"
    by (rule refuse [OF that]) (auto simp: fails_def CBB_add_space_def builds_def)
  show "fails m (cbb_add_length_prefixed m a ch k)"
    if "\<not> mem_room m (length (layout (close_at a L)) + k)" "length (layout (close_at a L)) + k \<le> SIZE_MAX"
  proof (rule refuse [OF that])
    fix m1 assume m1: "CBB_flush m a = Some (True, m1)" "builds m1 (close_at a L)" "same_env m m1" "cbb_base (mem_cbb m1 a)"
      "cbb_buffer_add m1 True k = (None, m1)"
    let ?m = "set_cbb a ((mem_cbb m1 a)\<lparr>cbb_offset := bst_len (mem_base m1)\<rparr>) m1"
    have "cbb_buffer_add ?m True k = (None, ?m)"
      using m1(5) by (auto simp: cbb_buffer_add_def Let_def split: if_splits option.splits)
    then show ?thesis using m1 by (simp add: fails_def cbb_add_length_prefixed_def builds_def)
  qed (auto simp: fails_def cbb_add_length_prefixed_def)
qed

text \<open>On the innermost level, one byte.\<close>

lemma u8_leaf_fails:
  assumes "builds m L" "fixed m" "leaf_addr L = a" "v \<le> 0xff"
    "\<not> mem_room m (length (layout L) + 1)" "length (layout L) + 1 \<le> SIZE_MAX"
  shows "fails m (CBB_add_u8 m a v)"
proof -
  note c = builds_close_leaf [OF assms(1,3)]
  show ?thesis using append_fails(2) [OF assms(1,2), of a 1] c assms(4-6) by (simp add: CBB_add_u8_def)
qed

lemma u8_leaf_tries:
  assumes "builds m L" "fixed m" "leaf_addr L = a" "v \<le> 0xff" "length (layout L) + 1 \<le> SIZE_MAX"
  shows "tries m (CBB_add_u8 m a v) (leaf_append [of_nat v] L)"
proof (cases "mem_room m (length (layout L) + 1)")
  case True
  show ?thesis by (rule add_u8_leaf [OF assms(1,3) True assms(4)]) (auto intro: tries_success)
next
  case False
  then show ?thesis using u8_leaf_fails [OF assms(1-4)] assms(5) by (intro tries_failure) simp
qed

lemma add_asn1_fails:
  assumes "builds m L" "fixed m" "a \<in> addrs L" "fits_at a L" and tag: "unat tag \<le> 0xff" "tag AND 0x1f \<noteq> 0x1f"
    and room: "\<not> mem_room m (length (layout (close_at a L)) + 2)" "length (layout (close_at a L)) + 2 \<le> SIZE_MAX"
  shows "fails m (CBB_add_asn1 m a ch tag)"
proof -
  let ?L = "close_at a L"
  have t: "\<not> tag > 0xff" using tag(1) by (simp add: word_less_nat_alt)
  show ?thesis
  proof (rule flush_then_refuse [OF assms(1-4) room])
    fix m1 assume m1: "CBB_flush m a = Some (False, m1)" "same_env m m1" "buf_ok m1"
    then show ?thesis using t tag(2) by (simp add: fails_def CBB_add_asn1_def)
  next
    fix m1 assume m1: "CBB_flush m a = Some (True, m1)" "builds m1 ?L" "same_env m m1" "leaf_addr ?L = a"
    have fx: "fixed m1" by (rule fixed_env [OF m1(3) assms(2)])
    show ?thesis
    proof (cases "mem_room m1 (length (layout ?L) + 1)")
      case False
      have "fails m1 (CBB_add_u8 m1 a (unat tag))"
        by (rule u8_leaf_fails [OF m1(2) fx m1(4) tag(1) False]) (use room(2) in simp)
      then show ?thesis using m1(1,3) t tag(2) by (auto simp: fails_def CBB_add_asn1_def intro: same_env_trans)
    next
      case True
      obtain m2 where m2: "CBB_add_u8 m1 a (unat tag) = Some (True, m2)"
        "builds m2 (leaf_append [of_nat (unat tag)] ?L)" "same_env m1 m2"
        by (rule add_u8_leaf [OF m1(2,4) True tag(1)]) blast
      define m3 where "m3 = set_cbb a ((mem_cbb m2 a)\<lparr>cbb_offset := bst_len (mem_base m2)\<rparr>) m2"
      have b3: "builds m3 (leaf_append [of_nat (unat tag)] ?L)" "same_env m2 m3"
        using builds_leaf_offset [OF m2(2)] m1(4) by (simp_all add: m3_def)
      have e: "same_env m m3" using m1(3) m2(3) b3(2) by (blast intro: same_env_trans)
      have "fails m3 (CBB_add_u8 m3 a 0)"
        by (rule u8_leaf_fails [OF b3(1)])
          (use fixed_env [OF e assms(2)] room_env_iff [OF e assms(2)] m1(4) room in auto)
      then show ?thesis using m1(1) m2(1) e t tag(2)
        by (auto simp: fails_def CBB_add_asn1_def m3_def [symmetric] Let_def intro: same_env_trans)
    qed
  qed
qed

lemma uint64_started_tries:
  assumes "builds m L" "fixed m" "leaf_addr L = ch" "length (layout L) + length bs \<le> SIZE_MAX"
  shows "\<exists>ok m'. asn1_uint64_bytes_loop m ch bs True = Some (ok, True, m') \<and> same_env m m' \<and> buf_ok m'
    \<and> (ok \<longrightarrow> builds m' (leaf_append bs L))"
  using assms
proof (induction bs arbitrary: m L)
  case Nil
  then show ?case by (auto simp: builds_def)
next
  case (Cons b bs)
  have "tries m (CBB_add_u8 m ch (unat b)) (leaf_append [of_nat (unat b)] L)"
    by (rule u8_leaf_tries [OF Cons.prems(1-3)]) (use Cons.prems(4) unat_u8_lt [of b] in auto)
  then obtain ok m1 where m1: "CBB_add_u8 m ch (unat b) = Some (ok, m1)" "same_env m m1" "buf_ok m1"
    "ok \<longrightarrow> builds m1 (leaf_append [b] L)"
    by (auto simp: tries_def)
  show ?case
  proof (cases ok)
    case True
    with m1 Cons.IH [of m1 "leaf_append [b] L"] Cons.prems(3,4) fixed_env [OF m1(2) Cons.prems(2)] show ?thesis
      by (auto intro: same_env_trans)
  next
    case False
    with m1 show ?thesis by auto
  qed
qed

lemma uint64_loop_tries:
  assumes "builds m L" "fixed m" "leaf_addr L = ch" "length (layout L) + Suc (length bs) \<le> SIZE_MAX"
  shows "\<exists>ok st m'. asn1_uint64_bytes_loop m ch bs False = Some (ok, st, m') \<and> same_env m m' \<and> buf_ok m'
    \<and> (ok \<longrightarrow> (if \<forall>b\<in>set bs. b = 0 then \<not> st \<and> m' = m else st \<and> builds m' (leaf_append (uint_content bs) L)))"
  using assms(4)
proof (induction bs)
  case Nil
  then show ?case using assms(1) by (intro exI [of _ True] exI [of _ False] exI [of _ m]) (simp add: builds_def)
next
  case (Cons b bs)
  show ?case
  proof (cases "b = 0")
    case True
    have "uint_content (b # bs) = uint_content bs" using True by (simp add: uint_content_def)
    then show ?thesis using Cons.IH Cons.prems True by (auto split: if_splits)
  next
    case False
    let ?z = "if b AND 0x80 \<noteq> 0 then [0] else []"
    have "tries m (if b AND 0x80 \<noteq> 0 then CBB_add_u8 m ch 0 else Some (True, m)) (leaf_append ?z L)"
      using u8_leaf_tries [OF assms(1-3), of 0] Cons.prems assms(1) by (auto intro: tries_success)
    then obtain ok m1 where m1: "(if b AND 0x80 \<noteq> 0 then CBB_add_u8 m ch 0 else Some (True, m)) = Some (ok, m1)"
      "same_env m m1" "buf_ok m1" "ok \<longrightarrow> builds m1 (leaf_append ?z L)"
      by (auto simp: tries_def)
    show ?thesis
    proof (cases ok)
      case True
      have "\<exists>ok m'. asn1_uint64_bytes_loop m1 ch (b # bs) True = Some (ok, True, m') \<and> same_env m1 m' \<and> buf_ok m'
          \<and> (ok \<longrightarrow> builds m' (leaf_append (b # bs) (leaf_append ?z L)))"
        by (rule uint64_started_tries) (use m1 True assms(3) Cons.prems fixed_env [OF m1(2) assms(2)] in auto)
      then show ?thesis
        using False True m1 by (auto simp: uint_content_def intro: same_env_trans split: if_splits)
    next
      case failed: False
      then show ?thesis using False m1 by auto
    qed
  qed
qed

lemma add_asn1_uint64_tries:
  assumes "builds m L" "fixed m" "a \<in> addrs L" "fits_at a L" "ch \<notin> addrs L"
    "length (layout (close_at a L)) + 11 \<le> SIZE_MAX"
  shows "tries m (CBB_add_asn1_uint64 m a ch v)
    (leaf_append (der_element 2 (uint_content (be_bytes 8 (unat v)))) (close_at a L))"
proof -
  let ?L = "leaf_append [2] (close_at a L)" and ?bs = "be_bytes 8 (unat v)"
  let ?c = "uint_content ?bs" let ?L1 = "leaf_open ch Asn1 ?L"
  have la: "leaf_addr (close_at a L) = a" using assms(1,3) leaf_addr_close_at by (auto simp: builds_def)
  have tag: "unat CBS_ASN1_INTEGER \<le> 0xff" "CBS_ASN1_INTEGER AND 0x1f \<noteq> 0x1f" "ucast CBS_ASN1_INTEGER = (2 :: u8)"
    by (simp_all add: CBS_ASN1_INTEGER_def)
  have one: "tries m (CBB_add_asn1 m a ch CBS_ASN1_INTEGER) ?L1"
  proof (cases "mem_room m (length (layout (close_at a L)) + 2)")
    case True
    then show ?thesis using CBB_add_asn1_ok [OF assms(1,3-5) tag(1,2)] unfolding tag(3) by (intro tries_success) simp
  next
    case False
    then show ?thesis using add_asn1_fails [OF assms(1-4) tag(1,2)] assms(6) by (intro tries_failure) simp
  qed
  have dp: "distinct_path ?L" and new: "ch \<notin> addrs ?L"
    using assms(1,5) addrs_close_at [of a L] by (auto simp: builds_def intro: distinct_path_ops chain_distinct)
  have zero: "?c = [0]" if "\<forall>b\<in>set ?bs. b = 0" using that by (auto simp: uint_content_def)
  have two: "tries m1 (Option.bind (asn1_uint64_bytes_loop m1 ch ?bs False)
      (\<lambda>(ok, started, m). if \<not> ok then Some (False, m) else if \<not> started then CBB_add_u8 m ch 0 else Some (True, m)))
      (leaf_append ?c ?L1)" if m1: "builds m1 ?L1" "same_env m m1" for m1
  proof -
    have fx: "fixed m1" by (rule fixed_env [OF m1(2) assms(2)])
    obtain ok st m2 where m2: "asn1_uint64_bytes_loop m1 ch ?bs False = Some (ok, st, m2)" "same_env m1 m2" "buf_ok m2"
      "ok \<longrightarrow> (if \<forall>b\<in>set ?bs. b = 0 then \<not> st \<and> m2 = m1 else st \<and> builds m2 (leaf_append ?c ?L1))"
      using uint64_loop_tries [OF m1(1) fx, of ch ?bs] assms(6) by auto
    show ?thesis
    proof (cases "ok \<and> (\<forall>b\<in>set ?bs. b = 0)")
      case True
      then have "\<not> st" "m2 = m1" using m2(4) by auto
      then show ?thesis using True m2(1) zero u8_leaf_tries [OF m1(1) fx, of ch 0] assms(6) by simp
    next
      case False
      then show ?thesis using m2 by (auto simp: tries_def)
    qed
  qed
  have three: "tries m2 (CBB_flush m2 a) (leaf_append (der_element 2 ?c) (close_at a L))"
    if m2: "builds m2 (leaf_append ?c ?L1)" "same_env m m2" for m2
  proof -
    have op: "close_at a (leaf_append ?c ?L1) = leaf_append (der_element 2 ?c) (close_at a L)"
        "fits_at a (leaf_append ?c ?L1)" "a \<in> addrs (leaf_append ?c ?L1)"
      using close_opened [of ?L a ch ?c Asn1] dp la new length_uint_content(2) [of ?bs] by (auto simp: der_element_def)
    show ?thesis
      using flush_tries [OF m2(1) fixed_env [OF m2(2) assms(2)] op(3,2)] length_asn1_uint64 [of v] assms(6)
      by (simp add: op(1))
  qed
  have "tries m (Option.bind (CBB_add_asn1 m a ch CBS_ASN1_INTEGER) (\<lambda>(ok, m). if \<not> ok then Some (False, m) else
      Option.bind (Option.bind (asn1_uint64_bytes_loop m ch ?bs False)
        (\<lambda>(ok, started, m). if \<not> ok then Some (False, m) else if \<not> started then CBB_add_u8 m ch 0 else Some (True, m)))
      (\<lambda>(ok, m). if \<not> ok then Some (False, m) else CBB_flush m a)))
    (leaf_append (der_element 2 ?c) (close_at a L))"
    by (intro tries_bind [OF one] tries_bind [OF two] three) (auto intro: same_env_trans)
  also have "Option.bind (CBB_add_asn1 m a ch CBS_ASN1_INTEGER) (\<lambda>(ok, m). if \<not> ok then Some (False, m) else
      Option.bind (Option.bind (asn1_uint64_bytes_loop m ch ?bs False)
        (\<lambda>(ok, started, m). if \<not> ok then Some (False, m) else if \<not> started then CBB_add_u8 m ch 0 else Some (True, m)))
      (\<lambda>(ok, m). if \<not> ok then Some (False, m) else CBB_flush m a)) = CBB_add_asn1_uint64 m a ch v"
    unfolding CBB_add_asn1_uint64_def u64_bytes_eq
    by (intro Option.bind_cong refl) (auto split: bind_splits prod.splits)
  finally show ?thesis .
qed

lemma u32_tries:
  assumes "builds m L" "fixed m" "a \<in> addrs L" "fits_at a L" "length (layout (close_at a L)) + 4 \<le> SIZE_MAX"
  shows "tries m (CBB_add_u32 m a (unat (v :: u32))) (leaf_append (be_bytes 4 (unat v)) (close_at a L))"
proof (cases "mem_room m (length (layout (close_at a L)) + 4)")
  case True
  then show ?thesis using ap_u32.adds [OF assms(1,3,4)] by (intro tries_success) simp
next
  case False
  have "unat v \<le> 0xffffffff" using unsigned_less [of v, where 'a = nat] by simp
  then show ?thesis using append_fails(2) [OF assms(1-4) False assms(5)]
    by (intro tries_failure) (simp add: CBB_add_u32_def)
qed

lemma add_u64_tries:
  assumes "builds m L" "fixed m" "a \<in> addrs L" "fits_at a L" "length (layout (close_at a L)) + 8 \<le> SIZE_MAX"
  shows "tries m (CBB_add_u64 m a v) (leaf_append (be_bytes 8 (unat v)) (close_at a L))"
proof -
  let ?hi = "ucast (drop_bit 32 v) :: u32" and ?lo = "ucast v :: u32"
  let ?L1 = "leaf_append (be_bytes 4 (unat ?hi)) (close_at a L)"
  have la: "leaf_addr ?L1 = a" using assms(1,3) leaf_addr_close_at by (auto simp: builds_def)
  have b8: "be_bytes 8 (unat v) = be_bytes 4 (unat ?hi) @ be_bytes 4 (unat ?lo)"
    using be_bytes_add [of 4 4 "unat v"] be_bytes_mod [of 4 "unat v"] by (simp only: unat_u64_hi unat_u64_lo [of v]) simp
  have "tries m1 (CBB_add_u32 m1 a (unat ?lo)) (leaf_append (be_bytes 8 (unat v)) (close_at a L))"
    if m1: "builds m1 ?L1" "same_env m m1" for m1
    using u32_tries [OF m1(1) fixed_env [OF m1(2) assms(2)], of a ?lo] builds_close_leaf [OF m1(1) la] assms(5)
    by (simp add: b8)
  then show ?thesis
    unfolding CBB_add_u64_seq add_seq_def
    by (intro tries_bind [OF u32_tries [OF assms(1-4)]]) (use assms(5) in auto)
qed

section \<open>Sessions\<close>

lemma run_call_tries:
  assumes "builds m L" "fixed m" "legal_call SIZE_MAX c L"
  shows "tries m (run_call c m) (spec_call c L)"
proof (cases "(\<exists>a. c = Discard a) \<or> mem_room m (length (layout (spec_call c L)))")
  case True
  then show ?thesis using run_call_room [OF assms(1,3)] by (intro tries_success) auto
next
  case False
  have l: "call_on c \<in> addrs L" "fits_at (call_on c) L" "call_value_ok c"
    "\<And>ch. call_opens c = Some ch \<Longrightarrow> ch \<notin> addrs L"
    "length (layout (close_at (call_on c) L)) + call_size c \<le> SIZE_MAX"
    using assms(3) by (auto simp: legal_call_def)
  note f = assms(1,2) l(1,2)
  show ?thesis
  proof (cases c)
    case (Add_u64 a v) then show ?thesis using add_u64_tries [OF f] l by simp
  next
    case (Add_asn1_uint64 a ch v) then show ?thesis using add_asn1_uint64_tries [OF f] l by simp
  next
    case (Discard a) then show ?thesis using False by simp
  next
    case (Flush a) then show ?thesis using flush_tries [OF f] l by simp
  next
    case (Open_asn1 a ch tag) then show ?thesis using add_asn1_fails [OF f, of tag ch] l False by (intro tries_failure) simp
  next
    case (Add_bytes a bs) then show ?thesis using append_fails(1) [OF f, of bs] l False by (intro tries_failure) simp
  qed (use append_fails(2-4) [OF f] l False in \<open>auto intro!: tries_failure simp: CBB_add_u8_def CBB_add_u16_def CBB_add_u24_def
      CBB_add_u32_def CBB_add_u8_length_prefixed_def CBB_add_u16_length_prefixed_def CBB_add_u24_length_prefixed_def
      CBB_add_u32_length_prefixed_def\<close>)
qed

text \<open>Every legal call returns; it succeeds exactly if there is room for what it builds.\<close>

lemma run_call_exact:
  assumes "builds m L" "fixed m" "legal_call SIZE_MAX c L"
  obtains ok m' where "run_call c m = Some (ok, m')" "same_env m m'" "buf_ok m'" "ok \<Longrightarrow> builds m' (spec_call c L)"
    "ok \<longleftrightarrow> length (layout (spec_call c L)) \<le> bst_cap (mem_base m)"
proof -
  obtain ok m' where r: "run_call c m = Some (ok, m')" "same_env m m'" "buf_ok m'" "ok \<longrightarrow> builds m' (spec_call c L)"
    using run_call_tries [OF assms] by (auto simp: tries_def)
  have "length (layout (spec_call c L)) \<le> bst_cap (mem_base m)" if ok
    using that r assms(2) builds_len [of m' "spec_call c L"] by (simp add: buf_ok_def same_env_def)
  moreover have ok if "length (layout (spec_call c L)) \<le> bst_cap (mem_base m)"
  proof -
    have "mem_room m (length (layout (spec_call c L)))"
      using that assms(1,2) by (simp add: fixed_room builds_def buf_ok_def)
    then show ?thesis using run_call_room [OF assms(1,3)] r(1) by auto
  qed
  ultimately show thesis using that [OF r(1-3)] r(4) by blast
qed

text \<open>All states of a session fit into \<open>N\<close> bytes.\<close>

fun fits_all :: "nat \<Rightarrow> call list \<Rightarrow> level \<Rightarrow> bool" where
  "fits_all N [] L \<longleftrightarrow> True"
| "fits_all N (c # cs) L \<longleftrightarrow> length (layout (spec_call c L)) \<le> N \<and> fits_all N cs (spec_call c L)"

lemma run_calls_exact:
  assumes "builds m L" "fixed m" "legal_calls SIZE_MAX cs L"
  shows "\<exists>ok m'. run_calls cs m = Some (ok, m') \<and> same_env m m' \<and> buf_ok m' \<and> (ok \<longrightarrow> builds m' (fold spec_call cs L))
    \<and> (ok \<longleftrightarrow> fits_all (bst_cap (mem_base m)) cs L)"
  using assms
proof (induction cs arbitrary: m L)
  case Nil
  then show ?case by (intro exI [of _ True] exI [of _ m]) (simp add: builds_def)
next
  case (Cons c cs)
  have l: "legal_call SIZE_MAX c L" "legal_calls SIZE_MAX cs (spec_call c L)" using Cons.prems(3) by simp_all
  obtain ok m1 where m1: "run_call c m = Some (ok, m1)" "same_env m m1" "buf_ok m1" "ok \<Longrightarrow> builds m1 (spec_call c L)"
    "ok \<longleftrightarrow> length (layout (spec_call c L)) \<le> bst_cap (mem_base m)"
    by (rule run_call_exact [OF Cons.prems(1,2) l(1)]) blast
  have cap: "bst_cap (mem_base m1) = bst_cap (mem_base m)" using m1(2) Cons.prems(2) by (simp add: same_env_def)
  show ?case
  proof (cases ok)
    case True
    from Cons.IH [OF m1(4) [OF True] fixed_env [OF m1(2) Cons.prems(2)] l(2)] True m1 cap show ?thesis
      by (auto intro: same_env_trans)
  next
    case False
    with m1 show ?thesis by auto
  qed
qed

lemma legal_calls_end:
  "legal_calls N cs L \<Longrightarrow> level_fits (fold spec_call cs L) \<and> length (collapse (fold spec_call cs L)) \<le> N"
  by (induction cs arbitrary: L) auto

lemma finish_exact:
  assumes "builds m L" "fixed m" "level_fits L" "length (collapse L) \<le> SIZE_MAX"
  shows "\<exists>r m'. CBB_finish m (addr L) False True False = Some (r, m')
    \<and> (if length (collapse L) \<le> bst_cap (mem_base m)
       then \<exists>buf. r = Some (buf, length (collapse L)) \<and> take (length (collapse L)) buf = collapse L
              \<and> length buf = bst_cap (mem_base m)
       else r = None)"
proof -
  have top: "cbb_is_top_level (mem_cbb m (addr L))" using assms(1) by (simp add: builds_def)
  show ?thesis
  proof (cases "length (collapse L) \<le> bst_cap (mem_base m)")
    case True
    have room: "mem_room m (length (layout (close_at (addr L) L)))"
      using True assms(2,4) by (simp add: fixed_room close_at_top)
    obtain m1 where m1: "CBB_flush m (addr L) = Some (True, m1)" "builds m1 (Leaf (addr L) (collapse L))" "same_env m m1"
      by (rule builds_flush [OF assms(1) addr_in_addrs _ room]) (use assms(3) in \<open>auto simp: close_at_top fits_at_top\<close>)
    have "take (length (collapse L)) (bst_buf (mem_base m1)) = collapse L"
      using m1(2) builds_len [OF m1(2)] by (simp add: builds_def cbb_contents_def)
    moreover have "length (bst_buf (mem_base m1)) = bst_cap (mem_base m)" "fixed m1"
      using m1(2,3) assms(2) by (auto simp: builds_def buf_ok_def same_env_def)
    ultimately show ?thesis
      using True top m1(1) builds_len [OF m1(2)] by (simp add: CBB_finish_def)
  next
    case False
    have "fails m (CBB_flush m (addr L))"
      by (rule flush_fails [OF assms(1,2) addr_in_addrs]) (use False assms(2-4) in \<open>auto simp: close_at_top fits_at_top fixed_room\<close>)
    then show ?thesis using False top by (auto simp: fails_def CBB_finish_def)
  qed
qed

lemma CBB_init_fixed_builds:
  assumes "mem_alloc m sizeof_cbb_buffer_st" "length buf \<le> SIZE_MAX"
  obtains m' where "CBB_init_fixed m a buf (length buf) = (True, m')" "builds m' (Leaf a [])"
    "\<not> bst_can_resize (mem_base m')" "bst_cap (mem_base m') = length buf"
  using assms that
  by (simp add: CBB_init_fixed_def cbb_init_def cbb_zero_def builds_def buf_ok_def cbb_contents_def)

text \<open>
  C6.  The builder over a caller's fixed buffer: every session of calls that are legal
  but for their size returns, and leaves the buffer at its size, so that nothing is
  written behind it.  It succeeds exactly if the buffer holds what has been built
  after each of the calls - the first call whose result does not fit fails.  After
  that \<open>CBB_finish\<close> leaves exactly the described bytes at the start of the buffer if
  they fit with all length prefixes written, and fails otherwise.
\<close>

theorem CBB_fixed_session_refines:
  assumes "mem_alloc m sizeof_cbb_buffer_st" "length space \<le> SIZE_MAX" "legal_calls SIZE_MAX cs (Leaf a [])"
    "out = collapse (fold spec_call cs (Leaf a []))"
  shows "\<exists>m1 ok m2. CBB_init_fixed m a space (length space) = (True, m1) \<and> run_calls cs m1 = Some (ok, m2)
    \<and> length (bst_buf (mem_base m2)) = length space
    \<and> (ok \<longleftrightarrow> fits_all (length space) cs (Leaf a []))
    \<and> (ok \<longrightarrow> (\<exists>r m3. CBB_finish m2 a False True False = Some (r, m3)
         \<and> (if length out \<le> length space
            then \<exists>buf. r = Some (buf, length out) \<and> take (length out) buf = out \<and> length buf = length space
            else r = None)))"
proof -
  obtain m1 where m1: "CBB_init_fixed m a space (length space) = (True, m1)" "builds m1 (Leaf a [])"
    "fixed m1" "bst_cap (mem_base m1) = length space"
    by (rule CBB_init_fixed_builds [OF assms(1,2)])
  obtain ok m2 where m2: "run_calls cs m1 = Some (ok, m2)" "same_env m1 m2" "buf_ok m2"
    "ok \<longrightarrow> builds m2 (fold spec_call cs (Leaf a []))" "ok \<longleftrightarrow> fits_all (length space) cs (Leaf a [])"
    using run_calls_exact [OF m1(2,3) assms(3)] m1(4) by auto
  have cap: "bst_cap (mem_base m2) = length space" "fixed m2" using m2(2) m1(3,4) by (simp_all add: same_env_def)
  note e = legal_calls_end [OF assms(3)]
  have "\<exists>r m3. CBB_finish m2 a False True False = Some (r, m3)
       \<and> (if length out \<le> length space
          then \<exists>buf. r = Some (buf, length out) \<and> take (length out) buf = out \<and> length buf = length space
          else r = None)" if ok
    by (rule finish_exact [of m2 "fold spec_call cs (Leaf a [])", unfolded addr_fold_spec_call level.sel cap(1) assms(4) [symmetric]])
      (use that m2(4) cap(2) e assms(4) in auto)
  moreover have "length (bst_buf (mem_base m2)) = length space" using m2(3) cap by (simp add: buf_ok_def)
  ultimately show ?thesis using m1(1) m2(1,5) by blast
qed

definition small_calls :: "call list" where
  "small_calls = [Open_u8 0 1, Add_u8 1 5, Add_u16 0 2]"

lemma small_calls_simps:
  "legal_calls SIZE_MAX small_calls (Leaf 0 [])" "[1, 5, 0, 2] = collapse (fold spec_call small_calls (Leaf 0 []))"
  "fits_all 4 small_calls (Leaf 0 [])" "\<not> fits_all 3 small_calls (Leaf 0 [])"
  by (simp_all add: session_simps small_calls_def)

theorem CBB_fixed_session_refines_witness:
  "(\<exists>m1 m2 m3 buf. CBB_init_fixed empty_mem 0 (replicate 4 0) 4 = (True, m1) \<and> run_calls small_calls m1 = Some (True, m2)
     \<and> CBB_finish m2 0 False True False = Some (Some (buf, 4), m3) \<and> take 4 buf = [1, 5, 0, 2])
   \<and> (\<exists>m1 m2. CBB_init_fixed empty_mem 0 (replicate 3 0) 3 = (True, m1) \<and> run_calls small_calls m1 = Some (False, m2)
     \<and> length (bst_buf (mem_base m2)) = 3)"
  using CBB_fixed_session_refines [OF _ _ small_calls_simps(1,2), of empty_mem "replicate 4 0"]
    CBB_fixed_session_refines [OF _ _ small_calls_simps(1,2), of empty_mem "replicate 3 0"] small_calls_simps(3,4)
  by (auto simp: empty_mem_def SIZE_MAX_def)

end
