(* ===== verification/BER.thy ===== *)
theory BER
  imports CBB_Refine
begin

text \<open>
  src/lib/libcrypto/bytestring/bs_ber.c: rewriting BER with indefinite lengths to
  DER.  \<open>cbs_find_indefinite\<close> decides whether a conversion is needed at all, and
  \<open>cbs_convert_indefinite\<close> walks the input and rebuilds it with a \<open>CBB\<close>.

  The walk of \<open>cbs_find_indefinite\<close> always ends (each element has at least two
  bytes), so it is a total function.  The conversion also moves the shared input
  reader from within its recursion and works on a builder whose flush is partial,
  so it is a \<^theory_text>\<open>partial_function (option)\<close>.  The \<open>CBB\<close> on the stack of an
  activation at recursion depth \<open>d\<close> has the address \<open>Suc d\<close>; address 0 is the
  builder of the entry point.
\<close>

section \<open>Looking for indefinite lengths\<close>

definition kMaxDepth :: nat where "kMaxDepth = 2048"

definition cbs_nonstrict_get_any_asn1_element :: "CBS \<Rightarrow> (CBS \<times> u32 \<times> nat) cbs_res" where
  "cbs_nonstrict_get_any_asn1_element c = cbs_get_any_asn1_element_internal c False"

text \<open>The parser consumes what it returns, and at least two bytes.\<close>

lemma element_consumes:
  assumes "cbs_get_any_asn1_element_internal c strict = (Some (out, tag, h), c')"
  shows "2 \<le> h \<and> 2 \<le> cbs_len out \<and> cbs_len out \<le> cbs_len c \<and> cbs_len c' = cbs_len c - cbs_len out"
proof -
  have big: "2 \<le> size_add (unat w) n" if "\<not> (w :: u32) < 128" "\<not> size_add (unat w) n < unat w" for w n
    using that by (simp add: u32_lt_128)
  show ?thesis
    using assms
    by (auto simp: cbs_get_any_asn1_element_internal_def cbs_eqs Let_def dest: big split: if_splits option.splits)
qed

function (sequential)
  cbs_find_indefinite :: "CBS \<Rightarrow> bool \<Rightarrow> nat \<Rightarrow> bool option" and
  cbs_find_indefinite_loop :: "CBS \<Rightarrow> bool \<Rightarrow> nat \<Rightarrow> bool option" where
  "cbs_find_indefinite orig_in found depth =
     (if depth > kMaxDepth then None
      else cbs_find_indefinite_loop (CBS_init (CBS_data orig_in) (CBS_len orig_in)) found depth)"
| "cbs_find_indefinite_loop inp found depth =
     (if CBS_len inp = 0 then Some False
      else case cbs_nonstrict_get_any_asn1_element inp of
          (None, _) \<Rightarrow> None
        | (Some (contents, tag, header_len), inp') \<Rightarrow>
           (if CBS_len contents = header_len \<and> header_len > 0 \<and> CBS_data contents ! (header_len - 1) = 0x80
            then Some True
            else if tag AND CBS_ASN1_CONSTRUCTED \<noteq> 0 then
              (case CBS_skip contents header_len of
                 (None, _) \<Rightarrow> None
               | (Some _, contents) \<Rightarrow>
                  (case cbs_find_indefinite contents found (depth + 1) of
                     None \<Rightarrow> None
                   | Some found \<Rightarrow> cbs_find_indefinite_loop inp' found depth))
            else cbs_find_indefinite_loop inp' found depth))"
  by pat_completeness auto

termination
  by (relation "measure (\<lambda>x. case x of Inl (c, _) \<Rightarrow> 2 * cbs_len c + 1 | Inr (c, _) \<Rightarrow> 2 * cbs_len c)")
    (auto simp: CBS_len_def CBS_skip_eq cbs_nonstrict_get_any_asn1_element_def
      dest!: element_consumes [OF sym] element_consumes split: if_splits)

section \<open>Conversion\<close>

definition is_primitive_type :: "u32 \<Rightarrow> bool" where
  "is_primitive_type tag \<longleftrightarrow> tag AND 0xc0 = 0 \<and> tag AND 0x1f \<noteq> CBS_ASN1_SEQUENCE AND 0x1f
     \<and> tag AND 0x1f \<noteq> CBS_ASN1_SET AND 0x1f"

definition is_eoc :: "nat \<Rightarrow> CBS \<Rightarrow> bool" where
  "is_eoc header_len contents \<longleftrightarrow> header_len = 2 \<and> CBS_mem_equal contents [0, 0] 2"

text \<open>
  What the code decides for an indefinite-length element with tag \<open>tag\<close> when the
  input behind its header is \<open>inp\<close>: whether the children's headers are to be
  dropped, \<^const>\<open>None\<close> when the look-ahead fails.
\<close>

definition squash_child_headers :: "CBS \<Rightarrow> u32 \<Rightarrow> bool option" where
  "squash_child_headers inp tag =
     (if tag AND 0xc0 = 0x80 \<and> tag AND CBS_ASN1_CONSTRUCTED \<noteq> 0 then
        (case cbs_nonstrict_get_any_asn1_element (CBS_init (CBS_data inp) (CBS_len inp)) of
           (None, _) \<Rightarrow> None
         | (Some (inner_contents, inner_tag, inner_header_len), _) \<Rightarrow>
            Some (is_primitive_type tag \<or>
                  CBS_len inner_contents > inner_header_len \<and> is_primitive_type inner_tag))
      else Some (is_primitive_type tag))"

partial_function (option) cbs_convert_indefinite ::
  "CBS \<Rightarrow> cbb_mem \<Rightarrow> nat \<Rightarrow> bool \<Rightarrow> bool \<Rightarrow> nat \<Rightarrow> (bool \<times> CBS \<times> cbb_mem) option" where
  "cbs_convert_indefinite inp m out squash_header looking_for_eoc depth =
     (if depth > kMaxDepth then Some (False, inp, m)
      else if CBS_len inp = 0 then Some (\<not> looking_for_eoc, inp, m)
      else case cbs_nonstrict_get_any_asn1_element inp of
          (None, inp) \<Rightarrow> Some (False, inp, m)
        | (Some (contents, tag, header_len), inp) \<Rightarrow>
           (if CBS_len contents = header_len \<and> is_eoc header_len contents
            then Some (looking_for_eoc, inp, m)
            else if CBS_len contents = header_len \<and> header_len > 0
                    \<and> CBS_data contents ! (header_len - 1) = 0x80 then
              (case squash_child_headers inp tag of
                 None \<Rightarrow> Some (False, inp, m)
               | Some squash_child \<Rightarrow> do {
                   (ok, m) \<leftarrow> (if squash_header then Some (True, m)
                             else CBB_add_asn1 m out (Suc depth)
                                    (if squash_child then tag AND NOT CBS_ASN1_CONSTRUCTED else tag));
                   if \<not> ok then Some (False, inp, m)
                   else do {
                     (ok, inp, m) \<leftarrow> cbs_convert_indefinite inp m
                        (if squash_header then out else Suc depth) squash_child True (depth + 1);
                     if \<not> ok then Some (False, inp, m)
                     else do {
                       (ok, m) \<leftarrow> (if squash_header then Some (True, m) else CBB_flush m out);
                       if \<not> ok then Some (False, inp, m)
                       else cbs_convert_indefinite inp m out squash_header looking_for_eoc depth
                     }
                   }
                 })
            else do {
              (ok, m) \<leftarrow> (if squash_header then Some (True, m) else CBB_add_asn1 m out (Suc depth) tag);
              if \<not> ok then Some (False, inp, m)
              else case CBS_skip contents header_len of
                  (None, _) \<Rightarrow> Some (False, inp, m)
                | (Some _, contents) \<Rightarrow> do {
                    (ok, m) \<leftarrow> (if tag AND CBS_ASN1_CONSTRUCTED \<noteq> 0
                              then Option.bind (cbs_convert_indefinite contents m
                                        (if squash_header then out else Suc depth) False False (depth + 1))
                                     (\<lambda>(ok, _, m). Some (ok, m))
                              else CBB_add_bytes m (if squash_header then out else Suc depth)
                                     (CBS_data contents) (CBS_len contents));
                    if \<not> ok then Some (False, inp, m)
                    else do {
                      (ok, m) \<leftarrow> (if squash_header then Some (True, m) else CBB_flush m out);
                      if \<not> ok then Some (False, inp, m)
                      else cbs_convert_indefinite inp m out squash_header looking_for_eoc depth
                    }
                  }
            }))"

text \<open>
  The entry point: \<open>Some (Some None)\<close> when no conversion is needed (\<open>*out\<close> is NULL
  then), \<open>Some (Some (Some (buf, n)))\<close> with the converted bytes, \<open>Some None\<close> for
  the return value 0.
\<close>

definition CBS_asn1_indefinite_to_definite ::
  "CBS \<Rightarrow> cbb_mem \<Rightarrow> ((bytes \<times> nat) option option \<times> CBS \<times> cbb_mem) option" where
  "CBS_asn1_indefinite_to_definite inp m =
     (case cbs_find_indefinite inp False 0 of
        None \<Rightarrow> Some (None, inp, m)
      | Some False \<Rightarrow> Some (Some None, inp, m)
      | Some True \<Rightarrow>
         (case CBB_init m 0 (CBS_len inp) of
            (False, m) \<Rightarrow> Some (None, inp, m)
          | (True, m) \<Rightarrow> do {
              (ok, inp, m) \<leftarrow> cbs_convert_indefinite inp m 0 False False 0;
              if \<not> ok then Some (None, inp, CBB_cleanup m 0)
              else do {
                (r, m) \<leftarrow> CBB_finish m 0 True True False;
                Some (map_option Some r, inp, m)
              }
            }))"

section \<open>DER trees\<close>

text \<open>
  Well-formed DER as trees: primitive elements, and constructed ones with elements
  inside, at most \<open>k\<close> levels deep.
\<close>

datatype der = DPrim u8 bytes | DCons u8 "der list"

primrec enc :: "der \<Rightarrow> bytes" where
  "enc (DPrim t bs) = der_element t bs"
| "enc (DCons t ds) = der_element t (concat (map enc ds))"

primrec der_wf :: "der \<Rightarrow> nat \<Rightarrow> bool" where
  "der_wf (DPrim t bs) k \<longleftrightarrow> t AND 0x1f \<noteq> 0x1f \<and> t AND 0x20 = 0 \<and> length bs < 256 ^ 4"
| "der_wf (DCons t ds) k \<longleftrightarrow> t AND 0x1f \<noteq> 0x1f \<and> t AND 0x20 \<noteq> 0 \<and> 0 < k
     \<and> length (concat (map enc ds)) < 256 ^ 4 \<and> list_all (\<lambda>d. der_wf d (k - 1)) ds"

lemma asn1_elem_len_lax: "asn1_elem_len bs True = Some x \<Longrightarrow> asn1_elem_len bs False = Some x"
  by (auto simp: asn1_elem_len_def Let_def split: if_splits)

text \<open>The lax parser on a DER element.\<close>

lemma nonstrict_der:
  assumes "cbs_ok c" "cbs_bytes c = der_element t content @ rest" "t AND 0x1f \<noteq> 0x1f" "length content < 256 ^ 4"
  shows "cbs_nonstrict_get_any_asn1_element c =
    (Some (CBS_init (cbs_data c) (length (der_element t content)), ucast t, 1 + length (der_len (length content))),
     cbs_drop (length (der_element t content)) c)"
proof -
  have "asn1_elem_len (cbs_bytes c) True = Some (1 + length (der_len (length content)), length (der_element t content))"
    using assms by (simp add: der_element_def der_len_parse)
  then have "asn1_elem_len (cbs_bytes c) False = Some (1 + length (der_len (length content)), length (der_element t content))"
    by (rule asn1_elem_len_lax)
  moreover have "length (der_element t content) \<le> cbs_len c"
    using assms(2) length_cbs_bytes [OF assms(1)] by simp
  moreover have "cbs_data c ! 0 = t"
  proof -
    have "cbs_bytes c ! 0 = t" "0 < length (cbs_bytes c)" using assms(2) by (simp_all add: der_element_def)
    then show ?thesis by (simp add: cbs_bytes_def)
  qed
  ultimately show ?thesis
    using assms(1) by (simp add: cbs_nonstrict_get_any_asn1_element_def asn1_element_eq)
qed

lemma constructed_bit: "(ucast (t :: u8) :: u32) AND CBS_ASN1_CONSTRUCTED = 0 \<longleftrightarrow> t AND 0x20 = 0"
proof -
  have "(ucast t :: u32) AND CBS_ASN1_CONSTRUCTED = 0 \<longleftrightarrow> \<not> bit t 5"
    using and_exp_eq_0_iff_not_bit [of "ucast t :: u32" 5] by (simp add: CBS_ASN1_CONSTRUCTED_def bit_unsigned_iff)
  also have "\<dots> \<longleftrightarrow> t AND 0x20 = 0"
    using and_exp_eq_0_iff_not_bit [of t 5] by simp
  finally show ?thesis .
qed

text \<open>A definite header does not look like an indefinite one.\<close>

lemma der_not_indefinite:
  assumes "cbs_ok c" "cbs_bytes c = der_element t content @ rest"
  shows "\<not> (length (der_element t content) = 1 + length (der_len (length content))
     \<and> 0 < 1 + length (der_len (length content)) \<and> cbs_data c ! (1 + length (der_len (length content)) - 1) = 0x80)"
proof -
  { assume "content = []"
    then have "cbs_bytes c ! 1 = 0" "1 < length (cbs_bytes c)" using assms(2) by (simp_all add: der_element_def der_len_def)
    then have "cbs_data c ! 1 = 0" by (simp add: cbs_bytes_def) }
  then show ?thesis by (auto simp: der_element_def der_len_def)
qed

lemma find_loop_step:
  assumes "cbs_ok c" "cbs_bytes c = der_element t content @ rest" "t AND 0x1f \<noteq> 0x1f" "length content < 256 ^ 4"
  shows "cbs_find_indefinite_loop c found depth =
    (let c' = cbs_drop (length (der_element t content)) c
     in if t AND 0x20 = 0 then cbs_find_indefinite_loop c' found depth
        else case cbs_find_indefinite (cbs_drop (1 + length (der_len (length content)))
                    (CBS_init (cbs_data c) (length (der_element t content)))) found (depth + 1) of
            None \<Rightarrow> None | Some found \<Rightarrow> cbs_find_indefinite_loop c' found depth)"
proof -
  have "cbs_len c \<noteq> 0"
    using assms(2) length_cbs_bytes [OF assms(1)] by (auto simp: der_element_def)
  then show ?thesis
    using der_not_indefinite [OF assms(1,2)]
    by (simp add: cbs_find_indefinite_loop.simps [of c] nonstrict_der [OF assms] CBS_len_def CBS_data_def
        CBS_skip_eq constructed_bit Let_def del: cbs_find_indefinite.simps cbs_find_indefinite_loop.simps)
      (auto simp: der_element_def)
qed

declare cbs_find_indefinite.simps [simp del] cbs_find_indefinite_loop.simps [simp del]

lemma find_loop_empty: "cbs_len c = 0 \<Longrightarrow> cbs_find_indefinite_loop c found depth = Some False"
  by (simp add: cbs_find_indefinite_loop.simps [of c] CBS_len_def)

text \<open>DER elements are walked over without being reported.\<close>

lemma find_loop_der:
  assumes "cbs_ok c" "cbs_bytes c = concat (map enc ds) @ rest"
    "list_all (\<lambda>d. der_wf d (kMaxDepth - depth)) ds" "depth \<le> kMaxDepth"
  shows "\<exists>found'. cbs_find_indefinite_loop c found depth =
    cbs_find_indefinite_loop (cbs_drop (length (concat (map enc ds))) c) found' depth"
  using assms
proof (induction "length (concat (map enc ds))" arbitrary: ds c found depth rest rule: less_induct)
  case less
  show ?case
  proof (cases ds)
    case Nil
    then show ?thesis by auto
  next
    case (Cons d ds')
    let ?c' = "cbs_drop (length (enc d)) c"
    have pos: "0 < length (enc d)" by (cases d) (simp_all add: der_element_def)
    have rest: "\<exists>found'. cbs_find_indefinite_loop ?c' f depth =
        cbs_find_indefinite_loop (cbs_drop (length (concat (map enc ds))) c) found' depth" for f
      using less.hyps [of ds' ?c' rest depth f] less.prems Cons pos by auto
    show ?thesis
    proof (cases d)
      case (DPrim t bs)
      then show ?thesis
        using find_loop_step [of c t bs "concat (map enc ds') @ rest" found depth] less.prems Cons rest [of found]
        by (simp add: Let_def)
    next
      case (DCons t es)
      let ?h = "1 + length (der_len (length (concat (map enc es))))"
      let ?in = "cbs_drop ?h (CBS_init (cbs_data c) (length (enc d)))"
      have b: "cbs_bytes c = der_element t (concat (map enc es)) @ concat (map enc ds') @ rest"
        using less.prems(2) Cons DCons by simp
      have "cbs_bytes ?in = concat (map enc es)"
        using der_content_bytes [OF b] DCons by simp
      moreover have "cbs_ok (CBS_init (CBS_data ?in) (CBS_len ?in))"
        using less.prems(1) arg_cong [OF b, of length] DCons
        by (auto simp: CBS_data_def CBS_len_def cbs_ok_def)
      moreover have "cbs_bytes (CBS_init (CBS_data ?in) (CBS_len ?in)) = cbs_bytes ?in"
        by (simp add: CBS_data_def CBS_len_def cbs_bytes_def)
      moreover have "length (concat (map enc es)) < length (concat (map enc ds))"
        using Cons DCons by (simp add: der_element_def)
      moreover have lt: "depth < kMaxDepth" and "list_all (\<lambda>d. der_wf d (kMaxDepth - (depth + 1))) es"
        using less.prems(3) Cons DCons by auto
      ultimately obtain f where
        "cbs_find_indefinite_loop (CBS_init (CBS_data ?in) (CBS_len ?in)) found (depth + 1) =
         cbs_find_indefinite_loop (cbs_drop (length (concat (map enc es))) (CBS_init (CBS_data ?in) (CBS_len ?in))) f
           (depth + 1)"
        using less.hyps [of es "CBS_init (CBS_data ?in) (CBS_len ?in)" "[]" "depth + 1" found] by auto
      moreover have "CBS_len ?in = length (concat (map enc es))"
        using DCons by (simp add: CBS_len_def der_element_def)
      ultimately have "cbs_find_indefinite ?in found (depth + 1) = Some False"
        using lt by (simp add: cbs_find_indefinite.simps find_loop_empty)
      then show ?thesis
        using find_loop_step [OF less.prems(1) b] less.prems(3) Cons DCons rest [of False] by (simp add: Let_def)
    qed
  qed
qed

lemma find_der:
  assumes "cbs_ok c" "cbs_bytes c = concat (map enc ds) @ rest" "list_all (\<lambda>d. der_wf d kMaxDepth) ds"
  obtains f where "cbs_find_indefinite c found 0 =
    cbs_find_indefinite_loop (cbs_drop (length (concat (map enc ds))) (CBS_init (cbs_data c) (cbs_len c))) f 0"
proof -
  have "cbs_ok (CBS_init (cbs_data c) (cbs_len c))" "cbs_bytes (CBS_init (cbs_data c) (cbs_len c)) = cbs_bytes c"
    using assms(1) by (auto simp: cbs_ok_def cbs_bytes_def)
  with find_loop_der [of "CBS_init (cbs_data c) (cbs_len c)" ds rest 0 found] assms that show thesis
    by (auto simp: cbs_find_indefinite.simps [of c] CBS_data_def CBS_len_def)
qed

section \<open>Properties\<close>

text \<open>
  C14.  DER is left alone: on any sequence of well-formed DER elements, nested at
  most \<open>kMaxDepth\<close> levels deep, \<open>CBS_asn1_indefinite_to_definite\<close> reports success
  and that no conversion is needed, without touching the input or allocating.
\<close>

theorem indefinite_to_definite_keeps_der:
  assumes "cbs_ok c" "cbs_bytes c = concat (map enc ds)" "list_all (\<lambda>d. der_wf d kMaxDepth) ds"
  shows "CBS_asn1_indefinite_to_definite c m = Some (Some None, c, m)"
proof -
  obtain f where "cbs_find_indefinite c False 0 =
      cbs_find_indefinite_loop (cbs_drop (length (concat (map enc ds))) (CBS_init (cbs_data c) (cbs_len c))) f 0"
    using find_der [of c ds "[]" False] assms by auto
  moreover have "cbs_len c = length (concat (map enc ds))"
    using length_cbs_bytes [OF assms(1)] assms(2) by simp
  ultimately show ?thesis
    by (simp add: CBS_asn1_indefinite_to_definite_def find_loop_empty)
qed

theorem indefinite_to_definite_keeps_der_witness:
  "CBS_asn1_indefinite_to_definite (CBS_init [0x30, 3, 2, 1, 5] 5) empty_mem =
     Some (Some None, CBS_init [0x30, 3, 2, 1, 5] 5, empty_mem)"
  by (rule indefinite_to_definite_keeps_der [where ds = "[DCons 0x30 [DPrim 2 [5]]]"])
    (simp_all add: cbs_ok_def SIZE_MAX_def der_element_def der_len_def kMaxDepth_def)

text \<open>
  An element of indefinite length on the level of the walk is always detected,
  whatever DER elements precede it and whatever follows.
\<close>

lemma find_detects:
  assumes "cbs_ok c" "cbs_bytes c = concat (map enc ds) @ t # 0x80 # rest" "list_all (\<lambda>d. der_wf d (kMaxDepth - depth)) ds"
    "t AND 0x1f \<noteq> 0x1f" "t AND 0x20 \<noteq> 0" "depth \<le> kMaxDepth"
  shows "cbs_find_indefinite c found depth = Some True"
proof -
  define c0 where "c0 = CBS_init (cbs_data c) (cbs_len c)"
  define c' where "c' = cbs_drop (length (concat (map enc ds))) c0"
  have c0: "cbs_ok c0" "cbs_bytes c0 = cbs_bytes c" using assms(1) by (auto simp: c0_def cbs_ok_def cbs_bytes_def)
  obtain f where f: "cbs_find_indefinite_loop c0 found depth = cbs_find_indefinite_loop c' f depth"
    using find_loop_der [OF c0(1), of ds "t # 0x80 # rest" depth found] assms c0(2) by (auto simp: c'_def)
  have "cbs_bytes c' = drop (length (concat (map enc ds))) (cbs_bytes c)"
    by (simp add: c'_def c0_def cbs_bytes_def drop_take)
  then have b: "cbs_bytes c' = t # 0x80 # rest" using assms(2) by simp
  have ok: "cbs_ok c'" using assms(1) by (auto simp: c'_def c0_def cbs_ok_def)
  have len: "cbs_len c' = Suc (Suc (length rest))" using length_cbs_bytes [OF ok] b by simp
  have "cbs_bytes c' ! 1 = 0x80" using b by simp
  then have d: "cbs_data c' ! Suc 0 = 0x80" using len by (simp add: cbs_bytes_def)
  have "cbs_bytes c' ! 0 = t" using b by simp
  then have "cbs_data c' ! 0 = t" using len by (simp add: cbs_bytes_def)
  moreover have "asn1_elem_len (cbs_bytes c') False = Some (2, 2)"
    using assms(4,5) by (simp add: b asn1_elem_len_def constructed_bit)
  ultimately have "cbs_nonstrict_get_any_asn1_element c' = (Some (CBS_init (cbs_data c') 2, ucast t, 2), cbs_drop 2 c')"
    using ok len by (simp add: cbs_nonstrict_get_any_asn1_element_def asn1_element_eq)
  then have "cbs_find_indefinite_loop c' f depth = Some True"
    using len d by (simp add: cbs_find_indefinite_loop.simps [of c'] CBS_len_def CBS_data_def)
  then show ?thesis
    using f assms(6) by (simp add: cbs_find_indefinite.simps [of c] c0_def CBS_data_def CBS_len_def)
qed

text \<open>
  C15.  An element of indefinite length inside one of definite length is missed:
  the recursive call reports it, but the enclosing walk goes on and finally
  overwrites \<open>*indefinite_found\<close> with 0.  Take any input of DER elements, among them one constructed
  element \<open>t\<close> of definite length that contains, behind DER elements,
  a constructed element \<open>u\<close> of indefinite length: the entry point reports success and that
  no conversion is needed, although the walk over the contents of \<open>t\<close> reports
  the indefinite length.
\<close>

theorem nested_indefinite_missed:
  assumes "cbs_ok c" "cbs_bytes c = concat (map enc ds) @ der_element t content @ concat (map enc fs)"
    and "content = concat (map enc es) @ u # 0x80 # rest" "length content < 256 ^ 4"
    and "list_all (\<lambda>d. der_wf d kMaxDepth) ds" "list_all (\<lambda>d. der_wf d (kMaxDepth - 1)) es" "list_all (\<lambda>d. der_wf d kMaxDepth) fs"
    and "t AND 0x1f \<noteq> 0x1f" "t AND 0x20 \<noteq> 0" "u AND 0x1f \<noteq> 0x1f" "u AND 0x20 \<noteq> 0"
  shows "CBS_asn1_indefinite_to_definite c m = Some (Some None, c, m) \<and>
    cbs_find_indefinite (CBS_init content (length content)) False 1 = Some True"
proof -
  have depth: "1 \<le> kMaxDepth" "0 \<le> kMaxDepth" by (simp_all add: kMaxDepth_def)
  define c1 where "c1 = cbs_drop (length (concat (map enc ds))) (CBS_init (cbs_data c) (cbs_len c))"
  obtain f where f: "cbs_find_indefinite c False 0 = cbs_find_indefinite_loop c1 f 0"
    using find_der [OF assms(1,2,5), of False] by (auto simp: c1_def)
  have "cbs_bytes c1 = drop (length (concat (map enc ds))) (cbs_bytes c)" by (simp add: c1_def cbs_bytes_def drop_take)
  then have b1: "cbs_bytes c1 = der_element t content @ concat (map enc fs)" using assms(2) by simp
  have ok1: "cbs_ok c1" using assms(1) by (auto simp: c1_def cbs_ok_def)
  define inn where "inn = cbs_drop (1 + length (der_len (length content))) (CBS_init (cbs_data c1) (length (der_element t content)))"
  have "cbs_bytes inn = content" using der_content_bytes [OF b1] by (simp add: inn_def)
  moreover have "cbs_ok inn" using ok1 arg_cong [OF b1, of length] by (auto simp: inn_def cbs_ok_def)
  ultimately have rep: "cbs_find_indefinite inn f 1 = Some True"
    using find_detects [of inn es u rest 1 f] assms(3,6,10,11) depth by simp
  define c2 where "c2 = cbs_drop (length (der_element t content)) c1"
  have step: "cbs_find_indefinite_loop c1 f 0 = cbs_find_indefinite_loop c2 True 0"
    using find_loop_step [OF ok1 b1 assms(8,4), of f 0] rep assms(9) by (simp add: inn_def c2_def Let_def)
  have "cbs_bytes c2 = drop (length (der_element t content)) (cbs_bytes c1)" by (simp add: c2_def cbs_bytes_def drop_take)
  then have b2: "cbs_bytes c2 = concat (map enc fs) @ []" using b1 by simp
  have ok2: "cbs_ok c2" using ok1 by (auto simp: c2_def cbs_ok_def)
  obtain f' where "cbs_find_indefinite_loop c2 True 0 = cbs_find_indefinite_loop (cbs_drop (length (concat (map enc fs))) c2) f' 0"
    using find_loop_der [OF ok2 b2, of 0 True] assms(7) depth by auto
  moreover have "cbs_len c2 = length (concat (map enc fs))" using length_cbs_bytes [OF ok2] b2 by simp
  ultimately have "cbs_find_indefinite c False 0 = Some False" using f step by (simp add: find_loop_empty)
  moreover have "cbs_find_indefinite (CBS_init content (length content)) False 1 = Some True"
    using find_detects [of "CBS_init content (length content)" es u rest 1 False] assms(3,4,6,10,11) depth
    by (simp add: cbs_ok_def cbs_bytes_def SIZE_MAX_def)
  ultimately show ?thesis by (simp add: CBS_asn1_indefinite_to_definite_def)
qed

theorem nested_indefinite_missed_witness:
  "CBS_asn1_indefinite_to_definite (CBS_init [2, 1, 7, 0x30, 4, 0x30, 0x80, 0, 0, 2, 1, 5] 12) empty_mem =
     Some (Some None, CBS_init [2, 1, 7, 0x30, 4, 0x30, 0x80, 0, 0, 2, 1, 5] 12, empty_mem)"
  by (rule nested_indefinite_missed [where ds = "[DPrim 2 [7]]" and t = "0x30" and content = "[0x30, 0x80, 0, 0]"
        and es = "[]" and fs = "[DPrim 2 [5]]" and u = "0x30" and rest = "[0, 0]", THEN conjunct1])
    (simp_all add: cbs_ok_def SIZE_MAX_def der_element_def der_len_def)

end
