(* ===== verification/TLS_Buffer.thy ===== *)
theory TLS_Buffer
  imports CBB
begin

text \<open>
  src/lib/libssl/tls_buffer.c: the growing byte buffer between the TLS record
  layer and the handshake code.  Data is written at \<open>len\<close> and read at \<open>offset\<close>;
  a write may first move the unread data to the front.  The abstract view is a
  queue of bytes (\<open>tb_queue\<close>).

  A NULL \<open>data\<close> pointer goes with capacity 0 and is the empty list.  The operations
  that allocate take \<open>alloc\<close>, which tells which sizes \<open>recallocarray\<close> can deliver.
  Results of type \<open>ssize_t\<close> are integers.
\<close>

section \<open>The buffer\<close>

definition TLS_IO_EOF :: int where "TLS_IO_EOF = 0"
definition TLS_IO_FAILURE :: int where "TLS_IO_FAILURE = -1"
definition TLS_IO_WANT_POLLIN :: int where "TLS_IO_WANT_POLLIN = -3"

definition TLS_BUFFER_CAPACITY_LIMIT :: nat where "TLS_BUFFER_CAPACITY_LIMIT = 1024 * 1024"

record tls_buffer =
  tb_capacity :: nat
  tb_capacity_limit :: nat
  tb_data :: bytes
  tb_len :: nat
  tb_offset :: nat

definition tls_buffer_resize :: "(nat \<Rightarrow> bool) \<Rightarrow> tls_buffer \<Rightarrow> nat \<Rightarrow> bool \<times> tls_buffer" where
  "tls_buffer_resize alloc buf capacity =
     (if tb_capacity buf = capacity then (True, buf)
      else if capacity > tb_capacity_limit buf then (False, buf)
      else case recallocarray alloc (tb_data buf) (tb_capacity buf) capacity 1 of
          None \<Rightarrow> (False, buf)
        | Some data \<Rightarrow>
           (let buf = buf\<lparr>tb_data := data, tb_capacity := capacity\<rparr>;
                buf = (if tb_len buf > tb_capacity buf then buf\<lparr>tb_len := tb_capacity buf\<rparr> else buf);
                buf = (if tb_offset buf > tb_len buf then buf\<lparr>tb_offset := tb_len buf\<rparr> else buf)
            in (True, buf)))"

definition tls_buffer_grow :: "(nat \<Rightarrow> bool) \<Rightarrow> tls_buffer \<Rightarrow> nat \<Rightarrow> bool \<times> tls_buffer" where
  "tls_buffer_grow alloc buf capacity =
     (if tb_capacity buf \<ge> capacity then (True, buf) else tls_buffer_resize alloc buf capacity)"

definition sizeof_tls_buffer :: nat where "sizeof_tls_buffer = 40"

definition tls_buffer_clear :: "tls_buffer \<Rightarrow> tls_buffer" where
  "tls_buffer_clear buf = buf\<lparr>tb_data := [], tb_capacity := 0, tb_len := 0, tb_offset := 0\<rparr>"

definition tls_buffer_new :: "(nat \<Rightarrow> bool) \<Rightarrow> nat \<Rightarrow> tls_buffer option" where
  "tls_buffer_new alloc init_size =
     (if \<not> alloc sizeof_tls_buffer then None
      else case tls_buffer_resize alloc \<lparr>tb_capacity = 0, tb_capacity_limit = TLS_BUFFER_CAPACITY_LIMIT,
                  tb_data = [], tb_len = 0, tb_offset = 0\<rparr> init_size of
          (False, _) \<Rightarrow> None
        | (True, buf) \<Rightarrow> Some buf)"

definition tls_buffer_set_capacity_limit :: "tls_buffer \<Rightarrow> nat \<Rightarrow> tls_buffer" where
  "tls_buffer_set_capacity_limit buf limit = buf\<lparr>tb_capacity_limit := limit\<rparr>"

definition tls_buffer_remaining :: "tls_buffer \<Rightarrow> nat" where
  "tls_buffer_remaining buf = (if tb_offset buf > tb_len buf then 0 else tb_len buf - tb_offset buf)"

definition tls_buffer_read :: "tls_buffer \<Rightarrow> nat \<Rightarrow> int \<times> bytes \<times> tls_buffer" where
  "tls_buffer_read buf n =
     (if tb_offset buf > tb_len buf then (TLS_IO_FAILURE, [], buf)
      else if tb_offset buf = tb_len buf then (TLS_IO_WANT_POLLIN, [], buf)
      else let n = (if n > tb_len buf - tb_offset buf then tb_len buf - tb_offset buf else n)
           in (int n, take n (drop (tb_offset buf) (tb_data buf)), buf\<lparr>tb_offset := tb_offset buf + n\<rparr>))"

text \<open>The part of \<open>tls_buffer_write\<close> that pulls unread data up to the front.\<close>

definition tls_buffer_pull_up :: "tls_buffer \<Rightarrow> tls_buffer" where
  "tls_buffer_pull_up buf =
     (let buf = (if tb_offset buf = tb_len buf then buf\<lparr>tb_len := 0, tb_offset := 0\<rparr> else buf)
      in if tb_offset buf \<ge> 4096
         then buf\<lparr>tb_data := write_at (tb_data buf) 0
                    (take (tb_len buf - tb_offset buf) (drop (tb_offset buf) (tb_data buf))),
                  tb_len := tb_len buf - tb_offset buf, tb_offset := 0\<rparr>
         else buf)"

definition tls_buffer_write :: "(nat \<Rightarrow> bool) \<Rightarrow> tls_buffer \<Rightarrow> bytes \<Rightarrow> nat \<Rightarrow> int \<times> tls_buffer" where
  "tls_buffer_write alloc buf wbuf n =
     (if tb_offset buf > tb_len buf then (TLS_IO_FAILURE, buf)
      else let buf = tls_buffer_pull_up buf
           in if tb_len buf > SIZE_MAX - n then (TLS_IO_FAILURE, buf)
              else case tls_buffer_grow alloc buf (tb_len buf + n) of
                  (False, buf) \<Rightarrow> (TLS_IO_FAILURE, buf)
                | (True, buf) \<Rightarrow>
                   (int n, buf\<lparr>tb_data := write_at (tb_data buf) (tb_len buf) (take n wbuf),
                               tb_len := tb_len buf + n\<rparr>))"

text \<open>The comparison of the result with \<open>n\<close> is one of unsigned numbers.\<close>

definition tls_buffer_append :: "(nat \<Rightarrow> bool) \<Rightarrow> tls_buffer \<Rightarrow> bytes \<Rightarrow> nat \<Rightarrow> bool \<times> tls_buffer" where
  "tls_buffer_append alloc buf wbuf n =
     (case tls_buffer_write alloc buf wbuf n of (ret, buf) \<Rightarrow> (ret mod 2 ^ 64 = int n, buf))"

definition tls_buffer_data :: "tls_buffer \<Rightarrow> CBS option" where
  "tls_buffer_data buf =
     (case CBS_skip (CBS_init (tb_data buf) (tb_len buf)) (tb_offset buf) of
        (None, _) \<Rightarrow> None
      | (Some _, cbs) \<Rightarrow> Some (CBS_dup cbs))"

text \<open>\<open>outs\<close> tells whether both output pointers are given.\<close>

definition tls_buffer_finish :: "tls_buffer \<Rightarrow> bool \<Rightarrow> (bytes \<times> nat) option \<times> tls_buffer" where
  "tls_buffer_finish buf outs =
     (if \<not> outs then (None, buf)
      else (Some (tb_data buf, tb_len buf), tls_buffer_clear buf))"

text \<open>
  Reading from a callback.  \<open>read_cb\<close> is called with its state and the space that
  is left; it delivers its return value, the bytes it stored, and its next state.
  The loop is only entered with \<open>len \<le> capacity\<close>.
\<close>

type_synonym 's tls_read_cb = "'s \<Rightarrow> nat \<Rightarrow> int \<times> bytes \<times> 's"

function tls_buffer_extend_loop :: "tls_buffer \<Rightarrow> 's tls_read_cb \<Rightarrow> 's \<Rightarrow> int \<times> tls_buffer \<times> 's" where
  "tls_buffer_extend_loop buf read_cb s =
     (let n = tb_capacity buf - tb_len buf;
          (ret, bs, s) = read_cb s n;
          buf = buf\<lparr>tb_data := write_at (tb_data buf) (tb_len buf) (take n bs)\<rparr>
      in if ret \<le> 0 then (ret, buf, s)
         else if ret > int n then (TLS_IO_FAILURE, buf, s)
         else let buf = buf\<lparr>tb_len := tb_len buf + nat ret\<rparr>
              in if tb_len buf = tb_capacity buf then (int (tb_len buf), buf, s)
                 else tls_buffer_extend_loop buf read_cb s)"
  by pat_completeness auto

termination
  by (relation "measure (\<lambda>(buf, _). tb_capacity buf - tb_len buf)") auto

declare tls_buffer_extend_loop.simps [simp del]

definition tls_buffer_extend ::
  "(nat \<Rightarrow> bool) \<Rightarrow> tls_buffer \<Rightarrow> nat \<Rightarrow> 's tls_read_cb \<Rightarrow> 's \<Rightarrow> int \<times> tls_buffer \<times> 's" where
  "tls_buffer_extend alloc buf len read_cb s =
     (if len = tb_len buf then (int (tb_len buf), buf, s)
      else if len < tb_len buf then (TLS_IO_FAILURE, buf, s)
      else case tls_buffer_resize alloc buf len of
          (False, buf) \<Rightarrow> (TLS_IO_FAILURE, buf, s)
        | (True, buf) \<Rightarrow> tls_buffer_extend_loop buf read_cb s)"

section \<open>Invariant and abstract queue\<close>

definition tb_ok :: "tls_buffer \<Rightarrow> bool" where
  "tb_ok buf \<longleftrightarrow> length (tb_data buf) = tb_capacity buf \<and> tb_len buf \<le> tb_capacity buf
     \<and> tb_offset buf \<le> tb_len buf \<and> tb_capacity buf \<le> SIZE_MAX"

definition tb_queue :: "tls_buffer \<Rightarrow> bytes" where
  "tb_queue buf = drop (tb_offset buf) (take (tb_len buf) (tb_data buf))"

lemma length_tb_queue: "tb_ok buf \<Longrightarrow> length (tb_queue buf) = tls_buffer_remaining buf"
  by (auto simp: tb_ok_def tb_queue_def tls_buffer_remaining_def)

lemma resize_ok:
  assumes "tb_ok buf"
  shows "tb_ok (snd (tls_buffer_resize alloc buf c))"
    and "\<lbrakk>fst (tls_buffer_resize alloc buf c); tb_len buf \<le> c\<rbrakk> \<Longrightarrow>
      tb_capacity (snd (tls_buffer_resize alloc buf c)) = c"
    and "tb_len buf \<le> c \<Longrightarrow> tb_len (snd (tls_buffer_resize alloc buf c)) = tb_len buf
      \<and> tb_offset (snd (tls_buffer_resize alloc buf c)) = tb_offset buf
      \<and> take (tb_len buf) (tb_data (snd (tls_buffer_resize alloc buf c))) = take (tb_len buf) (tb_data buf)"
  using assms by (auto simp: tls_buffer_resize_def tb_ok_def Let_def min_def split: if_splits option.splits
      dest: recallocarray_Some)

lemma resize_success: "tb_ok buf \<Longrightarrow> c \<le> tb_capacity_limit buf \<Longrightarrow> alloc c \<Longrightarrow> c \<le> SIZE_MAX \<Longrightarrow>
    fst (tls_buffer_resize alloc buf c)"
  by (auto simp: tls_buffer_resize_def recallocarray_1 tb_ok_def Let_def)

lemma resize_limit [simp]: "tb_capacity_limit (snd (tls_buffer_resize alloc buf c)) = tb_capacity_limit buf"
  by (auto simp: tls_buffer_resize_def Let_def split: option.splits)

lemma pull_up_ok:
  assumes "tb_ok buf"
  shows "tb_ok (tls_buffer_pull_up buf)" "tb_queue (tls_buffer_pull_up buf) = tb_queue buf"
    "tb_capacity (tls_buffer_pull_up buf) = tb_capacity buf"
    "tb_capacity_limit (tls_buffer_pull_up buf) = tb_capacity_limit buf"
    "tb_len (tls_buffer_pull_up buf) \<le> tls_buffer_remaining buf + 4096"
  using assms
  by (auto simp: tls_buffer_pull_up_def tb_ok_def tb_queue_def write_at_def tls_buffer_remaining_def Let_def drop_take)

lemma write_spec:
  assumes ok: "tb_ok buf" and w: "tls_buffer_write alloc buf bs (length bs) = (ret, buf')"
  shows "tb_ok buf' \<and> (ret = int (length bs) \<and> tb_queue buf' = tb_queue buf @ bs
    \<or> ret = TLS_IO_FAILURE \<and> tb_queue buf' = tb_queue buf)"
proof -
  define b where "b = tls_buffer_pull_up buf"
  note pu = pull_up_ok [OF ok, folded b_def]
  have off: "\<not> tb_offset buf > tb_len buf" using ok by (simp add: tb_ok_def)
  have unfold: "tls_buffer_write alloc buf bs (length bs) =
     (if tb_len b > SIZE_MAX - length bs then (TLS_IO_FAILURE, b)
      else case tls_buffer_grow alloc b (tb_len b + length bs) of
          (False, b) \<Rightarrow> (TLS_IO_FAILURE, b)
        | (True, b) \<Rightarrow> (int (length bs), b\<lparr>tb_data := write_at (tb_data b) (tb_len b) bs, tb_len := tb_len b + length bs\<rparr>))"
    using off by (auto simp: tls_buffer_write_def b_def Let_def split: prod.splits bool.splits)
  obtain r c where g: "tls_buffer_grow alloc b (tb_len b + length bs) = (r, c)" by fastforce
  have c: "tb_ok c \<and> tb_len c = tb_len b \<and> tb_offset c = tb_offset b \<and> take (tb_len b) (tb_data c) = take (tb_len b) (tb_data b)
     \<and> (r \<longrightarrow> tb_len b + length bs \<le> tb_capacity c)"
    using g pu(1) resize_ok [OF pu(1), where alloc = alloc and c = "tb_len b + length bs"]
    by (auto simp: tls_buffer_grow_def split: if_splits)
  have q: "tb_queue c = tb_queue b" using c by (simp add: tb_queue_def)
  have "r \<Longrightarrow> tb_ok (c\<lparr>tb_data := write_at (tb_data c) (tb_len c) bs, tb_len := tb_len c + length bs\<rparr>)
      \<and> tb_queue (c\<lparr>tb_data := write_at (tb_data c) (tb_len c) bs, tb_len := tb_len c + length bs\<rparr>) = tb_queue c @ bs"
    using c pu(1) by (auto simp: tb_ok_def tb_queue_def take_write_at_end)
  then show ?thesis
    using w unfold g c q pu by (auto split: if_splits bool.splits)
qed

text \<open>A write succeeds whenever the unread data, up to 4096 bytes of slack and the new data fit the limit.\<close>

lemma write_succeeds:
  assumes "tb_ok buf" "tls_buffer_remaining buf + 4096 + length bs \<le> tb_capacity_limit buf"
    "tb_capacity_limit buf \<le> SIZE_MAX" "\<forall>k\<le>tb_capacity_limit buf. alloc k"
  shows "fst (tls_buffer_write alloc buf bs (length bs)) = int (length bs)"
proof -
  note pu = pull_up_ok [OF assms(1)]
  have off: "\<not> tb_offset buf > tb_len buf" using assms(1) by (simp add: tb_ok_def)
  have "fst (tls_buffer_grow alloc (tls_buffer_pull_up buf) (tb_len (tls_buffer_pull_up buf) + length bs))"
    using assms pu by (auto simp: tls_buffer_grow_def resize_success)
  then show ?thesis
    using off pu assms(2,3) by (auto simp: tls_buffer_write_def Let_def split: prod.splits bool.splits)
qed

lemma read_spec:
  assumes ok: "tb_ok buf" and r: "tls_buffer_read buf n = (ret, bs, buf')"
  shows "tb_ok buf' \<and> tb_queue buf = bs @ tb_queue buf' \<and> length bs = min n (length (tb_queue buf))
    \<and> tb_capacity_limit buf' = tb_capacity_limit buf
    \<and> ret = (if tb_queue buf = [] then TLS_IO_WANT_POLLIN else int (length bs))"
proof -
  have q: "length (tb_queue buf) = tb_len buf - tb_offset buf" "tb_offset buf \<le> tb_len buf"
    using ok length_tb_queue [OF ok] by (simp_all add: tls_buffer_remaining_def tb_ok_def)
  have t: "tb_queue buf = take k (drop (tb_offset buf) (tb_data buf)) @ tb_queue (buf\<lparr>tb_offset := tb_offset buf + k\<rparr>)"
    if "k \<le> tb_len buf - tb_offset buf" for k
    using that append_take_drop_id [of k "tb_queue buf"] by (simp add: tb_queue_def drop_take add.commute)
  show ?thesis
  proof (cases "tb_offset buf = tb_len buf")
    case True
    then show ?thesis using r ok q by (auto simp: tls_buffer_read_def)
  next
    case False
    define k where "k = min n (tb_len buf - tb_offset buf)"
    have "tls_buffer_read buf n = (int k, take k (drop (tb_offset buf) (tb_data buf)), buf\<lparr>tb_offset := tb_offset buf + k\<rparr>)"
      using False q by (simp add: tls_buffer_read_def k_def min_def Let_def)
    moreover have "k \<le> tb_len buf - tb_offset buf" by (simp add: k_def)
    ultimately show ?thesis
      using r ok q False t [of k] by (auto simp: tb_ok_def k_def tb_queue_def)
  qed
qed

section \<open>A queue of bytes\<close>

text \<open>
  The contract of a byte queue: a write appends everything or nothing, a read
  takes the oldest bytes.  Under it, any interleaving of writes and reads delivers
  the bytes in the order they were accepted.  \<open>Inl\<close> is a write, \<open>Inr\<close> a read; a
  run returns the accepted and the delivered bytes.
\<close>

fun fifo_run :: "('q \<Rightarrow> bytes \<Rightarrow> bool \<times> 'q) \<Rightarrow> ('q \<Rightarrow> nat \<Rightarrow> bytes \<times> 'q) \<Rightarrow> 'q \<Rightarrow> (bytes + nat) list
    \<Rightarrow> bytes \<times> bytes \<times> 'q" where
  "fifo_run wr rd q [] = ([], [], q)"
| "fifo_run wr rd q (Inl bs # ops) =
     (let (ok, q) = wr q bs; (w, r, q) = fifo_run wr rd q ops in ((if ok then bs else []) @ w, r, q))"
| "fifo_run wr rd q (Inr n # ops) =
     (let (bs, q) = rd q n; (w, r, q) = fifo_run wr rd q ops in (w, bs @ r, q))"

locale byte_fifo =
  fixes ok :: "'q \<Rightarrow> bool" and queue :: "'q \<Rightarrow> bytes"
    and wr :: "'q \<Rightarrow> bytes \<Rightarrow> bool \<times> 'q" and rd :: "'q \<Rightarrow> nat \<Rightarrow> bytes \<times> 'q"
  assumes wr: "ok q \<Longrightarrow> wr q bs = (r, q') \<Longrightarrow> ok q' \<and> queue q' = queue q @ (if r then bs else [])"
    and rd: "ok q \<Longrightarrow> rd q n = (bs, q') \<Longrightarrow> ok q' \<and> queue q = bs @ queue q' \<and> length bs = min n (length (queue q))"
begin

lemma in_order:
  "ok q \<Longrightarrow> fifo_run wr rd q ops = (w, r, q') \<Longrightarrow> ok q' \<and> queue q @ w = r @ queue q'"
proof (induction ops arbitrary: q w r q')
  case (Cons p ops)
  show ?case
  proof (cases p)
    case (Inl bs)
    obtain a q1 where 1: "wr q bs = (a, q1)" by fastforce
    obtain w1 r1 q2 where 2: "fifo_run wr rd q1 ops = (w1, r1, q2)" by (metis prod_cases3)
    have "w = (if a then bs else []) @ w1 \<and> r = r1 \<and> q' = q2" using Cons.prems(2) Inl 1 2 by auto
    with Cons.IH [OF _ 2] wr [OF Cons.prems(1) 1] show ?thesis by auto
  next
    case (Inr n)
    obtain bs q1 where 1: "rd q n = (bs, q1)" by fastforce
    obtain w1 r1 q2 where 2: "fifo_run wr rd q1 ops = (w1, r1, q2)" by (metis prod_cases3)
    have "w = w1 \<and> r = bs @ r1 \<and> q' = q2" using Cons.prems(2) Inr 1 2 by auto
    with Cons.IH [OF _ 2] rd [OF Cons.prems(1) 1] show ?thesis by auto
  qed
qed simp

lemma drained:
  assumes "ok q" "rd q (length (queue q)) = (bs, q')"
  shows "bs = queue q \<and> queue q' = []"
proof -
  have 1: "queue q = bs @ queue q'" using rd [OF assms] by blast
  have "length bs = length (queue q)" using rd [OF assms] by (metis min.idem)
  with 1 have "length (queue q') = 0" by (metis add_cancel_right_right length_append)
  with 1 show ?thesis by simp
qed

end

definition tb_write :: "(nat \<Rightarrow> bool) \<Rightarrow> tls_buffer \<Rightarrow> bytes \<Rightarrow> bool \<times> tls_buffer" where
  "tb_write alloc buf bs = (let (ret, buf) = tls_buffer_write alloc buf bs (length bs) in (0 \<le> ret, buf))"

definition tb_read :: "tls_buffer \<Rightarrow> nat \<Rightarrow> bytes \<times> tls_buffer" where
  "tb_read buf n = (let (ret, bs, buf) = tls_buffer_read buf n in (bs, buf))"

interpretation tb: byte_fifo tb_ok tb_queue "tb_write alloc" tb_read for alloc
proof
  fix q bs r q'
  assume ok: "tb_ok q" and "tb_write alloc q bs = (r, q')"
  then obtain ret where "tls_buffer_write alloc q bs (length bs) = (ret, q')" "r \<longleftrightarrow> 0 \<le> ret"
    by (auto simp: tb_write_def split: prod.splits)
  then show "tb_ok q' \<and> tb_queue q' = tb_queue q @ (if r then bs else [])"
    using write_spec [OF ok, of alloc bs ret q'] by (auto simp: TLS_IO_FAILURE_def)
next
  fix q n bs q'
  assume ok: "tb_ok q" and "tb_read q n = (bs, q')"
  then obtain ret where "tls_buffer_read q n = (ret, bs, q')"
    by (auto simp: tb_read_def split: prod.splits)
  then show "tb_ok q' \<and> tb_queue q = bs @ tb_queue q' \<and> length bs = min n (length (tb_queue q))"
    using read_spec [OF ok] by blast
qed

section \<open>Filling the buffer from a source\<close>

text \<open>
  The contract of a read callback: as long as its state is \<open>ok\<close>, it delivers the
  next bytes of a stream, at most as many as it was asked for, and its return
  value says how many; when it has none to give it returns a value that is not
  positive and the stream stays.
\<close>

locale byte_source =
  fixes ok :: "'s \<Rightarrow> bool" and stream :: "'s \<Rightarrow> bytes" and cb :: "'s tls_read_cb"
  assumes delivers: "ok s \<Longrightarrow> cb s n = (ret, bs, s') \<Longrightarrow>
    ok s' \<and> stream s = bs @ stream s' \<and> length bs \<le> n \<and> (if 0 < ret then ret = int (length bs) else bs = [])"
begin

lemma extend_loop_spec:
  assumes "tb_ok buf" "tb_len buf < tb_capacity buf" "ok s"
    "tls_buffer_extend_loop buf cb s = (ret, buf', s')"
  shows "tb_ok buf' \<and> ok s' \<and> tb_offset buf' = tb_offset buf \<and> tb_capacity buf' = tb_capacity buf
    \<and> (\<exists>bs. stream s = bs @ stream s' \<and> take (tb_len buf') (tb_data buf') = take (tb_len buf) (tb_data buf) @ bs
          \<and> tb_len buf' = tb_len buf + length bs)
    \<and> (if 0 < ret then ret = int (tb_capacity buf) \<and> tb_len buf' = tb_capacity buf
       else tb_len buf' < tb_capacity buf)"
  using assms
proof (induction "tb_capacity buf - tb_len buf" arbitrary: buf s rule: less_induct)
  case less
  obtain r bs s1 where cb: "cb s (tb_capacity buf - tb_len buf) = (r, bs, s1)" by (metis prod_cases3)
  note d = delivers [OF less.prems(3) cb]
  have tk: "take (tb_capacity buf - tb_len buf) bs = bs" using d by simp
  define b2 where "b2 = buf\<lparr>tb_data := write_at (tb_data buf) (tb_len buf) bs, tb_len := tb_len buf + length bs\<rparr>"
  show ?case
  proof (cases "0 < r")
    case False
    then have "buf' = buf" "s' = s1" "ret = r" "bs = []"
      using less.prems(4) cb d tk by (simp_all add: tls_buffer_extend_loop.simps [of buf])
    then show ?thesis using less.prems d False by simp
  next
    case True
    then have r: "r = int (length bs)" "bs \<noteq> []" using d by auto
    have ok2: "tb_ok b2" "tb_offset b2 = tb_offset buf" "tb_capacity b2 = tb_capacity buf"
      "take (tb_len b2) (tb_data b2) = take (tb_len buf) (tb_data buf) @ bs" "tb_len b2 = tb_len buf + length bs"
      using less.prems(1,2) d by (auto simp: b2_def tb_ok_def take_write_at_end)
    have loop: "tls_buffer_extend_loop buf cb s =
        (if tb_len b2 = tb_capacity b2 then (int (tb_len b2), b2, s1) else tls_buffer_extend_loop b2 cb s1)"
    proof -
      have "length bs \<le> tb_capacity buf - tb_len buf" using d by blast
      then show ?thesis
        using r(2) cb [unfolded r(1)] unfolding tls_buffer_extend_loop.simps [of buf]
        by (simp add: tk b2_def Let_def)
    qed
    show ?thesis
    proof (cases "tb_len b2 = tb_capacity b2")
      case True
      then show ?thesis using less.prems loop ok2 d by auto
    next
      case False
      then have lt: "tb_len b2 < tb_capacity b2" using ok2(1) by (simp add: tb_ok_def)
      have "tb_capacity b2 - tb_len b2 < tb_capacity buf - tb_len buf"
        using length_greater_0_conv [THEN iffD2, OF r(2)] ok2(3,5) less.prems(2) by linarith
      from less.hyps [OF this ok2(1) lt] obtain cs where
        "tb_ok buf' \<and> ok s' \<and> tb_offset buf' = tb_offset b2 \<and> tb_capacity buf' = tb_capacity b2"
        "stream s1 = cs @ stream s' \<and> take (tb_len buf') (tb_data buf') = take (tb_len b2) (tb_data b2) @ cs
          \<and> tb_len buf' = tb_len b2 + length cs"
        "if 0 < ret then ret = int (tb_capacity b2) \<and> tb_len buf' = tb_capacity b2 else tb_len buf' < tb_capacity b2"
        using d less.prems(4) loop False by auto
      with ok2 d show ?thesis by (auto intro!: exI [of _ "bs @ cs"])
    qed
  qed
qed

text \<open>
  \<open>tls_buffer_extend\<close> to \<open>len\<close> bytes: what it takes from the stream it appends, and it
  returns a positive value only when \<open>len\<close> bytes are there.
\<close>

lemma extend_spec:
  assumes "tb_ok buf" "ok s" "tls_buffer_extend alloc buf len cb s = (ret, buf', s')"
  shows "tb_ok buf' \<and> ok s' \<and> tb_offset buf' = tb_offset buf
    \<and> (\<exists>bs. stream s = bs @ stream s' \<and> take (tb_len buf') (tb_data buf') = take (tb_len buf) (tb_data buf) @ bs
          \<and> tb_len buf' = tb_len buf + length bs \<and> (bs = [] \<or> tb_len buf' \<le> len))
    \<and> (0 < ret \<longrightarrow> ret = int len \<and> tb_len buf' = len)"
proof (cases "len \<le> tb_len buf")
  case True
  then show ?thesis using assms by (auto simp: tls_buffer_extend_def TLS_IO_FAILURE_def split: if_splits)
next
  case False
  obtain r b where rs: "tls_buffer_resize alloc buf len = (r, b)" by fastforce
  have b: "tb_ok b" "tb_len b = tb_len buf" "tb_offset b = tb_offset buf"
    "take (tb_len buf) (tb_data b) = take (tb_len buf) (tb_data buf)" "r \<Longrightarrow> tb_capacity b = len"
    using resize_ok [OF assms(1), where alloc = alloc and c = len] rs False by auto
  show ?thesis
  proof (cases r)
    case True
    then have "tls_buffer_extend_loop b cb s = (ret, buf', s')" "tb_len b < tb_capacity b"
      using assms(3) rs False b by (auto simp: tls_buffer_extend_def)
    from extend_loop_spec [OF b(1) this(2) assms(2) this(1)] b True show ?thesis
      by (auto simp: tb_ok_def split: if_splits)
  next
    case False
    then show ?thesis
      using assms rs b \<open>\<not> len \<le> tb_len buf\<close> by (auto simp: tls_buffer_extend_def TLS_IO_FAILURE_def)
  qed
qed

end

text \<open>A source that always delivers something as long as its stream is not exhausted.\<close>

locale byte_source_live = byte_source +
  assumes live: "ok s \<Longrightarrow> 0 < n \<Longrightarrow> stream s \<noteq> [] \<Longrightarrow> 0 < fst (cb s n)"
begin

lemma extend_loop_exhausts:
  assumes "tb_ok buf" "tb_len buf < tb_capacity buf" "ok s"
    "tls_buffer_extend_loop buf cb s = (ret, buf', s')" "ret \<le> 0"
  shows "stream s' = []"
  using assms
proof (induction "tb_capacity buf - tb_len buf" arbitrary: buf s rule: less_induct)
  case less
  obtain r bs s1 where c: "cb s (tb_capacity buf - tb_len buf) = (r, bs, s1)" by (metis prod_cases3)
  note d = delivers [OF less.prems(3) c]
  show ?case
  proof (cases "0 < r")
    case False
    then have "stream s = []" using live [OF less.prems(3), of "tb_capacity buf - tb_len buf"] c less.prems(2) by auto
    moreover have "s' = s1" using less.prems(4) c d False by (simp add: tls_buffer_extend_loop.simps [of buf])
    ultimately show ?thesis using d by simp
  next
    case True
    then have r: "r = int (length bs)" "bs \<noteq> []" and l: "length bs \<le> tb_capacity buf - tb_len buf" using d by auto
    define b2 where "b2 = buf\<lparr>tb_data := write_at (tb_data buf) (tb_len buf) bs, tb_len := tb_len buf + length bs\<rparr>"
    have loop: "tls_buffer_extend_loop buf cb s =
        (if tb_len b2 = tb_capacity b2 then (int (tb_len b2), b2, s1) else tls_buffer_extend_loop b2 cb s1)"
      using r(2) l c [unfolded r(1)] unfolding tls_buffer_extend_loop.simps [of buf]
      by (simp add: b2_def Let_def)
    have ok2: "tb_ok b2" "tb_capacity b2 = tb_capacity buf" "tb_len b2 = tb_len buf + length bs"
      using less.prems(1,2) l by (auto simp: b2_def tb_ok_def)
    have ne: "tb_len b2 \<noteq> tb_capacity b2" using loop less.prems(2,4,5) ok2 by auto
    show ?thesis
    proof (rule less.hyps [of b2 s1])
      show "tb_capacity b2 - tb_len b2 < tb_capacity buf - tb_len buf"
        using length_greater_0_conv [THEN iffD2, OF r(2)] ok2 less.prems(2) by linarith
    qed (use ok2 ne d loop less.prems(4,5) in \<open>auto simp: tb_ok_def\<close>)
  qed
qed

lemma extend_live:
  assumes "tb_ok buf" "ok s" "0 < len" "tb_len buf \<le> len" "len \<le> tb_len buf + length (stream s)"
    "len \<le> tb_capacity_limit buf" "alloc len" "len \<le> SIZE_MAX"
  shows "0 < fst (tls_buffer_extend alloc buf len cb s)"
proof (cases "len = tb_len buf")
  case True
  then show ?thesis using assms(3) by (simp add: tls_buffer_extend_def)
next
  case False
  obtain r b where rs: "tls_buffer_resize alloc buf len = (r, b)" by fastforce
  have b: "tb_ok b" "tb_len b = tb_len buf" "r" "tb_capacity b = len"
    using resize_ok [OF assms(1), where alloc = alloc and c = len] resize_success [of buf len alloc] assms(1,6,7,8) rs assms(4) by auto
  obtain ret buf' s' where e: "tls_buffer_extend_loop b cb s = (ret, buf', s')" by (metis prod_cases3)
  have lt: "tb_len b < tb_capacity b" using False assms(4) b by simp
  note spec = extend_loop_spec [OF b(1) lt assms(2) e]
  have "0 < ret"
  proof (rule ccontr)
    assume n: "\<not> 0 < ret"
    then have "stream s' = []" using extend_loop_exhausts [OF b(1) lt assms(2) e] by simp
    with spec have "tb_len buf' = tb_len b + length (stream s)" by auto
    moreover have "tb_len buf' < tb_capacity b" using spec n by presburger
    ultimately show False using assms(5) b by simp
  qed
  then show ?thesis using False assms(4) rs b(3) e by (simp add: tls_buffer_extend_def)
qed

end

lemma extend_loop_limit: "tb_capacity_limit (fst (snd (tls_buffer_extend_loop buf cb s))) = tb_capacity_limit buf"
proof (induction buf cb s rule: tls_buffer_extend_loop.induct)
  case (1 buf cb s)
  then show ?case
    by (subst tls_buffer_extend_loop.simps) (auto simp: Let_def split: prod.splits)
qed

lemma extend_limit: "tb_capacity_limit (fst (snd (tls_buffer_extend alloc buf len cb s))) = tb_capacity_limit buf"
proof -
  obtain r b where "tls_buffer_resize alloc buf len = (r, b)" by fastforce
  then show ?thesis
    using resize_limit [of alloc buf len] by (cases r) (auto simp: tls_buffer_extend_def extend_loop_limit)
qed

text \<open>One buffer can be filled from another: reading from a buffer is such a source.\<close>

interpretation tb_src: byte_source_live tb_ok tb_queue tls_buffer_read
proof
  fix s n ret bs s'
  assume "tb_ok s" "tls_buffer_read s n = (ret, bs, s')"
  note r = read_spec [OF this]
  have l: "length bs = min n (length (tb_queue s))" using r by blast
  then have "length bs \<le> n" by simp
  moreover have "if 0 < ret then ret = int (length bs) else bs = []"
  proof (cases "tb_queue s = []")
    case True
    then have "ret = -3" "bs = []" using r l by (simp_all add: TLS_IO_WANT_POLLIN_def)
    then show ?thesis by simp
  next
    case False
    then have "ret = int (length bs)" using r by metis
    then show ?thesis by simp
  qed
  ultimately show "tb_ok s' \<and> tb_queue s = bs @ tb_queue s' \<and> length bs \<le> n
      \<and> (if 0 < ret then ret = int (length bs) else bs = [])"
    using r by blast
next
  fix s and n :: nat
  assume a: "tb_ok s" "0 < n" "tb_queue s \<noteq> []"
  obtain ret bs s' where e: "tls_buffer_read s n = (ret, bs, s')" by (metis prod_cases3)
  have "ret = int (length bs)" "length bs = min n (length (tb_queue s))"
    using read_spec [OF a(1) e] a(3) by (meson, blast)
  then show "0 < fst (tls_buffer_read s n)" using e a by simp
qed

section \<open>Properties\<close>

text \<open>
  C16.  The TLS buffer is a FIFO queue: from a well-formed buffer, any interleaving
  of writes and reads, with compaction, growth, allocation failures and writes
  refused at the capacity limit, keeps the buffer well-formed, and the bytes read
  followed by those still in the buffer are the initial ones followed by those
  accepted, in order.
\<close>

theorem tls_buffer_is_fifo:
  assumes "tb_ok buf" "fifo_run (tb_write alloc) tb_read buf ops = (written, read, buf')"
  shows "tb_ok buf' \<and> tb_queue buf @ written = read @ tb_queue buf'"
  using assms by (rule tb.in_order)

theorem tls_buffer_is_fifo_witness:
  "let (w, r, b) = fifo_run (tb_write (\<lambda>_. True)) tb_read
         \<lparr>tb_capacity = 0, tb_capacity_limit = 4, tb_data = [], tb_len = 0, tb_offset = 0\<rparr>
         [Inl [1, 2, 3], Inr 2, Inl [4, 5], Inl [6], Inr 1]
   in w @ r = [1, 2, 3, 6, 1, 2, 3] \<and> tb_queue b = [6]"
proof -
  let ?b = "\<lparr>tb_capacity = 0, tb_capacity_limit = 4, tb_data = [], tb_len = 0, tb_offset = 0\<rparr>"
  let ?ops = "[Inl [1, 2, 3], Inr 2, Inl [4, 5], Inl [6], Inr 1] :: (bytes + nat) list"
  obtain w r b where e: "fifo_run (tb_write (\<lambda>_. True)) tb_read ?b ?ops = (w, r, b)" by (metis prod_cases3)
  have "tb_ok ?b" by (simp add: tb_ok_def SIZE_MAX_def)
  from tls_buffer_is_fifo [OF this e] have "w = r @ tb_queue b" by (simp add: tb_queue_def)
  moreover have "w = [1, 2, 3, 6] \<and> r = [1, 2, 3]"
    using e by (simp add: tb_write_def tb_read_def tls_buffer_write_def tls_buffer_read_def tls_buffer_pull_up_def
        tls_buffer_grow_def tls_buffer_resize_def recallocarray_1 Let_def write_at_def TLS_IO_FAILURE_def SIZE_MAX_def)
  ultimately show ?thesis unfolding e by simp
qed

end
