(* ===== verification/TLS_Content.thy ===== *)
theory TLS_Content
  imports TLS_Buffer
begin

text \<open>
  src/lib/libssl/tls_content.c: the content of one decrypted TLS record.  It owns
  the record's bytes and a \<open>CBS\<close> over the part that is the payload; readers take
  bytes from that window.  A NULL \<open>data\<close> pointer is the empty list.
\<close>

record tls_content =
  tc_type :: u8
  tc_epoch :: u16
  tc_data :: bytes
  tc_data_len :: nat
  tc_cbs :: CBS

definition tls_content_zero :: tls_content where
  "tls_content_zero = \<lparr>tc_type = 0, tc_epoch = 0, tc_data = [], tc_data_len = 0, tc_cbs = CBS_init [] 0\<rparr>"

text \<open>\<open>sizeof (struct tls_content)\<close>, with the \<open>CBS\<close> of 24 bytes inside.\<close>

definition sizeof_tls_content :: nat where "sizeof_tls_content = 48"

definition tls_content_new :: "(nat \<Rightarrow> bool) \<Rightarrow> tls_content option" where
  "tls_content_new alloc = (if alloc sizeof_tls_content then Some tls_content_zero else None)"

definition tls_content_clear :: "tls_content \<Rightarrow> tls_content" where
  "tls_content_clear content = tls_content_zero"

definition tls_content_cbs :: "tls_content \<Rightarrow> CBS" where
  "tls_content_cbs content = tc_cbs content"

definition tls_content_equal :: "tls_content \<Rightarrow> bytes \<Rightarrow> nat \<Rightarrow> bool" where
  "tls_content_equal content buf n = CBS_mem_equal (tc_cbs content) buf n"

definition tls_content_remaining :: "tls_content \<Rightarrow> nat" where
  "tls_content_remaining content = CBS_len (tc_cbs content)"

definition tls_content_type :: "tls_content \<Rightarrow> u8" where
  "tls_content_type content = tc_type content"

definition tls_content_epoch :: "tls_content \<Rightarrow> u16" where
  "tls_content_epoch content = tc_epoch content"

definition tls_content_set_epoch :: "tls_content \<Rightarrow> u16 \<Rightarrow> tls_content" where
  "tls_content_set_epoch content epoch = content\<lparr>tc_epoch := epoch\<rparr>"

definition tls_content_set_data :: "tls_content \<Rightarrow> u8 \<Rightarrow> bytes \<Rightarrow> nat \<Rightarrow> tls_content" where
  "tls_content_set_data content type data data_len =
     (let content = tls_content_clear content
      in content\<lparr>tc_type := type, tc_data := data, tc_data_len := data_len, tc_cbs := CBS_init data data_len\<rparr>)"

definition tls_content_dup_data ::
  "(nat \<Rightarrow> bool) \<Rightarrow> tls_content \<Rightarrow> u8 \<Rightarrow> bytes \<Rightarrow> nat \<Rightarrow> bool \<times> tls_content" where
  "tls_content_dup_data alloc content type data data_len =
     (if \<not> alloc data_len then (False, content)
      else (True, tls_content_set_data content type (take data_len data) data_len))"

definition tls_content_set_bounds :: "tls_content \<Rightarrow> nat \<Rightarrow> nat \<Rightarrow> bool \<times> tls_content" where
  "tls_content_set_bounds content offset len =
     (let content_len = size_add offset len
      in if content_len < len then (False, content)
         else if content_len > tc_data_len content then (False, content)
         else case CBS_skip (CBS_init (tc_data content) content_len) offset of
             (r, cbs) \<Rightarrow> (r \<noteq> None, content\<lparr>tc_cbs := cbs\<rparr>))"

definition tls_content_read_internal :: "tls_content \<Rightarrow> nat \<Rightarrow> bool \<Rightarrow> int \<times> bytes \<times> tls_content" where
  "tls_content_read_internal content n peek =
     (let n = (if n > CBS_len (tc_cbs content) then CBS_len (tc_cbs content) else n);
          bs = take n (CBS_data (tc_cbs content))
      in if peek then (int n, bs, content)
         else case CBS_skip (tc_cbs content) n of
             (None, cbs) \<Rightarrow> (-1, bs, content\<lparr>tc_cbs := cbs\<rparr>)
           | (Some _, cbs) \<Rightarrow> (int n, bs, content\<lparr>tc_cbs := cbs\<rparr>))"

definition tls_content_peek :: "tls_content \<Rightarrow> nat \<Rightarrow> int \<times> bytes \<times> tls_content" where
  "tls_content_peek content n = tls_content_read_internal content n True"

definition tls_content_read :: "tls_content \<Rightarrow> nat \<Rightarrow> int \<times> bytes \<times> tls_content" where
  "tls_content_read content n = tls_content_read_internal content n False"

section \<open>Invariant\<close>

definition tc_ok :: "tls_content \<Rightarrow> bool" where
  "tc_ok content \<longleftrightarrow> length (tc_data content) = tc_data_len content \<and> tc_data_len content \<le> SIZE_MAX
     \<and> cbs_ok (tc_cbs content)"

definition tc_payload :: "tls_content \<Rightarrow> bytes" where
  "tc_payload content = cbs_bytes (tc_cbs content)"

lemma tc_ok_zero: "tc_ok tls_content_zero"
  by (simp add: tc_ok_def tls_content_zero_def cbs_ok_def)

lemma tc_ok_set_data: "length data = n \<Longrightarrow> n \<le> SIZE_MAX \<Longrightarrow> tc_ok (tls_content_set_data content type data n)"
  by (auto simp: tc_ok_def tls_content_set_data_def Let_def)

lemma tc_payload_set_data [simp]: "tc_payload (tls_content_set_data content type data n) = take n data"
  by (simp add: tc_payload_def tls_content_set_data_def Let_def)

text \<open>Reading takes the next bytes of the payload, peeking leaves them.\<close>

lemma content_read_spec:
  assumes ok: "tc_ok content" and r: "tls_content_read_internal content n peek = (ret, bs, content')"
  shows "tc_ok content' \<and> ret = int (length bs) \<and> length bs = min n (length (tc_payload content))
    \<and> bs = take n (tc_payload content)
    \<and> (if peek then content' = content else tc_payload content = bs @ tc_payload content')"
proof -
  let ?c = "tc_cbs content"
  define k where "k = min n (cbs_len ?c)"
  have cok: "cbs_ok ?c" using ok by (simp add: tc_ok_def)
  have len: "cbs_len ?c \<le> length (cbs_data ?c)" using cok by (simp add: cbs_ok_def)
  have bs: "bs = take k (cbs_data ?c)" "ret = int k"
    "content' = (if peek then content else content\<lparr>tc_cbs := cbs_drop k ?c\<rparr>)"
    using r by (auto simp: tls_content_read_internal_def cbs_eqs k_def min_def Let_def split: if_splits)
  let ?B = "cbs_bytes ?c"
  have lenB: "length ?B = cbs_len ?c" by (rule length_cbs_bytes [OF cok])
  have bsB: "bs = take n ?B" using bs(1) by (simp add: cbs_bytes_def k_def min.commute)
  have "take n ?B = take k ?B" using lenB by (simp add: k_def min_def)
  then have app: "bs @ drop k ?B = ?B" using bsB by simp
  have "length bs = min n (length ?B)" using bsB by simp
  moreover have "ret = int (length bs)" using bs(2) bsB lenB by (simp add: k_def min.commute)
  moreover have "if peek then content' = content else tc_payload content = bs @ tc_payload content'"
    using bs(3) app by (simp add: tc_payload_def)
  moreover have "tc_ok content'" using bs(3) ok cok by (auto simp: tc_ok_def)
  ultimately show ?thesis using bsB by (simp add: tc_payload_def)
qed

interpretation tc_src: byte_source tc_ok tc_payload tls_content_read
proof
  fix s n ret bs s'
  assume "tc_ok s" "tls_content_read s n = (ret, bs, s')"
  then have "tc_ok s'" and r: "ret = int (length bs)" and l: "length bs = min n (length (tc_payload s))"
    and "tc_payload s = bs @ tc_payload s'"
    using content_read_spec [of s n False ret bs s'] unfolding tls_content_read_def by (blast, blast, blast, metis)
  moreover have "length bs \<le> n" using l by simp
  moreover have "if 0 < ret then ret = int (length bs) else bs = []" using r by simp
  ultimately show "tc_ok s' \<and> tc_payload s = bs @ tc_payload s' \<and> length bs \<le> n
      \<and> (if 0 < ret then ret = int (length bs) else bs = [])" by blast
qed

section \<open>Properties\<close>

text \<open>
  \<open>tls_content_set_bounds\<close> succeeds exactly when the window lies inside the
  record (the sum of offset and length is not allowed to wrap around), and then
  the payload is exactly that part of the record's bytes; otherwise the content
  is unchanged.
\<close>

theorem tls_content_set_bounds_correct:
  assumes "tc_ok content" "offset \<le> SIZE_MAX" "len \<le> SIZE_MAX"
    "tls_content_set_bounds content offset len = (r, content')"
  shows "(r \<longleftrightarrow> offset + len \<le> tc_data_len content) \<and> tc_ok content'
    \<and> (if r then tc_payload content' = take len (drop offset (tc_data content)) else content' = content)"
proof -
  have dl: "tc_data_len content \<le> SIZE_MAX" "length (tc_data content) = tc_data_len content"
    using assms(1) by (simp_all add: tc_ok_def)
  show ?thesis
  proof (cases "offset + len \<le> SIZE_MAX")
    case True
    then show ?thesis
      using assms(1,4) dl
      by (auto simp: tls_content_set_bounds_def CBS_skip_eq Let_def tc_ok_def tc_payload_def take_drop add.commute
          split: if_splits intro!: cbs_ok_drop cbs_ok_init)
  next
    case False
    then have "size_add offset len < len"
      using size_add_overflow [OF assms(3,2)] by (simp add: size_add_def add.commute)
    then show ?thesis
      using assms(1,4) dl False by (auto simp: tls_content_set_bounds_def)
  qed
qed

theorem tls_content_set_bounds_correct_witness:
  "tc_payload (snd (tls_content_set_bounds (tls_content_set_data tls_content_zero 22 [1, 2, 3, 4] 4) 1 2)) = [2, 3]"
proof -
  let ?c = "tls_content_set_data tls_content_zero 22 [1, 2, 3, 4] 4"
  obtain r c' where e: "tls_content_set_bounds ?c 1 2 = (r, c')" by fastforce
  have "tc_ok ?c" by (rule tc_ok_set_data) (simp_all add: SIZE_MAX_def)
  then show ?thesis
    using tls_content_set_bounds_correct [OF _ _ _ e] e
    by (simp add: SIZE_MAX_def tls_content_set_data_def tls_content_clear_def tls_content_zero_def)
qed

end
