(* ===== verification/TLS13_Msg.thy ===== *)
theory TLS13_Msg
  imports CBB_Refine TLS_Content
begin

text \<open>
  src/lib/libssl/tls13_handshake_msg.c: one TLS 1.3 handshake message, a type
  byte, a three-byte length and the body.  A message is built with a \<open>CBB\<close>, or
  received piecewise into a \<open>tls_buffer\<close>: \<open>tls13_handshake_msg_recv\<close> may have to
  be called again and again until the record layer has delivered all of it.

  The record layer (tls13_record_layer.c) is the parameter \<open>cb\<close> (for
  \<open>tls13_read_handshake_data\<close>) and \<open>wr\<close> (for \<open>tls13_write_handshake_data\<close>); with
  QUIC the former is \<open>tls13_quic_handshake_read_cb\<close> of tls13_quic.c, which is
  modelled.  The \<open>CBB\<close> of a message has the address \<open>hm_cbb\<close> in the builder store.
  A NULL data pointer, which the code tests, is \<^const>\<open>None\<close>.
\<close>

section \<open>Messages\<close>

definition TLS13_IO_SUCCESS :: int where "TLS13_IO_SUCCESS = 1"
definition TLS13_IO_FAILURE :: int where "TLS13_IO_FAILURE = -1"
definition TLS13_IO_WANT_POLLIN :: int where "TLS13_IO_WANT_POLLIN = -3"

definition TLS13_HANDSHAKE_MSG_HEADER_LEN :: nat where "TLS13_HANDSHAKE_MSG_HEADER_LEN = 4"
definition TLS13_HANDSHAKE_MSG_INITIAL_LEN :: nat where "TLS13_HANDSHAKE_MSG_INITIAL_LEN = 256"
definition TLS13_HANDSHAKE_MSG_MAX_LEN :: nat where "TLS13_HANDSHAKE_MSG_MAX_LEN = 256 * 1024"

lemmas msg_consts [c_simps] = TLS13_IO_SUCCESS_def TLS13_IO_FAILURE_def TLS13_IO_WANT_POLLIN_def
  TLS13_HANDSHAKE_MSG_HEADER_LEN_def TLS13_HANDSHAKE_MSG_INITIAL_LEN_def TLS13_HANDSHAKE_MSG_MAX_LEN_def

record tls13_handshake_msg =
  hm_msg_type :: u8
  hm_msg_len :: u32
  hm_data :: "bytes option"
  hm_data_len :: nat
  hm_buf :: tls_buffer
  hm_cbs :: CBS
  hm_cbb :: nat

definition sizeof_tls13_handshake_msg :: nat where "sizeof_tls13_handshake_msg = 112"

definition tls13_handshake_msg_new :: "(nat \<Rightarrow> bool) \<Rightarrow> nat \<Rightarrow> tls13_handshake_msg option" where
  "tls13_handshake_msg_new alloc cbb =
     (if \<not> alloc sizeof_tls13_handshake_msg then None
      else case tls_buffer_new alloc 0 of
          None \<Rightarrow> None
        | Some buf \<Rightarrow> Some \<lparr>hm_msg_type = 0, hm_msg_len = 0, hm_data = None, hm_data_len = 0, hm_buf = buf,
            hm_cbs = CBS_init [] 0, hm_cbb = cbb\<rparr>)"

definition tls13_handshake_msg_data :: "tls13_handshake_msg \<Rightarrow> CBS" where
  "tls13_handshake_msg_data msg =
     CBS_init (case hm_data msg of None \<Rightarrow> [] | Some d \<Rightarrow> d) (hm_data_len msg)"

definition tls13_handshake_msg_type :: "tls13_handshake_msg \<Rightarrow> u8" where
  "tls13_handshake_msg_type msg = hm_msg_type msg"

definition tls13_handshake_msg_content :: "tls13_handshake_msg \<Rightarrow> unit cbs_res" where
  "tls13_handshake_msg_content msg = CBS_skip (tls13_handshake_msg_data msg) TLS13_HANDSHAKE_MSG_HEADER_LEN"

definition tls13_handshake_msg_start :: "tls13_handshake_msg \<Rightarrow> cbb_mem \<Rightarrow> nat \<Rightarrow> u8 \<Rightarrow> cbb_res" where
  "tls13_handshake_msg_start msg m body msg_type =
     (case CBB_init m (hm_cbb msg) TLS13_HANDSHAKE_MSG_INITIAL_LEN of
        (False, m) \<Rightarrow> Some (False, m)
      | (True, m) \<Rightarrow> do {
          (ok, m) \<leftarrow> CBB_add_u8 m (hm_cbb msg) (unat msg_type);
          if \<not> ok then Some (False, m)
          else do {
            (ok, m) \<leftarrow> CBB_add_u24_length_prefixed m (hm_cbb msg) body;
            if \<not> ok then Some (False, m) else Some (True, m)
          }
        })"

definition tls13_handshake_msg_finish ::
  "tls13_handshake_msg \<Rightarrow> cbb_mem \<Rightarrow> (bool \<times> tls13_handshake_msg \<times> cbb_mem) option" where
  "tls13_handshake_msg_finish msg m =
     do {
       (r, m) \<leftarrow> CBB_finish m (hm_cbb msg) True True (hm_data msg \<noteq> None);
       case r of
         None \<Rightarrow> Some (False, msg, m)
       | Some (data, data_len) \<Rightarrow>
          Some (True, msg\<lparr>hm_data := Some data, hm_data_len := data_len, hm_cbs := CBS_init data data_len\<rparr>, m)
     }"

text \<open>The QUIC read callback; no buffer yet is \<^const>\<open>None\<close>.\<close>

definition tls13_quic_handshake_read_cb :: "tls_buffer option tls_read_cb" where
  "tls13_quic_handshake_read_cb quic_read_buffer n =
     (case quic_read_buffer of
        None \<Rightarrow> (TLS13_IO_WANT_POLLIN, [], None)
      | Some buf \<Rightarrow> (case tls_buffer_read buf n of (ret, bs, buf) \<Rightarrow> (ret, bs, Some buf)))"

text \<open>Reading and checking the header; \<open>Inl\<close> is an early return with that value.\<close>

definition tls13_handshake_msg_recv_header ::
  "(nat \<Rightarrow> bool) \<Rightarrow> tls13_handshake_msg \<Rightarrow> 's tls_read_cb \<Rightarrow> 's \<Rightarrow> (int + unit) \<times> tls13_handshake_msg \<times> 's" where
  "tls13_handshake_msg_recv_header alloc msg cb rl =
     (case tls_buffer_extend alloc (hm_buf msg) TLS13_HANDSHAKE_MSG_HEADER_LEN cb rl of
        (ret, buf, rl) \<Rightarrow>
         (let msg = msg\<lparr>hm_buf := buf\<rparr>
          in if ret \<le> 0 then (Inl ret, msg, rl)
             else case tls_buffer_data buf of
                 None \<Rightarrow> (Inl TLS13_IO_FAILURE, msg, rl)
               | Some cbs \<Rightarrow>
              (case CBS_get_u8 cbs of
                 (None, _) \<Rightarrow> (Inl TLS13_IO_FAILURE, msg, rl)
               | (Some msg_type, cbs) \<Rightarrow>
              (case CBS_get_u24 cbs of
                 (None, _) \<Rightarrow> (Inl TLS13_IO_FAILURE, msg, rl)
               | (Some msg_len, _) \<Rightarrow>
              (if unat msg_len > TLS13_HANDSHAKE_MSG_MAX_LEN then (Inl TLS13_IO_FAILURE, msg, rl)
               else (Inr (), msg\<lparr>hm_msg_type := msg_type, hm_msg_len := msg_len\<rparr>, rl))))))"

definition tls13_handshake_msg_recv ::
  "(nat \<Rightarrow> bool) \<Rightarrow> tls13_handshake_msg \<Rightarrow> 's tls_read_cb \<Rightarrow> 's \<Rightarrow> int \<times> tls13_handshake_msg \<times> 's" where
  "tls13_handshake_msg_recv alloc msg cb rl =
     (if hm_data msg \<noteq> None then (TLS13_IO_FAILURE, msg, rl)
      else case (if hm_msg_type msg = 0 then tls13_handshake_msg_recv_header alloc msg cb rl
                 else (Inr (), msg, rl)) of
          (Inl ret, msg, rl) \<Rightarrow> (ret, msg, rl)
        | (Inr _, msg, rl) \<Rightarrow>
           (case tls_buffer_extend alloc (hm_buf msg)
                   (TLS13_HANDSHAKE_MSG_HEADER_LEN + unat (hm_msg_len msg)) cb rl of
              (ret, buf, rl) \<Rightarrow>
               (let msg = msg\<lparr>hm_buf := buf\<rparr>
                in if ret \<le> 0 then (ret, msg, rl)
                   else case tls_buffer_finish buf True of
                       (None, buf) \<Rightarrow> (TLS13_IO_FAILURE, msg\<lparr>hm_buf := buf\<rparr>, rl)
                     | (Some (data, data_len), buf) \<Rightarrow>
                        (TLS13_IO_SUCCESS,
                         msg\<lparr>hm_buf := buf, hm_data := Some data, hm_data_len := data_len\<rparr>, rl))))"

function tls13_handshake_msg_send_loop ::
  "CBS \<Rightarrow> ('s \<Rightarrow> bytes \<Rightarrow> nat \<Rightarrow> int \<times> 's) \<Rightarrow> 's \<Rightarrow> int \<times> CBS \<times> 's" where
  "tls13_handshake_msg_send_loop cbs wr rl =
     (if CBS_len cbs = 0 then (TLS13_IO_SUCCESS, cbs, rl)
      else case wr rl (CBS_data cbs) (CBS_len cbs) of
          (ret, rl) \<Rightarrow>
           (if ret \<le> 0 then (ret, cbs, rl)
            else case CBS_skip cbs (nat ret) of
                (None, cbs) \<Rightarrow> (TLS13_IO_FAILURE, cbs, rl)
              | (Some _, cbs) \<Rightarrow> tls13_handshake_msg_send_loop cbs wr rl))"
  by pat_completeness auto

termination
  by (relation "measure (\<lambda>(cbs, _). cbs_len cbs)") (auto simp: CBS_skip_eq CBS_len_def split: if_splits)

declare tls13_handshake_msg_send_loop.simps [simp del]

definition tls13_handshake_msg_send ::
  "tls13_handshake_msg \<Rightarrow> ('s \<Rightarrow> bytes \<Rightarrow> nat \<Rightarrow> int \<times> 's) \<Rightarrow> 's \<Rightarrow> int \<times> tls13_handshake_msg \<times> 's" where
  "tls13_handshake_msg_send msg wr rl =
     (if hm_data msg = None then (TLS13_IO_FAILURE, msg, rl)
      else if CBS_len (hm_cbs msg) = 0 then (TLS13_IO_FAILURE, msg, rl)
      else case tls13_handshake_msg_send_loop (hm_cbs msg) wr rl of
          (ret, cbs, rl) \<Rightarrow> (ret, msg\<lparr>hm_cbs := cbs\<rparr>, rl))"

section \<open>Receiving\<close>

text \<open>
  A reception in progress: the buffer holds what has arrived so far, and once the
  header has been read its fields are those of the first four bytes.
\<close>

definition hm_pending :: "tls13_handshake_msg \<Rightarrow> bytes" where
  "hm_pending msg = take (tb_len (hm_buf msg)) (tb_data (hm_buf msg))"

definition hm_receiving :: "tls13_handshake_msg \<Rightarrow> bool" where
  "hm_receiving msg \<longleftrightarrow> hm_data msg = None \<and> tb_ok (hm_buf msg) \<and> tb_offset (hm_buf msg) = 0
     \<and> (hm_msg_type msg \<noteq> 0 \<longrightarrow> 4 \<le> tb_len (hm_buf msg) \<and> tb_len (hm_buf msg) \<le> 4 + unat (hm_msg_len msg)
          \<and> hm_msg_type msg = hm_pending msg ! 0
          \<and> unat (hm_msg_len msg) = be_val (take 3 (drop 1 (hm_pending msg)))
          \<and> unat (hm_msg_len msg) \<le> TLS13_HANDSHAKE_MSG_MAX_LEN)"

interpretation quic_src: byte_source_live "\<lambda>q. case q of None \<Rightarrow> True | Some b \<Rightarrow> tb_ok b"
    "\<lambda>q. case q of None \<Rightarrow> [] | Some b \<Rightarrow> tb_queue b" tls13_quic_handshake_read_cb
proof
  fix s n ret bs s'
  assume "case s of None \<Rightarrow> True | Some b \<Rightarrow> tb_ok b" "tls13_quic_handshake_read_cb s n = (ret, bs, s')"
  note a = this
  show "(case s' of None \<Rightarrow> True | Some b \<Rightarrow> tb_ok b)
      \<and> (case s of None \<Rightarrow> [] | Some b \<Rightarrow> tb_queue b) = bs @ (case s' of None \<Rightarrow> [] | Some b \<Rightarrow> tb_queue b)
      \<and> length bs \<le> n \<and> (if 0 < ret then ret = int (length bs) else bs = [])"
  proof (cases s)
    case None
    then show ?thesis using a by (auto simp: tls13_quic_handshake_read_cb_def msg_consts)
  next
    case (Some b)
    then obtain b' where "tls_buffer_read b n = (ret, bs, b')" "s' = Some b'" "tb_ok b"
      using a by (auto simp: tls13_quic_handshake_read_cb_def split: prod.splits)
    with tb_src.delivers [of b n ret bs b'] Some show ?thesis by simp
  qed
next
  fix s and n :: nat
  assume "case s of None \<Rightarrow> True | Some b \<Rightarrow> tb_ok b" "0 < n" "(case s of None \<Rightarrow> [] | Some b \<Rightarrow> tb_queue b) \<noteq> []"
  then show "0 < fst (tls13_quic_handshake_read_cb s n)"
    using tb_src.live by (cases s) (auto simp: tls13_quic_handshake_read_cb_def split: prod.splits, metis fst_conv)
qed

lemma tls_buffer_data_eq:
  "tb_ok buf \<Longrightarrow> tb_offset buf = 0 \<Longrightarrow> tls_buffer_data buf = Some (CBS_init (tb_data buf) (tb_len buf))"
  by (simp add: tls_buffer_data_def CBS_skip_eq CBS_dup_def CBS_data_def CBS_len_def CBS_init_def)

lemma parse_header:
  assumes "cbs_ok c" "4 \<le> cbs_len c"
  shows "\<exists>c1 c2 l. CBS_get_u8 c = (Some (cbs_data c ! 0), c1) \<and> CBS_get_u24 c1 = (Some l, c2)
    \<and> unat l = be_val (take 3 (drop 1 (cbs_data c)))"
proof -
  have len: "4 \<le> length (cbs_data c)" using assms by (simp add: cbs_ok_def)
  then have "hd (cbs_data c) = cbs_data c ! 0" by (intro hd_conv_nth) auto
  moreover have "unat (foldl shift_in 0 (take 3 (drop 1 (cbs_data c))) :: u32) = be_val (take 3 (drop 1 (cbs_data c)))"
    using unat_cbs_u [of 3 "drop 1 (cbs_data c)"] len by simp
  ultimately show ?thesis using assms(2) by (simp add: CBS_get_u8_eq CBS_get_u24_def cbs_get_u_eq)
qed

context byte_source
begin

lemma recv_header_spec:
  assumes "hm_receiving msg" "hm_msg_type msg = 0" "ok s"
    "tls13_handshake_msg_recv_header alloc msg cb s = (r, msg', s')"
  shows "ok s' \<and> hm_pending msg @ stream s = hm_pending msg' @ stream s'
    \<and> (case r of Inl ret \<Rightarrow> ret \<le> 0 \<and> hm_receiving msg'
       | Inr _ \<Rightarrow> hm_data msg' = None \<and> tb_ok (hm_buf msg') \<and> tb_offset (hm_buf msg') = 0 \<and> tb_len (hm_buf msg') = 4
          \<and> hm_msg_type msg' = hm_pending msg' ! 0
          \<and> unat (hm_msg_len msg') = be_val (take 3 (drop 1 (hm_pending msg')))
          \<and> unat (hm_msg_len msg') \<le> TLS13_HANDSHAKE_MSG_MAX_LEN)"
proof -
  obtain ret buf s1 where e: "tls_buffer_extend alloc (hm_buf msg) 4 cb s = (ret, buf, s1)" by (metis prod_cases3)
  have b: "tb_ok (hm_buf msg)" "tb_offset (hm_buf msg) = 0" "hm_data msg = None"
    using assms(1) by (simp_all add: hm_receiving_def)
  note x = extend_spec [OF b(1) assms(3) e]
  have p: "hm_pending msg @ stream s = hm_pending (msg\<lparr>hm_buf := buf\<rparr>) @ stream s1"
    using x by (auto simp: hm_pending_def)
  show ?thesis
  proof (cases "0 < ret")
    case False
    then have "r = Inl ret" "msg' = msg\<lparr>hm_buf := buf\<rparr>" "s' = s1"
      using assms(4) e by (simp_all add: tls13_handshake_msg_recv_header_def msg_consts)
    then show ?thesis using False p x assms(2) b by (auto simp: hm_receiving_def)
  next
    case True
    then have len: "tb_len buf = 4" "tb_ok buf" "tb_offset buf = 0" using x b by auto
    let ?c = "CBS_init (tb_data buf) 4"
    have "cbs_ok ?c" using len by (intro cbs_ok_init) (auto simp: tb_ok_def SIZE_MAX_def)
    from parse_header [OF this] obtain c1 c2 l where
      h: "CBS_get_u8 ?c = (Some (tb_data buf ! 0), c1)" "CBS_get_u24 c1 = (Some l, c2)"
        "unat l = be_val (take 3 (drop 1 (tb_data buf)))"
      by auto
    have pend: "hm_pending (msg\<lparr>hm_buf := buf\<rparr>) ! 0 = tb_data buf ! 0"
      "take 3 (drop 1 (hm_pending (msg\<lparr>hm_buf := buf\<rparr>))) = take 3 (drop 1 (tb_data buf))"
      using len by (simp_all add: hm_pending_def drop_take)
    show ?thesis
    proof (cases "unat l > TLS13_HANDSHAKE_MSG_MAX_LEN")
      case True
      then have "r = Inl TLS13_IO_FAILURE" "msg' = msg\<lparr>hm_buf := buf\<rparr>" "s' = s1"
        using assms(4) e h \<open>0 < ret\<close> len
        by (simp_all add: tls13_handshake_msg_recv_header_def TLS13_HANDSHAKE_MSG_HEADER_LEN_def tls_buffer_data_eq)
      then show ?thesis using p x assms(2) b by (auto simp: hm_receiving_def TLS13_IO_FAILURE_def)
    next
      case False
      then have "r = Inr ()" "msg' = msg\<lparr>hm_buf := buf, hm_msg_type := tb_data buf ! 0, hm_msg_len := l\<rparr>" "s' = s1"
        using assms(4) e h \<open>0 < ret\<close> len
        by (simp_all add: tls13_handshake_msg_recv_header_def TLS13_HANDSHAKE_MSG_HEADER_LEN_def tls_buffer_data_eq)
      then show ?thesis using p x b len h False pend by (auto simp: hm_pending_def)
    qed
  qed
qed

text \<open>The part of \<open>tls13_handshake_msg_recv\<close> behind the header.\<close>

lemma recv_body_spec:
  assumes "hm_data msg = None" "tb_ok (hm_buf msg)" "tb_offset (hm_buf msg) = 0"
    "4 \<le> tb_len (hm_buf msg)" "tb_len (hm_buf msg) \<le> 4 + unat (hm_msg_len msg)"
    "hm_msg_type msg = hm_pending msg ! 0" "unat (hm_msg_len msg) = be_val (take 3 (drop 1 (hm_pending msg)))"
    "unat (hm_msg_len msg) \<le> TLS13_HANDSHAKE_MSG_MAX_LEN" "ok s"
    "tls_buffer_extend alloc (hm_buf msg) (4 + unat (hm_msg_len msg)) cb s = (ret, buf, s')"
  shows "ok s' \<and> (if 0 < ret
      then tb_len buf = 4 + unat (hm_msg_len msg) \<and> hm_msg_type msg = tb_data buf ! 0
        \<and> unat (hm_msg_len msg) = be_val (take 3 (drop 1 (tb_data buf)))
        \<and> hm_pending msg @ stream s = take (4 + unat (hm_msg_len msg)) (tb_data buf) @ stream s'
        \<and> 4 + unat (hm_msg_len msg) \<le> length (tb_data buf)
      else hm_receiving (msg\<lparr>hm_buf := buf\<rparr>)
        \<and> hm_pending msg @ stream s = hm_pending (msg\<lparr>hm_buf := buf\<rparr>) @ stream s')"
proof -
  from extend_spec [OF assms(2,9,10)] obtain bs where
    x: "tb_ok buf" "ok s'" "tb_offset buf = 0" "stream s = bs @ stream s'"
    "take (tb_len buf) (tb_data buf) = hm_pending msg @ bs" "tb_len buf = tb_len (hm_buf msg) + length bs"
    "bs = [] \<or> tb_len buf \<le> 4 + unat (hm_msg_len msg)"
    "0 < ret \<longrightarrow> ret = int (4 + unat (hm_msg_len msg)) \<and> tb_len buf = 4 + unat (hm_msg_len msg)"
    using assms(3) by (auto simp: hm_pending_def)
  have pl: "4 \<le> length (hm_pending msg)" using assms(2,4) by (simp add: hm_pending_def tb_ok_def)
  have pb: "take (tb_len buf) (tb_data buf) ! 0 = hm_pending msg ! 0"
    "take 3 (drop 1 (take (tb_len buf) (tb_data buf))) = take 3 (drop 1 (hm_pending msg))"
    using pl unfolding x(5) by (auto simp: nth_append)
  have tl: "4 \<le> tb_len buf" "tb_len buf \<le> 4 + unat (hm_msg_len msg)" using x(6,7) assms(4,5) by auto
  have d: "take (tb_len buf) (tb_data buf) ! 0 = tb_data buf ! 0"
    "take 3 (drop 1 (take (tb_len buf) (tb_data buf))) = take 3 (drop 1 (tb_data buf))"
    using tl(1) by (simp_all add: drop_take min_def)
  have "hm_receiving (msg\<lparr>hm_buf := buf\<rparr>)"
    using x(1,3) tl pb assms(1,6-8) by (simp add: hm_receiving_def hm_pending_def)
  moreover have "hm_pending msg @ stream s = hm_pending (msg\<lparr>hm_buf := buf\<rparr>) @ stream s'"
    using x(4,5) by (simp add: hm_pending_def)
  moreover have "hm_msg_type msg = tb_data buf ! 0" using assms(6) pb(1) d(1) by simp
  moreover have "unat (hm_msg_len msg) = be_val (take 3 (drop 1 (tb_data buf)))"
    using assms(7) unfolding pb(2) [symmetric] d(2) .
  moreover have "tb_len buf \<le> length (tb_data buf)" using x(1) by (simp add: tb_ok_def)
  moreover have "hm_pending msg @ stream s = take (tb_len buf) (tb_data buf) @ stream s'"
    using x(4,5) by simp
  ultimately show ?thesis using x(2,8) by metis
qed

lemma recv_spec:
  assumes "hm_receiving msg" "ok s" "tls13_handshake_msg_recv alloc msg cb s = (ret, msg', s')"
  shows "ok s' \<and> (if 0 < ret
      then ret = TLS13_IO_SUCCESS \<and> (\<exists>d. hm_data msg' = Some d
        \<and> hm_data_len msg' = 4 + unat (hm_msg_len msg') \<and> hm_data_len msg' \<le> length d
        \<and> hm_msg_type msg' = d ! 0 \<and> unat (hm_msg_len msg') = be_val (take 3 (drop 1 d))
        \<and> hm_pending msg @ stream s = take (hm_data_len msg') d @ stream s')
      else hm_receiving msg' \<and> hm_pending msg @ stream s = hm_pending msg' @ stream s')"
proof -
  have dn: "hm_data msg = None" using assms(1) by (simp add: hm_receiving_def)
  obtain r msg1 s1 where h: "(if hm_msg_type msg = 0 then tls13_handshake_msg_recv_header alloc msg cb s
      else (Inr (), msg, s)) = (r, msg1, s1)" by (metis prod_cases3)
  have h1: "ok s1 \<and> hm_pending msg @ stream s = hm_pending msg1 @ stream s1
    \<and> (case r of Inl ret \<Rightarrow> ret \<le> 0 \<and> hm_receiving msg1
       | Inr _ \<Rightarrow> hm_data msg1 = None \<and> tb_ok (hm_buf msg1) \<and> tb_offset (hm_buf msg1) = 0
          \<and> 4 \<le> tb_len (hm_buf msg1) \<and> tb_len (hm_buf msg1) \<le> 4 + unat (hm_msg_len msg1)
          \<and> hm_msg_type msg1 = hm_pending msg1 ! 0
          \<and> unat (hm_msg_len msg1) = be_val (take 3 (drop 1 (hm_pending msg1)))
          \<and> unat (hm_msg_len msg1) \<le> TLS13_HANDSHAKE_MSG_MAX_LEN)"
  proof (cases "hm_msg_type msg = 0")
    case True
    then show ?thesis
      using recv_header_spec [OF assms(1) True assms(2), of alloc r msg1 s1] h by (simp split: sum.splits)
  next
    case False
    then show ?thesis using h assms(1,2) by (auto simp: hm_receiving_def)
  qed
  show ?thesis
  proof (cases r)
    case (Inl e)
    then have "ret = e" "msg' = msg1" "s' = s1"
      using assms(3) dn by (auto simp: tls13_handshake_msg_recv_def h)
    then show ?thesis using h1 Inl by auto
  next
    case (Inr u)
    obtain x buf s2 where e: "tls_buffer_extend alloc (hm_buf msg1) (4 + unat (hm_msg_len msg1)) cb s1 = (x, buf, s2)"
      by (metis prod_cases3)
    have r: "(ret, msg', s') = (if x \<le> 0 then (x, msg1\<lparr>hm_buf := buf\<rparr>, s2)
        else (TLS13_IO_SUCCESS, msg1\<lparr>hm_buf := tls_buffer_clear buf, hm_data := Some (tb_data buf),
               hm_data_len := tb_len buf\<rparr>, s2))"
      using assms(3) dn Inr e
      by (auto simp: tls13_handshake_msg_recv_def h TLS13_HANDSHAKE_MSG_HEADER_LEN_def tls_buffer_finish_def)
    from h1 Inr have "ok s2 \<and> (if 0 < x
      then tb_len buf = 4 + unat (hm_msg_len msg1) \<and> hm_msg_type msg1 = tb_data buf ! 0
        \<and> unat (hm_msg_len msg1) = be_val (take 3 (drop 1 (tb_data buf)))
        \<and> hm_pending msg1 @ stream s1 = take (4 + unat (hm_msg_len msg1)) (tb_data buf) @ stream s2
        \<and> 4 + unat (hm_msg_len msg1) \<le> length (tb_data buf)
      else hm_receiving (msg1\<lparr>hm_buf := buf\<rparr>)
        \<and> hm_pending msg1 @ stream s1 = hm_pending (msg1\<lparr>hm_buf := buf\<rparr>) @ stream s2)"
      by (intro recv_body_spec [OF _ _ _ _ _ _ _ _ _ e]) auto
    then show ?thesis using r h1 by (auto simp: TLS13_IO_SUCCESS_def split: if_splits)
  qed
qed

end

context byte_source_live
begin

text \<open>With the whole message at hand, one call suffices.\<close>

lemma recv_live:
  assumes "hm_receiving msg" "hm_msg_type msg = 0" "tb_len (hm_buf msg) \<le> 4" "ok s"
    and all: "hm_pending msg @ stream s = header @ body @ rest" "length header = 4"
      "be_val (drop 1 header) = length body" "length body \<le> TLS13_HANDSHAKE_MSG_MAX_LEN"
    and mem: "4 + TLS13_HANDSHAKE_MSG_MAX_LEN \<le> tb_capacity_limit (hm_buf msg)"
      "\<forall>k\<le>tb_capacity_limit (hm_buf msg). alloc k"
  shows "0 < fst (tls13_handshake_msg_recv alloc msg cb s)"
proof -
  have b: "tb_ok (hm_buf msg)" "tb_offset (hm_buf msg) = 0" "hm_data msg = None"
    using assms(1) by (simp_all add: hm_receiving_def)
  have lp: "length (hm_pending msg) = tb_len (hm_buf msg)" using b(1) by (simp add: hm_pending_def tb_ok_def)
  have la: "tb_len (hm_buf msg) + length (stream s) = 4 + length body + length rest"
    using arg_cong [OF all(1), of length] all(2) lp by simp
  obtain ret buf s1 where e: "tls_buffer_extend alloc (hm_buf msg) 4 cb s = (ret, buf, s1)" by (metis prod_cases3)
  have pos: "0 < ret"
    using extend_live [OF b(1) assms(4) _ assms(3), of alloc] la mem e by (simp add: SIZE_MAX_def)
  note x = extend_spec [OF b(1) assms(4) e]
  obtain bs where bs: "stream s = bs @ stream s1" "take 4 (tb_data buf) = hm_pending msg @ bs"
    "tb_len buf = 4" "tb_ok buf" "tb_offset buf = 0" "ok s1"
    using x pos b(2) by (auto simp: hm_pending_def)
  have hd: "take 4 (tb_data buf) = header \<and> stream s1 = body @ rest"
  proof -
    have "length (take 4 (tb_data buf)) = 4" using bs(3,4) by (simp add: tb_ok_def)
    moreover have "take 4 (tb_data buf) @ stream s1 = header @ body @ rest" using all(1) bs(1,2) by simp
    ultimately show ?thesis using all(2) by (simp add: append_eq_append_conv)
  qed
  let ?c = "CBS_init (tb_data buf) 4"
  have "cbs_ok ?c" using bs(3,4) by (intro cbs_ok_init) (auto simp: tb_ok_def SIZE_MAX_def)
  from parse_header [OF this] obtain c1 c2 l where
    h: "CBS_get_u8 ?c = (Some (tb_data buf ! 0), c1)" "CBS_get_u24 c1 = (Some l, c2)"
      "unat l = be_val (take 3 (drop 1 (tb_data buf)))"
    by auto
  have "take 3 (drop 1 (tb_data buf)) = drop 1 (take 4 (tb_data buf))" by (simp add: drop_take)
  then have l: "unat l = length body" using h(3) hd all(3) by simp
  have "tls13_handshake_msg_recv_header alloc msg cb s =
      (Inr (), msg\<lparr>hm_buf := buf, hm_msg_type := tb_data buf ! 0, hm_msg_len := l\<rparr>, s1)"
    using e h pos bs l all(4)
    by (simp add: tls13_handshake_msg_recv_header_def TLS13_HANDSHAKE_MSG_HEADER_LEN_def tls_buffer_data_eq)
  moreover have "tb_capacity_limit buf = tb_capacity_limit (hm_buf msg)"
    using extend_limit [of alloc "hm_buf msg" 4 cb s] e by simp
  then have "0 < fst (tls_buffer_extend alloc buf (4 + unat l) cb s1)"
    using bs l hd mem all(4) by (intro extend_live) (auto simp: TLS13_HANDSHAKE_MSG_MAX_LEN_def SIZE_MAX_def)
  ultimately show ?thesis
    using b(3) assms(2)
    by (auto simp: tls13_handshake_msg_recv_def TLS13_HANDSHAKE_MSG_HEADER_LEN_def tls_buffer_finish_def
        TLS13_IO_SUCCESS_def split: prod.splits)
qed

end

section \<open>Building\<close>

lemma spec_call_below: "call_on c \<noteq> a \<Longrightarrow> spec_call c (Node a B p L) = Node a B p (spec_call c L)"
  by (cases c) auto

lemma fold_spec_below:
  "\<forall>c\<in>set cs. call_on c \<noteq> a \<Longrightarrow> fold spec_call cs (Node a B p L) = Node a B p (fold spec_call cs L)"
  by (induction cs arbitrary: L) (auto simp: spec_call_below)

lemma msg_start_calls:
  "CBB_init m (hm_cbb msg) TLS13_HANDSHAKE_MSG_INITIAL_LEN = (True, m0) \<Longrightarrow>
   tls13_handshake_msg_start msg m body t = run_calls [Add_u8 (hm_cbb msg) (unat t), Open_u24 (hm_cbb msg) body] m0"
  by (auto simp: tls13_handshake_msg_start_def split: Option.bind_splits)

lemma run_calls_append:
  "run_calls (xs @ ys) m = Option.bind (run_calls xs m) (\<lambda>(ok, m). if \<not> ok then Some (False, m) else run_calls ys m)"
  by (induction xs arbitrary: m) (auto split: Option.bind_splits)

section \<open>Properties\<close>

text \<open>
  C9.  Building a handshake message: after \<open>tls13_handshake_msg_start\<close> and any legal
  builder calls on the body, \<open>tls13_handshake_msg_finish\<close> leaves the message with
  its type, the three-byte length of the body and the body, and
  \<open>tls13_handshake_msg_content\<close> gives the body.
\<close>

theorem handshake_msg_build:
  assumes "\<forall>k\<le>SIZE_MAX. mem_alloc m k" "hm_data msg = None" "\<forall>c\<in>set cs. call_on c \<noteq> hm_cbb msg"
    "legal_calls SIZE_MAX (Add_u8 (hm_cbb msg) (unat t) # Open_u24 (hm_cbb msg) body # cs) (Leaf (hm_cbb msg) [])"
  shows "\<exists>m1 m2 m3 msg' d B c. B = collapse (fold spec_call cs (Leaf body []))
    \<and> tls13_handshake_msg_start msg m body t = Some (True, m1) \<and> run_calls cs m1 = Some (True, m2)
    \<and> tls13_handshake_msg_finish msg m2 = Some (True, msg', m3)
    \<and> hm_data msg' = Some d \<and> take (hm_data_len msg') d = t # be_bytes 3 (length B) @ B
    \<and> hm_data_len msg' = 4 + length B
    \<and> tls13_handshake_msg_content msg' = (Some (), c) \<and> cbs_bytes c = B"
proof -
  let ?a = "hm_cbb msg" and ?B = "collapse (fold spec_call cs (Leaf body []))"
  let ?cs = "[Add_u8 ?a (unat t), Open_u24 ?a body] @ cs"
  obtain m0 where m0: "CBB_init m ?a TLS13_HANDSHAKE_MSG_INITIAL_LEN = (True, m0)" "builds m0 (Leaf ?a [])"
    "bst_can_resize (mem_base m0)" "mem_alloc m0 = mem_alloc m"
    by (rule CBB_init_builds [OF assms(1), of TLS13_HANDSHAKE_MSG_INITIAL_LEN "hm_cbb msg"])
      (auto simp: TLS13_HANDSHAKE_MSG_INITIAL_LEN_def SIZE_MAX_def)
  have "mem_room m0 SIZE_MAX" using m0(3,4) assms(1) by (simp add: mem_room_def)
  then obtain m2 m3 buf out where o: "out = collapse (fold spec_call ?cs (Leaf ?a []))"
    "run_calls ?cs m0 = Some (True, m2)"
    "CBB_finish m2 ?a True True False = Some (Some (buf, length out), m3)" "take (length out) buf = out"
    using session_finishes [OF m0(2), of SIZE_MAX ?cs True True] assms(4) by auto
  have "be_bytes 1 (unat t) = [t]" using unat_u8_lt [of t] by simp
  then have out: "out = t # be_bytes 3 (length ?B) @ ?B"
    using o(1) fold_spec_below [OF assms(3)] by (simp del: be_bytes.simps)
  obtain r m1 where "run_calls [Add_u8 ?a (unat t), Open_u24 ?a body] m0 = Some (r, m1)"
    using o(2) unfolding run_calls_append
    by (cases "run_calls [Add_u8 ?a (unat t), Open_u24 ?a body] m0") (auto simp del: run_calls.simps)
  then have "tls13_handshake_msg_start msg m body t = Some (True, m1)" "run_calls cs m1 = Some (True, m2)"
    using o(2) unfolding run_calls_append msg_start_calls [OF m0(1)]
    by (auto simp del: run_calls.simps split: if_splits)
  moreover have "tls13_handshake_msg_finish msg m2 =
      Some (True, msg\<lparr>hm_data := Some buf, hm_data_len := length out, hm_cbs := CBS_init buf (length out)\<rparr>, m3)"
    using o(3) assms(2) by (simp add: tls13_handshake_msg_finish_def)
  moreover have "cbs_bytes (cbs_drop 4 (CBS_init buf (length out))) = ?B"
    using o(4) out by simp
  ultimately show ?thesis
    using o(4) out
    by (auto simp: tls13_handshake_msg_content_def tls13_handshake_msg_data_def CBS_skip_eq TLS13_HANDSHAKE_MSG_HEADER_LEN_def)
qed

definition new_msg :: tls13_handshake_msg where
  "new_msg = \<lparr>hm_msg_type = 0, hm_msg_len = 0, hm_data = None, hm_data_len = 0,
     hm_buf = \<lparr>tb_capacity = 0, tb_capacity_limit = TLS_BUFFER_CAPACITY_LIMIT, tb_data = [], tb_len = 0, tb_offset = 0\<rparr>,
     hm_cbs = CBS_init [] 0, hm_cbb = 0\<rparr>"

theorem handshake_msg_build_witness:
  "\<exists>m1 m2 m3 msg' d. tls13_handshake_msg_start new_msg empty_mem 1 20 = Some (True, m1)
    \<and> run_calls [Add_u16 1 0x0102] m1 = Some (True, m2)
    \<and> tls13_handshake_msg_finish new_msg m2 = Some (True, msg', m3)
    \<and> hm_data msg' = Some d \<and> take (hm_data_len msg') d = [20, 0, 0, 2, 1, 2]"
proof -
  have "legal_calls SIZE_MAX (Add_u8 0 (unat (20 :: u8)) # Open_u24 0 1 # [Add_u16 1 0x0102]) (Leaf 0 [])"
    by (simp add: session_simps)
  then show ?thesis
    using handshake_msg_build [of empty_mem new_msg "[Add_u16 1 0x0102]" 20 1]
    by (auto simp: empty_mem_def new_msg_def be_bytes_numeral)
qed

text \<open>
  C7.  Reassembly: whatever the source of handshake data (it delivers a byte stream
  in pieces of any size and may pause at any point), every call of
  \<open>tls13_handshake_msg_recv\<close> either succeeds with a message whose bytes are exactly
  the next \<open>4 + length\<close> bytes of the stream and whose type and length fields are
  those of its header, or leaves a partial message from which the next call goes
  on: no byte is lost, duplicated or taken from the following message.
\<close>

theorem handshake_msg_recv_reassembles:
  assumes "byte_source ok stream cb" "hm_receiving msg" "ok s"
    "tls13_handshake_msg_recv alloc msg cb s = (ret, msg', s')"
  shows "ok s' \<and> (if 0 < ret
      then ret = TLS13_IO_SUCCESS \<and> (\<exists>d. hm_data msg' = Some d
        \<and> hm_data_len msg' = 4 + unat (hm_msg_len msg') \<and> hm_data_len msg' \<le> length d
        \<and> hm_msg_type msg' = d ! 0 \<and> unat (hm_msg_len msg') = be_val (take 3 (drop 1 d))
        \<and> hm_pending msg @ stream s = take (hm_data_len msg') d @ stream s')
      else hm_receiving msg' \<and> hm_pending msg @ stream s = hm_pending msg' @ stream s')"
  using byte_source.recv_spec [OF assms] .

definition two_msgs :: tls_buffer where
  "two_msgs = \<lparr>tb_capacity = 8, tb_capacity_limit = 8, tb_data = [20, 0, 0, 2, 1, 2, 4, 0], tb_len = 8, tb_offset = 0\<rparr>"

lemma two_msgs_recv:
  "fst (tls13_handshake_msg_recv (\<lambda>_. True) new_msg tls13_quic_handshake_read_cb (Some two_msgs)) = 1"
  by (simp add: tls13_handshake_msg_recv_def tls13_handshake_msg_recv_header_def msg_consts new_msg_def
      tls_buffer_extend_def tls_buffer_resize_def recallocarray_1 SIZE_MAX_def tls_buffer_extend_loop.simps TLS_BUFFER_CAPACITY_LIMIT_def
      tls13_quic_handshake_read_cb_def tls_buffer_read_def two_msgs_def write_at_def tls_buffer_data_eq tb_ok_def
      CBS_get_u8_def CBS_get_u24_def cbs_eqs shift_in_def tls_buffer_finish_def)

theorem handshake_msg_recv_reassembles_witness:
  "\<exists>msg' s' d. tls13_handshake_msg_recv (\<lambda>_. True) new_msg tls13_quic_handshake_read_cb (Some two_msgs)
      = (TLS13_IO_SUCCESS, msg', s')
    \<and> hm_data msg' = Some d
    \<and> [20, 0, 0, 2, 1, 2, 4, 0] = take (hm_data_len msg') d @ (case s' of None \<Rightarrow> [] | Some b \<Rightarrow> tb_queue b)"
proof -
  obtain ret msg' s' where e: "tls13_handshake_msg_recv (\<lambda>_. True) new_msg tls13_quic_handshake_read_cb (Some two_msgs)
      = (ret, msg', s')" by (metis prod_cases3)
  have "hm_receiving new_msg" "hm_pending new_msg = []" by (simp_all add: hm_receiving_def new_msg_def tb_ok_def hm_pending_def)
  moreover have "tb_ok two_msgs" "tb_queue two_msgs = [20, 0, 0, 2, 1, 2, 4, 0]"
    by (simp_all add: two_msgs_def tb_ok_def tb_queue_def SIZE_MAX_def)
  ultimately show ?thesis
    using handshake_msg_recv_reassembles [OF quic_src.byte_source_axioms _ _ e] two_msgs_recv e by auto
qed

text \<open>
  C8.  Progress: when the source delivers as long as it has data, the whole message
  has arrived and it is not longer than the limit, a reception that has not got
  past the header completes in one call.
\<close>

theorem handshake_msg_recv_completes:
  assumes "byte_source_live ok stream cb" "hm_receiving msg" "hm_msg_type msg = 0"
    "tb_len (hm_buf msg) \<le> 4" "ok s" "hm_pending msg @ stream s = header @ body @ rest" "length header = 4"
    "be_val (drop 1 header) = length body" "length body \<le> TLS13_HANDSHAKE_MSG_MAX_LEN"
    "4 + TLS13_HANDSHAKE_MSG_MAX_LEN \<le> tb_capacity_limit (hm_buf msg)"
    "\<forall>k\<le>tb_capacity_limit (hm_buf msg). alloc k"
  shows "fst (tls13_handshake_msg_recv alloc msg cb s) = TLS13_IO_SUCCESS"
proof -
  obtain ret msg' s' where e: "tls13_handshake_msg_recv alloc msg cb s = (ret, msg', s')" by (metis prod_cases3)
  have "0 < ret" using byte_source_live.recv_live [OF assms] e by simp
  then show ?thesis
    using byte_source.recv_spec [OF byte_source_live.axioms(1) [OF assms(1)] assms(2,5) e] e by simp
qed

theorem handshake_msg_recv_completes_witness:
  "fst (tls13_handshake_msg_recv (\<lambda>_. True) new_msg tls13_quic_handshake_read_cb (Some two_msgs)) = TLS13_IO_SUCCESS"
  by (rule handshake_msg_recv_completes
        [OF quic_src.byte_source_live_axioms, where header = "[20, 0, 0, 2]" and body = "[1, 2]" and rest = "[4, 0]"])
    (simp_all add: hm_receiving_def new_msg_def tb_ok_def hm_pending_def two_msgs_def tb_queue_def be_val_def
      msg_consts TLS_BUFFER_CAPACITY_LIMIT_def SIZE_MAX_def)

end
