(* ===== verification/TLS13_Handshake.thy ===== *)
theory TLS13_Handshake
  imports TLS13_Msg
begin

text \<open>
  src/lib/libssl/tls13_handshake.c: the TLS 1.3 handshake state machine.  The
  position in the handshake is the pair of \<open>hs_type\<close>, a set of flags that selects
  a row of the table \<open>handshakes\<close>, and \<open>message_number\<close>, an index into that row.
  \<open>tls13_handshake_perform\<close> sends or receives one message after the other.

  Everything that the file calls and does not define itself (the record layer,
  the message functions of tls13_handshake_msg.c, the transcript, and the message
  handlers of tls13_client.c and tls13_server.c that the table points to) is a
  field of the record \<open>hs_calls\<close>: a function on the handshake context.  The context
  has a part \<open>env\<close> for whatever state those calls keep.  \<open>message_number\<close> is
  not part of what they see: no file but tls13_handshake.c reads or writes it.
\<close>

section \<open>Tables\<close>

datatype message_type =
    INVALID | CLIENT_HELLO | SERVER_HELLO_RETRY_REQUEST | CLIENT_HELLO_RETRY | SERVER_HELLO
  | SERVER_ENCRYPTED_EXTENSIONS | SERVER_CERTIFICATE_REQUEST | SERVER_CERTIFICATE
  | SERVER_CERTIFICATE_VERIFY | SERVER_FINISHED | CLIENT_END_OF_EARLY_DATA | CLIENT_CERTIFICATE
  | CLIENT_CERTIFICATE_VERIFY | CLIENT_FINISHED | APPLICATION_DATA

definition TLS13_NUM_MESSAGE_TYPES :: nat where "TLS13_NUM_MESSAGE_TYPES = 15"

definition INITIAL :: u8 where "INITIAL = 0x00"
definition NEGOTIATED :: u8 where "NEGOTIATED = 0x01"
definition WITHOUT_HRR :: u8 where "WITHOUT_HRR = 0x02"
definition WITHOUT_CR :: u8 where "WITHOUT_CR = 0x04"
definition WITH_PSK :: u8 where "WITH_PSK = 0x08"
definition WITH_CCV :: u8 where "WITH_CCV = 0x10"

lemmas hs_flag_defs = INITIAL_def NEGOTIATED_def WITHOUT_HRR_def WITHOUT_CR_def WITH_PSK_def WITH_CCV_def

definition TLS13_HS_CLIENT :: u8 where "TLS13_HS_CLIENT = 1"
definition TLS13_HS_SERVER :: u8 where "TLS13_HS_SERVER = 2"

definition TLS13_MT_CLIENT_HELLO :: u8 where "TLS13_MT_CLIENT_HELLO = 1"
definition TLS13_MT_SERVER_HELLO :: u8 where "TLS13_MT_SERVER_HELLO = 2"
definition TLS13_MT_END_OF_EARLY_DATA :: u8 where "TLS13_MT_END_OF_EARLY_DATA = 5"
definition TLS13_MT_ENCRYPTED_EXTENSIONS :: u8 where "TLS13_MT_ENCRYPTED_EXTENSIONS = 8"
definition TLS13_MT_CERTIFICATE :: u8 where "TLS13_MT_CERTIFICATE = 11"
definition TLS13_MT_CERTIFICATE_REQUEST :: u8 where "TLS13_MT_CERTIFICATE_REQUEST = 13"
definition TLS13_MT_CERTIFICATE_VERIFY :: u8 where "TLS13_MT_CERTIFICATE_VERIFY = 15"
definition TLS13_MT_FINISHED :: u8 where "TLS13_MT_FINISHED = 20"

lemmas hs_mt_defs = TLS13_HS_CLIENT_def TLS13_HS_SERVER_def TLS13_MT_CLIENT_HELLO_def TLS13_MT_SERVER_HELLO_def
  TLS13_MT_END_OF_EARLY_DATA_def TLS13_MT_ENCRYPTED_EXTENSIONS_def TLS13_MT_CERTIFICATE_def
  TLS13_MT_CERTIFICATE_REQUEST_def TLS13_MT_CERTIFICATE_VERIFY_def TLS13_MT_FINISHED_def

text \<open>
  An entry of \<open>state_machine\<close>.  The handlers are looked up by message type; \<open>sent\<close>
  is the only one that may be missing, so the entry says whether there is one.
\<close>

record handshake_action =
  act_handshake_type :: u8
  act_sender :: u8
  act_handshake_complete :: bool
  act_send_preserve_transcript_hash :: bool
  act_recv_preserve_transcript_hash :: bool
  act_has_sent :: bool

definition action :: "u8 \<Rightarrow> u8 \<Rightarrow> bool \<Rightarrow> bool \<Rightarrow> bool \<Rightarrow> bool \<Rightarrow> handshake_action" where
  "action t s complete snd_pres rcv_pres has_sent =
     \<lparr>act_handshake_type = t, act_sender = s, act_handshake_complete = complete,
      act_send_preserve_transcript_hash = snd_pres, act_recv_preserve_transcript_hash = rcv_pres,
      act_has_sent = has_sent\<rparr>"

fun state_machine :: "message_type \<Rightarrow> handshake_action" where
  "state_machine CLIENT_HELLO = action TLS13_MT_CLIENT_HELLO TLS13_HS_CLIENT False False False True"
| "state_machine CLIENT_HELLO_RETRY = action TLS13_MT_CLIENT_HELLO TLS13_HS_CLIENT False False False False"
| "state_machine CLIENT_END_OF_EARLY_DATA =
     action TLS13_MT_END_OF_EARLY_DATA TLS13_HS_CLIENT False False False False"
| "state_machine CLIENT_CERTIFICATE = action TLS13_MT_CERTIFICATE TLS13_HS_CLIENT False True False False"
| "state_machine CLIENT_CERTIFICATE_VERIFY =
     action TLS13_MT_CERTIFICATE_VERIFY TLS13_HS_CLIENT False False True False"
| "state_machine CLIENT_FINISHED = action TLS13_MT_FINISHED TLS13_HS_CLIENT False False True True"
| "state_machine SERVER_HELLO = action TLS13_MT_SERVER_HELLO TLS13_HS_SERVER False False False True"
| "state_machine SERVER_HELLO_RETRY_REQUEST =
     action TLS13_MT_SERVER_HELLO TLS13_HS_SERVER False False False True"
| "state_machine SERVER_ENCRYPTED_EXTENSIONS =
     action TLS13_MT_ENCRYPTED_EXTENSIONS TLS13_HS_SERVER False False False False"
| "state_machine SERVER_CERTIFICATE = action TLS13_MT_CERTIFICATE TLS13_HS_SERVER False True False False"
| "state_machine SERVER_CERTIFICATE_REQUEST =
     action TLS13_MT_CERTIFICATE_REQUEST TLS13_HS_SERVER False False False False"
| "state_machine SERVER_CERTIFICATE_VERIFY =
     action TLS13_MT_CERTIFICATE_VERIFY TLS13_HS_SERVER False False True False"
| "state_machine SERVER_FINISHED = action TLS13_MT_FINISHED TLS13_HS_SERVER False True True True"
| "state_machine APPLICATION_DATA = action 0 0 True False False False"
| "state_machine INVALID = action 0 0 False False False False"

text \<open>
  The rows of \<open>handshakes\<close>; a row is filled up to its end with \<open>INVALID\<close> (zero),
  and so are the rows that the initialiser does not mention.
\<close>

definition handshake_count :: nat where "handshake_count = 20"

definition handshakes :: "u8 \<Rightarrow> message_type list" where
  "handshakes t =
     (if t = INITIAL then
        [CLIENT_HELLO, SERVER_HELLO_RETRY_REQUEST, CLIENT_HELLO_RETRY, SERVER_HELLO]
      else if t = NEGOTIATED then
        [CLIENT_HELLO, SERVER_HELLO_RETRY_REQUEST, CLIENT_HELLO_RETRY, SERVER_HELLO,
         SERVER_ENCRYPTED_EXTENSIONS, SERVER_CERTIFICATE_REQUEST, SERVER_CERTIFICATE,
         SERVER_CERTIFICATE_VERIFY, SERVER_FINISHED, CLIENT_CERTIFICATE, CLIENT_FINISHED, APPLICATION_DATA]
      else if t = NEGOTIATED OR WITHOUT_HRR then
        [CLIENT_HELLO, SERVER_HELLO, SERVER_ENCRYPTED_EXTENSIONS, SERVER_CERTIFICATE_REQUEST,
         SERVER_CERTIFICATE, SERVER_CERTIFICATE_VERIFY, SERVER_FINISHED, CLIENT_CERTIFICATE,
         CLIENT_FINISHED, APPLICATION_DATA]
      else if t = NEGOTIATED OR WITHOUT_CR then
        [CLIENT_HELLO, SERVER_HELLO_RETRY_REQUEST, CLIENT_HELLO_RETRY, SERVER_HELLO,
         SERVER_ENCRYPTED_EXTENSIONS, SERVER_CERTIFICATE, SERVER_CERTIFICATE_VERIFY, SERVER_FINISHED,
         CLIENT_FINISHED, APPLICATION_DATA]
      else if t = NEGOTIATED OR WITHOUT_HRR OR WITHOUT_CR then
        [CLIENT_HELLO, SERVER_HELLO, SERVER_ENCRYPTED_EXTENSIONS, SERVER_CERTIFICATE,
         SERVER_CERTIFICATE_VERIFY, SERVER_FINISHED, CLIENT_FINISHED, APPLICATION_DATA]
      else if t = NEGOTIATED OR WITH_PSK then
        [CLIENT_HELLO, SERVER_HELLO_RETRY_REQUEST, CLIENT_HELLO_RETRY, SERVER_HELLO,
         SERVER_ENCRYPTED_EXTENSIONS, SERVER_FINISHED, CLIENT_FINISHED, APPLICATION_DATA]
      else if t = NEGOTIATED OR WITHOUT_HRR OR WITH_PSK then
        [CLIENT_HELLO, SERVER_HELLO, SERVER_ENCRYPTED_EXTENSIONS, SERVER_FINISHED, CLIENT_FINISHED,
         APPLICATION_DATA]
      else if t = NEGOTIATED OR WITH_CCV then
        [CLIENT_HELLO, SERVER_HELLO_RETRY_REQUEST, CLIENT_HELLO_RETRY, SERVER_HELLO,
         SERVER_ENCRYPTED_EXTENSIONS, SERVER_CERTIFICATE_REQUEST, SERVER_CERTIFICATE,
         SERVER_CERTIFICATE_VERIFY, SERVER_FINISHED, CLIENT_CERTIFICATE, CLIENT_CERTIFICATE_VERIFY,
         CLIENT_FINISHED, APPLICATION_DATA]
      else if t = NEGOTIATED OR WITHOUT_HRR OR WITH_CCV then
        [CLIENT_HELLO, SERVER_HELLO, SERVER_ENCRYPTED_EXTENSIONS, SERVER_CERTIFICATE_REQUEST,
         SERVER_CERTIFICATE, SERVER_CERTIFICATE_VERIFY, SERVER_FINISHED, CLIENT_CERTIFICATE,
         CLIENT_CERTIFICATE_VERIFY, CLIENT_FINISHED, APPLICATION_DATA]
      else [])"

section \<open>The context and what it calls\<close>

record 'e tls13_hs =
  mode :: u8
  hs_type :: u8
  handshake_started :: bool
  handshake_completed :: bool
  need_flush :: bool
  send_dummy_ccs :: bool
  send_dummy_ccs_after :: bool
  hs_msg :: bool
  alert :: u8
  method_version :: nat
  legacy_state :: int
  env :: 'e

record 'e tls13_ctx =
  message_number :: nat
  hs :: "'e tls13_hs"

type_synonym 'e call_bool = "'e tls13_hs \<Rightarrow> bool \<times> 'e tls13_hs"
type_synonym 'e call_int = "'e tls13_hs \<Rightarrow> int \<times> 'e tls13_hs"
type_synonym 'e call_unit = "'e tls13_hs \<Rightarrow> 'e tls13_hs"

record 'e hs_calls =
  c_record_layer_flush :: "'e call_int"
  c_send_dummy_ccs :: "'e call_int"
  c_send_alert :: "u8 \<Rightarrow> 'e call_int"
  c_record_layer_completed :: "'e call_unit"
  c_msg_new :: "'e call_bool"
  c_msg_start :: "u8 \<Rightarrow> 'e call_bool"
  c_msg_finish :: "'e call_bool"
  c_msg_send :: "'e call_int"
  c_msg_recv :: "'e call_int"
  c_msg_type :: "'e \<Rightarrow> u8"
  c_msg_content :: "'e call_bool"
  c_cbs_len :: "'e \<Rightarrow> nat"
  c_msg_free :: "'e call_unit"
  c_transcript_record :: "'e call_bool"
  c_transcript_hash_value :: "'e call_bool"
  c_set_errorx :: "'e call_unit"
  c_message_sent_cb :: "'e call_unit"
  c_message_recv_cb :: "'e call_unit"
  c_info_cb :: "int \<Rightarrow> 'e call_unit"
  c_send :: "message_type \<Rightarrow> 'e call_bool"
  c_sent :: "message_type \<Rightarrow> 'e call_bool"
  c_recv :: "message_type \<Rightarrow> 'e call_bool"

definition TLS13_IO_USE_LEGACY :: int where "TLS13_IO_USE_LEGACY = -6"
definition TLS13_ALERT_UNEXPECTED_MESSAGE :: u8 where "TLS13_ALERT_UNEXPECTED_MESSAGE = 10"
definition TLS13_ALERT_DECODE_ERROR :: u8 where "TLS13_ALERT_DECODE_ERROR = 50"
definition TLS1_3_VERSION :: nat where "TLS1_3_VERSION = 0x0304"

section \<open>The state machine\<close>

definition tls13_handshake_active_state :: "'e tls13_ctx \<Rightarrow> message_type" where
  "tls13_handshake_active_state ctx =
     (let t = hs_type (hs ctx); n = message_number ctx
      in if unat t \<ge> handshake_count then INVALID
         else if n \<ge> TLS13_NUM_MESSAGE_TYPES then INVALID
         else if n < length (handshakes t) then handshakes t ! n else INVALID)"

definition tls13_handshake_active_action :: "'e tls13_ctx \<Rightarrow> handshake_action option" where
  "tls13_handshake_active_action ctx =
     (let mt = tls13_handshake_active_state ctx
      in if mt = INVALID then None else Some (state_machine mt))"

definition tls13_handshake_advance_state_machine :: "'e tls13_ctx \<Rightarrow> bool \<times> 'e tls13_ctx" where
  "tls13_handshake_advance_state_machine ctx =
     (let n = (message_number ctx + 1) mod 256
      in (\<not> n \<ge> TLS13_NUM_MESSAGE_TYPES, ctx\<lparr>message_number := n\<rparr>))"

definition tls13_handshake_end_of_flight :: "'e tls13_ctx \<Rightarrow> handshake_action \<Rightarrow> bool" where
  "tls13_handshake_end_of_flight ctx previous =
     (case tls13_handshake_active_action ctx of
        None \<Rightarrow> True
      | Some current \<Rightarrow> act_sender current \<noteq> act_sender previous)"

subsection \<open>The legacy state\<close>

definition SSL_ST_CONNECT :: int where "SSL_ST_CONNECT = 0x1000"
definition SSL_ST_ACCEPT :: int where "SSL_ST_ACCEPT = 0x2000"
definition SSL_ST_OK :: int where "SSL_ST_OK = 0x03"

text \<open>Pairs of the \<open>recv\<close> and the \<open>send\<close> entry; a client state has the bit \<open>0x1000\<close>, a server state \<open>0x2000\<close>.\<close>

fun legacy_states :: "message_type \<Rightarrow> int \<times> int" where
  "legacy_states CLIENT_HELLO = (0x2110, 0x1110)"
| "legacy_states SERVER_HELLO_RETRY_REQUEST = (0x1120, 0x2130)"
| "legacy_states CLIENT_HELLO_RETRY = (0x2110, 0x1110)"
| "legacy_states SERVER_HELLO = (0x1120, 0x2130)"
| "legacy_states SERVER_CERTIFICATE_REQUEST = (0x1150, 0x2160)"
| "legacy_states SERVER_CERTIFICATE = (0x1130, 0x2140)"
| "legacy_states SERVER_FINISHED = (0x11D0, 0x21E0)"
| "legacy_states CLIENT_CERTIFICATE = (0x21A0, 0x1191)"
| "legacy_states CLIENT_FINISHED = (0x21C0, 0x11B0)"
| "legacy_states _ = (0, 0)"

definition tls13_handshake_legacy_state :: "'e tls13_ctx \<Rightarrow> int option" where
  "tls13_handshake_legacy_state ctx =
     (if \<not> handshake_started (hs ctx) then
        Some (if mode (hs ctx) = TLS13_HS_CLIENT then SSL_ST_CONNECT else SSL_ST_ACCEPT)
      else if handshake_completed (hs ctx) then Some SSL_ST_OK
      else let mt = tls13_handshake_active_state ctx
           in if mt = INVALID then None
              else case tls13_handshake_active_action ctx of
                  None \<Rightarrow> None
                | Some act \<Rightarrow>
                   Some (if act_sender act = mode (hs ctx) then snd (legacy_states mt)
                         else fst (legacy_states mt)))"

definition tls13_handshake_info_position :: "'e tls13_ctx \<Rightarrow> int" where
  "tls13_handshake_info_position ctx =
     (if \<not> handshake_started (hs ctx) then 0x10
      else if handshake_completed (hs ctx) then 0x20
      else if mode (hs ctx) = TLS13_HS_CLIENT then 0x1001 else 0x2001)"

definition tls13_handshake_legacy_info_callback :: "'e hs_calls \<Rightarrow> 'e tls13_ctx \<Rightarrow> bool \<times> 'e tls13_ctx" where
  "tls13_handshake_legacy_info_callback calls ctx =
     (case tls13_handshake_legacy_state ctx of
        None \<Rightarrow> (False, ctx)
      | Some state \<Rightarrow>
         (if state = 0 then (True, ctx)
          else (True, ctx\<lparr>hs := c_info_cb calls (tls13_handshake_info_position ctx) (hs ctx)\<rparr>)))"

definition tls13_handshake_set_legacy_state :: "'e tls13_ctx \<Rightarrow> bool \<times> 'e tls13_ctx" where
  "tls13_handshake_set_legacy_state ctx =
     (case tls13_handshake_legacy_state ctx of
        None \<Rightarrow> (False, ctx)
      | Some state \<Rightarrow>
         (if state = 0 then (True, ctx) else (True, ctx\<lparr>hs := (hs ctx)\<lparr>legacy_state := state\<rparr>\<rparr>)))"

subsection \<open>Sending and receiving one message\<close>

text \<open>
  The steps of \<open>tls13_handshake_send_action\<close> and \<open>tls13_handshake_recv_action\<close> are
  chained with early returns: \<open>Inl ret\<close> leaves the function with \<open>ret\<close>, \<open>Inr ()\<close>
  goes on.
\<close>

type_synonym 'e hs_step = "'e tls13_hs \<Rightarrow> (int + unit) \<times> 'e tls13_hs"

definition andthen :: "'e hs_step \<Rightarrow> 'e hs_step \<Rightarrow> 'e hs_step" where
  "andthen f g h = (case f h of (Inl r, h) \<Rightarrow> (Inl r, h) | (Inr _, h) \<Rightarrow> g h)"

fun steps :: "'e hs_step list \<Rightarrow> 'e hs_step" where
  "steps [] h = (Inr (), h)"
| "steps (f # fs) h = andthen f (steps fs) h"

definition or_fail :: "'e call_bool \<Rightarrow> 'e hs_step" where
  "or_fail f h = (case f h of (ok, h) \<Rightarrow> (if ok then Inr () else Inl TLS13_IO_FAILURE, h))"

definition or_ret :: "'e call_int \<Rightarrow> 'e hs_step" where
  "or_ret f h = (case f h of (ret, h) \<Rightarrow> (if ret \<le> 0 then Inl ret else Inr (), h))"

definition when_step :: "('e tls13_hs \<Rightarrow> bool) \<Rightarrow> 'e hs_step \<Rightarrow> 'e hs_step" where
  "when_step c f h = (if c h then f h else (Inr (), h))"

definition change :: "'e call_unit \<Rightarrow> 'e hs_step" where
  "change f h = (Inr (), f h)"

definition hs_done :: "'e hs_step \<Rightarrow> 'e call_int" where
  "hs_done f h = (case f h of (Inl r, h) \<Rightarrow> (r, h) | (Inr _, h) \<Rightarrow> (TLS13_IO_SUCCESS, h))"

text \<open>A pending dummy ChangeCipherSpec, from an earlier call that could not complete.\<close>

definition send_pending_ccs :: "'e hs_calls \<Rightarrow> 'e hs_step" where
  "send_pending_ccs calls h =
     (if \<not> send_dummy_ccs h then (Inr (), h)
      else case c_send_dummy_ccs calls h of
          (ret, h) \<Rightarrow>
           (if ret \<noteq> TLS13_IO_SUCCESS then (Inl ret, h)
            else let h = h\<lparr>send_dummy_ccs := False\<rparr>
                 in if send_dummy_ccs_after h
                    then (Inl TLS13_IO_SUCCESS, h\<lparr>send_dummy_ccs_after := False\<rparr>)
                    else (Inr (), h)))"

definition build_msg :: "'e hs_calls \<Rightarrow> message_type \<Rightarrow> 'e hs_step" where
  "build_msg calls mt h =
     (if hs_msg h then (Inr (), h)
      else case c_msg_new calls h of
          (False, h) \<Rightarrow> (Inl TLS13_IO_FAILURE, h)
        | (True, h) \<Rightarrow>
           steps [or_fail (c_msg_start calls (act_handshake_type (state_machine mt))),
                  or_fail (c_send calls mt), or_fail (c_msg_finish calls)] (h\<lparr>hs_msg := True\<rparr>))"

definition send_ccs_after :: "'e hs_calls \<Rightarrow> 'e hs_step" where
  "send_ccs_after calls h =
     (if \<not> send_dummy_ccs_after h then (Inr (), h)
      else case c_send_dummy_ccs calls (h\<lparr>send_dummy_ccs := True\<rparr>) of
          (ret, h) \<Rightarrow>
           (if ret \<noteq> TLS13_IO_SUCCESS then (Inl ret, h)
            else (Inr (), h\<lparr>send_dummy_ccs := False, send_dummy_ccs_after := False\<rparr>)))"

definition tls13_handshake_send_action :: "'e hs_calls \<Rightarrow> message_type \<Rightarrow> 'e call_int" where
  "tls13_handshake_send_action calls mt =
     (let act = state_machine mt
      in hs_done (steps
          [send_pending_ccs calls,
           build_msg calls mt,
           or_ret (c_msg_send calls),
           or_fail (c_transcript_record calls),
           when_step (\<lambda>_. act_send_preserve_transcript_hash act) (or_fail (c_transcript_hash_value calls)),
           change (c_message_sent_cb calls),
           change (\<lambda>h. (c_msg_free calls h)\<lparr>hs_msg := False\<rparr>),
           when_step (\<lambda>_. act_has_sent act) (or_fail (c_sent calls mt)),
           send_ccs_after calls]))"

definition recv_start_msg :: "'e hs_calls \<Rightarrow> 'e hs_step" where
  "recv_start_msg calls h =
     (if hs_msg h then (Inr (), h)
      else case c_msg_new calls h of
          (False, h) \<Rightarrow> (Inl TLS13_IO_FAILURE, h)
        | (True, h) \<Rightarrow> (Inr (), h\<lparr>hs_msg := True\<rparr>))"

definition recv_check_type :: "'e hs_calls \<Rightarrow> message_type \<Rightarrow> 'e hs_step" where
  "recv_check_type calls mt h =
     (let msg_type = c_msg_type calls (env h); expected = act_handshake_type (state_machine mt)
      in if msg_type \<noteq> expected \<and>
            (msg_type \<noteq> TLS13_MT_CERTIFICATE \<or> expected \<noteq> TLS13_MT_CERTIFICATE_REQUEST)
         then (case c_send_alert calls TLS13_ALERT_UNEXPECTED_MESSAGE h of (ret, h) \<Rightarrow> (Inl ret, h))
         else (Inr (), h))"

text \<open>The part from the call of the handler to the label \<open>err\<close>.\<close>

definition recv_process :: "'e hs_calls \<Rightarrow> message_type \<Rightarrow> 'e hs_step" where
  "recv_process calls mt h =
     (case c_recv calls mt h of
        (False, h) \<Rightarrow> (Inl TLS13_IO_FAILURE, (c_msg_free calls h)\<lparr>hs_msg := False\<rparr>)
      | (True, h) \<Rightarrow>
         (if c_cbs_len calls (env h) \<noteq> 0 then
            (let h = (c_set_errorx calls h)\<lparr>alert := TLS13_ALERT_DECODE_ERROR\<rparr>
             in (Inl TLS13_IO_FAILURE, (c_msg_free calls h)\<lparr>hs_msg := False\<rparr>))
          else let legacy = method_version h < TLS1_3_VERSION
               in (if legacy then Inl TLS13_IO_USE_LEGACY else Inr (),
                   (c_msg_free calls h)\<lparr>hs_msg := False\<rparr>)))"

definition tls13_handshake_recv_action :: "'e hs_calls \<Rightarrow> message_type \<Rightarrow> 'e call_int" where
  "tls13_handshake_recv_action calls mt =
     (let act = state_machine mt
      in hs_done (steps
          [recv_start_msg calls,
           or_ret (c_msg_recv calls),
           when_step (\<lambda>_. act_recv_preserve_transcript_hash act) (or_fail (c_transcript_hash_value calls)),
           or_fail (c_transcript_record calls),
           change (c_message_recv_cb calls),
           recv_check_type calls mt,
           or_fail (c_msg_content calls),
           recv_process calls mt]))"

subsection \<open>The loop\<close>

text \<open>
  One turn of the loop of \<open>tls13_handshake_perform\<close>: \<open>Some ret\<close> returns from the
  function, \<^const>\<open>None\<close> goes round.
\<close>

definition perform_flush :: "'e hs_calls \<Rightarrow> 'e hs_step" where
  "perform_flush calls h =
     (if \<not> need_flush h then (Inr (), h)
      else case c_record_layer_flush calls h of
          (ret, h) \<Rightarrow>
           (if ret \<noteq> TLS13_IO_SUCCESS then (Inl ret, h) else (Inr (), h\<lparr>need_flush := False\<rparr>)))"

definition perform_complete :: "'e hs_calls \<Rightarrow> 'e tls13_ctx \<Rightarrow> int \<times> 'e tls13_ctx" where
  "perform_complete calls ctx =
     (let ctx = ctx\<lparr>hs := c_record_layer_completed calls ((hs ctx)\<lparr>handshake_completed := True\<rparr>)\<rparr>
      in case tls13_handshake_set_legacy_state ctx of
           (False, ctx) \<Rightarrow> (TLS13_IO_FAILURE, ctx)
         | (True, ctx) \<Rightarrow>
            (case tls13_handshake_legacy_info_callback calls ctx of
               (False, ctx) \<Rightarrow> (TLS13_IO_FAILURE, ctx)
             | (True, ctx) \<Rightarrow> (TLS13_IO_SUCCESS, ctx)))"

text \<open>What follows a message that was sent or received.\<close>

definition perform_next ::
  "'e hs_calls \<Rightarrow> handshake_action \<Rightarrow> bool \<Rightarrow> 'e tls13_ctx \<Rightarrow> int option \<times> 'e tls13_ctx" where
  "perform_next calls act sending ctx =
     (case tls13_handshake_legacy_info_callback calls ctx of
        (False, ctx) \<Rightarrow> (Some TLS13_IO_FAILURE, ctx)
      | (True, ctx) \<Rightarrow>
         (case tls13_handshake_advance_state_machine ctx of
            (False, ctx) \<Rightarrow> (Some TLS13_IO_FAILURE, ctx)
          | (True, ctx) \<Rightarrow>
             (let ctx = (if sending
                         then ctx\<lparr>hs := (hs ctx)\<lparr>need_flush := tls13_handshake_end_of_flight ctx act\<rparr>\<rparr>
                         else ctx)
              in case tls13_handshake_set_legacy_state ctx of
                   (False, ctx) \<Rightarrow> (Some TLS13_IO_FAILURE, ctx)
                 | (True, ctx) \<Rightarrow> (None, ctx))))"

definition perform_turn :: "'e hs_calls \<Rightarrow> 'e tls13_ctx \<Rightarrow> int option \<times> 'e tls13_ctx" where
  "perform_turn calls ctx =
     (case tls13_handshake_active_action ctx of
        None \<Rightarrow> (Some TLS13_IO_FAILURE, ctx)
      | Some act \<Rightarrow>
         (let mt = tls13_handshake_active_state ctx
          in case perform_flush calls (hs ctx) of
            (Inl ret, h) \<Rightarrow> (Some ret, ctx\<lparr>hs := h\<rparr>)
          | (Inr _, h) \<Rightarrow>
             (if act_handshake_complete act
              then (case perform_complete calls (ctx\<lparr>hs := h\<rparr>) of (ret, ctx) \<Rightarrow> (Some ret, ctx))
              else let sending = act_sender act = mode h
               in if alert h \<noteq> 0 then
                    (case c_send_alert calls (alert h) h of (ret, h) \<Rightarrow> (Some ret, ctx\<lparr>hs := h\<rparr>))
                  else case (if sending then tls13_handshake_send_action calls mt h
                             else tls13_handshake_recv_action calls mt h) of
                      (ret, h) \<Rightarrow>
                       (if alert h \<noteq> 0 then
                          (case c_send_alert calls (alert h) h of (ret, h) \<Rightarrow> (Some ret, ctx\<lparr>hs := h\<rparr>))
                        else if ret \<le> 0 then (Some ret, ctx\<lparr>hs := h\<rparr>)
                        else perform_next calls act sending (ctx\<lparr>hs := h\<rparr>)))))"

lemma perform_next_advances:
  "perform_next calls act sending ctx = (None, ctx') \<Longrightarrow> message_number ctx < 15 \<Longrightarrow>
   message_number ctx' = message_number ctx + 1 \<and> message_number ctx' < 15"
  by (auto simp: perform_next_def tls13_handshake_legacy_info_callback_def tls13_handshake_set_legacy_state_def
      tls13_handshake_advance_state_machine_def TLS13_NUM_MESSAGE_TYPES_def Let_def
      split: option.splits prod.splits bool.splits if_splits)

lemma active_in_range:
  "tls13_handshake_active_action ctx = Some act \<Longrightarrow> message_number ctx < 15"
  by (auto simp: tls13_handshake_active_action_def tls13_handshake_active_state_def TLS13_NUM_MESSAGE_TYPES_def
      Let_def split: if_splits)

lemma perform_turn_advances:
  "perform_turn calls ctx = (None, ctx') \<Longrightarrow> message_number ctx' = message_number ctx + 1 \<and> message_number ctx' < 15"
  by (auto simp: perform_turn_def Let_def split: option.splits prod.splits if_splits sum.splits
      dest!: active_in_range perform_next_advances)

function perform_loop :: "'e hs_calls \<Rightarrow> 'e tls13_ctx \<Rightarrow> int \<times> 'e tls13_ctx" where
  "perform_loop calls ctx =
     (case perform_turn calls ctx of
        (Some ret, ctx) \<Rightarrow> (ret, ctx)
      | (None, ctx) \<Rightarrow> perform_loop calls ctx)"
  by pat_completeness auto

termination
  by (relation "measure (\<lambda>(calls, ctx). 15 - message_number ctx)")
    (auto dest!: perform_turn_advances [OF sym])

declare perform_loop.simps [simp del]

definition tls13_handshake_perform :: "'e hs_calls \<Rightarrow> 'e tls13_ctx \<Rightarrow> int \<times> 'e tls13_ctx" where
  "tls13_handshake_perform calls ctx =
     (if handshake_started (hs ctx) then perform_loop calls ctx
      else case tls13_handshake_set_legacy_state ctx of
          (False, ctx) \<Rightarrow> (TLS13_IO_FAILURE, ctx)
        | (True, ctx) \<Rightarrow>
           (case tls13_handshake_legacy_info_callback calls ctx of
              (False, ctx) \<Rightarrow> (TLS13_IO_FAILURE, ctx)
            | (True, ctx) \<Rightarrow>
               (case tls13_handshake_set_legacy_state (ctx\<lparr>hs := (hs ctx)\<lparr>handshake_started := True\<rparr>\<rparr>) of
                  (False, ctx) \<Rightarrow> (TLS13_IO_FAILURE, ctx)
                | (True, ctx) \<Rightarrow> perform_loop calls ctx)))"

end
