(* ===== verification/TLS13_Order.thy ===== *)
theory TLS13_Order
  imports TLS13_Handshake
begin

text \<open>
  The order of messages that the state machine of tls13_handshake.c enforces.

  The table \<open>handshakes\<close> alone does not give it: handlers change the row while the
  handshake is running, by setting flags in \<open>hs_type\<close>.  This theory records which
  flags which handler of tls13_client.c and tls13_server.c sets (\<open>recv_flags\<close>,
  \<open>send_flags\<close>, \<open>sent_flags\<close>) and what the other calls leave alone (\<open>calls_ok\<close>).

  The order is stated of the messages themselves: \<open>log\<close> lists the types of the
  messages that \<open>tls13_handshake_msg_send\<close> and \<open>tls13_handshake_msg_recv\<close> completed,
  and the alerts that were sent.  An invariant shows that it is at every time the
  beginning of the current row.  The transcript hash is a part of \<open>env\<close> that nothing
  here depends on: handlers freeze it, reset it and record synthetic messages.
\<close>

section \<open>What the called functions may do\<close>




text \<open>
  What goes over the wire during a handshake.  The function \<open>log\<close> reads off the state
  of the called functions the list of the events so far.
\<close>

datatype wire_event = Message u8 | Alert


definition same_stage :: "'e tls13_hs \<Rightarrow> 'e tls13_hs \<Rightarrow> bool" where
  "same_stage h h' \<longleftrightarrow> mode h' = mode h \<and> hs_type h' = hs_type h \<and> hs_msg h' = hs_msg h
     \<and> handshake_completed h' = handshake_completed h \<and> send_dummy_ccs h' = send_dummy_ccs h
     \<and> send_dummy_ccs_after h' = send_dummy_ccs_after h"

definition quiet0 :: "('e \<Rightarrow> wire_event list) \<Rightarrow> 'e tls13_hs \<Rightarrow> 'e tls13_hs \<Rightarrow> bool" where
  "quiet0 log h h' \<longleftrightarrow> same_stage h h' \<and> log (env h') = log (env h)"








section \<open>Rows and reachable positions\<close>

definition row_types :: "u8 \<Rightarrow> wire_event list" where
  "row_types t = map (\<lambda>mt. Message (act_handshake_type (state_machine mt))) (handshakes t)"

text \<open>
  The positions that occur: anywhere in the rows without a client CertificateVerify,
  and from the client's Certificate on in the rows with one.
\<close>

definition positions :: "(u8 \<times> nat) list" where
  "positions = map (Pair 0) [0..<4] @ map (Pair 1) [0..<12] @ map (Pair 3) [0..<10] @ map (Pair 5) [0..<10]
     @ map (Pair 7) [0..<8] @ map (Pair 0x11) [9..<13] @ map (Pair 0x13) [7..<11]"

definition reach :: "u8 \<Rightarrow> nat \<Rightarrow> bool" where
  "reach t n \<longleftrightarrow> (t, n) \<in> set positions"

abbreviation mt_type :: "message_type \<Rightarrow> u8" where "mt_type mt \<equiv> act_handshake_type (state_machine mt)"
abbreviation mt_sender :: "message_type \<Rightarrow> u8" where "mt_sender mt \<equiv> act_sender (state_machine mt)"














section \<open>Triples for the steps of an action\<close>









section \<open>The invariant\<close>


text \<open>
  At position \<open>n\<close> with the message there not yet processed - or processed, but the
  dummy ChangeCipherSpec behind it still to be sent.
\<close>

definition hs_core :: "'e tls13_hs \<Rightarrow> nat \<Rightarrow> message_type \<Rightarrow> bool" where
  "hs_core h n mt \<longleftrightarrow> (mode h = 1 \<or> mode h = 2) \<and> \<not> handshake_completed h \<and> reach (hs_type h) n
     \<and> handshakes (hs_type h) ! n = mt"

definition hs_inv :: "'e hs_calls \<Rightarrow> ('e \<Rightarrow> wire_event list) \<Rightarrow> nat \<Rightarrow> 'e tls13_hs \<Rightarrow> bool" where
  "hs_inv calls log n h \<longleftrightarrow> (let t = hs_type h; mt = handshakes t ! n in
     hs_core h n mt
     \<and> (send_dummy_ccs_after h \<longrightarrow>
          send_dummy_ccs h \<and> mt_sender mt = mode h \<and> \<not> hs_msg h \<and> reach t (Suc n))
     \<and> log (env h) = take (if send_dummy_ccs_after h then Suc n else n) (row_types t)
     \<and> (hs_msg h \<and> mt_sender mt = mode h \<longrightarrow> c_msg_type calls (env h) = mt_type mt))"





lemma quiet0_inv:
  "quiet0 log h h' \<Longrightarrow> hs_inv calls log n h \<Longrightarrow> mt_sender (handshakes (hs_type h) ! n) \<noteq> mode h \<Longrightarrow> hs_inv calls log n h'"
  by (simp add: quiet0_def same_stage_def hs_inv_def hs_core_def Let_def)



subsection \<open>Sending\<close>






















subsection \<open>Receiving\<close>












section \<open>The loop\<close>

















section \<open>Properties\<close>















end
