(* ===== verification/Lhash.thy ===== *)
theory Lhash
  imports Libc_Alloc "HOL-Library.Multiset" "HOL-Library.Code_Target_Nat"
begin

text \<open>
  The linear hash table of libcrypto/lhash/lhash.c, which holds the session
  caches, the object tables and the configuration.  The table grows and shrinks by
  one bucket at a time: \<open>pmax\<close> buckets are addressed by \<open>hash % pmax\<close>, and the
  first \<open>p\<close> of them have been split with \<open>hash % num_alloc_nodes\<close>.  A chain of
  nodes is a list; the pointer to a link that \<open>getrn\<close> returns is a bucket and a
  position in its chain, past the last node where the C pointer refers to NULL.
\<close>

section \<open>State\<close>

record 'a lhash_node =
  ln_data :: 'a
  ln_hash :: u64

record 'a lhash =
  lh_b :: "'a lhash_node list list"
  lh_comp :: "'a \<Rightarrow> 'a \<Rightarrow> int"
  lh_hash :: "'a \<Rightarrow> u64"
  lh_num_nodes :: nat
  lh_num_alloc_nodes :: nat
  lh_p :: nat
  lh_pmax :: nat
  lh_up_load :: nat
  lh_down_load :: nat
  lh_items :: nat
  lh_err :: nat

definition MIN_NODES :: nat where "MIN_NODES = 16"
definition LH_LOAD_MULT :: nat where "LH_LOAD_MULT = 256"
definition UP_LOAD :: nat where "UP_LOAD = 2 * LH_LOAD_MULT"
definition DOWN_LOAD :: nat where "DOWN_LOAD = LH_LOAD_MULT"

text \<open>Sizes with 64-bit pointers: a node, the table, a pointer.\<close>

definition sizeof_node :: nat where "sizeof_node = 24"
definition sizeof_lhash :: nat where "sizeof_lhash = 72"
definition sizeof_ptr :: nat where "sizeof_ptr = 8"

text \<open>Counters are \<open>unsigned int\<close> or \<open>unsigned long\<close>.\<close>

abbreviation uint_mod :: "nat \<Rightarrow> nat" where "uint_mod n \<equiv> n mod 2 ^ 32"
abbreviation ulong_mod :: "nat \<Rightarrow> nat" where "ulong_mod n \<equiv> n mod 2 ^ 64"

section \<open>Growing and shrinking\<close>

text \<open>The loop of \<open>expand\<close>: nodes that belong to the new bucket are pushed onto its front.\<close>

fun expand_loop :: "nat \<Rightarrow> nat \<Rightarrow> 'a lhash_node list \<Rightarrow> 'a lhash_node list \<Rightarrow>
    'a lhash_node list \<times> 'a lhash_node list" where
  "expand_loop nni p [] n2 = ([], n2)"
| "expand_loop nni p (np # nps) n2 =
     (if unat (ln_hash np) mod nni \<noteq> p then expand_loop nni p nps (np # n2)
      else let (n1, n2) = expand_loop nni p nps n2 in (np # n1, n2))"

definition expand :: "(nat \<Rightarrow> bool) \<Rightarrow> 'a lhash \<Rightarrow> 'a lhash" where
  "expand alloc lh =
     (let p = lh_p lh; nni = lh_num_alloc_nodes lh;
          lh = lh\<lparr>lh_num_nodes := uint_mod (lh_num_nodes lh + 1), lh_p := uint_mod (p + 1)\<rparr>;
          (n1, n2) = expand_loop nni p (lh_b lh ! p) [];
          lh = lh\<lparr>lh_b := (lh_b lh)[p := n1, p + lh_pmax lh := n2]\<rparr>
      in if lh_p lh \<ge> lh_pmax lh then
           (let j = uint_mod (lh_num_alloc_nodes lh * 2)
            in case reallocarray alloc [] (lh_b lh) j sizeof_ptr of
                 None \<Rightarrow> lh\<lparr>lh_err := lh_err lh + 1, lh_p := 0\<rparr>
               | Some n \<Rightarrow> lh\<lparr>lh_pmax := lh_num_alloc_nodes lh, lh_num_alloc_nodes := j, lh_p := 0,
                     lh_b := take (lh_num_alloc_nodes lh) n @ replicate (j - lh_num_alloc_nodes lh) []\<rparr>)
         else lh)"

definition contract :: "(nat \<Rightarrow> bool) \<Rightarrow> 'a lhash \<Rightarrow> 'a lhash" where
  "contract alloc lh =
     (let np = lh_b lh ! (lh_p lh + lh_pmax lh - 1);
          lh = lh\<lparr>lh_b := (lh_b lh)[lh_p lh + lh_pmax lh - 1 := []]\<rparr>;
          shrink = (\<lambda>lh. lh\<lparr>lh_num_nodes := lh_num_nodes lh - 1,
                            lh_b := (lh_b lh)[lh_p lh := lh_b lh ! lh_p lh @ np]\<rparr>)
      in if lh_p lh = 0 then
           (case reallocarray alloc [] (lh_b lh) (lh_pmax lh) sizeof_ptr of
              None \<Rightarrow> lh\<lparr>lh_err := lh_err lh + 1\<rparr>
            | Some n \<Rightarrow> shrink (lh\<lparr>lh_num_alloc_nodes := lh_num_alloc_nodes lh div 2,
                 lh_pmax := lh_pmax lh div 2, lh_p := lh_pmax lh div 2 - 1, lh_b := n\<rparr>))
         else shrink (lh\<lparr>lh_p := lh_p lh - 1\<rparr>))"

section \<open>Finding, inserting, deleting\<close>

fun chain_find :: "('a \<Rightarrow> 'a \<Rightarrow> int) \<Rightarrow> u64 \<Rightarrow> 'a \<Rightarrow> 'a lhash_node list \<Rightarrow> nat" where
  "chain_find cf h d [] = 0"
| "chain_find cf h d (n1 # ns) =
     (if ln_hash n1 \<noteq> h then Suc (chain_find cf h d ns)
      else if cf (ln_data n1) d = 0 then 0
      else Suc (chain_find cf h d ns))"

definition getrn :: "'a lhash \<Rightarrow> 'a \<Rightarrow> nat \<times> nat \<times> u64" where
  "getrn lh d =
     (let h = lh_hash lh d;
          nn = unat h mod lh_pmax lh;
          nn = (if nn < lh_p lh then unat h mod lh_num_alloc_nodes lh else nn)
      in (nn, chain_find (lh_comp lh) h d (lh_b lh ! nn), h))"

definition lh_new :: "(nat \<Rightarrow> bool) \<Rightarrow> ('a \<Rightarrow> u64) \<Rightarrow> ('a \<Rightarrow> 'a \<Rightarrow> int) \<Rightarrow> 'a lhash option" where
  "lh_new alloc h c =
     (if \<not> alloc sizeof_lhash then None
      else if \<not> alloc (MIN_NODES * sizeof_ptr) then None
      else Some \<lparr>lh_b = replicate MIN_NODES [], lh_comp = c, lh_hash = h, lh_num_nodes = MIN_NODES div 2,
        lh_num_alloc_nodes = MIN_NODES, lh_p = 0, lh_pmax = MIN_NODES div 2, lh_up_load = UP_LOAD,
        lh_down_load = DOWN_LOAD, lh_items = 0, lh_err = 0\<rparr>)"

definition lh_error :: "'a lhash \<Rightarrow> nat" where
  "lh_error lh = lh_err lh"

definition lh_num_items :: "'a lhash \<Rightarrow> nat" where
  "lh_num_items lh = lh_items lh"

text \<open>\<open>num_items * LH_LOAD_MULT / num_nodes\<close> in \<open>unsigned long\<close>.\<close>

definition load :: "'a lhash \<Rightarrow> nat" where
  "load lh = ulong_mod (lh_items lh * LH_LOAD_MULT) div lh_num_nodes lh"

definition lh_insert :: "(nat \<Rightarrow> bool) \<Rightarrow> 'a lhash \<Rightarrow> 'a \<Rightarrow> 'a option \<times> 'a lhash" where
  "lh_insert alloc lh d =
     (let lh = lh\<lparr>lh_err := 0\<rparr>;
          lh = (if lh_up_load lh \<le> load lh then expand alloc lh else lh);
          (nn, i, h) = getrn lh d; chain = lh_b lh ! nn
      in if i = length chain then
           (if \<not> alloc sizeof_node then (None, lh\<lparr>lh_err := lh_err lh + 1\<rparr>)
            else (None, lh\<lparr>lh_b := (lh_b lh)[nn := chain @ [\<lparr>ln_data = d, ln_hash = h\<rparr>]],
                           lh_items := ulong_mod (lh_items lh + 1)\<rparr>))
         else (Some (ln_data (chain ! i)),
               lh\<lparr>lh_b := (lh_b lh)[nn := chain[i := (chain ! i)\<lparr>ln_data := d\<rparr>]]\<rparr>))"

definition maybe_contract :: "(nat \<Rightarrow> bool) \<Rightarrow> 'a lhash \<Rightarrow> 'a lhash" where
  "maybe_contract alloc lh =
     (if lh_num_nodes lh > MIN_NODES \<and> lh_down_load lh \<ge> load lh then contract alloc lh else lh)"

definition lh_delete :: "(nat \<Rightarrow> bool) \<Rightarrow> 'a lhash \<Rightarrow> 'a \<Rightarrow> 'a option \<times> 'a lhash" where
  "lh_delete alloc lh d =
     (let lh = lh\<lparr>lh_err := 0\<rparr>;
          (nn, i, _) = getrn lh d; chain = lh_b lh ! nn
      in if i = length chain then (None, lh)
         else (Some (ln_data (chain ! i)),
               maybe_contract alloc
                 (lh\<lparr>lh_b := (lh_b lh)[nn := take i chain @ drop (i + 1) chain],
                     lh_items := ulong_mod (lh_items lh + (2 ^ 64 - 1))\<rparr>)))"

definition lh_retrieve :: "'a lhash \<Rightarrow> 'a \<Rightarrow> 'a option \<times> 'a lhash" where
  "lh_retrieve lh d =
     (let lh = lh\<lparr>lh_err := 0\<rparr>;
          (nn, i, _) = getrn lh d; chain = lh_b lh ! nn
      in (if i = length chain then None else Some (ln_data (chain ! i)), lh))"

section \<open>Walking\<close>

text \<open>
  The callback sees an item and the table, which it may change only by deleting
  that item: then the rest of the chain, whose address was saved before the
  call, is the one that was loaded with the bucket.  \<open>'s\<close> is the callback's own
  state (\<open>arg\<close> of \<open>lh_doall_arg\<close>).
\<close>

type_synonym ('a, 's) lh_callback = "'a \<Rightarrow> 'a lhash \<times> 's \<Rightarrow> 'a lhash \<times> 's"

fun doall_chain :: "('a, 's) lh_callback \<Rightarrow> 'a lhash_node list \<Rightarrow> 'a lhash \<times> 's \<Rightarrow> 'a lhash \<times> 's" where
  "doall_chain f [] s = s"
| "doall_chain f (a # n) s = doall_chain f n (f (ln_data a) s)"

fun doall_loop :: "('a, 's) lh_callback \<Rightarrow> nat \<Rightarrow> 'a lhash \<times> 's \<Rightarrow> 'a lhash \<times> 's" where
  "doall_loop f 0 s = s"
| "doall_loop f (Suc i) s = doall_loop f i (doall_chain f (lh_b (fst s) ! i) s)"

definition doall_util_fn :: "(nat \<Rightarrow> bool) \<Rightarrow> ('a, 's) lh_callback \<Rightarrow> 'a lhash \<times> 's \<Rightarrow> 'a lhash \<times> 's" where
  "doall_util_fn alloc f = (\<lambda>(lh, s).
     let down_load = lh_down_load lh;
         (lh, s) = doall_loop f (lh_num_nodes lh) (lh\<lparr>lh_down_load := 0\<rparr>, s)
     in (maybe_contract alloc (lh\<lparr>lh_down_load := down_load\<rparr>), s))"

definition lh_doall_arg :: "(nat \<Rightarrow> bool) \<Rightarrow> ('a, 's) lh_callback \<Rightarrow> 'a lhash \<times> 's \<Rightarrow> 'a lhash \<times> 's" where
  "lh_doall_arg alloc func s = doall_util_fn alloc func s"

definition lh_doall :: "(nat \<Rightarrow> bool) \<Rightarrow> ('a \<Rightarrow> 'a lhash \<Rightarrow> 'a lhash) \<Rightarrow> 'a lhash \<Rightarrow> 'a lhash" where
  "lh_doall alloc func lh = fst (doall_util_fn alloc (\<lambda>d (lh, s). (func d lh, s)) (lh, ()))"

section \<open>The default hash of strings\<close>

text \<open>
  The characters up to the terminating NUL; \<open>char\<close> is signed on amd64, so
  \<open>n | *c\<close> sign-extends the character.  \<open>ret >> (32 - r)\<close> is on \<open>unsigned long\<close>.
\<close>

fun strhash_loop :: "bytes \<Rightarrow> u64 \<Rightarrow> u64 \<Rightarrow> u64" where
  "strhash_loop [] n ret = ret"
| "strhash_loop (c # cs) n ret =
     (let v = n OR scast c;
          n = n + 0x100;
          r = unat ((drop_bit 2 v XOR v) AND 0x0f);
          ret = (if r \<noteq> 0 then push_bit r ret OR drop_bit (32 - r) ret else ret);
          ret = ret AND 0xFFFFFFFF;
          ret = ret XOR v * v
      in strhash_loop cs n ret)"

definition lh_strhash :: "bytes \<Rightarrow> u64" where
  "lh_strhash c =
     (if c = [] then 0
      else let ret = strhash_loop c 0x100 0 in drop_bit 16 ret XOR ret)"


section \<open>Addressing\<close>

definition bucket :: "nat \<Rightarrow> nat \<Rightarrow> nat \<Rightarrow> nat" where
  "bucket P p h = (if h mod P < p then h mod (2 * P) else h mod P)"

lemma mod_double: "h mod (2 * P) = h mod P \<or> h mod (2 * P) = h mod P + P" for h P :: nat
proof -
  have "h mod (P * 2) = P * (h div P mod 2) + h mod P" by (rule mod_mult2_eq)
  moreover have "h div P mod 2 = 0 \<or> h div P mod 2 = 1" by linarith
  ultimately show ?thesis by (auto simp: mult.commute)
qed

lemma bucket_less: "0 < P \<Longrightarrow> bucket P p h < P + p"
  using mod_double [of h P] by (auto simp: bucket_def intro: trans_less_add1)

lemma bucket_Suc: "bucket P (Suc p) h = (if h mod P = p then h mod (2 * P) else bucket P p h)"
  by (auto simp: bucket_def)

lemma bucket_full: "0 < P \<Longrightarrow> bucket P P h = bucket (2 * P) 0 h"
  by (simp add: bucket_def)

lemma bucket_at: "p < P \<Longrightarrow> bucket P p h = p \<longleftrightarrow> h mod P = p"
  using mod_double [of h P] by (auto simp: bucket_def)

lemma mset_concat_update:
  "i < length xs \<Longrightarrow> mset (concat (xs[i := y])) + mset (xs ! i) = mset (concat xs) + mset y"
proof (induction xs arbitrary: i)
  case Nil
  then show ?case by simp
next
  case (Cons x xs)
  show ?case
  proof (cases i)
    case 0
    then show ?thesis by simp
  next
    case (Suc j)
    have "mset (concat (xs[j := y])) + mset (xs ! j) = mset (concat xs) + mset y"
      using Cons Suc by simp
    with Suc show ?thesis by (simp add: add.assoc)
  qed
qed

section \<open>Invariant\<close>

definition placed :: "nat \<Rightarrow> nat \<Rightarrow> 'a lhash_node list list \<Rightarrow> bool" where
  "placed P p b \<longleftrightarrow> (\<forall>i<length b. \<forall>n\<in>set (b ! i). bucket P p (unat (ln_hash n)) = i)"

definition keys_ok :: "('a \<Rightarrow> u64) \<Rightarrow> ('a \<Rightarrow> 'a \<Rightarrow> int) \<Rightarrow> bool" where
  "keys_ok h c \<longleftrightarrow> (\<forall>x. c x x = 0) \<and> (\<forall>x y. c x y = 0 \<longrightarrow> c y x = 0)
     \<and> (\<forall>x y z. c x y = 0 \<longrightarrow> c y z = 0 \<longrightarrow> c x z = 0) \<and> (\<forall>x y. c x y = 0 \<longrightarrow> h x = h y)"

definition lh_nodes :: "'a lhash \<Rightarrow> 'a lhash_node multiset" where
  "lh_nodes lh = mset (concat (lh_b lh))"

definition lh_shape :: "'a lhash \<Rightarrow> bool" where
  "lh_shape lh \<longleftrightarrow> (\<exists>k. lh_pmax lh = 8 * 2 ^ k) \<and> lh_num_alloc_nodes lh = 2 * lh_pmax lh
     \<and> lh_p lh < lh_pmax lh \<and> lh_num_nodes lh = lh_pmax lh + lh_p lh
     \<and> length (lh_b lh) = lh_num_alloc_nodes lh \<and> lh_num_alloc_nodes lh \<le> 2 ^ 30
     \<and> lh_up_load lh = UP_LOAD"

text \<open>Everything but the shape: a statement about the set of nodes alone.\<close>

definition nodes_ok :: "('a \<Rightarrow> u64) \<Rightarrow> ('a \<Rightarrow> 'a \<Rightarrow> int) \<Rightarrow> 'a lhash_node multiset \<Rightarrow> bool" where
  "nodes_ok h c M \<longleftrightarrow> keys_ok h c \<and> (\<forall>n\<in>#M. ln_hash n = h (ln_data n))
     \<and> (\<forall>d. size {#n \<in># M. c (ln_data n) d = 0#} \<le> 1)"

definition lh_ok :: "'a lhash \<Rightarrow> bool" where
  "lh_ok lh \<longleftrightarrow> lh_shape lh \<and> placed (lh_pmax lh) (lh_p lh) (lh_b lh)
     \<and> nodes_ok (lh_hash lh) (lh_comp lh) (lh_nodes lh) \<and> lh_items lh = size (lh_nodes lh) \<and> lh_items lh < 2 ^ 30"

section \<open>Growing and shrinking keep the items\<close>

lemma expand_loop_eq:
  "expand_loop nni p ch n2 = (filter (\<lambda>n. unat (ln_hash n) mod nni = p) ch,
     rev (filter (\<lambda>n. unat (ln_hash n) mod nni \<noteq> p) ch) @ n2)"
  by (induction nni p ch n2 rule: expand_loop.induct) (auto simp: Let_def)

lemma mset_split: "mset (filter P xs) + mset (rev (filter (\<lambda>x. \<not> P x) xs)) = mset xs"
  by (simp add: mset_filter)

lemma mset_regroup: "B + X = A + N \<Longrightarrow> X = N + M \<Longrightarrow> B + M = A" for A :: "'b multiset"
  by (metis add.commute add.left_commute add_left_imp_eq)

lemma placed_top:
  assumes "placed P p b" "0 < P" "i < length b" "P + p \<le> i"
  shows "b ! i = []"
proof (rule ccontr)
  assume "b ! i \<noteq> []"
  then obtain n where "n \<in> set (b ! i)" by (meson list.set_sel(1))
  with assms have "bucket P p (unat (ln_hash n)) = i" by (auto simp: placed_def)
  with bucket_less [of P p "unat (ln_hash n)"] assms(2,4) show False by simp
qed

text \<open>Splitting bucket \<open>p\<close> into itself and \<open>p + P\<close>.\<close>

lemma split_bucket:
  fixes b :: "'a lhash_node list list"
  assumes "placed P p b" "p < P" "length b = 2 * P"
  defines "b' \<equiv> b[p := fst (expand_loop (2 * P) p (b ! p) []), p + P := snd (expand_loop (2 * P) p (b ! p) [])]"
  shows "placed P (Suc p) b'" and "mset (concat b') = mset (concat b)"
proof -
  let ?keep = "\<lambda>n::'a lhash_node. unat (ln_hash n) mod (2 * P) = p"
  let ?n1 = "filter ?keep (b ! p)" let ?n2 = "rev (filter (\<lambda>n. \<not> ?keep n) (b ! p))"
  have b': "b' = b[p := ?n1, p + P := ?n2]" by (simp add: b'_def expand_loop_eq)
  have top: "b ! (p + P) = []" by (rule placed_top [OF assms(1)]) (use assms in auto)
  show "placed P (Suc p) b'"
    unfolding placed_def
  proof (intro allI impI ballI)
    fix i n assume i: "i < length b'" and n: "n \<in> set (b' ! i)"
    let ?h = "unat (ln_hash n)"
    have old: "bucket P p ?h = j" if "j < length b" "n \<in> set (b ! j)" for j
      using assms(1) that by (auto simp: placed_def)
    consider "i = p" "n \<in> set ?n1" | "i = p + P" "n \<in> set ?n2" | "i \<noteq> p" "i \<noteq> p + P" "n \<in> set (b ! i)" "i < length b"
      using i n assms(2,3) by (auto simp: b' nth_list_update split: if_splits)
    then show "bucket P (Suc p) ?h = i"
    proof cases
      case 1
      then have "?h mod P = p" using old [of p] assms(2,3) bucket_at by fastforce
      with 1 show ?thesis by (simp add: bucket_Suc)
    next
      case 2
      then have "?h mod P = p" using old [of p] assms(2,3) bucket_at by fastforce
      with 2 mod_double [of ?h P] show ?thesis by (auto simp: bucket_Suc)
    next
      case 3
      then have "bucket P p ?h = i" using old by simp
      moreover have "?h mod P \<noteq> p" using 3(1) calculation bucket_at [OF assms(2)] by blast
      ultimately show ?thesis by (simp add: bucket_Suc)
    qed
  qed
  have "mset (concat (b[p := ?n1])) + mset (b ! p) = mset (concat b) + mset ?n1"
    using assms(2,3) by (intro mset_concat_update) simp
  then have "mset (concat (b[p := ?n1])) + mset ?n2 = mset (concat b)"
    by (rule mset_regroup [OF _ mset_split [symmetric]])
  moreover have "mset (concat b') + mset [] = mset (concat (b[p := ?n1])) + mset ?n2"
    using mset_concat_update [of "p + P" "b[p := ?n1]" ?n2] assms(2,3) top by (simp add: b')
  ultimately show "mset (concat b') = mset (concat b)" by simp
qed

text \<open>Merging the last bucket \<open>p + P\<close> back into bucket \<open>p\<close>.\<close>

lemma merge_bucket:
  fixes b :: "'a lhash_node list list"
  assumes "placed P (Suc p) b" "p < P" "length b = 2 * P"
  defines "b' \<equiv> b[p + P := [], p := b ! p @ b ! (p + P)]"
  shows "placed P p b'" and "mset (concat b') = mset (concat b)"
proof -
  show "placed P p b'"
    unfolding placed_def
  proof (intro allI impI ballI)
    fix i n assume i: "i < length b'" and n: "n \<in> set (b' ! i)"
    let ?h = "unat (ln_hash n)"
    have old: "bucket P (Suc p) ?h = j" if "j < length b" "n \<in> set (b ! j)" for j
      using assms(1) that by (auto simp: placed_def)
    consider "i = p" "n \<in> set (b ! p)" | "i = p" "n \<in> set (b ! (p + P))" | "i \<noteq> p" "i \<noteq> p + P" "n \<in> set (b ! i)" "i < length b"
      using i n assms(2,3) by (auto simp: b'_def nth_list_update split: if_splits)
    then show "bucket P p ?h = i"
    proof cases
      case 1
      then have "?h mod P = p" using old [of p] assms(2,3) mod_double [of ?h P] by (auto simp: bucket_def split: if_splits)
      with 1 assms(2) show ?thesis by (simp add: bucket_at)
    next
      case 2
      have "?h mod P \<noteq> p + P" using mod_less_divisor [of P ?h] assms(2) by linarith
      then have "?h mod P = p" using 2 old [of "p + P"] assms(2,3) mod_double [of ?h P] by (auto simp: bucket_def split: if_splits)
      with 2 assms(2) show ?thesis by (simp add: bucket_at)
    next
      case 3
      then have "bucket P (Suc p) ?h = i" using old by simp
      with 3 mod_double [of ?h P] show ?thesis by (auto simp: bucket_Suc split: if_splits)
    qed
  qed
  have "mset (concat (b[p + P := []])) + mset (b ! (p + P)) = mset (concat b)"
    using mset_concat_update [of "p + P" b "[]"] assms(2,3) by simp
  moreover have "mset (concat b') + mset (b ! p) = mset (concat (b[p + P := []])) + mset (b ! p @ b ! (p + P))"
    using mset_concat_update [of p "b[p + P := []]" "b ! p @ b ! (p + P)"] assms(2,3) by (simp add: b'_def)
  ultimately have "mset (concat b') + mset (b ! p) = mset (concat b) + mset (b ! p)"
    by (simp add: add.assoc add.commute)
  then show "mset (concat b') = mset (concat b)" by (rule add_right_imp_eq)
qed

lemma placed_pad: "placed P p b \<Longrightarrow> placed P p (b @ replicate n [])"
  by (auto simp: placed_def nth_append)

lemma placed_full: "0 < P \<Longrightarrow> placed P P b = placed (2 * P) 0 b"
  by (simp add: placed_def bucket_full)

lemma concat_take_top:
  assumes "placed P 0 b" "0 < P" "P \<le> length b"
  shows "concat (take P b) = concat b"
proof -
  have "drop P b = replicate (length b - P) []"
    by (rule nth_equalityI) (use placed_top [OF assms(1,2)] in auto)
  then have "concat (drop P b) = []" by (simp add: concat_replicate_trivial)
  then have "concat (take P b @ drop P b) = concat (take P b)" unfolding concat_append by simp
  then show ?thesis by simp
qed

definition frame :: "'a lhash \<Rightarrow> 'a lhash \<Rightarrow> bool" where
  "frame lh lh' \<longleftrightarrow> lh_comp lh' = lh_comp lh \<and> lh_hash lh' = lh_hash lh \<and> lh_items lh' = lh_items lh
     \<and> lh_nodes lh' = lh_nodes lh \<and> lh_down_load lh' = lh_down_load lh"

text \<open>The allocator delivers the bucket arrays; nodes (24 bytes) it may refuse.\<close>

definition grows :: "(nat \<Rightarrow> bool) \<Rightarrow> bool" where
  "grows alloc \<longleftrightarrow> (\<forall>n\<ge>64. alloc n)"

lemma shape_pmax: "lh_shape lh \<Longrightarrow> 8 \<le> lh_pmax lh"
  by (auto simp: lh_shape_def)

lemma expand_ok:
  assumes "lh_ok lh" "grows alloc" "4 * lh_pmax lh \<le> 2 ^ 30"
  shows "lh_ok (expand alloc lh) \<and> frame lh (expand alloc lh)"
proof -
  let ?P = "lh_pmax lh" let ?p = "lh_p lh" let ?b = "lh_b lh"
  have sh: "lh_shape lh" and pl: "placed ?P ?p ?b" and rest: "nodes_ok (lh_hash lh) (lh_comp lh) (lh_nodes lh)"
    "lh_items lh = size (lh_nodes lh)" "lh_items lh < 2 ^ 30" using assms(1) by (auto simp: lh_ok_def)
  have P: "8 \<le> ?P" "?p < ?P" "length ?b = 2 * ?P" "lh_num_alloc_nodes lh = 2 * ?P" "lh_num_nodes lh = ?P + ?p"
    using sh shape_pmax [OF sh] by (auto simp: lh_shape_def)
  obtain n1 n2 where n12: "expand_loop (2 * ?P) ?p (?b ! ?p) [] = (n1, n2)" by fastforce
  define b' where "b' = ?b[?p := n1, ?p + ?P := n2]"
  have b': "placed ?P (Suc ?p) b'" "mset (concat b') = mset (concat ?b)" "length b' = 2 * ?P"
    using split_bucket [OF pl P(2,3)] n12 P(3) by (simp_all add: b'_def)
  have mods: "uint_mod (?P + ?p + 1) = ?P + ?p + 1" "uint_mod (?p + 1) = ?p + 1" "uint_mod (2 * ?P * 2) = 4 * ?P"
    using assms(3) P by simp_all
  define lh1 where "lh1 = lh\<lparr>lh_num_nodes := ?P + ?p + 1, lh_p := ?p + 1, lh_b := b'\<rparr>"
  show ?thesis
  proof (cases "?p + 1 < ?P")
    case True
    have e: "expand alloc lh = lh1"
      using True P mods n12 by (simp add: expand_def Let_def lh1_def b'_def)
    have "lh_shape lh1" using sh True P b'(3) by (simp add: lh_shape_def lh1_def)
    moreover have "lh_nodes lh1 = lh_nodes lh" using b'(2) by (simp add: lh_nodes_def lh1_def)
    ultimately show ?thesis
      using b'(1) rest by (simp add: e lh_ok_def lh1_def frame_def)
  next
    case False
    then have p: "?p + 1 = ?P" using P(2) by simp
    define lh2 where "lh2 = lh1\<lparr>lh_pmax := 2 * ?P, lh_num_alloc_nodes := 4 * ?P, lh_p := 0,
        lh_b := b' @ replicate (2 * ?P) []\<rparr>"
    have "alloc (4 * ?P * sizeof_ptr)" using assms(2) P(1) by (simp add: grows_def sizeof_ptr_def)
    moreover have "4 * ?P * sizeof_ptr \<le> SIZE_MAX" "sizeof_ptr \<le> SIZE_MAX"
      using assms(3) by (simp_all add: sizeof_ptr_def SIZE_MAX_def)
    ultimately have "reallocarray alloc [] b' (4 * ?P) sizeof_ptr = Some (b' @ replicate (2 * ?P) [])"
      using b'(3) by (simp add: reallocarray_eq)
    then have e: "expand alloc lh = lh2"
      using p P mods n12 b'(3) by (simp add: expand_def Let_def lh1_def lh2_def b'_def [symmetric])
    have "\<exists>k. 2 * ?P = 8 * 2 ^ k"
      using sh by (auto simp: lh_shape_def intro: exI [of _ "Suc _"])
    then have "lh_shape lh2"
      using sh assms(3) p P b'(3) by (simp add: lh_shape_def lh2_def lh1_def)
    moreover have "placed (2 * ?P) 0 (b' @ replicate (2 * ?P) [])"
      using b'(1) p P(1) by (intro placed_pad) (simp add: placed_full [symmetric])
    moreover have "lh_nodes lh2 = lh_nodes lh"
      using b'(2) by (simp add: lh_nodes_def lh2_def lh1_def concat_replicate_trivial)
    ultimately show ?thesis
      using rest by (simp add: e lh_ok_def lh2_def lh1_def frame_def)
  qed
qed

lemma half_pmax:
  fixes P :: nat
  assumes "P = 8 * 2 ^ k" "16 < P"
  shows "\<exists>k. P div 2 = 8 * 2 ^ k" "2 * (P div 2) = P"
proof -
  have "k \<noteq> 0" using assms by (auto intro: ccontr)
  then obtain j where "k = Suc j" by (cases k) auto
  with assms show "\<exists>k. P div 2 = 8 * 2 ^ k" "2 * (P div 2) = P" by auto
qed

lemma contract_ok:
  assumes "lh_ok lh" "grows alloc" "16 < lh_num_nodes lh"
  shows "lh_ok (contract alloc lh) \<and> frame lh (contract alloc lh)"
proof -
  let ?P = "lh_pmax lh" let ?p = "lh_p lh" let ?b = "lh_b lh"
  have sh: "lh_shape lh" and pl: "placed ?P ?p ?b" and rest: "nodes_ok (lh_hash lh) (lh_comp lh) (lh_nodes lh)"
    "lh_items lh = size (lh_nodes lh)" "lh_items lh < 2 ^ 30" using assms(1) by (auto simp: lh_ok_def)
  have P: "8 \<le> ?P" "?p < ?P" "length ?b = 2 * ?P" "lh_num_alloc_nodes lh = 2 * ?P" "lh_num_nodes lh = ?P + ?p"
    "2 * ?P \<le> 2 ^ 30"
    using sh shape_pmax [OF sh] by (auto simp: lh_shape_def)
  show ?thesis
  proof (cases ?p)
    case (Suc q)
    define b' where "b' = ?b[q + ?P := [], q := ?b ! q @ ?b ! (q + ?P)]"
    have b': "placed ?P q b'" "mset (concat b') = mset (concat ?b)" "length b' = 2 * ?P"
      using merge_bucket [of ?P q ?b] pl P Suc by (simp_all add: b'_def)
    define lh1 where "lh1 = lh\<lparr>lh_p := q, lh_num_nodes := ?P + q, lh_b := b'\<rparr>"
    have e: "contract alloc lh = lh1"
      using Suc P by (simp add: contract_def Let_def lh1_def b'_def)
    have "lh_shape lh1" using sh Suc P b'(3) by (simp add: lh_shape_def lh1_def)
    moreover have "lh_nodes lh1 = lh_nodes lh" using b'(2) by (simp add: lh_nodes_def lh1_def)
    ultimately show ?thesis
      using b'(1) rest by (simp add: e lh_ok_def lh1_def frame_def)
  next
    case 0
    then have P16: "16 < ?P" using assms(3) P by simp
    obtain k where k: "?P = 8 * 2 ^ k" using sh by (auto simp: lh_shape_def)
    note half = half_pmax [OF k P16]
    define Q where "Q = ?P div 2"
    have Q: "2 * Q = ?P" "\<exists>k. Q = 8 * 2 ^ k" "8 \<le> Q" using half P16 by (simp_all add: Q_def)
    define q where "q = Q - 1"
    have q: "q < Q" "Suc q = Q" using Q(3) by (auto simp: q_def)
    have last: "?P - Suc 0 = q + Q" using Q(1) q(2) by simp
    have pl0: "placed (2 * Q) 0 ?b" using pl 0 Q by simp
    have pt: "placed (2 * Q) 0 (take (2 * Q) ?b)"
      using pl0 P(3) Q(1) by (auto simp: placed_def)
    then have "placed Q (Suc q) (take (2 * Q) ?b)" using placed_full [of Q "take (2 * Q) ?b"] q by simp
    note m = merge_bucket [OF this q(1)]
    define b' where "b' = (take (2 * Q) ?b)[q + Q := [], q := ?b ! q @ ?b ! (q + Q)]"
    have b': "placed Q q b'" "mset (concat b') = mset (concat ?b)" "length b' = 2 * Q"
      using m P(3) Q q concat_take_top [OF pl0] by (simp_all add: b'_def)
    have "alloc (?P * sizeof_ptr)" using assms(2) P(1) by (simp add: grows_def sizeof_ptr_def)
    moreover have "?P * sizeof_ptr \<le> SIZE_MAX" "sizeof_ptr \<le> SIZE_MAX"
      using P(6) by (simp_all add: sizeof_ptr_def SIZE_MAX_def)
    ultimately have ra: "reallocarray alloc [] (?b[q + Q := []]) ?P sizeof_ptr = Some (take (2 * Q) (?b[q + Q := []]))"
      using P(3) Q(1) by (simp add: reallocarray_eq)
    define lh1 where "lh1 = lh\<lparr>lh_num_alloc_nodes := 2 * Q, lh_pmax := Q, lh_p := q, lh_num_nodes := Q + q, lh_b := b'\<rparr>"
    have nn: "?P - Suc 0 = Q + q" "Q - Suc 0 = q" using last by (simp_all add: q_def)
    have e: "contract alloc lh = lh1"
      using 0 P ra Q(1) q nn by (simp add: contract_def Let_def lh1_def b'_def last Q_def [symmetric] take_update_swap add.commute [of Q q])
    have "lh_shape lh1" using sh Q q P b'(3) by (simp add: lh_shape_def lh1_def)
    moreover have "lh_nodes lh1 = lh_nodes lh" using b'(2) by (simp add: lh_nodes_def lh1_def)
    ultimately show ?thesis
      using b'(1) rest by (simp add: e lh_ok_def lh1_def frame_def)
  qed
qed

section \<open>Finding\<close>

text \<open>What a table holds: the item equal to a given one.\<close>

definition lh_lookup :: "'a lhash \<Rightarrow> 'a \<Rightarrow> 'a option" where
  "lh_lookup lh d = find (\<lambda>x. lh_comp lh x d = 0) (map ln_data (concat (lh_b lh)))"

abbreviation lh_same :: "'a lhash \<Rightarrow> 'a \<Rightarrow> 'a \<Rightarrow> bool" where
  "lh_same lh x y \<equiv> lh_comp lh x y = 0"

lemma nodes_ok_keys:
  assumes "nodes_ok h c M"
  shows "c x x = 0" "c x y = 0 \<Longrightarrow> c y x = 0" "c x y = 0 \<Longrightarrow> c y z = 0 \<Longrightarrow> c x z = 0"
    "c x y = 0 \<Longrightarrow> h x = h y"
  using assms unfolding nodes_ok_def keys_ok_def by metis+

lemma nodes_ok_unique:
  assumes "nodes_ok h c M" "m \<in># M" "n \<in># M" "c (ln_data m) d = 0" "c (ln_data n) d = 0"
  shows "m = n"
proof (rule ccontr)
  assume "m \<noteq> n"
  then obtain K where K: "M = add_mset m (add_mset n K)"
    using assms(2,3) by (metis insert_noteq_member mset_add)
  have "size {#k \<in># M. c (ln_data k) d = 0#} \<le> 1" using assms(1) by (simp add: nodes_ok_def)
  with assms(4,5) K show False by simp
qed

lemma lookup_SomeD:
  assumes "lh_lookup lh d = Some x"
  shows "\<exists>n. n \<in># lh_nodes lh \<and> ln_data n = x \<and> lh_same lh x d"
proof -
  have "find (\<lambda>x. lh_comp lh x d = 0) (map ln_data (concat (lh_b lh))) = Some x"
    using assms by (simp add: lh_lookup_def)
  then have "x \<in> set (map ln_data (concat (lh_b lh)))" "lh_same lh x d"
    by (metis (mono_tags, lifting) find_Some_iff nth_mem)+
  then show ?thesis by (auto simp: lh_nodes_def)
qed

lemma lookup_None_iff:
  "lh_lookup lh d = None \<longleftrightarrow> (\<forall>n. n \<in># lh_nodes lh \<longrightarrow> \<not> lh_same lh (ln_data n) d)"
  by (auto simp: lh_lookup_def find_None_iff lh_nodes_def)

lemma lookup_node:
  assumes "nodes_ok (lh_hash lh) (lh_comp lh) (lh_nodes lh)" "n \<in># lh_nodes lh" "lh_same lh (ln_data n) d"
  shows "lh_lookup lh d = Some (ln_data n)"
proof (cases "lh_lookup lh d")
  case None
  then show ?thesis using lookup_None_iff [THEN iffD1, OF None] assms(2,3) by simp
next
  case (Some x)
  then obtain m where "m \<in># lh_nodes lh" "x = ln_data m" "lh_same lh (ln_data m) d"
    using lookup_SomeD [OF Some] by auto
  with nodes_ok_unique [OF assms(1) _ assms(2) _ assms(3)] Some show ?thesis by simp
qed

lemma lookup_iff:
  assumes "nodes_ok (lh_hash lh) (lh_comp lh) (lh_nodes lh)"
  shows "lh_lookup lh d = Some x \<longleftrightarrow> (\<exists>n. n \<in># lh_nodes lh \<and> ln_data n = x \<and> lh_same lh x d)"
  using lookup_node [OF assms] lookup_SomeD [of lh d x] by auto

lemma chain_find_cases:
  assumes "\<forall>n\<in>set ch. ln_hash n = hf (ln_data n)" "\<forall>n\<in>set ch. c (ln_data n) d = 0 \<longrightarrow> hf (ln_data n) = h"
  shows "(chain_find c h d ch = length ch \<and> (\<forall>n\<in>set ch. c (ln_data n) d \<noteq> 0))
    \<or> (chain_find c h d ch < length ch \<and> c (ln_data (ch ! chain_find c h d ch)) d = 0)"
  using assms by (induction c h d ch rule: chain_find.induct) auto

text \<open>\<open>getrn\<close> ends at the node of the item, or at the end of the chain where the item would be.\<close>

lemma getrn_spec:
  assumes "lh_ok lh" "getrn lh d = (nn, i, h)"
  shows "h = lh_hash lh d" "nn < length (lh_b lh)" "nn = bucket (lh_pmax lh) (lh_p lh) (unat h)"
    "i = length (lh_b lh ! nn) \<and> lh_lookup lh d = None
     \<or> i < length (lh_b lh ! nn) \<and> lh_lookup lh d = Some (ln_data (lh_b lh ! nn ! i))
       \<and> lh_same lh (ln_data (lh_b lh ! nn ! i)) d"
proof -
  let ?b = "lh_b lh"
  have sh: "lh_shape lh" and pl: "placed (lh_pmax lh) (lh_p lh) ?b"
    and no: "nodes_ok (lh_hash lh) (lh_comp lh) (lh_nodes lh)"
    using assms(1) by (auto simp: lh_ok_def)
  show h: "h = lh_hash lh d" and nn: "nn = bucket (lh_pmax lh) (lh_p lh) (unat h)"
    using assms(2) sh by (auto simp: getrn_def Let_def bucket_def lh_shape_def)
  have "nn < lh_pmax lh + lh_p lh" using bucket_less shape_pmax [OF sh] by (simp add: nn)
  then show len: "nn < length ?b" using sh by (auto simp: lh_shape_def)
  have i: "i = chain_find (lh_comp lh) h d (?b ! nn)" using assms(2) by (auto simp: getrn_def Let_def)
  have hash: "ln_hash n = lh_hash lh (ln_data n)" if "n \<in># lh_nodes lh" for n
    using no that by (simp add: nodes_ok_def)
  have same: "lh_hash lh x = h" if "lh_same lh x d" for x
    using nodes_ok_keys(4) [OF no that] h by simp
  have mem: "n \<in># lh_nodes lh" if "n \<in> set (?b ! j)" "j < length ?b" for n j
    using that nth_mem [OF that(2)] by (auto simp: lh_nodes_def)
  have cases: "i = length (?b ! nn) \<and> (\<forall>n\<in>set (?b ! nn). \<not> lh_same lh (ln_data n) d)
     \<or> i < length (?b ! nn) \<and> lh_same lh (ln_data (?b ! nn ! i)) d"
    using chain_find_cases [of "?b ! nn" "lh_hash lh" "lh_comp lh" d h] mem [OF _ len] hash same by (auto simp: i)
  have "lh_lookup lh d = None" if none: "\<forall>n\<in>set (?b ! nn). \<not> lh_same lh (ln_data n) d"
    unfolding lookup_None_iff
  proof (intro allI impI notI)
    fix n assume n: "n \<in># lh_nodes lh" and s: "lh_same lh (ln_data n) d"
    then obtain ch where "ch \<in> set ?b" "n \<in> set ch" by (auto simp: lh_nodes_def)
    then obtain j where j: "j < length ?b" "n \<in> set (?b ! j)" by (metis in_set_conv_nth)
    then have "bucket (lh_pmax lh) (lh_p lh) (unat (ln_hash n)) = j" using pl by (auto simp: placed_def)
    then have "j = nn" using hash [OF n] same [OF s] nn by simp
    with none j(2) s show False by blast
  qed
  then show "i = length (?b ! nn) \<and> lh_lookup lh d = None
     \<or> i < length (?b ! nn) \<and> lh_lookup lh d = Some (ln_data (?b ! nn ! i)) \<and> lh_same lh (ln_data (?b ! nn ! i)) d"
    using cases lookup_node [OF no mem [OF nth_mem len], of i] by auto
qed

section \<open>The laws of the operations\<close>

text \<open>What the result of a look-up says about the nodes.\<close>

definition holds :: "('a \<Rightarrow> 'a \<Rightarrow> int) \<Rightarrow> 'a lhash_node multiset \<Rightarrow> 'a \<Rightarrow> 'a option \<Rightarrow> bool" where
  "holds c M d r = (case r of None \<Rightarrow> \<forall>n\<in>#M. c (ln_data n) d \<noteq> 0
     | Some x \<Rightarrow> \<exists>n\<in>#M. ln_data n = x \<and> c x d = 0)"

lemma lookup_holds: "holds (lh_comp lh) (lh_nodes lh) d (lh_lookup lh d)"
  using lookup_SomeD [of lh d] lookup_None_iff [of lh d] by (cases "lh_lookup lh d") (auto simp: holds_def)

lemma lookup_eq:
  assumes "nodes_ok (lh_hash lh) (lh_comp lh) (lh_nodes lh)" "holds (lh_comp lh) (lh_nodes lh) d r"
  shows "lh_lookup lh d = r"
proof (cases r)
  case None
  then show ?thesis using assms(2) lookup_None_iff [of lh d] by (simp add: holds_def)
next
  case (Some x)
  then show ?thesis using assms(2) lookup_node [OF assms(1)] by (auto simp: holds_def)
qed

lemma filter_mset_none: "filter_mset P K = {#} \<longleftrightarrow> (\<forall>n\<in>#K. \<not> P n)"
  by (induction K) auto

lemma nodes_ok_drop:
  assumes "nodes_ok h c (add_mset x K)"
  shows "nodes_ok h c K" "c (ln_data x) e = 0 \<Longrightarrow> n \<in># K \<Longrightarrow> c (ln_data n) e \<noteq> 0"
proof -
  have s: "size {#n \<in># add_mset x K. c (ln_data n) d = 0#} \<le> 1" for d
    using assms unfolding nodes_ok_def by blast
  have "size {#n \<in># K. c (ln_data n) d = 0#} \<le> 1" for d
    by (rule order_trans [OF _ s [of d]]) simp
  then show "nodes_ok h c K" using assms by (simp add: nodes_ok_def)
  show "c (ln_data n) e \<noteq> 0" if "c (ln_data x) e = 0" "n \<in># K"
  proof -
    have "{#n \<in># K. c (ln_data n) e = 0#} = {#}" using s [of e] that(1) by simp
    with that(2) show ?thesis by (simp add: filter_mset_none)
  qed
qed

lemma nodes_ok_add:
  assumes "nodes_ok h c K" "\<forall>n\<in>#K. c (ln_data n) (ln_data x) \<noteq> 0" "ln_hash x = h (ln_data x)"
  shows "nodes_ok h c (add_mset x K)"
proof -
  have "{#n \<in># K. c (ln_data n) d = 0#} = {#}" if "c (ln_data x) d = 0" for d
    unfolding filter_mset_none using assms(2) nodes_ok_keys(2,3) [OF assms(1)] that by meson
  then have "size {#n \<in># add_mset x K. c (ln_data n) d = 0#} \<le> 1" for d
    using assms(1) by (auto simp: nodes_ok_def)
  then show ?thesis using assms(1,3) by (simp add: nodes_ok_def)
qed

lemma holds_add:
  "holds c K e r \<Longrightarrow> ln_data x = d \<Longrightarrow> holds c (add_mset x K) e (if c d e = 0 then Some d else r)"
  by (auto simp: holds_def split: option.splits)

lemma holds_drop:
  assumes "nodes_ok h c (add_mset x K)" "holds c (add_mset x K) e r"
  shows "holds c K e (if c (ln_data x) e = 0 then None else r)"
  using nodes_ok_drop(2) [OF assms(1)] assms(2) by (auto simp: holds_def split: option.splits)

text \<open>Replacing one chain.\<close>

definition set_chain :: "'a lhash \<Rightarrow> nat \<Rightarrow> 'a lhash_node list \<Rightarrow> nat \<Rightarrow> 'a lhash" where
  "set_chain lh nn ch k = lh\<lparr>lh_b := (lh_b lh)[nn := ch], lh_items := k\<rparr>"

lemma set_chain_sel [simp]:
  "lh_comp (set_chain lh nn ch k) = lh_comp lh" "lh_hash (set_chain lh nn ch k) = lh_hash lh"
  "lh_items (set_chain lh nn ch k) = k"
  by (simp_all add: set_chain_def)

lemma set_chain_nodes:
  assumes "nn < length (lh_b lh)" "mset (lh_b lh ! nn) + A = mset ch + B"
  shows "lh_nodes (set_chain lh nn ch k) + B = lh_nodes lh + A"
proof -
  have "lh_nodes (set_chain lh nn ch k) + mset (lh_b lh ! nn) = lh_nodes lh + mset ch"
    using mset_concat_update [OF assms(1), of ch] by (simp add: lh_nodes_def set_chain_def)
  then have "lh_nodes (set_chain lh nn ch k) + B + mset (lh_b lh ! nn) = lh_nodes lh + A + mset (lh_b lh ! nn)"
    using assms(2) by (metis add.assoc add.commute)
  then show ?thesis by (rule add_right_imp_eq)
qed

lemma set_chain_ok:
  assumes "lh_ok lh" "nn < length (lh_b lh)"
    "\<forall>n\<in>set ch. n \<in> set (lh_b lh ! nn) \<or> bucket (lh_pmax lh) (lh_p lh) (unat (ln_hash n)) = nn"
    "nodes_ok (lh_hash lh) (lh_comp lh) (lh_nodes (set_chain lh nn ch k))"
    "k = size (lh_nodes (set_chain lh nn ch k))" "k < 2 ^ 30"
  shows "lh_ok (set_chain lh nn ch k)"
proof -
  have "placed (lh_pmax lh) (lh_p lh) ((lh_b lh)[nn := ch])"
    using assms(1-3) by (auto simp: lh_ok_def placed_def nth_list_update)
  with assms show ?thesis
    by (simp add: lh_ok_def set_chain_def lh_shape_def)
qed

lemma lh_ok_err [simp]: "lh_ok (lh\<lparr>lh_err := e\<rparr>) = lh_ok lh"
  by (simp add: lh_ok_def lh_shape_def lh_nodes_def)

lemma frame_lookup:
  assumes "lh_ok lh" "frame lh lh'"
  shows "lh_lookup lh' d = lh_lookup lh d"
  using lookup_eq [of lh' d "lh_lookup lh d"] lookup_holds [of lh d] assms by (simp add: frame_def lh_ok_def)

lemma mset_delete_nth:
  "i < length xs \<Longrightarrow> mset xs = add_mset (xs ! i) (mset (take i xs @ drop (Suc i) xs))"
  by (metis id_take_nth_drop mset_append mset.simps(2) union_mset_add_mset_right)

lemma insert_chain:
  assumes "lh_ok lh" "getrn lh d = (nn, length (lh_b lh ! nn), h)" "lh_items lh < 2 ^ 29"
  defines "lh' \<equiv> set_chain lh nn (lh_b lh ! nn @ [\<lparr>ln_data = d, ln_hash = h\<rparr>]) (lh_items lh + 1)"
  shows "lh_ok lh'" "lh_lookup lh' e = (if lh_same lh d e then Some d else lh_lookup lh e)" "lh_lookup lh d = None"
proof -
  have c: "lh_comp lh' = lh_comp lh" "lh_hash lh' = lh_hash lh" by (simp_all add: lh'_def)
  note g = getrn_spec [OF assms(1,2)]
  let ?x = "\<lparr>ln_data = d, ln_hash = h\<rparr>"
  show none: "lh_lookup lh d = None" using g(4) by simp
  have no: "nodes_ok (lh_hash lh) (lh_comp lh) (lh_nodes lh)" "lh_items lh = size (lh_nodes lh)"
    using assms(1) by (simp_all add: lh_ok_def)
  have nodes: "lh_nodes lh' = add_mset ?x (lh_nodes lh)"
    using set_chain_nodes [OF g(2), of "{#?x#}" "lh_b lh ! nn @ [?x]" "{#}" "lh_items lh + 1"] by (simp add: lh'_def)
  have no': "nodes_ok (lh_hash lh) (lh_comp lh) (lh_nodes lh')"
    unfolding nodes using no(1) lookup_None_iff [of lh d] none g(1) by (intro nodes_ok_add) auto
  show "lh_ok lh'"
    using assms(1,3) g no(2) no' nodes unfolding lh'_def by (intro set_chain_ok) auto
  have "holds (lh_comp lh') (lh_nodes lh') e (if lh_same lh d e then Some d else lh_lookup lh e)"
    using holds_add [OF lookup_holds [of lh e], of ?x d] by (simp add: nodes c split del: if_split)
  then show "lh_lookup lh' e = (if lh_same lh d e then Some d else lh_lookup lh e)"
    using no' by (intro lookup_eq) (simp_all add: c)
qed

lemma delete_chain:
  assumes "lh_ok lh" "getrn lh d = (nn, i, h)" "i < length (lh_b lh ! nn)"
  defines "lh' \<equiv> set_chain lh nn (take i (lh_b lh ! nn) @ drop (Suc i) (lh_b lh ! nn)) (lh_items lh - 1)"
  shows "lh_ok lh'" "lh_lookup lh' e = (if lh_same lh d e then None else lh_lookup lh e)"
    "lh_lookup lh d = Some (ln_data (lh_b lh ! nn ! i))" "0 < lh_items lh"
    "lh_nodes lh = add_mset (lh_b lh ! nn ! i) (lh_nodes lh')"
proof -
  have c: "lh_comp lh' = lh_comp lh" "lh_hash lh' = lh_hash lh" by (simp_all add: lh'_def)
  note g = getrn_spec [OF assms(1,2)]
  let ?x = "lh_b lh ! nn ! i"
  show look: "lh_lookup lh d = Some (ln_data ?x)" using g(4) assms(3) by simp
  have same: "lh_same lh (ln_data ?x) d" using g(4) assms(3) by simp
  have no: "nodes_ok (lh_hash lh) (lh_comp lh) (lh_nodes lh)" "lh_items lh = size (lh_nodes lh)" "lh_items lh < 2 ^ 30"
    using assms(1) by (simp_all add: lh_ok_def)
  show nodes: "lh_nodes lh = add_mset ?x (lh_nodes lh')"
    using set_chain_nodes [OF g(2), of "{#}" "take i (lh_b lh ! nn) @ drop (Suc i) (lh_b lh ! nn)" "{#?x#}" "lh_items lh - 1"]
      mset_delete_nth [OF assms(3)] by (simp add: lh'_def)
  then show "0 < lh_items lh" using no(2) by simp
  have no': "nodes_ok (lh_hash lh) (lh_comp lh) (lh_nodes lh')"
    using no(1) unfolding nodes by (rule nodes_ok_drop)
  have "set (take i (lh_b lh ! nn) @ drop (Suc i) (lh_b lh ! nn)) \<subseteq> set (lh_b lh ! nn)"
    by (auto dest: in_set_takeD in_set_dropD)
  then show "lh_ok lh'"
    using assms(1) g(2) no(2,3) no' nodes unfolding lh'_def by (intro set_chain_ok) auto
  have eq: "lh_same lh (ln_data ?x) e = lh_same lh d e"
    using same nodes_ok_keys(2,3) [OF no(1)] by meson
  have "holds (lh_comp lh') (lh_nodes lh') e (if lh_same lh d e then None else lh_lookup lh e)"
    using holds_drop [of "lh_hash lh" "lh_comp lh" ?x "lh_nodes lh'" e "lh_lookup lh e"] no(1) lookup_holds [of lh e]
    by (simp add: nodes [symmetric] eq c split del: if_split)
  then show "lh_lookup lh' e = (if lh_same lh d e then None else lh_lookup lh e)"
    using no' by (intro lookup_eq) (simp_all add: c)
qed

lemma replace_chain:
  assumes "lh_ok lh" "getrn lh d = (nn, i, h)" "i < length (lh_b lh ! nn)"
  defines "lh' \<equiv> set_chain lh nn ((lh_b lh ! nn)[i := (lh_b lh ! nn ! i)\<lparr>ln_data := d\<rparr>]) (lh_items lh)"
  shows "lh_ok lh'" "lh_lookup lh' e = (if lh_same lh d e then Some d else lh_lookup lh e)"
proof -
  have c: "lh_comp lh' = lh_comp lh" "lh_hash lh' = lh_hash lh" by (simp_all add: lh'_def)
  note g = getrn_spec [OF assms(1,2)] note del = delete_chain [OF assms(1-3)]
  let ?x = "lh_b lh ! nn ! i" let ?y = "?x\<lparr>ln_data := d\<rparr>"
  let ?del = "set_chain lh nn (take i (lh_b lh ! nn) @ drop (Suc i) (lh_b lh ! nn)) (lh_items lh - 1)"
  let ?K = "lh_nodes ?del"
  have no: "nodes_ok (lh_hash lh) (lh_comp lh) (lh_nodes lh)" "lh_items lh = size (lh_nodes lh)" "lh_items lh < 2 ^ 30"
    using assms(1) by (simp_all add: lh_ok_def)
  have "?x \<in># lh_nodes lh" using del(5) by simp
  then have hash: "ln_hash ?y = lh_hash lh d"
    using no(1) g(4) assms(3) nodes_ok_keys(4) [OF no(1), of "ln_data ?x" d] by (auto simp: nodes_ok_def)
  have "mset (lh_b lh ! nn) + {#?y#} = mset ((lh_b lh ! nn)[i := ?y]) + {#?x#}"
    using mset_update [OF assms(3), of ?y] nth_mem [OF assms(3)] by simp
  then have "lh_nodes lh' + {#?x#} = lh_nodes lh + {#?y#}"
    unfolding lh'_def by (rule set_chain_nodes [OF g(2)])
  then have nodes: "lh_nodes lh' = add_mset ?y ?K"
    using del(5) by simp
  have "lh_lookup ?del d = None" using del(2) [of d] nodes_ok_keys(1) [OF no(1)] by simp
  then have "\<forall>n\<in>#?K. lh_comp lh (ln_data n) (ln_data ?y) \<noteq> 0"
    using lookup_None_iff [of ?del d] by (simp add: set_chain_def)
  then have no': "nodes_ok (lh_hash lh) (lh_comp lh) (lh_nodes lh')"
    unfolding nodes using no(1) hash del(5) nodes_ok_drop(1) by (intro nodes_ok_add) auto
  have "\<forall>n\<in>set ((lh_b lh ! nn)[i := ?y]). n \<in> set (lh_b lh ! nn) \<or> bucket (lh_pmax lh) (lh_p lh) (unat (ln_hash n)) = nn"
    using set_update_subset_insert [of "lh_b lh ! nn" i ?y] hash g(1,3) by auto
  then show "lh_ok lh'"
    using assms(1) g(2) no(2,3) no' nodes del(5) unfolding lh'_def by (intro set_chain_ok) auto
  have "holds (lh_comp lh') (lh_nodes lh') e (if lh_same lh d e then Some d else lh_lookup ?del e)"
    using holds_add [OF lookup_holds [of ?del e], of ?y d] by (simp add: nodes c split del: if_split)
  then have "lh_lookup lh' e = (if lh_same lh d e then Some d else lh_lookup ?del e)"
    using no' by (intro lookup_eq) (simp_all add: c)
  then show "lh_lookup lh' e = (if lh_same lh d e then Some d else lh_lookup lh e)"
    using del(2) [of e] by simp
qed

text \<open>Loads are small enough not to wrap, and the table grows only while it stays below the bound.\<close>

lemma load_eq: "lh_items lh < 2 ^ 30 \<Longrightarrow> load lh = lh_items lh * 256 div lh_num_nodes lh"
  by (simp add: load_def LH_LOAD_MULT_def)

lemma maybe_expand_ok:
  assumes "lh_ok lh" "grows alloc" "lh_items lh < 2 ^ 29"
  defines "lh' \<equiv> (if lh_up_load lh \<le> load lh then expand alloc lh else lh)"
  shows "lh_ok lh' \<and> frame lh lh'"
proof (cases "lh_up_load lh \<le> load lh")
  case True
  have sh: "lh_shape lh" using assms(1) by (simp add: lh_ok_def)
  have "512 \<le> lh_items lh * 256 div lh_num_nodes lh" "lh_pmax lh \<le> lh_num_nodes lh" "0 < lh_num_nodes lh"
    using True sh assms(3) shape_pmax [OF sh] by (auto simp: load_eq lh_shape_def UP_LOAD_def LH_LOAD_MULT_def)
  then have "512 * lh_num_nodes lh \<le> lh_items lh * 256"
    by (meson less_eq_div_iff_mult_less_eq)
  then have "4 * lh_pmax lh \<le> 2 ^ 30" using \<open>lh_pmax lh \<le> lh_num_nodes lh\<close> assms(3) by simp
  then show ?thesis using expand_ok [OF assms(1,2)] True by (simp add: lh'_def)
next
  case False
  then show ?thesis using assms(1) by (simp add: lh'_def frame_def)
qed

lemma maybe_contract_ok:
  assumes "lh_ok lh" "grows alloc"
  shows "lh_ok (maybe_contract alloc lh) \<and> frame lh (maybe_contract alloc lh)"
  using contract_ok [OF assms] assms(1) by (auto simp: maybe_contract_def MIN_NODES_def frame_def)

lemma lookup_err [simp]: "lh_lookup (lh\<lparr>lh_err := e\<rparr>) = lh_lookup lh"
  by (simp add: lh_lookup_def fun_eq_iff)

lemma insert_law:
  assumes "lh_ok lh" "grows alloc" "lh_items lh < 2 ^ 29" "lh_insert alloc lh d = (r, lh')"
  shows "lh_ok lh'" "r = lh_lookup lh d" "lh_same lh' = lh_same lh" "lh_items lh' \<le> lh_items lh + 1"
    "lh_lookup lh' = (if lh_lookup lh d = None \<and> \<not> alloc sizeof_node then lh_lookup lh
       else (\<lambda>e. if lh_same lh d e then Some d else lh_lookup lh e))"
proof -
  define lh1 where "lh1 = (let l = lh\<lparr>lh_err := 0\<rparr> in if lh_up_load l \<le> load l then expand alloc l else l)"
  have lh1: "lh_ok lh1" "frame (lh\<lparr>lh_err := 0\<rparr>) lh1"
    using maybe_expand_ok [of "lh\<lparr>lh_err := 0\<rparr>" alloc] assms(1-3) by (simp_all add: lh1_def Let_def)
  have look: "lh_lookup lh1 e = lh_lookup lh e" for e
    using frame_lookup [OF _ lh1(2)] assms(1) by simp
  have c: "lh_comp lh1 = lh_comp lh" "lh_items lh1 = lh_items lh" using lh1(2) by (simp_all add: frame_def)
  obtain nn i h where g: "getrn lh1 d = (nn, i, h)" by (metis prod_cases3)
  have ins: "lh_insert alloc lh d = (let chain = lh_b lh1 ! nn
      in if i = length chain then
           (if \<not> alloc sizeof_node then (None, lh1\<lparr>lh_err := lh_err lh1 + 1\<rparr>)
            else (None, lh1\<lparr>lh_b := (lh_b lh1)[nn := chain @ [\<lparr>ln_data = d, ln_hash = h\<rparr>]],
                           lh_items := ulong_mod (lh_items lh1 + 1)\<rparr>))
         else (Some (ln_data (chain ! i)),
               lh1\<lparr>lh_b := (lh_b lh1)[nn := chain[i := (chain ! i)\<lparr>ln_data := d\<rparr>]]\<rparr>))"
    unfolding lh_insert_def Let_def lh1_def [unfolded Let_def, symmetric] g by simp
  consider "i = length (lh_b lh1 ! nn)" "\<not> alloc sizeof_node" | "i = length (lh_b lh1 ! nn)" "alloc sizeof_node"
    | "i < length (lh_b lh1 ! nn)"
    using getrn_spec(4) [OF lh1(1) g] by blast
  then have "lh_ok lh' \<and> r = lh_lookup lh d \<and> lh_same lh' = lh_same lh \<and> lh_items lh' \<le> lh_items lh + 1 \<and>
    lh_lookup lh' = (if lh_lookup lh d = None \<and> \<not> alloc sizeof_node then lh_lookup lh
       else (\<lambda>e. if lh_same lh d e then Some d else lh_lookup lh e))"
  proof cases
    case 1
    then have "r = None" "lh' = lh1\<lparr>lh_err := lh_err lh1 + 1\<rparr>" using ins assms(4) by simp_all
    moreover have "lh_lookup lh d = None" using getrn_spec(4) [OF lh1(1) g] 1 look by simp
    ultimately show ?thesis using lh1(1) look 1 c by (simp add: fun_eq_iff)
  next
    case 2
    note ch = insert_chain [OF lh1(1), of d nn h]
    have "lh' = set_chain lh1 nn (lh_b lh1 ! nn @ [\<lparr>ln_data = d, ln_hash = h\<rparr>]) (lh_items lh1 + 1)" "r = None"
      using 2 ins assms(3,4) c by (simp_all add: set_chain_def)
    then show ?thesis using ch 2 g look c assms(3) by (simp add: fun_eq_iff)
  next
    case 3
    note ch = replace_chain [OF lh1(1) g 3] delete_chain(3) [OF lh1(1) g 3]
    have "lh' = set_chain lh1 nn ((lh_b lh1 ! nn)[i := (lh_b lh1 ! nn ! i)\<lparr>ln_data := d\<rparr>]) (lh_items lh1)"
      "r = Some (ln_data (lh_b lh1 ! nn ! i))"
      using 3 ins assms(4) by (simp_all add: set_chain_def Let_def)
    then show ?thesis using ch look c by (simp add: fun_eq_iff)
  qed
  then show "lh_ok lh'" "r = lh_lookup lh d" "lh_same lh' = lh_same lh" "lh_items lh' \<le> lh_items lh + 1"
    "lh_lookup lh' = (if lh_lookup lh d = None \<and> \<not> alloc sizeof_node then lh_lookup lh
       else (\<lambda>e. if lh_same lh d e then Some d else lh_lookup lh e))" by blast+
qed

lemma delete_law:
  assumes "lh_ok lh" "grows alloc" "lh_delete alloc lh d = (r, lh')"
  shows "lh_ok lh'" "r = lh_lookup lh d" "lh_same lh' = lh_same lh"
    "lh_items lh' = lh_items lh - (if lh_lookup lh d = None then 0 else 1)"
    "lh_lookup lh' = (\<lambda>e. if lh_same lh d e then None else lh_lookup lh e)"
    "lh_down_load lh' = lh_down_load lh"
proof -
  let ?lh1 = "lh\<lparr>lh_err := 0\<rparr>"
  have ok1: "lh_ok ?lh1" using assms(1) by simp
  have no: "nodes_ok (lh_hash lh) (lh_comp lh) (lh_nodes lh)" "lh_items lh < 2 ^ 30" using assms(1) by (simp_all add: lh_ok_def)
  obtain nn i h where g: "getrn ?lh1 d = (nn, i, h)" by (metis prod_cases3)
  note gs = getrn_spec(4) [OF ok1 g]
  have "lh_ok lh' \<and> r = lh_lookup lh d \<and> lh_same lh' = lh_same lh \<and>
    lh_items lh' = lh_items lh - (if lh_lookup lh d = None then 0 else 1) \<and>
    lh_lookup lh' = (\<lambda>e. if lh_same lh d e then None else lh_lookup lh e) \<and> lh_down_load lh' = lh_down_load lh"
  proof (cases "i = length (lh_b ?lh1 ! nn)")
    case True
    then have "r = None" "lh' = ?lh1" using g assms(3) by (simp_all add: lh_delete_def)
    moreover have none: "lh_lookup lh d = None" using gs True by simp
    moreover have none_at: "\<not> lh_same lh (ln_data n) d" if "n \<in># lh_nodes lh" for n
      using lookup_None_iff [of lh d] none that by simp
    moreover have "lh_lookup lh e = None" if "lh_same lh d e" for e
    proof -
      have "\<not> lh_same lh (ln_data n) e" if "n \<in># lh_nodes lh" for n
        using none_at [OF that] nodes_ok_keys(3) [OF no(1), of "ln_data n" e d]
          nodes_ok_keys(2) [OF no(1) \<open>lh_same lh d e\<close>] by argo
      then have "holds (lh_comp lh) (lh_nodes lh) e None" by (simp add: holds_def)
      then show ?thesis by (rule lookup_eq [OF no(1)])
    qed
    ultimately show ?thesis using assms(1) by (auto simp: fun_eq_iff)
  next
    case False
    then have i: "i < length (lh_b ?lh1 ! nn)" using gs by auto
    note ch = delete_chain [OF ok1 g i]
    let ?lh2 = "set_chain ?lh1 nn (take i (lh_b ?lh1 ! nn) @ drop (Suc i) (lh_b ?lh1 ! nn)) (lh_items ?lh1 - 1)"
    have "ulong_mod (lh_items lh + (2 ^ 64 - 1)) = lh_items lh - 1"
    proof -
      have "lh_items lh + (2 ^ 64 - 1) = (lh_items lh - 1) + 2 ^ 64" using ch(4) by simp
      also have "\<dots> mod 2 ^ 64 = (lh_items lh - 1) mod 2 ^ 64" by (rule mod_add_self2)
      also have "\<dots> = lh_items lh - 1" using no(2) by simp
      finally show ?thesis .
    qed
    then have "lh' = maybe_contract alloc ?lh2" "r = Some (ln_data (lh_b ?lh1 ! nn ! i))"
      using g assms(3) False by (simp_all add: lh_delete_def set_chain_def Let_def)
    moreover have m: "lh_ok (maybe_contract alloc ?lh2)" "frame ?lh2 (maybe_contract alloc ?lh2)"
      using maybe_contract_ok [OF ch(1) assms(2)] by simp_all
    moreover have "lh_lookup (maybe_contract alloc ?lh2) e = lh_lookup ?lh2 e" for e
      by (rule frame_lookup [OF ch(1) m(2)])
    ultimately show ?thesis
      using ch(2,3) by (simp add: fun_eq_iff frame_def) (simp add: set_chain_def)
  qed
  then show "lh_ok lh'" "r = lh_lookup lh d" "lh_same lh' = lh_same lh"
    "lh_items lh' = lh_items lh - (if lh_lookup lh d = None then 0 else 1)"
    "lh_lookup lh' = (\<lambda>e. if lh_same lh d e then None else lh_lookup lh e)"
    "lh_down_load lh' = lh_down_load lh" by blast+
qed

lemma retrieve_law:
  assumes "lh_ok lh" "lh_retrieve lh d = (r, lh')"
  shows "lh_ok lh'" "r = lh_lookup lh d" "lh_same lh' = lh_same lh" "lh_items lh' = lh_items lh" "lh_lookup lh' = lh_lookup lh"
proof -
  have ok1: "lh_ok (lh\<lparr>lh_err := 0\<rparr>)" using assms(1) by simp
  obtain nn i h where g: "getrn (lh\<lparr>lh_err := 0\<rparr>) d = (nn, i, h)" by (metis prod_cases3)
  have "lh' = lh\<lparr>lh_err := 0\<rparr>" using assms(2) g by (simp add: lh_retrieve_def Let_def)
  then show "lh_ok lh'" "lh_same lh' = lh_same lh" "lh_items lh' = lh_items lh" "lh_lookup lh' = lh_lookup lh"
    using assms(1) by simp_all
  show "r = lh_lookup lh d"
    using assms(2) g getrn_spec(4) [OF ok1 g] by (auto simp: lh_retrieve_def Let_def)
qed

section \<open>A table of items\<close>

text \<open>
  What the callers of a hash table rely on: insertion returns the item it
  replaces, deletion the item it removes, retrieval the item stored, with items
  taken up to \<open>same\<close>.  A context \<open>c\<close> is that of one call; \<open>stores c\<close> tells
  whether memory for a new item can be had.
\<close>

datatype ('c, 'a) table_op = Insert 'c 'a | Delete 'c 'a | Retrieve 'a

fun run_table :: "('c \<Rightarrow> 't \<Rightarrow> 'a \<Rightarrow> 'a option \<times> 't) \<Rightarrow> ('c \<Rightarrow> 't \<Rightarrow> 'a \<Rightarrow> 'a option \<times> 't) \<Rightarrow> ('t \<Rightarrow> 'a \<Rightarrow> 'a option \<times> 't)
    \<Rightarrow> ('c, 'a) table_op list \<Rightarrow> 't \<Rightarrow> 'a option list \<times> 't" where
  "run_table ins del ret [] t = ([], t)"
| "run_table ins del ret (op # ops) t =
     (let (r, t) = (case op of Insert c d \<Rightarrow> ins c t d | Delete c d \<Rightarrow> del c t d | Retrieve d \<Rightarrow> ret t d);
          (rs, t) = run_table ins del ret ops t
      in (r # rs, t))"

fun spec_table :: "('a \<Rightarrow> 'a \<Rightarrow> bool) \<Rightarrow> ('c \<Rightarrow> bool) \<Rightarrow> ('c, 'a) table_op list \<Rightarrow> ('a \<Rightarrow> 'a option)
    \<Rightarrow> 'a option list \<times> ('a \<Rightarrow> 'a option)" where
  "spec_table same stores [] m = ([], m)"
| "spec_table same stores (op # ops) m =
     (let (r, m) = (case op of
            Insert c d \<Rightarrow> (m d, if m d = None \<and> \<not> stores c then m else (\<lambda>e. if same d e then Some d else m e))
          | Delete c d \<Rightarrow> (m d, \<lambda>e. if same d e then None else m e)
          | Retrieve d \<Rightarrow> (m d, m));
          (rs, m) = spec_table same stores ops m
      in (r # rs, m))"

fun op_context_ok :: "('c \<Rightarrow> bool) \<Rightarrow> ('c, 'a) table_op \<Rightarrow> bool" where
  "op_context_ok good (Insert c d) = good c"
| "op_context_ok good (Delete c d) = good c"
| "op_context_ok good (Retrieve d) = True"

locale item_table =
  fixes ok :: "'t \<Rightarrow> bool" and same :: "'t \<Rightarrow> 'a \<Rightarrow> 'a \<Rightarrow> bool" and lookup :: "'t \<Rightarrow> 'a \<Rightarrow> 'a option"
    and items :: "'t \<Rightarrow> nat" and capacity :: nat and good :: "'c \<Rightarrow> bool" and stores :: "'c \<Rightarrow> bool"
    and ins :: "'c \<Rightarrow> 't \<Rightarrow> 'a \<Rightarrow> 'a option \<times> 't" and del :: "'c \<Rightarrow> 't \<Rightarrow> 'a \<Rightarrow> 'a option \<times> 't"
    and ret :: "'t \<Rightarrow> 'a \<Rightarrow> 'a option \<times> 't"
  assumes ins: "\<lbrakk>ok t; good c; items t < capacity; ins c t d = (r, t')\<rbrakk> \<Longrightarrow>
      ok t' \<and> r = lookup t d \<and> same t' = same t \<and> items t' \<le> items t + 1
      \<and> lookup t' = (if lookup t d = None \<and> \<not> stores c then lookup t
                     else (\<lambda>e. if same t d e then Some d else lookup t e))"
    and del: "\<lbrakk>ok t; good c; del c t d = (r, t')\<rbrakk> \<Longrightarrow>
      ok t' \<and> r = lookup t d \<and> same t' = same t \<and> items t' \<le> items t
      \<and> lookup t' = (\<lambda>e. if same t d e then None else lookup t e)"
    and ret: "\<lbrakk>ok t; ret t d = (r, t')\<rbrakk> \<Longrightarrow>
      ok t' \<and> r = lookup t d \<and> same t' = same t \<and> items t' \<le> items t \<and> lookup t' = lookup t"
begin

lemma op_law:
  assumes "ok t" "op_context_ok good op" "items t < capacity"
    "(case op of Insert c d \<Rightarrow> ins c t d | Delete c d \<Rightarrow> del c t d | Retrieve d \<Rightarrow> ret t d) = (r, t')"
  shows "ok t' \<and> same t' = same t \<and> items t' \<le> items t + 1 \<and>
    (r, lookup t') = (case op of
            Insert c d \<Rightarrow> (lookup t d, if lookup t d = None \<and> \<not> stores c then lookup t
               else (\<lambda>e. if same t d e then Some d else lookup t e))
          | Delete c d \<Rightarrow> (lookup t d, \<lambda>e. if same t d e then None else lookup t e)
          | Retrieve d \<Rightarrow> (lookup t d, lookup t))"
proof (cases op)
  case (Insert c d)
  then show ?thesis using assms ins [of t c d r t'] by simp
next
  case (Delete c d)
  then show ?thesis using assms del [of t c d r t'] by simp
next
  case (Retrieve d)
  then show ?thesis using assms ret [of t d r t'] by simp
qed

lemma session:
  assumes "ok t" "\<forall>op\<in>set ops. op_context_ok good op" "items t + length ops \<le> capacity"
    "run_table ins del ret ops t = (outs, t')"
  shows "ok t' \<and> (outs, lookup t') = spec_table (same t) stores ops (lookup t)"
  using assms
proof (induction ops arbitrary: t outs t')
  case Nil
  then show ?case by simp
next
  case (Cons op ops)
  obtain r t1 where e: "(case op of Insert c d \<Rightarrow> ins c t d | Delete c d \<Rightarrow> del c t d | Retrieve d \<Rightarrow> ret t d) = (r, t1)"
    by fastforce
  obtain rs t2 where e2: "run_table ins del ret ops t1 = (rs, t2)" by fastforce
  have out: "outs = r # rs" "t' = t2" using Cons.prems(4) e e2 by simp_all
  note law = op_law [OF Cons.prems(1) _ _ e]
  have l: "ok t1" "same t1 = same t" "items t1 \<le> items t + 1" using law Cons.prems(2,3) by simp_all
  have "ok t2 \<and> (rs, lookup t2) = spec_table (same t1) stores ops (lookup t1)"
    by (rule Cons.IH [OF l(1) _ _ e2]) (use Cons.prems(2,3) l(3) in auto)
  then show ?case
    using law Cons.prems(2,3) l(2) out by (simp add: Let_def split: prod.splits) (metis prod.inject)
qed

end

interpretation lh: item_table lh_ok lh_same lh_lookup lh_items "2 ^ 29" grows "\<lambda>alloc. alloc sizeof_node"
  lh_insert lh_delete lh_retrieve
proof unfold_locales
  fix t c d r and t' :: "'a lhash"
  assume *: "lh_ok t" "grows c" "lh_items t < 2 ^ 29" "lh_insert c t d = (r, t')"
  show "lh_ok t' \<and> r = lh_lookup t d \<and> lh_same t' = lh_same t \<and> lh_items t' \<le> lh_items t + 1
      \<and> lh_lookup t' = (if lh_lookup t d = None \<and> \<not> c sizeof_node then lh_lookup t
                     else (\<lambda>e. if lh_same t d e then Some d else lh_lookup t e))"
    using insert_law [OF *] by blast
next
  fix t c d r and t' :: "'a lhash"
  assume *: "lh_ok t" "grows c" "lh_delete c t d = (r, t')"
  show "lh_ok t' \<and> r = lh_lookup t d \<and> lh_same t' = lh_same t \<and> lh_items t' \<le> lh_items t
      \<and> lh_lookup t' = (\<lambda>e. if lh_same t d e then None else lh_lookup t e)"
    using delete_law(1-3,5) [OF *] delete_law(4) [OF *] by simp
next
  fix t d r and t' :: "'a lhash"
  assume *: "lh_ok t" "lh_retrieve t d = (r, t')"
  show "lh_ok t' \<and> r = lh_lookup t d \<and> lh_same t' = lh_same t \<and> lh_items t' \<le> lh_items t \<and> lh_lookup t' = lh_lookup t"
    using retrieve_law [OF *] by simp
qed

abbreviation lh_run :: "(nat \<Rightarrow> bool, 'a) table_op list \<Rightarrow> 'a lhash \<Rightarrow> 'a option list \<times> 'a lhash" where
  "lh_run \<equiv> run_table lh_insert lh_delete lh_retrieve"

lemma new_ok:
  assumes "keys_ok h c" "lh_new alloc h c = Some lh"
  shows "lh_ok lh" "lh_lookup lh = (\<lambda>_. None)" "lh_same lh = (\<lambda>x y. c x y = 0)" "lh_items lh = 0"
proof -
  have lh: "lh = \<lparr>lh_b = replicate 16 [], lh_comp = c, lh_hash = h, lh_num_nodes = 8,
        lh_num_alloc_nodes = 16, lh_p = 0, lh_pmax = 8, lh_up_load = UP_LOAD,
        lh_down_load = DOWN_LOAD, lh_items = 0, lh_err = 0\<rparr>"
    using assms(2) by (simp add: lh_new_def MIN_NODES_def split: if_splits)
  have "\<exists>k. (8::nat) = 8 * 2 ^ k" by (rule exI [of _ 0]) simp
  then show "lh_ok lh"
    using assms(1) by (simp add: lh lh_ok_def lh_shape_def placed_def nodes_ok_def lh_nodes_def)
  show "lh_lookup lh = (\<lambda>_. None)" by (simp add: lh lh_lookup_def fun_eq_iff)
  show "lh_same lh = (\<lambda>x y. c x y = 0)" "lh_items lh = 0" by (simp_all add: lh)
qed

text \<open>
  C20.  A hash table behaves as a map from items, taken up to the comparison function,
  to items.  For a hash function that respects the comparison function, every
  sequence of at most \<open>2 ^ 29\<close> insertions, deletions and retrievals on a new
  table returns what the map returns, however the table grows and shrinks on
  the way; an insertion for which no node can be allocated leaves the map as it
  was.  The allocator must deliver the bucket arrays.
\<close>

theorem lhash_is_map:
  assumes "keys_ok h c" "lh_new alloc h c = Some lh" "\<forall>op\<in>set ops. op_context_ok grows op" "length ops \<le> 2 ^ 29"
    "lh_run ops lh = (outs, lh')"
  shows "lh_ok lh' \<and> (outs, lh_lookup lh') = spec_table (\<lambda>x y. c x y = 0) (\<lambda>alloc. alloc sizeof_node) ops (\<lambda>_. None)"
  using lh.session [OF new_ok(1) [OF assms(1,2)] assms(3) _ assms(5)] new_ok(2-4) [OF assms(1,2)] assms(4) by simp

definition str_comp :: "bytes \<Rightarrow> bytes \<Rightarrow> int" where
  "str_comp x y = (if x = y then 0 else 1)"

theorem lhash_is_map_witness:
  "case lh_new (\<lambda>_. True) lh_strhash str_comp of None \<Rightarrow> False | Some lh \<Rightarrow>
     fst (lh_run [Insert (\<lambda>_. True) [97], Insert (\<lambda>n. n \<noteq> 24) [98], Insert (\<lambda>n. n \<noteq> 24) [97], Retrieve [98], Delete (\<lambda>_. True) [97],
        Retrieve [97]] lh) = [None, None, Some [97], None, Some [97], None]"
proof -
  obtain lh where lh: "lh_new (\<lambda>_. True) lh_strhash str_comp = Some lh" by (simp add: lh_new_def)
  have k: "keys_ok lh_strhash str_comp" by (auto simp: keys_ok_def str_comp_def split: if_splits)
  let ?ops = "[Insert (\<lambda>_. True) [97], Insert (\<lambda>n. n \<noteq> 24) [98], Insert (\<lambda>n. n \<noteq> 24) [97], Retrieve [98], Delete (\<lambda>_. True) [97],
        Retrieve [97]] :: (nat \<Rightarrow> bool, bytes) table_op list"
  obtain outs lh' where e: "lh_run ?ops lh = (outs, lh')" by fastforce
  from lhash_is_map [OF k lh _ _ e] have "fst (lh_run ?ops lh) =
      fst (spec_table (\<lambda>x y. str_comp x y = 0) (\<lambda>alloc. alloc sizeof_node) ?ops (\<lambda>_. None))"
    unfolding e by (simp add: grows_def)
  with lh show ?thesis by (simp add: str_comp_def sizeof_node_def)
qed

section \<open>Walking a table\<close>

lemma doall_chain_keeps:
  assumes "\<And>d l s. f d (l, s) = (l, g d s)"
  shows "doall_chain f ch (l, s) = (l, fold g (map ln_data ch) s)"
  by (induction ch arbitrary: s) (simp_all add: assms)

lemma doall_loop_keeps:
  assumes "\<And>d l s. f d (l, s) = (l, g d s)" "n \<le> length (lh_b l)"
  shows "doall_loop f n (l, s) = (l, fold g (map ln_data (concat (rev (take n (lh_b l))))) s)"
  using assms(2)
proof (induction n arbitrary: s)
  case 0
  then show ?case by simp
next
  case (Suc n)
  then show ?case
    by (simp add: doall_chain_keeps [OF assms(1)] take_Suc_conv_app_nth fold_append)
qed

lemma nodes_in_front:
  assumes "lh_ok lh"
  shows "mset (concat (rev (take (lh_num_nodes lh) (lh_b lh)))) = lh_nodes lh"
proof -
  have sh: "lh_shape lh" "placed (lh_pmax lh) (lh_p lh) (lh_b lh)" using assms by (simp_all add: lh_ok_def)
  have len: "lh_num_nodes lh = lh_pmax lh + lh_p lh" "lh_num_nodes lh \<le> length (lh_b lh)" "0 < lh_pmax lh"
    using sh(1) shape_pmax [OF sh(1)] by (auto simp: lh_shape_def)
  have "drop (lh_num_nodes lh) (lh_b lh) = replicate (length (lh_b lh) - lh_num_nodes lh) []"
    by (rule nth_equalityI) (use placed_top [OF sh(2)] len in auto)
  then have "concat (take (lh_num_nodes lh) (lh_b lh)) = concat (lh_b lh)"
    by (metis append.right_neutral append_take_drop_id concat_append concat_replicate_trivial)
  moreover have "mset (concat (rev bs)) = mset (concat bs)" for bs :: "'a lhash_node list list"
    by (induction bs) simp_all
  ultimately show ?thesis by (simp add: lh_nodes_def)
qed

lemma lh_ok_down_load [simp]: "lh_ok (lh\<lparr>lh_down_load := x\<rparr>) = lh_ok lh"
  by (simp add: lh_ok_def lh_shape_def lh_nodes_def)

text \<open>
  A walk with \<open>lh_doall_arg\<close> visits every item of the table exactly once.  For a
  callback that leaves the table alone, its state is folded over the items in
  some order without repetitions, and the table holds the same items afterwards,
  even if the walk ends with a contraction.
\<close>

theorem lh_doall_visits_all:
  assumes "lh_ok lh" "grows alloc" "\<And>d l s. f d (l, s) = (l, g d s)"
  shows "\<exists>lh' vs. lh_doall_arg alloc f (lh, s) = (lh', fold g vs s) \<and> mset vs = image_mset ln_data (lh_nodes lh)
    \<and> lh_ok lh' \<and> lh_lookup lh' = lh_lookup lh"
proof -
  let ?vs = "map ln_data (concat (rev (take (lh_num_nodes lh) (lh_b lh))))"
  have "lh_shape lh" using assms(1) by (simp add: lh_ok_def)
  then have "lh_num_nodes lh \<le> length (lh_b (lh\<lparr>lh_down_load := 0\<rparr>))" by (auto simp: lh_shape_def)
  from doall_loop_keeps [OF assms(3) this]
  have e: "lh_doall_arg alloc f (lh, s) = (maybe_contract alloc lh, fold g ?vs s)"
    by (simp add: lh_doall_arg_def doall_util_fn_def Let_def)
  have m: "lh_ok (maybe_contract alloc lh)" "frame lh (maybe_contract alloc lh)"
    using maybe_contract_ok [OF assms(1,2)] by simp_all
  have "mset ?vs = image_mset ln_data (lh_nodes lh)" using nodes_in_front [OF assms(1)] by (metis mset_map)
  then show ?thesis
    using e m frame_lookup [OF assms(1) m(2)] by (intro exI conjI) (auto simp: fun_eq_iff)
qed

definition num_hash :: "nat \<Rightarrow> u64" where "num_hash n = of_nat n"
definition num_comp :: "nat \<Rightarrow> nat \<Rightarrow> int" where "num_comp m n = int m - int n"

lemma num_keys_ok: "keys_ok num_hash num_comp"
  by (auto simp: keys_ok_def num_comp_def)

definition num_table :: "(nat \<Rightarrow> bool, nat) table_op list \<Rightarrow> nat option list \<times> nat lhash" where
  "num_table ops = lh_run ops (the (lh_new (\<lambda>_. True) num_hash num_comp))"

definition always :: "nat \<Rightarrow> bool" where "always n = True"

theorem lh_doall_visits_all_witness:
  "\<exists>vs. snd (lh_doall_arg always (\<lambda>d (l, s). (l, d + s)) (snd (num_table [Insert always 3, Insert always 19]), 0)) = sum_list vs
     \<and> mset vs = {#3, 19#}"
proof -
  let ?lh = "snd (num_table [Insert always 3, Insert always 19])"
  obtain lh0 where n: "lh_new (\<lambda>_. True) num_hash num_comp = Some lh0" by (simp add: lh_new_def)
  obtain outs where r: "lh_run [Insert always 3, Insert always 19] lh0 = (outs, ?lh)"
    using n by (simp add: num_table_def) (metis surjective_pairing)
  have g: "grows always" by (simp add: grows_def always_def)
  have "lh_ok ?lh"
    using lh.session [OF new_ok(1) [OF num_keys_ok n] _ _ r] new_ok(4) [OF num_keys_ok n] g by simp
  from lh_doall_visits_all [OF this g, of "\<lambda>d (l, s). (l, d + s)" "\<lambda>d s. d + s" 0]
  obtain lh' vs where v: "lh_doall_arg always (\<lambda>d (l, s). (l, d + s)) (?lh, 0) = (lh', fold (+) vs 0)"
    "mset vs = image_mset ln_data (lh_nodes ?lh)" by auto
  have "image_mset ln_data (lh_nodes ?lh) = {#3, 19#}" by code_simp
  moreover have "fold (+) vs 0 = sum_list vs" by (simp add: fold_plus_sum_list_rev sum_list_rev)
  ultimately show ?thesis using v by (metis snd_conv)
qed

section \<open>Allocation failures\<close>

lemma chain_find_none:
  "\<forall>n\<in>set ch. ln_hash n \<noteq> h \<Longrightarrow> chain_find c h d ch = length ch"
  by (induction c h d ch rule: chain_find.induct) auto

lemma retrieve_none:
  assumes "lh_p lh = 0" "\<forall>n\<in>set (lh_b lh ! (unat (lh_hash lh x) mod lh_pmax lh)). ln_hash n \<noteq> lh_hash lh x"
  shows "fst (lh_retrieve lh x) = None"
  using assms by (simp add: lh_retrieve_def getrn_def Let_def chain_find_none)

text \<open>
  C21.  When the bucket array cannot be enlarged, \<open>expand\<close> resets \<open>p\<close> although all
  buckets have been split: from then on the items that were moved to the upper
  half of the array are not found any more.
\<close>

theorem expand_failure_loses_items:
  assumes "lh_ok lh" "lh_p lh + 1 = lh_pmax lh" "\<not> alloc (4 * lh_pmax lh * sizeof_ptr)"
    "4 * lh_pmax lh < 2 ^ 32" "lh_pmax lh \<le> unat (lh_hash lh x) mod (2 * lh_pmax lh)"
  shows "fst (lh_retrieve (expand alloc lh) x) = None"
proof -
  let ?P = "lh_pmax lh" let ?p = "lh_p lh" let ?b = "lh_b lh"
  have sh: "lh_shape lh" and pl: "placed ?P ?p ?b" using assms(1) by (auto simp: lh_ok_def)
  have P: "8 \<le> ?P" "?p < ?P" "length ?b = 2 * ?P" "lh_num_alloc_nodes lh = 2 * ?P" "lh_num_nodes lh = ?P + ?p"
    using sh shape_pmax [OF sh] by (auto simp: lh_shape_def)
  obtain n1 n2 where n12: "expand_loop (2 * ?P) ?p (?b ! ?p) [] = (n1, n2)" by fastforce
  define b' where "b' = ?b[?p := n1, ?p + ?P := n2]"
  have b': "placed ?P ?P b'" "length b' = 2 * ?P"
    using split_bucket [OF pl P(2,3)] n12 P(3) assms(2) by (simp_all add: b'_def)
  have "reallocarray alloc [] b' (4 * ?P) sizeof_ptr = None"
    using assms(3,4) by (subst reallocarray_eq) (simp_all add: sizeof_ptr_def SIZE_MAX_def)
  moreover have "uint_mod (?p + 1) = ?P" "uint_mod (2 * ?P * 2) = 4 * ?P"
    using assms(2,4) by simp_all
  ultimately have e: "expand alloc lh = lh\<lparr>lh_num_nodes := uint_mod (?P + ?p + 1), lh_p := 0, lh_b := b', lh_err := lh_err lh + 1\<rparr>"
    using P n12 by (simp add: expand_def Let_def b'_def [symmetric])
  let ?nn = "unat (lh_hash lh x) mod ?P"
  have nn: "?nn < ?P" using P(1) by simp
  have "ln_hash n \<noteq> lh_hash lh x" if "n \<in> set (b' ! ?nn)" for n
  proof
    assume "ln_hash n = lh_hash lh x"
    moreover have "bucket ?P ?P (unat (ln_hash n)) = ?nn" using b' that nn by (simp add: placed_def)
    ultimately have "unat (lh_hash lh x) mod (2 * ?P) = ?nn" using nn by (simp add: bucket_def)
    with assms(5) nn show False by linarith
  qed
  then show ?thesis by (intro retrieve_none) (simp_all add: e)
qed

definition one_item :: "nat \<Rightarrow> nat \<Rightarrow> nat \<Rightarrow> nat lhash" where
  "one_item P p k = \<lparr>lh_b = (replicate (2 * P) [])[k := [\<lparr>ln_data = k, ln_hash = num_hash k\<rparr>]], lh_comp = num_comp, lh_hash = num_hash,
     lh_num_nodes = P + p, lh_num_alloc_nodes = 2 * P, lh_p = p, lh_pmax = P, lh_up_load = UP_LOAD,
     lh_down_load = DOWN_LOAD, lh_items = 1, lh_err = 0\<rparr>"

lemma one_item_ok:
  assumes "P = 8 * 2 ^ j" "p < P" "2 * P \<le> 2 ^ 30" "k < 2 * P" "bucket P p k = k"
  shows "lh_ok (one_item P p k)"
proof -
  have k: "unat (num_hash k) = k" using assms(3,4) by (simp add: num_hash_def unat_of_nat)
  have "placed P p (lh_b (one_item P p k))"
    using assms(4,5) k by (auto simp: placed_def one_item_def nth_list_update split: if_splits)
  moreover have "lh_nodes (one_item P p k) = {#\<lparr>ln_data = k, ln_hash = num_hash k\<rparr>#}"
    using mset_concat_update [of k "replicate (2 * P) []" "[\<lparr>ln_data = k, ln_hash = num_hash k\<rparr>]"] assms(4)
    by (simp add: lh_nodes_def one_item_def)
  moreover have "lh_shape (one_item P p k)"
    using assms(1-3) by (simp add: lh_shape_def one_item_def)
  ultimately show ?thesis
    using num_keys_ok by (simp add: lh_ok_def nodes_ok_def) (simp add: one_item_def)
qed

theorem expand_failure_loses_items_witness:
  "fst (lh_retrieve (one_item 8 7 9) 9) = Some 9 \<and> fst (lh_retrieve (expand (\<lambda>n. n < 256) (one_item 8 7 9)) 9) = None"
proof
  have ok: "lh_ok (one_item 8 7 9)" by (rule one_item_ok [of _ 0]) (simp_all add: bucket_def)
  show "fst (lh_retrieve (one_item 8 7 9) 9) = Some 9"
    by (simp add: lh_retrieve_def getrn_def one_item_def num_hash_def num_comp_def)
  show "fst (lh_retrieve (expand (\<lambda>n. n < 256) (one_item 8 7 9)) 9) = None"
    by (rule expand_failure_loses_items [OF ok]) (simp_all add: one_item_def sizeof_ptr_def num_hash_def)
qed

text \<open>
  When the bucket array cannot be made smaller, \<open>contract\<close> returns after it has
  emptied the last bucket: the items of that bucket are lost.
\<close>

theorem contract_failure_loses_items:
  assumes "lh_ok lh" "lh_p lh = 0" "\<not> alloc (lh_pmax lh * sizeof_ptr)"
    "unat (lh_hash lh x) mod lh_pmax lh = lh_pmax lh - 1"
  shows "fst (lh_retrieve (contract alloc lh) x) = None"
proof -
  let ?P = "lh_pmax lh"
  have sh: "lh_shape lh" using assms(1) by (auto simp: lh_ok_def)
  have P: "8 \<le> ?P" "length (lh_b lh) = 2 * ?P" "2 * ?P \<le> 2 ^ 30"
    using sh shape_pmax [OF sh] by (auto simp: lh_shape_def)
  have "reallocarray alloc [] ((lh_b lh)[?P - 1 := []]) ?P sizeof_ptr = None"
    using assms(3) P(3) by (subst reallocarray_eq) (simp_all add: sizeof_ptr_def SIZE_MAX_def)
  then have e: "contract alloc lh = lh\<lparr>lh_b := (lh_b lh)[?P - 1 := []], lh_err := lh_err lh + 1\<rparr>"
    using assms(2) by (simp add: contract_def Let_def)
  show ?thesis using P assms(2,4) by (intro retrieve_none) (simp_all add: e)
qed

theorem contract_failure_loses_items_witness:
  "fst (lh_retrieve (one_item 32 0 31) 31) = Some 31 \<and> fst (lh_retrieve (contract (\<lambda>n. n < 256) (one_item 32 0 31)) 31) = None"
proof
  have ok: "lh_ok (one_item 32 0 31)" by (rule one_item_ok [of _ 2]) (simp_all add: bucket_def)
  show "fst (lh_retrieve (one_item 32 0 31) 31) = Some 31"
    by (simp add: lh_retrieve_def getrn_def one_item_def num_hash_def num_comp_def)
  show "fst (lh_retrieve (contract (\<lambda>n. n < 256) (one_item 32 0 31)) 31) = None"
    by (rule contract_failure_loses_items [OF ok]) (simp_all add: one_item_def sizeof_ptr_def num_hash_def)
qed

text \<open>
  During a walk \<open>doall_util_fn\<close> sets \<open>down_load\<close> to 0 to disable contraction, but
  the test in \<open>lh_delete\<close> is \<open>down_load >= load\<close>, and the load is rounded down:
  deleting from a sparse table still contracts it while it is being walked.
\<close>

theorem zero_down_load_still_contracts:
  "lh_num_nodes (snd (lh_delete always ((one_item 32 1 31)\<lparr>lh_down_load := 0\<rparr>) 31)) = 32"
  by (simp add: lh_delete_def getrn_def one_item_def num_hash_def num_comp_def Let_def maybe_contract_def MIN_NODES_def load_def
      contract_def)

end
