(* ===== verification/SSL_Version.thy ===== *)
theory SSL_Version
  imports Prelude
begin

text \<open>
  Protocol version negotiation: libssl/ssl_versions.c, with the security levels of
  libssl/ssl_seclevel.c that it consults.  Functions that report through output
  parameters return an option.
\<close>

section \<open>Versions, methods and connections\<close>

definition TLS1_VERSION :: u16 where "TLS1_VERSION = 0x0301"
definition TLS1_1_VERSION :: u16 where "TLS1_1_VERSION = 0x0302"
definition TLS1_2_VERSION :: u16 where "TLS1_2_VERSION = 0x0303"
definition TLS1_3_VERSION :: u16 where "TLS1_3_VERSION = 0x0304"
definition DTLS1_VERSION :: u16 where "DTLS1_VERSION = 0xFEFF"
definition DTLS1_2_VERSION :: u16 where "DTLS1_2_VERSION = 0xFEFD"
definition DTLS1_VERSION_MAJOR :: u16 where "DTLS1_VERSION_MAJOR = 0xFE"

definition SSL_OP_NO_TLSv1 :: u64 where "SSL_OP_NO_TLSv1 = 0x04000000"
definition SSL_OP_NO_TLSv1_1 :: u64 where "SSL_OP_NO_TLSv1_1 = 0x10000000"
definition SSL_OP_NO_TLSv1_2 :: u64 where "SSL_OP_NO_TLSv1_2 = 0x08000000"
definition SSL_OP_NO_TLSv1_3 :: u64 where "SSL_OP_NO_TLSv1_3 = 0x20000000"
definition SSL_OP_NO_DTLSv1 :: u64 where "SSL_OP_NO_DTLSv1 = 0x40000000"
definition SSL_OP_NO_DTLSv1_2 :: u64 where "SSL_OP_NO_DTLSv1_2 = 0x80000000"

lemmas version_defs = TLS1_VERSION_def TLS1_1_VERSION_def TLS1_2_VERSION_def TLS1_3_VERSION_def
  DTLS1_VERSION_def DTLS1_2_VERSION_def DTLS1_VERSION_MAJOR_def

record ssl_method =
  m_dtls :: bool
  m_min_tls_version :: u16
  m_max_tls_version :: u16

record ssl =
  s_method :: ssl_method
  s_options :: u64
  s_quic :: bool
  s_min_tls_version :: u16
  s_max_tls_version :: u16
  s_security_level :: int
  s_negotiated_tls_version :: u16
  s_our_max_tls_version :: u16

definition SSL_is_dtls :: "ssl \<Rightarrow> bool" where "SSL_is_dtls s = m_dtls (s_method s)"
definition SSL_is_quic :: "ssl \<Rightarrow> bool" where "SSL_is_quic s = s_quic s"

record ssl_cipher =
  algorithm_mkey :: u64
  algorithm_auth :: u64
  algorithm_enc :: u64
  algorithm_mac :: u64
  algorithm_ssl :: u64
  strength_bits :: int

section \<open>Version ranges\<close>

definition ssl_dtls_to_tls_version :: "u16 \<Rightarrow> u16" where
  "ssl_dtls_to_tls_version dtls_ver =
     (if dtls_ver = DTLS1_VERSION then TLS1_1_VERSION
      else if dtls_ver = DTLS1_2_VERSION then TLS1_2_VERSION else 0)"

definition ssl_tls_to_dtls_version :: "u16 \<Rightarrow> u16" where
  "ssl_tls_to_dtls_version tls_ver =
     (if tls_ver = TLS1_1_VERSION then DTLS1_VERSION
      else if tls_ver = TLS1_2_VERSION then DTLS1_2_VERSION else 0)"

definition ssl_clamp_tls_version_range :: "u16 \<Rightarrow> u16 \<Rightarrow> u16 \<Rightarrow> u16 \<Rightarrow> (u16 \<times> u16) option" where
  "ssl_clamp_tls_version_range min_ver max_ver clamp_min clamp_max =
     (if clamp_min > clamp_max \<or> min_ver > max_ver then None
      else if clamp_max < min_ver \<or> clamp_min > max_ver then None
      else Some (if min_ver < clamp_min then clamp_min else min_ver,
                 if max_ver > clamp_max then clamp_max else max_ver))"

text \<open>The result is \<open>(*out_tls_ver, *out_proto_ver)\<close>.\<close>

definition ssl_version_set_min :: "ssl_method \<Rightarrow> u16 \<Rightarrow> u16 \<Rightarrow> (u16 \<times> u16) option" where
  "ssl_version_set_min meth proto_ver max_tls_ver =
     (if proto_ver = 0 then Some (m_min_tls_version meth, 0)
      else let min_version = (if m_dtls meth then ssl_dtls_to_tls_version proto_ver else proto_ver)
       in if m_dtls meth \<and> min_version = 0 then None
          else case ssl_clamp_tls_version_range min_version max_tls_ver
                      (m_min_tls_version meth) (m_max_tls_version meth) of
              None \<Rightarrow> None
            | Some (min_version, _) \<Rightarrow>
               (let min_proto = (if m_dtls meth then ssl_tls_to_dtls_version min_version else min_version)
                in if m_dtls meth \<and> min_proto = 0 then None else Some (min_version, min_proto)))"

definition ssl_version_set_max :: "ssl_method \<Rightarrow> u16 \<Rightarrow> u16 \<Rightarrow> (u16 \<times> u16) option" where
  "ssl_version_set_max meth proto_ver min_tls_ver =
     (if proto_ver = 0 then Some (m_max_tls_version meth, 0)
      else let max_version = (if m_dtls meth then ssl_dtls_to_tls_version proto_ver else proto_ver)
       in if m_dtls meth \<and> max_version = 0 then None
          else case ssl_clamp_tls_version_range min_tls_ver max_version
                      (m_min_tls_version meth) (m_max_tls_version meth) of
              None \<Rightarrow> None
            | Some (_, max_version) \<Rightarrow>
               (let max_proto = (if m_dtls meth then ssl_tls_to_dtls_version max_version else max_version)
                in if m_dtls meth \<and> max_proto = 0 then None else Some (max_version, max_proto)))"

text \<open>The options that count: for DTLS they are rebuilt from the DTLS flags.\<close>

definition enabled_options :: "ssl \<Rightarrow> u64" where
  "enabled_options s =
     (if SSL_is_dtls s then
        (let options = 0;
             options = (if s_options s AND SSL_OP_NO_DTLSv1 \<noteq> 0
                        then options OR (SSL_OP_NO_TLSv1 OR SSL_OP_NO_TLSv1_1) else options)
         in if s_options s AND SSL_OP_NO_DTLSv1_2 \<noteq> 0
            then options OR (SSL_OP_NO_TLSv1 OR SSL_OP_NO_TLSv1_2) else options)
      else s_options s)"

definition ssl_enabled_tls_version_range :: "ssl \<Rightarrow> (u16 \<times> u16) option" where
  "ssl_enabled_tls_version_range s =
     (let options = enabled_options s;
          min_version = (if options AND SSL_OP_NO_TLSv1_2 = 0 then TLS1_2_VERSION
                         else if options AND SSL_OP_NO_TLSv1_3 = 0 then TLS1_3_VERSION else 0);
          max_version = TLS1_3_VERSION;
          max_version = (if options AND SSL_OP_NO_TLSv1_3 \<noteq> 0 \<and> min_version < TLS1_3_VERSION
                         then TLS1_2_VERSION else max_version);
          max_version = (if options AND SSL_OP_NO_TLSv1_2 \<noteq> 0 \<and> min_version < TLS1_2_VERSION
                         then 0 else max_version)
      in if min_version = 0 \<or> max_version = 0 then None
         else case ssl_clamp_tls_version_range min_version max_version (s_min_tls_version s) (s_max_tls_version s) of
             None \<Rightarrow> None
           | Some (min_version, max_version) \<Rightarrow>
              (if SSL_is_quic s then
                 (if max_version < TLS1_3_VERSION then None
                  else Some (if min_version < TLS1_3_VERSION then TLS1_3_VERSION else min_version, max_version))
               else Some (min_version, max_version)))"

definition ssl_supported_tls_version_range :: "ssl \<Rightarrow> (u16 \<times> u16) option" where
  "ssl_supported_tls_version_range s =
     (case ssl_enabled_tls_version_range s of
        None \<Rightarrow> None
      | Some (min_version, max_version) \<Rightarrow>
         ssl_clamp_tls_version_range min_version max_version
           (m_min_tls_version (s_method s)) (m_max_tls_version (s_method s)))"

definition ssl_tls_version :: "u16 \<Rightarrow> u16" where
  "ssl_tls_version version =
     (if version = TLS1_VERSION \<or> version = TLS1_1_VERSION \<or> version = TLS1_2_VERSION \<or> version = TLS1_3_VERSION
      then version
      else if version = DTLS1_VERSION then TLS1_1_VERSION
      else if version = DTLS1_2_VERSION then TLS1_2_VERSION else 0)"

definition ssl_effective_tls_version :: "ssl \<Rightarrow> u16" where
  "ssl_effective_tls_version s =
     (if s_negotiated_tls_version s > 0 then s_negotiated_tls_version s else s_our_max_tls_version s)"

definition ssl_max_supported_version :: "ssl \<Rightarrow> u16 option" where
  "ssl_max_supported_version s =
     (case ssl_supported_tls_version_range s of
        None \<Rightarrow> None
      | Some (_, max_version) \<Rightarrow>
         (if SSL_is_dtls s then
            (let max_version = ssl_tls_to_dtls_version max_version
             in if max_version = 0 then None else Some max_version)
          else Some max_version))"

definition ssl_max_legacy_version :: "ssl \<Rightarrow> u16 option" where
  "ssl_max_legacy_version s =
     (let max_version = s_our_max_tls_version s;
          max_version = (if max_version > TLS1_2_VERSION then TLS1_2_VERSION else max_version)
      in if SSL_is_dtls s then
           (let max_version = ssl_tls_to_dtls_version max_version
            in if max_version = 0 then None else Some max_version)
         else Some max_version)"

section \<open>Security levels\<close>

text \<open>
  The level is that of the \<open>SSL_CTX\<close> where one is given and of the \<open>SSL\<close> otherwise.
  The security callback takes the level, the operation, the bits, the version
  and the cipher; \<open>ssl_security_default_cb\<close> is the one installed by default.
\<close>

definition ssl_security_normalize_level :: "int \<Rightarrow> int" where
  "ssl_security_normalize_level security_level =
     (let security_level = (if security_level < 0 then 0 else security_level)
      in if security_level > 5 then 5 else security_level)"

definition ssl_security_level_to_minimum_bits :: "int \<Rightarrow> int option" where
  "ssl_security_level_to_minimum_bits security_level =
     (if security_level < 0 then None
      else if security_level = 0 then Some 0
      else if security_level = 1 then Some 80
      else if security_level = 2 then Some 112
      else if security_level = 3 then Some 128
      else if security_level = 4 then Some 192
      else Some 256)"

definition ssl_security_level_and_minimum_bits :: "int \<Rightarrow> (int \<times> int) option" where
  "ssl_security_level_and_minimum_bits level =
     (let security_level = ssl_security_normalize_level level
      in case ssl_security_level_to_minimum_bits security_level of
           None \<Rightarrow> None
         | Some minimum_bits \<Rightarrow> Some (security_level, minimum_bits))"

definition SSL_aNULL :: u64 where "SSL_aNULL = 0x00000004"
definition SSL_MD5 :: u64 where "SSL_MD5 = 0x00000001"
definition SSL_SHA1 :: u64 where "SSL_SHA1 = 0x00000002"
definition SSL_RC4 :: u64 where "SSL_RC4 = 0x00000004"
definition SSL_kDHE :: u64 where "SSL_kDHE = 0x00000008"
definition SSL_kECDHE :: u64 where "SSL_kECDHE = 0x00000080"
definition SSL_TLSV1_3 :: u64 where "SSL_TLSV1_3 = 0x00000008"

definition ssl_security_secop_cipher :: "int \<Rightarrow> int \<Rightarrow> ssl_cipher \<Rightarrow> bool" where
  "ssl_security_secop_cipher level bits cipher =
     (case ssl_security_level_and_minimum_bits level of
        None \<Rightarrow> False
      | Some (security_level, minimum_bits) \<Rightarrow>
         (if security_level \<le> 0 then True
          else if bits < minimum_bits then False
          else if algorithm_auth cipher AND SSL_aNULL \<noteq> 0 then False
          else if algorithm_mac cipher AND SSL_MD5 \<noteq> 0 then False
          else if security_level \<le> 1 then True
          else if algorithm_enc cipher AND SSL_RC4 \<noteq> 0 then False
          else if security_level \<le> 2 then True
          else if algorithm_mkey cipher AND (SSL_kDHE OR SSL_kECDHE) = 0 \<and> algorithm_ssl cipher \<noteq> SSL_TLSV1_3 then False
          else if security_level \<le> 3 then True
          else if algorithm_mac cipher AND SSL_SHA1 \<noteq> 0 then False
          else True))"

text \<open>\<open>version\<close> is an \<open>int\<close> that \<open>ssl_tls_version\<close> takes as \<open>uint16_t\<close>.\<close>

definition ssl_security_secop_version :: "int \<Rightarrow> int \<Rightarrow> bool" where
  "ssl_security_secop_version level version =
     (case ssl_security_level_and_minimum_bits level of
        None \<Rightarrow> False
      | Some (security_level, _) \<Rightarrow>
         (let min_version = TLS1_2_VERSION;
              min_version = (if security_level < 4 then TLS1_1_VERSION else min_version);
              min_version = (if security_level < 3 then TLS1_VERSION else min_version)
          in ssl_tls_version (of_int version) \<ge> min_version))"

definition ssl_security_secop_compression :: "int \<Rightarrow> bool" where
  "ssl_security_secop_compression level = False"

definition ssl_security_secop_tickets :: "int \<Rightarrow> bool" where
  "ssl_security_secop_tickets level =
     (case ssl_security_level_and_minimum_bits level of
        None \<Rightarrow> False | Some (security_level, _) \<Rightarrow> security_level < 3)"

definition ssl_security_secop_tmp_dh :: "int \<Rightarrow> int \<Rightarrow> bool" where
  "ssl_security_secop_tmp_dh level bits =
     (case ssl_security_level_and_minimum_bits level of
        None \<Rightarrow> False
      | Some (security_level, minimum_bits) \<Rightarrow>
         (if security_level \<le> 0 \<and> bits < 80 then False else bits \<ge> minimum_bits))"

definition ssl_security_secop_default :: "int \<Rightarrow> int \<Rightarrow> bool" where
  "ssl_security_secop_default level bits =
     (case ssl_security_level_and_minimum_bits level of
        None \<Rightarrow> False | Some (_, minimum_bits) \<Rightarrow> bits \<ge> minimum_bits)"

datatype secop = SECOP_CIPHER_SUPPORTED | SECOP_CIPHER_SHARED | SECOP_CIPHER_CHECK | SECOP_VERSION
  | SECOP_COMPRESSION | SECOP_TICKET | SECOP_TMP_DH | SECOP_OTHER

type_synonym security_cb = "int \<Rightarrow> secop \<Rightarrow> int \<Rightarrow> int \<Rightarrow> ssl_cipher \<Rightarrow> bool"

definition ssl_security_default_cb :: security_cb where
  "ssl_security_default_cb level op bits version cipher =
     (case op of
        SECOP_CIPHER_SUPPORTED \<Rightarrow> ssl_security_secop_cipher level bits cipher
      | SECOP_CIPHER_SHARED \<Rightarrow> ssl_security_secop_cipher level bits cipher
      | SECOP_CIPHER_CHECK \<Rightarrow> ssl_security_secop_cipher level bits cipher
      | SECOP_VERSION \<Rightarrow> ssl_security_secop_version level version
      | SECOP_COMPRESSION \<Rightarrow> ssl_security_secop_compression level
      | SECOP_TICKET \<Rightarrow> ssl_security_secop_tickets level
      | SECOP_TMP_DH \<Rightarrow> ssl_security_secop_tmp_dh level bits
      | SECOP_OTHER \<Rightarrow> ssl_security_secop_default level bits)"

text \<open>A null cipher argument, which the operations concerned do not look at.\<close>

definition no_cipher :: ssl_cipher where
  "no_cipher = \<lparr>algorithm_mkey = 0, algorithm_auth = 0, algorithm_enc = 0, algorithm_mac = 0, algorithm_ssl = 0, strength_bits = 0\<rparr>"

definition ssl_security :: "security_cb \<Rightarrow> ssl \<Rightarrow> secop \<Rightarrow> int \<Rightarrow> int \<Rightarrow> ssl_cipher \<Rightarrow> bool" where
  "ssl_security cb s op bits nid other = cb (s_security_level s) op bits nid other"

definition ssl_security_tickets :: "security_cb \<Rightarrow> ssl \<Rightarrow> bool" where
  "ssl_security_tickets cb s = ssl_security cb s SECOP_TICKET 0 0 no_cipher"

definition ssl_security_version :: "security_cb \<Rightarrow> ssl \<Rightarrow> int \<Rightarrow> bool" where
  "ssl_security_version cb s version = ssl_security cb s SECOP_VERSION 0 version no_cipher"

definition ssl_security_cipher :: "security_cb \<Rightarrow> ssl \<Rightarrow> ssl_cipher \<Rightarrow> secop \<Rightarrow> bool" where
  "ssl_security_cipher cb s cipher op = ssl_security cb s op (strength_bits cipher) 0 cipher"

section \<open>Negotiation\<close>

text \<open>The TLS version number that the peer's version stands for, and the highest known version not above it.\<close>

definition peer_tls :: "ssl \<Rightarrow> u16 \<Rightarrow> u16" where
  "peer_tls s peer_ver =
     (if SSL_is_dtls s then
        (let v = ssl_dtls_to_tls_version peer_ver
         in if v = 0 \<and> peer_ver < DTLS1_2_VERSION then TLS1_2_VERSION else v)
      else peer_ver)"

definition highest_known :: "u16 \<Rightarrow> u16" where
  "highest_known peer_tls_version =
     (if peer_tls_version \<ge> TLS1_3_VERSION then TLS1_3_VERSION
      else if peer_tls_version \<ge> TLS1_2_VERSION then TLS1_2_VERSION
      else if peer_tls_version \<ge> TLS1_1_VERSION then TLS1_1_VERSION
      else if peer_tls_version \<ge> TLS1_VERSION then TLS1_VERSION else 0)"

definition proto_version :: "ssl \<Rightarrow> u16 \<Rightarrow> u16" where
  "proto_version s v = (if SSL_is_dtls s then ssl_tls_to_dtls_version v else v)"

definition ssl_max_shared_version :: "security_cb \<Rightarrow> ssl \<Rightarrow> u16 \<Rightarrow> u16 option" where
  "ssl_max_shared_version cb s peer_ver =
     (if SSL_is_dtls s \<and> drop_bit 8 peer_ver \<noteq> DTLS1_VERSION_MAJOR then None
      else let shared_version = highest_known (peer_tls s peer_ver)
         in if shared_version = 0 then None
            else case ssl_supported_tls_version_range s of
                None \<Rightarrow> None
              | Some (min_version, max_version) \<Rightarrow>
                 (if shared_version < min_version then None
                  else let shared_version = (if shared_version > max_version then max_version else shared_version);
                           shared_version = proto_version s shared_version
                       in if SSL_is_dtls s \<and> shared_version = 0 then None
                          else if \<not> ssl_security_version cb s (uint shared_version) then None
                          else Some shared_version))"

definition ssl_check_version_from_server :: "security_cb \<Rightarrow> ssl \<Rightarrow> u16 \<Rightarrow> bool" where
  "ssl_check_version_from_server cb s server_version =
     (let server_tls_version = (if SSL_is_dtls s then ssl_dtls_to_tls_version server_version else server_version)
      in if SSL_is_dtls s \<and> server_tls_version = 0 then False
         else case ssl_supported_tls_version_range s of
             None \<Rightarrow> False
           | Some (min_tls_version, max_tls_version) \<Rightarrow>
              (if server_tls_version < min_tls_version \<or> server_tls_version > max_tls_version then False
               else ssl_security_version cb s (uint server_tls_version)))"

definition ssl_legacy_stack_version :: "ssl \<Rightarrow> u16 \<Rightarrow> bool" where
  "ssl_legacy_stack_version s version =
     (if SSL_is_dtls s then version = DTLS1_VERSION \<or> version = DTLS1_2_VERSION
      else version = TLS1_VERSION \<or> version = TLS1_1_VERSION \<or> version = TLS1_2_VERSION)"


section \<open>The range of versions\<close>

text \<open>Clamping intersects two ranges.\<close>

lemma clamp_iff:
  "ssl_clamp_tls_version_range a b c d = Some (lo, hi) \<longleftrightarrow>
     a \<le> b \<and> c \<le> d \<and> lo = max a c \<and> hi = min b d \<and> lo \<le> hi"
  by (auto simp: ssl_clamp_tls_version_range_def max_def min_def)

lemma clamp_exists:
  "(\<exists>r. ssl_clamp_tls_version_range a b c d = Some r) \<longleftrightarrow> a \<le> b \<and> c \<le> d \<and> max a c \<le> min b d"
  by (auto simp: ssl_clamp_tls_version_range_def max_def min_def)

definition versions_ok :: "u16 \<Rightarrow> u16 \<Rightarrow> bool" where
  "versions_ok lo hi \<longleftrightarrow> TLS1_VERSION \<le> lo \<and> lo \<le> hi \<and> hi \<le> TLS1_3_VERSION"

text \<open>The version configuration a connection has from its method and the setters of the range.\<close>

definition config_ok :: "ssl \<Rightarrow> bool" where
  "config_ok s \<longleftrightarrow> versions_ok (s_min_tls_version s) (s_max_tls_version s)
     \<and> versions_ok (m_min_tls_version (s_method s)) (m_max_tls_version (s_method s))"

lemma enabled_range:
  assumes "ssl_enabled_tls_version_range s = Some (lo, hi)"
  shows "TLS1_2_VERSION \<le> lo" "lo \<le> hi" "hi \<le> TLS1_3_VERSION"
    "s_min_tls_version s \<le> lo" "hi \<le> s_max_tls_version s"
  using assms
  by (auto simp: ssl_enabled_tls_version_range_def Let_def clamp_iff version_defs min_def split: if_splits option.splits)

lemma supported_range:
  assumes "ssl_supported_tls_version_range s = Some (lo, hi)"
  shows "TLS1_2_VERSION \<le> lo" "lo \<le> hi" "hi \<le> TLS1_3_VERSION"
proof -
  obtain a b where e: "ssl_enabled_tls_version_range s = Some (a, b)"
    and c: "ssl_clamp_tls_version_range a b (m_min_tls_version (s_method s)) (m_max_tls_version (s_method s)) = Some (lo, hi)"
    using assms by (auto simp: ssl_supported_tls_version_range_def split: option.splits)
  show "TLS1_2_VERSION \<le> lo" "lo \<le> hi" "hi \<le> TLS1_3_VERSION"
    using enabled_range(1,3) [OF e] c by (auto simp: clamp_iff max_def min_def split: if_splits)
qed

lemma tls12_or_tls13:
  fixes v :: u16
  assumes "TLS1_2_VERSION \<le> v" "v \<le> TLS1_3_VERSION"
  shows "v = TLS1_2_VERSION \<or> v = TLS1_3_VERSION"
proof -
  have "unat v = 0x303 \<or> unat v = 0x304"
    using assms by (simp add: version_defs word_le_nat_alt) linarith
  then show ?thesis
    by (auto simp: version_defs word_unat_eq_iff)
qed

text \<open>The default callback accepts every version of a supported range at every level.\<close>

lemma level_bits: "\<exists>l b. ssl_security_level_and_minimum_bits level = Some (l, b) \<and> 0 \<le> l \<and> l \<le> 5"
  by (auto simp: ssl_security_level_and_minimum_bits_def ssl_security_normalize_level_def
      ssl_security_level_to_minimum_bits_def Let_def)

lemma default_cb_version:
  assumes "ssl_tls_version v = TLS1_2_VERSION \<or> ssl_tls_version v = TLS1_3_VERSION"
  shows "ssl_security_version ssl_security_default_cb s (uint v)"
  using assms level_bits [of "s_security_level s"]
  by (auto simp: ssl_security_version_def ssl_security_def ssl_security_default_cb_def
      ssl_security_secop_version_def Let_def version_defs)

section \<open>Negotiation\<close>

lemma max_shared_eq:
  "ssl_max_shared_version cb s peer =
     (if SSL_is_dtls s \<and> drop_bit 8 peer \<noteq> DTLS1_VERSION_MAJOR then None
      else case ssl_supported_tls_version_range s of
          None \<Rightarrow> None
        | Some (lo, hi) \<Rightarrow>
           (let v = proto_version s (min hi (peer_tls s peer))
            in if lo \<le> peer_tls s peer \<and> v \<noteq> 0 \<and> ssl_security_version cb s (uint v) then Some v else None))"
proof (cases "ssl_supported_tls_version_range s")
  case None
  then show ?thesis by (simp add: ssl_max_shared_version_def Let_def)
next
  case (Some r)
  obtain lo hi where r: "r = (lo, hi)" by fastforce
  let ?p = "peer_tls s peer"
  define sh where "sh = highest_known ?p"
  note range = supported_range [OF Some [unfolded r]]
  have cases: "(lo = TLS1_2_VERSION \<or> lo = TLS1_3_VERSION)" "(hi = TLS1_2_VERSION \<or> hi = TLS1_3_VERSION)"
    using range tls12_or_tls13 [of lo] tls12_or_tls13 [of hi] by (auto intro: order_trans)
  have reach: "sh < lo \<longleftrightarrow> ?p < lo" and nz: "\<not> ?p < lo \<Longrightarrow> sh \<noteq> 0"
    using cases(1) by (auto simp: sh_def highest_known_def version_defs word_less_nat_alt word_le_nat_alt)
  have val: "(if sh > hi then hi else sh) = min hi ?p" if "\<not> ?p < lo"
  proof -
    have "TLS1_2_VERSION \<le> ?p" using that cases(1) by (auto simp: version_defs word_less_nat_alt word_le_nat_alt)
    then have "?p \<ge> TLS1_3_VERSION \<or> ?p = TLS1_2_VERSION"
      using tls12_or_tls13 [of ?p] by (metis linear)
    then show ?thesis using cases(2) \<open>TLS1_2_VERSION \<le> ?p\<close>
      by (auto simp: sh_def highest_known_def version_defs min_def)
  qed
  have "ssl_max_shared_version cb s peer =
     (if SSL_is_dtls s \<and> drop_bit 8 peer \<noteq> DTLS1_VERSION_MAJOR then None
      else if sh = 0 then None else if sh < lo then None
      else let v = proto_version s (if sh > hi then hi else sh)
           in if SSL_is_dtls s \<and> v = 0 then None
              else if \<not> ssl_security_version cb s (uint v) then None else Some v)"
    using Some r by (simp add: ssl_max_shared_version_def Let_def sh_def)
  moreover have "proto_version s (min hi ?p) \<noteq> 0" if "\<not> SSL_is_dtls s" "\<not> ?p < lo"
    using that cases by (auto simp: proto_version_def min_def version_defs)
  ultimately show ?thesis
    using reach nz val Some r by (cases "?p < lo") (auto simp: Let_def not_le)
qed

text \<open>The versions of the supported range that are not above the peer's version.\<close>

definition shared_versions :: "ssl \<Rightarrow> u16 \<Rightarrow> u16 set" where
  "shared_versions s peer = (case ssl_supported_tls_version_range s of
      None \<Rightarrow> {} | Some (lo, hi) \<Rightarrow> {v. lo \<le> v \<and> v \<le> hi \<and> v \<le> peer_tls s peer})"

lemma shared_versions_max:
  assumes "ssl_supported_tls_version_range s = Some (lo, hi)"
  shows "shared_versions s peer \<noteq> {} \<longleftrightarrow> lo \<le> peer_tls s peer"
    "lo \<le> peer_tls s peer \<Longrightarrow> Max (shared_versions s peer) = min hi (peer_tls s peer)"
proof -
  note r = supported_range [OF assms]
  show "shared_versions s peer \<noteq> {} \<longleftrightarrow> lo \<le> peer_tls s peer"
    using assms r(2) by (auto simp: shared_versions_def intro: order_trans)
  show "Max (shared_versions s peer) = min hi (peer_tls s peer)" if "lo \<le> peer_tls s peer"
    by (rule Max_eqI) (use that r(2) assms in \<open>auto simp: shared_versions_def min_def\<close>)
qed

lemma shared_versions_known:
  assumes "v \<in> shared_versions s peer"
  shows "v = TLS1_2_VERSION \<or> v = TLS1_3_VERSION"
  using assms supported_range [of s]
  by (intro tls12_or_tls13) (auto simp: shared_versions_def split: option.splits)

lemma default_cb_shared:
  assumes "v \<in> shared_versions s peer" "proto_version s v \<noteq> 0"
  shows "ssl_security_version ssl_security_default_cb s (uint (proto_version s v))"
  using shared_versions_known [OF assms(1)] assms(2)
  by (intro default_cb_version)
    (auto simp: proto_version_def ssl_tls_to_dtls_version_def ssl_tls_version_def version_defs split: if_splits)

text \<open>
  C22.  The version a server selects is the highest one both sides support, and it is
  selected exactly when the security callback, whatever it is, accepts it at the
  connection's level: there is a version of the supported range that is not above
  the client's, the version is the largest of them (for DTLS, in its DTLS number,
  which has to exist, and provided that the client's version has the DTLS major
  byte), and the callback allows that version.  In every other case there is none:
  no supported range, a client below the range, a foreign major byte, a version
  without a DTLS number or one that the callback refuses, in which case no lower
  version is tried.  The default callback refuses none of the versions that can be
  selected.  All comparisons are of TLS version numbers (DTLS numbers decrease).
\<close>

theorem ssl_max_shared_version_correct:
  "(\<forall>v. ssl_max_shared_version cb s peer = Some v \<longleftrightarrow>
       shared_versions s peer \<noteq> {} \<and> v = proto_version s (Max (shared_versions s peer))
       \<and> (if SSL_is_dtls s then drop_bit 8 peer = DTLS1_VERSION_MAJOR \<and> v \<noteq> 0 else True)
       \<and> ssl_security_version cb s (uint v))
   \<and> (\<forall>v. ssl_max_shared_version ssl_security_default_cb s peer = Some v \<longleftrightarrow>
       shared_versions s peer \<noteq> {} \<and> v = proto_version s (Max (shared_versions s peer))
       \<and> (if SSL_is_dtls s then drop_bit 8 peer = DTLS1_VERSION_MAJOR \<and> v \<noteq> 0 else True))"
proof (cases "ssl_supported_tls_version_range s")
  case None
  then show ?thesis by (simp add: max_shared_eq shared_versions_def)
next
  case (Some r)
  obtain lo hi where r: "ssl_supported_tls_version_range s = Some (lo, hi)" using Some by (cases r) auto
  let ?S = "shared_versions s peer" let ?v = "proto_version s (Max ?S)"
  have fin: "finite ?S" by simp
  have nz: "?v \<noteq> 0" if "?S \<noteq> {}" "\<not> SSL_is_dtls s"
    using shared_versions_known [OF Max_in [OF fin that(1)]] that(2) by (auto simp: proto_version_def version_defs)
  have eq: "ssl_max_shared_version c s peer =
      (if (if SSL_is_dtls s then drop_bit 8 peer = DTLS1_VERSION_MAJOR \<and> ?v \<noteq> 0 else True)
         \<and> ?S \<noteq> {} \<and> ssl_security_version c s (uint ?v) then Some ?v else None)" for c
    using r shared_versions_max [OF r, of peer] nz by (auto simp: max_shared_eq Let_def)
  have "ssl_security_version ssl_security_default_cb s (uint ?v)" if "?S \<noteq> {}" "?v \<noteq> 0"
    using default_cb_shared [OF Max_in [OF fin that(1)] that(2)] .
  then show ?thesis using nz by (auto simp: eq)
qed

definition tls_conn :: "u16 \<Rightarrow> u16 \<Rightarrow> ssl" where
  "tls_conn lo hi = \<lparr>s_method = \<lparr>m_dtls = False, m_min_tls_version = 0x0301, m_max_tls_version = 0x0304\<rparr>,
     s_options = 0, s_quic = False, s_min_tls_version = lo, s_max_tls_version = hi, s_security_level = 1,
     s_negotiated_tls_version = 0, s_our_max_tls_version = 0\<rparr>"

lemma tls_conn_range: "ssl_supported_tls_version_range (tls_conn 0x0301 0x0303) = Some (0x0303, 0x0303)"
  "ssl_supported_tls_version_range (tls_conn 0x0301 0x0304) = Some (0x0303, 0x0304)" "\<not> SSL_is_dtls (tls_conn lo hi)"
  by code_simp+

lemma tls_conn_shared: "shared_versions (tls_conn 0x0301 0x0304) 0x0303 \<noteq> {}"
  "Max (shared_versions (tls_conn 0x0301 0x0304) 0x0303) = 0x0303"
  using shared_versions_max [OF tls_conn_range(2), of "0x0303"] by (simp_all add: peer_tls_def tls_conn_range(3) min_def)

theorem ssl_max_shared_version_correct_witness:
  "ssl_max_shared_version ssl_security_default_cb (tls_conn 0x0301 0x0304) 0x0303 = Some 0x0303
   \<and> ssl_max_shared_version (\<lambda>level op bits version cipher. version \<noteq> 0x0303) (tls_conn 0x0301 0x0304) 0x0303 \<noteq> Some 0x0303"
  using ssl_max_shared_version_correct [of "\<lambda>level op bits version cipher. version \<noteq> 0x0303" "tls_conn 0x0301 0x0304" "0x0303"]
  by (simp add: tls_conn_shared tls_conn_range(3) proto_version_def ssl_security_version_def ssl_security_def)

text \<open>
  Version negotiation succeeds whenever it can: when the version ranges that a
  client and a server support overlap, the version that the server selects from
  the client's highest one is accepted by the client.
\<close>

theorem version_negotiation_succeeds:
  assumes "ssl_supported_tls_version_range client = Some (clo, chi)" "\<not> SSL_is_dtls client"
    "ssl_supported_tls_version_range server = Some (slo, shi)" "\<not> SSL_is_dtls server"
    "clo \<le> shi" "slo \<le> chi"
  shows "\<exists>v. ssl_max_shared_version ssl_security_default_cb server chi = Some v
    \<and> ssl_check_version_from_server ssl_security_default_cb client v"
proof -
  note c = supported_range [OF assms(1)] note s = supported_range [OF assms(3)]
  let ?v = "min shi chi"
  have "TLS1_2_VERSION \<le> ?v" "?v \<le> TLS1_3_VERSION" using c s by (auto simp: min_def)
  then have v: "?v = TLS1_2_VERSION \<or> ?v = TLS1_3_VERSION" by (rule tls12_or_tls13)
  then have sec: "ssl_security_version ssl_security_default_cb x (uint ?v)" for x
    by (intro default_cb_version) (auto simp: ssl_tls_version_def version_defs)
  have "?v \<noteq> 0" using v by (auto simp: version_defs)
  then have "ssl_max_shared_version ssl_security_default_cb server chi = Some ?v"
    using assms(3,4,6) sec by (simp add: max_shared_eq peer_tls_def proto_version_def Let_def)
  moreover have "clo \<le> ?v" "?v \<le> chi" using assms(5) c(2) by (auto simp: min_def)
  then have "ssl_check_version_from_server ssl_security_default_cb client ?v"
    using assms(1,2) sec by (simp add: ssl_check_version_from_server_def Let_def not_less)
  ultimately show ?thesis by blast
qed

theorem version_negotiation_succeeds_witness:
  "\<exists>v. ssl_max_shared_version ssl_security_default_cb (tls_conn 0x0301 0x0303) 0x0304 = Some v
    \<and> ssl_check_version_from_server ssl_security_default_cb (tls_conn 0x0301 0x0304) v"
  by (rule version_negotiation_succeeds [OF tls_conn_range(2) tls_conn_range(3) tls_conn_range(1) tls_conn_range(3)]) simp_all

section \<open>Security levels\<close>

text \<open>The level and the bits that \<open>ssl_security_level_and_minimum_bits\<close> delivers grow with the level.\<close>

lemma bits_mono:
  assumes "0 \<le> a" "a \<le> b"
  shows "\<exists>x y. ssl_security_level_to_minimum_bits a = Some x \<and> ssl_security_level_to_minimum_bits b = Some y
    \<and> x \<le> y \<and> (0 < b \<longrightarrow> 80 \<le> y)"
  using assms by (auto simp: ssl_security_level_to_minimum_bits_def)

lemma level_mono:
  assumes "l \<le> m"
  shows "\<exists>l' bl m' bm. ssl_security_level_and_minimum_bits l = Some (l', bl)
    \<and> ssl_security_level_and_minimum_bits m = Some (m', bm) \<and> l' \<le> m' \<and> bl \<le> bm \<and> 0 \<le> l' \<and> (0 < m' \<longrightarrow> 80 \<le> bm)"
proof -
  have "0 \<le> ssl_security_normalize_level l" "ssl_security_normalize_level l \<le> ssl_security_normalize_level m"
    using assms by (auto simp: ssl_security_normalize_level_def Let_def)
  with bits_mono [OF this] show ?thesis
    by (auto simp: ssl_security_level_and_minimum_bits_def Let_def)
qed

lemma secop_cipher_iff:
  assumes "ssl_security_level_and_minimum_bits l = Some (l', b)"
  shows "ssl_security_secop_cipher l bits c \<longleftrightarrow>
     (0 < l' \<longrightarrow> b \<le> bits \<and> algorithm_auth c AND SSL_aNULL = 0 \<and> algorithm_mac c AND SSL_MD5 = 0)
     \<and> (1 < l' \<longrightarrow> algorithm_enc c AND SSL_RC4 = 0)
     \<and> (2 < l' \<longrightarrow> algorithm_mkey c AND (SSL_kDHE OR SSL_kECDHE) \<noteq> 0 \<or> algorithm_ssl c = SSL_TLSV1_3)
     \<and> (3 < l' \<longrightarrow> algorithm_mac c AND SSL_SHA1 = 0)"
  using assms by (simp add: ssl_security_secop_cipher_def)

lemma secop_version_iff:
  assumes "ssl_security_level_and_minimum_bits l = Some (l', b)"
  shows "ssl_security_secop_version l v \<longleftrightarrow> TLS1_VERSION \<le> ssl_tls_version (of_int v)
     \<and> (3 \<le> l' \<longrightarrow> TLS1_1_VERSION \<le> ssl_tls_version (of_int v)) \<and> (4 \<le> l' \<longrightarrow> TLS1_2_VERSION \<le> ssl_tls_version (of_int v))"
  using assms by (auto simp: ssl_security_secop_version_def Let_def version_defs word_le_nat_alt)

text \<open>
  Raising the security level never admits more: whatever the default callback
  accepts at a level it accepts at every lower level, for ciphers, versions,
  tickets, ephemeral keys and everything else.
\<close>

theorem security_level_monotone:
  assumes "l \<le> m" "ssl_security_default_cb m op bits version cipher"
  shows "ssl_security_default_cb l op bits version cipher"
proof -
  obtain l' bl m' bm where l: "ssl_security_level_and_minimum_bits l = Some (l', bl)"
    "ssl_security_level_and_minimum_bits m = Some (m', bm)" "l' \<le> m'" "bl \<le> bm" "0 \<le> l'" "0 < m' \<longrightarrow> 80 \<le> bm"
    using level_mono [OF assms(1)] by blast
  note defs = ssl_security_default_cb_def secop_cipher_iff [OF l(1)] secop_cipher_iff [OF l(2)]
    secop_version_iff [OF l(1)] secop_version_iff [OF l(2)]
    ssl_security_secop_tickets_def ssl_security_secop_tmp_dh_def ssl_security_secop_default_def
    ssl_security_secop_compression_def
  show ?thesis
    using assms(2) l by (cases op) (auto simp: defs split: if_splits)
qed

theorem security_level_monotone_witness:
  "ssl_security_default_cb 1 SECOP_VERSION 0 0x0303 no_cipher \<and> ssl_security_default_cb 4 SECOP_VERSION 0 0x0303 no_cipher"
proof
  show four: "ssl_security_default_cb 4 SECOP_VERSION 0 0x0303 no_cipher" by code_simp
  show "ssl_security_default_cb 1 SECOP_VERSION 0 0x0303 no_cipher"
    by (rule security_level_monotone [OF _ four]) simp
qed

text \<open>
  C23.  The setters of the version range keep the configuration valid: a new minimum or
  maximum lies within what the method supports, whatever number the application
  passes, and is never on the wrong side of the other end of the range.
\<close>

theorem version_set_in_range:
  assumes "versions_ok (m_min_tls_version meth) (m_max_tls_version meth)"
  shows "(\<forall>v pv. ssl_version_set_min meth proto_ver max_ver = Some (v, pv) \<longrightarrow>
            m_min_tls_version meth \<le> v \<and> v \<le> m_max_tls_version meth \<and> (proto_ver \<noteq> 0 \<longrightarrow> v \<le> max_ver))
       \<and> (\<forall>v pv. ssl_version_set_max meth proto_ver min_ver = Some (v, pv) \<longrightarrow>
            m_min_tls_version meth \<le> v \<and> v \<le> m_max_tls_version meth \<and> (proto_ver \<noteq> 0 \<longrightarrow> min_ver \<le> v))"
proof -
  have ok: "m_min_tls_version meth \<le> m_max_tls_version meth" using assms by (simp add: versions_ok_def)
  show ?thesis
    using ok by (auto simp: ssl_version_set_min_def ssl_version_set_max_def Let_def clamp_iff
        split: if_splits option.splits)
qed

theorem version_set_in_range_witness:
  "ssl_version_set_min (s_method (tls_conn 0x0301 0x0304)) 0x0300 0x0303 = Some (0x0301, 0x0301)
   \<and> m_min_tls_version (s_method (tls_conn 0x0301 0x0304)) \<le> 0x0301 \<and> (0x0301 :: u16) \<le> 0x0303"
proof -
  have min: "ssl_version_set_min (s_method (tls_conn 0x0301 0x0304)) 0x0300 0x0303 = Some (0x0301, 0x0301)" by code_simp
  have "versions_ok (m_min_tls_version (s_method (tls_conn 0x0301 0x0304))) (m_max_tls_version (s_method (tls_conn 0x0301 0x0304)))"
    by code_simp
  from version_set_in_range [OF this, of "0x0300" "0x0303"] min show ?thesis by simp
qed

end
