(* ===== verification/PQueue.thy ===== *)
theory PQueue
  imports Libc_String
begin

text \<open>
  The priority queue of libssl/pqueue.c, in which DTLS keeps records and handshake
  fragments that arrived out of order.  A priority is eight bytes, a big-endian
  number.  The linked list of items is a list; the \<open>count\<close> of the structure is
  never changed by the code.

  An item that is inserted comes from \<open>pitem_new\<close>, which sets its \<open>next\<close> to NULL, as
  it does wherever libssl inserts one.  This matters in one place: inserting into an
  empty queue leaves \<open>next\<close> as it is, so that an item that was popped before, whose
  \<open>next\<close> still points to what followed it, would bring that along; the model, in
  which an item has no \<open>next\<close> of its own, does not cover inserting such an item.
\<close>

record 'a pitem =
  pi_priority :: bytes
  pi_data :: 'a

record 'a pqueue_s =
  pq_items :: "'a pitem list"
  pq_count :: nat

definition sizeof_pitem :: nat where "sizeof_pitem = 24"
definition sizeof_pqueue_s :: nat where "sizeof_pqueue_s = 16"

definition pitem_new :: "(nat \<Rightarrow> bool) \<Rightarrow> bytes \<Rightarrow> 'a \<Rightarrow> 'a pitem option" where
  "pitem_new alloc prio64be data =
     (if alloc sizeof_pitem then Some \<lparr>pi_priority = take 8 prio64be, pi_data = data\<rparr> else None)"

definition pqueue_new :: "(nat \<Rightarrow> bool) \<Rightarrow> 'a pqueue_s option" where
  "pqueue_new alloc = (if alloc sizeof_pqueue_s then Some \<lparr>pq_items = [], pq_count = 0\<rparr> else None)"

text \<open>The loop of \<open>pqueue_insert\<close>; \<open>None\<close> when the priority is there already.\<close>

fun pqueue_insert_loop :: "'a pitem list \<Rightarrow> 'a pitem \<Rightarrow> 'a pitem list option" where
  "pqueue_insert_loop [] item = Some [item]"
| "pqueue_insert_loop (nxt # nxts) item =
     (let cmp = memcmp (pi_priority nxt) (pi_priority item) 8
      in if cmp > 0 then Some (item # nxt # nxts)
         else if cmp = 0 then None
         else map_option ((#) nxt) (pqueue_insert_loop nxts item))"

definition pqueue_insert :: "'a pqueue_s \<Rightarrow> 'a pitem \<Rightarrow> 'a pitem option \<times> 'a pqueue_s" where
  "pqueue_insert pq item =
     (case pqueue_insert_loop (pq_items pq) item of
        None \<Rightarrow> (None, pq)
      | Some items \<Rightarrow> (Some item, pq\<lparr>pq_items := items\<rparr>))"

definition pqueue_peek :: "'a pqueue_s \<Rightarrow> 'a pitem option" where
  "pqueue_peek pq = (case pq_items pq of [] \<Rightarrow> None | item # _ \<Rightarrow> Some item)"

definition pqueue_pop :: "'a pqueue_s \<Rightarrow> 'a pitem option \<times> 'a pqueue_s" where
  "pqueue_pop pq =
     (case pq_items pq of [] \<Rightarrow> (None, pq) | item # items \<Rightarrow> (Some item, pq\<lparr>pq_items := items\<rparr>))"

fun pqueue_find_loop :: "'a pitem list \<Rightarrow> bytes \<Rightarrow> 'a pitem option" where
  "pqueue_find_loop [] prio64be = None"
| "pqueue_find_loop (nxt # nxts) prio64be =
     (if memcmp (pi_priority nxt) prio64be 8 = 0 then Some nxt else pqueue_find_loop nxts prio64be)"

definition pqueue_find :: "'a pqueue_s \<Rightarrow> bytes \<Rightarrow> 'a pitem option" where
  "pqueue_find pq prio64be = pqueue_find_loop (pq_items pq) prio64be"

text \<open>An iterator is the rest of the list.\<close>

definition pqueue_iterator :: "'a pqueue_s \<Rightarrow> 'a pitem list" where
  "pqueue_iterator pq = pq_items pq"

definition pqueue_next :: "'a pitem list \<Rightarrow> 'a pitem option \<times> 'a pitem list" where
  "pqueue_next it = (case it of [] \<Rightarrow> (None, it) | ret # rest \<Rightarrow> (Some ret, rest))"

fun pqueue_size_loop :: "'a pitem list \<Rightarrow> nat \<Rightarrow> nat" where
  "pqueue_size_loop [] count = count"
| "pqueue_size_loop (item # items) count = pqueue_size_loop items (count + 1)"

definition pqueue_size :: "'a pqueue_s \<Rightarrow> nat" where
  "pqueue_size pq = pqueue_size_loop (pq_items pq) 0"

section \<open>Priorities\<close>

text \<open>\<open>memcmp\<close> on big-endian numbers compares the numbers.\<close>

lemma memcmp_be_val:
  assumes "length a = n" "length b = n"
  shows "(memcmp a b n < 0 \<longleftrightarrow> be_val a < be_val b) \<and> (memcmp a b n = 0 \<longleftrightarrow> be_val a = be_val b)"
  using assms
proof (induction n arbitrary: a b)
  case 0
  then show ?case by simp
next
  case (Suc n)
  obtain x xs y ys where a: "a = x # xs" "length xs = n" "b = y # ys" "length ys = n"
    using Suc.prems by (metis length_Suc_conv)
  have lt: "be_val xs < 256 ^ n" "be_val ys < 256 ^ n"
    using be_val_lt [of xs] be_val_lt [of ys] a by auto
  have less: "unat u * 256 ^ n + p < unat v * 256 ^ n + q" if "unat u < unat v" "p < 256 ^ n" for u v :: u8 and p q :: nat
  proof -
    have "unat u * 256 ^ n + p < (unat u + 1) * 256 ^ n" using that(2) by simp
    also have "\<dots> \<le> unat v * 256 ^ n" using that(1) by (intro mult_le_mono1) simp
    finally show ?thesis by simp
  qed
  show ?case
  proof (cases "x = y")
    case True
    then show ?thesis using Suc.IH [of xs ys] a by (simp add: be_val_Cons)
  next
    case False
    then have "unat x \<noteq> unat y" by (simp add: word_unat_eq_iff)
    then consider "unat x < unat y" | "unat y < unat x" by linarith
    then show ?thesis
    proof cases
      case 1
      then have "uint x < uint y" by (simp add: word_less_def [symmetric] word_less_nat_alt)
      with 1 less [OF 1 lt(1), of "be_val ys"] False show ?thesis by (simp add: a be_val_Cons)
    next
      case 2
      then have "uint y < uint x" by (simp add: word_less_def [symmetric] word_less_nat_alt)
      with 2 less [OF 2 lt(2), of "be_val xs"] False show ?thesis by (simp add: a be_val_Cons)
    qed
  qed
qed

abbreviation pi_key :: "'a pitem \<Rightarrow> nat" where "pi_key item \<equiv> be_val (pi_priority item)"

definition pitem_ok :: "'a pitem \<Rightarrow> bool" where "pitem_ok item \<longleftrightarrow> length (pi_priority item) = 8"

lemma memcmp_key:
  assumes "pitem_ok a" "pitem_ok b"
  shows "memcmp (pi_priority a) (pi_priority b) 8 > 0 \<longleftrightarrow> pi_key b < pi_key a"
    "memcmp (pi_priority a) (pi_priority b) 8 = 0 \<longleftrightarrow> pi_key a = pi_key b"
  using memcmp_be_val [of "pi_priority a" 8 "pi_priority b"] assms by (auto simp: pitem_ok_def)

section \<open>Invariant and abstraction\<close>

definition pq_ok :: "'a pqueue_s \<Rightarrow> bool" where
  "pq_ok pq \<longleftrightarrow> (\<forall>i\<in>set (pq_items pq). pitem_ok i) \<and> sorted_wrt (\<lambda>a b. pi_key a < pi_key b) (pq_items pq)"

definition pq_map :: "'a pqueue_s \<Rightarrow> nat \<Rightarrow> 'a pitem option" where
  "pq_map pq k = find (\<lambda>i. pi_key i = k) (pq_items pq)"

lemma insert_loop_spec:
  assumes "\<forall>i\<in>set items. pitem_ok i" "pitem_ok item" "sorted_wrt (\<lambda>a b. pi_key a < pi_key b) items"
  shows "case pqueue_insert_loop items item of
      None \<Rightarrow> (\<exists>i\<in>set items. pi_key i = pi_key item)
    | Some items' \<Rightarrow> (\<forall>i\<in>set items. pi_key i \<noteq> pi_key item) \<and> set items' = insert item (set items)
        \<and> sorted_wrt (\<lambda>a b. pi_key a < pi_key b) items'
        \<and> (\<forall>k. find (\<lambda>i. pi_key i = k) items' = (if k = pi_key item then Some item else find (\<lambda>i. pi_key i = k) items))"
  using assms
proof (induction items item rule: pqueue_insert_loop.induct)
  case (1 item)
  then show ?case by simp
next
  case (2 nxt nxts item)
  have k: "pitem_ok nxt" using 2 by simp
  note cmp = memcmp_key [OF k 2(3)]
  consider "pi_key item < pi_key nxt" | "pi_key nxt = pi_key item" | "pi_key nxt < pi_key item" by linarith
  then show ?case
  proof cases
    case 1
    have "pi_key item < pi_key i" if "i \<in> set nxts" for i
      using 1 2(4) that by (auto intro: less_trans)
    moreover have "find (\<lambda>i. pi_key i = pi_key item) nxts = None"
      using calculation by (fastforce simp: find_None_iff)
    ultimately show ?thesis using 1 2(4) cmp by (auto simp: Let_def)
  next
    case 2
    then show ?thesis using cmp by (simp add: Let_def)
  next
    case 3
    have "\<not> 0 < memcmp (pi_priority nxt) (pi_priority item) 8" "memcmp (pi_priority nxt) (pi_priority item) 8 \<noteq> 0"
      using 3 cmp by auto
    moreover note "2.IH" [OF refl this] 2(2-4)
    ultimately show ?thesis
      using 3 by (auto simp: Let_def split: option.splits)
  qed
qed

lemma find_loop_eq:
  "\<forall>i\<in>set items. pitem_ok i \<Longrightarrow> length prio = 8 \<Longrightarrow>
   pqueue_find_loop items prio = find (\<lambda>i. pi_key i = be_val prio) items"
  using memcmp_be_val by (induction items) (auto simp: pitem_ok_def)

lemma size_loop_eq: "pqueue_size_loop items c = c + length items"
  by (induction items c rule: pqueue_size_loop.induct) auto

section \<open>A queue ordered by key\<close>

text \<open>
  What the DTLS code relies on: the queue is a finite map from keys to items; an
  item whose key is taken is refused; and \<open>pop\<close> removes the item with the least key.
\<close>

fun pq_inserts :: "('q \<Rightarrow> 'i \<Rightarrow> 'i option \<times> 'q) \<Rightarrow> 'i list \<Rightarrow> 'q \<Rightarrow> 'q" where
  "pq_inserts ins [] q = q"
| "pq_inserts ins (x # xs) q = pq_inserts ins xs (snd (ins q x))"

text \<open>Popping \<open>n\<close> times.\<close>

fun pq_drain :: "('q \<Rightarrow> 'i option \<times> 'q) \<Rightarrow> nat \<Rightarrow> 'q \<Rightarrow> 'i list" where
  "pq_drain pop 0 q = []"
| "pq_drain pop (Suc n) q = (case pop q of (None, q) \<Rightarrow> [] | (Some x, q) \<Rightarrow> x # pq_drain pop n q)"

locale keyed_queue =
  fixes ok :: "'q \<Rightarrow> bool" and item_ok :: "'i \<Rightarrow> bool" and key :: "'i \<Rightarrow> nat" and lookup :: "'q \<Rightarrow> nat \<Rightarrow> 'i option"
    and ins :: "'q \<Rightarrow> 'i \<Rightarrow> 'i option \<times> 'q" and pop :: "'q \<Rightarrow> 'i option \<times> 'q" and num :: "'q \<Rightarrow> nat"
  assumes ins: "\<lbrakk>ok q; item_ok x; ins q x = (r, q')\<rbrakk> \<Longrightarrow> ok q' \<and>
      (if lookup q (key x) = None then r = Some x \<and> lookup q' = (lookup q)(key x := Some x)
       else r = None \<and> lookup q' = lookup q)"
    and pop: "\<lbrakk>ok q; pop q = (r, q')\<rbrakk> \<Longrightarrow> ok q' \<and>
      (case r of None \<Rightarrow> lookup q = Map.empty \<and> q' = q
       | Some x \<Rightarrow> lookup q (key x) = Some x \<and> (\<forall>k\<in>dom (lookup q). key x \<le> k)
           \<and> lookup q' = (lookup q)(key x := None))"
    and num: "ok q \<Longrightarrow> finite (dom (lookup q)) \<and> num q = card (dom (lookup q))"
    and lookup_key: "\<lbrakk>ok q; lookup q k = Some x\<rbrakk> \<Longrightarrow> key x = k"
begin

lemma inserts:
  assumes "ok q" "\<forall>x\<in>set xs. item_ok x"
  shows "ok (pq_inserts ins xs q) \<and> lookup (pq_inserts ins xs q) =
    (\<lambda>k. case lookup q k of Some x \<Rightarrow> Some x | None \<Rightarrow> find (\<lambda>x. key x = k) xs)"
  using assms
proof (induction xs arbitrary: q)
  case Nil
  then show ?case by (auto simp: fun_eq_iff split: option.splits)
next
  case (Cons x xs)
  obtain r q' where i: "ins q x = (r, q')" by fastforce
  have "item_ok x" using Cons.prems(2) by simp
  note l = ins [OF Cons.prems(1) this i]
  then have "ok q'" by blast
  note ih = Cons.IH [OF this] 
  show ?case
    using l ih Cons.prems(2) i by (auto simp: fun_eq_iff split: option.splits if_splits)
qed

lemma drain:
  assumes "ok q" "n = num q"
  shows "sorted_wrt (\<lambda>a b. key a < key b) (pq_drain pop n q)
    \<and> (\<forall>x. x \<in> set (pq_drain pop n q) \<longleftrightarrow> lookup q (key x) = Some x)"
  using assms
proof (induction n arbitrary: q)
  case 0
  then have "lookup q = Map.empty" using num [of q] by auto
  then show ?case by simp
next
  case (Suc n)
  obtain r q' where p: "pop q = (r, q')" by fastforce
  note l = pop [OF Suc.prems(1) p]
  have "dom (lookup q) \<noteq> {}" using num [OF Suc.prems(1)] Suc.prems(2) by auto
  then obtain x where r: "r = Some x" using l by (cases r) auto
  have x: "lookup q (key x) = Some x" "\<forall>k\<in>dom (lookup q). key x \<le> k" "lookup q' = (lookup q)(key x := None)" "ok q'"
    using l r by auto
  have "dom (lookup q') = dom (lookup q) - {key x}" using x(3) by auto
  then have "n = num q'"
    using num [OF Suc.prems(1)] num [OF x(4)] Suc.prems(2) x(1) by (simp add: domI)
  note ih = Suc.IH [OF x(4) this]
  have "key x < key y" if "lookup q' (key y) = Some y" for y
  proof -
    have "key y \<noteq> key x" "key y \<in> dom (lookup q)" using that x(3) by (auto split: if_splits)
    then have "key x \<le> key y" using x(2) by blast
    with \<open>key y \<noteq> key x\<close> show ?thesis by simp
  qed
  with ih p r x(1,3) show ?case by (auto split: if_splits)
qed

end

lemma pq_map_key: "pq_map pq k = Some x \<Longrightarrow> pi_key x = k \<and> x \<in> set (pq_items pq)"
  by (auto simp: pq_map_def find_Some_iff)

lemma pq_map_dom: "dom (pq_map pq) = pi_key ` set (pq_items pq)"
  by (auto simp: pq_map_def find_None_iff dom_def)

interpretation pq: keyed_queue pq_ok pitem_ok pi_key pq_map pqueue_insert pqueue_pop pqueue_size
proof unfold_locales
  fix q :: "'a pqueue_s" and x r q'
  assume "pq_ok q" "pitem_ok x" "pqueue_insert q x = (r, q')"
  then show "pq_ok q' \<and> (if pq_map q (pi_key x) = None then r = Some x \<and> pq_map q' = (pq_map q)(pi_key x := Some x)
       else r = None \<and> pq_map q' = pq_map q)"
    using insert_loop_spec [of "pq_items q" x]
    by (auto simp: pq_ok_def pqueue_insert_def pq_map_def fun_eq_iff find_None_iff split: option.splits)
next
  fix q :: "'a pqueue_s" and r q'
  assume "pq_ok q" "pqueue_pop q = (r, q')"
  then show "pq_ok q' \<and> (case r of None \<Rightarrow> pq_map q = Map.empty \<and> q' = q
       | Some x \<Rightarrow> pq_map q (pi_key x) = Some x \<and> (\<forall>k\<in>dom (pq_map q). pi_key x \<le> k)
           \<and> pq_map q' = (pq_map q)(pi_key x := None))"
  proof (cases "pq_items q")
    case Nil
    with \<open>pq_ok q\<close> \<open>pqueue_pop q = (r, q')\<close> show ?thesis
      by (auto simp: pqueue_pop_def pq_ok_def pq_map_def)
  next
    case (Cons i rest)
    with \<open>pqueue_pop q = (r, q')\<close> have e: "r = Some i" "q' = q\<lparr>pq_items := rest\<rparr>" by (auto simp: pqueue_pop_def)
    have lt: "\<forall>j\<in>set rest. pi_key i < pi_key j" "pq_ok q'" using \<open>pq_ok q\<close> Cons e by (auto simp: pq_ok_def)
    then have "find (\<lambda>j. pi_key j = pi_key i) rest = None" by (fastforce simp: find_None_iff)
    with lt Cons e show ?thesis by (auto simp: pq_map_dom) (auto simp: pq_map_def fun_eq_iff)
  qed
next
  fix q :: "'a pqueue_s" assume "pq_ok q"
  then have "distinct (map pi_key (pq_items q))"
    using strict_sorted_iff [of "map pi_key (pq_items q)"] by (simp add: pq_ok_def sorted_wrt_map)
  then show "finite (dom (pq_map q)) \<and> pqueue_size q = card (dom (pq_map q))"
    using distinct_card [of "map pi_key (pq_items q)"] by (simp add: pq_map_dom pqueue_size_def size_loop_eq)
next
  fix q :: "'a pqueue_s" and k x assume "pq_ok q" "pq_map q k = Some x"
  then show "pi_key x = k" using pq_map_key by blast
qed

text \<open>
  C24.  Records buffered in any order come out in sequence: after inserting the items of
  a list into a new queue, popping as many items as \<open>pqueue_size\<close> says yields, in
  strictly increasing order of their priorities, for every priority the first
  item that was inserted with it.
\<close>

theorem pqueue_delivers_in_order:
  assumes "pqueue_new alloc = Some q0" "\<forall>x\<in>set xs. pitem_ok x"
  defines "q \<equiv> pq_inserts pqueue_insert xs q0"
  shows "sorted_wrt (\<lambda>a b. pi_key a < pi_key b) (pq_drain pqueue_pop (pqueue_size q) q)
    \<and> (\<forall>x. x \<in> set (pq_drain pqueue_pop (pqueue_size q) q) \<longleftrightarrow> find (\<lambda>y. pi_key y = pi_key x) xs = Some x)"
proof -
  have "pq_ok q0" "pq_map q0 = Map.empty"
    using assms(1) by (auto simp: pqueue_new_def pq_ok_def pq_map_def fun_eq_iff split: if_splits)
  then have "pq_ok q" "pq_map q = (\<lambda>k. find (\<lambda>x. pi_key x = k) xs)"
    using pq.inserts [OF _ assms(2), of q0] by (simp_all add: q_def)
  then show ?thesis using pq.drain [OF _ refl, of q] by simp
qed

definition rec_item :: "nat \<Rightarrow> char \<Rightarrow> char pitem" where
  "rec_item n c = \<lparr>pi_priority = be_bytes 8 n, pi_data = c\<rparr>"

theorem pqueue_delivers_in_order_witness:
  "let q = pq_inserts pqueue_insert [rec_item 7 CHR ''a'', rec_item 3 CHR ''b'', rec_item 7 CHR ''c''] \<lparr>pq_items = [], pq_count = 0\<rparr>
   in sorted_wrt (\<lambda>a b. pi_key a < pi_key b) (pq_drain pqueue_pop (pqueue_size q) q)
     \<and> pq_drain pqueue_pop (pqueue_size q) q = [rec_item 3 CHR ''b'', rec_item 7 CHR ''a'']"
proof -
  let ?xs = "[rec_item 7 CHR ''a'', rec_item 3 CHR ''b'', rec_item 7 CHR ''c'']"
  have "pqueue_new (\<lambda>_. True) = Some (\<lparr>pq_items = [], pq_count = 0\<rparr> :: char pqueue_s)" by (simp add: pqueue_new_def)
  moreover have "\<forall>x\<in>set ?xs. pitem_ok x" by (simp add: rec_item_def pitem_ok_def)
  ultimately have "sorted_wrt (\<lambda>a b. pi_key a < pi_key b) (pq_drain pqueue_pop (pqueue_size
      (pq_inserts pqueue_insert ?xs \<lparr>pq_items = [], pq_count = 0\<rparr>)) (pq_inserts pqueue_insert ?xs \<lparr>pq_items = [], pq_count = 0\<rparr>))"
    using pqueue_delivers_in_order by blast
  moreover have "pq_drain pqueue_pop (pqueue_size
      (pq_inserts pqueue_insert ?xs \<lparr>pq_items = [], pq_count = 0\<rparr>)) (pq_inserts pqueue_insert ?xs \<lparr>pq_items = [], pq_count = 0\<rparr>)
      = [rec_item 3 CHR ''b'', rec_item 7 CHR ''a'']"
    by code_simp
  ultimately show ?thesis by (simp add: Let_def)
qed

end
