(* ===== verification/Libc_Sort.thy ===== *)
theory Libc_Sort
  imports Libc_String "HOL-Library.Multiset"
begin

text \<open>
  Sorting and searching in libc: \<open>heapsort\<close> (libc/stdlib/heapsort.c), \<open>qsort\<close>
  (libc/stdlib/qsort.c, introsort: quicksort that falls back to heapsort, with
  insertion sort for short arrays) and \<open>bsearch\<close> (libc/stdlib/bsearch.c).
  An array of \<open>nmemb\<close> elements of \<open>size\<close> bytes is the list of its elements, a
  pointer into it the index of an element; exchanging and copying elements byte
  by byte is done on whole elements.  Elements have at least one byte: with a size
  of 0 every pointer would be the same, and the scans of \<open>introsort\<close>, which step by
  that size, would not come to an end from seven elements on (\<open>heapsort\<close> rejects
  the size 0).
\<close>

section \<open>Heapsort\<close>

text \<open>Items are numbered from 1.\<close>

definition el :: "'a list \<Rightarrow> nat \<Rightarrow> 'a" where "el base i = base ! (i - 1)"
definition set_el :: "'a list \<Rightarrow> nat \<Rightarrow> 'a \<Rightarrow> 'a list" where "set_el base i v = base[i - 1 := v]"

text \<open>The larger child, for a child number not above \<open>nmemb\<close>.\<close>

definition larger_child :: "('a \<Rightarrow> 'a \<Rightarrow> int) \<Rightarrow> 'a list \<Rightarrow> nat \<Rightarrow> nat \<Rightarrow> nat" where
  "larger_child compar base nmemb child_i =
     (if child_i < nmemb \<and> compar (el base child_i) (el base (child_i + 1)) < 0 then child_i + 1 else child_i)"

text \<open>The macro \<open>CREATE\<close>.  (A parent number is never 0; the test makes that explicit.)\<close>

function heap_create :: "('a \<Rightarrow> 'a \<Rightarrow> int) \<Rightarrow> 'a list \<Rightarrow> nat \<Rightarrow> nat \<Rightarrow> 'a list" where
  "heap_create compar base nmemb par_i =
     (if par_i = 0 \<or> \<not> par_i * 2 \<le> nmemb then base
      else let child_i = larger_child compar base nmemb (par_i * 2)
       in if compar (el base child_i) (el base par_i) \<le> 0 then base
          else heap_create compar (set_el (set_el base par_i (el base child_i)) child_i (el base par_i)) nmemb child_i)"
  by pat_completeness auto

termination
  by (relation "measure (\<lambda>(_, _, n, p). n + 1 - p)") (auto simp: larger_child_def Let_def split: if_splits)

text \<open>The first loop of \<open>SELECT\<close>: the larger child is copied over its parent down to a leaf.\<close>

function select_down :: "('a \<Rightarrow> 'a \<Rightarrow> int) \<Rightarrow> 'a list \<Rightarrow> nat \<Rightarrow> nat \<Rightarrow> 'a list \<times> nat" where
  "select_down compar base nmemb par_i =
     (if par_i = 0 \<or> \<not> par_i * 2 \<le> nmemb then (base, par_i)
      else let child_i = larger_child compar base nmemb (par_i * 2)
       in select_down compar (set_el base par_i (el base child_i)) nmemb child_i)"
  by pat_completeness auto

termination
  by (relation "measure (\<lambda>(_, _, n, p). n + 1 - p)") (auto simp: larger_child_def Let_def split: if_splits)

text \<open>The second loop of \<open>SELECT\<close>: from the leaf upwards, the place of \<open>k\<close>.\<close>

function select_up :: "('a \<Rightarrow> 'a \<Rightarrow> int) \<Rightarrow> 'a list \<Rightarrow> 'a \<Rightarrow> nat \<Rightarrow> 'a list" where
  "select_up compar base k child_i =
     (let par_i = child_i div 2
      in if child_i \<le> 1 \<or> compar k (el base par_i) < 0 then set_el base child_i k
         else select_up compar (set_el base child_i (el base par_i)) k par_i)"
  by pat_completeness auto

termination
  by (relation "measure (\<lambda>(_, _, _, c). c)") auto

declare heap_create.simps [simp del] select_down.simps [simp del] select_up.simps [simp del]

definition heap_select :: "('a \<Rightarrow> 'a \<Rightarrow> int) \<Rightarrow> 'a list \<Rightarrow> nat \<Rightarrow> 'a \<Rightarrow> 'a list" where
  "heap_select compar base nmemb k =
     (let (base, par_i) = select_down compar base nmemb 1 in select_up compar base k par_i)"

fun heap_build_loop :: "('a \<Rightarrow> 'a \<Rightarrow> int) \<Rightarrow> 'a list \<Rightarrow> nat \<Rightarrow> nat \<Rightarrow> 'a list" where
  "heap_build_loop compar base nmemb 0 = base"
| "heap_build_loop compar base nmemb (Suc l) = heap_build_loop compar (heap_create compar base nmemb (Suc l)) nmemb l"

fun heap_sort_loop :: "('a \<Rightarrow> 'a \<Rightarrow> int) \<Rightarrow> 'a list \<Rightarrow> nat \<Rightarrow> 'a list" where
  "heap_sort_loop compar base 0 = base"
| "heap_sort_loop compar base (Suc nmemb) =
     (if nmemb = 0 then base
      else let k = el base (Suc nmemb);
               base = set_el base (Suc nmemb) (el base 1)
           in heap_sort_loop compar (heap_select compar base nmemb k) nmemb)"

text \<open>The return value is paired with the array.\<close>

definition heapsort :: "(nat \<Rightarrow> bool) \<Rightarrow> 'a list \<Rightarrow> nat \<Rightarrow> ('a \<Rightarrow> 'a \<Rightarrow> int) \<Rightarrow> int \<times> 'a list" where
  "heapsort alloc base sz compar =
     (let nmemb = length base
      in if nmemb \<le> 1 then (0, base)
         else if sz = 0 then (-1, base)
         else if \<not> alloc sz then (-1, base)
         else (0, heap_sort_loop compar (heap_build_loop compar base nmemb (nmemb div 2)) nmemb))"

section \<open>Quicksort\<close>

definition swap :: "'a list \<Rightarrow> nat \<Rightarrow> nat \<Rightarrow> 'a list" where
  "swap a i j = a[i := a ! j, j := a ! i]"

text \<open>\<open>vecswap\<close> exchanges \<open>r\<close> elements from \<open>i\<close> on with those from \<open>j\<close> on.\<close>

fun vecswap :: "'a list \<Rightarrow> nat \<Rightarrow> nat \<Rightarrow> nat \<Rightarrow> 'a list" where
  "vecswap a i j 0 = a"
| "vecswap a i j (Suc r) = vecswap (swap a i j) (Suc i) (Suc j) r"

definition med3 :: "('a \<Rightarrow> 'a \<Rightarrow> int) \<Rightarrow> 'a list \<Rightarrow> nat \<Rightarrow> nat \<Rightarrow> nat \<Rightarrow> nat" where
  "med3 cmp xs a b c =
     (if cmp (xs ! a) (xs ! b) < 0
      then (if cmp (xs ! b) (xs ! c) < 0 then b else if cmp (xs ! a) (xs ! c) < 0 then c else a)
      else (if cmp (xs ! b) (xs ! c) > 0 then b else if cmp (xs ! a) (xs ! c) < 0 then a else c))"

text \<open>Insertion sort of short arrays.\<close>

fun insert_down :: "('a \<Rightarrow> 'a \<Rightarrow> int) \<Rightarrow> 'a list \<Rightarrow> nat \<Rightarrow> 'a list" where
  "insert_down cmp xs 0 = xs"
| "insert_down cmp xs (Suc pl) =
     (if cmp (xs ! pl) (xs ! Suc pl) > 0 then insert_down cmp (swap xs (Suc pl) pl) pl else xs)"

function insertion_loop :: "('a \<Rightarrow> 'a \<Rightarrow> int) \<Rightarrow> 'a list \<Rightarrow> nat \<Rightarrow> nat \<Rightarrow> 'a list" where
  "insertion_loop cmp xs pm n =
     (if pm < n then insertion_loop cmp (insert_down cmp xs pm) (pm + 1) n else xs)"
  by pat_completeness auto

termination by (relation "measure (\<lambda>(_, _, pm, n). n - pm)") auto

text \<open>
  The partitioning loops.  \<open>pe\<close> is \<open>pc + 1\<close>, so that \<open>pb <= pc\<close> is \<open>pb < pe\<close> and
  the index stays a natural number when \<open>pc\<close> moves below \<open>pb\<close>.
\<close>

function left_scan :: "('a \<Rightarrow> 'a \<Rightarrow> int) \<Rightarrow> 'a list \<Rightarrow> nat \<Rightarrow> nat \<Rightarrow> nat \<Rightarrow> 'a list \<times> nat \<times> nat" where
  "left_scan cmp xs pa pb pe =
     (if pb < pe \<and> cmp (xs ! pb) (xs ! 0) \<le> 0 then
        (if cmp (xs ! pb) (xs ! 0) = 0 then left_scan cmp (swap xs pa pb) (pa + 1) (pb + 1) pe
         else left_scan cmp xs pa (pb + 1) pe)
      else (xs, pa, pb))"
  by pat_completeness auto

termination by (relation "measure (\<lambda>(_, _, _, pb, pe). pe - pb)") auto

function right_scan :: "('a \<Rightarrow> 'a \<Rightarrow> int) \<Rightarrow> 'a list \<Rightarrow> nat \<Rightarrow> nat \<Rightarrow> nat \<Rightarrow> 'a list \<times> nat \<times> nat" where
  "right_scan cmp xs pb pe pd =
     (if pb < pe \<and> cmp (xs ! (pe - 1)) (xs ! 0) \<ge> 0 then
        (if cmp (xs ! (pe - 1)) (xs ! 0) = 0 then right_scan cmp (swap xs (pe - 1) pd) pb (pe - 1) (pd - 1)
         else right_scan cmp xs pb (pe - 1) pd)
      else (xs, pe, pd))"
  by pat_completeness auto

termination by (relation "measure (\<lambda>(_, _, pb, pe, _). pe - pb)") auto

declare insertion_loop.simps [simp del] left_scan.simps [simp del] right_scan.simps [simp del]

lemma left_scan_bounds:
  "left_scan cmp xs pa pb pe = (ys, pa', pb') \<Longrightarrow> pa \<le> pa' \<and> pb \<le> pb' \<and> pb' \<le> max pb pe \<and> length ys = length xs"
  by (induction cmp xs pa pb pe rule: left_scan.induct)
    (subst (asm) left_scan.simps, fastforce simp: swap_def split: if_splits)

lemma right_scan_bounds:
  "right_scan cmp xs pb pe pd = (ys, pe', pd') \<Longrightarrow> pe' \<le> pe \<and> pd' \<le> pd \<and> min pb pe \<le> pe' \<and> length ys = length xs"
  by (induction cmp xs pb pe pd rule: right_scan.induct)
    (subst (asm) right_scan.simps, fastforce simp: swap_def split: if_splits)

function partition_loop :: "('a \<Rightarrow> 'a \<Rightarrow> int) \<Rightarrow> 'a list \<Rightarrow> nat \<Rightarrow> nat \<Rightarrow> nat \<Rightarrow> nat
    \<Rightarrow> 'a list \<times> nat \<times> nat \<times> nat \<times> nat" where
  "partition_loop cmp xs pa pb pe pd =
     (case left_scan cmp xs pa pb pe of (xs, pa, pb) \<Rightarrow>
      case right_scan cmp xs pb pe pd of (xs, pe, pd) \<Rightarrow>
        if \<not> pb < pe then (xs, pa, pb, pe, pd)
        else partition_loop cmp (swap xs pb (pe - 1)) pa (pb + 1) (pe - 1) pd)"
  by pat_completeness auto

termination
  by (relation "measure (\<lambda>(_, _, _, pb, pe, _). pe - pb)")
    (auto dest!: left_scan_bounds [OF sym] right_scan_bounds [OF sym])

declare partition_loop.simps [simp del]

lemma partition_loop_bounds:
  "partition_loop cmp xs pa pb pe pd = (ys, pa', pb', pe', pd') \<Longrightarrow> pe \<le> n \<Longrightarrow> pb \<le> n \<Longrightarrow>
   pa \<le> pa' \<and> pb' \<le> n \<and> pd' \<le> pd \<and> pe' \<le> pe \<and> (1 \<le> pb \<longrightarrow> 1 \<le> pe \<longrightarrow> 1 \<le> pe') \<and> length ys = length xs"
proof (induction cmp xs pa pb pe pd rule: partition_loop.induct)
  case (1 cmp xs pa pb pe pd)
  obtain xs1 pa1 pb1 where l: "left_scan cmp xs pa pb pe = (xs1, pa1, pb1)" by (metis prod_cases3)
  obtain xs2 pe2 pd2 where r: "right_scan cmp xs1 pb1 pe pd = (xs2, pe2, pd2)" by (metis prod_cases3)
  note lb = left_scan_bounds [OF l] note rb = right_scan_bounds [OF r]
  show ?case
  proof (cases "pb1 < pe2")
    case False
    then show ?thesis using "1.prems" l r lb rb by (auto simp: partition_loop.simps [of cmp xs])
  next
    case True
    then have "partition_loop cmp (swap xs2 pb1 (pe2 - 1)) pa1 (pb1 + 1) (pe2 - 1) pd2 = (ys, pa', pb', pe', pd')"
      using "1.prems"(1) l r by (simp add: partition_loop.simps [of cmp xs])
    note ih = "1.IH" [OF l [symmetric] refl r [symmetric] refl _ this]
    have "pe2 - 1 \<le> n" "pb1 + 1 \<le> n" "\<not> \<not> pb1 < pe2" using True rb "1.prems"(2) by auto
    note ih = ih [OF this(3,1,2)]
    show ?thesis using ih True lb rb "1.prems"(2,3) by (auto simp: swap_def)
  qed
qed

text \<open>The pivot, from the median of three or of nine elements.\<close>

definition choose_pivot :: "('a \<Rightarrow> 'a \<Rightarrow> int) \<Rightarrow> 'a list \<Rightarrow> nat" where
  "choose_pivot cmp a =
     (let n = length a; pm = n div 2
      in if n > 7 then
           (let pl = 0; pn = n - 1
            in if n > 40 then
                 (let s = n div 8;
                      pl = med3 cmp a pl (pl + s) (pl + 2 * s);
                      pm = med3 cmp a (pm - s) pm (pm + s);
                      pn = med3 cmp a (pn - 2 * s) (pn - s) pn
                  in med3 cmp a pl pm pn)
               else med3 cmp a pl pm pn)
         else pm)"

text \<open>Partitioning: the array, and the lengths \<open>r\<close> and \<open>s\<close> of its two sides.\<close>

definition partition_step :: "('a \<Rightarrow> 'a \<Rightarrow> int) \<Rightarrow> 'a list \<Rightarrow> 'a list \<times> nat \<times> nat" where
  "partition_step cmp a =
     (let n = length a; a = swap a 0 (choose_pivot cmp a);
          (a, pa, pb, pe, pd) = partition_loop cmp a 1 1 n (n - 1);
          r = (if pa < pb - pa then pa else pb - pa);
          a = vecswap a 0 (pb - r) r;
          r = (if pd + 1 - pe < n - pd - 1 then pd + 1 - pe else n - pd - 1);
          a = vecswap a pb (n - r) r
      in (a, pb - pa, pd + 1 - pe))"

lemma length_vecswap [simp]: "length (vecswap a i j r) = length a"
  by (induction a i j r rule: vecswap.induct) (auto simp: swap_def)

lemma partition_step_bounds:
  assumes "partition_step cmp a = (ys, r, s)" "a \<noteq> []"
  shows "length ys = length a" "r < length a" "s < length a"
proof -
  let ?n = "length a"
  obtain zs pa pb pe pd where p: "partition_loop cmp (swap a 0 (choose_pivot cmp a)) 1 1 ?n (?n - 1) = (zs, pa, pb, pe, pd)"
    by (metis prod_cases5)
  have n: "1 \<le> ?n" using assms(2) by (cases a) auto
  note b = partition_loop_bounds [OF p, of ?n]
  have "r = pb - pa" "s = pd + 1 - pe" and len: "length ys = length zs"
    using assms(1) p by (auto simp: partition_step_def Let_def)
  moreover have "1 \<le> pa" "pb \<le> ?n" "pd \<le> ?n - 1" "1 \<le> pe" using b n by auto
  ultimately show "r < ?n" "s < ?n" using n by auto
  show "length ys = ?n" using len b n by (simp add: swap_def)
qed

lemma partition_step_measure:
  assumes "(ys, r, s) = partition_step cmp a" "\<not> length a < 7"
  shows "length ys = length a \<and> r < length a \<and> s < length a"
proof -
  have "a \<noteq> []" using assms(2) by auto
  then show ?thesis using partition_step_bounds [OF assms(1) [symmetric]] by simp
qed

text \<open>
  \<open>introsort\<close> on the segment it is called for; the two sides are sorted by a
  recursive call and by another turn of the loop.  \<open>maxdepth--\<close> wraps around
  when heapsort could not get memory.
\<close>

function introsort :: "(nat \<Rightarrow> bool) \<Rightarrow> ('a \<Rightarrow> 'a \<Rightarrow> int) \<Rightarrow> 'a list \<Rightarrow> nat \<Rightarrow> nat \<Rightarrow> 'a list" where
  "introsort alloc cmp a es maxdepth =
     (let n = length a
      in if n < 7 then insertion_loop cmp a 1 n
         else if maxdepth = 0 \<and> fst (heapsort alloc a es cmp) = 0 then snd (heapsort alloc a es cmp)
         else let maxdepth = (if maxdepth = 0 then SIZE_MAX else maxdepth - 1)
          in case partition_step cmp a of (a, r, s) \<Rightarrow>
             (let left = take r a; mid = drop r (take (n - s) a); right = drop (n - s) a
              in if r < s then
                   (if s > 1 then
                      (let left = (if r > 1 then introsort alloc cmp left es maxdepth else left)
                       in left @ mid @ introsort alloc cmp right es maxdepth)
                    else a)
                 else
                   (if r > 1 then
                      (let right = (if s > 1 then introsort alloc cmp right es maxdepth else right)
                       in introsort alloc cmp left es maxdepth @ mid @ right)
                    else a)))"
  by pat_completeness auto

termination
  by (relation "measure (\<lambda>(_, _, a, _, _). length a)") (auto dest!: partition_step_measure)

declare introsort.simps [simp del]

fun depth_loop :: "nat \<Rightarrow> nat \<Rightarrow> nat" where
  "depth_loop i maxdepth = (if i > 0 then depth_loop (i div 2) (maxdepth + 1) else maxdepth)"

definition qsort :: "(nat \<Rightarrow> bool) \<Rightarrow> 'a list \<Rightarrow> nat \<Rightarrow> ('a \<Rightarrow> 'a \<Rightarrow> int) \<Rightarrow> 'a list" where
  "qsort alloc a es cmp = introsort alloc cmp a es (depth_loop (length a) 0 * 2)"

section \<open>Binary search\<close>

text \<open>\<open>compar key p\<close> compares the key with an element, which may be of another type.\<close>

function bsearch_loop :: "('k \<Rightarrow> 'a \<Rightarrow> int) \<Rightarrow> 'k \<Rightarrow> 'a list \<Rightarrow> nat \<Rightarrow> nat \<Rightarrow> nat option" where
  "bsearch_loop compar key xs base lim =
     (if lim = 0 then None
      else let p = base + lim div 2; cmp = compar key (xs ! p)
       in if cmp = 0 then Some p
          else if cmp > 0 then bsearch_loop compar key xs (p + 1) ((lim - 1) div 2)
          else bsearch_loop compar key xs base (lim div 2))"
  by pat_completeness auto

termination by (relation "measure (\<lambda>(_, _, _, _, lim). lim)") auto

declare bsearch_loop.simps [simp del]

definition bsearch :: "('k \<Rightarrow> 'a \<Rightarrow> int) \<Rightarrow> 'k \<Rightarrow> 'a list \<Rightarrow> nat option" where
  "bsearch compar key base = bsearch_loop compar key base 0 (length base)"

end
