(* ===== verification/Sort_Correct.thy ===== *)
theory Sort_Correct
  imports Libc_Sort
begin

text \<open>
  Correctness of the sorting and searching functions of libc.  The comparison
  function is a parameter; the locale \<open>comparison\<close> has what the C standard asks
  of it, and in it the functions of \<open>Libc_Sort\<close> are shown to sort.
\<close>

locale comparison =
  fixes cmp :: "'a \<Rightarrow> 'a \<Rightarrow> int"
  assumes sign: "sgn (cmp y x) = - sgn (cmp x y)"
    and trans: "cmp x y \<le> 0 \<Longrightarrow> cmp y z \<le> 0 \<Longrightarrow> cmp x z \<le> 0"

definition cmp_sorted :: "('a \<Rightarrow> 'a \<Rightarrow> int) \<Rightarrow> 'a list \<Rightarrow> bool" where
  "cmp_sorted cmp xs \<longleftrightarrow> sorted_wrt (\<lambda>x y. cmp x y \<le> 0) xs"

section \<open>Arrays\<close>

lemma length_set_el [simp]: "length (set_el xs i v) = length xs"
  by (simp add: set_el_def)

lemma el_set_el: "1 \<le> i \<Longrightarrow> i \<le> length xs \<Longrightarrow> 1 \<le> j \<Longrightarrow> el (set_el xs i v) j = (if i = j then v else el xs j)"
  by (auto simp: el_def set_el_def nth_list_update)

lemma mset_set_el: "1 \<le> i \<Longrightarrow> i \<le> length xs \<Longrightarrow> add_mset (el xs i) (mset (set_el xs i v)) = add_mset v (mset xs)"
  by (simp add: el_def set_el_def mset_update nth_mem)

lemma mset_swap_el:
  assumes "1 \<le> i" "i \<le> length xs" "1 \<le> j" "j \<le> length xs"
  shows "mset (set_el (set_el xs i (el xs j)) j (el xs i)) = mset xs"
  using mset_swap [of "j - 1" xs "i - 1"] assms by (simp add: el_def set_el_def)

lemma mset_move_el:
  assumes "1 \<le> i" "i \<le> length xs" "1 \<le> j" "j \<le> length xs" "i \<noteq> j"
  shows "mset (set_el (set_el xs i (el xs j)) j k) = mset (set_el xs i k)"
proof -
  have "set_el (set_el xs i (el xs j)) j k = set_el (set_el (set_el xs i k) i (el (set_el xs i k) j)) j (el (set_el xs i k) i)"
    using assms by (simp add: el_set_el) (simp add: set_el_def)
  then show ?thesis using mset_swap_el [of i "set_el xs i k" j] assms by simp
qed

lemma take_mset_cong:
  assumes "mset ys = mset zs" "drop n ys = drop n zs"
  shows "mset (take n ys) = mset (take n zs)"
proof -
  have "mset (take n ys) + mset (drop n ys) = mset (take n zs) + mset (drop n zs)"
    using assms(1) by (metis append_take_drop_id mset_append)
  with assms(2) show ?thesis by simp
qed

lemma drop_eqI:
  assumes "length ys = length zs" "\<And>i. n < i \<Longrightarrow> el ys i = el zs i"
  shows "drop n ys = drop n zs"
proof (rule nth_equalityI)
  fix i assume "i < length (drop n ys)"
  then show "drop n ys ! i = drop n zs ! i" using assms(1) assms(2) [of "n + i + 1"] by (simp add: el_def)
qed (use assms(1) in simp)

section \<open>Heaps\<close>

definition heap_from :: "('a \<Rightarrow> 'a \<Rightarrow> int) \<Rightarrow> 'a list \<Rightarrow> nat \<Rightarrow> nat \<Rightarrow> bool" where
  "heap_from cmp xs n l \<longleftrightarrow> (\<forall>c. 2 \<le> c \<and> c \<le> n \<and> l \<le> c div 2 \<longrightarrow> cmp (el xs c) (el xs (c div 2)) \<le> 0)"

text \<open>What stays the same outside the first \<open>n\<close> items.\<close>

definition keeps :: "'a list \<Rightarrow> 'a list \<Rightarrow> nat \<Rightarrow> bool" where
  "keeps xs ys n \<longleftrightarrow> length ys = length xs \<and> (\<forall>i>n. el ys i = el xs i)"

lemma keeps_refl [simp]: "keeps xs xs n"
  by (simp add: keeps_def)

lemma keeps_set_el: "keeps (set_el xs i v) ys n \<Longrightarrow> 1 \<le> i \<Longrightarrow> i \<le> n \<Longrightarrow> n \<le> length xs \<Longrightarrow> keeps xs ys n"
  by (auto simp: keeps_def el_set_el)

lemma keeps_self: "1 \<le> i \<Longrightarrow> i \<le> n \<Longrightarrow> n \<le> length xs \<Longrightarrow> keeps xs (set_el xs i v) n"
  by (auto simp: keeps_def el_set_el)

context comparison
begin

lemma cmp_refl [simp]: "cmp x x = 0"
  using sign [of x x] by (simp add: sgn_eq_0_iff)

lemma flip: "cmp x y < 0 \<longleftrightarrow> 0 < cmp y x" "0 \<le> cmp x y \<longleftrightarrow> cmp y x \<le> 0" "cmp x y = 0 \<longleftrightarrow> cmp y x = 0"
  using sign [of y x] by (auto simp: sgn_if split: if_splits)

lemma total: "\<not> cmp x y \<le> 0 \<Longrightarrow> cmp y x \<le> 0"
  using flip(2) [of x y] by simp

lemma larger_child_spec:
  fixes xs :: "'a list"
  assumes "1 \<le> par" "par * 2 \<le> n"
  defines "ch \<equiv> larger_child cmp xs n (par * 2)"
  shows "ch \<le> n" "ch div 2 = par" "par < ch" "\<And>c. c \<le> n \<Longrightarrow> c div 2 = par \<Longrightarrow> cmp (el xs c) (el xs ch) \<le> 0"
proof -
  show "ch \<le> n" "ch div 2 = par" "par < ch" using assms by (auto simp: larger_child_def)
  fix c assume "c \<le> n" "c div 2 = par"
  then have "c = par * 2 \<or> c = par * 2 + 1" by linarith
  with \<open>c \<le> n\<close> show "cmp (el xs c) (el xs ch) \<le> 0"
    using assms(2) by (auto simp: ch_def larger_child_def not_less flip(2))
qed

lemma heap_create_spec:
  assumes "1 \<le> l" "l \<le> par" "par \<le> n" "n \<le> length xs"
    "\<And>c. 2 \<le> c \<Longrightarrow> c \<le> n \<Longrightarrow> l \<le> c div 2 \<Longrightarrow> c div 2 \<noteq> par \<Longrightarrow> cmp (el xs c) (el xs (c div 2)) \<le> 0"
    "\<And>c. 2 \<le> c \<Longrightarrow> c \<le> n \<Longrightarrow> c div 2 = par \<Longrightarrow> l \<le> par div 2 \<Longrightarrow> cmp (el xs c) (el xs (par div 2)) \<le> 0"
  shows "heap_from cmp (heap_create cmp xs n par) n l \<and> mset (heap_create cmp xs n par) = mset xs
    \<and> keeps xs (heap_create cmp xs n par) n"
  using assms
proof (induction "n + 1 - par" arbitrary: xs par rule: less_induct)
  case (less par xs)
  note A = less.prems(5) note B = less.prems(6)
  show ?case
  proof (cases "par * 2 \<le> n")
    case False
    then have e: "heap_create cmp xs n par = xs" by (simp add: heap_create.simps [of cmp xs])
    have "heap_from cmp xs n l" using A False by (fastforce simp: heap_from_def)
    then show ?thesis by (simp add: e)
  next
    case True
    have p1: "1 \<le> par" using less.prems by simp
    define ch where "ch = larger_child cmp xs n (par * 2)"
    note lc = larger_child_spec [OF p1 True, where xs = xs, folded ch_def]
    have ch: "2 \<le> ch" "1 \<le> ch" "ch \<le> length xs" "par \<le> length xs" using lc(1,3) p1 less.prems(4) by auto
    show ?thesis
    proof (cases "cmp (el xs ch) (el xs par) \<le> 0")
      case le: True
      then have e: "heap_create cmp xs n par = xs"
        using True p1 by (simp add: heap_create.simps [of cmp xs] ch_def)
      have "cmp (el xs c) (el xs par) \<le> 0" if "c \<le> n" "c div 2 = par" for c
        using trans [OF lc(4) [OF that] le] .
      then have "heap_from cmp xs n l" using A by (force simp: heap_from_def)
      then show ?thesis by (simp add: e)
    next
      case gt: False
      define ys where "ys = set_el (set_el xs par (el xs ch)) ch (el xs par)"
      have e: "heap_create cmp xs n par = heap_create cmp ys n ch"
        using True p1 gt by (simp add: heap_create.simps [of cmp xs] ch_def ys_def Let_def)
      have y: "el ys i = (if i = ch then el xs par else if i = par then el xs ch else el xs i)" if "1 \<le> i" for i
        using that ch p1 by (auto simp: ys_def el_set_el)
      have "heap_from cmp (heap_create cmp ys n ch) n l \<and> mset (heap_create cmp ys n ch) = mset ys
        \<and> keeps ys (heap_create cmp ys n ch) n"
      proof (rule less.hyps)
        show "n + 1 - ch < n + 1 - par" "l \<le> ch" "ch \<le> n" "1 \<le> l" "n \<le> length ys"
          using lc less.prems by (auto simp: ys_def)
        fix c assume c: "2 \<le> c" "c \<le> n"
        show "cmp (el ys c) (el ys (c div 2)) \<le> 0" if l: "l \<le> c div 2" "c div 2 \<noteq> ch"
        proof -
          consider "c = ch" | "c \<noteq> ch" "c div 2 = par" | "c = par" | "c \<noteq> ch" "c \<noteq> par" "c div 2 \<noteq> par" by blast
          then show ?thesis
          proof cases
            case 1
            then show ?thesis using y [of ch] y [of par] ch p1 lc(2,3) total [OF gt] by simp
          next
            case 2
            then have "par < c" using c(1) by linarith
            with 2 show ?thesis using y [of c] y [of par] p1 lc(3) c lc(4) [of c] by simp
          next
            case 3
            then have "par div 2 \<noteq> par" "par div 2 \<noteq> ch" "1 \<le> par div 2" using c(1) l lc(3) by auto
            then show ?thesis
              using 3 y [of par] y [of "par div 2"] p1 lc(3) l(1) B [OF ch(1) lc(1) lc(2)] by auto
          next
            case 4
            then show ?thesis using y [of c] y [of "c div 2"] c l A [of c] by auto
          qed
        qed
        show "cmp (el ys c) (el ys (ch div 2)) \<le> 0" if l: "c div 2 = ch" "l \<le> ch div 2"
        proof -
          have "c \<noteq> ch" "c \<noteq> par" "ch \<noteq> par" using l lc(2,3) c by auto
          then show ?thesis
            using y [of c] y [of par] lc(2) c l A [of c] less.prems(2) lc(3) p1 by auto
        qed
      qed
      moreover have "mset ys = mset xs" unfolding ys_def using mset_swap_el [of par xs ch] ch p1 by simp
      moreover have "keeps xs zs n" if "keeps ys zs n" for zs
        using that keeps_set_el [of "set_el xs par (el xs ch)" ch "el xs par" zs n] keeps_set_el [of xs par "el xs ch" zs n]
          lc(1,3) p1 less.prems(3,4) ch by (simp add: ys_def)
      ultimately show ?thesis by (simp add: e)
    qed
  qed
qed

lemma heap_build_spec:
  assumes "n = length xs" "l \<le> n div 2" "heap_from cmp xs n (Suc l)"
  shows "heap_from cmp (heap_build_loop cmp xs n l) n 1 \<and> mset (heap_build_loop cmp xs n l) = mset xs"
  using assms
proof (induction l arbitrary: xs)
  case 0
  then show ?case by simp
next
  case (Suc l)
  let ?ys = "heap_create cmp xs n (Suc l)"
  have "heap_from cmp ?ys n (Suc l) \<and> mset ?ys = mset xs \<and> keeps xs ?ys n"
  proof (rule heap_create_spec)
    show "1 \<le> Suc l" "Suc l \<le> n" "n \<le> length xs" "Suc l \<le> Suc l" using Suc.prems by auto
    show "cmp (el xs c) (el xs (c div 2)) \<le> 0" if "2 \<le> c" "c \<le> n" "Suc l \<le> c div 2" "c div 2 \<noteq> Suc l" for c
      using Suc.prems(3) that by (simp add: heap_from_def)
  qed auto
  then show ?case using Suc.IH [of ?ys] Suc.prems by (simp add: keeps_def)
qed

lemma heap_build:
  assumes "n = length xs"
  shows "heap_from cmp (heap_build_loop cmp xs n (n div 2)) n 1" "mset (heap_build_loop cmp xs n (n div 2)) = mset xs"
proof -
  have "heap_from cmp xs n (Suc (n div 2))" by (auto simp: heap_from_def)
  then show "heap_from cmp (heap_build_loop cmp xs n (n div 2)) n 1" "mset (heap_build_loop cmp xs n (n div 2)) = mset xs"
    using heap_build_spec [OF assms] by auto
qed

lemma heap_max: "heap_from cmp xs n 1 \<Longrightarrow> 1 \<le> i \<Longrightarrow> i \<le> n \<Longrightarrow> cmp (el xs i) (el xs 1) \<le> 0"
proof (induction i rule: less_induct)
  case (less i)
  show ?case
  proof (cases "i = 1")
    case False
    then have i: "2 \<le> i" "1 \<le> i div 2" "i div 2 < i" using less.prems by auto
    then have "cmp (el xs i) (el xs (i div 2)) \<le> 0" using less.prems by (simp add: heap_from_def)
    moreover have "cmp (el xs (i div 2)) (el xs 1) \<le> 0" using less.IH [of "i div 2"] less.prems i by simp
    ultimately show ?thesis by (rule trans)
  qed simp
qed

lemma select_down_spec:
  assumes "heap_from cmp xs n 1" "1 \<le> par" "par \<le> n" "n \<le> length xs" "select_down cmp xs n par = (ys, h)"
  shows "heap_from cmp ys n 1 \<and> 1 \<le> h \<and> h \<le> n \<and> \<not> h * 2 \<le> n \<and> (\<forall>k. mset (set_el ys h k) = mset (set_el xs par k))
    \<and> keeps xs ys n"
  using assms
proof (induction "n + 1 - par" arbitrary: xs par rule: less_induct)
  case (less par xs)
  show ?case
  proof (cases "par * 2 \<le> n")
    case False
    then show ?thesis using less.prems by (simp add: select_down.simps [of cmp xs])
  next
    case True
    have p1: "1 \<le> par" using less.prems by simp
    define ch where "ch = larger_child cmp xs n (par * 2)"
    note lc = larger_child_spec [OF p1 True, where xs = xs, folded ch_def]
    define zs where "zs = set_el xs par (el xs ch)"
    have e: "select_down cmp zs n ch = (ys, h)"
      using True less.prems(2,5) by (simp add: select_down.simps [of cmp xs] ch_def zs_def Let_def)
    have z: "el zs i = (if i = par then el xs ch else el xs i)" if "1 \<le> i" for i
      using that less.prems by (auto simp: zs_def el_set_el)
    have H: "cmp (el xs c) (el xs (c div 2)) \<le> 0" if "2 \<le> c" "c \<le> n" for c
      using less.prems(1) that by (simp add: heap_from_def)
    have "cmp (el zs c) (el zs (c div 2)) \<le> 0" if c: "2 \<le> c" "c \<le> n" for c
    proof -
      consider "c = par" | "c \<noteq> par" "c div 2 = par" | "c \<noteq> par" "c div 2 \<noteq> par" by blast
      then show ?thesis
      proof cases
        case 1
        have "cmp (el xs ch) (el xs par) \<le> 0" using H [of ch] lc p1 by simp
        then have "cmp (el xs ch) (el xs (par div 2)) \<le> 0" using trans H [of par] 1 c by blast
        then show ?thesis using 1 z [of par] z [of "par div 2"] c by simp
      next
        case 2
        then show ?thesis using z [of c] z [of par] c p1 lc(4) [of c] by simp
      next
        case 3
        then show ?thesis using z [of c] z [of "c div 2"] c H [of c] by simp
      qed
    qed
    then have "heap_from cmp zs n 1" by (simp add: heap_from_def)
    then have ih: "heap_from cmp ys n 1 \<and> 1 \<le> h \<and> h \<le> n \<and> \<not> h * 2 \<le> n \<and> (\<forall>k. mset (set_el ys h k) = mset (set_el zs ch k))
      \<and> keeps zs ys n"
      using lc less.prems e by (intro less.hyps [OF _ _ _ _ _ e]) (auto simp: zs_def)
    have "mset (set_el zs ch k) = mset (set_el xs par k)" for k
      unfolding zs_def using lc less.prems by (intro mset_move_el) auto
    moreover have "keeps xs ys n" using ih keeps_set_el [of xs par "el xs ch" ys n] less.prems by (simp add: zs_def)
    ultimately show ?thesis using ih by simp
  qed
qed

lemma select_up_spec:
  assumes "heap_from cmp xs n 1" "1 \<le> h" "h \<le> n" "n \<le> length xs"
    "\<And>c. 2 \<le> c \<Longrightarrow> c \<le> n \<Longrightarrow> c div 2 = h \<Longrightarrow> cmp (el xs c) k \<le> 0"
  shows "heap_from cmp (select_up cmp xs k h) n 1 \<and> mset (select_up cmp xs k h) = mset (set_el xs h k)
    \<and> keeps xs (select_up cmp xs k h) n"
  using assms
proof (induction h arbitrary: xs rule: less_induct)
  case (less h)
  let ?p = "h div 2"
  have H: "cmp (el xs c) (el xs (c div 2)) \<le> 0" if "2 \<le> c" "c \<le> n" for c
    using less.prems(1) that by (simp add: heap_from_def)
  have z: "el (set_el xs h v) i = (if i = h then v else el xs i)" if "1 \<le> i" for i v
    using that less.prems by (auto simp: el_set_el)
  show ?case
  proof (cases "h \<le> 1 \<or> cmp k (el xs ?p) < 0")
    case True
    then have e: "select_up cmp xs k h = set_el xs h k" by (simp add: select_up.simps [of cmp xs])
    have "cmp (el (set_el xs h k) c) (el (set_el xs h k) (c div 2)) \<le> 0" if c: "2 \<le> c" "c \<le> n" for c
    proof -
      have "c div 2 \<noteq> c" using c by auto
      then show ?thesis
        using True c z [of c] z [of "c div 2"] H [of c] less.prems(5) [of c] by (auto split: if_splits)
    qed
    then have "heap_from cmp (set_el xs h k) n 1" by (simp add: heap_from_def)
    then show ?thesis using less.prems keeps_self by (simp add: e)
  next
    case False
    define zs where "zs = set_el xs h (el xs ?p)"
    have e: "select_up cmp xs k h = select_up cmp zs k ?p"
      using False by (simp add: select_up.simps [of cmp xs] zs_def Let_def)
    have p: "1 \<le> ?p" "?p < h" "?p \<noteq> h" using False by auto
    have pk: "cmp (el xs ?p) k \<le> 0" using False flip(2) by fastforce
    have hz: "cmp (el zs c) (el zs (c div 2)) \<le> 0" if c: "2 \<le> c" "c \<le> n" for c
    proof -
      consider "c = h" | "c \<noteq> h" "c div 2 = h" | "c \<noteq> h" "c div 2 \<noteq> h" by blast
      then show ?thesis
      proof cases
        case 1
        then show ?thesis using z [of h] z [of ?p] p c by (simp add: zs_def)
      next
        case 2
        have "cmp (el xs c) (el xs h) \<le> 0" "cmp (el xs h) (el xs ?p) \<le> 0"
          using H [of c] H [of h] c p 2 less.prems(3) by auto
        from trans [OF this] 2 show ?thesis using z [of c] z [of h] c p by (simp add: zs_def)
      next
        case 3
        then show ?thesis using z [of c] z [of "c div 2"] H [of c] c by (simp add: zs_def)
      qed
    qed
    have "cmp (el zs c) k \<le> 0" if c: "2 \<le> c" "c \<le> n" "c div 2 = ?p" for c
    proof (cases "c = h")
      case True
      then show ?thesis using z [of h] p pk by (simp add: zs_def)
    next
      case False
      then have "cmp (el xs c) (el xs ?p) \<le> 0" using H [of c] c by simp
      from trans [OF this pk] show ?thesis using False z [of c] c by (simp add: zs_def)
    qed
    then have ih: "heap_from cmp (select_up cmp zs k ?p) n 1 \<and> mset (select_up cmp zs k ?p) = mset (set_el zs ?p k)
      \<and> keeps zs (select_up cmp zs k ?p) n"
      using p less.prems hz by (intro less.IH) (auto simp: zs_def heap_from_def)
    moreover have "mset (set_el zs ?p k) = mset (set_el xs h k)"
      unfolding zs_def using p less.prems by (intro mset_move_el) auto
    moreover have "keeps xs (select_up cmp zs k ?p) n"
      using ih keeps_set_el [of xs h "el xs ?p" _ n] less.prems by (simp add: zs_def)
    ultimately show ?thesis by (simp add: e)
  qed
qed

lemma heap_select_spec:
  assumes "heap_from cmp xs n 1" "1 \<le> n" "n \<le> length xs"
  shows "heap_from cmp (heap_select cmp xs n k) n 1 \<and> mset (heap_select cmp xs n k) = mset (set_el xs 1 k)
    \<and> keeps xs (heap_select cmp xs n k) n"
proof -
  obtain ys h where d: "select_down cmp xs n 1 = (ys, h)" by fastforce
  note sd = select_down_spec [OF assms(1) _ assms(2,3) d, simplified]
  have len: "n \<le> length ys" using sd assms(3) by (simp add: keeps_def)
  have "heap_from cmp (select_up cmp ys k h) n 1 \<and> mset (select_up cmp ys k h) = mset (set_el ys h k) \<and> keeps ys (select_up cmp ys k h) n"
    using sd len by (intro select_up_spec) auto
  with sd d show ?thesis by (auto simp: heap_select_def keeps_def)
qed

lemma heap_sort_loop_spec:
  assumes "heap_from cmp xs m 1" "m \<le> length xs" "cmp_sorted cmp (drop m xs)"
    "\<And>x y. x \<in> set (take m xs) \<Longrightarrow> y \<in> set (drop m xs) \<Longrightarrow> cmp x y \<le> 0"
  shows "cmp_sorted cmp (heap_sort_loop cmp xs m) \<and> mset (heap_sort_loop cmp xs m) = mset xs"
  using assms
proof (induction m arbitrary: xs)
  case 0
  then show ?case by simp
next
  case (Suc m)
  have top: "drop m xs = el xs (Suc m) # drop (Suc m) xs"
    using Suc.prems(2) by (simp add: el_def Cons_nth_drop_Suc)
  show ?case
  proof (cases "m = 0")
    case True
    then obtain x xs' where "xs = x # xs'" using Suc.prems(2) by (cases xs) auto
    then have "cmp_sorted cmp xs"
      using Suc.prems(3,4) True by (simp add: cmp_sorted_def)
    then show ?thesis using True by simp
  next
    case False
    define ys where "ys = set_el xs (Suc m) (el xs 1)"
    define zs where "zs = heap_select cmp ys m (el xs (Suc m))"
    have y: "el ys i = (if i = Suc m then el xs 1 else el xs i)" if "1 \<le> i" for i
      using that Suc.prems(2) by (auto simp: ys_def el_set_el)
    have hy: "heap_from cmp ys m 1"
      using Suc.prems(1) y by (auto simp: heap_from_def)
    have zs: "heap_from cmp zs m 1" "mset zs = mset (set_el ys 1 (el xs (Suc m)))" "keeps ys zs m"
      using heap_select_spec [OF hy] False Suc.prems(2) by (simp_all add: zs_def ys_def)
    have "set_el ys 1 (el xs (Suc m)) = set_el (set_el xs 1 (el xs (Suc m))) (Suc m) (el xs 1)"
      using False by (simp add: ys_def set_el_def list_update_swap)
    then have mz: "mset zs = mset xs"
      using zs(2) mset_swap_el [of 1 xs "Suc m"] Suc.prems(2) by simp
    have len: "length zs = length xs" using zs(3) by (simp add: keeps_def ys_def)
    have dz: "drop m zs = el xs 1 # drop (Suc m) xs"
    proof -
      have "drop m zs = drop m ys" using zs(3) by (intro drop_eqI) (auto simp: keeps_def)
      also have "\<dots> = el ys (Suc m) # drop (Suc m) ys" using Suc.prems(2) by (simp add: el_def ys_def Cons_nth_drop_Suc)
      finally show ?thesis using y [of "Suc m"] by (simp add: ys_def set_el_def)
    qed
    have x1: "el xs 1 \<in> set (take (Suc m) xs)" using Suc.prems(2) by (cases xs) (auto simp: el_def)
    have tz: "add_mset (el xs 1) (mset (take m zs)) = mset (take (Suc m) xs)"
    proof -
      have "mset (take m zs) + mset (drop m zs) = mset (take (Suc m) xs) + mset (drop (Suc m) xs)"
        using mz by (metis append_take_drop_id mset_append)
      then show ?thesis unfolding dz by simp
    qed
    then have sub: "x \<in> set (take (Suc m) xs)" if "x \<in> set (take m zs)" for x
      using that by (metis in_multiset_in_set union_iff add_mset_add_single)
    have max: "cmp x (el xs 1) \<le> 0" if x: "x \<in> set (take (Suc m) xs)" for x
    proof -
      obtain i where "i < length (take (Suc m) xs)" "x = take (Suc m) xs ! i" using x by (metis in_set_conv_nth)
      then have "i < Suc m" "x = xs ! i" by auto
      then show ?thesis using heap_max [OF Suc.prems(1), of "i + 1"] by (simp add: el_def)
    qed
    have "cmp_sorted cmp (drop m zs)"
      using Suc.prems(3,4) x1 by (simp add: dz cmp_sorted_def)
    moreover have "cmp x y \<le> 0" if "x \<in> set (take m zs)" "y \<in> set (drop m zs)" for x y
      using that sub max Suc.prems(4) by (auto simp: dz)
    ultimately have "cmp_sorted cmp (heap_sort_loop cmp zs m) \<and> mset (heap_sort_loop cmp zs m) = mset zs"
      using zs(1) Suc.prems(2) len by (intro Suc.IH) auto
    then show ?thesis using False mz by (simp add: zs_def ys_def Let_def)
  qed
qed

lemma heapsort_spec:
  assumes "heapsort alloc xs sz cmp = (0, ys)"
  shows "cmp_sorted cmp ys \<and> mset ys = mset xs"
proof (cases "length xs \<le> 1")
  case True
  then have "ys = xs" using assms by (simp add: heapsort_def)
  moreover have "cmp_sorted cmp xs" using True by (cases xs) (auto simp: cmp_sorted_def)
  ultimately show ?thesis by simp
next
  case False
  let ?b = "heap_build_loop cmp xs (length xs) (length xs div 2)"
  have b: "heap_from cmp ?b (length xs) 1" "mset ?b = mset xs" using heap_build [OF refl, of xs] by auto
  have "length ?b = length xs" using b(2) by (metis size_mset)
  moreover have "ys = heap_sort_loop cmp ?b (length xs)"
    using assms False by (auto simp: heapsort_def Let_def split: if_splits)
  ultimately show ?thesis using heap_sort_loop_spec [of ?b "length xs"] b by (simp add: cmp_sorted_def)
qed

end

section \<open>Quicksort\<close>

lemma length_swap [simp]: "length (swap a i j) = length a"
  by (simp add: swap_def)

lemma nth_swap: "i < length a \<Longrightarrow> j < length a \<Longrightarrow> k < length a \<Longrightarrow>
    swap a i j ! k = (if k = i then a ! j else if k = j then a ! i else a ! k)"
  by (auto simp: swap_def nth_list_update)

lemma mset_swap_list: "i < length a \<Longrightarrow> j < length a \<Longrightarrow> mset (swap a i j) = mset a"
  using mset_swap [of j a i] by (simp add: swap_def)

lemma vecswap_spec:
  assumes "i + r \<le> j" "j + r \<le> length a"
  shows "mset (vecswap a i j r) = mset a"
    "\<And>k. k < length a \<Longrightarrow> vecswap a i j r ! k =
      (if i \<le> k \<and> k < i + r then a ! (k - i + j) else if j \<le> k \<and> k < j + r then a ! (k - j + i) else a ! k)"
  using assms
proof (induction r arbitrary: a i j)
  case 0
  {
    case 1
    then show ?case by simp
  next
    case 2
    then show ?case by auto
  }
next
  case (Suc r)
  {
    case 1
    then show ?case using Suc.IH(1) [of "Suc i" "Suc j" "swap a i j"] by (simp add: mset_swap_list)
  next
    case (2 k)
    note ih = Suc.IH(2) [of k "swap a i j" "Suc i" "Suc j"]
    have "i < length a" "j < length a" "i < j" using 2 by auto
    then show ?case using 2 ih by (auto simp: nth_swap Suc_diff_Suc)
  }
qed

definition nth_sorted :: "('a \<Rightarrow> 'a \<Rightarrow> int) \<Rightarrow> 'a list \<Rightarrow> nat \<Rightarrow> bool" where
  "nth_sorted cmp xs m \<longleftrightarrow> (\<forall>i j. i < j \<longrightarrow> j < m \<longrightarrow> cmp (xs ! i) (xs ! j) \<le> 0)"

lemma nth_sorted_full: "nth_sorted cmp xs (length xs) \<longleftrightarrow> cmp_sorted cmp xs"
  by (auto simp: nth_sorted_def cmp_sorted_def sorted_wrt_iff_nth_less)

text \<open>The state of the partitioning loops: equal, smaller, unknown, larger, equal elements.\<close>

definition part_inv :: "('a \<Rightarrow> 'a \<Rightarrow> int) \<Rightarrow> 'a list \<Rightarrow> nat \<Rightarrow> nat \<Rightarrow> nat \<Rightarrow> nat \<Rightarrow> bool" where
  "part_inv cmp xs pa pb pe pd \<longleftrightarrow> 1 \<le> pa \<and> pa \<le> pb \<and> pb \<le> pe \<and> pe \<le> pd + 1 \<and> pd < length xs
     \<and> (\<forall>i<pa. cmp (xs ! i) (xs ! 0) = 0) \<and> (\<forall>i. pa \<le> i \<and> i < pb \<longrightarrow> cmp (xs ! i) (xs ! 0) < 0)
     \<and> (\<forall>i. pe \<le> i \<and> i \<le> pd \<longrightarrow> cmp (xs ! i) (xs ! 0) > 0)
     \<and> (\<forall>i. pd < i \<and> i < length xs \<longrightarrow> cmp (xs ! i) (xs ! 0) = 0)"

context comparison
begin

lemma insert_down_spec:
  assumes "p \<le> m" "m < length xs"
    "\<And>i j. i < j \<Longrightarrow> j \<le> m \<Longrightarrow> i \<noteq> p \<Longrightarrow> j \<noteq> p \<Longrightarrow> cmp (xs ! i) (xs ! j) \<le> 0"
    "\<And>j. p < j \<Longrightarrow> j \<le> m \<Longrightarrow> cmp (xs ! p) (xs ! j) \<le> 0"
  shows "nth_sorted cmp (insert_down cmp xs p) (Suc m) \<and> mset (insert_down cmp xs p) = mset xs"
  using assms
proof (induction p arbitrary: xs)
  case 0
  have "cmp (xs ! i) (xs ! j) \<le> 0" if "i < j" "j \<le> m" for i j
    using 0(3) [of i j] 0(4) [of j] that by (cases "i = 0") auto
  then show ?case by (auto simp: nth_sorted_def less_Suc_eq_le)
next
  case (Suc q)
  note S = Suc.prems(3) note P = Suc.prems(4)
  show ?case
  proof (cases "cmp (xs ! q) (xs ! Suc q) > 0")
    case True
    let ?ys = "swap xs (Suc q) q"
    have y: "?ys ! k = (if k = Suc q then xs ! q else if k = q then xs ! Suc q else xs ! k)" if "k \<le> m" for k
      using that Suc.prems(1,2) by (intro nth_swap) auto
    have "nth_sorted cmp (insert_down cmp ?ys q) (Suc m) \<and> mset (insert_down cmp ?ys q) = mset ?ys"
    proof (rule Suc.IH)
      fix i j assume *: "i < j" "j \<le> m" "i \<noteq> q" "j \<noteq> q"
      then show "cmp (?ys ! i) (?ys ! j) \<le> 0"
        using y [of i] y [of j] S [of i j] S [of i q] S [of q j] Suc.prems(1) by auto
    next
      fix j assume *: "q < j" "j \<le> m"
      then show "cmp (?ys ! q) (?ys ! j) \<le> 0"
        using y [of q] y [of j] P [of j] total [of "xs ! q" "xs ! Suc q"] True Suc.prems(1) by (cases "j = Suc q") auto
    qed (use Suc.prems in auto)
    moreover have "mset ?ys = mset xs" using Suc.prems(1,2) by (intro mset_swap_list) auto
    ultimately show ?thesis using True by simp
  next
    case False
    have "cmp (xs ! i) (xs ! j) \<le> 0" if ij: "i < j" "j \<le> m" for i j
    proof (cases "j = Suc q")
      case True
      show ?thesis
      proof (cases "i = q")
        case True
        then show ?thesis using False \<open>j = Suc q\<close> by simp
      next
        case i: False
        then have "cmp (xs ! i) (xs ! q) \<le> 0" using S [of i q] ij True Suc.prems(1) by simp
        from trans [OF this, of "xs ! Suc q"] show ?thesis using False True by simp
      qed
    next
      case j: False
      then show ?thesis using S [of i j] P [of j] ij by (cases "i = Suc q") auto
    qed
    then show ?thesis using False by (auto simp: nth_sorted_def less_Suc_eq_le)
  qed
qed

lemma insertion_loop_spec:
  assumes "nth_sorted cmp xs pm" "pm \<le> n" "n = length xs"
  shows "cmp_sorted cmp (insertion_loop cmp xs pm n) \<and> mset (insertion_loop cmp xs pm n) = mset xs"
  using assms
proof (induction "n - pm" arbitrary: xs pm)
  case 0
  then show ?case by (simp add: insertion_loop.simps [of cmp xs] nth_sorted_full [symmetric])
next
  case (Suc d)
  let ?ys = "insert_down cmp xs pm"
  have "nth_sorted cmp ?ys (Suc pm) \<and> mset ?ys = mset xs"
    using Suc.prems Suc.hyps(2) by (intro insert_down_spec) (auto simp: nth_sorted_def)
  moreover from this have "length ?ys = n" using Suc.prems(3) by (metis size_mset)
  ultimately have "cmp_sorted cmp (insertion_loop cmp ?ys (Suc pm) n) \<and> mset (insertion_loop cmp ?ys (Suc pm) n) = mset ?ys"
    using Suc.hyps(2) by (intro Suc.hyps(1)) auto
  moreover have "pm < n" using Suc.hyps(2) by simp
  ultimately show ?case using \<open>nth_sorted cmp ?ys (Suc pm) \<and> mset ?ys = mset xs\<close>
    by (simp add: insertion_loop.simps [of cmp xs])
qed

lemma left_scan_spec:
  assumes "part_inv cmp xs pa pb pe pd" "left_scan cmp xs pa pb pe = (ys, pa', pb')"
  shows "part_inv cmp ys pa' pb' pe pd \<and> mset ys = mset xs \<and> (pb' < pe \<longrightarrow> cmp (ys ! pb') (ys ! 0) > 0)"
  using assms
proof (induction "pe - pb" arbitrary: xs pa pb rule: less_induct)
  case (less pb xs pa)
  note inv = less.prems(1)
  show ?case
  proof (cases "pb < pe \<and> cmp (xs ! pb) (xs ! 0) \<le> 0")
    case False
    then show ?thesis using less.prems by (auto simp: left_scan.simps [of cmp xs])
  next
    case True
    have len: "pa < length xs" "pb < length xs" "0 < pa" "0 < length xs" using inv True by (auto simp: part_inv_def)
    show ?thesis
    proof (cases "cmp (xs ! pb) (xs ! 0) = 0")
      case eq: True
      let ?zs = "swap xs pa pb"
      have z: "?zs ! k = (if k = pa then xs ! pb else if k = pb then xs ! pa else xs ! k)" if "k < length xs" for k
        using that len by (intro nth_swap) auto
      have z0: "?zs ! 0 = xs ! 0" using z [of 0] len True inv by (auto simp: part_inv_def)
      have "part_inv cmp ?zs (pa + 1) (pb + 1) pe pd"
        unfolding part_inv_def z0 using inv eq True by (auto simp: part_inv_def z less_Suc_eq)
      moreover have "left_scan cmp ?zs (pa + 1) (pb + 1) pe = (ys, pa', pb')"
        using less.prems(2) True eq by (simp add: left_scan.simps [of cmp xs])
      ultimately show ?thesis
        using less.hyps [of "pb + 1" ?zs "pa + 1"] True mset_swap_list [OF len(1,2)] by auto
    next
      case lt: False
      have "part_inv cmp xs pa (pb + 1) pe pd"
        using inv lt True by (auto simp: part_inv_def less_Suc_eq)
      moreover have "left_scan cmp xs pa (pb + 1) pe = (ys, pa', pb')"
        using less.prems(2) True lt by (simp add: left_scan.simps [of cmp xs])
      ultimately show ?thesis using less.hyps [of "pb + 1" xs pa] True by auto
    qed
  qed
qed

lemma right_scan_spec:
  assumes "part_inv cmp xs pa pb pe pd" "right_scan cmp xs pb pe pd = (ys, pe', pd')"
  shows "part_inv cmp ys pa pb pe' pd' \<and> mset ys = mset xs \<and> ys ! 0 = xs ! 0 \<and> (pb < pe' \<longrightarrow> ys ! pb = xs ! pb \<and> cmp (ys ! (pe' - 1)) (ys ! 0) < 0)"
  using assms
proof (induction "pe - pb" arbitrary: xs pe pd rule: less_induct)
  case (less pe xs pd)
  note inv = less.prems(1)
  show ?case
  proof (cases "pb < pe \<and> cmp (xs ! (pe - 1)) (xs ! 0) \<ge> 0")
    case False
    then show ?thesis using less.prems by (auto simp: right_scan.simps [of cmp xs])
  next
    case True
    have len: "pe - 1 < length xs" "pd < length xs" "0 < pe - 1" "0 < pd" "pe - 1 \<le> pd" "0 < length xs" "pb \<le> pe - 1"
      using inv True by (auto simp: part_inv_def)
    show ?thesis
    proof (cases "cmp (xs ! (pe - 1)) (xs ! 0) = 0")
      case eq: True
      let ?zs = "swap xs (pe - 1) pd"
      have z: "?zs ! k = (if k = pe - 1 then xs ! pd else if k = pd then xs ! (pe - 1) else xs ! k)" if "k < length xs" for k
        using that len by (intro nth_swap) auto
      have z0: "?zs ! 0 = xs ! 0" using z [of 0] len by auto
      have zb: "pb < pe - 1 \<Longrightarrow> ?zs ! pb = xs ! pb" using z [of pb] len by auto
      have "part_inv cmp ?zs pa pb (pe - 1) (pd - 1)"
        unfolding part_inv_def z0
      proof (intro conjI allI impI, goal_cases)
        case (6 i)
        then show ?case using inv len z [of i] by (auto simp: part_inv_def)
      next
        case (7 i)
        then show ?case using inv len z [of i] by (auto simp: part_inv_def)
      next
        case (8 i)
        then have i: "i < pd" "i < length xs" using len by auto
        have gt: "cmp (xs ! j) (xs ! 0) > 0" if "pe \<le> j" "j \<le> pd" for j
          using inv that by (simp add: part_inv_def)
        show ?case using 8 i z [OF i(2)] gt [of pd] gt [of i] by (cases "i = pe - 1") auto
      next
        case (9 i)
        then show ?case using inv len z [of i] eq by (cases "i = pd") (auto simp: part_inv_def)
      qed (use inv len in \<open>auto simp: part_inv_def\<close>)
      moreover have e: "right_scan cmp ?zs pb (pe - 1) (pd - 1) = (ys, pe', pd')"
        using less.prems(2) True eq by (simp add: right_scan.simps [of cmp xs])
      moreover have "pe - 1 - pb < pe - pb" using True by linarith
      ultimately have "part_inv cmp ys pa pb pe' pd' \<and> mset ys = mset ?zs \<and> ys ! 0 = ?zs ! 0
          \<and> (pb < pe' \<longrightarrow> ys ! pb = ?zs ! pb \<and> cmp (ys ! (pe' - 1)) (ys ! 0) < 0)"
        by (intro less.hyps)
      moreover have "pe' \<le> pe - 1" using right_scan_bounds [OF e] by simp
      ultimately show ?thesis using mset_swap_list [OF len(1,2)] z0 zb by auto
    next
      case gt: False
      have "0 < cmp (xs ! i) (xs ! 0)" if "pe - 1 \<le> i" "i \<le> pd" for i
        using that inv gt True by (cases "i = pe - 1") (auto simp: part_inv_def)
      then have "part_inv cmp xs pa pb (pe - 1) pd"
        using inv len by (auto simp: part_inv_def)
      moreover have "right_scan cmp xs pb (pe - 1) pd = (ys, pe', pd')"
        using less.prems(2) True gt by (simp add: right_scan.simps [of cmp xs])
      moreover have "pe - 1 - pb < pe - pb" using True by linarith
      ultimately show ?thesis by (intro less.hyps)
    qed
  qed
qed

lemma partition_loop_spec:
  assumes "part_inv cmp xs pa pb pe pd" "partition_loop cmp xs pa pb pe pd = (ys, pa', pb', pe', pd')"
  shows "part_inv cmp ys pa' pb' pe' pd' \<and> mset ys = mset xs \<and> pe' = pb'"
  using assms
proof (induction "pe - pb" arbitrary: xs pa pb pe pd rule: less_induct)
  case (less pb pe xs pa pd)
  obtain xs1 pa1 pb1 where l: "left_scan cmp xs pa pb pe = (xs1, pa1, pb1)" by (metis prod_cases3)
  obtain xs2 pe2 pd2 where r: "right_scan cmp xs1 pb1 pe pd = (xs2, pe2, pd2)" by (metis prod_cases3)
  have ls: "part_inv cmp xs1 pa1 pb1 pe pd" "mset xs1 = mset xs" "pb1 < pe \<Longrightarrow> cmp (xs1 ! pb1) (xs1 ! 0) > 0"
    using left_scan_spec [OF less.prems(1) l] by auto
  have rs: "part_inv cmp xs2 pa1 pb1 pe2 pd2" "mset xs2 = mset xs1" "xs2 ! 0 = xs1 ! 0"
    "pb1 < pe2 \<Longrightarrow> xs2 ! pb1 = xs1 ! pb1 \<and> cmp (xs2 ! (pe2 - 1)) (xs2 ! 0) < 0"
    using right_scan_spec [OF ls(1) r] by auto
  have b: "pb \<le> pb1" "pe2 \<le> pe" using left_scan_bounds [OF l] right_scan_bounds [OF r] by auto
  show ?case
  proof (cases "pb1 < pe2")
    case False
    then have "(ys, pa', pb', pe', pd') = (xs2, pa1, pb1, pe2, pd2)"
      using less.prems(2) l r by (simp add: partition_loop.simps [of cmp xs])
    then show ?thesis using rs(1,2) ls(2) False by (auto simp: part_inv_def)
  next
    case True
    let ?zs = "swap xs2 pb1 (pe2 - 1)"
    have gt: "cmp (xs2 ! pb1) (xs2 ! 0) > 0" and lt: "cmp (xs2 ! (pe2 - 1)) (xs2 ! 0) < 0"
      using True rs(3,4) ls(3) b by auto
    then have ne: "pb1 \<noteq> pe2 - 1" by auto
    have len: "pb1 < length xs2" "pe2 - 1 < length xs2" "0 < pb1" "0 < length xs2" "pb1 < pe2 - 1"
      using rs(1) True ne by (auto simp: part_inv_def)
    have z: "?zs ! k = (if k = pb1 then xs2 ! (pe2 - 1) else if k = pe2 - 1 then xs2 ! pb1 else xs2 ! k)" if "k < length xs2" for k
      using that len by (intro nth_swap) auto
    have z0: "?zs ! 0 = xs2 ! 0" using z [of 0] len by auto
    have "0 < cmp (?zs ! i) (xs2 ! 0)" if "pe2 - 1 \<le> i" "i \<le> pd2" for i
      using that rs(1) gt len z [of i] by (cases "i = pe2 - 1") (auto simp: part_inv_def)
    moreover have "cmp (?zs ! i) (xs2 ! 0) < 0" if "pa1 \<le> i" "i < pb1 + 1" for i
      using that rs(1) lt len z [of i] by (cases "i = pb1") (auto simp: part_inv_def)
    moreover have "cmp (?zs ! i) (xs2 ! 0) = 0" if "i < pa1 \<or> pd2 < i \<and> i < length xs2" for i
      using that rs(1) len z [of i] by (auto simp: part_inv_def)
    ultimately have "part_inv cmp ?zs pa1 (pb1 + 1) (pe2 - 1) pd2"
      unfolding part_inv_def z0 using rs(1) len by (auto simp: part_inv_def)
    moreover have "partition_loop cmp ?zs pa1 (pb1 + 1) (pe2 - 1) pd2 = (ys, pa', pb', pe', pd')"
      using less.prems(2) l r True by (simp add: partition_loop.simps [of cmp xs])
    moreover have "pe2 - 1 - (pb1 + 1) < pe - pb" using True b by linarith
    ultimately have "part_inv cmp ys pa' pb' pe' pd' \<and> mset ys = mset ?zs \<and> pe' = pb'"
      by (intro less.hyps)
    then show ?thesis using mset_swap_list [OF len(1,2)] rs(2) ls(2) by auto
  qed
qed

lemma med3_less: "a < n \<Longrightarrow> b < n \<Longrightarrow> c < n \<Longrightarrow> med3 cmp xs a b c < n"
  by (simp add: med3_def)

lemma choose_pivot_less: "a \<noteq> [] \<Longrightarrow> choose_pivot cmp a < length a"
  unfolding choose_pivot_def Let_def by (auto intro!: med3_less)

text \<open>After the block exchanges the smaller elements come first, the larger ones last.\<close>

lemma gather_left:
  assumes "part_inv cmp zs pa pb pb pd" "r = (if pa < pb - pa then pa else pb - pa)" "ys = vecswap zs 0 (pb - r) r"
  shows "mset ys = mset zs" "\<And>i. i < pb - pa \<Longrightarrow> cmp (ys ! i) (zs ! 0) < 0"
    "\<And>i. pb - pa \<le> i \<Longrightarrow> i < pb \<Longrightarrow> cmp (ys ! i) (zs ! 0) = 0" "\<And>i. pb \<le> i \<Longrightarrow> i < length zs \<Longrightarrow> ys ! i = zs ! i"
proof -
  have b: "1 \<le> pa" "pa \<le> pb" "pb \<le> length zs" and
    eq: "\<And>i. i < pa \<Longrightarrow> cmp (zs ! i) (zs ! 0) = 0" and lt: "\<And>i. pa \<le> i \<Longrightarrow> i < pb \<Longrightarrow> cmp (zs ! i) (zs ! 0) < 0"
    using assms(1) by (auto simp: part_inv_def)
  have r: "0 + r \<le> pb - r" "pb - r + r \<le> length zs" using assms(2) b by auto
  show "mset ys = mset zs" unfolding assms(3) using vecswap_spec(1) [OF r] .
  have y: "ys ! k = (if k < r then zs ! (k + (pb - r)) else if pb - r \<le> k \<and> k < pb then zs ! (k - (pb - r)) else zs ! k)"
    if "k < length zs" for k
    unfolding assms(3) using vecswap_spec(2) [OF r that] r by simp
  show "cmp (ys ! i) (zs ! 0) < 0" if "i < pb - pa" for i
    using that b assms(2) y [of i] lt [of i] lt [of "i + (pb - r)"] by (auto split: if_splits)
  show "cmp (ys ! i) (zs ! 0) = 0" if "pb - pa \<le> i" "i < pb" for i
    using that b assms(2) y [of i] eq [of i] eq [of "i - (pb - r)"] by (auto split: if_splits)
  show "ys ! i = zs ! i" if "pb \<le> i" "i < length zs" for i
    using that b assms(2) y [of i] by (auto split: if_splits)
qed

lemma gather_right:
  assumes "part_inv cmp zs pa pb pb pd" "length xs = length zs" "\<And>i. pb \<le> i \<Longrightarrow> i < length zs \<Longrightarrow> xs ! i = zs ! i"
    "r = (if pd + 1 - pb < length zs - pd - 1 then pd + 1 - pb else length zs - pd - 1)" "ys = vecswap xs pb (length zs - r) r"
  shows "mset ys = mset xs" "\<And>i. i < pb \<Longrightarrow> ys ! i = xs ! i"
    "\<And>i. pb \<le> i \<Longrightarrow> i < length zs - (pd + 1 - pb) \<Longrightarrow> cmp (ys ! i) (zs ! 0) = 0"
    "\<And>i. length zs - (pd + 1 - pb) \<le> i \<Longrightarrow> i < length zs \<Longrightarrow> cmp (ys ! i) (zs ! 0) > 0"
proof -
  let ?n = "length zs"
  have b: "pb \<le> pd + 1" "pd < ?n" using assms(1) by (auto simp: part_inv_def)
  have eq: "cmp (xs ! i) (zs ! 0) = 0" if "pd < i" "i < ?n" for i
    using assms(1) assms(3) [of i] that b by (simp add: part_inv_def)
  have gt: "cmp (xs ! i) (zs ! 0) > 0" if "pb \<le> i" "i \<le> pd" for i
    using assms(1) assms(3) [of i] that b by (simp add: part_inv_def)
  have r: "pb + r \<le> ?n - r" "?n - r + r \<le> length xs" using assms(2,4) b by auto
  show "mset ys = mset xs" unfolding assms(5) using vecswap_spec(1) [OF r] .
  have y: "ys ! k = (if pb \<le> k \<and> k < pb + r then xs ! (k - pb + (?n - r)) else if ?n - r \<le> k \<and> k < ?n then xs ! (k - (?n - r) + pb) else xs ! k)"
    if "k < ?n" for k
    unfolding assms(5) using vecswap_spec(2) [OF r, of k] that r assms(2) by simp
  show "ys ! i = xs ! i" if "i < pb" for i
    using that b assms(4) y [of i] by (auto split: if_splits)
  show "cmp (ys ! i) (zs ! 0) = 0" if i: "pb \<le> i" "i < ?n - (pd + 1 - pb)" for i
  proof (cases "i < pb + r")
    case True
    then have "ys ! i = xs ! (i - pb + (?n - r))" using y [of i] i by simp
    moreover have "pd < i - pb + (?n - r)" "i - pb + (?n - r) < ?n" using assms(4) b i True by (auto split: if_splits)
    ultimately show ?thesis using eq by simp
  next
    case False
    then have "pd < i" "i < ?n - r" using assms(4) b i by (auto split: if_splits)
    then show ?thesis using y [of i] False i eq [of i] by simp
  qed
  show "cmp (ys ! i) (zs ! 0) > 0" if i: "?n - (pd + 1 - pb) \<le> i" "i < ?n" for i
  proof (cases "i < ?n - r")
    case True
    then have "pb + r \<le> i" "i \<le> pd" "pb \<le> i" using assms(4) b i by (auto split: if_splits)
    then show ?thesis using y [of i] True i gt [of i] by simp
  next
    case False
    then have "pb + r \<le> i" using r by simp
    then have "ys ! i = xs ! (i - (?n - r) + pb)" using y [of i] False i by simp
    moreover have "i - (?n - r) + pb \<le> pd" using assms(4) b i False by (auto split: if_splits)
    ultimately show ?thesis using gt by simp
  qed
qed

lemma partition_step_spec:
  assumes "partition_step cmp a = (ys, r, s)" "a \<noteq> []"
  obtains v where "mset ys = mset a" "r + s < length a"
    "\<And>x. x \<in> set (take r ys) \<Longrightarrow> cmp x v < 0"
    "\<And>x. x \<in> set (drop r (take (length a - s) ys)) \<Longrightarrow> cmp x v = 0"
    "\<And>x. x \<in> set (drop (length a - s) ys) \<Longrightarrow> cmp x v > 0"
proof -
  let ?n = "length a" let ?xs = "swap a 0 (choose_pivot cmp a)"
  obtain zs pa pb pe pd where p: "partition_loop cmp ?xs 1 1 ?n (?n - 1) = (zs, pa, pb, pe, pd)"
    by (metis prod_cases5)
  have n: "0 < ?n" using assms(2) by simp
  have "part_inv cmp ?xs 1 1 ?n (?n - 1)" unfolding part_inv_def
  proof (intro conjI allI impI)
    show "0 < cmp (?xs ! i) (?xs ! 0)" if "?n \<le> i \<and> i \<le> ?n - 1" for i using that n by linarith
  qed (use n in \<open>auto simp: Suc_le_eq\<close>)
  from partition_loop_spec [OF this p]
  have inv: "part_inv cmp zs pa pb pb pd" and mz: "mset zs = mset ?xs" and pe: "pe = pb" by auto
  have ms: "mset ?xs = mset a" using n choose_pivot_less [OF assms(2)] by (intro mset_swap_list)
  have len: "length zs = ?n" using mz by (metis length_swap size_mset)
  define r1 where "r1 = (if pa < pb - pa then pa else pb - pa)"
  define as where "as = vecswap zs 0 (pb - r1) r1"
  define r2 where "r2 = (if pd + 1 - pb < length zs - pd - 1 then pd + 1 - pb else length zs - pd - 1)"
  have out: "ys = vecswap as pb (length zs - r2) r2" "r = pb - pa" "s = pd + 1 - pb"
    using assms(1)
    unfolding partition_step_def Let_def p pe len prod.case prod.inject as_def r1_def r2_def by blast+
  note g1 = gather_left [OF inv r1_def as_def]
  have la: "length as = length zs" by (simp add: as_def)
  note g2 = gather_right [OF inv la g1(4) r2_def out(1)]
  have b: "1 \<le> pa" "pa \<le> pb" "pb \<le> pd + 1" "pd < ?n" using inv len by (auto simp: part_inv_def)
  have ly: "length ys = ?n" using out(1) la len by simp
  show thesis
  proof (rule that)
    show "mset ys = mset a" using g2(1) g1(1) mz ms by simp
    show "r + s < ?n" using out b by linarith
    fix x
    show "cmp x (zs ! 0) < 0" if x: "x \<in> set (take r ys)"
    proof -
      obtain i where "i < length (take r ys)" "x = take r ys ! i" using x by (metis in_set_conv_nth)
      then have "i < r" "x = ys ! i" by auto
      then show ?thesis using g1(2) [of i] g2(2) [of i] out b by simp
    qed
    show "cmp x (zs ! 0) = 0" if x: "x \<in> set (drop r (take (?n - s) ys))"
    proof -
      obtain i where "i < length (drop r (take (?n - s) ys))" "x = drop r (take (?n - s) ys) ! i" using x by (metis in_set_conv_nth)
      then have i: "r + i < ?n - s" "x = ys ! (r + i)" using ly by auto
      show ?thesis
      proof (cases "r + i < pb")
        case True
        then show ?thesis using g1(3) [of "r + i"] g2(2) [of "r + i"] i out by simp
      next
        case False
        then show ?thesis using g2(3) [of "r + i"] i out len by simp
      qed
    qed
    show "cmp x (zs ! 0) > 0" if x: "x \<in> set (drop (?n - s) ys)"
    proof -
      obtain i where "i < length (drop (?n - s) ys)" "x = drop (?n - s) ys ! i" using x by (metis in_set_conv_nth)
      then have "?n - s + i < ?n" "x = ys ! (?n - s + i)" using ly by auto
      then show ?thesis using g2(4) [of "?n - s + i"] out len by simp
    qed
  qed
qed

text \<open>Sorted sides around equal elements give a sorted array.\<close>

lemma sides_sorted:
  assumes "cmp_sorted cmp l" "cmp_sorted cmp u" "\<And>x. x \<in> set l \<Longrightarrow> cmp x v < 0"
    "\<And>x. x \<in> set m \<Longrightarrow> cmp x v = 0" "\<And>x. x \<in> set u \<Longrightarrow> cmp x v > 0"
  shows "cmp_sorted cmp (l @ m @ u)"
proof -
  have lv: "cmp x v \<le> 0" if "x \<in> set l \<union> set m" for x using that assms(3,4) by force
  have vu: "cmp v x \<le> 0" if "x \<in> set m \<union> set u" for x
    using that assms(4,5) flip [of v x] flip(3) [of x v] by force
  have "cmp_sorted cmp m"
    unfolding cmp_sorted_def sorted_wrt_iff_nth_less
    using trans [OF lv vu] by (auto dest: nth_mem)
  then show ?thesis
    using assms(1,2) trans [OF lv vu] by (auto simp: cmp_sorted_def sorted_wrt_append)
qed

lemma introsort_spec:
  "cmp_sorted cmp (introsort alloc cmp a es maxdepth) \<and> mset (introsort alloc cmp a es maxdepth) = mset a"
proof (induction "length a" arbitrary: a maxdepth rule: less_induct)
  case less
  let ?n = "length a"
  consider "?n < 7" | "\<not> ?n < 7" "maxdepth = 0 \<and> fst (heapsort alloc a es cmp) = 0"
    | "\<not> ?n < 7" "\<not> (maxdepth = 0 \<and> fst (heapsort alloc a es cmp) = 0)" by blast
  then show ?case
  proof cases
    case 1
    show ?thesis
    proof (cases "a = []")
      case True
      then show ?thesis by (simp add: introsort.simps [of alloc cmp "[]"] insertion_loop.simps [of cmp "[]"] cmp_sorted_def)
    next
      case False
      then have "cmp_sorted cmp (insertion_loop cmp a 1 ?n) \<and> mset (insertion_loop cmp a 1 ?n) = mset a"
        by (intro insertion_loop_spec) (auto simp: nth_sorted_def Suc_le_eq)
      then show ?thesis using 1 by (simp add: introsort.simps [of alloc cmp a])
    qed
  next
    case 2
    then have "heapsort alloc a es cmp = (0, snd (heapsort alloc a es cmp))" by (simp add: prod_eq_iff)
    from heapsort_spec [OF this] 2 show ?thesis by (simp add: introsort.simps [of alloc cmp a] Let_def)
  next
    case 3
    have ne: "a \<noteq> []" using 3(1) by auto
    obtain ys r s where p: "partition_step cmp a = (ys, r, s)" by (metis prod_cases3)
    obtain v where v: "mset ys = mset a" "r + s < ?n" "\<And>x. x \<in> set (take r ys) \<Longrightarrow> cmp x v < 0"
      "\<And>x. x \<in> set (drop r (take (?n - s) ys)) \<Longrightarrow> cmp x v = 0" "\<And>x. x \<in> set (drop (?n - s) ys) \<Longrightarrow> cmp x v > 0"
      using partition_step_spec [OF p ne] by blast
    have ly: "length ys = ?n" using v(1) by (metis size_mset)
    let ?l = "take r ys" let ?m = "drop r (take (?n - s) ys)" let ?u = "drop (?n - s) ys"
    have split: "ys = ?l @ ?m @ ?u"
    proof -
      have "take (?n - s) ys = ?l @ ?m"
        using v(2) by (metis append_take_drop_id take_take min.absorb1 less_diff_conv less_imp_le add.commute)
      then show ?thesis by (metis append.assoc append_take_drop_id)
    qed
    have small: "cmp_sorted cmp zs" if "length zs \<le> 1" for zs
      using that by (cases zs) (auto simp: cmp_sorted_def)
    have parts: "cmp_sorted cmp (l @ ?m @ u) \<and> mset (l @ ?m @ u) = mset a"
      if l: "cmp_sorted cmp l" "mset l = mset ?l" and u: "cmp_sorted cmp u" "mset u = mset ?u" for l u
    proof
      have "set l = set ?l" "set u = set ?u" using l(2) u(2) by (metis set_mset_mset)+
      then show "cmp_sorted cmp (l @ ?m @ u)" using v(3-5) by (intro sides_sorted [OF l(1) u(1)]) auto
      have "mset (l @ ?m @ u) = mset (?l @ ?m @ ?u)" using l(2) u(2) by simp
      then show "mset (l @ ?m @ u) = mset a" using split v(1) by metis
    qed
    let ?d = "if maxdepth = 0 then SIZE_MAX else maxdepth - 1"
    have ihl: "cmp_sorted cmp (introsort alloc cmp ?l es ?d) \<and> mset (introsort alloc cmp ?l es ?d) = mset ?l"
      by (rule less) (use v(2) ly in simp)
    have ihu: "cmp_sorted cmp (introsort alloc cmp ?u es ?d) \<and> mset (introsort alloc cmp ?u es ?d) = mset ?u"
      by (rule less) (use v(2) ly in simp)
    have lens: "length ?l = r" "length ?u = s" using v(2) ly by auto
    define L where "L = (if r > 1 then introsort alloc cmp ?l es ?d else ?l)"
    define U where "U = (if s > 1 then introsort alloc cmp ?u es ?d else ?u)"
    have LU: "cmp_sorted cmp L" "mset L = mset ?l" "cmp_sorted cmp U" "mset U = mset ?u"
      using ihl ihu small lens by (auto simp: L_def U_def)
    have "introsort alloc cmp a es maxdepth = L @ ?m @ U"
    proof (cases "r < s")
      case True
      then have "s \<le> 1 \<Longrightarrow> L @ ?m @ U = ys" using split by (simp add: L_def U_def)
      then show ?thesis
        using 3 p True by (subst introsort.simps) (auto simp: Let_def L_def U_def)
    next
      case False
      then have "r \<le> 1 \<Longrightarrow> L @ ?m @ U = ys" using split by (simp add: L_def U_def)
      then show ?thesis
        using 3 p False by (subst introsort.simps) (auto simp: Let_def L_def U_def)
    qed
    then show ?thesis using parts [OF LU] by simp
  qed
qed

end

text \<open>\<open>memcmp\<close> is a comparison function.\<close>

lemma memcmp_flip: "memcmp q p n = - memcmp p q n"
  by (induction p q n rule: memcmp.induct) auto

lemma memcmp_trans: "memcmp p q n \<le> 0 \<Longrightarrow> memcmp q r n \<le> 0 \<Longrightarrow> memcmp p r n \<le> 0"
proof (induction n arbitrary: p q r)
  case (Suc n)
  then show ?case
    using Suc.IH [of "tl p" "tl q" "tl r"] by (auto simp: word_uint_eq_iff split: if_splits)
qed simp

interpretation memcmp: comparison "\<lambda>p q. memcmp p q n" for n
proof
  show "sgn (memcmp y x n) = - sgn (memcmp x y n)" for x y by (simp add: memcmp_flip [of y x] sgn_if)
  show "memcmp x y n \<le> 0 \<Longrightarrow> memcmp y z n \<le> 0 \<Longrightarrow> memcmp x z n \<le> 0" for x y z by (rule memcmp_trans)
qed

text \<open>
  C25.  \<open>qsort\<close> sorts: for every comparison function that is a total preorder the
  result is in order and a permutation of the input, whatever the memory that is
  left for the fall-back to heapsort.
\<close>

theorem qsort_sorts:
  assumes "comparison cmp"
  shows "cmp_sorted cmp (qsort alloc a es cmp) \<and> mset (qsort alloc a es cmp) = mset a"
  unfolding qsort_def using comparison.introsort_spec [OF assms] .

lemma int_comparison: "comparison (\<lambda>x y. x - y :: int)"
  by unfold_locales (auto simp: sgn_if)

theorem qsort_sorts_witness:
  "cmp_sorted (\<lambda>x y. x - y) (qsort (\<lambda>_. True) [5, 3, 9, 1, 3, 8, 2, 7 :: int] 8 (\<lambda>x y. x - y))
   \<and> mset (qsort (\<lambda>_. True) [5, 3, 9, 1, 3, 8, 2, 7 :: int] 8 (\<lambda>x y. x - y)) = mset [5, 3, 9, 1, 3, 8, 2, 7]"
  by (rule qsort_sorts [OF int_comparison])

text \<open>
  C26.  \<open>heapsort\<close> sorts whenever it returns 0, which it does if it has memory for one
  element; otherwise it returns -1 and leaves the array as it was.
\<close>

theorem heapsort_sorts:
  assumes "comparison cmp"
  shows "(if length a \<le> 1 \<or> sz \<noteq> 0 \<and> alloc sz
     then fst (heapsort alloc a sz cmp) = 0 \<and> cmp_sorted cmp (snd (heapsort alloc a sz cmp))
       \<and> mset (snd (heapsort alloc a sz cmp)) = mset a
     else heapsort alloc a sz cmp = (-1, a))"
proof -
  have "fst (heapsort alloc a sz cmp) = 0" if "length a \<le> 1 \<or> sz \<noteq> 0 \<and> alloc sz"
    using that by (auto simp: heapsort_def Let_def)
  then show ?thesis
    using comparison.heapsort_spec [OF assms, of alloc a sz "snd (heapsort alloc a sz cmp)"]
    by (auto simp: prod_eq_iff) (auto simp: heapsort_def Let_def)
qed

theorem heapsort_sorts_witness:
  "snd (heapsort (\<lambda>_. True) [5, 3, 9, 1 :: int] 8 (\<lambda>x y. x - y)) = [1, 3, 5, 9] \<and>
   cmp_sorted (\<lambda>x y. x - y) (snd (heapsort (\<lambda>_. True) [5, 3, 9, 1 :: int] 8 (\<lambda>x y. x - y)))"
  using heapsort_sorts [OF int_comparison, of "[5, 3, 9, 1]" 8 "\<lambda>_. True"] by code_simp

section \<open>Binary search\<close>

text \<open>Outside the range that is left to search, the elements are known to differ from the key.\<close>

lemma bsearch_loop_spec:
  assumes "base + lim \<le> length xs"
    and mono: "\<And>i j. i < j \<Longrightarrow> j < length xs \<Longrightarrow> sgn (compar key (xs ! j)) \<le> sgn (compar key (xs ! i))"
    and "\<And>i. i < base \<Longrightarrow> compar key (xs ! i) > 0"
    and "\<And>i. base + lim \<le> i \<Longrightarrow> i < length xs \<Longrightarrow> compar key (xs ! i) < 0"
  shows "case bsearch_loop compar key xs base lim of
     None \<Rightarrow> (\<forall>i<length xs. compar key (xs ! i) \<noteq> 0)
   | Some p \<Rightarrow> p < length xs \<and> compar key (xs ! p) = 0"
  using assms(1,3,4)
proof (induction lim arbitrary: base rule: less_induct)
  case (less lim)
  let ?p = "base + lim div 2" let ?c = "compar key (xs ! ?p)"
  consider "lim = 0" | "lim \<noteq> 0" "?c = 0" | "lim \<noteq> 0" "?c > 0" | "lim \<noteq> 0" "?c < 0" by linarith
  then show ?case
  proof cases
    case 1
    then have "compar key (xs ! i) \<noteq> 0" if "i < length xs" for i
      using less.prems(2) [of i] less.prems(3) [of i] that by (cases "i < base") auto
    then show ?thesis using 1 by (simp add: bsearch_loop.simps [of compar key xs base])
  next
    case 2
    then show ?thesis using less.prems(1) by (simp add: bsearch_loop.simps [of compar key xs base])
  next
    case 3
    have p: "?p < length xs" using 3 less.prems(1) by linarith
    have below: "compar key (xs ! i) > 0" if "i < ?p + 1" for i
    proof (cases "i = ?p")
      case False
      then have "sgn ?c \<le> sgn (compar key (xs ! i))" using mono [of i ?p] that p by auto
      then show ?thesis using 3 by (auto simp: sgn_if split: if_splits)
    qed (use 3 in simp)
    have "case bsearch_loop compar key xs (?p + 1) ((lim - 1) div 2) of
       None \<Rightarrow> (\<forall>i<length xs. compar key (xs ! i) \<noteq> 0) | Some p \<Rightarrow> p < length xs \<and> compar key (xs ! p) = 0"
    proof (rule less.IH)
      show "(lim - 1) div 2 < lim" using 3 by linarith
      show "?p + 1 + (lim - 1) div 2 \<le> length xs" using 3 less.prems(1) by linarith
      show "\<And>i. i < ?p + 1 \<Longrightarrow> compar key (xs ! i) > 0" by (rule below)
      show "\<And>i. ?p + 1 + (lim - 1) div 2 \<le> i \<Longrightarrow> i < length xs \<Longrightarrow> compar key (xs ! i) < 0"
        using 3 by (intro less.prems(3)) linarith+
    qed
    then show ?thesis using 3 by (simp add: bsearch_loop.simps [of compar key xs base] Let_def)
  next
    case 4
    have p: "?p < length xs" using 4 less.prems(1) by linarith
    have above: "compar key (xs ! i) < 0" if "?p \<le> i" "i < length xs" for i
    proof (cases "i = ?p")
      case False
      then have "sgn (compar key (xs ! i)) \<le> sgn ?c" using mono [of ?p i] that by auto
      then show ?thesis using 4 by (auto simp: sgn_if split: if_splits)
    qed (use 4 in simp)
    have "case bsearch_loop compar key xs base (lim div 2) of
       None \<Rightarrow> (\<forall>i<length xs. compar key (xs ! i) \<noteq> 0) | Some p \<Rightarrow> p < length xs \<and> compar key (xs ! p) = 0"
      by (rule less.IH) (use 4 p above less.prems(2) in auto)
    then show ?thesis using 4 by (simp add: bsearch_loop.simps [of compar key xs base] Let_def)
  qed
qed

text \<open>
  C27.  \<open>bsearch\<close> finds: in an array on which the sign of the comparison with the key
  falls from left to right it returns an element that matches the key whenever there is
  one, and NULL only if there is none.  The key need not be of the type of the elements.
\<close>

theorem bsearch_finds:
  assumes "sorted_wrt (\<lambda>x y. sgn (compar key y) \<le> sgn (compar key x)) xs"
  shows "case bsearch compar key xs of
     None \<Rightarrow> (\<forall>x \<in> set xs. compar key x \<noteq> 0)
   | Some p \<Rightarrow> p < length xs \<and> compar key (xs ! p) = 0"
proof -
  have "\<And>i j. i < j \<Longrightarrow> j < length xs \<Longrightarrow> sgn (compar key (xs ! j)) \<le> sgn (compar key (xs ! i))"
    using assms by (simp add: sorted_wrt_iff_nth_less)
  from bsearch_loop_spec [of 0 "length xs" xs compar key, OF _ this] show ?thesis
    by (auto simp: bsearch_def in_set_conv_nth split: option.splits)
qed

theorem bsearch_finds_witness:
  "bsearch (\<lambda>k x. k - x) 7 [1, 3, 7, 8, 9 :: int] = Some 2
   \<and> (case bsearch (\<lambda>k x. k - x) 4 [1, 3, 7, 8, 9 :: int] of
        None \<Rightarrow> (\<forall>x \<in> set [1, 3, 7, 8, 9 :: int]. 4 - x \<noteq> 0) | Some p \<Rightarrow> p < 5 \<and> 4 - [1, 3, 7, 8, 9 :: int] ! p = 0)"
  using bsearch_finds [of "\<lambda>k x. k - x" 4 "[1, 3, 7, 8, 9 :: int]"] by code_simp

end
