(* ===== verification/Simulation.thy ===== *)
theory Simulation
  imports Main
begin

text \<open>
  Runs of operations on a state, and their simulation by an abstract
  specification.  The specification is a relation between the abstract state, the
  result of an operation and the next abstract state, so that it can leave open
  whether an allocation fails or in which order equal elements end up.
\<close>

fun run_ops :: "('o \<Rightarrow> 's \<Rightarrow> 'r \<times> 's) \<Rightarrow> 'o list \<Rightarrow> 's \<Rightarrow> 'r list \<times> 's" where
  "run_ops step [] s = ([], s)"
| "run_ops step (x # xs) s =
     (case step x s of (r, s) \<Rightarrow> case run_ops step xs s of (rs, s) \<Rightarrow> (r # rs, s))"

fun spec_run :: "('o \<Rightarrow> 'b \<Rightarrow> 'r \<Rightarrow> 'b \<Rightarrow> bool) \<Rightarrow> 'o list \<Rightarrow> 'b \<Rightarrow> 'r list \<Rightarrow> 'b \<Rightarrow> bool" where
  "spec_run spec [] a rs a' \<longleftrightarrow> rs = [] \<and> a' = a"
| "spec_run spec (x # xs) a rs a' \<longleftrightarrow>
     (\<exists>r rs' b. rs = r # rs' \<and> spec x a r b \<and> spec_run spec xs b rs' a')"

text \<open>\<open>inv k\<close> is the invariant after \<open>k\<close> operations; it need only hold up to a limit.\<close>

locale simulation =
  fixes inv :: "nat \<Rightarrow> 's \<Rightarrow> bool" and limit :: nat and abst :: "'s \<Rightarrow> 'b"
    and step :: "'o \<Rightarrow> 's \<Rightarrow> 'r \<times> 's" and spec :: "'o \<Rightarrow> 'b \<Rightarrow> 'r \<Rightarrow> 'b \<Rightarrow> bool"
  assumes sim: "inv k s \<Longrightarrow> k < limit \<Longrightarrow> step x s = (r, s') \<Longrightarrow> inv (Suc k) s' \<and> spec x (abst s) r (abst s')"
begin

lemma run:
  assumes "inv k s" "k + length xs \<le> limit" "run_ops step xs s = (rs, s')"
  shows "inv (k + length xs) s' \<and> spec_run spec xs (abst s) rs (abst s')"
  using assms
proof (induction xs arbitrary: k s rs)
  case (Cons x xs)
  obtain r t where x: "step x s = (r, t)" by fastforce
  obtain rs' t' where xs: "run_ops step xs t = (rs', t')" by fastforce
  have "inv (Suc k) t" "spec x (abst s) r (abst t)" using sim [OF Cons.prems(1) _ x] Cons.prems(2) by auto
  moreover have "t' = s'" "rs = r # rs'" using Cons.prems(3) x xs by auto
  moreover have "inv (Suc k + length xs) s' \<and> spec_run spec xs (abst t) rs' (abst s')"
    by (rule Cons.IH) (use calculation Cons.prems(2) xs in auto)
  ultimately show ?case by auto
qed simp

end

end
