(* ===== verification/Stack.thy ===== *)
theory Stack
  imports Sort_Correct Libc_Alloc Simulation "HOL-Library.Code_Target_Nat"
begin

text \<open>
  The growing array of pointers that libcrypto calls a stack
  (libcrypto/stack/stack.c, stack_local.h).  A stored pointer is a \<open>'a option\<close>,
  \<open>None\<close> for NULL; a function pointer is a \<open>'c\<close>, compared by identity, and
  \<open>call\<close> is the function it points to.  A stack that may be NULL is an option
  too.  The C type \<open>int\<close> is \<open>int\<close>: that no count leaves its range is part of
  the invariant below.
\<close>

section \<open>State\<close>

type_synonym 'a ptr = "'a option"

record ('a, 'c) stack =
  st_num :: int
  st_data :: "'a ptr list"
  st_sorted :: bool
  st_num_alloc :: int
  st_comp :: "'c option"

definition MIN_STACK_NODES :: int where "MIN_STACK_NODES = 4"

definition sizeof_stack :: nat where "sizeof_stack = 32"
definition sizeof_charp :: nat where "sizeof_charp = 8"

definition OBJ_BSEARCH_VALUE_ON_NOMATCH :: nat where "OBJ_BSEARCH_VALUE_ON_NOMATCH = 1"
definition OBJ_BSEARCH_FIRST_VALUE_ON_MATCH :: nat where "OBJ_BSEARCH_FIRST_VALUE_ON_MATCH = 2"

section \<open>Operations\<close>

text \<open>
  \<open>reallocarray\<close> for \<open>nmemb\<close> groups of \<open>k\<close> pointers; \<open>garbage\<close> is what the new
  elements hold.
\<close>

definition realloc_pointers :: "(nat \<Rightarrow> bool) \<Rightarrow> 'a ptr \<Rightarrow> 'a ptr list \<Rightarrow> int \<Rightarrow> nat \<Rightarrow> 'a ptr list option" where
  "realloc_pointers alloc garbage data nmemb k =
     (let n = nat nmemb
      in if mul_overflows n (k * sizeof_charp) then None
         else if \<not> alloc (k * sizeof_charp * n) then None
         else Some (take (k * n) data @ replicate (k * n - length data) garbage))"

definition sk_set_cmp_func :: "('a, 'c) stack \<Rightarrow> 'c option \<Rightarrow> 'c option \<times> ('a, 'c) stack" where
  "sk_set_cmp_func sk c =
     (let old = st_comp sk;
          sk = (if st_comp sk \<noteq> c then sk\<lparr>st_sorted := False\<rparr> else sk)
      in (old, sk\<lparr>st_comp := c\<rparr>))"

definition sk_new :: "(nat \<Rightarrow> bool) \<Rightarrow> 'c option \<Rightarrow> ('a, 'c) stack option" where
  "sk_new alloc c =
     (if \<not> alloc sizeof_stack then None
      else case realloc_pointers alloc None [] MIN_STACK_NODES 1 of None \<Rightarrow> None
       | Some data \<Rightarrow>
           Some \<lparr>st_num = 0, st_data = write_at data 0 (replicate (nat MIN_STACK_NODES) None), st_sorted = False,
                 st_num_alloc = MIN_STACK_NODES, st_comp = c\<rparr>)"

definition sk_new_null :: "(nat \<Rightarrow> bool) \<Rightarrow> ('a, 'c) stack option" where
  "sk_new_null alloc = sk_new alloc None"

definition sk_dup :: "(nat \<Rightarrow> bool) \<Rightarrow> 'a ptr \<Rightarrow> ('a, 'c) stack \<Rightarrow> ('a, 'c) stack option" where
  "sk_dup alloc garbage sk =
     (case sk_new alloc (st_comp sk) of None \<Rightarrow> None
      | Some ret \<Rightarrow>
          (case realloc_pointers alloc garbage (st_data ret) (st_num_alloc sk) 1 of None \<Rightarrow> None
           | Some s \<Rightarrow>
               Some (ret\<lparr>st_num := st_num sk, st_data := write_at s 0 (take (nat (st_num sk)) (st_data sk)),
                         st_sorted := st_sorted sk, st_num_alloc := st_num_alloc sk, st_comp := st_comp sk\<rparr>)))"

text \<open>The growing of the array in \<open>sk_insert\<close>.\<close>

definition sk_grow :: "(nat \<Rightarrow> bool) \<Rightarrow> 'a ptr \<Rightarrow> ('a, 'c) stack \<Rightarrow> ('a, 'c) stack option" where
  "sk_grow alloc garbage st =
     (if st_num_alloc st \<le> st_num st + 1 then
        (case realloc_pointers alloc garbage (st_data st) (st_num_alloc st) 2 of None \<Rightarrow> None
         | Some s \<Rightarrow> Some (st\<lparr>st_data := s, st_num_alloc := st_num_alloc st * 2\<rparr>))
      else Some st)"

fun sk_insert :: "(nat \<Rightarrow> bool) \<Rightarrow> 'a ptr \<Rightarrow> ('a, 'c) stack option \<Rightarrow> 'a ptr \<Rightarrow> int
    \<Rightarrow> int \<times> ('a, 'c) stack option" where
  "sk_insert alloc garbage None p loc = (0, None)"
| "sk_insert alloc garbage (Some st) p loc =
     (case sk_grow alloc garbage st of None \<Rightarrow> (0, Some st)
      | Some st \<Rightarrow>
          (let num = nat (st_num st);
               data = (if loc \<ge> st_num st \<or> loc < 0 then (st_data st)[num := p]
                       else (let l = nat loc in
                         (write_at (st_data st) (l + 1) (take (num - l) (drop l (st_data st))))[l := p]));
               st = st\<lparr>st_data := data, st_num := st_num st + 1, st_sorted := False\<rparr>
           in (st_num st, Some st)))"

fun sk_delete :: "('a, 'c) stack option \<Rightarrow> int \<Rightarrow> 'a ptr \<times> ('a, 'c) stack option" where
  "sk_delete None loc = (None, None)"
| "sk_delete (Some st) loc =
     (if loc < 0 \<or> loc \<ge> st_num st then (None, Some st)
      else let l = nat loc; num = nat (st_num st); ret = st_data st ! l;
               data = (if loc \<noteq> st_num st - 1
                       then write_at (st_data st) l (take (num - 1 - l) (drop (l + 1) (st_data st)))
                       else st_data st)
           in (ret, Some (st\<lparr>st_data := data, st_num := st_num st - 1\<rparr>)))"

text \<open>The first index from \<open>i\<close> on, among the first \<open>num\<close> elements, that holds \<open>p\<close>.\<close>

function find_ptr :: "'a ptr list \<Rightarrow> 'a ptr \<Rightarrow> int \<Rightarrow> int \<Rightarrow> int option" where
  "find_ptr data p num i =
     (if i < num then (if data ! nat i = p then Some i else find_ptr data p num (i + 1)) else None)"
  by pat_completeness auto

termination by (relation "measure (\<lambda>(_, _, num, i). nat (num - i))") auto

definition sk_delete_ptr :: "('a, 'c) stack \<Rightarrow> 'a ptr \<Rightarrow> 'a ptr \<times> ('a, 'c) stack" where
  "sk_delete_ptr st p =
     (case find_ptr (st_data st) p (st_num st) 0 of None \<Rightarrow> (None, st)
      | Some i \<Rightarrow> (case sk_delete (Some st) i of (r, Some st) \<Rightarrow> (r, st) | (r, None) \<Rightarrow> (r, st)))"

text \<open>
  The binary search: \<open>i\<close> and \<open>c\<close> are the place looked at last and the result there.
  The midpoint and the offset \<open>i * size\<close> of an element are computed in \<open>int\<close>; where
  they would leave its range the behaviour of the program is undefined: \<open>None\<close>.  The
  offsets of the second loop are below one that the first has computed.
\<close>

definition INT_LIMIT :: nat where "INT_LIMIT = 2147483647"

function obj_bsearch_loop :: "nat \<Rightarrow> ('k \<Rightarrow> 'e \<Rightarrow> int) \<Rightarrow> 'k \<Rightarrow> 'e list \<Rightarrow> nat \<Rightarrow> nat \<Rightarrow> nat \<times> int \<Rightarrow> (nat \<times> int) option" where
  "obj_bsearch_loop sz cmp key base l h ic =
     (if l < h then
        (let i = (l + h) div 2
         in if l + h > INT_LIMIT \<or> i * sz > INT_LIMIT then None
            else let c = cmp key (base ! i)
             in if c < 0 then obj_bsearch_loop sz cmp key base l i (i, c)
                else if c > 0 then obj_bsearch_loop sz cmp key base (i + 1) h (i, c)
                else Some (i, c))
      else Some ic)"
  by pat_completeness auto

termination by (relation "measure (\<lambda>(_, _, _, _, l, h, _). h - l)") auto

fun first_match :: "('k \<Rightarrow> 'e \<Rightarrow> int) \<Rightarrow> 'k \<Rightarrow> 'e list \<Rightarrow> nat \<Rightarrow> nat" where
  "first_match cmp key base 0 = 0"
| "first_match cmp key base (Suc i) = (if cmp key (base ! i) = 0 then first_match cmp key base i else Suc i)"

text \<open>The inner option is the pointer returned, as the index of its element.\<close>

definition obj_bsearch_ex :: "'k \<Rightarrow> 'e list \<Rightarrow> nat \<Rightarrow> nat \<Rightarrow> ('k \<Rightarrow> 'e \<Rightarrow> int) \<Rightarrow> nat \<Rightarrow> nat option option" where
  "obj_bsearch_ex key base num sz cmp flags =
     (if num = 0 then Some None
      else case obj_bsearch_loop sz cmp key base 0 num (0, 0) of
          None \<Rightarrow> None
        | Some (i, c) \<Rightarrow>
            Some (if c \<noteq> 0 \<and> and flags OBJ_BSEARCH_VALUE_ON_NOMATCH = 0 then None
                  else if c = 0 \<and> and flags OBJ_BSEARCH_FIRST_VALUE_ON_MATCH \<noteq> 0 then Some (first_match cmp key base i)
                  else Some i))"

declare find_ptr.simps [simp del] obj_bsearch_loop.simps [simp del]

text \<open>
  \<open>sk_sort\<close>.  Without a comparison function \<open>qsort\<close> would call a null pointer as soon as
  it has two elements to compare: the outer \<open>None\<close>.
\<close>

fun sk_sort :: "('c \<Rightarrow> 'a ptr \<Rightarrow> 'a ptr \<Rightarrow> int) \<Rightarrow> (nat \<Rightarrow> bool) \<Rightarrow> ('a, 'c) stack option
    \<Rightarrow> ('a, 'c) stack option option" where
  "sk_sort call alloc None = Some None"
| "sk_sort call alloc (Some st) =
     (if st_sorted st then Some (Some st)
      else let num = nat (st_num st)
       in case st_comp st of
            None \<Rightarrow> (if num \<le> 1 then Some (Some (st\<lparr>st_sorted := True\<rparr>)) else None)
          | Some c \<Rightarrow> Some (Some (st\<lparr>
              st_data := qsort alloc (take num (st_data st)) sizeof_charp (call c) @ drop num (st_data st),
              st_sorted := True\<rparr>)))"

text \<open>The outer \<open>None\<close> of \<open>internal_find\<close> is a call whose behaviour is undefined, as in \<open>sk_sort\<close> and the search.\<close>

fun internal_find :: "('c \<Rightarrow> 'a ptr \<Rightarrow> 'a ptr \<Rightarrow> int) \<Rightarrow> (nat \<Rightarrow> bool) \<Rightarrow> ('a, 'c) stack option \<Rightarrow> 'a ptr \<Rightarrow> nat
    \<Rightarrow> (int \<times> ('a, 'c) stack option) option" where
  "internal_find call alloc None p opts = Some (-1, None)"
| "internal_find call alloc (Some st) p opts =
     (case st_comp st of
        None \<Rightarrow> Some (case find_ptr (st_data st) p (st_num st) 0 of None \<Rightarrow> -1 | Some i \<Rightarrow> i, Some st)
      | Some c \<Rightarrow>
          (case sk_sort call alloc (Some st) of
             Some (Some st) \<Rightarrow>
               if p = None then Some (-1, Some st)
               else (case obj_bsearch_ex p (st_data st) (nat (st_num st)) sizeof_charp (call c) opts of
                       None \<Rightarrow> None
                     | Some None \<Rightarrow> Some (-1, Some st)
                     | Some (Some r) \<Rightarrow> Some (int r, Some st))
           | _ \<Rightarrow> None))"

definition sk_find :: "('c \<Rightarrow> 'a ptr \<Rightarrow> 'a ptr \<Rightarrow> int) \<Rightarrow> (nat \<Rightarrow> bool) \<Rightarrow> ('a, 'c) stack option \<Rightarrow> 'a ptr
    \<Rightarrow> (int \<times> ('a, 'c) stack option) option" where
  "sk_find call alloc st p = internal_find call alloc st p OBJ_BSEARCH_FIRST_VALUE_ON_MATCH"

definition sk_push :: "(nat \<Rightarrow> bool) \<Rightarrow> 'a ptr \<Rightarrow> ('a, 'c) stack \<Rightarrow> 'a ptr \<Rightarrow> int \<times> ('a, 'c) stack option" where
  "sk_push alloc garbage st p = sk_insert alloc garbage (Some st) p (st_num st)"

definition sk_unshift :: "(nat \<Rightarrow> bool) \<Rightarrow> 'a ptr \<Rightarrow> ('a, 'c) stack option \<Rightarrow> 'a ptr \<Rightarrow> int \<times> ('a, 'c) stack option" where
  "sk_unshift alloc garbage st p = sk_insert alloc garbage st p 0"

fun sk_shift :: "('a, 'c) stack option \<Rightarrow> 'a ptr \<times> ('a, 'c) stack option" where
  "sk_shift None = (None, None)"
| "sk_shift (Some st) = (if st_num st \<le> 0 then (None, Some st) else sk_delete (Some st) 0)"

fun sk_pop :: "('a, 'c) stack option \<Rightarrow> 'a ptr \<times> ('a, 'c) stack option" where
  "sk_pop None = (None, None)"
| "sk_pop (Some st) = (if st_num st \<le> 0 then (None, Some st) else sk_delete (Some st) (st_num st - 1))"

fun sk_zero :: "('a, 'c) stack option \<Rightarrow> ('a, 'c) stack option" where
  "sk_zero None = None"
| "sk_zero (Some st) =
     (if st_num st \<le> 0 then Some st
      else Some (st\<lparr>st_data := write_at (st_data st) 0 (replicate (nat (st_num st)) None), st_num := 0\<rparr>))"

fun sk_num :: "('a, 'c) stack option \<Rightarrow> int" where
  "sk_num None = -1"
| "sk_num (Some st) = st_num st"

fun sk_value :: "('a, 'c) stack option \<Rightarrow> int \<Rightarrow> 'a ptr" where
  "sk_value None i = None"
| "sk_value (Some st) i = (if i < 0 \<or> i \<ge> st_num st then None else st_data st ! nat i)"

fun sk_set :: "('a, 'c) stack option \<Rightarrow> int \<Rightarrow> 'a ptr \<Rightarrow> 'a ptr \<times> ('a, 'c) stack option" where
  "sk_set None i v = (None, None)"
| "sk_set (Some st) i v =
     (if i < 0 \<or> i \<ge> st_num st then (None, Some st)
      else (v, Some (st\<lparr>st_sorted := False, st_data := (st_data st)[nat i := v]\<rparr>)))"

fun sk_is_sorted :: "('a, 'c) stack option \<Rightarrow> bool" where
  "sk_is_sorted None = True"
| "sk_is_sorted (Some st) =
     (if st_sorted st then True else if st_comp st = None then False else st_num st \<le> 1)"

text \<open>\<open>sk_pop_free\<close> calls \<open>func\<close> on the pointers that are not NULL, in order; the stack is gone.\<close>

fun pop_free_loop :: "('a \<Rightarrow> 's \<Rightarrow> 's) \<Rightarrow> 'a ptr list \<Rightarrow> 's \<Rightarrow> 's" where
  "pop_free_loop func [] s = s"
| "pop_free_loop func (None # ps) s = pop_free_loop func ps s"
| "pop_free_loop func (Some p # ps) s = pop_free_loop func ps (func p s)"

fun sk_pop_free :: "('a \<Rightarrow> 's \<Rightarrow> 's) \<Rightarrow> ('a, 'c) stack option \<Rightarrow> 's \<Rightarrow> 's" where
  "sk_pop_free func None s = s"
| "sk_pop_free func (Some st) s = pop_free_loop func (take (nat (st_num st)) (st_data st)) s"

section \<open>The stack as a list\<close>

definition sk_list :: "('a, 'c) stack \<Rightarrow> 'a ptr list" where
  "sk_list st = take (nat (st_num st)) (st_data st)"

text \<open>
  The invariant after at most \<open>k\<close> calls that add an element.  The array always has a
  free place, and the flag \<open>sorted\<close> tells the truth.
\<close>

definition sk_ok :: "('c \<Rightarrow> 'a ptr \<Rightarrow> 'a ptr \<Rightarrow> int) \<Rightarrow> nat \<Rightarrow> ('a, 'c) stack \<Rightarrow> bool" where
  "sk_ok call k st \<longleftrightarrow> 0 \<le> st_num st \<and> st_num st < st_num_alloc st \<and> st_num st \<le> int k
     \<and> 4 \<le> st_num_alloc st \<and> st_num_alloc st \<le> 2 * int k + 4 \<and> length (st_data st) = nat (st_num_alloc st)
     \<and> (st_sorted st \<longrightarrow> (case st_comp st of None \<Rightarrow> st_num st \<le> 1 | Some c \<Rightarrow> cmp_sorted (call c) (sk_list st)))"

definition insert_at :: "nat \<Rightarrow> 'b \<Rightarrow> 'b list \<Rightarrow> 'b list" where
  "insert_at i x xs = take i xs @ x # drop i xs"

definition remove_at :: "nat \<Rightarrow> 'b list \<Rightarrow> 'b list" where
  "remove_at i xs = take i xs @ drop (Suc i) xs"

lemma sk_ok_mono: "sk_ok call k st \<Longrightarrow> k \<le> k' \<Longrightarrow> sk_ok call k' st"
  by (auto simp: sk_ok_def)

lemma length_sk_list: "sk_ok call k st \<Longrightarrow> int (length (sk_list st)) = st_num st"
  by (auto simp: sk_ok_def sk_list_def)

lemma sk_list_nth: "nat i < nat (st_num st) \<Longrightarrow> sk_list st ! nat i = st_data st ! nat i"
  by (simp add: sk_list_def)

lemma realloc_pointers_cases:
  assumes "realloc_pointers alloc garbage data nmemb m = r" "0 \<le> nmemb" "nmemb < 2 ^ 32" "0 < m" "m < 4"
    "length data \<le> m * nat nmemb"
  shows "(r = None \<and> \<not> alloc (m * sizeof_charp * nat nmemb)) \<or>
    r = Some (data @ replicate (m * nat nmemb - length data) garbage)"
proof -
  have "nat nmemb \<le> 2 ^ 32" using assms(3) by (simp add: nat_le_iff)
  then have "nat nmemb * (m * 8) \<le> 2 ^ 32 * (3 * 8)" using assms(5) by (intro mult_le_mono) auto
  also have "\<dots> \<le> SIZE_MAX" by (simp add: SIZE_MAX_def)
  finally have "nat nmemb * (m * sizeof_charp) \<le> SIZE_MAX" by (simp add: sizeof_charp_def)
  moreover have "m * sizeof_charp \<le> SIZE_MAX" using assms(5) by (simp add: SIZE_MAX_def sizeof_charp_def)
  ultimately have "\<not> mul_overflows (nat nmemb) (m * sizeof_charp)" by (simp add: mul_overflows_iff not_less)
  then show ?thesis using assms(1,6) by (auto simp: realloc_pointers_def Let_def split: if_splits)
qed

lemma sk_grow_ok:
  assumes "sk_ok call k st" "k < 2 ^ 29"
  shows "case sk_grow alloc garbage st of
      None \<Rightarrow> (\<exists>n. \<not> alloc n)
    | Some st' \<Rightarrow> st_num st' = st_num st \<and> st_comp st' = st_comp st \<and> take (nat (st_num st)) (st_data st') = sk_list st
        \<and> st_num st + 1 < st_num_alloc st' \<and> 4 \<le> st_num_alloc st' \<and> st_num_alloc st' \<le> 2 * int (Suc k) + 4
        \<and> length (st_data st') = nat (st_num_alloc st')"
proof (cases "st_num_alloc st \<le> st_num st + 1")
  case True
  obtain r where r: "realloc_pointers alloc garbage (st_data st) (st_num_alloc st) 2 = r" by blast
  have a: "0 \<le> st_num_alloc st" "st_num_alloc st < 2 ^ 32" "length (st_data st) = nat (st_num_alloc st)"
    "st_num_alloc st = st_num st + 1" "0 \<le> st_num st" "st_num st \<le> int k" "4 \<le> st_num_alloc st"
    using assms True by (auto simp: sk_ok_def)
  consider "r = None" "\<exists>n. \<not> alloc n"
    | "r = Some (st_data st @ replicate (nat (st_num_alloc st)) garbage)"
    using realloc_pointers_cases [OF r a(1,2)] a(3) by (auto simp: mult_2)
  then show ?thesis
  proof cases
    case 1
    then show ?thesis using True r by (simp add: sk_grow_def)
  next
    case 2
    then show ?thesis using True r a by (simp add: sk_grow_def sk_list_def nat_mult_distrib)
  qed
next
  case False
  then show ?thesis using assms(1) by (auto simp: sk_grow_def sk_ok_def sk_list_def)
qed

lemma insert_data:
  assumes "n < length data" "0 \<le> num" "n = nat num"
  shows "take (Suc n) (if loc \<ge> num \<or> loc < 0 then data[n := p]
     else (write_at data (nat loc + 1) (take (n - nat loc) (drop (nat loc) data)))[nat loc := p])
    = insert_at (if loc \<ge> num \<or> loc < 0 then n else nat loc) p (take n data)"
proof (cases "loc \<ge> num \<or> loc < 0")
  case True
  then show ?thesis using assms(1) by (simp add: insert_at_def take_Suc_conv_app_nth)
next
  case False
  define l where "l = nat loc"
  have l: "l < n" using False assms by (simp add: l_def)
  have "take (Suc n) ((write_at data (l + 1) (take (n - l) (drop l data)))[l := p]) = insert_at l p (take n data)"
  proof (rule nth_equalityI)
    show "length (take (Suc n) ((write_at data (l + 1) (take (n - l) (drop l data)))[l := p])) = length (insert_at l p (take n data))"
      using l assms(1) by (simp add: insert_at_def)
    fix i assume "i < length (take (Suc n) ((write_at data (l + 1) (take (n - l) (drop l data)))[l := p]))"
    then have i: "i \<le> n" using assms(1) by simp
    consider "i < l" | "i = l" | "l < i" by linarith
    then show "take (Suc n) ((write_at data (l + 1) (take (n - l) (drop l data)))[l := p]) ! i = insert_at l p (take n data) ! i"
      using l i assms(1)
      by cases (auto simp: insert_at_def write_at_def nth_append nth_list_update nth_Cons' min_def)
  qed
  with False show ?thesis by (simp add: l_def)
qed

lemma sk_insert_ok:
  assumes "sk_ok call k st" "k < 2 ^ 29" "sk_insert alloc garbage (Some st) p loc = (r, st1)"
  obtains st' where "st1 = Some st'" "st_comp st' = st_comp st" "sk_ok call (Suc k) st'"
    "(\<exists>n. \<not> alloc n) \<and> r = 0 \<and> sk_list st' = sk_list st \<or>
     r = int (length (sk_list st)) + 1 \<and>
     sk_list st' = insert_at (if loc \<ge> int (length (sk_list st)) \<or> loc < 0 then length (sk_list st) else nat loc) p (sk_list st)"
proof (cases "sk_grow alloc garbage st")
  case None
  with sk_grow_ok [OF assms(1,2), of alloc garbage] assms sk_ok_mono [OF assms(1), of "Suc k"]
  show thesis by (intro that [of st]) auto
next
  case (Some g)
  note G = sk_grow_ok [OF assms(1,2), of alloc garbage]
  have g: "st_num g = st_num st" "st_comp g = st_comp st" "take (nat (st_num st)) (st_data g) = sk_list st"
    "st_num st + 1 < st_num_alloc g" "st_num_alloc g \<le> 2 * int (Suc k) + 4" "length (st_data g) = nat (st_num_alloc g)"
    "4 \<le> st_num_alloc g"
    using G unfolding Some option.case by blast+
  define n where "n = nat (st_num st)"
  have num: "0 \<le> st_num st" "st_num st \<le> int k" using assms(1) by (auto simp: sk_ok_def)
  have n: "n < length (st_data g)" using g(4,6) num by (simp add: n_def)
  define data where "data = (if loc \<ge> st_num st \<or> loc < 0 then (st_data g)[n := p]
     else (write_at (st_data g) (nat loc + 1) (take (n - nat loc) (drop (nat loc) (st_data g))))[nat loc := p])"
  have len: "length data = length (st_data g)" using n num by (auto simp: data_def n_def)
  have d: "take (Suc n) data = insert_at (if loc \<ge> st_num st \<or> loc < 0 then n else nat loc) p (sk_list st)"
    unfolding data_def g(3) [symmetric] n_def [symmetric] by (rule insert_data [OF n num(1) n_def])
  have st': "r = st_num st + 1" "st1 = Some (g\<lparr>st_data := data, st_num := st_num st + 1, st_sorted := False\<rparr>)"
    using assms(3) Some g(1) by (auto simp: Let_def data_def n_def)
  have ln: "length (sk_list st) = n" using length_sk_list [OF assms(1)] by (simp add: n_def)
  show thesis
  proof (rule that [OF st'(2)])
    show "sk_ok call (Suc k) (g\<lparr>st_data := data, st_num := st_num st + 1, st_sorted := False\<rparr>)"
      using g len num by (simp add: sk_ok_def)
    show "(\<exists>n. \<not> alloc n) \<and> r = 0 \<and> sk_list (g\<lparr>st_data := data, st_num := st_num st + 1, st_sorted := False\<rparr>) = sk_list st \<or>
     r = int (length (sk_list st)) + 1 \<and>
     sk_list (g\<lparr>st_data := data, st_num := st_num st + 1, st_sorted := False\<rparr>)
       = insert_at (if loc \<ge> int (length (sk_list st)) \<or> loc < 0 then length (sk_list st) else nat loc) p (sk_list st)"
      using d st'(1) num ln by (simp add: sk_list_def n_def nat_add_distrib)
  qed (use g in simp)
qed

lemma remove_at_data:
  assumes "l < n" "n \<le> length data"
  shows "take (n - 1) (if l \<noteq> n - 1 then write_at data l (take (n - 1 - l) (drop (l + 1) data)) else data) = remove_at l (take n data)"
proof (cases "l = n - 1")
  case True
  then show ?thesis using assms by (simp add: remove_at_def min_def)
next
  case False
  then have "l < n - 1" using assms(1) by linarith
  with False assms show ?thesis by (auto simp: write_at_def remove_at_def min_def drop_take)
qed

lemma cmp_sorted_remove_at:
  assumes "cmp_sorted cmp xs"
  shows "cmp_sorted cmp (remove_at i xs)"
proof -
  have "sorted_wrt (\<lambda>x y. cmp x y \<le> 0) (take i xs @ drop i xs)" using assms by (simp add: cmp_sorted_def)
  moreover have "set (drop (Suc i) xs) \<subseteq> set (drop i xs)" by (simp add: set_drop_subset_set_drop)
  ultimately show ?thesis
    using assms by (auto simp: cmp_sorted_def remove_at_def sorted_wrt_append sorted_wrt_drop simp del: append_take_drop_id)
qed

lemma sk_delete_ok:
  assumes "sk_ok call k st" "0 \<le> i" "i < st_num st" "sk_delete (Some st) i = (r, st1)"
  obtains st' where "st1 = Some st'" "st_comp st' = st_comp st" "sk_ok call k st'"
    "r = sk_list st ! nat i" "sk_list st' = remove_at (nat i) (sk_list st)"
proof -
  define n where "n = nat (st_num st)"
  define data where "data = (if nat i \<noteq> n - 1 then write_at (st_data st) (nat i) (take (n - 1 - nat i) (drop (nat i + 1) (st_data st))) else st_data st)"
  have ok: "0 \<le> st_num st" "n < length (st_data st)" using assms(1) by (auto simp: sk_ok_def n_def)
  have i: "nat i < n" "i \<noteq> st_num st - 1 \<longleftrightarrow> nat i \<noteq> n - 1" using assms(2,3) by (auto simp: n_def)
  have st': "r = st_data st ! nat i" "st1 = Some (st\<lparr>st_data := data, st_num := st_num st - 1\<rparr>)"
    using assms(2-4) i by (auto simp: Let_def data_def n_def)
  have l: "sk_list (st\<lparr>st_data := data, st_num := st_num st - 1\<rparr>) = remove_at (nat i) (sk_list st)"
    using remove_at_data [of "nat i" n "st_data st"] i ok by (simp add: sk_list_def data_def n_def nat_diff_distrib)
  have len: "length data = length (st_data st)" using i ok by (simp add: data_def)
  show thesis
  proof (rule that [OF st'(2)])
    show "r = sk_list st ! nat i" using st'(1) i sk_list_nth [of i st] by (simp add: n_def)
    show "sk_ok call k (st\<lparr>st_data := data, st_num := st_num st - 1\<rparr>)"
      using assms(1) l len assms(2,3) by (auto simp: sk_ok_def cmp_sorted_remove_at split: option.splits)
  qed (use l in simp_all)
qed

section \<open>Searching\<close>

lemma find_ptr_spec:
  assumes "0 \<le> i" "i \<le> num"
  shows "case find_ptr data p num i of
      None \<Rightarrow> (\<forall>j. i \<le> j \<and> j < num \<longrightarrow> data ! nat j \<noteq> p)
    | Some f \<Rightarrow> i \<le> f \<and> f < num \<and> data ! nat f = p \<and> (\<forall>j. i \<le> j \<and> j < f \<longrightarrow> data ! nat j \<noteq> p)"
  using assms
proof (induction data p num i rule: find_ptr.induct)
  case (1 data p num i)
  show ?case
  proof (cases "i < num \<and> data ! nat i \<noteq> p")
    case True
    then have ih: "case find_ptr data p num (i + 1) of
      None \<Rightarrow> (\<forall>j. i + 1 \<le> j \<and> j < num \<longrightarrow> data ! nat j \<noteq> p)
    | Some f \<Rightarrow> i + 1 \<le> f \<and> f < num \<and> data ! nat f = p \<and> (\<forall>j. i + 1 \<le> j \<and> j < f \<longrightarrow> data ! nat j \<noteq> p)"
      using 1 by auto
    have eq: "find_ptr data p num i = find_ptr data p num (i + 1)" using True by (subst find_ptr.simps) simp
    have step: "data ! nat j \<noteq> p" if "i \<le> j" "i + 1 \<le> j \<Longrightarrow> data ! nat j \<noteq> p" for j
      using that True by (cases "j = i") auto
    show ?thesis
    proof (cases "find_ptr data p num (i + 1)")
      case None
      then show ?thesis using ih step unfolding eq by simp blast
    next
      case (Some f)
      then have f: "i + 1 \<le> f" "f < num" "data ! nat f = p" "\<forall>j. i + 1 \<le> j \<and> j < f \<longrightarrow> data ! nat j \<noteq> p" using ih by auto
      then have "\<forall>j. i \<le> j \<and> j < f \<longrightarrow> data ! nat j \<noteq> p" using step by blast
      then show ?thesis unfolding eq Some option.case using f(1-3) by (intro conjI) linarith+
    qed
  next
    case False
    then consider "\<not> i < num" | "i < num" "data ! nat i = p" by blast
    then show ?thesis
    proof cases
      case 1
      then have n: "find_ptr data p num i = None" by (subst find_ptr.simps) simp
      show ?thesis unfolding n option.case using 1 by (intro allI impI) linarith
    next
      case 2
      then have s: "find_ptr data p num i = Some i" by (subst find_ptr.simps) simp
      show ?thesis unfolding s option.case
        by (intro conjI allI impI) (rule order_refl, rule 2(1), rule 2(2), linarith)
    qed
  qed
qed

definition first_ptr :: "'a ptr \<Rightarrow> 'a ptr list \<Rightarrow> nat option" where
  "first_ptr p xs = (if p \<in> set xs then Some (length (takeWhile (\<lambda>x. x \<noteq> p) xs)) else None)"

lemma first_ptr_eqI:
  assumes "f < length xs" "xs ! f = p" "\<And>j. j < f \<Longrightarrow> xs ! j \<noteq> p"
  shows "first_ptr p xs = Some f"
proof -
  have "takeWhile (\<lambda>x. x \<noteq> p) xs = take f xs"
    by (rule takeWhile_eq_take_P_nth) (use assms in auto)
  then show ?thesis using assms(1,2) by (auto simp: first_ptr_def)
qed

lemma find_ptr_eq:
  assumes "sk_ok call k st"
  shows "find_ptr (st_data st) p (st_num st) 0 = map_option int (first_ptr p (sk_list st))"
proof -
  have num: "0 \<le> st_num st" "length (sk_list st) = nat (st_num st)"
    using assms length_sk_list [OF assms] by (auto simp: sk_ok_def)
  note spec = find_ptr_spec [OF order_refl num(1), of "st_data st" p]
  show ?thesis
  proof (cases "find_ptr (st_data st) p (st_num st) 0")
    case None
    have "sk_list st ! j \<noteq> p" if j: "j < length (sk_list st)" for j
    proof -
      have "0 \<le> int j \<and> int j < st_num st" using j num by linarith
      then have "st_data st ! nat (int j) \<noteq> p" using spec unfolding None option.case by blast
      then show ?thesis using j num by (simp add: sk_list_def)
    qed
    then show ?thesis using None by (auto simp: first_ptr_def in_set_conv_nth)
  next
    case (Some f)
    have f: "0 \<le> f" "f < st_num st" "st_data st ! nat f = p" using spec Some by auto
    have "first_ptr p (sk_list st) = Some (nat f)"
    proof (rule first_ptr_eqI)
      show "nat f < length (sk_list st)" using f num by simp
      show "sk_list st ! nat f = p" using f by (simp add: sk_list_def)
      fix j assume j: "j < nat f"
      then have "0 \<le> int j \<and> int j < f" by linarith
      then have "st_data st ! nat (int j) \<noteq> p" using spec unfolding Some option.case by blast
      then show "sk_list st ! j \<noteq> p" using j f by (simp add: sk_list_def)
    qed
    then show ?thesis using Some f by simp
  qed
qed

text \<open>The path of the search in unbounded arithmetic, which the loop follows as long as nothing overflows.\<close>

function bsearch_path :: "('k \<Rightarrow> 'e \<Rightarrow> int) \<Rightarrow> 'k \<Rightarrow> 'e list \<Rightarrow> nat \<Rightarrow> nat \<Rightarrow> nat \<times> int \<Rightarrow> nat \<times> int" where
  "bsearch_path cmp key base l h ic =
     (if l < h then
        (let i = (l + h) div 2; c = cmp key (base ! i)
         in if c < 0 then bsearch_path cmp key base l i (i, c)
            else if c > 0 then bsearch_path cmp key base (i + 1) h (i, c)
            else (i, c))
      else ic)"
  by pat_completeness auto

termination by (relation "measure (\<lambda>(_, _, _, l, h, _). h - l)") auto

declare bsearch_path.simps [simp del]

lemma obj_bsearch_loop_eq:
  "2 * h \<le> INT_LIMIT \<Longrightarrow> h * sz \<le> INT_LIMIT
    \<Longrightarrow> obj_bsearch_loop sz cmp key base l h ic = Some (bsearch_path cmp key base l h ic)"
proof (induction sz cmp key base l h ic rule: obj_bsearch_loop.induct)
  case (1 sz cmp key base l h ic)
  show ?case
  proof (cases "l < h")
    case True
    let ?i = "(l + h) div 2"
    have i: "?i \<le> h" using True by simp
    then have s: "?i * sz \<le> INT_LIMIT" using "1.prems"(2) mult_le_mono1 [OF i, of sz] by linarith
    have d: "\<not> (l + h > INT_LIMIT \<or> ?i * sz > INT_LIMIT)" using s True "1.prems"(1) by simp
    have i2: "2 * ?i \<le> INT_LIMIT" using i "1.prems"(1) by linarith
    show ?thesis
      using "1.IH"(1) [OF True refl d refl _ i2 s] "1.IH"(2) [OF True refl d refl _ _ "1.prems"] True d
      by (simp add: obj_bsearch_loop.simps [of sz cmp key base l h ic] bsearch_path.simps [of cmp key base l h ic] Let_def)
  qed (simp add: obj_bsearch_loop.simps bsearch_path.simps)
qed

lemma obj_bsearch_ex_eq:
  assumes "2 * num \<le> INT_LIMIT" "num * sz \<le> INT_LIMIT"
  shows "obj_bsearch_ex key base num sz cmp flags =
     Some (if num = 0 then None
      else case bsearch_path cmp key base 0 num (0, 0) of (i, c) \<Rightarrow>
        if c \<noteq> 0 \<and> and flags OBJ_BSEARCH_VALUE_ON_NOMATCH = 0 then None
        else if c = 0 \<and> and flags OBJ_BSEARCH_FIRST_VALUE_ON_MATCH \<noteq> 0 then Some (first_match cmp key base i)
        else Some i)"
  using obj_bsearch_loop_eq [OF assms, of cmp key base 0 "(0, 0)"]
  by (auto simp: obj_bsearch_ex_def split: prod.splits)

text \<open>With pointers for elements the first offset overflows from $2^{29}$ elements on.\<close>

lemma obj_bsearch_overflows:
  assumes "2 ^ 29 \<le> num"
  shows "obj_bsearch_ex key base num sizeof_charp cmp flags = None"
proof -
  have "2 ^ 28 \<le> num div 2" "0 < num" using assms by simp_all
  then show ?thesis
    by (simp add: obj_bsearch_ex_def obj_bsearch_loop.simps [of _ _ _ _ 0] sizeof_charp_def INT_LIMIT_def)
qed

lemma bsearch_path_spec:
  assumes "h \<le> length xs" "l \<le> h"
    and mono: "\<And>i j. i < j \<Longrightarrow> j < length xs \<Longrightarrow> sgn (cmp key (xs ! j)) \<le> sgn (cmp key (xs ! i))"
    and "\<And>i. i < l \<Longrightarrow> cmp key (xs ! i) > 0" "\<And>i. h \<le> i \<Longrightarrow> i < length xs \<Longrightarrow> cmp key (xs ! i) < 0"
    and "l = h \<Longrightarrow> c0 \<noteq> 0"
    and "bsearch_path cmp key xs l h (i0, c0) = (i, c)"
  shows "if c = 0 then i < length xs \<and> cmp key (xs ! i) = 0 else \<forall>j<length xs. cmp key (xs ! j) \<noteq> 0"
  using assms(1,2,4-)
proof (induction "h - l" arbitrary: l h i0 c0 rule: less_induct)
  case less
  let ?i = "(l + h) div 2" let ?c = "cmp key (xs ! ?i)"
  consider "l = h" | "l < h" "?c = 0" | "l < h" "?c < 0" | "l < h" "?c > 0" using less.prems(2) by linarith
  then show ?case
  proof cases
    case 1
    then have "c \<noteq> 0" using less.prems(5,6) by (simp add: bsearch_path.simps [of cmp key xs h h])
    moreover have "cmp key (xs ! j) \<noteq> 0" if "j < length xs" for j
      using less.prems(3) [of j] less.prems(4) [of j] 1 that by (cases "j < l") auto
    ultimately show ?thesis by simp
  next
    case 2
    then show ?thesis using less.prems(1,6) by (auto simp: bsearch_path.simps [of cmp key xs l])
  next
    case 3
    have p: "?i < h" "l \<le> ?i" "?i < length xs" using 3 less.prems(1) by auto
    have above: "cmp key (xs ! j) < 0" if "?i \<le> j" "j < length xs" for j
    proof (cases "j = ?i")
      case False
      then have "sgn (cmp key (xs ! j)) \<le> sgn ?c" using that by (intro mono) auto
      then show ?thesis using 3 by (auto simp: sgn_if split: if_splits)
    qed (use 3 in simp)
    show ?thesis
    proof (rule less.hyps)
      show "bsearch_path cmp key xs l ?i (?i, ?c) = (i, c)"
        using 3 less.prems(6) by (simp add: bsearch_path.simps [of cmp key xs l h] Let_def)
      show "?c \<noteq> 0" using 3 by simp
    qed (use p above less.prems(3) in auto)
  next
    case 4
    have p: "?i < h" "l \<le> ?i" "?i < length xs" using 4 less.prems(1) by auto
    have below: "cmp key (xs ! j) > 0" if "j < ?i + 1" for j
    proof (cases "j = ?i")
      case False
      then have "sgn ?c \<le> sgn (cmp key (xs ! j))" using that p by (intro mono) auto
      then show ?thesis using 4 by (auto simp: sgn_if split: if_splits)
    qed (use 4 in simp)
    show ?thesis
    proof (rule less.hyps)
      show "bsearch_path cmp key xs (?i + 1) h (?i, ?c) = (i, c)"
        using 4 less.prems(6) by (simp add: bsearch_path.simps [of cmp key xs l h] Let_def)
      show "0 < cmp key (xs ! j)" if "j < ?i + 1" for j using that by (rule below)
    qed (use p 4 less.prems(1,4) in auto)
  qed
qed

lemma first_match_spec:
  "first_match cmp key xs i \<le> i \<and> (\<forall>j. first_match cmp key xs i \<le> j \<and> j < i \<longrightarrow> cmp key (xs ! j) = 0)
   \<and> (first_match cmp key xs i > 0 \<longrightarrow> cmp key (xs ! (first_match cmp key xs i - 1)) \<noteq> 0)"
proof (induction i)
  case (Suc i)
  show ?case
  proof (cases "cmp key (xs ! i) = 0")
    case True
    then show ?thesis using Suc by (auto simp: less_Suc_eq)
  qed auto
qed simp

context comparison
begin

lemma sgn_mono: "cmp x y \<le> 0 \<Longrightarrow> sgn (cmp k y) \<le> sgn (cmp k x)"
proof (rule ccontr)
  assume xy: "cmp x y \<le> 0" and "\<not> sgn (cmp k y) \<le> sgn (cmp k x)"
  then consider "cmp k x < 0" "0 \<le> cmp k y" | "cmp k x = 0" "0 < cmp k y" by (auto simp: sgn_if split: if_splits)
  then show False
  proof cases
    case 1
    then have "cmp y k \<le> 0" using flip(2) [of k y] by simp
    from trans [OF xy this] have "cmp x k \<le> 0" .
    then show False using 1 flip(1) [of k x] by simp
  next
    case 2
    then have "cmp k y \<le> 0" using trans [OF _ xy, of k] by simp
    then show False using 2 by simp
  qed
qed

lemma sorted_keyed: "cmp_sorted cmp xs \<Longrightarrow> i < j \<Longrightarrow> j < length xs \<Longrightarrow> sgn (cmp key (xs ! j)) \<le> sgn (cmp key (xs ! i))"
  by (intro sgn_mono) (auto simp: cmp_sorted_def sorted_wrt_iff_nth_less)

text \<open>On a sorted array the search with the flag of \<open>sk_find\<close> yields the first match.\<close>

lemma obj_bsearch_first:
  assumes "cmp_sorted cmp xs" "2 * length xs \<le> INT_LIMIT" "length xs * sz \<le> INT_LIMIT"
  shows "case obj_bsearch_ex key xs (length xs) sz cmp OBJ_BSEARCH_FIRST_VALUE_ON_MATCH of
      None \<Rightarrow> False
    | Some None \<Rightarrow> (\<forall>x\<in>set xs. cmp key x \<noteq> 0)
    | Some (Some i) \<Rightarrow> i < length xs \<and> cmp key (xs ! i) = 0 \<and> (\<forall>j<i. cmp key (xs ! j) \<noteq> 0)"
proof (cases "xs = []")
  case True
  then show ?thesis by (simp add: obj_bsearch_ex_def)
next
  case False
  obtain i c where l: "bsearch_path cmp key xs 0 (length xs) (0, 0) = (i, c)" by fastforce
  have spec: "if c = 0 then i < length xs \<and> cmp key (xs ! i) = 0 else \<forall>j<length xs. cmp key (xs ! j) \<noteq> 0"
    by (rule bsearch_path_spec [OF _ _ sorted_keyed [OF assms(1)] _ _ _ l]) (use False in auto)
  show ?thesis
  proof (cases "c = 0")
    case True
    let ?f = "first_match cmp key xs i"
    note f = first_match_spec [of cmp key xs i]
    have "cmp key (xs ! ?f) = 0" using f spec True by (cases "?f = i") auto
    moreover have "cmp key (xs ! j) \<noteq> 0" if j: "j < ?f" for j
    proof
      assume z: "cmp key (xs ! j) = 0"
      have "cmp key (xs ! (?f - 1)) \<noteq> 0" using f j by auto
      then have "j < ?f - 1" using z j by (cases "j = ?f - 1") auto
      moreover have "?f < length xs" using f spec True by auto
      ultimately have "sgn (cmp key (xs ! (?f - 1))) \<le> 0" "0 \<le> sgn (cmp key (xs ! (?f - 1)))"
        using sorted_keyed [OF assms(1), of j "?f - 1" key] sorted_keyed [OF assms(1), of "?f - 1" ?f key] z \<open>cmp key (xs ! ?f) = 0\<close> by auto
      then show False using \<open>cmp key (xs ! (?f - 1)) \<noteq> 0\<close> by (auto simp: sgn_if split: if_splits)
    qed
    ultimately show ?thesis
      using True False l f spec by (auto simp: obj_bsearch_ex_eq [OF assms(2,3)] OBJ_BSEARCH_FIRST_VALUE_ON_MATCH_def)
  next
    case c: False
    then show ?thesis using False l spec
      by (auto simp: obj_bsearch_ex_eq [OF assms(2,3)] OBJ_BSEARCH_FIRST_VALUE_ON_MATCH_def OBJ_BSEARCH_VALUE_ON_NOMATCH_def in_set_conv_nth)
  qed
qed

end

lemma bsearch_path_take:
  "h \<le> n \<Longrightarrow> n \<le> length xs \<Longrightarrow> bsearch_path cmp key (take n xs) l h ic = bsearch_path cmp key xs l h ic"
proof (induction cmp key xs l h ic rule: bsearch_path.induct)
  case (1 cmp key xs l h ic)
  show ?case
  proof (cases "l < h")
    case True
    then have "take n xs ! ((l + h) div 2) = xs ! ((l + h) div 2)" using "1.prems" by simp
    then show ?thesis
      using "1.IH" [OF True refl refl] "1.prems" True
      by (simp add: bsearch_path.simps [of cmp key xs l h ic] bsearch_path.simps [of cmp key "take n xs" l h ic] Let_def)
  qed (simp add: bsearch_path.simps)
qed

lemma bsearch_path_less:
  "bsearch_path cmp key xs l h (i0, c0) = (i, c) \<Longrightarrow> l < h \<Longrightarrow> i < h"
proof (induction cmp key xs l h "(i0, c0)" arbitrary: i0 c0 rule: bsearch_path.induct)
  case (1 cmp key xs l h i0 c0)
  let ?m = "(l + h) div 2" let ?c = "cmp key (xs ! ?m)"
  have m: "?m < h" "l \<le> ?m" using "1.prems" by auto
  consider "?c = 0" | "?c < 0" | "?c > 0" by linarith
  then show ?case
  proof cases
    case 1
    then show ?thesis using "1.prems" m by (simp add: bsearch_path.simps [of cmp key xs l h] Let_def)
  next
    case 2
    then have r: "bsearch_path cmp key xs l ?m (?m, ?c) = (i, c)"
      using "1.prems" by (simp add: bsearch_path.simps [of cmp key xs l h] Let_def)
    show ?thesis
    proof (cases "l < ?m")
      case True
      then show ?thesis using "1.hyps"(1) [OF \<open>l < h\<close> refl refl 2 r True] m by linarith
    next
      case False
      then show ?thesis using r m by (simp add: bsearch_path.simps [of cmp key xs l])
    qed
  next
    case 3
    then have r: "bsearch_path cmp key xs (?m + 1) h (?m, ?c) = (i, c)"
      using "1.prems" by (simp add: bsearch_path.simps [of cmp key xs l h] Let_def)
    have n: "\<not> ?c < 0" using 3 by simp
    show ?thesis
    proof (cases "?m + 1 < h")
      case True
      then show ?thesis using "1.hyps"(2) [OF \<open>l < h\<close> refl refl n 3 r True] by simp
    next
      case False
      then show ?thesis using r m by (simp add: bsearch_path.simps [of cmp key xs "Suc ?m" h])
    qed
  qed
qed

lemma first_match_take: "i \<le> n \<Longrightarrow> n \<le> length xs \<Longrightarrow> first_match cmp key (take n xs) i = first_match cmp key xs i"
  by (induction i) auto

lemma obj_bsearch_ex_take:
  assumes "n \<le> length xs" "2 * n \<le> INT_LIMIT" "n * sz \<le> INT_LIMIT"
  shows "obj_bsearch_ex key xs n sz cmp flags = obj_bsearch_ex key (take n xs) n sz cmp flags"
proof (cases "n = 0")
  case False
  obtain i c where l: "bsearch_path cmp key xs 0 n (0, 0) = (i, c)" by fastforce
  then have "i \<le> n" using bsearch_path_less [OF l] False by simp
  then show ?thesis using l assms(1) by (simp add: obj_bsearch_ex_eq [OF assms(2,3)] bsearch_path_take first_match_take)
qed (simp add: obj_bsearch_ex_def)

lemma sk_sort_ok:
  assumes "sk_ok call k st" "st_comp st = Some c" "comparison (call c)"
  obtains st' where "sk_sort call alloc (Some st) = Some (Some st')" "sk_ok call k st'" "st_comp st' = Some c"
    "st_num st' = st_num st" "mset (sk_list st') = mset (sk_list st)" "cmp_sorted (call c) (sk_list st')"
proof (cases "st_sorted st")
  case True
  then show thesis using assms by (intro that [of st]) (auto simp: sk_ok_def)
next
  case False
  let ?n = "nat (st_num st)"
  let ?xs = "qsort alloc (take ?n (st_data st)) sizeof_charp (call c)"
  let ?st = "st\<lparr>st_data := ?xs @ drop ?n (st_data st), st_sorted := True\<rparr>"
  have s: "cmp_sorted (call c) ?xs" "mset ?xs = mset (take ?n (st_data st))"
    using comparison.introsort_spec [OF assms(3)] by (auto simp: qsort_def)
  have "length ?xs = length (take ?n (st_data st))" using s(2) by (metis size_mset)
  then have len: "length ?xs = ?n" using assms(1) by (simp add: sk_ok_def)
  have l: "sk_list ?st = ?xs" using len by (simp add: sk_list_def)
  show thesis
  proof (rule that [of ?st])
    show "sk_sort call alloc (Some st) = Some (Some ?st)" using False assms(2) by (simp add: Let_def)
    show "sk_ok call k ?st" using assms(1,2) l s len by (auto simp: sk_ok_def)
    show "mset (sk_list ?st) = mset (sk_list st)" using l s(2) by (simp add: sk_list_def)
    show "cmp_sorted (call c) (sk_list ?st)" using l s(1) by simp
  qed (use assms(2) in simp_all)
qed

section \<open>Sequences of calls\<close>

text \<open>
  A call on a stack that is not NULL, with the allocator it meets and the contents of
  fresh memory.  \<open>Dup\<close> goes on with the copy.
\<close>

type_synonym 'a mem_env = "(nat \<Rightarrow> bool) \<times> 'a ptr"

datatype ('a, 'c) sk_op =
    Insert "'a mem_env" "'a ptr" int | Push "'a mem_env" "'a ptr" | Unshift "'a mem_env" "'a ptr"
  | Delete int | Delete_Ptr "'a ptr" | Pop | Shift | Zero | Num | Value int | Set int "'a ptr"
  | Sort "'a mem_env" | Find "'a mem_env" "'a ptr" | Is_Sorted | Set_Cmp "'c option" | Dup "'a mem_env"

datatype ('a, 'c) sk_res = RInt int | RPtr "'a ptr" | RFlag bool | RFun "'c option" | RVoid | RCrash

definition some_or :: "'s \<Rightarrow> 's option \<Rightarrow> 's" where
  "some_or d x = (case x of None \<Rightarrow> d | Some y \<Rightarrow> y)"

fun sk_step :: "('c \<Rightarrow> 'a ptr \<Rightarrow> 'a ptr \<Rightarrow> int) \<Rightarrow> ('a, 'c) sk_op \<Rightarrow> ('a, 'c) stack \<Rightarrow> ('a, 'c) sk_res \<times> ('a, 'c) stack" where
  "sk_step call (Insert m p loc) st = (case sk_insert (fst m) (snd m) (Some st) p loc of (r, s) \<Rightarrow> (RInt r, some_or st s))"
| "sk_step call (Push m p) st = (case sk_push (fst m) (snd m) st p of (r, s) \<Rightarrow> (RInt r, some_or st s))"
| "sk_step call (Unshift m p) st = (case sk_unshift (fst m) (snd m) (Some st) p of (r, s) \<Rightarrow> (RInt r, some_or st s))"
| "sk_step call (Delete i) st = (case sk_delete (Some st) i of (r, s) \<Rightarrow> (RPtr r, some_or st s))"
| "sk_step call (Delete_Ptr p) st = (case sk_delete_ptr st p of (r, s) \<Rightarrow> (RPtr r, s))"
| "sk_step call Pop st = (case sk_pop (Some st) of (r, s) \<Rightarrow> (RPtr r, some_or st s))"
| "sk_step call Shift st = (case sk_shift (Some st) of (r, s) \<Rightarrow> (RPtr r, some_or st s))"
| "sk_step call Zero st = (RVoid, some_or st (sk_zero (Some st)))"
| "sk_step call Num st = (RInt (sk_num (Some st)), st)"
| "sk_step call (Value i) st = (RPtr (sk_value (Some st) i), st)"
| "sk_step call (Set i v) st = (case sk_set (Some st) i v of (r, s) \<Rightarrow> (RPtr r, some_or st s))"
| "sk_step call (Sort m) st = (case sk_sort call (fst m) (Some st) of None \<Rightarrow> (RCrash, st) | Some s \<Rightarrow> (RVoid, some_or st s))"
| "sk_step call (Find m p) st = (case sk_find call (fst m) (Some st) p of None \<Rightarrow> (RCrash, st) | Some (r, s) \<Rightarrow> (RInt r, some_or st s))"
| "sk_step call Is_Sorted st = (RFlag (sk_is_sorted (Some st)), st)"
| "sk_step call (Set_Cmp c) st = (case sk_set_cmp_func st c of (r, s) \<Rightarrow> (RFun r, s))"
| "sk_step call (Dup m) st = (case sk_dup (fst m) (snd m) st of None \<Rightarrow> (RFlag False, st) | Some s \<Rightarrow> (RFlag True, s))"

text \<open>
  The specification: a list and the comparison function.  Only an allocator that
  refuses a request makes an insertion fail, and then nothing changes.
\<close>

definition spec_insert :: "'a mem_env \<Rightarrow> 'a ptr \<Rightarrow> int \<Rightarrow> 'a ptr list \<Rightarrow> ('a, 'c) sk_res \<Rightarrow> 'a ptr list \<Rightarrow> bool" where
  "spec_insert m p loc xs r xs' \<longleftrightarrow>
     (\<exists>n. \<not> fst m n) \<and> r = RInt 0 \<and> xs' = xs \<or>
     r = RInt (int (length xs) + 1) \<and>
     xs' = insert_at (if loc \<ge> int (length xs) \<or> loc < 0 then length xs else nat loc) p xs"

definition spec_delete :: "int \<Rightarrow> 'a ptr list \<Rightarrow> ('a, 'c) sk_res \<Rightarrow> 'a ptr list \<Rightarrow> bool" where
  "spec_delete i xs r xs' \<longleftrightarrow>
     (if 0 \<le> i \<and> i < int (length xs) then r = RPtr (xs ! nat i) \<and> xs' = remove_at (nat i) xs
      else r = RPtr None \<and> xs' = xs)"

fun sk_spec :: "('c \<Rightarrow> 'a ptr \<Rightarrow> 'a ptr \<Rightarrow> int) \<Rightarrow> ('a, 'c) sk_op \<Rightarrow> 'a ptr list \<times> 'c option \<Rightarrow> ('a, 'c) sk_res
    \<Rightarrow> 'a ptr list \<times> 'c option \<Rightarrow> bool" where
  "sk_spec call (Insert m p loc) (xs, c) r (xs', c') \<longleftrightarrow> spec_insert m p loc xs r xs' \<and> c' = c"
| "sk_spec call (Push m p) (xs, c) r (xs', c') \<longleftrightarrow> spec_insert m p (int (length xs)) xs r xs' \<and> c' = c"
| "sk_spec call (Unshift m p) (xs, c) r (xs', c') \<longleftrightarrow> spec_insert m p 0 xs r xs' \<and> c' = c"
| "sk_spec call (Delete i) (xs, c) r (xs', c') \<longleftrightarrow> spec_delete i xs r xs' \<and> c' = c"
| "sk_spec call (Delete_Ptr p) (xs, c) r (xs', c') \<longleftrightarrow>
     (case first_ptr p xs of None \<Rightarrow> r = RPtr None \<and> xs' = xs | Some i \<Rightarrow> r = RPtr p \<and> xs' = remove_at i xs) \<and> c' = c"
| "sk_spec call Pop (xs, c) r (xs', c') \<longleftrightarrow> spec_delete (int (length xs) - 1) xs r xs' \<and> c' = c"
| "sk_spec call Shift (xs, c) r (xs', c') \<longleftrightarrow> spec_delete 0 xs r xs' \<and> c' = c"
| "sk_spec call Zero (xs, c) r (xs', c') \<longleftrightarrow> r = RVoid \<and> xs' = [] \<and> c' = c"
| "sk_spec call Num (xs, c) r (xs', c') \<longleftrightarrow> r = RInt (int (length xs)) \<and> xs' = xs \<and> c' = c"
| "sk_spec call (Value i) (xs, c) r (xs', c') \<longleftrightarrow>
     r = RPtr (if 0 \<le> i \<and> i < int (length xs) then xs ! nat i else None) \<and> xs' = xs \<and> c' = c"
| "sk_spec call (Set i v) (xs, c) r (xs', c') \<longleftrightarrow>
     (if 0 \<le> i \<and> i < int (length xs) then r = RPtr v \<and> xs' = xs[nat i := v] else r = RPtr None \<and> xs' = xs) \<and> c' = c"
| "sk_spec call (Sort m) (xs, c) r (xs', c') \<longleftrightarrow>
     (case c of
        None \<Rightarrow> xs' = xs \<and> r = (if length xs \<le> 1 then RVoid else RCrash)
      | Some f \<Rightarrow> r = RVoid \<and> mset xs' = mset xs \<and> cmp_sorted (call f) xs') \<and> c' = c"
| "sk_spec call (Find m p) (xs, c) r (xs', c') \<longleftrightarrow>
     (case c of
        None \<Rightarrow> xs' = xs \<and> r = RInt (case first_ptr p xs of None \<Rightarrow> -1 | Some i \<Rightarrow> int i)
      | Some f \<Rightarrow> mset xs' = mset xs \<and> cmp_sorted (call f) xs' \<and>
          (if p = None \<or> (\<forall>x\<in>set xs. call f p x \<noteq> 0) then r = RInt (-1)
           else \<exists>i<length xs. r = RInt (int i) \<and> call f p (xs' ! i) = 0 \<and> (\<forall>j<i. call f p (xs' ! j) \<noteq> 0))) \<and> c' = c"
| "sk_spec call Is_Sorted (xs, c) r (xs', c') \<longleftrightarrow>
     (\<exists>b. r = RFlag b \<and> (b \<longrightarrow> length xs \<le> 1 \<or> (\<exists>f. c = Some f \<and> cmp_sorted (call f) xs))) \<and> xs' = xs \<and> c' = c"
| "sk_spec call (Set_Cmp f) (xs, c) r (xs', c') \<longleftrightarrow> r = RFun c \<and> xs' = xs \<and> c' = f"
| "sk_spec call (Dup m) (xs, c) r (xs', c') \<longleftrightarrow> (r = RFlag True \<or> r = RFlag False \<and> (\<exists>n. \<not> fst m n)) \<and> xs' = xs \<and> c' = c"

definition sk_abs :: "('a, 'c) stack \<Rightarrow> 'a ptr list \<times> 'c option" where
  "sk_abs st = (sk_list st, st_comp st)"

lemma insert_sim:
  assumes "sk_ok call k st" "k < 2 ^ 29" "sk_insert (fst m) (snd m) (Some st) p loc = (r, s)"
  shows "sk_ok call (Suc k) (some_or st s) \<and> spec_insert m p loc (sk_list st) (RInt r) (sk_list (some_or st s))
    \<and> st_comp (some_or st s) = st_comp st"
proof -
  obtain st' where s: "s = Some st'" "st_comp st' = st_comp st" "sk_ok call (Suc k) st'"
    "(\<exists>n. \<not> fst m n) \<and> r = 0 \<and> sk_list st' = sk_list st \<or>
     r = int (length (sk_list st)) + 1 \<and>
     sk_list st' = insert_at (if loc \<ge> int (length (sk_list st)) \<or> loc < 0 then length (sk_list st) else nat loc) p (sk_list st)"
    using sk_insert_ok [OF assms] .
  have e: "some_or st s = st'" by (simp add: s(1) some_or_def)
  show ?thesis unfolding e spec_insert_def using s(2-4) by blast
qed

lemma delete_sim:
  assumes "sk_ok call k st" "sk_delete (Some st) i = (r, s)"
  shows "sk_ok call k (some_or st s) \<and> spec_delete i (sk_list st) (RPtr r) (sk_list (some_or st s))
    \<and> st_comp (some_or st s) = st_comp st"
proof (cases "0 \<le> i \<and> i < st_num st")
  case True
  then obtain st' where "s = Some st'" "st_comp st' = st_comp st" "sk_ok call k st'"
    "r = sk_list st ! nat i" "sk_list st' = remove_at (nat i) (sk_list st)"
    using sk_delete_ok [OF assms(1) _ _ assms(2)] by metis
  then show ?thesis using True length_sk_list [OF assms(1)] by (simp add: some_or_def spec_delete_def)
next
  case False
  then have "s = Some st" "r = None" using assms(2) by (auto split: if_splits)
  then show ?thesis using False assms(1) length_sk_list [OF assms(1)] by (auto simp: some_or_def spec_delete_def)
qed

lemma delete_ptr_sim:
  assumes "sk_ok call k st" "sk_delete_ptr st p = (r, s)"
  shows "sk_ok call k s \<and> st_comp s = st_comp st \<and>
    (case first_ptr p (sk_list st) of None \<Rightarrow> r = None \<and> sk_list s = sk_list st
     | Some i \<Rightarrow> r = p \<and> sk_list s = remove_at i (sk_list st))"
proof (cases "first_ptr p (sk_list st)")
  case None
  then show ?thesis using assms by (simp add: sk_delete_ptr_def find_ptr_eq [OF assms(1)])
next
  case (Some i)
  let ?w = "takeWhile (\<lambda>x. x \<noteq> p) (sk_list st)"
  have w: "p \<in> set (sk_list st)" "i = length ?w" using Some by (auto simp: first_ptr_def split: if_splits)
  then have "?w \<noteq> sk_list st" by (auto simp: takeWhile_eq_all_conv)
  then have i: "i < length (sk_list st)" using w(2) length_takeWhile_le [of "\<lambda>x. x \<noteq> p" "sk_list st"]
    by (metis le_neq_implies_less append_eq_conv_conj takeWhile_dropWhile_id length_take take_all_iff)
  have "sk_list st ! i = p" using nth_length_takeWhile [of "\<lambda>x. x \<noteq> p" "sk_list st"] i w(2) by simp
  note i = i this
  obtain d s1 where d: "sk_delete (Some st) (int i) = (d, s1)" by fastforce
  have "int i < st_num st" using i(1) length_sk_list [OF assms(1)] by linarith
  then obtain st' where "s1 = Some st'" "st_comp st' = st_comp st" "sk_ok call k st'"
    "d = sk_list st ! nat (int i)" "sk_list st' = remove_at (nat (int i)) (sk_list st)"
    using sk_delete_ok [OF assms(1) _ _ d] by (metis of_nat_0_le_iff)
  with Some i d assms(2) show ?thesis by (simp add: sk_delete_ptr_def find_ptr_eq [OF assms(1)] del: sk_delete.simps)
qed

lemma sort_sim:
  assumes "sk_ok call k st" "\<And>c. comparison (call c)" "sk_step call (Sort m) st = (r, s)"
  shows "sk_ok call k s \<and> sk_spec call (Sort m) (sk_abs st) r (sk_abs s)"
proof (cases "st_comp st")
  case None
  have n: "length (sk_list st) \<le> 1 \<longleftrightarrow> st_num st \<le> 1" using length_sk_list [OF assms(1)] by linarith
  have "st_sorted st \<longrightarrow> st_num st \<le> 1" using assms(1) None by (auto simp: sk_ok_def)
  with n None assms(1,3) show ?thesis
    by (auto simp: sk_abs_def some_or_def sk_ok_def sk_list_def Let_def split: if_splits)
next
  case (Some c)
  obtain st' where "sk_sort call (fst m) (Some st) = Some (Some st')" "sk_ok call k st'" "st_comp st' = Some c"
    "st_num st' = st_num st" "mset (sk_list st') = mset (sk_list st)" "cmp_sorted (call c) (sk_list st')"
    using sk_sort_ok [OF assms(1) Some assms(2)] .
  with Some assms(3) show ?thesis by (auto simp: sk_abs_def some_or_def simp del: sk_sort.simps)
qed

lemma find_sim:
  assumes "sk_ok call k st" "\<And>c. comparison (call c)" "sk_step call (Find m p) st = (r, s)" "k < 2 ^ 28"
  shows "sk_ok call k s \<and> sk_spec call (Find m p) (sk_abs st) r (sk_abs s)"
proof (cases "st_comp st")
  case None
  then show ?thesis using assms(1,3)
    by (auto simp: sk_abs_def sk_find_def some_or_def find_ptr_eq [OF assms(1)] split: option.splits)
next
  case (Some c)
  obtain st' where st': "sk_sort call (fst m) (Some st) = Some (Some st')" "sk_ok call k st'" "st_comp st' = Some c"
    "st_num st' = st_num st" "mset (sk_list st') = mset (sk_list st)" "cmp_sorted (call c) (sk_list st')"
    using sk_sort_ok [OF assms(1) Some assms(2)] .
  have eq: "set (sk_list st') = set (sk_list st)" "length (sk_list st') = length (sk_list st)"
    using st'(5) by (metis set_mset_mset, metis size_mset)
  have n: "nat (st_num st') \<le> length (st_data st')" "length (sk_list st') = nat (st_num st')"
    using st'(2) length_sk_list [OF st'(2)] by (auto simp: sk_ok_def)
  have lim: "2 * nat (st_num st') \<le> INT_LIMIT" "nat (st_num st') * sizeof_charp \<le> INT_LIMIT"
    using st'(2) assms(4) by (auto simp: sk_ok_def INT_LIMIT_def sizeof_charp_def)
  define g where "g = obj_bsearch_ex p (st_data st') (nat (st_num st')) sizeof_charp (call c) OBJ_BSEARCH_FIRST_VALUE_ON_MATCH"
  have "g = obj_bsearch_ex p (sk_list st') (length (sk_list st')) sizeof_charp (call c) OBJ_BSEARCH_FIRST_VALUE_ON_MATCH"
    using n by (simp add: g_def sk_list_def obj_bsearch_ex_take [OF n(1) lim])
  then have "case g of None \<Rightarrow> False | Some None \<Rightarrow> (\<forall>x\<in>set (sk_list st'). call c p x \<noteq> 0)
    | Some (Some i) \<Rightarrow> i < length (sk_list st') \<and> call c p (sk_list st' ! i) = 0 \<and> (\<forall>j<i. call c p (sk_list st' ! j) \<noteq> 0)"
    using comparison.obj_bsearch_first [OF assms(2) st'(6), where sz = sizeof_charp and key = p] lim n(2) by simp
  then obtain f where g: "g = Some f" and spec: "case f of None \<Rightarrow> (\<forall>x\<in>set (sk_list st'). call c p x \<noteq> 0)
    | Some i \<Rightarrow> i < length (sk_list st') \<and> call c p (sk_list st' ! i) = 0 \<and> (\<forall>j<i. call c p (sk_list st' ! j) \<noteq> 0)"
    by (cases g) auto
  have out: "s = st'" "r = RInt (if p = None then -1 else case f of None \<Rightarrow> -1 | Some i \<Rightarrow> int i)"
    using assms(3) Some st'(1) g by (auto simp: sk_find_def some_or_def g_def simp del: sk_sort.simps split: option.splits if_splits)
  show ?thesis
  proof (cases f)
    case None
    then show ?thesis using spec out Some st' eq by (simp add: sk_abs_def)
  next
    case (Some i)
    then have i: "i < length (sk_list st')" "call c p (sk_list st' ! i) = 0" "\<forall>j<i. call c p (sk_list st' ! j) \<noteq> 0"
      using spec by auto
    then have "sk_list st' ! i \<in> set (sk_list st)" using eq by (metis nth_mem)
    with i(2) have m: "\<not> (\<forall>x\<in>set (sk_list st). call c p x \<noteq> 0)" by blast
    show ?thesis using out Some \<open>st_comp st = Some c\<close> st' eq i m by (auto simp: sk_abs_def)
  qed
qed

lemma set_sim:
  assumes "sk_ok call k st" "sk_step call (Set i v) st = (r, s)"
  shows "sk_ok call k s \<and> sk_spec call (Set i v) (sk_abs st) r (sk_abs s)"
  using assms length_sk_list [OF assms(1)]
  by (auto simp: sk_abs_def some_or_def sk_ok_def sk_list_def take_update_swap split: if_splits)

lemma zero_sim:
  assumes "sk_ok call k st" "sk_step call Zero st = (r, s)"
  shows "sk_ok call k s \<and> sk_spec call Zero (sk_abs st) r (sk_abs s)"
  using assms
  by (auto simp: sk_abs_def some_or_def sk_ok_def sk_list_def cmp_sorted_def split: if_splits option.splits)

lemma set_cmp_sim:
  assumes "sk_ok call k st" "sk_step call (Set_Cmp c) st = (r, s)"
  shows "sk_ok call k s \<and> sk_spec call (Set_Cmp c) (sk_abs st) r (sk_abs s)"
proof (cases "st_comp st = c")
  case True
  then show ?thesis using assms by (auto simp: sk_abs_def sk_set_cmp_func_def)
next
  case False
  then show ?thesis using assms by (auto simp: sk_abs_def sk_set_cmp_func_def Let_def sk_ok_def sk_list_def)
qed

lemma is_sorted_sound:
  assumes "sk_ok call k st" "sk_is_sorted (Some st)"
  shows "length (sk_list st) \<le> 1 \<or> (\<exists>f. st_comp st = Some f \<and> cmp_sorted (call f) (sk_list st))"
proof (cases "st_sorted st \<and> 1 < st_num st")
  case True
  then show ?thesis using assms(1) by (cases "st_comp st") (auto simp: sk_ok_def)
next
  case False
  then have "st_num st \<le> 1" using assms(2) by (auto split: if_splits)
  then show ?thesis using length_sk_list [OF assms(1)] by linarith
qed

lemma sk_new_ok:
  assumes "sk_new alloc c = Some st"
  shows "sk_ok call 0 st \<and> sk_abs st = ([], c)"
  using assms
  by (auto simp: sk_new_def realloc_pointers_def Let_def sk_ok_def sk_abs_def sk_list_def MIN_STACK_NODES_def
      split: if_splits option.splits)

lemma dup_sim:
  fixes st :: "('a, 'c) stack"
  assumes "sk_ok call k st" "k < 2 ^ 29" "sk_step call (Dup m) st = (r, s)"
  shows "sk_ok call k s \<and> sk_spec call (Dup m) (sk_abs st) r (sk_abs s)"
proof (cases "sk_new (fst m) (st_comp st) :: ('a, 'c) stack option")
  case None
  then have "\<exists>n. \<not> fst m n"
    by (auto simp: sk_new_def MIN_STACK_NODES_def realloc_pointers_def mul_overflows_def MUL_NO_OVERFLOW_def
        sizeof_charp_def Let_def split: if_splits option.splits)
  then show ?thesis using assms(1,3) None by (auto simp: sk_dup_def sk_abs_def)
next
  case (Some ret)
  have a: "0 \<le> st_num_alloc st" "st_num_alloc st < 2 ^ 32" "nat (st_num st) < nat (st_num_alloc st)" "4 \<le> nat (st_num_alloc st)"
    "length (st_data st) = nat (st_num_alloc st)"
    using assms(1,2) by (auto simp: sk_ok_def)
  have ret: "length (st_data ret) = 4"
    using Some by (auto simp: sk_new_def MIN_STACK_NODES_def realloc_pointers_def Let_def split: if_splits option.splits)
  obtain q where q: "realloc_pointers (fst m) (snd m) (st_data ret) (st_num_alloc st) 1 = q" by blast
  have "(q = None \<and> \<not> fst m (1 * sizeof_charp * nat (st_num_alloc st))) \<or>
     q = Some (st_data ret @ replicate (1 * nat (st_num_alloc st) - length (st_data ret)) (snd m))"
    by (rule realloc_pointers_cases [OF q a(1,2)]) (use a ret in auto)
  then show ?thesis
  proof
    assume "q = None \<and> \<not> fst m (1 * sizeof_charp * nat (st_num_alloc st))"
    then show ?thesis using assms(1,3) Some q by (auto simp: sk_dup_def sk_abs_def)
  next
    assume q': "q = Some (st_data ret @ replicate (1 * nat (st_num_alloc st) - length (st_data ret)) (snd m))"
    let ?d = "write_at (st_data ret @ replicate (1 * nat (st_num_alloc st) - length (st_data ret)) (snd m)) 0
      (take (nat (st_num st)) (st_data st))"
    have l1: "take (nat (st_num st)) ?d = take (nat (st_num st)) (st_data st)"
      using a by (auto simp: write_at_def min_def)
    have l2: "length ?d = nat (st_num_alloc st)" using a ret by (subst length_write_at) auto
    have "s = ret\<lparr>st_num := st_num st, st_data := ?d, st_sorted := st_sorted st, st_num_alloc := st_num_alloc st, st_comp := st_comp st\<rparr>"
      "r = RFlag True"
      using assms(3) Some q q' by (auto simp: sk_dup_def)
    with l1 l2 assms(1) show ?thesis by (cases "st_comp st") (simp_all add: sk_abs_def sk_ok_def sk_list_def)
  qed
qed

text \<open>Every call keeps the invariant and does what the specification says.\<close>

interpretation sk: simulation "\<lambda>k st. sk_ok call k st \<and> (\<forall>c. comparison (call c))" "2 ^ 28" sk_abs "sk_step call" "sk_spec call"
  for call :: "'c \<Rightarrow> 'a ptr \<Rightarrow> 'a ptr \<Rightarrow> int"
proof
  fix k :: nat and st s :: "('a, 'c) stack" and x r
  assume inv: "sk_ok call k st \<and> (\<forall>c. comparison (call c))" and k: "k < 2 ^ 28" and x: "sk_step call x st = (r, s)"
  then have ok: "sk_ok call k st" and cmp: "\<And>c. comparison (call c)" by auto
  have k': "k < 2 ^ 29" using k by simp
  have len: "int (length (sk_list st)) = st_num st" by (rule length_sk_list [OF ok])
  have "(sk_ok call (Suc k) s \<or> sk_ok call k s) \<and> sk_spec call x (sk_abs st) r (sk_abs s)"
  proof (cases x)
    case (Insert m p loc)
    then show ?thesis using x insert_sim [OF ok k', of m p loc] by (auto simp: sk_abs_def simp del: sk_insert.simps split: prod.splits)
  next
    case (Push m p)
    then show ?thesis using x insert_sim [OF ok k', of m p "st_num st"] len
      by (auto simp: sk_abs_def sk_push_def simp del: sk_insert.simps split: prod.splits)
  next
    case (Unshift m p)
    then show ?thesis using x insert_sim [OF ok k', of m p 0]
      by (auto simp: sk_abs_def sk_unshift_def simp del: sk_insert.simps split: prod.splits)
  next
    case (Delete i)
    then show ?thesis using x delete_sim [OF ok, of i] by (auto simp: sk_abs_def simp del: sk_delete.simps split: prod.splits)
  next
    case (Delete_Ptr p)
    then show ?thesis using x delete_ptr_sim [OF ok, of p] by (auto simp: sk_abs_def split: prod.splits option.splits)
  next
    case Pop
    show ?thesis
    proof (cases "st_num st \<le> 0")
      case True
      then show ?thesis using x Pop ok len by (auto simp: sk_abs_def some_or_def spec_delete_def)
    next
      case False
      then show ?thesis using x Pop delete_sim [OF ok, of "st_num st - 1"] len
        by (auto simp: sk_abs_def simp del: sk_delete.simps split: prod.splits)
    qed
  next
    case Shift
    show ?thesis
    proof (cases "st_num st \<le> 0")
      case True
      then show ?thesis using x Shift ok len by (auto simp: sk_abs_def some_or_def spec_delete_def)
    next
      case False
      then show ?thesis using x Shift delete_sim [OF ok, of 0] len
        by (auto simp: sk_abs_def simp del: sk_delete.simps split: prod.splits)
    qed
  next
    case Zero
    then show ?thesis using zero_sim [OF ok] x by blast
  next
    case Num
    then show ?thesis using x ok len by (auto simp: sk_abs_def)
  next
    case (Value i)
    then show ?thesis using x ok len by (auto simp: sk_abs_def sk_list_def)
  next
    case (Set i v)
    then show ?thesis using set_sim [OF ok] x by blast
  next
    case (Sort m)
    then show ?thesis using sort_sim [OF ok cmp] x by blast
  next
    case (Find m p)
    then show ?thesis using find_sim [OF ok cmp _ k] x by blast
  next
    case Is_Sorted
    then show ?thesis using x ok is_sorted_sound [OF ok] by (auto simp: sk_abs_def simp del: sk_is_sorted.simps)
  next
    case (Set_Cmp c)
    then show ?thesis using set_cmp_sim [OF ok] x by blast
  next
    case (Dup m)
    then show ?thesis using dup_sim [OF ok k'] x by blast
  qed
  moreover have "sk_ok call (Suc k) s" using calculation sk_ok_mono [of call k s "Suc k"] by auto
  ultimately show "(sk_ok call (Suc k) s \<and> (\<forall>c. comparison (call c))) \<and> sk_spec call x (sk_abs st) r (sk_abs s)"
    using inv by blast
qed

text \<open>
  C28.  A stack is a list with a comparison function: for every sequence of fewer than
  $2^{28}$ calls on a new stack, each result and the final contents are what the
  specification allows - insertions and deletions at their place, also with
  positions out of range; searching returns the first match in sorted order, or -1
  exactly if there is none; \<open>sk_is_sorted\<close> never claims an order that is not there;
  a failing allocation leaves the stack as it was; no call computes a counter or an
  offset outside the range of \<open>int\<close>, and the only one that can fail is sorting
  without a comparison function.  The bound is that of the search, which multiplies
  an index by the size of a pointer in \<open>int\<close>: see \<open>obj_bsearch_overflows\<close>.
\<close>

theorem stack_refines_list:
  assumes "\<And>c. comparison (call c)" "sk_new alloc c = Some st" "length ops < 2 ^ 28"
    "run_ops (sk_step call) ops st = (rs, st')"
  shows "spec_run (sk_spec call) ops ([], c) rs (sk_list st', st_comp st')
    \<and> 0 \<le> st_num st' \<and> st_num st' < st_num_alloc st' \<and> st_num_alloc st' < 2 ^ 31"
proof -
  note new = sk_new_ok [OF assms(2)]
  have "(sk_ok call (0 + length ops) st' \<and> (\<forall>c. comparison (call c))) \<and> spec_run (sk_spec call) ops (sk_abs st) rs (sk_abs st')"
    by (rule sk.run) (use new assms in auto)
  then show ?thesis using new assms(3) by (simp add: sk_abs_def sk_ok_def)
qed

definition ptr_cmp :: "unit \<Rightarrow> nat ptr \<Rightarrow> nat ptr \<Rightarrow> int" where
  "ptr_cmp c p q = (case p of None \<Rightarrow> 0 | Some x \<Rightarrow> int x + 1) - (case q of None \<Rightarrow> 0 | Some x \<Rightarrow> int x + 1)"

definition plenty :: "nat mem_env" where "plenty = (\<lambda>n. True, None)"

definition ex_ops :: "(nat, unit) sk_op list" where
  "ex_ops = [Push plenty (Some 7), Push plenty (Some 3), Unshift plenty (Some 5), Pop, Find plenty (Some 7), Is_Sorted, Num]"

definition ex_stack :: "(nat, unit) stack" where
  "ex_stack = \<lparr>st_num = 0, st_data = replicate 4 None, st_sorted = False, st_num_alloc = 4, st_comp = Some ()\<rparr>"

definition ex_run :: "(nat, unit) sk_res list \<times> (nat, unit) stack" where
  "ex_run = run_ops (sk_step ptr_cmp) ex_ops ex_stack"

lemma ptr_cmp_comparison: "comparison (ptr_cmp c)"
  by unfold_locales (auto simp: ptr_cmp_def sgn_if)

lemma ex_stack_new: "sk_new (\<lambda>n. True) (Some ()) = Some ex_stack"
  by (simp add: sk_new_def ex_stack_def realloc_pointers_def mul_overflows_def MUL_NO_OVERFLOW_def sizeof_charp_def
      MIN_STACK_NODES_def write_at_def)

theorem stack_refines_list_witness:
  "fst ex_run = [RInt 1, RInt 2, RInt 3, RPtr (Some 3), RInt 1, RFlag True, RInt 2] \<and>
   spec_run (sk_spec ptr_cmp) ex_ops ([], Some ()) (fst ex_run) (sk_list (snd ex_run), st_comp (snd ex_run))"
proof
  show "fst ex_run = [RInt 1, RInt 2, RInt 3, RPtr (Some 3), RInt 1, RFlag True, RInt 2]" by code_simp
  show "spec_run (sk_spec ptr_cmp) ex_ops ([], Some ()) (fst ex_run) (sk_list (snd ex_run), st_comp (snd ex_run))"
    using stack_refines_list [OF ptr_cmp_comparison ex_stack_new, where ops = ex_ops and rs = "fst ex_run" and st' = "snd ex_run"]
    by (simp add: ex_run_def ex_ops_def)
qed

end
