(* ===== verification/DTLS_Window.thy ===== *)
theory DTLS_Window
  imports Libc_String
begin

unbundle bit_operations_syntax

text \<open>
  The window of sequence numbers with which DTLS drops records that were
  received before (libssl/d1_pkt.c, dtls_local.h): the saturating subtraction of
  big-endian numbers, the check and the update of the bitmap.  The type
  \<open>unsigned long\<close> has 64 bits; the intermediate values of the subtraction stay
  far inside \<open>int\<close>.
\<close>

section \<open>Subtraction of big-endian numbers\<close>

text \<open>
  The loop over the bytes \<open>i - 1, ..., 0\<close>; with \<open>neg\<close> the complements of the
  differences are collected in \<open>sat\<close>, as in the first of the two loops.  (The
  branch for aligned data on a big-endian machine is not taken on amd64.)
\<close>

fun satsub_loop :: "bool \<Rightarrow> bytes \<Rightarrow> bytes \<Rightarrow> nat \<Rightarrow> int \<Rightarrow> int \<Rightarrow> int \<times> int" where
  "satsub_loop neg v1 v2 0 brw sat = (brw, sat)"
| "satsub_loop neg v1 v2 (Suc i) brw sat =
     (let brw = brw + (uint (v1 ! i) - uint (v2 ! i));
          sat = sat OR (if neg then NOT brw else brw)
      in satsub_loop neg v1 v2 i (drop_bit 8 brw) sat)"

definition satsub64be :: "bytes \<Rightarrow> bytes \<Rightarrow> int" where
  "satsub64be v1 v2 =
     (let ret = uint (v1 ! 7) - uint (v2 ! 7);
          (brw, sat) = satsub_loop (ret AND 0x80 \<noteq> 0) v1 v2 7 (drop_bit 8 ret) 0;
          brw = push_bit 8 brw
      in if sat AND 0xFF \<noteq> 0 then brw OR 0x80 else brw + (ret AND 0xFF))"

section \<open>The bitmap\<close>

record dtls1_bitmap =
  bm_map :: u64
  bm_max_seq_num :: bytes

definition dtls1_record_replay_check :: "dtls1_bitmap \<Rightarrow> bytes \<Rightarrow> bool" where
  "dtls1_record_replay_check bitmap seq =
     (let cmp = satsub64be seq (bm_max_seq_num bitmap)
      in if cmp > 0 then True
         else let shift = nat (- cmp)
          in if shift \<ge> 64 then False
             else if bm_map bitmap AND push_bit shift 1 \<noteq> 0 then False
             else True)"

definition dtls1_record_bitmap_update :: "dtls1_bitmap \<Rightarrow> bytes \<Rightarrow> dtls1_bitmap" where
  "dtls1_record_bitmap_update bitmap seq =
     (let cmp = satsub64be seq (bm_max_seq_num bitmap)
      in if cmp > 0 then
           (let shift = nat cmp
            in \<lparr>bm_map = (if shift < 64 then push_bit shift (bm_map bitmap) OR 1 else 1), bm_max_seq_num = seq\<rparr>)
         else
           (let shift = nat (- cmp)
            in if shift < 64 then bitmap\<lparr>bm_map := bm_map bitmap OR push_bit shift 1\<rparr> else bitmap))"

section \<open>Correctness of the subtraction\<close>

definition be_diff :: "bytes \<Rightarrow> bytes \<Rightarrow> nat \<Rightarrow> int" where
  "be_diff v1 v2 i = int (be_val (drop i v1)) - int (be_val (drop i v2))"

lemma and_255: "x AND 255 = (x :: int) mod 256"
  using take_bit_eq_mask [of 8 x] by (simp add: take_bit_eq_mod mask_eq_exp_minus_1)

lemma or_and_255: "(x OR y) AND 255 = 0 \<longleftrightarrow> x AND 255 = 0 \<and> y AND 255 = (0 :: int)"
  by (simp add: bit.conj_disj_distrib2 or_eq_0_iff)

lemma not_and_255: "NOT x AND 255 = 0 \<longleftrightarrow> x mod 256 = (255 :: int)"
proof -
  have "x mod 256 = 255 \<longleftrightarrow> 256 dvd x - 255" using mod_eq_dvd_iff [of x 256 255] by simp
  also have "\<dots> \<longleftrightarrow> 256 dvd - (x - 255) + (-1) * 256" by (simp only: dvd_add_times_triv_right_iff dvd_minus_iff)
  also have "- (x - 255) + (-1) * 256 = NOT x" by (simp add: not_int_def)
  also have "256 dvd NOT x \<longleftrightarrow> NOT x mod 256 = 0" by (simp only: dvd_eq_mod_eq_0)
  finally show ?thesis by (simp only: and_255)
qed

lemma and_128: "x AND 128 \<noteq> 0 \<longleftrightarrow> 128 \<le> x mod (256 :: int)"
proof -
  have "x AND 128 \<noteq> 0 \<longleftrightarrow> odd (x div 128)"
    using and_exp_eq_0_iff_not_bit [of x 7] by (simp add: bit_iff_odd)
  moreover have "x mod 256 = 128 * ((x div 128) mod 2) + x mod 128" using zmod_zmult2_eq [of 2 x 128] by simp
  moreover have "0 \<le> x mod 128" "x mod 128 < 128" by simp_all
  ultimately show ?thesis by (cases "even (x div 128)") (auto simp: even_iff_mod_2_eq_zero odd_iff_mod_2_eq_one)
qed

lemma digit_unique:
  fixes a b c :: int
  assumes "0 \<le> b" "b < 256"
  shows "256 * a + b = 256 * c - 1 \<longleftrightarrow> a = c - 1 \<and> b = 255" "256 * a + b = 0 \<longleftrightarrow> a = 0 \<and> b = 0"
proof -
  consider "a \<ge> c" | "a = c - 1" | "a < c - 1" by linarith
  then show "256 * a + b = 256 * c - 1 \<longleftrightarrow> a = c - 1 \<and> b = 255" using assms by cases linarith+
  consider "a \<ge> 1" | "a = 0" | "a \<le> -1" by linarith
  then show "256 * a + b = 0 \<longleftrightarrow> a = 0 \<and> b = 0" using assms by cases linarith+
qed

lemma be_diff_step:
  assumes "length v1 = 8" "length v2 = 8" "i < 8"
  shows "be_diff v1 v2 i = be_diff v1 v2 (Suc i) + (uint (v1 ! i) - uint (v2 ! i)) * 256 ^ (7 - i)"
proof -
  have "drop i v1 = v1 ! i # drop (Suc i) v1" "drop i v2 = v2 ! i # drop (Suc i) v2"
    using assms by (auto simp: Cons_nth_drop_Suc)
  then show ?thesis using assms by (simp add: be_diff_def be_val_Cons algebra_simps)
qed

lemma mod_mult_step:
  fixes y :: int
  shows "y mod 256 ^ Suc i = 256 * ((y div 256) mod 256 ^ i) + y mod 256"
  using zmod_zmult2_eq [of "256 ^ i" y 256] by simp

lemma be_diff_mod:
  assumes "length v1 = 8" "length v2 = 8" "i \<le> 8"
  shows "\<exists>m. be_diff v1 v2 0 = be_diff v1 v2 i + m * 256 ^ (8 - i)"
  using assms(3)
proof (induction i)
  case 0
  show ?case by (rule exI [of _ 0]) simp
next
  case (Suc i)
  then obtain m where m: "be_diff v1 v2 0 = be_diff v1 v2 i + m * 256 ^ (8 - i)" by auto
  have "(8 - i) = Suc (7 - i)" using Suc.prems by simp
  then have "be_diff v1 v2 0 = be_diff v1 v2 (Suc i) + (uint (v1 ! i) - uint (v2 ! i) + m * 256) * 256 ^ (8 - Suc i)"
    using m be_diff_step [OF assms(1,2), of i] Suc.prems by (simp add: algebra_simps)
  then show ?case by blast
qed

lemma satsub_loop_spec:
  assumes "length v1 = 8" "length v2 = 8" "i \<le> 7" "brw = be_diff v1 v2 i div 256 ^ (8 - i)"
    "satsub_loop neg v1 v2 i brw sat = (brw', sat')"
  shows "brw' = be_diff v1 v2 0 div 256 ^ 8 \<and>
    (sat' AND 255 = 0 \<longleftrightarrow> sat AND 255 = 0 \<and>
       (be_diff v1 v2 0 div 256 ^ (8 - i)) mod 256 ^ i = (if neg then 256 ^ i - 1 else 0))"
  using assms(3-)
proof (induction i arbitrary: brw sat)
  case 0
  then show ?case by auto
next
  case (Suc i)
  let ?t = "brw + (uint (v1 ! i) - uint (v2 ! i))"
  let ?p = "256 ^ (7 - i) :: int" let ?y = "be_diff v1 v2 0 div ?p"
  have e: "8 - i = Suc (7 - i)" "8 - Suc i = 7 - i" using Suc.prems by auto
  have t: "?t = be_diff v1 v2 i div ?p"
    using Suc.prems(2) be_diff_step [OF assms(1,2), of i] Suc.prems(1) by (simp add: e)
  have d: "drop_bit 8 ?t = be_diff v1 v2 i div 256 ^ (8 - i)"
    by (simp add: t e drop_bit_eq_div zdiv_zmult2_eq power_Suc2 del: power_Suc)
  have l: "satsub_loop neg v1 v2 i (drop_bit 8 ?t) (sat OR (if neg then NOT ?t else ?t)) = (brw', sat')"
    using Suc.prems(3) by (simp only: satsub_loop.simps Let_def)
  note ih = Suc.IH [OF _ d l]
  obtain m where m: "be_diff v1 v2 0 = be_diff v1 v2 i + m * 256 ^ (8 - i)"
    using be_diff_mod [OF assms(1,2), of i] Suc.prems(1) by auto
  have "?y = ?t + m * 256" by (simp add: t m e mult.assoc [symmetric])
  then have ym: "?y mod 256 = ?t mod 256" by simp
  have yd: "?y div 256 = be_diff v1 v2 0 div 256 ^ (8 - i)" by (simp add: e zdiv_zmult2_eq power_Suc2 del: power_Suc)
  have bits: "(if neg then NOT ?t else ?t) AND 255 = 0 \<longleftrightarrow> ?y mod 256 = (if neg then 255 else 0)"
    unfolding ym using not_and_255 [of ?t] and_255 [of ?t] by (cases neg) simp_all
  have "?y mod 256 ^ Suc i = (if neg then 256 ^ Suc i - 1 else 0) \<longleftrightarrow>
    (?y div 256) mod 256 ^ i = (if neg then 256 ^ i - 1 else 0) \<and> ?y mod 256 = (if neg then 255 else 0)"
  proof -
    have r: "0 \<le> ?y mod 256" "?y mod 256 < 256" by simp_all
    note l = digit_unique [OF r]
    show ?thesis unfolding mod_mult_step using l by (cases neg) simp_all
  qed
  with ih bits Suc.prems(1) show ?case by (auto simp: or_and_255 yd e)
qed

lemma be_diff_range: "length v1 = 8 \<Longrightarrow> length v2 = 8 \<Longrightarrow> - (256 ^ 8) < be_diff v1 v2 0 \<and> be_diff v1 v2 0 < 256 ^ 8"
  using be_val_lt [of v1] be_val_lt [of v2] by (simp add: be_diff_def)

text \<open>
  Small differences are exact; the others have the right sign and are at least 128
  in size.
\<close>

lemma satsub64be_spec:
  assumes "length v1 = 8" "length v2 = 8"
  defines "d \<equiv> be_diff v1 v2 0"
  shows "if \<bar>d\<bar> < 128 then satsub64be v1 v2 = d else sgn (satsub64be v1 v2) = sgn d \<and> 128 \<le> \<bar>satsub64be v1 v2\<bar>"
proof -
  let ?ret = "uint (v1 ! 7) - uint (v2 ! 7)"
  let ?neg = "?ret AND 0x80 \<noteq> 0"
  obtain brw sat where l: "satsub_loop ?neg v1 v2 7 (drop_bit 8 ?ret) 0 = (brw, sat)" by fastforce
  have ret: "be_diff v1 v2 7 = ?ret"
    using be_diff_step [OF assms(1,2), of 7] assms(1,2) by (simp add: be_diff_def)
  have "drop_bit 8 ?ret = be_diff v1 v2 7 div 256 ^ (8 - 7)" by (simp add: ret drop_bit_eq_div)
  note spec = satsub_loop_spec [OF assms(1,2) order_refl this l, folded d_def, simplified]
  have "be_diff v1 v2 0 = ?ret + m * 256 \<Longrightarrow> d mod 256 = ?ret mod 256" for m by (simp add: d_def)
  then have low: "d mod 256 = ?ret mod 256" using be_diff_mod [OF assms(1,2), of 7] by (auto simp: ret)
  have neg: "?neg \<longleftrightarrow> 128 \<le> d mod 256" by (simp only: low and_128)
  define lo where "lo = d mod 256" define mid where "mid = d div 256 mod 256 ^ 7" define hi where "hi = d div 256 ^ 8"
  have d: "d = hi * 256 ^ 8 + mid * 256 + lo"
  proof -
    have "d mod 256 ^ 8 = 256 * mid + lo" using mod_mult_step [of d 7] by (simp add: mid_def lo_def)
    then show ?thesis using mult_div_mod_eq [of "256 ^ 8" d] by (simp add: hi_def)
  qed
  have rng: "0 \<le> lo" "lo < 256" "0 \<le> mid" "mid < 256 ^ 7" by (simp_all add: lo_def mid_def)
  have "hi = 0 \<or> hi = -1"
  proof -
    have "-1 \<le> hi" "hi < 1"
      using be_diff_range [OF assms(1,2), folded d_def] by (auto simp: hi_def intro!: zdiv_mono1 [of "- (256 ^ 8)" d "256 ^ 8", simplified])
    then show ?thesis by linarith
  qed
  then consider (pos) "hi = 0" | (neg) "hi = -1" by blast
  note hi = this
  have val: "satsub64be v1 v2 = (if mid = (if 128 \<le> lo then 256 ^ 7 - 1 else 0) then hi * 256 + lo else if hi = 0 then 128 else -128)"
  proof -
    have b: "brw = hi" "sat AND 255 = 0 \<longleftrightarrow> mid = (if 128 \<le> lo then 256 ^ 7 - 1 else 0)"
      using spec neg by (simp_all add: hi_def mid_def lo_def)
    have v: "satsub64be v1 v2 = (if sat AND 255 \<noteq> 0 then push_bit 8 brw OR 128 else push_bit 8 brw + ?ret mod 256)"
      using l by (simp add: satsub64be_def Let_def and_255)
    show ?thesis unfolding v b low [symmetric] lo_def [symmetric] using hi by cases (simp_all add: push_bit_eq_mult)
  qed
  show ?thesis
    using hi
  proof cases
    case pos
    show ?thesis
    proof (cases "mid = (if 128 \<le> lo then 256 ^ 7 - 1 else 0)")
      case True
      then show ?thesis using val d pos rng by (auto simp: sgn_if split: if_splits)
    next
      case False
      then have "128 \<le> d" using d pos rng by (auto split: if_splits)
      then show ?thesis using val False pos by simp
    qed
  next
    case neg
    show ?thesis
    proof (cases "mid = (if 128 \<le> lo then 256 ^ 7 - 1 else 0)")
      case True
      then show ?thesis using val d neg rng by (auto simp: sgn_if split: if_splits)
    next
      case False
      then have "d \<le> -128" using d neg rng by (auto split: if_splits)
      then show ?thesis using val False neg by simp
    qed
  qed
qed

section \<open>Windows\<close>

text \<open>The sequence numbers the bitmap remembers, and the invariant that ties them to a set of received ones.\<close>

abbreviation seq_max :: "dtls1_bitmap \<Rightarrow> nat" where "seq_max w \<equiv> be_val (bm_max_seq_num w)"

definition window_ok :: "nat set \<Rightarrow> dtls1_bitmap \<Rightarrow> bool" where
  "window_ok R w \<longleftrightarrow> length (bm_max_seq_num w) = 8 \<and> (\<forall>r\<in>R. r \<le> seq_max w)
     \<and> (\<forall>i<64. i \<le> seq_max w \<longrightarrow> (bit (bm_map w) i \<longleftrightarrow> seq_max w - i \<in> R))
     \<and> (\<forall>i. seq_max w < i \<longrightarrow> \<not> bit (bm_map w) i)"

definition empty_window :: dtls1_bitmap where
  "empty_window = \<lparr>bm_map = 0, bm_max_seq_num = replicate 8 0\<rparr>"

lemma window_empty: "window_ok {} empty_window"
  by (simp add: window_ok_def empty_window_def)

text \<open>The difference that decides, by the value of the numbers.\<close>

lemma satsub_cases:
  assumes "length seq = 8" "length mx = 8"
  shows "be_val mx < be_val seq \<Longrightarrow> 0 < satsub64be seq mx \<and>
      (if be_val seq - be_val mx < 64 then nat (satsub64be seq mx) = be_val seq - be_val mx else 64 \<le> nat (satsub64be seq mx))"
    and "be_val seq \<le> be_val mx \<Longrightarrow> satsub64be seq mx \<le> 0 \<and>
      (if be_val mx - be_val seq < 64 then nat (- satsub64be seq mx) = be_val mx - be_val seq else 64 \<le> nat (- satsub64be seq mx))"
  using satsub64be_spec [OF assms] by (auto simp: be_diff_def sgn_if split: if_splits)

lemma replay_check_iff:
  assumes "window_ok R w" "length seq = 8"
  shows "dtls1_record_replay_check w seq \<longleftrightarrow> be_val seq \<notin> R \<and> seq_max w < be_val seq + 64"
proof -
  have len: "length (bm_max_seq_num w) = 8" using assms(1) by (simp add: window_ok_def)
  show ?thesis
  proof (cases "seq_max w < be_val seq")
    case True
    have "be_val seq \<notin> R" using True assms(1) by (auto simp: window_ok_def)
    with True satsub_cases(1) [OF assms(2) len True] show ?thesis by (simp add: dtls1_record_replay_check_def Let_def)
  next
    case False
    let ?i = "seq_max w - be_val seq"
    note s = satsub_cases(2) [OF assms(2) len]
    show ?thesis
    proof (cases "?i < 64")
      case True
      have "bit (bm_map w) ?i \<longleftrightarrow> be_val seq \<in> R" using assms(1) False True by (auto simp: window_ok_def)
      moreover have "bm_map w AND push_bit ?i 1 \<noteq> 0 \<longleftrightarrow> bit (bm_map w) ?i"
        using and_exp_eq_0_iff_not_bit [of "bm_map w" ?i] by (simp add: push_bit_of_1)
      ultimately show ?thesis using s False True by (auto simp: dtls1_record_replay_check_def Let_def)
    next
      case stale: False
      then show ?thesis using s False by (auto simp: dtls1_record_replay_check_def Let_def)
    qed
  qed
qed

lemma window_advance:
  assumes w: "window_ok R w" and seq: "length seq = 8" "seq_max w < be_val seq"
  shows "window_ok (insert (be_val seq) R) (dtls1_record_bitmap_update w seq)"
proof -
  let ?d = "be_val seq - seq_max w"
  define m where "m = (if ?d < 64 then push_bit ?d (bm_map w) OR 1 else 1)"
  have len: "length (bm_max_seq_num w) = 8" using w by (simp add: window_ok_def)
  have u: "dtls1_record_bitmap_update w seq = \<lparr>bm_map = m, bm_max_seq_num = seq\<rparr>"
    using satsub_cases(1) [OF seq(1) len seq(2)] by (auto simp: dtls1_record_bitmap_update_def Let_def m_def split: if_splits)
  have bits: "bit m i \<longleftrightarrow> i = 0 \<or> ?d < 64 \<and> ?d \<le> i \<and> i < 64 \<and> bit (bm_map w) (i - ?d)" for i
    by (auto simp: m_def bit_simps)
  show ?thesis unfolding u window_ok_def dtls1_bitmap.simps
  proof (intro conjI allI impI ballI)
    show "length seq = 8" by (rule seq)
    show "r \<le> be_val seq" if "r \<in> insert (be_val seq) R" for r
      using that w seq(2) by (fastforce simp: window_ok_def)
    show "\<not> bit m i" if "be_val seq < i" for i
      using that w seq(2) by (auto simp: bits window_ok_def)
    fix i :: nat assume i: "i < 64" "i \<le> be_val seq"
    consider "i = 0" | "0 < i" "i < ?d" | "0 < i" "?d \<le> i" by linarith
    then show "bit m i \<longleftrightarrow> be_val seq - i \<in> insert (be_val seq) R"
    proof cases
      case 2
      then have "seq_max w < be_val seq - i" using i by linarith
      then have "be_val seq - i \<notin> R" using w by (auto simp: window_ok_def)
      then show ?thesis using 2 by (auto simp: bits)
    next
      case 3
      have "be_val seq - i = seq_max w - (i - ?d)" "i - ?d \<le> seq_max w" "i - ?d < 64" using 3 i seq(2) by auto
      moreover have "be_val seq - i \<noteq> be_val seq" using 3 i by simp
      ultimately have "bit (bm_map w) (i - ?d) \<longleftrightarrow> be_val seq - i \<in> insert (be_val seq) R"
        using w by (auto simp: window_ok_def)
      then show ?thesis using 3 i by (simp add: bits)
    qed (simp add: bits)
  qed
qed

lemma window_mark:
  assumes w: "window_ok R w" and seq: "length seq = 8" "be_val seq \<le> seq_max w"
  shows "window_ok (insert (be_val seq) R) (dtls1_record_bitmap_update w seq)"
proof -
  let ?d = "seq_max w - be_val seq"
  have len: "length (bm_max_seq_num w) = 8" using w by (simp add: window_ok_def)
  note s = satsub_cases(2) [OF seq(1) len seq(2)]
  show ?thesis
  proof (cases "?d < 64")
    case True
    then have u: "dtls1_record_bitmap_update w seq = w\<lparr>bm_map := bm_map w OR push_bit ?d 1\<rparr>"
      using s by (simp add: dtls1_record_bitmap_update_def Let_def)
    have bits: "bit (bm_map w OR push_bit ?d 1) i \<longleftrightarrow> bit (bm_map w) i \<or> i = ?d" for i
      using True by (auto simp: bit_simps)
    have "seq_max w - i = be_val seq \<longleftrightarrow> i = ?d" if "i \<le> seq_max w" for i using that seq(2) by linarith
    then show ?thesis using w seq(2) by (auto simp: u window_ok_def bits simp del: push_bit_of_1)
  next
    case False
    then have u: "dtls1_record_bitmap_update w seq = w"
      using s by (simp add: dtls1_record_bitmap_update_def Let_def)
    have "seq_max w - i \<noteq> be_val seq" if "i < 64" for i using that False by linarith
    then show ?thesis using w seq(2) by (auto simp: u window_ok_def)
  qed
qed

lemma bitmap_update_ok:
  assumes "window_ok R w" "length seq = 8"
  shows "window_ok (insert (be_val seq) R) (dtls1_record_bitmap_update w seq)"
  using window_advance [OF assms] window_mark [OF assms] by (meson not_le)

text \<open>
  C29.  The bitmap is an exact memory of the last 64 sequence numbers: after the receipt
  of any records, in whatever order they came, the check lets a record pass exactly
  if its number has not been received and lies less than 64 below the highest one.
\<close>

theorem replay_window_exact:
  assumes "\<forall>s\<in>set seqs. length s = 8" "length seq = 8"
  shows "dtls1_record_replay_check (foldl dtls1_record_bitmap_update empty_window seqs) seq \<longleftrightarrow>
    be_val seq \<notin> be_val ` set seqs \<and> (\<forall>s\<in>set seqs. be_val s < be_val seq + 64)"
proof -
  have "window_ok (be_val ` set seqs) (foldl dtls1_record_bitmap_update empty_window seqs)
    \<and> seq_max (foldl dtls1_record_bitmap_update empty_window seqs) \<in> insert 0 (be_val ` set seqs)"
    using assms(1)
  proof (induction seqs rule: rev_induct)
    case Nil
    show ?case using window_empty by (simp add: empty_window_def be_val_def eval_nat_numeral)
  next
    case (snoc s seqs)
    then have ok: "window_ok (be_val ` set seqs) (foldl dtls1_record_bitmap_update empty_window seqs)"
      and mx: "seq_max (foldl dtls1_record_bitmap_update empty_window seqs) \<in> insert 0 (be_val ` set seqs)" by auto
    let ?w = "foldl dtls1_record_bitmap_update empty_window seqs"
    have "window_ok (insert (be_val s) (be_val ` set seqs)) (dtls1_record_bitmap_update ?w s)"
      using snoc.prems by (intro bitmap_update_ok [OF ok]) simp
    moreover have "seq_max (dtls1_record_bitmap_update w s) \<in> {seq_max w, be_val s}" for w
      by (simp add: dtls1_record_bitmap_update_def Let_def)
    from this [of ?w] have "seq_max (dtls1_record_bitmap_update ?w s) \<in> insert 0 (insert (be_val s) (be_val ` set seqs))"
      using mx by (metis insertCI insertE singletonD)
    ultimately show ?case by simp
  qed
  then have ok: "window_ok (be_val ` set seqs) (foldl dtls1_record_bitmap_update empty_window seqs)"
    and mx: "seq_max (foldl dtls1_record_bitmap_update empty_window seqs) \<in> insert 0 (be_val ` set seqs)" by auto
  have "\<forall>s\<in>set seqs. be_val s \<le> seq_max (foldl dtls1_record_bitmap_update empty_window seqs)"
    using ok by (auto simp: window_ok_def)
  then show ?thesis using mx by (auto simp: replay_check_iff [OF ok assms(2)] intro: le_less_trans)
qed

theorem replay_window_exact_witness:
  "let w = foldl dtls1_record_bitmap_update empty_window (map (be_bytes 8) [5, 3, 300])
   in dtls1_record_replay_check w (be_bytes 8 299) \<and> \<not> dtls1_record_replay_check w (be_bytes 8 300)
      \<and> \<not> dtls1_record_replay_check w (be_bytes 8 5)"
  using replay_window_exact [of "map (be_bytes 8) [5, 3, 300]" "be_bytes 8 299"]
    replay_window_exact [of "map (be_bytes 8) [5, 3, 300]" "be_bytes 8 300"]
    replay_window_exact [of "map (be_bytes 8) [5, 3, 300]" "be_bytes 8 5"]
  by (simp add: Let_def be_val_be_bytes)

end
