(* ===== verification/DTLS_Record.thy ===== *)
theory DTLS_Record
  imports DTLS_Window PQueue TLS_Content "HOL-Library.Code_Target_Nat"
begin

text \<open>
  Reading DTLS records (libssl/d1_pkt.c), with the reading of packets from the
  transport (\<open>ssl3_read_n\<close>, libssl/ssl_pkt.c) and the set-up of the read buffer
  (libssl/ssl_both.c).

  The read buffer is the packet that is being assembled and the bytes behind it
  that are left from the last read; where in the allocated buffer they lie does not
  matter but for the space that is left, which is counted.  The record layer
  (tls12_record_layer.c) and the transport are functions of \<open>dtls_env\<close>.
\<close>

section \<open>State\<close>

record ssl3_record =
  rr_type :: u8
  rr_length :: nat
  rr_epoch :: u16
  rr_seq_num :: bytes

definition ssl3_record_zero :: ssl3_record where
  "ssl3_record_zero = \<lparr>rr_type = 0, rr_length = 0, rr_epoch = 0, rr_seq_num = replicate 8 0\<rparr>"

record ssl3_buffer =
  rb_len :: "nat option"
  rb_left :: bytes

text \<open>\<open>rb_len\<close> is \<open>None\<close> while there is no buffer.\<close>

definition ssl3_buffer_zero :: ssl3_buffer where
  "ssl3_buffer_zero = \<lparr>rb_len = None, rb_left = []\<rparr>"

record dtls1_record_data =
  rd_packet :: bytes
  rd_rbuf :: ssl3_buffer
  rd_rrec :: ssl3_record

record ('rl, 'w) dtls_conn =
  dc_dtls :: bool
  dc_version :: u16
  dc_first_packet :: bool
  dc_listen :: bool
  dc_in_init :: bool
  dc_in_handshake :: bool
  dc_read_ahead :: bool
  dc_release_buffers :: bool
  dc_reading_body :: bool
  dc_packet :: bytes
  dc_rbuf :: ssl3_buffer
  dc_rrec :: ssl3_record
  dc_rcontent :: tls_content
  dc_bitmap :: dtls1_bitmap
  dc_next_bitmap :: dtls1_bitmap
  dc_unprocessed_epoch :: u16
  dc_unprocessed :: "dtls1_record_data pqueue_s"
  dc_rl :: 'rl
  dc_wire :: 'w
  dc_alerts :: "u8 list"

text \<open>
  What the record layer answers: the content of the record, or the description of
  an alert (0 for an internal error).  A read from the transport yields data, or
  the value that is not positive.
\<close>

datatype open_result = Opened tls_content | Rejected u8

record ('rl, 'w) dtls_env =
  env_read_epoch :: "'rl \<Rightarrow> u16"
  env_open_record :: "u16 \<Rightarrow> bytes \<Rightarrow> 'rl \<Rightarrow> open_result \<times> 'rl"
  env_bio_read :: "nat \<Rightarrow> 'w \<Rightarrow> (int + bytes) \<times> 'w"
  env_alloc :: "nat \<Rightarrow> bool"

definition DTLS1_RT_HEADER_LENGTH :: nat where "DTLS1_RT_HEADER_LENGTH = 13"
definition SSL3_RT_HEADER_LENGTH :: nat where "SSL3_RT_HEADER_LENGTH = 5"
definition SSL3_RT_MAX_PLAIN_LENGTH :: nat where "SSL3_RT_MAX_PLAIN_LENGTH = 16384"
definition SSL3_RT_MAX_ENCRYPTED_OVERHEAD :: nat where "SSL3_RT_MAX_ENCRYPTED_OVERHEAD = 320"
definition SSL3_RT_MAX_ENCRYPTED_LENGTH :: nat where
  "SSL3_RT_MAX_ENCRYPTED_LENGTH = SSL3_RT_MAX_ENCRYPTED_OVERHEAD + SSL3_RT_MAX_PLAIN_LENGTH"

text \<open>\<open>(-SSL3_RT_HEADER_LENGTH) & (SSL3_ALIGN_PAYLOAD - 1)\<close>; \<open>calloc\<close> returns memory aligned to 16 bytes.\<close>

definition payload_align :: nat where "payload_align = 3"

definition SSL3_RT_HANDSHAKE :: u8 where "SSL3_RT_HANDSHAKE = 22"
definition SSL3_RT_ALERT :: u8 where "SSL3_RT_ALERT = 21"
definition SSL3_MT_CLIENT_HELLO :: u8 where "SSL3_MT_CLIENT_HELLO = 1"
definition SSL_AD_BAD_RECORD_MAC :: u8 where "SSL_AD_BAD_RECORD_MAC = 20"

definition sizeof_record_data :: nat where "sizeof_record_data = 88"

section \<open>Reading packets\<close>

definition ssl3_setup_read_buffer :: "('rl, 'w) dtls_env \<Rightarrow> ('rl, 'w) dtls_conn \<Rightarrow> ('rl, 'w) dtls_conn option" where
  "ssl3_setup_read_buffer env s =
     (let headerlen = (if dc_dtls s then DTLS1_RT_HEADER_LENGTH else SSL3_RT_HEADER_LENGTH);
          len = SSL3_RT_MAX_PLAIN_LENGTH + SSL3_RT_MAX_ENCRYPTED_OVERHEAD + headerlen + payload_align
      in case rb_len (dc_rbuf s) of
           None \<Rightarrow> (if \<not> env_alloc env len then None
                    else Some (s\<lparr>dc_rbuf := (dc_rbuf s)\<lparr>rb_len := Some len\<rparr>\<rparr>))
         | Some _ \<Rightarrow> Some s)"

text \<open>The loop of \<open>ssl3_read_n\<close>: reads until \<open>n\<close> bytes are there, one datagram at most for DTLS.\<close>

function read_more :: "(nat \<Rightarrow> 'w \<Rightarrow> (int + bytes) \<times> 'w) \<Rightarrow> bool \<Rightarrow> nat \<Rightarrow> nat \<Rightarrow> bytes \<Rightarrow> 'w
    \<Rightarrow> (int + nat) \<times> bytes \<times> 'w" where
  "read_more rd dtls n mx left w =
     (if length left < n then
        (case rd (mx - length left) w of
           (Inl i, w) \<Rightarrow> (Inl i, left, w)
         | (Inr data, w) \<Rightarrow>
             if data = [] then (Inl 0, left, w)
             else let left' = left @ data
              in read_more rd dtls (if dtls \<and> n > length left' then length left' else n) mx left' w)
      else (Inr n, left, w))"
  by pat_completeness auto

termination by (relation "measure (\<lambda>(_, _, n, _, left, _). n - length left)") (auto simp: neq_Nil_conv)

declare read_more.simps [simp del]

text \<open>The part of \<open>ssl3_read_n\<close> from \<open>else we need to read more data\<close> on.\<close>

definition ssl3_fill :: "('rl, 'w) dtls_env \<Rightarrow> ('rl, 'w) dtls_conn \<Rightarrow> int \<Rightarrow> int \<Rightarrow> int \<times> ('rl, 'w) dtls_conn" where
  "ssl3_fill env s n mx =
     (let room = (case rb_len (dc_rbuf s) of None \<Rightarrow> 0 | Some len \<Rightarrow> int len) - int (length (dc_packet s) + payload_align)
      in if n > room then (-1, s)
         else let mx = (if dc_read_ahead s \<or> dc_dtls s then min (max mx n) room else n)
          in case read_more (env_bio_read env) (dc_dtls s) (nat n) (nat mx) (rb_left (dc_rbuf s)) (dc_wire s) of
               (Inl i, left, w) \<Rightarrow>
                 (i, s\<lparr>dc_wire := w,
                        dc_rbuf := (if dc_release_buffers s \<and> \<not> dc_dtls s \<and> length (dc_packet s) + length left = 0
                                    then (dc_rbuf s)\<lparr>rb_left := left, rb_len := None\<rparr>
                                    else (dc_rbuf s)\<lparr>rb_left := left\<rparr>)\<rparr>)
             | (Inr n, left, w) \<Rightarrow>
                 (int n, s\<lparr>dc_wire := w, dc_packet := dc_packet s @ take n left,
                            dc_rbuf := (dc_rbuf s)\<lparr>rb_left := drop n left\<rparr>\<rparr>))"

definition ssl3_read_n :: "('rl, 'w) dtls_env \<Rightarrow> ('rl, 'w) dtls_conn \<Rightarrow> int \<Rightarrow> int \<Rightarrow> bool \<Rightarrow> int \<times> ('rl, 'w) dtls_conn" where
  "ssl3_read_n env s n mx ext =
     (if n \<le> 0 then (n, s)
      else case (if rb_len (dc_rbuf s) = None then ssl3_setup_read_buffer env s else Some s) of
        None \<Rightarrow> (-1, s)
      | Some s \<Rightarrow>
          (let left = rb_left (dc_rbuf s);
               s = (if \<not> ext then s\<lparr>dc_packet := []\<rparr> else s);
               n = (if dc_dtls s \<and> length left > 0 \<and> n > int (length left) then int (length left) else n)
           in if int (length left) \<ge> n
              then (n, s\<lparr>dc_packet := dc_packet s @ take (nat n) left,
                          dc_rbuf := (dc_rbuf s)\<lparr>rb_left := drop (nat n) left\<rparr>\<rparr>)
              else ssl3_fill env s n mx))"

definition ssl3_packet_read :: "('rl, 'w) dtls_env \<Rightarrow> ('rl, 'w) dtls_conn \<Rightarrow> nat \<Rightarrow> int \<times> ('rl, 'w) dtls_conn" where
  "ssl3_packet_read env s plen =
     (case ssl3_read_n env s (int plen) (case rb_len (dc_rbuf s) of None \<Rightarrow> 0 | Some len \<Rightarrow> int len) False of (n, s) \<Rightarrow>
        if n \<le> 0 then (n, s)
        else if length (dc_packet s) < plen then (int (length (dc_packet s)), s)
        else (int plen, s))"

definition ssl3_packet_extend :: "('rl, 'w) dtls_env \<Rightarrow> ('rl, 'w) dtls_conn \<Rightarrow> nat \<Rightarrow> int \<times> ('rl, 'w) dtls_conn" where
  "ssl3_packet_extend env s plen =
     (if length (dc_packet s) \<ge> plen then (int plen, s)
      else let rlen = int plen - int (length (dc_packet s))
       in case ssl3_read_n env s rlen rlen True of (n, s) \<Rightarrow>
            if n \<le> 0 then (n, s)
            else if length (dc_packet s) < plen then (int (length (dc_packet s)), s)
            else (int plen, s))"

section \<open>Buffering records of the next epoch\<close>

definition dtls1_copy_record :: "('rl, 'w) dtls_conn \<Rightarrow> dtls1_record_data \<Rightarrow> ('rl, 'w) dtls_conn" where
  "dtls1_copy_record s rdata = s\<lparr>dc_packet := rd_packet rdata, dc_rbuf := rd_rbuf rdata, dc_rrec := rd_rrec rdata\<rparr>"

text \<open>
  The size of the queue is tested first; the record that is buffered takes the
  packet and the read buffer with it, and leaves a record of zeros behind.  Of
  \<open>ssl3_setup_buffers\<close> the model has the read buffer; the write buffer, which is
  there already, does not change.
\<close>

definition dtls1_buffer_record :: "('rl, 'w) dtls_env \<Rightarrow> ('rl, 'w) dtls_conn \<Rightarrow> bytes \<Rightarrow> int \<times> ('rl, 'w) dtls_conn" where
  "dtls1_buffer_record env s priority =
     (if pqueue_size (dc_unprocessed s) \<ge> 100 then (0, s)
      else if \<not> env_alloc env sizeof_record_data then (-1, s)
      else let rdata = \<lparr>rd_packet = dc_packet s, rd_rbuf = dc_rbuf s, rd_rrec = dc_rrec s\<rparr>
       in case pitem_new (env_alloc env) priority rdata of None \<Rightarrow> (-1, s)
        | Some item \<Rightarrow>
            (let s = s\<lparr>dc_packet := [], dc_rbuf := ssl3_buffer_zero, dc_rrec := ssl3_record_zero\<rparr>
             in case ssl3_setup_read_buffer env s of None \<Rightarrow> (-1, s)
              | Some s \<Rightarrow>
                  (case pqueue_insert (dc_unprocessed s) item of
                     (None, q) \<Rightarrow> (-1, s\<lparr>dc_unprocessed := q\<rparr>)
                   | (Some _, q) \<Rightarrow> (1, s\<lparr>dc_unprocessed := q\<rparr>))))"

definition dtls1_retrieve_buffered_record :: "('rl, 'w) dtls_conn \<Rightarrow> bool \<times> ('rl, 'w) dtls_conn" where
  "dtls1_retrieve_buffered_record s =
     (case pqueue_pop (dc_unprocessed s) of
        (Some item, q) \<Rightarrow> (True, dtls1_copy_record (s\<lparr>dc_unprocessed := q\<rparr>) (pi_data item))
      | (None, q) \<Rightarrow> (False, s\<lparr>dc_unprocessed := q\<rparr>))"

definition dtls1_process_record :: "('rl, 'w) dtls_env \<Rightarrow> ('rl, 'w) dtls_conn \<Rightarrow> bool \<times> ('rl, 'w) dtls_conn" where
  "dtls1_process_record env s =
     (case env_open_record env (dc_version s) (dc_packet s) (dc_rl s) of
        (Opened content, rl) \<Rightarrow>
          (True, s\<lparr>dc_rl := rl, dc_rcontent := tls_content_set_epoch content (rr_epoch (dc_rrec s)), dc_packet := []\<rparr>)
      | (Rejected alert_desc, rl) \<Rightarrow>
          (let s = s\<lparr>dc_rl := rl\<rparr>
           in if alert_desc = 0 then (False, s)
              else if alert_desc = SSL_AD_BAD_RECORD_MAC then (True, s\<lparr>dc_packet := []\<rparr>)
              else (False, s\<lparr>dc_alerts := dc_alerts s @ [alert_desc]\<rparr>)))"

definition dtls1_process_buffered_record :: "('rl, 'w) dtls_env \<Rightarrow> ('rl, 'w) dtls_conn \<Rightarrow> int \<times> ('rl, 'w) dtls_conn" where
  "dtls1_process_buffered_record env s =
     (let epoch = env_read_epoch env (dc_rl s)
      in if dc_unprocessed_epoch s \<noteq> epoch then (0, s)
         else if pqueue_peek (dc_unprocessed s) = None then (0, s\<lparr>dc_unprocessed_epoch := epoch + 1\<rparr>)
         else case dtls1_retrieve_buffered_record s of
             (False, s) \<Rightarrow> (-1, s)
           | (True, s) \<Rightarrow> (case dtls1_process_record env s of (False, s) \<Rightarrow> (-1, s) | (True, s) \<Rightarrow> (1, s)))"

section \<open>Getting a record\<close>

text \<open>\<open>None\<close>, or which of the two bitmaps: that of the next epoch or the current one.\<close>

definition dtls1_get_bitmap :: "('rl, 'w) dtls_env \<Rightarrow> ('rl, 'w) dtls_conn \<Rightarrow> bool option" where
  "dtls1_get_bitmap env s =
     (let rr = dc_rrec s; read_epoch = env_read_epoch env (dc_rl s); read_epoch_next = read_epoch + 1
      in if rr_epoch rr = read_epoch then Some False
         else if rr_epoch rr = read_epoch_next \<and> (rr_type rr = SSL3_RT_HANDSHAKE \<or> rr_type rr = SSL3_RT_ALERT)
         then Some True
         else None)"

definition dtls1_reset_read_seq_numbers :: "('rl, 'w) dtls_conn \<Rightarrow> ('rl, 'w) dtls_conn" where
  "dtls1_reset_read_seq_numbers s = s\<lparr>dc_bitmap := dc_next_bitmap s, dc_next_bitmap := empty_window\<rparr>"

text \<open>
  The header of a record.  \<open>False\<close> is the jump to \<open>again\<close>, with what has been
  written to the record by then.
\<close>

definition dtls1_parse_header :: "('rl, 'w) dtls_conn \<Rightarrow> bool \<times> ('rl, 'w) dtls_conn" where
  "dtls1_parse_header s =
     (case CBS_get_u8 (CBS_init (dc_packet s) (length (dc_packet s))) of
        (None, _) \<Rightarrow> (False, s)
      | (Some type, header) \<Rightarrow>
     (case CBS_get_u16 header of
        (None, _) \<Rightarrow> (False, s)
      | (Some ssl_version, header) \<Rightarrow>
     (case CBS_get_bytes header 8 of
        (None, _) \<Rightarrow> (False, s)
      | (Some seq_no, header) \<Rightarrow>
     (case CBS_get_u16 seq_no of
        (None, _) \<Rightarrow> (False, s)
      | (Some epoch, seq_no) \<Rightarrow>
     (case CBS_write_bytes seq_no (drop 2 (rr_seq_num (dc_rrec s))) 6 of
        None \<Rightarrow> (False, s)
      | Some (dst, _) \<Rightarrow>
          (let rr = (dc_rrec s)\<lparr>rr_seq_num := take 2 (rr_seq_num (dc_rrec s)) @ dst\<rparr>
           in case CBS_get_u16 header of
                (None, _) \<Rightarrow> (False, s\<lparr>dc_rrec := rr\<rparr>)
              | (Some len, _) \<Rightarrow>
                  (let rr = rr\<lparr>rr_type := type, rr_epoch := epoch, rr_length := unat len\<rparr>;
                       s = s\<lparr>dc_rrec := rr\<rparr>
                   in if \<not> dc_first_packet s \<and> ssl_version \<noteq> dc_version s then (False, s)
                      else if ssl_version AND 0xff00 \<noteq> dc_version s AND 0xff00 then (False, s)
                      else if rr_length rr > SSL3_RT_MAX_ENCRYPTED_LENGTH then (False, s)
                      else (True, s))))))))"

text \<open>One turn either drops the record, the jump to \<open>again\<close>, or returns.\<close>

datatype 's outcome = Again 's | Return int 's

text \<open>
  From the choice of the bitmap on.  \<open>p\<close> tells whether \<open>p\<close> points to the body, which
  it does if the header has been read in this call; its first byte is looked at
  even if the body is empty.
\<close>

definition dtls1_accept_record :: "('rl, 'w) dtls_env \<Rightarrow> ('rl, 'w) dtls_conn \<Rightarrow> bool \<Rightarrow> ('rl, 'w) dtls_conn outcome" where
  "dtls1_accept_record env s p =
     (let rr = dc_rrec s
      in case dtls1_get_bitmap env s of None \<Rightarrow> Again s
       | Some is_next_epoch \<Rightarrow>
           (let bitmap = (if is_next_epoch then dc_next_bitmap s else dc_bitmap s);
                first = hd (drop DTLS1_RT_HEADER_LENGTH (dc_packet s) @ rb_left (dc_rbuf s) @ [0])
            in if \<not> (dc_listen s \<and> rr_type rr = SSL3_RT_HANDSHAKE \<and> p \<and> first = SSL3_MT_CLIENT_HELLO)
                  \<and> \<not> dtls1_record_replay_check bitmap (rr_seq_num rr) then Again s
               else if rr_length rr = 0 then Again s
               else if is_next_epoch then
                 (if (dc_in_init s \<or> dc_in_handshake s) \<and> \<not> dc_listen s then
                    (case dtls1_buffer_record env s (rr_seq_num rr) of (r, s) \<Rightarrow>
                       if r < 0 then Return (-1) s
                       else Again (s\<lparr>dc_next_bitmap := dtls1_record_bitmap_update (dc_next_bitmap s) (rr_seq_num (dc_rrec s))\<rparr>))
                  else Again s)
               else
                 (case dtls1_process_record env s of
                    (False, s) \<Rightarrow> Again s
                  | (True, s) \<Rightarrow>
                      Return 1 (s\<lparr>dc_bitmap := dtls1_record_bitmap_update (dc_bitmap s) (rr_seq_num (dc_rrec s))\<rparr>))))"

definition dtls1_read_body :: "('rl, 'w) dtls_env \<Rightarrow> ('rl, 'w) dtls_conn \<Rightarrow> bool \<Rightarrow> ('rl, 'w) dtls_conn outcome" where
  "dtls1_read_body env s p =
     (let plen = DTLS1_RT_HEADER_LENGTH + rr_length (dc_rrec s)
      in case ssl3_packet_extend env s plen of (n, s) \<Rightarrow>
           if n \<le> 0 then Return n s
           else if n \<noteq> int plen then Again s
           else dtls1_accept_record env (s\<lparr>dc_reading_body := False\<rparr>) p)"

definition dtls1_turn :: "('rl, 'w) dtls_env \<Rightarrow> ('rl, 'w) dtls_conn \<Rightarrow> ('rl, 'w) dtls_conn outcome" where
  "dtls1_turn env s =
     (if \<not> dc_reading_body s \<or> length (dc_packet s) < DTLS1_RT_HEADER_LENGTH then
        (case ssl3_packet_read env s DTLS1_RT_HEADER_LENGTH of (n, s) \<Rightarrow>
           if n \<le> 0 then Return n s
           else if n \<noteq> int DTLS1_RT_HEADER_LENGTH then Again s
           else case dtls1_parse_header (s\<lparr>dc_reading_body := True\<rparr>) of
               (False, s) \<Rightarrow> Again s
             | (True, s) \<Rightarrow> dtls1_read_body env s True)
      else dtls1_read_body env s False)"

text \<open>The loop of \<open>goto again\<close>, with fuel for its turns.\<close>

fun dtls1_get_loop :: "('rl, 'w) dtls_env \<Rightarrow> nat \<Rightarrow> ('rl, 'w) dtls_conn \<Rightarrow> (int \<times> ('rl, 'w) dtls_conn) option" where
  "dtls1_get_loop env 0 s = None"
| "dtls1_get_loop env (Suc fuel) s =
     (case dtls1_turn env s of
        Return r s \<Rightarrow> Some (r, s)
      | Again s \<Rightarrow> dtls1_get_loop env fuel (s\<lparr>dc_rrec := (dc_rrec s)\<lparr>rr_length := 0\<rparr>, dc_packet := []\<rparr>))"

definition dtls1_get_record :: "('rl, 'w) dtls_env \<Rightarrow> nat \<Rightarrow> ('rl, 'w) dtls_conn \<Rightarrow> (int \<times> ('rl, 'w) dtls_conn) option" where
  "dtls1_get_record env fuel s =
     (case dtls1_process_buffered_record env s of (r, s) \<Rightarrow>
        if r \<noteq> 0 then Some (r, s) else dtls1_get_loop env fuel s)"

section \<open>What a call keeps\<close>

text \<open>Reading packets changes the buffers only.\<close>

definition same_state :: "('rl, 'w) dtls_conn \<Rightarrow> ('rl, 'w) dtls_conn \<Rightarrow> bool" where
  "same_state s s' \<longleftrightarrow> dc_listen s' = dc_listen s \<and> dc_rrec s' = dc_rrec s \<and> dc_bitmap s' = dc_bitmap s
     \<and> dc_next_bitmap s' = dc_next_bitmap s \<and> dc_unprocessed s' = dc_unprocessed s \<and> dc_rl s' = dc_rl s"

lemma same_state_refl [simp]: "same_state s s"
  by (simp add: same_state_def)





































section \<open>Examples\<close>

text \<open>
  A transport that delivers datagrams one by one, cut to the size of the read, and a
  record layer that accepts every record but those whose body starts with 0xBD.
\<close>

fun dgram_read :: "nat \<Rightarrow> bytes list \<Rightarrow> (int + bytes) \<times> bytes list" where
  "dgram_read n [] = (Inl (-1), [])"
| "dgram_read n (d # ds) = (Inr (take n d), ds)"

definition ex_open :: "u16 \<Rightarrow> bytes \<Rightarrow> u16 \<Rightarrow> open_result \<times> u16" where
  "ex_open version packet epoch =
     (if drop 13 packet = [] \<or> packet ! 13 = 0xBD then (Rejected SSL_AD_BAD_RECORD_MAC, epoch)
      else (Opened (tls_content_set_data tls_content_zero (hd packet) (drop 13 packet) (length packet - 13)), epoch))"

definition ex_env :: "(u16, bytes list) dtls_env" where
  "ex_env = \<lparr>env_read_epoch = (\<lambda>e. e), env_open_record = ex_open, env_bio_read = dgram_read, env_alloc = (\<lambda>n. True)\<rparr>"

definition ex_record :: "u8 \<Rightarrow> nat \<Rightarrow> nat \<Rightarrow> bytes \<Rightarrow> bytes" where
  "ex_record type epoch seq body = [type, 0xFE, 0xFD] @ be_bytes 2 epoch @ be_bytes 6 seq @ be_bytes 2 (length body) @ body"

definition ex_conn :: "bytes list \<Rightarrow> (u16, bytes list) dtls_conn" where
  "ex_conn wire = \<lparr>dc_dtls = True, dc_version = 0xFEFD, dc_first_packet = False, dc_listen = False, dc_in_init = True,
     dc_in_handshake = True, dc_read_ahead = False, dc_release_buffers = False, dc_reading_body = False, dc_packet = [],
     dc_rbuf = \<lparr>rb_len = Some 16720, rb_left = []\<rparr>, dc_rrec = ssl3_record_zero, dc_rcontent = tls_content_zero,
     dc_bitmap = empty_window, dc_next_bitmap = empty_window, dc_unprocessed_epoch = 1,
     dc_unprocessed = \<lparr>pq_items = [], pq_count = 0\<rparr>, dc_rl = 0, dc_wire = wire, dc_alerts = []\<rparr>"

definition ex_wire :: "bytes list" where
  "ex_wire = [ex_record 22 0 7 [1], ex_record 22 0 7 [1], ex_record 22 0 3 [2], ex_record 22 0 3 [2]]"


text \<open>
  The read side of a change of cipher state: the record layer moves to the next epoch
  and the bitmap of the next epoch becomes the current one.
\<close>

definition switch_epoch :: "('rl, 'w) dtls_conn \<Rightarrow> 'rl \<Rightarrow> ('rl, 'w) dtls_conn" where
  "switch_epoch s rl = (dtls1_reset_read_seq_numbers s)\<lparr>dc_rl := rl\<rparr>"

text \<open>Buffering the first record of the next epoch, with memory at hand.\<close>

definition buffered :: "('rl, 'w) dtls_conn \<Rightarrow> ('rl, 'w) dtls_conn" where
  "buffered s = s\<lparr>dc_packet := [], dc_rrec := ssl3_record_zero,
     dc_rbuf := \<lparr>rb_len = Some (SSL3_RT_MAX_PLAIN_LENGTH + SSL3_RT_MAX_ENCRYPTED_OVERHEAD
        + (if dc_dtls s then DTLS1_RT_HEADER_LENGTH else SSL3_RT_HEADER_LENGTH) + payload_align), rb_left = []\<rparr>,
     dc_unprocessed := (dc_unprocessed s)\<lparr>pq_items := [\<lparr>pi_priority = take 8 (rr_seq_num (dc_rrec s)),
        pi_data = \<lparr>rd_packet = dc_packet s, rd_rbuf = dc_rbuf s, rd_rrec = dc_rrec s\<rparr>\<rparr>]\<rparr>\<rparr>"

lemma buffer_first_record:
  assumes "\<forall>n. env_alloc env n" "pq_items (dc_unprocessed s) = []"
  shows "dtls1_buffer_record env s (rr_seq_num (dc_rrec s)) = (1, buffered s)"
  using assms
  by (simp add: dtls1_buffer_record_def buffered_def pqueue_size_def pitem_new_def ssl3_setup_read_buffer_def
      ssl3_buffer_zero_def pqueue_insert_def Let_def)

text \<open>Marking the number 0 leaves the check of every other number as it was.\<close>

lemma be_val_zero: "be_val (rr_seq_num ssl3_record_zero) = 0" "length (rr_seq_num ssl3_record_zero) = 8"
  by code_simp+

lemma mark_zero_check:
  assumes "window_ok R w" "length seq = 8" "be_val seq \<noteq> 0" "dtls1_record_replay_check w seq"
  shows "dtls1_record_replay_check (dtls1_record_bitmap_update w (rr_seq_num ssl3_record_zero)) seq"
proof -
  let ?w = "dtls1_record_bitmap_update w (rr_seq_num ssl3_record_zero)"
  have len: "length (bm_max_seq_num w) = 8" using assms(1) by (simp add: window_ok_def)
  have "window_ok (insert 0 R) ?w" using bitmap_update_ok [OF assms(1) be_val_zero(2)] by (simp add: be_val_zero)
  moreover have "bm_max_seq_num ?w = bm_max_seq_num w" 
    using satsub_cases(2) [OF be_val_zero(2) len] by (simp add: be_val_zero dtls1_record_bitmap_update_def Let_def)
  ultimately show ?thesis using assms replay_check_iff [OF assms(1,2)] replay_check_iff [OF _ assms(2), of "insert 0 R" ?w] by simp
qed

text \<open>
  C32.  A record that was buffered is accepted a second time, on every connection whose
  handshake is under way and for every early handshake record or alert of the next
  epoch that is the first to be buffered and whose number is not 0:
  \<open>dtls1_buffer_record\<close> has set the record to zeros when \<open>dtls1_get_record\<close> marks its
  receipt, so that the number 0 is marked instead.  After the change of the epoch the
  record is served from the buffer, and when the same datagram arrives again it passes
  the check and, if the record layer still opens it, is delivered once more.
\<close>

theorem buffered_record_replayed:
  assumes "\<not> dc_listen s" "dc_in_init s \<or> dc_in_handshake s" "\<forall>n. env_alloc env n"
    "pq_items (dc_unprocessed s) = []" "window_ok R (dc_next_bitmap s)"
    "length (rr_seq_num (dc_rrec s)) = 8" "be_val (rr_seq_num (dc_rrec s)) \<noteq> 0" "rr_length (dc_rrec s) \<noteq> 0"
    "rr_epoch (dc_rrec s) = env_read_epoch env (dc_rl s) + 1"
    "rr_type (dc_rrec s) = SSL3_RT_HANDSHAKE \<or> rr_type (dc_rrec s) = SSL3_RT_ALERT"
    "dtls1_record_replay_check (dc_next_bitmap s) (rr_seq_num (dc_rrec s))"
    and switch: "env_read_epoch env rl = rr_epoch (dc_rrec s)" "dc_unprocessed_epoch s = rr_epoch (dc_rrec s)"
    and first: "env_open_record env (dc_version s) (dc_packet s) rl = (Opened c, rl')" "env_read_epoch env rl' = rr_epoch (dc_rrec s)"
    and second: "env_open_record env (dc_version s) (dc_packet s) rl' = (Opened c', rl'')"
  shows "\<exists>s1 s2 s3. dtls1_accept_record env s p = Again s1
    \<and> dtls1_process_buffered_record env (switch_epoch s1 rl) = (1, s2)
    \<and> dc_rrec s2 = dc_rrec s \<and> dc_rcontent s2 = tls_content_set_epoch c (rr_epoch (dc_rrec s))
    \<and> dtls1_accept_record env (s2\<lparr>dc_packet := dc_packet s\<rparr>) p' = Return 1 s3
    \<and> dc_rrec s3 = dc_rrec s \<and> dc_rcontent s3 = tls_content_set_epoch c' (rr_epoch (dc_rrec s))"
proof -
  let ?rr = "dc_rrec s"
  let ?b = "dtls1_record_bitmap_update (dc_next_bitmap s) (rr_seq_num ssl3_record_zero)"
  define s1 where "s1 = (buffered s)\<lparr>dc_next_bitmap := ?b\<rparr>"
  define s2 where "s2 = (switch_epoch s1 rl)\<lparr>dc_unprocessed := (dc_unprocessed s)\<lparr>pq_items := []\<rparr>, dc_packet := [], dc_rbuf := dc_rbuf s,
     dc_rrec := ?rr, dc_rl := rl', dc_rcontent := tls_content_set_epoch c (rr_epoch ?rr)\<rparr>"
  have 1: "dtls1_accept_record env s p = Again s1"
    using assms by (simp add: dtls1_accept_record_def dtls1_get_bitmap_def buffer_first_record Let_def s1_def)
      (simp add: buffered_def)
  have 2: "dtls1_process_buffered_record env (switch_epoch s1 rl) = (1, s2)"
    using switch first
    by (simp add: dtls1_process_buffered_record_def dtls1_retrieve_buffered_record_def dtls1_copy_record_def
        dtls1_process_record_def switch_epoch_def dtls1_reset_read_seq_numbers_def s1_def s2_def buffered_def
        pqueue_peek_def pqueue_pop_def Let_def)
  have bm: "dc_bitmap s2 = ?b" by (simp add: s2_def switch_epoch_def dtls1_reset_read_seq_numbers_def s1_def)
  have same: "dc_listen s2 = dc_listen s" "dc_version s2 = dc_version s" "dc_rrec s2 = ?rr" "dc_rl s2 = rl'"
    by (simp_all add: s2_def switch_epoch_def dtls1_reset_read_seq_numbers_def s1_def buffered_def)
  have "dtls1_record_replay_check (dc_bitmap s2) (rr_seq_num ?rr)"
    unfolding bm by (rule mark_zero_check) (use assms in auto)
  then have "\<exists>s3. dtls1_accept_record env (s2\<lparr>dc_packet := dc_packet s\<rparr>) p' = Return 1 s3
    \<and> dc_rrec s3 = ?rr \<and> dc_rcontent s3 = tls_content_set_epoch c' (rr_epoch ?rr)"
    using same assms(1,8) first second
    by (simp add: dtls1_accept_record_def dtls1_get_bitmap_def dtls1_process_record_def Let_def)
  moreover have "dc_rcontent s2 = tls_content_set_epoch c (rr_epoch ?rr)" by (simp add: s2_def)
  ultimately show ?thesis using 1 2 same(3) by blast
qed

text \<open>The handshake record 5 of epoch 1 arrives early.\<close>

definition ex_early :: "(u16, bytes list) dtls_conn" where
  "ex_early = (ex_conn [])\<lparr>dc_packet := ex_record 22 1 5 [0xAA],
     dc_rrec := \<lparr>rr_type = 22, rr_length = 1, rr_epoch = 1, rr_seq_num = be_bytes 8 5\<rparr>\<rparr>"

theorem buffered_record_replayed_witness:
  "\<exists>s1 s2 s3. dtls1_accept_record ex_env ex_early True = Again s1
    \<and> dtls1_process_buffered_record ex_env (switch_epoch s1 1) = (1, s2)
    \<and> dc_rrec s2 = dc_rrec ex_early
    \<and> dtls1_accept_record ex_env (s2\<lparr>dc_packet := dc_packet ex_early\<rparr>) True = Return 1 s3
    \<and> dc_rrec s3 = dc_rrec ex_early"
proof -
  define c where "c = tls_content_set_data tls_content_zero 22 [0xAA] 1"
  have w: "window_ok {} (dc_next_bitmap ex_early)" using window_empty by (simp add: ex_early_def ex_conn_def)
  have al: "\<forall>n. env_alloc ex_env n" by (simp add: ex_env_def)
  have open1: "env_open_record ex_env (dc_version ex_early) (dc_packet ex_early) 1 = (Opened c, 1)"
    unfolding c_def by code_simp
  have "\<not> dc_listen ex_early" "dc_in_init ex_early \<or> dc_in_handshake ex_early" "pq_items (dc_unprocessed ex_early) = []"
    "length (rr_seq_num (dc_rrec ex_early)) = 8" "be_val (rr_seq_num (dc_rrec ex_early)) \<noteq> 0" "rr_length (dc_rrec ex_early) \<noteq> 0"
    "rr_epoch (dc_rrec ex_early) = env_read_epoch ex_env (dc_rl ex_early) + 1"
    "rr_type (dc_rrec ex_early) = SSL3_RT_HANDSHAKE \<or> rr_type (dc_rrec ex_early) = SSL3_RT_ALERT"
    "dtls1_record_replay_check (dc_next_bitmap ex_early) (rr_seq_num (dc_rrec ex_early))"
    "env_read_epoch ex_env 1 = rr_epoch (dc_rrec ex_early)" "dc_unprocessed_epoch ex_early = rr_epoch (dc_rrec ex_early)"
    by code_simp+
  note buffered_record_replayed [OF this(1,2) al this(3) w this(4-11) open1 this(10) open1, of True True]
  then show ?thesis by blast
qed

definition ex_get :: "(u16, bytes list) dtls_conn \<Rightarrow> int \<times> (u16, bytes list) dtls_conn" where
  "ex_get s = (case dtls1_get_record ex_env 10 s of None \<Rightarrow> (0, s) | Some rs \<Rightarrow> rs)"

definition ex_id :: "(u16, bytes list) dtls_conn \<Rightarrow> u16 \<times> nat \<times> bytes" where
  "ex_id s = (rr_epoch (dc_rrec s), be_val (rr_seq_num (dc_rrec s)), tc_data (dc_rcontent s))"

text \<open>
  C33.  A forged record moves the window: when the record layer rejects a record for its
  MAC, \<open>dtls1_process_record\<close> reports success, the record is marked as received and
  counts as delivered, with the content of the previous one; every record more
  than 63 numbers below the forged one is dropped from then on.
\<close>

theorem bad_mac_moves_window:
  assumes "\<not> dc_listen s" "window_ok R (dc_bitmap s)" "length (rr_seq_num (dc_rrec s)) = 8"
    "rr_epoch (dc_rrec s) = env_read_epoch env (dc_rl s)" "rr_length (dc_rrec s) \<noteq> 0"
    "seq_max (dc_bitmap s) < be_val (rr_seq_num (dc_rrec s))"
    "env_open_record env (dc_version s) (dc_packet s) (dc_rl s) = (Rejected SSL_AD_BAD_RECORD_MAC, rl)"
  shows "\<exists>s'. dtls1_accept_record env s p = Return 1 s' \<and> dc_rcontent s' = dc_rcontent s
    \<and> (\<forall>seq. length seq = 8 \<and> be_val seq + 64 \<le> be_val (rr_seq_num (dc_rrec s)) \<longrightarrow>
         \<not> dtls1_record_replay_check (dc_bitmap s') seq)"
proof -
  let ?seq = "rr_seq_num (dc_rrec s)"
  let ?b = "dtls1_record_bitmap_update (dc_bitmap s) ?seq"
  have "be_val ?seq \<notin> R" using assms(2,6) by (auto simp: window_ok_def)
  then have "dtls1_record_replay_check (dc_bitmap s) ?seq"
    using assms(6) by (simp add: replay_check_iff [OF assms(2,3)])
  then have r: "dtls1_accept_record env s p = Return 1 (s\<lparr>dc_rl := rl, dc_packet := [], dc_bitmap := ?b\<rparr>)"
    using assms by (simp add: dtls1_accept_record_def dtls1_get_bitmap_def dtls1_process_record_def Let_def SSL_AD_BAD_RECORD_MAC_def)
  have ok: "window_ok (insert (be_val ?seq) R) ?b" by (rule bitmap_update_ok [OF assms(2,3)])
  then have "be_val ?seq \<le> seq_max ?b" by (simp add: window_ok_def)
  then have "\<not> dtls1_record_replay_check ?b seq" if "length seq = 8" "be_val seq + 64 \<le> be_val ?seq" for seq
    using that replay_check_iff [OF ok that(1)] by simp
  with r show ?thesis by simp
qed

definition ex_forged :: "(u16, bytes list) dtls_conn" where
  "ex_forged = (ex_conn [])\<lparr>dc_packet := ex_record 23 0 1000 [0xBD],
     dc_rrec := \<lparr>rr_type = 23, rr_length = 1, rr_epoch = 0, rr_seq_num = be_bytes 8 1000\<rparr>\<rparr>"

theorem bad_mac_moves_window_witness:
  "\<exists>s'. dtls1_accept_record ex_env ex_forged True = Return 1 s' \<and> \<not> dtls1_record_replay_check (dc_bitmap s') (be_bytes 8 1)"
proof -
  have w: "window_ok {} (dc_bitmap ex_forged)" using window_empty by (simp add: ex_forged_def ex_conn_def)
  have "\<not> dc_listen ex_forged" "length (rr_seq_num (dc_rrec ex_forged)) = 8"
    "rr_epoch (dc_rrec ex_forged) = env_read_epoch ex_env (dc_rl ex_forged)" "rr_length (dc_rrec ex_forged) \<noteq> 0"
    "seq_max (dc_bitmap ex_forged) < be_val (rr_seq_num (dc_rrec ex_forged))"
    "env_open_record ex_env (dc_version ex_forged) (dc_packet ex_forged) (dc_rl ex_forged) = (Rejected SSL_AD_BAD_RECORD_MAC, 0)"
    by code_simp+
  note bad_mac_moves_window [OF this(1) w this(2-), of True]
  moreover have "length (be_bytes 8 1) = 8 \<and> be_val (be_bytes 8 1) + 64 \<le> be_val (rr_seq_num (dc_rrec ex_forged))"
    by code_simp
  ultimately show ?thesis by blast
qed

text \<open>
  A record may span datagrams: a datagram that holds a header and nothing else is
  completed from the next one, since with no bytes left in the buffer the limit to what
  is there does not apply.
\<close>

lemma record_spans_datagrams:
  "fst (ex_get (ex_conn [take 13 (ex_record 22 0 4 [0xAA, 0xAB]), [0xAA, 0xAB]])) = 1
   \<and> ex_id (snd (ex_get (ex_conn [take 13 (ex_record 22 0 4 [0xAA, 0xAB]), [0xAA, 0xAB]]))) = (0, 4, [0xAA, 0xAB])"
  by code_simp

section \<open>Termination\<close>

text \<open>Bytes that have been received or wait at the transport.\<close>

definition conn_size :: "('rl, bytes list) dtls_conn \<Rightarrow> nat" where
  "conn_size s = length (rb_left (dc_rbuf s)) + sum_list (map length (dc_wire s))"

lemma read_more_size:
  assumes "read_more dgram_read dtls n mx left w = (r, left', w')" "0 < n"
  shows "length left' + sum_list (map length w') \<le> length left + sum_list (map length w)
    \<and> (case r of Inl i \<Rightarrow> i \<le> 0 | Inr m \<Rightarrow> 0 < m \<and> m \<le> length left')"
  using assms
proof (induction "dgram_read" dtls n mx left w rule: read_more.induct)
  case (1 dtls n mx left w)
  show ?case
  proof (cases "length left < n")
    case False
    then show ?thesis using "1.prems" by (auto simp: read_more.simps [of _ _ n])
  next
    case True
    show ?thesis
    proof (cases w)
      case Nil
      then show ?thesis using "1.prems" True by (auto simp: read_more.simps [of _ _ n])
    next
      case (Cons d ds)
      let ?data = "take (mx - length left) d"
      show ?thesis
      proof (cases "?data = []")
        case e: True
        then show ?thesis using "1.prems" True Cons by (auto simp: read_more.simps [of _ _ n])
      next
        case False
        let ?n = "if dtls \<and> length (left @ ?data) < n then length (left @ ?data) else n"
        have dr: "dgram_read (mx - length left) w = (Inr ?data, ds)" using Cons by simp
        have "read_more dgram_read dtls ?n mx (left @ ?data) ds = (r, left', w')"
          using "1.prems"(1) True False dr by (simp add: read_more.simps [of _ _ n] Let_def)
        note "1.hyps" [OF True dr [symmetric] refl False refl this]
        moreover have "0 < ?n" using False "1.prems"(2) by (cases "?data") auto
        ultimately show ?thesis using Cons by auto
      qed
    qed
  qed
qed

lemma setup_size: "ssl3_setup_read_buffer env s = Some s' \<Longrightarrow> conn_size s' = conn_size s"
  by (auto simp: ssl3_setup_read_buffer_def Let_def conn_size_def split: option.splits if_splits)

lemma fill_size:
  assumes "env_bio_read env = dgram_read" "ssl3_fill env s n mx = (r, s')" "0 < n"
  shows "conn_size s' + nat r \<le> conn_size s"
proof -
  let ?room = "(case rb_len (dc_rbuf s) of None \<Rightarrow> 0 | Some len \<Rightarrow> int len) - int (length (dc_packet s) + payload_align)"
  define m where "m = (if dc_read_ahead s \<or> dc_dtls s then min (max mx n) ?room else n)"
  obtain x left w where x: "read_more dgram_read (dc_dtls s) (nat n) (nat m) (rb_left (dc_rbuf s)) (dc_wire s) = (x, left, w)"
    by (metis prod_cases3)
  have sz: "length left + sum_list (map length w) \<le> conn_size s \<and> (case x of Inl i \<Rightarrow> i \<le> 0 | Inr k \<Rightarrow> 0 < k \<and> k \<le> length left)"
    using read_more_size [OF x] assms(3) by (simp add: conn_size_def)
  have f: "ssl3_fill env s n mx = (if n > ?room then (-1, s)
     else case (x, left, w) of
         (Inl i, left, w) \<Rightarrow> (i, s\<lparr>dc_wire := w,
            dc_rbuf := (if dc_release_buffers s \<and> \<not> dc_dtls s \<and> length (dc_packet s) + length left = 0
              then (dc_rbuf s)\<lparr>rb_left := left, rb_len := None\<rparr> else (dc_rbuf s)\<lparr>rb_left := left\<rparr>)\<rparr>)
       | (Inr n, left, w) \<Rightarrow> (int n, s\<lparr>dc_wire := w, dc_packet := dc_packet s @ take n left,
            dc_rbuf := (dc_rbuf s)\<lparr>rb_left := drop n left\<rparr>\<rparr>))"
    unfolding ssl3_fill_def Let_def assms(1) m_def [symmetric] x by (rule refl)
  show ?thesis
  proof (cases "n > ?room")
    case True
    then show ?thesis using assms(2) f by simp
  next
    case False
    then show ?thesis using assms(2) sz unfolding f by (cases x) (auto simp: conn_size_def split: if_splits)
  qed
qed

lemma read_n_size:
  assumes "env_bio_read env = dgram_read" "ssl3_read_n env s n mx ext = (r, s')" "0 < n"
  shows "conn_size s' + nat r \<le> conn_size s"
proof -
  obtain t where t: "(if rb_len (dc_rbuf s) = None then ssl3_setup_read_buffer env s else Some s) = t" by blast
  show ?thesis
  proof (cases t)
    case None
    then show ?thesis using assms t by (auto simp: ssl3_read_n_def)
  next
    case (Some u)
    have su: "conn_size u = conn_size s" using Some t setup_size by (auto split: if_split_asm)
    let ?left = "rb_left (dc_rbuf u)"
    define v where "v = (if \<not> ext then u\<lparr>dc_packet := []\<rparr> else u)"
    define m where "m = (if dc_dtls v \<and> length ?left > 0 \<and> n > int (length ?left) then int (length ?left) else n)"
    have sv: "conn_size v = conn_size s" "rb_left (dc_rbuf v) = ?left" using su by (simp_all add: conn_size_def v_def)
    have m: "0 < m" using assms(3) by (simp add: m_def)
    have n0: "(n \<le> 0) = False" using assms(3) by simp
    have r: "(if int (length ?left) \<ge> m
      then (m, v\<lparr>dc_packet := dc_packet v @ take (nat m) ?left, dc_rbuf := (dc_rbuf v)\<lparr>rb_left := drop (nat m) ?left\<rparr>\<rparr>)
      else ssl3_fill env v m mx) = (r, s')"
      using assms(2) Some unfolding ssl3_read_n_def t Let_def m_def v_def by (simp only: n0 if_False option.case)
    show ?thesis
    proof (cases "int (length ?left) \<ge> m")
      case True
      then have "r = m" "s' = v\<lparr>dc_packet := dc_packet v @ take (nat m) ?left, dc_rbuf := (dc_rbuf v)\<lparr>rb_left := drop (nat m) ?left\<rparr>\<rparr>"
        using r by auto
      then show ?thesis using True m sv by (simp add: conn_size_def)
    next
      case False
      then have "ssl3_fill env v m mx = (r, s')" using r by simp
      from fill_size [OF assms(1) this m] sv(1) show ?thesis by simp
    qed
  qed
qed

lemma packet_read_size:
  assumes "env_bio_read env = dgram_read" "ssl3_packet_read env s plen = (r, s')" "0 < plen" "0 < r"
  shows "conn_size s' < conn_size s"
proof -
  obtain n t where t: "ssl3_read_n env s (int plen) (case rb_len (dc_rbuf s) of None \<Rightarrow> 0 | Some len \<Rightarrow> int len) False = (n, t)"
    by fastforce
  have "conn_size t + nat n \<le> conn_size s" using read_n_size [OF assms(1) t] assms(3) by simp
  then show ?thesis using t assms(2,4) by (auto simp: ssl3_packet_read_def split: if_splits)
qed

lemma packet_extend_size:
  assumes "env_bio_read env = dgram_read" "ssl3_packet_extend env s plen = (r, s')"
  shows "conn_size s' \<le> conn_size s"
proof (cases "length (dc_packet s) \<ge> plen")
  case False
  obtain n t where t: "ssl3_read_n env s (int plen - int (length (dc_packet s))) (int plen - int (length (dc_packet s))) True = (n, t)"
    by fastforce
  have "conn_size t + nat n \<le> conn_size s" using read_n_size [OF assms(1) t] False by simp
  then show ?thesis using t assms(2) False by (auto simp: ssl3_packet_extend_def Let_def split: if_splits)
qed (use assms(2) in \<open>simp add: ssl3_packet_extend_def\<close>)

lemma accept_size:
  assumes "dtls1_accept_record env s p = Again s'"
  shows "conn_size s' \<le> conn_size s"
proof -
  have p: "conn_size t = conn_size s" if "dtls1_process_record env s = (b, t)" for b t
    using that by (auto simp: dtls1_process_record_def Let_def conn_size_def split: prod.splits open_result.splits if_splits)
  have b: "conn_size t \<le> conn_size s" if "dtls1_buffer_record env s prio = (r, t)" for prio r t
    using that by (auto simp: dtls1_buffer_record_def Let_def ssl3_setup_read_buffer_def conn_size_def ssl3_buffer_zero_def
        split: if_splits option.splits prod.splits)
  show ?thesis
  proof (cases "dtls1_get_bitmap env s")
    case None
    then show ?thesis using assms by (simp add: dtls1_accept_record_def)
  next
    case (Some nxt)
    show ?thesis
    proof (cases nxt)
      case True
      obtain r t where t: "dtls1_buffer_record env s (rr_seq_num (dc_rrec s)) = (r, t)" by fastforce
      have "s' = s \<or> s' = t\<lparr>dc_next_bitmap := dtls1_record_bitmap_update (dc_next_bitmap t) (rr_seq_num (dc_rrec t))\<rparr>"
        using assms Some True t by (auto simp: dtls1_accept_record_def Let_def split: if_splits)
      then show ?thesis using b [OF t] by (auto simp: conn_size_def)
    next
      case False
      obtain r t where t: "dtls1_process_record env s = (r, t)" by fastforce
      have "s' = s \<or> s' = t"
        using assms Some False t by (auto simp: dtls1_accept_record_def Let_def split: if_splits bool.splits)
      then show ?thesis using p [OF t] by auto
    qed
  qed
qed

lemma read_body_size:
  assumes "env_bio_read env = dgram_read" "dtls1_read_body env s p = Again s'"
  shows "conn_size s' \<le> conn_size s"
proof -
  obtain n t where t: "ssl3_packet_extend env s (DTLS1_RT_HEADER_LENGTH + rr_length (dc_rrec s)) = (n, t)" by fastforce
  have "conn_size t \<le> conn_size s" by (rule packet_extend_size [OF assms(1) t])
  moreover have "s' = t \<or> dtls1_accept_record env (t\<lparr>dc_reading_body := False\<rparr>) p = Again s'"
    using assms(2) t by (auto simp: dtls1_read_body_def Let_def split: if_splits)
  moreover have "conn_size (t\<lparr>dc_reading_body := False\<rparr>) = conn_size t" by (simp add: conn_size_def)
  ultimately show ?thesis using accept_size by fastforce
qed

lemma parse_header_size: "dtls1_parse_header s = (b, s') \<Longrightarrow> conn_size s' = conn_size s"
  by (auto simp: dtls1_parse_header_def Let_def conn_size_def split: prod.splits option.splits if_splits)

lemma turn_size:
  assumes "env_bio_read env = dgram_read" "dtls1_turn env s = Again s'"
  shows "conn_size s' + (if dc_packet s = [] then 1 else 0) \<le> conn_size s"
proof (cases "\<not> dc_reading_body s \<or> length (dc_packet s) < DTLS1_RT_HEADER_LENGTH")
  case True
  obtain n t where t: "ssl3_packet_read env s DTLS1_RT_HEADER_LENGTH = (n, t)" by fastforce
  have n: "0 < n" using assms(2) True t by (auto simp: dtls1_turn_def split: if_splits)
  have st: "conn_size t < conn_size s" by (rule packet_read_size [OF assms(1) t _ n]) (simp add: DTLS1_RT_HEADER_LENGTH_def)
  obtain b u where u: "dtls1_parse_header (t\<lparr>dc_reading_body := True\<rparr>) = (b, u)" by fastforce
  have su: "conn_size u = conn_size t" using parse_header_size [OF u] by (simp add: conn_size_def)
  have "s' = t \<or> s' = u \<or> dtls1_read_body env u True = Again s'"
    using assms(2) True t u by (auto simp: dtls1_turn_def split: if_splits bool.splits)
  then have "conn_size s' \<le> conn_size t" using su read_body_size [OF assms(1)] by fastforce
  then show ?thesis using st by simp
next
  case False
  then have "dc_packet s \<noteq> []" "dtls1_read_body env s False = Again s'"
    using assms(2) by (auto simp: dtls1_turn_def DTLS1_RT_HEADER_LENGTH_def)
  then show ?thesis using read_body_size [OF assms(1)] by simp
qed

text \<open>
  C31.  \<open>dtls1_get_record\<close> ends, however the datagrams that wait at the transport are
  malformed: one turn of the loop for each byte that was received, and two more,
  are enough.
\<close>

theorem dtls1_get_record_terminates:
  assumes "env_bio_read env = dgram_read" "conn_size s + 2 \<le> fuel"
  shows "\<exists>r s'. dtls1_get_record env fuel s = Some (r, s')"
proof -
  have loop: "\<exists>r s'. dtls1_get_loop env k t = Some (r, s')"
    if "conn_size t + (if dc_packet t = [] then 1 else 2) \<le> k" for k t
    using that
  proof (induction k arbitrary: t)
    case (Suc k)
    show ?case
    proof (cases "dtls1_turn env t")
      case (Again u)
      let ?u = "u\<lparr>dc_rrec := (dc_rrec u)\<lparr>rr_length := 0\<rparr>, dc_packet := []\<rparr>"
      have "conn_size u + (if dc_packet t = [] then 1 else 0) \<le> conn_size t" by (rule turn_size [OF assms(1) Again])
      moreover have "conn_size ?u = conn_size u" by (simp add: conn_size_def)
      ultimately have "conn_size ?u + (if dc_packet ?u = [] then 1 else 2) \<le> k" using Suc.prems by (auto split: if_splits)
      from Suc.IH [OF this] show ?thesis using Again by simp
    qed simp
  qed (simp split: if_splits)
  obtain q t where b: "dtls1_process_buffered_record env s = (q, t)" by fastforce
  have "q = 0 \<Longrightarrow> conn_size t = conn_size s"
    using b by (auto simp: dtls1_process_buffered_record_def Let_def conn_size_def split: if_splits prod.splits bool.splits)
  then show ?thesis using b loop [of t fuel] assms(2) by (auto simp: dtls1_get_record_def)
qed

theorem dtls1_get_record_terminates_witness:
  "\<exists>r s'. dtls1_get_record ex_env 200 (ex_conn (ex_wire @ [[22], [0, 0, 0]])) = Some (r, s')"
  by (rule dtls1_get_record_terminates) (simp add: ex_env_def, code_simp)

end
