(* ===== verification/BN_Words.thy ===== *)
theory BN_Words
  imports Prelude
begin

text \<open>
  The word primitives of the bignum code: the default implementations of
  libcrypto/bn/bn_internal.h for a machine without a double word type, for words
  of 64 bits.  An output pair \<open>(r1, r0)\<close> has the high word first, as in the
  names of the source.  The lemmas give the exact value of every primitive; no
  carry is lost.
\<close>

type_synonym bn_word = u64

section \<open>Definitions\<close>

definition bn_ct_ne_zero :: "bn_word \<Rightarrow> bn_word" where
  "bn_ct_ne_zero w = drop_bit 63 (w OR NOT (w - 1))"

definition bn_ct_ne_zero_mask :: "bn_word \<Rightarrow> bn_word" where
  "bn_ct_ne_zero_mask w = 0 - bn_ct_ne_zero w"

definition bn_ct_eq_zero :: "bn_word \<Rightarrow> bn_word" where
  "bn_ct_eq_zero w = 1 - bn_ct_ne_zero w"

definition bn_ct_eq_zero_mask :: "bn_word \<Rightarrow> bn_word" where
  "bn_ct_eq_zero_mask w = 0 - bn_ct_eq_zero w"

definition bn_addw :: "bn_word \<Rightarrow> bn_word \<Rightarrow> bn_word \<times> bn_word" where
  "bn_addw a b =
     (let c1 = a OR b; c2 = a AND b; r0 = a + b
      in (drop_bit 63 ((c1 AND NOT r0) OR c2), r0))"

definition bn_addw_addw :: "bn_word \<Rightarrow> bn_word \<Rightarrow> bn_word \<Rightarrow> bn_word \<times> bn_word" where
  "bn_addw_addw a b c =
     (let (r1, r0) = bn_addw a b; (carry, r0) = bn_addw r0 c in (r1 + carry, r0))"

definition bn_qwaddqw ::
  "bn_word \<Rightarrow> bn_word \<Rightarrow> bn_word \<Rightarrow> bn_word \<Rightarrow> bn_word \<Rightarrow> bn_word \<Rightarrow> bn_word \<Rightarrow> bn_word \<Rightarrow> bn_word
    \<Rightarrow> bn_word \<times> bn_word \<times> bn_word \<times> bn_word \<times> bn_word" where
  "bn_qwaddqw a3 a2 a1 a0 b3 b2 b1 b0 carry =
     (let (carry, r0) = bn_addw_addw a0 b0 carry;
          (carry, r1) = bn_addw_addw a1 b1 carry;
          (carry, r2) = bn_addw_addw a2 b2 carry;
          (carry, r3) = bn_addw_addw a3 b3 carry
      in (carry, r3, r2, r1, r0))"

definition bn_subw :: "bn_word \<Rightarrow> bn_word \<Rightarrow> bn_word \<times> bn_word" where
  "bn_subw a b =
     (let r0 = a - b in (drop_bit 63 ((r0 OR (b AND NOT a)) AND (b OR NOT a)), r0))"

definition bn_subw_subw :: "bn_word \<Rightarrow> bn_word \<Rightarrow> bn_word \<Rightarrow> bn_word \<times> bn_word" where
  "bn_subw_subw a b c =
     (let (b1, r0) = bn_subw a b; (b2, r0) = bn_subw r0 c in (b1 + b2, r0))"

definition bn_qwsubqw ::
  "bn_word \<Rightarrow> bn_word \<Rightarrow> bn_word \<Rightarrow> bn_word \<Rightarrow> bn_word \<Rightarrow> bn_word \<Rightarrow> bn_word \<Rightarrow> bn_word \<Rightarrow> bn_word
    \<Rightarrow> bn_word \<times> bn_word \<times> bn_word \<times> bn_word \<times> bn_word" where
  "bn_qwsubqw a3 a2 a1 a0 b3 b2 b1 b0 borrow =
     (let (borrow, r0) = bn_subw_subw a0 b0 borrow;
          (borrow, r1) = bn_subw_subw a1 b1 borrow;
          (borrow, r2) = bn_subw_subw a2 b2 borrow;
          (borrow, r3) = bn_subw_subw a3 b3 borrow
      in (borrow, r3, r2, r1, r0))"

definition BN_MASK2l :: bn_word where "BN_MASK2l = 0xffffffff"

definition bn_mulw :: "bn_word \<Rightarrow> bn_word \<Rightarrow> bn_word \<times> bn_word" where
  "bn_mulw a b =
     (let a1 = drop_bit 32 a; a0 = a AND BN_MASK2l;
          b1 = drop_bit 32 b; b0 = b AND BN_MASK2l;
          r1 = a1 * b1; r0 = a0 * b0;
          x = a1 * b0;
          r1 = r1 + drop_bit 32 x;
          (carry, r0) = bn_addw r0 (push_bit 32 x);
          r1 = r1 + carry;
          x = b1 * a0;
          r1 = r1 + drop_bit 32 x;
          (carry, r0) = bn_addw r0 (push_bit 32 x);
          r1 = r1 + carry
      in (r1, r0))"

definition bn_mulw_lo :: "bn_word \<Rightarrow> bn_word \<Rightarrow> bn_word" where
  "bn_mulw_lo a b = a * b"

definition bn_mulw_hi :: "bn_word \<Rightarrow> bn_word \<Rightarrow> bn_word" where
  "bn_mulw_hi a b = (let (h, l) = bn_mulw a b in h)"

definition bn_mulw_addw :: "bn_word \<Rightarrow> bn_word \<Rightarrow> bn_word \<Rightarrow> bn_word \<times> bn_word" where
  "bn_mulw_addw a b c =
     (let (r1, r0) = bn_mulw a b; (carry, r0) = bn_addw r0 c in (r1 + carry, r0))"

definition bn_mulw_addw_addw :: "bn_word \<Rightarrow> bn_word \<Rightarrow> bn_word \<Rightarrow> bn_word \<Rightarrow> bn_word \<times> bn_word" where
  "bn_mulw_addw_addw a b c d =
     (let (r1, r0) = bn_mulw_addw a b c; (carry, r0) = bn_addw r0 d in (r1 + carry, r0))"

definition bn_mulw_addtw ::
  "bn_word \<Rightarrow> bn_word \<Rightarrow> bn_word \<Rightarrow> bn_word \<Rightarrow> bn_word \<Rightarrow> bn_word \<times> bn_word \<times> bn_word" where
  "bn_mulw_addtw a b c2 c1 c0 =
     (let (x1, r0) = bn_mulw_addw a b c0; (carry, r1) = bn_addw c1 x1 in (c2 + carry, r1, r0))"

definition bn_mul2_mulw_addtw ::
  "bn_word \<Rightarrow> bn_word \<Rightarrow> bn_word \<Rightarrow> bn_word \<Rightarrow> bn_word \<Rightarrow> bn_word \<times> bn_word \<times> bn_word" where
  "bn_mul2_mulw_addtw a b c2 c1 c0 =
     (let (x1, x0) = bn_mulw a b;
          (carry, r0) = bn_addw c0 x0;
          (r2, r1) = bn_addw c1 (x1 + carry);
          (carry, r2) = bn_addw c2 r2;
          (carry, r0) = bn_addw r0 x0;
          (carry, r1) = bn_addw r1 (x1 + carry)
      in (r2 + carry, r1, r0))"

definition bn_qwmulw_addw ::
  "bn_word \<Rightarrow> bn_word \<Rightarrow> bn_word \<Rightarrow> bn_word \<Rightarrow> bn_word \<Rightarrow> bn_word
    \<Rightarrow> bn_word \<times> bn_word \<times> bn_word \<times> bn_word \<times> bn_word" where
  "bn_qwmulw_addw a3 a2 a1 a0 b c =
     (let (c, r0) = bn_mulw_addw a0 b c;
          (c, r1) = bn_mulw_addw a1 b c;
          (c, r2) = bn_mulw_addw a2 b c;
          (c, r3) = bn_mulw_addw a3 b c
      in (c, r3, r2, r1, r0))"

definition bn_qwmulw_addqw_addw ::
  "bn_word \<Rightarrow> bn_word \<Rightarrow> bn_word \<Rightarrow> bn_word \<Rightarrow> bn_word \<Rightarrow> bn_word \<Rightarrow> bn_word \<Rightarrow> bn_word \<Rightarrow> bn_word \<Rightarrow> bn_word
    \<Rightarrow> bn_word \<times> bn_word \<times> bn_word \<times> bn_word \<times> bn_word" where
  "bn_qwmulw_addqw_addw a3 a2 a1 a0 b c3 c2 c1 c0 d =
     (let (d, r0) = bn_mulw_addw_addw a0 b c0 d;
          (d, r1) = bn_mulw_addw_addw a1 b c1 d;
          (d, r2) = bn_mulw_addw_addw a2 b c2 d;
          (d, r3) = bn_mulw_addw_addw a3 b c3 d
      in (d, r3, r2, r1, r0))"

text \<open>
  \<open>bn_word_clz\<close> (bn_primitives.c) searches the position of the highest set bit
  without a branch on the word: each round moves \<open>bits\<close> by half the previous
  distance, down if the word shifted right by \<open>bits\<close> was zero.
\<close>

fun clz_loop :: "bn_word \<Rightarrow> nat \<Rightarrow> bn_word \<Rightarrow> bn_word \<Rightarrow> bn_word \<times> bn_word" where
  "clz_loop w shift bits msk =
     (let shift' = shift div 2
      in if shift' = 0 then (bits, msk)
         else let bits = bits + ((of_nat shift' AND msk) - (of_nat shift' AND NOT msk));
                  msk = bn_ct_ne_zero_mask (drop_bit (unat bits) w)
              in clz_loop w shift' bits msk)"

declare clz_loop.simps [simp del]

definition bn_word_clz :: "bn_word \<Rightarrow> int" where
  "bn_word_clz w =
     (let (bits, msk) = clz_loop w 64 64 0;
          bits = bits + (1 AND msk);
          bits = bits - bn_ct_eq_zero w
      in uint (64 - bits))"

section \<open>The value of the primitives\<close>

lemma u64_lt: "unat (w :: u64) < 2 ^ 64"
  using unsigned_less [where w = w and 'a = nat] by simp

lemma unat_drop_bit_64: "unat (drop_bit n (w :: u64)) = unat w div 2 ^ n"
  by (simp only: unat_drop_bit_eq drop_bit_eq_div [where a = "unat w"])

text \<open>The top bit as a number, and as a comparison.\<close>

lemma unat_top_bit: "unat (drop_bit 63 (w :: u64)) = of_bool (bit w 63)"
proof -
  have "unat w div 2 ^ 63 < 2" using u64_lt [of w] by (simp add: div_less_iff_less_mult)
  moreover have "odd (unat w div 2 ^ 63) \<longleftrightarrow> bit w 63"
    using bit_unsigned_iff [where w = w and n = 63 and 'a = nat] bit_iff_odd [of "unat w" 63] by simp
  ultimately have "unat w div 2 ^ 63 = of_bool (bit w 63)"
    by (auto simp: less_2_cases_iff)
  then show ?thesis by (simp only: unat_drop_bit_64)
qed

lemma top_bit_iff: "bit (w :: u64) 63 \<longleftrightarrow> 2 ^ 63 \<le> unat w"
proof -
  have "bit w 63 \<longleftrightarrow> unat (drop_bit 63 w) \<noteq> 0" by (simp only: unat_top_bit) simp
  also have "\<dots> \<longleftrightarrow> unat w div 2 ^ 63 \<noteq> 0" by (simp only: unat_drop_bit_64)
  also have "\<dots> \<longleftrightarrow> 2 ^ 63 \<le> unat w" by (simp add: div_eq_0_iff not_less)
  finally show ?thesis .
qed

lemma unat_add_u64: "unat (a + b :: u64) = (if unat a + unat b < 2 ^ 64 then unat a + unat b else unat a + unat b - 2 ^ 64)"
  using u64_lt [of a] u64_lt [of b] by (simp add: unat_word_ariths mod_if)

lemma unat_sub_u64: "unat (a - b :: u64) = (if unat b \<le> unat a then unat a - unat b else unat a + 2 ^ 64 - unat b)"
  using u64_lt [of a] u64_lt [of b]
  by (simp add: unat_sub_if' )

lemma bn_addw_value:
  assumes "bn_addw a b = (r1, r0)"
  shows "unat r1 * 2 ^ 64 + unat r0 = unat a + unat b"
proof -
  have r0: "r0 = a + b" and r1: "r1 = drop_bit 63 (((a OR b) AND NOT r0) OR (a AND b))"
    using assms by (auto simp: bn_addw_def Let_def)
  have "unat r1 = of_bool (((bit a 63 \<or> bit b 63) \<and> \<not> bit r0 63) \<or> (bit a 63 \<and> bit b 63))"
    unfolding r1 unat_top_bit by (simp add: bit_simps)
  then have "unat r1 = of_bool (2 ^ 64 \<le> unat a + unat b)"
    unfolding top_bit_iff r0 unat_add_u64 using u64_lt [of a] u64_lt [of b] by (auto split: if_splits)
  then show ?thesis unfolding r0 unat_add_u64 by auto
qed

lemma bn_subw_value:
  assumes "bn_subw a b = (borrow, r0)"
  shows "unat a + unat borrow * 2 ^ 64 = unat r0 + unat b"
proof -
  have r0: "r0 = a - b" and b: "borrow = drop_bit 63 ((r0 OR (b AND NOT a)) AND (b OR NOT a))"
    using assms by (auto simp: bn_subw_def Let_def)
  have "unat borrow = of_bool ((bit r0 63 \<or> (bit b 63 \<and> \<not> bit a 63)) \<and> (bit b 63 \<or> \<not> bit a 63))"
    unfolding b unat_top_bit by (simp add: bit_simps)
  then have "unat borrow = of_bool (unat a < unat b)"
    unfolding top_bit_iff r0 unat_sub_u64 using u64_lt [of a] u64_lt [of b] by (auto split: if_splits)
  then show ?thesis unfolding r0 unat_sub_u64 using u64_lt [of b] by auto
qed

lemma bn_addw_carry: "bn_addw a b = (r1, r0) \<Longrightarrow> unat r1 \<le> 1"
  using bn_addw_value [of a b r1 r0] u64_lt [of a] u64_lt [of b] by simp

text \<open>A high word is not reduced when the value fits two words.\<close>

lemma high_word_exact:
  assumes "s * 2 ^ 64 + r = v" and "v < 2 ^ 128" and "unat (h :: u64) = s mod 2 ^ 64"
  shows "unat h = s"
proof -
  have "s * 2 ^ 64 < 2 ^ 64 * 2 ^ 64" using assms(1,2) by simp
  then have "s < 2 ^ 64" by simp
  with assms(3) show ?thesis by simp
qed

lemma unat_add_mod: "unat (a + b :: u64) = (unat a + unat b) mod 2 ^ 64"
  by (simp add: unat_word_ariths)

lemma bn_addw_addw_value:
  assumes "bn_addw_addw a b c = (r1, r0)"
  shows "unat r1 * 2 ^ 64 + unat r0 = unat a + unat b + unat c"
proof -
  obtain h l where 1: "bn_addw a b = (h, l)" by fastforce
  obtain h' l' where 2: "bn_addw l c = (h', l')" by fastforce
  have "r1 = h + h'" "r0 = l'" using assms by (simp_all add: bn_addw_addw_def 1 2)
  moreover have "unat (h + h') = unat h + unat h'"
    using bn_addw_carry [OF 1] bn_addw_carry [OF 2] by (simp add: unat_add_u64)
  ultimately show ?thesis using bn_addw_value [OF 1] bn_addw_value [OF 2] by simp
qed

lemma bn_subw_borrow: "bn_subw a b = (c, r0) \<Longrightarrow> unat c \<le> 1"
  using bn_subw_value [of a b c r0] u64_lt [of r0] u64_lt [of b] by simp

lemma bn_subw_subw_value:
  assumes "bn_subw_subw a b c = (borrow, r0)"
  shows "unat a + unat borrow * 2 ^ 64 = unat r0 + unat b + unat c"
proof -
  obtain h l where 1: "bn_subw a b = (h, l)" by fastforce
  obtain h' l' where 2: "bn_subw l c = (h', l')" by fastforce
  have "borrow = h + h'" "r0 = l'" using assms by (simp_all add: bn_subw_subw_def 1 2)
  moreover have "unat (h + h') = unat h + unat h'"
    using bn_subw_borrow [OF 1] bn_subw_borrow [OF 2] by (simp add: unat_add_u64)
  ultimately show ?thesis using bn_subw_value [OF 1] bn_subw_value [OF 2] by simp
qed

text \<open>The two halves of a word.\<close>

lemma unat_and_mask2l: "unat (a AND BN_MASK2l) = unat a mod 2 ^ 32"
proof -
  have "BN_MASK2l = mask 32" by (simp add: BN_MASK2l_def mask_eq_exp_minus_1)
  then have "a AND BN_MASK2l = take_bit 32 a" by (simp add: take_bit_eq_mask)
  then show ?thesis by (simp only: unsigned_take_bit_eq take_bit_eq_mod [where a = "unat a"])
qed

lemma unat_mult_halves:
  assumes "unat (a :: u64) < 2 ^ 32" and "unat b < 2 ^ 32"
  shows "unat (a * b) = unat a * unat b"
proof -
  have "unat a * unat b < 2 ^ 32 * 2 ^ 32" using assms by (intro mult_strict_mono) auto
  then show ?thesis by (simp add: unat_word_ariths)
qed

lemma unat_push_bit_32: "unat (push_bit 32 (x :: u64)) = unat x mod 2 ^ 32 * 2 ^ 32"
proof -
  have "unat (push_bit 32 x) = unat x * 2 ^ 32 mod (2 ^ 32 * 2 ^ 32)"
    by (simp add: push_bit_eq_mult unat_word_ariths)
  then show ?thesis by (simp only: mult_mod_left)
qed

lemma mul_halves:
  fixes a1 a0 b1 b0 m :: nat
  assumes "x = a1 * b0" and "y = b1 * a0"
  shows "(a1 * b1 + x div m + y div m) * (m * m) + (a0 * b0 + x mod m * m + y mod m * m) =
    (a1 * m + a0) * (b1 * m + b0)"
proof -
  have "x div m * (m * m) + x mod m * m = x * m" "y div m * (m * m) + y mod m * m = y * m"
    by (metis add_mult_distrib div_mult_mod_eq mult.assoc)+
  then show ?thesis using assms by (simp add: algebra_simps)
qed

lemma bn_mulw_value:
  assumes "bn_mulw a b = (r1, r0)"
  shows "unat r1 * 2 ^ 64 + unat r0 = unat a * unat b"
proof -
  define a1 a0 b1 b0 where "a1 = drop_bit 32 a" and "a0 = a AND BN_MASK2l"
    and "b1 = drop_bit 32 b" and "b0 = b AND BN_MASK2l"
  note halves = a1_def a0_def b1_def b0_def
  define x y where "x = a1 * b0" and "y = b1 * a0"
  obtain c l where 1: "bn_addw (a0 * b0) (push_bit 32 x) = (c, l)" by fastforce
  obtain c' l' where 2: "bn_addw l (push_bit 32 y) = (c', l')" by fastforce
  have r: "r1 = a1 * b1 + drop_bit 32 x + c + drop_bit 32 y + c'" "r0 = l'"
    using assms unfolding bn_mulw_def Let_def halves [symmetric] x_def [symmetric] y_def [symmetric] 1
    by (simp_all add: 2)
  have ab: "unat a = unat a1 * 2 ^ 32 + unat a0" "unat b = unat b1 * 2 ^ 32 + unat b0"
    unfolding halves unat_drop_bit_64 unat_and_mask2l by simp_all
  have lt: "unat a1 < 2 ^ 32" "unat b1 < 2 ^ 32" "unat a0 < 2 ^ 32" "unat b0 < 2 ^ 32"
    unfolding halves unat_drop_bit_64 unat_and_mask2l using u64_lt [of a] u64_lt [of b]
    by (simp_all add: div_less_iff_less_mult)
  have xy: "unat x = unat a1 * unat b0" "unat y = unat b1 * unat a0"
    unfolding x_def y_def using lt by (simp_all add: unat_mult_halves)
  define s where "s = unat a1 * unat b1 + unat x div 2 ^ 32 + unat c + unat y div 2 ^ 32 + unat c'"
  have "s * 2 ^ 64 + unat r0 = (unat a1 * unat b1 + unat x div 2 ^ 32 + unat y div 2 ^ 32) * 2 ^ 64
      + (unat a0 * unat b0 + unat x mod 2 ^ 32 * 2 ^ 32 + unat y mod 2 ^ 32 * 2 ^ 32)"
    using bn_addw_value [OF 1] bn_addw_value [OF 2] unfolding s_def r unat_push_bit_32
    using lt by (simp add: unat_mult_halves algebra_simps)
  also have "\<dots> = unat a * unat b"
    using mul_halves [OF xy, of "2 ^ 32"] unfolding ab by simp
  finally have v: "s * 2 ^ 64 + unat r0 = unat a * unat b" .
  have "unat a * unat b < 2 ^ 64 * 2 ^ 64" using u64_lt [of a] u64_lt [of b] by (intro mult_strict_mono) auto
  then have lt2: "unat a * unat b < 2 ^ 128" by simp
  have "unat r1 = s mod 2 ^ 64"
    unfolding r s_def unat_add_mod unat_drop_bit_64 using lt by (simp add: unat_mult_halves mod_simps)
  from high_word_exact [OF v lt2 this] v show ?thesis by simp
qed

lemma bn_mulw_addw_value:
  assumes "bn_mulw_addw a b c = (r1, r0)"
  shows "unat r1 * 2 ^ 64 + unat r0 = unat a * unat b + unat c"
proof -
  obtain h l where 1: "bn_mulw a b = (h, l)" by fastforce
  obtain h' l' where 2: "bn_addw l c = (h', l')" by fastforce
  have r: "r1 = h + h'" "r0 = l'" using assms by (simp_all add: bn_mulw_addw_def 1 2)
  have v: "(unat h + unat h') * 2 ^ 64 + unat r0 = unat a * unat b + unat c"
    using bn_mulw_value [OF 1] bn_addw_value [OF 2] r by simp
  have "unat a * unat b \<le> (2 ^ 64 - 1) * (2 ^ 64 - 1)"
    using u64_lt [of a] u64_lt [of b] by (intro mult_le_mono) auto
  then have "unat a * unat b + unat c < 2 ^ 128" using u64_lt [of c] by simp
  from high_word_exact [OF v this, of r1] v show ?thesis by (simp add: r unat_add_mod)
qed

lemma bn_mulw_addw_addw_value:
  assumes "bn_mulw_addw_addw a b c d = (r1, r0)"
  shows "unat r1 * 2 ^ 64 + unat r0 = unat a * unat b + unat c + unat d"
proof -
  obtain h l where 1: "bn_mulw_addw a b c = (h, l)" by fastforce
  obtain h' l' where 2: "bn_addw l d = (h', l')" by fastforce
  have r: "r1 = h + h'" "r0 = l'" using assms by (simp_all add: bn_mulw_addw_addw_def 1 2)
  have v: "(unat h + unat h') * 2 ^ 64 + unat r0 = unat a * unat b + unat c + unat d"
    using bn_mulw_addw_value [OF 1] bn_addw_value [OF 2] r by simp
  have "unat a * unat b \<le> (2 ^ 64 - 1) * (2 ^ 64 - 1)"
    using u64_lt [of a] u64_lt [of b] by (intro mult_le_mono) auto
  then have "unat a * unat b + unat c + unat d < 2 ^ 128" using u64_lt [of c] u64_lt [of d] by simp
  from high_word_exact [OF v this, of r1] v show ?thesis by (simp add: r unat_add_mod)
qed

text \<open>The value of three words; the top one must leave room for the carry.\<close>

definition tw_val :: "bn_word \<times> bn_word \<times> bn_word \<Rightarrow> nat" where
  "tw_val r = (case r of (r2, r1, r0) \<Rightarrow> unat r2 * 2 ^ 128 + unat r1 * 2 ^ 64 + unat r0)"

lemma bn_mulw_addtw_value:
  assumes "bn_mulw_addtw a b c2 c1 c0 = r" and "unat c2 + 1 < 2 ^ 64"
  shows "tw_val r = unat a * unat b + tw_val (c2, c1, c0)" and "unat (fst r) \<le> unat c2 + 1"
proof -
  obtain x1 r0 where 1: "bn_mulw_addw a b c0 = (x1, r0)" by fastforce
  obtain carry r1 where 2: "bn_addw c1 x1 = (carry, r1)" by fastforce
  have r: "r = (c2 + carry, r1, r0)" using assms(1) by (simp add: bn_mulw_addtw_def 1 2)
  have u: "unat (c2 + carry) = unat c2 + unat carry"
    using bn_addw_carry [OF 2] assms(2) by (simp add: unat_add_u64)
  show "tw_val r = unat a * unat b + tw_val (c2, c1, c0)"
    using bn_mulw_addw_value [OF 1] bn_addw_value [OF 2] unfolding r tw_val_def
    by (simp add: u algebra_simps)
  show "unat (fst r) \<le> unat c2 + 1" using bn_addw_carry [OF 2] by (simp add: r u)
qed

section \<open>Tests without branches\<close>

lemma bn_ct_ne_zero_eq [simp]: "bn_ct_ne_zero w = of_bool (w \<noteq> 0)"
proof -
  have "NOT (w - 1) = - w" by (simp add: minus_eq_not_minus_1)
  moreover have "bit w 63 \<or> bit (- w) 63" if "w \<noteq> 0"
    using that unat_sub_u64 [of 0 w] u64_lt [of w] by (auto simp: top_bit_iff unat_eq_zero)
  ultimately have "unat (bn_ct_ne_zero w) = of_bool (w \<noteq> 0)"
    unfolding bn_ct_ne_zero_def unat_top_bit by (auto simp: bit_simps)
  then show ?thesis by (simp add: word_unat_eq_iff)
qed

lemma bn_ct_ne_zero_mask_eq [simp]: "bn_ct_ne_zero_mask w = (if w = 0 then 0 else - 1)"
  by (simp add: bn_ct_ne_zero_mask_def)

lemma bn_ct_eq_zero_eq [simp]: "bn_ct_eq_zero w = of_bool (w = 0)"
  by (simp add: bn_ct_eq_zero_def)

lemma bn_ct_eq_zero_mask_eq [simp]: "bn_ct_eq_zero_mask w = (if w = 0 then - 1 else 0)"
  by (simp add: bn_ct_eq_zero_mask_def)

text \<open>
  The search in \<open>clz_loop\<close>: if \<open>p\<close> is the position of the highest bit (0 for the
  word 0), it lies in the interval of \<open>2 ^ k\<close> positions above or below \<open>bits\<close>,
  as the mask says.
\<close>

lemma clz_loop_finds:
  assumes "\<And>b. b < 64 \<Longrightarrow> drop_bit b w \<noteq> 0 \<longleftrightarrow> w \<noteq> 0 \<and> b \<le> p" and "w = 0 \<Longrightarrow> p = 0"
    and "clz_loop w (2 ^ k) (of_nat b) (if up then - 1 else 0) = (bits, m)"
    and "up \<Longrightarrow> w \<noteq> 0 \<and> b \<le> p \<and> p < b + 2 ^ k \<and> b + 2 ^ k \<le> 64"
    and "\<not> up \<Longrightarrow> p < b \<and> b \<le> p + 2 ^ k \<and> 2 ^ k \<le> b \<and> b \<le> 64"
  shows "\<exists>up'. m = (if up' then - 1 else 0) \<and> unat bits + (if up' then 1 else 0) = p + 1 \<and> (up' \<longrightarrow> w \<noteq> 0)"
  using assms(3-)
proof (induction k arbitrary: b up)
  case 0
  then have "bits = of_nat b" "m = (if up then - 1 else 0)" by (simp_all add: clz_loop.simps)
  moreover have "unat (of_nat b :: u64) = b" using 0 by (cases up) (auto simp: unat_of_nat)
  ultimately show ?case using 0 by (intro exI [of _ up]) auto
next
  case (Suc k)
  define b' where "b' = (if up then b + 2 ^ k else b - 2 ^ k)"
  define up' where "up' \<longleftrightarrow> w \<noteq> 0 \<and> b' \<le> p"
  have b': "b' < 64" "up \<longrightarrow> b' = b + 2 ^ k" "\<not> up \<longrightarrow> b' + 2 ^ k = b"
    using Suc.prems(2,3) by (auto simp: b'_def split: if_splits)
  then have u: "unat (of_nat b' :: u64) = b'" by (simp add: unat_of_nat)
  have "of_nat b + ((of_nat (2 ^ k) AND (if up then - 1 else 0)) - (of_nat (2 ^ k) AND NOT (if up then - 1 else 0)))
      = (of_nat b' :: u64)"
  proof (cases up)
    case False
    then have "of_nat b = (of_nat b' + of_nat (2 ^ k) :: u64)" using b' by (metis of_nat_add)
    then show ?thesis using False by simp
  qed (use b' in simp)
  moreover have "bn_ct_ne_zero_mask (drop_bit (unat (of_nat b' :: u64)) w) = (if up' then - 1 else 0)"
    using assms(1) [OF b'(1)] unfolding u up'_def bn_ct_ne_zero_mask_eq by (metis (full_types))
  ultimately have "clz_loop w (2 ^ k) (of_nat b') (if up' then - 1 else 0) = (bits, m)"
    using Suc.prems(1) by (subst (asm) clz_loop.simps) (simp add: Let_def)
  moreover have "up' \<Longrightarrow> w \<noteq> 0 \<and> b' \<le> p \<and> p < b' + 2 ^ k \<and> b' + 2 ^ k \<le> 64"
    using Suc.prems(2,3) b' by (cases up) (auto simp: up'_def)
  moreover have "\<not> up' \<Longrightarrow> p < b' \<and> b' \<le> p + 2 ^ k \<and> 2 ^ k \<le> b' \<and> b' \<le> 64"
    using Suc.prems(2,3) b' assms(2) by (cases up; cases "w = 0") (auto simp: up'_def)
  ultimately show ?case by (rule Suc.IH)
qed

text \<open>The number of significant bits of a word.\<close>

definition word_bits :: "bn_word \<Rightarrow> nat" where
  "word_bits w = nat (64 - bn_word_clz w)"

lemma bn_word_clz_zero: "bn_word_clz 0 = 64"
proof -
  obtain bits m where loop: "clz_loop 0 64 64 0 = (bits, m)" by fastforce
  then have "clz_loop 0 (2 ^ 6) (of_nat 64) (if False then - 1 else 0) = (bits, m)" by simp
  then have "m = 0" "unat bits = 1" using clz_loop_finds [of 0 0 6 64 False bits m] by auto
  then have "bits = 1" by (simp add: word_unat_eq_iff)
  with \<open>m = 0\<close> show ?thesis by (simp add: bn_word_clz_def loop)
qed

lemma bn_word_clz_pos:
  assumes "w \<noteq> 0"
  obtains p where "bn_word_clz w = 63 - int p" "p < 64" "2 ^ p \<le> unat w" "unat w < 2 ^ (p + 1)"
proof -
  have "1 \<le> unat w" using assms by (simp add: unat_gt_0 Suc_le_eq)
  then obtain p where p: "2 ^ p \<le> unat w" "unat w < 2 ^ (p + 1)"
    using ex_power_ivl1 [of 2 "unat w"] by auto
  have "(2 :: nat) ^ p < 2 ^ 64" using p(1) u64_lt [of w] by linarith
  then have p64: "p < 64" by (rule power_less_imp_less_exp [rotated]) simp
  have le: "drop_bit b w \<noteq> 0 \<longleftrightarrow> w \<noteq> 0 \<and> b \<le> p" for b
  proof -
    have "drop_bit b w \<noteq> 0 \<longleftrightarrow> 2 ^ b \<le> unat w"
      unfolding word_unat_eq_iff unat_drop_bit_64 by (simp add: div_eq_0_iff not_less)
    also have "\<dots> \<longleftrightarrow> b \<le> p"
    proof
      assume "2 ^ b \<le> unat w"
      then have "(2 :: nat) ^ b < 2 ^ (p + 1)" using p(2) by linarith
      then show "b \<le> p" by (simp add: less_Suc_eq_le [symmetric] del: power_Suc)
    next
      assume "b \<le> p"
      then have "(2 :: nat) ^ b \<le> 2 ^ p" by simp
      then show "2 ^ b \<le> unat w" using p(1) by linarith
    qed
    finally show ?thesis using assms by simp
  qed
  obtain bits m where loop: "clz_loop w 64 64 0 = (bits, m)" by fastforce
  then have "clz_loop w (2 ^ 6) (of_nat 64) (if False then - 1 else 0) = (bits, m)" by simp
  then obtain up where up: "m = (if up then - 1 else 0)" "unat bits + (if up then 1 else 0) = p + 1"
    using clz_loop_finds [of w p 6 64 False bits m] le assms p64 by auto
  have "unat (bits + (1 AND m)) = p + 1"
    using up p64 by (auto simp: unat_add_u64)
  then have "bits + (1 AND m) = of_nat (p + 1)" by (metis of_nat_unat ucast_id)
  then have "bn_word_clz w = uint (64 - of_nat (p + 1) :: u64)"
    using assms by (simp add: bn_word_clz_def loop)
  also have "(64 - of_nat (p + 1) :: u64) = of_nat (63 - p)" using p64 by (simp add: of_nat_diff)
  also have "uint (of_nat (63 - p) :: u64) = 63 - int p" 
  proof -
    have "unat (of_nat (63 - p) :: u64) = 63 - p" by (simp add: unat_of_nat)
    then show ?thesis unfolding uint_nat using p64 by linarith
  qed
  finally show ?thesis using that p p64 by blast
qed

lemma word_bits_zero [simp]: "word_bits 0 = 0"
  by (simp add: word_bits_def bn_word_clz_zero)

lemma word_bits_bounds:
  assumes "w \<noteq> 0"
  shows "2 ^ (word_bits w - 1) \<le> unat w" "unat w < 2 ^ word_bits w" "0 < word_bits w" "word_bits w \<le> 64"
    "bn_word_clz w = 64 - int (word_bits w)"
proof -
  obtain p where p: "bn_word_clz w = 63 - int p" "p < 64" "2 ^ p \<le> unat w" "unat w < 2 ^ (p + 1)"
    by (rule bn_word_clz_pos [OF assms])
  then have "word_bits w = p + 1" by (simp add: word_bits_def)
  with p show "2 ^ (word_bits w - 1) \<le> unat w" "unat w < 2 ^ word_bits w" "0 < word_bits w" "word_bits w \<le> 64"
    "bn_word_clz w = 64 - int (word_bits w)" by simp_all
qed

lemma bn_word_clz_eq: "bn_word_clz w = 64 - int (word_bits w)"
  by (cases "w = 0") (simp_all add: bn_word_clz_zero word_bits_bounds)

end
