(* ===== verification/BN_Arrays.thy ===== *)
theory BN_Arrays
  imports BN_Words
begin

text \<open>
  Arithmetic on arrays of words: addition and subtraction (libcrypto/bn/bn_add.c),
  multiplication (bn_mul.c), each with its loops as written, four words at a time
  and then one by one.  An array is the list of its words, lowest first; a pointer
  that the code advances is the rest of the list.  Every routine returns the new
  contents of its output array \<open>r\<close>, whose words beyond the result stay as they
  are.  The loops read the words at an index before they write that index and do
  not return to it, so the result is the same when \<open>r\<close> is \<open>a\<close> or \<open>b\<close>.
\<close>

type_synonym words = "bn_word list"

section \<open>Definitions\<close>

fun add_words_loop :: "bn_word \<Rightarrow> words \<Rightarrow> words \<Rightarrow> words \<Rightarrow> nat \<Rightarrow> bn_word \<times> words" where
  "add_words_loop carry r a b n =
     (if n \<ge> 4 then
        (let (carry, r3, r2, r1, r0) =
               bn_qwaddqw (a ! 3) (a ! 2) (a ! 1) (a ! 0) (b ! 3) (b ! 2) (b ! 1) (b ! 0) carry;
             (carry, r) = add_words_loop carry (drop 4 r) (drop 4 a) (drop 4 b) (n - 4)
         in (carry, r0 # r1 # r2 # r3 # r))
      else if n > 0 then
        (let (carry, r0) = bn_addw_addw (a ! 0) (b ! 0) carry;
             (carry, r) = add_words_loop carry (drop 1 r) (drop 1 a) (drop 1 b) (n - 1)
         in (carry, r0 # r))
      else (carry, r))"

declare add_words_loop.simps [simp del]

definition bn_add_words :: "words \<Rightarrow> words \<Rightarrow> words \<Rightarrow> nat \<Rightarrow> bn_word \<times> words" where
  "bn_add_words r a b n = (if n \<le> 0 then (0, r) else add_words_loop 0 r a b n)"

text \<open>The loops of \<open>bn_add\<close> over the words that only one of the numbers has.\<close>

fun add_rest_loop :: "bn_word \<Rightarrow> words \<Rightarrow> words \<Rightarrow> nat \<Rightarrow> bn_word \<times> words" where
  "add_rest_loop carry r b n =
     (if n = 0 then (carry, r)
      else let (carry, r0) = bn_addw (b ! 0) carry;
               (carry, r) = add_rest_loop carry (drop 1 r) (drop 1 b) (n - 1)
           in (carry, r0 # r))"

declare add_rest_loop.simps [simp del]

definition bn_add :: "words \<Rightarrow> nat \<Rightarrow> words \<Rightarrow> nat \<Rightarrow> words \<Rightarrow> nat \<Rightarrow> bn_word \<times> words" where
  "bn_add r r_len a a_len b b_len =
     (let min_len = (if a_len > b_len then b_len else a_len);
          diff_len = int a_len - int b_len;
          (carry, r) = bn_add_words r a b min_len;
          (carry, rest) =
            (if diff_len < 0 then add_rest_loop carry (drop min_len r) (drop min_len b) (nat (- diff_len))
             else add_rest_loop carry (drop min_len r) (drop min_len a) (nat diff_len))
      in (carry, take min_len r @ rest))"

fun sub_words_loop :: "bn_word \<Rightarrow> words \<Rightarrow> words \<Rightarrow> words \<Rightarrow> nat \<Rightarrow> bn_word \<times> words" where
  "sub_words_loop borrow r a b n =
     (if n \<ge> 4 then
        (let (borrow, r3, r2, r1, r0) =
               bn_qwsubqw (a ! 3) (a ! 2) (a ! 1) (a ! 0) (b ! 3) (b ! 2) (b ! 1) (b ! 0) borrow;
             (borrow, r) = sub_words_loop borrow (drop 4 r) (drop 4 a) (drop 4 b) (n - 4)
         in (borrow, r0 # r1 # r2 # r3 # r))
      else if n > 0 then
        (let (borrow, r0) = bn_subw_subw (a ! 0) (b ! 0) borrow;
             (borrow, r) = sub_words_loop borrow (drop 1 r) (drop 1 a) (drop 1 b) (n - 1)
         in (borrow, r0 # r))
      else (borrow, r))"

declare sub_words_loop.simps [simp del]

definition bn_sub_words :: "words \<Rightarrow> words \<Rightarrow> words \<Rightarrow> nat \<Rightarrow> bn_word \<times> words" where
  "bn_sub_words r a b n = (if n \<le> 0 then (0, r) else sub_words_loop 0 r a b n)"

text \<open>The first loop subtracts the words that only \<open>b\<close> has, the second the borrow from those of \<open>a\<close>.\<close>

fun sub_rest_b_loop :: "bn_word \<Rightarrow> words \<Rightarrow> words \<Rightarrow> nat \<Rightarrow> bn_word \<times> words" where
  "sub_rest_b_loop borrow r b n =
     (if n = 0 then (borrow, r)
      else let (borrow, r0) = bn_subw (0 - b ! 0) borrow;
               (borrow, r) = sub_rest_b_loop borrow (drop 1 r) (drop 1 b) (n - 1)
           in (borrow, r0 # r))"

declare sub_rest_b_loop.simps [simp del]

fun sub_rest_a_loop :: "bn_word \<Rightarrow> words \<Rightarrow> words \<Rightarrow> nat \<Rightarrow> bn_word \<times> words" where
  "sub_rest_a_loop borrow r a n =
     (if n = 0 then (borrow, r)
      else let (borrow, r0) = bn_subw (a ! 0) borrow;
               (borrow, r) = sub_rest_a_loop borrow (drop 1 r) (drop 1 a) (n - 1)
           in (borrow, r0 # r))"

declare sub_rest_a_loop.simps [simp del]

definition bn_sub :: "words \<Rightarrow> nat \<Rightarrow> words \<Rightarrow> nat \<Rightarrow> words \<Rightarrow> nat \<Rightarrow> bn_word \<times> words" where
  "bn_sub r r_len a a_len b b_len =
     (let min_len = (if a_len > b_len then b_len else a_len);
          diff_len = int a_len - int b_len;
          (borrow, r) = bn_sub_words r a b min_len;
          (borrow, rest) =
            (if diff_len < 0 then sub_rest_b_loop borrow (drop min_len r) (drop min_len b) (nat (- diff_len))
             else sub_rest_a_loop borrow (drop min_len r) (drop min_len a) (nat diff_len))
      in (borrow, take min_len r @ rest))"

fun mul_words_loop :: "bn_word \<Rightarrow> words \<Rightarrow> words \<Rightarrow> nat \<Rightarrow> bn_word \<Rightarrow> bn_word \<times> words" where
  "mul_words_loop carry r a num w =
     (if num \<ge> 4 then
        (let (carry, r3, r2, r1, r0) = bn_qwmulw_addw (a ! 3) (a ! 2) (a ! 1) (a ! 0) w carry;
             (carry, r) = mul_words_loop carry (drop 4 r) (drop 4 a) (num - 4) w
         in (carry, r0 # r1 # r2 # r3 # r))
      else if num > 0 then
        (let (carry, r0) = bn_mulw_addw (a ! 0) w carry;
             (carry, r) = mul_words_loop carry (drop 1 r) (drop 1 a) (num - 1) w
         in (carry, r0 # r))
      else (carry, r))"

declare mul_words_loop.simps [simp del]

definition bn_mul_words :: "words \<Rightarrow> words \<Rightarrow> nat \<Rightarrow> bn_word \<Rightarrow> bn_word \<times> words" where
  "bn_mul_words r a num w = (if num \<le> 0 then (0, r) else mul_words_loop 0 r a num w)"

fun mul_add_words_loop :: "bn_word \<Rightarrow> words \<Rightarrow> words \<Rightarrow> nat \<Rightarrow> bn_word \<Rightarrow> bn_word \<times> words" where
  "mul_add_words_loop carry r a num w =
     (if num \<ge> 4 then
        (let (carry, r3, r2, r1, r0) =
               bn_qwmulw_addqw_addw (a ! 3) (a ! 2) (a ! 1) (a ! 0) w (r ! 3) (r ! 2) (r ! 1) (r ! 0) carry;
             (carry, r) = mul_add_words_loop carry (drop 4 r) (drop 4 a) (num - 4) w
         in (carry, r0 # r1 # r2 # r3 # r))
      else if num > 0 then
        (let (carry, r0) = bn_mulw_addw_addw (a ! 0) w (r ! 0) carry;
             (carry, r) = mul_add_words_loop carry (drop 1 r) (drop 1 a) (num - 1) w
         in (carry, r0 # r))
      else (carry, r))"

declare mul_add_words_loop.simps [simp del]

definition bn_mul_add_words :: "words \<Rightarrow> words \<Rightarrow> nat \<Rightarrow> bn_word \<Rightarrow> bn_word \<times> words" where
  "bn_mul_add_words r a num w = (if num \<le> 0 then (0, r) else mul_add_words_loop 0 r a num w)"

text \<open>
  \<open>bn_mul_normal\<close> adds one row \<open>a * b[j]\<close> after the other; the code advances
  \<open>r\<close>, \<open>rr = r + na\<close> and \<open>b\<close> by four words after four rows, here \<open>k\<close> counts them.
\<close>

definition mul_normal_row :: "words \<Rightarrow> words \<Rightarrow> nat \<Rightarrow> words \<Rightarrow> nat \<Rightarrow> words" where
  "mul_normal_row r a na b j =
     (let (rr, seg) = bn_mul_add_words (drop j r) a na (b ! j) in (take j r @ seg)[na + j := rr])"

fun mul_normal_loop :: "words \<Rightarrow> words \<Rightarrow> nat \<Rightarrow> words \<Rightarrow> nat \<Rightarrow> nat \<Rightarrow> words" where
  "mul_normal_loop r a na b nb k =
     (if nb - 1 \<le> 0 then r
      else let r = mul_normal_row r a na b (k + 1)
       in if nb - 2 \<le> 0 then r
          else let r = mul_normal_row r a na b (k + 2)
           in if nb - 3 \<le> 0 then r
              else let r = mul_normal_row r a na b (k + 3)
               in if nb - 4 \<le> 0 then r
                  else let r = mul_normal_row r a na b (k + 4)
                   in mul_normal_loop r a na b (nb - 4) (k + 4))"

declare mul_normal_loop.simps [simp del]

definition bn_mul_normal :: "words \<Rightarrow> words \<Rightarrow> nat \<Rightarrow> words \<Rightarrow> nat \<Rightarrow> words" where
  "bn_mul_normal r a na b nb =
     (let (na, nb, a, b) = (if na < nb then (nb, na, b, a) else (na, nb, a, b))
      in if nb \<le> 0 then snd (bn_mul_words r a na 0)
         else let (rr, r) = bn_mul_words r a na (b ! 0)
              in mul_normal_loop (r[na := rr]) a na b nb 0)"

text \<open>
  Comba multiplication computes one column of the product after the other in a
  three word accumulator.  The unrolled code of \<open>bn_mul_comba4\<close> and
  \<open>bn_mul_comba8\<close> is a sequence of calls \<open>bn_mulw_addtw(a[i], b[j], ...)\<close>; the
  tables give \<open>(i, j)\<close> for each line of it, in its order, one list for each
  column.  The first call of a column starts from \<open>(0, c2, c1)\<close> of the previous
  one, the last stores the low word into \<open>r\<close>; after the last column the middle
  word is stored too.
\<close>

definition comba_col :: "words \<Rightarrow> words \<Rightarrow> (nat \<times> nat) list \<Rightarrow> bn_word \<Rightarrow> bn_word
    \<Rightarrow> bn_word \<times> bn_word \<times> bn_word" where
  "comba_col a b ps c2 c1 =
     foldl (\<lambda>(c2, c1, c0) (i, j). bn_mulw_addtw (a ! i) (b ! j) c2 c1 c0) (0, c2, c1) ps"

fun comba :: "words \<Rightarrow> words \<Rightarrow> (nat \<times> nat) list list \<Rightarrow> bn_word \<Rightarrow> bn_word \<Rightarrow> words" where
  "comba a b [] c2 c1 = [c1]"
| "comba a b (ps # cols) c2 c1 =
     (let (c2, c1, r) = comba_col a b ps c2 c1 in r # comba a b cols c2 c1)"

definition comba4_cols :: "(nat \<times> nat) list list" where
  "comba4_cols =
    [[(0, 0)],
     [(0, 1), (1, 0)],
     [(2, 0), (1, 1), (0, 2)],
     [(0, 3), (1, 2), (2, 1), (3, 0)],
     [(3, 1), (2, 2), (1, 3)],
     [(2, 3), (3, 2)],
     [(3, 3)]]"

definition bn_mul_comba4 :: "words \<Rightarrow> words \<Rightarrow> words \<Rightarrow> words" where
  "bn_mul_comba4 r a b = write_at r 0 (comba a b comba4_cols 0 0)"

definition comba8_cols :: "(nat \<times> nat) list list" where
  "comba8_cols =
    [[(0, 0)],
     [(0, 1), (1, 0)],
     [(2, 0), (1, 1), (0, 2)],
     [(0, 3), (1, 2), (2, 1), (3, 0)],
     [(4, 0), (3, 1), (2, 2), (1, 3), (0, 4)],
     [(0, 5), (1, 4), (2, 3), (3, 2), (4, 1), (5, 0)],
     [(6, 0), (5, 1), (4, 2), (3, 3), (2, 4), (1, 5), (0, 6)],
     [(0, 7), (1, 6), (2, 5), (3, 4), (4, 3), (5, 2), (6, 1), (7, 0)],
     [(7, 1), (6, 2), (5, 3), (4, 4), (3, 5), (2, 6), (1, 7)],
     [(2, 7), (3, 6), (4, 5), (5, 4), (6, 3), (7, 2)],
     [(7, 3), (6, 4), (5, 5), (4, 6), (3, 7)],
     [(4, 7), (5, 6), (6, 5), (7, 4)],
     [(7, 5), (6, 6), (5, 7)],
     [(6, 7), (7, 6)],
     [(7, 7)]]"

definition bn_mul_comba8 :: "words \<Rightarrow> words \<Rightarrow> words \<Rightarrow> words" where
  "bn_mul_comba8 r a b = write_at r 0 (comba a b comba8_cols 0 0)"

section \<open>The value of an array\<close>

fun bn_val :: "words \<Rightarrow> int" where
  "bn_val [] = 0"
| "bn_val (w # ws) = uint w + 2 ^ 64 * bn_val ws"

lemma bn_val_append: "bn_val (xs @ ys) = bn_val xs + 2 ^ (64 * length xs) * bn_val ys"
  by (induction xs) (simp_all add: power_add algebra_simps)

lemma bn_val_replicate [simp]: "bn_val (replicate n 0) = 0"
  by (induction n) simp_all

lemma bn_val_nonneg [simp]: "0 \<le> bn_val ws"
  by (induction ws) simp_all

lemma uint_u64_lt: "uint (w :: u64) < 2 ^ 64"
  using unsigned_less [where w = w and 'a = int] by simp

lemma bn_val_less: "bn_val ws < 2 ^ (64 * length ws)"
proof (induction ws)
  case (Cons w ws)
  have "uint w + 2 ^ 64 * bn_val ws < 2 ^ 64 + 2 ^ 64 * bn_val ws" using uint_u64_lt [of w] by simp
  also have "\<dots> = 2 ^ 64 * (bn_val ws + 1)" by (simp add: algebra_simps)
  also have "\<dots> \<le> 2 ^ 64 * 2 ^ (64 * length ws)" using Cons by (intro mult_left_mono) auto
  finally show ?case by (simp add: power_add)
qed simp

lemma bn_val_take_Suc: "n < length ws \<Longrightarrow> bn_val (take (Suc n) ws) = bn_val (take n ws) + 2 ^ (64 * n) * uint (ws ! n)"
  by (simp add: take_Suc_conv_app_nth bn_val_append)

lemma bn_val_take_drop: "n \<le> length ws \<Longrightarrow> bn_val ws = bn_val (take n ws) + 2 ^ (64 * n) * bn_val (drop n ws)"
  using bn_val_append [of "take n ws" "drop n ws"] by simp

lemma bn_val_inj: "length xs = length ys \<Longrightarrow> bn_val xs = bn_val ys \<Longrightarrow> xs = ys"
proof (induction xs ys rule: list_induct2)
  case (Cons x xs y ys)
  have "bn_val (x # xs) mod 2 ^ 64 = uint x" "bn_val (y # ys) mod 2 ^ 64 = uint y"
    "bn_val (x # xs) div 2 ^ 64 = bn_val xs" "bn_val (y # ys) div 2 ^ 64 = bn_val ys"
    using uint_u64_lt [of x] uint_u64_lt [of y] by simp_all
  then have "uint x = uint y" "bn_val xs = bn_val ys" using Cons.prems by metis+
  then show ?case using Cons.IH by (simp add: word_uint_eq_iff)
qed simp

section \<open>Chains of word steps\<close>

text \<open>
  The reference for the unrolled loops: one step for each index, which passes its
  carry on.  A step is exact if its output word and carry have the value of the
  input and the carry; \<open>s\<close> is 1 for a carry and -1 for a borrow.
\<close>

fun ripple :: "(bn_word \<Rightarrow> 'x \<Rightarrow> bn_word \<times> bn_word) \<Rightarrow> bn_word \<Rightarrow> 'x list \<Rightarrow> bn_word \<times> words" where
  "ripple f c [] = (c, [])"
| "ripple f c (x # xs) = (case f c x of (c, w) \<Rightarrow> case ripple f c xs of (c, ws) \<Rightarrow> (c, w # ws))"

fun chain_val :: "('x \<Rightarrow> int) \<Rightarrow> 'x list \<Rightarrow> int" where
  "chain_val v [] = 0"
| "chain_val v (x # xs) = v x + 2 ^ 64 * chain_val v xs"

lemma length_ripple: "ripple f c xs = (c', ws) \<Longrightarrow> length ws = length xs"
  by (induction xs arbitrary: c c' ws) (auto split: prod.splits)

locale word_chain =
  fixes f :: "bn_word \<Rightarrow> 'x \<Rightarrow> bn_word \<times> bn_word" and v :: "'x \<Rightarrow> int" and s :: int
  assumes exact: "f c x = (c', w) \<Longrightarrow> uint w + s * uint c' * 2 ^ 64 = v x + s * uint c"
begin

lemma ripple_value:
  "ripple f c xs = (c', ws) \<Longrightarrow> bn_val ws + s * uint c' * 2 ^ (64 * length xs) = chain_val v xs + s * uint c"
proof (induction xs arbitrary: c c' ws)
  case (Cons x xs)
  obtain d w where x: "f c x = (d, w)" by fastforce
  obtain d' ws' where xs: "ripple f d xs = (d', ws')" by fastforce
  have "c' = d'" "ws = w # ws'" using Cons.prems x xs by auto
  moreover have "bn_val ws' = chain_val v xs + s * uint d - s * uint d' * 2 ^ (64 * length xs)"
    using Cons.IH [OF xs] by simp
  moreover have "uint w = v x + s * uint c - s * uint d * 2 ^ 64" using exact [OF x] by simp
  ultimately show ?case by (simp add: power_add algebra_simps)
qed simp

end

text \<open>The interpretations for the four kinds of loops and for the two that pass on a carry only.\<close>

interpretation add_chain: word_chain "\<lambda>c (x, y). bn_addw_addw x y c" "\<lambda>(x, y). uint x + uint y" 1
proof (unfold_locales, clarify)
  fix c x y c' w :: bn_word
  assume "bn_addw_addw x y c = (c', w)"
  from arg_cong [OF bn_addw_addw_value [OF this], of int]
  show "uint w + 1 * uint c' * 2 ^ 64 = uint x + uint y + 1 * uint c" by simp
qed

interpretation sub_chain: word_chain "\<lambda>c (x, y). bn_subw_subw x y c" "\<lambda>(x, y). uint x - uint y" "- 1"
proof (unfold_locales, clarify)
  fix c x y c' w :: bn_word
  assume "bn_subw_subw x y c = (c', w)"
  from arg_cong [OF bn_subw_subw_value [OF this], of int]
  show "uint w + - 1 * uint c' * 2 ^ 64 = uint x - uint y + - 1 * uint c" by simp
qed

interpretation mul_chain: word_chain "\<lambda>c x. bn_mulw_addw x m c" "\<lambda>x. uint x * uint m" 1 for m
proof unfold_locales
  fix c x c' w :: bn_word
  assume "bn_mulw_addw x m c = (c', w)"
  from arg_cong [OF bn_mulw_addw_value [OF this], of int]
  show "uint w + 1 * uint c' * 2 ^ 64 = uint x * uint m + 1 * uint c" by simp
qed

interpretation mul_add_chain: word_chain "\<lambda>c (x, y). bn_mulw_addw_addw x m y c" "\<lambda>(x, y). uint x * uint m + uint y" 1 for m
proof (unfold_locales, clarify)
  fix c x y c' w :: bn_word
  assume "bn_mulw_addw_addw x m y c = (c', w)"
  from arg_cong [OF bn_mulw_addw_addw_value [OF this], of int]
  show "uint w + 1 * uint c' * 2 ^ 64 = uint x * uint m + uint y + 1 * uint c" by simp
qed

interpretation carry_chain: word_chain "\<lambda>c x. bn_addw x c" uint 1
proof unfold_locales
  fix c x c' w :: bn_word
  assume "bn_addw x c = (c', w)"
  from arg_cong [OF bn_addw_value [OF this], of int]
  show "uint w + 1 * uint c' * 2 ^ 64 = uint x + 1 * uint c" by simp
qed

interpretation borrow_chain: word_chain "\<lambda>c x. bn_subw x c" uint "- 1"
proof unfold_locales
  fix c x c' w :: bn_word
  assume "bn_subw x c = (c', w)"
  from arg_cong [OF bn_subw_value [OF this], of int]
  show "uint w + - 1 * uint c' * 2 ^ 64 = uint x + - 1 * uint c" by simp
qed

lemma chain_val_zip_add:
  "length xs = length ys \<Longrightarrow> chain_val (\<lambda>(x, y). uint x + uint y) (zip xs ys) = bn_val xs + bn_val ys"
  by (induction xs ys rule: list_induct2) (simp_all add: algebra_simps)

lemma chain_val_zip_sub:
  "length xs = length ys \<Longrightarrow> chain_val (\<lambda>(x, y). uint x - uint y) (zip xs ys) = bn_val xs - bn_val ys"
  by (induction xs ys rule: list_induct2) (simp_all add: algebra_simps)

lemma chain_val_mul: "chain_val (\<lambda>x. uint x * m) xs = bn_val xs * m"
  by (induction xs) (simp_all add: algebra_simps)

lemma chain_val_zip_mul_add:
  "length xs = length ys \<Longrightarrow> chain_val (\<lambda>(x, y). uint x * m + uint y) (zip xs ys) = bn_val xs * m + bn_val ys"
  by (induction xs ys rule: list_induct2) (simp_all add: algebra_simps)

lemma chain_val_uint: "chain_val uint xs = bn_val xs"
  by (induction xs) simp_all

section \<open>The loops are chains\<close>

text \<open>The first four words of an array that has them.\<close>

lemma take_one: "0 < n \<Longrightarrow> n \<le> length a \<Longrightarrow> take n a = a ! 0 # take (n - 1) (drop 1 a)"
  by (cases a; cases n) simp_all

lemma take_four:
  assumes "4 \<le> n" "n \<le> length a"
  shows "take n a = a ! 0 # a ! 1 # a ! 2 # a ! 3 # take (n - 4) (drop 4 a)"
proof -
  have "take n a = a ! 0 # take (n - 1) (drop 1 a)" using assms by (intro take_one) auto
  also have "take (n - 1) (drop 1 a) = a ! 1 # take (n - 2) (drop 2 a)"
    using take_one [of "n - 1" "drop 1 a"] assms by (simp add: numeral_2_eq_2)
  also have "take (n - 2) (drop 2 a) = a ! 2 # take (n - 3) (drop 3 a)"
    using take_one [of "n - 2" "drop 2 a"] assms by (simp add: eval_nat_numeral)
  also have "take (n - 3) (drop 3 a) = a ! 3 # take (n - 4) (drop 4 a)"
    using take_one [of "n - 3" "drop 3 a"] assms by (simp add: eval_nat_numeral)
  finally show ?thesis .
qed

lemma add_words_loop_chain:
  assumes "n \<le> length a" "n \<le> length b" "n \<le> length r"
  shows "add_words_loop c r a b n =
    (case ripple (\<lambda>c (x, y). bn_addw_addw x y c) c (zip (take n a) (take n b)) of (c, ws) \<Rightarrow> (c, ws @ drop n r))"
  using assms
proof (induction c r a b n rule: add_words_loop.induct)
  case (1 c r a b n)
  then show ?case
    by (subst add_words_loop.simps) (simp add: take_four take_one bn_qwaddqw_def not_le split: prod.splits)
qed

lemma sub_words_loop_chain:
  assumes "n \<le> length a" "n \<le> length b" "n \<le> length r"
  shows "sub_words_loop c r a b n =
    (case ripple (\<lambda>c (x, y). bn_subw_subw x y c) c (zip (take n a) (take n b)) of (c, ws) \<Rightarrow> (c, ws @ drop n r))"
  using assms
proof (induction c r a b n rule: sub_words_loop.induct)
  case (1 c r a b n)
  then show ?case
    by (subst sub_words_loop.simps) (simp add: take_four take_one bn_qwsubqw_def not_le split: prod.splits)
qed

lemma mul_words_loop_chain:
  assumes "n \<le> length a" "n \<le> length r"
  shows "mul_words_loop c r a n w =
    (case ripple (\<lambda>c x. bn_mulw_addw x w c) c (take n a) of (c, ws) \<Rightarrow> (c, ws @ drop n r))"
  using assms
proof (induction c r a n w rule: mul_words_loop.induct)
  case (1 c r a n w)
  then show ?case
    by (subst mul_words_loop.simps) (simp add: take_four take_one bn_qwmulw_addw_def not_le split: prod.splits)
qed

lemma mul_add_words_loop_chain:
  assumes "n \<le> length a" "n \<le> length r"
  shows "mul_add_words_loop c r a n w =
    (case ripple (\<lambda>c (x, y). bn_mulw_addw_addw x w y c) c (zip (take n a) (take n r)) of (c, ws) \<Rightarrow> (c, ws @ drop n r))"
  using assms
proof (induction c r a n w rule: mul_add_words_loop.induct)
  case (1 c r a n w)
  then show ?case
    by (subst mul_add_words_loop.simps) (simp add: take_four take_one bn_qwmulw_addqw_addw_def not_le split: prod.splits)
qed

lemma add_rest_loop_chain:
  assumes "n \<le> length b" "n \<le> length r"
  shows "add_rest_loop c r b n = (case ripple (\<lambda>c x. bn_addw x c) c (take n b) of (c, ws) \<Rightarrow> (c, ws @ drop n r))"
  using assms
proof (induction c r b n rule: add_rest_loop.induct)
  case (1 c r b n)
  then show ?case by (subst add_rest_loop.simps) (simp add: take_one split: prod.splits)
qed

lemma sub_rest_a_loop_chain:
  assumes "n \<le> length a" "n \<le> length r"
  shows "sub_rest_a_loop c r a n = (case ripple (\<lambda>c x. bn_subw x c) c (take n a) of (c, ws) \<Rightarrow> (c, ws @ drop n r))"
  using assms
proof (induction c r a n rule: sub_rest_a_loop.induct)
  case (1 c r a n)
  then show ?case by (subst sub_rest_a_loop.simps) (simp add: take_one split: prod.splits)
qed

section \<open>The array routines are exact\<close>

text \<open>\<open>wrote n r r'\<close>: a routine has written the first \<open>n\<close> words of \<open>r\<close>.\<close>

definition wrote :: "nat \<Rightarrow> words \<Rightarrow> words \<Rightarrow> bool" where
  "wrote n r r' \<longleftrightarrow> length r' = length r \<and> drop n r' = drop n r"

lemma wrote_length: "wrote n r r' \<Longrightarrow> length r' = length r"
  by (simp add: wrote_def)

lemma wrote_append: "length ws = n \<Longrightarrow> n \<le> length r \<Longrightarrow> wrote n r (ws @ drop n r)"
  by (simp add: wrote_def)

lemma bn_add_words_value:
  assumes "bn_add_words r a b n = (c, r')" "n \<le> length a" "n \<le> length b" "n \<le> length r"
  shows "wrote n r r'" "bn_val (take n r') + uint c * 2 ^ (64 * n) = bn_val (take n a) + bn_val (take n b)"
proof -
  obtain ws where ws: "ripple (\<lambda>c (x, y). bn_addw_addw x y c) 0 (zip (take n a) (take n b)) = (c, ws)" "r' = ws @ drop n r"
    using assms by (cases "n = 0") (auto simp: bn_add_words_def add_words_loop_chain split: prod.splits)
  have l: "length ws = n" using length_ripple [OF ws(1)] assms by simp
  show "wrote n r r'" using wrote_append [OF l] assms ws by simp
  show "bn_val (take n r') + uint c * 2 ^ (64 * n) = bn_val (take n a) + bn_val (take n b)"
    using add_chain.ripple_value [OF ws(1)] assms l by (simp add: ws(2) chain_val_zip_add)
qed

lemma bn_sub_words_value:
  assumes "bn_sub_words r a b n = (c, r')" "n \<le> length a" "n \<le> length b" "n \<le> length r"
  shows "wrote n r r'" "bn_val (take n r') - uint c * 2 ^ (64 * n) = bn_val (take n a) - bn_val (take n b)"
proof -
  obtain ws where ws: "ripple (\<lambda>c (x, y). bn_subw_subw x y c) 0 (zip (take n a) (take n b)) = (c, ws)" "r' = ws @ drop n r"
    using assms by (cases "n = 0") (auto simp: bn_sub_words_def sub_words_loop_chain split: prod.splits)
  have l: "length ws = n" using length_ripple [OF ws(1)] assms by simp
  show "wrote n r r'" using wrote_append [OF l] assms ws by simp
  show "bn_val (take n r') - uint c * 2 ^ (64 * n) = bn_val (take n a) - bn_val (take n b)"
    using sub_chain.ripple_value [OF ws(1)] assms l by (simp add: ws(2) chain_val_zip_sub)
qed

lemma bn_mul_words_value:
  assumes "bn_mul_words r a n w = (c, r')" "n \<le> length a" "n \<le> length r"
  shows "wrote n r r'" "bn_val (take n r') + uint c * 2 ^ (64 * n) = bn_val (take n a) * uint w"
proof -
  obtain ws where ws: "ripple (\<lambda>c x. bn_mulw_addw x w c) 0 (take n a) = (c, ws)" "r' = ws @ drop n r"
    using assms by (cases "n = 0") (auto simp: bn_mul_words_def mul_words_loop_chain split: prod.splits)
  have l: "length ws = n" using length_ripple [OF ws(1)] assms by simp
  show "wrote n r r'" using wrote_append [OF l] assms ws by simp
  show "bn_val (take n r') + uint c * 2 ^ (64 * n) = bn_val (take n a) * uint w"
    using mul_chain.ripple_value [OF ws(1)] assms l by (simp add: ws(2) chain_val_mul)
qed

lemma bn_mul_add_words_value:
  assumes "bn_mul_add_words r a n w = (c, r')" "n \<le> length a" "n \<le> length r"
  shows "wrote n r r'"
    "bn_val (take n r') + uint c * 2 ^ (64 * n) = bn_val (take n a) * uint w + bn_val (take n r)"
proof -
  obtain ws where ws: "ripple (\<lambda>c (x, y). bn_mulw_addw_addw x w y c) 0 (zip (take n a) (take n r)) = (c, ws)" "r' = ws @ drop n r"
    using assms by (cases "n = 0") (auto simp: bn_mul_add_words_def mul_add_words_loop_chain split: prod.splits)
  have l: "length ws = n" using length_ripple [OF ws(1)] assms by simp
  show "wrote n r r'" using wrote_append [OF l] assms ws by simp
  show "bn_val (take n r') + uint c * 2 ^ (64 * n) = bn_val (take n a) * uint w + bn_val (take n r)"
    using mul_add_chain.ripple_value [OF ws(1)] assms l by (simp add: ws(2) chain_val_zip_mul_add)
qed

text \<open>A routine that goes on above the first \<open>m\<close> words.\<close>

lemma wrote_above:
  assumes "wrote m r r1" "m + length ws \<le> length r"
    and "r' = take m r1 @ ws @ drop (length ws) (drop m r1)"
    and "bn_val ws + s * c * 2 ^ (64 * length ws) = v + s * c1"
  shows "wrote (m + length ws) r r'"
    and "bn_val (take (m + length ws) r') + s * c * 2 ^ (64 * (m + length ws))
      = bn_val (take m r1) + s * c1 * 2 ^ (64 * m) + 2 ^ (64 * m) * v"
proof -
  have l: "length r1 = length r" "drop m r1 = drop m r" using assms(1) by (auto simp: wrote_def)
  have "drop (length ws) (drop m r1) = drop (m + length ws) r" by (simp add: l add.commute)
  then show "wrote (m + length ws) r r'" using assms(2) l by (simp add: assms(3) wrote_def)
  have ws: "bn_val ws = v + s * c1 - s * c * 2 ^ (64 * length ws)" using assms(4) by simp
  have "bn_val (take (m + length ws) r') = bn_val (take m r1) + 2 ^ (64 * m) * bn_val ws"
    using assms(2) l by (simp add: assms(3) bn_val_append)
  then show "bn_val (take (m + length ws) r') + s * c * 2 ^ (64 * (m + length ws))
      = bn_val (take m r1) + s * c1 * 2 ^ (64 * m) + 2 ^ (64 * m) * v"
    unfolding ws by (simp add: power_add algebra_simps)
qed

lemma bn_val_take_split: "m \<le> n \<Longrightarrow> n \<le> length ws \<Longrightarrow>
    bn_val (take n ws) = bn_val (take m ws) + 2 ^ (64 * m) * bn_val (take (n - m) (drop m ws))"
  using bn_val_take_drop [of m "take n ws"] by (simp add: drop_take min_absorb1)

lemma add_rest_value:
  assumes "wrote m r r1" "bn_val (take m r1) + uint c1 * 2 ^ (64 * m) = v + bn_val (take m b)"
    and "add_rest_loop c1 (drop m r1) (drop m b) (n - m) = (c, rest)"
    and "m \<le> n" "n \<le> length b" "n \<le> length r" "r' = take m r1 @ rest"
  shows "wrote n r r'" "bn_val (take n r') + uint c * 2 ^ (64 * n) = v + bn_val (take n b)"
proof -
  obtain ws where ws: "ripple (\<lambda>c x. bn_addw x c) c1 (take (n - m) (drop m b)) = (c, ws)"
      "rest = ws @ drop (n - m) (drop m r1)"
    using assms(3-6) wrote_length [OF assms(1)] by (auto simp: add_rest_loop_chain split: prod.splits)
  have l: "length ws = n - m" using length_ripple [OF ws(1)] assms by simp
  have r': "r' = take m r1 @ ws @ drop (length ws) (drop m r1)" using assms(7) ws(2) l by simp
  have v: "bn_val ws + 1 * uint c * 2 ^ (64 * length ws) = bn_val (take (n - m) (drop m b)) + 1 * uint c1"
    using carry_chain.ripple_value [OF ws(1)] assms(4,5) by (simp add: l chain_val_uint)
  note above = wrote_above [OF assms(1) _ r' v, unfolded l]
  show "wrote n r r'" using above(1) assms by simp
  show "bn_val (take n r') + uint c * 2 ^ (64 * n) = v + bn_val (take n b)"
    using above(2) assms bn_val_take_split [of m n b] by simp
qed

lemma bn_add_value:
  assumes "bn_add r r_len a a_len b b_len = (c, r')" "a_len \<le> length a" "b_len \<le> length b"
    and "max a_len b_len \<le> length r"
  shows "wrote (max a_len b_len) r r'"
    "bn_val (take (max a_len b_len) r') + uint c * 2 ^ (64 * max a_len b_len) = bn_val (take a_len a) + bn_val (take b_len b)"
proof -
  define m where "m = min a_len b_len"
  obtain c1 r1 where w: "bn_add_words r a b m = (c1, r1)" by fastforce
  note val = bn_add_words_value [OF w]
  have m: "m \<le> length a" "m \<le> length b" "m \<le> length r" using assms by (auto simp: m_def)
  have "wrote (max a_len b_len) r r' \<and>
    bn_val (take (max a_len b_len) r') + uint c * 2 ^ (64 * max a_len b_len) = bn_val (take a_len a) + bn_val (take b_len b)"
  proof (cases "a_len < b_len")
    case True
    then obtain rest where "add_rest_loop c1 (drop m r1) (drop m b) (b_len - m) = (c, rest)" "r' = take m r1 @ rest"
      using assms(1) w by (auto simp: bn_add_def m_def Let_def nat_diff_distrib' split: prod.splits)
    from add_rest_value [OF val(1) val(2) this(1) _ _ _ this(2)] show ?thesis
      using True assms m by (simp add: m_def max_def)
  next
    case False
    then obtain rest where "add_rest_loop c1 (drop m r1) (drop m a) (a_len - m) = (c, rest)" "r' = take m r1 @ rest"
      using assms(1) w by (auto simp: bn_add_def m_def Let_def nat_diff_distrib' min_def split: prod.splits if_splits)
    from add_rest_value [OF val(1) _ this(1) _ _ _ this(2)] val(2) show ?thesis
      using False assms m by (simp add: m_def max_def add.commute)
  qed
  then show "wrote (max a_len b_len) r r'"
    "bn_val (take (max a_len b_len) r') + uint c * 2 ^ (64 * max a_len b_len) = bn_val (take a_len a) + bn_val (take b_len b)"
    by simp_all
qed

text \<open>Subtraction, when \<open>a\<close> is at least as long as \<open>b\<close>.\<close>

lemma bn_sub_value:
  assumes "bn_sub r r_len a a_len b b_len = (c, r')" "b_len \<le> a_len" "a_len \<le> length a" "b_len \<le> length b"
    and "a_len \<le> length r"
  shows "wrote a_len r r'"
    "bn_val (take a_len r') - uint c * 2 ^ (64 * a_len) = bn_val (take a_len a) - bn_val (take b_len b)"
proof -
  obtain c1 r1 where w: "bn_sub_words r a b b_len = (c1, r1)" by fastforce
  have val: "wrote b_len r r1"
      "bn_val (take b_len r1) - uint c1 * 2 ^ (64 * b_len) = bn_val (take b_len a) - bn_val (take b_len b)"
    using bn_sub_words_value [OF w] assms by auto
  define n where "n = a_len - b_len"
  obtain rest where rest: "sub_rest_a_loop c1 (drop b_len r1) (drop b_len a) n = (c, rest)" "r' = take b_len r1 @ rest"
    using assms(1,2) w by (cases "a_len = b_len") (auto simp: bn_sub_def n_def Let_def nat_diff_distrib' split: prod.splits)
  obtain ws where ws: "ripple (\<lambda>c x. bn_subw x c) c1 (take n (drop b_len a)) = (c, ws)"
      "rest = ws @ drop n (drop b_len r1)"
    using rest(1) assms wrote_length [OF val(1)] by (auto simp: n_def sub_rest_a_loop_chain split: prod.splits)
  have l: "length ws = n" using length_ripple [OF ws(1)] assms by (simp add: n_def)
  have r': "r' = take b_len r1 @ ws @ drop (length ws) (drop b_len r1)" using rest(2) ws(2) l by simp
  have v: "bn_val ws + - 1 * uint c * 2 ^ (64 * length ws) = bn_val (take n (drop b_len a)) + - 1 * uint c1"
    using borrow_chain.ripple_value [OF ws(1)] assms by (simp add: l n_def chain_val_uint)
  note above = wrote_above [OF val(1) _ r' v, unfolded l]
  show "wrote a_len r r'" using above(1) assms by (simp add: n_def)
  show "bn_val (take a_len r') - uint c * 2 ^ (64 * a_len) = bn_val (take a_len a) - bn_val (take b_len b)"
    using above(2) assms val(2) bn_val_take_split [of b_len a_len a] by (simp add: n_def)
qed

text \<open>
  When \<open>a\<close> is the shorter array, the borrow of \<open>0 - b[0]\<close> is lost: 5 minus
  \<open>2 ^ 64 + 3\<close> returns no borrow.
\<close>

lemma bn_sub_loses_borrow:
  "bn_sub [0, 0] 2 [5] 1 [3, 1] 2 = (0, [2, - 1]) \<and> bn_val [5] < bn_val [3, 1]"
proof -
  have "bn_subw_subw 5 3 0 = (0, 2)" "bn_subw (0 - 1) 0 = (0, - 1)" by code_simp+
  then show ?thesis by (simp add: bn_sub_def bn_sub_words_def sub_words_loop.simps sub_rest_b_loop.simps)
qed

section \<open>Multiplication of arrays\<close>

lemma mul_normal_row_value:
  assumes "na \<le> length a" "na + j < length r" "j < length b"
    and "bn_val (take (na + j) r) = bn_val (take na a) * bn_val (take j b)"
  shows "length (mul_normal_row r a na b j) = length r"
    "bn_val (take (na + Suc j) (mul_normal_row r a na b j)) = bn_val (take na a) * bn_val (take (Suc j) b)"
proof -
  obtain rr seg where m: "bn_mul_add_words (drop j r) a na (b ! j) = (rr, seg)" by fastforce
  have val: "wrote na (drop j r) seg" "bn_val (take na seg) + uint rr * 2 ^ (64 * na) =
      bn_val (take na a) * uint (b ! j) + bn_val (take na (drop j r))"
    using bn_mul_add_words_value [OF m] assms by auto
  define r' where "r' = take j r @ seg"
  have l: "length seg = length r - j" using wrote_length [OF val(1)] by simp
  have row: "mul_normal_row r a na b j = r'[na + j := rr]"
    by (simp add: mul_normal_row_def m r'_def)
  show "length (mul_normal_row r a na b j) = length r" using l assms(2) by (simp add: row r'_def)
  have "bn_val (take (na + Suc j) (r'[na + j := rr])) = bn_val (take (na + j) r') + 2 ^ (64 * (na + j)) * uint rr"
    using bn_val_take_Suc [of "na + j" "r'[na + j := rr]"] l assms(2) by (simp add: r'_def)
  also have "bn_val (take (na + j) r') = bn_val (take j r) + 2 ^ (64 * j) * bn_val (take na seg)"
    using assms(2) by (simp add: r'_def bn_val_append)
  also have "\<dots> + 2 ^ (64 * (na + j)) * uint rr =
      bn_val (take j r) + 2 ^ (64 * j) * (bn_val (take na seg) + uint rr * 2 ^ (64 * na))"
    by (simp add: power_add algebra_simps)
  also have "\<dots> = bn_val (take j r) + 2 ^ (64 * j) * bn_val (take na (drop j r))
      + 2 ^ (64 * j) * (bn_val (take na a) * uint (b ! j))"
    unfolding val(2) by (simp add: algebra_simps)
  also have "bn_val (take j r) + 2 ^ (64 * j) * bn_val (take na (drop j r)) = bn_val (take na a) * bn_val (take j b)"
    using bn_val_take_split [of j "na + j" r] assms by simp
  finally show "bn_val (take (na + Suc j) (mul_normal_row r a na b j)) = bn_val (take na a) * bn_val (take (Suc j) b)"
    using assms(3) by (simp add: row bn_val_take_Suc algebra_simps)
qed

text \<open>The loop with its four rows per turn is one row after the other.\<close>

fun mul_rows :: "words \<Rightarrow> words \<Rightarrow> nat \<Rightarrow> words \<Rightarrow> nat \<Rightarrow> nat \<Rightarrow> words" where
  "mul_rows r a na b j 0 = r"
| "mul_rows r a na b j (Suc n) = mul_rows (mul_normal_row r a na b j) a na b (Suc j) n"

lemma mul_normal_loop_rows: "mul_normal_loop r a na b nb k = mul_rows r a na b (Suc k) (nb - 1)"
proof (induction r a na b nb k rule: mul_normal_loop.induct)
  case (1 r a na b nb k)
  consider "nb \<le> 1" | "nb = 2" | "nb = 3" | "nb = 4" | "5 \<le> nb" by linarith
  then show ?case
  proof cases
    case 5
    then obtain n where "nb = Suc (Suc (Suc (Suc (Suc n))))"
      using le_Suc_ex [of 5 nb] by (auto simp: eval_nat_numeral)
    then show ?thesis
      using "1.IH" by (subst mul_normal_loop.simps) (simp add: Let_def eval_nat_numeral)
  qed (subst mul_normal_loop.simps, simp add: Let_def eval_nat_numeral)+
qed

lemma mul_rows_value:
  assumes "na \<le> length a" "na + j + n \<le> length r" "j + n \<le> length b"
    and "bn_val (take (na + j) r) = bn_val (take na a) * bn_val (take j b)"
  shows "length (mul_rows r a na b j n) = length r \<and>
    bn_val (take (na + j + n) (mul_rows r a na b j n)) = bn_val (take na a) * bn_val (take (j + n) b)"
  using assms
proof (induction n arbitrary: r j)
  case (Suc n)
  have "na + j < length r" "j < length b" using Suc.prems by auto
  note row = mul_normal_row_value [OF Suc.prems(1) this Suc.prems(4)]
  have "na + Suc j + n \<le> length (mul_normal_row r a na b j)" "Suc j + n \<le> length b"
    using Suc.prems row(1) by auto
  from Suc.IH [OF Suc.prems(1) this row(2)] row(1) show ?case by simp
qed simp

lemma bn_mul_normal_value:
  assumes "na \<le> length a" "nb \<le> length b" "na + nb \<le> length r" "0 < na" "0 < nb"
  shows "length (bn_mul_normal r a na b nb) = length r"
    "bn_val (take (na + nb) (bn_mul_normal r a na b nb)) = bn_val (take na a) * bn_val (take nb b)"
proof -
  have *: "length (bn_mul_normal r a na b nb) = length r \<and>
      bn_val (take (na + nb) (bn_mul_normal r a na b nb)) = bn_val (take na a) * bn_val (take nb b)"
    if "nb \<le> na" "na \<le> length a" "nb \<le> length b" "na + nb \<le> length r" "0 < nb" for a b na nb
  proof -
    obtain rr r1 where m: "bn_mul_words r a na (b ! 0) = (rr, r1)" by fastforce
    have val: "wrote na r r1" "bn_val (take na r1) + uint rr * 2 ^ (64 * na) = bn_val (take na a) * uint (b ! 0)"
      using bn_mul_words_value [OF m] that by auto
    have l: "length r1 = length r" by (rule wrote_length [OF val(1)])
    have "bn_val (take (Suc na) (r1[na := rr])) = bn_val (take na a) * bn_val (take 1 b)"
      using val(2) that l bn_val_take_Suc [of na "r1[na := rr]"] bn_val_take_Suc [of 0 b]
      by (cases b) (simp_all add: algebra_simps)
    then show ?thesis
      using that l mul_rows_value [of na a 1 "nb - 1" "r1[na := rr]" b]
      by (simp add: bn_mul_normal_def m mul_normal_loop_rows)
  qed
  have swap: "bn_mul_normal r a na b nb = bn_mul_normal r b nb a na" if "na < nb"
    using that by (simp add: bn_mul_normal_def)
  show "length (bn_mul_normal r a na b nb) = length r"
    using * [of nb na a b] * [of na nb b a] swap assms by (cases "na < nb") (simp_all add: add.commute)
  show "bn_val (take (na + nb) (bn_mul_normal r a na b nb)) = bn_val (take na a) * bn_val (take nb b)"
    using * [of nb na a b] * [of na nb b a] swap assms by (cases "na < nb") (simp_all add: add.commute mult.commute)
qed

section \<open>Comba multiplication\<close>

text \<open>The sum of the products of a column, and of all columns with their weights.\<close>

definition col_val :: "words \<Rightarrow> words \<Rightarrow> (nat \<times> nat) list \<Rightarrow> int" where
  "col_val a b ps = (\<Sum>(i, j) \<leftarrow> ps. uint (a ! i) * uint (b ! j))"

fun cols_val :: "words \<Rightarrow> words \<Rightarrow> (nat \<times> nat) list list \<Rightarrow> int" where
  "cols_val a b [] = 0"
| "cols_val a b (ps # cols) = col_val a b ps + 2 ^ 64 * cols_val a b cols"

lemma comba_fold_value:
  assumes "unat c2 + length ps < 2 ^ 64"
  shows "int (tw_val (foldl (\<lambda>(c2, c1, c0) (i, j). bn_mulw_addtw (a ! i) (b ! j) c2 c1 c0) (c2, c1, c0) ps)) =
    col_val a b ps + int (tw_val (c2, c1, c0))"
  using assms
proof (induction ps arbitrary: c2 c1 c0)
  case (Cons p ps)
  obtain i j where p: "p = (i, j)" by fastforce
  obtain d2 d1 d0 where d: "bn_mulw_addtw (a ! i) (b ! j) c2 c1 c0 = (d2, d1, d0)" by (metis prod_cases3)
  have c2: "unat c2 + 1 < 2 ^ 64" using Cons.prems by simp
  have "unat d2 + length ps < 2 ^ 64" using bn_mulw_addtw_value(2) [OF d c2] Cons.prems by simp
  from Cons.IH [OF this] show ?case
    using arg_cong [OF bn_mulw_addtw_value(1) [OF d c2], of int] by (simp add: p d col_val_def)
qed (simp add: col_val_def)

lemma comba_col_value:
  assumes "comba_col a b ps c2 c1 = (d2, d1, d0)" and "length ps < 2 ^ 64"
  shows "uint d2 * 2 ^ 128 + uint d1 * 2 ^ 64 + uint d0 = col_val a b ps + uint c2 * 2 ^ 64 + uint c1"
  using comba_fold_value [of 0 ps a b c2 c1] assms by (simp add: comba_col_def tw_val_def)

lemma length_comba: "length (comba a b cols c2 c1) = Suc (length cols)"
  by (induction cols arbitrary: c2 c1) (auto split: prod.splits)

lemma comba_value:
  assumes "\<forall>ps \<in> set cols. length ps < 2 ^ 64"
  shows "bn_val (comba a b cols c2 c1) =
    (cols_val a b cols + uint c1 + 2 ^ 64 * uint c2) mod 2 ^ (64 * Suc (length cols))"
  using assms
proof (induction cols arbitrary: c2 c1)
  case Nil
  then show ?case using uint_u64_lt [of c1] by simp
next
  case (Cons ps cols)
  obtain d2 d1 d0 where d: "comba_col a b ps c2 c1 = (d2, d1, d0)" by (metis prod_cases3)
  have v: "uint d2 * 2 ^ 128 + uint d1 * 2 ^ 64 + uint d0 = col_val a b ps + uint c2 * 2 ^ 64 + uint c1"
    using comba_col_value [OF d] Cons.prems by simp
  define t where "t = cols_val a b cols + uint d1 + 2 ^ 64 * uint d2"
  define m :: int where "m = 2 ^ (64 * Suc (length cols))"
  have "cols_val a b (ps # cols) + uint c1 + 2 ^ 64 * uint c2 = uint d0 + 2 ^ 64 * t"
    using v by (simp add: t_def algebra_simps)
  moreover have "(uint d0 + 2 ^ 64 * t) mod (2 ^ 64 * m) = uint d0 + 2 ^ 64 * (t mod m)"
    using uint_u64_lt [of d0] zmod_zmult2_eq [of m "uint d0 + 2 ^ 64 * t" "2 ^ 64"] by (simp add: m_def)
  moreover have "bn_val (comba a b (ps # cols) c2 c1) = uint d0 + 2 ^ 64 * (t mod m)"
    using Cons.IH [of d2 d1] Cons.prems by (simp add: d t_def m_def)
  moreover have "2 ^ (64 * Suc (length (ps # cols))) = 2 ^ 64 * m" by (simp add: m_def power_add)
  ultimately show ?case by simp
qed

lemma comba_product:
  assumes "\<forall>ps \<in> set cols. length ps < 2 ^ 64" "Suc (length cols) = 2 * n" "n \<le> length a" "n \<le> length b"
    and "cols_val a b cols = bn_val (take n a) * bn_val (take n b)"
  shows "bn_val (comba a b cols 0 0) = bn_val (take n a) * bn_val (take n b)"
proof -
  have "bn_val (take n a) * bn_val (take n b) < 2 ^ (64 * n) * 2 ^ (64 * n)"
    using bn_val_less [of "take n a"] bn_val_less [of "take n b"] assms(3,4) by (intro mult_strict_mono) auto
  also have "\<dots> = (2 :: int) ^ (64 * Suc (length cols))" unfolding assms(2) by (simp flip: power_add)
  finally show ?thesis using comba_value [OF assms(1), of a b 0 0] assms(5) by simp
qed

lemma list_of_4: "4 \<le> length a \<Longrightarrow> take 4 a = [a ! 0, a ! 1, a ! 2, a ! 3]"
  using take_four [of 4 a] by simp

lemma list_of_8: "8 \<le> length a \<Longrightarrow> take 8 a = [a ! 0, a ! 1, a ! 2, a ! 3, a ! 4, a ! 5, a ! 6, a ! 7]"
  using take_four [of 8 a] list_of_4 [of "drop 4 a"] by simp

lemma bn_mul_comba4_value:
  assumes "4 \<le> length a" "4 \<le> length b" "8 \<le> length r"
  shows "length (bn_mul_comba4 r a b) = length r"
    "bn_val (take 8 (bn_mul_comba4 r a b)) = bn_val (take 4 a) * bn_val (take 4 b)"
proof -
  have l: "length (comba a b comba4_cols 0 0) = 8" unfolding length_comba by (simp add: comba4_cols_def)
  then show "length (bn_mul_comba4 r a b) = length r" using assms by (simp add: bn_mul_comba4_def)
  have "cols_val a b comba4_cols = bn_val (take 4 a) * bn_val (take 4 b)"
    unfolding list_of_4 [OF assms(1)] list_of_4 [OF assms(2)] comba4_cols_def
    by (simp add: col_val_def) (simp add: algebra_simps)
  then have "bn_val (comba a b comba4_cols 0 0) = bn_val (take 4 a) * bn_val (take 4 b)"
    by (intro comba_product) (use assms in \<open>simp_all add: comba4_cols_def\<close>)
  then show "bn_val (take 8 (bn_mul_comba4 r a b)) = bn_val (take 4 a) * bn_val (take 4 b)"
    using l by (simp add: bn_mul_comba4_def write_at_def)
qed

lemma bn_mul_comba8_value:
  assumes "8 \<le> length a" "8 \<le> length b" "16 \<le> length r"
  shows "length (bn_mul_comba8 r a b) = length r"
    "bn_val (take 16 (bn_mul_comba8 r a b)) = bn_val (take 8 a) * bn_val (take 8 b)"
proof -
  have l: "length (comba a b comba8_cols 0 0) = 16" unfolding length_comba by (simp add: comba8_cols_def)
  then show "length (bn_mul_comba8 r a b) = length r" using assms by (simp add: bn_mul_comba8_def)
  have "cols_val a b comba8_cols = bn_val (take 8 a) * bn_val (take 8 b)"
    unfolding list_of_8 [OF assms(1)] list_of_8 [OF assms(2)] comba8_cols_def
    by (simp add: col_val_def) (simp add: algebra_simps)
  then have "bn_val (comba a b comba8_cols 0 0) = bn_val (take 8 a) * bn_val (take 8 b)"
    by (intro comba_product) (use assms in \<open>simp_all add: comba8_cols_def\<close>)
  then show "bn_val (take 16 (bn_mul_comba8 r a b)) = bn_val (take 8 a) * bn_val (take 8 b)"
    using l by (simp add: bn_mul_comba8_def write_at_def)
qed

end
