(* ===== verification/BN.thy ===== *)
theory BN
  imports BN_Arrays Libc_Alloc
begin

text \<open>
  The BIGNUM type of libcrypto/bn/bn_lib.c: memory, copying and swapping,
  comparison, bit operations and tests.  The array \<open>d\<close> is a list of 64-bit words,
  its length is \<open>dmax\<close>, and the null pointer is the empty list.  Functions that
  may allocate take \<open>alloc\<close>, which tells which sizes \<open>recallocarray\<close> can
  deliver; they return whether they succeed and the new number.

  A number is well formed (\<open>bn_ok\<close>) if \<open>top\<close> is within the array, the word below
  \<open>top\<close> is not zero and there is no negative zero; its value is \<open>bn_int\<close>.
\<close>

record bignum =
  bn_d :: words
  bn_top :: nat
  bn_neg :: int
  bn_flags :: int

definition bn_dmax :: "bignum \<Rightarrow> nat" where "bn_dmax bn = length (bn_d bn)"

definition INT_MAX :: int where "INT_MAX = 2 ^ 31 - 1"
definition BN_BITS2 :: int where "BN_BITS2 = 64"
definition BN_BYTES :: int where "BN_BYTES = 8"
definition BN_MASK2 :: bn_word where "BN_MASK2 = 0xffffffffffffffff"
definition BN_FLG_MALLOCED :: int where "BN_FLG_MALLOCED = 1"
definition BN_FLG_STATIC_DATA :: int where "BN_FLG_STATIC_DATA = 2"
definition BN_FLG_CONSTTIME :: int where "BN_FLG_CONSTTIME = 4"

section \<open>Creation, flags and memory\<close>

text \<open>\<open>sizeof(BIGNUM)\<close> is 24 on amd64: a pointer and four \<open>int\<close>s.\<close>

definition BN_new :: "(nat \<Rightarrow> bool) \<Rightarrow> bignum option" where
  "BN_new alloc =
     (if alloc 24 then Some \<lparr>bn_d = [], bn_top = 0, bn_neg = 0, bn_flags = BN_FLG_MALLOCED\<rparr> else None)"

definition BN_init :: "bignum \<Rightarrow> bignum" where
  "BN_init a = \<lparr>bn_d = [], bn_top = 0, bn_neg = 0, bn_flags = 0\<rparr>"

definition BN_clear :: "bignum \<Rightarrow> bignum" where
  "BN_clear a = a\<lparr>bn_d := replicate (bn_dmax a) 0, bn_top := 0, bn_neg := 0\<rparr>"

definition BN_set_flags :: "bignum \<Rightarrow> int \<Rightarrow> bignum" where
  "BN_set_flags b n = b\<lparr>bn_flags := bn_flags b OR n\<rparr>"

definition BN_get_flags :: "bignum \<Rightarrow> int \<Rightarrow> int" where
  "BN_get_flags b n = bn_flags b AND n"

definition BN_with_flags :: "bignum \<Rightarrow> bignum \<Rightarrow> int \<Rightarrow> bignum" where
  "BN_with_flags dest b flags =
     (let dest_flags = ((bn_flags dest AND BN_FLG_MALLOCED) OR (bn_flags b AND NOT BN_FLG_MALLOCED))
            OR BN_FLG_STATIC_DATA OR flags
      in b\<lparr>bn_flags := dest_flags\<rparr>)"

definition BN_value_one :: bignum where
  "BN_value_one = \<lparr>bn_d = [1], bn_top = 1, bn_neg = 0, bn_flags = BN_FLG_STATIC_DATA\<rparr>"

fun correct_top_loop :: "words \<Rightarrow> nat \<Rightarrow> nat" where
  "correct_top_loop d tp = (if tp > 0 \<and> d ! (tp - 1) = 0 then correct_top_loop d (tp - 1) else tp)"

declare correct_top_loop.simps [simp del]

definition bn_correct_top :: "bignum \<Rightarrow> bignum" where
  "bn_correct_top a = a\<lparr>bn_top := correct_top_loop (bn_d a) (bn_top a)\<rparr>"

definition bn_expand_internal :: "(nat \<Rightarrow> bool) \<Rightarrow> bignum \<Rightarrow> int \<Rightarrow> bool \<times> bignum" where
  "bn_expand_internal alloc bn words =
     (if words < 0 then (False, bn)
      else if words > INT_MAX div (4 * BN_BITS2) then (False, bn)
      else if BN_get_flags bn BN_FLG_STATIC_DATA \<noteq> 0 then (False, bn)
      else case recallocarray alloc (bn_d bn) (bn_dmax bn) (nat words) 8 of
          None \<Rightarrow> (False, bn)
        | Some d \<Rightarrow> (True, bn\<lparr>bn_d := d\<rparr>))"

definition bn_wexpand :: "(nat \<Rightarrow> bool) \<Rightarrow> bignum \<Rightarrow> int \<Rightarrow> bool \<times> bignum" where
  "bn_wexpand alloc bn words =
     (if words < 0 then (False, bn)
      else if words \<le> int (bn_dmax bn) then (True, bn)
      else bn_expand_internal alloc bn words)"

definition bn_expand_bits :: "(nat \<Rightarrow> bool) \<Rightarrow> bignum \<Rightarrow> nat \<Rightarrow> bool \<times> bignum" where
  "bn_expand_bits alloc bn bits =
     (if int bits > INT_MAX - BN_BITS2 + 1 then (False, bn)
      else bn_wexpand alloc bn ((int bits + BN_BITS2 - 1) div BN_BITS2))"

definition bn_expand_bytes :: "(nat \<Rightarrow> bool) \<Rightarrow> bignum \<Rightarrow> nat \<Rightarrow> bool \<times> bignum" where
  "bn_expand_bytes alloc bn n =
     (if int n > INT_MAX - BN_BYTES + 1 then (False, bn)
      else bn_wexpand alloc bn ((int n + BN_BYTES - 1) div BN_BYTES))"

section \<open>Size\<close>

definition BN_num_bits_word :: "bn_word \<Rightarrow> int" where
  "BN_num_bits_word w = BN_BITS2 - bn_word_clz w"

text \<open>
  \<open>bn_bitsize\<close> (bn_primitives.c) remembers the index and the value of the last
  word that is not zero, without a branch on the words.
\<close>

function bitsize_loop :: "words \<Rightarrow> nat \<Rightarrow> nat \<Rightarrow> bn_word \<Rightarrow> bn_word \<Rightarrow> bn_word \<times> bn_word" where
  "bitsize_loop d i tp n x =
     (if i < tp then
        (let w = d ! i; msk = bn_ct_ne_zero_mask w
         in bitsize_loop d (i + 1) tp ((of_nat i AND msk) OR (n AND NOT msk)) ((w AND msk) OR (x AND NOT msk)))
      else (n, x))"
  by pat_completeness auto
termination by (relation "measure (\<lambda>(d, i, tp, n, x). tp - i)") auto

declare bitsize_loop.simps [simp del]

definition bn_bitsize :: "bignum \<Rightarrow> int" where
  "bn_bitsize bn =
     (let (n, x) = bitsize_loop (bn_d bn) 0 (bn_top bn) 0 0
      in (uint n + 1) * BN_BITS2 - bn_word_clz x)"

definition BN_num_bits :: "bignum \<Rightarrow> int" where
  "BN_num_bits bn = bn_bitsize bn"

definition BN_num_bytes :: "bignum \<Rightarrow> int" where
  "BN_num_bytes a = (BN_num_bits a + 7) div 8"

section \<open>Tests\<close>

function is_zero_loop :: "words \<Rightarrow> nat \<Rightarrow> nat \<Rightarrow> bn_word \<Rightarrow> bn_word" where
  "is_zero_loop d i tp bits =
     (if i < tp then is_zero_loop d (i + 1) tp (bits OR d ! i) else bits)"
  by pat_completeness auto
termination by (relation "measure (\<lambda>(d, i, tp, bits). tp - i)") auto

declare is_zero_loop.simps [simp del]

definition BN_is_zero :: "bignum \<Rightarrow> bool" where
  "BN_is_zero bn \<longleftrightarrow> is_zero_loop (bn_d bn) 0 (bn_top bn) 0 = 0"

definition BN_abs_is_word :: "bignum \<Rightarrow> bn_word \<Rightarrow> bool" where
  "BN_abs_is_word a w \<longleftrightarrow> (bn_top a = 1 \<and> bn_d a ! 0 = w) \<or> (w = 0 \<and> bn_top a = 0)"

definition BN_is_one :: "bignum \<Rightarrow> bool" where
  "BN_is_one a \<longleftrightarrow> BN_abs_is_word a 1 \<and> \<not> bn_neg a \<noteq> 0"

definition BN_is_word :: "bignum \<Rightarrow> bn_word \<Rightarrow> bool" where
  "BN_is_word a w \<longleftrightarrow> BN_abs_is_word a w \<and> (w = 0 \<or> \<not> bn_neg a \<noteq> 0)"

definition BN_is_odd :: "bignum \<Rightarrow> bool" where
  "BN_is_odd a \<longleftrightarrow> bn_top a > 0 \<and> bn_d a ! 0 AND 1 \<noteq> 0"

definition BN_is_negative :: "bignum \<Rightarrow> bool" where
  "BN_is_negative a \<longleftrightarrow> bn_neg a \<noteq> 0"

definition BN_set_negative :: "bignum \<Rightarrow> int \<Rightarrow> bignum" where
  "BN_set_negative bn neg =
     bn\<lparr>bn_neg := NOT (of_bool (BN_is_zero bn)) AND uint (bn_ct_ne_zero (of_int neg))\<rparr>"

definition BN_zero :: "bignum \<Rightarrow> bignum" where
  "BN_zero a = a\<lparr>bn_neg := 0, bn_top := 0\<rparr>"

section \<open>Copying and words\<close>

text \<open>\<open>bn_copy_words\<close> writes the first \<open>n\<close> words of \<open>bp\<close> over those of \<open>ap\<close>.\<close>

fun bn_copy_words :: "words \<Rightarrow> words \<Rightarrow> nat \<Rightarrow> words" where
  "bn_copy_words ap bp 0 = ap"
| "bn_copy_words ap bp (Suc n) = bp ! 0 # bn_copy_words (drop 1 ap) (drop 1 bp) n"

text \<open>\<open>BN_copy\<close> and \<open>bn_copy\<close> of two different numbers (on the same number they do nothing).\<close>

definition BN_copy :: "(nat \<Rightarrow> bool) \<Rightarrow> bignum \<Rightarrow> bignum \<Rightarrow> bool \<times> bignum" where
  "BN_copy alloc a b =
     (case bn_wexpand alloc a (int (bn_top b)) of
        (False, a) \<Rightarrow> (False, a)
      | (True, a) \<Rightarrow>
          (True, a\<lparr>bn_d := bn_copy_words (bn_d a) (bn_d b) (bn_top b),
             bn_flags := bn_flags a OR (bn_flags b AND BN_FLG_CONSTTIME),
             bn_top := bn_top b, bn_neg := bn_neg b\<rparr>))"

definition BN_dup :: "(nat \<Rightarrow> bool) \<Rightarrow> bignum option \<Rightarrow> bignum option" where
  "BN_dup alloc a =
     (case a of None \<Rightarrow> None
      | Some a \<Rightarrow>
         (case BN_new alloc of None \<Rightarrow> None
          | Some t \<Rightarrow> (case BN_copy alloc t a of (False, t) \<Rightarrow> None | (True, t) \<Rightarrow> Some t)))"

definition BN_swap :: "bignum \<Rightarrow> bignum \<Rightarrow> bignum \<times> bignum" where
  "BN_swap a b =
     (let flags_old_a = bn_flags a; flags_old_b = bn_flags b
      in (b\<lparr>bn_flags := (flags_old_a AND BN_FLG_MALLOCED) OR (flags_old_b AND BN_FLG_STATIC_DATA)\<rparr>,
          a\<lparr>bn_flags := (flags_old_b AND BN_FLG_MALLOCED) OR (flags_old_a AND BN_FLG_STATIC_DATA)\<rparr>))"

definition BN_get_word :: "bignum \<Rightarrow> bn_word" where
  "BN_get_word a = (if bn_top a > 1 then BN_MASK2 else if bn_top a = 1 then bn_d a ! 0 else 0)"

definition BN_set_word :: "(nat \<Rightarrow> bool) \<Rightarrow> bignum \<Rightarrow> bn_word \<Rightarrow> bool \<times> bignum" where
  "BN_set_word alloc a w =
     (case bn_wexpand alloc a 1 of
        (False, a) \<Rightarrow> (False, a)
      | (True, a) \<Rightarrow> (True, a\<lparr>bn_neg := 0, bn_d := (bn_d a)[0 := w], bn_top := (if w \<noteq> 0 then 1 else 0)\<rparr>))"

definition BN_one :: "(nat \<Rightarrow> bool) \<Rightarrow> bignum \<Rightarrow> bool \<times> bignum" where
  "BN_one alloc a = BN_set_word alloc a 1"

section \<open>Comparison\<close>

fun ucmp_loop :: "words \<Rightarrow> words \<Rightarrow> nat \<Rightarrow> int" where
  "ucmp_loop a b 0 = 0"
| "ucmp_loop a b (Suc i) =
     (if a ! i \<noteq> b ! i then (if a ! i > b ! i then 1 else - 1) else ucmp_loop a b i)"

definition BN_ucmp :: "bignum \<Rightarrow> bignum \<Rightarrow> int" where
  "BN_ucmp a b =
     (if bn_top a < bn_top b then - 1
      else if bn_top a > bn_top b then 1
      else ucmp_loop (bn_d a) (bn_d b) (bn_top a))"

fun BN_cmp :: "bignum option \<Rightarrow> bignum option \<Rightarrow> int" where
  "BN_cmp (Some a) None = - 1"
| "BN_cmp None (Some b) = 1"
| "BN_cmp None None = 0"
| "BN_cmp (Some a) (Some b) =
     (if bn_neg a \<noteq> bn_neg b then bn_neg b - bn_neg a
      else if bn_neg a \<noteq> 0 then BN_ucmp b a
      else BN_ucmp a b)"

section \<open>Bits\<close>

definition BN_set_bit :: "(nat \<Rightarrow> bool) \<Rightarrow> bignum \<Rightarrow> int \<Rightarrow> bool \<times> bignum" where
  "BN_set_bit alloc a n =
     (if n < 0 then (False, a)
      else let i = nat n div 64; j = nat n mod 64
       in case (if bn_top a \<le> i then
                  (case bn_wexpand alloc a (int i + 1) of
                     (False, a) \<Rightarrow> (False, a)
                   | (True, a) \<Rightarrow>
                       (True, a\<lparr>bn_d := write_at (bn_d a) (bn_top a) (replicate (i + 1 - bn_top a) 0),
                          bn_top := i + 1\<rparr>))
                else (True, a)) of
            (False, a) \<Rightarrow> (False, a)
          | (True, a) \<Rightarrow> (True, a\<lparr>bn_d := (bn_d a)[i := bn_d a ! i OR push_bit j 1]\<rparr>))"

definition BN_clear_bit :: "bignum \<Rightarrow> int \<Rightarrow> bool \<times> bignum" where
  "BN_clear_bit a n =
     (if n < 0 then (False, a)
      else let i = nat n div 64; j = nat n mod 64
       in if bn_top a \<le> i then (False, a)
          else let a = bn_correct_top (a\<lparr>bn_d := (bn_d a)[i := bn_d a ! i AND NOT (push_bit j 1)]\<rparr>)
               in (True, BN_set_negative a (bn_neg a)))"

definition BN_is_bit_set :: "bignum \<Rightarrow> int \<Rightarrow> int" where
  "BN_is_bit_set a n =
     (if n < 0 then 0
      else let i = nat n div 64; j = nat n mod 64
       in if bn_top a \<le> i then 0 else uint (drop_bit j (bn_d a ! i) AND 1))"

definition BN_mask_bits :: "bignum \<Rightarrow> int \<Rightarrow> bool \<times> bignum" where
  "BN_mask_bits a n =
     (if n < 0 then (False, a)
      else let w = nat n div 64; b = nat n mod 64
       in if w \<ge> bn_top a then (False, a)
          else let a = (if b = 0 then a\<lparr>bn_top := w\<rparr>
                        else a\<lparr>bn_top := w + 1, bn_d := (bn_d a)[w := bn_d a ! w AND NOT (push_bit b BN_MASK2)]\<rparr>);
                   a = bn_correct_top a
               in (True, BN_set_negative a (bn_neg a)))"

section \<open>Conditional swaps\<close>

text \<open>The exchange of two words with a mask that is 0 or all ones.\<close>

definition swap_word :: "bn_word \<Rightarrow> bn_word \<Rightarrow> bn_word \<Rightarrow> bn_word \<times> bn_word" where
  "swap_word condition a b = (let t = (a XOR b) AND condition in (a XOR t, b XOR t))"

text \<open>
  The indices that the \<open>switch\<close> of \<open>BN_consttime_swap\<close> runs through: from 10 on
  in the default case, then down from the last.
\<close>

definition consttime_swap_indices :: "int \<Rightarrow> nat list" where
  "consttime_swap_indices nwords =
     (if 1 \<le> nwords \<and> nwords \<le> 9 then rev [0..<nat nwords] else [10..<nat nwords] @ rev [0..<10])"

definition swap_at :: "bn_word \<Rightarrow> nat \<Rightarrow> words \<times> words \<Rightarrow> words \<times> words" where
  "swap_at condition i ab =
     (case ab of (a, b) \<Rightarrow>
        case swap_word condition (a ! i) (b ! i) of (x, y) \<Rightarrow> (a[i := x], b[i := y]))"

definition BN_consttime_swap :: "bn_word \<Rightarrow> bignum \<Rightarrow> bignum \<Rightarrow> int \<Rightarrow> bignum \<times> bignum" where
  "BN_consttime_swap condition a b nwords =
     (let condition = drop_bit 63 (condition - 1) - 1;
          (a_top, b_top) = swap_word condition (of_nat (bn_top a)) (of_nat (bn_top b));
          (a_d, b_d) = fold (swap_at condition) (consttime_swap_indices nwords) (bn_d a, bn_d b)
      in (a\<lparr>bn_top := unat a_top, bn_d := a_d\<rparr>, b\<lparr>bn_top := unat b_top, bn_d := b_d\<rparr>))"

definition BN_swap_ct :: "(nat \<Rightarrow> bool) \<Rightarrow> bn_word \<Rightarrow> bignum \<Rightarrow> bignum \<Rightarrow> nat \<Rightarrow> bool \<times> bignum \<times> bignum" where
  "BN_swap_ct alloc condition a b nwords =
     (if int nwords > INT_MAX then (False, a, b)
      else let words = nwords
       in case bn_wexpand alloc a (int words) of
            (False, a) \<Rightarrow> (False, a, b)
          | (True, a) \<Rightarrow>
             (case bn_wexpand alloc b (int words) of
                (False, b) \<Rightarrow> (False, a, b)
              | (True, b) \<Rightarrow>
                 (if bn_top a > words \<or> bn_top b > words then (False, a, b)
                  else let condition = drop_bit 63 (NOT condition AND (condition - 1)) - 1;
                           (a_top, b_top) = swap_word condition (of_nat (bn_top a)) (of_nat (bn_top b));
                           (a_neg, b_neg) = swap_word condition (of_int (bn_neg a)) (of_int (bn_neg b));
                           t = ((of_int (bn_flags a) XOR of_int (bn_flags b)) AND of_int BN_FLG_CONSTTIME) AND condition;
                           (a_d, b_d) = fold (swap_at condition) [0..<words] (bn_d a, bn_d b)
                       in (True,
                           a\<lparr>bn_top := unat a_top, bn_neg := uint a_neg,
                             bn_flags := bn_flags a XOR uint t, bn_d := a_d\<rparr>,
                           b\<lparr>bn_top := unat b_top, bn_neg := uint b_neg,
                             bn_flags := bn_flags b XOR uint t, bn_d := b_d\<rparr>))))"

text \<open>Bits of security for a key of \<open>L\<close> bits with a subgroup of \<open>N\<close> bits; \<open>-1\<close> for none.\<close>

definition BN_security_bits :: "int \<Rightarrow> int \<Rightarrow> int" where
  "BN_security_bits L N =
     (case (if L \<ge> 15360 then Some 256
            else if L \<ge> 7680 then Some 192
            else if L \<ge> 3072 then Some 128
            else if L \<ge> 2048 then Some 112
            else if L \<ge> 1024 then Some 80
            else None) of
        None \<Rightarrow> 0
      | Some secbits \<Rightarrow>
         (if N = -1 then secbits
          else let bits = (if N \<ge> 0 then N div 2 else - (- N div 2))
               in if bits < 80 then 0 else if bits \<ge> secbits then secbits else bits))"

section \<open>Well-formed numbers and their value\<close>

definition bn_mag :: "bignum \<Rightarrow> int" where
  "bn_mag bn = bn_val (take (bn_top bn) (bn_d bn))"

definition bn_int :: "bignum \<Rightarrow> int" where
  "bn_int bn = (if bn_neg bn \<noteq> 0 then - bn_mag bn else bn_mag bn)"

definition BN_MAX_WORDS :: nat where "BN_MAX_WORDS = 8388607"

text \<open>\<open>bn_fits\<close>: the array bounds; \<open>bn_ok\<close>: normal form in addition.\<close>

definition bn_fits :: "bignum \<Rightarrow> bool" where
  "bn_fits bn \<longleftrightarrow> bn_top bn \<le> bn_dmax bn \<and> bn_dmax bn \<le> BN_MAX_WORDS"

definition bn_ok :: "bignum \<Rightarrow> bool" where
  "bn_ok bn \<longleftrightarrow> bn_fits bn \<and> (bn_top bn > 0 \<longrightarrow> bn_d bn ! (bn_top bn - 1) \<noteq> 0) \<and>
     bn_neg bn \<in> {0, 1} \<and> (bn_top bn = 0 \<longrightarrow> bn_neg bn = 0)"

lemma bn_ok_fits: "bn_ok bn \<Longrightarrow> bn_fits bn"
  by (simp add: bn_ok_def)

lemma bn_fits_top: "bn_fits bn \<Longrightarrow> bn_top bn \<le> length (bn_d bn)"
  by (simp add: bn_fits_def bn_dmax_def)

lemma bn_mag_nonneg [simp]: "0 \<le> bn_mag bn"
  by (simp add: bn_mag_def)

lemma bn_val_eq_0_iff: "bn_val ws = 0 \<longleftrightarrow> (\<forall>w \<in> set ws. w = 0)"
proof (induction ws)
  case (Cons w ws)
  have "uint w + 2 ^ 64 * bn_val ws = 0 \<longleftrightarrow> uint w = 0 \<and> bn_val ws = 0"
    by (simp add: add_nonneg_eq_0_iff)
  then show ?case using Cons by (simp add: uint_0_iff)
qed simp

lemma is_zero_loop_eq:
  "tp \<le> length d \<Longrightarrow> is_zero_loop d i tp bits = 0 \<longleftrightarrow> bits = 0 \<and> (\<forall>w \<in> set (drop i (take tp d)). w = 0)"
proof (induction d i tp bits rule: is_zero_loop.induct)
  case (1 d i tp bits)
  show ?case
  proof (cases "i < tp")
    case True
    then have "drop i (take tp d) = d ! i # drop (i + 1) (take tp d)"
      using "1.prems" by (simp add: Cons_nth_drop_Suc [symmetric])
    with True 1 show ?thesis by (subst is_zero_loop.simps) (auto simp: or_eq_0_iff)
  qed (use 1 in \<open>simp add: is_zero_loop.simps\<close>)
qed

lemma BN_is_zero_iff: "bn_fits bn \<Longrightarrow> BN_is_zero bn \<longleftrightarrow> bn_mag bn = 0"
  using is_zero_loop_eq [of "bn_top bn" "bn_d bn" 0 0] bn_fits_top [of bn]
  by (simp add: BN_is_zero_def bn_mag_def bn_val_eq_0_iff)

lemma top_word_bound:
  assumes "0 < n" "n \<le> length d" "d ! (n - 1) \<noteq> 0"
  shows "2 ^ (64 * (n - 1)) \<le> bn_val (take n d)"
proof -
  have "bn_val (take n d) = bn_val (take (n - 1) d) + 2 ^ (64 * (n - 1)) * uint (d ! (n - 1))"
    using bn_val_take_Suc [of "n - 1" d] assms by simp
  moreover have "uint (d ! (n - 1)) \<noteq> 0" using assms(3) by (simp add: uint_0_iff)
  then have "1 \<le> uint (d ! (n - 1))" using uint_ge_0 [of "d ! (n - 1)"] by linarith
  then have "2 ^ (64 * (n - 1)) * 1 \<le> 2 ^ (64 * (n - 1)) * uint (d ! (n - 1))" by (intro mult_left_mono) auto
  moreover have "0 \<le> bn_val (take (n - 1) d)" by simp
  ultimately show ?thesis by linarith
qed

lemma bn_ok_mag_0: "bn_ok bn \<Longrightarrow> bn_mag bn = 0 \<longleftrightarrow> bn_top bn = 0"
proof (cases "bn_top bn = 0")
  case False
  assume "bn_ok bn"
  then have "2 ^ (64 * (bn_top bn - 1)) \<le> bn_mag bn"
    using False bn_fits_top [of bn] unfolding bn_mag_def by (intro top_word_bound) (auto simp: bn_ok_def)
  moreover have "0 < (2 :: int) ^ (64 * (bn_top bn - 1))" by simp
  ultimately have "0 < bn_mag bn" by linarith
  then show ?thesis using False by simp
qed (simp add: bn_mag_def)

lemma bn_ok_int_0: "bn_ok bn \<Longrightarrow> bn_int bn = 0 \<longleftrightarrow> bn_top bn = 0"
  by (simp add: bn_int_def bn_ok_mag_0)

lemma bn_mag_abs: "bn_mag bn = \<bar>bn_int bn\<bar>"
  by (simp add: bn_int_def)

lemma bn_ok_neg: "bn_ok bn \<Longrightarrow> bn_neg bn = (if bn_int bn < 0 then 1 else 0)"
proof -
  assume ok: "bn_ok bn"
  have "0 < bn_mag bn" if "bn_top bn \<noteq> 0"
    using bn_ok_mag_0 [OF ok] bn_mag_nonneg [of bn] that by linarith
  then show ?thesis using ok bn_mag_nonneg [of bn] unfolding bn_ok_def bn_int_def
    by (cases "bn_neg bn = 0"; cases "bn_top bn = 0") (auto simp: not_less [symmetric])
qed

text \<open>The value of a well-formed number determines it up to its spare words.\<close>

lemma bn_ok_top_less:
  assumes "bn_ok a" "bn_ok b" "bn_top a < bn_top b"
  shows "bn_mag a < bn_mag b"
proof -
  have "bn_mag a < 2 ^ (64 * bn_top a)"
    using bn_val_less [of "take (bn_top a) (bn_d a)"] bn_fits_top [OF bn_ok_fits [OF assms(1)]] by (simp add: bn_mag_def min_absorb2)
  also have "\<dots> \<le> (2 :: int) ^ (64 * (bn_top b - 1))" using assms(3) by (intro power_increasing) auto
  also have "\<dots> \<le> bn_mag b"
    using top_word_bound [of "bn_top b" "bn_d b"] assms bn_fits_top [OF bn_ok_fits [OF assms(2)]] by (auto simp: bn_mag_def bn_ok_def)
  finally show ?thesis .
qed

section \<open>Normal form\<close>

lemma correct_top_loop_props:
  "n \<le> length d \<Longrightarrow> correct_top_loop d n \<le> n \<and>
    bn_val (take (correct_top_loop d n) d) = bn_val (take n d) \<and>
    (correct_top_loop d n > 0 \<longrightarrow> d ! (correct_top_loop d n - 1) \<noteq> 0)"
proof (induction d n rule: correct_top_loop.induct)
  case (1 d n)
  show ?case
  proof (cases "n > 0 \<and> d ! (n - 1) = 0")
    case True
    then have "bn_val (take n d) = bn_val (take (n - 1) d)" using bn_val_take_Suc [of "n - 1" d] 1(2) by (cases n) auto
    moreover have "correct_top_loop d n = correct_top_loop d (n - 1)" using True by (subst correct_top_loop.simps) simp
    moreover have "n - 1 \<le> length d" using "1.prems" by simp
    ultimately show ?thesis using "1.IH" [OF True] by auto
  next
    case False
    then have "correct_top_loop d n = n" by (subst correct_top_loop.simps) auto
    then show ?thesis using False by auto
  qed
qed

lemma bn_correct_top_fields [simp]:
  "bn_d (bn_correct_top bn) = bn_d bn" "bn_neg (bn_correct_top bn) = bn_neg bn" "bn_flags (bn_correct_top bn) = bn_flags bn"
  by (simp_all add: bn_correct_top_def)

lemma bn_correct_top_ok:
  assumes "bn_fits bn"
  shows "bn_fits (bn_correct_top bn)" "bn_mag (bn_correct_top bn) = bn_mag bn"
    "bn_top (bn_correct_top bn) > 0 \<Longrightarrow> bn_d bn ! (bn_top (bn_correct_top bn) - 1) \<noteq> 0"
  using correct_top_loop_props [of "bn_top bn" "bn_d bn"] assms
  by (auto simp: bn_correct_top_def bn_fits_def bn_dmax_def bn_mag_def)

lemma BN_set_negative_eq:
  assumes "bn_fits bn" "neg \<in> {0, 1}"
  shows "BN_set_negative bn neg = bn\<lparr>bn_neg := (if bn_mag bn \<noteq> 0 \<and> neg \<noteq> 0 then 1 else 0)\<rparr>"
  using assms by (auto simp: BN_set_negative_def BN_is_zero_iff)

lemma bn_mag_neg_update [simp]: "bn_mag (bn\<lparr>bn_neg := n\<rparr>) = bn_mag bn"
  by (simp add: bn_mag_def)

lemma bn_fits_neg_update [simp]: "bn_fits (bn\<lparr>bn_neg := n\<rparr>) = bn_fits bn"
  by (simp add: bn_fits_def bn_dmax_def)

text \<open>\<open>bn_correct_top\<close> and \<open>BN_set_negative\<close> at the end of an operation give the normal form.\<close>

lemma bn_normal_ok:
  assumes "bn_fits bn" "neg \<in> {0, 1}"
  shows "bn_ok (BN_set_negative (bn_correct_top bn) neg)"
    "bn_int (BN_set_negative (bn_correct_top bn) neg) = (if neg \<noteq> 0 then - bn_mag bn else bn_mag bn)"
proof -
  note ct = bn_correct_top_ok [OF assms(1)]
  have "bn_mag bn = 0" if "bn_top (bn_correct_top bn) = 0" using ct(2) that by (simp add: bn_mag_def)
  then show "bn_ok (BN_set_negative (bn_correct_top bn) neg)"
    unfolding BN_set_negative_eq [OF ct(1) assms(2)] using ct by (auto simp: bn_ok_def)
  show "bn_int (BN_set_negative (bn_correct_top bn) neg) = (if neg \<noteq> 0 then - bn_mag bn else bn_mag bn)"
    unfolding BN_set_negative_eq [OF ct(1) assms(2)] using ct(2) by (simp add: bn_int_def)
qed

lemma BN_set_negative_ok:
  assumes "bn_ok bn" "neg \<in> {0, 1}"
  shows "bn_ok (BN_set_negative bn neg)"
    "bn_int (BN_set_negative bn neg) = (if neg \<noteq> 0 then - bn_mag bn else bn_mag bn)"
  unfolding BN_set_negative_eq [OF bn_ok_fits [OF assms(1)] assms(2)]
  using assms bn_ok_mag_0 [OF assms(1)] by (auto simp: bn_ok_def bn_int_def)

lemma BN_zero_ok: "bn_fits bn \<Longrightarrow> bn_ok (BN_zero bn) \<and> bn_int (BN_zero bn) = 0"
  by (simp add: BN_zero_def bn_ok_def bn_fits_def bn_dmax_def bn_int_def bn_mag_def)

section \<open>Expansion\<close>

text \<open>When a number can be given room for \<open>n\<close> words.\<close>

definition can_expand :: "(nat \<Rightarrow> bool) \<Rightarrow> bignum \<Rightarrow> nat \<Rightarrow> bool" where
  "can_expand alloc bn n \<longleftrightarrow>
     n \<le> bn_dmax bn \<or> (n \<le> BN_MAX_WORDS \<and> bn_flags bn AND BN_FLG_STATIC_DATA = 0 \<and> alloc (n * 8))"

lemma bn_wexpand_eq:
  "bn_wexpand alloc bn (int n) =
    (if can_expand alloc bn n then (True, bn\<lparr>bn_d := bn_d bn @ replicate (n - bn_dmax bn) 0\<rparr>) else (False, bn))"
proof -
  have max: "INT_MAX div (4 * BN_BITS2) = int BN_MAX_WORDS" by (simp add: INT_MAX_def BN_BITS2_def BN_MAX_WORDS_def)
  consider "n \<le> bn_dmax bn" | "bn_dmax bn < n" "n \<le> BN_MAX_WORDS" | "bn_dmax bn < n" "BN_MAX_WORDS < n" by linarith
  then show ?thesis
  proof cases
    case 2
    then have "n * 8 \<le> SIZE_MAX" by (simp add: SIZE_MAX_def BN_MAX_WORDS_def)
    with 2 recallocarray_grow [of "bn_dmax bn" n 8 alloc "bn_d bn"] show ?thesis
      by (auto simp: bn_wexpand_def bn_expand_internal_def max can_expand_def BN_get_flags_def bn_dmax_def)
  qed (auto simp: bn_wexpand_def bn_expand_internal_def max can_expand_def BN_get_flags_def bn_dmax_def)
qed

text \<open>What an expansion keeps.\<close>

lemma bn_wexpand_ok:
  assumes "bn_wexpand alloc bn (int n) = (True, bn')" "bn_fits bn"
  shows "bn_fits bn'" "n \<le> bn_dmax bn'" "bn_mag bn' = bn_mag bn" "bn_top bn' = bn_top bn" "bn_neg bn' = bn_neg bn"
    "bn_flags bn' = bn_flags bn" "take (bn_dmax bn) (bn_d bn') = bn_d bn" "bn_ok bn' = bn_ok bn"
proof -
  have e: "can_expand alloc bn n" "bn' = bn\<lparr>bn_d := bn_d bn @ replicate (n - bn_dmax bn) 0\<rparr>"
    using assms(1) by (auto simp: bn_wexpand_eq split: if_splits)
  show fits: "bn_fits bn'" using e assms(2) by (auto simp: bn_fits_def can_expand_def bn_dmax_def)
  show "n \<le> bn_dmax bn'" using e by (auto simp: bn_dmax_def)
  show "bn_mag bn' = bn_mag bn" using e(2) bn_fits_top [OF assms(2)] by (simp add: bn_mag_def)
  show "bn_top bn' = bn_top bn" "bn_neg bn' = bn_neg bn" "bn_flags bn' = bn_flags bn"
    "take (bn_dmax bn) (bn_d bn') = bn_d bn" using e by (simp_all add: bn_dmax_def)
  show "bn_ok bn' = bn_ok bn" using fits e(2) assms(2) bn_fits_top [OF assms(2)] by (auto simp: bn_ok_def nth_append)
qed

lemma bn_wexpand_fail: "bn_wexpand alloc bn n = (False, bn') \<Longrightarrow> bn' = bn"
  by (auto simp: bn_wexpand_def bn_expand_internal_def split: if_splits option.splits)

section \<open>Comparison and size\<close>

lemma ucmp_loop_sgn:
  "n \<le> length a \<Longrightarrow> n \<le> length b \<Longrightarrow> ucmp_loop a b n = sgn (bn_val (take n a) - bn_val (take n b))"
proof (induction n)
  case (Suc n)
  have eq: "bn_val (take (Suc n) a) = bn_val (take n a) + 2 ^ (64 * n) * uint (a ! n)"
    "bn_val (take (Suc n) b) = bn_val (take n b) + 2 ^ (64 * n) * uint (b ! n)"
    using Suc.prems by (simp_all add: bn_val_take_Suc)
  have lt: "bn_val (take n x) + 2 ^ (64 * n) * uint u < bn_val (take n y) + 2 ^ (64 * n) * uint v"
    if "n \<le> length x" "uint u < uint v" for x y and u v :: bn_word
  proof -
    have "bn_val (take n x) < 2 ^ (64 * n)" using bn_val_less [of "take n x"] that by (simp add: min_absorb2)
    then have "bn_val (take n x) + 2 ^ (64 * n) * uint u < 2 ^ (64 * n) * (uint u + 1)" by (simp add: algebra_simps)
    also have "\<dots> \<le> 2 ^ (64 * n) * uint v" using that by (intro mult_left_mono) auto
    finally show ?thesis using bn_val_nonneg [of "take n y"] by linarith
  qed
  consider "a ! n = b ! n" | "a ! n > b ! n" | "a ! n < b ! n" by force
  then show ?case
  proof cases
    case 2
    then have "a ! n \<noteq> b ! n" by auto
    with 2 show ?thesis using lt [of b "b ! n" "a ! n" a] Suc.prems by (simp add: eq word_less_def)
  next
    case 3
    then have "a ! n \<noteq> b ! n" "\<not> a ! n > b ! n" by auto
    with 3 show ?thesis using lt [of a "a ! n" "b ! n" b] Suc.prems by (simp add: eq word_less_def)
  qed (use Suc in \<open>simp add: eq\<close>)
qed simp

lemma BN_ucmp_sgn:
  assumes "bn_ok a" "bn_ok b"
  shows "BN_ucmp a b = sgn (bn_mag a - bn_mag b)"
proof -
  consider "bn_top a < bn_top b" | "bn_top b < bn_top a" | "bn_top a = bn_top b" by linarith
  then show ?thesis
  proof cases
    case 1
    then show ?thesis using bn_ok_top_less [OF assms 1] by (simp add: BN_ucmp_def)
  next
    case 2
    then show ?thesis using bn_ok_top_less [OF assms(2,1) 2] by (simp add: BN_ucmp_def)
  next
    case 3
    then show ?thesis using assms bn_fits_top [OF bn_ok_fits, of a] bn_fits_top [OF bn_ok_fits, of b]
      by (simp add: BN_ucmp_def ucmp_loop_sgn bn_mag_def)
  qed
qed

lemma BN_cmp_sgn:
  assumes "bn_ok a" "bn_ok b"
  shows "BN_cmp (Some a) (Some b) = sgn (bn_int a - bn_int b)"
proof -
  have pos: "0 < bn_mag x" if "bn_ok x" "bn_neg x \<noteq> 0" for x
  proof -
    have "bn_mag x \<noteq> 0" using that bn_ok_mag_0 [OF that(1)] by (auto simp: bn_ok_def)
    then show ?thesis using bn_mag_nonneg [of x] by linarith
  qed
  have n: "bn_neg a = 0 \<or> bn_neg a = 1" "bn_neg b = 0 \<or> bn_neg b = 1" using assms by (auto simp: bn_ok_def)
  have ge: "0 \<le> bn_mag a" "0 \<le> bn_mag b" by simp_all
  consider "bn_neg a = 0" "bn_neg b = 0" | "bn_neg a = 1" "bn_neg b = 1"
    | "bn_neg a = 0" "bn_neg b = 1" | "bn_neg a = 1" "bn_neg b = 0" using n by blast
  then show ?thesis
  proof cases
    case 3
    then have "0 < bn_mag b" using pos [OF assms(2)] by simp
    then have "0 < bn_mag a + bn_mag b" using ge by linarith
    then show ?thesis using 3 by (simp add: bn_int_def)
  next
    case 4
    then have "0 < bn_mag a" using pos [OF assms(1)] by simp
    then have "- bn_mag a - bn_mag b < 0" using ge by linarith
    then show ?thesis using 4 by (simp add: bn_int_def)
  qed (use assms in \<open>simp_all add: BN_ucmp_sgn bn_int_def\<close>)
qed

text \<open>The last word that is not zero.\<close>

lemma bitsize_loop_eq:
  assumes "tp \<le> length d" "tp \<le> 2 ^ 63"
  shows "bitsize_loop d i tp n x =
    (case filter (\<lambda>k. d ! k \<noteq> 0) (rev [i..<tp]) of [] \<Rightarrow> (n, x) | k # _ \<Rightarrow> (of_nat k, d ! k))"
  using assms
proof (induction d i tp n x rule: bitsize_loop.induct)
  case (1 d i tp n x)
  show ?case
  proof (cases "i < tp")
    case True
    then have "rev [i..<tp] = rev [i + 1..<tp] @ [i]" by (simp add: upt_conv_Cons)
    with True 1 show ?thesis
      by (subst bitsize_loop.simps) (auto simp: Let_def split: list.splits)
  next
    case False
    then show ?thesis by (subst bitsize_loop.simps) simp
  qed
qed

lemma filter_rev_upt_last: "0 < n \<Longrightarrow> P (n - 1) \<Longrightarrow> \<exists>ks. filter P (rev [0..<n]) = (n - 1) # ks"
  by (cases n) auto

text \<open>\<open>BN_num_bits\<close> is the number of significant bits.\<close>

lemma BN_num_bits_eq:
  assumes "bn_ok bn"
  shows "BN_num_bits bn = (if bn_top bn = 0 then 0
    else 64 * (int (bn_top bn) - 1) + int (word_bits (bn_d bn ! (bn_top bn - 1))))"
proof (cases "bn_top bn = 0")
  case True
  then show ?thesis by (simp add: BN_num_bits_def bn_bitsize_def bitsize_loop.simps bn_word_clz_zero BN_BITS2_def)
next
  case False
  have fits: "bn_top bn \<le> length (bn_d bn)" using bn_fits_top [OF bn_ok_fits [OF assms]] .
  moreover have "bn_top bn \<le> 2 ^ 63" using bn_ok_fits [OF assms] by (simp add: bn_fits_def BN_MAX_WORDS_def)
  moreover obtain ks where "filter (\<lambda>k. bn_d bn ! k \<noteq> 0) (rev [0..<bn_top bn]) = (bn_top bn - 1) # ks"
    using filter_rev_upt_last [of "bn_top bn" "\<lambda>k. bn_d bn ! k \<noteq> 0"] False assms by (auto simp: bn_ok_def)
  ultimately have "bitsize_loop (bn_d bn) 0 (bn_top bn) 0 0 = (of_nat (bn_top bn - 1), bn_d bn ! (bn_top bn - 1))"
    by (simp add: bitsize_loop_eq)
  moreover have "unat (of_nat (bn_top bn - 1) :: u64) = bn_top bn - 1"
    using \<open>bn_top bn \<le> 2 ^ 63\<close> by (simp add: unat_of_nat)
  then have "uint (of_nat (bn_top bn - 1) :: u64) = int (bn_top bn - 1)" by (simp only: uint_nat)
  ultimately show ?thesis using False
    by (simp add: BN_num_bits_def bn_bitsize_def bn_word_clz_eq BN_BITS2_def)
qed

lemma BN_num_bits_bounds:
  assumes "bn_ok bn" "bn_int bn \<noteq> 0"
  shows "0 < BN_num_bits bn" "2 ^ nat (BN_num_bits bn - 1) \<le> bn_mag bn" "bn_mag bn < 2 ^ nat (BN_num_bits bn)"
proof -
  define t where "t = bn_top bn - 1"
  define w where "w = bn_d bn ! t"
  have top: "bn_top bn = Suc t" "w \<noteq> 0" using assms bn_ok_int_0 [OF assms(1)] by (auto simp: t_def w_def bn_ok_def)
  have t: "t < length (bn_d bn)" using bn_fits_top [OF bn_ok_fits [OF assms(1)]] top by simp
  note wb = word_bits_bounds [OF top(2)]
  have n: "BN_num_bits bn = int (64 * t + word_bits w)"
    using BN_num_bits_eq [OF assms(1)] top by (simp add: w_def)
  show "0 < BN_num_bits bn" using n wb(3) by simp
  have mag: "bn_mag bn = bn_val (take t (bn_d bn)) + 2 ^ (64 * t) * uint w"
    using bn_val_take_Suc [OF t] top by (simp add: bn_mag_def w_def)
  have low: "0 \<le> bn_val (take t (bn_d bn))" "bn_val (take t (bn_d bn)) < 2 ^ (64 * t)"
    using bn_val_less [of "take t (bn_d bn)"] t by (simp_all add: min_absorb2)
  have uw: "2 ^ (word_bits w - 1) \<le> uint w" "uint w + 1 \<le> 2 ^ word_bits w"
    using wb(1,2) by (metis of_nat_le_iff of_nat_numeral of_nat_power uint_nat, metis Suc_leI of_nat_Suc of_nat_le_iff of_nat_numeral of_nat_power uint_nat add.commute)
  have "nat (BN_num_bits bn - 1) = 64 * t + (word_bits w - 1)" using n wb(3) by linarith
  then have "2 ^ nat (BN_num_bits bn - 1) = (2 :: int) ^ (64 * t) * 2 ^ (word_bits w - 1)" by (simp add: power_add)
  also have "\<dots> \<le> 2 ^ (64 * t) * uint w" using uw(1) by (intro mult_left_mono) auto
  finally show "2 ^ nat (BN_num_bits bn - 1) \<le> bn_mag bn" using mag low by linarith
  have "bn_mag bn < 2 ^ (64 * t) * (uint w + 1)" using mag low by (simp add: algebra_simps)
  also have "\<dots> \<le> 2 ^ (64 * t) * 2 ^ word_bits w" using uw(2) by (intro mult_left_mono) auto
  finally show "bn_mag bn < 2 ^ nat (BN_num_bits bn)" 
    using n by (simp add: power_add [symmetric] flip: of_nat_add)
qed

section \<open>Bits\<close>

lemma bit_bn_val: "bit (bn_val ws) n \<longleftrightarrow> n div 64 < length ws \<and> bit (ws ! (n div 64)) (n mod 64)"
proof (induction ws arbitrary: n)
  case (Cons w ws)
  have "uint w AND push_bit 64 (bn_val ws) = 0"
    by (rule bit_eqI) (auto simp: bit_simps dest: bit_imp_le_length)
  then have "uint w + push_bit 64 (bn_val ws) = uint w OR push_bit 64 (bn_val ws)"
    by (rule disjunctive_add_eq_or)
  then have v: "bn_val (w # ws) = uint w OR push_bit 64 (bn_val ws)"
    by (simp add: push_bit_eq_mult mult.commute)
  show ?case
  proof (cases "n < 64")
    case True
    then show ?thesis unfolding v by (simp add: bit_simps)
  next
    case False
    then have "n div 64 = Suc ((n - 64) div 64)" "n mod 64 = (n - 64) mod 64"
      by (simp_all add: le_div_geq le_mod_geq)
    moreover have "bit (bn_val (w # ws)) n \<longleftrightarrow> bit (bn_val ws) (n - 64)"
      unfolding v using False by (auto simp: bit_simps dest: bit_imp_le_length)
    ultimately show ?thesis using Cons by simp
  qed
qed simp

lemma bit_bn_mag:
  "bn_fits bn \<Longrightarrow> bit (bn_mag bn) n \<longleftrightarrow> n div 64 < bn_top bn \<and> bit (bn_d bn ! (n div 64)) (n mod 64)"
  using bn_fits_top [of bn] by (auto simp: bn_mag_def bit_bn_val)

lemma word_and_1_eq: "uint (drop_bit j (w :: u64) AND 1) = of_bool (bit w j)"
proof -
  have "drop_bit j w AND 1 = of_bool (bit w j)" by (simp add: and_one_eq bit_iff_odd_drop_bit mod_2_eq_odd)
  then show ?thesis by simp
qed

lemma BN_is_bit_set_eq: "bn_fits a \<Longrightarrow> 0 \<le> n \<Longrightarrow> BN_is_bit_set a n = of_bool (bit (bn_mag a) (nat n))"
  by (auto simp: BN_is_bit_set_def bit_bn_mag Let_def word_and_1_eq not_le)

lemma div_mod_64_eq_iff: "m = n \<longleftrightarrow> m div 64 = n div 64 \<and> m mod 64 = (n mod 64 :: nat)"
  by (metis mod_div_mult_eq)

text \<open>An array in which one word has changed.\<close>

lemma bit_bn_mag_update:
  assumes "bn_fits bn" "i < bn_top bn"
  shows "bit (bn_mag (bn\<lparr>bn_d := (bn_d bn)[i := w]\<rparr>)) n \<longleftrightarrow>
    (if n div 64 = i then bit w (n mod 64) else bit (bn_mag bn) n)"
proof -
  have "bn_fits (bn\<lparr>bn_d := (bn_d bn)[i := w]\<rparr>)" using assms by (simp add: bn_fits_def bn_dmax_def)
  then show ?thesis using assms bn_fits_top [OF assms(1)] by (auto simp: bit_bn_mag nth_list_update)
qed

text \<open>The part of \<open>BN_set_bit\<close> that extends the number with zero words.\<close>

lemma bn_fits_extend:
  assumes "bn_fits a" "bn_top a \<le> n" "n \<le> bn_dmax a"
    and "a' = a\<lparr>bn_d := write_at (bn_d a) (bn_top a) (replicate (n - bn_top a) 0), bn_top := n\<rparr>"
  shows "bn_fits a'" "bn_mag a' = bn_mag a"
proof -
  show "bn_fits a'" using assms by (simp add: bn_fits_def bn_dmax_def)
  have "take n (write_at (bn_d a) (bn_top a) (replicate (n - bn_top a) 0)) = take (bn_top a) (bn_d a) @ replicate (n - bn_top a) 0"
    using assms take_write_at_end [of "bn_top a" "bn_d a" "replicate (n - bn_top a) 0"] by (simp add: bn_dmax_def)
  then show "bn_mag a' = bn_mag a" using assms by (simp add: bn_mag_def bn_val_append)
qed

lemma bn_mag_set_bit:
  assumes "bn_fits a" "n div 64 < bn_top a"
  shows "bn_mag (a\<lparr>bn_d := (bn_d a)[n div 64 := bn_d a ! (n div 64) OR push_bit (n mod 64) 1]\<rparr>) = set_bit n (bn_mag a)"
proof (rule bit_eqI)
  fix m :: nat
  have "m mod 64 < 64" by simp
  then show "bit (bn_mag (a\<lparr>bn_d := (bn_d a)[n div 64 := bn_d a ! (n div 64) OR push_bit (n mod 64) 1]\<rparr>)) m
      = bit (set_bit n (bn_mag a)) m"
    using assms div_mod_64_eq_iff [of m n]
    by (auto simp: bit_bn_mag_update bit_set_bit_iff bit_or_iff bit_push_bit_iff bit_1_iff bit_exp_iff bit_bn_mag)
qed

lemma bn_mag_clear_bit:
  assumes "bn_fits a" "n div 64 < bn_top a"
  shows "bn_mag (a\<lparr>bn_d := (bn_d a)[n div 64 := bn_d a ! (n div 64) AND NOT (push_bit (n mod 64) 1)]\<rparr>) = unset_bit n (bn_mag a)"
proof (rule bit_eqI)
  fix m :: nat
  have "m mod 64 < 64" by simp
  then show "bit (bn_mag (a\<lparr>bn_d := (bn_d a)[n div 64 := bn_d a ! (n div 64) AND NOT (push_bit (n mod 64) 1)]\<rparr>)) m
      = bit (unset_bit n (bn_mag a)) m"
    using assms div_mod_64_eq_iff [of m n]
    by (auto simp: bit_bn_mag_update bit_unset_bit_iff bit_and_iff bit_not_iff bit_push_bit_iff bit_1_iff bit_exp_iff bit_bn_mag)
qed

lemma BN_set_bit_correct:
  assumes "bn_ok a" "0 \<le> n" "BN_set_bit alloc a n = (ret, a')"
  shows "ret \<longleftrightarrow> nat n div 64 < bn_top a \<or> can_expand alloc a (nat n div 64 + 1)"
    and "ret \<Longrightarrow> bn_ok a' \<and> bn_mag a' = set_bit (nat n) (bn_mag a) \<and> bn_neg a' = bn_neg a"
    and "\<not> ret \<Longrightarrow> a' = a"
proof -
  define i where "i = nat n div 64"
  note fits = bn_ok_fits [OF assms(1)]
  have top_ok: "bn_ok b" if "bn_fits b" "bn_neg b \<in> {0, 1}" "bn_top b > 0" "bn_d b ! (bn_top b - 1) \<noteq> 0" for b
    using that by (simp add: bn_ok_def)
  have or_ne: "w OR push_bit (nat n mod 64) 1 \<noteq> (0 :: u64)" for w
  proof
    assume "w OR push_bit (nat n mod 64) 1 = (0 :: u64)"
    then have "bit (w OR push_bit (nat n mod 64) 1 :: u64) (nat n mod 64) = bit (0 :: u64) (nat n mod 64)" by simp
    then show False by (simp add: bit_simps)
  qed
  have set: "bn_ok (b\<lparr>bn_d := (bn_d b)[i := bn_d b ! i OR push_bit (nat n mod 64) 1]\<rparr>)"
    if b: "bn_fits b" "bn_neg b \<in> {0, 1}" "i < bn_top b" "i = bn_top b - 1 \<or> bn_d b ! (bn_top b - 1) \<noteq> 0" for b
    using b bn_fits_top [OF b(1)] or_ne
    by (intro top_ok) (auto simp: bn_fits_def bn_dmax_def nth_list_update)
  have neg: "bn_neg a \<in> {0, 1}" "bn_top a > 0 \<Longrightarrow> bn_d a ! (bn_top a - 1) \<noteq> 0" using assms(1) by (auto simp: bn_ok_def)
  consider "i < bn_top a" | "bn_top a \<le> i" "can_expand alloc a (i + 1)" | "bn_top a \<le> i" "\<not> can_expand alloc a (i + 1)"
    by linarith
  then have "(ret \<longleftrightarrow> i < bn_top a \<or> can_expand alloc a (i + 1)) \<and>
    (ret \<longrightarrow> bn_ok a' \<and> bn_mag a' = set_bit (nat n) (bn_mag a) \<and> bn_neg a' = bn_neg a) \<and> (\<not> ret \<longrightarrow> a' = a)"
  proof cases
    case 1
    then have r: "ret" "a' = a\<lparr>bn_d := (bn_d a)[i := bn_d a ! i OR push_bit (nat n mod 64) 1]\<rparr>"
      using assms by (auto simp: BN_set_bit_def i_def Let_def)
    then show ?thesis
      using set [OF fits neg(1) 1] neg(2) 1 bn_mag_set_bit [OF fits, of "nat n"] by (auto simp: i_def)
  next
    case 2
    define b where "b = a\<lparr>bn_d := bn_d a @ replicate (i + 1 - bn_dmax a) 0\<rparr>"
    define c where "c = b\<lparr>bn_d := write_at (bn_d b) (bn_top b) (replicate (i + 1 - bn_top b) 0), bn_top := i + 1\<rparr>"
    have e: "bn_wexpand alloc a (int (i + 1)) = (True, b)" using 2 by (simp only: bn_wexpand_eq b_def if_True)
    note b = bn_wexpand_ok [OF e fits]
    have c: "bn_fits c" "bn_mag c = bn_mag b" using bn_fits_extend [OF b(1) _ b(2) c_def] b(4) 2 by simp_all
    have r: "ret" "a' = c\<lparr>bn_d := (bn_d c)[i := bn_d c ! i OR push_bit (nat n mod 64) 1]\<rparr>"
      using assms 2 e by (auto simp: BN_set_bit_def i_def Let_def c_def add.commute)
    show ?thesis
      using r set [OF c(1)] c(2) b 2 neg(1) bn_mag_set_bit [OF c(1), of "nat n"] by (simp add: c_def i_def)
  next
    case 3
    then have "bn_wexpand alloc a (int (i + 1)) = (False, a)" by (simp only: bn_wexpand_eq if_False)
    then show ?thesis using assms 3 by (auto simp: BN_set_bit_def i_def Let_def add.commute)
  qed
  then show "ret \<longleftrightarrow> nat n div 64 < bn_top a \<or> can_expand alloc a (nat n div 64 + 1)"
    and "ret \<Longrightarrow> bn_ok a' \<and> bn_mag a' = set_bit (nat n) (bn_mag a) \<and> bn_neg a' = bn_neg a"
    and "\<not> ret \<Longrightarrow> a' = a"
    by (auto simp: i_def)
qed

lemma bn_ok_sgn:
  assumes "bn_ok a" "bn_top a > 0"
  shows "sgn (bn_int a) = (if bn_neg a \<noteq> 0 then - 1 else 1)"
proof -
  have "0 < bn_mag a" using bn_ok_mag_0 [OF assms(1)] assms(2) bn_mag_nonneg [of a] by linarith
  then show ?thesis by (simp add: bn_int_def)
qed

lemma digits_less: "r < b \<Longrightarrow> r' < b \<Longrightarrow> q * b + r < q' * b + r' \<longleftrightarrow> q < q' \<or> (q = q' \<and> r < (r' :: nat))"
proof -
  assume r: "r < b" "r' < b"
  have lt: "x * b + s < y * b + s'" if "x < y" "s < b" for x y s s' :: nat
  proof -
    have "x * b + s < Suc x * b" using that by simp
    also have "\<dots> \<le> y * b" using that by (intro mult_le_mono1) simp
    finally show ?thesis by simp
  qed
  then show ?thesis using r by (metis linorder_neqE_nat nat_add_left_cancel_less not_less_iff_gr_or_eq)
qed

lemma less_div_mod_64: "m < n \<longleftrightarrow> m div 64 < n div 64 \<or> (m div 64 = n div 64 \<and> m mod 64 < (n mod 64 :: nat))"
  using digits_less [of "m mod 64" 64 "n mod 64" "m div 64" "n div 64"] by simp

lemma BN_clear_bit_correct:
  assumes "bn_ok a" "0 \<le> n" "BN_clear_bit a n = (ret, a')"
  shows "ret \<longleftrightarrow> nat n div 64 < bn_top a"
    and "ret \<Longrightarrow> bn_ok a' \<and> bn_int a' = sgn (bn_int a) * unset_bit (nat n) (bn_mag a)"
    and "\<not> ret \<Longrightarrow> a' = a"
proof -
  note fits = bn_ok_fits [OF assms(1)]
  define i where "i = nat n div 64"
  define b where "b = a\<lparr>bn_d := (bn_d a)[i := bn_d a ! i AND NOT (push_bit (nat n mod 64) 1)]\<rparr>"
  show ret: "ret \<longleftrightarrow> nat n div 64 < bn_top a" and "\<not> ret \<Longrightarrow> a' = a"
    using assms(2,3) by (auto simp: BN_clear_bit_def Let_def split: if_splits)
  assume "ret"
  then have i: "i < bn_top a" and a': "a' = BN_set_negative (bn_correct_top b) (bn_neg a)"
    using assms ret by (auto simp: BN_clear_bit_def Let_def i_def b_def split: if_splits)
  have "bn_fits b" "bn_neg a \<in> {0, 1}" using fits assms(1) by (auto simp: b_def bn_fits_def bn_dmax_def bn_ok_def)
  note norm = bn_normal_ok [OF this]
  have mag: "bn_mag b = unset_bit (nat n) (bn_mag a)" unfolding b_def i_def
    by (rule bn_mag_clear_bit [OF fits]) (use i in \<open>simp add: i_def\<close>)
  have "sgn (bn_int a) = (if bn_neg a \<noteq> 0 then - 1 else 1)" using i by (intro bn_ok_sgn assms) simp
  then show "bn_ok a' \<and> bn_int a' = sgn (bn_int a) * unset_bit (nat n) (bn_mag a)"
    using norm by (simp add: a' mag)
qed

lemma bit_not_mask2: "m < 64 \<Longrightarrow> bit (NOT (push_bit b BN_MASK2)) m \<longleftrightarrow> m < b"
proof -
  assume m: "m < 64"
  have "BN_MASK2 = - 1" by (simp add: BN_MASK2_def)
  then show ?thesis using m unfolding \<open>BN_MASK2 = - 1\<close> by (auto simp: bit_simps)
qed

lemma BN_mask_bits_correct:
  assumes "bn_ok a" "0 \<le> n" "BN_mask_bits a n = (ret, a')"
  shows "ret \<longleftrightarrow> nat n div 64 < bn_top a"
    and "ret \<Longrightarrow> bn_ok a' \<and> bn_int a' = sgn (bn_int a) * take_bit (nat n) (bn_mag a)"
    and "\<not> ret \<Longrightarrow> a' = a"
proof -
  note fits = bn_ok_fits [OF assms(1)]
  define w where "w = nat n div 64"
  define k where "k = nat n mod 64"
  define b where "b = (if k = 0 then a\<lparr>bn_top := w\<rparr>
    else a\<lparr>bn_top := w + 1, bn_d := (bn_d a)[w := bn_d a ! w AND NOT (push_bit k BN_MASK2)]\<rparr>)"
  show ret: "ret \<longleftrightarrow> nat n div 64 < bn_top a" and "\<not> ret \<Longrightarrow> a' = a"
    using assms(2,3) by (auto simp: BN_mask_bits_def Let_def split: if_splits)
  assume "ret"
  have bneg: "bn_neg b = bn_neg a" by (simp add: b_def)
  have w: "w < bn_top a" using \<open>ret\<close> ret by (simp add: w_def)
  have "(True, BN_set_negative (bn_correct_top b) (bn_neg (bn_correct_top b))) = (ret, a')"
    using assms(2,3) w unfolding BN_mask_bits_def Let_def w_def [symmetric] k_def [symmetric] b_def [symmetric] by simp
  then have a': "a' = BN_set_negative (bn_correct_top b) (bn_neg a)" by (simp add: bneg)
  have "bn_fits b" "bn_neg a \<in> {0, 1}" using fits assms(1) w by (auto simp: b_def bn_fits_def bn_dmax_def bn_ok_def)
  note norm = bn_normal_ok [OF this]
  have mag: "bn_mag b = take_bit (nat n) (bn_mag a)"
  proof (rule bit_eqI)
    fix m :: nat
    have lt: "m < nat n \<longleftrightarrow> m div 64 < w \<or> (m div 64 = w \<and> m mod 64 < k)"
      unfolding w_def k_def by (rule less_div_mod_64)
    show "bit (bn_mag b) m = bit (take_bit (nat n) (bn_mag a)) m"
      using fits \<open>bn_fits b\<close> w bn_fits_top [OF fits] bit_not_mask2 [of "m mod 64" k]
      by (cases "k = 0")
        (auto simp: bit_bn_mag bit_take_bit_iff lt b_def nth_list_update bit_and_iff less_Suc_eq)
  qed
  have "sgn (bn_int a) = (if bn_neg a \<noteq> 0 then - 1 else 1)" using w by (intro bn_ok_sgn assms) simp
  then show "bn_ok a' \<and> bn_int a' = sgn (bn_int a) * take_bit (nat n) (bn_mag a)"
    using norm by (simp add: a' mag)
qed

section \<open>Copies, words and swaps\<close>

lemma bn_copy_words_eq: "n \<le> length bp \<Longrightarrow> bn_copy_words ap bp n = take n bp @ drop n ap"
  by (induction ap bp n rule: bn_copy_words.induct) (simp_all add: take_one)

lemma BN_copy_correct:
  assumes "bn_fits a" "bn_ok b" "BN_copy alloc a b = (ret, a')"
  shows "ret \<longleftrightarrow> can_expand alloc a (bn_top b)" and "\<not> ret \<Longrightarrow> a' = a"
    and "ret \<Longrightarrow> bn_ok a' \<and> bn_int a' = bn_int b"
proof -
  show ret: "ret \<longleftrightarrow> can_expand alloc a (bn_top b)" and "\<not> ret \<Longrightarrow> a' = a"
    using assms(3) by (auto simp: BN_copy_def bn_wexpand_eq split: if_splits)
  assume "ret"
  then obtain c where e: "bn_wexpand alloc a (int (bn_top b)) = (True, c)"
    using ret by (simp add: bn_wexpand_eq)
  note c = bn_wexpand_ok [OF e assms(1)]
  have top: "bn_top b \<le> length (bn_d b)" by (rule bn_fits_top [OF bn_ok_fits [OF assms(2)]])
  have a': "bn_d a' = take (bn_top b) (bn_d b) @ drop (bn_top b) (bn_d c)" "bn_top a' = bn_top b" "bn_neg a' = bn_neg b"
    using assms(3) e top by (auto simp: BN_copy_def bn_copy_words_eq)
  have "bn_fits a'" using a' top c(1,2) by (simp add: bn_fits_def bn_dmax_def)
  moreover have "bn_mag a' = bn_mag b" using a' top by (simp add: bn_mag_def)
  ultimately show "bn_ok a' \<and> bn_int a' = bn_int b"
    using a' top assms(2) by (auto simp: bn_ok_def bn_int_def nth_append)
qed

lemma BN_new_ok: "BN_new alloc = Some t \<Longrightarrow> bn_ok t \<and> bn_int t = 0 \<and> bn_flags t AND BN_FLG_STATIC_DATA = 0"
  by (auto simp: BN_new_def bn_ok_def bn_fits_def bn_dmax_def bn_int_def bn_mag_def BN_FLG_MALLOCED_def BN_FLG_STATIC_DATA_def split: if_splits)

lemma BN_dup_correct:
  assumes "bn_ok a" "BN_dup alloc (Some a) = Some t"
  shows "bn_ok t \<and> bn_int t = bn_int a"
proof -
  obtain s where "BN_new alloc = Some s" "BN_copy alloc s a = (True, t)"
    using assms(2) by (auto simp: BN_dup_def split: option.splits prod.splits bool.splits)
  then show ?thesis using BN_copy_correct(3) [OF bn_ok_fits assms(1)] BN_new_ok by blast
qed

lemma BN_set_word_correct:
  assumes "bn_fits a" "BN_set_word alloc a w = (ret, a')"
  shows "ret \<longleftrightarrow> can_expand alloc a 1" and "\<not> ret \<Longrightarrow> a' = a"
    and "ret \<Longrightarrow> bn_ok a' \<and> bn_int a' = uint w"
proof -
  show ret: "ret \<longleftrightarrow> can_expand alloc a 1" and "\<not> ret \<Longrightarrow> a' = a"
    using assms(2) bn_wexpand_eq [of alloc a 1] by (auto simp: BN_set_word_def split: if_splits)
  assume "ret"
  then obtain c where e: "bn_wexpand alloc a (int 1) = (True, c)"
    using ret bn_wexpand_eq [of alloc a 1] by (metis (full_types))
  note c = bn_wexpand_ok [OF e assms(1)]
  have a': "a' = c\<lparr>bn_neg := 0, bn_d := (bn_d c)[0 := w], bn_top := (if w \<noteq> 0 then 1 else 0)\<rparr>"
    using assms(2) e by (auto simp: BN_set_word_def)
  obtain x xs where "bn_d c = x # xs" using c(2) by (cases "bn_d c") (auto simp: bn_dmax_def)
  then show "bn_ok a' \<and> bn_int a' = uint w"
    using c(1) by (auto simp: a' bn_ok_def bn_fits_def bn_dmax_def bn_int_def bn_mag_def)
qed

text \<open>The masks of the two conditional swaps, and the exchange of two arrays.\<close>

lemma swap_word_eq: "swap_word c a b = (if c = 0 then (a, b) else (b, a))" if "c = 0 \<or> c = - 1"
  using that by (auto simp: swap_word_def Let_def bit_eq_iff bit_simps)

lemma swap_ct_mask: "drop_bit 63 (NOT c AND (c - 1)) - 1 = (if c = 0 then 0 else - 1 :: u64)"
proof -
  have "\<not> bit c 63 \<Longrightarrow> bit (c - 1) 63 \<Longrightarrow> c = 0"
    using unat_sub_u64 [of c 1] u64_lt [of c] by (auto simp: top_bit_iff word_unat_eq_iff split: if_splits)
  then have "unat (drop_bit 63 (NOT c AND (c - 1))) = of_bool (c = 0)"
    unfolding unat_top_bit by (auto simp: bit_simps)
  then have "drop_bit 63 (NOT c AND (c - 1)) = of_bool (c = 0)" by (simp add: word_unat_eq_iff)
  then show ?thesis by simp
qed

lemma fold_swap_at:
  assumes "n \<le> length a" "n \<le> length b" "c = 0 \<or> c = - 1"
  shows "fold (swap_at c) [0..<n] (a, b) =
    (if c = 0 then (a, b) else (take n b @ drop n a, take n a @ drop n b))"
  using assms
proof (induction n)
  case (Suc n)
  then show ?case
    by (auto simp: swap_at_def swap_word_eq nth_append take_Suc_conv_app_nth list_update_append Cons_nth_drop_Suc [symmetric])
qed simp

lemma bn_same: "bn_d a = bn_d b \<Longrightarrow> bn_top a = bn_top b \<Longrightarrow> bn_neg a = bn_neg b \<Longrightarrow>
    bn_ok a = bn_ok b \<and> bn_int a = bn_int b"
  by (simp add: bn_ok_def bn_fits_def bn_dmax_def bn_int_def bn_mag_def)

lemma bn_swapped:
  assumes "bn_fits a" "bn_ok b" "bn_top b \<le> n" "n \<le> bn_dmax a" "n \<le> bn_dmax b"
    and "bn_d a' = take n (bn_d b) @ drop n (bn_d a)" "bn_top a' = bn_top b" "bn_neg a' = bn_neg b"
  shows "bn_ok a' \<and> bn_int a' = bn_int b"
proof -
  have "bn_fits a'" using assms by (simp add: bn_fits_def bn_dmax_def)
  moreover have "take (bn_top b) (bn_d a') = take (bn_top b) (bn_d b)" using assms by (simp add: bn_dmax_def min_absorb2)
  then have "bn_mag a' = bn_mag b" using assms(7) by (simp add: bn_mag_def)
  moreover have "bn_d a' ! (bn_top b - 1) = bn_d b ! (bn_top b - 1)" if "bn_top b > 0"
  proof -
    have "bn_top b - 1 < n" using assms(3) that by linarith
    then show ?thesis using assms(5,6) by (simp add: bn_dmax_def nth_append)
  qed
  ultimately show ?thesis using assms by (auto simp: bn_ok_def bn_int_def)
qed

lemma swap_ct_words:
  fixes a b :: bignum
  assumes "bn_ok a" "bn_ok b" "c = 0 \<or> c = - 1"
  shows "swap_word c (of_nat (bn_top a)) (of_nat (bn_top b)) =
      (if c = 0 then (of_nat (bn_top a), of_nat (bn_top b)) else (of_nat (bn_top b), of_nat (bn_top a)))"
    "unat (of_nat (bn_top a) :: u64) = bn_top a" "unat (of_nat (bn_top b) :: u64) = bn_top b"
    "uint (of_int (bn_neg a) :: u64) = bn_neg a" "uint (of_int (bn_neg b) :: u64) = bn_neg b"
  using assms bn_ok_fits [OF assms(1)] bn_ok_fits [OF assms(2)]
  by (auto simp: swap_word_eq unat_of_nat bn_fits_def BN_MAX_WORDS_def bn_ok_def)

lemma BN_swap_ct_correct:
  assumes "bn_ok a" "bn_ok b" "BN_swap_ct alloc c a b n = (True, a', b')"
  shows "bn_ok a' \<and> bn_ok b' \<and> bn_int a' = (if c = 0 then bn_int a else bn_int b) \<and>
    bn_int b' = (if c = 0 then bn_int b else bn_int a)"
proof -
  obtain x where x: "bn_wexpand alloc a (int n) = (True, x)"
    using assms(3) by (auto simp: BN_swap_ct_def Let_def split: if_splits prod.splits bool.splits)
  obtain y where y: "bn_wexpand alloc b (int n) = (True, y)"
    using assms(3) x by (auto simp: BN_swap_ct_def Let_def split: if_splits prod.splits bool.splits)
  note X = bn_wexpand_ok [OF x bn_ok_fits [OF assms(1)]]
  note Y = bn_wexpand_ok [OF y bn_ok_fits [OF assms(2)]]
  have ok: "bn_ok x" "bn_ok y" "bn_int x = bn_int a" "bn_int y = bn_int b"
    using assms X Y by (simp_all add: bn_int_def)
  have top: "bn_top x \<le> n" "bn_top y \<le> n"
    using assms(3) x y by (auto simp: BN_swap_ct_def Let_def split: if_splits)
  define m where "m = drop_bit 63 (NOT c AND (c - 1)) - 1"
  have m: "m = 0 \<or> m = - 1" "m = 0 \<longleftrightarrow> c = 0" unfolding m_def swap_ct_mask by auto
  note words = swap_ct_words [OF ok(1,2) m(1)]
  have swap: "swap_word m (of_int (bn_neg x)) (of_int (bn_neg y)) =
      (if m = 0 then (of_int (bn_neg x), of_int (bn_neg y)) else (of_int (bn_neg y), of_int (bn_neg x)))"
    by (rule swap_word_eq [OF m(1)])
  have dx: "n \<le> length (bn_d x)" "n \<le> length (bn_d y)" using X(2) Y(2) by (simp_all add: bn_dmax_def)
  have fields: "bn_top a' = (if m = 0 then bn_top x else bn_top y)" "bn_neg a' = (if m = 0 then bn_neg x else bn_neg y)"
    "bn_top b' = (if m = 0 then bn_top y else bn_top x)" "bn_neg b' = (if m = 0 then bn_neg y else bn_neg x)"
    "bn_d a' = (if m = 0 then bn_d x else take n (bn_d y) @ drop n (bn_d x))"
    "bn_d b' = (if m = 0 then bn_d y else take n (bn_d x) @ drop n (bn_d y))"
    using assms(3) x y top words(2-5) unfolding BN_swap_ct_def Let_def m_def [symmetric]
    by (auto simp: words(1) swap fold_swap_at [OF dx m(1)] split: if_splits)
  show ?thesis
  proof (cases "m = 0")
    case True
    then show ?thesis using bn_same [of a' x] bn_same [of b' y] fields ok m(2) by simp
  next
    case False
    then show ?thesis
      using bn_swapped [OF X(1) ok(2) top(2) X(2) Y(2), of a'] bn_swapped [OF Y(1) ok(1) top(1) Y(2) X(2), of b'] fields m(2) ok
      by simp
  qed
qed

text \<open>
  \<open>BN_consttime_swap\<close> with a count of zero words takes the default case and
  exchanges ten words.
\<close>

lemma consttime_swap_indices_0: "set (consttime_swap_indices 0) = {0..<10}"
  by (auto simp: consttime_swap_indices_def)

end
