(* ===== verification/BN_Arith.thy ===== *)
theory BN_Arith
  imports BN
begin

text \<open>
  Arithmetic on BIGNUMs: addition and subtraction (libcrypto/bn/bn_add.c), shifts
  (bn_shift.c), operations with a word (bn_word.c) and multiplication (bn_mul.c).
  The operands are passed by value and the new contents of the result are
  returned; as the array loops read an index before they write it, this is also
  what happens when the result is one of the operands.
\<close>

section \<open>Addition and subtraction\<close>

definition BN_uadd :: "(nat \<Rightarrow> bool) \<Rightarrow> bignum \<Rightarrow> bignum \<Rightarrow> bignum \<Rightarrow> bool \<times> bignum" where
  "BN_uadd alloc r a b =
     (let rn = (if bn_top a < bn_top b then bn_top b else bn_top a)
      in if int rn = INT_MAX then (False, r)
         else case bn_wexpand alloc r (int rn + 1) of
             (False, r) \<Rightarrow> (False, r)
           | (True, r) \<Rightarrow>
              (let (carry, d) = bn_add (bn_d r) rn (bn_d a) (bn_top a) (bn_d b) (bn_top b)
               in (True, r\<lparr>bn_d := d[rn := carry], bn_top := rn + unat (carry AND 1), bn_neg := 0\<rparr>)))"

definition BN_usub :: "(nat \<Rightarrow> bool) \<Rightarrow> bignum \<Rightarrow> bignum \<Rightarrow> bignum \<Rightarrow> bool \<times> bignum" where
  "BN_usub alloc r a b =
     (if bn_top a < bn_top b then (False, r)
      else let rn = bn_top a
       in case bn_wexpand alloc r (int rn) of
            (False, r) \<Rightarrow> (False, r)
          | (True, r) \<Rightarrow>
             (let (borrow, d) = bn_sub (bn_d r) rn (bn_d a) (bn_top a) (bn_d b) (bn_top b)
              in if borrow > 0 then (False, r\<lparr>bn_d := d\<rparr>)
                 else (True, bn_correct_top (r\<lparr>bn_d := d, bn_top := rn, bn_neg := 0\<rparr>))))"

definition BN_add :: "(nat \<Rightarrow> bool) \<Rightarrow> bignum \<Rightarrow> bignum \<Rightarrow> bignum \<Rightarrow> bool \<times> bignum" where
  "BN_add alloc r a b =
     (let (r_neg, ret, r) =
        (if bn_neg a = bn_neg b then (bn_neg a, BN_uadd alloc r a b)
         else let cmp = BN_ucmp a b
          in if cmp > 0 then (bn_neg a, BN_usub alloc r a b)
             else if cmp < 0 then (bn_neg b, BN_usub alloc r b a)
             else (0, True, BN_zero r))
      in (ret, BN_set_negative r r_neg))"

definition BN_sub :: "(nat \<Rightarrow> bool) \<Rightarrow> bignum \<Rightarrow> bignum \<Rightarrow> bignum \<Rightarrow> bool \<times> bignum" where
  "BN_sub alloc r a b =
     (let (r_neg, ret, r) =
        (if bn_neg a \<noteq> bn_neg b then (bn_neg a, BN_uadd alloc r a b)
         else let cmp = BN_ucmp a b
          in if cmp > 0 then (bn_neg a, BN_usub alloc r a b)
             else if cmp < 0 then (of_bool (bn_neg b = 0), BN_usub alloc r b a)
             else (0, True, BN_zero r))
      in (ret, BN_set_negative r r_neg))"

section \<open>Shifts\<close>

text \<open>
  The loop of \<open>bn_lshift\<close> writes the words from the top; \<open>rstride\<close> is 0 or -1 and
  selects the word whose upper bits come in, \<open>i\<close> is the index of \<open>src\<close>.
\<close>

fun lshift_loop :: "words \<Rightarrow> words \<Rightarrow> nat \<Rightarrow> nat \<Rightarrow> nat \<Rightarrow> int \<Rightarrow> nat \<Rightarrow> words" where
  "lshift_loop d src shift_words lshift rshift rstride 0 = d[shift_words := push_bit lshift (src ! 0)]"
| "lshift_loop d src shift_words lshift rshift rstride (Suc i) =
     lshift_loop
       (d[Suc i + shift_words :=
            push_bit lshift (src ! Suc i) OR drop_bit rshift (src ! nat (int (Suc i) + rstride))])
       src shift_words lshift rshift rstride i"

definition bn_lshift :: "(nat \<Rightarrow> bool) \<Rightarrow> bignum \<Rightarrow> bignum \<Rightarrow> int \<Rightarrow> bool \<times> bignum" where
  "bn_lshift alloc r a n =
     (if n < 0 then (False, r)
      else let shift_bits = nat n;
               shift_words = shift_bits div 64;
               lshift = shift_bits mod 64;
               rshift = (64 - lshift) mod 64;
               rstride = 0 - int ((lshift + rshift) div 64)
       in if bn_top a < 1 then (True, BN_zero r)
          else let count = bn_top a + shift_words + 1
           in case bn_wexpand alloc r (int count) of
                (False, r) \<Rightarrow> (False, r)
              | (True, r) \<Rightarrow>
                 (let d = (bn_d r)[bn_top a + shift_words :=
                             drop_bit rshift (bn_d a ! (bn_top a - 1)) AND of_int rstride];
                      d = lshift_loop d (bn_d a) shift_words lshift rshift rstride (bn_top a - 1);
                      d = write_at d 0 (replicate shift_words 0)
                  in (True, BN_set_negative (bn_correct_top (r\<lparr>bn_d := d, bn_top := count\<rparr>)) (bn_neg a))))"

fun rshift_loop :: "words \<Rightarrow> words \<Rightarrow> nat \<Rightarrow> nat \<Rightarrow> nat \<Rightarrow> nat \<Rightarrow> nat \<Rightarrow> words" where
  "rshift_loop d src lshift rshift lstride i 0 = d[i := drop_bit rshift (src ! i)]"
| "rshift_loop d src lshift rshift lstride i (Suc n) =
     rshift_loop (d[i := push_bit lshift (src ! (i + lstride)) OR drop_bit rshift (src ! i)])
       src lshift rshift lstride (i + 1) n"

definition bn_rshift :: "(nat \<Rightarrow> bool) \<Rightarrow> bignum \<Rightarrow> bignum \<Rightarrow> int \<Rightarrow> bool \<times> bignum" where
  "bn_rshift alloc r a n =
     (if n < 0 then (False, r)
      else let shift_bits = nat n;
               shift_words = shift_bits div 64;
               rshift = shift_bits mod 64;
               lshift = (64 - rshift) mod 64;
               lstride = (lshift + rshift) div 64
       in if bn_top a \<le> shift_words then (True, BN_zero r)
          else let count = bn_top a - shift_words
           in case bn_wexpand alloc r (int count) of
                (False, r) \<Rightarrow> (False, r)
              | (True, r) \<Rightarrow>
                 (let d = rshift_loop (bn_d r) (drop shift_words (bn_d a)) lshift rshift lstride 0 (count - 1)
                  in (True, BN_set_negative (bn_correct_top (r\<lparr>bn_d := d, bn_top := count\<rparr>)) (bn_neg a))))"

definition BN_lshift1 :: "(nat \<Rightarrow> bool) \<Rightarrow> bignum \<Rightarrow> bignum \<Rightarrow> bool \<times> bignum" where
  "BN_lshift1 alloc r a = bn_lshift alloc r a 1"

definition BN_lshift :: "(nat \<Rightarrow> bool) \<Rightarrow> bignum \<Rightarrow> bignum \<Rightarrow> int \<Rightarrow> bool \<times> bignum" where
  "BN_lshift alloc r a n = bn_lshift alloc r a n"

definition BN_rshift1 :: "(nat \<Rightarrow> bool) \<Rightarrow> bignum \<Rightarrow> bignum \<Rightarrow> bool \<times> bignum" where
  "BN_rshift1 alloc r a = bn_rshift alloc r a 1"

definition BN_rshift :: "(nat \<Rightarrow> bool) \<Rightarrow> bignum \<Rightarrow> bignum \<Rightarrow> int \<Rightarrow> bool \<times> bignum" where
  "BN_rshift alloc r a n = bn_rshift alloc r a n"

section \<open>Operations with a word\<close>

text \<open>The loop of \<open>BN_add_word\<close>: the new words, the carry left and the index reached.\<close>

function add_word_loop :: "words \<Rightarrow> nat \<Rightarrow> nat \<Rightarrow> bn_word \<Rightarrow> words \<times> bn_word \<times> nat" where
  "add_word_loop d i tp w =
     (if w \<noteq> 0 \<and> i < tp then
        (let l = d ! i + w in add_word_loop (d[i := l]) (i + 1) tp (if w > l then 1 else 0))
      else (d, w, i))"
  by pat_completeness auto
termination by (relation "measure (\<lambda>(d, i, tp, w). tp - i)") auto

declare add_word_loop.simps [simp del]

text \<open>The loop of \<open>BN_sub_word\<close> has no bound of its own: \<open>None\<close> says that it leaves the array.\<close>

function sub_word_loop :: "words \<Rightarrow> nat \<Rightarrow> bn_word \<Rightarrow> (words \<times> nat) option" where
  "sub_word_loop d i w =
     (if i < length d then
        (if d ! i \<ge> w then Some (d[i := d ! i - w], i)
         else sub_word_loop (d[i := d ! i - w]) (i + 1) 1)
      else None)"
  by pat_completeness auto
termination by (relation "measure (\<lambda>(d, i, w). length d - i)") auto

declare sub_word_loop.simps [simp del]

text \<open>The two functions call each other for a negative number, which they make positive first.\<close>

function BN_add_word :: "(nat \<Rightarrow> bool) \<Rightarrow> bignum \<Rightarrow> bn_word \<Rightarrow> (bool \<times> bignum) option"
  and BN_sub_word :: "(nat \<Rightarrow> bool) \<Rightarrow> bignum \<Rightarrow> bn_word \<Rightarrow> (bool \<times> bignum) option" where
  "BN_add_word alloc a w =
     (if w = 0 then Some (True, a)
      else if BN_is_zero a then Some (BN_set_word alloc a w)
      else if bn_neg a \<noteq> 0 then
        (case BN_sub_word alloc (a\<lparr>bn_neg := 0\<rparr>) w of None \<Rightarrow> None
         | Some (i, a) \<Rightarrow> Some (i, BN_set_negative a (of_bool (bn_neg a = 0))))
      else case add_word_loop (bn_d a) 0 (bn_top a) w of (d, w, i) \<Rightarrow>
        (let a = a\<lparr>bn_d := d\<rparr>
         in if w \<noteq> 0 \<and> i = bn_top a then
              (case bn_wexpand alloc a (int (bn_top a) + 1) of
                 (False, a) \<Rightarrow> Some (False, a)
               | (True, a) \<Rightarrow> Some (True, a\<lparr>bn_top := bn_top a + 1, bn_d := (bn_d a)[i := w]\<rparr>))
            else Some (True, a)))"
| "BN_sub_word alloc a w =
     (if w = 0 then Some (True, a)
      else if BN_is_zero a then
        (case BN_set_word alloc a w of (i, a) \<Rightarrow> Some (i, if i then BN_set_negative a 1 else a))
      else if bn_neg a \<noteq> 0 then
        (case BN_add_word alloc (a\<lparr>bn_neg := 0\<rparr>) w of None \<Rightarrow> None
         | Some (i, a) \<Rightarrow> Some (i, BN_set_negative a (of_bool (bn_neg a = 0))))
      else if bn_top a = 1 \<and> bn_d a ! 0 < w then
        Some (True, BN_set_negative (a\<lparr>bn_d := (bn_d a)[0 := w - bn_d a ! 0]\<rparr>) 1)
      else case sub_word_loop (bn_d a) 0 w of None \<Rightarrow> None
        | Some (d, i) \<Rightarrow>
           Some (True, a\<lparr>bn_d := d, bn_top := (if d ! i = 0 \<and> i = bn_top a - 1 then bn_top a - 1 else bn_top a)\<rparr>))"
  by pat_completeness auto
termination
  by (relation "measure (\<lambda>x. case x of Inl (_, a, _) \<Rightarrow> of_bool (bn_neg a \<noteq> 0) | Inr (_, a, _) \<Rightarrow> of_bool (bn_neg a \<noteq> 0))") auto

declare BN_add_word.simps [simp del] BN_sub_word.simps [simp del]

definition BN_mul_word :: "(nat \<Rightarrow> bool) \<Rightarrow> bignum \<Rightarrow> bn_word \<Rightarrow> bool \<times> bignum" where
  "BN_mul_word alloc a w =
     (if bn_top a \<noteq> 0 then
        (if w = 0 then (True, BN_zero a)
         else let (ll, d) = bn_mul_words (bn_d a) (bn_d a) (bn_top a) w; a = a\<lparr>bn_d := d\<rparr>
          in if ll \<noteq> 0 then
               (case bn_wexpand alloc a (int (bn_top a) + 1) of
                  (False, a) \<Rightarrow> (False, a)
                | (True, a) \<Rightarrow> (True, a\<lparr>bn_d := (bn_d a)[bn_top a := ll], bn_top := bn_top a + 1\<rparr>))
             else (True, a))
      else (True, a))"

section \<open>Multiplication\<close>

definition bn_mul :: "bignum \<Rightarrow> bignum \<Rightarrow> bignum \<Rightarrow> bignum" where
  "bn_mul r a b = r\<lparr>bn_d := bn_mul_normal (bn_d r) (bn_d a) (bn_top a) (bn_d b) (bn_top b)\<rparr>"

text \<open>
  \<open>same\<close> says that the result is one of the operands; then the product is computed
  in \<open>tmp\<close>, the answer of \<open>BN_CTX_get\<close>, and copied.
\<close>

definition BN_mul :: "(nat \<Rightarrow> bool) \<Rightarrow> bool \<Rightarrow> bignum option \<Rightarrow> bignum \<Rightarrow> bignum \<Rightarrow> bignum \<Rightarrow> bool \<times> bignum" where
  "BN_mul alloc same tmp r a b =
     (if BN_is_zero a \<or> BN_is_zero b then (True, BN_zero r)
      else case (if same then tmp else Some r) of
          None \<Rightarrow> (False, r)
        | Some rr \<Rightarrow>
           (let rn = bn_top a + bn_top b
            in if rn < bn_top a then (False, r)
               else case bn_wexpand alloc rr (int rn) of
                   (False, rr) \<Rightarrow> (False, r)
                 | (True, rr) \<Rightarrow>
                    (let rr = (if bn_top a = 4 \<and> bn_top b = 4 then rr\<lparr>bn_d := bn_mul_comba4 (bn_d rr) (bn_d a) (bn_d b)\<rparr>
                               else if bn_top a = 8 \<and> bn_top b = 8 then rr\<lparr>bn_d := bn_mul_comba8 (bn_d rr) (bn_d a) (bn_d b)\<rparr>
                               else bn_mul rr a b);
                         rr = bn_correct_top (rr\<lparr>bn_top := rn\<rparr>);
                         rr = BN_set_negative rr (bn_neg a XOR bn_neg b)
                     in if same then BN_copy alloc r rr else (True, rr))))"

section \<open>Sum and difference of magnitudes\<close>

lemma top_word_nonzero:
  assumes "0 < n" "n \<le> length d" "2 ^ (64 * (n - 1)) \<le> bn_val (take n d)"
  shows "d ! (n - 1) \<noteq> 0"
proof
  assume "d ! (n - 1) = 0"
  then have "bn_val (take n d) = bn_val (take (n - 1) d)" using bn_val_take_Suc [of "n - 1" d] assms(1,2) by simp
  also have "\<dots> < 2 ^ (64 * (n - 1))" using bn_val_less [of "take (n - 1) d"] assms(2) by (simp add: min_absorb2)
  finally show False using assms(3) by simp
qed

lemma bn_ok_mag_ge:
  assumes "bn_ok a" "0 < bn_top a"
  shows "2 ^ (64 * (bn_top a - 1)) \<le> bn_mag a"
  unfolding bn_mag_def using assms bn_fits_top [OF bn_ok_fits [OF assms(1)]]
  by (intro top_word_bound) (auto simp: bn_ok_def)

lemma bn_mag_less: "bn_fits a \<Longrightarrow> bn_mag a < 2 ^ (64 * bn_top a)"
  using bn_val_less [of "take (bn_top a) (bn_d a)"] bn_fits_top [of a] by (simp add: bn_mag_def min_absorb2)

lemma carry_bit:
  assumes "x + uint (c :: bn_word) * m = y" "0 \<le> x" "y < 2 * m" "0 < m"
  shows "c = 0 \<or> c = 1"
proof -
  have "uint c * m < 2 * m" using assms by linarith
  then have "uint c < 2" using assms(4) by simp
  then have "uint c = 0 \<or> uint c = 1" using uint_ge_0 [of c] by linarith
  then show ?thesis by (auto simp: word_uint_eq_iff)
qed

lemma BN_uadd_correct:
  assumes "bn_fits r" "bn_ok a" "bn_ok b" "BN_uadd alloc r a b = (ret, r')"
  shows "ret \<longleftrightarrow> can_expand alloc r (max (bn_top a) (bn_top b) + 1)" and "\<not> ret \<Longrightarrow> r' = r"
    and "ret \<Longrightarrow> bn_ok r' \<and> bn_neg r' = 0 \<and> bn_mag r' = bn_mag a + bn_mag b"
proof -
  define n where "n = max (bn_top a) (bn_top b)"
  have a: "bn_top a \<le> length (bn_d a)" and b: "bn_top b \<le> length (bn_d b)"
    using bn_fits_top [OF bn_ok_fits [OF assms(2)]] bn_fits_top [OF bn_ok_fits [OF assms(3)]] .
  have n: "n \<le> BN_MAX_WORDS" using bn_ok_fits [OF assms(2)] bn_ok_fits [OF assms(3)] by (auto simp: n_def bn_fits_def)
  then have nmax: "int n \<noteq> INT_MAX" by (auto simp: INT_MAX_def BN_MAX_WORDS_def)
  have rn: "(if bn_top a < bn_top b then bn_top b else bn_top a) = n" by (simp add: n_def)
  have e: "bn_wexpand alloc r (int n + 1) = (if can_expand alloc r (n + 1)
      then (True, r\<lparr>bn_d := bn_d r @ replicate (n + 1 - bn_dmax r) 0\<rparr>) else (False, r))"
    using bn_wexpand_eq [of alloc r "n + 1"] by (simp add: add.commute)
  obtain c d where add: "bn_add (bn_d r @ replicate (n + 1 - bn_dmax r) 0) n (bn_d a) (bn_top a) (bn_d b) (bn_top b) = (c, d)"
    by fastforce
  define r1 where "r1 = r\<lparr>bn_d := d[n := c], bn_top := n + unat (c AND 1), bn_neg := 0\<rparr>"
  have eq: "(ret, r') = (if can_expand alloc r (n + 1) then (True, r1) else (False, r))"
    using assms(4) nmax add unfolding BN_uadd_def rn Let_def e by (auto simp: r1_def split: if_splits)
  show "ret \<longleftrightarrow> can_expand alloc r (max (bn_top a) (bn_top b) + 1)" and "\<not> ret \<Longrightarrow> r' = r"
    using eq by (auto simp: n_def split: if_splits)
  assume "ret"
  then have r': "r' = r1" and can: "can_expand alloc r (n + 1)" using eq by (auto split: if_splits)
  note val = bn_add_value [OF add a b, folded n_def]
  have len: "n + 1 \<le> length (bn_d r @ replicate (n + 1 - bn_dmax r) 0)" by (simp add: bn_dmax_def)
  have ld: "length d = length (bn_d r @ replicate (n + 1 - bn_dmax r) 0)" using val(1) len wrote_length by fastforce
  have sum: "bn_val (take n d) + uint c * 2 ^ (64 * n) = bn_mag a + bn_mag b" using val(2) len by (simp add: bn_mag_def)
  have dmax: "length d \<le> BN_MAX_WORDS" using ld can assms(1) by (auto simp: can_expand_def bn_fits_def bn_dmax_def)
  have "(2 :: int) ^ (64 * bn_top a) \<le> 2 ^ (64 * n)" "(2 :: int) ^ (64 * bn_top b) \<le> 2 ^ (64 * n)"
    by (intro power_increasing; simp add: n_def)+
  then have lt: "bn_mag a + bn_mag b < 2 * 2 ^ (64 * n)"
    using bn_mag_less [OF bn_ok_fits [OF assms(2)]] bn_mag_less [OF bn_ok_fits [OF assms(3)]] by linarith
  have c: "c = 0 \<or> c = 1" by (rule carry_bit [OF sum]) (use lt in auto)
  have fits: "bn_fits r1" using ld len dmax c by (auto simp: r1_def bn_fits_def bn_dmax_def)
  have mag: "bn_mag r1 = bn_mag a + bn_mag b"
    using sum c ld len bn_val_take_Suc [of n "d[n := c]"] by (auto simp: r1_def bn_mag_def algebra_simps)
  have "bn_d r1 ! (bn_top r1 - 1) \<noteq> 0" if t: "bn_top r1 > 0"
  proof (cases "c = 1")
    case True
    then show ?thesis using ld len by (simp add: r1_def)
  next
    case False
    then have top: "bn_top r1 = n" "c = 0" using c by (auto simp: r1_def)
    have "2 ^ (64 * (n - 1)) \<le> bn_mag a + bn_mag b"
    proof (cases "n = bn_top a")
      case True
      then have "2 ^ (64 * (n - 1)) \<le> bn_mag a" using bn_ok_mag_ge [OF assms(2)] t top by simp
      then show ?thesis using bn_mag_nonneg [of b] by linarith
    next
      case False
      then have "n = bn_top b" by (auto simp: n_def max_def split: if_splits)
      then have "2 ^ (64 * (n - 1)) \<le> bn_mag b" using bn_ok_mag_ge [OF assms(3)] t top by simp
      then show ?thesis using bn_mag_nonneg [of a] by linarith
    qed
    then show ?thesis using mag top t bn_fits_top [OF fits] by (intro top_word_nonzero) (auto simp: bn_mag_def)
  qed
  moreover have "bn_neg r1 = 0" by (simp add: r1_def)
  ultimately show "bn_ok r' \<and> bn_neg r' = 0 \<and> bn_mag r' = bn_mag a + bn_mag b"
    using fits mag by (simp add: r' bn_ok_def)
qed

lemma BN_usub_correct:
  assumes "bn_fits r" "bn_ok a" "bn_ok b" "BN_usub alloc r a b = (ret, r')" "bn_mag b \<le> bn_mag a"
  shows "ret \<longleftrightarrow> can_expand alloc r (bn_top a)" and "\<not> ret \<Longrightarrow> r' = r"
    and "ret \<Longrightarrow> bn_ok r' \<and> bn_neg r' = 0 \<and> bn_mag r' = bn_mag a - bn_mag b"
proof -
  define n where "n = bn_top a"
  have a: "n \<le> length (bn_d a)" and b: "bn_top b \<le> length (bn_d b)"
    using bn_fits_top [OF bn_ok_fits [OF assms(2)]] bn_fits_top [OF bn_ok_fits [OF assms(3)]] by (simp_all add: n_def)
  have ba: "bn_top b \<le> n" using bn_ok_top_less [OF assms(2,3)] assms(5) by (force simp: n_def not_le [symmetric])
  obtain c d where sub: "bn_sub (bn_d r @ replicate (n - bn_dmax r) 0) n (bn_d a) n (bn_d b) (bn_top b) = (c, d)"
    by fastforce
  have len: "n \<le> length (bn_d r @ replicate (n - bn_dmax r) 0)" by (simp add: bn_dmax_def)
  note val = bn_sub_value [OF sub ba a b len]
  have ld: "length d = length (bn_d r @ replicate (n - bn_dmax r) 0)" using wrote_length [OF val(1)] .
  have diff: "bn_val (take n d) - uint c * 2 ^ (64 * n) = bn_mag a - bn_mag b" using val(2) by (simp add: bn_mag_def n_def)
  have "bn_val (take n d) < 2 ^ (64 * n)" using bn_val_less [of "take n d"] ld len by (simp add: min_absorb2)
  then have "uint c * 2 ^ (64 * n) < 1 * 2 ^ (64 * n)" using diff assms(5) by linarith
  then have "uint c < 1" by (rule mult_right_less_imp_less) simp
  then have "uint c = 0" using uint_ge_0 [of c] by linarith
  then have c: "c = 0" by (simp add: uint_0_iff)
  define r1 where "r1 = r\<lparr>bn_d := d, bn_top := n, bn_neg := 0\<rparr>"
  have eq: "(ret, r') = (if can_expand alloc r n then (True, bn_correct_top r1) else (False, r))"
    using assms(4) ba sub c unfolding BN_usub_def n_def [symmetric] Let_def bn_wexpand_eq
    by (auto simp: r1_def split: if_splits)
  show "ret \<longleftrightarrow> can_expand alloc r (bn_top a)" and "\<not> ret \<Longrightarrow> r' = r" using eq by (auto simp: n_def split: if_splits)
  assume "ret"
  then have r': "r' = bn_correct_top r1" and can: "can_expand alloc r n" using eq by (auto split: if_splits)
  have fits: "bn_fits r1" using ld len can assms(1) by (auto simp: r1_def bn_fits_def bn_dmax_def can_expand_def)
  note ct = bn_correct_top_ok [OF fits]
  have "bn_mag r1 = bn_mag a - bn_mag b" using diff c by (simp add: r1_def bn_mag_def)
  moreover have "bn_neg r1 = 0" by (simp add: r1_def)
  ultimately show "bn_ok r' \<and> bn_neg r' = 0 \<and> bn_mag r' = bn_mag a - bn_mag b"
    using ct by (simp add: r' bn_ok_def)
qed

section \<open>Signed sum and difference\<close>

text \<open>
  What an arithmetic operation promises: if it succeeds, the result is well formed
  and has the value \<open>v\<close>; if it fails, the result keeps its magnitude (its sign may
  have changed); and it succeeds if there is room for \<open>n\<close> words.
\<close>

definition bn_op_ok :: "(nat \<Rightarrow> bool) \<Rightarrow> bignum \<Rightarrow> nat \<Rightarrow> bool \<times> bignum \<Rightarrow> int \<Rightarrow> bool" where
  "bn_op_ok alloc r n res v \<longleftrightarrow>
     (case res of (ret, r') \<Rightarrow>
        (ret \<longrightarrow> bn_ok r' \<and> bn_int r' = v) \<and>
        (\<not> ret \<longrightarrow> bn_fits r' \<and> bn_mag r' = bn_mag r \<and> bn_d r' = bn_d r \<and> bn_top r' = bn_top r) \<and>
        ((\<forall>k \<le> n. can_expand alloc r k) \<longrightarrow> ret))"

lemma bn_ok_neg_cases: "bn_ok a \<Longrightarrow> bn_neg a = 0 \<or> bn_neg a = 1"
  by (auto simp: bn_ok_def)

text \<open>The last step of \<open>BN_add\<close> and \<open>BN_sub\<close>: the sign.\<close>

lemma signed_result:
  assumes "bn_fits r" "neg \<in> {0, 1}"
    and "ret \<Longrightarrow> bn_ok r1 \<and> bn_mag r1 = m" "\<not> ret \<Longrightarrow> r1 = r" "(\<forall>k \<le> n. can_expand alloc r k) \<Longrightarrow> ret"
    and "v = (if neg \<noteq> 0 then - m else m)"
  shows "bn_op_ok alloc r n (ret, BN_set_negative r1 neg) v"
proof -
  have "bn_ok (BN_set_negative r1 neg) \<and> bn_int (BN_set_negative r1 neg) = v" if "ret"
    using BN_set_negative_ok [OF _ assms(2), of r1] assms(3) [OF that] assms(6) by simp
  moreover have "bn_fits (BN_set_negative r neg) \<and> bn_mag (BN_set_negative r neg) = bn_mag r \<and>
      bn_d (BN_set_negative r neg) = bn_d r \<and> bn_top (BN_set_negative r neg) = bn_top r"
    unfolding BN_set_negative_eq [OF assms(1,2)] using assms(1) by simp
  ultimately show ?thesis using assms(4,5) unfolding bn_op_ok_def by auto
qed

lemma signed_uadd:
  assumes "bn_fits r" "bn_ok a" "bn_ok b" "BN_uadd alloc r a b = (ret, r1)" "neg \<in> {0, 1}"
    and "v = (if neg \<noteq> 0 then - (bn_mag a + bn_mag b) else bn_mag a + bn_mag b)"
  shows "bn_op_ok alloc r (max (bn_top a) (bn_top b) + 1) (ret, BN_set_negative r1 neg) v"
  using BN_uadd_correct [OF assms(1-4)] assms(6) by (intro signed_result [OF assms(1,5)]) auto

lemma signed_usub:
  assumes "bn_fits r" "bn_ok a" "bn_ok b" "BN_usub alloc r a b = (ret, r1)" "neg \<in> {0, 1}" "bn_mag b \<le> bn_mag a"
    and "v = (if neg \<noteq> 0 then bn_mag b - bn_mag a else bn_mag a - bn_mag b)" "bn_top a \<le> n"
  shows "bn_op_ok alloc r n (ret, BN_set_negative r1 neg) v"
  using BN_usub_correct [OF assms(1-4,6)] assms(7,8) by (intro signed_result [OF assms(1,5), where m = "bn_mag a - bn_mag b"]) auto

lemma signed_zero:
  assumes "bn_fits r"
  shows "bn_op_ok alloc r n (True, BN_set_negative (BN_zero r) 0) 0"
proof (rule signed_result [OF assms])
  show "bn_ok (BN_zero r) \<and> bn_mag (BN_zero r) = 0" using BN_zero_ok [OF assms] by (simp add: bn_mag_abs)
qed simp_all

lemma BN_add_ok:
  assumes "bn_fits r" "bn_ok a" "bn_ok b"
  shows "bn_op_ok alloc r (max (bn_top a) (bn_top b) + 1) (BN_add alloc r a b) (bn_int a + bn_int b)"
proof -
  note neg = bn_ok_neg_cases [OF assms(2)] bn_ok_neg_cases [OF assms(3)]
  obtain ret1 r1 where u: "BN_uadd alloc r a b = (ret1, r1)" by fastforce
  obtain ret2 r2 where s: "BN_usub alloc r a b = (ret2, r2)" by fastforce
  obtain ret3 r3 where t: "BN_usub alloc r b a = (ret3, r3)" by fastforce
  have cmp: "BN_ucmp a b = sgn (bn_mag a - bn_mag b)" by (rule BN_ucmp_sgn [OF assms(2,3)])
  consider "bn_neg a = bn_neg b" | "bn_neg a \<noteq> bn_neg b" "bn_mag b < bn_mag a" | "bn_neg a \<noteq> bn_neg b" "bn_mag a < bn_mag b"
    | "bn_neg a \<noteq> bn_neg b" "bn_mag a = bn_mag b" by linarith
  then show ?thesis
  proof cases
    case 1
    then have "BN_add alloc r a b = (ret1, BN_set_negative r1 (bn_neg a))" by (simp add: BN_add_def u)
    then show ?thesis using signed_uadd [OF assms u, of "bn_neg a"] neg 1 by (auto simp: bn_int_def)
  next
    case 2
    then have "BN_add alloc r a b = (ret2, BN_set_negative r2 (bn_neg a))" by (simp add: BN_add_def cmp s)
    then show ?thesis using signed_usub [OF assms s, of "bn_neg a"] neg 2 by (auto simp: bn_int_def)
  next
    case 3
    then have "BN_add alloc r a b = (ret3, BN_set_negative r3 (bn_neg b))" by (simp add: BN_add_def cmp t)
    then show ?thesis using signed_usub [OF assms(1,3,2) t, of "bn_neg b"] neg 3 by (auto simp: bn_int_def)
  next
    case 4
    then have "BN_add alloc r a b = (True, BN_set_negative (BN_zero r) 0)" by (simp add: BN_add_def cmp)
    moreover have "bn_int a + bn_int b = 0" using 4 neg by (auto simp: bn_int_def)
    ultimately show ?thesis using signed_zero [OF assms(1)] by metis
  qed
qed

lemma BN_sub_ok:
  assumes "bn_fits r" "bn_ok a" "bn_ok b"
  shows "bn_op_ok alloc r (max (bn_top a) (bn_top b) + 1) (BN_sub alloc r a b) (bn_int a - bn_int b)"
proof -
  note neg = bn_ok_neg_cases [OF assms(2)] bn_ok_neg_cases [OF assms(3)]
  obtain ret1 r1 where u: "BN_uadd alloc r a b = (ret1, r1)" by fastforce
  obtain ret2 r2 where s: "BN_usub alloc r a b = (ret2, r2)" by fastforce
  obtain ret3 r3 where t: "BN_usub alloc r b a = (ret3, r3)" by fastforce
  have cmp: "BN_ucmp a b = sgn (bn_mag a - bn_mag b)" by (rule BN_ucmp_sgn [OF assms(2,3)])
  consider "bn_neg a \<noteq> bn_neg b" | "bn_neg a = bn_neg b" "bn_mag b < bn_mag a" | "bn_neg a = bn_neg b" "bn_mag a < bn_mag b"
    | "bn_neg a = bn_neg b" "bn_mag a = bn_mag b" by linarith
  then show ?thesis
  proof cases
    case 1
    then have "BN_sub alloc r a b = (ret1, BN_set_negative r1 (bn_neg a))" by (simp add: BN_sub_def u)
    then show ?thesis using signed_uadd [OF assms u, of "bn_neg a"] neg 1 by (auto simp: bn_int_def)
  next
    case 2
    then have "BN_sub alloc r a b = (ret2, BN_set_negative r2 (bn_neg a))" by (simp add: BN_sub_def cmp s)
    then show ?thesis using signed_usub [OF assms s, of "bn_neg a"] neg 2 by (auto simp: bn_int_def)
  next
    case 3
    then have "BN_sub alloc r a b = (ret3, BN_set_negative r3 (of_bool (bn_neg b = 0)))" by (simp add: BN_sub_def cmp t)
    then show ?thesis using signed_usub [OF assms(1,3,2) t, of "of_bool (bn_neg b = 0)"] neg 3 by (auto simp: bn_int_def)
  next
    case 4
    then have "BN_sub alloc r a b = (True, BN_set_negative (BN_zero r) 0)" by (simp add: BN_sub_def cmp)
    moreover have "bn_int a - bn_int b = 0" using 4 neg by (auto simp: bn_int_def)
    ultimately show ?thesis using signed_zero [OF assms(1)] by metis
  qed
qed

section \<open>Shifts are exact\<close>

lemma length_lshift_loop [simp]: "length (lshift_loop d src sw ls rs st i) = length d"
  by (induction d src sw ls rs st i rule: lshift_loop.induct) simp_all

lemma nth_lshift_loop:
  assumes "i + sw < length d" "k < length d"
  shows "lshift_loop d src sw ls rs st i ! k =
    (if k = sw then push_bit ls (src ! 0)
     else if sw < k \<and> k \<le> i + sw then push_bit ls (src ! (k - sw)) OR drop_bit rs (src ! nat (int (k - sw) + st))
     else d ! k)"
  using assms
proof (induction d src sw ls rs st i rule: lshift_loop.induct)
  case (2 d src sw ls rs st i)
  show ?case
  proof (cases "k = Suc i + sw")
    case True
    then show ?thesis using 2 by simp
  next
    case False
    then show ?thesis using 2 by (auto simp: nth_list_update)
  qed
qed (simp add: nth_list_update)

text \<open>The words of the result of \<open>bn_lshift\<close>.\<close>

lemma lshift_words:
  assumes "0 < tp" "tp + sw < length d0" "k \<le> tp + sw"
    and "d = write_at (lshift_loop (d0[tp + sw := drop_bit rs (src ! (tp - 1)) AND m]) src sw ls rs st (tp - 1)) 0 (replicate sw 0)"
  shows "d ! k =
    (if k < sw then 0
     else if k = sw then push_bit ls (src ! 0)
     else if k < tp + sw then push_bit ls (src ! (k - sw)) OR drop_bit rs (src ! nat (int (k - sw) + st))
     else drop_bit rs (src ! (tp - 1)) AND m)"
proof -
  define e where "e = lshift_loop (d0[tp + sw := drop_bit rs (src ! (tp - 1)) AND m]) src sw ls rs st (tp - 1)"
  have "d ! k = (if k < sw then 0 else e ! k)"
    using assms(2,3) unfolding assms(4) e_def [symmetric] by (simp add: write_at_def nth_append e_def)
  moreover have "e ! k = (if k = sw then push_bit ls (src ! 0)
     else if sw < k \<and> k \<le> tp - 1 + sw then push_bit ls (src ! (k - sw)) OR drop_bit rs (src ! nat (int (k - sw) + st))
     else d0[tp + sw := drop_bit rs (src ! (tp - 1)) AND m] ! k)"
    unfolding e_def by (rule nth_lshift_loop) (use assms in auto)
  ultimately show ?thesis using assms(1-3) by (auto simp: nth_list_update)
qed

text \<open>Bit \<open>p\<close> of word \<open>q\<close> of a number that is shifted left by \<open>64 * sw + ls\<close> bits.\<close>

lemma div_mod_sub_64:
  fixes m n :: nat
  assumes "n \<le> m" "n = 64 * sw + ls" "ls < 64"
  shows "ls \<le> m mod 64 \<Longrightarrow> (m - n) div 64 = m div 64 - sw \<and> (m - n) mod 64 = m mod 64 - ls"
    and "m mod 64 < ls \<Longrightarrow> sw < m div 64 \<and> (m - n) div 64 = m div 64 - sw - 1 \<and> (m - n) mod 64 = m mod 64 + (64 - ls)"
proof -
  define q p where "q = m div 64" and "p = m mod 64"
  have m: "m = 64 * q + p" "p < 64" by (simp_all add: q_def p_def)
  show "(m - n) div 64 = m div 64 - sw \<and> (m - n) mod 64 = m mod 64 - ls" if "ls \<le> m mod 64"
  proof -
    have "ls \<le> p" using that by (simp add: p_def)
    then have "sw \<le> q" using assms m by linarith
    then have "m - n = 64 * (q - sw) + (p - ls)" using m assms(2) \<open>ls \<le> p\<close> by (simp add: diff_mult_distrib2)
    then show ?thesis using m(2) by (simp add: q_def [symmetric] p_def [symmetric])
  qed
  show "sw < m div 64 \<and> (m - n) div 64 = m div 64 - sw - 1 \<and> (m - n) mod 64 = m mod 64 + (64 - ls)" if "m mod 64 < ls"
  proof -
    have "p < ls" using that by (simp add: p_def)
    then have sw: "sw < q" using assms m by linarith
    then have "m - n = 64 * (q - sw - 1) + (p + (64 - ls))" using m assms(2,3) \<open>p < ls\<close> by (simp add: diff_mult_distrib2)
    moreover have "p + (64 - ls) < 64" using \<open>p < ls\<close> assms(3) by linarith
    ultimately show ?thesis using sw by (simp add: q_def [symmetric] p_def [symmetric])
  qed
qed

lemma bn_lshift_mag:
  assumes "bn_fits a" "0 < bn_top a" "bn_fits r" "bn_top a + sw + 1 \<le> bn_dmax r"
    and "n = 64 * sw + ls" "ls < 64" "rs = (64 - ls) mod 64" "st = 0 - int ((ls + rs) div 64)"
    and "d = write_at (lshift_loop ((bn_d r)[bn_top a + sw := drop_bit rs (bn_d a ! (bn_top a - 1)) AND of_int st])
               (bn_d a) sw ls rs st (bn_top a - 1)) 0 (replicate sw 0)"
    and "r' = r\<lparr>bn_d := d, bn_top := bn_top a + sw + 1\<rparr>"
  shows "bn_fits r'" "bn_mag r' = push_bit n (bn_mag a)"
proof -
  have len: "length d = length (bn_d r)" using assms(4) by (simp add: assms(9) bn_dmax_def)
  then show fits: "bn_fits r'" using assms(3,4) by (simp add: assms(10) bn_fits_def bn_dmax_def)
  have word: "d ! k = (if k < sw then 0 else if k = sw then push_bit ls (bn_d a ! 0)
     else if k < bn_top a + sw then push_bit ls (bn_d a ! (k - sw)) OR drop_bit rs (bn_d a ! nat (int (k - sw) + st))
     else drop_bit rs (bn_d a ! (bn_top a - 1)) AND of_int st)" if "k \<le> bn_top a + sw" for k
    by (rule lshift_words [OF assms(2) _ that assms(9)]) (use assms(4) in \<open>simp add: bn_dmax_def\<close>)
  show "bn_mag r' = push_bit n (bn_mag a)"
  proof (rule bit_eqI)
    fix m :: nat
    define q p where "q = m div 64" and "p = m mod 64"
    have p: "p < 64" by (simp add: p_def)
    have nq: "nat (int q - int sw) = q - sw" by linarith
    have le: "n \<le> m \<longleftrightarrow> sw < q \<or> (sw = q \<and> ls \<le> p)"
      using less_div_mod_64 [of m n] assms(5,6) by (auto simp: q_def p_def)
    have new: "bit (bn_mag r') m \<longleftrightarrow> q \<le> bn_top a + sw \<and> bit (d ! q) p"
      using bit_bn_mag [OF fits] by (simp add: assms(10) q_def p_def less_Suc_eq_le)
    have old: "bit (push_bit n (bn_mag a)) m \<longleftrightarrow> n \<le> m \<and> (m - n) div 64 < bn_top a \<and> bit (bn_d a ! ((m - n) div 64)) ((m - n) mod 64)"
      using bit_bn_mag [OF assms(1)] by (simp add: bit_push_bit_iff)
    show "bit (bn_mag r') m = bit (push_bit n (bn_mag a)) m"
    proof (cases "ls = 0")
      case True
      then have rs: "rs = 0" "st = 0" using assms(7,8) by auto
      show ?thesis
        using div_mod_sub_64 [of n m sw ls] assms(2,5,6) True p unfolding new old le
        by (cases "q \<le> bn_top a + sw") (auto simp: word rs nq q_def [symmetric] p_def [symmetric] le less_diff_conv2)
    next
      case False
      then have rs: "rs = 64 - ls" "st = - 1" using assms(6,7,8) by auto
      show ?thesis
      proof (cases "ls \<le> p")
        case True
        then show ?thesis
          using div_mod_sub_64(1) [of n m sw ls] assms(2,5,6) p False unfolding new old le
          by (cases "q \<le> bn_top a + sw")
            (auto simp: word rs q_def [symmetric] p_def [symmetric] le bit_simps dest: bit_imp_le_length)
      next
        case lt: False
        then show ?thesis
          using div_mod_sub_64(2) [of n m sw ls] assms(2,5,6) p False unfolding new old le
          by (cases "q \<le> bn_top a + sw")
            (auto simp: word rs q_def [symmetric] p_def [symmetric] le bit_simps nat_diff_distrib add.commute [of 64 p] dest: bit_imp_le_length)
      qed
    qed
  qed
qed

lemma bn_lshift_ok:
  assumes "bn_fits r" "bn_ok a" "0 \<le> n"
  shows "bn_op_ok alloc r (bn_top a + nat n div 64 + 1) (bn_lshift alloc r a n) (bn_int a * 2 ^ nat n)"
proof (cases "bn_top a = 0")
  case True
  then have "bn_int a = 0" using bn_ok_int_0 [OF assms(2)] by simp
  then show ?thesis using True assms BN_zero_ok [OF assms(1)] by (simp add: bn_lshift_def bn_op_ok_def Let_def)
next
  case False
  define sw ls where "sw = nat n div 64" and "ls = nat n mod 64"
  define rs where "rs = (64 - ls) mod 64"
  define st where "st = 0 - int ((ls + rs) div 64)"
  define c where "c = bn_top a + sw + 1"
  show ?thesis
  proof (cases "can_expand alloc r c")
    case True
    then obtain x where x: "bn_wexpand alloc r (int c) = (True, x)" by (simp add: bn_wexpand_eq)
    note X = bn_wexpand_ok [OF x assms(1)]
    define d where "d = write_at (lshift_loop ((bn_d x)[bn_top a + sw := drop_bit rs (bn_d a ! (bn_top a - 1)) AND of_int st])
               (bn_d a) sw ls rs st (bn_top a - 1)) 0 (replicate sw 0)"
    define y where "y = x\<lparr>bn_d := d, bn_top := bn_top a + sw + 1\<rparr>"
    have y: "bn_fits y" "bn_mag y = push_bit (nat n) (bn_mag a)"
      by (rule bn_lshift_mag [OF bn_ok_fits [OF assms(2)] _ X(1) _ _ _ rs_def st_def d_def y_def];
          use False X(2) in \<open>simp add: c_def sw_def ls_def\<close>)+
    have res: "bn_lshift alloc r a n = (True, BN_set_negative (bn_correct_top y) (bn_neg a))"
      using assms(3) False x unfolding bn_lshift_def Let_def sw_def [symmetric] ls_def [symmetric] rs_def [symmetric]
        st_def [symmetric] c_def [symmetric] by (simp add: y_def d_def c_def)
    have "bn_neg a \<in> {0, 1}" using bn_ok_neg_cases [OF assms(2)] by simp
    from bn_normal_ok [OF y(1) this] show ?thesis
      by (simp add: res bn_op_ok_def y(2) push_bit_eq_mult bn_int_def)
  next
    case 2: False
    then have "bn_lshift alloc r a n = (False, r)"
      using assms(3) False by (simp add: bn_lshift_def Let_def bn_wexpand_eq c_def sw_def del: of_nat_add of_nat_Suc)
    then show ?thesis using 2 assms(1) by (auto simp: bn_op_ok_def c_def sw_def)
  qed
qed

lemma length_rshift_loop [simp]: "length (rshift_loop d src ls rs st i n) = length d"
  by (induction d src ls rs st i n rule: rshift_loop.induct) simp_all

lemma nth_rshift_loop:
  assumes "i + n < length d" "k < length d"
  shows "rshift_loop d src ls rs st i n ! k =
    (if i \<le> k \<and> k < i + n then push_bit ls (src ! (k + st)) OR drop_bit rs (src ! k)
     else if k = i + n then drop_bit rs (src ! k) else d ! k)"
  using assms
proof (induction d src ls rs st i n rule: rshift_loop.induct)
  case (2 d src ls rs st i n)
  show ?case
  proof (cases "k = i")
    case True
    then show ?thesis using 2 by simp
  next
    case False
    then show ?thesis using 2 by (auto simp: nth_list_update)
  qed
qed (simp add: nth_list_update)

lemma div_mod_digits: "r < b \<Longrightarrow> (b * q + r) div b = q \<and> (b * q + r) mod b = (r :: nat)"
  by simp

lemma div_mod_add_64:
  fixes m n :: nat
  assumes "n = 64 * sw + rs" "rs < 64"
  shows "m mod 64 + rs < 64 \<Longrightarrow> (m + n) div 64 = m div 64 + sw \<and> (m + n) mod 64 = m mod 64 + rs"
    and "64 \<le> m mod 64 + rs \<Longrightarrow> (m + n) div 64 = m div 64 + sw + 1 \<and> (m + n) mod 64 = m mod 64 + rs - 64"
proof -
  define q p where "q = m div 64" and "p = m mod 64"
  have m: "m = 64 * q + p" "p < 64" by (simp_all add: q_def p_def)
  show "(m + n) div 64 = m div 64 + sw \<and> (m + n) mod 64 = m mod 64 + rs" if "m mod 64 + rs < 64"
  proof -
    have "m + n = 64 * (q + sw) + (p + rs)" using m assms(1) by simp
    then show ?thesis
      using that div_mod_digits [of "p + rs" 64 "q + sw"] unfolding q_def [symmetric] p_def [symmetric] by metis
  qed
  show "(m + n) div 64 = m div 64 + sw + 1 \<and> (m + n) mod 64 = m mod 64 + rs - 64" if "64 \<le> m mod 64 + rs"
  proof -
    have "m + n = 64 * (q + sw + 1) + (p + rs - 64)" using m assms(1) that by (simp add: p_def [symmetric])
    moreover have "p + rs - 64 < 64" using m(2) assms(2) by linarith
    ultimately show ?thesis
      using div_mod_digits [of "p + rs - 64" 64 "q + sw + 1"] unfolding q_def [symmetric] p_def [symmetric] by metis
  qed
qed

lemma bn_rshift_mag:
  assumes "bn_fits a" "sw < bn_top a" "bn_fits r" "bn_top a - sw \<le> bn_dmax r"
    and "n = 64 * sw + rs" "rs < 64" "ls = (64 - rs) mod 64" "st = (ls + rs) div 64"
    and "d = rshift_loop (bn_d r) (drop sw (bn_d a)) ls rs st 0 (bn_top a - sw - 1)"
    and "r' = r\<lparr>bn_d := d, bn_top := bn_top a - sw\<rparr>"
  shows "bn_fits r'" "bn_mag r' = drop_bit n (bn_mag a)"
proof -
  have len: "length d = length (bn_d r)" by (simp add: assms(9))
  then show fits: "bn_fits r'" using assms(3,4) by (simp add: assms(10) bn_fits_def bn_dmax_def)
  have top: "bn_top a \<le> length (bn_d a)" using bn_fits_top [OF assms(1)] .
  have word: "d ! k = (if k < bn_top a - sw - 1 then push_bit ls (bn_d a ! (k + sw + st)) OR drop_bit rs (bn_d a ! (k + sw))
     else drop_bit rs (bn_d a ! (k + sw)))" if "k < bn_top a - sw" for k
  proof -
    have "d ! k = (if 0 \<le> k \<and> k < 0 + (bn_top a - sw - 1)
        then push_bit ls (drop sw (bn_d a) ! (k + st)) OR drop_bit rs (drop sw (bn_d a) ! k)
        else if k = 0 + (bn_top a - sw - 1) then drop_bit rs (drop sw (bn_d a) ! k) else bn_d r ! k)"
      unfolding assms(9) by (rule nth_rshift_loop) (use that assms(2,4) in \<open>auto simp: bn_dmax_def\<close>)
    then show ?thesis using that top by (auto simp: add_ac)
  qed
  show "bn_mag r' = drop_bit n (bn_mag a)"
  proof (rule bit_eqI)
    fix m :: nat
    define q p where "q = m div 64" and "p = m mod 64"
    have p: "p < 64" by (simp add: p_def)
    have new: "bit (bn_mag r') m \<longleftrightarrow> q < bn_top a - sw \<and> bit (d ! q) p"
      using bit_bn_mag [OF fits] by (simp add: assms(10) q_def p_def)
    have old: "bit (drop_bit n (bn_mag a)) m \<longleftrightarrow> (m + n) div 64 < bn_top a \<and> bit (bn_d a ! ((m + n) div 64)) ((m + n) mod 64)"
      using bit_bn_mag [OF assms(1)] by (simp add: bit_drop_bit_eq add.commute)
    show "bit (bn_mag r') m = bit (drop_bit n (bn_mag a)) m"
    proof (cases "rs = 0")
      case True
      then have ls: "ls = 0" "st = 0" using assms(7,8) by auto
      show ?thesis
        using div_mod_add_64(1) [of n sw rs m] assms(2,5,6) True p unfolding new old
        by (cases "q < bn_top a - sw") (auto simp: word ls q_def [symmetric] p_def [symmetric] add.commute [of sw q])
    next
      case False
      then have ls: "ls = 64 - rs" "st = 1" using assms(6,7,8) by auto
      show ?thesis
      proof (cases "p + rs < 64")
        case True
        then show ?thesis
          using div_mod_add_64(1) [of n sw rs m] assms(2,5,6) p False unfolding new old
          by (cases "q < bn_top a - sw")
            (auto simp: word ls q_def [symmetric] p_def [symmetric] bit_simps add.commute [of rs p] dest: bit_imp_le_length)
      next
        case ge: False
        then have ge': "64 \<le> m mod 64 + rs" by (simp add: p_def)
        show ?thesis
          using div_mod_add_64(2) [OF assms(5,6) ge'] assms(2,5,6) p False ge unfolding new old
          by (cases "q < bn_top a - sw")
            (auto simp: word ls q_def [symmetric] p_def [symmetric] bit_simps dest: bit_imp_le_length)
      qed
    qed
  qed
qed

lemma bn_rshift_ok:
  assumes "bn_fits r" "bn_ok a" "0 \<le> n"
  shows "bn_op_ok alloc r (bn_top a) (bn_rshift alloc r a n) (sgn (bn_int a) * (bn_mag a div 2 ^ nat n))"
proof -
  define sw rs where "sw = nat n div 64" and "rs = nat n mod 64"
  define ls where "ls = (64 - rs) mod 64"
  define st where "st = (ls + rs) div 64"
  define c where "c = bn_top a - sw"
  show ?thesis
  proof (cases "bn_top a \<le> sw")
    case True
    have "bn_mag a < 2 ^ (64 * bn_top a)" by (rule bn_mag_less [OF bn_ok_fits [OF assms(2)]])
    also have "\<dots> \<le> (2 :: int) ^ nat n" using True by (intro power_increasing) (auto simp: sw_def)
    finally have "bn_mag a div 2 ^ nat n = 0" by simp
    then show ?thesis
      using True assms BN_zero_ok [OF assms(1)] by (simp add: bn_rshift_def bn_op_ok_def Let_def sw_def)
  next
    case False
    show ?thesis
    proof (cases "can_expand alloc r c")
      case True
      then obtain x where x: "bn_wexpand alloc r (int c) = (True, x)" by (simp add: bn_wexpand_eq)
      note X = bn_wexpand_ok [OF x assms(1)]
      define d where "d = rshift_loop (bn_d x) (drop sw (bn_d a)) ls rs st 0 (bn_top a - sw - 1)"
      define y where "y = x\<lparr>bn_d := d, bn_top := bn_top a - sw\<rparr>"
      have y: "bn_fits y" "bn_mag y = drop_bit (nat n) (bn_mag a)"
        by (rule bn_rshift_mag [OF bn_ok_fits [OF assms(2)] _ X(1) _ _ _ ls_def st_def d_def y_def];
            use False X(2) in \<open>simp add: c_def sw_def rs_def\<close>)+
      have res: "bn_rshift alloc r a n = (True, BN_set_negative (bn_correct_top y) (bn_neg a))"
        using assms(3) False x unfolding bn_rshift_def Let_def sw_def [symmetric] rs_def [symmetric] ls_def [symmetric]
          st_def [symmetric] c_def [symmetric] by (simp add: y_def d_def c_def)
      have "bn_neg a \<in> {0, 1}" using bn_ok_neg_cases [OF assms(2)] by simp
      from bn_normal_ok [OF y(1) this] show ?thesis
        using bn_ok_sgn [OF assms(2)] False by (simp add: res bn_op_ok_def y(2) drop_bit_eq_div)
    next
      case 2: False
      then have "bn_rshift alloc r a n = (False, r)"
        using assms(3) False by (simp add: bn_rshift_def Let_def bn_wexpand_eq c_def sw_def del: of_nat_diff)
      then show ?thesis using 2 assms(1) by (auto simp: bn_op_ok_def c_def intro!: exI [of _ "bn_top a - sw"])
    qed
  qed
qed

section \<open>Words\<close>

lemma bn_val_take_update:
  assumes "i < n" "n \<le> length d"
  shows "bn_val (take n (d[i := w])) = bn_val (take n d) + 2 ^ (64 * i) * (uint w - uint (d ! i))"
proof -
  have "bn_val (take n (d[i := w])) = bn_val (take i d) + 2 ^ (64 * i) * bn_val (w # drop (Suc i) (take n d))"
    using assms bn_val_take_drop [of i "take n (d[i := w])"]
    by (simp add: take_update_swap drop_update_swap Cons_nth_drop_Suc [symmetric] min_absorb1 list_update_beyond)
  moreover have "bn_val (take n d) = bn_val (take i d) + 2 ^ (64 * i) * bn_val (d ! i # drop (Suc i) (take n d))"
    using assms bn_val_take_drop [of i "take n d"] by (simp add: Cons_nth_drop_Suc [symmetric] min_absorb1)
  ultimately show ?thesis by (simp add: algebra_simps)
qed

lemma uint_add_carry: "uint (x + w :: bn_word) + (if w > x + w then 2 ^ 64 else 0) = uint x + uint w"
proof -
  have "unat (x + w) + (if w > x + w then 2 ^ 64 else 0) = unat x + unat w"
    using u64_lt [of x] u64_lt [of w] by (auto simp: word_less_nat_alt unat_add_u64 split: if_splits)
  from arg_cong [OF this, of int] show ?thesis by (simp split: if_splits)
qed

lemma uint_sub_borrow: "uint (x - w :: bn_word) = uint x - uint w + (if w \<le> x then 0 else 2 ^ 64)"
proof -
  have "unat (x - w) + unat w = unat x + (if w \<le> x then 0 else 2 ^ 64)"
    using u64_lt [of x] u64_lt [of w] by (auto simp: word_le_nat_alt unat_sub_u64 split: if_splits)
  from arg_cong [OF this, of int] show ?thesis by (simp split: if_splits)
qed

lemma add_word_loop_value:
  assumes "add_word_loop d i n w = (d', w', j)" "i \<le> n" "n \<le> length d"
  shows "length d' = length d \<and> (w' = 0 \<or> j = n) \<and>
    bn_val (take n d') + 2 ^ (64 * n) * (if j = n then uint w' else 0) = bn_val (take n d) + 2 ^ (64 * i) * uint w"
  using assms
proof (induction d i n w rule: add_word_loop.induct)
  case (1 d i n w)
  show ?case
  proof (cases "w \<noteq> 0 \<and> i < n")
    case True
    define l where "l = d ! i + w"
    define c where "c = (if w > l then 1 else 0 :: bn_word)"
    have "add_word_loop (d[i := l]) (i + 1) n c = (d', w', j)"
      using 1(2) True by (subst (asm) add_word_loop.simps) (simp add: l_def c_def Let_def)
    then have IH: "length d' = length d \<and> (w' = 0 \<or> j = n) \<and>
      bn_val (take n d') + 2 ^ (64 * n) * (if j = n then uint w' else 0) = bn_val (take n (d[i := l])) + 2 ^ (64 * (i + 1)) * uint c"
      using 1(1) [OF True l_def] True 1(4) by (simp add: c_def)
    have "uint l + 2 ^ 64 * uint c = uint (d ! i) + uint w"
      using uint_add_carry [of "d ! i" w] by (simp add: l_def c_def split: if_splits)
    moreover have "2 ^ (64 * i) * uint l + 2 ^ (64 * (i + 1)) * uint c = 2 ^ (64 * i) * (uint l + 2 ^ 64 * uint c)"
      by (simp add: power_add algebra_simps)
    ultimately have "2 ^ (64 * i) * uint l + 2 ^ (64 * (i + 1)) * uint c = 2 ^ (64 * i) * (uint (d ! i) + uint w)"
      by simp
    then show ?thesis
      using IH True 1(4) by (simp add: bn_val_take_update right_diff_distrib distrib_left)
  next
    case False
    then have "d' = d" "w' = w" "j = i" using 1(2) by (auto simp: add_word_loop.simps [of d i n w] split: if_splits)
    then show ?thesis using False 1(3) by auto
  qed
qed

text \<open>\<open>sub_word_loop\<close> stops inside the number if the words from \<open>i\<close> on are at least \<open>w\<close>.\<close>

lemma sub_word_loop_value:
  assumes "i < n" "n \<le> length d" "uint w \<le> bn_val (drop i (take n d))"
  shows "\<exists>d' j. sub_word_loop d i w = Some (d', j) \<and> i \<le> j \<and> j < n \<and> length d' = length d \<and>
    (\<forall>k. j < k \<longrightarrow> d' ! k = d ! k) \<and> bn_val (take n d') = bn_val (take n d) - 2 ^ (64 * i) * uint w"
  using assms
proof (induction d i w rule: sub_word_loop.induct)
  case (1 d i w)
  have i: "i < length d" using 1(2,3) by simp
  define l where "l = d ! i - w"
  show ?case
  proof (cases "d ! i \<ge> w")
    case True
    then have "sub_word_loop d i w = Some (d[i := l], i)" using i by (subst sub_word_loop.simps) (simp add: l_def)
    moreover have "bn_val (take n (d[i := l])) = bn_val (take n d) - 2 ^ (64 * i) * uint w"
      using True 1(2,3) uint_sub_borrow [of "d ! i" w] by (simp add: bn_val_take_update l_def)
    ultimately show ?thesis using 1(2) by auto
  next
    case False
    have rest: "drop i (take n d) = d ! i # drop (i + 1) (take n d)"
      using 1(2,3) by (simp add: Cons_nth_drop_Suc [symmetric])
    have "uint (d ! i) < uint w" using False by (simp add: word_le_def)
    then have "0 < bn_val (drop (i + 1) (take n d))" using 1(4) unfolding rest
      by (metis add.right_neutral bn_val.simps(2) bn_val_nonneg leD mult_zero_right order_less_le)
    then have pos: "1 \<le> bn_val (drop (i + 1) (take n d))" by linarith
    then have i1: "i + 1 < n" using 1(2) by (cases "i + 1 = n") auto
    have dr: "drop (i + 1) (take n (d[i := l])) = drop (i + 1) (take n d)"
      by (simp add: drop_take)
    have step: "sub_word_loop d i w = sub_word_loop (d[i := l]) (i + 1) 1"
      using False i by (subst sub_word_loop.simps) (simp add: l_def)
    obtain d' j where r: "sub_word_loop (d[i := l]) (i + 1) 1 = Some (d', j)" "i + 1 \<le> j" "j < n" "length d' = length d"
        "\<forall>k. j < k \<longrightarrow> d' ! k = d[i := l] ! k"
        "bn_val (take n d') = bn_val (take n (d[i := l])) - 2 ^ (64 * (i + 1)) * uint (1 :: bn_word)"
      using 1(1) [OF i False] i1 1(3) pos dr unfolding l_def by auto
    have "bn_val (take n (d[i := l])) = bn_val (take n d) - 2 ^ (64 * i) * uint w + 2 ^ (64 * i) * 2 ^ 64"
    proof -
      have ul: "uint l - uint (d ! i) = 2 ^ 64 - uint w" using False uint_sub_borrow [of "d ! i" w] by (simp add: l_def)
      show ?thesis unfolding bn_val_take_update [OF 1(2,3)] ul by (simp add: algebra_simps)
    qed
    then have "bn_val (take n d') = bn_val (take n d) - 2 ^ (64 * i) * uint w"
      using r(6) by (simp add: power_add)
    then show ?thesis using r step by auto
  qed
qed

text \<open>A number with a new array and a value that reaches its top word is well formed.\<close>

lemma bn_okI:
  assumes "bn_fits a" "bn_neg a = 0 \<or> (bn_neg a = 1 \<and> 0 < bn_top a)"
    and "0 < bn_top a \<Longrightarrow> 2 ^ (64 * (bn_top a - 1)) \<le> bn_mag a"
  shows "bn_ok a"
  using assms top_word_nonzero [of "bn_top a" "bn_d a"] bn_fits_top [OF assms(1)]
  by (auto simp: bn_ok_def bn_mag_def)

lemma bn_int_nonneg: "bn_neg a = 0 \<Longrightarrow> bn_int a = bn_mag a"
  by (simp add: bn_int_def)

text \<open>A carry that is appended as a new top word.\<close>

lemma append_carry:
  assumes "bn_fits a" "length d = bn_dmax a" "bn_val (take (bn_top a) d) + 2 ^ (64 * bn_top a) * uint c = v"
    and "bn_wexpand alloc (a\<lparr>bn_d := d\<rparr>) (int (bn_top a) + 1) = (True, x)" "c \<noteq> 0"
    and "a' = x\<lparr>bn_top := bn_top a + 1, bn_d := (bn_d x)[bn_top a := c]\<rparr>"
  shows "bn_fits a'" "bn_mag a' = v" "bn_neg a' = bn_neg a" "2 ^ (64 * bn_top a) \<le> v"
proof -
  have f: "bn_fits (a\<lparr>bn_d := d\<rparr>)" using assms(1,2) by (simp add: bn_fits_def bn_dmax_def)
  have e: "bn_wexpand alloc (a\<lparr>bn_d := d\<rparr>) (int (bn_top a + 1)) = (True, x)" using assms(4) by (simp add: add.commute)
  note x = bn_wexpand_ok [OF e f]
  have tk: "take (bn_top a) (bn_d x) = take (bn_top a) d"
  proof -
    have "take (bn_top a) (take (length d) (bn_d x)) = take (bn_top a) d" using x(7) by (simp add: bn_dmax_def)
    moreover have "bn_top a \<le> length d" using assms(1,2) by (simp add: bn_fits_def)
    ultimately show ?thesis by (simp add: min_absorb1)
  qed
  have len: "bn_top a < length (bn_d x)" using x(2) by (simp add: bn_dmax_def)
  show "bn_fits a'" using x(1) len by (simp add: assms(6) bn_fits_def bn_dmax_def)
  show "bn_mag a' = v"
    using bn_val_take_Suc [of "bn_top a" "(bn_d x)[bn_top a := c]"] len tk assms(3) by (simp add: assms(6) bn_mag_def)
  show "bn_neg a' = bn_neg a" using x(5) by (simp add: assms(6))
  have "uint c \<noteq> 0" using assms(5) by (simp add: uint_0_iff)
  then have "1 \<le> uint c" using uint_ge_0 [of c] by linarith
  then have "2 ^ (64 * bn_top a) * 1 \<le> 2 ^ (64 * bn_top a) * uint c" by (intro mult_left_mono) auto
  then show "2 ^ (64 * bn_top a) \<le> v" using assms(3) bn_val_nonneg [of "take (bn_top a) d"] by linarith
qed

text \<open>What \<open>BN_add_word\<close> and \<open>BN_sub_word\<close> promise.\<close>

definition word_op_ok :: "(nat \<Rightarrow> bool) \<Rightarrow> bignum \<Rightarrow> (bool \<times> bignum) option \<Rightarrow> int \<Rightarrow> bool" where
  "word_op_ok alloc a res v \<longleftrightarrow>
     (case res of None \<Rightarrow> False
      | Some (ret, a') \<Rightarrow>
         (ret \<longrightarrow> bn_ok a' \<and> bn_int a' = v) \<and> bn_fits a' \<and>
         (can_expand alloc a 1 \<and> can_expand alloc a (bn_top a + 1) \<longrightarrow> ret))"

lemma can_expand_d: "length d = bn_dmax a \<Longrightarrow> can_expand alloc (a\<lparr>bn_d := d\<rparr>) n = can_expand alloc a n"
  by (simp add: can_expand_def bn_dmax_def)

lemma add_word_positive:
  assumes "bn_ok a" "bn_neg a = 0" "bn_top a > 0" "w \<noteq> 0"
  shows "word_op_ok alloc a (BN_add_word alloc a w) (bn_int a + uint w)"
proof -
  note fits = bn_ok_fits [OF assms(1)]
  have nz: "\<not> BN_is_zero a" using bn_ok_mag_0 [OF assms(1)] assms(3) BN_is_zero_iff [OF fits] by simp
  obtain d c j where l: "add_word_loop (bn_d a) 0 (bn_top a) w = (d, c, j)" by (metis prod_cases3)
  have d: "length d = bn_dmax a" "c = 0 \<or> j = bn_top a"
    "bn_val (take (bn_top a) d) + 2 ^ (64 * bn_top a) * (if j = bn_top a then uint c else 0) = bn_mag a + uint w"
    using add_word_loop_value [OF l] bn_fits_top [OF fits] by (auto simp: bn_dmax_def bn_mag_def)
  define b where "b = a\<lparr>bn_d := d\<rparr>"
  have res: "BN_add_word alloc a w = (if c \<noteq> 0 \<and> j = bn_top a then
      (case bn_wexpand alloc b (int (bn_top a) + 1) of (False, x) \<Rightarrow> Some (False, x)
       | (True, x) \<Rightarrow> Some (True, x\<lparr>bn_top := bn_top x + 1, bn_d := (bn_d x)[j := c]\<rparr>))
      else Some (True, b))"
    using assms nz l by (subst BN_add_word.simps) (simp add: b_def Let_def)
  have fb: "bn_fits b" using fits d(1) by (simp add: b_def bn_fits_def bn_dmax_def)
  have ge: "2 ^ (64 * (bn_top a - 1)) \<le> bn_mag a" by (rule bn_ok_mag_ge [OF assms(1,3)])
  show ?thesis
  proof (cases "c \<noteq> 0 \<and> j = bn_top a")
    case False
    then have "bn_mag b = bn_mag a + uint w" using d(2,3) by (auto simp: b_def bn_mag_def split: if_splits)
    moreover have "2 ^ (64 * (bn_top a - 1)) \<le> bn_mag a + uint w" using ge uint_ge_0 [of w] by linarith
    ultimately have "bn_ok b" "bn_int b = bn_int a + uint w"
      using fb assms(2) by (auto intro!: bn_okI simp: b_def bn_int_nonneg)
    then show ?thesis using False fb by (auto simp: res word_op_ok_def)
  next
    case True
    have v: "bn_val (take (bn_top a) d) + 2 ^ (64 * bn_top a) * uint c = bn_mag a + uint w" using d(3) True by simp
    show ?thesis
    proof (cases "can_expand alloc a (bn_top a + 1)")
      case can: True
      have "bn_wexpand alloc b (int (bn_top a + 1)) = (True, b\<lparr>bn_d := bn_d b @ replicate (bn_top a + 1 - bn_dmax b) 0\<rparr>)"
        using can can_expand_d [OF d(1), of alloc "bn_top a + 1"] unfolding bn_wexpand_eq b_def by simp
      then obtain x where x: "bn_wexpand alloc (a\<lparr>bn_d := d\<rparr>) (int (bn_top a) + 1) = (True, x)" "bn_top x = bn_top a"
        by (simp add: b_def add.commute)
      define a' where "a' = x\<lparr>bn_top := bn_top a + 1, bn_d := (bn_d x)[bn_top a := c]\<rparr>"
      note ac = append_carry [OF fits d(1) v x(1) conjunct1 [OF True] a'_def]
      have "bn_ok a'" "bn_int a' = bn_int a + uint w"
        using ac assms(2) by (auto intro!: bn_okI simp: bn_int_nonneg a'_def)
      then show ?thesis using True x ac(1) by (simp add: res word_op_ok_def b_def a'_def)
    next
      case cannot: False
      then have "bn_wexpand alloc b (int (bn_top a + 1)) = (False, b)"
        using can_expand_d [OF d(1), of alloc "bn_top a + 1"] unfolding bn_wexpand_eq b_def by simp
      then show ?thesis using True cannot fb by (simp add: res word_op_ok_def add.commute)
    qed
  qed
qed

lemma sub_word_positive:
  assumes "bn_ok a" "bn_neg a = 0" "bn_top a > 0" "w \<noteq> 0"
  shows "word_op_ok alloc a (BN_sub_word alloc a w) (bn_int a - uint w)"
proof -
  note fits = bn_ok_fits [OF assms(1)]
  have top: "bn_top a \<le> length (bn_d a)" by (rule bn_fits_top [OF fits])
  have nz: "\<not> BN_is_zero a" using bn_ok_mag_0 [OF assms(1)] assms(3) BN_is_zero_iff [OF fits] by simp
  have ge: "2 ^ (64 * (bn_top a - 1)) \<le> bn_mag a" by (rule bn_ok_mag_ge [OF assms(1,3)])
  show ?thesis
  proof (cases "bn_top a = 1 \<and> bn_d a ! 0 < w")
    case True
    define b where "b = a\<lparr>bn_d := (bn_d a)[0 := w - bn_d a ! 0]\<rparr>"
    have res: "BN_sub_word alloc a w = Some (True, BN_set_negative b 1)"
      using assms nz True by (subst BN_sub_word.simps) (simp add: b_def)
    have fb: "bn_fits b" using fits by (simp add: b_def bn_fits_def bn_dmax_def)
    have lt: "uint (bn_d a ! 0) < uint w" using True by (simp add: word_less_def)
    obtain x xs where d: "bn_d a = x # xs" using top True by (cases "bn_d a") auto
    have mag: "bn_mag b = uint w - bn_mag a" using True lt uint_sub_borrow [of w x] by (simp add: b_def bn_mag_def d word_le_def)
    have "0 < bn_mag b" using mag True lt by (simp add: bn_mag_def d)
    then have "bn_ok b" using fb assms(2) True by (intro bn_okI) (auto simp: b_def)
    from BN_set_negative_ok [OF this, of 1] show ?thesis
      using mag assms(2) by (simp add: res word_op_ok_def bn_int_nonneg bn_ok_fits)
  next
    case False
    have w: "uint w \<le> bn_val (drop 0 (take (bn_top a) (bn_d a)))"
    proof (cases "bn_top a = 1")
      case True
      then obtain x xs where "bn_d a = x # xs" using top by (cases "bn_d a") auto
      then show ?thesis using False True by (simp add: word_less_def)
    next
      case False
      then have "(2 :: int) ^ (64 * 1) \<le> 2 ^ (64 * (bn_top a - 1))" using assms(3) by (intro power_increasing) auto
      then show ?thesis using ge uint_u64_lt [of w] by (simp add: bn_mag_def)
    qed
    obtain d j where r: "sub_word_loop (bn_d a) 0 w = Some (d, j)" "j < bn_top a" "length d = length (bn_d a)"
        "\<forall>k. j < k \<longrightarrow> d ! k = bn_d a ! k" "bn_val (take (bn_top a) d) = bn_mag a - uint w"
      using sub_word_loop_value [OF assms(3) top w] by (auto simp: bn_mag_def)
    define t where "t = (if d ! j = 0 \<and> j = bn_top a - 1 then bn_top a - 1 else bn_top a)"
    define b where "b = a\<lparr>bn_d := d, bn_top := t\<rparr>"
    have res: "BN_sub_word alloc a w = Some (True, b)"
      using assms nz False r(1) by (subst BN_sub_word.simps) (auto simp: b_def t_def)
    have fb: "bn_fits b" using fits r(3) by (auto simp: b_def t_def bn_fits_def bn_dmax_def)
    have mag: "bn_mag b = bn_mag a - uint w"
      using r(2,3,5) top bn_val_take_Suc [of "bn_top a - 1" d] by (auto simp: b_def t_def bn_mag_def)
    have last: "bn_d a ! (bn_top a - 1) \<noteq> 0" using assms(1,3) by (simp add: bn_ok_def)
    have "bn_ok b"
    proof (cases "d ! j = 0 \<and> j = bn_top a - 1")
      case True
      then have t: "t = bn_top a - 1" unfolding t_def by (rule if_P)
      have "2 ^ (64 * (t - 1)) \<le> bn_mag b" if "0 < t"
      proof -
        define y :: int where "y = 2 ^ (64 * (t - 1))"
        have "2 ^ 64 * y = (2 :: int) ^ (64 * (bn_top a - 1))" using t that unfolding y_def power_add [symmetric]
          by (metis Suc_eq_plus1 Suc_pred' add.commute mult.commute mult_Suc_right)
        moreover have "1 \<le> y" by (simp add: y_def)
        moreover have "uint w < 18446744073709551616" using uint_u64_lt [of w] by simp
        ultimately have "18446744073709551616 * y \<le> bn_mag a" "1 \<le> y" "uint w < 18446744073709551616" using ge by simp_all
        then have "y \<le> bn_mag a - uint w" by linarith
        then show ?thesis using mag by (simp add: y_def)
      qed
      then show ?thesis using fb assms(2) by (intro bn_okI) (simp_all add: b_def)
    next
      case ne: False
      then have "d ! (bn_top a - 1) \<noteq> 0"
      proof (cases "j = bn_top a - 1")
        case False
        then have "j < bn_top a - 1" using r(2) by linarith
        then show ?thesis using r(4) last by simp
      qed (use ne in auto)
      then show ?thesis using ne fb assms(2) by (auto simp: bn_ok_def b_def t_def)
    qed
    then show ?thesis using fb mag assms(2) by (simp add: res word_op_ok_def bn_int_nonneg b_def)
  qed
qed

text \<open>A negative operand: the operation on the magnitude, with the sign turned around.\<close>

lemma word_op_negative:
  assumes "bn_ok a" "bn_neg a \<noteq> 0" "word_op_ok alloc (a\<lparr>bn_neg := 0\<rparr>) res v"
  shows "word_op_ok alloc a
    (case res of None \<Rightarrow> None | Some (i, a) \<Rightarrow> Some (i, BN_set_negative a (of_bool (bn_neg a = 0)))) (- v)"
proof -
  obtain ret b where res: "res = Some (ret, b)" using assms(3) by (auto simp: word_op_ok_def split: option.splits)
  have b: "ret \<longrightarrow> bn_ok b \<and> bn_int b = v" "bn_fits b" "can_expand alloc a 1 \<and> can_expand alloc a (bn_top a + 1) \<longrightarrow> ret"
    using assms(3) by (simp_all add: word_op_ok_def res can_expand_def bn_dmax_def)
  have neg: "of_bool (bn_neg b = 0) \<in> {0, 1 :: int}" by simp
  have "bn_fits (BN_set_negative b (of_bool (bn_neg b = 0)))" unfolding BN_set_negative_eq [OF b(2) neg] using b(2) by simp
  moreover have "bn_ok (BN_set_negative b (of_bool (bn_neg b = 0))) \<and> bn_int (BN_set_negative b (of_bool (bn_neg b = 0))) = - v" if "ret"
    using BN_set_negative_ok [OF _ neg, of b] b(1) that by (auto simp: bn_int_def)
  ultimately show ?thesis using b(3) by (simp add: res word_op_ok_def)
qed

lemma bn_ok_abs: "bn_ok a \<Longrightarrow> bn_ok (a\<lparr>bn_neg := 0\<rparr>)"
  by (simp add: bn_ok_def)

lemma bn_int_abs: "bn_int (a\<lparr>bn_neg := 0\<rparr>) = bn_mag a"
  by (simp add: bn_int_def)

lemma BN_add_sub_word_ok:
  assumes "bn_ok a"
  shows "word_op_ok alloc a (BN_add_word alloc a w) (bn_int a + uint w)"
    and "word_op_ok alloc a (BN_sub_word alloc a w) (bn_int a - uint w)"
proof -
  note fits = bn_ok_fits [OF assms]
  obtain ret b where sw: "BN_set_word alloc a w = (ret, b)" by fastforce
  note set = BN_set_word_correct [OF fits sw]
  have *: "word_op_ok alloc a (BN_add_word alloc a w) (bn_int a + uint w) \<and>
    word_op_ok alloc a (BN_sub_word alloc a w) (bn_int a - uint w)"
  proof (cases "w = 0")
    case True
    then show ?thesis using assms fits
      by (simp add: BN_add_word.simps [of alloc a 0] BN_sub_word.simps [of alloc a 0] word_op_ok_def)
  next
    case w: False
    show ?thesis
    proof (cases "bn_top a = 0")
      case True
      then have z: "BN_is_zero a" "bn_int a = 0"
        using bn_ok_mag_0 [OF assms] BN_is_zero_iff [OF fits] by (auto simp: bn_int_def)
      have fb: "bn_fits b" using set fits bn_ok_fits by (cases ret) auto
      have neg: "ret \<Longrightarrow> bn_ok (BN_set_negative b 1) \<and> bn_int (BN_set_negative b 1) = - uint w"
        using BN_set_negative_ok [of b 1] set(3) uint_ge_0 [of w] by (auto simp: bn_mag_abs)
      have add: "BN_add_word alloc a w = Some (ret, b)"
        and sub: "BN_sub_word alloc a w = Some (ret, if ret then BN_set_negative b 1 else b)"
        using w z sw by (simp_all add: BN_add_word.simps [of alloc a w] BN_sub_word.simps [of alloc a w])
      show ?thesis using set fb neg z(2) unfolding add sub by (auto simp: word_op_ok_def dest: bn_ok_fits)
    next
      case False
      then have nz: "\<not> BN_is_zero a" using bn_ok_mag_0 [OF assms] BN_is_zero_iff [OF fits] by simp
      show ?thesis
      proof (cases "bn_neg a = 0")
        case True
        then show ?thesis using add_word_positive [OF assms] sub_word_positive [OF assms] False w by simp
      next
        case neg: False
        have "word_op_ok alloc (a\<lparr>bn_neg := 0\<rparr>) (BN_sub_word alloc (a\<lparr>bn_neg := 0\<rparr>) w) (bn_mag a - uint w)"
          "word_op_ok alloc (a\<lparr>bn_neg := 0\<rparr>) (BN_add_word alloc (a\<lparr>bn_neg := 0\<rparr>) w) (bn_mag a + uint w)"
          using sub_word_positive [OF bn_ok_abs [OF assms]] add_word_positive [OF bn_ok_abs [OF assms]] False w
          by (simp_all add: bn_int_abs)
        from word_op_negative [OF assms neg this(1)] word_op_negative [OF assms neg this(2)]
        show ?thesis using w nz neg
          by (simp add: BN_add_word.simps [of alloc a w] BN_sub_word.simps [of alloc a w] bn_int_def add.commute)
      qed
    qed
  qed
  then show "word_op_ok alloc a (BN_add_word alloc a w) (bn_int a + uint w)"
    and "word_op_ok alloc a (BN_sub_word alloc a w) (bn_int a - uint w)" by simp_all
qed

section \<open>Multiplication is exact\<close>

lemma BN_mul_word_ok:
  assumes "bn_ok a" "BN_mul_word alloc a w = (ret, a')"
  shows "ret \<Longrightarrow> bn_ok a' \<and> bn_int a' = bn_int a * uint w" and "can_expand alloc a (bn_top a + 1) \<Longrightarrow> ret"
proof -
  note fits = bn_ok_fits [OF assms(1)]
  have top: "bn_top a \<le> length (bn_d a)" by (rule bn_fits_top [OF fits])
  have "(ret \<longrightarrow> bn_ok a' \<and> bn_int a' = bn_int a * uint w) \<and> (can_expand alloc a (bn_top a + 1) \<longrightarrow> ret)"
  proof (cases "bn_top a = 0 \<or> w = 0")
    case True
    then show ?thesis using assms BN_zero_ok [OF fits] bn_ok_int_0 [OF assms(1)] by (auto simp: BN_mul_word_def)
  next
    case False
    obtain ll d where m: "bn_mul_words (bn_d a) (bn_d a) (bn_top a) w = (ll, d)" by fastforce
    note val = bn_mul_words_value [OF m top top]
    have ld: "length d = bn_dmax a" using wrote_length [OF val(1)] by (simp add: bn_dmax_def)
    have v: "bn_val (take (bn_top a) d) + 2 ^ (64 * bn_top a) * uint ll = bn_mag a * uint w"
      using val(2) by (simp add: bn_mag_def mult.commute)
    have "uint w \<noteq> 0" using False by (simp add: uint_0_iff)
    then have "1 \<le> uint w" using uint_ge_0 [of w] by linarith
    then have "bn_mag a * 1 \<le> bn_mag a * uint w" by (intro mult_left_mono) auto
    then have ge: "2 ^ (64 * (bn_top a - 1)) \<le> bn_mag a * uint w" using bn_ok_mag_ge [OF assms(1)] False by simp
    have neg: "bn_neg a = 0 \<or> bn_neg a = 1" by (rule bn_ok_neg_cases [OF assms(1)])
    define b where "b = a\<lparr>bn_d := d\<rparr>"
    have fb: "bn_fits b" using fits ld by (simp add: b_def bn_fits_def bn_dmax_def)
    show ?thesis
    proof (cases "ll = 0")
      case True
      then have "ret" "a' = b" using assms(2) False m by (simp_all add: BN_mul_word_def b_def)
      moreover have mag: "bn_mag b = bn_mag a * uint w" using v True by (simp add: b_def bn_mag_def)
      moreover have "bn_ok b" using fb neg False ge mag by (intro bn_okI) (auto simp: b_def)
      ultimately show ?thesis by (simp add: bn_int_def b_def)
    next
      case ll: False
      show ?thesis
      proof (cases "can_expand alloc a (bn_top a + 1)")
        case True
        then have "bn_wexpand alloc b (int (bn_top a + 1)) = (True, b\<lparr>bn_d := bn_d b @ replicate (bn_top a + 1 - bn_dmax b) 0\<rparr>)"
          using can_expand_d [OF ld, of alloc "bn_top a + 1"] unfolding bn_wexpand_eq b_def by simp
        then obtain x where x: "bn_wexpand alloc (a\<lparr>bn_d := d\<rparr>) (int (bn_top a) + 1) = (True, x)" "bn_top x = bn_top a"
          by (simp add: b_def add.commute)
        define y where "y = x\<lparr>bn_top := bn_top a + 1, bn_d := (bn_d x)[bn_top a := ll]\<rparr>"
        note ac = append_carry [OF fits ld v x(1) ll y_def]
        have r: "ret" "a' = y" using assms(2) False m ll x by (auto simp: BN_mul_word_def y_def)
        have "bn_ok y" using ac neg by (intro bn_okI) (auto simp: y_def)
        then show ?thesis using r ac by (simp add: bn_int_def)
      next
        case cannot: False
        then have "bn_wexpand alloc b (int (bn_top a + 1)) = (False, b)"
          using can_expand_d [OF ld, of alloc "bn_top a + 1"] unfolding bn_wexpand_eq b_def by simp
        then show ?thesis using assms(2) False m ll cannot by (simp add: BN_mul_word_def b_def add.commute)
      qed
    qed
  qed
  then show "ret \<Longrightarrow> bn_ok a' \<and> bn_int a' = bn_int a * uint w" and "can_expand alloc a (bn_top a + 1) \<Longrightarrow> ret" by auto
qed

text \<open>The choice of the multiplication routine.\<close>

definition mul_words_array :: "bignum \<Rightarrow> bignum \<Rightarrow> bignum \<Rightarrow> bignum" where
  "mul_words_array rr a b =
     (if bn_top a = 4 \<and> bn_top b = 4 then rr\<lparr>bn_d := bn_mul_comba4 (bn_d rr) (bn_d a) (bn_d b)\<rparr>
      else if bn_top a = 8 \<and> bn_top b = 8 then rr\<lparr>bn_d := bn_mul_comba8 (bn_d rr) (bn_d a) (bn_d b)\<rparr>
      else bn_mul rr a b)"

lemma mul_words_array_value:
  assumes "bn_fits a" "bn_fits b" "bn_top a > 0" "bn_top b > 0" "bn_top a + bn_top b \<le> bn_dmax rr" "bn_fits rr"
    and "x = (mul_words_array rr a b)\<lparr>bn_top := bn_top a + bn_top b\<rparr>"
  shows "bn_fits x" "bn_mag x = bn_mag a * bn_mag b"
proof -
  have top: "bn_top a \<le> length (bn_d a)" "bn_top b \<le> length (bn_d b)" using assms(1,2) bn_fits_top by auto
  define d where "d = bn_d (mul_words_array rr a b)"
  have len: "bn_top a + bn_top b \<le> length (bn_d rr)" using assms(5) by (simp add: bn_dmax_def)
  have "length d = length (bn_d rr) \<and>
      bn_val (take (bn_top a + bn_top b) d) = bn_val (take (bn_top a) (bn_d a)) * bn_val (take (bn_top b) (bn_d b))"
    using bn_mul_comba4_value [of "bn_d a" "bn_d b" "bn_d rr"] bn_mul_comba8_value [of "bn_d a" "bn_d b" "bn_d rr"]
      bn_mul_normal_value [OF top len assms(3,4)] top len
    by (auto simp: d_def mul_words_array_def bn_mul_def)
  then show "bn_fits x" "bn_mag x = bn_mag a * bn_mag b"
    using assms(5,6) by (simp_all add: assms(7) d_def bn_fits_def bn_dmax_def bn_mag_def)
qed

lemma BN_mul_ok:
  assumes "bn_fits r" "bn_ok a" "bn_ok b" "\<And>t. same \<Longrightarrow> tmp = Some t \<Longrightarrow> bn_fits t"
    and "BN_mul alloc same tmp r a b = (ret, r')"
  shows "ret \<Longrightarrow> bn_ok r' \<and> bn_int r' = bn_int a * bn_int b" and "\<not> ret \<Longrightarrow> r' = r"
    and "(if same then \<exists>t. tmp = Some t \<and> can_expand alloc t (bn_top a + bn_top b) \<and> (\<forall>k \<le> bn_top a + bn_top b. can_expand alloc r k)
          else can_expand alloc r (bn_top a + bn_top b)) \<Longrightarrow> ret"
proof -
  define n where "n = bn_top a + bn_top b"
  note fa = bn_ok_fits [OF assms(2)] and fb = bn_ok_fits [OF assms(3)]
  have "(ret \<longrightarrow> bn_ok r' \<and> bn_int r' = bn_int a * bn_int b) \<and> (\<not> ret \<longrightarrow> r' = r) \<and>
    ((if same then \<exists>t. tmp = Some t \<and> can_expand alloc t n \<and> (\<forall>k \<le> n. can_expand alloc r k) else can_expand alloc r n) \<longrightarrow> ret)"
  proof (cases "bn_top a = 0 \<or> bn_top b = 0")
    case True
    then have "bn_int a * bn_int b = 0" using bn_ok_int_0 [OF assms(2)] bn_ok_int_0 [OF assms(3)] by auto
    moreover have "BN_is_zero a \<or> BN_is_zero b"
      using True bn_ok_mag_0 [OF assms(2)] bn_ok_mag_0 [OF assms(3)] by (auto simp: BN_is_zero_iff fa fb)
    then have "ret" "r' = BN_zero r" using assms(5) by (auto simp: BN_mul_def)
    ultimately show ?thesis using BN_zero_ok [OF assms(1)] by simp
  next
    case False
    then have nz: "\<not> (BN_is_zero a \<or> BN_is_zero b)"
      using bn_ok_mag_0 [OF assms(2)] bn_ok_mag_0 [OF assms(3)] by (auto simp: BN_is_zero_iff fa fb)
    define src where "src = (if same then tmp else Some r)"
    have fs: "src = Some t \<Longrightarrow> bn_fits t" for t using assms(1,4) by (auto simp: src_def split: if_splits)
    define fin where "fin x = BN_set_negative (bn_correct_top ((mul_words_array x a b)\<lparr>bn_top := n\<rparr>)) (bn_neg a XOR bn_neg b)" for x
    have nl: "\<not> n < bn_top a" by (simp add: n_def)
    have eq: "(ret, r') = (case src of None \<Rightarrow> (False, r) | Some t \<Rightarrow>
        (case bn_wexpand alloc t (int n) of (False, _) \<Rightarrow> (False, r)
         | (True, x) \<Rightarrow> (if same then BN_copy alloc r (fin x) else (True, fin x))))"
      using assms(5) nz unfolding BN_mul_def Let_def n_def [symmetric] src_def [symmetric] fin_def mul_words_array_def
      by (simp only: if_False nl)
    show ?thesis
    proof (cases "\<exists>t. src = Some t \<and> can_expand alloc t n")
      case True
      then obtain t where t: "src = Some t" "can_expand alloc t n" by blast
      then obtain x where x: "bn_wexpand alloc t (int n) = (True, x)" by (simp add: bn_wexpand_eq)
      note X = bn_wexpand_ok [OF x fs [OF t(1)]]
      note prod = mul_words_array_value [OF fa fb _ _ X(2) [unfolded n_def] X(1) refl, folded n_def]
      have neg: "bn_neg a XOR bn_neg b \<in> {0, 1}" using bn_ok_neg_cases [OF assms(2)] bn_ok_neg_cases [OF assms(3)] by auto
      have fin: "bn_ok (fin x)" "bn_int (fin x) = bn_int a * bn_int b"
        using bn_normal_ok [OF prod(1) neg] prod(2) False bn_ok_neg_cases [OF assms(2)] bn_ok_neg_cases [OF assms(3)]
        by (auto simp: fin_def bn_int_def)
      show ?thesis
      proof (cases same)
        case False
        then have "ret" "r' = fin x" using eq t x by simp_all
        then show ?thesis using fin by simp
      next
        case True
        then have copy: "BN_copy alloc r (fin x) = (ret, r')" using eq t x by simp
        note c = BN_copy_correct [OF assms(1) fin(1) copy]
        have "bn_top (fin x) \<le> n"
          using neg correct_top_loop_props [of n "bn_d (mul_words_array x a b)"] bn_fits_top [OF prod(1)] False
          by (simp add: fin_def BN_set_negative_def bn_correct_top_def)
        then show ?thesis using c fin True by auto
      qed
    next
      case no: False
      then have "ret = False" "r' = r"
        using eq by (auto simp: bn_wexpand_eq split: option.splits if_splits)
      then show ?thesis using no by (auto simp: src_def)
    qed
  qed
  then show "ret \<Longrightarrow> bn_ok r' \<and> bn_int r' = bn_int a * bn_int b" and "\<not> ret \<Longrightarrow> r' = r"
    and "(if same then \<exists>t. tmp = Some t \<and> can_expand alloc t (bn_top a + bn_top b) \<and> (\<forall>k \<le> bn_top a + bn_top b. can_expand alloc r k)
          else can_expand alloc r (bn_top a + bn_top b)) \<Longrightarrow> ret"
    by (auto simp: n_def)
qed

end
