(* ===== verification/BN_Program.thy ===== *)
theory BN_Program
  imports BN_Arith
begin

text \<open>
  Sequences of BIGNUM calls.  A program is a list of calls on numbered variables,
  which may coincide (the result may be an operand); it gives up at the first call
  that fails, as the callers in the library do.  The locale \<open>exact_calls\<close> states
  what the BIGNUM functions promise for one call, and shows that a program then
  computes what the same program computes on integers; \<open>live_calls\<close> adds when a
  call succeeds.
\<close>

section \<open>Calls\<close>

datatype bn_call =
    Add nat nat nat | Sub nat nat nat | Mul nat nat nat
  | Lshift nat nat nat | Rshift nat nat nat
  | Add_word nat bn_word | Sub_word nat bn_word | Mul_word nat bn_word
  | Copy nat nat | Set_word nat bn_word | Set_bit nat nat | Clear_bit nat nat | Mask_bits nat nat
  | Zero nat | Negate nat

type_synonym bn_vars = "nat \<Rightarrow> bignum"

definition store :: "bn_vars \<Rightarrow> nat \<Rightarrow> bool \<times> bignum \<Rightarrow> bool \<times> bn_vars" where
  "store s r res = (fst res, s(r := snd res))"

text \<open>
  One call; \<open>ctx\<close> is what \<open>BN_CTX_get\<close> returns.  \<open>None\<close> as the result of a word
  operation, an access outside the array, counts as a failure here (it does not
  happen for well-formed numbers).
\<close>

fun bn_exec :: "(nat \<Rightarrow> bool) \<Rightarrow> bignum option \<Rightarrow> bn_call \<Rightarrow> bn_vars \<Rightarrow> bool \<times> bn_vars" where
  "bn_exec alloc ctx (Add r a b) s = store s r (BN_add alloc (s r) (s a) (s b))"
| "bn_exec alloc ctx (Sub r a b) s = store s r (BN_sub alloc (s r) (s a) (s b))"
| "bn_exec alloc ctx (Mul r a b) s = store s r (BN_mul alloc (r = a \<or> r = b) ctx (s r) (s a) (s b))"
| "bn_exec alloc ctx (Lshift r a n) s = store s r (BN_lshift alloc (s r) (s a) (int n))"
| "bn_exec alloc ctx (Rshift r a n) s = store s r (BN_rshift alloc (s r) (s a) (int n))"
| "bn_exec alloc ctx (Add_word r w) s =
     (case BN_add_word alloc (s r) w of None \<Rightarrow> (False, s) | Some res \<Rightarrow> store s r res)"
| "bn_exec alloc ctx (Sub_word r w) s =
     (case BN_sub_word alloc (s r) w of None \<Rightarrow> (False, s) | Some res \<Rightarrow> store s r res)"
| "bn_exec alloc ctx (Mul_word r w) s = store s r (BN_mul_word alloc (s r) w)"
| "bn_exec alloc ctx (Copy r a) s = (if r = a then (True, s) else store s r (BN_copy alloc (s r) (s a)))"
| "bn_exec alloc ctx (Set_word r w) s = store s r (BN_set_word alloc (s r) w)"
| "bn_exec alloc ctx (Set_bit r n) s = store s r (BN_set_bit alloc (s r) (int n))"
| "bn_exec alloc ctx (Clear_bit r n) s = store s r (BN_clear_bit (s r) (int n))"
| "bn_exec alloc ctx (Mask_bits r n) s = store s r (BN_mask_bits (s r) (int n))"
| "bn_exec alloc ctx (Zero r) s = store s r (True, BN_zero (s r))"
| "bn_exec alloc ctx (Negate r) s = store s r (True, BN_set_negative (s r) (of_bool (\<not> BN_is_negative (s r))))"

text \<open>The same call on integers.\<close>

fun int_exec :: "bn_call \<Rightarrow> (nat \<Rightarrow> int) \<Rightarrow> nat \<Rightarrow> int" where
  "int_exec (Add r a b) v = v(r := v a + v b)"
| "int_exec (Sub r a b) v = v(r := v a - v b)"
| "int_exec (Mul r a b) v = v(r := v a * v b)"
| "int_exec (Lshift r a n) v = v(r := v a * 2 ^ n)"
| "int_exec (Rshift r a n) v = v(r := sgn (v a) * (\<bar>v a\<bar> div 2 ^ n))"
| "int_exec (Add_word r w) v = v(r := v r + uint w)"
| "int_exec (Sub_word r w) v = v(r := v r - uint w)"
| "int_exec (Mul_word r w) v = v(r := v r * uint w)"
| "int_exec (Copy r a) v = v(r := v a)"
| "int_exec (Set_word r w) v = v(r := uint w)"
| "int_exec (Set_bit r n) v = v(r := (if v r < 0 then - set_bit n \<bar>v r\<bar> else set_bit n \<bar>v r\<bar>))"
| "int_exec (Clear_bit r n) v = v(r := sgn (v r) * unset_bit n \<bar>v r\<bar>)"
| "int_exec (Mask_bits r n) v = v(r := sgn (v r) * take_bit n \<bar>v r\<bar>)"
| "int_exec (Zero r) v = v(r := 0)"
| "int_exec (Negate r) v = v(r := - v r)"

section \<open>Programs over an exact interface\<close>

fun run :: "('c \<Rightarrow> 's \<Rightarrow> bool \<times> 's) \<Rightarrow> 'c list \<Rightarrow> 's \<Rightarrow> 's option" where
  "run exec [] s = Some s"
| "run exec (c # cs) s = (case exec c s of (ret, s) \<Rightarrow> if ret then run exec cs s else None)"

fun ideal :: "('c \<Rightarrow> 'v \<Rightarrow> 'v) \<Rightarrow> 'c list \<Rightarrow> 'v \<Rightarrow> 'v" where
  "ideal step [] v = v"
| "ideal step (c # cs) v = ideal step cs (step c v)"

text \<open>\<open>fits v c\<close> says that the values before the call are small enough for it.\<close>

fun ideal_fits :: "('c \<Rightarrow> 'v \<Rightarrow> 'v) \<Rightarrow> ('v \<Rightarrow> 'c \<Rightarrow> bool) \<Rightarrow> 'c list \<Rightarrow> 'v \<Rightarrow> bool" where
  "ideal_fits step fits [] v \<longleftrightarrow> True"
| "ideal_fits step fits (c # cs) v \<longleftrightarrow> fits v c \<and> ideal_fits step fits cs (step c v)"

locale exact_calls =
  fixes exec :: "'c \<Rightarrow> 's \<Rightarrow> bool \<times> 's" and step :: "'c \<Rightarrow> 'v \<Rightarrow> 'v"
    and ok :: "'s \<Rightarrow> bool" and abst :: "'s \<Rightarrow> 'v"
  assumes exact: "ok s \<Longrightarrow> exec c s = (True, s') \<Longrightarrow> ok s' \<and> abst s' = step c (abst s)"
begin

lemma run_exact: "ok s \<Longrightarrow> run exec cs s = Some s' \<Longrightarrow> ok s' \<and> abst s' = ideal step cs (abst s)"
proof (induction cs arbitrary: s)
  case (Cons c cs)
  obtain t where t: "exec c s = (True, t)" "run exec cs t = Some s'"
    using Cons.prems(2) by (auto split: prod.splits if_splits)
  then show ?case using exact [OF Cons.prems(1) t(1)] Cons.IH [OF _ t(2)] by simp
qed simp

end

locale live_calls = exact_calls exec step ok abst
  for exec :: "'c \<Rightarrow> 's \<Rightarrow> bool \<times> 's" and step :: "'c \<Rightarrow> 'v \<Rightarrow> 'v" and ok abst +
  fixes fits :: "'v \<Rightarrow> 'c \<Rightarrow> bool"
  assumes live: "ok s \<Longrightarrow> fits (abst s) c \<Longrightarrow> fst (exec c s)"
begin

lemma run_succeeds:
  "ok s \<Longrightarrow> ideal_fits step fits cs (abst s) \<Longrightarrow> \<exists>s'. run exec cs s = Some s'"
proof (induction cs arbitrary: s)
  case (Cons c cs)
  obtain t where t: "exec c s = (True, t)" using live [of s c] Cons.prems by (cases "exec c s") auto
  then have "ok t" "abst t = step c (abst s)" using exact [OF Cons.prems(1) t] by simp_all
  then show ?case using Cons.IH [of t] Cons.prems(2) t by simp
qed simp

end

section \<open>The BIGNUM calls are exact\<close>

definition bn_dynamic :: "bignum \<Rightarrow> bool" where
  "bn_dynamic bn \<longleftrightarrow> bn_flags bn AND BN_FLG_STATIC_DATA = 0"

definition vars_ok :: "bignum option \<Rightarrow> bn_vars \<Rightarrow> bool" where
  "vars_ok ctx s \<longleftrightarrow> (\<forall>i. bn_ok (s i) \<and> bn_dynamic (s i)) \<and> (\<forall>t. ctx = Some t \<longrightarrow> bn_fits t \<and> bn_dynamic t)"

definition vals :: "bn_vars \<Rightarrow> nat \<Rightarrow> int" where
  "vals s i = bn_int (s i)"

text \<open>No call makes the storage of a number static.\<close>

lemma bn_wexpand_flags: "bn_wexpand alloc bn n = (ret, bn') \<Longrightarrow> bn_flags bn' = bn_flags bn"
  by (auto simp: bn_wexpand_def bn_expand_internal_def split: if_splits option.splits)

lemma BN_set_negative_flags [simp]: "bn_flags (BN_set_negative bn neg) = bn_flags bn"
  by (simp add: BN_set_negative_def)

lemma BN_zero_flags [simp]: "bn_flags (BN_zero bn) = bn_flags bn"
  by (simp add: BN_zero_def)

lemma uadd_usub_flags:
  "BN_uadd alloc r a b = (ret, r') \<Longrightarrow> bn_flags r' = bn_flags r"
  "BN_usub alloc r a b = (ret, r') \<Longrightarrow> bn_flags r' = bn_flags r"
  by (auto simp: BN_uadd_def BN_usub_def Let_def split: if_splits prod.splits bool.splits dest!: bn_wexpand_flags)

lemma add_sub_flags:
  "BN_add alloc r a b = (ret, r') \<Longrightarrow> bn_flags r' = bn_flags r"
  "BN_sub alloc r a b = (ret, r') \<Longrightarrow> bn_flags r' = bn_flags r"
  by (auto simp: BN_add_def BN_sub_def Let_def split: if_splits prod.splits dest!: uadd_usub_flags)

lemma shift_flags:
  "bn_lshift alloc r a n = (ret, r') \<Longrightarrow> bn_flags r' = bn_flags r"
  "bn_rshift alloc r a n = (ret, r') \<Longrightarrow> bn_flags r' = bn_flags r"
  by (auto simp: bn_lshift_def bn_rshift_def Let_def split: if_splits prod.splits bool.splits dest!: bn_wexpand_flags)

lemma set_word_flags: "BN_set_word alloc a w = (ret, a') \<Longrightarrow> bn_flags a' = bn_flags a"
  by (auto simp: BN_set_word_def split: prod.splits bool.splits dest!: bn_wexpand_flags)

lemma add_sub_word_flags:
  "BN_add_word alloc a w = Some (ret, a') \<Longrightarrow> bn_flags a' = bn_flags a"
  "BN_sub_word alloc a w = Some (ret, a') \<Longrightarrow> bn_flags a' = bn_flags a"
proof (induction alloc a w and alloc a w arbitrary: ret a' and ret a' rule: BN_add_word_BN_sub_word.induct)
  case (1 alloc a w)
  from "1.prems" show ?case
    by (subst (asm) BN_add_word.simps)
      (auto split: if_splits option.splits prod.splits bool.splits dest!: bn_wexpand_flags "1.IH" dest: set_word_flags simp: Let_def)
next
  case (2 alloc a w)
  from "2.prems" show ?case
    by (subst (asm) BN_sub_word.simps)
      (auto split: if_splits option.splits prod.splits bool.splits dest!: "2.IH" dest: set_word_flags simp: Let_def)
qed

lemma mul_word_flags: "BN_mul_word alloc a w = (ret, a') \<Longrightarrow> bn_flags a' = bn_flags a"
  by (auto simp: BN_mul_word_def Let_def split: if_splits prod.splits bool.splits dest!: bn_wexpand_flags)

lemma copy_dynamic: "BN_copy alloc a b = (ret, a') \<Longrightarrow> bn_dynamic a \<Longrightarrow> bn_dynamic a'"
proof -
  have "(f OR (g AND BN_FLG_CONSTTIME)) AND BN_FLG_STATIC_DATA = f AND BN_FLG_STATIC_DATA" for f g :: int
    by (simp add: bit.conj_disj_distrib2 and.assoc BN_FLG_CONSTTIME_def BN_FLG_STATIC_DATA_def)
  then show "BN_copy alloc a b = (ret, a') \<Longrightarrow> bn_dynamic a \<Longrightarrow> bn_dynamic a'"
    by (auto simp: BN_copy_def bn_dynamic_def split: prod.splits bool.splits dest!: bn_wexpand_flags)
qed

lemma bits_flags:
  "BN_set_bit alloc a n = (ret, a') \<Longrightarrow> bn_flags a' = bn_flags a"
  "BN_clear_bit a n = (ret, a') \<Longrightarrow> bn_flags a' = bn_flags a"
  "BN_mask_bits a n = (ret, a') \<Longrightarrow> bn_flags a' = bn_flags a"
  by (auto simp: BN_set_bit_def BN_clear_bit_def BN_mask_bits_def Let_def split: if_splits prod.splits bool.splits dest!: bn_wexpand_flags)

lemma mul_dynamic:
  assumes "BN_mul alloc same tmp r a b = (ret, r')" "bn_dynamic r" "\<And>t. tmp = Some t \<Longrightarrow> bn_dynamic t"
  shows "bn_dynamic r'"
proof -
  have f: "bn_flags (bn_mul x a b) = bn_flags x" for x by (simp add: bn_mul_def)
  show ?thesis using assms
    by (auto simp: BN_mul_def Let_def bn_dynamic_def f split: if_splits option.splits prod.splits bool.splits
        dest!: bn_wexpand_flags dest: copy_dynamic [unfolded bn_dynamic_def])
qed

text \<open>Storing a good result.\<close>

lemma vars_ok_store:
  assumes "vars_ok ctx s" "bn_ok x" "bn_dynamic x"
  shows "vars_ok ctx (s(r := x))" "vals (s(r := x)) = (vals s)(r := bn_int x)"
  using assms by (auto simp: vars_ok_def vals_def fun_eq_iff)

lemma vars_okD: "vars_ok ctx s \<Longrightarrow> bn_ok (s i) \<and> bn_fits (s i) \<and> bn_dynamic (s i)"
  by (auto simp: vars_ok_def intro: bn_ok_fits)

lemma store_exact:
  assumes "vars_ok ctx s" "store s r (ret, x) = (True, s')"
    and "ret \<Longrightarrow> bn_ok x \<and> bn_int x = v" "bn_dynamic x"
  shows "vars_ok ctx s' \<and> vals s' = (vals s)(r := v)"
  using assms vars_ok_store [OF assms(1), of x r] by (auto simp: store_def)

lemma bn_exec_exact:
  assumes "vars_ok ctx s" "bn_exec alloc ctx c s = (True, s')"
  shows "vars_ok ctx s' \<and> vals s' = int_exec c (vals s)"
proof -
  have ok: "bn_ok (s i)" "bn_fits (s i)" "bn_dynamic (s i)" for i using vars_okD [OF assms(1)] by auto
  have dyn: "bn_flags x = bn_flags (s r) \<Longrightarrow> bn_dynamic x" for x r using ok(3) [of r] by (simp add: bn_dynamic_def)
  note st = store_exact [OF assms(1)]
  show ?thesis
  proof (cases c)
    case (Add r a b)
    obtain ret x where x: "BN_add alloc (s r) (s a) (s b) = (ret, x)" by fastforce
    show ?thesis using st [of r ret x s' "bn_int (s a) + bn_int (s b)"] assms(2) x dyn [OF add_sub_flags(1) [OF x]]
      BN_add_ok [OF ok(2) [of r] ok(1) [of a] ok(1) [of b], of alloc] by (auto simp: Add vals_def bn_op_ok_def)
  next
    case (Sub r a b)
    obtain ret x where x: "BN_sub alloc (s r) (s a) (s b) = (ret, x)" by fastforce
    show ?thesis using st [of r ret x s' "bn_int (s a) - bn_int (s b)"] assms(2) x dyn [OF add_sub_flags(2) [OF x]]
      BN_sub_ok [OF ok(2) [of r] ok(1) [of a] ok(1) [of b], of alloc] by (auto simp: Sub vals_def bn_op_ok_def)
  next
    case (Mul r a b)
    obtain ret x where x: "BN_mul alloc (r = a \<or> r = b) ctx (s r) (s a) (s b) = (ret, x)" by fastforce
    have ctx: "ctx = Some t \<Longrightarrow> bn_fits t \<and> bn_dynamic t" for t using assms(1) by (simp add: vars_ok_def)
    show ?thesis using st [of r ret x s' "bn_int (s a) * bn_int (s b)"] assms(2) x mul_dynamic [OF x ok(3)] ctx
      BN_mul_ok(1) [OF ok(2) [of r] ok(1) [of a] ok(1) [of b] _ x] by (auto simp: Mul vals_def)
  next
    case (Lshift r a n)
    obtain ret x where x: "bn_lshift alloc (s r) (s a) (int n) = (ret, x)" by fastforce
    show ?thesis using st [of r ret x s' "bn_int (s a) * 2 ^ n"] assms(2) x dyn [OF shift_flags(1) [OF x]]
      bn_lshift_ok [OF ok(2) [of r] ok(1) [of a], of "int n" alloc] by (auto simp: Lshift vals_def BN_lshift_def bn_op_ok_def)
  next
    case (Rshift r a n)
    obtain ret x where x: "bn_rshift alloc (s r) (s a) (int n) = (ret, x)" by fastforce
    show ?thesis using st [of r ret x s' "sgn (bn_int (s a)) * (bn_mag (s a) div 2 ^ n)"] assms(2) x dyn [OF shift_flags(2) [OF x]]
      bn_rshift_ok [OF ok(2) [of r] ok(1) [of a], of "int n" alloc] by (auto simp: Rshift vals_def BN_rshift_def bn_mag_abs bn_op_ok_def)
  next
    case (Add_word r w)
    obtain ret x where x: "BN_add_word alloc (s r) w = Some (ret, x)"
      using BN_add_sub_word_ok(1) [OF ok(1) [of r], of alloc w] by (auto simp: word_op_ok_def split: option.splits)
    show ?thesis using st [of r ret x s' "bn_int (s r) + uint w"] assms(2) x dyn [OF add_sub_word_flags(1) [OF x]]
      BN_add_sub_word_ok(1) [OF ok(1) [of r], of alloc w] by (auto simp: Add_word vals_def word_op_ok_def)
  next
    case (Sub_word r w)
    obtain ret x where x: "BN_sub_word alloc (s r) w = Some (ret, x)"
      using BN_add_sub_word_ok(2) [OF ok(1) [of r], of alloc w] by (auto simp: word_op_ok_def split: option.splits)
    show ?thesis using st [of r ret x s' "bn_int (s r) - uint w"] assms(2) x dyn [OF add_sub_word_flags(2) [OF x]]
      BN_add_sub_word_ok(2) [OF ok(1) [of r], of alloc w] by (auto simp: Sub_word vals_def word_op_ok_def)
  next
    case (Mul_word r w)
    obtain ret x where x: "BN_mul_word alloc (s r) w = (ret, x)" by fastforce
    show ?thesis using st [of r ret x s' "bn_int (s r) * uint w"] assms(2) x dyn [OF mul_word_flags [OF x]]
      BN_mul_word_ok(1) [OF ok(1) x] by (auto simp: Mul_word vals_def)
  next
    case (Copy r a)
    obtain ret x where x: "BN_copy alloc (s r) (s a) = (ret, x)" by fastforce
    show ?thesis using st [of r ret x s' "bn_int (s a)"] assms x copy_dynamic [OF x ok(3)]
      BN_copy_correct(3) [OF ok(2,1) x] by (cases "r = a") (auto simp: Copy vals_def)
  next
    case (Set_word r w)
    obtain ret x where x: "BN_set_word alloc (s r) w = (ret, x)" by fastforce
    show ?thesis using st [of r ret x s' "uint w"] assms(2) x dyn [OF set_word_flags [OF x]]
      BN_set_word_correct(3) [OF ok(2) x] by (auto simp: Set_word vals_def)
  next
    case (Set_bit r n)
    obtain ret x where x: "BN_set_bit alloc (s r) (int n) = (ret, x)" by fastforce
    have "bn_int (s r) < 0 \<longleftrightarrow> bn_neg (s r) \<noteq> 0" using bn_ok_neg [OF ok(1) [of r]] by auto
    then have "ret \<Longrightarrow> bn_ok x \<and> bn_int x = (if bn_int (s r) < 0 then - set_bit n (bn_mag (s r)) else set_bit n (bn_mag (s r)))"
      using BN_set_bit_correct(2) [OF ok(1) _ x] by (simp add: bn_int_def [of x])
    then show ?thesis using st [of r ret x s' "if bn_int (s r) < 0 then - set_bit n (bn_mag (s r)) else set_bit n (bn_mag (s r))"]
      assms(2) x dyn [OF bits_flags(1) [OF x]] by (auto simp: Set_bit vals_def bn_mag_abs)
  next
    case (Clear_bit r n)
    obtain ret x where x: "BN_clear_bit (s r) (int n) = (ret, x)" by fastforce
    show ?thesis using st [of r ret x s' "sgn (bn_int (s r)) * unset_bit n (bn_mag (s r))"] assms(2) x dyn [OF bits_flags(2) [OF x]]
      BN_clear_bit_correct(2) [OF ok(1) _ x] by (auto simp: Clear_bit vals_def bn_mag_abs)
  next
    case (Mask_bits r n)
    obtain ret x where x: "BN_mask_bits (s r) (int n) = (ret, x)" by fastforce
    show ?thesis using st [of r ret x s' "sgn (bn_int (s r)) * take_bit n (bn_mag (s r))"] assms(2) x dyn [OF bits_flags(3) [OF x]]
      BN_mask_bits_correct(2) [OF ok(1) _ x] by (auto simp: Mask_bits vals_def bn_mag_abs)
  next
    case (Zero r)
    show ?thesis using st [of r True "BN_zero (s r)" s' 0] assms(2) BN_zero_ok [OF ok(2)] dyn [of "BN_zero (s r)" r] by (auto simp: Zero vals_def)
  next
    case (Negate r)
    define x where "x = BN_set_negative (s r) (of_bool (\<not> BN_is_negative (s r)))"
    have "bn_ok x \<and> bn_int x = - bn_int (s r)"
      using BN_set_negative_ok [OF ok(1) [of r], of "of_bool (\<not> BN_is_negative (s r))"] by (simp add: x_def BN_is_negative_def bn_int_def)
    then show ?thesis using st [of r True x s' "- bn_int (s r)"] assms(2) dyn [of x r] by (auto simp: Negate vals_def x_def)
  qed
qed

interpretation bn: exact_calls "bn_exec alloc ctx" int_exec "vars_ok ctx" vals for alloc ctx
  by unfold_locales (rule bn_exec_exact)

section \<open>When calls succeed\<close>

text \<open>
  Numbers below \<open>2 ^ (64 * BN_LIMIT)\<close> are small enough for every operation: the
  product of two of them stays within \<open>BN_MAX_WORDS\<close> words.
\<close>

definition BN_LIMIT :: nat where "BN_LIMIT = 4000000"

definition small :: "int \<Rightarrow> bool" where
  "small x \<longleftrightarrow> \<bar>x\<bar> < 2 ^ (64 * BN_LIMIT)"

fun call_fits :: "(nat \<Rightarrow> int) \<Rightarrow> bn_call \<Rightarrow> bool" where
  "call_fits v (Add r a b) \<longleftrightarrow> small (v a) \<and> small (v b)"
| "call_fits v (Sub r a b) \<longleftrightarrow> small (v a) \<and> small (v b)"
| "call_fits v (Mul r a b) \<longleftrightarrow> small (v a) \<and> small (v b)"
| "call_fits v (Lshift r a n) \<longleftrightarrow> small (v a) \<and> n < 64 * BN_LIMIT"
| "call_fits v (Rshift r a n) \<longleftrightarrow> small (v a)"
| "call_fits v (Add_word r w) \<longleftrightarrow> small (v r)"
| "call_fits v (Sub_word r w) \<longleftrightarrow> small (v r)"
| "call_fits v (Mul_word r w) \<longleftrightarrow> small (v r)"
| "call_fits v (Copy r a) \<longleftrightarrow> small (v a)"
| "call_fits v (Set_word r w) \<longleftrightarrow> True"
| "call_fits v (Set_bit r n) \<longleftrightarrow> n < 64 * BN_LIMIT"
| "call_fits v (Clear_bit r n) \<longleftrightarrow> 2 ^ (64 * (n div 64)) \<le> \<bar>v r\<bar>"
| "call_fits v (Mask_bits r n) \<longleftrightarrow> 2 ^ (64 * (n div 64)) \<le> \<bar>v r\<bar>"
| "call_fits v (Zero r) \<longleftrightarrow> True"
| "call_fits v (Negate r) \<longleftrightarrow> True"

definition memory_ok :: "(nat \<Rightarrow> bool) \<Rightarrow> bignum option \<Rightarrow> bool" where
  "memory_ok alloc ctx \<longleftrightarrow> (\<forall>n \<le> BN_MAX_WORDS * 8. alloc n) \<and> ctx \<noteq> None"

lemma small_mono: "\<bar>x\<bar> < 2 ^ 64 \<Longrightarrow> small x"
proof -
  assume "\<bar>x\<bar> < 2 ^ 64"
  also have "(2 :: int) ^ 64 = 2 ^ (64 * 1)" by simp
  also have "\<dots> \<le> 2 ^ (64 * BN_LIMIT)" by (rule power_increasing) (simp_all add: BN_LIMIT_def)
  finally show ?thesis by (simp add: small_def)
qed

lemma top_less_of_mag:
  assumes "bn_ok a" "\<bar>bn_int a\<bar> < 2 ^ (64 * n)"
  shows "bn_top a \<le> n"
proof (rule ccontr)
  assume "\<not> bn_top a \<le> n"
  then have "(2 :: int) ^ (64 * n) \<le> 2 ^ (64 * (bn_top a - 1))" by (intro power_increasing) auto
  also have "\<dots> \<le> bn_mag a" using bn_ok_mag_ge [OF assms(1)] \<open>\<not> bn_top a \<le> n\<close> by simp
  finally show False using assms(2) by (simp add: bn_mag_abs)
qed

lemma top_greater_of_mag:
  assumes "bn_ok a" "2 ^ (64 * n) \<le> \<bar>bn_int a\<bar>"
  shows "n < bn_top a"
proof (rule ccontr)
  assume "\<not> n < bn_top a"
  then have "(2 :: int) ^ (64 * bn_top a) \<le> 2 ^ (64 * n)" by (intro power_increasing) auto
  moreover have "\<bar>bn_int a\<bar> < 2 ^ (64 * bn_top a)" using bn_mag_less [OF bn_ok_fits [OF assms(1)]] by (simp only: bn_mag_abs)
  ultimately show False using assms(2) by linarith
qed

lemma bn_exec_live:
  assumes "vars_ok ctx s" "memory_ok alloc ctx" "call_fits (vals s) c"
  shows "fst (bn_exec alloc ctx c s)"
proof -
  have ok: "bn_ok (s i)" "bn_fits (s i)" "bn_dynamic (s i)" for i using vars_okD [OF assms(1)] by auto
  have can: "can_expand alloc x n" if "bn_dynamic x" "n \<le> BN_MAX_WORDS" for x n
    using that assms(2) by (simp add: can_expand_def bn_dynamic_def memory_ok_def)
  have top: "bn_top (s i) \<le> BN_LIMIT" if "small (vals s i)" for i
    using top_less_of_mag [OF ok(1)] that by (simp add: small_def vals_def)
  have lim: "2 * BN_LIMIT + 1 \<le> BN_MAX_WORDS" by (simp add: BN_LIMIT_def BN_MAX_WORDS_def)
  have canr: "can_expand alloc (s r) k" if "k \<le> BN_MAX_WORDS" for r k by (rule can [OF ok(3) that])
  have op: "fst res" if "bn_op_ok alloc (s r) n res v" "n \<le> BN_MAX_WORDS" for r n res v
    using that canr [of _ r] by (auto simp: bn_op_ok_def split: prod.splits)
  have wop: "fst (case res of None \<Rightarrow> (False, s) | Some res \<Rightarrow> store s r res)"
    if "word_op_ok alloc (s r) res v" "bn_top (s r) \<le> BN_LIMIT" for res v r
  proof -
    have "can_expand alloc (s r) 1 \<and> can_expand alloc (s r) (bn_top (s r) + 1)"
      using that(2) lim by (auto intro!: canr)
    then show ?thesis using that(1) by (auto simp: word_op_ok_def store_def split: option.splits)
  qed
  show ?thesis
  proof (cases c)
    case (Add r a b)
    then show ?thesis using op [OF BN_add_ok [OF ok(2) [of r] ok(1) [of a] ok(1) [of b], of alloc]] top [of a] top [of b] assms(3) lim
      by (auto simp: store_def)
  next
    case (Sub r a b)
    then show ?thesis using op [OF BN_sub_ok [OF ok(2) [of r] ok(1) [of a] ok(1) [of b], of alloc]] top [of a] top [of b] assms(3) lim
      by (auto simp: store_def)
  next
    case (Mul r a b)
    obtain t where t: "ctx = Some t" using assms(2) by (auto simp: memory_ok_def)
    then have ft: "bn_fits t" "bn_dynamic t" using assms(1) by (auto simp: vars_ok_def)
    obtain ret x where x: "BN_mul alloc (r = a \<or> r = b) ctx (s r) (s a) (s b) = (ret, x)" by fastforce
    have n: "bn_top (s a) + bn_top (s b) \<le> BN_MAX_WORDS" using Mul top [of a] top [of b] assms(3) lim by auto
    have "can_expand alloc t (bn_top (s a) + bn_top (s b))" "\<forall>k \<le> bn_top (s a) + bn_top (s b). can_expand alloc (s r) k"
      using can [OF ft(2) n] canr n by (auto intro: le_trans)
    then have "if r = a \<or> r = b then \<exists>t. ctx = Some t \<and> can_expand alloc t (bn_top (s a) + bn_top (s b)) \<and>
        (\<forall>k \<le> bn_top (s a) + bn_top (s b). can_expand alloc (s r) k)
      else can_expand alloc (s r) (bn_top (s a) + bn_top (s b))" using t by simp
    then have "ret" by (rule BN_mul_ok(3) [OF ok(2) [of r] ok(1) [of a] ok(1) [of b] _ x, rotated]) (use t ft in simp)
    then show ?thesis using x by (simp add: Mul store_def)
  next
    case (Lshift r a n)
    then have "bn_top (s a) + nat (int n) div 64 + 1 \<le> BN_MAX_WORDS" using top [of a] assms(3) lim by auto
    then show ?thesis using op [OF bn_lshift_ok [OF ok(2) [of r] ok(1) [of a], of "int n" alloc]] by (simp add: Lshift store_def BN_lshift_def)
  next
    case (Rshift r a n)
    then have "bn_top (s a) \<le> BN_MAX_WORDS" using top [of a] assms(3) lim by auto
    then show ?thesis using op [OF bn_rshift_ok [OF ok(2) [of r] ok(1) [of a], of "int n" alloc]] by (simp add: Rshift store_def BN_rshift_def)
  next
    case (Add_word r w)
    then show ?thesis using wop [OF BN_add_sub_word_ok(1) [OF ok(1) [of r], of alloc w]] top [of r] assms(3) by simp
  next
    case (Sub_word r w)
    then show ?thesis using wop [OF BN_add_sub_word_ok(2) [OF ok(1) [of r], of alloc w]] top [of r] assms(3) by simp
  next
    case (Mul_word r w)
    obtain ret x where x: "BN_mul_word alloc (s r) w = (ret, x)" by fastforce
    then have "ret" using BN_mul_word_ok(2) [OF ok(1) x] top [of r] Mul_word assms(3) lim canr by simp
    then show ?thesis using x by (simp add: Mul_word store_def)
  next
    case (Copy r a)
    obtain ret x where x: "BN_copy alloc (s r) (s a) = (ret, x)" by fastforce
    then have "ret" using BN_copy_correct(1) [OF ok(2,1) x] top [of a] Copy assms(3) lim canr by simp
    then show ?thesis using x by (simp add: Copy store_def)
  next
    case (Set_word r w)
    obtain ret x where x: "BN_set_word alloc (s r) w = (ret, x)" by fastforce
    then have "ret" using BN_set_word_correct(1) [OF ok(2) x] canr [of 1 r] lim by simp
    then show ?thesis using x by (simp add: Set_word store_def)
  next
    case (Set_bit r n)
    obtain ret x where x: "BN_set_bit alloc (s r) (int n) = (ret, x)" by fastforce
    have "n div 64 + 1 \<le> BN_MAX_WORDS" using Set_bit assms(3) lim by auto
    then have "ret" using BN_set_bit_correct(1) [OF ok(1) _ x] canr by simp
    then show ?thesis using x by (simp add: Set_bit store_def)
  next
    case (Clear_bit r n)
    obtain ret x where x: "BN_clear_bit (s r) (int n) = (ret, x)" by fastforce
    then have "ret" using BN_clear_bit_correct(1) [OF ok(1) _ x] top_greater_of_mag [OF ok(1), of "n div 64" r] Clear_bit assms(3)
      by (simp add: vals_def)
    then show ?thesis using x by (simp add: Clear_bit store_def)
  next
    case (Mask_bits r n)
    obtain ret x where x: "BN_mask_bits (s r) (int n) = (ret, x)" by fastforce
    then have "ret" using BN_mask_bits_correct(1) [OF ok(1) _ x] top_greater_of_mag [OF ok(1), of "n div 64" r] Mask_bits assms(3)
      by (simp add: vals_def)
    then show ?thesis using x by (simp add: Mask_bits store_def)
  qed (simp_all add: store_def)
qed

interpretation bn_live: live_calls "bn_exec alloc ctx" int_exec "vars_ok ctx" vals
    "\<lambda>v c. memory_ok alloc ctx \<and> call_fits v c" for alloc ctx
  by unfold_locales (auto intro: bn_exec_live)

section \<open>Properties\<close>

text \<open>
  C2.  BIGNUM arithmetic is integer arithmetic: whatever sequence of additions,
  subtractions, multiplications, shifts, word and bit operations is applied to
  well-formed numbers, with results that may coincide with operands and with any
  pattern of failing allocations, if all calls report success then every number is
  well formed again (no leading zero words, no negative zero, within its array) and
  has exactly the value that the same sequence has on integers.
\<close>

theorem bn_programs_exact:
  assumes "vars_ok ctx s" and "run (bn_exec alloc ctx) calls s = Some s'"
  shows "vars_ok ctx s' \<and> vals s' = ideal int_exec calls (vals s)"
  using bn.run_exact [OF assms] .

definition example_ctx :: bignum where
  "example_ctx = \<lparr>bn_d = [], bn_top = 0, bn_neg = 0, bn_flags = 0\<rparr>"

definition example_vars :: bn_vars where
  "example_vars i = \<lparr>bn_d = [7], bn_top = 1, bn_neg = 1, bn_flags = BN_FLG_MALLOCED\<rparr>"

definition example_calls :: "bn_call list" where
  "example_calls = [Lshift 1 0 70, Mul 2 1 1, Sub 1 1 2, Sub_word 1 3]"

lemma example_vars_ok: "vars_ok (Some example_ctx) example_vars"
  by (simp add: vars_ok_def example_vars_def example_ctx_def bn_ok_def bn_fits_def bn_dmax_def BN_MAX_WORDS_def
      bn_dynamic_def BN_FLG_MALLOCED_def BN_FLG_STATIC_DATA_def)

lemma example_vals: "vals example_vars i = - 7"
  by (simp add: vals_def example_vars_def bn_int_def bn_mag_def)

lemma example_memory: "memory_ok (\<lambda>n. True) (Some example_ctx)"
  by (simp add: memory_ok_def)

lemma example_fits: "ideal_fits int_exec call_fits example_calls (vals example_vars)"
proof -
  have "(2 :: int) ^ (64 * 3) \<le> 2 ^ (64 * BN_LIMIT)" by (rule power_increasing) (simp_all add: BN_LIMIT_def)
  then have small: "small x" if "\<bar>x\<bar> < 2 ^ 192" for x using that by (simp add: small_def)
  show ?thesis by (simp add: example_calls_def example_vals small) (simp add: BN_LIMIT_def)
qed

theorem bn_programs_exact_witness:
  "\<exists>s'. run (bn_exec (\<lambda>n. True) (Some example_ctx)) example_calls example_vars = Some s' \<and>
    vars_ok (Some example_ctx) s' \<and> vals s' 1 = - 7 * 2 ^ 70 - 49 * 2 ^ 140 - 3"
proof -
  have "ideal_fits int_exec (\<lambda>v c. memory_ok (\<lambda>n. True) (Some example_ctx) \<and> call_fits v c) example_calls (vals example_vars)"
    using example_fits example_memory by (simp add: example_calls_def)
  from bn_live.run_succeeds [OF example_vars_ok this]
  obtain s' where s': "run (bn_exec (\<lambda>n. True) (Some example_ctx)) example_calls example_vars = Some s'" by blast
  moreover have "ideal int_exec example_calls (vals example_vars) 1 = - 7 * 2 ^ 70 - 49 * 2 ^ 140 - 3"
    by (simp add: example_calls_def example_vals)
  ultimately show ?thesis using bn_programs_exact [OF example_vars_ok s'] by auto
qed

text \<open>
  C34.  Such a sequence succeeds whenever memory is available and the values stay
  below \<open>2 ^ (64 * BN_LIMIT)\<close> (for \<open>BN_clear_bit\<close> and \<open>BN_mask_bits\<close>: when the
  number has a word with that bit).
\<close>

theorem bn_programs_succeed:
  assumes "vars_ok ctx s" and "memory_ok alloc ctx" and "ideal_fits int_exec call_fits calls (vals s)"
  shows "\<exists>s'. run (bn_exec alloc ctx) calls s = Some s'"
proof (rule bn_live.run_succeeds [OF assms(1)])
  have "ideal_fits int_exec call_fits calls v \<Longrightarrow>
      ideal_fits int_exec (\<lambda>v c. memory_ok alloc ctx \<and> call_fits v c) calls v" for v
    using assms(2) by (induction calls arbitrary: v) auto
  then show "ideal_fits int_exec (\<lambda>v c. memory_ok alloc ctx \<and> call_fits v c) calls (vals s)"
    using assms(3) .
qed

theorem bn_programs_succeed_witness:
  "\<exists>s'. run (bn_exec (\<lambda>n. True) (Some example_ctx)) example_calls example_vars = Some s'"
  by (rule bn_programs_succeed [OF example_vars_ok example_memory example_fits])

text \<open>
  C35.  \<open>BN_cmp\<close> compares values: on well-formed numbers it returns the sign of the
  difference, so that two numbers are equal for it exactly if their values are, and
  \<open>BN_num_bits\<close> is the length of the binary representation of the magnitude.
\<close>

theorem bn_compare_and_size:
  assumes "bn_ok a" and "bn_ok b"
  shows "BN_cmp (Some a) (Some b) = sgn (bn_int a - bn_int b) \<and>
    BN_ucmp a b = sgn (\<bar>bn_int a\<bar> - \<bar>bn_int b\<bar>) \<and>
    (BN_is_zero a \<longleftrightarrow> bn_int a = 0) \<and> (BN_is_negative a \<longleftrightarrow> bn_int a < 0) \<and>
    (BN_is_odd a \<longleftrightarrow> odd (bn_int a)) \<and>
    (if bn_int a = 0 then BN_num_bits a = 0
     else 0 < BN_num_bits a \<and> 2 ^ nat (BN_num_bits a - 1) \<le> \<bar>bn_int a\<bar> \<and> \<bar>bn_int a\<bar> < 2 ^ nat (BN_num_bits a))"
proof -
  note fits = bn_ok_fits [OF assms(1)]
  have "BN_is_odd a \<longleftrightarrow> bit (bn_mag a) 0"
    using bit_bn_mag [OF fits, of 0] by (simp add: BN_is_odd_def bit_0 and_one_eq odd_iff_mod_2_eq_one)
  moreover have "bit (bn_mag a) 0 \<longleftrightarrow> odd (bn_int a)" by (simp add: bit_0 bn_int_def)
  moreover have "BN_is_zero a \<longleftrightarrow> bn_int a = 0" using BN_is_zero_iff [OF fits] by (simp add: bn_int_def)
  moreover have "BN_is_negative a \<longleftrightarrow> bn_int a < 0" using bn_ok_neg [OF assms(1)] by (simp add: BN_is_negative_def)
  moreover have "bn_int a = 0 \<Longrightarrow> BN_num_bits a = 0" using BN_num_bits_eq [OF assms(1)] bn_ok_int_0 [OF assms(1)] by simp
  ultimately show ?thesis
    using BN_cmp_sgn [OF assms] BN_ucmp_sgn [OF assms] BN_num_bits_bounds [OF assms(1)] by (auto simp: bn_mag_abs)
qed

theorem bn_compare_and_size_witness:
  "BN_cmp (Some (example_vars 0)) (Some example_ctx) = - 1 \<and> 0 < BN_num_bits (example_vars 0)"
proof -
  have "bn_ok (example_vars 0)" "bn_ok example_ctx"
    using example_vars_ok by (auto simp: vars_ok_def example_ctx_def bn_ok_def)
  moreover have "bn_int (example_vars 0) = - 7" "bn_int example_ctx = 0"
    using example_vals [of 0] by (simp_all add: vals_def example_ctx_def bn_int_def bn_mag_def)
  ultimately show ?thesis using bn_compare_and_size [of "example_vars 0" example_ctx] by simp
qed

text \<open>
  The unrolled multiplications agree with the schoolbook one: for operands of
  four and of eight words \<open>bn_mul_comba4\<close> and \<open>bn_mul_comba8\<close> write the same words
  as \<open>bn_mul_normal\<close>.
\<close>

theorem comba_equals_schoolbook:
  "(4 \<le> length a \<and> 4 \<le> length b \<and> 8 \<le> length r \<longrightarrow>
      take 8 (bn_mul_comba4 r a b) = take 8 (bn_mul_normal r a 4 b 4)) \<and>
   (8 \<le> length a \<and> 8 \<le> length b \<and> 16 \<le> length r \<longrightarrow>
      take 16 (bn_mul_comba8 r a b) = take 16 (bn_mul_normal r a 8 b 8))"
  using bn_mul_comba4_value [of a b r] bn_mul_comba8_value [of a b r]
    bn_mul_normal_value [of 4 a 4 b r] bn_mul_normal_value [of 8 a 8 b r]
  by (auto intro!: bn_val_inj)

theorem comba_equals_schoolbook_witness:
  "take 8 (bn_mul_comba4 (replicate 8 0) [1, 2, 3, 4] [5, 6, 7, 8]) =
    take 8 (bn_mul_normal (replicate 8 0) [1, 2, 3, 4] 4 [5, 6, 7, 8] 4)"
  using comba_equals_schoolbook [of "[1, 2, 3, 4]" "[5, 6, 7, 8]" "replicate 8 0"] by simp

end
