(* ===== verification/BN_Convert.thy ===== *)
theory BN_Convert
  imports BN_Arith CBS
begin

text \<open>
  Conversion of BIGNUMs to and from byte strings, big and little endian
  (libcrypto/bn/bn_convert.c), with the constant time comparison of
  crypto_internal.h.  The input is read through a \<open>CBS\<close>.
\<close>

section \<open>Definitions\<close>

definition crypto_ct_lt :: "u64 \<Rightarrow> u64 \<Rightarrow> u64" where
  "crypto_ct_lt a b = drop_bit 63 (((a - b) OR (b AND NOT a)) AND (b OR NOT a))"

definition crypto_ct_lt_mask :: "u64 \<Rightarrow> u64 \<Rightarrow> u64" where
  "crypto_ct_lt_mask a b = 0 - crypto_ct_lt a b"

text \<open>
  The loop of \<open>bn_bn2binpad_internal\<close> fills the output from its end; \<open>out\<close> is the
  part that is filled, \<open>n\<close> the number of bytes before it.
\<close>

fun binpad_loop :: "words \<Rightarrow> nat \<Rightarrow> bn_word \<Rightarrow> u8 \<Rightarrow> nat \<Rightarrow> nat \<Rightarrow> nat \<Rightarrow> bytes \<Rightarrow> bytes" where
  "binpad_loop d tp w msk b j 0 out = out"
| "binpad_loop d tp w msk b j (Suc n) out =
     (let (msk, w, j, b) =
            (if b = 64 then (ucast (crypto_ct_lt_mask (of_nat j) (of_nat tp)), d ! (j mod length d), j + 1, 0)
             else (msk, w, j, b))
      in binpad_loop d tp w msk (b + 8) j n (ucast (drop_bit b w AND ucast msk) # out))"

text \<open>The loop that swaps the bytes for little endian output.\<close>

fun swap_loop :: "bytes \<Rightarrow> nat \<Rightarrow> nat \<Rightarrow> nat \<Rightarrow> bytes" where
  "swap_loop out i j 0 = out"
| "swap_loop out i j (Suc n) = swap_loop (out[i := out ! j, j := out ! i]) (i + 1) (j - 1) n"

definition bn_bn2binpad_internal :: "bignum \<Rightarrow> int \<Rightarrow> bool \<Rightarrow> bytes option" where
  "bn_bn2binpad_internal bn out_len little_endian =
     (let n = BN_num_bytes bn;
          out_len = (if out_len = -1 then n else out_len)
      in if out_len < n then None
         else if bn_dmax bn = 0 then Some (replicate (nat out_len) 0)
         else let out = binpad_loop (bn_d bn) (bn_top bn) 0 0 64 0 (nat out_len) []
              in Some (if little_endian then swap_loop out 0 (nat out_len - 1) (nat out_len div 2) else out))"

definition BN_bn2bin :: "bignum \<Rightarrow> bytes option" where
  "BN_bn2bin bn = bn_bn2binpad_internal bn (-1) False"

definition BN_bn2binpad :: "bignum \<Rightarrow> int \<Rightarrow> bytes option" where
  "BN_bn2binpad bn to_len = (if to_len < 0 then None else bn_bn2binpad_internal bn to_len False)"

definition BN_bn2lebinpad :: "bignum \<Rightarrow> int \<Rightarrow> bytes option" where
  "BN_bn2lebinpad bn to_len = (if to_len < 0 then None else bn_bn2binpad_internal bn to_len True)"

lemma cbs_get_shorter [termination_simp]:
  "0 < CBS_len cbs \<Longrightarrow> (Some v, c) = (if lebin then CBS_get_u8 cbs else CBS_get_last_u8 cbs) \<Longrightarrow> CBS_len c < CBS_len cbs"
  by (auto simp: CBS_get_u8_def CBS_get_last_u8_def cbs_get_def CBS_len_def split: if_splits)

text \<open>The loop of \<open>bn_bin2bn_cbs\<close>: \<open>None\<close> when reading fails.\<close>

function bin2bn_loop :: "bool \<Rightarrow> CBS \<Rightarrow> words \<Rightarrow> nat \<Rightarrow> nat \<Rightarrow> bn_word \<Rightarrow> (words \<times> nat) option" where
  "bin2bn_loop lebin cbs d i b w =
     (if CBS_len cbs > 0 then
        (case (if lebin then CBS_get_u8 cbs else CBS_get_last_u8 cbs) of
           (None, _) \<Rightarrow> None
         | (Some v, cbs) \<Rightarrow>
            (let w = w OR push_bit b (ucast v); b = b + 8
             in if b = 64 \<or> CBS_len cbs = 0 then bin2bn_loop lebin cbs (d[i := w]) (i + 1) 0 0
                else bin2bn_loop lebin cbs d i b w))
      else Some (d, i))"
  by pat_completeness auto
termination by (relation "measure (\<lambda>(lebin, cbs, d, i, b, w). CBS_len cbs)") (auto simp: cbs_get_shorter)

declare bin2bn_loop.simps [simp del]

text \<open>
  The result is the return value and the number that \<open>*bnp\<close> points to then; \<open>None\<close>
  as input is the null pointer, for which a new number is made.
\<close>

definition bn_bin2bn_cbs :: "(nat \<Rightarrow> bool) \<Rightarrow> bignum option \<Rightarrow> CBS \<Rightarrow> bool \<Rightarrow> bool \<times> bignum option" where
  "bn_bin2bn_cbs alloc bnp cbs lebin =
     (case (case bnp of None \<Rightarrow> BN_new alloc | Some bn \<Rightarrow> Some bn) of
        None \<Rightarrow> (False, None)
      | Some bn \<Rightarrow>
         (case bn_expand_bytes alloc bn (CBS_len cbs) of
            (False, bn) \<Rightarrow> (False, if bnp = None then None else Some bn)
          | (True, bn) \<Rightarrow>
             (case bin2bn_loop lebin cbs (bn_d bn) 0 0 0 of
                None \<Rightarrow> (False, if bnp = None then None else Some bn)
              | Some (d, i) \<Rightarrow> (True, Some (bn_correct_top (bn\<lparr>bn_d := d, bn_neg := 0, bn_top := i\<rparr>))))))"

definition BN_bin2bn :: "(nat \<Rightarrow> bool) \<Rightarrow> bytes \<Rightarrow> int \<Rightarrow> bignum option \<Rightarrow> bool \<times> bignum option" where
  "BN_bin2bn alloc d len bn =
     (if len < 0 then (False, bn) else bn_bin2bn_cbs alloc bn (CBS_init d (nat len)) False)"

definition BN_lebin2bn :: "(nat \<Rightarrow> bool) \<Rightarrow> bytes \<Rightarrow> int \<Rightarrow> bignum option \<Rightarrow> bool \<times> bignum option" where
  "BN_lebin2bn alloc d len bn =
     (if len < 0 then (False, bn) else bn_bin2bn_cbs alloc bn (CBS_init d (nat len)) True)"

section \<open>Output\<close>

lemma crypto_ct_lt_eq: "crypto_ct_lt a b = of_bool (a < b)"
proof -
  obtain c r where s: "bn_subw a b = (c, r)" by fastforce
  then have c: "crypto_ct_lt a b = c" by (auto simp: bn_subw_def crypto_ct_lt_def Let_def)
  have "unat a + unat c * 2 ^ 64 = unat r + unat b" "unat c \<le> 1"
    using bn_subw_value [OF s] bn_subw_borrow [OF s] by simp_all
  then have "unat c = of_bool (unat a < unat b)" using u64_lt [of r] u64_lt [of a] u64_lt [of b]
    by (cases "unat c = 0") auto
  then show ?thesis by (simp add: c word_unat_eq_iff word_less_nat_alt)
qed

lemma be_bytes_Cons: "be_bytes (Suc k) v = of_nat (v div 256 ^ k mod 256) # be_bytes k v"
proof (induction k arbitrary: v)
  case (Suc k)
  have "be_bytes (Suc (Suc k)) v = be_bytes (Suc k) (v div 256) @ [of_nat (v mod 256)]" by simp
  also have "\<dots> = of_nat (v div 256 div 256 ^ k mod 256) # be_bytes k (v div 256) @ [of_nat (v mod 256)]"
    unfolding Suc by simp
  also have "v div 256 div 256 ^ k = v div 256 ^ Suc k" by (simp add: div_mult2_eq)
  finally show ?case by simp
qed simp

text \<open>Byte \<open>k\<close> of the magnitude, from the word that holds it.\<close>

lemma byte_of_mag:
  assumes "bn_fits bn"
  shows "(of_nat (nat (bn_mag bn) div 256 ^ k mod 256) :: u8) =
    (if k div 8 < bn_top bn then ucast (drop_bit (8 * (k mod 8)) (bn_d bn ! (k div 8))) else 0)"
proof (rule bit_word_eqI)
  fix n assume "n < LENGTH(8)"
  then have n: "n < 8" by simp
  have "nat (bn_mag bn) div 256 ^ k = drop_bit (8 * k) (nat (bn_mag bn))"
    by (simp add: drop_bit_eq_div power_mult)
  then have "of_nat (nat (bn_mag bn) div 256 ^ k mod 256) = (of_nat (drop_bit (8 * k) (nat (bn_mag bn))) :: u8)"
    by (simp add: word_unat_eq_iff unat_of_nat)
  then have "bit (of_nat (nat (bn_mag bn) div 256 ^ k mod 256) :: u8) n \<longleftrightarrow> bit (nat (bn_mag bn)) (8 * k + n)"
    using n by (simp add: bit_simps)
  also have "\<dots> \<longleftrightarrow> bit (bn_mag bn) (8 * k + n)" by (simp add: bit_nat_iff)
  also have "\<dots> \<longleftrightarrow> k div 8 < bn_top bn \<and> bit (bn_d bn ! (k div 8)) (8 * (k mod 8) + n)"
  proof -
    have "k = 8 * (k div 8) + k mod 8" "k mod 8 < 8" by simp_all
    then have "8 * k + n = 64 * (k div 8) + (8 * (k mod 8) + n)" "8 * (k mod 8) + n < 64" using n by linarith+
    then have "(8 * k + n) div 64 = k div 8" "(8 * k + n) mod 64 = 8 * (k mod 8) + n"
      using div_mod_digits [of "8 * (k mod 8) + n" 64 "k div 8"] by metis+
    then show ?thesis using bit_bn_mag [OF assms, of "8 * k + n"] by simp
  qed
  finally show "bit (of_nat (nat (bn_mag bn) div 256 ^ k mod 256) :: u8) n =
      bit (if k div 8 < bn_top bn then ucast (drop_bit (8 * (k mod 8)) (bn_d bn ! (k div 8))) else 0 :: u8) n"
    using n by (auto simp: bit_simps)
qed

lemma ct_mask_eq:
  assumes "j < 2 ^ 63" "tp < 2 ^ 63"
  shows "(ucast (crypto_ct_lt_mask (of_nat j) (of_nat tp)) :: u8) = (if j < tp then - 1 else 0)"
proof -
  have "(of_nat j :: u64) < of_nat tp \<longleftrightarrow> j < tp"
    using assms by (simp add: word_less_nat_alt unat_of_nat)
  moreover have "(ucast (- 1 :: u64) :: u8) = - 1" by (rule bit_word_eqI) (simp add: bit_simps)
  ultimately show ?thesis by (simp add: crypto_ct_lt_mask_def crypto_ct_lt_eq)
qed

lemma masked_byte: "ucast (x AND ucast (if c then - 1 else 0 :: u8)) = (if c then ucast (x :: u64) else 0 :: u8)"
  by (rule bit_word_eqI) (auto simp: bit_simps)

lemma binpad_loop_eq:
  assumes "bn_fits bn" "0 < bn_dmax bn" "k + n < 2 ^ 63"
    and "if k mod 8 = 0 then b = 64 \<and> j = k div 8
      else b = 8 * (k mod 8) \<and> j = k div 8 + 1 \<and> w = bn_d bn ! (k div 8 mod bn_dmax bn) \<and>
        msk = (if k div 8 < bn_top bn then - 1 else 0)"
  shows "binpad_loop (bn_d bn) (bn_top bn) w msk b j n (be_bytes k (nat (bn_mag bn))) = be_bytes (k + n) (nat (bn_mag bn))"
  using assms(3,4)
proof (induction n arbitrary: k w msk b j)
  case (Suc n)
  define q where "q = k div 8"
  define w' where "w' = bn_d bn ! (q mod bn_dmax bn)"
  define m' where "m' = (if q < bn_top bn then - 1 else 0 :: u8)"
  have tp: "bn_top bn < 2 ^ 63" using assms(1) by (simp add: bn_fits_def BN_MAX_WORDS_def)
  have q: "q < 2 ^ 63" using Suc.prems(1) by (simp add: q_def)
  have load: "(if b = 64 then (ucast (crypto_ct_lt_mask (of_nat j) (of_nat (bn_top bn))), bn_d bn ! (j mod length (bn_d bn)), j + 1, 0)
      else (msk, w, j, b)) = (m', w', q + 1, 8 * (k mod 8))"
    using Suc.prems(2) ct_mask_eq [OF q tp] by (auto simp: q_def w'_def m'_def bn_dmax_def split: if_splits)
  have "q < bn_top bn \<Longrightarrow> q mod bn_dmax bn = q" using assms(1) by (simp add: bn_fits_def)
  then have "ucast (drop_bit (8 * (k mod 8)) w' AND ucast m') = (of_nat (nat (bn_mag bn) div 256 ^ k mod 256) :: u8)"
    unfolding byte_of_mag [OF assms(1)] m'_def masked_byte by (simp add: w'_def q_def)
  then have out: "ucast (drop_bit (8 * (k mod 8)) w' AND ucast m') # be_bytes k (nat (bn_mag bn)) = be_bytes (Suc k) (nat (bn_mag bn))"
    by (simp only: be_bytes_Cons)
  have inv: "if Suc k mod 8 = 0 then 8 * (k mod 8) + 8 = 64 \<and> q + 1 = Suc k div 8
      else 8 * (k mod 8) + 8 = 8 * (Suc k mod 8) \<and> q + 1 = Suc k div 8 + 1 \<and> w' = bn_d bn ! (Suc k div 8 mod bn_dmax bn) \<and>
        m' = (if Suc k div 8 < bn_top bn then - 1 else 0)"
    by (auto simp: q_def w'_def m'_def mod_Suc div_Suc)
  show ?case using Suc.IH [OF _ inv] Suc.prems(1) by (simp add: load out del: be_bytes.simps)
qed simp

lemma swap_loop_rev:
  assumes "i + 2 * n \<le> length out" "i + (j + 1) = length out" "n = length out div 2 - i"
    and "\<forall>k < length out. out ! k = (if k < i \<or> length out - 1 - k < i then orig ! (length out - 1 - k) else orig ! k)"
    and "length orig = length out"
  shows "swap_loop out i j n = rev orig"
  using assms
proof (induction out i j n rule: swap_loop.induct)
  case (1 out i j)
  show ?case
  proof (rule nth_equalityI)
    show "length (swap_loop out i j 0) = length (rev orig)" using 1 by simp
    fix k assume "k < length (swap_loop out i j 0)"
    then have k: "k < length out" by simp
    then have "rev orig ! k = orig ! (length out - 1 - k)" using 1(5) by (simp add: rev_nth)
    moreover have "out ! k = orig ! (length out - 1 - k)"
    proof (cases "k < i \<or> length out - 1 - k < i")
      case False
      then have "k = length out - 1 - k" using 1(3) k by linarith
      then show ?thesis using 1(4) k by metis
    qed (use 1(4) k in simp)
    ultimately show "swap_loop out i j 0 ! k = rev orig ! k" by simp
  qed
next
  case (2 out i j n)
  have n: "i < length out div 2" "j = length out - 1 - i" using 2 by linarith+
  then have ij: "i < j" "j < length out" "i < length out" by linarith+
  have "swap_loop (out[i := out ! j, j := out ! i]) (i + 1) (j - 1) n = rev orig"
  proof (rule "2.IH")
    show "\<forall>k < length (out[i := out ! j, j := out ! i]). out[i := out ! j, j := out ! i] ! k =
        (if k < i + 1 \<or> length (out[i := out ! j, j := out ! i]) - 1 - k < i + 1
         then orig ! (length (out[i := out ! j, j := out ! i]) - 1 - k) else orig ! k)"
    proof (intro allI impI)
      fix k assume "k < length (out[i := out ! j, j := out ! i])"
      then have k: "k < length out" by simp
      have oi: "out ! i = orig ! i" using 2(5) ij n by auto
      have oj: "out ! j = orig ! j" using 2(5) ij n by auto
      have jj: "length out - 1 - j = i" using ij n by linarith
      consider "k = i" | "k = j" | "k \<noteq> i" "k \<noteq> j" by blast
      then show "out[i := out ! j, j := out ! i] ! k =
        (if k < i + 1 \<or> length (out[i := out ! j, j := out ! i]) - 1 - k < i + 1
         then orig ! (length (out[i := out ! j, j := out ! i]) - 1 - k) else orig ! k)"
      proof cases
        case 3
        then have "(k < i + 1 \<or> length out - 1 - k < i + 1) \<longleftrightarrow> (k < i \<or> length out - 1 - k < i)" using n k by linarith
        then show ?thesis using 3 2(5) k by simp
      qed (use ij n oi oj jj in auto)
    qed
    show "i + 1 + 2 * n \<le> length (out[i := out ! j, j := out ! i])" using 2(2) by simp
    show "i + 1 + (j - 1 + 1) = length (out[i := out ! j, j := out ! i])" using 2(3) ij by simp
    show "n = length (out[i := out ! j, j := out ! i]) div 2 - (i + 1)" using 2(4) by simp
    show "length orig = length (out[i := out ! j, j := out ! i])" using 2(6) by simp
  qed
  then show ?case by simp
qed

lemma swap_loop_correct: "swap_loop out 0 (length out - 1) (length out div 2) = rev out"
proof (cases "out = []")
  case False
  then show ?thesis by (intro swap_loop_rev) (auto simp: Suc_leI)
qed simp

text \<open>The number of bytes of a number.\<close>

lemma BN_num_bytes_bound:
  assumes "bn_ok bn"
  shows "0 \<le> BN_num_bytes bn" "bn_mag bn < 256 ^ nat (BN_num_bytes bn)" "BN_num_bytes bn \<le> 2 ^ 31"
    "256 ^ n \<le> bn_mag bn \<Longrightarrow> int n < BN_num_bytes bn"
proof -
  have mag: "bn_mag bn < 2 ^ nat (BN_num_bits bn)" and ge: "0 \<le> BN_num_bits bn"
    using BN_num_bits_bounds [OF assms] BN_num_bits_eq [OF assms] bn_ok_int_0 [OF assms]
    by (cases "bn_int bn = 0"; auto simp: bn_mag_abs)+
  show "0 \<le> BN_num_bytes bn" using ge by (simp add: BN_num_bytes_def pos_imp_zdiv_nonneg_iff)
  have "nat (BN_num_bits bn) \<le> 8 * nat (BN_num_bytes bn)" by (simp add: BN_num_bytes_def)
  then have "(2 :: int) ^ nat (BN_num_bits bn) \<le> 2 ^ (8 * nat (BN_num_bytes bn))" by (rule power_increasing) simp
  also have "\<dots> = 256 ^ nat (BN_num_bytes bn)" by (simp add: power_mult)
  finally show "bn_mag bn < 256 ^ nat (BN_num_bytes bn)" using mag by linarith
  have top: "int (bn_top bn) \<le> 8388607" using bn_ok_fits [OF assms] by (simp add: bn_fits_def BN_MAX_WORDS_def)
  have wb: "int (word_bits w) \<le> 64" for w using word_bits_bounds(4) [of w] by (cases "w = 0") auto
  have "BN_num_bits bn \<le> 64 * 8388607"
    unfolding BN_num_bits_eq [OF assms] using top wb [of "bn_d bn ! (bn_top bn - 1)"] by auto
  then show "BN_num_bytes bn \<le> 2 ^ 31" by (simp add: BN_num_bytes_def)
  show "int n < BN_num_bytes bn" if "256 ^ n \<le> bn_mag bn"
  proof -
    have "0 < (256 :: int) ^ n" by simp
    then have nz: "bn_int bn \<noteq> 0" using that bn_mag_abs [of bn] by linarith
    have "(2 :: int) ^ (8 * n) < 2 ^ nat (BN_num_bits bn)"
      using that BN_num_bits_bounds(3) [OF assms nz] by (simp add: power_mult)
    then have "8 * n < nat (BN_num_bits bn)" by (simp add: power_less_imp_less_exp)
    then show ?thesis by (simp add: BN_num_bytes_def)
  qed
qed

text \<open>The output is the \<open>out_len\<close>-byte big-endian coding of the magnitude, reversed if little endian.\<close>

lemma bn_bn2binpad_internal_eq:
  assumes "bn_ok bn" "0 \<le> len" "len < 2 ^ 62"
  shows "bn_bn2binpad_internal bn len le =
    (if bn_mag bn < 256 ^ nat len
     then Some (if le then rev (be_bytes (nat len) (nat (bn_mag bn))) else be_bytes (nat len) (nat (bn_mag bn)))
     else None)"
proof -
  note fits = bn_ok_fits [OF assms(1)]
  have iff: "len < BN_num_bytes bn \<longleftrightarrow> \<not> bn_mag bn < 256 ^ nat len"
  proof
    assume "len < BN_num_bytes bn"
    show "\<not> bn_mag bn < 256 ^ nat len"
    proof
      assume lt: "bn_mag bn < 256 ^ nat len"
      have "0 < BN_num_bits bn" using \<open>len < BN_num_bytes bn\<close> assms(2) by (simp add: BN_num_bytes_def)
      then have nz: "bn_int bn \<noteq> 0" using BN_num_bits_eq [OF assms(1)] bn_ok_int_0 [OF assms(1)] by auto
      have "(2 :: int) ^ nat (BN_num_bits bn - 1) < 2 ^ (8 * nat len)"
        using BN_num_bits_bounds(2) [OF assms(1) nz] lt by (simp add: power_mult)
      then have "nat (BN_num_bits bn - 1) < 8 * nat len" by (simp add: power_less_imp_less_exp)
      then show False using \<open>len < BN_num_bytes bn\<close> assms(2) by (simp add: BN_num_bytes_def)
    qed
  next
    assume "\<not> bn_mag bn < 256 ^ nat len"
    then show "len < BN_num_bytes bn" using BN_num_bytes_bound(4) [OF assms(1), of "nat len"] assms(2) by simp
  qed
  show ?thesis
  proof (cases "bn_mag bn < 256 ^ nat len")
    case False
    then show ?thesis using iff assms(2) by (simp add: bn_bn2binpad_internal_def Let_def)
  next
    case lt: True
    show ?thesis
    proof (cases "bn_dmax bn = 0")
      case True
      then have "bn_mag bn = 0" using fits by (simp add: bn_fits_def bn_mag_def)
      moreover have "be_bytes n 0 = replicate n 0" for n by (induction n) (simp_all add: replicate_append_same)
      ultimately show ?thesis using iff lt True assms(2) by (simp add: bn_bn2binpad_internal_def Let_def)
    next
      case False
      define out where "out = binpad_loop (bn_d bn) (bn_top bn) 0 0 64 0 (nat len) []"
      have eq: "out = be_bytes (nat len) (nat (bn_mag bn))"
        using binpad_loop_eq [OF fits, of 0 "nat len" 64 0 0 0] False assms(3) by (simp add: out_def)
      have rev: "swap_loop out 0 (nat len - 1) (nat len div 2) = rev out"
        using swap_loop_correct [of out] eq by simp
      have "bn_bn2binpad_internal bn len le = Some (if le then rev out else out)"
        using iff lt False assms(2) rev unfolding bn_bn2binpad_internal_def Let_def by (simp add: out_def)
      then show ?thesis using lt eq by simp
    qed
  qed
qed

section \<open>Input\<close>

text \<open>The bytes in the order in which they are read, and the words they are packed into.\<close>

definition read_order :: "bool \<Rightarrow> CBS \<Rightarrow> bytes" where
  "read_order lebin c = (let bs = take (cbs_len c) (cbs_data c) in if lebin then bs else rev bs)"

fun le_val :: "bytes \<Rightarrow> int" where
  "le_val [] = 0"
| "le_val (v # vs) = uint v + 256 * le_val vs"

fun pack :: "nat \<Rightarrow> bn_word \<Rightarrow> bytes \<Rightarrow> words" where
  "pack b w [] = []"
| "pack b w (v # vs) =
     (let w = w OR push_bit b (ucast v)
      in if b + 8 = 64 \<or> vs = [] then w # pack 0 0 vs else pack (b + 8) w vs)"

lemma uint_or_byte:
  assumes "uint (w :: bn_word) < 2 ^ b" "b + 8 \<le> 64"
  shows "uint (w OR push_bit b (ucast (v :: u8))) = uint w + 2 ^ b * uint v"
    "uint (w OR push_bit b (ucast v)) < 2 ^ (b + 8)"
proof -
  have v: "uint v < 256" using unsigned_less [where w = v and 'a = int] by simp
  have "uint w AND push_bit b (uint v) = 0"
  proof (rule bit_eqI)
    fix n
    have "take_bit b (uint w) = uint w" using assms(1) by (simp add: take_bit_int_eq_self)
    then have "n < b" if "bit (uint w) n" using that by (metis bit_take_bit_iff)
    then show "bit (uint w AND push_bit b (uint v)) n = bit 0 n" by (auto simp: bit_simps)
  qed
  then have or: "uint w OR push_bit b (uint v) = uint w + 2 ^ b * uint v"
    by (simp add: disjunctive_add_eq_or [symmetric] push_bit_eq_mult mult.commute)
  have lt: "uint w + 2 ^ b * uint v < 2 ^ (b + 8)"
  proof -
    have "2 ^ b * uint v \<le> 2 ^ b * 255" using v by (intro mult_left_mono) auto
    moreover have "(2 :: int) ^ (b + 8) = 2 ^ b * 256" by (simp add: power_add)
    ultimately show ?thesis using assms(1) by linarith
  qed
  have "uint (push_bit b (ucast v) :: bn_word) = push_bit b (uint v)"
  proof -
    have "push_bit b (uint v) < 2 ^ 64"
    proof -
      have "2 ^ b * uint v < 2 ^ (b + 8)" using lt uint_ge_0 [of w] by linarith
      also have "\<dots> \<le> (2 :: int) ^ 64" using assms(2) by (intro power_increasing) auto
      finally show ?thesis by (simp add: push_bit_eq_mult mult.commute)
    qed
    then have "take_bit 64 (push_bit b (uint v)) = push_bit b (uint v)" by (intro take_bit_int_eq_self) auto
    moreover have "take_bit 64 (uint v) = uint v" using v by (intro take_bit_int_eq_self) auto
    ultimately show ?thesis by (simp add: unsigned_push_bit_eq unsigned_ucast_eq)
  qed
  then show "uint (w OR push_bit b (ucast v)) = uint w + 2 ^ b * uint v" by (simp add: unsigned_or_eq or)
  then show "uint (w OR push_bit b (ucast v)) < 2 ^ (b + 8)" using lt by simp
qed

lemma pack_value:
  assumes "uint w < 2 ^ b" "b < 64" "8 dvd b" "vs \<noteq> []"
  shows "bn_val (pack b w vs) = uint w + 2 ^ b * le_val vs" "length (pack b w vs) = (b div 8 + length vs + 7) div 8"
proof -
  have "bn_val (pack b w vs) = uint w + 2 ^ b * le_val vs \<and> length (pack b w vs) = (b div 8 + length vs + 7) div 8"
    using assms
  proof (induction b w vs rule: pack.induct)
    case (2 b w v vs)
    obtain k where k: "b = 8 * k" "k < 8" using 2(4,5) by (auto elim: dvdE)
    define w' where "w' = w OR push_bit b (ucast v)"
    have w': "uint w' = uint w + 2 ^ b * uint v" "uint w' < 2 ^ (b + 8)"
      unfolding w'_def using uint_or_byte [OF 2(3), of v] k by simp_all
    consider "vs = []" | "b + 8 = 64" "vs \<noteq> []" | "b + 8 \<noteq> 64" "vs \<noteq> []" by blast
    then show ?case
    proof cases
      case 1
      then show ?thesis using w' k by (simp add: w'_def)
    next
      case c: 2
      have IH: "bn_val (pack 0 0 vs) = le_val vs" "length (pack 0 0 vs) = (length vs + 7) div 8"
        using 2(1) [OF w'_def] c by simp_all
      have "b = 56" using c(1) by simp
      then have "(2 :: int) ^ b * 256 = 2 ^ 64" by simp
      moreover have "pack b w (v # vs) = w' # pack 0 0 vs" using c by (simp add: w'_def)
      moreover have "Suc ((length vs + 7) div 8) = (b div 8 + length (v # vs) + 7) div 8" using \<open>b = 56\<close> by simp
      ultimately show ?thesis using w'(1) IH by (simp add: algebra_simps del: pack.simps)
    next
      case c: 3
      have "bn_val (pack (b + 8) w' vs) = uint w' + 2 ^ (b + 8) * le_val vs \<and>
          length (pack (b + 8) w' vs) = ((b + 8) div 8 + length vs + 7) div 8"
        using 2(2) [OF w'_def] c w'(2) k by simp
      moreover have "pack b w (v # vs) = pack (b + 8) w' vs" using c by (simp add: w'_def)
      ultimately show ?thesis using w'(1) k by (simp add: power_add algebra_simps del: pack.simps)
    qed
  qed simp
  then show "bn_val (pack b w vs) = uint w + 2 ^ b * le_val vs" "length (pack b w vs) = (b div 8 + length vs + 7) div 8"
    by simp_all
qed

lemma read_order_step:
  assumes "cbs_len c \<le> length (cbs_data c)" "0 < CBS_len c"
  obtains v c' where "(if lebin then CBS_get_u8 c else CBS_get_last_u8 c) = (Some v, c')"
    "read_order lebin c = v # read_order lebin c'" "cbs_len c' \<le> length (cbs_data c')"
    "CBS_len c' = 0 \<longleftrightarrow> read_order lebin c' = []"
proof (cases lebin)
  case True
  obtain v vs where d: "cbs_data c = v # vs" using assms by (cases "cbs_data c") (auto simp: CBS_len_def)
  obtain n where n: "cbs_len c = Suc n" using assms(2) by (cases "cbs_len c") (auto simp: CBS_len_def)
  show ?thesis
    by (rule that [of v "c\<lparr>cbs_data := vs, cbs_len := n\<rparr>"])
      (use True d n assms in \<open>auto simp: CBS_get_u8_def cbs_get_def read_order_def CBS_len_def\<close>)
next
  case False
  obtain n where n: "cbs_len c = Suc n" using assms(2) by (cases "cbs_len c") (auto simp: CBS_len_def)
  show ?thesis
    by (rule that [of "cbs_data c ! n" "c\<lparr>cbs_len := n\<rparr>"])
      (use False n assms in \<open>auto simp: CBS_get_last_u8_def read_order_def CBS_len_def take_Suc_conv_app_nth Suc_le_eq\<close>)
qed

lemma write_at_Cons: "i < length d \<Longrightarrow> write_at (d[i := w]) (Suc i) ws = write_at d i (w # ws)"
  by (simp add: write_at_def take_Suc_conv_app_nth)

lemma bin2bn_loop_eq:
  assumes "cbs_len c \<le> length (cbs_data c)" "i + length (pack b w (read_order lebin c)) \<le> length d"
  shows "bin2bn_loop lebin c d i b w =
    Some (write_at d i (pack b w (read_order lebin c)), i + length (pack b w (read_order lebin c)))"
  using assms
proof (induction lebin c d i b w rule: bin2bn_loop.induct)
  case (1 lebin c d i b w)
  show ?case
  proof (cases "0 < CBS_len c")
    case True
    obtain v c' where s: "(if lebin then CBS_get_u8 c else CBS_get_last_u8 c) = (Some v, c')"
      "read_order lebin c = v # read_order lebin c'" "cbs_len c' \<le> length (cbs_data c')"
      "CBS_len c' = 0 \<longleftrightarrow> read_order lebin c' = []" using read_order_step [OF 1(3) True] by metis
    define w' where "w' = w OR push_bit b (ucast v)"
    have step: "bin2bn_loop lebin c d i b w = (if b + 8 = 64 \<or> read_order lebin c' = []
        then bin2bn_loop lebin c' (d[i := w']) (i + 1) 0 0 else bin2bn_loop lebin c' d i (b + 8) w')"
      using True s by (subst bin2bn_loop.simps) (simp add: w'_def Let_def)
    show ?thesis
    proof (cases "b + 8 = 64 \<or> read_order lebin c' = []")
      case full: True
      then have p: "pack b w (read_order lebin c) = w' # pack 0 0 (read_order lebin c')" by (auto simp: s(2) w'_def)
      have "bin2bn_loop lebin c' (d[i := w']) (i + 1) 0 0 =
          Some (write_at (d[i := w']) (i + 1) (pack 0 0 (read_order lebin c')), i + 1 + length (pack 0 0 (read_order lebin c')))"
        using 1(1) [OF True s(1) [symmetric] refl w'_def refl] full s(3,4) 1(4) p by simp
      then show ?thesis using step full 1(4) p by (simp add: write_at_Cons)
    next
      case more: False
      then have p: "pack b w (read_order lebin c) = pack (b + 8) w' (read_order lebin c')" by (simp add: s(2) w'_def)
      have "bin2bn_loop lebin c' d i (b + 8) w' =
          Some (write_at d i (pack (b + 8) w' (read_order lebin c')), i + length (pack (b + 8) w' (read_order lebin c')))"
        using 1(2) [OF True s(1) [symmetric] refl w'_def refl] more s(3,4) 1(4) p by simp
      then show ?thesis using step more p by simp
    qed
  next
    case False
    then show ?thesis by (subst bin2bn_loop.simps) (simp add: read_order_def CBS_len_def)
  qed
qed

lemma le_val_append: "le_val (xs @ [v]) = le_val xs + 256 ^ length xs * uint v"
  by (induction xs) (simp_all add: algebra_simps)

lemma le_val_rev: "le_val (rev bs) = int (be_val bs)"
proof (induction bs)
  case (Cons b bs)
  then show ?case by (simp add: le_val_append be_val_Cons)
qed simp

text \<open>Reading a byte string gives its value, whatever the number held before.\<close>

lemma bn_bin2bn_cbs_ok:
  assumes "length bs \<le> 2 ^ 31 - 8" "\<And>bn. bnp = Some bn \<Longrightarrow> bn_fits bn"
    and "bn_bin2bn_cbs alloc bnp (CBS_init bs (length bs)) lebin = (ret, bn')"
  shows "ret \<Longrightarrow> \<exists>bn. bn' = Some bn \<and> bn_ok bn \<and> bn_int bn = le_val (if lebin then bs else rev bs)"
    and "\<not> ret \<Longrightarrow> bn' = bnp"
    and "(case bnp of None \<Rightarrow> alloc 24 \<and> length bs \<le> 8 * BN_MAX_WORDS \<and> (\<forall>n \<le> length bs + 7. alloc n)
         | Some bn \<Rightarrow> can_expand alloc bn ((length bs + 7) div 8)) \<Longrightarrow> ret"
proof -
  define c where "c = CBS_init bs (length bs)"
  define n where "n = (length bs + 7) div 8"
  have ro: "read_order lebin c = (if lebin then bs else rev bs)" by (simp add: read_order_def c_def CBS_init_def)
  define xs where "xs = (if lebin then bs else rev bs)"
  have c: "cbs_len c \<le> length (cbs_data c)" "CBS_len c = length bs" by (simp_all add: c_def CBS_init_def CBS_len_def)
  have pk: "bn_val (pack 0 0 xs) = le_val xs" "length (pack 0 0 xs) = n"
    using pack_value [of 0 0 xs] by (cases "xs = []"; auto simp: xs_def n_def split: if_splits)+
  have main: "(ret \<longrightarrow> (\<exists>bn. bn' = Some bn \<and> bn_ok bn \<and> bn_int bn = le_val xs)) \<and> (\<not> ret \<longrightarrow> bn' = bnp) \<and>
      (can_expand alloc bn0 n \<longrightarrow> ret)"
    if src: "(case bnp of None \<Rightarrow> BN_new alloc | Some bn \<Rightarrow> Some bn) = Some bn0" and f0: "bn_fits bn0" for bn0
  proof -
    have e: "bn_expand_bytes alloc bn0 (CBS_len c) = bn_wexpand alloc bn0 (int n)"
      using assms(1) by (simp add: bn_expand_bytes_def c(2) INT_MAX_def BN_BYTES_def n_def zdiv_int add.commute)
    show ?thesis
    proof (cases "can_expand alloc bn0 n")
      case True
      then obtain x where x: "bn_wexpand alloc bn0 (int n) = (True, x)" by (simp add: bn_wexpand_eq)
      note X = bn_wexpand_ok [OF x f0]
      have "bin2bn_loop lebin c (bn_d x) 0 0 0 = Some (write_at (bn_d x) 0 (pack 0 0 xs), n)"
        using bin2bn_loop_eq [OF c(1), of 0 0 0 lebin "bn_d x"] X(2) pk(2) by (simp add: ro xs_def [symmetric] bn_dmax_def)
      moreover define y where "y = x\<lparr>bn_d := write_at (bn_d x) 0 (pack 0 0 xs), bn_neg := 0, bn_top := n\<rparr>"
      ultimately have r: "ret" "bn' = Some (bn_correct_top y)"
        using assms(3) src e x unfolding c_def [symmetric] by (auto simp: bn_bin2bn_cbs_def)
      have fy: "bn_fits y" using X(1,2) pk(2) by (simp add: y_def bn_fits_def bn_dmax_def)
      have my: "bn_mag y = le_val xs" using pk X(2) by (simp add: y_def bn_mag_def write_at_def bn_dmax_def)
      note ct = bn_correct_top_ok [OF fy]
      have ny: "bn_neg y = 0" by (simp add: y_def)
      have "bn_ok (bn_correct_top y)" using ct ny by (simp add: bn_ok_def)
      moreover have "bn_int (bn_correct_top y) = le_val xs" using ct(2) ny my by (simp add: bn_int_def)
      ultimately show ?thesis using r by simp
    next
      case False
      then have "ret = False" "bn' = bnp"
        using assms(3) src e unfolding c_def [symmetric] by (auto simp: bn_bin2bn_cbs_def bn_wexpand_eq split: option.splits)
      then show ?thesis using False by simp
    qed
  qed
  have all: "(ret \<longrightarrow> (\<exists>bn. bn' = Some bn \<and> bn_ok bn \<and> bn_int bn = le_val xs)) \<and> (\<not> ret \<longrightarrow> bn' = bnp) \<and>
    ((case bnp of None \<Rightarrow> alloc 24 \<and> length bs \<le> 8 * BN_MAX_WORDS \<and> (\<forall>n \<le> length bs + 7. alloc n)
         | Some bn \<Rightarrow> can_expand alloc bn n) \<longrightarrow> ret)"
  proof (cases bnp)
    case (Some bn)
    then show ?thesis using main [of bn] assms(2) by simp
  next
    case None
    show ?thesis
    proof (cases "BN_new alloc")
      case n0: None
      then have "\<not> alloc 24" by (simp add: BN_new_def split: if_splits)
      moreover have "ret = False" "bn' = None" using assms(3) None n0 by (simp_all add: bn_bin2bn_cbs_def)
      ultimately show ?thesis using None by simp
    next
      case (Some t)
      note t = BN_new_ok [OF Some]
      have "can_expand alloc t n" if "length bs \<le> 8 * BN_MAX_WORDS" "\<forall>k \<le> length bs + 7. alloc k"
      proof -
        have "n * 8 \<le> length bs + 7" "n \<le> BN_MAX_WORDS" using that(1) by (simp_all add: n_def)
        then show ?thesis using t that(2) by (simp add: can_expand_def)
      qed
      then show ?thesis using main [of t] None Some bn_ok_fits t by auto
    qed
  qed
  then show "ret \<Longrightarrow> \<exists>bn. bn' = Some bn \<and> bn_ok bn \<and> bn_int bn = le_val (if lebin then bs else rev bs)"
    and "\<not> ret \<Longrightarrow> bn' = bnp"
    and "(case bnp of None \<Rightarrow> alloc 24 \<and> length bs \<le> 8 * BN_MAX_WORDS \<and> (\<forall>n \<le> length bs + 7. alloc n)
         | Some bn \<Rightarrow> can_expand alloc bn ((length bs + 7) div 8)) \<Longrightarrow> ret"
    unfolding xs_def n_def by blast+
qed

text \<open>\<open>BN_bn2bin\<close> writes as many bytes as the magnitude needs.\<close>

lemma BN_bn2bin_eq:
  assumes "bn_ok bn"
  shows "BN_bn2bin bn = Some (be_bytes (nat (BN_num_bytes bn)) (nat (bn_mag bn)))"
proof -
  note nb = BN_num_bytes_bound [OF assms]
  have "BN_bn2bin bn = bn_bn2binpad_internal bn (BN_num_bytes bn) False"
    using nb(1) unfolding BN_bn2bin_def bn_bn2binpad_internal_def Let_def by simp
  also have "\<dots> = Some (be_bytes (nat (BN_num_bytes bn)) (nat (bn_mag bn)))"
    using bn_bn2binpad_internal_eq [OF assms nb(1), of False] nb(2,3) by simp
  finally show ?thesis .
qed

lemma BN_num_bytes_minimal:
  assumes "bn_ok bn" "nat (BN_num_bytes bn) = Suc k"
  shows "256 ^ k \<le> bn_mag bn"
proof (rule ccontr)
  assume "\<not> 256 ^ k \<le> bn_mag bn"
  moreover have "int k < 2 ^ 62"
  proof -
    have "BN_num_bytes bn \<le> 2147483648" using BN_num_bytes_bound(3) [OF assms(1)] by simp
    then have "int k < 4611686018427387904" using assms(2) by linarith
    then show ?thesis by simp
  qed
  ultimately have "bn_bn2binpad_internal bn (int k) False \<noteq> None"
    using bn_bn2binpad_internal_eq [OF assms(1), of "int k" False] by simp
  moreover have "int k < BN_num_bytes bn" using assms(2) by linarith
  ultimately show False by (simp add: bn_bn2binpad_internal_def Let_def)
qed

lemma BN_bn2bin_minimal:
  assumes "bn_ok bn" "nat (BN_num_bytes bn) = Suc k"
  shows "hd (be_bytes (Suc k) (nat (bn_mag bn))) \<noteq> 0"
proof -
  define m where "m = nat (bn_mag bn)"
  have im: "int m = bn_mag bn" by (simp add: m_def)
  have "int (256 ^ k) \<le> int m" using BN_num_bytes_minimal [OF assms] by (simp add: im)
  then have ge: "256 ^ k \<le> m" by (simp only: of_nat_le_iff)
  have "int m < int (256 ^ Suc k)" using BN_num_bytes_bound(2) [OF assms(1)] assms(2) by (simp add: im)
  then have "m < 256 ^ k * 256" by (simp only: of_nat_less_iff power_Suc mult.commute)
  then have "m div 256 ^ k < 256" by (simp add: div_less_iff_less_mult mult.commute)
  moreover have "0 < m div 256 ^ k" using ge by (simp add: div_greater_zero_iff)
  ultimately have "(of_nat (m div 256 ^ k mod 256) :: u8) \<noteq> 0"
    by (simp add: word_unat_eq_iff unat_of_nat)
  then show ?thesis unfolding be_bytes_Cons m_def by simp
qed

lemma BN_bn2bin_value:
  assumes "bn_ok bn"
  shows "\<exists>out. BN_bn2bin bn = Some out \<and> int (be_val out) = \<bar>bn_int bn\<bar> \<and> (out = [] \<or> hd out \<noteq> 0)"
proof -
  define n where "n = nat (BN_num_bytes bn)"
  define out where "out = be_bytes n (nat (bn_mag bn))"
  have "int (nat (bn_mag bn)) < int (256 ^ n)" using BN_num_bytes_bound(2) [OF assms] by (simp add: n_def)
  then have "nat (bn_mag bn) < 256 ^ n" by (simp only: of_nat_less_iff)
  then have "int (be_val out) = \<bar>bn_int bn\<bar>" by (simp add: out_def be_val_be_bytes_exact bn_mag_abs)
  moreover have "out = [] \<or> hd out \<noteq> 0"
    using BN_bn2bin_minimal [OF assms] by (cases n) (simp_all add: out_def n_def del: be_bytes.simps(2))
  ultimately show ?thesis using BN_bn2bin_eq [OF assms] by (simp add: out_def n_def)
qed

section \<open>Properties\<close>

text \<open>
  C36.  Byte strings and numbers: \<open>BN_bin2bn\<close> and \<open>BN_lebin2bn\<close> give the number that
  a string denotes, in normal form, and leave the old number when they fail; writing
  it back with its length gives the same string.  \<open>BN_bn2binpad\<close> fails exactly if the
  magnitude does not fit the length, and \<open>BN_bn2bin\<close> writes the magnitude without
  leading zero bytes.
\<close>

theorem bn_bin_roundtrip:
  assumes "length bs \<le> 2 ^ 31 - 8" and "\<And>old. bnp = Some old \<Longrightarrow> bn_fits old"
    and "BN_bin2bn alloc bs (int (length bs)) bnp = (ret, res)"
    and "BN_lebin2bn alloc bs (int (length bs)) bnp = (lret, lres)"
    and "bn_ok bn" and "0 \<le> len" and "len < 2 ^ 31"
  shows "(if ret then \<exists>x. res = Some x \<and> bn_ok x \<and> bn_int x = int (be_val bs) \<and> BN_bn2binpad x (int (length bs)) = Some bs
      else res = bnp) \<and>
    (if lret then \<exists>x. lres = Some x \<and> bn_ok x \<and> bn_int x = int (be_val (rev bs)) \<and> BN_bn2lebinpad x (int (length bs)) = Some bs
      else lres = bnp) \<and>
    BN_bn2binpad bn len = (if \<bar>bn_int bn\<bar> < 256 ^ nat len then Some (be_bytes (nat len) (nat \<bar>bn_int bn\<bar>)) else None) \<and>
    (\<exists>out. BN_bn2bin bn = Some out \<and> int (be_val out) = \<bar>bn_int bn\<bar> \<and> (out = [] \<or> hd out \<noteq> 0))"
proof -
  have out: "BN_bn2binpad x len' = (if \<bar>bn_int x\<bar> < 256 ^ nat len' then Some (be_bytes (nat len') (nat \<bar>bn_int x\<bar>)) else None)"
    "BN_bn2lebinpad x len' = (if \<bar>bn_int x\<bar> < 256 ^ nat len' then Some (rev (be_bytes (nat len') (nat \<bar>bn_int x\<bar>))) else None)"
    if "bn_ok x" "0 \<le> len'" "len' < 2 ^ 31" for x len'
    using bn_bn2binpad_internal_eq [OF that(1,2)] that by (simp_all add: BN_bn2binpad_def BN_bn2lebinpad_def bn_mag_abs)
  have len: "int (length bs) < 2 ^ 31" using assms(1) by simp
  have lt: "int (be_val cs) < 256 ^ length cs" for cs using be_val_lt [of cs] by (metis of_nat_less_iff of_nat_numeral of_nat_power)
  have be: "BN_bn2binpad x (int (length bs)) = Some bs" if "bn_ok x" "bn_int x = int (be_val bs)" for x
    using out(1) [OF that(1) _ len] that(2) lt [of bs] by (simp add: be_bytes_be_val)
  have le: "BN_bn2lebinpad x (int (length bs)) = Some bs" if "bn_ok x" "bn_int x = int (be_val (rev bs))" for x
    using out(2) [OF that(1) _ len] that(2) lt [of "rev bs"] be_bytes_be_val [of "rev bs"] by simp
  have b: "bn_bin2bn_cbs alloc bnp (CBS_init bs (length bs)) False = (ret, res)"
    and l: "bn_bin2bn_cbs alloc bnp (CBS_init bs (length bs)) True = (lret, lres)"
    using assms(3,4) by (simp_all add: BN_bin2bn_def BN_lebin2bn_def)
  have 1: "if ret then \<exists>x. res = Some x \<and> bn_ok x \<and> bn_int x = int (be_val bs) \<and> BN_bn2binpad x (int (length bs)) = Some bs
      else res = bnp"
    using bn_bin2bn_cbs_ok(1,2) [OF assms(1,2) b] be by (auto simp: le_val_rev)
  have 2: "if lret then \<exists>x. lres = Some x \<and> bn_ok x \<and> bn_int x = int (be_val (rev bs)) \<and> BN_bn2lebinpad x (int (length bs)) = Some bs
      else lres = bnp"
    using bn_bin2bn_cbs_ok(1,2) [OF assms(1,2) l] le le_val_rev [of "rev bs"] by auto
  show ?thesis using 1 2 out(1) [OF assms(5-7)] BN_bn2bin_value [OF assms(5)] by blast
qed

definition example_number :: bignum where
  "example_number = \<lparr>bn_d = [0x0203], bn_top = 1, bn_neg = 0, bn_flags = BN_FLG_MALLOCED\<rparr>"

theorem bn_bin_roundtrip_witness:
  "\<exists>x. BN_bin2bn (\<lambda>n. True) [1, 2, 3] 3 None = (True, Some x) \<and> bn_int x = 0x010203 \<and> BN_bn2binpad x 3 = Some [1, 2, 3]"
proof -
  obtain ret res where b: "BN_bin2bn (\<lambda>n. True) [1, 2, 3] 3 None = (ret, res)" by fastforce
  obtain lret lres where l: "BN_lebin2bn (\<lambda>n. True) [1, 2, 3] 3 None = (lret, lres)" by fastforce
  have ok: "bn_ok example_number"
    by (simp add: example_number_def bn_ok_def bn_fits_def bn_dmax_def BN_MAX_WORDS_def)
  have "bn_bin2bn_cbs (\<lambda>n. True) None (CBS_init [1, 2, 3] (length [1, 2, 3 :: u8])) False = (ret, res)"
    using b by (simp add: BN_bin2bn_def numeral_3_eq_3)
  from bn_bin2bn_cbs_ok(3) [OF _ _ this] have ret: "ret" by (simp add: BN_MAX_WORDS_def)
  have val: "be_val [1, 2, 3 :: u8] = 0x010203" by (simp add: be_val_def)
  show ?thesis
    using bn_bin_roundtrip [of "[1, 2, 3]" None "\<lambda>n. True" ret res lret lres example_number 3] b l ok ret val
    by (simp del: rev.simps) blast
qed

end
