(* ===== verification/BN_Div_Words.thy ===== *)
theory BN_Div_Words
  imports BN_Arith
begin

text \<open>
  Division of words (libcrypto/bn/bn_div.c, the versions without a double word type)
  and of numbers by a word (bn_word.c).  Nothing but their arithmetic ends the two
  loops that correct an estimate, and \<open>bn_div_words\<close> has an assertion: they return
  an option, in which \<open>None\<close> stands for a call that does not return.  The lemmas
  show that it does, with the exact quotient, when the quotient fits a word.
\<close>

section \<open>Definitions\<close>

definition BN_MASK2h :: bn_word where "BN_MASK2h = 0xffffffff00000000"

partial_function (option) div_words_adjust ::
  "bn_word \<Rightarrow> bn_word \<Rightarrow> bn_word \<Rightarrow> bn_word \<Rightarrow> bn_word \<Rightarrow> bn_word \<Rightarrow> bn_word \<Rightarrow> (bn_word \<times> bn_word \<times> bn_word) option" where
  "div_words_adjust h l dh dl q th tlo =
     (let t = h - th
      in if t AND BN_MASK2h \<noteq> 0 \<or> tlo \<le> (push_bit 32 t OR drop_bit 32 (l AND BN_MASK2h)) then Some (q, th, tlo)
         else div_words_adjust h l dh dl (q - 1) (th - dh) (tlo - dl))"

text \<open>One turn of the outer loop: the digit of the quotient and what is left.\<close>

definition div_words_digit ::
  "bn_word \<Rightarrow> bn_word \<Rightarrow> bn_word \<Rightarrow> bn_word \<Rightarrow> bn_word \<Rightarrow> (bn_word \<times> bn_word \<times> bn_word) option" where
  "div_words_digit h l d dh dl =
     (let q = (if drop_bit 32 h = dh then BN_MASK2l else h div dh)
      in case div_words_adjust h l dh dl q (q * dh) (dl * q) of
           None \<Rightarrow> None
         | Some (q, th, tlo) \<Rightarrow>
            (let t = drop_bit 32 tlo;
                 tlo = push_bit 32 tlo AND BN_MASK2h;
                 th = th + t;
                 th = (if l < tlo then th + 1 else th);
                 l = l - tlo;
                 (h, q) = (if h < th then (h + d, q - 1) else (h, q))
             in Some (q, h - th, l)))"

text \<open>The outer loop runs twice.\<close>

definition div_words_loop :: "bn_word \<Rightarrow> bn_word \<Rightarrow> bn_word \<Rightarrow> bn_word option" where
  "div_words_loop h l d =
     (let dh = drop_bit 32 (d AND BN_MASK2h); dl = d AND BN_MASK2l
      in case div_words_digit h l d dh dl of
           None \<Rightarrow> None
         | Some (q, h, l) \<Rightarrow>
            (let ret = push_bit 32 q;
                 h = (push_bit 32 h OR drop_bit 32 l) AND BN_MASK2;
                 l = push_bit 32 (l AND BN_MASK2l)
             in case div_words_digit h l d dh dl of
                  None \<Rightarrow> None
                | Some (q, h, l) \<Rightarrow> Some (ret OR q)))"

definition bn_div_words :: "bn_word \<Rightarrow> bn_word \<Rightarrow> bn_word \<Rightarrow> bn_word option" where
  "bn_div_words h l d =
     (if d = 0 then Some BN_MASK2
      else let i = BN_num_bits_word d
       in if \<not> (i = BN_BITS2 \<or> h \<le> push_bit (nat i) 1) then None
          else let i = nat (BN_BITS2 - i);
                   h = (if h \<ge> d then h - d else h)
           in if i \<noteq> 0 then div_words_loop (push_bit i h OR drop_bit (64 - i) l) (push_bit i l) (push_bit i d)
              else div_words_loop h l d)"

definition bn_div_rem_words_inline :: "bn_word \<Rightarrow> bn_word \<Rightarrow> bn_word \<Rightarrow> (bn_word \<times> bn_word) option" where
  "bn_div_rem_words_inline h l d =
     (case bn_div_words h l d of None \<Rightarrow> None | Some q \<Rightarrow> Some (q, (l - q * d) AND BN_MASK2))"

definition bn_div_rem_words :: "bn_word \<Rightarrow> bn_word \<Rightarrow> bn_word \<Rightarrow> (bn_word \<times> bn_word) option" where
  "bn_div_rem_words h l d = bn_div_rem_words_inline h l d"

text \<open>\<open>m[0]\<close>, \<open>m[-1]\<close> and \<open>m[-2]\<close> are the words of the array \<open>m\<close> at and below the index \<open>i\<close>.\<close>

partial_function (option) div_3_words_adjust ::
  "bn_word \<Rightarrow> bn_word \<Rightarrow> bn_word \<Rightarrow> bn_word \<Rightarrow> bn_word \<Rightarrow> bn_word \<Rightarrow> bn_word \<Rightarrow> bn_word option" where
  "div_3_words_adjust n2 d1 d0 q rem t2h t2l =
     (if t2h < rem \<or> (t2h = rem \<and> t2l \<le> n2) then Some q
      else let q = q - 1; rem = rem + d0
       in if rem < d0 then Some q
          else div_3_words_adjust n2 d1 d0 q rem (if t2l < d1 then t2h - 1 else t2h) (t2l - d1))"

definition bn_div_3_words :: "words \<Rightarrow> nat \<Rightarrow> bn_word \<Rightarrow> bn_word \<Rightarrow> bn_word option" where
  "bn_div_3_words m i d1 d0 =
     (let n0 = m ! i; n1 = m ! (i - 1)
      in if n0 = d0 then Some BN_MASK2
         else case bn_div_rem_words n0 n1 d0 of
             None \<Rightarrow> None
           | Some (q, rem) \<Rightarrow>
              (let (t2h, t2l) = bn_mulw d1 q in div_3_words_adjust (m ! (i - 2)) d1 d0 q rem t2h t2l))"

fun div_word_loop :: "bn_word \<Rightarrow> words \<Rightarrow> nat \<Rightarrow> bn_word \<Rightarrow> (words \<times> bn_word) option" where
  "div_word_loop w d 0 ret = Some (d, ret)"
| "div_word_loop w d (Suc i) ret =
     (case bn_div_rem_words ret (d ! i) w of
        None \<Rightarrow> None
      | Some (q, ret) \<Rightarrow> div_word_loop w (d[i := q]) i ret)"

definition BN_div_word :: "(nat \<Rightarrow> bool) \<Rightarrow> bignum \<Rightarrow> bn_word \<Rightarrow> (bn_word \<times> bignum) option" where
  "BN_div_word alloc a w =
     (let w = w AND BN_MASK2
      in if w = 0 then Some (- 1, a)
         else if bn_top a = 0 then Some (0, a)
         else let j = BN_BITS2 - BN_num_bits_word w; w = push_bit (nat j) w
          in case BN_lshift alloc a a j of
               (False, a) \<Rightarrow> Some (- 1, a)
             | (True, a) \<Rightarrow>
                (case div_word_loop w (bn_d a) (bn_top a) 0 of
                   None \<Rightarrow> None
                 | Some (d, ret) \<Rightarrow>
                    (let a = a\<lparr>bn_d := d\<rparr>;
                         a = (if bn_top a > 0 \<and> bn_d a ! (bn_top a - 1) = 0 then a\<lparr>bn_top := bn_top a - 1\<rparr> else a)
                     in Some (drop_bit (nat j) ret, BN_set_negative a (bn_neg a)))))"

fun mod_word_loop :: "bn_word \<Rightarrow> words \<Rightarrow> nat \<Rightarrow> bn_word \<Rightarrow> bn_word" where
  "mod_word_loop w d 0 ret = ret"
| "mod_word_loop w d (Suc i) ret =
     (let ret = (push_bit 32 ret OR (drop_bit 32 (d ! i) AND BN_MASK2l)) mod w;
          ret = (push_bit 32 ret OR (d ! i AND BN_MASK2l)) mod w
      in mod_word_loop w d i ret)"

definition BN_mod_word :: "(nat \<Rightarrow> bool) \<Rightarrow> bignum \<Rightarrow> bn_word \<Rightarrow> bn_word option" where
  "BN_mod_word alloc a w =
     (if w = 0 then Some (- 1)
      else if w > push_bit 32 1 then
        (case BN_dup alloc (Some a) of
           None \<Rightarrow> Some (- 1)
         | Some tmp \<Rightarrow> (case BN_div_word alloc tmp w of None \<Rightarrow> None | Some (ret, tmp) \<Rightarrow> Some ret))
      else Some (mod_word_loop (w AND BN_MASK2) (bn_d a) (bn_top a) 0))"

section \<open>Division of a double word\<close>

lemma nat_div_eqI: "q * d \<le> x \<Longrightarrow> x < (q + 1) * d \<Longrightarrow> x div d = (q :: nat)"
  by (metis Suc_eq_plus1 div_nat_eqI mult.commute)

lemma bn_mask2_eq: "BN_MASK2 = - 1"
  by (simp add: BN_MASK2_def)

lemma mask2h_bit: "bit BN_MASK2h n \<longleftrightarrow> 32 \<le> n \<and> n < 64"
proof -
  have "BN_MASK2h = push_bit 32 (mask 32)" by (simp add: BN_MASK2h_def mask_eq_exp_minus_1 push_bit_eq_mult)
  show ?thesis unfolding \<open>BN_MASK2h = push_bit 32 (mask 32)\<close> by (auto simp: bit_simps)
qed

lemma and_mask2h: "t AND BN_MASK2h = push_bit 32 (drop_bit 32 t)"
  by (rule bit_word_eqI) (auto simp: bit_simps mask2h_bit)

lemma drop_and_mask2h: "drop_bit 32 (t AND BN_MASK2h) = drop_bit 32 t"
  by (rule bit_word_eqI) (auto simp: bit_simps mask2h_bit dest: bit_imp_le_length)

lemma unat_and_mask2h: "unat (t AND BN_MASK2h) = unat t div 2 ^ 32 * 2 ^ 32"
proof -
  have "unat (drop_bit 32 t) < 2 ^ 32" using u64_lt [of t] by (simp add: unat_drop_bit_64 div_less_iff_less_mult)
  then show ?thesis by (simp only: and_mask2h unat_push_bit_32 unat_drop_bit_64 mod_less)
qed

lemma and_mask2h_0_iff: "t AND BN_MASK2h = 0 \<longleftrightarrow> unat t < 2 ^ 32"
  using unat_and_mask2h [of t] by (simp add: word_unat_eq_iff div_eq_0_iff)

text \<open>Two halves put together.\<close>

lemma unat_or_halves:
  assumes "unat (x :: u64) < 2 ^ 32"
  shows "unat (push_bit 32 h OR x) = unat h mod 2 ^ 32 * 2 ^ 32 + unat x"
proof -
  have "take_bit 32 x = x" using assms by (simp add: word_unat_eq_iff unsigned_take_bit_eq take_bit_nat_eq_self)
  then have "push_bit 32 h AND x = push_bit 32 h AND take_bit 32 x" by simp
  also have "\<dots> = 0" by (rule bit_word_eqI) (auto simp: bit_simps)
  finally have "push_bit 32 h AND x = 0" .
  then have "push_bit 32 h OR x = push_bit 32 h + x" by (simp add: disjunctive_add_eq_or)
  moreover have "unat (push_bit 32 h) + unat x < 2 ^ 64"
  proof -
    have "unat h mod 2 ^ 32 \<le> 2 ^ 32 - 1" by simp
    then have "unat h mod 2 ^ 32 * 2 ^ 32 \<le> (2 ^ 32 - 1) * 2 ^ 32" by (rule mult_le_mono1)
    then show ?thesis using assms unfolding unat_push_bit_32 by simp
  qed
  ultimately show ?thesis by (simp only: unat_add_u64 if_True unat_push_bit_32)
qed


text \<open>The test of the inner loop compares \<open>q * d\<close> with the number made of \<open>h\<close> and the upper half of \<open>l\<close>.\<close>

lemma adjust_test:
  assumes "unat d = unat dh * 2 ^ 32 + unat dl" "unat dl < 2 ^ 32" "unat q < 2 ^ 32"
    and "unat th = unat q * unat dh" "unat tlo = unat q * unat dl" "unat th \<le> unat h"
  shows "(h - th) AND BN_MASK2h \<noteq> 0 \<or> tlo \<le> (push_bit 32 (h - th) OR drop_bit 32 (l AND BN_MASK2h))
    \<longleftrightarrow> unat q * unat d \<le> unat h * 2 ^ 32 + unat l div 2 ^ 32"
proof -
  define t where "t = unat (h - th)"
  have t: "unat h = unat q * unat dh + t" using assms(4,6) by (simp add: t_def unat_sub_u64)
  have qd: "unat q * unat d = unat q * unat dh * 2 ^ 32 + unat q * unat dl" by (simp add: assms(1) algebra_simps)
  have x: "unat h * 2 ^ 32 = unat q * unat dh * 2 ^ 32 + t * 2 ^ 32" by (simp only: t add_mult_distrib)
  have lhi: "unat (drop_bit 32 l) < 2 ^ 32" using u64_lt [of l] by (simp add: unat_drop_bit_64 div_less_iff_less_mult)
  show ?thesis
  proof (cases "t < 2 ^ 32")
    case True
    then have "unat (push_bit 32 (h - th) OR drop_bit 32 (l AND BN_MASK2h)) = t * 2 ^ 32 + unat l div 2 ^ 32"
      unfolding drop_and_mask2h unat_or_halves [OF lhi] by (simp add: t_def unat_drop_bit_64)
    moreover have "(h - th) AND BN_MASK2h = 0" using True by (simp add: and_mask2h_0_iff t_def)
    ultimately show ?thesis unfolding word_le_nat_alt assms(5) qd x by simp
  next
    case False
    have "unat q * unat dl \<le> 2 ^ 32 * 2 ^ 32" using assms(2,3) by (intro mult_le_mono) auto
    also have "\<dots> \<le> t * 2 ^ 32" using False by (intro mult_le_mono) auto
    finally have "unat q * unat d \<le> unat h * 2 ^ 32 + unat l div 2 ^ 32" unfolding qd x by linarith
    moreover have "(h - th) AND BN_MASK2h \<noteq> 0" using False by (simp add: and_mask2h_0_iff t_def)
    ultimately show ?thesis by simp
  qed
qed

text \<open>
  The estimate \<open>q\<close> starts at or above the digit and is lowered until \<open>q * d\<close> no
  longer exceeds that number \<open>x\<close>.
\<close>

lemma unat_pred: "0 < unat (q :: u64) \<Longrightarrow> unat (q - 1) = unat q - 1"
  by (simp add: unat_sub_u64)

lemma div_words_adjust_finds:
  assumes "unat d = unat dh * 2 ^ 32 + unat dl" "unat dl < 2 ^ 32" "0 < unat d"
    and "x = unat h * 2 ^ 32 + unat l div 2 ^ 32" "x div unat d \<le> unat q" "unat q < 2 ^ 32"
    and "unat th = unat q * unat dh" "unat tlo = unat q * unat dl" "unat th \<le> unat h"
  shows "\<exists>q' th' tl'. div_words_adjust h l dh dl q th tlo = Some (q', th', tl') \<and> unat q' = x div unat d \<and>
    unat th' = unat q' * unat dh \<and> unat tl' = unat q' * unat dl"
  using assms(5-)
proof (induction "unat q - x div unat d" arbitrary: q th tlo rule: less_induct)
  case less
  note test = adjust_test [OF assms(1,2) less.prems(2-5), of l, folded assms(4)]
  show ?case
  proof (cases "unat q * unat d \<le> x")
    case True
    then have "unat q \<le> x div unat d" using assms(3) by (simp add: less_eq_div_iff_mult_less_eq)
    then have "unat q = x div unat d" using less.prems(1) by simp
    then show ?thesis using True test less.prems by (subst div_words_adjust.simps) (simp add: Let_def)
  next
    case False
    then have lt: "x div unat d < unat q" using assms(3) by (simp add: div_less_iff_less_mult)
    then have q: "unat (q - 1) = unat q - 1" by (intro unat_pred) simp
    have le: "unat dh \<le> unat th" "unat dl \<le> unat tlo" using lt less.prems(3,4) by (cases "unat q"; simp)+
    then have "unat (th - dh) = unat th - unat dh" "unat (tlo - dl) = unat tlo - unat dl"
      by (simp_all only: unat_sub_u64 if_True)
    then have th: "unat (th - dh) = unat (q - 1) * unat dh" "unat (tlo - dl) = unat (q - 1) * unat dl"
      unfolding less.prems(3,4) by (simp_all add: q diff_mult_distrib)
    have eq: "div_words_adjust h l dh dl q th tlo = div_words_adjust h l dh dl (q - 1) (th - dh) (tlo - dl)"
      using False test by (subst div_words_adjust.simps) (simp add: Let_def)
    have "unat (q - 1) - x div unat d < unat q - x div unat d" "x div unat d \<le> unat (q - 1)" "unat (q - 1) < 2 ^ 32"
      "unat (th - dh) \<le> unat h"
      using lt q less.prems(2,5) le by (auto simp: unat_sub_u64)
    from less.hyps [OF this(1,2,3) th this(4)] show ?thesis by (simp add: eq)
  qed
qed

text \<open>The first estimate of a digit is not too small.\<close>

lemma first_digit_less:
  assumes "unat h < unat d" "x = unat h * 2 ^ 32 + unat (l :: u64) div 2 ^ 32"
  shows "x div unat d < 2 ^ 32"
proof -
  have "unat l div 2 ^ 32 < 2 ^ 32" using u64_lt [of l] by (simp add: div_less_iff_less_mult)
  then have "x < (unat h + 1) * 2 ^ 32" by (simp add: assms(2))
  also have "\<dots> \<le> unat d * 2 ^ 32" using assms(1) by (intro mult_le_mono1) simp
  finally show ?thesis using assms(1) by (simp add: div_less_iff_less_mult mult.commute)
qed

lemma first_estimate:
  assumes "unat d = unat dh * 2 ^ 32 + unat dl" "unat dl < 2 ^ 32" "2 ^ 31 \<le> unat dh" "unat h < unat d"
    and "q = (if drop_bit 32 h = dh then BN_MASK2l else h div dh)"
    and "x = unat h * 2 ^ 32 + unat (l :: u64) div 2 ^ 32"
  shows "x div unat d \<le> unat q" "unat q < 2 ^ 32" "unat q * unat dh \<le> unat h"
proof -
  have lhi: "unat l div 2 ^ 32 < 2 ^ 32" using u64_lt [of l] by (simp add: div_less_iff_less_mult)
  have hh: "unat h = unat h div 2 ^ 32 * 2 ^ 32 + unat h mod 2 ^ 32" by simp
  have m: "unat h mod 2 ^ 32 < 2 ^ 32" by simp
  have "unat h div 2 ^ 32 \<le> unat dh"
  proof (rule ccontr)
    assume "\<not> ?thesis"
    then have "unat dh + 1 \<le> unat h div 2 ^ 32" by simp
    then have "(unat dh + 1) * 2 ^ 32 \<le> unat h div 2 ^ 32 * 2 ^ 32" by (rule mult_le_mono1)
    then have "unat dh * 2 ^ 32 + 2 ^ 32 \<le> unat h div 2 ^ 32 * 2 ^ 32" by (simp only: add_mult_distrib mult_1)
    then show False using assms(1,2,4) hh by linarith
  qed
  note xd = first_digit_less [OF assms(4,6)]
  have "x div unat d \<le> unat q \<and> unat q < 2 ^ 32 \<and> unat q * unat dh \<le> unat h"
  proof (cases "drop_bit 32 h = dh")
    case True
    then have q: "unat q = 2 ^ 32 - 1" by (simp add: assms(5) BN_MASK2l_def)
    have "unat dh = unat h div 2 ^ 32" unfolding True [symmetric] unat_drop_bit_64 ..
    then have "unat dh * 2 ^ 32 \<le> unat h" by (simp only: div_times_less_eq_dividend)
    moreover have "(2 ^ 32 - 1) * unat dh \<le> unat dh * 2 ^ 32" by simp
    ultimately have "unat q * unat dh \<le> unat h" unfolding q by linarith
    then show ?thesis using xd q by simp
  next
    case False
    then have q: "unat q = unat h div unat dh" by (simp add: assms(5) unat_div)
    have "unat h div 2 ^ 32 \<noteq> unat dh" using False unfolding word_unat_eq_iff unat_drop_bit_64 .
    then have "unat h div 2 ^ 32 + 1 \<le> unat dh" using \<open>unat h div 2 ^ 32 \<le> unat dh\<close> by simp
    then have "(unat h div 2 ^ 32 + 1) * 2 ^ 32 \<le> unat dh * 2 ^ 32" by (rule mult_le_mono1)
    then have "unat h div 2 ^ 32 * 2 ^ 32 + 2 ^ 32 \<le> unat dh * 2 ^ 32" by (simp only: add_mult_distrib mult_1)
    then have "unat h < unat dh * 2 ^ 32" using hh m by linarith
    then have q32: "unat q < 2 ^ 32" using assms(3) by (simp add: q div_less_iff_less_mult mult.commute)
    have "x div unat d \<le> x div (unat dh * 2 ^ 32)" using assms(1,3) by (intro div_le_mono2) auto
    also have "\<dots> = x div 2 ^ 32 div unat dh" by (simp only: mult.commute [of "unat dh"] div_mult2_eq)
    also have "x div 2 ^ 32 = unat h" using lhi by (simp add: assms(6))
    finally show ?thesis using q32 by (simp add: q)
  qed
  then show "x div unat d \<le> unat q" "unat q < 2 ^ 32" "unat q * unat dh \<le> unat h" by simp_all
qed


text \<open>Subtraction of double words: the high words and a borrow.\<close>

lemma double_word_sub:
  fixes h l a c r B :: nat
  assumes "h * B + l = a * B + c + r" "l < B" "c < B"
  shows "a + of_bool (l < c) \<le> h"
    "(h - (a + of_bool (l < c))) * B + (if c \<le> l then l - c else l + B - c) = r"
proof -
  define b :: nat where "b = of_bool (l < c)"
  have lt: "(if c \<le> l then l - c else l + B - c) + c = l + b * B" using assms(2,3) by (auto simp: b_def)
  have "(a + b) * B < (h + 1) * B"
  proof -
    have "(a + b) * B + (c + r) = h * B + l + b * B" using assms(1) by (simp add: algebra_simps)
    moreover have "l + b * B < B + (c + r)" using assms(2,3) by (auto simp: b_def)
    ultimately show ?thesis by (simp add: algebra_simps)
  qed
  then have le: "a + b \<le> h" by (simp del: mult_Suc)
  then obtain k where k: "h = a + b + k" using le_Suc_ex by blast
  have "k * B + (a * B + b * B + l) = a * B + c + r" using assms(1) by (simp add: k algebra_simps)
  then have "k * B + (if c \<le> l then l - c else l + B - c) = r" using lt by linarith
  then show "a + of_bool (l < c) \<le> h" "(h - (a + of_bool (l < c))) * B + (if c \<le> l then l - c else l + B - c) = r"
    using le by (simp_all add: b_def [symmetric] k)
qed

lemma half_words: "unat (a :: u64) = unat a div 2 ^ 32 * 2 ^ 32 + unat a mod 2 ^ 32"
  by simp

lemma div_words_digit_exact:
  assumes "2 ^ 63 \<le> unat d" "unat h < unat d" "dh = drop_bit 32 (d AND BN_MASK2h)" "dl = d AND BN_MASK2l"
    and "x = unat h * 2 ^ 32 + unat l div 2 ^ 32"
  shows "\<exists>q h' l'. div_words_digit h l d dh dl = Some (q, h', l') \<and> unat q = x div unat d \<and>
    unat h' * 2 ^ 64 + unat l' = x mod unat d * 2 ^ 32 + unat l mod 2 ^ 32"
proof -
  have dh: "unat dh = unat d div 2 ^ 32" unfolding assms(3) drop_and_mask2h unat_drop_bit_64 ..
  have dl: "unat dl = unat d mod 2 ^ 32" unfolding assms(4) unat_and_mask2l ..
  have d: "unat d = unat dh * 2 ^ 32 + unat dl" "unat dl < 2 ^ 32" unfolding dh dl by simp_all
  have dh31: "2 ^ 31 \<le> unat dh" unfolding dh using assms(1) by (simp add: less_eq_div_iff_mult_less_eq)
  have dpos: "0 < unat d" using assms(2) by simp
  define q0 where "q0 = (if drop_bit 32 h = dh then BN_MASK2l else h div dh)"
  note est = first_estimate [OF d dh31 assms(2) q0_def assms(5)]
  have dh32: "unat dh < 2 ^ 32" unfolding dh using u64_lt [of d] by (simp add: div_less_iff_less_mult)
  have prod: "unat (q0 * dh) = unat q0 * unat dh" "unat (dl * q0) = unat q0 * unat dl"
    using unat_mult_halves [OF est(2) dh32] unat_mult_halves [OF d(2) est(2)] by (simp_all add: mult.commute)
  have "unat (q0 * dh) \<le> unat h" using est(3) prod by simp
  from div_words_adjust_finds [OF d dpos assms(5) est(1,2) prod this]
  obtain q th tlo where adj: "div_words_adjust h l dh dl q0 (q0 * dh) (dl * q0) = Some (q, th, tlo)"
    and q: "unat q = x div unat d" "unat th = unat q * unat dh" "unat tlo = unat q * unat dl" by blast
  define t t2 where "t = unat tlo div 2 ^ 32" and "t2 = push_bit 32 tlo AND BN_MASK2h"
  have "t2 = push_bit 32 tlo" unfolding t2_def by (rule bit_word_eqI) (auto simp: bit_simps mask2h_bit)
  then have t2: "unat t2 = unat tlo mod 2 ^ 32 * 2 ^ 32" by (simp only: unat_push_bit_32)
  define r where "r = x mod unat d * 2 ^ 32 + unat l mod 2 ^ 32"
  have qd: "unat q * unat d = unat th * 2 ^ 32 + unat tlo" unfolding q(2,3) by (simp add: d(1) algebra_simps)
  have tlo: "unat tlo * 2 ^ 32 = t * 2 ^ 64 + unat t2"
  proof -
    have "unat tlo * 2 ^ 32 = (t * 2 ^ 32 + unat tlo mod 2 ^ 32) * 2 ^ 32" by (simp add: t_def)
    then show ?thesis unfolding t2 by (simp add: algebra_simps)
  qed
  have "x = unat th * 2 ^ 32 + unat tlo + x mod unat d" using qd q(1) by (metis div_mult_mod_eq)
  then have x32: "x * 2 ^ 32 = unat th * 2 ^ 64 + unat tlo * 2 ^ 32 + x mod unat d * 2 ^ 32"
    by (metis (no_types, lifting) add_mult_distrib mult.assoc numeral_Bit0 power_add)
  have hl: "unat h * 2 ^ 64 + unat l = x * 2 ^ 32 + unat l mod 2 ^ 32"
    using half_words [of l] unfolding assms(5) by (simp add: algebra_simps)
  then have N: "unat h * 2 ^ 64 + unat l = (unat th + t) * 2 ^ 64 + unat t2 + r"
    unfolding x32 tlo r_def by (simp add: algebra_simps)
  note sub = double_word_sub [OF N u64_lt u64_lt]
  have tle: "unat th + t + of_bool (unat l < unat t2) < 2 ^ 64" using sub(1) u64_lt [of h] by linarith
  have th1: "unat (th + drop_bit 32 tlo) = unat th + t"
    using tle unfolding unat_add_mod unat_drop_bit_64 t_def [symmetric] by simp
  define th2 where "th2 = (if l < t2 then th + drop_bit 32 tlo + 1 else th + drop_bit 32 tlo)"
  have th2: "unat th2 = unat th + t + of_bool (unat l < unat t2)"
    using tle th1 by (auto simp: th2_def word_less_nat_alt unat_add_mod)
  have "\<not> h < th2" using sub(1) unfolding word_less_nat_alt th2 by simp
  then have dig: "div_words_digit h l d dh dl = Some (q, h - th2, l - t2)"
    by (simp add: div_words_digit_def q0_def [symmetric] adj Let_def t2_def [symmetric] th2_def [symmetric])
  have "unat (h - th2) = unat h - unat th2" using sub(1) unfolding unat_sub_u64 th2 by simp
  then have "unat (h - th2) * 2 ^ 64 + unat (l - t2) = r"
    using sub(2) unfolding th2 unat_sub_u64 [of l] by simp
  then show ?thesis using dig q(1) by (auto simp: r_def)
qed


text \<open>Two digits make the quotient of a normalised division.\<close>

lemma two_digits:
  fixes h l d B :: nat
  assumes "x = h * B + l div B" "y = x mod d * B + l mod B" "0 < d" "0 < B"
  shows "x div d * B + y div d = (h * (B * B) + l) div d" "y mod d = (h * (B * B) + l) mod d"
proof -
  have "x * B = (x div d * d + x mod d) * B" by simp
  also have "\<dots> = x div d * B * d + x mod d * B" by (simp only: distrib_left distrib_right mult_ac)
  finally have "x * B = x div d * B * d + x mod d * B" .
  moreover have "h * (B * B) + l = x * B + l mod B" by (simp add: assms(1) algebra_simps)
  ultimately have "h * (B * B) + l = x div d * B * d + y" by (simp add: assms(2))
  then show "x div d * B + y div d = (h * (B * B) + l) div d" "y mod d = (h * (B * B) + l) mod d"
    using assms(3) by simp_all
qed

lemma same_digits: "a * B + b = a' * B + b' \<Longrightarrow> b < B \<Longrightarrow> b' < B \<Longrightarrow> a = a' \<and> b = (b' :: nat)"
  by (metis (no_types, lifting) div_mult_self3 div_less add_0_right mod_less mod_mult_self3 not_less0)

lemma div_words_loop_exact:
  assumes "2 ^ 63 \<le> unat d" "unat h < unat d"
  shows "\<exists>q. div_words_loop h l d = Some q \<and> unat q = (unat h * 2 ^ 64 + unat l) div unat d"
proof -
  define dh dl where "dh = drop_bit 32 (d AND BN_MASK2h)" and "dl = d AND BN_MASK2l"
  define x where "x = unat h * 2 ^ 32 + unat l div 2 ^ 32"
  define r where "r = x mod unat d"
  have dpos: "0 < unat d" using assms(2) by simp
  obtain q1 h1 l1 where 1: "div_words_digit h l d dh dl = Some (q1, h1, l1)" "unat q1 = x div unat d"
      "unat h1 * 2 ^ 64 + unat l1 = r * 2 ^ 32 + unat l mod 2 ^ 32"
    using div_words_digit_exact [OF assms dh_def dl_def x_def] unfolding r_def by blast
  have rd: "r < unat d" using dpos by (simp add: r_def)
  have low: "unat l1 mod 2 ^ 32 = unat l mod 2 ^ 32" "unat h1 * 2 ^ 32 + unat l1 div 2 ^ 32 = r"
  proof -
    have "(unat h1 * 2 ^ 32 + unat l1 div 2 ^ 32) * 2 ^ 32 + unat l1 mod 2 ^ 32 = r * 2 ^ 32 + unat l mod 2 ^ 32"
      using 1(3) half_words [of l1] by (simp add: algebra_simps)
    from same_digits [OF this]
    show "unat l1 mod 2 ^ 32 = unat l mod 2 ^ 32" "unat h1 * 2 ^ 32 + unat l1 div 2 ^ 32 = r" by simp_all
  qed
  define h2 l2 where "h2 = (push_bit 32 h1 OR drop_bit 32 l1) AND BN_MASK2" and "l2 = push_bit 32 (l1 AND BN_MASK2l)"
  have l1hi: "unat (drop_bit 32 l1) < 2 ^ 32" using u64_lt [of l1] by (simp add: unat_drop_bit_64 div_less_iff_less_mult)
  have "unat h1 * 2 ^ 32 < 2 ^ 32 * 2 ^ 32" using low(2) rd u64_lt [of d] by simp
  then have "unat h1 < 2 ^ 32" by simp
  then have h2: "unat h2 = r" using unat_or_halves [OF l1hi, of h1] low(2) by (simp add: h2_def bn_mask2_eq unat_drop_bit_64)
  have l2: "unat l2 = unat l mod 2 ^ 32 * 2 ^ 32"
    unfolding l2_def unat_push_bit_32 unat_and_mask2l low(1) by simp
  define y where "y = unat h2 * 2 ^ 32 + unat l2 div 2 ^ 32"
  have y: "y = r * 2 ^ 32 + unat l mod 2 ^ 32" by (simp add: y_def h2 l2)
  obtain q2 h3 l3 where 2: "div_words_digit h2 l2 d dh dl = Some (q2, h3, l3)" "unat q2 = y div unat d"
    using div_words_digit_exact [OF assms(1) _ dh_def dl_def y_def] rd h2 by auto
  have lt: "x div unat d < 2 ^ 32" "y div unat d < 2 ^ 32"
    using first_digit_less [OF assms(2) x_def] first_digit_less [of h2 d y l2] rd h2 y_def by simp_all
  have "unat (push_bit 32 q1 OR q2) = x div unat d * 2 ^ 32 + y div unat d"
    using unat_or_halves [of q2 q1] 1(2) 2(2) lt by simp
  also have "\<dots> = (unat h * 2 ^ 64 + unat l) div unat d"
    using two_digits(1) [OF x_def y [unfolded r_def] dpos] by simp
  finally have "unat (push_bit 32 q1 OR q2) = (unat h * 2 ^ 64 + unat l) div unat d" .
  moreover have "div_words_loop h l d = Some (push_bit 32 q1 OR q2)"
    unfolding div_words_loop_def dh_def [symmetric] dl_def [symmetric] Let_def
    unfolding 1(1) option.case prod.case h2_def [symmetric] l2_def [symmetric] 2(1) ..
  ultimately show ?thesis by blast
qed


text \<open>A shift to the left by the number of leading zeros loses nothing of the divisor and of a smaller number.\<close>

lemma unat_push_bit_64: "unat (push_bit i (x :: u64)) = unat x * 2 ^ i mod 2 ^ 64"
proof -
  have "unat (push_bit i x) = take_bit 64 (push_bit i (unat x))" by (simp only: unsigned_push_bit_eq) simp
  then show ?thesis by (simp only: take_bit_eq_mod push_bit_eq_mult [where a = "unat x"])
qed

lemma bn_div_words_exact:
  assumes "unat h < unat d"
  shows "\<exists>q. bn_div_words h l d = Some q \<and> unat q = (unat h * 2 ^ 64 + unat l) div unat d"
proof -
  have d0: "d \<noteq> 0" using assms by auto
  define b where "b = word_bits d"
  define i where "i = 64 - b"
  note wb = word_bits_bounds [OF d0, folded b_def]
  have nb: "BN_num_bits_word d = int b" by (simp add: BN_num_bits_word_def BN_BITS2_def wb(5))
  have ib: "b + i = 64" using wb(4) by (simp add: i_def)
  have hd: "\<not> d \<le> h" using assms by (simp add: word_le_nat_alt)
  have assert: "b = 64 \<or> h \<le> push_bit b 1"
  proof (cases "b = 64")
    case False
    then have "b < 64" using wb(4) by simp
    then have "(2 :: nat) ^ b < 2 ^ 64" by (intro power_strict_increasing) simp_all
    then have "unat (push_bit b (1 :: u64)) = 2 ^ b" unfolding unat_push_bit_64 by simp
    then show ?thesis using wb(2) assms by (simp add: word_le_nat_alt)
  qed simp
  show ?thesis
  proof (cases "i = 0")
    case True
    then have "b = 64" using ib by simp
    then have "2 ^ 63 \<le> unat d" using wb(1) by simp
    moreover have "bn_div_words h l d = div_words_loop h l d"
      using d0 hd \<open>b = 64\<close> by (simp add: bn_div_words_def nb BN_BITS2_def)
    ultimately show ?thesis using div_words_loop_exact [OF _ assms] by simp
  next
    case False
    have b63: "b < 64" using False ib by simp
    have p: "(2 :: nat) ^ b * 2 ^ i = 2 ^ 64" unfolding power_add [symmetric] ib ..
    define d' h' l' where "d' = push_bit i d" and "h' = push_bit i h OR drop_bit b l" and "l' = push_bit i l"
    have d: "unat d' = unat d * 2 ^ i"
    proof -
      have "unat d * 2 ^ i < 2 ^ b * 2 ^ i" using wb(2) by simp
      then show ?thesis unfolding d'_def unat_push_bit_64 p by simp
    qed
    have d63: "2 ^ 63 \<le> unat d'"
    proof -
      have "b - 1 + i = 63" using ib wb(3) by simp
      then have "(2 :: nat) ^ 63 = 2 ^ (b - 1) * 2 ^ i" by (simp flip: power_add)
      also have "\<dots> \<le> unat d * 2 ^ i" using wb(1) by simp
      finally show ?thesis by (simp add: d)
    qed
    have "push_bit i h AND drop_bit b l = 0"
      by (rule bit_word_eqI) (use ib in \<open>auto simp: bit_simps dest!: bit_imp_le_length\<close>)
    then have h': "h' = push_bit i h + drop_bit b l" by (simp add: h'_def disjunctive_add_eq_or)
    have lt: "unat h * 2 ^ i + unat l div 2 ^ b < unat d * 2 ^ i"
    proof -
      have "unat l div 2 ^ b < 2 ^ i" using u64_lt [of l] p by (simp add: div_less_iff_less_mult mult.commute)
      then have "unat h * 2 ^ i + unat l div 2 ^ b < (unat h + 1) * 2 ^ i" by simp
      also have "\<dots> \<le> unat d * 2 ^ i" using assms by (intro mult_le_mono1) simp
      finally show ?thesis .
    qed
    moreover have "unat d * 2 ^ i < 2 ^ 64" using d u64_lt [of d'] by simp
    ultimately have "unat h * 2 ^ i < 2 ^ 64" "unat h * 2 ^ i + unat l div 2 ^ b < 2 ^ 64" by linarith+
    then have h: "unat h' = unat h * 2 ^ i + unat l div 2 ^ b"
      unfolding h' unat_add_mod unat_push_bit_64 unat_drop_bit_64 by (simp only: mod_less)
    then have hd': "unat h' < unat d'" using lt d by simp
    have l: "unat l' = unat l mod 2 ^ b * 2 ^ i" unfolding l'_def unat_push_bit_64 p [symmetric] by (simp only: mult_mod_left)
    have "unat h' * 2 ^ 64 + unat l' = (unat h * 2 ^ 64 + (unat l div 2 ^ b * 2 ^ b + unat l mod 2 ^ b)) * 2 ^ i"
      unfolding h l p [symmetric] by (simp only: distrib_left distrib_right mult_ac add_ac)
    then have "unat h' * 2 ^ 64 + unat l' = (unat h * 2 ^ 64 + unat l) * 2 ^ i" by (simp only: div_mult_mod_eq)
    then have "(unat h' * 2 ^ 64 + unat l') div unat d' = (unat h * 2 ^ 64 + unat l) div unat d"
      unfolding d by simp
    moreover have "bn_div_words h l d = div_words_loop h' l' d'"
    proof -
      have "64 - i = b" "nat (BN_BITS2 - int b) = i" using ib by (auto simp: BN_BITS2_def i_def)
      then show ?thesis using d0 hd assert False by (auto simp: bn_div_words_def nb BN_BITS2_def h'_def l'_def d'_def)
    qed
    ultimately show ?thesis using div_words_loop_exact [OF d63 hd', of l'] by simp
  qed
qed

lemma bn_div_rem_words_exact:
  assumes "unat h < unat d"
  obtains q r where "bn_div_rem_words h l d = Some (q, r)" "unat h * 2 ^ 64 + unat l = unat q * unat d + unat r" "unat r < unat d"
proof -
  define n where "n = unat h * 2 ^ 64 + unat l"
  obtain q where q: "bn_div_words h l d = Some q" "unat q = n div unat d" using bn_div_words_exact [OF assms] by (auto simp: n_def)
  define r where "r = (l - q * d) AND BN_MASK2"
  have "of_nat n = (l :: u64)"
  proof -
    have "(2 :: u64) ^ 64 = 0" using word_exp_length_eq_0 [where 'a = 64] by (simp only: len_num0 len_bit0 len_num1) simp
    then show ?thesis unfolding n_def by (simp only: of_nat_add of_nat_mult of_nat_power of_nat_numeral) simp
  qed
  moreover have "of_nat n = (q * d + of_nat (n mod unat d) :: u64)"
  proof -
    have "n = unat q * unat d + n mod unat d" unfolding q(2) by (simp only: div_mult_mod_eq)
    from arg_cong [OF this, of "of_nat :: nat \<Rightarrow> u64"] show ?thesis by simp
  qed
  ultimately have "l = of_nat (n mod unat d) + q * d" by (simp add: add.commute)
  then have "r = of_nat (n mod unat d)" by (simp add: r_def bn_mask2_eq)
  moreover have "n mod unat d < unat d" using assms by simp
  ultimately have r: "unat r = n mod unat d" using u64_lt [of d] by (simp add: unat_of_nat)
  have "n = unat q * unat d + unat r" unfolding q(2) r by simp
  moreover have "bn_div_rem_words h l d = Some (q, r)" by (simp add: bn_div_rem_words_def bn_div_rem_words_inline_def q(1) r_def)
  moreover have "unat r < unat d" using r assms by simp
  ultimately show ?thesis using that unfolding n_def by blast
qed


section \<open>The estimate for a long division\<close>

text \<open>
  With \<open>d0\<close> normalised, the loop of \<open>bn_div_3_words\<close> lowers \<open>q\<close> until the product with
  the two top words of the divisor does not exceed the three words of the numerator;
  when \<open>rem\<close> would overflow this is so.  The result is the quotient of the three
  words by the two.
\<close>

lemma div_3_words_adjust_finds:
  assumes "2 ^ 63 \<le> unat d0" "v = unat d0 * 2 ^ 64 + unat d1"
    and "n3 = (unat q * unat d0 + unat rem) * 2 ^ 64 + unat n2" "n3 div v \<le> unat q"
    and "unat t2h * 2 ^ 64 + unat t2l = unat q * unat d1"
  shows "\<exists>q'. div_3_words_adjust n2 d1 d0 q rem t2h t2l = Some q' \<and> unat q' = n3 div v"
  using assms(3-)
proof (induction "unat q - n3 div v" arbitrary: q rem t2h t2l rule: less_induct)
  case less
  have vpos: "0 < v" using assms(1,2) by simp
  have qv: "unat q * v = unat q * unat d0 * 2 ^ 64 + unat q * unat d1" by (simp add: assms(2) algebra_simps)
  have n3: "n3 = unat q * unat d0 * 2 ^ 64 + (unat rem * 2 ^ 64 + unat n2)" by (simp add: less.prems(1) algebra_simps)
  have "t2h < rem \<or> (t2h = rem \<and> t2l \<le> n2) \<longleftrightarrow> unat t2h * 2 ^ 64 + unat t2l \<le> unat rem * 2 ^ 64 + unat n2"
    using digits_less [OF u64_lt u64_lt, of "unat rem" n2 "unat t2h" t2l]
    by (auto simp: word_less_nat_alt word_le_nat_alt word_unat_eq_iff not_less [symmetric])
  then have test: "t2h < rem \<or> (t2h = rem \<and> t2l \<le> n2) \<longleftrightarrow> unat q * v \<le> n3" unfolding qv n3 less.prems(3) by simp
  show ?case
  proof (cases "unat q * v \<le> n3")
    case True
    then have "unat q \<le> n3 div v" using vpos by (simp add: less_eq_div_iff_mult_less_eq)
    then have "unat q = n3 div v" using less.prems(2) by simp
    then show ?thesis using True test by (subst div_3_words_adjust.simps) simp
  next
    case False
    then have lt: "n3 div v < unat q" using vpos by (simp add: div_less_iff_less_mult)
    then have q: "unat (q - 1) = unat q - 1" by (intro unat_pred) simp
    obtain k where k: "unat q = Suc k" using lt by (cases "unat q") auto
    have q1: "unat (q - 1) = k" using q k by simp
    have step: "(k * unat d0 + (unat rem + unat d0)) * 2 ^ 64 + unat n2 = n3" unfolding less.prems(1) k by simp
    show ?thesis
    proof (cases "unat rem + unat d0 < 2 ^ 64")
      case over: False
      then have "rem + d0 < d0" using u64_lt [of rem] by (simp add: word_less_nat_alt unat_add_u64)
      moreover have "k = n3 div v"
      proof (rule antisym)
        have "k * unat d1 \<le> 2 ^ 64 * 2 ^ 64" using u64_lt [of d1] u64_lt [of q] k by (intro mult_le_mono) auto
        also have "\<dots> \<le> (unat rem + unat d0) * 2 ^ 64" using over by (intro mult_le_mono) auto
        finally have "k * v \<le> n3" unfolding step [symmetric] assms(2) by (simp add: algebra_simps)
        then show "k \<le> n3 div v" using vpos by (simp add: less_eq_div_iff_mult_less_eq)
      qed (use lt k in simp)
      ultimately show ?thesis using False test q1 by (subst div_3_words_adjust.simps) (auto simp: Let_def)
    next
      case fits: True
      then have rem: "unat (rem + d0) = unat rem + unat d0" by (simp add: unat_add_u64)
      then have no: "\<not> rem + d0 < d0" by (simp add: word_less_nat_alt)
      define t2h' where "t2h' = (if t2l < d1 then t2h - 1 else t2h)"
      have sub: "unat t2h * 2 ^ 64 + unat t2l = 0 * 2 ^ 64 + unat d1 + k * unat d1" using less.prems(3) k by simp
      note ds = double_word_sub [OF sub u64_lt u64_lt]
      have "unat t2h' = unat t2h - (0 + of_bool (unat t2l < unat d1))"
        using ds(1) by (auto simp: t2h'_def word_less_nat_alt unat_sub_u64)
      then have t2: "unat t2h' * 2 ^ 64 + unat (t2l - d1) = unat (q - 1) * unat d1"
        using ds(2) unfolding unat_sub_u64 [of t2l] q1 by simp
      have eq: "div_3_words_adjust n2 d1 d0 q rem t2h t2l = div_3_words_adjust n2 d1 d0 (q - 1) (rem + d0) t2h' (t2l - d1)"
        using False test no by (subst div_3_words_adjust.simps) (auto simp: Let_def t2h'_def)
      have "unat (q - 1) - n3 div v < unat q - n3 div v" "n3 div v \<le> unat (q - 1)" using lt q1 k by simp_all
      moreover have "n3 = (unat (q - 1) * unat d0 + unat (rem + d0)) * 2 ^ 64 + unat n2" unfolding q1 rem step ..
      ultimately show ?thesis using less.hyps [of "q - 1" "rem + d0" t2h' "t2l - d1"] t2 by (simp add: eq)
    qed
  qed
qed

lemma bn_div_3_words_exact:
  assumes "2 ^ 63 \<le> unat d0" "unat (m ! i) < unat d0"
    and "v = unat d0 * 2 ^ 64 + unat d1" "n3 = (unat (m ! i) * 2 ^ 64 + unat (m ! (i - 1))) * 2 ^ 64 + unat (m ! (i - 2))"
  shows "\<exists>q. bn_div_3_words m i d1 d0 = Some q \<and> unat q = n3 div v"
proof -
  obtain q rem where q: "bn_div_rem_words (m ! i) (m ! (i - 1)) d0 = Some (q, rem)"
      "unat (m ! i) * 2 ^ 64 + unat (m ! (i - 1)) = unat q * unat d0 + unat rem" "unat rem < unat d0"
    by (rule bn_div_rem_words_exact [OF assms(2)])
  obtain t2h t2l where t2: "bn_mulw d1 q = (t2h, t2l)" by fastforce
  have n3: "n3 = (unat q * unat d0 + unat rem) * 2 ^ 64 + unat (m ! (i - 2))" unfolding assms(4) q(2) ..
  have "n3 div v \<le> unat q"
  proof -
    have "n3 < (unat q * unat d0 + unat rem + 1) * 2 ^ 64" using u64_lt [of "m ! (i - 2)"] by (simp add: n3)
    also have "\<dots> \<le> (unat q + 1) * unat d0 * 2 ^ 64" using q(3) by (intro mult_le_mono1) simp
    also have "\<dots> \<le> (unat q + 1) * v" by (simp add: assms(3) algebra_simps)
    finally have "n3 div v < unat q + 1" using assms(1,3) by (simp add: div_less_iff_less_mult del: mult_Suc)
    then show ?thesis by simp
  qed
  from div_3_words_adjust_finds [OF assms(1,3) n3 this] bn_mulw_value [OF t2]
  show ?thesis using assms(2) q(1) t2 by (auto simp: bn_div_3_words_def Let_def mult.commute)
qed


section \<open>Division of numbers by a word\<close>

lemma div_word_loop_value:
  assumes "n \<le> length d" "unat ret < unat w"
  shows "\<exists>d' ret'. div_word_loop w d n ret = Some (d', ret') \<and> length d' = length d \<and> drop n d' = drop n d \<and> unat ret' < unat w \<and>
    bn_val (take n d') * uint w + uint ret' = uint ret * 2 ^ (64 * n) + bn_val (take n d)"
  using assms
proof (induction n arbitrary: d ret)
  case (Suc n)
  obtain q r where q: "bn_div_rem_words ret (d ! n) w = Some (q, r)"
      "unat ret * 2 ^ 64 + unat (d ! n) = unat q * unat w + unat r" "unat r < unat w"
    by (rule bn_div_rem_words_exact [OF Suc.prems(2)])
  have qi: "uint ret * 2 ^ 64 + uint (d ! n) = uint q * uint w + uint r" using arg_cong [OF q(2), of int] by simp
  have n: "n < length d" using Suc.prems(1) by simp
  obtain d' r' where IH: "div_word_loop w (d[n := q]) n r = Some (d', r')" "length d' = length d" "drop n d' = drop n (d[n := q])"
      "unat r' < unat w" "bn_val (take n d') * uint w + uint r' = uint r * 2 ^ (64 * n) + bn_val (take n d)"
    using Suc.IH [of "d[n := q]" r] n q(3) by auto
  have dn: "d' ! n = q" using IH(2,3) n by (metis hd_drop_conv_nth length_list_update nth_list_update_eq)
  have "drop (Suc n) d' = drop 1 (drop n d')" by simp
  also have "\<dots> = drop (Suc n) d" unfolding IH(3) by simp
  finally have dr: "drop (Suc n) d' = drop (Suc n) d" .
  have "bn_val (take (Suc n) d') * uint w + uint r' = uint r * 2 ^ (64 * n) + bn_val (take n d) + 2 ^ (64 * n) * (uint q * uint w)"
    using IH(5) n IH(2) by (simp add: bn_val_take_Suc dn algebra_simps)
  also have "uint q * uint w = uint ret * 2 ^ 64 + uint (d ! n) - uint r" using qi by simp
  finally have "bn_val (take (Suc n) d') * uint w + uint r' = uint ret * 2 ^ (64 * Suc n) + bn_val (take (Suc n) d)"
    using n by (simp add: bn_val_take_Suc power_add algebra_simps)
  then show ?case using q(1) IH dr by simp
qed simp

lemma set_negative_normal:
  assumes "bn_fits x" "bn_top x > 0 \<Longrightarrow> bn_d x ! (bn_top x - 1) \<noteq> 0" "neg \<in> {0, 1}"
  shows "bn_ok (BN_set_negative x neg)" "bn_int (BN_set_negative x neg) = (if neg \<noteq> 0 then - bn_mag x else bn_mag x)"
proof -
  have "correct_top_loop (bn_d x) (bn_top x) = bn_top x" using assms(2) by (subst correct_top_loop.simps) auto
  then have "bn_correct_top x = x" by (simp add: bn_correct_top_def)
  then show "bn_ok (BN_set_negative x neg)" "bn_int (BN_set_negative x neg) = (if neg \<noteq> 0 then - bn_mag x else bn_mag x)"
    using bn_normal_ok [OF assms(1,3)] by simp_all
qed

text \<open>The quotient by a word is at most one word shorter.\<close>

lemma word_quotient_top:
  assumes "q * uint (w :: bn_word) + r = a" "r < uint w" "2 ^ (64 * Suc n) \<le> a" "0 \<le> q"
  shows "2 ^ (64 * n) \<le> q"
proof (rule ccontr)
  assume "\<not> ?thesis"
  then have "(q + 1) * uint w \<le> 2 ^ (64 * n) * uint w" by (intro mult_right_mono) auto
  also have "\<dots> \<le> 2 ^ (64 * n) * 2 ^ 64" using uint_u64_lt [of w] by (intro mult_left_mono) auto
  also have "\<dots> = (2 :: int) ^ (64 * Suc n)" by (simp add: power_add)
  finally show False using assms(1-3) by (simp add: algebra_simps)
qed

lemma shifted_quotient:
  fixes q r a w k :: int
  assumes "q * (w * k) + r = a * k" "0 \<le> r" "r < w * k" "0 < k"
  shows "q = a div w" "r = a mod w * k"
proof -
  have "r = (a - q * w) * k" using assms(1) by (simp add: algebra_simps)
  moreover from this have "0 \<le> a - q * w" "a - q * w < w" using assms(2-4) by (simp_all add: zero_le_mult_iff)
  ultimately show "q = a div w" "r = a mod w * k"
    using div_pos_geq by (auto simp: int_div_pos_eq [of a w q "a - q * w"] int_mod_pos_eq [of a w q "a - q * w"])
qed

lemma BN_div_word_ok:
  assumes "bn_ok a" "w \<noteq> 0"
  obtains ret a' where "BN_div_word alloc a w = Some (ret, a')"
    "(\<forall>k \<le> bn_top a + 1. can_expand alloc a k) \<longrightarrow> bn_ok a' \<and> uint ret = bn_mag a mod uint w \<and>
      bn_int a' = sgn (bn_int a) * (bn_mag a div uint w)"
proof (cases "bn_top a = 0")
  case True
  then have "bn_mag a = 0" using bn_ok_mag_0 [OF assms(1)] by simp
  moreover have "BN_div_word alloc a w = Some (0, a)" using True assms(2) by (simp add: BN_div_word_def bn_mask2_eq)
  ultimately show ?thesis using that [of 0 a] assms(1) by (simp add: bn_int_def)
next
  case False
  define j where "j = 64 - word_bits w"
  note wb = word_bits_bounds [OF assms(2)]
  have nb: "BN_BITS2 - BN_num_bits_word w = int j" using wb by (simp add: BN_num_bits_word_def BN_BITS2_def j_def)
  have j: "j < 64" "word_bits w + j = 64" using wb(3,4) by (simp_all add: j_def)
  define W where "W = push_bit j w"
  have "unat w * 2 ^ j < 2 ^ word_bits w * 2 ^ j" using wb(2) by simp
  also have "\<dots> = (2 :: nat) ^ 64" unfolding power_add [symmetric] j(2) ..
  finally have "unat W = unat w * 2 ^ j" unfolding W_def unat_push_bit_64 by (simp only: mod_less)
  from arg_cong [OF this, of int] have W: "uint W = uint w * 2 ^ j" by simp
  have wpos: "0 < uint w" using assms(2) uint_ge_0 [of w] uint_0_iff [of w] by linarith
  have "0 < uint W" using W wpos by simp
  then have "W \<noteq> 0" by auto
  then have Wpos: "unat (0 :: u64) < unat W" by (simp add: unat_gt_0)
  obtain sh b where lsh: "BN_lshift alloc a a (int j) = (sh, b)" by fastforce
  have op: "bn_op_ok alloc a (bn_top a + 1) (sh, b) (bn_int a * 2 ^ j)"
    using bn_lshift_ok [OF bn_ok_fits [OF assms(1)] assms(1), of "int j" alloc] lsh j(1) by (simp add: BN_lshift_def)
  show ?thesis
  proof (cases sh)
    case no: False
    then have "BN_div_word alloc a w = Some (- 1, b)" using assms(2) False lsh by (simp add: BN_div_word_def bn_mask2_eq nb)
    moreover have "\<not> (\<forall>k \<le> bn_top a + 1. can_expand alloc a k)" using op no by (auto simp: bn_op_ok_def)
    ultimately show ?thesis using that by blast
  next
    case yes: True
    then have b: "bn_ok b" "bn_int b = bn_int a * 2 ^ j" using op by (simp_all add: bn_op_ok_def)
    have bm: "bn_mag b = bn_mag a * 2 ^ j" using b(2) by (simp add: bn_mag_abs abs_mult)
    note fb = bn_ok_fits [OF b(1)]
    have top: "bn_top b \<le> length (bn_d b)" by (rule bn_fits_top [OF fb])
    obtain d r where dr: "div_word_loop W (bn_d b) (bn_top b) 0 = Some (d, r)" "length d = length (bn_d b)" "unat r < unat W"
        "bn_val (take (bn_top b) d) * uint W + uint r = bn_mag b"
      using div_word_loop_value [OF top Wpos] by (auto simp: bn_mag_def)
    have tpos: "bn_top b > 0" using bn_ok_mag_0 [OF assms(1)] bn_ok_mag_0 [OF b(1)] bm False by auto
    define q where "q = bn_val (take (bn_top b) d)"
    have rW: "uint r < uint W" using dr(3) unfolding word_less_nat_alt [symmetric] word_less_def .
    have qr: "q = bn_mag a div uint w" "uint r = bn_mag a mod uint w * 2 ^ j"
      using shifted_quotient [of q "uint w" "2 ^ j" "uint r" "bn_mag a"] dr(4) rW by (simp_all add: q_def W bm)
    define y where "y = b\<lparr>bn_d := d\<rparr>"
    define x where "x = (if d ! (bn_top b - 1) = 0 then y\<lparr>bn_top := bn_top b - 1\<rparr> else y)"
    have fx: "bn_fits x" using fb dr(2) by (auto simp: x_def y_def bn_fits_def bn_dmax_def)
    have magx: "bn_mag x = q"
      using bn_val_take_Suc [of "bn_top b - 1" d] tpos top dr(2) by (auto simp: x_def y_def q_def bn_mag_def)
    have nz: "bn_d x ! (bn_top x - 1) \<noteq> 0" if "bn_top x > 0"
    proof (cases "d ! (bn_top b - 1) = 0")
      case True
      then have tx: "bn_top x = bn_top b - 1" by (simp add: x_def)
      define n where "n = bn_top b - 2"
      have n: "bn_top b = Suc (Suc n)" "bn_top x = Suc n" using that tx by (simp_all add: n_def)
      have "2 ^ (64 * Suc n) \<le> bn_mag b" using bn_ok_mag_ge [OF b(1) tpos] n by simp
      then have "2 ^ (64 * n) \<le> q" using word_quotient_top [OF dr(4) rW] by (simp add: q_def)
      then show ?thesis using n magx bn_fits_top [OF fx] by (intro top_word_nonzero) (simp_all add: bn_mag_def)
    qed (simp add: x_def y_def)
    have neg: "bn_neg x = bn_neg b" "bn_neg b \<in> {0, 1}" using bn_ok_neg_cases [OF b(1)] by (auto simp: x_def y_def)
    have "bn_ok (BN_set_negative x (bn_neg b))" "bn_int (BN_set_negative x (bn_neg b)) = (if bn_neg b \<noteq> 0 then - q else q)"
      using set_negative_normal [OF fx nz neg(2)] magx by simp_all
    moreover have "bn_int (BN_set_negative x (bn_neg b)) = sgn (bn_int a) * (bn_mag a div uint w)"
      using calculation(2) bn_ok_sgn [OF b(1) tpos] b(2) qr(1) by (simp add: sgn_mult split: if_splits)
    moreover have "uint (drop_bit j r) = bn_mag a mod uint w"
      using arg_cong [OF unat_drop_bit_64 [of j r], of int] qr(2) by (simp add: zdiv_int)
    moreover have "BN_div_word alloc a w = Some (drop_bit j r, BN_set_negative x (bn_neg b))"
      using assms(2) False lsh yes dr(1) tpos neg(1) by (simp add: BN_div_word_def bn_mask2_eq nb W_def [symmetric] Let_def x_def y_def)
    ultimately show ?thesis using that by blast
  qed
qed


lemma mod_halves:
  assumes "unat (ret :: u64) < unat w" "unat w \<le> 2 ^ 32" "unat (x :: u64) < 2 ^ 32"
  shows "unat ((push_bit 32 ret OR x) mod w) = (unat ret * 2 ^ 32 + unat x) mod unat w"
proof -
  have "unat ret mod 2 ^ 32 = unat ret" using assms(1,2) by (intro mod_less) linarith
  then show ?thesis by (simp only: unat_mod unat_or_halves [OF assms(3)])
qed

lemma mod_word_loop_value:
  assumes "n \<le> length d" "unat ret < unat w" "unat w \<le> 2 ^ 32"
  shows "uint (mod_word_loop w d n ret) = (uint ret * 2 ^ (64 * n) + bn_val (take n d)) mod uint w"
  using assms(1,2)
proof (induction n arbitrary: ret)
  case 0
  then have "uint ret < uint w" unfolding word_less_nat_alt [symmetric] word_less_def by simp
  then show ?case by simp
next
  case (Suc n)
  define u where "u = unat (d ! n)"
  define r1 where "r1 = (push_bit 32 ret OR (drop_bit 32 (d ! n) AND BN_MASK2l)) mod w"
  define r2 where "r2 = (push_bit 32 r1 OR (d ! n AND BN_MASK2l)) mod w"
  have "u < 2 ^ 64" using u64_lt [of "d ! n"] by (simp add: u_def)
  then have hi: "unat (drop_bit 32 (d ! n) AND BN_MASK2l) = u div 2 ^ 32"
    unfolding unat_and_mask2l unat_drop_bit_64 u_def [symmetric] by (simp add: div_less_iff_less_mult)
  have lo: "unat (d ! n AND BN_MASK2l) = u mod 2 ^ 32" unfolding unat_and_mask2l u_def ..
  have r1: "unat r1 = (unat ret * 2 ^ 32 + u div 2 ^ 32) mod unat w"
    unfolding r1_def using mod_halves [OF Suc.prems(2) assms(3), of "drop_bit 32 (d ! n) AND BN_MASK2l"] hi \<open>u < 2 ^ 64\<close>
    by (simp add: div_less_iff_less_mult)
  have wpos: "0 < unat w" using Suc.prems(2) by simp
  then have "unat r1 < unat w" by (simp add: r1)
  then have "unat r2 = (unat r1 * 2 ^ 32 + u mod 2 ^ 32) mod unat w"
    unfolding r2_def using mod_halves [OF _ assms(3), of r1 "d ! n AND BN_MASK2l"] lo by simp
  also have "\<dots> = ((unat ret * 2 ^ 32 + u div 2 ^ 32) * 2 ^ 32 + u mod 2 ^ 32) mod unat w"
    unfolding r1 by (metis mod_add_left_eq mod_mult_left_eq)
  also have "(unat ret * 2 ^ 32 + u div 2 ^ 32) * 2 ^ 32 + u mod 2 ^ 32 = unat ret * 2 ^ 64 + u"
    by (simp add: algebra_simps)
  finally have r2: "unat r2 = (unat ret * 2 ^ 64 + unat (d ! n)) mod unat w" by (simp add: u_def)
  have r2i: "uint r2 = (uint ret * 2 ^ 64 + uint (d ! n)) mod uint w" using arg_cong [OF r2, of int] by (simp add: zmod_int)
  have "uint (mod_word_loop w d (Suc n) ret) = (uint r2 * 2 ^ (64 * n) + bn_val (take n d)) mod uint w"
    using Suc.IH [of r2] Suc.prems(1) r2 wpos by (simp add: Let_def r1_def [symmetric] r2_def [symmetric])
  also have "\<dots> = ((uint ret * 2 ^ 64 + uint (d ! n)) * 2 ^ (64 * n) + bn_val (take n d)) mod uint w"
    unfolding r2i by (metis mod_add_left_eq mod_mult_left_eq)
  finally show ?case using Suc.prems(1) by (simp add: bn_val_take_Suc power_add algebra_simps)
qed

text \<open>\<open>BN_mod_word\<close> needs memory for a copy when the divisor is longer than half a word.\<close>

lemma BN_mod_word_ok:
  assumes "bn_ok a" "w \<noteq> 0"
    and "\<And>n. n \<le> (bn_top a + 1) * 8 \<or> n = 24 \<Longrightarrow> alloc n" "bn_top a < BN_MAX_WORDS"
  shows "\<exists>r. BN_mod_word alloc a w = Some r \<and> uint r = bn_mag a mod uint w"
proof (cases "w > push_bit 32 1")
  case True
  obtain t where t: "BN_new alloc = Some t" "t = \<lparr>bn_d = [], bn_top = 0, bn_neg = 0, bn_flags = BN_FLG_MALLOCED\<rparr>"
    using assms(3) [of 24] by (simp add: BN_new_def)
  have can: "can_expand alloc t k" if "k \<le> bn_top a" for k
    using that assms(3) [of "k * 8"] assms(4) by (simp add: can_expand_def t(2) BN_FLG_MALLOCED_def BN_FLG_STATIC_DATA_def)
  obtain c s where c: "BN_copy alloc t a = (c, s)" by fastforce
  have ft: "bn_fits t" using BN_new_ok [OF t(1)] bn_ok_fits by blast
  have s: "c" "bn_ok s" "bn_int s = bn_int a" using BN_copy_correct [OF ft assms(1) c] can [of "bn_top a"] by auto
  have st: "bn_top s = bn_top a" "bn_flags s AND BN_FLG_STATIC_DATA = 0"
    using c can [of "bn_top a"] s(1) by (auto simp: BN_copy_def bn_wexpand_eq t(2) bit.conj_disj_distrib2 and.assoc
      BN_FLG_MALLOCED_def BN_FLG_CONSTTIME_def BN_FLG_STATIC_DATA_def)
  have "\<forall>k \<le> bn_top s + 1. can_expand alloc s k"
    using assms(3,4) st by (auto simp: can_expand_def)
  moreover obtain r b where "BN_div_word alloc s w = Some (r, b)" "(\<forall>k \<le> bn_top s + 1. can_expand alloc s k) \<longrightarrow> bn_ok b \<and>
      uint r = bn_mag s mod uint w \<and> bn_int b = sgn (bn_int s) * (bn_mag s div uint w)"
    by (rule BN_div_word_ok [OF s(2) assms(2), of alloc])
  moreover have "BN_dup alloc (Some a) = Some s" using t(1) c s(1) by (simp add: BN_dup_def)
  ultimately show ?thesis using True assms(2) s(3) by (simp add: BN_mod_word_def bn_mag_abs)
next
  case False
  have "unat (push_bit 32 1 :: u64) = 2 ^ 32" by (simp add: unat_push_bit_32)
  then have "unat w \<le> 2 ^ 32" using False by (simp only: word_less_nat_alt not_less)
  moreover have "unat (0 :: u64) < unat w" using assms(2) by (simp add: unat_gt_0)
  ultimately show ?thesis using mod_word_loop_value [of "bn_top a" "bn_d a" 0 w] bn_fits_top [OF bn_ok_fits [OF assms(1)]] False assms(2)
    by (simp add: BN_mod_word_def bn_mask2_eq bn_mag_def)
qed

end
