(* ===== verification/BN_Sqr.thy ===== *)
theory BN_Sqr
  imports BN_Arith
begin

text \<open>
  Squaring (libcrypto/bn/bn_sqr.c): the unrolled routines for four and eight words,
  the general one, which doubles the products of different words and adds the
  squares, and \<open>BN_sqr\<close>, whose error paths return 1 as well.
\<close>

section \<open>Definitions\<close>

text \<open>
  One line of the unrolled code: \<open>bn_mulw_addtw\<close> for a square and
  \<open>bn_mul2_mulw_addtw\<close> for a product of two different words.  The tables list the
  lines in their order, one list for each column.
\<close>

definition sqr_step :: "words \<Rightarrow> bn_word \<times> bn_word \<times> bn_word \<Rightarrow> nat \<times> nat \<Rightarrow> bn_word \<times> bn_word \<times> bn_word" where
  "sqr_step a c ij =
     (case c of (c2, c1, c0) \<Rightarrow> case ij of (i, j) \<Rightarrow>
        if i = j then bn_mulw_addtw (a ! i) (a ! j) c2 c1 c0 else bn_mul2_mulw_addtw (a ! i) (a ! j) c2 c1 c0)"

fun sqr_comba :: "words \<Rightarrow> (nat \<times> nat) list list \<Rightarrow> bn_word \<Rightarrow> bn_word \<Rightarrow> words" where
  "sqr_comba a [] c2 c1 = [c1]"
| "sqr_comba a (ps # cols) c2 c1 =
     (let (c2, c1, r) = foldl (sqr_step a) (0, c2, c1) ps in r # sqr_comba a cols c2 c1)"

definition sqr_comba4_cols :: "(nat \<times> nat) list list" where
  "sqr_comba4_cols =
    [[(0, 0)],
     [(1, 0)],
     [(1, 1), (2, 0)],
     [(3, 0), (2, 1)],
     [(2, 2), (3, 1)],
     [(3, 2)],
     [(3, 3)]]"

definition bn_sqr_comba4 :: "words \<Rightarrow> words \<Rightarrow> words" where
  "bn_sqr_comba4 r a = write_at r 0 (sqr_comba a sqr_comba4_cols 0 0)"

definition sqr_comba8_cols :: "(nat \<times> nat) list list" where
  "sqr_comba8_cols =
    [[(0, 0)],
     [(1, 0)],
     [(1, 1), (2, 0)],
     [(3, 0), (2, 1)],
     [(2, 2), (3, 1), (4, 0)],
     [(5, 0), (4, 1), (3, 2)],
     [(3, 3), (4, 2), (5, 1), (6, 0)],
     [(7, 0), (6, 1), (5, 2), (4, 3)],
     [(4, 4), (5, 3), (6, 2), (7, 1)],
     [(7, 2), (6, 3), (5, 4)],
     [(5, 5), (6, 4), (7, 3)],
     [(7, 4), (6, 5)],
     [(6, 6), (7, 5)],
     [(7, 6)],
     [(7, 7)]]"

definition bn_sqr_comba8 :: "words \<Rightarrow> words \<Rightarrow> words" where
  "bn_sqr_comba8 r a = write_at r 0 (sqr_comba a sqr_comba8_cols 0 0)"

fun sqr_add_loop :: "bn_word \<Rightarrow> words \<Rightarrow> words \<Rightarrow> nat \<Rightarrow> words" where
  "sqr_add_loop carry r a n =
     (if n \<ge> 4 then
        (let (x1, x0) = bn_mulw (a ! 0) (a ! 0);
             (x3, x2) = bn_mulw (a ! 1) (a ! 1);
             (carry, r3, r2, r1, r0) = bn_qwaddqw x3 x2 x1 x0 (r ! 3) (r ! 2) (r ! 1) (r ! 0) carry;
             (x1, x0) = bn_mulw (a ! 2) (a ! 2);
             (x3, x2) = bn_mulw (a ! 3) (a ! 3);
             (carry, r7, r6, r5, r4) = bn_qwaddqw x3 x2 x1 x0 (r ! 7) (r ! 6) (r ! 5) (r ! 4) carry
         in r0 # r1 # r2 # r3 # r4 # r5 # r6 # r7 # sqr_add_loop carry (drop 8 r) (drop 4 a) (n - 4))
      else if n > 0 then
        (let (carry, r0) = bn_mulw_addw_addw (a ! 0) (a ! 0) (r ! 0) carry;
             (carry, r1) = bn_addw (r ! 1) carry
         in r0 # r1 # sqr_add_loop carry (drop 2 r) (drop 1 a) (n - 1))
      else r)"

declare sqr_add_loop.simps [simp del]

definition bn_sqr_add_words :: "words \<Rightarrow> words \<Rightarrow> nat \<Rightarrow> words" where
  "bn_sqr_add_words r a n = (if n \<le> 0 then r else sqr_add_loop 0 r a n)"

text \<open>The loop over the remaining rows; \<open>rp\<close> is an index of \<open>r\<close>, \<open>ap\<close> the rest of \<open>a\<close>.\<close>

fun sqr_rows_loop :: "words \<Rightarrow> nat \<Rightarrow> words \<Rightarrow> nat \<Rightarrow> words" where
  "sqr_rows_loop r rp ap 0 = r"
| "sqr_rows_loop r rp ap (Suc n) =
     (let w = ap ! 0; ap = drop 1 ap;
          (c, seg) = bn_mul_add_words (drop rp r) ap (Suc n) w
      in sqr_rows_loop ((take rp r @ seg)[rp + Suc n := c]) (rp + 2) ap n)"

definition bn_sqr_normal :: "words \<Rightarrow> nat \<Rightarrow> words \<Rightarrow> nat \<Rightarrow> words" where
  "bn_sqr_normal r r_len a a_len =
     (if a_len \<le> 0 then r
      else let w = a ! 0; ap = drop 1 a;
               r = r[r_len - 1 := 0, 0 := 0];
               n = a_len - 1;
               r = (if n > 0 then
                      (let (c, seg) = bn_mul_words (drop 1 r) ap n w in (take 1 r @ seg)[1 + n := c])
                    else r);
               r = sqr_rows_loop r 3 ap (n - 1);
               (carry, r) = bn_add_words r r r r_len
           in bn_sqr_add_words r a a_len)"

definition bn_sqr :: "bignum \<Rightarrow> bignum \<Rightarrow> nat \<Rightarrow> bignum" where
  "bn_sqr r a r_len = r\<lparr>bn_d := bn_sqr_normal (bn_d r) r_len (bn_d a) (bn_top a)\<rparr>"

text \<open>
  \<open>same\<close> says that the result is the operand; then the square is computed in
  \<open>tmp\<close>, the answer of \<open>BN_CTX_get\<close>.  The variable \<open>ret\<close> of the source starts with
  1, so that the function returns 1 on the error paths too.
\<close>

definition BN_sqr :: "(nat \<Rightarrow> bool) \<Rightarrow> bool \<Rightarrow> bignum option \<Rightarrow> bignum \<Rightarrow> bignum \<Rightarrow> bool \<times> bignum" where
  "BN_sqr alloc same tmp r a =
     (if bn_top a < 1 then (True, BN_zero r)
      else case (if same then tmp else Some r) of
          None \<Rightarrow> (True, r)
        | Some rr \<Rightarrow>
           (let r_len = bn_top a * 2
            in if r_len < bn_top a then (True, r)
               else case bn_wexpand alloc rr (int r_len) of
                   (False, rr) \<Rightarrow> (True, r)
                 | (True, rr) \<Rightarrow>
                    (let rr = (if bn_top a = 4 then rr\<lparr>bn_d := bn_sqr_comba4 (bn_d rr) (bn_d a)\<rparr>
                               else if bn_top a = 8 then rr\<lparr>bn_d := bn_sqr_comba8 (bn_d rr) (bn_d a)\<rparr>
                               else bn_sqr rr a r_len);
                         rr = (bn_correct_top (rr\<lparr>bn_top := r_len\<rparr>))\<lparr>bn_neg := 0\<rparr>
                     in if same then (True, snd (BN_copy alloc r rr)) else (True, rr))))"

section \<open>The unrolled routines\<close>

lemma unat_add_no_wrap: "unat a + unat b < 2 ^ 64 \<Longrightarrow> unat (a + b :: u64) = unat a + unat b"
  by (simp add: unat_add_u64)

text \<open>The high word of a product leaves room for a carry.\<close>

lemma bn_mulw_high: "bn_mulw a b = (r1, r0) \<Longrightarrow> unat r1 + 1 < 2 ^ 64"
proof -
  assume "bn_mulw a b = (r1, r0)"
  note v = bn_mulw_value [OF this]
  have "unat a * unat b \<le> (2 ^ 64 - 1) * (2 ^ 64 - 1)"
    using u64_lt [of a] u64_lt [of b] by (intro mult_le_mono) auto
  with v have "unat r1 * 2 ^ 64 < (2 ^ 64 - 1) * 2 ^ 64" by simp
  then show ?thesis by simp
qed

lemma bn_mul2_mulw_addtw_value:
  assumes "bn_mul2_mulw_addtw a b c2 c1 c0 = r" and "unat c2 + 2 < 2 ^ 64"
  shows "tw_val r = 2 * (unat a * unat b) + tw_val (c2, c1, c0)" and "unat (fst r) \<le> unat c2 + 2"
proof -
  obtain x1 x0 where x: "bn_mulw a b = (x1, x0)" by fastforce
  obtain k1 r0 where 1: "bn_addw c0 x0 = (k1, r0)" by fastforce
  obtain r2 r1 where 2: "bn_addw c1 (x1 + k1) = (r2, r1)" by fastforce
  obtain k2 s2 where 3: "bn_addw c2 r2 = (k2, s2)" by fastforce
  obtain k3 s0 where 4: "bn_addw r0 x0 = (k3, s0)" by fastforce
  obtain k4 s1 where 5: "bn_addw r1 (x1 + k3) = (k4, s1)" by fastforce
  have r: "r = (s2 + k4, s1, s0)" using assms(1) by (simp add: bn_mul2_mulw_addtw_def x 1 2 3 4 5)
  note carry = bn_addw_carry [OF 1] bn_addw_carry [OF 2] bn_addw_carry [OF 4] bn_addw_carry [OF 5]
  have h: "unat (x1 + k1) = unat x1 + unat k1" "unat (x1 + k3) = unat x1 + unat k3"
    using bn_mulw_high [OF x] carry by (simp_all add: unat_add_no_wrap)
  have s2: "unat s2 = unat c2 + unat r2"
    using bn_addw_value [OF 3] assms(2) carry(2) u64_lt [of s2] by (cases "unat k2 = 0") auto
  then have top: "unat (s2 + k4) = unat c2 + unat r2 + unat k4"
    using assms(2) carry by (simp add: unat_add_no_wrap)
  show "tw_val r = 2 * (unat a * unat b) + tw_val (c2, c1, c0)"
    using bn_mulw_value [OF x] bn_addw_value [OF 1] bn_addw_value [OF 2] bn_addw_value [OF 4] bn_addw_value [OF 5]
    unfolding r tw_val_def by (simp add: top h)
  show "unat (fst r) \<le> unat c2 + 2" using top carry by (simp add: r)
qed

text \<open>What a line contributes.\<close>

definition sqr_pair :: "words \<Rightarrow> nat \<times> nat \<Rightarrow> int" where
  "sqr_pair a ij = (case ij of (i, j) \<Rightarrow> (if i = j then 1 else 2) * (uint (a ! i) * uint (a ! j)))"

fun sqr_cols_val :: "words \<Rightarrow> (nat \<times> nat) list list \<Rightarrow> int" where
  "sqr_cols_val a [] = 0"
| "sqr_cols_val a (ps # cols) = sum_list (map (sqr_pair a) ps) + 2 ^ 64 * sqr_cols_val a cols"

lemma sqr_step_value:
  assumes "unat (fst c) + 2 < 2 ^ 64"
  shows "int (tw_val (sqr_step a c ij)) = sqr_pair a ij + int (tw_val c)" "unat (fst (sqr_step a c ij)) \<le> unat (fst c) + 2"
proof -
  obtain c2 c1 c0 where c: "c = (c2, c1, c0)" by (metis prod_cases3)
  obtain i j where ij: "ij = (i, j)" by fastforce
  have c2: "unat c2 + 2 < 2 ^ 64" "unat c2 + 1 < 2 ^ 64" using assms by (simp_all add: c)
  note one = bn_mulw_addtw_value [OF refl c2(2), of "a ! i" "a ! j" c1 c0]
    and two = bn_mul2_mulw_addtw_value [OF refl c2(1), of "a ! i" "a ! j" c1 c0]
  show "int (tw_val (sqr_step a c ij)) = sqr_pair a ij + int (tw_val c)"
    using one(1) two(1) by (cases "i = j") (simp_all add: c ij sqr_step_def sqr_pair_def)
  show "unat (fst (sqr_step a c ij)) \<le> unat (fst c) + 2"
    using one(2) two(2) by (auto simp: c ij sqr_step_def)
qed

lemma sqr_fold_value:
  "unat (fst c) + 2 * length ps < 2 ^ 64 \<Longrightarrow>
    int (tw_val (foldl (sqr_step a) c ps)) = sum_list (map (sqr_pair a) ps) + int (tw_val c)"
proof (induction ps arbitrary: c)
  case (Cons p ps)
  have "unat (fst c) + 2 < 2 ^ 64" using Cons.prems by simp
  note s = sqr_step_value [OF this, of a p]
  then have "unat (fst (sqr_step a c p)) + 2 * length ps < 2 ^ 64" using Cons.prems by simp
  from Cons.IH [OF this] s(1) show ?case by simp
qed simp

lemma length_sqr_comba: "length (sqr_comba a cols c2 c1) = Suc (length cols)"
  by (induction cols arbitrary: c2 c1) (auto split: prod.splits)

lemma sqr_comba_value:
  assumes "\<forall>ps \<in> set cols. length ps < 2 ^ 32"
  shows "bn_val (sqr_comba a cols c2 c1) =
    (sqr_cols_val a cols + uint c1 + 2 ^ 64 * uint c2) mod 2 ^ (64 * Suc (length cols))"
  using assms
proof (induction cols arbitrary: c2 c1)
  case Nil
  then show ?case using uint_u64_lt [of c1] by simp
next
  case (Cons ps cols)
  obtain d2 d1 d0 where d: "foldl (sqr_step a) (0, c2, c1) ps = (d2, d1, d0)" by (metis prod_cases3)
  have "2 * length ps < 2 ^ 64" using Cons.prems by simp
  then have v: "uint d2 * 2 ^ 128 + uint d1 * 2 ^ 64 + uint d0 = sum_list (map (sqr_pair a) ps) + uint c2 * 2 ^ 64 + uint c1"
    using sqr_fold_value [of "(0, c2, c1)" ps a] by (simp add: d tw_val_def)
  define t where "t = sqr_cols_val a cols + uint d1 + 2 ^ 64 * uint d2"
  define m :: int where "m = 2 ^ (64 * Suc (length cols))"
  have "sqr_cols_val a (ps # cols) + uint c1 + 2 ^ 64 * uint c2 = uint d0 + 2 ^ 64 * t"
    using v by (simp add: t_def algebra_simps)
  moreover have "(uint d0 + 2 ^ 64 * t) mod (2 ^ 64 * m) = uint d0 + 2 ^ 64 * (t mod m)"
    using uint_u64_lt [of d0] zmod_zmult2_eq [of m "uint d0 + 2 ^ 64 * t" "2 ^ 64"] by (simp add: m_def)
  moreover have "bn_val (sqr_comba a (ps # cols) c2 c1) = uint d0 + 2 ^ 64 * (t mod m)"
    using Cons.IH [of d2 d1] Cons.prems by (simp add: d t_def m_def)
  moreover have "2 ^ (64 * Suc (length (ps # cols))) = 2 ^ 64 * m" by (simp add: m_def power_add)
  ultimately show ?case by simp
qed

lemma bn_val_sq_less: "n \<le> length a \<Longrightarrow> bn_val (take n a) * bn_val (take n a) < 2 ^ (64 * (2 * n))"
proof -
  assume "n \<le> length a"
  then have "bn_val (take n a) * bn_val (take n a) < 2 ^ (64 * n) * 2 ^ (64 * n)"
    using bn_val_less [of "take n a"] by (intro mult_strict_mono) (auto simp: min_absorb2)
  also have "\<dots> = (2 :: int) ^ (64 * (2 * n))" by (simp flip: power_add)
  finally show ?thesis .
qed

lemma sqr_comba_square:
  assumes "\<forall>ps \<in> set cols. length ps < 2 ^ 32" "Suc (length cols) = 2 * n" "n \<le> length a"
    and "sqr_cols_val a cols = bn_val (take n a) * bn_val (take n a)"
  shows "bn_val (sqr_comba a cols 0 0) = bn_val (take n a) * bn_val (take n a)"
  using sqr_comba_value [OF assms(1), of a 0 0] bn_val_sq_less [OF assms(3)] assms(4) unfolding assms(2) by simp

lemma bn_sqr_comba4_value:
  assumes "4 \<le> length a" "8 \<le> length r"
  shows "length (bn_sqr_comba4 r a) = length r"
    "bn_val (take 8 (bn_sqr_comba4 r a)) = bn_val (take 4 a) * bn_val (take 4 a)"
proof -
  have l: "length (sqr_comba a sqr_comba4_cols 0 0) = 8" unfolding length_sqr_comba by (simp add: sqr_comba4_cols_def)
  then show "length (bn_sqr_comba4 r a) = length r" using assms by (simp add: bn_sqr_comba4_def)
  have "sqr_cols_val a sqr_comba4_cols = bn_val (take 4 a) * bn_val (take 4 a)"
    unfolding list_of_4 [OF assms(1)] sqr_comba4_cols_def
    by (simp add: sqr_pair_def) (simp add: algebra_simps)
  then have "bn_val (sqr_comba a sqr_comba4_cols 0 0) = bn_val (take 4 a) * bn_val (take 4 a)"
    by (intro sqr_comba_square) (use assms in \<open>simp_all add: sqr_comba4_cols_def\<close>)
  then show "bn_val (take 8 (bn_sqr_comba4 r a)) = bn_val (take 4 a) * bn_val (take 4 a)"
    using l by (simp add: bn_sqr_comba4_def write_at_def)
qed

lemma bn_sqr_comba8_value:
  assumes "8 \<le> length a" "16 \<le> length r"
  shows "length (bn_sqr_comba8 r a) = length r"
    "bn_val (take 16 (bn_sqr_comba8 r a)) = bn_val (take 8 a) * bn_val (take 8 a)"
proof -
  have l: "length (sqr_comba a sqr_comba8_cols 0 0) = 16" unfolding length_sqr_comba by (simp add: sqr_comba8_cols_def)
  then show "length (bn_sqr_comba8 r a) = length r" using assms by (simp add: bn_sqr_comba8_def)
  have "sqr_cols_val a sqr_comba8_cols = bn_val (take 8 a) * bn_val (take 8 a)"
    unfolding list_of_8 [OF assms(1)] sqr_comba8_cols_def
    by (simp add: sqr_pair_def) (simp add: algebra_simps)
  then have "bn_val (sqr_comba a sqr_comba8_cols 0 0) = bn_val (take 8 a) * bn_val (take 8 a)"
    by (intro sqr_comba_square) (use assms in \<open>simp_all add: sqr_comba8_cols_def\<close>)
  then show "bn_val (take 16 (bn_sqr_comba8 r a)) = bn_val (take 8 a) * bn_val (take 8 a)"
    using l by (simp add: bn_sqr_comba8_def write_at_def)
qed

section \<open>The general routine\<close>

text \<open>The products of different words, without the factor 2 and one word lower, and the squares.\<close>

fun cross_val :: "words \<Rightarrow> int" where
  "cross_val [] = 0"
| "cross_val (w # ws) = uint w * bn_val ws + 2 ^ 128 * cross_val ws"

fun squares_val :: "words \<Rightarrow> int" where
  "squares_val [] = 0"
| "squares_val (w # ws) = uint w * uint w + 2 ^ 128 * squares_val ws"

lemma bn_val_square: "bn_val ws * bn_val ws = squares_val ws + 2 * (2 ^ 64 * cross_val ws)"
  by (induction ws) (simp_all add: algebra_simps)

lemma cross_val_nonneg [simp]: "0 \<le> cross_val ws"
  by (induction ws) simp_all

lemma squares_val_nonneg [simp]: "0 \<le> squares_val ws"
  by (induction ws) simp_all

text \<open>One row: the words from \<open>rp\<close> on gain the product, with the carry above them.\<close>

lemma row_value:
  assumes "rp + Suc n < length r" "wrote (Suc n) (drop rp r) seg"
    and "bn_val (take (Suc n) seg) + uint c * 2 ^ (64 * Suc n) = v"
    and "r1 = (take rp r @ seg)[rp + Suc n := c]"
  shows "length r1 = length r" "take rp r1 = take rp r" "drop (rp + Suc (Suc n)) r1 = drop (rp + Suc (Suc n)) r"
    "bn_val (take (Suc (Suc n)) (drop rp r1)) = v"
proof -
  have l: "length seg = length r - rp" and d: "drop (Suc n) seg = drop (rp + Suc n) r"
    using assms(2) by (auto simp: wrote_def add.commute)
  show "length r1 = length r" "take rp r1 = take rp r" using l assms(1) by (simp_all add: assms(4))
  have "drop (Suc (Suc n)) seg = drop 1 (drop (Suc n) seg)" by simp
  also have "\<dots> = drop (rp + Suc (Suc n)) r" unfolding d by (simp add: add.commute)
  finally show "drop (rp + Suc (Suc n)) r1 = drop (rp + Suc (Suc n)) r" using assms(1) by (simp add: assms(4))
  have "drop rp r1 = seg[Suc n := c]" using assms(1) by (simp add: assms(4) drop_update_swap)
  then show "bn_val (take (Suc (Suc n)) (drop rp r1)) = v"
    using assms(1,3) l bn_val_take_Suc [of "Suc n" "seg[Suc n := c]"] by (simp add: mult.commute)
qed

text \<open>A row and the rows after it.\<close>

lemma rows_combine:
  assumes "length r1 = length r" "take rp r1 = take rp r" "drop (rp + Suc (Suc n)) r1 = drop (rp + Suc (Suc n)) r"
    and "bn_val (take (Suc (Suc n)) (drop rp r1)) = v" "rp + 2 + 2 * n \<le> length r"
    and "length r' = length r1 \<and> take (rp + 2) r' = take (rp + 2) r1 \<and> drop (rp + 2 + 2 * n) r' = drop (rp + 2 + 2 * n) r1 \<and>
      bn_val (take (2 * n) (drop (rp + 2) r')) = bn_val (take n (drop (rp + 2) r1)) + x"
  shows "length r' = length r \<and> take rp r' = take rp r \<and> drop (rp + 2 * Suc n) r' = drop (rp + 2 * Suc n) r \<and>
    bn_val (take (2 * Suc n) (drop rp r')) = v + 2 ^ 128 * x"
proof -
  have IH: "length r' = length r1" "take (rp + 2) r' = take (rp + 2) r1" "drop (rp + 2 + 2 * n) r' = drop (rp + 2 + 2 * n) r1"
    "bn_val (take (2 * n) (drop (rp + 2) r')) = bn_val (take n (drop (rp + 2) r1)) + x" using assms(6) by simp_all
  have "take rp r' = take rp (take (rp + 2) r')" by simp
  then have t: "take rp r' = take rp r" unfolding IH(2) using assms(2) by simp
  have "drop (rp + 2 + 2 * n) r1 = drop n (drop (rp + Suc (Suc n)) r1)" by (simp add: add.commute add.left_commute mult_2)
  also have "\<dots> = drop (rp + 2 + 2 * n) r" unfolding assms(3) by (simp add: add.commute add.left_commute mult_2)
  finally have d: "drop (rp + 2 * Suc n) r' = drop (rp + 2 * Suc n) r" using IH(3) by (simp add: add.assoc)
  have two: "take 2 (drop rp r') = take 2 (drop rp r1)"
    using arg_cong [OF IH(2), of "drop rp"] by (simp add: drop_take)
  have "bn_val (take (2 * Suc n) (drop rp r')) = bn_val (take 2 (drop rp r')) + 2 ^ 128 * bn_val (take (2 * n) (drop (rp + 2) r'))"
    using bn_val_take_split [of 2 "2 * Suc n" "drop rp r'"] assms(1,5) IH(1) by (simp add: add.commute)
  also have "\<dots> = bn_val (take 2 (drop rp r1)) + 2 ^ 128 * bn_val (take n (drop (rp + 2) r1)) + 2 ^ 128 * x"
    unfolding two IH(4) by (simp add: algebra_simps)
  also have "bn_val (take 2 (drop rp r1)) + 2 ^ 128 * bn_val (take n (drop (rp + 2) r1)) = v"
    using bn_val_take_split [of 2 "Suc (Suc n)" "drop rp r1"] assms(1,4,5) by (simp add: add.commute)
  finally show ?thesis using t d IH(1) assms(1) by simp
qed

lemma sqr_rows_loop_value:
  assumes "Suc n \<le> length ap" "rp + 2 * n \<le> length r" "r' = sqr_rows_loop r rp ap n"
  shows "length r' = length r \<and> take rp r' = take rp r \<and> drop (rp + 2 * n) r' = drop (rp + 2 * n) r \<and>
    bn_val (take (2 * n) (drop rp r')) = bn_val (take n (drop rp r)) + cross_val (take (Suc n) ap)"
  using assms
proof (induction n arbitrary: r rp ap)
  case 0
  then show ?case by (cases ap) simp_all
next
  case (Suc n)
  obtain w ws where ap: "ap = w # ws" using Suc.prems(1) by (cases ap) auto
  obtain c seg where m: "bn_mul_add_words (drop rp r) ws (Suc n) w = (c, seg)" by fastforce
  define r1 where "r1 = (take rp r @ seg)[rp + Suc n := c]"
  have ln: "Suc n \<le> length ws" "Suc n \<le> length (drop rp r)" "rp + Suc n < length r" "rp + 2 + 2 * n \<le> length r"
    using Suc.prems by (auto simp: ap)
  note row = row_value [OF ln(3) bn_mul_add_words_value [OF m ln(1,2)] r1_def]
  have r': "r' = sqr_rows_loop r1 (rp + 2) ws n" using Suc.prems(3) by (simp add: ap m r1_def)
  have "rp + 2 + 2 * n \<le> length r1" using ln(4) row(1) by simp
  from rows_combine [OF row ln(4) Suc.IH [OF ln(1) this r']] show ?case by (simp add: ap algebra_simps)
qed

lemma bn_qwaddqw_value:
  assumes "bn_qwaddqw a3 a2 a1 a0 b3 b2 b1 b0 c = (c', r3, r2, r1, r0)"
  shows "bn_val [r0, r1, r2, r3] + uint c' * 2 ^ 256 = bn_val [a0, a1, a2, a3] + bn_val [b0, b1, b2, b3] + uint c"
proof -
  have "ripple (\<lambda>c (x, y). bn_addw_addw x y c) c [(a0, b0), (a1, b1), (a2, b2), (a3, b3)] = (c', [r0, r1, r2, r3])"
    using assms by (auto simp: bn_qwaddqw_def split: prod.splits)
  from add_chain.ripple_value [OF this] show ?thesis by simp
qed

lemma bn_mulw_int: "bn_mulw a b = (r1, r0) \<Longrightarrow> uint r0 + 2 ^ 64 * uint r1 = uint a * uint b"
  using arg_cong [OF bn_mulw_value, of a b r1 r0 int] by simp

lemma take_append_val:
  "length xs = l \<Longrightarrow> bn_val (take (l + m) (xs @ ys)) + k * 2 ^ (64 * (l + m)) =
    bn_val xs + 2 ^ (64 * l) * (bn_val (take m ys) + k * 2 ^ (64 * m))"
  by (simp add: bn_val_append power_add algebra_simps)

lemma sqr_add_loop_value:
  assumes "n \<le> length a" "2 * n \<le> length r"
  shows "length (sqr_add_loop c r a n) = length r \<and> (\<exists>k. bn_val (take (2 * n) (sqr_add_loop c r a n)) + k * 2 ^ (64 * (2 * n)) =
    bn_val (take (2 * n) r) + squares_val (take n a) + uint c)"
  using assms
proof (induction n arbitrary: c r a rule: less_induct)
  case (less n)
  consider "n \<ge> 4" | "n < 4" "n > 0" | "n = 0" by linarith
  then show ?case
  proof cases
    case 1
    obtain x1 x0 where m0: "bn_mulw (a ! 0) (a ! 0) = (x1, x0)" by fastforce
    obtain x3 x2 where m1: "bn_mulw (a ! 1) (a ! 1) = (x3, x2)" by fastforce
    obtain c1 r3 r2 r1 r0 where q: "bn_qwaddqw x3 x2 x1 x0 (r ! 3) (r ! 2) (r ! 1) (r ! 0) c = (c1, r3, r2, r1, r0)"
      by (metis prod_cases5)
    obtain y1 y0 where m2: "bn_mulw (a ! 2) (a ! 2) = (y1, y0)" by fastforce
    obtain y3 y2 where m3: "bn_mulw (a ! 3) (a ! 3) = (y3, y2)" by fastforce
    obtain c2 r7 r6 r5 r4 where q': "bn_qwaddqw y3 y2 y1 y0 (r ! 7) (r ! 6) (r ! 5) (r ! 4) c1 = (c2, r7, r6, r5, r4)"
      by (metis prod_cases5)
    define rest where "rest = sqr_add_loop c2 (drop 8 r) (drop 4 a) (n - 4)"
    have eq: "sqr_add_loop c r a n = [r0, r1, r2, r3, r4, r5, r6, r7] @ rest"
      using 1 by (simp add: sqr_add_loop.simps [of c r a n] m0 m1 m2 m3 q q' rest_def del: One_nat_def)
    have le: "n - 4 \<le> length (drop 4 a)" "2 * (n - 4) \<le> length (drop 8 r)" using less.prems 1 by simp_all
    obtain k where IH: "length rest = length r - 8"
      "bn_val (take (2 * (n - 4)) rest) + k * 2 ^ (64 * (2 * (n - 4))) =
        bn_val (take (2 * (n - 4)) (drop 8 r)) + squares_val (take (n - 4) (drop 4 a)) + uint c2"
      using less.IH [of "n - 4" "drop 4 a" "drop 8 r" c2, OF _ le] 1 unfolding rest_def by auto
    have n2: "2 * n = 8 + 2 * (n - 4)" using 1 by simp
    have r: "bn_val (take (2 * n) r) = bn_val (take 8 r) + 2 ^ 512 * bn_val (take (2 * (n - 4)) (drop 8 r))"
      using bn_val_take_split [of 8 "2 * n" r] less.prems(2) 1 by (simp add: n2)
    have r8: "take 8 r = [r ! 0, r ! 1, r ! 2, r ! 3, r ! 4, r ! 5, r ! 6, r ! 7]" using list_of_8 [of r] less.prems(2) 1 by simp
    have a: "take n a = a ! 0 # a ! 1 # a ! 2 # a ! 3 # take (n - 4) (drop 4 a)" by (rule take_four [OF 1 less.prems(1)])
    have "bn_val (take (2 * n) (sqr_add_loop c r a n)) + k * 2 ^ (64 * (2 * n)) =
      bn_val [r0, r1, r2, r3, r4, r5, r6, r7] + 2 ^ (64 * 8) * (bn_val (take (2 * (n - 4)) rest) + k * 2 ^ (64 * (2 * (n - 4))))"
      unfolding eq n2 by (rule take_append_val) simp
    also have "\<dots> = bn_val (take (2 * n) r) + squares_val (take n a) + uint c"
      unfolding IH(2) r r8 a using bn_qwaddqw_value [OF q] bn_qwaddqw_value [OF q'] bn_mulw_int [OF m0] bn_mulw_int [OF m1]
        bn_mulw_int [OF m2] bn_mulw_int [OF m3] by simp
    finally show ?thesis using IH(1) less.prems(2) 1 by (auto simp: eq)
  next
    case 2
    obtain c1 r0 where m: "bn_mulw_addw_addw (a ! 0) (a ! 0) (r ! 0) c = (c1, r0)" by fastforce
    obtain c2 r1 where s: "bn_addw (r ! 1) c1 = (c2, r1)" by fastforce
    define rest where "rest = sqr_add_loop c2 (drop 2 r) (drop 1 a) (n - 1)"
    have eq: "sqr_add_loop c r a n = [r0, r1] @ rest"
      using 2 by (simp add: sqr_add_loop.simps [of c r a n] m s rest_def del: One_nat_def)
    have le: "n - 1 \<le> length (drop 1 a)" "2 * (n - 1) \<le> length (drop 2 r)" using less.prems 2 by simp_all
    obtain k where IH: "length rest = length r - 2"
      "bn_val (take (2 * (n - 1)) rest) + k * 2 ^ (64 * (2 * (n - 1))) =
        bn_val (take (2 * (n - 1)) (drop 2 r)) + squares_val (take (n - 1) (drop 1 a)) + uint c2"
      using less.IH [of "n - 1" "drop 1 a" "drop 2 r" c2, OF _ le] 2 unfolding rest_def by auto
    have n2: "2 * n = 2 + 2 * (n - 1)" using 2 by simp
    have r: "bn_val (take (2 * n) r) = bn_val (take 2 r) + 2 ^ 128 * bn_val (take (2 * (n - 1)) (drop 2 r))"
      using bn_val_take_split [of 2 "2 * n" r] less.prems(2) 2 by (simp add: n2)
    have r2: "take 2 r = [r ! 0, r ! 1]" using less.prems(2) 2 take_one [of 2 r] take_one [of 1 "drop 1 r"] by simp
    have a: "take n a = a ! 0 # take (n - 1) (drop 1 a)" by (rule take_one [OF 2(2) less.prems(1)])
    have v: "uint r0 + uint c1 * 2 ^ 64 = uint (a ! 0) * uint (a ! 0) + uint (r ! 0) + uint c"
      "uint r1 + uint c2 * 2 ^ 64 = uint (r ! 1) + uint c1"
      using arg_cong [OF bn_mulw_addw_addw_value [OF m], of int] arg_cong [OF bn_addw_value [OF s], of int] by simp_all
    have "bn_val (take (2 * n) (sqr_add_loop c r a n)) + k * 2 ^ (64 * (2 * n)) =
      bn_val [r0, r1] + 2 ^ (64 * 2) * (bn_val (take (2 * (n - 1)) rest) + k * 2 ^ (64 * (2 * (n - 1))))"
      unfolding eq n2 by (rule take_append_val) simp
    also have "\<dots> = bn_val (take (2 * n) r) + squares_val (take n a) + uint c"
      unfolding IH(2) r r2 a using v by simp
    finally show ?thesis using IH(1) less.prems(2) 2 by (auto simp: eq)
  next
    case 3
    then show ?thesis by (auto simp: sqr_add_loop.simps [of c r a 0] intro: exI [of _ "uint c"])
  qed
qed


text \<open>The products of different words, in the words between the two that are set to 0.\<close>

definition sqr_rows :: "words \<Rightarrow> words \<Rightarrow> nat \<Rightarrow> words" where
  "sqr_rows r a n =
     sqr_rows_loop (if n > 0 then (let (c, seg) = bn_mul_words (drop 1 r) (drop 1 a) n (a ! 0) in (take 1 r @ seg)[1 + n := c]) else r)
       3 (drop 1 a) (n - 1)"

lemma sqr_rows_value:
  assumes "Suc n \<le> length a" "1 + 2 * n \<le> length r" "r' = sqr_rows r a n"
  shows "length r' = length r \<and> take 1 r' = take 1 r \<and> drop (1 + 2 * n) r' = drop (1 + 2 * n) r \<and>
    bn_val (take (2 * n) (drop 1 r')) = cross_val (take (Suc n) a)"
proof (cases n)
  case 0
  then show ?thesis using assms by (cases a) (simp_all add: sqr_rows_def)
next
  case (Suc k)
  obtain w ws where a: "a = w # ws" using assms(1) by (cases a) auto
  obtain c seg where m: "bn_mul_words (drop 1 r) ws (Suc k) w = (c, seg)" by fastforce
  define r1 where "r1 = (take 1 r @ seg)[1 + Suc k := c]"
  have ln: "Suc k \<le> length ws" "Suc k \<le> length (drop 1 r)" "1 + Suc k < length r" "1 + 2 + 2 * k \<le> length r"
    using assms Suc by (auto simp: a)
  note row = row_value [OF ln(3) bn_mul_words_value [OF m ln(1,2)] r1_def]
  have r': "r' = sqr_rows_loop r1 (1 + 2) ws k" using assms(3) m by (simp add: sqr_rows_def a Suc r1_def numeral_3_eq_3)
  have "1 + 2 + 2 * k \<le> length r1" using ln(4) row(1) by simp
  from rows_combine [OF row ln(4) sqr_rows_loop_value [OF ln(1) this r']] show ?thesis by (simp add: a Suc algebra_simps)
qed

text \<open>Two numbers below a power of two that differ by a multiple of it.\<close>

lemma eq_of_wrap:
  assumes "x + k * m = y" "0 \<le> x" "x < m" "0 \<le> y" "y < (m :: int)"
  shows "x = y"
proof -
  have "y mod m = x mod m" unfolding assms(1) [symmetric] by simp
  then show ?thesis using assms by simp
qed

lemma bn_val_take_less: "n \<le> length ws \<Longrightarrow> bn_val (take n ws) < 2 ^ (64 * n)"
  using bn_val_less [of "take n ws"] by (simp add: min_absorb2)

lemma bn_sqr_normal_value:
  assumes "n \<le> length a" "2 * n \<le> length r" "0 < n"
  shows "length (bn_sqr_normal r (2 * n) a n) = length r \<and>
    bn_val (take (2 * n) (bn_sqr_normal r (2 * n) a n)) = bn_val (take n a) * bn_val (take n a)"
proof -
  obtain m where n: "n = Suc m" using assms(3) by (cases n) auto
  define r0 where "r0 = r[2 * n - 1 := 0, 0 := 0]"
  define r1 where "r1 = sqr_rows r0 a m"
  obtain c r2 where add: "bn_add_words r1 r1 r1 (2 * n) = (c, r2)" by fastforce
  have m: "n - 1 = m" "\<not> n \<le> 0" using n by simp_all
  have "bn_sqr_normal r (2 * n) a n = (case bn_add_words r1 r1 r1 (2 * n) of (carry, r) \<Rightarrow> bn_sqr_add_words r a n)"
    unfolding bn_sqr_normal_def Let_def r1_def sqr_rows_def r0_def m(1) by (simp only: m(2) if_False)
  then have eq: "bn_sqr_normal r (2 * n) a n = sqr_add_loop 0 r2 a n"
    using m(2) by (simp add: add bn_sqr_add_words_def)
  have l0: "length r0 = length r" "r0 ! 0 = 0" "r0 ! (1 + 2 * m) = 0"
    using assms(2) n by (cases r; simp add: r0_def)+
  have rows: "length r1 = length r0" "take 1 r1 = take 1 r0" "drop (1 + 2 * m) r1 = drop (1 + 2 * m) r0"
    "bn_val (take (2 * m) (drop 1 r1)) = cross_val (take n a)"
    using sqr_rows_value [of m a r0 r1] assms l0(1) by (auto simp: r1_def n)
  have t1: "take 1 r1 = [0]" using take_one [of 1 r0] l0 rows(2) assms n by simp
  have last: "r1 ! (1 + 2 * m) = 0" using arg_cong [OF rows(3), of hd] l0 rows(1) assms(2) n by (simp add: hd_drop_conv_nth)
  have "bn_val (take (2 * n) r1) = bn_val (take (1 + 2 * m) r1)"
    using bn_val_take_Suc [of "1 + 2 * m" r1] last rows(1) l0(1) assms(2) n by simp
  also have "\<dots> = 2 ^ 64 * cross_val (take n a)"
    using bn_val_take_split [of 1 "1 + 2 * m" r1] rows l0(1) assms(2) n t1 by simp
  finally have cross: "bn_val (take (2 * n) r1) = 2 ^ 64 * cross_val (take n a)" .
  have len1: "2 * n \<le> length r1" using rows(1) l0(1) assms(2) by simp
  note av = bn_add_words_value [OF add len1 len1 len1]
  have len2: "2 * n \<le> length r2" "length r2 = length r" using wrote_length [OF av(1)] len1 rows(1) l0(1) by simp_all
  note sq = bn_val_square [of "take n a"] and less = bn_val_sq_less [OF assms(1)]
  have dbl: "2 * (2 ^ 64 * cross_val (take n a)) < 2 ^ (64 * (2 * n))"
    using less sq squares_val_nonneg [of "take n a"] by linarith
  have "bn_val (take (2 * n) r2) = 2 * (2 ^ 64 * cross_val (take n a))"
    by (rule eq_of_wrap [of _ "uint c" "2 ^ (64 * (2 * n))"])
      (use av(2) cross dbl bn_val_take_less [OF len2(1)] in simp_all)
  moreover obtain k where k: "length (sqr_add_loop 0 r2 a n) = length r2" "bn_val (take (2 * n) (sqr_add_loop 0 r2 a n)) + k * 2 ^ (64 * (2 * n)) =
      bn_val (take (2 * n) r2) + squares_val (take n a)"
    using sqr_add_loop_value [OF assms(1) len2(1), of 0] by auto
  ultimately have "bn_val (take (2 * n) (sqr_add_loop 0 r2 a n)) + k * 2 ^ (64 * (2 * n)) = bn_val (take n a) * bn_val (take n a)"
    using sq by simp
  then have "bn_val (take (2 * n) (sqr_add_loop 0 r2 a n)) = bn_val (take n a) * bn_val (take n a)"
    by (rule eq_of_wrap) (use less bn_val_take_less [of "2 * n" "sqr_add_loop 0 r2 a n"] len2 k(1) in simp_all)
  then show ?thesis using k(1) len2 by (simp add: eq)
qed

section \<open>Squaring numbers\<close>

definition sqr_array :: "bignum \<Rightarrow> bignum \<Rightarrow> bignum" where
  "sqr_array rr a =
     (if bn_top a = 4 then rr\<lparr>bn_d := bn_sqr_comba4 (bn_d rr) (bn_d a)\<rparr>
      else if bn_top a = 8 then rr\<lparr>bn_d := bn_sqr_comba8 (bn_d rr) (bn_d a)\<rparr>
      else bn_sqr rr a (bn_top a * 2))"

lemma sqr_array_value:
  assumes "bn_fits a" "bn_top a > 0" "bn_top a * 2 \<le> bn_dmax rr" "bn_fits rr"
    and "x = (sqr_array rr a)\<lparr>bn_top := bn_top a * 2\<rparr>"
  shows "bn_fits x" "bn_mag x = bn_mag a * bn_mag a"
proof -
  have top: "bn_top a \<le> length (bn_d a)" using assms(1) bn_fits_top by auto
  define d where "d = bn_d (sqr_array rr a)"
  have len: "2 * bn_top a \<le> length (bn_d rr)" using assms(3) by (simp add: bn_dmax_def)
  have "length d = length (bn_d rr) \<and>
      bn_val (take (bn_top a * 2) d) = bn_val (take (bn_top a) (bn_d a)) * bn_val (take (bn_top a) (bn_d a))"
    using bn_sqr_comba4_value [of "bn_d a" "bn_d rr"] bn_sqr_comba8_value [of "bn_d a" "bn_d rr"]
      bn_sqr_normal_value [OF top len assms(2)] top len
    by (auto simp: d_def sqr_array_def bn_sqr_def mult.commute)
  then show "bn_fits x" "bn_mag x = bn_mag a * bn_mag a"
    using assms(3,4) by (simp_all add: assms(5) d_def bn_fits_def bn_dmax_def bn_mag_def)
qed

text \<open>
  \<open>BN_sqr\<close> computes the square if it has the memory for it, and otherwise leaves the
  result as it was; it returns 1 in both cases.
\<close>

definition sqr_room :: "(nat \<Rightarrow> bool) \<Rightarrow> bool \<Rightarrow> bignum option \<Rightarrow> bignum \<Rightarrow> bignum \<Rightarrow> bool" where
  "sqr_room alloc same tmp r a \<longleftrightarrow>
     (if same then \<exists>t. tmp = Some t \<and> can_expand alloc t (bn_top a * 2) \<and> (\<forall>k \<le> bn_top a * 2. can_expand alloc r k)
      else can_expand alloc r (bn_top a * 2))"

lemma BN_sqr_ok:
  assumes "bn_fits r" "bn_ok a" "\<And>t. same \<Longrightarrow> tmp = Some t \<Longrightarrow> bn_fits t"
    and "BN_sqr alloc same tmp r a = (ret, r')"
  shows "ret" and "bn_ok r' \<and> bn_int r' = bn_int a * bn_int a \<or> r' = r"
    and "sqr_room alloc same tmp r a \<Longrightarrow> bn_ok r' \<and> bn_int r' = bn_int a * bn_int a"
proof -
  define n where "n = bn_top a * 2"
  note fa = bn_ok_fits [OF assms(2)]
  have "ret \<and> (bn_ok r' \<and> bn_int r' = bn_int a * bn_int a \<or> r' = r) \<and>
    (sqr_room alloc same tmp r a \<longrightarrow> bn_ok r' \<and> bn_int r' = bn_int a * bn_int a)"
  proof (cases "bn_top a = 0")
    case True
    then have "bn_int a = 0" using bn_ok_int_0 [OF assms(2)] by auto
    moreover have "ret" "r' = BN_zero r" using assms(4) True by (auto simp: BN_sqr_def)
    ultimately show ?thesis using BN_zero_ok [OF assms(1)] by simp
  next
    case False
    define src where "src = (if same then tmp else Some r)"
    have fs: "src = Some t \<Longrightarrow> bn_fits t" for t using assms(1,3) by (auto simp: src_def split: if_splits)
    define fin where "fin x = (bn_correct_top ((sqr_array x a)\<lparr>bn_top := n\<rparr>))\<lparr>bn_neg := 0\<rparr>" for x
    have nl: "\<not> n < bn_top a" "\<not> bn_top a < 1" using False by (simp_all add: n_def)
    have eq: "(ret, r') = (case src of None \<Rightarrow> (True, r) | Some t \<Rightarrow>
        (case bn_wexpand alloc t (int n) of (False, _) \<Rightarrow> (True, r)
         | (True, x) \<Rightarrow> (if same then (True, snd (BN_copy alloc r (fin x))) else (True, fin x))))"
      using assms(4) unfolding BN_sqr_def Let_def n_def [symmetric] src_def [symmetric] fin_def sqr_array_def
      by (simp only: if_False nl)
    show ?thesis
    proof (cases "\<exists>t. src = Some t \<and> can_expand alloc t n")
      case True
      then obtain t where t: "src = Some t" "can_expand alloc t n" by blast
      then obtain x where x: "bn_wexpand alloc t (int n) = (True, x)" by (simp add: bn_wexpand_eq)
      note X = bn_wexpand_ok [OF x fs [OF t(1)]]
      note prod = sqr_array_value [OF fa _ X(2) [unfolded n_def] X(1) refl, folded n_def]
      have fin: "bn_ok (fin x)" "bn_int (fin x) = bn_int a * bn_int a"
        using bn_correct_top_ok [OF prod(1)] prod(2) False
        by (auto simp: fin_def bn_ok_def bn_int_def)
      show ?thesis
      proof (cases same)
        case False
        then have "ret" "r' = fin x" using eq t x by simp_all
        then show ?thesis using fin by simp
      next
        case True
        obtain b y where copy: "BN_copy alloc r (fin x) = (b, y)" by fastforce
        then have r: "ret" "r' = y" using eq t x True by simp_all
        note c = BN_copy_correct [OF assms(1) fin(1) copy]
        have "bn_top (fin x) \<le> n"
          using correct_top_loop_props [of n "bn_d (sqr_array x a)"] bn_fits_top [OF prod(1)] False
          by (simp add: fin_def bn_correct_top_def)
        then have "sqr_room alloc same tmp r a \<longrightarrow> b" using c(1) True by (auto simp: sqr_room_def n_def)
        then show ?thesis using c(2,3) fin r by (cases b) auto
      qed
    next
      case no: False
      then have "ret" "r' = r"
        using eq by (auto simp: bn_wexpand_eq split: option.splits if_splits)
      then show ?thesis using no by (auto simp: src_def sqr_room_def n_def split: if_splits)
    qed
  qed
  then show "ret" and "bn_ok r' \<and> bn_int r' = bn_int a * bn_int a \<or> r' = r"
    and "sqr_room alloc same tmp r a \<Longrightarrow> bn_ok r' \<and> bn_int r' = bn_int a * bn_int a"
    by auto
qed

text \<open>Without memory \<open>BN_sqr\<close> reports success and has not computed anything.\<close>

lemma BN_sqr_silent_failure:
  "BN_sqr (\<lambda>_. False) False None \<lparr>bn_d = [], bn_top = 0, bn_neg = 0, bn_flags = BN_FLG_MALLOCED\<rparr>
     \<lparr>bn_d = [3], bn_top = 1, bn_neg = 0, bn_flags = BN_FLG_MALLOCED\<rparr> =
   (True, \<lparr>bn_d = [], bn_top = 0, bn_neg = 0, bn_flags = BN_FLG_MALLOCED\<rparr>)"
  using bn_wexpand_eq [of "\<lambda>_. False" "\<lparr>bn_d = [], bn_top = 0, bn_neg = 0, bn_flags = BN_FLG_MALLOCED\<rparr>" 2]
  by (simp add: BN_sqr_def can_expand_def bn_dmax_def)

end
