(* ===== verification/BN_Div.thy ===== *)
theory BN_Div
  imports BN_Div_Words BN_Sqr
begin

text \<open>
  Long division (libcrypto/bn/bn_div.c) and the modular operations that are built
  on it (bn_mod.c).  The arguments are passed by value: the numerator and the divisor are
  copied into temporaries before a result is written, and the signs are read
  before they could change.  \<open>None\<close> for the quotient or the remainder is the null
  pointer, \<open>ctx k\<close> the answer of the \<open>k\<close>-th call of \<open>BN_CTX_get\<close>; a result
  \<open>None\<close> of the function stands for a call that does not return.
\<close>

section \<open>Definitions\<close>

text \<open>
  The body of the loop of \<open>BN_div_internal\<close> after the estimate \<open>q\<close>: \<open>wnump\<close> is the index of
  the top of the window in the words \<open>d\<close> of \<open>snum\<close>, \<open>wnum\<close> that of its lowest word.
\<close>

definition div_step :: "words \<Rightarrow> nat \<Rightarrow> bn_word \<Rightarrow> words \<Rightarrow> words \<Rightarrow> nat \<Rightarrow> nat \<Rightarrow> bn_word \<times> words \<times> words" where
  "div_step sdiv div_n q tmp d wnump wnum =
     (let (l0, tmp) = bn_mul_words tmp sdiv div_n q;
          tmp = tmp[div_n := l0];
          (borrow, seg) = bn_sub_words (drop wnum d) (drop wnum d) tmp (div_n + 1);
          d = take wnum d @ seg
      in if borrow \<noteq> 0 then
           (let q = q - 1;
                (carry, seg) = bn_add_words (drop wnum d) (drop wnum d) sdiv div_n;
                d = take wnum d @ seg
            in (q, tmp, if carry \<noteq> 0 then d[wnump := d ! wnump + 1] else d))
         else (q, tmp, d))"

text \<open>The loop; \<open>resp\<close> is the index of the next digit in \<open>res\<close>.\<close>

fun div_loop :: "words \<Rightarrow> nat \<Rightarrow> bn_word \<Rightarrow> bn_word \<Rightarrow> nat \<Rightarrow> words \<Rightarrow> words \<Rightarrow> nat \<Rightarrow> nat \<Rightarrow> words \<Rightarrow> nat
    \<Rightarrow> (words \<times> words) option" where
  "div_loop sdiv div_n d1 d0 0 tmp d wnump wnum res resp = Some (d, res)"
| "div_loop sdiv div_n d1 d0 (Suc n) tmp d wnump wnum res resp =
     (case bn_div_3_words d wnump d1 d0 of
        None \<Rightarrow> None
      | Some q \<Rightarrow>
         (let wnum = wnum - 1;
              (q, tmp, d) = div_step sdiv div_n q tmp d wnump wnum
          in div_loop sdiv div_n d1 d0 n tmp d (wnump - 1) wnum (res[resp := q]) (resp - 1)))"

text \<open>The padding of \<open>snum\<close> when branches must not depend on the numbers.\<close>

definition div_pad :: "(nat \<Rightarrow> bool) \<Rightarrow> bignum \<Rightarrow> nat \<Rightarrow> bool \<times> bignum" where
  "div_pad alloc snum sdiv_top =
     (if bn_top snum \<le> sdiv_top + 1 then
        (case bn_wexpand alloc snum (int (sdiv_top + 2)) of
           (False, snum) \<Rightarrow> (False, snum)
         | (True, snum) \<Rightarrow>
            (True, snum\<lparr>bn_d := write_at (bn_d snum) (bn_top snum) (replicate (sdiv_top + 2 - bn_top snum) 0),
               bn_top := sdiv_top + 2\<rparr>))
      else
        (case bn_wexpand alloc snum (int (bn_top snum + 1)) of
           (False, snum) \<Rightarrow> (False, snum)
         | (True, snum) \<Rightarrow> (True, snum\<lparr>bn_d := (bn_d snum)[bn_top snum := 0], bn_top := bn_top snum + 1\<rparr>)))"

text \<open>The state before the loop: the words of \<open>snum\<close>, and of \<open>res\<close> with its length.\<close>

definition div_start :: "bignum \<Rightarrow> bignum \<Rightarrow> nat \<Rightarrow> bignum \<Rightarrow> bool \<Rightarrow> words \<times> bignum" where
  "div_start snum sdiv loop res no_branch =
     (let wnum = snum\<lparr>bn_neg := 0, bn_d := drop loop (bn_d snum), bn_top := bn_top sdiv,
            bn_flags := bn_flags snum OR BN_FLG_STATIC_DATA\<rparr>
      in if \<not> no_branch then
           (if BN_ucmp wnum sdiv \<ge> 0 then
              (take loop (bn_d snum) @ snd (bn_sub_words (bn_d wnum) (bn_d wnum) (bn_d sdiv) (bn_top sdiv)),
               res\<lparr>bn_d := (bn_d res)[loop - 1 := 1]\<rparr>)
            else (bn_d snum, res\<lparr>bn_top := bn_top res - 1\<rparr>))
         else (bn_d snum, res))"

text \<open>
  The division of the normalised numbers and the results.  The outcome of
  \<open>BN_rshift\<close> is not looked at.
\<close>

definition div_normalised :: "(nat \<Rightarrow> bool) \<Rightarrow> bignum \<Rightarrow> bignum \<Rightarrow> bignum \<Rightarrow> bignum \<Rightarrow> bignum option
    \<Rightarrow> bignum \<Rightarrow> bignum \<Rightarrow> int \<Rightarrow> bool \<Rightarrow> (bool \<times> bignum \<times> bignum option) option" where
  "div_normalised alloc tmp snum sdiv res remainder numerator divisor norm_shift no_branch =
     (let div_n = bn_top sdiv;
          num_n = bn_top snum;
          loop = num_n - div_n;
          d0 = bn_d sdiv ! (div_n - 1);
          d1 = (if div_n = 1 then 0 else bn_d sdiv ! (div_n - 2))
      in case bn_wexpand alloc res (int (loop + 1)) of
           (False, res) \<Rightarrow> Some (False, res, remainder)
         | (True, res) \<Rightarrow>
            (let res = res\<lparr>bn_top := loop - of_bool no_branch\<rparr>;
                 r_neg = bn_neg numerator XOR bn_neg divisor
             in case bn_wexpand alloc tmp (int (div_n + 1)) of
                  (False, tmp) \<Rightarrow> Some (False, res, remainder)
                | (True, tmp) \<Rightarrow>
                   (let (d, res) = div_start snum sdiv loop res no_branch;
                        (res, resp) = (if bn_top res = 0 then (res\<lparr>bn_neg := 0\<rparr>, loop - 1) else (res, loop - 1 - 1))
                    in case div_loop (bn_d sdiv) div_n d1 d0 (loop - 1) (bn_d tmp) d (num_n - 1) loop (bn_d res) resp of
                         None \<Rightarrow> None
                       | Some (d, q) \<Rightarrow>
                          (let snum = bn_correct_top (snum\<lparr>bn_d := d\<rparr>);
                               remainder = (case remainder of None \<Rightarrow> None
                                 | Some r \<Rightarrow> Some (BN_set_negative (snd (BN_rshift alloc r snum norm_shift)) (bn_neg numerator)));
                               res = res\<lparr>bn_d := q\<rparr>;
                               res = (if no_branch then bn_correct_top res else res)
                           in Some (True, BN_set_negative res r_neg, remainder)))))"

definition BN_div_internal :: "(nat \<Rightarrow> bool) \<Rightarrow> (nat \<Rightarrow> bignum option) \<Rightarrow> bignum option \<Rightarrow> bignum option
    \<Rightarrow> bignum \<Rightarrow> bignum \<Rightarrow> bool \<Rightarrow> (bool \<times> bignum option \<times> bignum option) option" where
  "BN_div_internal alloc ctx quot remainder numerator divisor ct =
     (if bn_top numerator > 0 \<and> bn_d numerator ! (bn_top numerator - 1) = 0 then Some (False, quot, remainder)
      else let no_branch = ct
       in if BN_is_zero divisor then Some (False, quot, remainder)
          else if \<not> no_branch \<and> BN_ucmp numerator divisor < 0 then
            (case (case remainder of None \<Rightarrow> (True, None)
                     | Some r \<Rightarrow> (case BN_copy alloc r numerator of (ok, r) \<Rightarrow> (ok, Some r))) of
               (False, remainder) \<Rightarrow> Some (False, quot, remainder)
             | (True, remainder) \<Rightarrow> Some (True, map_option BN_zero quot, remainder))
          else case (ctx 0, ctx 1, ctx 2, case quot of None \<Rightarrow> ctx 3 | Some q \<Rightarrow> Some q) of
              (Some tmp, Some snum, Some sdiv, Some res) \<Rightarrow>
                (let norm_shift = BN_BITS2 - BN_num_bits divisor mod BN_BITS2
                 in case BN_lshift alloc sdiv divisor norm_shift of
                      (False, sdiv) \<Rightarrow> Some (False, quot, remainder)
                    | (True, sdiv) \<Rightarrow>
                       (let sdiv = sdiv\<lparr>bn_neg := 0\<rparr>;
                            norm_shift = norm_shift + BN_BITS2
                        in case BN_lshift alloc snum numerator norm_shift of
                             (False, snum) \<Rightarrow> Some (False, quot, remainder)
                           | (True, snum) \<Rightarrow>
                              (let snum = snum\<lparr>bn_neg := 0\<rparr>
                               in case (if no_branch then div_pad alloc snum (bn_top sdiv) else (True, snum)) of
                                    (False, snum) \<Rightarrow> Some (False, quot, remainder)
                                  | (True, snum) \<Rightarrow>
                                     (case div_normalised alloc tmp snum sdiv res remainder numerator divisor norm_shift no_branch of
                                        None \<Rightarrow> None
                                      | Some (ret, res, remainder) \<Rightarrow>
                                         Some (ret, case quot of None \<Rightarrow> None | Some q \<Rightarrow> Some res, remainder)))))
            | _ \<Rightarrow> Some (False, quot, remainder))"

definition BN_div :: "(nat \<Rightarrow> bool) \<Rightarrow> (nat \<Rightarrow> bignum option) \<Rightarrow> bignum option \<Rightarrow> bignum option \<Rightarrow> bignum \<Rightarrow> bignum
    \<Rightarrow> (bool \<times> bignum option \<times> bignum option) option" where
  "BN_div alloc ctx quot remainder numerator divisor =
     (let ct = BN_get_flags numerator BN_FLG_CONSTTIME \<noteq> 0 \<or> BN_get_flags divisor BN_FLG_CONSTTIME \<noteq> 0
      in BN_div_internal alloc ctx quot remainder numerator divisor ct)"

definition BN_div_nonct :: "(nat \<Rightarrow> bool) \<Rightarrow> (nat \<Rightarrow> bignum option) \<Rightarrow> bignum option \<Rightarrow> bignum option \<Rightarrow> bignum \<Rightarrow> bignum
    \<Rightarrow> (bool \<times> bignum option \<times> bignum option) option" where
  "BN_div_nonct alloc ctx quot remainder numerator divisor =
     BN_div_internal alloc ctx quot remainder numerator divisor False"

definition BN_div_ct :: "(nat \<Rightarrow> bool) \<Rightarrow> (nat \<Rightarrow> bignum option) \<Rightarrow> bignum option \<Rightarrow> bignum option \<Rightarrow> bignum \<Rightarrow> bignum
    \<Rightarrow> (bool \<times> bignum option \<times> bignum option) option" where
  "BN_div_ct alloc ctx quot remainder numerator divisor =
     BN_div_internal alloc ctx quot remainder numerator divisor True"

section \<open>One digit\<close>

lemma int_le_div_iff: "0 < D \<Longrightarrow> q \<le> W div D \<longleftrightarrow> q * D \<le> (W :: int)"
proof
  assume "0 < D" "q \<le> W div D"
  then have "q * D \<le> W div D * D" by (intro mult_right_mono) auto
  also have "\<dots> \<le> W" using div_mult_mod_eq [of W D] pos_mod_sign [OF \<open>0 < D\<close>, of W] by linarith
  finally show "q * D \<le> W" .
next
  assume "0 < D" "q * D \<le> W"
  then have "q * D div D \<le> W div D" by (intro zdiv_mono1) auto
  then show "q \<le> W div D" using \<open>0 < D\<close> by simp
qed

lemma int_div_less_iff: "0 < D \<Longrightarrow> W div D < q \<longleftrightarrow> (W :: int) < q * D"
  using int_le_div_iff [of D q W] by linarith

text \<open>Knuth's bounds for the estimate that looks at the top words only.\<close>

lemma estimate_upper:
  fixes W D N V b q :: int
  assumes "W < (N + 1) * b" "V * b \<le> D" "0 < b" "0 < V" "0 < D" "0 \<le> N" "0 \<le> W"
  shows "W div D \<le> N div V"
proof -
  have "N < (N div V + 1) * V" using assms(4) by (metis add.commute distrib_left div_mult_mod_eq mult.commute mult.right_neutral add_strict_left_mono pos_mod_bound)
  then have "N + 1 \<le> (N div V + 1) * V" by simp
  then have "(N + 1) * b \<le> (N div V + 1) * V * b" using assms(3) by (intro mult_right_mono) auto
  also have "\<dots> = (N div V + 1) * (V * b)" by (simp add: mult.assoc)
  also have "\<dots> \<le> (N div V + 1) * D" using assms(2,4,6) by (intro mult_left_mono) (auto simp: pos_imp_zdiv_nonneg_iff)
  finally have "W < (N div V + 1) * D" using assms(1) by linarith
  then have "W div D < N div V + 1" using assms(5) by (simp only: int_div_less_iff)
  then show ?thesis by simp
qed

lemma estimate_lower:
  fixes W D N V b q :: int
  assumes "N * b \<le> W" "D < (V + 1) * b" "0 < b" "q * V \<le> N" "q \<le> V + 1" "0 < D" "0 \<le> W"
  shows "q \<le> W div D + 1"
proof -
  have "(q - 1) * D \<le> W"
  proof (cases "1 \<le> q")
    case True
    then have "(q - 1) * D \<le> (q - 1) * ((V + 1) * b)" using assms(2) by (intro mult_left_mono) auto
    also have "\<dots> = (q * V + q - V - 1) * b" by (simp add: algebra_simps)
    also have "\<dots> \<le> N * b" using assms(3-5) by (intro mult_right_mono) auto
    finally show ?thesis using assms(1) by linarith
  next
    case False
    then have "(q - 1) * D \<le> 0" using assms(6) by (intro mult_nonpos_nonneg) auto
    then show ?thesis using assms(7) by linarith
  qed
  then have "q - 1 \<le> W div D" using assms(6) by (simp only: int_le_div_iff)
  then show ?thesis by simp
qed

text \<open>A normalised divisor and a window whose quotient is one word.\<close>

definition div_window :: "words \<Rightarrow> nat \<Rightarrow> words \<Rightarrow> nat \<Rightarrow> bool" where
  "div_window sdiv n d k \<longleftrightarrow>
     0 < n \<and> n \<le> length sdiv \<and> 2 ^ 63 \<le> uint (sdiv ! (n - 1)) \<and> 0 < k \<and> k + n < length d \<and>
     bn_val (take (Suc n) (drop k d)) < bn_val (take n sdiv) * 2 ^ 64"

definition div_d1 :: "words \<Rightarrow> nat \<Rightarrow> bn_word" where
  "div_d1 sdiv n = (if n = 1 then 0 else sdiv ! (n - 2))"

lemma top_word_bounds:
  assumes "n < length ws"
  shows "uint (ws ! n) * 2 ^ (64 * n) \<le> bn_val (take (Suc n) ws)" "bn_val (take (Suc n) ws) < (uint (ws ! n) + 1) * 2 ^ (64 * n)"
  using assms bn_val_take_less [of n ws] by (simp_all add: bn_val_take_Suc algebra_simps)

lemma top_two_bounds:
  assumes "Suc n < length ws" "v = uint (ws ! Suc n) * 2 ^ 64 + uint (ws ! n)"
  shows "v * 2 ^ (64 * n) \<le> bn_val (take (Suc (Suc n)) ws)" "bn_val (take (Suc (Suc n)) ws) < (v + 1) * 2 ^ (64 * n)"
proof -
  have "bn_val (take (Suc (Suc n)) ws) = bn_val (take n ws) + v * 2 ^ (64 * n)"
    using assms by (simp add: bn_val_take_Suc power_add algebra_simps)
  then show "v * 2 ^ (64 * n) \<le> bn_val (take (Suc (Suc n)) ws)" "bn_val (take (Suc (Suc n)) ws) < (v + 1) * 2 ^ (64 * n)"
    using bn_val_take_less [of n ws] assms(1) by (simp_all add: algebra_simps)
qed

lemma top_three_bounds:
  assumes "Suc (Suc n) < length ws" "v = (uint (ws ! Suc (Suc n)) * 2 ^ 64 + uint (ws ! Suc n)) * 2 ^ 64 + uint (ws ! n)"
  shows "v * 2 ^ (64 * n) \<le> bn_val (take (Suc (Suc (Suc n))) ws)" "bn_val (take (Suc (Suc (Suc n))) ws) < (v + 1) * 2 ^ (64 * n)"
proof -
  have "bn_val (take (Suc (Suc (Suc n))) ws) = bn_val (take n ws) + v * 2 ^ (64 * n)"
    using assms by (simp add: bn_val_take_Suc power_add algebra_simps)
  then show "v * 2 ^ (64 * n) \<le> bn_val (take (Suc (Suc (Suc n))) ws)" "bn_val (take (Suc (Suc (Suc n))) ws) < (v + 1) * 2 ^ (64 * n)"
    using bn_val_take_less [of n ws] assms(1) by (simp_all add: algebra_simps)
qed

lemma div_3_words_estimate:
  assumes "div_window sdiv n d k" "W = bn_val (take (Suc n) (drop k d))" "D = bn_val (take n sdiv)"
  shows "\<exists>q. bn_div_3_words d (k + n) (div_d1 sdiv n) (sdiv ! (n - 1)) = Some q \<and>
    W div D \<le> uint q \<and> uint q \<le> W div D + 1"
proof -
  define d0 d1 where "d0 = sdiv ! (n - 1)" and "d1 = div_d1 sdiv n"
  have win: "0 < n" "n \<le> length sdiv" "2 ^ 63 \<le> uint d0" "0 < k" "k + n < length d" "W < D * 2 ^ 64"
    using assms by (simp_all add: div_window_def d0_def)
  define ws where "ws = drop k d"
  have ws: "n < length ws" "W = bn_val (take (Suc n) ws)" using win(5) assms(2) by (simp_all add: ws_def)
  define n0 where "n0 = d ! (k + n)"
  have n0: "ws ! n = n0" using win(5) by (simp add: ws_def n0_def)
  obtain m where m: "n = Suc m" using win(1) by (cases n) auto
  define B :: int where "B = 2 ^ (64 * m)"
  have Bn: "(2 :: int) ^ (64 * n) = 2 ^ 64 * B" by (simp add: m B_def power_add)
  have Bpos: "0 < B" by (simp add: B_def)
  have D: "uint d0 * B \<le> D" "D < (uint d0 + 1) * B"
    using top_word_bounds [of m sdiv] win(2) assms(3) by (simp_all add: m d0_def B_def)
  have Dpos: "0 < D" using D(1) win(3) Bpos by (smt (verit) mult_pos_pos zero_less_power)
  have W: "uint n0 * (2 ^ 64 * B) \<le> W" "0 \<le> W" using top_word_bounds(1) [OF ws(1)] unfolding ws(2) n0 Bn by simp_all
  have le: "uint n0 \<le> uint d0"
  proof (rule ccontr)
    assume "\<not> ?thesis"
    then have "(uint d0 + 1) * (2 ^ 64 * B) \<le> uint n0 * (2 ^ 64 * B)" using Bpos by (intro mult_right_mono) auto
    moreover have "D * 2 ^ 64 < (uint d0 + 1) * B * 2 ^ 64" using D(2) by simp
    ultimately show False using W(1) win(6) by (simp add: algebra_simps)
  qed
  show ?thesis
  proof (cases "n0 = d0")
    case True
    have "(2 ^ 64 - 2) * D \<le> (2 ^ 64 - 2) * ((uint d0 + 1) * B)" using D(2) by (intro mult_left_mono) auto
    also have "\<dots> = ((2 ^ 64 - 2) * (uint d0 + 1)) * B" by (simp only: mult.assoc)
    also have "\<dots> \<le> uint d0 * 2 ^ 64 * B" using win(3) Bpos by (intro mult_right_mono) auto
    also have "\<dots> \<le> W" using W(1) by (simp only: True mult.assoc)
    finally have "(2 ^ 64 - 2) * D \<le> W" .
    then have "2 ^ 64 - 2 \<le> W div D" using Dpos by (simp only: int_le_div_iff)
    moreover have "W div D < 2 ^ 64" using win(6) Dpos by (simp only: int_div_less_iff mult.commute)
    moreover have "bn_div_3_words d (k + n) d1 d0 = Some BN_MASK2" using True by (simp add: bn_div_3_words_def n0_def)
    moreover have "uint BN_MASK2 = 2 ^ 64 - 1" by (simp add: BN_MASK2_def)
    ultimately show ?thesis unfolding d0_def d1_def by auto
  next
    case False
    then have lt: "unat (d ! (k + n)) < unat d0"
      using le by (simp add: n0_def word_less_nat_alt [symmetric] word_less_def word_uint_eq_iff)
    have d63: "2 ^ 63 \<le> unat d0" using win(3) by (metis int_ops(3) le_nat_iff linorder_not_less nat_numeral of_nat_le_iff of_nat_numeral of_nat_power uint_nat)
    define n1 n2 where "n1 = d ! (k + n - 1)" and "n2 = d ! (k + n - 2)"
    define N V where "N = (uint n0 * 2 ^ 64 + uint n1) * 2 ^ 64 + uint n2" and "V = uint d0 * 2 ^ 64 + uint d1"
    obtain q where q: "bn_div_3_words d (k + n) d1 d0 = Some q"
        "unat q = ((unat n0 * 2 ^ 64 + unat n1) * 2 ^ 64 + unat n2) div (unat d0 * 2 ^ 64 + unat d1)"
      using bn_div_3_words_exact [OF d63 lt refl refl, of d1] unfolding n0_def n1_def n2_def by blast
    have qi: "uint q = N div V" using arg_cong [OF q(2), of int] by (simp add: zdiv_int N_def V_def)
    have "1 * 2 ^ 64 \<le> uint d0 * 2 ^ 64" using win(3) by (intro mult_right_mono) auto
    then have Vpos: "2 ^ 64 \<le> V" using uint_ge_0 [of d1] unfolding V_def by linarith
    have est: "W div D \<le> N div V \<and> N div V \<le> W div D + 1"
    proof (cases m)
      case 0
      then have "D = uint d0" "W = uint n0 * 2 ^ 64 + uint n1"
        using assms(3) win(2) ws m take_one [of 1 sdiv] bn_val_take_Suc [of 0 sdiv] bn_val_take_Suc [of 0 ws] bn_val_take_Suc [of 1 ws] n0 win(5)
        by (simp_all add: d0_def n1_def ws_def)
      then have "N = W * 2 ^ 64 + uint n2" "V = D * 2 ^ 64" using 0 m by (simp_all add: N_def V_def d1_def div_d1_def)
      moreover have "N div 2 ^ 64 = W" using uint_u64_lt [of n2] calculation(1) by simp
      moreover have "N div (2 ^ 64 * D) = N div 2 ^ 64 div D" using Dpos by (intro zdiv_zmult2_eq) simp
      ultimately have "N div V = W div D" by (simp only: mult.commute)
      then show ?thesis by simp
    next
      case (Suc l)
      have i: "k + n - 1 = k + Suc l" "k + n - 2 = k + l" "n = Suc (Suc l)" using Suc m by simp_all
      have "N = (uint (ws ! Suc (Suc l)) * 2 ^ 64 + uint (ws ! Suc l)) * 2 ^ 64 + uint (ws ! l)"
        using n0 win(5) i by (simp add: N_def n1_def n2_def ws_def)
      note WN = top_three_bounds [OF _ this]
      have "V = uint (sdiv ! Suc l) * 2 ^ 64 + uint (sdiv ! l)" using i by (simp add: V_def d0_def d1_def div_d1_def)
      note DV = top_two_bounds [OF _ this]
      have "W < (N + 1) * 2 ^ (64 * l)" "N * 2 ^ (64 * l) \<le> W" "V * 2 ^ (64 * l) \<le> D" "D < (V + 1) * 2 ^ (64 * l)"
        using WN DV ws win(2) i assms(3) by simp_all
      moreover have "0 \<le> N" by (simp add: N_def)
      moreover have "N div V * V \<le> N" using Vpos int_le_div_iff [of V "N div V" N] by simp
      moreover have "N div V \<le> V + 1" using qi uint_u64_lt [of q] Vpos by linarith
      ultimately show ?thesis using Vpos Dpos W(2) estimate_upper [of W N "2 ^ (64 * l)" V D] estimate_lower [of N "2 ^ (64 * l)" W D V "N div V"]
        by simp
    qed
    then show ?thesis using q(1) qi unfolding d0_def d1_def by auto
  qed
qed


text \<open>The value of a window whose top word has changed.\<close>

lemma bn_val_set_top: "n < length ws \<Longrightarrow> bn_val (take (Suc n) (ws[n := w])) = bn_val (take n ws) + 2 ^ (64 * n) * uint w"
  by (simp add: bn_val_take_Suc)

lemma uint_inc: "\<exists>j. uint (w + 1 :: u64) = uint w + 1 - j * 2 ^ 64"
proof -
  have "uint (w + 1) = (uint w + 1) mod 2 ^ 64" by (simp add: uint_word_ariths)
  then have "uint (w + 1) = uint w + 1 - (uint w + 1) div 2 ^ 64 * 2 ^ 64" by (simp only: minus_div_mult_eq_mod)
  then show ?thesis by blast
qed

text \<open>The segment after the correction has the value of the remainder.\<close>

lemma add_back_value:
  assumes "bn_add_words seg seg sdiv n = (c, seg')" "n < length seg" "n \<le> length sdiv"
    and "seg2 = (if c \<noteq> 0 then seg'[n := seg' ! n + 1] else seg')"
    and "bn_val (take (Suc n) seg) = r - bn_val (take n sdiv) + 2 ^ (64 * Suc n)" "0 \<le> r" "r < bn_val (take n sdiv)"
  shows "length seg2 = length seg" "drop (Suc n) seg2 = drop (Suc n) seg" "bn_val (take (Suc n) seg2) = r"
proof -
  have len: "n \<le> length seg" using assms(2) by simp
  note av = bn_add_words_value [OF assms(1) len assms(3) len]
  have l: "length seg' = length seg" by (rule wrote_length [OF av(1)])
  have dr: "drop n seg' = drop n seg" using av(1) by (simp add: wrote_def)
  show "length seg2 = length seg" by (simp add: assms(4) l)
  have "drop (Suc n) seg' = drop 1 (drop n seg')" by simp
  then have "drop (Suc n) seg' = drop (Suc n) seg" unfolding dr by simp
  then show "drop (Suc n) seg2 = drop (Suc n) seg" by (simp add: assms(4))
  have top: "seg' ! n = seg ! n" using dr assms(2) l by (metis hd_drop_conv_nth)
  define b :: int where "b = 2 ^ (64 * n)"
  have b64: "(2 :: int) ^ (64 * Suc n) = 2 ^ 64 * b" by (simp add: b_def power_add)
  have D: "bn_val (take n sdiv) < b" using bn_val_take_less [OF assms(3)] by (simp add: b_def)
  have sum: "bn_val (take n seg') + uint c * b = bn_val (take n seg) + bn_val (take n sdiv)" using av(2) by (simp add: b_def)
  have "bn_val (take n seg) < b" using bn_val_take_less [OF len] by (simp add: b_def)
  then have c01: "c = 0 \<or> c = 1" by (intro carry_bit [OF sum]) (use D in \<open>auto simp: b_def\<close>)
  have seg: "bn_val (take n seg) + b * uint (seg ! n) = r - bn_val (take n sdiv) + 2 ^ 64 * b"
    using assms(5) bn_val_take_Suc [OF assms(2)] by (simp only: b_def b64)
  have val: "bn_val (take (Suc n) seg2) = bn_val (take n seg') + b * uint (seg ! n + c)"
    using c01 bn_val_set_top [of n seg' "seg ! n + 1"] bn_val_take_Suc [of n seg'] assms(2) l top by (auto simp: assms(4) b_def)
  obtain j where j: "uint (seg ! n + c) = uint (seg ! n) + uint c - j * 2 ^ 64"
    using c01 uint_inc [of "seg ! n"] by (auto intro: exI [of _ 0])
  have wr: "bn_val (take (Suc n) seg2) + (j - 1) * (2 ^ 64 * b) = r"
    unfolding val j using sum seg by (simp add: algebra_simps)
  have "Suc n \<le> length seg2" using assms(2) by (simp add: assms(4) l)
  from bn_val_take_less [OF this] have lt: "bn_val (take (Suc n) seg2) < 2 ^ 64 * b" unfolding b64 .
  have "b \<le> 2 ^ 64 * b" by (simp add: b_def)
  then have rlt: "r < 2 ^ 64 * b" using assms(6,7) D by linarith
  show "bn_val (take (Suc n) seg2) = r" by (rule eq_of_wrap [OF wr bn_val_nonneg lt assms(6) rlt])
qed

lemma div_step_exact:
  assumes "div_window sdiv n d k" "W = bn_val (take (Suc n) (drop k d))" "D = bn_val (take n sdiv)" "n < length tmp"
    and "W div D \<le> uint q" "uint q \<le> W div D + 1" "div_step sdiv n q tmp d (k + n) k = (q', tmp', d')"
  shows "length tmp' = length tmp \<and> length d' = length d \<and> take k d' = take k d \<and> drop (Suc (k + n)) d' = drop (Suc (k + n)) d \<and>
    uint q' = W div D \<and> bn_val (take (Suc n) (drop k d')) = W mod D"
proof -
  have win: "0 < n" "n \<le> length sdiv" "k + n < length d" "W < D * 2 ^ 64" using assms(1-3) by (simp_all add: div_window_def)
  define b :: int where "b = 2 ^ (64 * Suc n)"
  have Dpos: "0 < D" using win(4) bn_val_nonneg [of "take (Suc n) (drop k d)"] by (simp add: assms(2) [symmetric])
  have Db: "D * 2 ^ 64 < b" using bn_val_take_less [OF win(2)] by (simp add: b_def assms(3) power_add)
  obtain l0 t1 where m: "bn_mul_words tmp sdiv n q = (l0, t1)" by fastforce
  have len: "n \<le> length tmp" using assms(4) by simp
  note mv = bn_mul_words_value [OF m win(2) len]
  have lt1: "length t1 = length tmp" by (rule wrote_length [OF mv(1)])
  define t2 where "t2 = t1[n := l0]"
  have t2: "bn_val (take (Suc n) t2) = D * uint q" "length t2 = length tmp"
    using mv(2) bn_val_set_top [of n t1 l0] assms(4) lt1 by (simp_all add: t2_def assms(3) mult.commute)
  define ws where "ws = drop k d"
  obtain c seg where s: "bn_sub_words ws ws t2 (Suc n) = (c, seg)" by fastforce
  have lw: "Suc n \<le> length ws" "Suc n \<le> length t2" using win(3) t2(2) assms(4) by (simp_all add: ws_def)
  note sv = bn_sub_words_value [OF s lw(1) lw(2) lw(1)]
  have seg: "length seg = length ws" "drop (Suc n) seg = drop (Suc n) ws" using sv(1) by (simp_all add: wrote_def)
  have diff: "bn_val (take (Suc n) seg) - uint c * b = W - D * uint q" using sv(2) t2(1) by (simp add: assms(2) ws_def b_def)
  have less: "bn_val (take (Suc n) seg) < b" using bn_val_take_less [of "Suc n" seg] seg(1) lw(1) by (simp add: b_def)
  define r where "r = W mod D"
  have r: "0 \<le> r" "r < D" "W = W div D * D + r" using Dpos by (simp_all add: r_def)
  have dk: "drop (Suc n) ws = drop (Suc (k + n)) d" by (simp add: ws_def add.commute)
  have fin: ?thesis if "d' = take k d @ seg2" "length seg2 = length ws" "drop (Suc n) seg2 = drop (Suc n) ws" "tmp' = t2"
    "uint q' = W div D" "bn_val (take (Suc n) seg2) = r" for seg2
    using that win(3) t2(2) dk by (simp add: r_def ws_def)
  have step: "div_step sdiv n q tmp d (k + n) k = (if c \<noteq> 0 then
      (case bn_add_words seg seg sdiv n of (carry, seg') \<Rightarrow>
        (q - 1, t2, let d = take k d @ seg' in if carry \<noteq> 0 then d[k + n := d ! (k + n) + 1] else d))
      else (q, t2, take k d @ seg))"
    using m s win(3) by (simp add: div_step_def t2_def ws_def Let_def split: prod.splits)
  have "uint q = W div D \<or> uint q = W div D + 1" using assms(5,6) by linarith
  then show ?thesis
  proof
    assume q: "uint q = W div D"
    have v: "bn_val (take (Suc n) seg) - uint c * b = r" using diff unfolding q r_def by (simp only: minus_mult_div_eq_mod)
    then have "uint c * b < 1 * b" using less r(1) by linarith
    then have "uint c < 1" by (rule mult_right_less_imp_less) (simp add: b_def)
    then have c0: "c = 0" using uint_ge_0 [of c] uint_0_iff [of c] by linarith
    then have "q' = q" "tmp' = t2" "d' = take k d @ seg" using assms(7) step by simp_all
    then show ?thesis using c0 v q seg by (intro fin [of seg]) simp_all
  next
    assume q: "uint q = W div D + 1"
    have d1: "bn_val (take (Suc n) seg) - uint c * b = r - D"
      using diff minus_mult_div_eq_mod [of W D] unfolding q r_def distrib_left by linarith
    then have "uint c * b > 0 * b" using r(2) bn_val_nonneg [of "take (Suc n) seg"] by linarith
    then have c1: "0 < uint c" by (rule mult_right_less_imp_less) (simp add: b_def)
    have "D \<le> D * 2 ^ 64" using Dpos by simp
    then have "uint c * b < 2 * b" using d1 less Db r(1) by linarith
    then have "uint c < 2" by (rule mult_right_less_imp_less) (simp add: b_def)
    then have "uint c = 1" using c1 by linarith
    then have v: "bn_val (take (Suc n) seg) = r - bn_val (take n sdiv) + 2 ^ (64 * Suc n)" using d1 by (simp add: b_def assms(3))
    have "c \<noteq> 0" using c1 by auto
    obtain e seg' where a: "bn_add_words seg seg sdiv n = (e, seg')" by fastforce
    define seg2 where "seg2 = (if e \<noteq> 0 then seg'[n := seg' ! n + 1] else seg')"
    have ns: "n < length seg" using seg(1) lw(1) by simp
    have rD: "r < bn_val (take n sdiv)" using r(2) assms(3) by simp
    note ab = add_back_value [OF a ns win(2) seg2_def v r(1) rD]
    have "(let d = take k d @ seg' in if e \<noteq> 0 then d[k + n := d ! (k + n) + 1] else d) = take k d @ seg2"
      using win(3) by (simp add: seg2_def Let_def nth_append list_update_append)
    then have res: "q' = q - 1" "tmp' = t2" "d' = take k d @ seg2" using assms(7) step \<open>c \<noteq> 0\<close> a by simp_all
    have "0 \<le> W div D" using Dpos bn_val_nonneg [of "take (Suc n) (drop k d)"] by (simp add: assms(2) pos_imp_zdiv_nonneg_iff)
    then have "uint (q - 1) = W div D" using q uint_sub_lem [of 1 q] by simp
    then show ?thesis using res ab seg by (intro fin [of seg2]) simp_all
  qed
qed


section \<open>All digits\<close>

lemma bn_val_window:
  "k + n < length d \<Longrightarrow> bn_val (take (Suc n) (drop k d)) = uint (d ! k) + 2 ^ 64 * bn_val (take n (drop (Suc k) d))"
  by (simp add: Cons_nth_drop_Suc [symmetric])

lemma drop_eq_nth: "drop m xs = drop m ys \<Longrightarrow> m < length xs \<Longrightarrow> m < length ys \<Longrightarrow> xs ! m = ys ! m"
  by (metis hd_drop_conv_nth)

lemma drop_eq_mono: "drop m xs = drop m ys \<Longrightarrow> m \<le> n \<Longrightarrow> drop n xs = drop n ys"
  by (metis drop_drop le_add_diff_inverse2)

text \<open>The words below \<open>m\<close> and the window above them.\<close>

lemma bn_val_low_window:
  "Suc m + n \<le> length d \<Longrightarrow> bn_val (take (m + n) (drop 1 d)) = bn_val (drop 1 (take (Suc m) d)) + 2 ^ (64 * m) * bn_val (take n (drop (Suc m) d))"
  using bn_val_take_split [of m "m + n" "drop 1 d"] by (simp add: drop_take)

lemma top_word_zero:
  assumes "n < length ws" "bn_val (take (Suc n) ws) < 2 ^ (64 * n)"
  shows "ws ! n = 0" "bn_val (take n ws) = bn_val (take (Suc n) ws)"
proof -
  have eq: "bn_val (take (Suc n) ws) = bn_val (take n ws) + 2 ^ (64 * n) * uint (ws ! n)" by (rule bn_val_take_Suc [OF assms(1)])
  then have "2 ^ (64 * n) * uint (ws ! n) < 2 ^ (64 * n) * 1" using assms(2) bn_val_nonneg [of "take n ws"] by linarith
  then have "uint (ws ! n) < 1" by (rule mult_left_less_imp_less) simp
  then show "ws ! n = 0" using uint_ge_0 [of "ws ! n"] uint_0_iff [of "ws ! n"] by linarith
  then show "bn_val (take n ws) = bn_val (take (Suc n) ws)" using eq by simp
qed

text \<open>One more digit on top of the others.\<close>

lemma quotient_digits:
  fixes X X1 W D b low :: int
  assumes "X = low + b * W" "X1 = low + b * (W mod D)" "0 < D"
  shows "X div D = X1 div D + b * (W div D)" "X mod D = X1 mod D"
proof -
  have "X = X1 + b * (W div D) * D" unfolding assms(1,2) using div_mult_mod_eq [of W D] by (metis distrib_left mult.assoc add.assoc add.commute)
  then show "X div D = X1 div D + b * (W div D)" "X mod D = X1 mod D" using assms(3) by simp_all
qed

lemma div_loop_exact:
  assumes "0 < n" "n \<le> length sdiv" "2 ^ 63 \<le> uint (sdiv ! (n - 1))" "D = bn_val (take n sdiv)"
    and "n < length tmp" "Suc m + n \<le> length d" "m \<le> length res" "bn_val (take n (drop (Suc m) d)) < D"
    and "X = bn_val (take (m + n) (drop 1 d))"
  shows "\<exists>d' res'. div_loop sdiv n (div_d1 sdiv n) (sdiv ! (n - 1)) m tmp d (m + n) (Suc m) res (m - 1) = Some (d', res') \<and>
    length d' = length d \<and> take 1 d' = take 1 d \<and> drop (Suc m + n) d' = drop (Suc m + n) d \<and>
    length res' = length res \<and> drop m res' = drop m res \<and>
    bn_val (take m res') = X div D \<and> bn_val (take (m + n) (drop 1 d')) = X mod D"
  using assms(5-)
proof (induction m arbitrary: tmp d res X)
  case 0
  then have "X < D" "0 \<le> X" by simp_all
  then show ?case using 0 by simp
next
  case (Suc m)
  define k where "k = Suc m"
  define R where "R = bn_val (take n (drop (Suc k) d))"
  define W where "W = bn_val (take (Suc n) (drop k d))"
  have len: "k + n < length d" "k \<le> length res" using Suc.prems by (simp_all add: k_def)
  have W: "W = uint (d ! k) + 2 ^ 64 * R" using bn_val_window [OF len(1)] by (simp add: W_def R_def)
  have "R + 1 \<le> D" using Suc.prems(4) by (simp add: R_def k_def)
  then have "2 ^ 64 * (R + 1) \<le> 2 ^ 64 * D" by (rule mult_left_mono) simp
  then have WD: "W < D * 2 ^ 64" using W uint_u64_lt [of "d ! k"] by (simp add: algebra_simps)
  have win: "div_window sdiv n d k" using assms len WD by (simp add: div_window_def k_def W_def)
  have Dpos: "0 < D" using WD bn_val_nonneg [of "take (Suc n) (drop k d)"] by (simp add: W_def [symmetric])
  obtain q where q: "bn_div_3_words d (k + n) (div_d1 sdiv n) (sdiv ! (n - 1)) = Some q" "W div D \<le> uint q" "uint q \<le> W div D + 1"
    using div_3_words_estimate [OF win W_def assms(4)] by blast
  obtain q' tmp' d1 where st: "div_step sdiv n q tmp d (k + n) k = (q', tmp', d1)" by (metis prod_cases3)
  from div_step_exact [OF win W_def assms(4) Suc.prems(1) q(2,3) st]
  have s: "length tmp' = length tmp" "length d1 = length d" "take k d1 = take k d" "drop (Suc (k + n)) d1 = drop (Suc (k + n)) d"
    "uint q' = W div D" "bn_val (take (Suc n) (drop k d1)) = W mod D" by simp_all
  define r where "r = W mod D"
  have r: "0 \<le> r" "r < D" using Dpos by (simp_all add: r_def)
  have Db: "D < 2 ^ (64 * n)" using bn_val_take_less [OF assms(2)] assms(4) by simp
  have lw: "n < length (drop k d1)" using len s(2) by simp
  have "bn_val (take (Suc n) (drop k d1)) < 2 ^ (64 * n)" using s(6) r Db by (simp add: r_def)
  note tz = top_word_zero [OF lw this]
  have z: "d1 ! (k + n) = 0" using tz(1) len s(2) by simp
  have win1: "bn_val (take n (drop (Suc m) d1)) = r" using tz(2) s(6) by (simp add: k_def r_def)
  define X1 where "X1 = bn_val (take (m + n) (drop 1 d1))"
  have IHp: "n < length tmp'" "Suc m + n \<le> length d1" "m \<le> length (res[m := q'])" "bn_val (take n (drop (Suc m) d1)) < D"
    using Suc.prems s win1 r by simp_all
  from Suc.IH [OF this X1_def] obtain d' res' where
    IH: "div_loop sdiv n (div_d1 sdiv n) (sdiv ! (n - 1)) m tmp' d1 (m + n) (Suc m) (res[m := q']) (m - 1) = Some (d', res')"
    "length d' = length d1" "take 1 d' = take 1 d1" "drop (Suc m + n) d' = drop (Suc m + n) d1"
    "length res' = length res" "drop m res' = drop m (res[m := q'])"
    "bn_val (take m res') = X1 div D" "bn_val (take (m + n) (drop 1 d')) = X1 mod D" by auto
  have loop: "div_loop sdiv n (div_d1 sdiv n) (sdiv ! (n - 1)) (Suc m) tmp d (Suc m + n) (Suc (Suc m)) res (Suc m - 1) = Some (d', res')"
    using q(1) st IH(1) by (simp add: k_def)
  define low where "low = bn_val (drop 1 (take k d))"
  have "bn_val (take (m + n) (drop 1 d1)) = low + 2 ^ (64 * m) * r"
    using bn_val_low_window [of m n d1] IHp(2) s(3) win1 by (simp add: low_def k_def)
  then have X1: "X1 = low + 2 ^ (64 * m) * (W mod D)" by (simp add: X1_def r_def)
  have X: "X = low + 2 ^ (64 * m) * W"
    using bn_val_low_window [of m "Suc n" d] Suc.prems(2,5) by (simp add: low_def k_def W_def)
  note qd = quotient_digits [OF X X1 Dpos]
  have "res' ! m = q'" using drop_eq_nth [OF IH(6)] IH(5) Suc.prems(3) by simp
  then have quo: "bn_val (take (Suc m) res') = X div D"
    using bn_val_take_Suc [of m res'] IH(5,7) Suc.prems(3) s(5) qd(1) by simp
  have "d' ! (Suc m + n) = 0" using drop_eq_nth [OF IH(4)] z IH(2) s(2) len by (simp add: k_def)
  then have rem: "bn_val (take (Suc m + n) (drop 1 d')) = X mod D"
    using bn_val_take_Suc [of "m + n" "drop 1 d'"] IH(2,8) s(2) len qd(2) by (simp add: k_def)
  have "take 1 d1 = take 1 (take k d1)" by (simp add: k_def)
  then have t1: "take 1 d1 = take 1 d" unfolding s(3) by (simp add: k_def)
  have "drop (Suc (Suc m) + n) d' = drop (Suc (k + n)) d1" using drop_eq_mono [OF IH(4), of "Suc (Suc m) + n"] by (simp add: k_def)
  then have dd: "drop (Suc (Suc m) + n) d' = drop (Suc (Suc m) + n) d" using s(4) by (simp add: k_def)
  have dres: "drop (Suc m) res' = drop (Suc m) res" using drop_eq_mono [OF IH(6), of "Suc m"] by simp
  show ?case using loop IH(2,3,5) s(2) t1 dd dres quo rem by (intro exI conjI) auto
qed


section \<open>The division of normalised numbers\<close>

text \<open>The first digit of the quotient is 0 or 1.\<close>

lemma first_subtraction:
  assumes "n \<le> length sdiv" "l + n \<le> length d" "D = bn_val (take n sdiv)" "R = bn_val (take n (drop l d))" "D \<le> R" "R < 2 * D"
    and "d1 = take l d @ snd (bn_sub_words (drop l d) (drop l d) sdiv n)"
  shows "length d1 = length d" "take l d1 = take l d" "bn_val (take n (drop l d1)) = R - D"
proof -
  obtain c seg where s: "bn_sub_words (drop l d) (drop l d) sdiv n = (c, seg)" by fastforce
  have ln: "n \<le> length (drop l d)" using assms(2) by simp
  note sv = bn_sub_words_value [OF s ln assms(1) ln]
  have l: "length seg = length d - l" using wrote_length [OF sv(1)] by simp
  have d1: "d1 = take l d @ seg" by (simp add: assms(7) s)
  show "length d1 = length d" "take l d1 = take l d" using l assms(2) by (simp_all add: d1)
  have lt: "bn_val (take n seg) < 2 ^ (64 * n)" using bn_val_take_less [of n seg] l assms(2) by simp
  have "bn_val (take n seg) - uint c * 2 ^ (64 * n) = R - D" using sv(2) assms(3,4) by simp
  then have "bn_val (take n seg) + (- uint c) * 2 ^ (64 * n) = R - D" by simp
  then have "bn_val (take n seg) = R - D"
    by (rule eq_of_wrap) (use lt assms(5,6) bn_val_take_less [OF assms(1)] in \<open>simp_all add: assms(3)\<close>)
  then show "bn_val (take n (drop l d1)) = R - D" using assms(2) by (simp add: d1)
qed

text \<open>Twice a normalised divisor exceeds every number of its length.\<close>

lemma normalised_double:
  assumes "0 < n" "n \<le> length sdiv" "2 ^ 63 \<le> uint (sdiv ! (n - 1))"
  shows "2 ^ (64 * n) \<le> 2 * bn_val (take n sdiv)"
proof -
  obtain m where m: "n = Suc m" using assms(1) by (cases n) auto
  have "2 ^ 63 * 2 ^ (64 * m) \<le> uint (sdiv ! m) * 2 ^ (64 * m)" using assms(3) m by (intro mult_right_mono) auto
  also have "\<dots> \<le> bn_val (take n sdiv)" using top_word_bounds(1) [of m sdiv] assms(2) m by simp
  finally have "2 * (2 ^ 63 * 2 ^ (64 * m)) \<le> 2 * bn_val (take n sdiv)" by simp
  then show ?thesis by (simp add: m power_add)
qed

text \<open>
  Before the loop: \<open>e\<close> is the first digit, which stands in \<open>res\<close> if it is not 0, and
  the top words of \<open>snum\<close> are below the divisor.
\<close>

lemma div_start_facts:
  assumes "bn_ok sdiv" "0 < bn_top sdiv" "2 ^ 63 \<le> uint (bn_d sdiv ! (bn_top sdiv - 1))"
    and "Suc m + bn_top sdiv \<le> length (bn_d snum)" "m < length (bn_d res)" "bn_top res = Suc m - of_bool no_branch"
    and "no_branch \<Longrightarrow> bn_val (take (bn_top sdiv) (drop (Suc m) (bn_d snum))) < bn_mag sdiv"
    and "div_start snum sdiv (Suc m) res no_branch = (d, res')"
  obtains e :: int where "length d = length (bn_d snum)" "take (Suc m) d = take (Suc m) (bn_d snum)"
    "bn_val (take (bn_top sdiv) (drop (Suc m) d)) = bn_val (take (bn_top sdiv) (drop (Suc m) (bn_d snum))) - e * bn_mag sdiv"
    "bn_val (take (bn_top sdiv) (drop (Suc m) d)) < bn_mag sdiv"
    "length (bn_d res') = length (bn_d res)" "bn_neg res' = bn_neg res" "bn_flags res' = bn_flags res"
    "(e = 0 \<and> bn_top res' = m) \<or> (e = 1 \<and> bn_top res' = Suc m \<and> bn_d res' ! m = 1 \<and> \<not> no_branch)"
proof -
  define n where "n = bn_top sdiv"
  define R where "R = bn_val (take n (drop (Suc m) (bn_d snum)))"
  have ns: "n \<le> length (bn_d sdiv)" using bn_fits_top [OF bn_ok_fits [OF assms(1)]] by (simp add: n_def)
  have D: "bn_mag sdiv = bn_val (take n (bn_d sdiv))" by (simp add: bn_mag_def n_def)
  have "R < 2 ^ (64 * n)" using bn_val_take_less [of n "drop (Suc m) (bn_d snum)"] assms(4) by (simp add: R_def n_def)
  then have R2: "R < 2 * bn_mag sdiv" using normalised_double [OF _ ns] assms(2,3) by (simp add: D n_def)
  define cmp where "cmp = ucmp_loop (drop (Suc m) (bn_d snum)) (bn_d sdiv) n"
  have cmp: "cmp = sgn (R - bn_mag sdiv)" unfolding cmp_def R_def D using ns assms(4) by (intro ucmp_loop_sgn) (simp_all add: n_def)
  then have ge: "cmp \<ge> 0 \<longleftrightarrow> bn_mag sdiv \<le> R" by (simp add: sgn_if)
  have st: "(d, res') = (if \<not> no_branch then
      (if cmp \<ge> 0 then (take (Suc m) (bn_d snum) @ snd (bn_sub_words (drop (Suc m) (bn_d snum)) (drop (Suc m) (bn_d snum)) (bn_d sdiv) n),
          res\<lparr>bn_d := (bn_d res)[m := 1]\<rparr>)
       else (bn_d snum, res\<lparr>bn_top := bn_top res - 1\<rparr>)) else (bn_d snum, res))"
    unfolding assms(8) [symmetric] div_start_def BN_ucmp_def Let_def by (simp add: n_def cmp_def)
  show ?thesis
  proof (cases "\<not> no_branch \<and> cmp \<ge> 0")
    case True
    then have eq: "d = take (Suc m) (bn_d snum) @ snd (bn_sub_words (drop (Suc m) (bn_d snum)) (drop (Suc m) (bn_d snum)) (bn_d sdiv) n)"
      "res' = res\<lparr>bn_d := (bn_d res)[m := 1]\<rparr>" using st by simp_all
    have "Suc m + n \<le> length (bn_d snum)" using assms(4) by (simp add: n_def)
    from first_subtraction [OF ns this D R_def _ R2 eq(1)] True ge
    have "length d = length (bn_d snum)" "take (Suc m) d = take (Suc m) (bn_d snum)" "bn_val (take n (drop (Suc m) d)) = R - bn_mag sdiv" by simp_all
    then show ?thesis using that [of 1] assms(5,6) True R2 eq(2) by (simp add: n_def R_def)
  next
    case False
    then have "d = bn_d snum" "bn_top res' = m" "bn_d res' = bn_d res" "bn_neg res' = bn_neg res" "bn_flags res' = bn_flags res"
      using st assms(6) by (auto split: if_splits)
    moreover have "R < bn_mag sdiv" using False ge assms(7) by (auto simp: R_def n_def)
    ultimately show ?thesis using that [of 0] by (simp add: n_def R_def)
  qed
qed


lemma div_normalised_exact:
  assumes snum: "bn_fits snum" "bn_neg snum = 0" "bn_d snum ! 0 = 0" "\<not> no_branch \<Longrightarrow> bn_ok snum"
    and sdiv: "bn_ok sdiv" "0 < bn_top sdiv" "2 ^ 63 \<le> uint (bn_d sdiv ! (bn_top sdiv - 1))"
    and top: "bn_top snum = Suc m + bn_top sdiv"
    and ct: "no_branch \<Longrightarrow> bn_val (take (bn_top sdiv) (drop (Suc m) (bn_d snum))) < bn_mag sdiv"
    and res: "bn_fits res" "bn_fits tmp" and neg: "bn_neg num \<in> {0, 1}" "bn_neg dvs \<in> {0, 1}"
    and X: "X = bn_val (take (m + bn_top sdiv) (drop 1 (bn_d snum)))"
  obtains ret res' rem' where "div_normalised alloc tmp snum sdiv res rem num dvs sh no_branch = Some (ret, res', rem')"
    "ret \<longrightarrow> bn_ok res' \<and> bn_int res' = (if bn_neg num \<noteq> bn_neg dvs then - (X div bn_mag sdiv) else X div bn_mag sdiv) \<and>
      (\<exists>s. bn_ok s \<and> bn_int s = 2 ^ 64 * (X mod bn_mag sdiv) \<and>
        rem' = map_option (\<lambda>r. BN_set_negative (snd (BN_rshift alloc r s sh)) (bn_neg num)) rem)"
    "\<not> ret \<longrightarrow> rem' = rem" "ret \<longleftrightarrow> can_expand alloc res (Suc m + 1) \<and> can_expand alloc tmp (bn_top sdiv + 1)"
proof -
  define n D where "n = bn_top sdiv" and "D = bn_mag sdiv"
  have loop: "bn_top snum - n = Suc m" using top by (simp add: n_def)
  have ls: "Suc m + n \<le> length (bn_d snum)" using bn_fits_top [OF snum(1)] top by (simp add: n_def)
  have ns: "n \<le> length (bn_d sdiv)" using bn_fits_top [OF bn_ok_fits [OF sdiv(1)]] by (simp add: n_def)
  note ND = n_def [symmetric]
  show ?thesis
  proof (cases "can_expand alloc res (Suc m + 1) \<and> can_expand alloc tmp (n + 1)")
    case False
    then have "\<exists>r'. div_normalised alloc tmp snum sdiv res rem num dvs sh no_branch = Some (False, r', rem)"
      unfolding div_normalised_def Let_def ND loop bn_wexpand_eq by (auto split: if_splits)
    then show ?thesis using that False by (auto simp: n_def)
  next
    case True
    obtain res1 where r1: "bn_wexpand alloc res (int (Suc m + 1)) = (True, res1)" using True unfolding bn_wexpand_eq by auto
    obtain tmp1 where t1: "bn_wexpand alloc tmp (int (n + 1)) = (True, tmp1)" using True unfolding bn_wexpand_eq by auto
    note R1 = bn_wexpand_ok [OF r1 res(1)] and T1 = bn_wexpand_ok [OF t1 res(2)]
    define res2 where "res2 = res1\<lparr>bn_top := Suc m - of_bool no_branch\<rparr>"
    obtain d res3 where st: "div_start snum sdiv (Suc m) res2 no_branch = (d, res3)" by fastforce
    have "m < length (bn_d res2)" using R1(2) by (simp add: res2_def bn_dmax_def)
    from div_start_facts [OF sdiv ls [unfolded n_def] this _ ct st]
    obtain e :: int where e: "length d = length (bn_d snum)" "take (Suc m) d = take (Suc m) (bn_d snum)"
      "bn_val (take n (drop (Suc m) d)) = bn_val (take n (drop (Suc m) (bn_d snum))) - e * D"
      "bn_val (take n (drop (Suc m) d)) < D" "length (bn_d res3) = length (bn_d res2)"
      "(e = 0 \<and> bn_top res3 = m) \<or> (e = 1 \<and> bn_top res3 = Suc m \<and> bn_d res3 ! m = 1 \<and> \<not> no_branch)"
      by (auto simp: res2_def n_def D_def)
    define res4 where "res4 = (if bn_top res3 = 0 then res3\<lparr>bn_neg := 0\<rparr> else res3)"
    have r4: "bn_d res4 = bn_d res3" "bn_top res4 = bn_top res3" by (simp_all add: res4_def)
    have rp: "(if bn_top res3 = 0 then (res3\<lparr>bn_neg := 0\<rparr>, Suc m - 1) else (res3, Suc m - 1 - 1)) = (res4, m - 1)"
      using e(6) by (auto simp: res4_def)
    define Y where "Y = bn_val (take (m + n) (drop 1 d))"
    have lr: "Suc m \<le> length (bn_d res4)" using R1(2) e(5) by (simp add: r4 res2_def bn_dmax_def)
    have "n < length (bn_d tmp1)" "Suc m + n \<le> length d" "m \<le> length (bn_d res4)"
      using T1(2) ls e(1) lr by (simp_all add: bn_dmax_def)
    from div_loop_exact [OF _ ns sdiv(3) [folded n_def] D_def [unfolded bn_mag_def ND] this e(4) Y_def] sdiv(2)
    obtain d' q where lp: "div_loop (bn_d sdiv) n (div_d1 (bn_d sdiv) n) (bn_d sdiv ! (n - 1)) m (bn_d tmp1) d (m + n) (Suc m) (bn_d res4) (m - 1) = Some (d', q)"
      "length d' = length d" "take 1 d' = take 1 d" "length q = length (bn_d res4)" "drop m q = drop m (bn_d res4)"
      "bn_val (take m q) = Y div D" "bn_val (take (m + n) (drop 1 d')) = Y mod D" by (auto simp: n_def)
    have Dpos: "0 < D" using e(4) bn_val_nonneg [of "take n (drop (Suc m) d)"] by linarith
    have XY: "X = Y + e * 2 ^ (64 * m) * D"
      using bn_val_low_window [OF ls] bn_val_low_window [of m n d] ls e(1-3) X unfolding Y_def n_def [symmetric] by (simp add: algebra_simps)
    then have quo: "X div D = Y div D + e * 2 ^ (64 * m)" "X mod D = Y mod D" using Dpos by simp_all
    define res5 where "res5 = res4\<lparr>bn_d := q\<rparr>"
    have f5: "bn_fits res5"
      using R1(1) e(5,6) lp(4) lr by (auto simp: res5_def r4 res2_def bn_fits_def bn_dmax_def)
    have m5: "bn_mag res5 = X div D"
    proof -
      have "q ! m = 1" if "e = 1" using drop_eq_nth [OF lp(5)] lp(4) lr e(6) that r4 by simp
      then show ?thesis using e(6) lp(4,6) quo(1) lr bn_val_take_Suc [of m q] by (auto simp: res5_def r4 bn_mag_def)
    qed
    define neg where "neg = bn_neg num XOR bn_neg dvs"
    have ng: "neg \<in> {0, 1}" "neg \<noteq> 0 \<longleftrightarrow> bn_neg num \<noteq> bn_neg dvs" using neg by (auto simp: neg_def)
    define res6 where "res6 = (if no_branch then bn_correct_top res5 else res5)"
    have magS: "bn_mag snum = 2 ^ 64 * X"
      using bn_val_window [of 0 "m + n" "bn_d snum"] ls snum(3) X top by (simp add: bn_mag_def n_def)
    have nz: "bn_d res5 ! (bn_top res5 - 1) \<noteq> 0" if "bn_top res5 > 0" "\<not> no_branch"
    proof (cases "e = 0")
      case True
      then have tp: "bn_top res5 = m" using e(6) by (simp add: res5_def r4)
      then have "0 < m" using that(1) by linarith
      then obtain l where l: "m = Suc l" by (cases m) auto
      have "64 * (m + n) = 64 * (l + n) + 64" by (simp add: l)
      then have "2 ^ (64 * (l + n)) * 2 ^ 64 = (2 :: int) ^ (64 * (m + n))" by (simp only: power_add)
      also have "\<dots> \<le> X * 2 ^ 64" using bn_ok_mag_ge [OF snum(4) [OF that(2)]] top magS by (simp add: n_def)
      finally have le: "2 ^ (64 * (l + n)) \<le> X" by simp
      have "2 ^ (64 * l) * D \<le> 2 ^ (64 * l) * 2 ^ (64 * n)"
        using bn_mag_less [OF bn_ok_fits [OF sdiv(1)]] by (intro mult_left_mono) (simp_all add: D_def n_def)
      also have "\<dots> = 2 ^ (64 * (l + n))" by (simp add: power_add distrib_left)
      also note le
      finally have "2 ^ (64 * l) * D \<le> X" .
      then have "2 ^ (64 * l) \<le> X div D" using Dpos by (simp only: int_le_div_iff)
      then show ?thesis using tp l m5 bn_fits_top [OF f5] by (intro top_word_nonzero) (simp_all add: bn_mag_def)
    next
      case False
      then have "bn_top res5 = Suc m" "q ! m = 1" using e(6) drop_eq_nth [OF lp(5)] lp(4) lr r4 by (auto simp: res5_def)
      then show ?thesis by (simp add: res5_def)
    qed
    have fin: "bn_ok (BN_set_negative res6 neg) \<and> bn_int (BN_set_negative res6 neg) = (if neg \<noteq> 0 then - (X div D) else X div D)"
      using bn_normal_ok [OF f5 ng(1)] set_negative_normal [OF f5 nz ng(1)] m5 by (auto simp: res6_def)
    define s where "s = bn_correct_top (snum\<lparr>bn_d := d'\<rparr>)"
    have fs: "bn_fits (snum\<lparr>bn_d := d'\<rparr>)" using snum(1) lp(2) e(1) by (simp add: bn_fits_def bn_dmax_def)
    have "take 1 d' = take 1 (take (Suc m) d)" using lp(3) by simp
    then have "take 1 d' = take 1 (bn_d snum)" unfolding e(2) by simp
    then have "d' ! 0 = 0" using snum(3) nth_take [of 0 1 d'] nth_take [of 0 1 "bn_d snum"] by simp
    then have "bn_mag (snum\<lparr>bn_d := d'\<rparr>) = 2 ^ 64 * (X mod D)"
      using bn_val_window [of 0 "m + n" d'] ls e(1) lp(2,7) quo(2) top by (simp add: bn_mag_def n_def)
    then have s: "bn_ok s \<and> bn_int s = 2 ^ 64 * (X mod D)"
      using bn_correct_top_ok [OF fs] snum(2) by (simp add: s_def bn_ok_def bn_int_def)
    have wp: "bn_top snum - 1 = m + n" using top by (simp add: n_def)
    have "div_normalised alloc tmp snum sdiv res rem num dvs sh no_branch =
      Some (True, BN_set_negative res6 neg, map_option (\<lambda>r. BN_set_negative (snd (BN_rshift alloc r s sh)) (bn_neg num)) rem)"
      unfolding div_normalised_def Let_def ND loop r1 t1 div_d1_def [symmetric] wp bool.case prod.case
        res2_def [symmetric] st rp neg_def [symmetric]
      unfolding diff_Suc_1 lp(1) option.case prod.case res5_def [symmetric] res6_def [symmetric] s_def [symmetric]
      by (simp add: map_option_case)
    then show ?thesis
    proof (rule that)
      show "True \<longrightarrow> bn_ok (BN_set_negative res6 neg) \<and> bn_int (BN_set_negative res6 neg) =
          (if bn_neg num \<noteq> bn_neg dvs then - (X div bn_mag sdiv) else X div bn_mag sdiv) \<and>
        (\<exists>s'. bn_ok s' \<and> bn_int s' = 2 ^ 64 * (X mod bn_mag sdiv) \<and>
          map_option (\<lambda>r. BN_set_negative (snd (BN_rshift alloc r s sh)) (bn_neg num)) rem =
          map_option (\<lambda>r. BN_set_negative (snd (BN_rshift alloc r s' sh)) (bn_neg num)) rem)"
        using fin s ng(2) unfolding D_def by metis
    qed (use True in \<open>simp_all add: n_def\<close>)
  qed
qed

section \<open>Normalisation\<close>

text \<open>Room for any number of up to \<open>n\<close> words.\<close>

definition bn_room :: "(nat \<Rightarrow> bool) \<Rightarrow> nat \<Rightarrow> bignum \<Rightarrow> bool" where
  "bn_room alloc n b \<longleftrightarrow> (\<forall>k \<le> n. can_expand alloc b k)"

lemma bn_room_mono: "bn_room alloc n b \<Longrightarrow> k \<le> n \<Longrightarrow> bn_room alloc k b"
  by (simp add: bn_room_def)

lemma bn_roomD: "bn_room alloc n b \<Longrightarrow> k \<le> n \<Longrightarrow> can_expand alloc b k"
  by (simp add: bn_room_def)

lemma bn_ok_top_le: "bn_ok a \<Longrightarrow> bn_mag a < 2 ^ (64 * k) \<Longrightarrow> bn_top a \<le> k"
proof (rule ccontr)
  assume a: "bn_ok a" "bn_mag a < 2 ^ (64 * k)" "\<not> bn_top a \<le> k"
  then have "(2 :: int) ^ (64 * k) \<le> 2 ^ (64 * (bn_top a - 1))" by (intro power_increasing) auto
  moreover have "2 ^ (64 * (bn_top a - 1)) \<le> bn_mag a" using bn_ok_mag_ge [OF a(1)] a(3) by simp
  ultimately show False using a(2) by linarith
qed

lemma bn_ok_top_gt: "bn_ok a \<Longrightarrow> 2 ^ (64 * k) \<le> bn_mag a \<Longrightarrow> k < bn_top a"
proof (rule ccontr)
  assume a: "bn_ok a" "2 ^ (64 * k) \<le> bn_mag a" "\<not> k < bn_top a"
  then have "(2 :: int) ^ (64 * bn_top a) \<le> 2 ^ (64 * k)" by (intro power_increasing) auto
  then show False using a(2) bn_mag_less [OF bn_ok_fits [OF a(1)]] by linarith
qed

text \<open>A shifted number with its sign cleared.\<close>

lemma shifted_facts:
  assumes "bn_fits t" "bn_ok a" "0 \<le> sh" "BN_lshift alloc t a sh = (ret, s)" "s0 = s\<lparr>bn_neg := 0\<rparr>"
  shows "ret \<Longrightarrow> bn_ok s0" "ret \<Longrightarrow> bn_neg s0 = 0" "ret \<Longrightarrow> bn_mag s0 = bn_mag a * 2 ^ nat sh"
    "ret \<Longrightarrow> bn_top s0 \<le> bn_top a + nat sh div 64 + 1" "bn_room alloc (bn_top a + nat sh div 64 + 1) t \<Longrightarrow> ret"
proof -
  have op: "bn_op_ok alloc t (bn_top a + nat sh div 64 + 1) (ret, s) (bn_int a * 2 ^ nat sh)"
    using bn_lshift_ok [OF assms(1-3), of alloc] assms(4) by (simp add: BN_lshift_def)
  then show "bn_room alloc (bn_top a + nat sh div 64 + 1) t \<Longrightarrow> ret" by (simp add: bn_op_ok_def bn_room_def)
  show ok: "bn_ok s0" if ret using op that by (auto simp: bn_op_ok_def bn_ok_def bn_fits_def bn_dmax_def assms(5))
  show "bn_neg s0 = 0" by (simp add: assms(5))
  have "bn_mag s0 = bn_mag s" by (simp add: assms(5) bn_mag_def)
  then show mag: "bn_mag s0 = bn_mag a * 2 ^ nat sh" if ret using op that by (simp add: bn_op_ok_def bn_mag_abs abs_mult)
  show "bn_top s0 \<le> bn_top a + nat sh div 64 + 1" if ret
  proof (rule bn_ok_top_le [OF ok [OF that]])
    have "bn_mag a * 2 ^ nat sh < 2 ^ (64 * bn_top a) * 2 ^ nat sh"
      using bn_mag_less [OF bn_ok_fits [OF assms(2)]] by simp
    also have "\<dots> = 2 ^ (64 * bn_top a + nat sh)" by (simp add: power_add)
    also have "\<dots> \<le> 2 ^ (64 * (bn_top a + nat sh div 64 + 1))" by (intro power_increasing) simp_all
    finally show "bn_mag s0 < 2 ^ (64 * (bn_top a + nat sh div 64 + 1))" using mag [OF that] by simp
  qed
qed

text \<open>The shift that moves the highest bit of the divisor to the top of its word.\<close>

lemma normalised_top_word:
  assumes "bn_ok a" "bn_int a \<noteq> 0" "sh = 64 - BN_num_bits a mod 64" "bn_ok s" "bn_mag s = bn_mag a * 2 ^ nat sh"
  shows "0 < bn_top s" "2 ^ 63 \<le> uint (bn_d s ! (bn_top s - 1))"
proof -
  define k where "k = nat (BN_num_bits a div 64)"
  note nb = BN_num_bits_bounds [OF assms(1,2)]
  have k: "int k = BN_num_bits a div 64" using nb(1) by (simp add: k_def pos_imp_zdiv_nonneg_iff)
  define j where "j = BN_num_bits a mod 64"
  have "0 \<le> j" "j < 64" "BN_num_bits a = int k * 64 + j" unfolding k j_def by simp_all
  then have sh: "0 < sh" "sh \<le> 64" "BN_num_bits a + sh = 64 * (int k + 1)" unfolding assms(3) j_def [symmetric] by simp_all
  have e1: "nat (BN_num_bits a - 1) + nat sh = 63 + 64 * k" "nat (BN_num_bits a) + nat sh = 64 * Suc k"
    using sh nb(1) by (simp_all add: nat_eq_iff flip: nat_add_distrib)
  have "2 ^ (63 + 64 * k) = (2 :: int) ^ nat (BN_num_bits a - 1) * 2 ^ nat sh" by (simp only: e1(1) [symmetric] power_add)
  also have "\<dots> \<le> bn_mag s" using nb(2) by (simp add: assms(5))
  finally have lo: "2 ^ (63 + 64 * k) \<le> bn_mag s" .
  have "bn_mag s < 2 ^ nat (BN_num_bits a) * 2 ^ nat sh" using nb(3) by (simp add: assms(5))
  also have "\<dots> = (2 :: int) ^ (64 * Suc k)" by (simp only: e1(2) [symmetric] power_add)
  finally have hi: "bn_mag s < 2 ^ (64 * Suc k)" .
  have "(2 :: int) ^ (64 * k) \<le> 2 ^ (63 + 64 * k)" by (intro power_increasing) simp_all
  then have t: "bn_top s = Suc k" using bn_ok_top_gt [OF assms(4), of k] bn_ok_top_le [OF assms(4) hi] lo by linarith
  then show "0 < bn_top s" by simp
  have "k < length (bn_d s)" using bn_fits_top [OF bn_ok_fits [OF assms(4)]] t by simp
  then have "bn_mag s < (uint (bn_d s ! k) + 1) * 2 ^ (64 * k)" using top_word_bounds(2) [of k "bn_d s"] by (simp add: bn_mag_def t)
  then have "2 ^ 63 * 2 ^ (64 * k) < (uint (bn_d s ! k) + 1) * 2 ^ (64 * k)" using lo unfolding power_add by linarith
  then have "2 ^ 63 < uint (bn_d s ! k) + 1" by (rule mult_right_less_imp_less) simp
  then show "2 ^ 63 \<le> uint (bn_d s ! (bn_top s - 1))" by (simp add: t)
qed

text \<open>The lowest word of a multiple of \<open>2 ^ 64\<close>.\<close>

lemma low_word_zero:
  assumes "bn_fits s" "0 < bn_top s" "bn_mag s = 2 ^ 64 * x"
  shows "bn_d s ! 0 = 0"
proof -
  obtain n where n: "bn_top s = Suc n" using assms(2) by (cases "bn_top s") auto
  have "bn_mag s = uint (bn_d s ! 0) + 2 ^ 64 * bn_val (take n (drop 1 (bn_d s)))"
    using bn_val_window [of 0 n "bn_d s"] bn_fits_top [OF assms(1)] by (simp add: bn_mag_def n)
  then have "uint (bn_d s ! 0) mod 2 ^ 64 = (2 ^ 64 * (x - bn_val (take n (drop 1 (bn_d s))))) mod 2 ^ 64"
    using assms(3) by (simp add: right_diff_distrib)
  also have "\<dots> = 0" by simp
  finally have "uint (bn_d s ! 0) = 0" using uint_lt2p [of "bn_d s ! 0"] by simp
  then show ?thesis by (simp add: uint_0_iff)
qed

text \<open>
  The padded numerator has at least two words more than the divisor, and its top
  word is 0.
\<close>

lemma div_pad_facts:
  assumes "bn_fits s" "bn_neg s = 0" "div_pad alloc s n = (ret, s')"
  shows "ret \<Longrightarrow> bn_fits s'" "ret \<Longrightarrow> bn_neg s' = 0" "ret \<Longrightarrow> bn_mag s' = bn_mag s" "ret \<Longrightarrow> n + 2 \<le> bn_top s'"
    "ret \<Longrightarrow> bn_mag s' < 2 ^ (64 * (bn_top s' - 1))" "ret \<Longrightarrow> bn_top s' \<le> max (n + 2) (bn_top s + 1)"
    "bn_room alloc (max (n + 2) (bn_top s + 1)) s \<Longrightarrow> ret"
proof -
  define k where "k = max (n + 2) (bn_top s + 1)"
  have k: "bn_top s \<le> k" by (simp add: k_def)
  define pad where "pad = (\<lambda>t :: bignum. t\<lparr>bn_d := write_at (bn_d t) (bn_top s) (replicate (k - bn_top s) 0), bn_top := k\<rparr>)"
  have one: "t\<lparr>bn_d := (bn_d t)[bn_top s := 0], bn_top := bn_top s + 1\<rparr> = pad t" if "n + 1 < bn_top s" "bn_top s < length (bn_d t)" for t
    using that by (simp add: pad_def k_def write_at_def upd_conv_take_nth_drop)
  have eq: "div_pad alloc s n = (case bn_wexpand alloc s (int k) of (False, s) \<Rightarrow> (False, s) | (True, s) \<Rightarrow> (True, pad s))"
  proof (cases "bn_top s \<le> n + 1")
    case True
    then have "k = n + 2" by (simp add: k_def)
    then show ?thesis using True unfolding div_pad_def pad_def \<open>k = n + 2\<close> bn_wexpand_eq by auto
  next
    case False
    then have "k = bn_top s + 1" by (simp add: k_def)
    then show ?thesis using False one bn_wexpand_ok [OF _ assms(1), of alloc k] unfolding div_pad_def
      by (auto simp: bn_dmax_def Suc_le_eq split: prod.split bool.split)
  qed
  show "ret" if "bn_room alloc (max (n + 2) (bn_top s + 1)) s"
    using bn_roomD [OF that, of k] eq assms(3) unfolding bn_wexpand_eq by (auto simp: k_def)
  assume ret
  then obtain t where w: "bn_wexpand alloc s (int k) = (True, t)" and s': "s' = pad t"
    using eq assms(3) by (auto split: prod.splits bool.splits)
  note t = bn_wexpand_ok [OF w assms(1)]
  have l: "k \<le> length (bn_d t)" using t(2) by (simp add: bn_dmax_def)
  have d: "bn_d s' = take (bn_top s) (bn_d t) @ replicate (k - bn_top s) 0 @ drop k (bn_d t)"
    using k by (simp add: s' pad_def write_at_def)
  show "bn_fits s'" using t(1) l k by (simp add: bn_fits_def bn_dmax_def d) (simp add: s' pad_def)
  show "bn_neg s' = 0" "n + 2 \<le> bn_top s'" "bn_top s' \<le> max (n + 2) (bn_top s + 1)"
    using t(5) assms(2) by (simp_all add: s' pad_def k_def)
  have "take k (bn_d s') = take (bn_top s) (bn_d t) @ replicate (k - bn_top s) 0" using l k by (simp add: d)
  then show m: "bn_mag s' = bn_mag s" using t(3,4) by (simp add: bn_mag_def s' pad_def bn_val_append)
  have "bn_mag s < 2 ^ (64 * bn_top s)" by (rule bn_mag_less [OF assms(1)])
  also have "\<dots> \<le> 2 ^ (64 * (bn_top s' - 1))" by (intro power_increasing) (simp_all add: s' pad_def k_def)
  finally show "bn_mag s' < 2 ^ (64 * (bn_top s' - 1))" using m by simp
qed

text \<open>So the top words of the padded numerator are below the divisor.\<close>

lemma padded_window:
  assumes "bn_fits s" "bn_ok t" "0 < bn_top t" "bn_top s = Suc m + bn_top t" "bn_mag s < 2 ^ (64 * (bn_top s - 1))"
  shows "bn_val (take (bn_top t) (drop (Suc m) (bn_d s))) < bn_mag t"
proof -
  define w where "w = bn_val (take (bn_top t) (drop (Suc m) (bn_d s)))"
  have e: "64 * (bn_top s - 1) = 64 * Suc m + 64 * (bn_top t - 1)" using assms(3,4) by simp
  have "bn_mag s = bn_val (take (Suc m) (bn_d s)) + 2 ^ (64 * Suc m) * w"
    using bn_val_take_split [of "Suc m" "bn_top s" "bn_d s"] bn_fits_top [OF assms(1)] assms(4)
    by (simp add: bn_mag_def w_def drop_take)
  then have "2 ^ (64 * Suc m) * w < 2 ^ (64 * (bn_top s - 1))" using assms(5) bn_val_nonneg [of "take (Suc m) (bn_d s)"] by linarith
  then have "2 ^ (64 * Suc m) * w < 2 ^ (64 * Suc m) * 2 ^ (64 * (bn_top t - 1))" by (simp only: e power_add)
  then have "w < 2 ^ (64 * (bn_top t - 1))" by (rule mult_left_less_imp_less) simp
  then show ?thesis using bn_ok_mag_ge [OF assms(2,3)] by (simp add: w_def)
qed

section \<open>Correctness\<close>

text \<open>The quotient and the remainder of the shifted numbers.\<close>

lemma shifted_div:
  "(a * 2 ^ s) div (b * 2 ^ s) = a div (b :: int)" "(a * 2 ^ s) mod (b * 2 ^ s) = (a mod b) * (2 ^ s :: int)"
  by (simp_all add: mult_mod_left)

text \<open>The remainder is shifted back, if there is room for it.\<close>

lemma remainder_back:
  assumes "bn_fits r" "bn_ok s" "bn_int s = x * 2 ^ nat sh" "0 \<le> x" "x < y" "y < 2 ^ (64 * n)" "0 \<le> sh" "sh \<le> 128" "bn_room alloc (n + 2) r"
    and "neg \<in> {0, 1}" "r' = BN_set_negative (snd (BN_rshift alloc r s sh)) neg"
  shows "bn_ok r' \<and> bn_int r' = (if neg \<noteq> 0 then - x else x)"
proof -
  obtain ok t where t: "bn_rshift alloc r s sh = (ok, t)" by fastforce
  have m: "bn_mag s = x * 2 ^ nat sh" using assms(3,4) by (simp add: bn_mag_abs abs_mult)
  have op: "bn_op_ok alloc r (bn_top s) (ok, t) (sgn (bn_int s) * (bn_mag s div 2 ^ nat sh))"
    using bn_rshift_ok [OF assms(1,2,7), of alloc] t by simp
  have "x * 2 ^ nat sh < 2 ^ (64 * n) * 2 ^ nat sh" using assms(5,6) by simp
  also have "\<dots> \<le> 2 ^ (64 * n) * 2 ^ 128" using assms(8) by (intro mult_left_mono power_increasing) auto
  also have "\<dots> = 2 ^ (64 * (n + 2))" by (simp add: power_add)
  finally have "bn_top s \<le> n + 2" using m by (intro bn_ok_top_le [OF assms(2)]) simp
  then have ok using op bn_roomD [OF assms(9)] by (auto simp: bn_op_ok_def)
  moreover have "sgn (bn_int s) * (bn_mag s div 2 ^ nat sh) = x" using assms(3,4) m by (auto simp: sgn_if)
  ultimately have "bn_ok t" "bn_mag t = x" using op assms(4) by (auto simp: bn_op_ok_def bn_mag_abs)
  then show ?thesis using BN_set_negative_ok [OF _ assms(10), of t] by (simp add: assms(11) BN_rshift_def t)
qed

text \<open>
  What a division promises: \<open>a\<close> and \<open>b\<close> are the numerator and the divisor, the
  quotient is rounded towards 0 and the remainder has the sign of the
  numerator.
\<close>

definition quotient_ok :: "bignum option \<Rightarrow> bignum option \<Rightarrow> int \<Rightarrow> int \<Rightarrow> bool" where
  "quotient_ok q q' a b \<longleftrightarrow>
     (case (q, q') of (None, None) \<Rightarrow> True
      | (Some q, Some q') \<Rightarrow> bn_ok q' \<and> bn_int q' = sgn a * sgn b * (\<bar>a\<bar> div \<bar>b\<bar>)
      | _ \<Rightarrow> False)"

definition remainder_ok :: "(nat \<Rightarrow> bool) \<Rightarrow> nat \<Rightarrow> bignum option \<Rightarrow> bignum option \<Rightarrow> int \<Rightarrow> int \<Rightarrow> bool" where
  "remainder_ok alloc n r r' a b \<longleftrightarrow>
     (case (r, r') of (None, None) \<Rightarrow> True
      | (Some r, Some r') \<Rightarrow> bn_room alloc n r \<longrightarrow> bn_ok r' \<and> bn_int r' = sgn a * (\<bar>a\<bar> mod \<bar>b\<bar>)
      | _ \<Rightarrow> False)"

lemma signed_quotient:
  assumes "bn_ok a" "bn_ok b" "bn_int b \<noteq> 0"
  shows "(if bn_neg a \<noteq> bn_neg b then - (bn_mag a div bn_mag b) else bn_mag a div bn_mag b) =
    sgn (bn_int a) * sgn (bn_int b) * (\<bar>bn_int a\<bar> div \<bar>bn_int b\<bar>)"
  using assms(3) bn_ok_neg [OF assms(1)] bn_ok_neg [OF assms(2)] by (auto simp: bn_mag_abs sgn_if split: if_splits)

lemma signed_remainder:
  assumes "bn_ok a"
  shows "(if bn_neg a \<noteq> 0 then - (bn_mag a mod bn_mag b) else bn_mag a mod bn_mag b) = sgn (bn_int a) * (\<bar>bn_int a\<bar> mod \<bar>bn_int b\<bar>)"
  using bn_ok_neg [OF assms] by (auto simp: bn_mag_abs sgn_if split: if_splits)

lemma div_normalised_ok:
  assumes num: "bn_ok num" and dvs: "bn_ok dvs" "bn_int dvs \<noteq> 0"
    and snum: "bn_fits snum" "bn_neg snum = 0" "bn_mag snum = bn_mag num * 2 ^ nat sh * 2 ^ 64" "\<not> ct \<Longrightarrow> bn_ok snum"
    and sdiv: "bn_ok sdiv" "bn_mag sdiv = bn_mag dvs * 2 ^ nat sh" "0 < bn_top sdiv" "2 ^ 63 \<le> uint (bn_d sdiv ! (bn_top sdiv - 1))"
    and top: "bn_top sdiv < bn_top snum" and ct: "ct \<Longrightarrow> bn_mag snum < 2 ^ (64 * (bn_top snum - 1))"
    and fits: "bn_fits res" "bn_fits tmp" "\<And>r. rem = Some r \<Longrightarrow> bn_fits r" and sh: "0 \<le> sh" "sh \<le> 64"
  obtains ret res' rem' where "div_normalised alloc tmp snum sdiv res rem num dvs (sh + 64) ct = Some (ret, res', rem')"
    "ret \<longrightarrow> bn_ok res' \<and> bn_int res' = sgn (bn_int num) * sgn (bn_int dvs) * (\<bar>bn_int num\<bar> div \<bar>bn_int dvs\<bar>) \<and>
      remainder_ok alloc (bn_top dvs + 2) rem rem' (bn_int num) (bn_int dvs)"
    "\<not> ret \<longrightarrow> rem' = rem" "ret \<longleftrightarrow> can_expand alloc res (bn_top snum - bn_top sdiv + 1) \<and> can_expand alloc tmp (bn_top sdiv + 1)"
proof -
  obtain m where m: "bn_top snum = Suc m + bn_top sdiv" using top by (metis less_iff_Suc_add add.commute add_Suc)
  have low: "bn_d snum ! 0 = 0" using top snum(3) by (intro low_word_zero [OF snum(1), where x = "bn_mag num * 2 ^ nat sh"]) auto
  define X where "X = bn_val (take (m + bn_top sdiv) (drop 1 (bn_d snum)))"
  have "bn_mag snum = 2 ^ 64 * X"
    using bn_val_window [of 0 "m + bn_top sdiv" "bn_d snum"] bn_fits_top [OF snum(1)] m low by (simp add: bn_mag_def X_def)
  then have X: "X = bn_mag num * 2 ^ nat sh" using snum(3) by simp
  have win: "bn_val (take (bn_top sdiv) (drop (Suc m) (bn_d snum))) < bn_mag sdiv" if ct
    by (rule padded_window [OF snum(1) sdiv(1,3) m ct [OF that]])
  have neg: "bn_neg num \<in> {0, 1}" "bn_neg dvs \<in> {0, 1}" using num dvs(1) by (simp_all add: bn_ok_def)
  note sd = shifted_div [of "bn_mag num" "nat sh" "bn_mag dvs"]
  from div_normalised_exact [OF snum(1,2) low snum(4) sdiv(1,3,4) m win fits(1,2) neg X_def, where alloc = alloc and rem = rem and sh = "sh + 64"]
  obtain ret res' rem' where d: "div_normalised alloc tmp snum sdiv res rem num dvs (sh + 64) ct = Some (ret, res', rem')"
    "ret \<longrightarrow> bn_ok res' \<and> bn_int res' = (if bn_neg num \<noteq> bn_neg dvs then - (bn_mag num div bn_mag dvs) else bn_mag num div bn_mag dvs) \<and>
      (\<exists>s. bn_ok s \<and> bn_int s = 2 ^ 64 * ((bn_mag num mod bn_mag dvs) * 2 ^ nat sh) \<and>
        rem' = map_option (\<lambda>r. BN_set_negative (snd (BN_rshift alloc r s (sh + 64))) (bn_neg num)) rem)"
    "\<not> ret \<longrightarrow> rem' = rem" "ret \<longleftrightarrow> can_expand alloc res (Suc m + 1) \<and> can_expand alloc tmp (bn_top sdiv + 1)"
    unfolding X sdiv(2) sd by blast
  have pos: "0 < bn_mag dvs" using dvs(2) by (simp add: bn_mag_abs)
  have back_ok: "bn_ok r' \<and> bn_int r' = sgn (bn_int num) * (\<bar>bn_int num\<bar> mod \<bar>bn_int dvs\<bar>)"
    if "rem = Some r" "bn_room alloc (bn_top dvs + 2) r" "bn_ok s" "bn_int s = 2 ^ 64 * ((bn_mag num mod bn_mag dvs) * 2 ^ nat sh)"
      "r' = BN_set_negative (snd (BN_rshift alloc r s (sh + 64))) (bn_neg num)" for r r' s
  proof -
    have "nat (sh + 64) = nat sh + 64" using sh by simp
    then have "bn_int s = (bn_mag num mod bn_mag dvs) * 2 ^ nat (sh + 64)" using that(4) by (simp add: power_add)
    from remainder_back [OF fits(3) [OF that(1)] that(3) this _ _ bn_mag_less [OF bn_ok_fits [OF dvs(1)]] _ _ that(2) neg(1) that(5)] sh pos
    show ?thesis by (simp add: signed_remainder [OF num])
  qed
  have "remainder_ok alloc (bn_top dvs + 2) rem rem' (bn_int num) (bn_int dvs)" if ret
    using d(2) that back_ok by (cases rem) (auto simp: remainder_ok_def)
  then show ?thesis using that [OF d(1)] d(2-4) m signed_quotient [OF num dvs] by simp
qed

text \<open>Operations keep the flags of their result and do not give up memory.\<close>

definition bn_grows :: "bignum \<Rightarrow> bignum \<Rightarrow> bool" where
  "bn_grows b b' \<longleftrightarrow> bn_flags b' = bn_flags b \<and> bn_dmax b \<le> bn_dmax b'"

lemma bn_grows_room: "bn_grows b b' \<Longrightarrow> bn_room alloc n b \<Longrightarrow> bn_room alloc n b'"
  by (auto simp: bn_grows_def bn_room_def can_expand_def)

lemma bn_grows_trans: "bn_grows a b \<Longrightarrow> bn_grows b c \<Longrightarrow> bn_grows a c"
  by (simp add: bn_grows_def)

lemma bn_grows_wexpand: "bn_grows b (snd (bn_wexpand alloc b (int n)))"
  unfolding bn_wexpand_eq by (simp add: bn_grows_def bn_dmax_def)

lemma bn_grows_updates [simp]:
  "bn_grows b (b'\<lparr>bn_neg := x\<rparr>) = bn_grows b b'" "bn_grows b (b'\<lparr>bn_top := n\<rparr>) = bn_grows b b'"
  "bn_grows b (BN_set_negative b' neg) = bn_grows b b'" "bn_grows b (bn_correct_top b') = bn_grows b b'"
  "bn_grows b (BN_zero b') = bn_grows b b'" "bn_grows b b"
  by (simp_all add: bn_grows_def bn_dmax_def BN_set_negative_def bn_correct_top_def BN_zero_def)

lemma bn_lshift_grows: "bn_grows r (snd (bn_lshift alloc r a n))"
proof -
  define count where "count = bn_top a + nat n div 64 + 1"
  obtain ok t where t: "bn_wexpand alloc r (int count) = (ok, t)" by fastforce
  then have g: "bn_grows r t" "ok \<Longrightarrow> count \<le> length (bn_d t)"
    using bn_grows_wexpand [of r alloc count] bn_wexpand_eq [of alloc r count] by (auto simp: bn_dmax_def split: if_splits)
  have "bn_grows r (snd (bn_lshift alloc r a n))" if "\<not> n < 0" "\<not> bn_top a < 1"
    unfolding bn_lshift_def Let_def count_def [symmetric] t using that g
    by (cases ok) (auto simp: bn_grows_def bn_dmax_def BN_set_negative_def bn_correct_top_def count_def)
  then show ?thesis by (auto simp: bn_lshift_def Let_def)
qed

text \<open>The memory that a division needs.\<close>

definition div_memory :: "(nat \<Rightarrow> bool) \<Rightarrow> (nat \<Rightarrow> bignum option) \<Rightarrow> bignum option \<Rightarrow> bignum option \<Rightarrow> bignum \<Rightarrow> bignum \<Rightarrow> bool" where
  "div_memory alloc ctx quot remainder num dvs \<longleftrightarrow>
     (let n = bn_top num + bn_top dvs + 5
      in list_all (\<lambda>k. case ctx k of None \<Rightarrow> False | Some t \<Rightarrow> bn_room alloc n t) [0, 1, 2, 3] \<and>
         pred_option (bn_room alloc n) quot \<and> (bn_mag num < bn_mag dvs \<longrightarrow> pred_option (bn_room alloc n) remainder))"

definition ctx_fits :: "(nat \<Rightarrow> bignum option) \<Rightarrow> bool" where
  "ctx_fits ctx \<longleftrightarrow> (\<forall>k. pred_option bn_fits (ctx k))"

text \<open>
  The outcome of the division of the normalised numbers: it returns, succeeds if
  there is \<open>enough\<close> memory, and then has the quotient and the remainder.
\<close>

definition div_outcome :: "(nat \<Rightarrow> bool) \<Rightarrow> bignum option \<Rightarrow> bignum \<Rightarrow> bignum \<Rightarrow> bool \<Rightarrow> (bool \<times> bignum \<times> bignum option) option \<Rightarrow> bool" where
  "div_outcome alloc rem num dvs enough x \<longleftrightarrow>
     (\<exists>ret res' rem'. x = Some (ret, res', rem') \<and>
        (ret \<longrightarrow> bn_ok res' \<and> bn_int res' = sgn (bn_int num) * sgn (bn_int dvs) * (\<bar>bn_int num\<bar> div \<bar>bn_int dvs\<bar>) \<and>
           remainder_ok alloc (bn_top dvs + 2) rem rem' (bn_int num) (bn_int dvs)) \<and>
        (\<not> ret \<longrightarrow> rem' = rem) \<and> (enough \<longrightarrow> ret))"

text \<open>The two numbers are normalised and divided; \<open>n\<close> words are enough for every number.\<close>

lemma div_general:
  assumes num: "bn_ok num" and dvs: "bn_ok dvs" "bn_int dvs \<noteq> 0"
    and fits: "bn_fits tmp" "bn_fits snum" "bn_fits sdiv" "bn_fits res" "pred_option bn_fits rem"
    and less: "\<not> ct \<Longrightarrow> bn_mag dvs \<le> bn_mag num" and n: "n = bn_top num + bn_top dvs + 5"
    and sh: "sh = 64 - BN_num_bits dvs mod 64"
    and lsd: "BN_lshift alloc sdiv dvs sh = (ok1, sdiv1)" and lsn: "BN_lshift alloc snum num (sh + 64) = (ok2, snum1)"
    and pad: "(if ct then div_pad alloc (snum1\<lparr>bn_neg := 0\<rparr>) (bn_top (sdiv1\<lparr>bn_neg := 0\<rparr>)) else (True, snum1\<lparr>bn_neg := 0\<rparr>)) = (ok3, snum2)"
  shows "bn_room alloc n sdiv \<longrightarrow> ok1" "bn_room alloc n snum \<longrightarrow> ok2" "bn_room alloc n snum \<longrightarrow> ok1 \<and> ok2 \<longrightarrow> ok3"
    "ok1 \<and> ok2 \<and> ok3 \<longrightarrow> div_outcome alloc rem num dvs (bn_room alloc n res \<and> bn_room alloc n tmp)
      (div_normalised alloc tmp snum2 (sdiv1\<lparr>bn_neg := 0\<rparr>) res rem num dvs (sh + 64) ct)"
proof -
  define sd sn where "sd = sdiv1\<lparr>bn_neg := 0\<rparr>" and "sn = snum1\<lparr>bn_neg := 0\<rparr>"
  have s0: "0 \<le> sh" "sh \<le> 64" "0 \<le> sh + 64" "nat (sh + 64) div 64 \<le> 2" "nat sh div 64 \<le> 1" "nat (sh + 64) = nat sh + 64"
    unfolding sh by (simp_all add: nat_le_iff div_le_dividend)
  note D = shifted_facts [OF fits(3) dvs(1) s0(1) lsd sd_def] and N = shifted_facts [OF fits(2) num s0(3) lsn sn_def]
  show "bn_room alloc n sdiv \<longrightarrow> ok1" using D(5) s0(5) n bn_room_mono [of alloc n sdiv] by simp
  show "bn_room alloc n snum \<longrightarrow> ok2" using N(5) s0(4) n bn_room_mono [of alloc n snum] by simp
  have gr: "bn_grows snum sn" using bn_lshift_grows [of snum alloc num "sh + 64"] lsn by (simp add: sn_def BN_lshift_def)
  have fn: "bn_fits sn" if ok2 using bn_ok_fits [OF N(1) [OF that]] .
  have padf: "div_pad alloc sn (bn_top sd) = (ok3, snum2)" if ct using pad that by (simp add: sd_def sn_def)
  note P = div_pad_facts [OF fn N(2) padf]
  have mx: "max (bn_top sd + 2) (bn_top sn + 1) \<le> n" if ok1 ok2 using D(4) N(4) that s0(4,5) n by simp
  show "bn_room alloc n snum \<longrightarrow> ok1 \<and> ok2 \<longrightarrow> ok3"
    using P(7) mx bn_room_mono bn_grows_room [OF gr] pad by (cases ct) auto
  show "ok1 \<and> ok2 \<and> ok3 \<longrightarrow> div_outcome alloc rem num dvs (bn_room alloc n res \<and> bn_room alloc n tmp)
      (div_normalised alloc tmp snum2 (sdiv1\<lparr>bn_neg := 0\<rparr>) res rem num dvs (sh + 64) ct)"
  proof (intro impI)
    assume ok: "ok1 \<and> ok2 \<and> ok3"
    have eq: "snum2 = sn" if "\<not> ct" using pad that by (simp add: sn_def)
    have sn2: "bn_fits snum2" "bn_neg snum2 = 0" "bn_mag snum2 = bn_mag num * 2 ^ nat sh * 2 ^ 64" "\<not> ct \<Longrightarrow> bn_ok snum2"
      using P(1-3) N(1-3) fn eq ok s0(6) by (cases ct; simp add: power_add)+
    have sdt: "0 < bn_top sd" "2 ^ 63 \<le> uint (bn_d sd ! (bn_top sd - 1))"
      using normalised_top_word [OF dvs sh D(1,3)] ok by simp_all
    have top: "bn_top sd < bn_top snum2"
    proof (cases ct)
      case True
      then show ?thesis using P(4) ok by simp
    next
      case False
      obtain k where k: "bn_top sd = Suc k" using sdt(1) by (cases "bn_top sd") auto
      have "2 ^ (64 * bn_top sd) = 2 ^ (64 * k) * (2 ^ 64 :: int)" by (simp add: k power_add)
      also have "\<dots> \<le> bn_mag sd * 2 ^ 64" using bn_ok_mag_ge [OF D(1)] ok k by simp
      also have "\<dots> \<le> bn_mag snum2" using D(3) sn2(3) less [OF False] ok by simp
      finally show ?thesis by (rule bn_ok_top_gt [OF sn2(4) [OF False]])
    qed
    have ctw: "bn_mag snum2 < 2 ^ (64 * (bn_top snum2 - 1))" if ct using P(5) that ok by simp
    have t2: "bn_top snum2 \<le> n" using P(6) mx eq ok by (cases ct) auto
    have fr: "bn_fits r" if "rem = Some r" for r using fits(5) that by simp
    have okd: "bn_ok sd" "bn_mag sd = bn_mag dvs * 2 ^ nat sh" using D(1,3) ok by simp_all
    from div_normalised_ok [OF num dvs sn2 okd sdt top ctw fits(4,1) fr s0(1,2)]
    obtain ret res' rem' where d: "div_normalised alloc tmp snum2 sd res rem num dvs (sh + 64) ct = Some (ret, res', rem')"
      "ret \<longrightarrow> bn_ok res' \<and> bn_int res' = sgn (bn_int num) * sgn (bn_int dvs) * (\<bar>bn_int num\<bar> div \<bar>bn_int dvs\<bar>) \<and>
        remainder_ok alloc (bn_top dvs + 2) rem rem' (bn_int num) (bn_int dvs)"
      "\<not> ret \<longrightarrow> rem' = rem" "ret \<longleftrightarrow> can_expand alloc res (bn_top snum2 - bn_top sd + 1) \<and> can_expand alloc tmp (bn_top sd + 1)" by blast
    have "bn_top snum2 - bn_top sd + 1 \<le> n" "bn_top sd + 1 \<le> n" using t2 sdt(1) top by simp_all
    then have "bn_room alloc n res \<and> bn_room alloc n tmp \<longrightarrow> ret" using d(4) bn_roomD by blast
    with d show "div_outcome alloc rem num dvs (bn_room alloc n res \<and> bn_room alloc n tmp)
      (div_normalised alloc tmp snum2 (sdiv1\<lparr>bn_neg := 0\<rparr>) res rem num dvs (sh + 64) ct)"
      unfolding sd_def div_outcome_def by blast
  qed
qed

text \<open>
  \<open>BN_div_internal\<close> returns, and if it reports success the quotient is right, and
  the remainder is if there was room for it.
\<close>

definition div_result :: "(nat \<Rightarrow> bool) \<Rightarrow> (nat \<Rightarrow> bignum option) \<Rightarrow> bignum option \<Rightarrow> bignum option \<Rightarrow> bignum \<Rightarrow> bignum
    \<Rightarrow> (bool \<times> bignum option \<times> bignum option) option \<Rightarrow> bool" where
  "div_result alloc ctx quot rem num dvs x \<longleftrightarrow>
     (\<exists>ret q r. x = Some (ret, q, r) \<and>
        (ret \<longrightarrow> quotient_ok quot q (bn_int num) (bn_int dvs) \<and> remainder_ok alloc (bn_top dvs + 2) rem r (bn_int num) (bn_int dvs)) \<and>
        (\<not> ret \<longrightarrow> r = rem) \<and> (div_memory alloc ctx quot rem num dvs \<longrightarrow> ret))"

lemma div_result_Some:
  "div_result alloc ctx quot rem num dvs (Some (ret, q, r)) \<longleftrightarrow>
     (ret \<longrightarrow> quotient_ok quot q (bn_int num) (bn_int dvs) \<and> remainder_ok alloc (bn_top dvs + 2) rem r (bn_int num) (bn_int dvs)) \<and>
     (\<not> ret \<longrightarrow> r = rem) \<and> (div_memory alloc ctx quot rem num dvs \<longrightarrow> ret)"
  by (auto simp: div_result_def)

lemma div_small:
  assumes "bn_ok num" "bn_ok dvs" "bn_mag num < bn_mag dvs" "pred_option bn_fits quot" "pred_option bn_fits rem"
  shows "div_result alloc ctx quot rem num dvs
    (case (case rem of None \<Rightarrow> (True, None)
             | Some r \<Rightarrow> (case BN_copy alloc r num of (ok, r) \<Rightarrow> (ok, Some r))) of
       (False, rem) \<Rightarrow> Some (False, quot, rem)
     | (True, rem) \<Rightarrow> Some (True, map_option BN_zero quot, rem))"
proof -
  have q0: "\<bar>bn_int num\<bar> div \<bar>bn_int dvs\<bar> = 0" and r0: "sgn (bn_int num) * (\<bar>bn_int num\<bar> mod \<bar>bn_int dvs\<bar>) = bn_int num"
    using assms(3) by (simp_all add: bn_mag_abs div_pos_pos_trivial mod_pos_pos_trivial sgn_mult_abs)
  have q: "quotient_ok quot (map_option BN_zero quot) (bn_int num) (bn_int dvs)"
    using assms(4) BN_zero_ok by (cases quot) (auto simp: quotient_ok_def q0)
  show ?thesis
  proof (cases rem)
    case None
    then show ?thesis using q by (simp add: div_result_Some remainder_ok_def)
  next
    case (Some r)
    obtain ok r' where c: "BN_copy alloc r num = (ok, r')" by fastforce
    have "bn_fits r" using assms(5) Some by simp
    note C = BN_copy_correct [OF this assms(1) c]
    have "remainder_ok alloc (bn_top dvs + 2) (Some r) (Some r') (bn_int num) (bn_int dvs)" if ok
      using C(3) that by (simp add: remainder_ok_def r0)
    moreover have "ok" if "div_memory alloc ctx quot rem num dvs"
      using that C(1) assms(3) by (simp add: div_memory_def Let_def Some bn_room_def)
    ultimately show ?thesis using q Some c C(2) by (cases ok) (auto simp: div_result_Some)
  qed
qed

lemma div_temporaries:
  "(\<exists>tmp snum sdiv res. ctx 0 = Some tmp \<and> ctx 1 = Some snum \<and> ctx 2 = Some sdiv \<and>
     (case quot of None \<Rightarrow> ctx 3 | Some q \<Rightarrow> Some q) = Some (res :: bignum)) \<or>
   ctx 0 = None \<or> ctx 1 = None \<or> ctx 2 = None \<or> (quot = None \<and> ctx 3 = None)"
  by (cases quot; cases "ctx 0"; cases "ctx 1"; cases "ctx 2"; cases "ctx 3") simp_all

lemma case_some4_none:
  "a = None \<or> b = None \<or> c = None \<or> d = None \<Longrightarrow>
   (case (a, b, c, d) of (Some x, Some y, Some z, Some w) \<Rightarrow> f x y z w | _ \<Rightarrow> e) = e"
  by (auto split: option.split)

lemma div_unavailable:
  assumes "\<not> (bn_top num > 0 \<and> bn_d num ! (bn_top num - 1) = 0)" "\<not> BN_is_zero dvs" "\<not> (\<not> ct \<and> BN_ucmp num dvs < 0)"
    and "ctx 0 = None \<or> ctx 1 = None \<or> ctx 2 = None \<or> (quot = None \<and> ctx 3 = None)"
  shows "BN_div_internal alloc ctx quot rem num dvs ct = Some (False, quot, rem)"
  unfolding BN_div_internal_def Let_def if_not_P [OF assms(1)] if_not_P [OF assms(2)] if_not_P [OF assms(3)]
  by (rule case_some4_none) (use assms(4) in auto)

lemma div_outcome_result:
  assumes "div_outcome alloc rem num dvs enough x" "div_memory alloc ctx quot rem num dvs \<Longrightarrow> enough"
  shows "div_result alloc ctx quot rem num dvs
    (case x of None \<Rightarrow> None | Some (ret, res, rem) \<Rightarrow> Some (ret, case quot of None \<Rightarrow> None | Some q \<Rightarrow> Some res, rem))"
proof -
  obtain ret res' rem' where "x = Some (ret, res', rem')"
    "ret \<longrightarrow> bn_ok res' \<and> bn_int res' = sgn (bn_int num) * sgn (bn_int dvs) * (\<bar>bn_int num\<bar> div \<bar>bn_int dvs\<bar>) \<and>
       remainder_ok alloc (bn_top dvs + 2) rem rem' (bn_int num) (bn_int dvs)"
    "\<not> ret \<longrightarrow> rem' = rem" "enough \<longrightarrow> ret" using assms(1) unfolding div_outcome_def by blast
  then show ?thesis using assms(2) by (cases quot) (simp_all add: div_result_Some quotient_ok_def)
qed

lemma BN_div_internal_ok:
  assumes num: "bn_ok num" and dvs: "bn_ok dvs" "bn_int dvs \<noteq> 0"
    and fits: "ctx_fits ctx" "pred_option bn_fits quot" "pred_option bn_fits rem"
  shows "div_result alloc ctx quot rem num dvs (BN_div_internal alloc ctx quot rem num dvs ct)"
proof -
  have pad: "\<not> (bn_top num > 0 \<and> bn_d num ! (bn_top num - 1) = 0)" using num by (auto simp: bn_ok_def)
  have nz: "\<not> BN_is_zero dvs" using dvs(2) by (simp add: BN_is_zero_iff [OF bn_ok_fits [OF dvs(1)]] bn_mag_abs)
  have cmp: "BN_ucmp num dvs < 0 \<longleftrightarrow> bn_mag num < bn_mag dvs" using BN_ucmp_sgn [OF num dvs(1)] by (simp add: sgn_if)
  have ge: "\<not> (\<not> ct \<and> BN_ucmp num dvs < 0)" if "ct \<or> bn_mag dvs \<le> bn_mag num" using that cmp by auto
  note start = pad nz cmp BN_div_internal_def [of alloc ctx quot rem num dvs ct] Let_def
  consider "\<not> ct" "bn_mag num < bn_mag dvs"
    | tmp snum sdiv res where "ct \<or> bn_mag dvs \<le> bn_mag num" "ctx 0 = Some tmp" "ctx 1 = Some snum" "ctx 2 = Some sdiv"
        "(case quot of None \<Rightarrow> ctx 3 | Some q \<Rightarrow> Some q) = Some res"
    | "ct \<or> bn_mag dvs \<le> bn_mag num" "ctx 0 = None \<or> ctx 1 = None \<or> ctx 2 = None \<or> (quot = None \<and> ctx 3 = None)"
    using div_temporaries [of ctx quot] by (metis not_less)
  then show ?thesis
  proof cases
    case 1
    then show ?thesis using div_small [OF num dvs(1) 1(2) fits(2,3)] start(1-3) unfolding start(4) Let_def by auto
  next
    case 3
    have "\<not> div_memory alloc ctx quot rem num dvs"
      using 3(2) unfolding div_memory_def Let_def list.pred_inject by (elim disjE conjE) simp_all
    then show ?thesis unfolding div_unavailable [OF pad nz ge [OF 3(1)] 3(2)] by (simp add: div_result_Some)
  next
    case (2 tmp snum sdiv res)
    define sh where "sh = 64 - BN_num_bits dvs mod 64"
    obtain ok1 sdiv1 where lsd: "BN_lshift alloc sdiv dvs sh = (ok1, sdiv1)" by fastforce
    obtain ok2 snum1 where lsn: "BN_lshift alloc snum num (sh + 64) = (ok2, snum1)" by fastforce
    obtain ok3 snum2 where pd: "(if ct then div_pad alloc (snum1\<lparr>bn_neg := 0\<rparr>) (bn_top (sdiv1\<lparr>bn_neg := 0\<rparr>))
        else (True, snum1\<lparr>bn_neg := 0\<rparr>)) = (ok3, snum2)" by fastforce
    have cf: "bn_fits t" if "ctx k = Some t" for k t using fits(1) that unfolding ctx_fits_def by (metis option.pred_inject(2))
    have f: "bn_fits tmp" "bn_fits snum" "bn_fits sdiv" "bn_fits res"
      using cf 2(2-4) by blast+ (use cf 2(5) fits(2) in \<open>cases quot; simp\<close>)
    have le: "bn_mag dvs \<le> bn_mag num" if "\<not> ct" using 2(1) that by simp
    note G = div_general [OF num dvs f fits(3) le refl sh_def lsd lsn pd]
    have eq: "BN_div_internal alloc ctx quot rem num dvs ct =
      (if ok1 \<and> ok2 \<and> ok3 then
         (case div_normalised alloc tmp snum2 (sdiv1\<lparr>bn_neg := 0\<rparr>) res rem num dvs (sh + 64) ct of None \<Rightarrow> None
          | Some (ret, res, rem) \<Rightarrow> Some (ret, case quot of None \<Rightarrow> None | Some q \<Rightarrow> Some res, rem))
       else Some (False, quot, rem))"
      unfolding start(4) Let_def if_not_P [OF pad] if_not_P [OF nz] if_not_P [OF ge [OF 2(1)]] 2(2-) BN_BITS2_def sh_def [symmetric]
        prod.case option.case lsd lsn pd by (cases ok1; cases ok2; cases ok3) simp_all
    have mem: "bn_room alloc (bn_top num + bn_top dvs + 5) b" if "div_memory alloc ctx quot rem num dvs"
      "b \<in> {tmp, snum, sdiv, res}" for b
      using that 2(2-5) by (cases quot) (auto simp: div_memory_def Let_def)
    have all_ok: "ok1 \<and> ok2 \<and> ok3" if "div_memory alloc ctx quot rem num dvs"
      using G(1-3) mem [OF that] by blast
    show ?thesis
    proof (cases "ok1 \<and> ok2 \<and> ok3")
      case True
      then show ?thesis unfolding eq if_P [OF True] by (intro div_outcome_result) (use G(4) mem in blast)+
    next
      case False
      then show ?thesis unfolding eq if_not_P [OF False] using all_ok by (auto simp: div_result_Some)
    qed
  qed
qed

text \<open>Errors: the divisor is zero, or the numerator has an invalid zero at its top.\<close>

lemma BN_div_errors:
  assumes "bn_top num > 0 \<and> bn_d num ! (bn_top num - 1) = 0 \<or> bn_ok dvs \<and> bn_int dvs = 0"
  shows "BN_div_internal alloc ctx quot rem num dvs ct = Some (False, quot, rem)"
proof (cases "bn_top num > 0 \<and> bn_d num ! (bn_top num - 1) = 0")
  case True
  then show ?thesis unfolding BN_div_internal_def by (rule if_P)
next
  case False
  then have "BN_is_zero dvs" using assms BN_is_zero_iff [OF bn_ok_fits, of dvs] by (auto simp: bn_mag_abs)
  then show ?thesis unfolding BN_div_internal_def Let_def if_not_P [OF False] by (rule if_P)
qed

lemma signed_division:
  fixes a b :: int
  assumes "b \<noteq> 0" "q = sgn a * sgn b * (\<bar>a\<bar> div \<bar>b\<bar>)" "r = sgn a * (\<bar>a\<bar> mod \<bar>b\<bar>)"
  shows "a = q * b + r" "\<bar>r\<bar> < \<bar>b\<bar>" "r = 0 \<or> sgn r = sgn a"
proof -
  have bb: "sgn b * b = \<bar>b\<bar>" by (simp add: abs_sgn mult.commute)
  have "a = sgn a * \<bar>a\<bar>" by (simp add: sgn_mult_abs)
  also have "\<dots> = sgn a * (\<bar>a\<bar> div \<bar>b\<bar> * \<bar>b\<bar> + \<bar>a\<bar> mod \<bar>b\<bar>)" by (simp only: div_mult_mod_eq)
  also have "\<dots> = sgn a * (\<bar>a\<bar> div \<bar>b\<bar>) * (sgn b * b) + r" unfolding bb assms(3) by (simp only: distrib_left mult.assoc)
  also have "\<dots> = q * b + r" by (simp add: assms(2) mult.commute mult.left_commute)
  finally show "a = q * b + r" .
  show "\<bar>r\<bar> < \<bar>b\<bar>" using assms(1) by (simp add: assms(3) abs_mult sgn_if)
  have "0 \<le> \<bar>a\<bar> mod \<bar>b\<bar>" using assms(1) by simp
  then have "\<bar>a\<bar> mod \<bar>b\<bar> = 0 \<or> sgn (\<bar>a\<bar> mod \<bar>b\<bar>) = 1" by (metis le_less sgn_pos)
  then show "r = 0 \<or> sgn r = sgn a" by (auto simp: assms(3) sgn_mult)
qed

text \<open>
  C4.  Division: for well-formed numbers and a divisor other than 0, \<open>BN_div\<close>, constant
  time or not, returns.  If it reports success the quotient is well formed and is the
  quotient of the absolute values with the sign of a product; and if, in addition, the number for the remainder
  has or can be given room for two words more than the divisor has, the remainder is well formed, is smaller
  than the divisor, has the sign of the numerator, and the numerator is the quotient times
  the divisor plus the remainder.  It succeeds if the numbers can be given the
  memory they need.
\<close>

theorem BN_div_correct:
  assumes "bn_ok numerator" "bn_ok divisor" "bn_int divisor \<noteq> 0" "ctx_fits ctx" "bn_fits q" "bn_fits r"
  shows "\<exists>ret q1 r1. BN_div alloc ctx (Some q) (Some r) numerator divisor = Some (ret, q1, r1) \<and>
    (ret \<longrightarrow> (\<exists>q' r'. q1 = Some q' \<and> r1 = Some r' \<and> bn_ok q' \<and>
       bn_int q' = sgn (bn_int numerator) * sgn (bn_int divisor) * (\<bar>bn_int numerator\<bar> div \<bar>bn_int divisor\<bar>) \<and>
       (bn_room alloc (bn_top divisor + 2) r \<longrightarrow> bn_ok r' \<and>
          bn_int numerator = bn_int q' * bn_int divisor + bn_int r' \<and> \<bar>bn_int r'\<bar> < \<bar>bn_int divisor\<bar> \<and>
          (bn_int r' = 0 \<or> sgn (bn_int r') = sgn (bn_int numerator))))) \<and>
    (div_memory alloc ctx (Some q) (Some r) numerator divisor \<longrightarrow> ret)"
proof -
  have "div_result alloc ctx (Some q) (Some r) numerator divisor (BN_div alloc ctx (Some q) (Some r) numerator divisor)"
    unfolding BN_div_def Let_def using assms by (intro BN_div_internal_ok) simp_all
  then obtain ret q1 r1 where d: "BN_div alloc ctx (Some q) (Some r) numerator divisor = Some (ret, q1, r1)"
    "ret \<longrightarrow> quotient_ok (Some q) q1 (bn_int numerator) (bn_int divisor) \<and>
       remainder_ok alloc (bn_top divisor + 2) (Some r) r1 (bn_int numerator) (bn_int divisor)"
    "div_memory alloc ctx (Some q) (Some r) numerator divisor \<longrightarrow> ret"
    unfolding div_result_def by blast
  have "\<exists>q' r'. q1 = Some q' \<and> r1 = Some r' \<and> bn_ok q' \<and>
      bn_int q' = sgn (bn_int numerator) * sgn (bn_int divisor) * (\<bar>bn_int numerator\<bar> div \<bar>bn_int divisor\<bar>) \<and>
      (bn_room alloc (bn_top divisor + 2) r \<longrightarrow>
         bn_ok r' \<and> bn_int r' = sgn (bn_int numerator) * (\<bar>bn_int numerator\<bar> mod \<bar>bn_int divisor\<bar>))" if ret
    using d(2) that by (auto simp: quotient_ok_def remainder_ok_def split: option.splits)
  then show ?thesis using d(1,3) signed_division [OF assms(3)] by metis
qed

text \<open>Numbers of one word, and temporaries that need not be expanded.\<close>

definition bn_small :: "int \<Rightarrow> bignum" where
  "bn_small n = \<lparr>bn_d = [word_of_int \<bar>n\<bar>], bn_top = of_bool (n \<noteq> 0), bn_neg = of_bool (n < 0), bn_flags = 0\<rparr>"

definition bn_temp :: bignum where
  "bn_temp = \<lparr>bn_d = replicate 8 0, bn_top = 0, bn_neg = 0, bn_flags = 0\<rparr>"

lemma bn_small_ok:
  assumes "\<bar>n\<bar> < 2 ^ 64"
  shows "bn_ok (bn_small n)" "bn_int (bn_small n) = n"
proof -
  have u: "uint (word_of_int \<bar>n\<bar> :: bn_word) = \<bar>n\<bar>" using assms by (simp add: uint_word_of_int)
  then have "n \<noteq> 0 \<Longrightarrow> (word_of_int \<bar>n\<bar> :: bn_word) \<noteq> 0" by (metis abs_eq_0 uint_0_eq)
  then show "bn_ok (bn_small n)" by (auto simp: bn_small_def bn_ok_def bn_fits_def bn_dmax_def BN_MAX_WORDS_def)
  show "bn_int (bn_small n) = n" using u by (auto simp: bn_small_def bn_int_def bn_mag_def)
qed

lemma bn_temp_facts: "bn_fits bn_temp" "n \<le> 8 \<Longrightarrow> bn_room alloc n bn_temp" "ctx_fits (\<lambda>_. Some bn_temp)"
  by (simp_all add: bn_temp_def bn_fits_def bn_dmax_def BN_MAX_WORDS_def bn_room_def can_expand_def ctx_fits_def)

lemma div_memory_small:
  assumes "\<bar>a\<bar> < 2 ^ 64" "\<bar>b\<bar> < 2 ^ 64" "\<bar>b\<bar> \<le> \<bar>a\<bar>"
  shows "div_memory alloc (\<lambda>_. Some bn_temp) (Some bn_temp) rem (bn_small a) (bn_small b)"
proof -
  have "bn_top (bn_small a) + bn_top (bn_small b) + 5 \<le> 8" by (simp add: bn_small_def)
  moreover have "\<not> bn_mag (bn_small a) < bn_mag (bn_small b)" using assms by (simp add: bn_mag_abs bn_small_ok)
  ultimately show ?thesis unfolding div_memory_def Let_def using bn_temp_facts(2) by simp
qed

theorem BN_div_correct_witness:
  "\<exists>q r. BN_div (\<lambda>_. False) (\<lambda>_. Some bn_temp) (Some bn_temp) (Some bn_temp) (bn_small (-17)) (bn_small 5) = Some (True, Some q, Some r) \<and>
     bn_int q = -3 \<and> bn_int r = -2"
proof -
  note s = bn_small_ok [of "-17", simplified] bn_small_ok [of 5, simplified]
  have room: "bn_room (\<lambda>_. False) (bn_top (bn_small 5) + 2) bn_temp" by (rule bn_temp_facts) (simp add: bn_small_def)
  have mem: "div_memory (\<lambda>_. False) (\<lambda>_. Some bn_temp) (Some bn_temp) (Some bn_temp) (bn_small (-17)) (bn_small 5)"
    by (rule div_memory_small) simp_all
  have nz: "bn_int (bn_small 5) \<noteq> 0" using s(4) by simp
  from BN_div_correct [OF s(1,3) nz bn_temp_facts(3,1,1), of "\<lambda>_. False"] mem room
  obtain q r where d: "BN_div (\<lambda>_. False) (\<lambda>_. Some bn_temp) (Some bn_temp) (Some bn_temp) (bn_small (-17)) (bn_small 5) = Some (True, Some q, Some r)"
    "-17 = bn_int q * 5 + bn_int r" "\<bar>bn_int r\<bar> < 5" "bn_int r = 0 \<or> sgn (bn_int r) = -1" unfolding s by auto
  have "bn_int r \<le> 0" using d(4) by (auto simp: sgn_if split: if_splits)
  then have "bn_int q = -3" using d(2,3) by presburger
  moreover from this have "bn_int r = -2" using d(2) by linarith
  ultimately show ?thesis using d(1) by blast
qed

section \<open>The remainder that is lost\<close>

lemma bn_dmax_updates [simp]:
  "bn_dmax (BN_set_negative b neg) = bn_dmax b" "bn_dmax (bn_correct_top b) = bn_dmax b" "bn_dmax (BN_zero b) = bn_dmax b"
  by (simp_all add: bn_dmax_def BN_set_negative_def bn_correct_top_def BN_zero_def)

lemma wexpand_no_memory: "bn_wexpand (\<lambda>_. False) b (int n) = (n \<le> bn_dmax b, b)"
  by (simp add: bn_wexpand_eq can_expand_def)

lemma bn_rshift_no_memory: "bn_dmax (snd (bn_rshift (\<lambda>_. False) r a n)) = bn_dmax r"
  unfolding bn_rshift_def Let_def wexpand_no_memory by (simp add: bn_dmax_def BN_set_negative_def bn_correct_top_def BN_zero_def split: bool.split)

lemma div_normalised_remainder:
  assumes "div_normalised alloc tmp snum sdiv res (Some r) num dvs sh ct = Some (ret, res', rem')"
  shows "\<exists>r'. rem' = Some r' \<and> (r' = r \<or> (\<exists>s neg. r' = BN_set_negative (snd (BN_rshift alloc r s sh)) neg))"
  using assms unfolding div_normalised_def Let_def
  by (auto split: prod.splits bool.splits option.splits)

lemma BN_div_internal_remainder:
  assumes "BN_div_internal alloc ctx quot (Some r) num dvs ct = Some (ret, q, rem')" "ct \<or> \<not> BN_ucmp num dvs < 0"
  shows "\<exists>r'. rem' = Some r' \<and> (r' = r \<or> (\<exists>s sh neg. r' = BN_set_negative (snd (BN_rshift alloc r s sh)) neg))"
  using assms unfolding BN_div_internal_def Let_def
  by (auto split: if_splits prod.splits bool.splits option.splits dest!: div_normalised_remainder)

text \<open>
  C38.  The result of the shift that delivers the remainder is not checked: if the
  remainder has no memory and none can be had, \<open>BN_div_nonct\<close> reports success
  although the remainder it leaves, 0, is not the one of the division.
\<close>

theorem BN_div_lost_remainder:
  assumes "bn_ok numerator" "bn_ok divisor" "bn_int divisor \<noteq> 0" "bn_mag divisor \<le> bn_mag numerator" "ctx_fits ctx" "bn_fits q"
    and "div_memory (\<lambda>_. False) ctx (Some q) None numerator divisor" "bn_dmax r = 0" "bn_top r = 0"
    and "bn_mag numerator mod bn_mag divisor \<noteq> 0"
  shows "\<exists>q' r'. BN_div_nonct (\<lambda>_. False) ctx (Some q) (Some r) numerator divisor = Some (True, Some q', Some r') \<and>
    bn_mag r' = 0 \<and> bn_int numerator \<noteq> bn_int q' * bn_int divisor + bn_int r'"
proof -
  have fr: "bn_fits r" using assms(8,9) by (simp add: bn_fits_def)
  have "div_result (\<lambda>_. False) ctx (Some q) (Some r) numerator divisor (BN_div_nonct (\<lambda>_. False) ctx (Some q) (Some r) numerator divisor)"
    unfolding BN_div_nonct_def using assms fr by (intro BN_div_internal_ok) simp_all
  moreover have "div_memory (\<lambda>_. False) ctx (Some q) (Some r) numerator divisor" using assms(4,7) by (simp add: div_memory_def Let_def)
  ultimately obtain q1 r1 where d: "BN_div_nonct (\<lambda>_. False) ctx (Some q) (Some r) numerator divisor = Some (True, q1, r1)"
    "quotient_ok (Some q) q1 (bn_int numerator) (bn_int divisor)" unfolding div_result_def by metis
  obtain q' where q': "q1 = Some q'" "bn_int q' = sgn (bn_int numerator) * sgn (bn_int divisor) * (\<bar>bn_int numerator\<bar> div \<bar>bn_int divisor\<bar>)"
    using d(2) by (auto simp: quotient_ok_def split: option.splits)
  have "\<not> BN_ucmp numerator divisor < 0" using BN_ucmp_sgn [OF assms(1,2)] assms(4) by (simp add: sgn_if)
  with BN_div_internal_remainder [OF d(1) [unfolded BN_div_nonct_def]]
  obtain r' where r': "r1 = Some r'" "r' = r \<or> (\<exists>s sh neg. r' = BN_set_negative (snd (BN_rshift (\<lambda>_. False) r s sh)) neg)" by blast
  then have "bn_dmax r' = 0" using assms(8) bn_rshift_no_memory by (auto simp: BN_rshift_def)
  then have z: "bn_mag r' = 0" by (simp add: bn_mag_def bn_dmax_def)
  have "bn_int numerator - bn_int q' * bn_int divisor = sgn (bn_int numerator) * (\<bar>bn_int numerator\<bar> mod \<bar>bn_int divisor\<bar>)"
    using signed_division(1) [OF assms(3) q'(2) refl] by linarith
  also have "\<dots> \<noteq> 0" using assms(10) by (auto simp: bn_mag_abs sgn_if)
  finally show ?thesis using d(1) q'(1) r'(1) z by (auto simp: bn_int_def [of r'])
qed

theorem BN_div_lost_remainder_witness:
  "\<exists>q' r'. BN_div_nonct (\<lambda>_. False) (\<lambda>_. Some bn_temp) (Some bn_temp) (Some (BN_init bn_temp)) (bn_small 17) (bn_small 5) =
     Some (True, Some q', Some r') \<and> bn_mag r' = 0 \<and> 17 \<noteq> bn_int q' * 5 + bn_int r'"
proof -
  note s = bn_small_ok [of 17, simplified] bn_small_ok [of 5, simplified]
  have nz: "bn_int (bn_small 5) \<noteq> 0" and le: "bn_mag (bn_small 5) \<le> bn_mag (bn_small 17)" and m: "bn_mag (bn_small 17) mod bn_mag (bn_small 5) \<noteq> 0"
    using s by (simp_all add: bn_mag_abs)
  have mem: "div_memory (\<lambda>_. False) (\<lambda>_. Some bn_temp) (Some bn_temp) None (bn_small 17) (bn_small 5)" by (rule div_memory_small) simp_all
  have r: "bn_dmax (BN_init bn_temp) = 0" "bn_top (BN_init bn_temp) = 0" by (simp_all add: BN_init_def bn_dmax_def)
  show ?thesis using BN_div_lost_remainder [OF s(1,3) nz le bn_temp_facts(3,1) mem r m] unfolding s(2,4) .
qed

end
