(* ===== verification/BN_Mod.thy ===== *)
theory BN_Mod
  imports BN_Div
begin

text \<open>
  Modular arithmetic (libcrypto/bn/bn_mod.c).  Every function refuses to write its
  result over the modulus: \<open>rm\<close> says that the pointers \<open>r\<close> and \<open>m\<close> are equal.
  \<open>ctx\<close> has the answers of \<open>BN_CTX_get\<close> during the division, \<open>tmp\<close> the one the function
  itself asks for.
\<close>

section \<open>Definitions\<close>

definition BN_mod_ct :: "(nat \<Rightarrow> bool) \<Rightarrow> (nat \<Rightarrow> bignum option) \<Rightarrow> bignum \<Rightarrow> bignum \<Rightarrow> bignum \<Rightarrow> (bool \<times> bignum) option" where
  "BN_mod_ct alloc ctx r a m =
     (case BN_div_ct alloc ctx None (Some r) a m of
        None \<Rightarrow> None
      | Some (ret, _, rem) \<Rightarrow> Some (ret, case rem of None \<Rightarrow> r | Some r' \<Rightarrow> r'))"

definition BN_mod_nonct :: "(nat \<Rightarrow> bool) \<Rightarrow> (nat \<Rightarrow> bignum option) \<Rightarrow> bignum \<Rightarrow> bignum \<Rightarrow> bignum \<Rightarrow> (bool \<times> bignum) option" where
  "BN_mod_nonct alloc ctx r a m =
     (case BN_div_nonct alloc ctx None (Some r) a m of
        None \<Rightarrow> None
      | Some (ret, _, rem) \<Rightarrow> Some (ret, case rem of None \<Rightarrow> r | Some r' \<Rightarrow> r'))"

definition BN_nnmod :: "(nat \<Rightarrow> bool) \<Rightarrow> (nat \<Rightarrow> bignum option) \<Rightarrow> bool \<Rightarrow> bignum \<Rightarrow> bignum \<Rightarrow> bignum \<Rightarrow> (bool \<times> bignum) option" where
  "BN_nnmod alloc ctx rm r a m =
     (if rm then Some (False, r)
      else case BN_mod_ct alloc ctx r a m of
          None \<Rightarrow> None
        | Some (False, r) \<Rightarrow> Some (False, r)
        | Some (True, r) \<Rightarrow> if BN_is_negative r then Some (BN_usub alloc r m r) else Some (True, r))"

definition BN_mod_add :: "(nat \<Rightarrow> bool) \<Rightarrow> (nat \<Rightarrow> bignum option) \<Rightarrow> bool \<Rightarrow> bignum \<Rightarrow> bignum \<Rightarrow> bignum \<Rightarrow> bignum \<Rightarrow> (bool \<times> bignum) option" where
  "BN_mod_add alloc ctx rm r a b m =
     (if rm then Some (False, r)
      else case BN_add alloc r a b of
          (False, r) \<Rightarrow> Some (False, r)
        | (True, r) \<Rightarrow> BN_nnmod alloc ctx rm r r m)"

definition BN_mod_add_quick :: "(nat \<Rightarrow> bool) \<Rightarrow> bool \<Rightarrow> bignum \<Rightarrow> bignum \<Rightarrow> bignum \<Rightarrow> bignum \<Rightarrow> bool \<times> bignum" where
  "BN_mod_add_quick alloc rm r a b m =
     (if rm then (False, r)
      else case BN_uadd alloc r a b of
          (False, r) \<Rightarrow> (False, r)
        | (True, r) \<Rightarrow> if BN_ucmp r m \<ge> 0 then BN_usub alloc r r m else (True, r))"

definition BN_mod_sub :: "(nat \<Rightarrow> bool) \<Rightarrow> (nat \<Rightarrow> bignum option) \<Rightarrow> bool \<Rightarrow> bignum \<Rightarrow> bignum \<Rightarrow> bignum \<Rightarrow> bignum \<Rightarrow> (bool \<times> bignum) option" where
  "BN_mod_sub alloc ctx rm r a b m =
     (if rm then Some (False, r)
      else case BN_sub alloc r a b of
          (False, r) \<Rightarrow> Some (False, r)
        | (True, r) \<Rightarrow> BN_nnmod alloc ctx rm r r m)"

definition BN_mod_sub_quick :: "(nat \<Rightarrow> bool) \<Rightarrow> bool \<Rightarrow> bignum \<Rightarrow> bignum \<Rightarrow> bignum \<Rightarrow> bignum \<Rightarrow> bool \<times> bignum" where
  "BN_mod_sub_quick alloc rm r a b m =
     (if rm then (False, r)
      else if BN_ucmp a b \<ge> 0 then BN_usub alloc r a b
      else case BN_usub alloc r b a of
          (False, r) \<Rightarrow> (False, r)
        | (True, r) \<Rightarrow> BN_usub alloc r m r)"

text \<open>
  \<open>same\<close> says that the result is one of the factors and \<open>ab\<close> that the factors
  are the same number; then the square is computed.
\<close>

definition BN_mod_mul :: "(nat \<Rightarrow> bool) \<Rightarrow> (nat \<Rightarrow> bignum option) \<Rightarrow> bool \<Rightarrow> bool \<Rightarrow> bool \<Rightarrow> bignum option \<Rightarrow> bignum \<Rightarrow> bignum \<Rightarrow> bignum
    \<Rightarrow> bignum \<Rightarrow> (bool \<times> bignum) option" where
  "BN_mod_mul alloc ctx rm same ab tmp r a b m =
     (if rm then Some (False, r)
      else case (if same then tmp else Some r) of
          None \<Rightarrow> Some (False, r)
        | Some rr \<Rightarrow>
           (case (if ab then BN_sqr alloc False None rr a else BN_mul alloc False None rr a b) of
              (False, rr) \<Rightarrow> Some (False, if same then r else rr)
            | (True, rr) \<Rightarrow> BN_nnmod alloc ctx rm (if same then r else rr) rr m))"

definition BN_mod_sqr :: "(nat \<Rightarrow> bool) \<Rightarrow> (nat \<Rightarrow> bignum option) \<Rightarrow> bool \<Rightarrow> bool \<Rightarrow> bignum option \<Rightarrow> bignum \<Rightarrow> bignum
    \<Rightarrow> bignum \<Rightarrow> (bool \<times> bignum) option" where
  "BN_mod_sqr alloc ctx rm same tmp r a m = BN_mod_mul alloc ctx rm same True tmp r a a m"

definition BN_mod_lshift1 :: "(nat \<Rightarrow> bool) \<Rightarrow> (nat \<Rightarrow> bignum option) \<Rightarrow> bool \<Rightarrow> bignum \<Rightarrow> bignum \<Rightarrow> bignum \<Rightarrow> (bool \<times> bignum) option" where
  "BN_mod_lshift1 alloc ctx rm r a m =
     (if rm then Some (False, r)
      else case BN_lshift1 alloc r a of
          (False, r) \<Rightarrow> Some (False, r)
        | (True, r) \<Rightarrow> BN_nnmod alloc ctx rm r r m)"

definition BN_mod_lshift1_quick :: "(nat \<Rightarrow> bool) \<Rightarrow> bool \<Rightarrow> bignum \<Rightarrow> bignum \<Rightarrow> bignum \<Rightarrow> bool \<times> bignum" where
  "BN_mod_lshift1_quick alloc rm r a m =
     (if rm then (False, r)
      else case BN_lshift1 alloc r a of
          (False, r) \<Rightarrow> (False, r)
        | (True, r) \<Rightarrow> if BN_ucmp r m \<ge> 0 then BN_usub alloc r r m else (True, r))"

text \<open>The loop of \<open>BN_mod_lshift_quick\<close> shifts as far as the number of bits of \<open>m\<close> allows.\<close>

function mod_lshift_loop :: "(nat \<Rightarrow> bool) \<Rightarrow> bignum \<Rightarrow> int \<Rightarrow> bignum \<Rightarrow> bool \<times> bignum" where
  "mod_lshift_loop alloc r n m =
     (if n > 0 then
        (let max_shift = BN_num_bits m - BN_num_bits r
         in if max_shift < 0 then (False, r)
            else let max_shift = (if max_shift = 0 then 1 else max_shift);
                     max_shift = (if max_shift > n then n else max_shift)
             in case BN_lshift alloc r r max_shift of
                  (False, r) \<Rightarrow> (False, r)
                | (True, r) \<Rightarrow>
                   (if BN_ucmp r m \<ge> 0 then
                      (case BN_usub alloc r r m of
                         (False, r) \<Rightarrow> (False, r)
                       | (True, r) \<Rightarrow> mod_lshift_loop alloc r (n - max_shift) m)
                    else mod_lshift_loop alloc r (n - max_shift) m))
      else (True, r))"
  by pat_completeness auto
termination by (relation "measure (\<lambda>(alloc, r, n, m). nat n)") (auto split: if_splits)

definition BN_mod_lshift_quick :: "(nat \<Rightarrow> bool) \<Rightarrow> bool \<Rightarrow> bool \<Rightarrow> bignum \<Rightarrow> bignum \<Rightarrow> int \<Rightarrow> bignum \<Rightarrow> bool \<times> bignum" where
  "BN_mod_lshift_quick alloc rm same r a n m =
     (if rm then (False, r)
      else case (if same then (True, r) else BN_copy alloc r a) of
          (False, r) \<Rightarrow> (False, r)
        | (True, r) \<Rightarrow> mod_lshift_loop alloc r n m)"

definition BN_mod_lshift :: "(nat \<Rightarrow> bool) \<Rightarrow> (nat \<Rightarrow> bignum option) \<Rightarrow> bool \<Rightarrow> bignum option \<Rightarrow> bignum \<Rightarrow> bignum \<Rightarrow> int \<Rightarrow> bignum
    \<Rightarrow> (bool \<times> bignum) option" where
  "BN_mod_lshift alloc ctx rm tmp r a n m =
     (if rm then Some (False, r)
      else case BN_nnmod alloc ctx rm r a m of
          None \<Rightarrow> None
        | Some (False, r) \<Rightarrow> Some (False, r)
        | Some (True, r) \<Rightarrow>
           (case (if BN_is_negative m then
                    (case tmp of None \<Rightarrow> (False, m)
                     | Some abs_m \<Rightarrow> (case BN_copy alloc abs_m m of
                          (False, abs_m) \<Rightarrow> (False, m)
                        | (True, abs_m) \<Rightarrow> (True, BN_set_negative abs_m 0)))
                  else (True, m)) of
              (False, m) \<Rightarrow> Some (False, r)
            | (True, m) \<Rightarrow> Some (BN_mod_lshift_quick alloc False True r r n m)))"

section \<open>Memory\<close>

lemma bn_rshift_grows: "bn_grows r (snd (bn_rshift alloc r a n))"
proof -
  define count where "count = bn_top a - nat n div 64"
  obtain ok t where t: "bn_wexpand alloc r (int count) = (ok, t)" by fastforce
  then have g: "bn_grows r t" using bn_grows_wexpand [of r alloc count] by simp
  have "bn_grows r (snd (bn_rshift alloc r a n))" if "\<not> n < 0" "\<not> bn_top a \<le> nat n div 64"
    unfolding bn_rshift_def Let_def count_def [symmetric] t using that g
    by (cases ok) (auto simp: bn_grows_def bn_dmax_def BN_set_negative_def bn_correct_top_def count_def)
  then show ?thesis by (auto simp: bn_rshift_def Let_def)
qed

lemma BN_uadd_grows:
  assumes "bn_fits r" "bn_ok a" "bn_ok b"
  shows "bn_grows r (snd (BN_uadd alloc r a b))"
proof -
  define n where "n = max (bn_top a) (bn_top b)"
  obtain ok t where t: "bn_wexpand alloc r (int (n + 1)) = (ok, t)" by fastforce
  have g: "bn_grows r t" using bn_grows_wexpand [of r alloc "n + 1"] t by simp
  obtain c d where ad: "bn_add (bn_d t) n (bn_d a) (bn_top a) (bn_d b) (bn_top b) = (c, d)" by fastforce
  have "length d = length (bn_d t)" if ok
  proof -
    have "n + 1 \<le> bn_dmax t" using t that by (intro bn_wexpand_ok(2) [OF _ assms(1)]) simp
    then have "max (bn_top a) (bn_top b) \<le> length (bn_d t)" unfolding n_def bn_dmax_def by (rule add_leD1)
    then show ?thesis by (intro wrote_length [OF bn_add_value(1) [OF ad bn_fits_top bn_fits_top]] bn_ok_fits assms)
  qed
  then have "ok \<Longrightarrow> bn_grows r (t\<lparr>bn_d := d[n := c], bn_top := k, bn_neg := 0\<rparr>)" for k
    using g by (simp add: bn_grows_def bn_dmax_def)
  moreover have rn: "(if bn_top a < bn_top b then bn_top b else bn_top a) = n" and "int n + 1 = int (n + 1)" by (simp_all add: n_def)
  ultimately show ?thesis using g t ad unfolding BN_uadd_def Let_def rn by (cases ok) (simp_all add: add.commute split: bool.split)
qed

lemma BN_usub_grows:
  assumes "bn_fits r" "bn_ok a" "bn_ok b"
  shows "bn_grows r (snd (BN_usub alloc r a b))"
proof -
  obtain ok t where t: "bn_wexpand alloc r (int (bn_top a)) = (ok, t)" by fastforce
  have g: "bn_grows r t" using bn_grows_wexpand [of r alloc "bn_top a"] t by simp
  obtain c d where sb: "bn_sub (bn_d t) (bn_top a) (bn_d a) (bn_top a) (bn_d b) (bn_top b) = (c, d)" by fastforce
  have "length d = length (bn_d t)" if ok "bn_top b \<le> bn_top a"
  proof -
    have "bn_top a \<le> bn_dmax t" using t that(1) by (intro bn_wexpand_ok(2) [OF _ assms(1)]) simp
    then have "bn_top a \<le> length (bn_d t)" by (simp add: bn_dmax_def)
    then show ?thesis by (intro wrote_length [OF bn_sub_value(1) [OF sb that(2) bn_fits_top bn_fits_top]] bn_ok_fits assms)
  qed
  then show ?thesis using g t sb unfolding BN_usub_def Let_def
    by (cases ok) (auto simp: bn_grows_def bn_dmax_def bn_correct_top_def)
qed

lemma BN_add_grows: "bn_fits r \<Longrightarrow> bn_ok a \<Longrightarrow> bn_ok b \<Longrightarrow> bn_grows r (snd (BN_add alloc r a b))"
  using BN_uadd_grows [of r a b alloc] BN_usub_grows [of r a b alloc] BN_usub_grows [of r b a alloc]
  by (auto simp: BN_add_def Let_def split: prod.split)

lemma BN_sub_grows: "bn_fits r \<Longrightarrow> bn_ok a \<Longrightarrow> bn_ok b \<Longrightarrow> bn_grows r (snd (BN_sub alloc r a b))"
  using BN_uadd_grows [of r a b alloc] BN_usub_grows [of r a b alloc] BN_usub_grows [of r b a alloc]
  by (auto simp: BN_sub_def Let_def split: prod.split)

section \<open>Remainders\<close>

text \<open>
  What the modular operations promise: they return, deliver the residue of \<open>v\<close> if
  they succeed, and succeed if there is \<open>enough\<close> memory.
\<close>

definition mod_result :: "int \<Rightarrow> int \<Rightarrow> bool \<Rightarrow> (bool \<times> bignum) option \<Rightarrow> bool" where
  "mod_result v m enough x \<longleftrightarrow>
     (\<exists>ret r. x = Some (ret, r) \<and> (ret \<longrightarrow> bn_ok r \<and> bn_int r = v mod \<bar>m\<bar>) \<and> (enough \<longrightarrow> ret))"

lemma mod_result_Some:
  "mod_result v m enough (Some (ret, r)) \<longleftrightarrow> (ret \<longrightarrow> bn_ok r \<and> bn_int r = v mod \<bar>m\<bar>) \<and> (enough \<longrightarrow> ret)"
  by (auto simp: mod_result_def)

lemma BN_mod_ct_ok:
  assumes "bn_ok a" "bn_ok m" "bn_int m \<noteq> 0" "ctx_fits ctx" "bn_fits r" "bn_room alloc (bn_top m + 2) r"
  obtains ret r' where "BN_mod_ct alloc ctx r a m = Some (ret, r')" "ret \<longrightarrow> bn_ok r' \<and> bn_int r' = sgn (bn_int a) * (\<bar>bn_int a\<bar> mod \<bar>bn_int m\<bar>)"
    "bn_grows r r'" "div_memory alloc ctx None (Some r) a m \<longrightarrow> ret"
proof -
  have "div_result alloc ctx None (Some r) a m (BN_div_ct alloc ctx None (Some r) a m)"
    unfolding BN_div_ct_def using assms by (intro BN_div_internal_ok) simp_all
  then obtain ret q1 r1 where d: "BN_div_ct alloc ctx None (Some r) a m = Some (ret, q1, r1)"
    "ret \<longrightarrow> remainder_ok alloc (bn_top m + 2) (Some r) r1 (bn_int a) (bn_int m)"
    "div_memory alloc ctx None (Some r) a m \<longrightarrow> ret" unfolding div_result_def by blast
  from BN_div_internal_remainder [OF d(1) [unfolded BN_div_ct_def]]
  obtain r' where r': "r1 = Some r'" "r' = r \<or> (\<exists>s sh neg. r' = BN_set_negative (snd (BN_rshift alloc r s sh)) neg)" by blast
  have "bn_grows r r'" using r'(2) bn_rshift_grows by (auto simp: BN_rshift_def)
  then show ?thesis using that [of ret r'] d r'(1) assms(6) by (simp add: BN_mod_ct_def remainder_ok_def)
qed

text \<open>The residue of the truncated remainder.\<close>

lemma nonneg_remainder:
  fixes a m :: int
  assumes "m \<noteq> 0" "r = sgn a * (\<bar>a\<bar> mod \<bar>m\<bar>)"
  shows "a mod \<bar>m\<bar> = (if r < 0 then \<bar>m\<bar> - \<bar>r\<bar> else r)" "\<bar>r\<bar> < \<bar>m\<bar>"
proof -
  have rng: "0 \<le> \<bar>a\<bar> mod \<bar>m\<bar>" "\<bar>a\<bar> mod \<bar>m\<bar> < \<bar>m\<bar>" using assms(1) by simp_all
  show "\<bar>r\<bar> < \<bar>m\<bar>" using rng by (auto simp: assms(2) abs_mult sgn_if)
  show "a mod \<bar>m\<bar> = (if r < 0 then \<bar>m\<bar> - \<bar>r\<bar> else r)"
  proof (cases "0 \<le> a")
    case True
    then show ?thesis using rng by (auto simp: assms(2) sgn_if)
  next
    case False
    then have r: "r = - (- a mod \<bar>m\<bar>)" by (simp add: assms(2) sgn_if)
    have "a mod \<bar>m\<bar> = (if - a mod \<bar>m\<bar> = 0 then 0 else \<bar>m\<bar> - (- a mod \<bar>m\<bar>))" using zmod_zminus1_eq_if [of "- a" "\<bar>m\<bar>"] by simp
    then show ?thesis using rng False by (auto simp: r)
  qed
qed

lemma BN_nnmod_ok:
  assumes "bn_ok a" "bn_ok m" "bn_int m \<noteq> 0" "ctx_fits ctx" "bn_fits r" "bn_room alloc (bn_top m + 2) r"
  shows "mod_result (bn_int a) (bn_int m) (div_memory alloc ctx None (Some r) a m) (BN_nnmod alloc ctx False r a m)"
proof -
  obtain ret r' where d: "BN_mod_ct alloc ctx r a m = Some (ret, r')"
    "ret \<longrightarrow> bn_ok r' \<and> bn_int r' = sgn (bn_int a) * (\<bar>bn_int a\<bar> mod \<bar>bn_int m\<bar>)"
    "bn_grows r r'" "div_memory alloc ctx None (Some r) a m \<longrightarrow> ret" by (rule BN_mod_ct_ok [OF assms])
  show ?thesis
  proof (cases "ret \<and> BN_is_negative r'")
    case True
    then have r': "bn_ok r'" "bn_int r' = sgn (bn_int a) * (\<bar>bn_int a\<bar> mod \<bar>bn_int m\<bar>)" using d(2) by simp_all
    note nn = nonneg_remainder [OF assms(3) r'(2)]
    have neg: "bn_int r' < 0" using True bn_ok_neg [OF r'(1)] by (auto simp: BN_is_negative_def split: if_splits)
    obtain ok r2 where u: "BN_usub alloc r' m r' = (ok, r2)" by fastforce
    have le: "bn_mag r' \<le> bn_mag m" using nn(2) by (simp add: bn_mag_abs)
    note U = BN_usub_correct [OF bn_ok_fits [OF r'(1)] assms(2) r'(1) u le]
    have ok using U(1) bn_roomD [OF bn_grows_room [OF d(3) assms(6)], of "bn_top m"] by simp
    then have "bn_ok r2" "bn_int r2 = bn_mag m - bn_mag r'" using U(3) by (simp_all add: bn_int_def [of r2])
    then have "bn_ok r2" "bn_int r2 = bn_int a mod \<bar>bn_int m\<bar>" using nn(1) neg by (simp_all add: bn_mag_abs)
    then show ?thesis using True u d(1) \<open>ok\<close> by (simp add: BN_nnmod_def mod_result_Some)
  next
    case False
    then have "ret \<Longrightarrow> 0 \<le> bn_int r'" using d(2) bn_ok_neg [of r'] by (auto simp: BN_is_negative_def split: if_splits)
    then have "ret \<longrightarrow> bn_ok r' \<and> bn_int r' = bn_int a mod \<bar>bn_int m\<bar>" using d(2) nonneg_remainder(1) [OF assms(3) refl, of "bn_int a"] by auto
    then show ?thesis using False d(1,4) by (cases ret) (simp_all add: BN_nnmod_def mod_result_Some)
  qed
qed

section \<open>Operations with a division\<close>

definition ctx_room :: "(nat \<Rightarrow> bool) \<Rightarrow> (nat \<Rightarrow> bignum option) \<Rightarrow> nat \<Rightarrow> bool" where
  "ctx_room alloc ctx n \<longleftrightarrow> list_all (\<lambda>k. case ctx k of None \<Rightarrow> False | Some t \<Rightarrow> bn_room alloc n t) [0, 1, 2, 3]"

lemma div_memory_room:
  assumes "ctx_room alloc ctx n" "bn_room alloc n r" "bn_top a + bn_top m + 5 \<le> n"
  shows "div_memory alloc ctx None (Some r) a m"
  using assms bn_room_mono [OF _ assms(3), of alloc] unfolding div_memory_def ctx_room_def Let_def by (auto split: option.splits)

text \<open>
  A value of at most \<open>n\<close> words is computed in \<open>rr\<close>, and its residue is left in \<open>r\<close>.
\<close>

lemma nnmod_value:
  assumes "bn_ok rr" "\<bar>bn_int rr\<bar> < 2 ^ (64 * n)" "bn_ok m" "bn_int m \<noteq> 0" "ctx_fits ctx" "bn_fits r"
    and "N = n + bn_top m + 5" "bn_room alloc N r"
  shows "mod_result (bn_int rr) (bn_int m) (ctx_room alloc ctx N) (BN_nnmod alloc ctx False r rr m)"
proof -
  have "bn_top rr \<le> n" using assms(2) by (intro bn_ok_top_le [OF assms(1)]) (simp add: bn_mag_abs)
  then have "bn_top rr + bn_top m + 5 \<le> N" unfolding assms(7) by linarith
  then have "ctx_room alloc ctx N \<Longrightarrow> div_memory alloc ctx None (Some r) rr m" by (intro div_memory_room [OF _ assms(8)])
  moreover have "bn_room alloc (bn_top m + 2) r" using assms(8) by (rule bn_room_mono) (simp add: assms(7))
  ultimately show ?thesis using BN_nnmod_ok [OF assms(1,3-6)] unfolding mod_result_def by blast
qed

lemma nnmod_after:
  assumes "bn_op_ok alloc r n (op r) v" "bn_grows r (snd (op r))" "\<bar>v\<bar> < 2 ^ (64 * n)" "bn_ok m" "bn_int m \<noteq> 0" "ctx_fits ctx"
    and "N = n + bn_top m + 5" "bn_room alloc N r"
  shows "mod_result v (bn_int m) (ctx_room alloc ctx N)
    (case op r of (False, r) \<Rightarrow> Some (False, r) | (True, r) \<Rightarrow> BN_nnmod alloc ctx False r r m)"
proof -
  obtain ok r1 where o: "op r = (ok, r1)" by fastforce
  then have "bn_op_ok alloc r n (ok, r1) v" using assms(1) by simp
  then have r1: "ok \<Longrightarrow> bn_ok r1" "ok \<Longrightarrow> bn_int r1 = v" "(\<forall>k \<le> n. can_expand alloc r k) \<Longrightarrow> ok" by (simp_all add: bn_op_ok_def)
  have ok using r1(3) bn_roomD [OF assms(8)] by (simp add: assms(7))
  have "bn_room alloc N r1" using bn_grows_room [OF assms(2,8)] o by simp
  then have "mod_result (bn_int r1) (bn_int m) (ctx_room alloc ctx N) (BN_nnmod alloc ctx False r1 r1 m)"
    using r1(1,2) \<open>ok\<close> assms(3-7) by (intro nnmod_value bn_ok_fits) simp_all
  then show ?thesis using o r1(2) \<open>ok\<close> by simp
qed

lemma sum_words: "bn_ok a \<Longrightarrow> bn_ok b \<Longrightarrow> bn_mag a + bn_mag b < 2 ^ (64 * (max (bn_top a) (bn_top b) + 1))"
proof -
  assume ok: "bn_ok a" "bn_ok b"
  define n where "n = max (bn_top a) (bn_top b)"
  have up: "bn_mag c < 2 ^ (64 * n)" if "bn_ok c" "bn_top c \<le> n" for c
    using bn_mag_less [OF bn_ok_fits [OF that(1)]] power_increasing [of "64 * bn_top c" "64 * n" "2 :: int"] that(2) by linarith
  have "bn_mag a + bn_mag b < 2 ^ (64 * n + 1)" using up [OF ok(1)] up [OF ok(2)] by (simp add: n_def)
  also have "\<dots> \<le> 2 ^ (64 * (n + 1))" by (intro power_increasing) simp_all
  finally show ?thesis by (simp add: n_def)
qed

lemma BN_mod_add_ok:
  assumes "bn_fits r" "bn_ok a" "bn_ok b" "bn_ok m" "bn_int m \<noteq> 0" "ctx_fits ctx"
    and "bn_room alloc (max (bn_top a) (bn_top b) + bn_top m + 6) r"
  shows "mod_result (bn_int a + bn_int b) (bn_int m) (ctx_room alloc ctx (max (bn_top a) (bn_top b) + bn_top m + 6)) (BN_mod_add alloc ctx False r a b m)"
proof -
  define n where "n = max (bn_top a) (bn_top b) + 1"
  have "\<bar>bn_int a + bn_int b\<bar> < 2 ^ (64 * n)" using sum_words [OF assms(2,3)] by (simp add: bn_mag_abs n_def)
  from nnmod_after [where op = "\<lambda>r. BN_add alloc r a b", OF BN_add_ok [OF assms(1-3), folded n_def] BN_add_grows [OF assms(1-3)] this assms(4-6) _ assms(7)]
  show ?thesis by (simp add: BN_mod_add_def n_def)
qed

lemma BN_mod_sub_ok:
  assumes "bn_fits r" "bn_ok a" "bn_ok b" "bn_ok m" "bn_int m \<noteq> 0" "ctx_fits ctx"
    and "bn_room alloc (max (bn_top a) (bn_top b) + bn_top m + 6) r"
  shows "mod_result (bn_int a - bn_int b) (bn_int m) (ctx_room alloc ctx (max (bn_top a) (bn_top b) + bn_top m + 6)) (BN_mod_sub alloc ctx False r a b m)"
proof -
  define n where "n = max (bn_top a) (bn_top b) + 1"
  have "\<bar>bn_int a - bn_int b\<bar> < 2 ^ (64 * n)" using sum_words [OF assms(2,3)] by (simp add: bn_mag_abs n_def)
  from nnmod_after [where op = "\<lambda>r. BN_sub alloc r a b", OF BN_sub_ok [OF assms(1-3), folded n_def] BN_sub_grows [OF assms(1-3)] this assms(4-6) _ assms(7)]
  show ?thesis by (simp add: BN_mod_sub_def n_def)
qed

lemma BN_mod_lshift1_ok:
  assumes "bn_fits r" "bn_ok a" "bn_ok m" "bn_int m \<noteq> 0" "ctx_fits ctx" "bn_room alloc (bn_top a + bn_top m + 6) r"
  shows "mod_result (2 * bn_int a) (bn_int m) (ctx_room alloc ctx (bn_top a + bn_top m + 6)) (BN_mod_lshift1 alloc ctx False r a m)"
proof -
  define n where "n = bn_top a + 1"
  have "\<bar>2 * bn_int a\<bar> < 2 ^ (64 * n)" using sum_words [OF assms(2,2)] by (simp add: bn_mag_abs n_def)
  moreover have "bn_op_ok alloc r n (BN_lshift1 alloc r a) (2 * bn_int a)"
    using bn_lshift_ok [OF assms(1,2), of 1 alloc] by (simp add: BN_lshift1_def n_def mult.commute)
  moreover have "bn_grows r (snd (BN_lshift1 alloc r a))" by (simp add: BN_lshift1_def bn_lshift_grows)
  ultimately show ?thesis
    using nnmod_after [where op = "\<lambda>r. BN_lshift1 alloc r a" and n = n, OF _ _ _ assms(3-5) _ assms(6)] by (simp add: BN_mod_lshift1_def n_def)
qed

section \<open>Products\<close>

lemma BN_mul_grows:
  assumes "bn_fits r" "bn_ok a" "bn_ok b"
  shows "bn_grows r (snd (BN_mul alloc False None r a b))"
proof (cases "BN_is_zero a \<or> BN_is_zero b")
  case False
  note fa = bn_ok_fits [OF assms(2)] and fb = bn_ok_fits [OF assms(3)]
  define n where "n = bn_top a + bn_top b"
  have pos: "0 < bn_top a" "0 < bn_top b" using False bn_ok_mag_0 [OF assms(2)] bn_ok_mag_0 [OF assms(3)] by (auto simp: BN_is_zero_iff fa fb)
  obtain ok t where t: "bn_wexpand alloc r (int n) = (ok, t)" by fastforce
  have g: "bn_grows r t" using bn_grows_wexpand [of r alloc n] t by simp
  have "length (bn_d (mul_words_array t a b)) = length (bn_d t)" if ok
  proof -
    have "n \<le> bn_dmax t" using t that by (intro bn_wexpand_ok(2) [OF _ assms(1)]) simp
    then have len: "bn_top a + bn_top b \<le> length (bn_d t)" by (simp add: n_def bn_dmax_def)
    show ?thesis
      using bn_mul_comba4_value(1) [of "bn_d a" "bn_d b" "bn_d t"] bn_mul_comba8_value(1) [of "bn_d a" "bn_d b" "bn_d t"]
        bn_mul_normal_value(1) [OF bn_fits_top [OF fa] bn_fits_top [OF fb] len pos] bn_fits_top [OF fa] bn_fits_top [OF fb] len
      by (auto simp: mul_words_array_def bn_mul_def)
  qed
  moreover have "bn_flags (mul_words_array t a b) = bn_flags t" by (simp add: mul_words_array_def bn_mul_def)
  ultimately have "ok \<Longrightarrow> bn_grows r (mul_words_array t a b)" using g by (simp add: bn_grows_def bn_dmax_def)
  then show ?thesis using False t g unfolding BN_mul_def Let_def n_def [symmetric] mul_words_array_def
    by (cases ok) simp_all
qed (simp add: BN_mul_def)

lemma BN_sqr_grows:
  assumes "bn_fits r" "bn_ok a"
  shows "bn_grows r (snd (BN_sqr alloc False None r a))"
proof (cases "bn_top a < 1")
  case False
  note fa = bn_ok_fits [OF assms(2)]
  define n where "n = bn_top a * 2"
  obtain ok t where t: "bn_wexpand alloc r (int n) = (ok, t)" by fastforce
  have g: "bn_grows r t" using bn_grows_wexpand [of r alloc n] t by simp
  have "length (bn_d (sqr_array t a)) = length (bn_d t)" if ok
  proof -
    have "n \<le> bn_dmax t" using t that by (intro bn_wexpand_ok(2) [OF _ assms(1)]) simp
    then have len: "bn_top a * 2 \<le> length (bn_d t)" by (simp add: n_def bn_dmax_def)
    show ?thesis
      using bn_sqr_comba4_value(1) [of "bn_d a" "bn_d t"] bn_sqr_comba8_value(1) [of "bn_d a" "bn_d t"]
        bn_sqr_normal_value(1) [OF bn_fits_top [OF fa], of "bn_d t"] bn_fits_top [OF fa] len False
      by (auto simp: sqr_array_def bn_sqr_def mult.commute)
  qed
  moreover have "bn_flags (sqr_array t a) = bn_flags t" by (simp add: sqr_array_def bn_sqr_def)
  ultimately have "ok \<Longrightarrow> bn_grows r (sqr_array t a)" using g by (simp add: bn_grows_def bn_dmax_def)
  then show ?thesis using False t g unfolding BN_sqr_def Let_def n_def [symmetric] sqr_array_def
    by (cases ok) simp_all
qed (simp add: BN_sqr_def)

lemma product_words: "bn_ok a \<Longrightarrow> bn_ok b \<Longrightarrow> \<bar>bn_int a * bn_int b\<bar> < 2 ^ (64 * (bn_top a + bn_top b))"
  using mult_strict_mono' [OF bn_mag_less [OF bn_ok_fits, of a] bn_mag_less [OF bn_ok_fits, of b]]
  by (simp add: bn_mag_abs abs_mult power_add distrib_left)

text \<open>The product of two numbers, or the square of one, in a number with room for it.\<close>

lemma product_step:
  assumes "bn_fits rr" "bn_ok a" "bn_ok b" "ab \<Longrightarrow> a = b" "bn_room alloc (bn_top a + bn_top b) rr"
  obtains rr' where "(if ab then BN_sqr alloc False None rr a else BN_mul alloc False None rr a b) = (True, rr')"
    "bn_ok rr'" "bn_int rr' = bn_int a * bn_int b" "bn_grows rr rr'"
proof -
  define x where "x = (if ab then BN_sqr alloc False None rr a else BN_mul alloc False None rr a b)"
  obtain ok rr' where x': "x = (ok, rr')" by fastforce
  have room: "can_expand alloc rr (bn_top a + bn_top b)" using bn_roomD [OF assms(5)] by simp
  have g: "bn_grows rr rr'" using BN_sqr_grows [OF assms(1,2), of alloc] BN_mul_grows [OF assms(1-3), of alloc] x' by (auto simp: x_def split: if_splits)
  have "ok \<and> bn_ok rr' \<and> bn_int rr' = bn_int a * bn_int b"
  proof (cases ab)
    case True
    then have sq: "BN_sqr alloc False None rr a = (ok, rr')" using x' by (simp add: x_def)
    have "sqr_room alloc False None rr a" using room assms(4) [OF True] by (simp add: sqr_room_def mult_2_right)
    then show ?thesis using BN_sqr_ok(1,3) [OF assms(1,2) _ sq] assms(4) [OF True] by simp
  next
    case False
    then have mu: "BN_mul alloc False None rr a b = (ok, rr')" using x' by (simp add: x_def)
    show ?thesis using BN_mul_ok(1,3) [OF assms(1-3) _ mu] room by simp
  qed
  then show ?thesis using that g x' by (simp add: x_def)
qed

lemma BN_mod_mul_ok:
  assumes "bn_fits r" "bn_ok a" "bn_ok b" "bn_ok m" "bn_int m \<noteq> 0" "ctx_fits ctx" "ab \<Longrightarrow> a = b"
    and "same \<Longrightarrow> pred_option (\<lambda>t. bn_fits t \<and> bn_room alloc N t) tmp"
    and "N = bn_top a + bn_top b + bn_top m + 5" "bn_room alloc N r"
  shows "mod_result (bn_int a * bn_int b) (bn_int m) (ctx_room alloc ctx N \<and> (same \<longrightarrow> tmp \<noteq> None)) (BN_mod_mul alloc ctx False same ab tmp r a b m)"
proof (cases "if same then tmp else Some r")
  case None
  then have "same" "tmp = None" by (auto split: if_splits)
  then show ?thesis by (simp add: BN_mod_mul_def mod_result_Some)
next
  case (Some rr)
  have rr: "bn_fits rr" "bn_room alloc N rr" using Some assms(1,8,10) by (auto split: if_splits)
  have "bn_room alloc (bn_top a + bn_top b) rr" using rr(2) by (rule bn_room_mono) (simp add: assms(9))
  from product_step [OF rr(1) assms(2,3,7) this]
  obtain rr' where p: "(if ab then BN_sqr alloc False None rr a else BN_mul alloc False None rr a b) = (True, rr')"
    "bn_ok rr'" "bn_int rr' = bn_int a * bn_int b" "bn_grows rr rr'" by blast
  define r1 where "r1 = (if same then r else rr')"
  have "bn_fits r1" "bn_room alloc N r1" using assms(1,10) bn_ok_fits [OF p(2)] bn_grows_room [OF p(4) rr(2)] by (simp_all add: r1_def)
  moreover have "\<bar>bn_int rr'\<bar> < 2 ^ (64 * (bn_top a + bn_top b))" using product_words [OF assms(2,3)] p(3) by simp
  ultimately have "mod_result (bn_int rr') (bn_int m) (ctx_room alloc ctx N) (BN_nnmod alloc ctx False r1 rr' m)"
    using p(2) assms(4-6,9) by (intro nnmod_value)
  moreover have "BN_mod_mul alloc ctx False same ab tmp r a b m = BN_nnmod alloc ctx False r1 rr' m"
    unfolding BN_mod_mul_def if_False Some option.case p(1) r1_def by simp
  ultimately show ?thesis unfolding p(3) mod_result_def by auto
qed

section \<open>Operations on reduced numbers\<close>

text \<open>Numbers below the modulus.\<close>

definition reduced :: "bignum \<Rightarrow> bignum \<Rightarrow> bool" where
  "reduced a m \<longleftrightarrow> bn_ok a \<and> 0 \<le> bn_int a \<and> bn_int a < \<bar>bn_int m\<bar>"

lemma reduced_mag: "reduced a m \<Longrightarrow> bn_mag a = bn_int a"
  by (simp add: reduced_def bn_mag_abs)

lemma reduced_top: "reduced a m \<Longrightarrow> bn_ok m \<Longrightarrow> bn_top a \<le> bn_top m"
  using bn_ok_top_less [of m a] by (force simp: reduced_def bn_mag_abs not_le [symmetric])

lemma subtract_once:
  fixes v m :: int
  assumes "0 \<le> v" "v < 2 * \<bar>m\<bar>"
  shows "v mod \<bar>m\<bar> = (if \<bar>m\<bar> \<le> v then v - \<bar>m\<bar> else v)"
proof (cases "\<bar>m\<bar> \<le> v")
  case True
  have "v mod \<bar>m\<bar> = (v - \<bar>m\<bar>) mod \<bar>m\<bar>" by simp
  also have "\<dots> = v - \<bar>m\<bar>" using assms True by (intro mod_pos_pos_trivial) simp_all
  finally show ?thesis using True by simp
qed (use assms in simp)

text \<open>The single conditional subtraction.\<close>

lemma reduce_once:
  assumes "bn_ok r" "bn_neg r = 0" "bn_ok m" "bn_int r < 2 * \<bar>bn_int m\<bar>"
    and "(if BN_ucmp r m \<ge> 0 then BN_usub alloc r r m else (True, r)) = (ret, r')"
  shows "ret" "bn_ok r'" "bn_neg r' = 0" "bn_int r' = bn_int r mod \<bar>bn_int m\<bar>" "bn_grows r r'"
proof -
  have v: "bn_int r = bn_mag r" "0 \<le> bn_int r" using assms(2) by (simp_all add: bn_int_def)
  have cmp: "BN_ucmp r m \<ge> 0 \<longleftrightarrow> bn_mag m \<le> bn_mag r" using BN_ucmp_sgn [OF assms(1,3)] by (simp add: sgn_if)
  have mm: "\<bar>bn_int m\<bar> = bn_mag m" by (simp add: bn_mag_abs)
  note so = subtract_once [OF v(2) assms(4), unfolded mm]
  have "ret \<and> bn_ok r' \<and> bn_neg r' = 0 \<and> bn_int r' = bn_int r mod \<bar>bn_int m\<bar> \<and> bn_grows r r'"
  proof (cases "bn_mag m \<le> bn_mag r")
    case True
    then have u: "BN_usub alloc r r m = (ret, r')" using assms(5) cmp by simp
    note U = BN_usub_correct [OF bn_ok_fits [OF assms(1)] assms(1,3) u True]
    have ret using U(1) bn_ok_fits [OF assms(1)] by (simp add: can_expand_def bn_fits_def)
    then have "bn_ok r'" "bn_neg r' = 0" "bn_int r' = bn_mag r - bn_mag m" using U(3) by (simp_all add: bn_int_def [of r'])
    moreover have "bn_grows r r'" using BN_usub_grows [OF bn_ok_fits [OF assms(1)] assms(1,3), of alloc] u by simp
    ultimately show ?thesis using True so \<open>ret\<close> unfolding mm v(1) by simp
  next
    case False
    then have "ret" "r' = r" using assms(5) cmp by simp_all
    then show ?thesis using False so assms(1,2) unfolding mm v(1) by (simp add: v(1))
  qed
  then show "ret" "bn_ok r'" "bn_neg r' = 0" "bn_int r' = bn_int r mod \<bar>bn_int m\<bar>" "bn_grows r r'" by simp_all
qed

lemma BN_mod_add_quick_ok:
  assumes "bn_fits r" "reduced a m" "reduced b m" "bn_ok m" "BN_mod_add_quick alloc False r a b m = (ret, r')"
  shows "ret \<longleftrightarrow> can_expand alloc r (max (bn_top a) (bn_top b) + 1)" "ret \<Longrightarrow> bn_ok r' \<and> bn_int r' = (bn_int a + bn_int b) mod \<bar>bn_int m\<bar>"
proof -
  have ab: "bn_ok a" "bn_ok b" using assms(2,3) by (simp_all add: reduced_def)
  obtain ok r1 where u: "BN_uadd alloc r a b = (ok, r1)" by fastforce
  note U = BN_uadd_correct [OF assms(1) ab u]
  obtain ret2 r2 where o: "(if BN_ucmp r1 m \<ge> 0 then BN_usub alloc r1 r1 m else (True, r1)) = (ret2, r2)" by fastforce
  have d: "(ret, r') = (if ok then (ret2, r2) else (False, r1))" using assms(5) u o by (cases ok) (simp_all add: BN_mod_add_quick_def)
  have i: "bn_int r1 = bn_int a + bn_int b" if ok using U(3) [OF that] reduced_mag [OF assms(2)] reduced_mag [OF assms(3)] by (simp add: bn_int_def [of r1])
  have "bn_int r1 < 2 * \<bar>bn_int m\<bar>" if ok using i [OF that] assms(2,3) by (simp add: reduced_def)
  note R = reduce_once [OF _ _ assms(4) this o]
  show "ret \<longleftrightarrow> can_expand alloc r (max (bn_top a) (bn_top b) + 1)" using U(1,3) R(1) d by (auto split: if_splits)
  show "bn_ok r' \<and> bn_int r' = (bn_int a + bn_int b) mod \<bar>bn_int m\<bar>" if ret
    using U(3) R(2,4) d that i by (auto split: if_splits)
qed

lemma BN_mod_lshift1_quick_ok:
  assumes "bn_fits r" "reduced a m" "bn_ok m" "BN_mod_lshift1_quick alloc False r a m = (ret, r')"
  shows "ret \<Longrightarrow> bn_ok r' \<and> bn_int r' = (2 * bn_int a) mod \<bar>bn_int m\<bar>" "bn_room alloc (bn_top a + 1) r \<Longrightarrow> ret"
proof -
  have a: "bn_ok a" "0 \<le> bn_int a" "bn_int a < \<bar>bn_int m\<bar>" using assms(2) by (simp_all add: reduced_def)
  obtain ok r1 where u: "BN_lshift1 alloc r a = (ok, r1)" by fastforce
  have op: "bn_op_ok alloc r (bn_top a + 1) (ok, r1) (bn_int a * 2)" using bn_lshift_ok [OF assms(1) a(1), of 1 alloc] u by (simp add: BN_lshift1_def)
  obtain ret2 r2 where o: "(if BN_ucmp r1 m \<ge> 0 then BN_usub alloc r1 r1 m else (True, r1)) = (ret2, r2)" by fastforce
  have d: "(ret, r') = (if ok then (ret2, r2) else (False, r1))" using assms(4) u o by (cases ok) (simp_all add: BN_mod_lshift1_quick_def)
  have r1: "bn_ok r1" "bn_int r1 = bn_int a * 2" if ok using op that by (simp_all add: bn_op_ok_def)
  have "bn_neg r1 = 0" "bn_int r1 < 2 * \<bar>bn_int m\<bar>" if ok using r1 [OF that] bn_ok_neg [of r1] a(2,3) by simp_all
  note R = reduce_once [OF r1(1) this(1) assms(3) this(2) o]
  show "bn_ok r' \<and> bn_int r' = (2 * bn_int a) mod \<bar>bn_int m\<bar>" if ret using R(2,4) d that r1(2) by (auto simp: mult.commute split: if_splits)
  show ret if "bn_room alloc (bn_top a + 1) r" using that R(1) d op by (auto simp: bn_op_ok_def bn_room_def split: if_splits)
qed

lemma BN_mod_sub_quick_ok:
  assumes "bn_fits r" "reduced a m" "reduced b m" "bn_ok m" "BN_mod_sub_quick alloc False r a b m = (ret, r')"
  shows "ret \<Longrightarrow> bn_ok r' \<and> bn_int r' = (bn_int a - bn_int b) mod \<bar>bn_int m\<bar>" "bn_room alloc (bn_top m) r \<Longrightarrow> ret"
proof -
  have ab: "bn_ok a" "bn_ok b" "0 \<le> bn_int a" "0 \<le> bn_int b" "bn_int a < \<bar>bn_int m\<bar>" "bn_int b < \<bar>bn_int m\<bar>"
    using assms(2,3) by (simp_all add: reduced_def)
  note mag = reduced_mag [OF assms(2)] reduced_mag [OF assms(3)]
  have cmp: "BN_ucmp a b \<ge> 0 \<longleftrightarrow> bn_int b \<le> bn_int a" using BN_ucmp_sgn [OF ab(1,2)] mag by (simp add: sgn_if)
  have top: "bn_top a \<le> bn_top m" "bn_top b \<le> bn_top m" using reduced_top [OF _ assms(4)] assms(2,3) by simp_all
  have "(ret \<longrightarrow> bn_ok r' \<and> bn_int r' = (bn_int a - bn_int b) mod \<bar>bn_int m\<bar>) \<and> (bn_room alloc (bn_top m) r \<longrightarrow> ret)"
  proof (cases "bn_int b \<le> bn_int a")
    case True
    then have u: "BN_usub alloc r a b = (ret, r')" using assms(5) cmp by (simp add: BN_mod_sub_quick_def)
    have le: "bn_mag b \<le> bn_mag a" using True mag by simp
    note U = BN_usub_correct [OF assms(1) ab(1,2) u le]
    have "(bn_int a - bn_int b) mod \<bar>bn_int m\<bar> = bn_int a - bn_int b" using ab True by (intro mod_pos_pos_trivial) simp_all
    then show ?thesis using U mag bn_roomD [of alloc "bn_top m" r "bn_top a"] top by (auto simp: bn_int_def [of r'])
  next
    case False
    obtain ok r1 where u: "BN_usub alloc r b a = (ok, r1)" by fastforce
    have le: "bn_mag a \<le> bn_mag b" using False mag by simp
    note U = BN_usub_correct [OF assms(1) ab(2,1) u le]
    have d: "(ret, r') = (if ok then BN_usub alloc r1 m r1 else (False, r1))" using assms(5) cmp False u by (cases ok) (simp_all add: BN_mod_sub_quick_def)
    show ?thesis
    proof (cases ok)
      case True
      then have r1: "bn_ok r1" "bn_mag r1 = bn_int b - bn_int a" using U(3) mag by simp_all
      have u2: "BN_usub alloc r1 m r1 = (ret, r')" using d True by simp
      have le2: "bn_mag r1 \<le> bn_mag m" using r1(2) ab by (simp add: bn_mag_abs [of m])
      note V = BN_usub_correct [OF bn_ok_fits [OF r1(1)] assms(4) r1(1) u2 le2]
      have "(bn_int a - bn_int b) mod \<bar>bn_int m\<bar> = (bn_int a - bn_int b + \<bar>bn_int m\<bar>) mod \<bar>bn_int m\<bar>" by simp
      also have "\<dots> = bn_int a - bn_int b + \<bar>bn_int m\<bar>" using ab False by (intro mod_pos_pos_trivial) simp_all
      finally have v: "(bn_int a - bn_int b) mod \<bar>bn_int m\<bar> = bn_mag m - bn_mag r1" using r1(2) by (simp add: bn_mag_abs [of m])
      have "bn_grows r r1" using BN_usub_grows [OF assms(1) ab(2,1), of alloc] u by simp
      then have "bn_room alloc (bn_top m) r \<longrightarrow> ret" using V(1) bn_grows_room bn_roomD by blast
      then show ?thesis using V(3) v by (auto simp: bn_int_def [of r'])
    next
      case no: False
      then show ?thesis using d U(1) bn_roomD [of alloc "bn_top m" r "bn_top b"] top by auto
    qed
  qed
  then show "ret \<Longrightarrow> bn_ok r' \<and> bn_int r' = (bn_int a - bn_int b) mod \<bar>bn_int m\<bar>" "bn_room alloc (bn_top m) r \<Longrightarrow> ret" by simp_all
qed

section \<open>Shifting modulo a number\<close>

lemma BN_num_bits_zero: "bn_ok b \<Longrightarrow> bn_int b = 0 \<Longrightarrow> BN_num_bits b = 0"
  by (simp add: BN_num_bits_eq bn_ok_int_0)

lemma BN_num_bits_nonneg: "bn_ok b \<Longrightarrow> 0 \<le> BN_num_bits b"
  by (simp add: BN_num_bits_eq)

lemma BN_num_bits_top: "bn_ok b \<Longrightarrow> BN_num_bits b \<le> 64 * int (bn_top b)"
proof (cases "bn_int b = 0")
  case False
  assume ok: "bn_ok b"
  note bb = BN_num_bits_bounds [OF ok False]
  have "(2 :: int) ^ nat (BN_num_bits b - 1) < 2 ^ (64 * bn_top b)" using bb(2) bn_mag_less [OF bn_ok_fits [OF ok]] by linarith
  then have "nat (BN_num_bits b - 1) < 64 * bn_top b" by (rule power_less_imp_less_exp [rotated]) simp
  then show ?thesis by linarith
qed (simp add: BN_num_bits_zero)

text \<open>A shift that keeps the bits of a reduced number within those of the modulus.\<close>

lemma shift_bound:
  assumes "reduced r m" "bn_ok m" "0 < k" "k \<le> BN_num_bits m - BN_num_bits r \<or> k = 1"
  shows "bn_int r * 2 ^ nat k < 2 * \<bar>bn_int m\<bar>"
proof -
  have r: "bn_ok r" "0 \<le> bn_int r" "bn_int r < \<bar>bn_int m\<bar>" using assms(1) by (simp_all add: reduced_def)
  have mz: "bn_int m \<noteq> 0" using r by auto
  consider "k = 1" | "bn_int r = 0" | "k \<le> BN_num_bits m - BN_num_bits r" "bn_int r \<noteq> 0" using assms(4) by blast
  then show ?thesis
  proof cases
    case 3
    note br = BN_num_bits_bounds [OF r(1) 3(2)] and bm = BN_num_bits_bounds [OF assms(2) mz]
    have e: "nat (BN_num_bits r) + nat k \<le> Suc (nat (BN_num_bits m - 1))" using 3(1) br(1) assms(3) by linarith
    have "bn_int r * 2 ^ nat k < 2 ^ nat (BN_num_bits r) * 2 ^ nat k" using br(3) r(2) by (simp add: bn_mag_abs)
    also have "\<dots> \<le> 2 ^ Suc (nat (BN_num_bits m - 1))" unfolding power_add [symmetric] using e by (intro power_increasing) simp_all
    also have "\<dots> \<le> 2 * \<bar>bn_int m\<bar>" using bm(2) by (simp add: bn_mag_abs)
    finally show ?thesis .
  qed (use r mz in simp_all)
qed

lemma num_bits_mono:
  assumes "reduced r m" "bn_ok m"
  shows "BN_num_bits r \<le> BN_num_bits m"
proof (cases "bn_int r = 0")
  case False
  have r: "bn_ok r" "0 \<le> bn_int r" "bn_int r < \<bar>bn_int m\<bar>" using assms(1) by (simp_all add: reduced_def)
  then have mz: "bn_int m \<noteq> 0" by auto
  note br = BN_num_bits_bounds [OF r(1) False] and bm = BN_num_bits_bounds [OF assms(2) mz]
  have "(2 :: int) ^ nat (BN_num_bits r - 1) < 2 ^ nat (BN_num_bits m)" using br(2) bm(3) r unfolding bn_mag_abs by linarith
  then have "nat (BN_num_bits r - 1) < nat (BN_num_bits m)" by (rule power_less_imp_less_exp [rotated]) simp
  then show ?thesis by linarith
qed (use assms BN_num_bits_zero [of r] BN_num_bits_eq [of m] in \<open>auto simp: reduced_def\<close>)

text \<open>One round of the loop: the shift, and the subtraction if it is needed.\<close>

lemma lshift_round:
  assumes "reduced r m" "bn_ok m" "0 < k" "k \<le> BN_num_bits m - BN_num_bits r \<or> k = 1" "BN_lshift alloc r r k = (ok, r1)"
    and "(if BN_ucmp r1 m \<ge> 0 then BN_usub alloc r1 r1 m else (True, r1)) = (ok2, r2)"
  shows "ok \<Longrightarrow> ok2 \<and> reduced r2 m \<and> bn_int r2 = (bn_int r * 2 ^ nat k) mod \<bar>bn_int m\<bar> \<and> bn_grows r r2"
    "bn_room alloc (2 * bn_top m + 2) r \<Longrightarrow> ok"
proof -
  have r: "bn_ok r" "0 \<le> bn_int r" "bn_int r < \<bar>bn_int m\<bar>" using assms(1) by (simp_all add: reduced_def)
  have op: "bn_op_ok alloc r (bn_top r + nat k div 64 + 1) (ok, r1) (bn_int r * 2 ^ nat k)"
    using bn_lshift_ok [OF bn_ok_fits [OF r(1)] r(1), of k alloc] assms(3,5) by (simp add: BN_lshift_def)
  show "ok2 \<and> reduced r2 m \<and> bn_int r2 = (bn_int r * 2 ^ nat k) mod \<bar>bn_int m\<bar> \<and> bn_grows r r2" if ok
  proof -
    have r1: "bn_ok r1" "bn_int r1 = bn_int r * 2 ^ nat k" using op that by (simp_all add: bn_op_ok_def)
    have "bn_neg r1 = 0" "bn_int r1 < 2 * \<bar>bn_int m\<bar>" using bn_ok_neg [OF r1(1)] r1(2) r(2) shift_bound [OF assms(1-4)] by (simp_all add: not_less)
    note R = reduce_once [OF r1(1) this(1) assms(2) this(2) assms(6)]
    have "bn_grows r r1" using bn_lshift_grows [of r alloc r k] assms(5) by (simp add: BN_lshift_def)
    moreover have "reduced r2 m" using R(2,4) r(2,3) by (simp add: reduced_def)
    ultimately show ?thesis using R r1(2) bn_grows_trans by simp
  qed
  have "k \<le> 64 * int (bn_top m) \<or> k = 1" using assms(4) BN_num_bits_top [OF assms(2)] BN_num_bits_nonneg [OF r(1)] by linarith
  then have "nat k div 64 \<le> bn_top m" by (auto simp: less_eq_div_iff_mult_less_eq div_le_mono nat_le_iff)
  then have "bn_top r + nat k div 64 + 1 \<le> 2 * bn_top m + 2" using reduced_top [OF assms(1,2)] by simp
  then show ok if "bn_room alloc (2 * bn_top m + 2) r" using op bn_roomD [OF that] by (auto simp: bn_op_ok_def)
qed

lemma mod_lshift_loop_ok:
  assumes "reduced r m" "bn_ok m" "mod_lshift_loop alloc r n m = (ret, r')"
  shows "(ret \<longrightarrow> reduced r' m \<and> bn_int r' = (bn_int r * 2 ^ nat n) mod \<bar>bn_int m\<bar>) \<and> (bn_room alloc (2 * bn_top m + 2) r \<longrightarrow> ret)"
  using assms
proof (induction "nat n" arbitrary: r n rule: less_induct)
  case less
  show ?case
  proof (cases "n > 0")
    case False
    then show ?thesis using less.prems by (simp add: mod_lshift_loop.simps [of alloc r n] reduced_def)
  next
    case True
    define s where "s = BN_num_bits m - BN_num_bits r"
    define k where "k = (if (if s = 0 then 1 else s) > n then n else if s = 0 then 1 else s)"
    have s: "\<not> s < 0" using num_bits_mono [OF less.prems(1,2)] by (simp add: s_def)
    have k: "0 < k" "k \<le> n" "k \<le> s \<or> k = 1" using s True by (auto simp: k_def)
    obtain ok r1 where l: "BN_lshift alloc r r k = (ok, r1)" by fastforce
    obtain ok2 r2 where o: "(if BN_ucmp r1 m \<ge> 0 then BN_usub alloc r1 r1 m else (True, r1)) = (ok2, r2)" by fastforce
    note R = lshift_round [OF less.prems(1,2) k(1) k(3) [unfolded s_def] l o]
    have eq: "mod_lshift_loop alloc r n m = (if \<not> ok then (False, r1) else if \<not> ok2 then (False, r2) else mod_lshift_loop alloc r2 (n - k) m)"
      using True s l o unfolding mod_lshift_loop.simps [of alloc r n] Let_def s_def [symmetric] k_def [symmetric]
      by (cases ok; cases ok2) (auto split: if_splits)
    show ?thesis
    proof (cases ok)
      case ok: True
      then have r2: "ok2" "reduced r2 m" "bn_int r2 = (bn_int r * 2 ^ nat k) mod \<bar>bn_int m\<bar>" "bn_grows r r2" using R(1) by simp_all
      have "nat (n - k) < nat n" using k(1,2) by simp
      moreover have "mod_lshift_loop alloc r2 (n - k) m = (ret, r')" using less.prems(3) eq ok r2(1) by simp
      ultimately have IH: "(ret \<longrightarrow> reduced r' m \<and> bn_int r' = (bn_int r2 * 2 ^ nat (n - k)) mod \<bar>bn_int m\<bar>) \<and> (bn_room alloc (2 * bn_top m + 2) r2 \<longrightarrow> ret)"
        using less.hyps r2(2) less.prems(2) by blast
      have "nat n = nat k + nat (n - k)" using k by simp
      then have "bn_int r * 2 ^ nat n = bn_int r * 2 ^ nat k * 2 ^ nat (n - k)" by (simp only: power_add mult.assoc)
      then have "(bn_int r2 * 2 ^ nat (n - k)) mod \<bar>bn_int m\<bar> = (bn_int r * 2 ^ nat n) mod \<bar>bn_int m\<bar>" unfolding r2(3) by (simp only: mod_mult_left_eq)
      then show ?thesis using IH bn_grows_room [OF r2(4)] by auto
    qed (use R(2) eq less.prems(3) in auto)
  qed
qed

lemma BN_mod_lshift_ok:
  assumes "bn_fits r" "bn_ok a" "bn_ok m" "bn_int m \<noteq> 0" "ctx_fits ctx" "bn_room alloc (bn_top m + 2) r" "pred_option bn_fits tmp"
    and "BN_mod_lshift alloc ctx False tmp r a n m = x"
  shows "\<exists>ret r'. x = Some (ret, r') \<and> (ret \<longrightarrow> bn_ok r' \<and> bn_int r' = (bn_int a * 2 ^ nat n) mod \<bar>bn_int m\<bar>)"
proof -
  from BN_nnmod_ok [OF assms(2-5,1,6)]
  obtain ret1 r1 where d: "BN_nnmod alloc ctx False r a m = Some (ret1, r1)" "ret1 \<longrightarrow> bn_ok r1 \<and> bn_int r1 = bn_int a mod \<bar>bn_int m\<bar>"
    unfolding mod_result_def by blast
  define y where "y = (if BN_is_negative m then (case tmp of None \<Rightarrow> (False, m) | Some abs_m \<Rightarrow> (case BN_copy alloc abs_m m of
        (False, abs_m) \<Rightarrow> (False, m) | (True, abs_m) \<Rightarrow> (True, BN_set_negative abs_m 0))) else (True, m))"
  obtain ok m1 where y: "y = (ok, m1)" by fastforce
  have m1: "bn_ok m1 \<and> \<bar>bn_int m1\<bar> = \<bar>bn_int m\<bar>" if ok
  proof (cases "BN_is_negative m")
    case True
    have "y = (True, m1)" using y that by simp
    with True obtain t t1 where t: "tmp = Some t" "BN_copy alloc t m = (True, t1)" "m1 = BN_set_negative t1 0"
      unfolding y_def by (auto split: option.splits prod.splits bool.splits)
    have "bn_ok t1" "bn_int t1 = bn_int m" using BN_copy_correct(3) [OF _ assms(3) t(2)] assms(7) t(1) by simp_all
    then show ?thesis using BN_set_negative_ok [of t1 0] by (simp add: t(3) bn_mag_abs)
  qed (use y that assms(3) in \<open>simp add: y_def\<close>)
  obtain ret2 r2 where l: "mod_lshift_loop alloc r1 n m1 = (ret2, r2)" by fastforce
  have x: "x = (if ret1 then if ok then Some (ret2, r2) else Some (False, r1) else Some (False, r1))"
    using assms(8) d(1) y l unfolding BN_mod_lshift_def if_False y_def [symmetric]
    by (cases ret1; cases ok) (simp_all add: BN_mod_lshift_quick_def)
  show ?thesis
  proof (cases "ret1 \<and> ok")
    case True
    then have r1: "bn_ok r1" "bn_int r1 = bn_int a mod \<bar>bn_int m\<bar>" and ok1: "bn_ok m1" "\<bar>bn_int m1\<bar> = \<bar>bn_int m\<bar>" using d(2) m1 by simp_all
    have "reduced r1 m1" using r1 ok1(2) assms(4) by (simp add: reduced_def)
    from mod_lshift_loop_ok [OF this ok1(1) l]
    have "ret2 \<longrightarrow> bn_ok r2 \<and> bn_int r2 = (bn_int r1 * 2 ^ nat n) mod \<bar>bn_int m\<bar>" using ok1(2) by (simp add: reduced_def)
    then show ?thesis using x True by (simp add: r1(2) mod_mult_left_eq)
  qed (use x in auto)
qed

section \<open>Modular multiplication\<close>

text \<open>
  C37.  Modular multiplication: with room for the product in \<open>r\<close> (or in the temporary, if
  \<open>r\<close> is one of the factors), \<open>BN_mod_mul\<close> returns; if it reports success the result is
  the least non-negative residue of the product, for factors and moduli of either
  sign; and it succeeds if the temporaries of the division have the memory they need.
\<close>

theorem BN_mod_mul_correct:
  assumes "bn_fits r" "bn_ok a" "bn_ok b" "bn_ok m" "bn_int m \<noteq> 0" "ctx_fits ctx" "ab \<longrightarrow> a = b"
    and "same \<longrightarrow> bn_fits tmp \<and> bn_room alloc N tmp" "N = bn_top a + bn_top b + bn_top m + 5" "bn_room alloc N r"
  shows "\<exists>ret r'. BN_mod_mul alloc ctx False same ab (Some tmp) r a b m = Some (ret, r') \<and>
    (ret \<longrightarrow> bn_ok r' \<and> 0 \<le> bn_int r' \<and> bn_int r' < \<bar>bn_int m\<bar> \<and> bn_int m dvd bn_int a * bn_int b - bn_int r') \<and>
    (ctx_room alloc ctx N \<longrightarrow> ret)"
proof -
  have "mod_result (bn_int a * bn_int b) (bn_int m) (ctx_room alloc ctx N \<and> (same \<longrightarrow> Some tmp \<noteq> None))
    (BN_mod_mul alloc ctx False same ab (Some tmp) r a b m)" using assms by (intro BN_mod_mul_ok) auto
  moreover have "bn_int m dvd v - v mod \<bar>bn_int m\<bar>" "0 \<le> v mod \<bar>bn_int m\<bar>" "v mod \<bar>bn_int m\<bar> < \<bar>bn_int m\<bar>" for v
    using assms(5) by (simp_all add: minus_mod_eq_mult_div)
  ultimately show ?thesis unfolding mod_result_def by auto
qed

theorem BN_mod_mul_correct_witness:
  "\<exists>r. BN_mod_mul (\<lambda>_. False) (\<lambda>_. Some bn_temp) False True False (Some bn_temp) bn_temp (bn_small (-7)) (bn_small 11) (bn_small 10) =
     Some (True, r) \<and> bn_int r = 3"
proof -
  note s = bn_small_ok [of "-7", simplified] bn_small_ok [of 11, simplified] bn_small_ok [of 10, simplified]
  have top: "8 = bn_top (bn_small (-7)) + bn_top (bn_small 11) + bn_top (bn_small 10) + 5" by (simp add: bn_small_def)
  have "bn_int (bn_small 10) \<noteq> 0" and room: "bn_room (\<lambda>_. False) 8 bn_temp" "ctx_room (\<lambda>_. False) (\<lambda>_. Some bn_temp) 8"
    using s(6) bn_temp_facts(2) by (simp_all add: ctx_room_def)
  from BN_mod_mul_correct [OF bn_temp_facts(1) s(1,3,5) this(1) bn_temp_facts(3) _ _ top this(2), of False True bn_temp] room bn_temp_facts(1)
  obtain r where d: "BN_mod_mul (\<lambda>_. False) (\<lambda>_. Some bn_temp) False True False (Some bn_temp) bn_temp (bn_small (-7)) (bn_small 11) (bn_small 10) = Some (True, r)"
    "0 \<le> bn_int r" "bn_int r < 10" "10 dvd -77 - bn_int r" unfolding s by auto
  then have "bn_int r = 3" by presburger
  then show ?thesis using d(1) by blast
qed

end
