(* ===== verification/BN_Mont.thy ===== *)
theory BN_Mont
  imports BN_Mod
begin

text \<open>
  Montgomery multiplication (libcrypto/bn/bn_mont.c, the version without assembly).
  For a modulus \<open>N\<close> of \<open>n\<close> words, \<open>R\<close> is \<open>2 ^ (64 * n)\<close>, and \<open>n0\<close> is chosen such that
  \<open>n0 * N + 1\<close> is a multiple of \<open>2 ^ 64\<close>.  As in bn_mod.c the results and the temporaries
  are passed by value; \<open>tmp\<close> is the answer of \<open>BN_CTX_get\<close>.
\<close>

section \<open>Definitions\<close>

record bn_mont_ctx =
  mont_ri :: int
  mont_RR :: bignum
  mont_N :: bignum
  mont_n0 :: words
  mont_flags :: int

text \<open>The structure has 80 bytes on amd64.\<close>

definition BN_MONT_CTX_new :: "(nat \<Rightarrow> bool) \<Rightarrow> bn_mont_ctx option" where
  "BN_MONT_CTX_new alloc =
     (if alloc 80 then
        (let zero = \<lparr>bn_d = [], bn_top = 0, bn_neg = 0, bn_flags = 0\<rparr>
         in Some \<lparr>mont_ri = 0, mont_RR = BN_init zero, mont_N = BN_init zero, mont_n0 = [0, 0], mont_flags = BN_FLG_MALLOCED\<rparr>)
      else None)"

text \<open>For two different contexts; on failure \<open>RR\<close> may have been copied.\<close>

definition BN_MONT_CTX_copy :: "(nat \<Rightarrow> bool) \<Rightarrow> bn_mont_ctx \<Rightarrow> bn_mont_ctx \<Rightarrow> bool \<times> bn_mont_ctx" where
  "BN_MONT_CTX_copy alloc dst src =
     (case BN_copy alloc (mont_RR dst) (mont_RR src) of
        (False, b) \<Rightarrow> (False, dst\<lparr>mont_RR := b\<rparr>)
      | (True, b) \<Rightarrow>
         (let dst = dst\<lparr>mont_RR := b\<rparr>
          in case BN_copy alloc (mont_N dst) (mont_N src) of
               (False, b) \<Rightarrow> (False, dst\<lparr>mont_N := b\<rparr>)
             | (True, b) \<Rightarrow>
                (True, dst\<lparr>mont_N := b, mont_ri := mont_ri src, mont_n0 := [mont_n0 src ! 0, mont_n0 src ! 1]\<rparr>)))"

text \<open>The loop of \<open>bn_montgomery_reduce\<close> over the words of the modulus; \<open>i\<close> is the index reached.\<close>

fun mont_reduce_loop :: "words \<Rightarrow> words \<Rightarrow> nat \<Rightarrow> bn_word \<Rightarrow> bn_word \<Rightarrow> nat \<Rightarrow> nat \<Rightarrow> words \<times> bn_word" where
  "mont_reduce_loop a n n_len n0 carry i 0 = (a, carry)"
| "mont_reduce_loop a n n_len n0 carry i (Suc k) =
     (let (v, seg) = bn_mul_add_words (drop i a) n n_len (a ! i * n0);
          a = take i a @ seg;
          (carry, w) = bn_addw_addw v (a ! (i + n_len)) carry
      in mont_reduce_loop (a[i + n_len := w]) n n_len n0 carry (i + 1) k)"

text \<open>The choice between the difference in \<open>r\<close> and the value before the subtraction.\<close>

definition mont_select :: "bn_word \<Rightarrow> words \<Rightarrow> words \<Rightarrow> nat \<Rightarrow> words" where
  "mont_select msk rp ap n_len =
     map (\<lambda>(r, a). (r AND NOT msk) OR (a AND msk)) (zip (take n_len rp) (take n_len ap)) @ drop n_len rp"

definition bn_montgomery_reduce :: "(nat \<Rightarrow> bool) \<Rightarrow> bignum \<Rightarrow> bignum \<Rightarrow> bn_mont_ctx \<Rightarrow> bool \<times> bignum" where
  "bn_montgomery_reduce alloc r a mctx =
     (let n = mont_N mctx;
          n_len = bn_top n
      in if n_len = 0 then (True, BN_zero r)
         else case bn_wexpand alloc r (int n_len) of
             (False, r) \<Rightarrow> (False, r)
           | (True, r) \<Rightarrow>
              (let max_len = 2 * n_len
               in if max_len < n_len then (False, r)
                  else case bn_wexpand alloc a (int max_len) of
                      (False, a) \<Rightarrow> (False, r)
                    | (True, a) \<Rightarrow>
                       (let a_d = write_at (bn_d a) (bn_top a) (replicate (max_len - bn_top a) 0);
                            (a_d, carry) = mont_reduce_loop a_d (bn_d n) n_len (mont_n0 mctx ! 0) 0 0 n_len;
                            ap = drop n_len a_d;
                            (borrow, rp) = bn_sub_words (bn_d r) ap (bn_d n) n_len;
                            msk = carry - borrow;
                            r = bn_correct_top (r\<lparr>bn_d := mont_select msk rp ap n_len, bn_top := n_len\<rparr>)
                        in (True, BN_set_negative r (bn_neg a XOR bn_neg n)))))"

text \<open>
  \<open>ab\<close> says that \<open>a\<close> and \<open>b\<close> are the same number.
\<close>

definition bn_mod_mul_montgomery_simple :: "(nat \<Rightarrow> bool) \<Rightarrow> bool \<Rightarrow> bignum option \<Rightarrow> bignum \<Rightarrow> bignum \<Rightarrow> bignum \<Rightarrow> bn_mont_ctx
    \<Rightarrow> bool \<times> bignum" where
  "bn_mod_mul_montgomery_simple alloc ab tmp r a b mctx =
     (case tmp of
        None \<Rightarrow> (False, r)
      | Some tmp \<Rightarrow>
         (case (if ab then BN_sqr alloc False None tmp a else BN_mul alloc False None tmp a b) of
            (False, tmp) \<Rightarrow> (False, r)
          | (True, tmp) \<Rightarrow> bn_montgomery_reduce alloc r tmp mctx))"

fun mont_word_loop :: "bn_word \<Rightarrow> bn_word \<Rightarrow> words \<Rightarrow> bn_word \<Rightarrow> words \<Rightarrow> words \<Rightarrow> bn_word \<Rightarrow> nat \<Rightarrow> bn_word \<times> bn_word \<times> words" where
  "mont_word_loop carry_a carry_n ap b np tp w n_len =
     (if n_len \<ge> 4 then
        (let (carry_a, x3, x2, x1, x0) =
               bn_qwmulw_addqw_addw (ap ! 3) (ap ! 2) (ap ! 1) (ap ! 0) b (tp ! 3) (tp ! 2) (tp ! 1) (tp ! 0) carry_a;
             (carry_n, t3, t2, t1, t0) =
               bn_qwmulw_addqw_addw (np ! 3) (np ! 2) (np ! 1) (np ! 0) w x3 x2 x1 x0 carry_n;
             (carry_a, carry_n, tp) = mont_word_loop carry_a carry_n (drop 4 ap) b (drop 4 np) (drop 4 tp) w (n_len - 4)
         in (carry_a, carry_n, t0 # t1 # t2 # t3 # tp))
      else if n_len > 0 then
        (let (carry_a, x0) = bn_mulw_addw_addw (ap ! 0) b (tp ! 0) carry_a;
             (carry_n, t0) = bn_mulw_addw_addw (np ! 0) w x0 carry_n;
             (carry_a, carry_n, tp) = mont_word_loop carry_a carry_n (drop 1 ap) b (drop 1 np) (drop 1 tp) w (n_len - 1)
         in (carry_a, carry_n, t0 # tp))
      else (carry_a, carry_n, tp))"

declare mont_word_loop.simps [simp del]

definition bn_montgomery_multiply_word :: "words \<Rightarrow> bn_word \<Rightarrow> words \<Rightarrow> words \<Rightarrow> bn_word \<Rightarrow> nat \<Rightarrow> bn_word \<times> bn_word \<times> words" where
  "bn_montgomery_multiply_word ap b np tp w n_len = mont_word_loop 0 0 ap b np tp w n_len"

text \<open>The loop over the words of \<open>b\<close>; \<open>tp\<close> is the whole array, and \<open>i\<close> the number of words that the pointer has advanced.\<close>

fun mont_multiply_loop :: "words \<Rightarrow> words \<Rightarrow> words \<Rightarrow> words \<Rightarrow> bn_word \<Rightarrow> nat \<Rightarrow> bn_word \<Rightarrow> nat \<Rightarrow> nat \<Rightarrow> words \<times> bn_word" where
  "mont_multiply_loop ap bp np tp n0 n_len carry i 0 = (tp, carry)"
| "mont_multiply_loop ap bp np tp n0 n_len carry i (Suc k) =
     (let a0 = ap ! 0;
          b = bp ! i;
          w = (a0 * b + tp ! i) * n0;
          (carry_a, carry_n, seg) = bn_montgomery_multiply_word ap b np (drop i tp) w n_len;
          tp = take i tp @ seg;
          (carry, t) = bn_addw_addw carry_a carry_n carry
      in mont_multiply_loop ap bp np (tp[i + n_len := t]) n0 n_len carry (i + 1) k)"

definition bn_montgomery_multiply_words :: "words \<Rightarrow> words \<Rightarrow> words \<Rightarrow> words \<Rightarrow> words \<Rightarrow> bn_word \<Rightarrow> nat \<Rightarrow> words" where
  "bn_montgomery_multiply_words rp ap bp np tp n0 n_len =
     (let tp = replicate n_len 0 @ drop n_len tp;
          (tp, carry) = mont_multiply_loop ap bp np tp n0 n_len 0 0 n_len;
          tp = drop n_len tp;
          tp = tp[n_len := carry];
          (borrow, rp) = bn_sub_words rp tp np n_len;
          msk = bn_ct_ne_zero (tp ! n_len) - borrow
      in mont_select msk rp tp n_len)"

definition bn_montgomery_multiply :: "(nat \<Rightarrow> bool) \<Rightarrow> bignum option \<Rightarrow> bignum \<Rightarrow> bignum \<Rightarrow> bignum \<Rightarrow> bn_mont_ctx \<Rightarrow> bool \<times> bignum" where
  "bn_montgomery_multiply alloc tmp r a b mctx =
     (if bn_top (mont_N mctx) \<le> 1 \<or> bn_top a \<noteq> bn_top (mont_N mctx) \<or> bn_top b \<noteq> bn_top (mont_N mctx) then (False, r)
      else case bn_wexpand alloc r (int (bn_top (mont_N mctx))) of
          (False, r) \<Rightarrow> (False, r)
        | (True, r) \<Rightarrow>
           (case tmp of
              None \<Rightarrow> (False, r)
            | Some t \<Rightarrow>
               (case bn_wexpand alloc t (int (bn_top (mont_N mctx) * 2 + 2)) of
                  (False, t) \<Rightarrow> (False, r)
                | (True, t) \<Rightarrow>
                   (let d = bn_montgomery_multiply_words (bn_d r) (bn_d a) (bn_d b) (bn_d (mont_N mctx)) (bn_d t)
                              (mont_n0 mctx ! 0) (bn_top (mont_N mctx));
                        r = bn_correct_top (r\<lparr>bn_d := d, bn_top := bn_top (mont_N mctx)\<rparr>)
                    in (True, BN_set_negative r (bn_neg a XOR bn_neg b))))))"

definition bn_mod_mul_montgomery :: "(nat \<Rightarrow> bool) \<Rightarrow> bool \<Rightarrow> bignum option \<Rightarrow> bignum \<Rightarrow> bignum \<Rightarrow> bignum \<Rightarrow> bn_mont_ctx \<Rightarrow> bool \<times> bignum" where
  "bn_mod_mul_montgomery alloc ab tmp r a b mctx =
     (if bn_top (mont_N mctx) \<le> 1 \<or> bn_top a \<noteq> bn_top (mont_N mctx) \<or> bn_top b \<noteq> bn_top (mont_N mctx)
      then bn_mod_mul_montgomery_simple alloc ab tmp r a b mctx
      else bn_montgomery_multiply alloc tmp r a b mctx)"

definition BN_mod_mul_montgomery :: "(nat \<Rightarrow> bool) \<Rightarrow> bool \<Rightarrow> bignum option \<Rightarrow> bignum \<Rightarrow> bignum \<Rightarrow> bignum \<Rightarrow> bn_mont_ctx \<Rightarrow> bool \<times> bignum" where
  "BN_mod_mul_montgomery alloc ab tmp r a b mctx = bn_mod_mul_montgomery alloc ab tmp r a b mctx"

definition BN_to_montgomery :: "(nat \<Rightarrow> bool) \<Rightarrow> bignum option \<Rightarrow> bignum \<Rightarrow> bignum \<Rightarrow> bn_mont_ctx \<Rightarrow> bool \<times> bignum" where
  "BN_to_montgomery alloc tmp r a mctx = bn_mod_mul_montgomery alloc False tmp r a (mont_RR mctx) mctx"

definition BN_from_montgomery :: "(nat \<Rightarrow> bool) \<Rightarrow> bignum option \<Rightarrow> bignum \<Rightarrow> bignum \<Rightarrow> bn_mont_ctx \<Rightarrow> bool \<times> bignum" where
  "BN_from_montgomery alloc tmp r a mctx =
     (case tmp of
        None \<Rightarrow> (False, r)
      | Some tmp \<Rightarrow>
         (case BN_copy alloc tmp a of
            (False, tmp) \<Rightarrow> (False, r)
          | (True, tmp) \<Rightarrow> bn_montgomery_reduce alloc r tmp mctx))"

section \<open>Reduction, word by word\<close>

text \<open>The word that is added makes the lowest word vanish.\<close>

lemma mont_word_vanishes:
  fixes t n q n0 :: bn_word
  assumes "n * n0 = - 1" "q = t * n0"
  shows "t + n * q = 0"
proof -
  have "n * q = t * (n * n0)" by (simp add: assms(2) mult.left_commute)
  then show ?thesis by (simp add: assms(1))
qed

lemma u64_modulus [simp]: "(18446744073709551616 :: bn_word) = 0"
  by transfer (simp add: take_bit_eq_mod)

lemma bn_val_low: "0 < n \<Longrightarrow> n \<le> length ws \<Longrightarrow> word_of_int (bn_val (take n ws)) = (ws ! 0 :: bn_word)"
  by (cases ws; cases n) simp_all

lemma power_words_zero: "0 < n \<Longrightarrow> (2 :: bn_word) ^ (64 * n) = 0"
  by (cases n) (simp_all add: power_add)

text \<open>The words below \<open>i\<close>, a window of \<open>n\<close> words, the word above it and the rest.\<close>

lemma bn_val_parts:
  assumes "i + n < l" "l \<le> length a"
  shows "bn_val (take l a) = bn_val (take i a) + 2 ^ (64 * i) * (bn_val (take n (drop i a)) +
    2 ^ (64 * n) * (uint (a ! (i + n)) + 2 ^ 64 * bn_val (take (l - i - n - 1) (drop (i + n + 1) a))))"
proof -
  have 1: "bn_val (take l a) = bn_val (take i a) + 2 ^ (64 * i) * bn_val (take (l - i) (drop i a))"
    by (rule bn_val_take_split) (use assms in simp_all)
  have 2: "bn_val (take (l - i) (drop i a)) = bn_val (take n (drop i a)) + 2 ^ (64 * n) * bn_val (take (l - i - n) (drop (i + n) a))"
    using bn_val_take_split [of n "l - i" "drop i a"] assms by (simp add: add.commute)
  have "Suc (l - i - n - 1) = l - i - n" "i + n + (l - i - n - 1) < length a" using assms by simp_all
  then have 3: "bn_val (take (l - i - n) (drop (i + n) a)) = uint (a ! (i + n)) + 2 ^ 64 * bn_val (take (l - i - n - 1) (drop (i + n + 1) a))"
    using bn_val_window [of "i + n" "l - i - n - 1" a] by simp
  show ?thesis unfolding 1 2 3 ..
qed

lemma reduce_arith:
  fixes s :: int
  assumes "s = nq + d - v * B" "w = v + x + c - c' * b"
  shows "lo + I * (s + B * (w + b * rest)) + c' * (I * B * b) = lo + I * (d + B * (x + b * rest)) + c * (I * B) + nq * I"
  by (simp add: assms algebra_simps)

lemma mont_reduce_step:
  assumes "0 < n" "i + n < l" "l \<le> length a" "n \<le> length nd" "nd ! 0 * n0 = - 1" "q = a ! i * n0"
    and m: "bn_mul_add_words (drop i a) nd n q = (v, seg)" and a1: "a1 = take i a @ seg"
    and c: "bn_addw_addw v (a1 ! (i + n)) carry = (carry', w)" and a': "a' = a1[i + n := w]"
  shows "length a' = length a" "take (Suc i) a' = take i a @ [0]"
    "bn_val (take l a') + uint carry' * 2 ^ (64 * (Suc i + n)) =
      bn_val (take l a) + uint carry * 2 ^ (64 * (i + n)) + bn_val (take n nd) * uint q * 2 ^ (64 * i)"
proof -
  have la: "i + n < length a" using assms(2,3) by simp
  then have "n \<le> length (drop i a)" by simp
  note mv = bn_mul_add_words_value [OF m assms(4) this]
  have ls: "length seg = length a - i" using wrote_length [OF mv(1)] by simp
  have dr: "drop n seg = drop (i + n) a" using mv(1) by (simp add: wrote_def add.commute)
  have l1: "length a1 = length a" using ls la by (simp add: a1)
  then show "length a' = length a" by (simp add: a')
  have top: "a1 ! (i + n) = a ! (i + n)"
  proof -
    have "a1 ! (i + n) = seg ! n" using la by (simp add: a1 nth_append)
    also have "\<dots> = hd (drop n seg)" using ls la by (intro hd_drop_conv_nth [symmetric]) simp
    also have "\<dots> = a ! (i + n)" unfolding dr using la by (intro hd_drop_conv_nth) simp
    finally show ?thesis .
  qed
  have low: "seg ! 0 = 0"
  proof -
    have "bn_val (take n seg) = bn_val (take n nd) * uint q + bn_val (take n (drop i a)) - uint v * 2 ^ (64 * n)" using mv(2) by simp
    then have "word_of_int (bn_val (take n seg)) = nd ! 0 * q + a ! i"
      using bn_val_low [OF assms(1,4)] bn_val_low [of n "drop i a"] assms(1) la by (simp add: power_words_zero)
    then have "seg ! 0 = nd ! 0 * q + a ! i" using bn_val_low [of n seg] assms(1) ls la by simp
    then show ?thesis using mont_word_vanishes [OF assms(5,6)] by (simp add: add.commute)
  qed
  have "take (Suc i) a' = take (Suc i) a1" using assms(1) by (simp add: a')
  also have "\<dots> = take i a @ [0]" using low la ls by (simp add: a1 take_Suc_conv_app_nth nth_append)
  finally show "take (Suc i) a' = take i a @ [0]" .
  have t': "take i a' = take i a" "take n (drop i a') = take n seg" "a' ! (i + n) = w" "drop (i + n + 1) a' = drop (i + n + 1) a"
  proof -
    show "take i a' = take i a" "take n (drop i a') = take n seg" using la assms(1) by (simp_all add: a' a1 drop_update_swap)
    show "a' ! (i + n) = w" using l1 la by (simp add: a')
    have "drop (i + n + 1) a1 = drop 1 (drop n seg)" using la by (simp add: a1 add.commute)
    then show "drop (i + n + 1) a' = drop (i + n + 1) a" unfolding dr by (simp add: a' add.commute)
  qed
  define B :: int where "B = 2 ^ (64 * n)"
  have cv: "uint carry' * 2 ^ 64 + uint w = uint v + uint (a ! (i + n)) + uint carry"
    using arg_cong [OF bn_addw_addw_value [OF c], of int] by (simp add: top)
  define rest where "rest = bn_val (take (l - i - n - 1) (drop (i + n + 1) a))"
  have eq: "bn_val (take l a') = bn_val (take i a) + 2 ^ (64 * i) * (bn_val (take n seg) + B * (uint w + 2 ^ 64 * rest))"
    using bn_val_parts [OF assms(2), of a'] assms(3) l1 unfolding t' rest_def B_def by (simp add: a')
  have eq0: "bn_val (take l a) = bn_val (take i a) + 2 ^ (64 * i) * (bn_val (take n (drop i a)) + B * (uint (a ! (i + n)) + 2 ^ 64 * rest))"
    using bn_val_parts [OF assms(2,3)] unfolding rest_def B_def .
  have e2: "(2 :: int) ^ (64 * (Suc i + n)) = 2 ^ (64 * i) * B * 2 ^ 64" "(2 :: int) ^ (64 * (i + n)) = 2 ^ (64 * i) * B"
    by (simp_all add: B_def power_add distrib_left)
  have sv: "bn_val (take n seg) = bn_val (take n nd) * uint q + bn_val (take n (drop i a)) - uint v * B" using mv(2) by (simp add: B_def)
  have wv: "uint w = uint v + uint (a ! (i + n)) + uint carry - uint carry' * 2 ^ 64" using cv by simp
  show "bn_val (take l a') + uint carry' * 2 ^ (64 * (Suc i + n)) =
      bn_val (take l a) + uint carry * 2 ^ (64 * (i + n)) + bn_val (take n nd) * uint q * 2 ^ (64 * i)"
    unfolding eq eq0 e2 by (rule reduce_arith [OF sv wv])
qed

lemma mont_reduce_loop_value:
  assumes "0 < n" "n \<le> length nd" "nd ! 0 * n0 = - 1" "2 * n \<le> length a" "i + k \<le> n"
    and "mont_reduce_loop a nd n n0 carry i k = (a', carry')"
  shows "\<exists>Q. 0 \<le> Q \<and> Q < 2 ^ (64 * k) \<and> length a' = length a \<and> take (i + k) a' = take i a @ replicate k 0 \<and>
    bn_val (take (2 * n) a') + uint carry' * 2 ^ (64 * (i + k + n)) =
      bn_val (take (2 * n) a) + uint carry * 2 ^ (64 * (i + n)) + bn_val (take n nd) * Q * 2 ^ (64 * i)"
  using assms(4-6)
proof (induction k arbitrary: a carry i)
  case 0
  then show ?case by (intro exI [of _ 0]) simp
next
  case (Suc k)
  define q where "q = a ! i * n0"
  obtain v seg where m: "bn_mul_add_words (drop i a) nd n q = (v, seg)" by fastforce
  define a1 where "a1 = take i a @ seg"
  obtain c1 w where c: "bn_addw_addw v (a1 ! (i + n)) carry = (c1, w)" by fastforce
  define a2 where "a2 = a1[i + n := w]"
  have il: "i + n < 2 * n" using Suc.prems(2) by simp
  note st = mont_reduce_step [OF assms(1) il Suc.prems(1) assms(2,3) q_def m a1_def c a2_def]
  have "mont_reduce_loop a2 nd n n0 c1 (Suc i) k = (a', carry')"
    using Suc.prems(3) m c unfolding a2_def a1_def q_def by simp
  moreover have "2 * n \<le> length a2" "Suc i + k \<le> n" using st(1) Suc.prems(1,2) by simp_all
  ultimately obtain Q where Q: "0 \<le> Q" "Q < 2 ^ (64 * k)" "length a' = length a2" "take (Suc i + k) a' = take (Suc i) a2 @ replicate k 0"
    "bn_val (take (2 * n) a') + uint carry' * 2 ^ (64 * (Suc i + k + n)) =
      bn_val (take (2 * n) a2) + uint c1 * 2 ^ (64 * (Suc i + n)) + bn_val (take n nd) * Q * 2 ^ (64 * Suc i)"
    using Suc.IH by blast
  define Q' where "Q' = uint q + 2 ^ 64 * Q"
  have "Q + 1 \<le> 2 ^ (64 * k)" using Q(2) by simp
  then have "2 ^ 64 * (Q + 1) \<le> 2 ^ 64 * 2 ^ (64 * k)" by (intro mult_left_mono) simp_all
  then have "Q' < 2 ^ (64 * Suc k)" using uint_lt2p [of q] by (simp add: Q'_def power_add distrib_left)
  moreover have "0 \<le> Q'" using Q(1) by (simp add: Q'_def)
  moreover have "take (i + Suc k) a' = take i a @ replicate (Suc k) 0" using Q(4) st(2) by simp
  moreover have "bn_val (take (2 * n) a') + uint carry' * 2 ^ (64 * (i + Suc k + n)) =
      bn_val (take (2 * n) a) + uint carry * 2 ^ (64 * (i + n)) + bn_val (take n nd) * Q' * 2 ^ (64 * i)"
  proof -
    have "(2 :: int) ^ (64 * Suc i) = 2 ^ 64 * 2 ^ (64 * i)" by (simp add: power_add)
    then have "bn_val (take n nd) * uint q * 2 ^ (64 * i) + bn_val (take n nd) * Q * 2 ^ (64 * Suc i) = bn_val (take n nd) * Q' * 2 ^ (64 * i)"
      by (simp only: Q'_def distrib_left distrib_right mult.assoc mult.left_commute mult.commute)
    moreover have "Suc i + k + n = i + Suc k + n" by simp
    ultimately show ?thesis using Q(5) st(3) by simp
  qed
  ultimately show ?case using Q(3) st(1) by auto
qed

text \<open>
  The final subtraction: \<open>t\<close> is below twice the modulus, its words are in \<open>ap\<close> and its
  carry in \<open>c\<close>.
\<close>

lemma mont_select_value:
  assumes "n \<le> length ap" "n \<le> length nd" "n \<le> length rp" "bn_sub_words rp ap nd n = (borrow, rp')"
    and "t = bn_val (take n ap) + uint c * 2 ^ (64 * n)" "D = bn_val (take n nd)" "t < 2 * D"
    and "d = mont_select (c - borrow) rp' ap n"
  shows "length d = length rp" "bn_val (take n d) = (if t < D then t else t - D)"
proof -
  define B :: int where "B = 2 ^ (64 * n)"
  note sv = bn_sub_words_value [OF assms(4,1,2,3), folded B_def]
  have l: "length rp' = length rp" using wrote_length [OF sv(1)] .
  show "length d = length rp" using assms(1,3) l by (simp add: assms(8) mont_select_def)
  define x y where "x = bn_val (take n ap)" and "y = bn_val (take n rp')"
  have rng: "0 \<le> x" "x < B" "0 \<le> y" "y < B" "D < B"
    using bn_val_take_less assms(1-3,6) l by (simp_all add: B_def x_def y_def)
  have sub: "y - uint borrow * B = x - D" using sv(2) assms(6) by (simp add: x_def y_def)
  have t: "t = x + uint c * B" using assms(5) by (simp add: B_def x_def)
  have sel0: "take n (mont_select 0 rp' ap n) = take n rp'"
    using assms(1,3) l by (intro nth_equalityI) (simp_all add: mont_select_def nth_append)
  have sel1: "take n (mont_select (- 1) rp' ap n) = take n ap"
    using assms(1,3) l by (intro nth_equalityI) (simp_all add: mont_select_def nth_append)
  have Bp: "0 < B" by (simp add: B_def)
  have c: "c = 0 \<or> c = 1" by (rule carry_bit [OF t [symmetric] rng(1) _ Bp]) (use assms(7) rng(5) in linarith)
  have "y + D - x = uint borrow * B" using sub by linarith
  then have "uint borrow * B < 2 * B" using rng by linarith
  then have b: "borrow = 0 \<or> borrow = 1" using carry_bit [of 0 borrow B "uint borrow * B"] Bp by simp
  show "bn_val (take n d) = (if t < D then t else t - D)"
  proof (cases "t < D")
    case True
    have "c \<noteq> 1" using t True rng(1,5) by auto
    then have c0: "c = 0" using c by simp
    then have "borrow \<noteq> 0" using sub t True rng(3) by auto
    then show ?thesis using b c0 True t by (simp add: assms(8) sel1 x_def)
  next
    case False
    have "borrow \<noteq> 1" if "c = 0" using sub t False rng(4) that by auto
    moreover have "borrow \<noteq> 0" if "c = 1" using sub t assms(7) rng(3,5) that by auto
    ultimately have "c = borrow" using b c by auto
    then show ?thesis using False sub t by (simp add: assms(8) sel0 y_def)
  qed
qed

section \<open>Contexts\<close>

text \<open>
  A context for the modulus \<open>N\<close>: it is odd (that is what the existence of \<open>n0\<close> means),
  positive, and \<open>RR\<close> is the residue of the square of \<open>R\<close>.
\<close>

definition mont_R :: "bn_mont_ctx \<Rightarrow> int" where
  "mont_R mctx = 2 ^ (64 * bn_top (mont_N mctx))"

definition mont_ok :: "bn_mont_ctx \<Rightarrow> bool" where
  "mont_ok mctx \<longleftrightarrow> bn_ok (mont_N mctx) \<and> 0 < bn_int (mont_N mctx) \<and> length (mont_n0 mctx) = 2 \<and>
     bn_d (mont_N mctx) ! 0 * mont_n0 mctx ! 0 = - 1 \<and>
     bn_ok (mont_RR mctx) \<and> bn_int (mont_RR mctx) = (mont_R mctx * mont_R mctx) mod bn_int (mont_N mctx)"

lemma mont_okD:
  assumes "mont_ok mctx"
  shows "bn_ok (mont_N mctx)" "0 < bn_top (mont_N mctx)" "bn_neg (mont_N mctx) = 0" "bn_mag (mont_N mctx) = bn_int (mont_N mctx)"
    "bn_int (mont_N mctx) < mont_R mctx" "0 < bn_int (mont_N mctx)" "bn_d (mont_N mctx) ! 0 * mont_n0 mctx ! 0 = - 1" "0 < mont_R mctx"
proof -
  have N: "bn_ok (mont_N mctx)" "0 < bn_int (mont_N mctx)" using assms by (simp_all add: mont_ok_def)
  show "bn_ok (mont_N mctx)" "0 < bn_int (mont_N mctx)" "bn_d (mont_N mctx) ! 0 * mont_n0 mctx ! 0 = - 1" using assms by (simp_all add: mont_ok_def)
  show "0 < bn_top (mont_N mctx)" using bn_ok_int_0 [OF N(1)] N(2) by (cases "bn_top (mont_N mctx)") auto
  show "bn_neg (mont_N mctx) = 0" using bn_ok_neg [OF N(1)] N(2) by simp
  show m: "bn_mag (mont_N mctx) = bn_int (mont_N mctx)" using N(2) by (simp add: bn_mag_abs)
  show "bn_int (mont_N mctx) < mont_R mctx" using bn_mag_less [OF bn_ok_fits [OF N(1)]] m by (simp add: mont_R_def)
  show "0 < mont_R mctx" by (simp add: mont_R_def)
qed

section \<open>Montgomery reduction\<close>

text \<open>\<open>bn_montgomery_reduce\<close> divides by \<open>R\<close> modulo \<open>N\<close>.\<close>

definition mont_quotient :: "int \<Rightarrow> bn_mont_ctx \<Rightarrow> bignum \<Rightarrow> bool" where
  "mont_quotient v mctx r \<longleftrightarrow> bn_ok r \<and> \<bar>bn_int r\<bar> < bn_int (mont_N mctx) \<and> bn_int (mont_N mctx) dvd bn_int r * mont_R mctx - v"

lemma reduced_quotient:
  fixes T R N a Q :: int
  assumes "T * R = a + N * Q" "0 \<le> a" "a < N * R" "0 \<le> Q" "Q < R" "0 < N" "0 < R"
    and "x = (if T < N then T else T - N)"
  shows "T < 2 * N" "0 \<le> x" "x < N" "N dvd x * R - a"
proof -
  have "N * Q \<le> N * R" using assms(5,6) by (intro mult_left_mono) simp_all
  then have "T * R < 2 * N * R" using assms(1,3) by (simp add: algebra_simps)
  then show T2: "T < 2 * N" using assms(7) by simp
  have "0 \<le> T * R" using assms(1,2,4,6) by simp
  then have "0 \<le> T" using assms(7) by (simp add: zero_le_mult_iff)
  then show "0 \<le> x" "x < N" using T2 by (simp_all add: assms(8))
  have "x * R - a = N * (if T < N then Q else Q - R)" using assms(1) by (auto simp: assms(8) algebra_simps)
  then show "N dvd x * R - a" by simp
qed

lemma bn_montgomery_reduce_ok:
  assumes "mont_ok mctx" "bn_fits r" "bn_ok a" "bn_mag a < bn_int (mont_N mctx) * mont_R mctx" "bn_montgomery_reduce alloc r a mctx = (ret, r')"
  shows "ret \<Longrightarrow> mont_quotient (bn_int a) mctx r' \<and> (0 \<le> bn_int a \<longrightarrow> 0 \<le> bn_int r')" "bn_room alloc (bn_top (mont_N mctx)) r \<Longrightarrow> bn_room alloc (2 * bn_top (mont_N mctx)) a \<Longrightarrow> ret"
proof -
  define n N R where "n = bn_top (mont_N mctx)" and "N = bn_int (mont_N mctx)" and "R = mont_R mctx"
  note M = mont_okD [OF assms(1), folded n_def N_def R_def]
  have R: "R = 2 ^ (64 * n)" by (simp add: R_def mont_R_def n_def)
  have ln: "n \<le> length (bn_d (mont_N mctx))" using bn_fits_top [OF bn_ok_fits [OF M(1)]] by (simp add: n_def)
  have "bn_mag a < 2 ^ (64 * (2 * n))"
  proof -
    have "N * R \<le> R * R" using M(5,8) by (intro mult_right_mono) simp_all
    also have "R * R = 2 ^ (64 * (2 * n))" unfolding R power_add [symmetric] by (rule arg_cong) simp
    finally show ?thesis using assms(4) by (simp add: N_def R_def)
  qed
  then have ta: "bn_top a \<le> 2 * n" by (rule bn_ok_top_le [OF assms(3)])
  obtain ok1 r1 where w1: "bn_wexpand alloc r (int n) = (ok1, r1)" by fastforce
  obtain ok2 a1 where w2: "bn_wexpand alloc a (int (2 * n)) = (ok2, a1)" by fastforce
  define d0 where "d0 = write_at (bn_d a1) (bn_top a1) (replicate (2 * n - bn_top a1) 0)"
  obtain d1 carry where lp: "mont_reduce_loop d0 (bn_d (mont_N mctx)) n (mont_n0 mctx ! 0) 0 0 n = (d1, carry)" by fastforce
  obtain borrow rp where sb: "bn_sub_words (bn_d r1) (drop n d1) (bn_d (mont_N mctx)) n = (borrow, rp)" by fastforce
  define d where "d = mont_select (carry - borrow) rp (drop n d1) n"
  define r2 where "r2 = BN_set_negative (bn_correct_top (r1\<lparr>bn_d := d, bn_top := n\<rparr>)) (bn_neg a1 XOR bn_neg (mont_N mctx))"
  have n0: "\<not> n = 0" "\<not> 2 * n < n" using M(2) by simp_all
  have eq: "(ret, r') = (if ok1 then if ok2 then (True, r2) else (False, r1) else (False, r1))"
    unfolding assms(5) [symmetric] bn_montgomery_reduce_def Let_def n_def [symmetric] if_not_P [OF n0(1)] w1 prod.case
    by (cases ok1; cases ok2) (use n0(2) w2 lp sb in \<open>simp_all add: d0_def [symmetric] d_def [symmetric] r2_def [symmetric]\<close>)
  have quot: "mont_quotient (bn_int a) mctx r2 \<and> (0 \<le> bn_int a \<longrightarrow> 0 \<le> bn_int r2)" if ok1 ok2
  proof -
    note W1 = bn_wexpand_ok [OF _ assms(2), of alloc n r1] and W2 = bn_wexpand_ok [OF _ bn_ok_fits [OF assms(3)], of alloc "2 * n" a1]
    have f1: "bn_fits r1" "n \<le> length (bn_d r1)" using W1 w1 that(1) by (simp_all add: bn_dmax_def)
    have f2: "2 * n \<le> length (bn_d a1)" "bn_top a1 = bn_top a" "bn_mag a1 = bn_mag a" "bn_neg a1 = bn_neg a" using W2 w2 that(2) by (simp_all add: bn_dmax_def)
    have ld0: "length d0 = length (bn_d a1)" using f2(1,2) ta by (simp add: d0_def)
    have v0: "bn_val (take (2 * n) d0) = bn_mag a"
      using f2 ta by (simp add: d0_def write_at_def bn_val_append bn_mag_def)
    have "2 * n \<le> length d0" using ld0 f2(1) by simp
    from mont_reduce_loop_value [OF M(2) ln M(7) this _ lp]
    obtain Q where Q: "0 \<le> Q" "Q < 2 ^ (64 * n)" "length d1 = length d0" "take n d1 = replicate n 0"
      "bn_val (take (2 * n) d1) + uint carry * 2 ^ (64 * (n + n)) = bn_mag a + bn_val (take n (bn_d (mont_N mctx))) * Q"
      using v0 by auto
    define T where "T = bn_val (take n (drop n d1)) + uint carry * 2 ^ (64 * n)"
    have ND: "bn_val (take n (bn_d (mont_N mctx))) = N" using M(4) by (simp add: bn_mag_def n_def N_def)
    have "bn_val (take (2 * n) d1) = 2 ^ (64 * n) * bn_val (take n (drop n d1))"
      using bn_val_take_split [of n "2 * n" d1] Q(3,4) ld0 f2(1) by simp
    moreover have "(2 :: int) ^ (64 * (n + n)) = 2 ^ (64 * n) * 2 ^ (64 * n)" by (simp only: distrib_left power_add)
    ultimately have T: "T * R = bn_mag a + N * Q" using Q(5) unfolding ND T_def R by (simp add: distrib_left mult.commute mult.left_commute)
    note rq = reduced_quotient [OF T bn_mag_nonneg assms(4) [folded N_def R_def] Q(1) Q(2) [folded R] M(6,8) refl]
    have "n \<le> length (drop n d1)" using Q(3) ld0 f2(1) by simp
    note sel = mont_select_value [OF this ln f1(2) sb T_def ND [symmetric] rq(1) d_def]
    define x where "x = r1\<lparr>bn_d := d, bn_top := n\<rparr>"
    have fx: "bn_fits x" using f1 sel(1) by (simp add: x_def bn_fits_def bn_dmax_def)
    have mx: "bn_mag x = (if T < N then T else T - N)" using sel(2) by (simp add: x_def bn_mag_def)
    have neg: "bn_neg a1 XOR bn_neg (mont_N mctx) = bn_neg a" "bn_neg a \<in> {0, 1}" using M(3) f2(4) assms(3) by (simp_all add: bn_ok_def)
    have r2: "bn_ok r2" "bn_int r2 = (if bn_neg a \<noteq> 0 then - bn_mag x else bn_mag x)"
      using bn_normal_ok [OF fx neg(2)] unfolding r2_def neg(1) x_def [symmetric] by simp_all
    have ai: "bn_int a = (if bn_neg a \<noteq> 0 then - bn_mag a else bn_mag a)" by (simp add: bn_int_def)
    have "N dvd bn_int r2 * R - bn_int a"
    proof (cases "bn_neg a = 0")
      case False
      have "bn_int r2 * R - bn_int a = - (bn_mag x * R - bn_mag a)" using False r2(2) ai by simp
      then show ?thesis using rq(4) unfolding mx by (simp only: dvd_minus_iff)
    qed (use r2(2) ai rq(4) mx in simp)
    moreover have "0 \<le> bn_int a \<longrightarrow> 0 \<le> bn_int r2" using bn_ok_neg [OF assms(3)] r2(2) by simp
    ultimately show ?thesis using r2 rq(2,3) mx by (auto simp: mont_quotient_def N_def R_def)
  qed
  then show "mont_quotient (bn_int a) mctx r' \<and> (0 \<le> bn_int a \<longrightarrow> 0 \<le> bn_int r')" if ret using eq that by (auto split: if_splits)
  show ret if "bn_room alloc (bn_top (mont_N mctx)) r" "bn_room alloc (2 * bn_top (mont_N mctx)) a"
    using eq w1 w2 bn_roomD [OF that(1)] bn_roomD [OF that(2)] unfolding bn_wexpand_eq n_def [symmetric] by (auto split: if_splits)
qed

section \<open>Montgomery multiplication\<close>

text \<open>The loop over the words is two passes: \<open>a * b + t\<close>, and then \<open>n * w\<close> on top of it.\<close>

lemma mont_word_loop_chain:
  assumes "n \<le> length ap" "n \<le> length np" "n \<le> length tp"
  shows "mont_word_loop ca cn ap b np tp w n =
    (case ripple (\<lambda>c (x, y). bn_mulw_addw_addw x b y c) ca (zip (take n ap) (take n tp)) of (ca, xs) \<Rightarrow>
     case ripple (\<lambda>c (x, y). bn_mulw_addw_addw x w y c) cn (zip (take n np) xs) of (cn, ws) \<Rightarrow> (ca, cn, ws @ drop n tp))"
  using assms
proof (induction ca cn ap b np tp w n rule: mont_word_loop.induct)
  case (1 ca cn ap b np tp w n)
  then show ?case
    by (subst mont_word_loop.simps) (simp add: take_four take_one bn_qwmulw_addqw_addw_def not_le split: prod.splits)
qed

lemma mont_multiply_word_value:
  assumes "n \<le> length ap" "n \<le> length np" "n \<le> length tp" "bn_montgomery_multiply_word ap b np tp w n = (ca, cn, tp')"
  shows "wrote n tp tp'" "bn_val (take n tp') + (uint ca + uint cn) * 2 ^ (64 * n) =
    bn_val (take n ap) * uint b + bn_val (take n np) * uint w + bn_val (take n tp)"
proof -
  obtain xs ws where r: "ripple (\<lambda>c (x, y). bn_mulw_addw_addw x b y c) 0 (zip (take n ap) (take n tp)) = (ca, xs)"
    "ripple (\<lambda>c (x, y). bn_mulw_addw_addw x w y c) 0 (zip (take n np) xs) = (cn, ws)" "tp' = ws @ drop n tp"
    using assms(4) unfolding bn_montgomery_multiply_word_def mont_word_loop_chain [OF assms(1-3)] by (auto split: prod.splits)
  have lx: "length xs = n" "length ws = n" using length_ripple [OF r(1)] length_ripple [OF r(2)] assms(1-3) by simp_all
  show "wrote n tp tp'" using wrote_append [OF lx(2)] assms(3) r(3) by simp
  have "bn_val xs + uint ca * 2 ^ (64 * n) = bn_val (take n ap) * uint b + bn_val (take n tp)"
    using mul_add_chain.ripple_value [OF r(1)] assms(1,3) by (simp add: chain_val_zip_mul_add)
  moreover have "bn_val ws + uint cn * 2 ^ (64 * n) = bn_val (take n np) * uint w + bn_val xs"
    using mul_add_chain.ripple_value [OF r(2)] assms(2) lx(1) by (simp add: chain_val_zip_mul_add)
  ultimately show "bn_val (take n tp') + (uint ca + uint cn) * 2 ^ (64 * n) =
      bn_val (take n ap) * uint b + bn_val (take n np) * uint w + bn_val (take n tp)"
    using lx(2) by (simp add: r(3) distrib_right)
qed

text \<open>One round: the running value is divided by \<open>2 ^ 64\<close>.\<close>

lemma mont_multiply_step:
  assumes "0 < n" "n \<le> length ap" "n \<le> length np" "i + n < length tp" "np ! 0 * n0 = - 1"
    and w: "w = (ap ! 0 * b + tp ! i) * n0" and m: "bn_montgomery_multiply_word ap b np (drop i tp) w n = (ca, cn, seg)"
    and c: "bn_addw_addw ca cn carry = (carry', t)" and tp': "tp' = (take i tp @ seg)[i + n := t]"
  shows "length tp' = length tp"
    "(bn_val (take n (drop (Suc i) tp')) + uint carry' * 2 ^ (64 * n)) * 2 ^ 64 =
      bn_val (take n (drop i tp)) + uint carry * 2 ^ (64 * n) + bn_val (take n ap) * uint b + bn_val (take n np) * uint w"
proof -
  have ld: "n \<le> length (drop i tp)" using assms(4) by simp
  note mv = mont_multiply_word_value [OF assms(2,3) ld m]
  have ls: "length seg = length tp - i" using wrote_length [OF mv(1)] by simp
  show lt: "length tp' = length tp" using ls assms(4) by (simp add: tp')
  define B :: int where "B = 2 ^ (64 * n)"
  have cv: "uint carry' * 2 ^ 64 + uint t = uint ca + uint cn + uint carry" using arg_cong [OF bn_addw_addw_value [OF c], of int] by simp
  define V where "V = bn_val (take n ap) * uint b + bn_val (take n np) * uint w + bn_val (take n (drop i tp))"
  have sv: "bn_val (take n seg) = V - (uint ca + uint cn) * B" using mv(2) by (simp add: V_def B_def)
  have low: "seg ! 0 = 0"
  proof -
    have "word_of_int (bn_val (take n seg)) = ap ! 0 * b + np ! 0 * w + tp ! i"
      using bn_val_low [OF assms(1,2)] bn_val_low [OF assms(1,3)] bn_val_low [of n "drop i tp"] assms(1,4) unfolding sv V_def
      by (simp add: B_def power_words_zero)
    then have "seg ! 0 = ap ! 0 * b + tp ! i + np ! 0 * w" using bn_val_low [of n seg] assms(1,4) ls by (simp add: add.commute add.left_commute)
    then show ?thesis using mont_word_vanishes [OF assms(5) w] by simp
  qed
  define s1 where "s1 = seg[n := t]"
  have d1: "drop i tp' = s1" using assms(4) by (simp add: tp' s1_def drop_update_swap list_update_append)
  have l1: "n < length s1" using ls assms(4) by (simp add: s1_def)
  have "bn_val (take (Suc n) s1) = bn_val (take n seg) + B * uint t" using l1 by (simp add: bn_val_take_Suc s1_def B_def)
  moreover have "bn_val (take (Suc n) s1) = 2 ^ 64 * bn_val (take n (drop 1 s1))"
    using bn_val_window [of 0 n s1] l1 low assms(1) by (simp add: s1_def)
  moreover have "drop 1 s1 = drop (Suc i) tp'" unfolding d1 [symmetric] by simp
  ultimately have "2 ^ 64 * bn_val (take n (drop (Suc i) tp')) = V - (uint ca + uint cn) * B + B * uint t" using sv by simp
  moreover have "uint t = uint ca + uint cn + uint carry - uint carry' * 2 ^ 64" using cv by simp
  ultimately have "2 ^ 64 * bn_val (take n (drop (Suc i) tp')) = V - (uint ca + uint cn) * B + B * (uint ca + uint cn + uint carry - uint carry' * 2 ^ 64)" by simp
  then show "(bn_val (take n (drop (Suc i) tp')) + uint carry' * 2 ^ (64 * n)) * 2 ^ 64 =
      bn_val (take n (drop i tp)) + uint carry * 2 ^ (64 * n) + bn_val (take n ap) * uint b + bn_val (take n np) * uint w"
    unfolding V_def B_def [symmetric] by (simp add: algebra_simps)
qed

lemma mont_multiply_arith:
  fixes X Y :: int
  assumes "P' = P * b" "X * P = Y + C + A * bs + N * Q" "(Y + C) * b = T + A * b0 + N * w" "bv = b0 + b * bs" "Q' = w + b * Q"
  shows "X * P' = T + A * bv + N * Q'"
proof -
  have "X * P' = (Y + C) * b + A * bs * b + N * Q * b" using assms(2) by (simp add: assms(1) distrib_right mult.assoc [symmetric])
  then have "X * P' = T + A * b0 + N * w + A * bs * b + N * Q * b" by (simp only: assms(3))
  then show ?thesis by (simp add: assms(4,5) algebra_simps)
qed

lemma mont_multiply_loop_value:
  assumes "0 < n" "n \<le> length ap" "n \<le> length np" "np ! 0 * n0 = - 1" "i + k + n < length tp \<or> k = 0" "i + k \<le> length bp"
    and "mont_multiply_loop ap bp np tp n0 n carry i k = (tp', carry')"
  shows "\<exists>Q. 0 \<le> Q \<and> Q < 2 ^ (64 * k) \<and> length tp' = length tp \<and>
    (bn_val (take n (drop (i + k) tp')) + uint carry' * 2 ^ (64 * n)) * 2 ^ (64 * k) =
      bn_val (take n (drop i tp)) + uint carry * 2 ^ (64 * n) + bn_val (take n ap) * bn_val (take k (drop i bp)) + bn_val (take n np) * Q"
  using assms(5-7)
proof (induction k arbitrary: tp carry i)
  case 0
  then show ?case by (intro exI [of _ 0]) simp
next
  case (Suc k)
  define b w where "b = bp ! i" and "w = (ap ! 0 * b + tp ! i) * n0"
  obtain ca cn seg where m: "bn_montgomery_multiply_word ap b np (drop i tp) w n = (ca, cn, seg)" by (metis prod_cases3)
  obtain c1 t where c: "bn_addw_addw ca cn carry = (c1, t)" by fastforce
  define tp1 where "tp1 = (take i tp @ seg)[i + n := t]"
  have il: "i + n < length tp" using Suc.prems(1) by simp
  note st = mont_multiply_step [OF assms(1-3) il assms(4) w_def m c tp1_def]
  have "mont_multiply_loop ap bp np tp1 n0 n c1 (Suc i) k = (tp', carry')"
    using Suc.prems(3) m c unfolding tp1_def w_def b_def by (simp add: Let_def)
  moreover have "Suc i + k + n < length tp1 \<or> k = 0" "Suc i + k \<le> length bp" using st(1) Suc.prems(1,2) by simp_all
  ultimately obtain Q where Q: "0 \<le> Q" "Q < 2 ^ (64 * k)" "length tp' = length tp1"
    "(bn_val (take n (drop (Suc i + k) tp')) + uint carry' * 2 ^ (64 * n)) * 2 ^ (64 * k) =
      bn_val (take n (drop (Suc i) tp1)) + uint c1 * 2 ^ (64 * n) + bn_val (take n ap) * bn_val (take k (drop (Suc i) bp)) + bn_val (take n np) * Q"
    using Suc.IH by blast
  define Q' where "Q' = uint w + 2 ^ 64 * Q"
  have "Q + 1 \<le> 2 ^ (64 * k)" using Q(2) by simp
  then have "2 ^ 64 * (Q + 1) \<le> 2 ^ 64 * 2 ^ (64 * k)" by (intro mult_left_mono) simp_all
  then have "Q' < 2 ^ (64 * Suc k)" using uint_lt2p [of w] by (simp add: Q'_def power_add distrib_left)
  moreover have "0 \<le> Q'" using Q(1) by (simp add: Q'_def)
  moreover have "(bn_val (take n (drop (i + Suc k) tp')) + uint carry' * 2 ^ (64 * n)) * 2 ^ (64 * Suc k) =
      bn_val (take n (drop i tp)) + uint carry * 2 ^ (64 * n) + bn_val (take n ap) * bn_val (take (Suc k) (drop i bp)) + bn_val (take n np) * Q'"
  proof -
    have bv: "bn_val (take (Suc k) (drop i bp)) = uint b + 2 ^ 64 * bn_val (take k (drop (Suc i) bp))"
      using bn_val_window [of i k bp] Suc.prems(2) by (simp add: b_def)
    have p: "(2 :: int) ^ (64 * Suc k) = 2 ^ (64 * k) * 2 ^ 64" by (simp add: power_add)
    have i: "i + Suc k = Suc i + k" by simp
    show ?thesis unfolding i by (rule mont_multiply_arith [OF p Q(4) st(2) bv Q'_def])
  qed
  ultimately show ?case using Q(3) st(1) by auto
qed

text \<open>The routine on arrays: the quotient of \<open>a * b\<close> by \<open>R\<close>, reduced once.\<close>

lemma bn_montgomery_multiply_words_value:
  assumes "0 < n" "n \<le> length ap" "n \<le> length bp" "n \<le> length np" "n \<le> length rp" "n * 2 + 2 \<le> length tp" "np ! 0 * n0 = - 1"
    and A: "A = bn_val (take n ap)" and B: "B = bn_val (take n bp)" and N: "N = bn_val (take n np)" and "A < N"
    and d: "d = bn_montgomery_multiply_words rp ap bp np tp n0 n"
  shows "length d = length rp" "bn_val (take n d) < N" "N dvd bn_val (take n d) * 2 ^ (64 * n) - A * B"
proof -
  define R :: int where "R = 2 ^ (64 * n)"
  define tp0 where "tp0 = replicate n 0 @ drop n tp"
  have l0: "length tp0 = length tp" using assms(6) by (simp add: tp0_def)
  obtain tp1 carry where lp: "mont_multiply_loop ap bp np tp0 n0 n 0 0 n = (tp1, carry)" by fastforce
  have "0 + n + n < length tp0 \<or> n = 0" "0 + n \<le> length bp" using l0 assms(3,6) by simp_all
  from mont_multiply_loop_value [OF assms(1,2,4,7) this lp]
  obtain Q where Q: "0 \<le> Q" "Q < R" "length tp1 = length tp0"
    "(bn_val (take n (drop n tp1)) + uint carry * R) * R = A * B + N * Q"
    by (auto simp: tp0_def A B N R_def)
  define ap1 where "ap1 = (drop n tp1)[n := carry]"
  have l1: "n < length (drop n tp1)" using Q(3) l0 assms(6) by simp
  then have ap1: "n \<le> length ap1" "take n ap1 = take n (drop n tp1)" "ap1 ! n = carry" by (simp_all add: ap1_def)
  obtain borrow rp1 where sb: "bn_sub_words rp ap1 np n = (borrow, rp1)" by fastforce
  have dd: "d = mont_select (bn_ct_ne_zero carry - borrow) rp1 ap1 n"
    using sb ap1(3) unfolding d bn_montgomery_multiply_words_def Let_def tp0_def [symmetric] lp prod.case ap1_def [symmetric] by simp
  define T where "T = bn_val (take n ap1) + uint carry * R"
  have Tv: "T * R = A * B + N * Q" using Q(4) by (simp add: T_def ap1(2))
  have rng: "0 \<le> A" "0 \<le> B" "B < R" "N < R" using bn_val_take_less [OF assms(3)] bn_val_take_less [OF assms(4)] by (simp_all add: A B N R_def)
  have AB: "0 \<le> A * B" "A * B < N * R" "0 < N" "0 < R" using rng assms(11) mult_strict_mono' [of A N B R] by simp_all
  note rq = reduced_quotient [OF Tv AB(1,2) Q(1,2) AB(3,4) refl]
  have "uint carry * R < 2 * R" using rq(1) rng(4) bn_val_nonneg [of "take n ap1"] unfolding T_def by linarith
  then have "carry = 0 \<or> carry = 1" using carry_bit [of 0 carry R "uint carry * R"] AB(4) by simp
  then have "bn_ct_ne_zero carry = carry" by auto
  then have "d = mont_select (carry - borrow) rp1 ap1 n" by (simp only: dd)
  note sel = mont_select_value [OF ap1(1) assms(4,5) sb T_def [unfolded R_def] N rq(1) this]
  show "length d = length rp" by (rule sel(1))
  show "bn_val (take n d) < N" "N dvd bn_val (take n d) * 2 ^ (64 * n) - A * B" using rq(3,4) unfolding sel(2) R_def by simp_all
qed

lemma bn_montgomery_multiply_ok:
  assumes "mont_ok mctx" "bn_fits r" "reduced a (mont_N mctx)" "reduced b (mont_N mctx)" "pred_option bn_fits tmp"
    and "bn_montgomery_multiply alloc tmp r a b mctx = (ret, r')"
  shows "ret \<Longrightarrow> mont_quotient (bn_int a * bn_int b) mctx r' \<and> 0 \<le> bn_int r'"
    "bn_top a = bn_top (mont_N mctx) \<Longrightarrow> bn_top b = bn_top (mont_N mctx) \<Longrightarrow> 1 < bn_top (mont_N mctx) \<Longrightarrow>
      bn_room alloc (bn_top (mont_N mctx)) r \<Longrightarrow> tmp = Some t \<Longrightarrow> bn_room alloc (bn_top (mont_N mctx) * 2 + 2) t \<Longrightarrow> ret"
proof -
  define n N R where "n = bn_top (mont_N mctx)" and "N = bn_int (mont_N mctx)" and "R = mont_R mctx"
  note M = mont_okD [OF assms(1), folded n_def N_def R_def]
  show "ret" if "bn_top a = bn_top (mont_N mctx)" "bn_top b = bn_top (mont_N mctx)" "1 < bn_top (mont_N mctx)"
      "bn_room alloc (bn_top (mont_N mctx)) r" "tmp = Some t" "bn_room alloc (bn_top (mont_N mctx) * 2 + 2) t"
    using assms(6) that(1-3) bn_roomD [OF that(4)] bn_roomD [OF that(6)] unfolding bn_montgomery_multiply_def that(5) bn_wexpand_eq by auto
  assume ret
  then obtain r1 t t1 where w: "bn_wexpand alloc r (int n) = (True, r1)" "tmp = Some t" "bn_wexpand alloc t (int (n * 2 + 2)) = (True, t1)"
    and tops: "1 < n" "bn_top a = n" "bn_top b = n"
    and r': "r' = BN_set_negative (bn_correct_top (r1\<lparr>bn_d := bn_montgomery_multiply_words (bn_d r1) (bn_d a) (bn_d b)
        (bn_d (mont_N mctx)) (bn_d t1) (mont_n0 mctx ! 0) n, bn_top := n\<rparr>)) (bn_neg a XOR bn_neg b)"
    using assms(6) unfolding bn_montgomery_multiply_def Let_def n_def [symmetric]
    by (auto split: if_splits prod.splits bool.splits option.splits)
  define d where "d = bn_montgomery_multiply_words (bn_d r1) (bn_d a) (bn_d b) (bn_d (mont_N mctx)) (bn_d t1) (mont_n0 mctx ! 0) n"
  have ab: "bn_ok a" "bn_ok b" "0 \<le> bn_int a" "0 \<le> bn_int b" "bn_int a < N" using assms(3,4) M(6) by (simp_all add: reduced_def N_def)
  have ft: "bn_fits t" using assms(5) w(2) by simp
  note W1 = bn_wexpand_ok [OF w(1) assms(2)] and W2 = bn_wexpand_ok [OF w(3) ft]
  have len: "n \<le> length (bn_d a)" "n \<le> length (bn_d b)" "n \<le> length (bn_d (mont_N mctx))" "n \<le> length (bn_d r1)" "n * 2 + 2 \<le> length (bn_d t1)"
    using bn_fits_top [OF bn_ok_fits [OF ab(1)]] bn_fits_top [OF bn_ok_fits [OF ab(2)]] bn_fits_top [OF bn_ok_fits [OF M(1)]] tops W1(2) W2(2)
    by (simp_all add: bn_dmax_def n_def)
  have val: "bn_int a = bn_val (take n (bn_d a))" "bn_int b = bn_val (take n (bn_d b))" "N = bn_val (take n (bn_d (mont_N mctx)))"
    using reduced_mag [OF assms(3)] reduced_mag [OF assms(4)] M(4) tops by (simp_all add: bn_mag_def n_def N_def)
  note V = bn_montgomery_multiply_words_value [OF M(2) len M(7) val ab(5) d_def]
  define x where "x = r1\<lparr>bn_d := d, bn_top := n\<rparr>"
  have fx: "bn_fits x" using W1(1) V(1) len(4) by (simp add: x_def bn_fits_def bn_dmax_def)
  have mx: "bn_mag x = bn_val (take n d)" by (simp add: x_def bn_mag_def)
  have neg: "bn_neg a XOR bn_neg b = 0" using bn_ok_neg [OF ab(1)] bn_ok_neg [OF ab(2)] ab(3,4) by simp
  have "bn_ok r'" "bn_int r' = bn_mag x" using bn_normal_ok [OF fx, of 0] unfolding r' neg d_def [symmetric] x_def [symmetric] by simp_all
  then show "mont_quotient (bn_int a * bn_int b) mctx r' \<and> 0 \<le> bn_int r'"
    using V(2,3) mx by (simp add: mont_quotient_def N_def [symmetric] mont_R_def n_def)
qed

section \<open>Numbers in Montgomery form\<close>

lemma mont_odd: "mont_ok mctx \<Longrightarrow> coprime (bn_int (mont_N mctx)) (mont_R mctx)"
proof -
  assume ok: "mont_ok mctx"
  note M = mont_okD [OF ok]
  define n d where "n = bn_top (mont_N mctx)" and "d = bn_d (mont_N mctx)"
  have "uint (d ! 0 * mont_n0 mctx ! 0) = 2 ^ 64 - 1" using M(7) by (simp add: d_def uint_word_ariths)
  then have "(uint (d ! 0) * uint (mont_n0 mctx ! 0)) mod 2 ^ 64 = 2 ^ 64 - 1" by (simp add: uint_word_ariths)
  then have "odd ((uint (d ! 0) * uint (mont_n0 mctx ! 0)) mod 2 ^ 64)" by simp
  then have "odd (uint (d ! 0))" using dvd_mod_iff [of 2 "2 ^ 64" "uint (d ! 0) * uint (mont_n0 mctx ! 0)"] by auto
  moreover obtain m where m: "n = Suc m" using M(2) by (cases n) (auto simp: n_def)
  moreover have "bn_int (mont_N mctx) = uint (d ! 0) + 2 ^ 64 * bn_val (take m (drop 1 d))"
    using bn_val_window [of 0 m d] bn_fits_top [OF bn_ok_fits [OF M(1)]] M(4) m by (simp add: bn_mag_def n_def [symmetric] d_def [symmetric])
  ultimately have "odd (bn_int (mont_N mctx))" by simp
  then show ?thesis by (simp add: mont_R_def)
qed

lemma mont_cancel: "mont_ok mctx \<Longrightarrow> bn_int (mont_N mctx) dvd x * mont_R mctx \<longleftrightarrow> bn_int (mont_N mctx) dvd x"
  using mont_odd [of mctx] by (simp add: coprime_dvd_mult_left_iff)

lemma product_below:
  assumes "mont_ok mctx" "reduced a (mont_N mctx)" "reduced b (mont_N mctx)"
  shows "bn_int a * bn_int b < bn_int (mont_N mctx) * mont_R mctx"
  using assms mont_okD(5,6) [OF assms(1)] by (intro mult_strict_mono') (simp_all add: reduced_def)

lemma bn_mod_mul_montgomery_ok:
  assumes "mont_ok mctx" "bn_fits r" "reduced a (mont_N mctx)" "reduced b (mont_N mctx)" "ab \<longrightarrow> a = b"
    and "bn_fits t" "bn_room alloc (bn_top (mont_N mctx) * 2 + 2) t" "bn_mod_mul_montgomery alloc ab (Some t) r a b mctx = (ret, r')"
  shows "ret \<Longrightarrow> reduced r' (mont_N mctx) \<and> bn_int (mont_N mctx) dvd bn_int r' * mont_R mctx - bn_int a * bn_int b"
    "bn_room alloc (bn_top (mont_N mctx)) r \<Longrightarrow> ret"
proof -
  define n where "n = bn_top (mont_N mctx)"
  note M = mont_okD [OF assms(1)]
  have ab: "bn_ok a" "bn_ok b" "0 \<le> bn_int a" "0 \<le> bn_int b" "bn_top a \<le> n" "bn_top b \<le> n"
    using assms(3,4) reduced_top [OF assms(3) M(1)] reduced_top [OF assms(4) M(1)] by (simp_all add: reduced_def n_def)
  have "(ret \<longrightarrow> mont_quotient (bn_int a * bn_int b) mctx r' \<and> 0 \<le> bn_int r') \<and> (bn_room alloc n r \<longrightarrow> ret)"
  proof (cases "n \<le> 1 \<or> bn_top a \<noteq> n \<or> bn_top b \<noteq> n")
    case True
    have rt: "bn_room alloc (bn_top a + bn_top b) t" "bn_room alloc (2 * n) t" using assms(7) ab(5,6) by (auto intro: bn_room_mono simp: n_def)
    have eqab: "ab \<Longrightarrow> a = b" using assms(5) by simp
    obtain t1 where p: "(if ab then BN_sqr alloc False None t a else BN_mul alloc False None t a b) = (True, t1)"
      "bn_ok t1" "bn_int t1 = bn_int a * bn_int b" "bn_grows t t1"
      by (rule product_step [OF assms(6) ab(1,2) eqab rt(1)])
    have red: "bn_montgomery_reduce alloc r t1 mctx = (ret, r')"
      using assms(8) True p(1) by (simp add: bn_mod_mul_montgomery_def bn_mod_mul_montgomery_simple_def n_def)
    have "bn_mag t1 < bn_int (mont_N mctx) * mont_R mctx" using product_below [OF assms(1,3,4)] p(3) ab(3,4) by (simp add: bn_mag_abs)
    note Rd = bn_montgomery_reduce_ok [OF assms(1,2) p(2) this red]
    show ?thesis using Rd bn_grows_room [OF p(4) rt(2)] ab(3,4) unfolding p(3) n_def by simp
  next
    case False
    then have "bn_montgomery_multiply alloc (Some t) r a b mctx = (ret, r')" using assms(8) by (simp add: bn_mod_mul_montgomery_def n_def)
    from bn_montgomery_multiply_ok(1) [OF assms(1-4) _ this] bn_montgomery_multiply_ok(2) [OF assms(1-4) _ this, of t] assms(6,7) False
    show ?thesis by (simp add: n_def)
  qed
  then show "ret \<Longrightarrow> reduced r' (mont_N mctx) \<and> bn_int (mont_N mctx) dvd bn_int r' * mont_R mctx - bn_int a * bn_int b"
    "bn_room alloc (bn_top (mont_N mctx)) r \<Longrightarrow> ret" by (auto simp: mont_quotient_def reduced_def n_def)
qed

text \<open>The Montgomery form of \<open>x\<close>.\<close>

definition mont_form :: "bn_mont_ctx \<Rightarrow> bignum \<Rightarrow> int \<Rightarrow> bool" where
  "mont_form mctx b x \<longleftrightarrow> reduced b (mont_N mctx) \<and> bn_int (mont_N mctx) dvd bn_int b - x * mont_R mctx"

lemma reduced_RR: "mont_ok mctx \<Longrightarrow> reduced (mont_RR mctx) (mont_N mctx)"
  by (simp add: mont_ok_def reduced_def)

lemma BN_to_montgomery_ok:
  assumes "mont_ok mctx" "bn_fits r" "reduced a (mont_N mctx)" "bn_fits t" "bn_room alloc (bn_top (mont_N mctx) * 2 + 2) t"
    and "BN_to_montgomery alloc (Some t) r a mctx = (ret, r')"
  shows "ret \<Longrightarrow> mont_form mctx r' (bn_int a)" "bn_room alloc (bn_top (mont_N mctx)) r \<Longrightarrow> ret"
proof -
  define N R where "N = bn_int (mont_N mctx)" and "R = mont_R mctx"
  note mm = bn_mod_mul_montgomery_ok [OF assms(1-3) reduced_RR [OF assms(1)] _ assms(4,5) assms(6) [unfolded BN_to_montgomery_def], folded N_def R_def]
  show "ret" if "bn_room alloc (bn_top (mont_N mctx)) r" using mm(2) that by simp
  assume ret
  then have r': "reduced r' (mont_N mctx)" "N dvd bn_int r' * R - bn_int a * bn_int (mont_RR mctx)" using mm(1) by simp_all
  have "N dvd R * R - bn_int (mont_RR mctx)" using assms(1) by (simp add: mont_ok_def N_def R_def minus_mod_eq_mult_div)
  then have "N dvd bn_int a * (R * R - bn_int (mont_RR mctx))" by (rule dvd_mult)
  then have "N dvd (bn_int r' * R - bn_int a * bn_int (mont_RR mctx)) - bn_int a * (R * R - bn_int (mont_RR mctx))" by (rule dvd_diff [OF r'(2)])
  also have "\<dots> = (bn_int r' - bn_int a * R) * R" by (simp add: algebra_simps)
  finally have "N dvd bn_int r' - bn_int a * R" using mont_cancel [OF assms(1)] by (simp add: N_def R_def)
  then show "mont_form mctx r' (bn_int a)" using r'(1) by (simp add: mont_form_def N_def R_def)
qed

lemma mont_form_mult:
  assumes "mont_ok mctx" "mont_form mctx a x" "mont_form mctx b y" "reduced r (mont_N mctx)"
    and "bn_int (mont_N mctx) dvd bn_int r * mont_R mctx - bn_int a * bn_int b"
  shows "mont_form mctx r (x * y)"
proof -
  define N R where "N = bn_int (mont_N mctx)" and "R = mont_R mctx"
  have d: "N dvd bn_int a - x * R" "N dvd bn_int b - y * R" "N dvd bn_int r * R - bn_int a * bn_int b"
    using assms(2,3,5) by (simp_all add: mont_form_def N_def R_def)
  have "N dvd (bn_int r * R - bn_int a * bn_int b) + (bn_int a - x * R) * bn_int b + (bn_int b - y * R) * (x * R)"
    by (intro dvd_add dvd_mult2 d)
  also have "\<dots> = (bn_int r - x * y * R) * R" by (simp add: algebra_simps)
  finally show ?thesis using mont_cancel [OF assms(1)] assms(4) by (simp add: mont_form_def N_def R_def)
qed

lemma BN_copy_room:
  assumes "bn_fits t" "bn_ok a" "BN_copy alloc t a = (ok, t1)" "bn_room alloc n t"
  shows "bn_room alloc n t1"
proof -
  obtain ok' t' where w: "bn_wexpand alloc t (int (bn_top a)) = (ok', t')" by fastforce
  have g: "bn_grows t t'" using bn_grows_wexpand [of t alloc "bn_top a"] w by simp
  have fl: "(f OR (g AND BN_FLG_CONSTTIME)) AND BN_FLG_STATIC_DATA = f AND BN_FLG_STATIC_DATA" for f g :: int
  proof -
    have "(f OR (g AND 4)) AND 2 = (f AND 2) OR (g AND (4 AND 2))" by (simp only: bit.conj_disj_distrib2 and.assoc)
    then show ?thesis by (simp add: BN_FLG_CONSTTIME_def BN_FLG_STATIC_DATA_def)
  qed
  show ?thesis
  proof (cases ok')
    case True
    have "bn_top a \<le> bn_dmax t'" using w True by (intro bn_wexpand_ok(2) [OF _ assms(1)]) simp
    then have "bn_dmax t1 = bn_dmax t'" "bn_flags t1 AND BN_FLG_STATIC_DATA = bn_flags t' AND BN_FLG_STATIC_DATA"
      using assms(3) w True bn_fits_top [OF bn_ok_fits [OF assms(2)]] fl by (auto simp: BN_copy_def bn_copy_words_eq bn_dmax_def)
    then show ?thesis using bn_grows_room [OF g assms(4)] by (simp add: bn_room_def can_expand_def)
  next
    case False
    then show ?thesis using assms(3) w bn_grows_room [OF g assms(4)] by (simp add: BN_copy_def)
  qed
qed

lemma BN_from_montgomery_ok:
  assumes "mont_ok mctx" "bn_fits r" "mont_form mctx a x" "bn_fits t" "BN_from_montgomery alloc (Some t) r a mctx = (ret, r')"
  shows "ret \<Longrightarrow> bn_ok r' \<and> bn_int r' = x mod bn_int (mont_N mctx)"
    "bn_room alloc (bn_top (mont_N mctx)) r \<Longrightarrow> bn_room alloc (bn_top (mont_N mctx) * 2 + 2) t \<Longrightarrow> ret"
proof -
  define n N R where "n = bn_top (mont_N mctx)" and "N = bn_int (mont_N mctx)" and "R = mont_R mctx"
  note M = mont_okD [OF assms(1), folded n_def N_def R_def]
  have a: "reduced a (mont_N mctx)" "bn_ok a" "0 \<le> bn_int a" "bn_int a < N" "N dvd bn_int a - x * R"
    using assms(3) M(6) by (simp_all add: mont_form_def reduced_def N_def R_def)
  obtain ok t1 where cp: "BN_copy alloc t a = (ok, t1)" by fastforce
  note C = BN_copy_correct [OF assms(4) a(2) cp]
  have d: "ok \<Longrightarrow> bn_montgomery_reduce alloc r t1 mctx = (ret, r')" "\<not> ok \<Longrightarrow> \<not> ret"
    using assms(5) cp by (auto simp: BN_from_montgomery_def split: bool.splits)
  have "N * 1 \<le> N * R" using M(6,8) by (intro mult_left_mono) simp_all
  then have "bn_mag t1 < N * R" if ok using C(3) [OF that] a(3,4) unfolding bn_mag_abs by linarith
  then have "bn_mag t1 < bn_int (mont_N mctx) * mont_R mctx" if ok using that by (simp only: N_def R_def)
  note Rd = bn_montgomery_reduce_ok [OF assms(1,2) _ this d(1)]
  show "bn_ok r' \<and> bn_int r' = x mod bn_int (mont_N mctx)" if ret
  proof -
    have ok using d(2) that by blast
    then have r': "bn_ok r'" "\<bar>bn_int r'\<bar> < N" "N dvd bn_int r' * R - bn_int a" "0 \<le> bn_int r'"
      using Rd(1) C(3) that a(3) by (auto simp: mont_quotient_def N_def R_def)
    have "N dvd (bn_int r' * R - bn_int a) + (bn_int a - x * R)" by (intro dvd_add r'(3) a(5))
    then have "N dvd (bn_int r' - x) * R" by (simp add: left_diff_distrib)
    then have "N dvd bn_int r' - x" using mont_cancel [OF assms(1)] by (simp add: N_def R_def)
    then have "bn_int r' mod N = x mod N" by (simp add: mod_eq_dvd_iff)
    then show ?thesis using r' by (simp add: N_def)
  qed
  have ta: "bn_top a \<le> n" using reduced_top [OF a(1) M(1)] by (simp add: n_def)
  show ret if "bn_room alloc (bn_top (mont_N mctx)) r" "bn_room alloc (bn_top (mont_N mctx) * 2 + 2) t"
  proof -
    have ok using C(1) bn_roomD [OF that(2)] ta by (simp add: n_def)
    have "bn_room alloc (2 * n) t1"
      using bn_room_mono [OF that(2), of "2 * n"] by (intro BN_copy_room [OF assms(4) a(2) cp]) (simp add: n_def)
    then show ?thesis using Rd(2) C(3) \<open>ok\<close> that(1) by (simp add: n_def)
  qed
qed

section \<open>The correctness of Montgomery arithmetic\<close>

text \<open>
  C5.  Montgomery multiplication: for a well-formed context and reduced numbers \<open>a\<close> and \<open>b\<close>
  the calls \<open>BN_to_montgomery\<close> on both, \<open>BN_mod_mul_montgomery\<close> and \<open>BN_from_montgomery\<close> return
  the residue of \<open>a * b\<close> if they succeed, whichever of the two multiplication routines
  is taken; and they succeed if the results and the temporary have the memory they need.
\<close>

theorem montgomery_multiplication_correct:
  assumes "mont_ok mctx" "reduced a (mont_N mctx)" "reduced b (mont_N mctx)" "bn_fits t" "bn_room alloc (bn_top (mont_N mctx) * 2 + 2) t"
    and "bn_fits x" "bn_fits y" "bn_fits z" "bn_fits r"
    and "BN_to_montgomery alloc (Some t) x a mctx = (ret1, x')" "BN_to_montgomery alloc (Some t) y b mctx = (ret2, y')"
    and "BN_mod_mul_montgomery alloc False (Some t) z x' y' mctx = (ret3, z')" "BN_from_montgomery alloc (Some t) r z' mctx = (ret4, r')"
  shows "(ret1 \<and> ret2 \<and> ret3 \<and> ret4 \<longrightarrow> bn_ok r' \<and> bn_int r' = (bn_int a * bn_int b) mod bn_int (mont_N mctx)) \<and>
    (list_all (bn_room alloc (bn_top (mont_N mctx))) [x, y, z, r] \<longrightarrow> ret1 \<and> ret2 \<and> ret3 \<and> ret4)"
proof -
  note X = BN_to_montgomery_ok [OF assms(1,6,2,4,5,10)] and Y = BN_to_montgomery_ok [OF assms(1,7,3,4,5,11)]
  have red: "ret1 \<Longrightarrow> reduced x' (mont_N mctx)" "ret2 \<Longrightarrow> reduced y' (mont_N mctx)" using X(1) Y(1) by (simp_all add: mont_form_def)
  note Z = bn_mod_mul_montgomery_ok [OF assms(1,8) red _ assms(4,5,12) [unfolded BN_mod_mul_montgomery_def]]
  have zf: "mont_form mctx z' (bn_int a * bn_int b)" if ret1 ret2 ret3
    using mont_form_mult [OF assms(1) X(1) Y(1)] Z(1) that by simp
  note F = BN_from_montgomery_ok [OF assms(1,9) zf assms(4,13)]
  show ?thesis using X(2) Y(2) Z(2) F assms(5) by auto
qed

text \<open>A context for the modulus 3: \<open>n0\<close> is \<open>- 1 / 3\<close> modulo \<open>2 ^ 64\<close>, and \<open>RR\<close> is 1.\<close>

definition mont_three :: bn_mont_ctx where
  "mont_three = \<lparr>mont_ri = 64, mont_RR = bn_small 1, mont_N = bn_small 3, mont_n0 = [0x5555555555555555, 0], mont_flags = 1\<rparr>"

lemma mont_three_ok: "mont_ok mont_three"
proof -
  note s = bn_small_ok [of 1, simplified] bn_small_ok [of 3, simplified]
  have "bn_d (bn_small 3) ! 0 * 0x5555555555555555 = (- 1 :: bn_word)" by (simp add: bn_small_def)
  moreover have "mont_R mont_three = 2 ^ 64" by (simp add: mont_R_def mont_three_def bn_small_def)
  ultimately show ?thesis using s by (simp add: mont_ok_def mont_three_def)
qed

theorem montgomery_multiplication_correct_witness:
  "case BN_to_montgomery (\<lambda>_. False) (Some bn_temp) bn_temp (bn_small 2) mont_three of (_, x) \<Rightarrow>
   case BN_mod_mul_montgomery (\<lambda>_. False) False (Some bn_temp) bn_temp x x mont_three of (_, z) \<Rightarrow>
   case BN_from_montgomery (\<lambda>_. False) (Some bn_temp) bn_temp z mont_three of (ret, r) \<Rightarrow> ret \<and> bn_int r = 1"
proof -
  obtain ret1 x where x: "BN_to_montgomery (\<lambda>_. False) (Some bn_temp) bn_temp (bn_small 2) mont_three = (ret1, x)" by fastforce
  obtain ret3 z where z: "BN_mod_mul_montgomery (\<lambda>_. False) False (Some bn_temp) bn_temp x x mont_three = (ret3, z)" by fastforce
  obtain ret4 r where r: "BN_from_montgomery (\<lambda>_. False) (Some bn_temp) bn_temp z mont_three = (ret4, r)" by fastforce
  note s = bn_small_ok [of 2, simplified] bn_small_ok [of 3, simplified]
  have N: "mont_N mont_three = bn_small 3" "bn_top (bn_small 3) = 1" by (simp_all add: mont_three_def bn_small_def)
  have red: "reduced (bn_small 2) (mont_N mont_three)" using s by (simp add: reduced_def N)
  have room: "bn_room (\<lambda>_. False) (bn_top (mont_N mont_three) * 2 + 2) bn_temp" by (rule bn_temp_facts) (simp add: N)
  note f = bn_temp_facts(1)
  have "list_all (bn_room (\<lambda>_. False) (bn_top (mont_N mont_three))) [bn_temp, bn_temp, bn_temp, bn_temp]"
    using bn_temp_facts(2) [of 1 "\<lambda>_. False"] by (simp add: N)
  with montgomery_multiplication_correct [OF mont_three_ok red red f room f f f f x x z r]
  have "ret4" "bn_int r = 1" using s by (simp_all add: N)
  then show ?thesis by (simp add: x z r)
qed

end
