(* ===== verification/BN_Results.thy ===== *)
theory BN_Results
  imports BN_Mont
begin

text \<open>
  Properties of the arithmetic functions that span bn_add.c, bn_shift.c, bn_mul.c
  and bn_sqr.c: results are well formed, and the two ways to square agree.
\<close>

text \<open>The value of a well-formed number determines its words.\<close>

lemma bn_ok_words_eq:
  assumes "bn_ok a" "bn_ok b" "bn_int a = bn_int b"
  shows "bn_top a = bn_top b" "take (bn_top a) (bn_d a) = take (bn_top b) (bn_d b)" "bn_neg a = bn_neg b"
proof -
  have m: "bn_mag a = bn_mag b" using assms(3) by (simp add: bn_mag_abs)
  show t: "bn_top a = bn_top b"
    using bn_ok_top_less [OF assms(1,2)] bn_ok_top_less [OF assms(2,1)] m by (metis less_irrefl linorder_neqE_nat)
  have "length (take (bn_top a) (bn_d a)) = length (take (bn_top b) (bn_d b))"
    using bn_fits_top [OF bn_ok_fits [OF assms(1)]] bn_fits_top [OF bn_ok_fits [OF assms(2)]] t by simp
  then show "take (bn_top a) (bn_d a) = take (bn_top b) (bn_d b)" using m by (intro bn_val_inj) (simp_all add: bn_mag_def)
  show "bn_neg a = bn_neg b" using bn_ok_neg [OF assms(1)] bn_ok_neg [OF assms(2)] assms(3) by simp
qed

text \<open>
  C39.  Squaring agrees with multiplication: with room for the product, \<open>BN_sqr\<close> and \<open>BN_mul\<close> of
  a number by itself both succeed and write the same words, whichever of the unrolled
  and the general routines the length of the number selects.
\<close>

theorem square_equals_product:
  assumes "bn_ok a" "bn_fits r" "bn_fits s" "bn_room alloc (2 * bn_top a) r" "bn_room alloc (2 * bn_top a) s"
    and "BN_sqr alloc False None r a = (ret1, r')" "BN_mul alloc False None s a a = (ret2, s')"
  shows "ret1 \<and> ret2 \<and> bn_ok r' \<and> bn_ok s' \<and> bn_top r' = bn_top s' \<and> take (bn_top r') (bn_d r') = take (bn_top s') (bn_d s') \<and>
    bn_neg r' = bn_neg s'"
proof -
  have "sqr_room alloc False None r a" using bn_roomD [OF assms(4)] by (simp add: sqr_room_def mult.commute)
  then have r: "ret1" "bn_ok r'" "bn_int r' = bn_int a * bn_int a" using BN_sqr_ok(1,3) [OF assms(2,1) _ assms(6)] by simp_all
  have "can_expand alloc s (bn_top a + bn_top a)" using bn_roomD [OF assms(5)] by (simp add: mult_2)
  then have s: "ret2" "bn_ok s'" "bn_int s' = bn_int a * bn_int a" using BN_mul_ok(1,3) [OF assms(3,1,1) _ assms(7)] by simp_all
  show ?thesis using r s bn_ok_words_eq [OF r(2) s(2)] by simp
qed

theorem square_equals_product_witness:
  "case (BN_sqr (\<lambda>_. False) False None bn_temp (bn_small (-3)), BN_mul (\<lambda>_. False) False None bn_temp (bn_small (-3)) (bn_small (-3))) of
     ((ret1, r), (ret2, s)) \<Rightarrow> ret1 \<and> ret2 \<and> take (bn_top r) (bn_d r) = take (bn_top s) (bn_d s)"
proof -
  obtain ret1 r where r: "BN_sqr (\<lambda>_. False) False None bn_temp (bn_small (-3)) = (ret1, r)" by fastforce
  obtain ret2 s where s: "BN_mul (\<lambda>_. False) False None bn_temp (bn_small (-3)) (bn_small (-3)) = (ret2, s)" by fastforce
  have "bn_room (\<lambda>_. False) (2 * bn_top (bn_small (-3))) bn_temp" by (rule bn_temp_facts) (simp add: bn_small_def)
  from square_equals_product [OF bn_small_ok(1) bn_temp_facts(1,1) this this r s] show ?thesis unfolding r s by auto
qed

text \<open>The outcome of a function that stores its result in a number of the caller.\<close>

definition outcome_typed :: "bool \<times> bignum \<Rightarrow> bool" where
  "outcome_typed x \<longleftrightarrow> (case x of (ret, r) \<Rightarrow> if ret then bn_ok r else bn_fits r)"

lemma bn_op_ok_typed: "bn_op_ok alloc r n x v \<Longrightarrow> outcome_typed x"
  by (cases x) (simp add: bn_op_ok_def outcome_typed_def)

text \<open>
  Well-formedness: applied to well-formed numbers, with a result that is any
  number inside its array, addition, subtraction, the shifts, multiplication and copying
  leave a well-formed number (no leading zero word, no negative zero) when they
  succeed, and when they fail the result is still inside its array.
\<close>

theorem arithmetic_well_formed:
  assumes "bn_fits r" "bn_ok a" "bn_ok b" "0 \<le> n"
  shows "outcome_typed (BN_add alloc r a b) \<and> outcome_typed (BN_sub alloc r a b) \<and> outcome_typed (BN_uadd alloc r a b) \<and>
    outcome_typed (BN_lshift alloc r a n) \<and> outcome_typed (BN_rshift alloc r a n) \<and>
    outcome_typed (BN_mul alloc False None r a b) \<and> outcome_typed (BN_copy alloc r a)"
proof -
  have "outcome_typed (BN_uadd alloc r a b)"
    using BN_uadd_correct [OF assms(1-3), of alloc] assms(1) by (cases "BN_uadd alloc r a b") (auto simp: outcome_typed_def)
  moreover have "outcome_typed (BN_mul alloc False None r a b)"
    using BN_mul_ok(1,2) [OF assms(1-3), of False None alloc] assms(1) by (cases "BN_mul alloc False None r a b") (auto simp: outcome_typed_def)
  moreover have "outcome_typed (BN_copy alloc r a)"
    using BN_copy_correct(2,3) [OF assms(1,2), of alloc] assms(1) by (cases "BN_copy alloc r a") (auto simp: outcome_typed_def)
  ultimately show ?thesis
    using bn_op_ok_typed [OF BN_add_ok [OF assms(1-3)]] bn_op_ok_typed [OF BN_sub_ok [OF assms(1-3)]]
      bn_op_ok_typed [OF bn_lshift_ok [OF assms(1,2,4)]] bn_op_ok_typed [OF bn_rshift_ok [OF assms(1,2,4)]]
    by (simp add: BN_lshift_def BN_rshift_def)
qed

theorem arithmetic_well_formed_witness:
  "outcome_typed (BN_sub (\<lambda>_. False) bn_temp (bn_small 5) (bn_small 5)) \<and> outcome_typed (BN_rshift (\<lambda>_. False) bn_temp (bn_small 5) 70)"
  using arithmetic_well_formed [of bn_temp "bn_small 5" "bn_small 5" 70 "\<lambda>_. False"] bn_small_ok [of 5] bn_temp_facts(1) by simp

end
