(* ===== verification/BN_Gcd.thy ===== *)
theory BN_Gcd
  imports BN_Mont
begin

text \<open>
  Greatest common divisors (libcrypto/bn/bn_gcd.c): the binary algorithm of
  \<open>BN_gcd\<close>.  The loop of \<open>euclid\<close> exchanges the pointers \<open>a\<close> and \<open>b\<close>; the model
  exchanges the numbers.  \<open>ctx\<close> has the answers of \<open>BN_CTX_get\<close>.  Nothing in the
  code bounds the number of iterations, so the loop is a partial function in which
  \<^const>\<open>None\<close> means that it does not end.
\<close>

section \<open>Definitions\<close>

text \<open>The arms of the loop in which one of the numbers is odd.\<close>

definition euclid_odd :: "(nat \<Rightarrow> bool) \<Rightarrow> bignum \<Rightarrow> bignum \<Rightarrow> bool \<times> bignum \<times> bignum" where
  "euclid_odd alloc a b =
     (if BN_is_odd a \<and> BN_is_odd b then
        (case BN_sub alloc a a b of
           (False, a) \<Rightarrow> (False, a, b)
         | (True, a) \<Rightarrow> (case BN_rshift1 alloc a a of (ok, a) \<Rightarrow> (ok, a, b)))
      else if BN_is_odd a \<and> \<not> BN_is_odd b then
        (case BN_rshift1 alloc b b of (ok, b) \<Rightarrow> (ok, a, b))
      else (case BN_rshift1 alloc a a of (ok, a) \<Rightarrow> (ok, a, b)))"

partial_function (option) euclid_loop ::
  "(nat \<Rightarrow> bool) \<Rightarrow> bignum \<Rightarrow> bignum \<Rightarrow> int \<Rightarrow> (bool \<times> bignum \<times> int) option" where
  "euclid_loop alloc a b shifts =
     (if BN_is_zero b then Some (True, a, shifts)
      else if BN_is_odd a \<or> BN_is_odd b then
        (case euclid_odd alloc a b of
           (ok, a, b) \<Rightarrow>
             if \<not> ok then Some (False, a, shifts)
             else if BN_cmp (Some a) (Some b) < 0 then euclid_loop alloc b a shifts
             else euclid_loop alloc a b shifts)
      else
        (case BN_rshift1 alloc a a of
           (ok, a) \<Rightarrow>
             if \<not> ok then Some (False, a, shifts)
             else case BN_rshift1 alloc b b of
                 (ok, b) \<Rightarrow> if \<not> ok then Some (False, a, shifts) else euclid_loop alloc a b (shifts + 1)))"

text \<open>\<open>euclid\<close> returns the pointer \<open>a\<close> at the end, or the null pointer.\<close>

definition euclid :: "(nat \<Rightarrow> bool) \<Rightarrow> bignum \<Rightarrow> bignum \<Rightarrow> bignum option option" where
  "euclid alloc a b =
     (case euclid_loop alloc a b 0 of
        None \<Rightarrow> None
      | Some (False, a, shifts) \<Rightarrow> Some None
      | Some (True, a, shifts) \<Rightarrow>
         (if shifts \<noteq> 0 then
            (case BN_lshift alloc a a shifts of (False, a) \<Rightarrow> Some None | (True, a) \<Rightarrow> Some (Some a))
          else Some (Some a)))"

definition BN_gcd :: "(nat \<Rightarrow> bool) \<Rightarrow> (nat \<Rightarrow> bignum option) \<Rightarrow> bignum \<Rightarrow> bignum \<Rightarrow> bignum \<Rightarrow> (bool \<times> bignum) option" where
  "BN_gcd alloc ctx r in_a in_b =
     (case ctx 0 of None \<Rightarrow> Some (False, r)
      | Some a \<Rightarrow>
       (case ctx 1 of None \<Rightarrow> Some (False, r)
        | Some b \<Rightarrow>
         (case BN_copy alloc a in_a of (False, a) \<Rightarrow> Some (False, r)
          | (True, a) \<Rightarrow>
           (case BN_copy alloc b in_b of (False, b) \<Rightarrow> Some (False, r)
            | (True, b) \<Rightarrow>
             (let a = a\<lparr>bn_neg := 0\<rparr>; b = b\<lparr>bn_neg := 0\<rparr>;
                  (a, b) = (if BN_cmp (Some a) (Some b) < 0 then (b, a) else (a, b))
              in case euclid alloc a b of
                   None \<Rightarrow> None
                 | Some None \<Rightarrow> Some (False, r)
                 | Some (Some t) \<Rightarrow> Some (BN_copy alloc r t))))))"

section \<open>The steps of the loop\<close>

lemma BN_is_odd_iff: "bn_ok a \<Longrightarrow> BN_is_odd a \<longleftrightarrow> odd (bn_int a)"
proof -
  assume a: "bn_ok a"
  have "BN_is_odd a \<longleftrightarrow> odd (bn_mag a)"
    using bit_bn_mag [OF bn_ok_fits [OF a], of 0] by (simp add: BN_is_odd_def bit_0 and_one_eq odd_iff_mod_2_eq_one)
  then show ?thesis by (simp add: bn_int_def)
qed

lemma gcd_halve: "odd b \<Longrightarrow> gcd (2 * c) b = gcd c (b :: int)"
  by (rule gcd_mult_left_left_cancel) simp

lemma gcd_binary:
  fixes a b :: int
  shows "odd a \<Longrightarrow> odd b \<Longrightarrow> gcd ((a - b) div 2) b = gcd a b"
    and "odd a \<Longrightarrow> even b \<Longrightarrow> gcd a (b div 2) = gcd a b"
    and "even a \<Longrightarrow> odd b \<Longrightarrow> gcd (a div 2) b = gcd a b"
    and "even a \<Longrightarrow> even b \<Longrightarrow> 2 * gcd (a div 2) (b div 2) = gcd a b"
proof -
  show "gcd ((a - b) div 2) b = gcd a b" if "odd a" "odd b"
  proof -
    have "gcd ((a - b) div 2) b = gcd (2 * ((a - b) div 2)) b" using that by (intro gcd_halve [symmetric]) simp
    also have "2 * ((a - b) div 2) = a - b" using that by simp
    finally show ?thesis by (simp add: gcd_diff1)
  qed
  show "gcd a (b div 2) = gcd a b" if "odd a" "even b"
    using gcd_halve [OF that(1), of "b div 2"] that(2) by (simp add: gcd.commute)
  show "gcd (a div 2) b = gcd a b" if "even a" "odd b"
    using gcd_halve [OF that(2), of "a div 2"] that(1) by simp
  show "2 * gcd (a div 2) (b div 2) = gcd a b" if "even a" "even b"
    using gcd_mult_distrib_int [of 2 "a div 2" "b div 2"] that by simp
qed

lemma BN_cmp_less: "bn_ok a \<Longrightarrow> bn_ok b \<Longrightarrow> BN_cmp (Some a) (Some b) < 0 \<longleftrightarrow> bn_int a < bn_int b"
  unfolding BN_cmp_sgn by (simp add: sgn_if)

text \<open>Halving a number in place always succeeds.\<close>

lemma rshift1_in_place:
  assumes "bn_ok a" "0 \<le> bn_int a"
  obtains a' where "BN_rshift1 alloc a a = (True, a')" "bn_ok a'" "bn_int a' = bn_int a div 2" "bn_grows a a'"
proof -
  obtain ok a' where e: "BN_rshift1 alloc a a = (ok, a')" by fastforce
  have op: "bn_op_ok alloc a (bn_top a) (ok, a') (sgn (bn_int a) * (bn_mag a div 2))"
    using bn_rshift_ok [OF bn_ok_fits [OF assms(1)] assms(1), of 1 alloc] e by (simp add: BN_rshift1_def)
  have "\<forall>k \<le> bn_top a. can_expand alloc a k" using bn_ok_fits [OF assms(1)] by (simp add: can_expand_def bn_fits_def)
  moreover have "sgn (bn_int a) * (bn_mag a div 2) = bn_int a div 2" using assms(2) by (simp add: bn_mag_abs sgn_if)
  moreover have "bn_grows a a'" using bn_rshift_grows [of a alloc a 1] e by (simp add: BN_rshift1_def)
  ultimately show ?thesis using that op e by (simp add: bn_op_ok_def)
qed

lemma sub_in_place:
  assumes "bn_ok a" "bn_ok b" "0 \<le> bn_int b" "bn_int b \<le> bn_int a"
  obtains a' where "BN_sub alloc a a b = (True, a')" "bn_ok a'" "bn_int a' = bn_int a - bn_int b" "bn_grows a a'"
proof -
  obtain ok a' where e: "BN_sub alloc a a b = (ok, a')" by fastforce
  have "bn_op_ok alloc a (max (bn_top a) (bn_top b) + 1) (ok, a') (bn_int a - bn_int b)"
    using BN_sub_ok [OF bn_ok_fits [OF assms(1)] assms(1,2), of alloc] e by simp
  moreover have ok
  proof -
    have neg: "bn_neg a = 0" "bn_neg b = 0" using bn_ok_neg [OF assms(1)] bn_ok_neg [OF assms(2)] assms(3,4) by auto
    have "can_expand alloc a (bn_top a)" using bn_ok_fits [OF assms(1)] by (simp add: can_expand_def bn_fits_def)
    moreover have "bn_mag b \<le> bn_mag a" using assms(3,4) by (simp add: bn_mag_abs)
    moreover from this have "0 \<le> BN_ucmp a b" unfolding BN_ucmp_sgn [OF assms(1,2)] by (simp add: sgn_if)
    ultimately show ok
      using e neg BN_usub_correct(1) [OF bn_ok_fits [OF assms(1)] assms(1,2)]
      by (auto simp: BN_sub_def Let_def BN_zero_def split: if_splits prod.splits)
  qed
  moreover have "bn_grows a a'" using BN_sub_grows [OF bn_ok_fits [OF assms(1)] assms(1,2), of alloc] e by simp
  ultimately show ?thesis using that e by (simp add: bn_op_ok_def)
qed

text \<open>
  One turn of the loop that leaves the number of shifts alone: it makes the pair
  smaller, keeps the greatest common divisor, and needs no memory.
\<close>

definition pair_step :: "bignum \<Rightarrow> bignum \<Rightarrow> bignum \<Rightarrow> bignum \<Rightarrow> bool" where
  "pair_step a b a' b' \<longleftrightarrow> bn_ok a' \<and> bn_ok b' \<and> 0 \<le> bn_int a' \<and> 0 \<le> bn_int b' \<and>
     bn_int a' + bn_int b' < bn_int a + bn_int b \<and> gcd (bn_int a') (bn_int b') = gcd (bn_int a) (bn_int b) \<and>
     bn_grows a a' \<and> bn_grows b b'"

lemma euclid_odd_step:
  assumes "bn_ok a" "bn_ok b" "0 < bn_int b" "bn_int b \<le> bn_int a" "BN_is_odd a \<or> BN_is_odd b"
  obtains a' b' where "euclid_odd alloc a b = (True, a', b')" "pair_step a b a' b'"
proof -
  have nn: "0 \<le> bn_int a" "0 \<le> bn_int b" "0 < bn_int a" using assms(3,4) by simp_all
  note odd = BN_is_odd_iff [OF assms(1)] BN_is_odd_iff [OF assms(2)]
  consider "odd (bn_int a)" "odd (bn_int b)" | "odd (bn_int a)" "even (bn_int b)" | "even (bn_int a)" "odd (bn_int b)"
    using assms(5) odd by auto
  then show ?thesis
  proof cases
    case 1
    obtain a1 where a1: "BN_sub alloc a a b = (True, a1)" "bn_ok a1" "bn_int a1 = bn_int a - bn_int b" "bn_grows a a1"
      by (rule sub_in_place [OF assms(1,2) nn(2) assms(4)])
    obtain a2 where a2: "BN_rshift1 alloc a1 a1 = (True, a2)" "bn_ok a2" "bn_int a2 = bn_int a1 div 2" "bn_grows a1 a2"
      by (rule rshift1_in_place [OF a1(2)]) (use a1(3) assms(4) in simp)
    have "euclid_odd alloc a b = (True, a2, b)" using 1 odd a1(1) a2(1) by (simp add: euclid_odd_def)
    moreover have "pair_step a b a2 b"
      using 1 a2 a1 assms nn bn_grows_trans [OF a1(4) a2(4)] gcd_binary(1) [OF 1] by (simp add: pair_step_def)
    ultimately show ?thesis by (rule that)
  next
    case 2
    obtain b1 where b1: "BN_rshift1 alloc b b = (True, b1)" "bn_ok b1" "bn_int b1 = bn_int b div 2" "bn_grows b b1"
      by (rule rshift1_in_place [OF assms(2) nn(2)])
    have "euclid_odd alloc a b = (True, a, b1)" using 2 odd b1(1) by (simp add: euclid_odd_def)
    moreover have "pair_step a b a b1" using b1 assms nn gcd_binary(2) [OF 2] by (simp add: pair_step_def)
    ultimately show ?thesis by (rule that)
  next
    case 3
    obtain a1 where a1: "BN_rshift1 alloc a a = (True, a1)" "bn_ok a1" "bn_int a1 = bn_int a div 2" "bn_grows a a1"
      by (rule rshift1_in_place [OF assms(1) nn(1)])
    have "euclid_odd alloc a b = (True, a1, b)" using 3 odd a1(1) by (simp add: euclid_odd_def)
    moreover have "pair_step a b a1 b" using a1 assms nn gcd_binary(3) [OF 3] by (simp add: pair_step_def)
    ultimately show ?thesis by (rule that)
  qed
qed

section \<open>The loop\<close>

text \<open>
  The loop ends, without any allocation, and what it returns becomes the greatest
  common divisor when it is shifted by the number of turns in which both numbers were even.
\<close>

lemma euclid_loop_ok:
  assumes "bn_ok a" "bn_ok b" "0 \<le> bn_int b" "bn_int b \<le> bn_int a"
  shows "\<exists>t k. euclid_loop alloc a b s = Some (True, t, s + int k) \<and> bn_ok t \<and> (bn_grows a t \<or> bn_grows b t) \<and>
    bn_int t * 2 ^ k = gcd (bn_int a) (bn_int b)"
  using assms
proof (induction "nat (bn_int a + bn_int b)" arbitrary: a b s rule: less_induct)
  case less
  note ok = less.prems
  show ?case
  proof (cases "bn_int b = 0")
    case True
    then have "BN_is_zero b" using BN_is_zero_iff [OF bn_ok_fits [OF ok(2)]] by (simp add: bn_mag_abs)
    then have "euclid_loop alloc a b s = Some (True, a, s + int 0)" by (simp add: euclid_loop.simps)
    moreover have "bn_int a * 2 ^ 0 = gcd (bn_int a) (bn_int b)" using True ok(3,4) by simp
    ultimately show ?thesis using ok(1) bn_grows_updates(6) by blast
  next
    case False
    then have nz: "\<not> BN_is_zero b" "0 < bn_int b" using BN_is_zero_iff [OF bn_ok_fits [OF ok(2)]] ok(3) by (simp_all add: bn_mag_abs)
    show ?thesis
    proof (cases "BN_is_odd a \<or> BN_is_odd b")
      case True
      obtain a' b' where st: "euclid_odd alloc a b = (True, a', b')" "pair_step a b a' b'"
        by (rule euclid_odd_step [OF ok(1,2) nz(2) ok(4) True])
      have dec: "nat (bn_int a' + bn_int b') < nat (bn_int a + bn_int b)" "nat (bn_int b' + bn_int a') < nat (bn_int a + bn_int b)"
        using st(2) by (simp_all add: pair_step_def)
      have g: "bn_grows a' t \<or> bn_grows b' t \<Longrightarrow> bn_grows a t \<or> bn_grows b t" "gcd (bn_int a) (bn_int b) = gcd (bn_int a') (bn_int b')" for t
        using st(2) bn_grows_trans [of a a' t] bn_grows_trans [of b b' t] by (auto simp: pair_step_def)
      show ?thesis
      proof (cases "BN_cmp (Some a') (Some b') < 0")
        case lt: True
        then have "bn_int a' \<le> bn_int b'" using BN_cmp_less [of a' b'] st(2) unfolding pair_step_def by linarith
        then obtain t k where "euclid_loop alloc b' a' s = Some (True, t, s + int k)" "bn_ok t" "bn_grows b' t \<or> bn_grows a' t"
          "bn_int t * 2 ^ k = gcd (bn_int b') (bn_int a')" using less.hyps [OF dec(2), of s] st(2) unfolding pair_step_def by blast
        moreover from this have "euclid_loop alloc a b s = Some (True, t, s + int k)"
          using st(1) lt nz(1) True by (subst euclid_loop.simps) simp
        ultimately show ?thesis using g(1) by (intro exI [of _ t] exI [of _ k]) (auto simp: g(2) gcd.commute)
      next
        case ge: False
        then have "bn_int b' \<le> bn_int a'" using BN_cmp_less [of a' b'] st(2) unfolding pair_step_def by linarith
        then obtain t k where "euclid_loop alloc a' b' s = Some (True, t, s + int k)" "bn_ok t" "bn_grows a' t \<or> bn_grows b' t"
          "bn_int t * 2 ^ k = gcd (bn_int a') (bn_int b')" using less.hyps [OF dec(1), of s] st(2) unfolding pair_step_def by blast
        moreover from this have "euclid_loop alloc a b s = Some (True, t, s + int k)"
          using st(1) ge nz(1) True by (subst euclid_loop.simps) simp
        ultimately show ?thesis using g(1) by (intro exI [of _ t] exI [of _ k]) (auto simp: g(2))
      qed
    next
      case ev: False
      have even: "even (bn_int a)" "even (bn_int b)" using ev BN_is_odd_iff [OF ok(1)] BN_is_odd_iff [OF ok(2)] by simp_all
      obtain a1 where a1: "BN_rshift1 alloc a a = (True, a1)" "bn_ok a1" "bn_int a1 = bn_int a div 2" "bn_grows a a1"
        by (rule rshift1_in_place [OF ok(1)]) (use ok in simp)
      obtain b1 where b1: "BN_rshift1 alloc b b = (True, b1)" "bn_ok b1" "bn_int b1 = bn_int b div 2" "bn_grows b b1"
        by (rule rshift1_in_place [OF ok(2,3)])
      have "nat (bn_int a1 + bn_int b1) < nat (bn_int a + bn_int b)" using nz(2) ok(4) a1(3) b1(3) by simp
      moreover have "0 \<le> bn_int b1" "bn_int b1 \<le> bn_int a1" using ok(3,4) a1(3) b1(3) by (simp_all add: zdiv_mono1)
      ultimately obtain t k where t: "euclid_loop alloc a1 b1 (s + 1) = Some (True, t, s + 1 + int k)" "bn_ok t" "bn_grows a1 t \<or> bn_grows b1 t"
        "bn_int t * 2 ^ k = gcd (bn_int a1) (bn_int b1)" using less.hyps [OF _ a1(2) b1(2), of "s + 1"] by blast
      have "euclid_loop alloc a b s = Some (True, t, s + int (Suc k))"
        using t(1) a1(1) b1(1) nz(1) ev by (subst euclid_loop.simps) (simp add: add.assoc)
      moreover have "bn_int t * 2 ^ Suc k = gcd (bn_int a) (bn_int b)"
        using t(4) gcd_binary(4) [OF even] a1(3) b1(3) by simp
      ultimately show ?thesis using t(2,3) bn_grows_trans [OF a1(4)] bn_grows_trans [OF b1(4)] by blast
    qed
  qed
qed

lemma shifted_top:
  assumes "bn_ok t" "bn_int t * 2 ^ k = v" "0 < v" "v < 2 ^ (64 * n)"
  shows "bn_top t + k div 64 \<le> n"
proof -
  have "0 < bn_int t" using assms(2,3) zero_less_mult_pos2 [of "bn_int t" "2 ^ k"] by simp
  then have t: "bn_top t > 0" "bn_mag t = bn_int t" using bn_ok_int_0 [OF assms(1)] by (auto simp: bn_mag_abs)
  have "(2 :: int) ^ (64 * (bn_top t - 1) + k) \<le> bn_int t * 2 ^ k"
    using bn_ok_mag_ge [OF assms(1) t(1)] t(2) by (simp add: power_add)
  also have "\<dots> < 2 ^ (64 * n)" using assms(2,4) by simp
  finally have "64 * (bn_top t - 1) + k < 64 * n" by (simp only: power_strict_increasing_iff)
  then show ?thesis using t(1) by linarith
qed

text \<open>
  \<open>euclid\<close> on a pair in order: it returns; the null pointer only if there is
  no room for one word more than the larger number has.
\<close>

lemma euclid_ok:
  assumes "bn_ok a" "bn_ok b" "0 \<le> bn_int b" "bn_int b \<le> bn_int a" "bn_int a < 2 ^ (64 * n)"
  shows "\<exists>res. euclid alloc a b = Some res \<and>
    (case res of None \<Rightarrow> \<not> (bn_room alloc (n + 1) a \<and> bn_room alloc (n + 1) b)
     | Some t \<Rightarrow> bn_ok t \<and> bn_int t = gcd (bn_int a) (bn_int b))"
proof -
  obtain t k where t: "euclid_loop alloc a b 0 = Some (True, t, int k)" "bn_ok t" "bn_grows a t \<or> bn_grows b t"
    "bn_int t * 2 ^ k = gcd (bn_int a) (bn_int b)" using euclid_loop_ok [OF assms(1-4), of alloc 0] by auto
  show ?thesis
  proof (cases "k = 0")
    case True
    then show ?thesis using t by (simp add: euclid_def)
  next
    case False
    obtain ok t' where l: "BN_lshift alloc t t (int k) = (ok, t')" by fastforce
    have "bn_op_ok alloc t (bn_top t + k div 64 + 1) (ok, t') (gcd (bn_int a) (bn_int b))"
      using bn_lshift_ok [OF bn_ok_fits [OF t(2)] t(2), of "int k" alloc] l t(4) by (simp add: BN_lshift_def)
    then have r: "ok \<Longrightarrow> bn_ok t' \<and> bn_int t' = gcd (bn_int a) (bn_int b)" "bn_room alloc (bn_top t + k div 64 + 1) t \<Longrightarrow> ok"
      by (simp_all add: bn_op_ok_def bn_room_def)
    have "ok" if room: "bn_room alloc (n + 1) a" "bn_room alloc (n + 1) b"
    proof (cases "bn_int a = 0")
      case True
      then have "bn_top t = 0" using t(4) assms(3,4) bn_ok_int_0 [OF t(2)] by simp
      then show ?thesis using l by (auto simp: BN_lshift_def bn_lshift_def Let_def)
    next
      case False
      then have "gcd (bn_int a) (bn_int b) \<le> bn_int a" using assms(3,4) by (intro zdvd_imp_le) simp_all
      then have "bn_top t + k div 64 \<le> n" using False assms(5) by (intro shifted_top [OF t(2,4)]) simp_all
      moreover have "bn_room alloc (n + 1) t" using t(3) bn_grows_room room by blast
      ultimately show ok using r(2) bn_room_mono [of alloc "n + 1" t] by simp
    qed
    then show ?thesis using t(1) False l r(1) by (cases ok) (auto simp: euclid_def)
  qed
qed

section \<open>The greatest common divisor\<close>

lemma copy_abs:
  assumes "bn_fits t" "bn_ok a" "BN_copy alloc t a = (True, t')"
  shows "bn_ok (t'\<lparr>bn_neg := 0\<rparr>)" "bn_int (t'\<lparr>bn_neg := 0\<rparr>) = \<bar>bn_int a\<bar>"
    "bn_room alloc n t \<Longrightarrow> bn_room alloc n (t'\<lparr>bn_neg := 0\<rparr>)"
proof -
  have c: "bn_ok t'" "bn_int t' = bn_int a" using BN_copy_correct(3) [OF assms] by simp_all
  show "bn_ok (t'\<lparr>bn_neg := 0\<rparr>)" using c(1) by (rule bn_ok_abs)
  show "bn_int (t'\<lparr>bn_neg := 0\<rparr>) = \<bar>bn_int a\<bar>" using c(2) by (simp add: bn_int_abs bn_mag_abs)
  show "bn_room alloc n t \<Longrightarrow> bn_room alloc n (t'\<lparr>bn_neg := 0\<rparr>)"
    using BN_copy_room [OF assms, of n] by (auto simp: bn_room_def can_expand_def bn_dmax_def)
qed

text \<open>
  C40.  The binary greatest common divisor: for any well-formed numbers, negative and zero
  included, \<open>BN_gcd\<close> returns; if it succeeds the result is well formed and is the
  greatest common divisor, and it succeeds if the two temporaries and the result
  have room for one word more than the longer number has.
\<close>

theorem BN_gcd_correct:
  assumes "bn_ok a" "bn_ok b" "ctx_fits ctx" "bn_fits r" "n = max (bn_top a) (bn_top b) + 1"
  shows "\<exists>ret r'. BN_gcd alloc ctx r a b = Some (ret, r') \<and>
    (ret \<longrightarrow> bn_ok r' \<and> bn_int r' = gcd (bn_int a) (bn_int b)) \<and>
    (pred_option (bn_room alloc n) (ctx 0) \<and> pred_option (bn_room alloc n) (ctx 1) \<and> bn_room alloc n r \<and>
      ctx 0 \<noteq> None \<and> ctx 1 \<noteq> None \<longrightarrow> ret)"
proof (cases "ctx 0 = None \<or> ctx 1 = None")
  case True
  then have "BN_gcd alloc ctx r a b = Some (False, r)" unfolding BN_gcd_def by (cases "ctx 0") simp_all
  then show ?thesis using True by (intro exI [of _ False] exI [of _ r]) (elim disjE; simp)
next
  case False
  then obtain s t where st: "ctx 0 = Some s" "ctx 1 = Some t" by auto
  then have fits: "bn_fits s" "bn_fits t" using assms(3) unfolding ctx_fits_def by (metis option.pred_inject(2))+
  obtain ok1 s1 where s1: "BN_copy alloc s a = (ok1, s1)" by fastforce
  obtain ok2 t1 where t1: "BN_copy alloc t b = (ok2, t1)" by fastforce
  have cp: "bn_room alloc n s \<Longrightarrow> ok1" "bn_room alloc n t \<Longrightarrow> ok2"
    using BN_copy_correct(1) [OF fits(1) assms(1) s1] BN_copy_correct(1) [OF fits(2) assms(2) t1] bn_roomD assms(5) by auto
  show ?thesis
  proof (cases "ok1 \<and> ok2")
    case False
    then show ?thesis using cp st s1 t1 by (cases ok1; cases ok2) (auto simp: BN_gcd_def [of alloc ctx, unfolded st])
  next
    case True
    define x y where "x = s1\<lparr>bn_neg := 0\<rparr>" and "y = t1\<lparr>bn_neg := 0\<rparr>"
    note x = copy_abs [OF fits(1) assms(1), of alloc s1, folded x_def] and y = copy_abs [OF fits(2) assms(2), of alloc t1, folded y_def]
    define p q where "p = (if BN_cmp (Some x) (Some y) < 0 then y else x)" and "q = (if BN_cmp (Some x) (Some y) < 0 then x else y)"
    have pq: "bn_ok p" "bn_ok q" "0 \<le> bn_int q" "bn_int q \<le> bn_int p" "gcd (bn_int p) (bn_int q) = gcd (bn_int a) (bn_int b)"
      using x y s1 t1 True BN_cmp_less [of x y] by (auto simp: p_def q_def gcd.commute)
    have w: "bn_int p < 2 ^ (64 * max (bn_top a) (bn_top b))"
    proof -
      have "\<bar>bn_int c\<bar> < 2 ^ (64 * max (bn_top a) (bn_top b))" if "bn_ok c" "bn_top c \<le> max (bn_top a) (bn_top b)" for c
        using bn_mag_less [OF bn_ok_fits [OF that(1)]] power_increasing [of "64 * bn_top c" "64 * max (bn_top a) (bn_top b)" "2 :: int"] that(2)
        unfolding bn_mag_abs by linarith
      then show ?thesis using x(2) y(2) s1 t1 True assms(1,2) by (simp add: p_def)
    qed
    have eq: "BN_gcd alloc ctx r a b =
      (case euclid alloc p q of None \<Rightarrow> None | Some None \<Rightarrow> Some (False, r) | Some (Some u) \<Rightarrow> Some (BN_copy alloc r u))"
      using True unfolding BN_gcd_def st by (simp add: s1 t1 x_def y_def p_def q_def Let_def)
    have room: "bn_room alloc n p" "bn_room alloc n q" if "bn_room alloc n s" "bn_room alloc n t"
      using x(3) y(3) s1 t1 True that by (simp_all add: p_def q_def)
    obtain res where res: "euclid alloc p q = Some res"
      "case res of None \<Rightarrow> \<not> (bn_room alloc n p \<and> bn_room alloc n q) | Some u \<Rightarrow> bn_ok u \<and> bn_int u = gcd (bn_int a) (bn_int b)"
      using euclid_ok [OF pq(1-4) w, of alloc] unfolding assms(5) pq(5) by blast
    show ?thesis
    proof (cases res)
      case None
      then show ?thesis using res eq room st by auto
    next
      case (Some u)
      then have u: "bn_ok u" "bn_int u = gcd (bn_int p) (bn_int q)" using res(2) pq(5) by simp_all
      have "bn_int u \<le> bn_int p \<or> bn_int p = 0" using pq(3,4) unfolding u(2) by (auto intro: zdvd_imp_le)
      then have "\<bar>bn_int u\<bar> < 2 ^ (64 * max (bn_top a) (bn_top b))" using w pq(3,4) u(2) by auto
      then have "bn_top u \<le> n" using bn_ok_top_le [OF u(1), of "max (bn_top a) (bn_top b)"] unfolding bn_mag_abs assms(5) by linarith
      then have "bn_room alloc n r \<Longrightarrow> can_expand alloc r (bn_top u)" by (intro bn_roomD)
      then show ?thesis using Some res(1) eq u(2) pq(5) BN_copy_correct(1,3) [OF assms(4) u(1)]
        by (cases "BN_copy alloc r u") auto
    qed
  qed
qed

theorem BN_gcd_correct_witness:
  "\<exists>r. BN_gcd (\<lambda>_. False) (\<lambda>_. Some bn_temp) bn_temp (bn_small (-12)) (bn_small 18) = Some (True, r) \<and> bn_ok r \<and> bn_int r = 6"
proof -
  note s = bn_small_ok [of "-12", simplified] bn_small_ok [of 18, simplified]
  have n: "2 = max (bn_top (bn_small (-12))) (bn_top (bn_small 18)) + 1" by (simp add: bn_small_def)
  have room: "bn_room (\<lambda>_. False) 2 bn_temp" by (rule bn_temp_facts) simp
  have g: "gcd (-12) (18 :: int) = 6" by (simp add: gcd_int_def gcd_nat.simps)
  from BN_gcd_correct [OF s(1,3) bn_temp_facts(3,1) n, of "\<lambda>_. False"] room show ?thesis unfolding s g by auto
qed

end
