(* ===== verification/Spec2Isabelle.thy ===== *)
theory Spec2Isabelle
  imports Libc_String CBS CBB_Fixed BER TLS_Buffer TLS_Content TLS13_Msg TLS13_Order Lhash SSL_Version PQueue Sort_Correct Stack DTLS_Record BN_Program BN_Convert BN_Results BN_Gcd
begin

text \<open>
  A verification library for the OpenBSD sources of LibreSSL: libc, libcrypto and
  libssl.

  \<^bold>\<open>The program.\<close>  The repository holds the parts of OpenBSD from which LibreSSL is
  built.  Under src/lib, \<open>libc\<close> has the C library functions that the rest relies on,
  \<open>libcrypto\<close> the containers, big numbers, parsers and algorithms, \<open>libssl\<close> the TLS
  and DTLS protocols, and \<open>libtls\<close> a simpler interface to them.  The commands openssl,
  nc and ocspcheck under src/usr.bin and src/usr.sbin use these libraries.  The layers
  meet as follows.  A record arrives through the record layer and is kept in a
  \<open>tls_buffer\<close> or as \<open>tls_content\<close>; handshake messages are reassembled from them and
  read with \<open>CBS\<close>, and are built with \<open>CBB\<close>; a state machine decides which message may
  come next.  DTLS reads datagrams, drops replayed records and keeps those of the next
  epoch in a \<open>pqueue\<close>.  Stacks and hash tables hold the lists and caches of all of
  them.  Bignums carry the public key operations.

  \<^bold>\<open>Conventions.\<close>  Machine integers are words of their width (\<open>Prelude\<close>: \<open>u8\<close>, \<open>u16\<close>,
  \<open>u32\<close>, \<open>u64\<close>), or \<open>nat\<close> for a \<open>size_t\<close> whose range the code checks, with the
  wrap-around written out where it can happen.  An array is the list of its elements.
  A function that fails returns \<open>None\<close>, or 0 with the state in which it leaves its
  arguments.  The machine has 64-bit pointers and words.  The allocator is not modelled
  but a parameter \<open>alloc\<close>, a predicate that says which requests are granted: a property
  that quantifies over it holds under every pattern of failures.  Code outside the
  modelled files that a component calls (message handlers, record layer, transport,
  comparison and hash functions) is an argument of the definitions, and what is
  asked of it is a hypothesis of the properties, with a witness for each.

  \<^bold>\<open>Foundations.\<close>
  \<^item> \<open>Prelude\<close>: types, big-endian numbers, list and word lemmas, and the collections
    of rewrite rules that the components share.
  \<^item> \<open>Simulation\<close>: runs of operations and their simulation by a specification.

  \<^bold>\<open>libc.\<close>
  \<^item> \<open>Libc_Alloc\<close> (reallocarray.c, recallocarray.c): the checks for overflow of the
    array allocators, and which contents survive.
  \<^item> \<open>Libc_String\<close> (memchr.c to strlcat.c): the string functions over byte lists in
    which the terminating zero is explicit.  Shown: what \<open>strlcpy\<close> and \<open>strlcat\<close>
    return and write, with their bounds, and that the branch-free
    \<open>timingsafe_memcmp\<close> is the sign of \<open>memcmp\<close>.
  \<^item> \<open>Libc_Sort\<close>, \<open>Sort_Correct\<close> (heapsort.c, qsort.c, bsearch.c): the heap sort and the
    introspective quick sort with its depth limit, median selection and three-way
    partition.  The locale \<open>comparison\<close> is the contract of a comparison function; for
    every such function the result is sorted and a permutation, and \<open>bsearch\<close> finds.

  \<^bold>\<open>libcrypto, containers and parsers.\<close>
  \<^item> \<open>CBS\<close> (bs_cbs.c): all readers.  The locales \<open>cbs_reader\<close> and
    \<open>cbs_atomic_reader\<close> say that a reader stays within its bytes and consumes a
    prefix of them.  Shown: the element parser accepts exactly DER, its element and
    what it leaves are the two parts of its input, integers are read exactly if
    minimal, nothing beyond the end has influence.
  \<^item> \<open>CBB\<close>, \<open>CBB_Refine\<close>, \<open>CBB_Fixed\<close> (bs_cbb.c): the builder over a memory of \<open>CBB\<close> structures
    that share a buffer; pending length prefixes are written when the parent is used
    again.  The abstract builder is a path of open levels; \<open>cbb_appender\<close> is the
    contract of the functions that append bytes.  Every session of calls produces the
    bytes of the abstract one in a growing buffer; in a buffer of the caller it does
    so exactly if every state on the way fits, and never goes beyond the buffer.
  \<^item> \<open>BER\<close> (bs_ber.c): conversion of indefinite lengths.  Recursion ends at the depth
    limit 2048 of the source.  DER input is left alone; an indefinite length inside
    a definite one is missed (a finding).
  \<^item> \<open>Stack\<close> (stack.c): a stack is a list with a comparison function and a flag;
    fewer than \<open>2 ^ 28\<close> operations stay within an \<open>int\<close>, and from \<open>2 ^ 29\<close> elements on
    the search overflows (a finding).
  \<^item> \<open>Lhash\<close> (lhash.c): the linear hash table is a finite map, under growth and
    shrinking, as long as no reallocation of the bucket array fails; what is lost
    when one does (two findings); a walk visits every item once.

  \<^bold>\<open>libcrypto, bignums.\<close>
  \<^item> \<open>BN_Words\<close> (bn_internal.h, bn_primitives.c): additions, subtractions and
    multiplications of words without a wider type, each with its exact value.
  \<^item> \<open>BN_Arrays\<close> (bn_add.c, bn_mul.c): the loops over arrays, unrolled as in the
    source.  The locale \<open>word_chain\<close> is the law that a carry chain computes the value
    of its array; all loops are instances.  The unrolled products of four and eight
    words equal the schoolbook product.
  \<^item> \<open>BN\<close> (bn_lib.c): the structure with its capacity, sign and flags, expansion up to
    \<open>INT_MAX / 256\<close> words, normal form, comparison, bits, copies, swaps in constant time.
  \<^item> \<open>BN_Arith\<close> (bn_add.c, bn_shift.c, bn_word.c, bn_mul.c): the operations on
    numbers, on all branches.  Operands are read before the result is written, so
    that aliases are modelled by equal arguments; where the source distinguishes
    aliases (\<open>BN_mul\<close>) they are a parameter, as is the temporary from \<open>BN_CTX_get\<close>.
  \<^item> \<open>BN_Program\<close>: sequences of calls on variables.  The locales \<open>exact_calls\<close> and
    \<open>live_calls\<close> lift the laws of single calls; every sequence whose calls succeed
    computes what it computes on integers, and it succeeds if memory is
    available and values stay below \<open>BN_LIMIT\<close> (4000000) words, which leaves room for
    the words that intermediate results need.
  \<^item> \<open>BN_Convert\<close> (bn_convert.c): byte strings to numbers and back.
  \<^item> \<open>BN_Sqr\<close> (bn_sqr.c): squaring, which delivers the square if it has the memory and
    reports success in any case (finding).
  \<^item> \<open>BN_Div_Words\<close> (bn_div.c, bn_word.c): the division of two words by one and of three
    by two, with Knuth's bounds for the estimates, and of numbers by a word.
  \<^item> \<open>BN_Div\<close> (bn_div.c): long division.  One round of the loop computes one digit
    (\<open>div_step_exact\<close>), the loop the quotient of the normalised numbers, and
    \<open>BN_div_internal\<close> the quotient rounded towards 0 and the remainder, in constant time
    or not; the remainder that is lost without memory (finding).
  \<^item> \<open>BN_Mod\<close> (bn_mod.c): residues, sums, differences, products and shifts modulo a number
    of either sign, and the quick variants for reduced numbers.  \<open>bn_grows\<close> follows the
    memory of a result through several calls.
  \<^item> \<open>BN_Mont\<close> (bn_mont.c): Montgomery reduction and both multiplication routines divide
    by \<open>R\<close> modulo \<open>N\<close>; the conversions are inverse to each other.  The context is assumed
    to be well formed (\<open>mont_ok\<close>).
  \<^item> \<open>BN_Gcd\<close> (bn_gcd.c): the binary greatest common divisor ends and is correct.
  \<^item> \<open>BN_Results\<close>: results are well formed, and squares equal products.

  \<^bold>\<open>libssl.\<close>
  \<^item> \<open>TLS_Buffer\<close> (tls_buffer.c): a FIFO queue (locale \<open>byte_fifo\<close>); the locales
    \<open>byte_source\<close> and \<open>byte_source_live\<close> are what a reader of handshake data relies
    on, and are provided by buffers, by record contents and by the QUIC callback.
  \<^item> \<open>TLS_Content\<close> (tls_content.c): the window of the payload in a record.
  \<^item> \<open>TLS13_Msg\<close> (tls13_handshake_msg.c, tls13_quic.c): building and reassembling
    messages from any byte source, in any portions.
  \<^item> \<open>TLS13_Handshake\<close>, \<open>TLS13_Order\<close> (tls13_handshake.c): the table of states, the
    loop over actions and its interruptions.  The handlers and the record layer are
    arguments; the hypotheses on them say which messages they send and receive, kept in
    a log, and nothing of the transcript hash.  A call that succeeds has completed the
    handshake, and a handshake that is complete has exchanged the messages of one
    legal sequence, in order, without an alert.
  \<^item> \<open>SSL_Version\<close> (ssl_versions.c, ssl_seclevel.c): ranges of versions, negotiation
    between the two sides under any security callback, security levels.
  \<^item> \<open>PQueue\<close> (pqueue.c): records come out in order of their keys.
  \<^item> \<open>DTLS_Window\<close> (d1_pkt.c): the bitmap is an exact memory of 64 numbers.
  \<^item> \<open>DTLS_Record\<close> (d1_pkt.c, ssl_pkt.c, ssl_both.c): reading a record from datagrams.
    No record is accepted from the network twice within an epoch, but for handshake
    records while listening, where the source leaves out the check on purpose; the loop
    ends; two flaws of the replay protection are shown (findings).

  \<^bold>\<open>Bounds and fuel.\<close>  Most loops are recursive functions with termination proofs, and
  those that the source bounds (recursion depth of BER, depth limit of quick sort)
  have its bounds.  Where nothing in the code itself makes a recursion end, as in
  \<open>CBB_flush\<close> over a chain of structures that could be cyclic, in
  \<open>cbs_convert_indefinite\<close>, in the corrections of a digit in \<open>bn_div_words\<close> and
  \<open>bn_div_3_words\<close>, and in \<open>euclid\<close>, the function is a
  \<^theory_text>\<open>partial_function (option)\<close> and the properties state that it returns.  The only fuel is that of \<open>dtls1_get_loop\<close>, for the
  \<open>goto again\<close> of \<open>dtls1_get_record\<close>; its termination property gives an amount that is
  enough, computed from the datagrams that wait.

  \<^bold>\<open>Not modelled.\<close>  Exponentiation and the other number-theoretic bignum functions, ciphers,
  hash functions and curves; the ASN.1 template interpreter and what is built on it
  (X.509, CMS, PKCS, OCSP); BIO and EVP, which dispatch through method tables; the
  record layers and the message handlers, which are parameters here; configuration and
  session objects; libtls and the commands, which are mostly input and output; the
  memory allocator.  Freeing of memory is not modelled, as contents that are given
  up cannot be observed; nor is the timing of constant-time code, of which only the
  results are shown.
\<close>

end
